(* ===== verification/Prelude.thy ===== *)
theory Prelude
  imports Main "HOL-Library.Word"
begin

text \<open>
  What every component of the development shares: bytes and Go strings, the error values of the
  program, the result type of fallible functions, Go's \<open>int64\<close> arithmetic with its wrap-around,
  big-endian integers, and the \<open>io.Reader\<close> / \<open>io.Writer\<close> endpoints the streaming code talks to.
  Generic lemmas are declared \<open>[simp]\<close> or collected in \<open>result_simps\<close> and \<open>be_simps\<close>.
\<close>

unbundle bit_operations_syntax

named_theorems result_simps \<open>unfolding of the error-handling combinators\<close>
named_theorems be_simps \<open>big-endian encodings and their inverses\<close>

section \<open>Bytes and strings\<close>

type_synonym byte = "8 word"
type_synonym bytes = "byte list"

text \<open>
  A Go string is a byte sequence. Strings are kept as HOL \<open>string\<close>s (a \<open>char\<close> is exactly eight
  bits), and the conversions \<open>[]byte(s)\<close> and \<open>string(b)\<close> are the two bijections below.
\<close>

definition bytes_of :: "string \<Rightarrow> bytes" where
  "bytes_of s = map (\<lambda>c. word_of_nat (of_char c)) s"

definition string_of :: "bytes \<Rightarrow> string" where
  "string_of b = map (\<lambda>x. char_of (unat x)) b"

lemma unat_byte_lt [simp]: "unat (x :: byte) < 256"
  using unsigned_less [of x] by simp

lemma of_char_char_of_byte [simp]: "word_of_nat (of_char (char_of (unat (x :: byte)) :: char)) = x"
proof -
  have "of_char (char_of (unat x) :: char) = unat x mod (256 :: nat)"
    by (simp only: of_char_of)
  then have "of_char (char_of (unat x) :: char) = unat x"
    by simp
  then show ?thesis
    by simp
qed

lemma char_of_of_char_byte [simp]:
  "char_of (unat (word_of_nat (of_char c) :: byte)) = (c :: char)"
proof -
  have "of_char c < (256 :: nat)"
    by simp
  then have "unat (word_of_nat (of_char c) :: byte) = of_char c"
    by (simp add: unat_of_nat)
  then show ?thesis
    by simp
qed

lemma bytes_of_string_of [simp]: "bytes_of (string_of b) = b"
  by (simp add: bytes_of_def string_of_def comp_def)

lemma string_of_bytes_of [simp]: "string_of (bytes_of s) = s"
  by (simp add: bytes_of_def string_of_def comp_def)

lemma length_bytes_of [simp]: "length (bytes_of s) = length s"
  by (simp add: bytes_of_def)

lemma length_string_of [simp]: "length (string_of b) = length b"
  by (simp add: string_of_def)

lemma bytes_of_eq_iff [simp]: "bytes_of s = bytes_of t \<longleftrightarrow> s = t"
  by (metis string_of_bytes_of)

lemma string_of_eq_iff [simp]: "string_of a = string_of b \<longleftrightarrow> a = b"
  by (metis bytes_of_string_of)

lemma bytes_of_append [simp]: "bytes_of (s @ t) = bytes_of s @ bytes_of t"
  by (simp add: bytes_of_def)

lemma bytes_of_Nil [simp]: "bytes_of [] = []"
  by (simp add: bytes_of_def)

lemma bytes_of_eq_Nil [simp]: "bytes_of s = [] \<longleftrightarrow> s = []"
  by (simp add: bytes_of_def)

section \<open>Errors and results\<close>

text \<open>
  Integrity failures carry a kind (\<open>stream.Kind\<close>), the format string of their detail and the chunk
  index (\<open>-1\<close> when no chunk is named). A sentinel is one of the program's package-level error
  values, or one of \<open>io\<close>'s. \<open>Errorf m es\<close> is \<open>fmt.Errorf\<close> with format string \<open>m\<close> and the errors
  \<open>es\<close> it wraps with \<open>%w\<close>; the formatted arguments are not part of the model.
\<close>

datatype kind = KindHeader | KindChunk | KindSize

datatype sentinel =
    EOF | UnexpectedEOF
  | ErrWriterClosed | ErrRangeNotSatisfiable
  | ErrKIDInvalid | ErrUnknownKID | ErrUnwrap | ErrNoAuditKey
  | ErrNotBlindbucketFile
  | ErrVerify | ErrPartRules | ErrPartTooLarge
  | ErrToken | ErrPartTag
  | ErrName | ErrTooLong
  | ErrDamaged | ErrNoSalts
  | ErrNotEncrypted | ErrShortRead
  | ErrInvalidRange | ErrNotImplemented
  | ErrKeyringMalformed | ErrKeyringHasTenants | ErrKeyringBelowFloor | ErrTenantDestroyed | ErrTenantUnopened
  | ErrClosedPipe
  | ErrMissingAuth | ErrMalformedAuth | ErrUnknownAccessKey | ErrSignatureMismatch | ErrChunkSignature
  | ErrRequestTimeTooSkewed | ErrBucketNotAllowed | ErrUnsupportedPayload | ErrUnsupportedChecksum
  | ErrChecksumMismatch | ErrMalformedChunkedBody | ErrMissingContentLength
  | ErrMalformed | ErrOpen | ErrInvalidTag
  | ErrPresignDisabled | ErrPresignExpired | ErrPresignMalformed
  | ErrAuditMalformed | ErrTampered | ErrBroken | ErrWrongKey

datatype err =
    Sentinel sentinel
  | IntegrityError kind string int
  | APIError int string string
  | Errorf string "err list"

text \<open>Where the program would dereference a nil pointer the model answers with an error of its own.\<close>

definition nil_panic :: err where
  "nil_panic = Errorf ''panic: nil pointer dereference'' []"

text \<open>\<open>errors.Is\<close> for a sentinel, and \<open>errors.As\<close> for an integrity failure and for an error response of the
  storage provider (its status, code and message): all three walk the wrapped errors.\<close>

fun errors_is :: "sentinel \<Rightarrow> err \<Rightarrow> bool" where
  "errors_is s (Sentinel t) \<longleftrightarrow> s = t"
| "errors_is s (IntegrityError _ _ _) \<longleftrightarrow> False"
| "errors_is s (APIError _ _ _) \<longleftrightarrow> False"
| "errors_is s (Errorf _ es) \<longleftrightarrow> list_ex (errors_is s) es"

fun as_integrity :: "err \<Rightarrow> (kind \<times> string \<times> int) option" where
  "as_integrity (Sentinel _) = None"
| "as_integrity (IntegrityError k d c) = Some (k, d, c)"
| "as_integrity (APIError _ _ _) = None"
| "as_integrity (Errorf _ es) =
     (case filter (\<lambda>r. r \<noteq> None) (map as_integrity es) of [] \<Rightarrow> None | r # _ \<Rightarrow> r)"

fun as_api :: "err \<Rightarrow> (int \<times> string \<times> string) option" where
  "as_api (Sentinel _) = None"
| "as_api (IntegrityError _ _ _) = None"
| "as_api (APIError s c m) = Some (s, c, m)"
| "as_api (Errorf _ es) = (case filter (\<lambda>r. r \<noteq> None) (map as_api es) of [] \<Rightarrow> None | r # _ \<Rightarrow> r)"

type_synonym 'a result = "err + 'a"

text \<open>
  \<open>ebind m f\<close> is \<open>x, err := m; if err != nil \<open>{\<close> return err \<open>}\<close>; f(x)\<close>; \<open>echeck e k\<close> the same for a
  function that returns only an error, whose type here is \<open>err option\<close> with \<open>None\<close> for \<open>nil\<close>.
\<close>

definition ebind :: "'e + 'a \<Rightarrow> ('a \<Rightarrow> 'e + 'b) \<Rightarrow> 'e + 'b" where
  "ebind m f = (case m of Inl e \<Rightarrow> Inl e | Inr x \<Rightarrow> f x)"

definition echeck :: "'e option \<Rightarrow> 'e + 'a \<Rightarrow> 'e + 'a" where
  "echeck e k = (case e of None \<Rightarrow> k | Some x \<Rightarrow> Inl x)"

definition emap_err :: "('e \<Rightarrow> 'f) \<Rightarrow> 'e + 'a \<Rightarrow> 'f + 'a" where
  "emap_err g m = (case m of Inl e \<Rightarrow> Inl (g e) | Inr x \<Rightarrow> Inr x)"

definition is_ok :: "'e + 'a \<Rightarrow> bool" where
  "is_ok m = (case m of Inl _ \<Rightarrow> False | Inr _ \<Rightarrow> True)"

lemma ebind_simps [simp]:
  "ebind (Inl e) f = Inl e"
  "ebind (Inr x) f = f x"
  by (simp_all add: ebind_def)

lemma echeck_simps [simp]:
  "echeck None k = k"
  "echeck (Some e) k = Inl e"
  by (simp_all add: echeck_def)

lemma emap_err_simps [simp]:
  "emap_err g (Inl e) = Inl (g e)"
  "emap_err g (Inr x) = Inr x"
  by (simp_all add: emap_err_def)

lemma is_ok_simps [simp]:
  "\<not> is_ok (Inl e)"
  "is_ok (Inr x)"
  by (simp_all add: is_ok_def)

lemma ebind_eq_Inr [result_simps]: "ebind m f = Inr y \<longleftrightarrow> (\<exists>x. m = Inr x \<and> f x = Inr y)"
  by (auto simp: ebind_def split: sum.splits)

lemma echeck_eq_Inr [result_simps]: "echeck e k = Inr y \<longleftrightarrow> e = None \<and> k = Inr y"
  by (auto simp: echeck_def split: option.splits)

lemma emap_err_eq_Inr [result_simps]: "emap_err g m = Inr y \<longleftrightarrow> m = Inr y"
  by (auto simp: emap_err_def split: sum.splits)

lemma is_ok_iff [result_simps]: "is_ok m \<longleftrightarrow> (\<exists>x. m = Inr x)"
  by (auto simp: is_ok_def split: sum.splits)

section \<open>Go's \<open>int64\<close>\<close>

text \<open>
  Sizes are \<open>int64\<close> in the source. They are \<open>int\<close>s here, and every arithmetic operation wraps
  into the 64-bit two's-complement range as the machine does; \<open>/\<close> and \<open>%\<close> truncate towards zero.
\<close>

definition wrap64 :: "int \<Rightarrow> int" where
  "wrap64 x = (x + 2 ^ 63) mod 2 ^ 64 - 2 ^ 63"

definition in64 :: "int \<Rightarrow> bool" where
  "in64 x \<longleftrightarrow> - (2 ^ 63) \<le> x \<and> x < 2 ^ 63"

definition add64 :: "int \<Rightarrow> int \<Rightarrow> int" where "add64 a b = wrap64 (a + b)"
definition sub64 :: "int \<Rightarrow> int \<Rightarrow> int" where "sub64 a b = wrap64 (a - b)"
definition mul64 :: "int \<Rightarrow> int \<Rightarrow> int" where "mul64 a b = wrap64 (a * b)"
definition quot64 :: "int \<Rightarrow> int \<Rightarrow> int" where
  "quot64 a b = wrap64 (sgn a * sgn b * (\<bar>a\<bar> div \<bar>b\<bar>))"
definition rem64 :: "int \<Rightarrow> int \<Rightarrow> int" where
  "rem64 a b = sgn a * (\<bar>a\<bar> mod \<bar>b\<bar>)"
definition shl64 :: "int \<Rightarrow> nat \<Rightarrow> int" where "shl64 a n = wrap64 (a * 2 ^ n)"

lemma wrap64_id [simp]: "in64 x \<Longrightarrow> wrap64 x = x"
  by (simp add: wrap64_def in64_def)

lemma in64_wrap64 [simp]: "in64 (wrap64 x)"
  using pos_mod_bound [of "2 ^ 64" "x + 2 ^ 63"] pos_mod_sign [of "2 ^ 64" "x + 2 ^ 63"]
  by (simp add: wrap64_def in64_def)

lemma quot64_nonneg: "0 \<le> a \<Longrightarrow> 0 < b \<Longrightarrow> in64 a \<Longrightarrow> quot64 a b = a div b"
proof -
  assume a: "0 \<le> a" and b: "0 < b" and i: "in64 a"
  have "a div b \<le> a"
    using a b by (metis div_by_1 int_one_le_iff_zero_less zdiv_mono2 zero_less_one)
  moreover have "0 \<le> a div b"
    using a b by (simp add: pos_imp_zdiv_nonneg_iff)
  ultimately have "in64 (a div b)"
    using i by (auto simp: in64_def)
  with a b show ?thesis
    by (cases "a = 0") (auto simp: quot64_def sgn_if)
qed

lemma rem64_nonneg: "0 \<le> a \<Longrightarrow> 0 < b \<Longrightarrow> rem64 a b = a mod b"
  by (cases "a = 0") (auto simp: rem64_def sgn_if)

section \<open>Big-endian integers\<close>

text \<open>\<open>binary.BigEndian.PutUintN\<close> of the low \<open>8 * n\<close> bits of a value, and \<open>UintN\<close> back.\<close>

fun be_bytes :: "nat \<Rightarrow> nat \<Rightarrow> bytes" where
  "be_bytes 0 v = []"
| "be_bytes (Suc n) v = be_bytes n (v div 256) @ [word_of_nat v]"

definition be_nat :: "bytes \<Rightarrow> nat" where
  "be_nat bs = foldl (\<lambda>a b. a * 256 + unat b) 0 bs"

lemma length_be_bytes [simp]: "length (be_bytes n v) = n"
  by (induction n arbitrary: v) auto

lemma be_nat_Nil [simp]: "be_nat [] = 0"
  by (simp add: be_nat_def)

lemma be_nat_snoc [simp]: "be_nat (bs @ [b]) = be_nat bs * 256 + unat b"
  by (simp add: be_nat_def)

lemma unat_word_of_nat_byte: "unat (word_of_nat v :: byte) = v mod 256"
  by (simp add: unat_of_nat)

lemma be_nat_be_bytes [be_simps]: "be_nat (be_bytes n v) = v mod 256 ^ n"
proof (induction n arbitrary: v)
  case 0
  then show ?case by simp
next
  case (Suc n)
  have "be_nat (be_bytes (Suc n) v) = (v div 256) mod 256 ^ n * 256 + v mod 256"
    by (simp add: Suc.IH unat_word_of_nat_byte)
  also have "\<dots> = v mod (256 * 256 ^ n)"
    using mod_mult2_eq [of v 256 "256 ^ n"] by (simp add: mult.commute)
  finally show ?case by simp
qed

lemma be_nat_lt: "be_nat bs < 256 ^ length bs"
proof (induction bs rule: rev_induct)
  case Nil
  then show ?case by simp
next
  case (snoc b bs)
  have "be_nat bs * 256 + unat b < (be_nat bs + 1) * 256"
    by simp
  also have "\<dots> \<le> 256 ^ length bs * 256"
    using snoc.IH by (intro mult_le_mono1) simp
  finally show ?case by simp
qed

lemma be_bytes_be_nat [be_simps]: "n = length bs \<Longrightarrow> be_bytes n (be_nat bs) = bs"
proof (induction bs arbitrary: n rule: rev_induct)
  case Nil
  then show ?case by simp
next
  case (snoc b bs)
  have "(word_of_nat (be_nat bs * 256 + unat b) :: byte) = b"
    by (rule word_unat_eq_iff [THEN iffD2]) (simp only: unat_word_of_nat_byte, simp)
  moreover have "(be_nat bs * 256 + unat b) div 256 = be_nat bs"
    by simp
  ultimately show ?case
    using snoc by simp
qed

lemma be_nat_be_bytes_lt [simp]: "v < 256 ^ n \<Longrightarrow> be_nat (be_bytes n v) = v"
  by (simp add: be_nat_be_bytes)

lemma be_bytes_inj: "be_bytes n v = be_bytes n w \<Longrightarrow> v < 256 ^ n \<Longrightarrow> w < 256 ^ n \<Longrightarrow> v = w"
  by (metis be_nat_be_bytes_lt)

lemma unat_word32_be: "unat (w :: 32 word) < 256 ^ 4"
  using unsigned_less [of w] by simp

lemma unat_word64_be: "unat (w :: 64 word) < 256 ^ 8"
  using unsigned_less [of w] by simp

lemma be_bytes4_word_inj [simp]:
  "be_bytes 4 (unat (v :: 32 word)) = be_bytes 4 (unat w) \<longleftrightarrow> v = w"
  by (metis be_bytes_inj unat_word32_be word_unat_eq_iff)

lemma be_bytes8_word_inj [simp]:
  "be_bytes 8 (unat (v :: 64 word)) = be_bytes 8 (unat w) \<longleftrightarrow> v = w"
  by (metis be_bytes_inj unat_word64_be word_unat_eq_iff)

section \<open>Slices and in-place copies\<close>

text \<open>\<open>b[i:j]\<close>, and \<open>copy(dst[i:], src)\<close>, which copies as much as fits.\<close>

definition slice :: "nat \<Rightarrow> nat \<Rightarrow> 'a list \<Rightarrow> 'a list" where
  "slice i j xs = take (j - i) (drop i xs)"

definition copy_at :: "nat \<Rightarrow> 'a list \<Rightarrow> 'a list \<Rightarrow> 'a list" where
  "copy_at i src dst = take i dst @ take (length dst - i) src @ drop (i + length src) dst"

lemma length_slice [simp]: "j \<le> length xs \<Longrightarrow> length (slice i j xs) = j - i"
  by (simp add: slice_def)

lemma slice_append_drop: "i \<le> j \<Longrightarrow> slice i j xs @ drop j xs = drop i xs"
  using append_take_drop_id [of "j - i" "drop i xs"] by (simp add: slice_def)

lemma length_copy_at [simp]: "i \<le> length dst \<Longrightarrow> length (copy_at i src dst) = length dst"
  by (simp add: copy_at_def)

lemma copy_at_append:
  "length a = i \<Longrightarrow> length src = length b \<Longrightarrow> copy_at i src (a @ b @ c) = a @ src @ c"
  by (simp add: copy_at_def)

lemma list_eq_take_drop: "take n xs = take n ys \<Longrightarrow> drop n xs = drop n ys \<Longrightarrow> xs = ys"
  by (metis append_take_drop_id)

lemma drop_nth_Cons: "n < length xs \<Longrightarrow> drop n xs = xs ! n # drop (Suc n) xs"
  by (rule Cons_nth_drop_Suc [symmetric])

section \<open>Readers and writers\<close>

text \<open>
  An \<open>io.Reader\<close> the program is handed is the bytes it still has to deliver and the error it
  ends with, \<open>Sentinel EOF\<close> for a clean end. \<open>io.ReadFull\<close> does not depend on how the reader
  splits its bytes, and neither does \<open>bufio.Reader.Peek(1)\<close>.
\<close>

record source =
  src_data :: bytes
  src_end :: err

definition read_full :: "nat \<Rightarrow> source \<Rightarrow> bytes \<times> err option \<times> source" where
  "read_full n s =
     (if n \<le> length (src_data s)
      then (take n (src_data s), None, s\<lparr>src_data := drop n (src_data s)\<rparr>)
      else (src_data s,
            Some (if src_data s \<noteq> [] \<and> src_end s = Sentinel EOF then Sentinel UnexpectedEOF
                  else src_end s),
            s\<lparr>src_data := []\<rparr>))"

lemma read_full_data:
  "read_full n s = (b, e, s') \<Longrightarrow>
   b = take n (src_data s) \<and> src_data s' = drop n (src_data s) \<and> src_end s' = src_end s"
  by (auto simp: read_full_def split: if_splits)

definition peek1 :: "source \<Rightarrow> err option" where
  "peek1 s = (if src_data s = [] then Some (src_end s) else None)"

text \<open>\<open>io.LimitReader\<close>: at most \<open>n\<close> bytes, then a clean end.\<close>

definition limit_reader :: "source \<Rightarrow> nat \<Rightarrow> source" where
  "limit_reader s n =
     (if n \<le> length (src_data s) then \<lparr>src_data = take n (src_data s), src_end = Sentinel EOF\<rparr>
      else s)"

text \<open>
  An \<open>io.Writer\<close> is what has been written to it and, for the writes to come, whether each
  succeeds (\<open>None\<close>) or stores only \<open>n\<close> bytes and fails (\<open>Some (n, e)\<close>); past the list every write
  succeeds.
\<close>

record sink =
  snk_out :: bytes
  snk_plan :: "(nat \<times> err) option list"

definition sink_write :: "bytes \<Rightarrow> sink \<Rightarrow> err option \<times> sink" where
  "sink_write p d =
     (case snk_plan d of
        [] \<Rightarrow> (None, d\<lparr>snk_out := snk_out d @ p\<rparr>)
      | None # pl \<Rightarrow> (None, d\<lparr>snk_out := snk_out d @ p, snk_plan := pl\<rparr>)
      | Some (n, e) # pl \<Rightarrow> (Some e, d\<lparr>snk_out := snk_out d @ take n p, snk_plan := pl\<rparr>))"

definition new_sink :: sink where
  "new_sink = \<lparr>snk_out = [], snk_plan = []\<rparr>"

lemma sink_write_reliable [simp]:
  "snk_plan d = [] \<Longrightarrow> sink_write p d = (None, d\<lparr>snk_out := snk_out d @ p\<rparr>)"
  by (simp add: sink_write_def)

lemma new_sink_simps [simp]: "snk_out new_sink = []" "snk_plan new_sink = []"
  by (simp_all add: new_sink_def)

text \<open>
  The loop of \<open>io.Copy\<close> and \<open>io.ReadAll\<close> over a reader's \<open>Read\<close>: collect what it delivers until it
  reports an error, and treat \<open>io.EOF\<close> as success. \<open>None\<close> is running out of fuel.
\<close>

fun drain :: "('s \<Rightarrow> bytes \<times> err option \<times> 's) \<Rightarrow> nat \<Rightarrow> 's \<Rightarrow> (bytes \<times> err option \<times> 's) option"
where
  "drain rd 0 s = None"
| "drain rd (Suc fuel) s =
     (case rd s of
        (b, Some e, s') \<Rightarrow> Some (b, if e = Sentinel EOF then None else Some e, s')
      | (b, None, s') \<Rightarrow>
          map_option (\<lambda>(bs, r, t). (b @ bs, r, t)) (drain rd fuel s'))"

text \<open>
  The contract of an \<open>io.Reader\<close> of the program: from a state that satisfies its invariant,
  \<open>Read\<close> with a buffer of \<open>k > 0\<close> bytes delivers a non-empty prefix of the bytes still to come,
  or, once nothing is left, the error the reader ends with. A client that copies it gets exactly
  those bytes and that outcome.
\<close>

locale byte_reader =
  fixes read :: "nat \<Rightarrow> 's \<Rightarrow> bytes \<times> err option \<times> 's"
    and rest :: "'s \<Rightarrow> bytes"
    and outcome :: "'s \<Rightarrow> err"
    and inv :: "'s \<Rightarrow> bool"
  assumes read_some: "inv s \<Longrightarrow> 0 < k \<Longrightarrow> rest s \<noteq> [] \<Longrightarrow>
      \<exists>b s'. read k s = (b, None, s') \<and> b \<noteq> [] \<and> rest s = b @ rest s' \<and>
        outcome s' = outcome s \<and> inv s'"
    and read_none: "inv s \<Longrightarrow> 0 < k \<Longrightarrow> rest s = [] \<Longrightarrow>
      \<exists>s'. read k s = ([], Some (outcome s), s')"
begin

lemma drain_rest:
  assumes "inv s" and "0 < k" and "length (rest s) < fuel"
  shows "\<exists>s'. drain (read k) fuel s =
    Some (rest s, if outcome s = Sentinel EOF then None else Some (outcome s), s')"
  using assms
proof (induction fuel arbitrary: s)
  case 0
  then show ?case by simp
next
  case (Suc fuel)
  show ?case
  proof (cases "rest s = []")
    case True
    with Suc.prems read_none [of s k] obtain s' where "read k s = ([], Some (outcome s), s')"
      by blast
    with True show ?thesis by simp
  next
    case False
    with Suc.prems read_some [of s k] obtain b s' where
      r: "read k s = (b, None, s')" and b: "b \<noteq> []" "rest s = b @ rest s'"
        "outcome s' = outcome s" "inv s'"
      by blast
    have "length (rest s') < fuel"
      using Suc.prems(3) b by (cases b) auto
    with Suc.IH [of s'] b Suc.prems(2) obtain t where
      "drain (read k) fuel s' =
        Some (rest s', if outcome s = Sentinel EOF then None else Some (outcome s), t)"
      by auto
    with r b show ?thesis by simp
  qed
qed

end

end
