(* ===== verification/GoCrypto.thy ===== *)
theory GoCrypto
  imports Prelude
begin

text \<open>
  The part of Go's \<open>crypto\<close> packages the program calls, as executable functions: \<open>crypto/sha256\<close>
  (FIPS 180-4), \<open>crypto/hmac\<close> (FIPS 198-1), \<open>crypto/hkdf\<close> (RFC 5869), \<open>crypto/aes\<close> (FIPS 197) and
  from \<open>crypto/cipher\<close> counter mode and GCM with 12-byte nonces and 16-byte tags (SP 800-38D).
  The components never unfold these definitions. They use the lengths of the outputs, that
  counter mode is an involution, and the laws of the locale \<open>aead\<close>, which is interpreted on the
  GCM of this theory. \<open>crypto/rand\<close> is not modelled: what it delivers is an argument of the
  functions that draw from it.
\<close>

unbundle bit_operations_syntax

section \<open>SHA-256\<close>

type_synonym u32 = "32 word"
type_synonym hash_state = "u32 \<times> u32 \<times> u32 \<times> u32 \<times> u32 \<times> u32 \<times> u32 \<times> u32"

text \<open>
  The round constants and the initial state are the first 32 bits of the fractional parts of the cube
  roots of the first 64 primes and of the square roots of the first eight. \<open>iroot b k n 0\<close> is the
  integer \<open>k\<close>-th root of \<open>n\<close>, bit by bit from bit \<open>b - 1\<close> down.
\<close>

fun iroot :: "nat \<Rightarrow> nat \<Rightarrow> nat \<Rightarrow> nat \<Rightarrow> nat" where
  "iroot 0 k n r = r"
| "iroot (Suc b) k n r = iroot b k n (if (r + 2 ^ b) ^ k \<le> n then r + 2 ^ b else r)"

definition primes_below :: "nat \<Rightarrow> nat list" where
  "primes_below m = filter (\<lambda>n. \<forall>d\<in>set [2..<n]. n mod d \<noteq> 0) [2..<m]"

definition frac_root :: "nat \<Rightarrow> nat \<Rightarrow> u32" where
  "frac_root k p = word_of_nat (iroot 40 k (p * 2 ^ (32 * k)) 0)"

definition sha256_K :: "u32 list" where
  "sha256_K = map (frac_root 3) (primes_below 312)"

definition sha256_H0 :: hash_state where
  "sha256_H0 =
     (frac_root 2 2, frac_root 2 3, frac_root 2 5, frac_root 2 7,
      frac_root 2 11, frac_root 2 13, frac_root 2 17, frac_root 2 19)"

definition rotr32 :: "nat \<Rightarrow> u32 \<Rightarrow> u32" where
  "rotr32 n x = drop_bit n x OR push_bit (32 - n) x"

definition be_word32 :: "bytes \<Rightarrow> u32" where
  "be_word32 bs = word_of_nat (be_nat bs)"

definition sha256_pad :: "bytes \<Rightarrow> bytes" where
  "sha256_pad m =
     (let l = length m; z = (119 - l mod 64) mod 64
      in m @ [0x80] @ replicate z 0 @ be_bytes 8 (8 * l))"

fun sha256_words :: "bytes \<Rightarrow> u32 list" where
  "sha256_words (a # b # c # d # r) = be_word32 [a, b, c, d] # sha256_words r"
| "sha256_words _ = []"

text \<open>The message schedule, most recent word first.\<close>

fun sha256_extend :: "nat \<Rightarrow> u32 list \<Rightarrow> u32 list" where
  "sha256_extend 0 w = w"
| "sha256_extend (Suc n) w =
     (let w2 = w ! 1; w7 = w ! 6; w15 = w ! 14; w16 = w ! 15;
          s0 = rotr32 7 w15 XOR rotr32 18 w15 XOR drop_bit 3 w15;
          s1 = rotr32 17 w2 XOR rotr32 19 w2 XOR drop_bit 10 w2
      in sha256_extend n ((w16 + s0 + w7 + s1) # w))"

fun sha256_round :: "hash_state \<Rightarrow> u32 \<times> u32 \<Rightarrow> hash_state" where
  "sha256_round (a, b, c, d, e, f, g, h) (k, w) =
     (let S1 = rotr32 6 e XOR rotr32 11 e XOR rotr32 25 e;
          ch = (e AND f) XOR (NOT e AND g);
          t1 = h + S1 + ch + k + w;
          S0 = rotr32 2 a XOR rotr32 13 a XOR rotr32 22 a;
          maj = (a AND b) XOR (a AND c) XOR (b AND c);
          t2 = S0 + maj
      in (t1 + t2, a, b, c, d + t1, e, f, g))"

fun hash_add :: "hash_state \<Rightarrow> hash_state \<Rightarrow> hash_state" where
  "hash_add (a, b, c, d, e, f, g, h) (a', b', c', d', e', f', g', h') =
     (a + a', b + b', c + c', d + d', e + e', f + f', g + g', h + h')"

definition sha256_block :: "hash_state \<Rightarrow> bytes \<Rightarrow> hash_state" where
  "sha256_block st blk =
     hash_add st (foldl sha256_round st
       (zip sha256_K (rev (sha256_extend 48 (rev (sha256_words blk))))))"

function sha256_blocks :: "hash_state \<Rightarrow> bytes \<Rightarrow> hash_state" where
  "sha256_blocks st m =
     (if m = [] then st else sha256_blocks (sha256_block st (take 64 m)) (drop 64 m))"
  by pat_completeness auto
termination
  by (relation "measure (\<lambda>(st, m). length m)") auto

declare sha256_blocks.simps [simp del]

fun hash_bytes :: "hash_state \<Rightarrow> bytes" where
  "hash_bytes (a, b, c, d, e, f, g, h) = concat (map (\<lambda>x. be_bytes 4 (unat x)) [a, b, c, d, e, f, g, h])"

definition sha256 :: "bytes \<Rightarrow> bytes" where
  "sha256 m = hash_bytes (sha256_blocks sha256_H0 (sha256_pad m))"

lemma length_hash_bytes [simp]: "length (hash_bytes st) = 32"
  by (rule hash_bytes.cases [of st]) simp

lemma length_sha256 [simp]: "length (sha256 m) = 32"
  by (simp add: sha256_def)

section \<open>HMAC and HKDF over SHA-256\<close>

definition xor_bytes :: "bytes \<Rightarrow> bytes \<Rightarrow> bytes" where
  "xor_bytes a b = map2 (XOR) a b"

definition hmac :: "bytes \<Rightarrow> bytes \<Rightarrow> bytes" where
  "hmac key msg =
     (let k = (if length key > 64 then sha256 key else key);
          k0 = k @ replicate (64 - length k) 0
      in sha256 (map (\<lambda>x. x XOR 0x5c) k0 @ sha256 (map (\<lambda>x. x XOR 0x36) k0 @ msg)))"

lemma length_hmac [simp]: "length (hmac key msg) = 32"
  by (simp add: hmac_def Let_def)

text \<open>
  \<open>hkdf.Key(sha256.New, secret, salt, info, n)\<close>: extract, then expand. A nil salt is a string of
  zeroes; more than 255 hash lengths of output are refused.
\<close>

fun hkdf_expand :: "bytes \<Rightarrow> bytes \<Rightarrow> bytes \<Rightarrow> nat \<Rightarrow> nat \<Rightarrow> bytes" where
  "hkdf_expand prk info t i 0 = []"
| "hkdf_expand prk info t i (Suc n) =
     (let t' = hmac prk (t @ info @ [word_of_nat i]) in t' @ hkdf_expand prk info t' (i + 1) n)"

definition hkdf_Key :: "bytes \<Rightarrow> bytes \<Rightarrow> string \<Rightarrow> nat \<Rightarrow> bytes result" where
  "hkdf_Key secret salt info n =
     (if n > 255 * 32 then Inl (Errorf ''hkdf: requested key length too large'' [])
      else let prk = hmac (if salt = [] then replicate 32 0 else salt) secret
           in Inr (take n (hkdf_expand prk (bytes_of info) [] 1 ((n + 31) div 32))))"

lemma length_hkdf_expand [simp]: "length (hkdf_expand prk info t i n) = 32 * n"
  by (induction n arbitrary: t i) (auto simp: Let_def)

lemma hkdf_Key_ok: "n \<le> 255 * 32 \<Longrightarrow> \<exists>k. hkdf_Key secret salt info n = Inr k \<and> length k = n"
  by (auto simp: hkdf_Key_def Let_def)

text \<open>The 32-byte key every derivation of the program asks for.\<close>

definition hkdf32 :: "bytes \<Rightarrow> bytes \<Rightarrow> string \<Rightarrow> bytes" where
  "hkdf32 secret salt info =
     take 32 (hkdf_expand (hmac (if salt = [] then replicate 32 0 else salt) secret)
       (bytes_of info) [] 1 1)"

lemma hkdf_Key_32 [simp]: "hkdf_Key secret salt info 32 = Inr (hkdf32 secret salt info)"
  by (simp add: hkdf_Key_def hkdf32_def)

lemma length_hkdf32 [simp]: "length (hkdf32 secret salt info) = 32"
  by (simp add: hkdf32_def)

section \<open>AES\<close>

definition aes_sbox :: "byte list" where
  "aes_sbox = [
    0x63, 0x7c, 0x77, 0x7b, 0xf2, 0x6b, 0x6f, 0xc5, 0x30, 0x01, 0x67, 0x2b, 0xfe, 0xd7, 0xab, 0x76,
    0xca, 0x82, 0xc9, 0x7d, 0xfa, 0x59, 0x47, 0xf0, 0xad, 0xd4, 0xa2, 0xaf, 0x9c, 0xa4, 0x72, 0xc0,
    0xb7, 0xfd, 0x93, 0x26, 0x36, 0x3f, 0xf7, 0xcc, 0x34, 0xa5, 0xe5, 0xf1, 0x71, 0xd8, 0x31, 0x15,
    0x04, 0xc7, 0x23, 0xc3, 0x18, 0x96, 0x05, 0x9a, 0x07, 0x12, 0x80, 0xe2, 0xeb, 0x27, 0xb2, 0x75,
    0x09, 0x83, 0x2c, 0x1a, 0x1b, 0x6e, 0x5a, 0xa0, 0x52, 0x3b, 0xd6, 0xb3, 0x29, 0xe3, 0x2f, 0x84,
    0x53, 0xd1, 0x00, 0xed, 0x20, 0xfc, 0xb1, 0x5b, 0x6a, 0xcb, 0xbe, 0x39, 0x4a, 0x4c, 0x58, 0xcf,
    0xd0, 0xef, 0xaa, 0xfb, 0x43, 0x4d, 0x33, 0x85, 0x45, 0xf9, 0x02, 0x7f, 0x50, 0x3c, 0x9f, 0xa8,
    0x51, 0xa3, 0x40, 0x8f, 0x92, 0x9d, 0x38, 0xf5, 0xbc, 0xb6, 0xda, 0x21, 0x10, 0xff, 0xf3, 0xd2,
    0xcd, 0x0c, 0x13, 0xec, 0x5f, 0x97, 0x44, 0x17, 0xc4, 0xa7, 0x7e, 0x3d, 0x64, 0x5d, 0x19, 0x73,
    0x60, 0x81, 0x4f, 0xdc, 0x22, 0x2a, 0x90, 0x88, 0x46, 0xee, 0xb8, 0x14, 0xde, 0x5e, 0x0b, 0xdb,
    0xe0, 0x32, 0x3a, 0x0a, 0x49, 0x06, 0x24, 0x5c, 0xc2, 0xd3, 0xac, 0x62, 0x91, 0x95, 0xe4, 0x79,
    0xe7, 0xc8, 0x37, 0x6d, 0x8d, 0xd5, 0x4e, 0xa9, 0x6c, 0x56, 0xf4, 0xea, 0x65, 0x7a, 0xae, 0x08,
    0xba, 0x78, 0x25, 0x2e, 0x1c, 0xa6, 0xb4, 0xc6, 0xe8, 0xdd, 0x74, 0x1f, 0x4b, 0xbd, 0x8b, 0x8a,
    0x70, 0x3e, 0xb5, 0x66, 0x48, 0x03, 0xf6, 0x0e, 0x61, 0x35, 0x57, 0xb9, 0x86, 0xc1, 0x1d, 0x9e,
    0xe1, 0xf8, 0x98, 0x11, 0x69, 0xd9, 0x8e, 0x94, 0x9b, 0x1e, 0x87, 0xe9, 0xce, 0x55, 0x28, 0xdf,
    0x8c, 0xa1, 0x89, 0x0d, 0xbf, 0xe6, 0x42, 0x68, 0x41, 0x99, 0x2d, 0x0f, 0xb0, 0x54, 0xbb, 0x16]"

definition sub_byte :: "byte \<Rightarrow> byte" where
  "sub_byte b = aes_sbox ! unat b"

definition xtime :: "byte \<Rightarrow> byte" where
  "xtime b = (if bit b 7 then push_bit 1 b XOR 0x1b else push_bit 1 b)"

text \<open>
  Key expansion over four-byte words, most recent word first; \<open>nk\<close> is the key length in words
  (4, 6 or 8) and the round count is \<open>nk + 6\<close>.
\<close>

fun aes_expand :: "nat \<Rightarrow> nat \<Rightarrow> byte \<Rightarrow> nat \<Rightarrow> bytes list \<Rightarrow> bytes list" where
  "aes_expand nk i rcon 0 ws = ws"
| "aes_expand nk i rcon (Suc n) ws =
     (let t = hd ws;
          t' = (if i mod nk = 0
                then xor_bytes (map sub_byte (tl t @ [hd t])) [rcon, 0, 0, 0]
                else if nk > 6 \<and> i mod nk = 4 then map sub_byte t else t);
          rcon' = (if i mod nk = 0 then xtime rcon else rcon)
      in aes_expand nk (i + 1) rcon' n (xor_bytes (ws ! (nk - 1)) t' # ws))"

fun chunks_of :: "nat \<Rightarrow> nat \<Rightarrow> 'a list \<Rightarrow> 'a list list" where
  "chunks_of n 0 xs = []"
| "chunks_of n (Suc m) xs = take n xs # chunks_of n m (drop n xs)"

definition aes_round_keys :: "bytes \<Rightarrow> bytes list" where
  "aes_round_keys key =
     (let nk = length key div 4;
          ws = rev (aes_expand nk nk 1 (4 * (nk + 7) - nk) (rev (chunks_of 4 nk key)))
      in chunks_of 16 (nk + 7) (concat ws))"

definition shift_rows :: "bytes \<Rightarrow> bytes" where
  "shift_rows s = map (\<lambda>i. s ! i) [0, 5, 10, 15, 4, 9, 14, 3, 8, 13, 2, 7, 12, 1, 6, 11]"

fun mix_columns :: "bytes \<Rightarrow> bytes" where
  "mix_columns (a # b # c # d # r) =
     (let t = a XOR b XOR c XOR d
      in [a XOR t XOR xtime (a XOR b), b XOR t XOR xtime (b XOR c),
          c XOR t XOR xtime (c XOR d), d XOR t XOR xtime (d XOR a)] @ mix_columns r)"
| "mix_columns _ = []"

fun aes_rounds :: "bytes \<Rightarrow> bytes list \<Rightarrow> bytes" where
  "aes_rounds s [] = s"
| "aes_rounds s [k] = xor_bytes (shift_rows (map sub_byte s)) k"
| "aes_rounds s (k # ks) = aes_rounds (xor_bytes (mix_columns (shift_rows (map sub_byte s))) k) ks"

definition aes_encrypt :: "bytes \<Rightarrow> bytes \<Rightarrow> bytes" where
  "aes_encrypt key blk =
     (let ks = aes_round_keys key in aes_rounds (xor_bytes blk (hd ks)) (tl ks))"

text \<open>\<open>aes.NewCipher\<close> accepts 16, 24 and 32-byte keys; the cipher is the key itself.\<close>

definition aes_NewCipher :: "bytes \<Rightarrow> bytes result" where
  "aes_NewCipher key =
     (if length key \<in> {16, 24, 32} then Inr key else Inl (Errorf ''crypto/aes: invalid key size'' []))"

lemma aes_NewCipher_32 [simp]: "length k = 32 \<Longrightarrow> aes_NewCipher k = Inr k"
  by (simp add: aes_NewCipher_def)

section \<open>Counter mode\<close>

text \<open>
  \<open>keystream inc key ctr n\<close> is \<open>n\<close> bytes of the stream of encrypted counter blocks. \<open>cipher.NewCTR\<close>
  increments the whole block; GCM only its last 32 bits.
\<close>

definition pad16 :: "bytes \<Rightarrow> bytes" where
  "pad16 b = take 16 (b @ replicate 16 0)"

fun keystream :: "(bytes \<Rightarrow> bytes) \<Rightarrow> bytes \<Rightarrow> bytes \<Rightarrow> nat \<Rightarrow> bytes" where
  "keystream inc key ctr 0 = []"
| "keystream inc key ctr (Suc n) = pad16 (aes_encrypt key ctr) @ keystream inc key (inc ctr) n"

definition ctr_xor :: "(bytes \<Rightarrow> bytes) \<Rightarrow> bytes \<Rightarrow> bytes \<Rightarrow> bytes \<Rightarrow> bytes" where
  "ctr_xor inc key ctr p = xor_bytes p (keystream inc key ctr ((length p + 15) div 16))"

definition inc128 :: "bytes \<Rightarrow> bytes" where
  "inc128 c = be_bytes 16 (be_nat c + 1)"

definition inc32 :: "bytes \<Rightarrow> bytes" where
  "inc32 c = take 12 c @ be_bytes 4 (be_nat (drop 12 c) + 1)"

definition ctr_XORKeyStream :: "bytes \<Rightarrow> bytes \<Rightarrow> bytes \<Rightarrow> bytes" where
  "ctr_XORKeyStream key iv p = ctr_xor inc128 key iv p"

lemma length_xor_bytes [simp]: "length (xor_bytes a b) = min (length a) (length b)"
  by (simp add: xor_bytes_def)

lemma xor_bytes_cancel: "length a \<le> length b \<Longrightarrow> xor_bytes (xor_bytes a b) b = a"
  by (rule nth_equalityI) (auto simp: xor_bytes_def xor.assoc)

lemma length_keystream [simp]: "length (keystream inc key ctr n) = 16 * n"
  by (induction n arbitrary: ctr) (auto simp: pad16_def)

lemma length_ctr_xor [simp]: "length (ctr_xor inc key ctr p) = length p"
proof -
  have "length p \<le> 16 * ((length p + 15) div 16)"
    by simp
  then show ?thesis
    by (simp add: ctr_xor_def)
qed

lemma ctr_xor_involution [simp]: "ctr_xor inc key ctr (ctr_xor inc key ctr p) = p"
proof -
  have len: "length p \<le> length (keystream inc key ctr ((length p + 15) div 16))"
    by simp
  have "ctr_xor inc key ctr (ctr_xor inc key ctr p) =
      xor_bytes (xor_bytes p (keystream inc key ctr ((length p + 15) div 16)))
        (keystream inc key ctr ((length p + 15) div 16))"
    unfolding ctr_xor_def [of inc key ctr "ctr_xor inc key ctr p"] length_ctr_xor
    by (simp only: ctr_xor_def)
  then show ?thesis
    using xor_bytes_cancel [OF len] by simp
qed

lemma length_ctr_XORKeyStream [simp]: "length (ctr_XORKeyStream key iv p) = length p"
  by (simp add: ctr_XORKeyStream_def)

lemma ctr_XORKeyStream_involution [simp]:
  "ctr_XORKeyStream key iv (ctr_XORKeyStream key iv p) = p"
  by (simp add: ctr_XORKeyStream_def)

section \<open>GCM\<close>

text \<open>Multiplication in the field of 2 to the 128 elements with GCM's bit order, bit 127 of the word being the first.\<close>

fun gf_mul :: "nat \<Rightarrow> 128 word \<Rightarrow> 128 word \<Rightarrow> 128 word \<Rightarrow> 128 word" where
  "gf_mul 0 x v z = z"
| "gf_mul (Suc n) x v z =
     gf_mul n x
       (if bit v 0 then drop_bit 1 v XOR 0xe1000000000000000000000000000000 else drop_bit 1 v)
       (if bit x n then z XOR v else z)"

definition be_word128 :: "bytes \<Rightarrow> 128 word" where
  "be_word128 b = word_of_nat (be_nat b)"

fun ghash_blocks :: "128 word \<Rightarrow> 128 word \<Rightarrow> nat \<Rightarrow> bytes \<Rightarrow> 128 word" where
  "ghash_blocks h y 0 m = y"
| "ghash_blocks h y (Suc n) m =
     ghash_blocks h (gf_mul 128 (y XOR be_word128 (pad16 (take 16 m))) h 0) n (drop 16 m)"

definition gcm_tag :: "bytes \<Rightarrow> bytes \<Rightarrow> bytes \<Rightarrow> bytes \<Rightarrow> bytes" where
  "gcm_tag key nonce aad ct =
     (let h = be_word128 (aes_encrypt key (replicate 16 0));
          y1 = ghash_blocks h 0 ((length aad + 15) div 16) aad;
          y2 = ghash_blocks h y1 ((length ct + 15) div 16) ct;
          y3 = ghash_blocks h y2 1 (be_bytes 8 (8 * length aad) @ be_bytes 8 (8 * length ct));
          e = pad16 (aes_encrypt key (nonce @ [0, 0, 0, 1]))
      in xor_bytes (be_bytes 16 (unat y3)) e)"

definition gcm_NonceSize :: nat where "gcm_NonceSize = 12"
definition gcm_Overhead :: nat where "gcm_Overhead = 16"

text \<open>
  \<open>AEAD.Seal\<close> appends the ciphertext and its tag; \<open>AEAD.Open\<close> recomputes the tag over the ciphertext
  it is given and yields the plaintext only if the tags agree.
\<close>

definition gcm_Seal :: "bytes \<Rightarrow> bytes \<Rightarrow> bytes \<Rightarrow> bytes \<Rightarrow> bytes" where
  "gcm_Seal key nonce plain aad =
     (let ct = ctr_xor inc32 key (nonce @ [0, 0, 0, 2]) plain
      in ct @ gcm_tag key nonce aad ct)"

definition gcm_Open :: "bytes \<Rightarrow> bytes \<Rightarrow> bytes \<Rightarrow> bytes \<Rightarrow> bytes option" where
  "gcm_Open key nonce sealed aad =
     (if length sealed < 16 then None
      else let ct = take (length sealed - 16) sealed; tag = drop (length sealed - 16) sealed
           in if tag = gcm_tag key nonce aad ct
              then Some (ctr_xor inc32 key (nonce @ [0, 0, 0, 2]) ct) else None)"

lemma length_gcm_tag [simp]: "length (gcm_tag key nonce aad ct) = 16"
  by (simp add: gcm_tag_def Let_def pad16_def)

text \<open>
  The contract of a \<open>cipher.AEAD\<close>: it expands by a fixed overhead, what was sealed opens to the
  plaintext under the same key, nonce and associated data, and a ciphertext that opens is exactly
  the one \<open>Seal\<close> makes of the plaintext it opens to.
\<close>

locale aead =
  fixes seal :: "bytes \<Rightarrow> bytes \<Rightarrow> bytes \<Rightarrow> bytes \<Rightarrow> bytes"
    and open' :: "bytes \<Rightarrow> bytes \<Rightarrow> bytes \<Rightarrow> bytes \<Rightarrow> bytes option"
    and overhead :: nat
  assumes length_seal: "length (seal k n p a) = length p + overhead"
    and open_seal: "open' k n (seal k n p a) a = Some p"
    and open_is_seal: "open' k n c a = Some p \<Longrightarrow> c = seal k n p a"
begin

lemma open_iff: "open' k n c a = Some p \<longleftrightarrow> c = seal k n p a"
  using open_seal open_is_seal by blast

lemma seal_inj: "seal k n p a = seal k n q a \<longleftrightarrow> p = q"
  by (metis open_seal option.inject)

lemma length_open: "open' k n c a = Some p \<Longrightarrow> length c = length p + overhead"
  using open_is_seal length_seal by blast

lemma open_too_short: "length c < overhead \<Longrightarrow> open' k n c a = None"
  using length_open [of k n c a] by (cases "open' k n c a") auto

end

interpretation gcm: aead gcm_Seal gcm_Open 16
proof
  fix k n p a
  show "length (gcm_Seal k n p a) = length p + 16"
    by (simp add: gcm_Seal_def Let_def)
  show "gcm_Open k n (gcm_Seal k n p a) a = Some p"
    by (simp add: gcm_Seal_def gcm_Open_def Let_def)
next
  fix k n c a p
  assume "gcm_Open k n c a = Some p"
  then have len: "16 \<le> length c"
    and tag: "drop (length c - 16) c = gcm_tag k n a (take (length c - 16) c)"
    and p: "p = ctr_xor inc32 k (n @ [0, 0, 0, 2]) (take (length c - 16) c)"
    by (auto simp: gcm_Open_def Let_def split: if_splits)
  have "gcm_Seal k n p a = take (length c - 16) c @ gcm_tag k n a (take (length c - 16) c)"
    by (simp add: gcm_Seal_def Let_def p)
  then show "c = gcm_Seal k n p a"
    by (simp flip: tag)
qed

lemmas gcm_simps [simp] = gcm.length_seal gcm.open_seal

lemma gcm_Seal_not_Nil [simp]: "gcm_Seal k n p a \<noteq> []"
  using gcm.length_seal [of k n p a] by (metis add_is_0 list.size(3) zero_neq_numeral)

end
