(* ===== verification/GoEncoding.thy ===== *)
theory GoEncoding
  imports Prelude
begin

text \<open>
  Go's \<open>encoding/base64\<close>, \<open>encoding/base32\<close> and \<open>encoding/hex\<close> as far as the program uses them, and
  the functions of \<open>strings\<close> it calls. The three text encodings share one construction: the bits of
  the bytes, most significant first, cut into groups of \<open>w\<close> and the last group filled with zeroes.
  The decoders of base64 and base32 drop carriage returns and line feeds before they look at
  anything else, as Go documents. The locale \<open>text_codec\<close> is what the components use of them.
\<close>

section \<open>Bits and groups\<close>

fun to_bits :: "nat \<Rightarrow> nat \<Rightarrow> bool list" where
  "to_bits 0 n = []"
| "to_bits (Suc w) n = to_bits w (n div 2) @ [odd n]"

definition from_bits :: "bool list \<Rightarrow> nat" where
  "from_bits bs = foldl (\<lambda>a b. 2 * a + of_bool b) 0 bs"

definition bits_of_bytes :: "bytes \<Rightarrow> bool list" where
  "bits_of_bytes bs = concat (map (\<lambda>b. to_bits 8 (unat b)) bs)"

function bit_group :: "nat \<Rightarrow> bool list \<Rightarrow> bool list list" where
  "bit_group w xs =
     (if w = 0 \<or> xs = [] then []
      else (take w xs @ replicate (w - length xs) False) # bit_group w (drop w xs))"
  by pat_completeness auto
termination
  by (relation "measure (\<lambda>(w, xs). length xs)") auto

function full_groups :: "nat \<Rightarrow> bool list \<Rightarrow> bool list list" where
  "full_groups w xs =
     (if w = 0 \<or> length xs < w then [] else take w xs # full_groups w (drop w xs))"
  by pat_completeness auto
termination
  by (relation "measure (\<lambda>(w, xs). length xs)") auto

declare bit_group.simps [simp del] full_groups.simps [simp del]

lemma bit_group_Nil [simp]: "bit_group w [] = []"
  by (simp add: bit_group.simps)

lemma length_to_bits [simp]: "length (to_bits w n) = w"
  by (induction w arbitrary: n) auto

lemma from_bits_Nil [simp]: "from_bits [] = 0"
  by (simp add: from_bits_def)

lemma from_bits_snoc [simp]: "from_bits (bs @ [b]) = 2 * from_bits bs + of_bool b"
  by (simp add: from_bits_def)

lemma from_bits_to_bits [simp]: "n < 2 ^ w \<Longrightarrow> from_bits (to_bits w n) = n"
proof (induction w arbitrary: n)
  case 0
  then show ?case by simp
next
  case (Suc w)
  then have "n div 2 < 2 ^ w" by auto
  with Suc.IH show ?case by (simp add: odd_two_times_div_two_succ)
qed

lemma from_bits_lt: "from_bits bs < 2 ^ length bs"
  by (induction bs rule: rev_induct) (auto simp: of_bool_def)

lemma to_bits_from_bits: "w = length bs \<Longrightarrow> to_bits w (from_bits bs) = bs"
proof (induction bs arbitrary: w rule: rev_induct)
  case Nil
  then show ?case by simp
next
  case (snoc b bs)
  then show ?case by (cases b) auto
qed

lemma length_bits_of_bytes [simp]: "length (bits_of_bytes bs) = 8 * length bs"
  by (induction bs) (auto simp: bits_of_bytes_def)

lemma bits_of_bytes_Cons: "bits_of_bytes (b # bs) = to_bits 8 (unat b) @ bits_of_bytes bs"
  by (simp add: bits_of_bytes_def)

lemma group_length: "g \<in> set (bit_group w xs) \<Longrightarrow> length g = w"
  by (induction w xs rule: bit_group.induct) (subst (asm) bit_group.simps, auto split: if_splits)

lemma length_group: "0 < w \<Longrightarrow> length (bit_group w xs) = (length xs + w - 1) div w"
proof (induction w xs rule: bit_group.induct)
  case (1 w xs)
  show ?case
  proof (cases "xs = []")
    case True
    with 1 show ?thesis by (simp add: bit_group.simps [of w xs])
  next
    case False
    with 1 have "length (bit_group w xs) = Suc ((length xs - w + w - 1) div w)"
      by (simp add: bit_group.simps [of w xs])
    also have "\<dots> = (length xs + w - 1) div w"
    proof (cases "w \<le> length xs")
      case True
      have "length xs + w - 1 = (length xs - 1) + w"
        using False by (cases xs) auto
      then have "(length xs + w - 1) div w = Suc ((length xs - 1) div w)"
        using \<open>0 < w\<close> by (simp only: div_add_self2 [OF neq0_conv [THEN iffD2]] Suc_eq_plus1)
      with True show ?thesis by simp
    next
      case f: False
      then have "(length xs + w - 1) div w = 1"
        using False by (cases xs) (auto intro!: div_nat_eqI)
      with f 1 show ?thesis by simp
    qed
    finally show ?thesis .
  qed
qed

lemma concat_group:
  "0 < w \<Longrightarrow> \<exists>p. p < w \<and> concat (bit_group w xs) = xs @ replicate p False"
proof (induction w xs rule: bit_group.induct)
  case (1 w xs)
  consider "xs = []" | "xs \<noteq> []" "length xs \<le> w" | "w < length xs"
    by fastforce
  then show ?case
  proof cases
    case 1
    with "1.prems" show ?thesis by (auto simp: bit_group.simps [of w xs])
  next
    case 2
    then have "bit_group w (drop w xs) = []" by (simp add: bit_group.simps)
    with 2 "1.prems" have "concat (bit_group w xs) = xs @ replicate (w - length xs) False"
      by (simp add: bit_group.simps [of w xs])
    moreover have "w - length xs < w"
      using 2 "1.prems" by (cases xs) auto
    ultimately show ?thesis by blast
  next
    case 3
    with "1.IH" "1.prems" obtain p where
      p: "p < w" "concat (bit_group w (drop w xs)) = drop w xs @ replicate p False"
      by fastforce
    from 3 have "xs \<noteq> []" by auto
    with 3 p(2) "1.prems" have "concat (bit_group w xs) = xs @ replicate p False"
      by (simp add: bit_group.simps [of w xs])
    with p show ?thesis by blast
  qed
qed

lemma full_groups_bits:
  "length r < 8 \<Longrightarrow> full_groups 8 (bits_of_bytes bs @ r) = map (\<lambda>b. to_bits 8 (unat b)) bs"
proof (induction bs)
  case Nil
  then show ?case by (simp add: bits_of_bytes_def full_groups.simps)
next
  case (Cons b bs)
  then show ?case
    by (subst full_groups.simps) (simp add: bits_of_bytes_Cons)
qed

definition bytes_of_bits :: "bool list \<Rightarrow> bytes" where
  "bytes_of_bits xs = map (\<lambda>g. word_of_nat (from_bits g)) (full_groups 8 xs)"

lemma bytes_of_bits_inv: "length r < 8 \<Longrightarrow> bytes_of_bits (bits_of_bytes bs @ r) = bs"
  by (simp add: bytes_of_bits_def full_groups_bits comp_def)

lemma bits_of_bytes_of_bits:
  "bits_of_bytes (bytes_of_bits xs) = take (8 * (length xs div 8)) xs"
proof (induction "length xs" arbitrary: xs rule: less_induct)
  case less
  show ?case
  proof (cases "length xs < 8")
    case True
    then show ?thesis by (simp add: bytes_of_bits_def full_groups.simps [of 8 xs] bits_of_bytes_def)
  next
    case False
    let ?ys = "drop 8 xs"
    have step: "bytes_of_bits xs = word_of_nat (from_bits (take 8 xs)) # bytes_of_bits ?ys"
      using False by (simp add: bytes_of_bits_def full_groups.simps [of 8 xs])
    have "from_bits (take 8 xs) < 256"
      using from_bits_lt [of "take 8 xs"] False by simp
    then have "to_bits 8 (unat (word_of_nat (from_bits (take 8 xs)) :: byte)) = take 8 xs"
      using False by (simp add: unat_word_of_nat_byte to_bits_from_bits)
    moreover have "bits_of_bytes (bytes_of_bits ?ys) = take (8 * (length ?ys div 8)) ?ys"
      using False by (intro less) auto
    moreover have "8 * (length xs div 8) = 8 + 8 * (length ?ys div 8)"
      using False by (simp add: le_div_geq)
    ultimately show ?thesis
      using False by (simp add: step bits_of_bytes_Cons take_add)
  qed
qed

section \<open>Alphabets\<close>

fun index_of :: "'a \<Rightarrow> 'a list \<Rightarrow> nat option" where
  "index_of x [] = None"
| "index_of x (y # ys) = (if x = y then Some 0 else map_option Suc (index_of x ys))"

lemma index_of_nth: "distinct ys \<Longrightarrow> i < length ys \<Longrightarrow> index_of (ys ! i) ys = Some i"
  by (induction ys arbitrary: i) (auto simp: nth_Cons split: nat.splits)

lemma index_of_Some: "index_of x ys = Some i \<Longrightarrow> i < length ys \<and> ys ! i = x"
  by (induction ys arbitrary: i) (auto split: if_splits)

text \<open>Every symbol's index, or nothing if one symbol is not in the alphabet.\<close>

fun indices :: "'a list \<Rightarrow> 'a list \<Rightarrow> nat list option" where
  "indices al [] = Some []"
| "indices al (c # cs) =
     (case index_of c al of None \<Rightarrow> None | Some i \<Rightarrow> map_option ((#) i) (indices al cs))"

lemma indices_map_nth:
  "distinct al \<Longrightarrow> \<forall>i\<in>set is. i < length al \<Longrightarrow> indices al (map (\<lambda>i. al ! i) is) = Some is"
  by (induction "is") (auto simp: index_of_nth)

lemma indices_Some: "indices al cs = Some is \<Longrightarrow> cs = map (\<lambda>i. al ! i) is \<and> (\<forall>i\<in>set is. i < length al)"
proof (induction cs arbitrary: "is")
  case Nil
  then show ?case by simp
next
  case (Cons c cs)
  then show ?case by (auto split: option.splits dest: index_of_Some)
qed

definition encode_bits :: "nat \<Rightarrow> string \<Rightarrow> bytes \<Rightarrow> string" where
  "encode_bits w al bs = map (\<lambda>g. al ! from_bits g) (bit_group w (bits_of_bytes bs))"

definition symbol_bits :: "nat \<Rightarrow> nat list \<Rightarrow> bool list" where
  "symbol_bits w is = concat (map (to_bits w) is)"

lemma length_symbol_bits [simp]: "length (symbol_bits w is) = w * length is"
  by (induction "is") (auto simp: symbol_bits_def)

lemma symbol_bits_group:
  "0 < w \<Longrightarrow> symbol_bits w (map from_bits (bit_group w xs)) = concat (bit_group w xs)"
proof -
  have "map (\<lambda>g. to_bits w (from_bits g)) (bit_group w xs) = map id (bit_group w xs)"
    by (rule map_cong) (auto simp: to_bits_from_bits dest: group_length)
  then show ?thesis by (simp add: symbol_bits_def comp_def)
qed

lemma indices_encode_bits:
  assumes "0 < w" and "distinct al" and "length al = 2 ^ w"
  shows "indices al (encode_bits w al bs) = Some (map from_bits (bit_group w (bits_of_bytes bs)))"
proof -
  have "\<forall>i\<in>set (map from_bits (bit_group w (bits_of_bytes bs))). i < length al"
    using assms(3) by (auto dest: group_length) (metis from_bits_lt group_length)
  from indices_map_nth [OF assms(2) this] show ?thesis
    by (simp add: encode_bits_def comp_def)
qed

lemma length_encode_bits: "0 < w \<Longrightarrow> length (encode_bits w al bs) = (8 * length bs + w - 1) div w"
  by (simp add: encode_bits_def length_group)

lemma encode_bits_alphabet:
  assumes "0 < w" and "length al = 2 ^ w"
  shows "set (encode_bits w al bs) \<subseteq> set al"
  using assms from_bits_lt by (fastforce simp: encode_bits_def dest: group_length intro!: nth_mem)

section \<open>Base64, base32 and hexadecimal\<close>

definition base64url_alphabet :: string where
  "base64url_alphabet = ''ABCDEFGHIJKLMNOPQRSTUVWXYZabcdefghijklmnopqrstuvwxyz0123456789-_''"

definition base32_alphabet :: string where
  "base32_alphabet = ''ABCDEFGHIJKLMNOPQRSTUVWXYZ234567''"

definition hex_alphabet :: string where
  "hex_alphabet = ''0123456789abcdef''"

definition strip_newlines :: "string \<Rightarrow> string" where
  "strip_newlines s = filter (\<lambda>c. c \<noteq> CHR 0x0A \<and> c \<noteq> CHR 0x0D) s"

definition err_corrupt :: err where
  "err_corrupt = Errorf ''illegal base64 data at input byte %d'' []"

text \<open>
  \<open>base64.RawURLEncoding\<close> and its \<open>Strict()\<close> variant. Without padding a final quantum of one symbol is
  an error, and one of two or three symbols carries bits past the last byte, which only the strict
  decoder requires to be zero.
\<close>

definition b64url_EncodeToString :: "bytes \<Rightarrow> string" where
  "b64url_EncodeToString bs = encode_bits 6 base64url_alphabet bs"

definition b64url_decode :: "bool \<Rightarrow> string \<Rightarrow> bytes result" where
  "b64url_decode strict s =
     (case indices base64url_alphabet (strip_newlines s) of
        None \<Rightarrow> Inl err_corrupt
      | Some is \<Rightarrow>
          (let bits = symbol_bits 6 is in
           if length is mod 4 = 1 then Inl err_corrupt
           else if strict \<and> True \<in> set (drop (8 * (length bits div 8)) bits) then Inl err_corrupt
           else Inr (bytes_of_bits bits)))"

definition b64url_DecodeString :: "string \<Rightarrow> bytes result" where
  "b64url_DecodeString s = b64url_decode False s"

definition b64url_DecodeString_strict :: "string \<Rightarrow> bytes result" where
  "b64url_DecodeString_strict s = b64url_decode True s"

text \<open>
  \<open>base32.StdEncoding.WithPadding(NoPadding)\<close>. A final quantum of one, three or six symbols, which
  no encoder produces, contributes nothing and is no error.
\<close>

definition b32_EncodeToString :: "bytes \<Rightarrow> string" where
  "b32_EncodeToString bs = encode_bits 5 base32_alphabet bs"

definition b32_DecodeString :: "string \<Rightarrow> bytes result" where
  "b32_DecodeString s =
     (case indices base32_alphabet (strip_newlines s) of
        None \<Rightarrow> Inl (Errorf ''illegal base32 data at input byte %d'' [])
      | Some is \<Rightarrow>
          (let n = length is;
               used = (if n mod 8 \<in> {1, 3, 6} then take (n - n mod 8) is else is)
           in Inr (bytes_of_bits (symbol_bits 5 used))))"

definition hex_EncodeToString :: "bytes \<Rightarrow> string" where
  "hex_EncodeToString bs = encode_bits 4 hex_alphabet bs"

lemma strip_newlines_id: "CHR 0x0A \<notin> set s \<Longrightarrow> CHR 0x0D \<notin> set s \<Longrightarrow> strip_newlines s = s"
  unfolding strip_newlines_def by (rule filter_True) metis

lemma strip_newlines_append [simp]: "strip_newlines (s @ t) = strip_newlines s @ strip_newlines t"
  by (simp add: strip_newlines_def)

lemma alphabets_distinct [simp]:
  "distinct base64url_alphabet" "distinct base32_alphabet" "distinct hex_alphabet"
  by (simp_all add: base64url_alphabet_def base32_alphabet_def hex_alphabet_def)

lemma length_alphabets [simp]:
  "length base64url_alphabet = 64" "length base32_alphabet = 32" "length hex_alphabet = 16"
  by (simp_all add: base64url_alphabet_def base32_alphabet_def hex_alphabet_def)

lemma alphabet_no_newline:
  "c \<in> {CHR 0x0A, CHR 0x0D, CHR ''/'', CHR ''.'', CHR 0x22} \<Longrightarrow> c \<notin> set base64url_alphabet"
  "c \<in> {CHR 0x0A, CHR 0x0D, CHR ''/'', CHR ''.'', CHR 0x22} \<Longrightarrow> c \<notin> set base32_alphabet"
  by (auto simp: base64url_alphabet_def base32_alphabet_def)

lemma set_b64url: "set (b64url_EncodeToString bs) \<subseteq> set base64url_alphabet"
  by (simp add: b64url_EncodeToString_def encode_bits_alphabet)

lemma set_b32: "set (b32_EncodeToString bs) \<subseteq> set base32_alphabet"
  by (simp add: b32_EncodeToString_def encode_bits_alphabet)

lemma strip_newlines_b64url [simp]: "strip_newlines (b64url_EncodeToString bs) = b64url_EncodeToString bs"
  using set_b64url [of bs] alphabet_no_newline(1) by (intro strip_newlines_id) blast+

lemma strip_newlines_b32 [simp]: "strip_newlines (b32_EncodeToString bs) = b32_EncodeToString bs"
  using set_b32 [of bs] alphabet_no_newline(2) by (intro strip_newlines_id) blast+

lemma length_b64url: "length (b64url_EncodeToString bs) = (8 * length bs + 5) div 6"
  by (simp add: b64url_EncodeToString_def length_encode_bits)

lemma length_b32: "length (b32_EncodeToString bs) = (8 * length bs + 4) div 5"
  by (simp add: b32_EncodeToString_def length_encode_bits)

lemma length_hex [simp]: "length (hex_EncodeToString bs) = 2 * length bs"
proof -
  have "(8 * length bs + 3) div 4 = 2 * length bs" by simp
  then show ?thesis by (simp add: hex_EncodeToString_def length_encode_bits)
qed

lemma bits_group_decode:
  assumes "0 < w" and "w \<le> 8"
  shows "bytes_of_bits (symbol_bits w (map from_bits (bit_group w (bits_of_bytes bs)))) = bs"
    and "True \<notin> set (drop (8 * length bs) (symbol_bits w (map from_bits (bit_group w (bits_of_bytes bs)))))"
    and "length (symbol_bits w (map from_bits (bit_group w (bits_of_bytes bs)))) div 8 = length bs"
proof -
  obtain p where p: "p < w" "concat (bit_group w (bits_of_bytes bs)) = bits_of_bytes bs @ replicate p False"
    using concat_group assms by blast
  have eq: "symbol_bits w (map from_bits (bit_group w (bits_of_bytes bs))) =
      bits_of_bytes bs @ replicate p False"
    using symbol_bits_group [OF assms(1)] p(2) by simp
  show "bytes_of_bits (symbol_bits w (map from_bits (bit_group w (bits_of_bytes bs)))) = bs"
    unfolding eq using p(1) assms by (intro bytes_of_bits_inv) simp
  show "True \<notin> set (drop (8 * length bs) (symbol_bits w (map from_bits (bit_group w (bits_of_bytes bs)))))"
    unfolding eq by simp
  show "length (symbol_bits w (map from_bits (bit_group w (bits_of_bytes bs)))) div 8 = length bs"
    unfolding eq using p(1) assms by simp
qed

lemma b64url_decode_encode [simp]: "b64url_decode strict (b64url_EncodeToString bs) = Inr bs"
proof -
  let ?is = "map from_bits (bit_group 6 (bits_of_bytes bs))"
  have ix: "indices base64url_alphabet (b64url_EncodeToString bs) = Some ?is"
    by (simp add: b64url_EncodeToString_def indices_encode_bits)
  have n: "length ?is mod 4 \<noteq> 1"
    by (simp add: length_group) presburger
  show ?thesis
    using n bits_group_decode [of 6 bs]
    by (simp add: b64url_decode_def ix Let_def)
qed

lemma b32_DecodeString_encode [simp]: "b32_DecodeString (b32_EncodeToString bs) = Inr bs"
proof -
  let ?is = "map from_bits (bit_group 5 (bits_of_bytes bs))"
  have ix: "indices base32_alphabet (b32_EncodeToString bs) = Some ?is"
    by (simp add: b32_EncodeToString_def indices_encode_bits)
  have "(8 * length bs + 4) div 5 mod 8 \<notin> {1, 3, 6}"
    by simp presburger
  then have n: "length ?is mod 8 \<notin> {1, 3, 6}"
    by (simp add: length_group add.commute)
  show ?thesis
    using n bits_group_decode [of 5 bs]
    by (simp add: b32_DecodeString_def ix Let_def)
qed

text \<open>
  What the components use of a text encoding: decoding what was encoded gives it back. Injectivity
  follows.
\<close>

locale text_codec =
  fixes encode :: "bytes \<Rightarrow> string"
    and decode :: "string \<Rightarrow> bytes result"
  assumes decode_encode: "decode (encode b) = Inr b"
begin

lemma encode_inj: "encode a = encode b \<longleftrightarrow> a = b"
  by (metis decode_encode sum.inject(2))

lemma decode_eq_encode: "s = encode b \<Longrightarrow> decode s = Inr b"
  by (simp add: decode_encode)

end

interpretation b64url: text_codec b64url_EncodeToString b64url_DecodeString
  by unfold_locales (simp add: b64url_DecodeString_def)

interpretation b64url_strict: text_codec b64url_EncodeToString b64url_DecodeString_strict
  by unfold_locales (simp add: b64url_DecodeString_strict_def)

interpretation b32: text_codec b32_EncodeToString b32_DecodeString
  by unfold_locales simp

lemmas codec_simps [simp] =
  b64url.decode_encode b64url_strict.decode_encode b64url.encode_inj b32.encode_inj

section \<open>The strict decoder is canonical\<close>

lemma bit_group_pad:
  "0 < w \<Longrightarrow> p < w \<Longrightarrow> w dvd length xs + p \<Longrightarrow> bit_group w (xs @ replicate p False) = bit_group w xs"
proof (induction w xs rule: bit_group.induct)
  case (1 w xs)
  show ?case
  proof (cases "xs = []")
    case True
    with "1.prems" have "p = 0" using nat_dvd_not_less by auto
    with True show ?thesis by simp
  next
    case False
    show ?thesis
    proof (cases "w \<le> length xs")
      case True
      then have "w dvd length (drop w xs) + p"
        using dvd_diff_nat [OF "1.prems"(3) dvd_refl] by (simp add: algebra_simps)
      with "1.IH" False "1.prems" have ih: "bit_group w (drop w xs @ replicate p False) = bit_group w (drop w xs)"
        by simp
      show ?thesis
        using True False ih by (subst (1 2) bit_group.simps) simp
    next
      case f: False
      have "length xs + p < 2 * w" "0 < length xs + p"
        using f "1.prems" False by auto
      moreover obtain k where k: "length xs + p = w * k"
        using "1.prems"(3) by blast
      ultimately have "k = 1"
        by (cases k; cases "k - 1") auto
      with k have "length xs + p = w" by simp
      then show ?thesis
        using f False by (subst (1 2) bit_group.simps) (simp add: take_replicate)
    qed
  qed
qed

lemma bit_group_symbol_bits: "0 < w \<Longrightarrow> bit_group w (symbol_bits w is) = map (to_bits w) is"
proof (induction "is")
  case Nil
  then show ?case by (simp add: symbol_bits_def)
next
  case (Cons i "is")
  have e: "symbol_bits w (i # is) = to_bits w i @ symbol_bits w is"
    by (simp add: symbol_bits_def)
  with Cons show ?case
    by (subst bit_group.simps) (auto dest: arg_cong [where f = length])
qed

lemma b64url_strict_canonical:
  assumes "b64url_DecodeString_strict s = Inr raw"
  shows "strip_newlines s = b64url_EncodeToString raw"
proof -
  obtain "is" where ix: "indices base64url_alphabet (strip_newlines s) = Some is"
    and m: "length is mod 4 \<noteq> 1"
    and z: "True \<notin> set (drop (8 * (6 * length is div 8)) (symbol_bits 6 is))"
    and raw: "raw = bytes_of_bits (symbol_bits 6 is)"
    using assms
    by (auto simp: b64url_DecodeString_strict_def b64url_decode_def Let_def split: option.splits if_splits)
  let ?b = "symbol_bits 6 is"
  define p where "p = 6 * length is - 8 * (6 * length is div 8)"
  have p6: "p < 6" using m unfolding p_def by presburger
  have "drop (8 * (6 * length is div 8)) ?b = replicate p False"
    using z unfolding p_def by (intro replicate_eqI) (simp, metis (full_types))
  then have b: "?b = bits_of_bytes raw @ replicate p False"
    unfolding raw bits_of_bytes_of_bits by (metis append_take_drop_id length_symbol_bits)
  have "6 dvd length (bits_of_bytes raw) + p"
    using arg_cong [OF b, of length] by (metis dvd_triv_left length_append length_replicate length_symbol_bits)
  then have "bit_group 6 (bits_of_bytes raw) = map (to_bits 6) is"
    using bit_group_pad [of 6 p "bits_of_bytes raw"] p6 b bit_group_symbol_bits [of 6 "is"] by simp
  then have "b64url_EncodeToString raw = map (\<lambda>i. base64url_alphabet ! from_bits (to_bits 6 i)) is"
    by (simp add: b64url_EncodeToString_def encode_bits_def comp_def)
  also have "\<dots> = map (\<lambda>i. base64url_alphabet ! i) is"
    using indices_Some [OF ix] by (intro map_cong refl) simp
  finally show ?thesis
    using indices_Some [OF ix] by simp
qed

section \<open>Padded base64\<close>

text \<open>
  \<open>base64.StdEncoding\<close>: the length without line breaks is a multiple of four, at most two characters of
  padding stand at the very end, and the bits past the last byte are not looked at.
\<close>

definition base64_alphabet :: string where
  "base64_alphabet = ''ABCDEFGHIJKLMNOPQRSTUVWXYZabcdefghijklmnopqrstuvwxyz0123456789+/''"

definition b64_EncodeToString :: "bytes \<Rightarrow> string" where
  "b64_EncodeToString bs = encode_bits 6 base64_alphabet bs @ replicate ((3 - length bs mod 3) mod 3) (CHR ''='')"

definition b64_padding :: "string \<Rightarrow> nat" where
  "b64_padding s =
     (if drop (length s - 2) s = ''=='' then 2 else if drop (length s - 1) s = ''='' then 1 else 0)"

definition b64_DecodeString :: "string \<Rightarrow> bytes result" where
  "b64_DecodeString s =
     (let t = strip_newlines s in
      if length t mod 4 \<noteq> 0 then Inl err_corrupt
      else case indices base64_alphabet (take (length t - b64_padding t) t) of
        None \<Rightarrow> Inl err_corrupt
      | Some is \<Rightarrow> Inr (bytes_of_bits (symbol_bits 6 is)))"

lemma base64_alphabet_props [simp]:
  "distinct base64_alphabet" "length base64_alphabet = 64"
  "CHR ''='' \<notin> set base64_alphabet" "CHR 0x0A \<notin> set base64_alphabet" "CHR 0x0D \<notin> set base64_alphabet"
  by (simp_all add: base64_alphabet_def)

lemma b64_padding_body:
  assumes "CHR ''='' \<notin> set s" and "p \<le> 2" and "p = 1 \<longrightarrow> s \<noteq> []"
  shows "b64_padding (s @ replicate p (CHR ''='')) = p"
proof -
  consider "p = 0" | "p = 1" | "p = 2" using assms(2) by linarith
  then show ?thesis
  proof cases
    case 1
    have "CHR ''='' \<notin> set (drop n s)" for n using assms(1) set_drop_subset [of n s] by blast
    then have "drop n s \<noteq> ''==''" "drop n s \<noteq> ''=''" for n by (metis list.set_intros(1))+
    with 1 show ?thesis by (simp add: b64_padding_def)
  next
    case 2
    then obtain t x where "s = t @ [x]" using assms(3) by (metis rev_exhaust)
    with 2 assms(1) show ?thesis by (auto simp: b64_padding_def)
  next
    case 3
    then show ?thesis by (simp add: b64_padding_def numeral_2_eq_2)
  qed
qed

lemma b64_lengths:
  fixes n :: nat
  shows "((8 * n + 5) div 6 + (3 - n mod 3) mod 3) mod 4 = 0"
    and "(3 - n mod 3) mod 3 = 1 \<longrightarrow> (8 * n + 5) div 6 \<noteq> 0"
proof -
  obtain q r where n: "n = 3 * q + r" "r < 3" using div_mult_mod_eq [of n 3] by (metis mod_less_divisor mult.commute zero_less_numeral)
  then have nm: "n mod 3 = r" by simp
  consider "r = 0" | "r = 1" | "r = 2" using n(2) by linarith
  then have "((8 * n + 5) div 6 + (3 - n mod 3) mod 3) mod 4 = 0 \<and>
      ((3 - n mod 3) mod 3 = 1 \<longrightarrow> (8 * n + 5) div 6 \<noteq> 0)"
  proof cases
    case 1
    have "8 * n + 5 = 5 + 6 * (4 * q)" using n 1 by simp
    then have "(8 * n + 5) div 6 = 4 * q" by simp
    then show ?thesis unfolding nm using 1 by simp
  next
    case 2
    have "8 * n + 5 = 13 + 6 * (4 * q)" using n 2 by simp
    then have "(8 * n + 5) div 6 = 4 * q + 2" by simp
    then show ?thesis unfolding nm using 2 by simp
  next
    case 3
    have "8 * n + 5 = 21 + 6 * (4 * q)" using n 3 by simp
    then have "(8 * n + 5) div 6 = 4 * q + 3" by simp
    then show ?thesis unfolding nm using 3 by simp
  qed
  then show "((8 * n + 5) div 6 + (3 - n mod 3) mod 3) mod 4 = 0"
    "(3 - n mod 3) mod 3 = 1 \<longrightarrow> (8 * n + 5) div 6 \<noteq> 0" by blast+
qed

lemma b64_decode_encode: "b64_DecodeString (b64_EncodeToString bs) = Inr bs"
proof -
  let ?e = "encode_bits 6 base64_alphabet bs" and ?p = "(3 - length bs mod 3) mod 3"
  have al: "set ?e \<subseteq> set base64_alphabet" by (simp add: encode_bits_alphabet)
  then have nl: "strip_newlines (b64_EncodeToString bs) = b64_EncodeToString bs"
    using base64_alphabet_props(4,5) by (intro strip_newlines_id) (auto simp: b64_EncodeToString_def)
  have le: "length ?e = (8 * length bs + 5) div 6" by (simp add: length_encode_bits)
  have m: "length (b64_EncodeToString bs) mod 4 = 0" "?p = 1 \<longrightarrow> length ?e \<noteq> 0"
    unfolding b64_EncodeToString_def length_append length_replicate le by (rule b64_lengths)+
  have p: "b64_padding (b64_EncodeToString bs) = ?p"
    unfolding b64_EncodeToString_def
    using al m(2) base64_alphabet_props(3) by (intro b64_padding_body) auto
  have "take (length (b64_EncodeToString bs) - ?p) (b64_EncodeToString bs) = ?e"
    by (simp add: b64_EncodeToString_def)
  then show ?thesis
    using m(1) bits_group_decode(1) [of 6 bs]
    by (simp add: b64_DecodeString_def nl p indices_encode_bits Let_def)
qed

interpretation b64: text_codec b64_EncodeToString b64_DecodeString
  by unfold_locales (rule b64_decode_encode)

end
