(* ===== verification/Keys.thy ===== *)
theory Keys
  imports GoCrypto GoEncoding "HOL-Library.Char_ord" "HOL-Library.List_Lexorder"
begin

text \<open>
  \<open>internal/crypto/keys\<close>: the associated data that binds a wrapped key to its use (\<open>aad.go\<close>), key
  wrapping (\<open>wrap.go\<close>, \<open>dek.go\<close>, \<open>token.go\<close>), the four kinds of secret (\<open>name.go\<close>, \<open>freshness.go\<close>,
  \<open>audit.go\<close>), the in-memory keyring and its comparison (\<open>keyring.go\<close>, \<open>equal.go\<close>) and the provider
  interface (\<open>provider.go\<close>), whose contract is the locale \<open>key_provider\<close>. Go maps are association
  lists with distinct keys; what \<open>crypto/rand\<close> answers is an argument.
\<close>

section \<open>Associated data\<close>

definition aadObjectPrefix :: string where "aadObjectPrefix = ''blindbucket/v1/dek''"
definition aadFilePrefix :: string where "aadFilePrefix = ''blindbucket/v1/dek-file''"
definition aadKEKPrefix :: string where "aadKEKPrefix = ''blindbucket/v1/kek''"
definition aadAuditPrefix :: string where "aadAuditPrefix = ''blindbucket/v1/audit-secret''"
definition aadNamePrefix :: string where "aadNamePrefix = ''blindbucket/v1/name-key''"
definition aadFreshPrefix :: string where "aadFreshPrefix = ''blindbucket/v1/freshness-key''"

definition aadDirectory :: string where "aadDirectory = ''blindbucket/v1/directory''"
definition aadTenantKEKPrefix :: string where "aadTenantKEKPrefix = ''blindbucket/v1/tenant-kek''"
definition aadTenantNamePrefix :: string where "aadTenantNamePrefix = ''blindbucket/v1/tenant-name-key''"

definition auditAAD :: bytes where "auditAAD = bytes_of aadAuditPrefix"
definition nameAAD :: bytes where "nameAAD = bytes_of aadNamePrefix"
definition freshnessAAD :: bytes where "freshnessAAD = bytes_of aadFreshPrefix"

definition MaxKIDLen :: nat where [simp]: "MaxKIDLen = 64"

definition kid_char :: "char \<Rightarrow> bool" where
  "kid_char c \<longleftrightarrow>
     CHR ''A'' \<le> c \<and> c \<le> CHR ''Z'' \<or> CHR ''a'' \<le> c \<and> c \<le> CHR ''z'' \<or> CHR ''0'' \<le> c \<and> c \<le> CHR ''9'' \<or>
     c = CHR ''.'' \<or> c = CHR ''_'' \<or> c = CHR ''-''"

definition ValidateKID :: "string \<Rightarrow> err option" where
  "ValidateKID kid =
     (if length kid = 0 \<or> length kid > MaxKIDLen
      then Some (Errorf ''%w: length %d outside 1..%d'' [Sentinel ErrKIDInvalid])
      else if \<not> list_all kid_char kid
      then Some (Errorf ''%w: %q contains a character outside [A-Za-z0-9._-]'' [Sentinel ErrKIDInvalid])
      else None)"

definition appendLP :: "bytes \<Rightarrow> string \<Rightarrow> bytes result" where
  "appendLP dst x =
     (if length x > 0xffff then Inl (Errorf ''keys: field of %d bytes exceeds the length prefix'' [])
      else Inr (dst @ be_bytes 2 (length x) @ bytes_of x))"

definition ObjectAAD :: "string \<Rightarrow> string \<Rightarrow> string \<Rightarrow> bytes result" where
  "ObjectAAD kid bucket key =
     echeck (ValidateKID kid)
       (ebind (appendLP (bytes_of aadObjectPrefix) kid) (\<lambda>a.
        ebind (appendLP a bucket) (\<lambda>a. appendLP a key)))"

definition FileAAD :: "string \<Rightarrow> bytes result" where
  "FileAAD kid = echeck (ValidateKID kid) (appendLP (bytes_of aadFilePrefix) kid)"

definition kekAAD :: "string \<Rightarrow> bytes result" where
  "kekAAD kid = echeck (ValidateKID kid) (appendLP (bytes_of aadKEKPrefix) kid)"

definition tenantKEKAAD :: "string \<Rightarrow> string \<Rightarrow> bytes result" where
  "tenantKEKAAD tenant kid = ebind (appendLP (bytes_of aadTenantKEKPrefix) tenant) (\<lambda>a. appendLP a kid)"

definition tenantNameAAD :: "string \<Rightarrow> bytes result" where
  "tenantNameAAD tenant = appendLP (bytes_of aadTenantNamePrefix) tenant"

section \<open>Wrapping\<close>

definition wrapNonceSize :: nat where [simp]: "wrapNonceSize = 12"
definition wrapTagSize :: nat where [simp]: "wrapTagSize = 16"
definition WrappedDEKSize :: nat where [simp]: "WrappedDEKSize = 60"
definition maxSealed :: nat where [simp]: "maxSealed = 2 ^ 20"

definition keys_KeySize :: nat where [simp]: "keys_KeySize = 32"

definition newWrapAEAD :: "bytes \<Rightarrow> bytes result" where
  "newWrapAEAD kek =
     (if length kek \<noteq> keys_KeySize then Inl (Errorf ''keys: key-encryption key is %d bytes, want %d'' [])
      else aes_NewCipher kek)"

definition sealKey :: "bytes result \<Rightarrow> bytes \<Rightarrow> bytes \<Rightarrow> bytes \<Rightarrow> bytes result" where
  "sealKey rnd kek plain aad =
     (if length plain > maxSealed then Inl (Errorf ''keys: refusing to seal %d bytes, at most %d'' [])
      else ebind (newWrapAEAD kek) (\<lambda>k.
           ebind rnd (\<lambda>nonce. Inr (nonce @ gcm_Seal k nonce plain aad))))"

definition openKey :: "bytes \<Rightarrow> bytes \<Rightarrow> bytes \<Rightarrow> bytes result" where
  "openKey kek wrapped aad =
     (if length wrapped < wrapNonceSize + wrapTagSize
      then Inl (Errorf ''%w: wrapped key is %d bytes, too short to be one'' [Sentinel ErrUnwrap])
      else ebind (newWrapAEAD kek) (\<lambda>k.
             case gcm_Open k (take wrapNonceSize wrapped) (drop wrapNonceSize wrapped) aad of
               None \<Rightarrow> Inl (Sentinel ErrUnwrap)
             | Some plain \<Rightarrow> Inr plain))"

definition EncodeWrapped :: "bytes \<Rightarrow> string" where
  "EncodeWrapped wrapped = b64url_EncodeToString wrapped"

definition DecodeWrapped :: "string \<Rightarrow> bytes result" where
  "DecodeWrapped s =
     emap_err (\<lambda>e. Errorf ''keys: wrapped key is not valid base64url: %w'' [e]) (b64url_DecodeString s)"

definition NewDEK :: "bytes result \<Rightarrow> bytes result" where
  "NewDEK rnd = rnd"

definition tokenKeyInfo :: string where "tokenKeyInfo = ''blindbucket/v1/upload-token''"
definition TokenKeySize :: nat where [simp]: "TokenKeySize = 32"

definition deriveTokenKey :: "bytes \<Rightarrow> bytes result" where
  "deriveTokenKey kek = hkdf_Key kek [] tokenKeyInfo TokenKeySize"

section \<open>The other secrets\<close>

text \<open>An audit, name or freshness key is its 32-byte secret; \<open>secret_from\<close> is the shared body of the
  three \<open>...FromSecret\<close> functions, which differ only in their message.\<close>

definition secret_from :: "string \<Rightarrow> bytes \<Rightarrow> bytes result" where
  "secret_from msg secret = (if length secret \<noteq> 32 then Inl (Errorf msg []) else Inr secret)"

definition AuditKeyFromSecret :: "bytes \<Rightarrow> bytes result" where
  "AuditKeyFromSecret = secret_from ''keys: audit secret is %d bytes, want %d''"
definition NameKeyFromSecret :: "bytes \<Rightarrow> bytes result" where
  "NameKeyFromSecret = secret_from ''keys: name key is %d bytes, want %d''"
definition FreshnessKeyFromSecret :: "bytes \<Rightarrow> bytes result" where
  "FreshnessKeyFromSecret = secret_from ''keys: freshness key is %d bytes, want %d''"

definition tenantAuditNameInfo :: string where
  "tenantAuditNameInfo = ''blindbucket/v1/tenant-audit-name''"
definition auditNameInfo :: string where
  "auditNameInfo = ''blindbucket/v1/audit-name''"

definition AuditNameKey :: "bytes \<Rightarrow> bytes result" where
  "AuditNameKey secret = hkdf_Key secret [] tenantAuditNameInfo keys_KeySize"
definition AuditKey_NameKey :: "bytes \<Rightarrow> bytes result" where
  "AuditKey_NameKey secret = hkdf_Key secret [] auditNameInfo keys_KeySize"

section \<open>The keyring\<close>

record Keyring =
  kactive :: string
  keks :: "(string \<times> bytes) list"
  kcreated :: "(string \<times> int) list"
  kaudit :: "bytes option"
  kname :: "bytes option"
  kfreshness :: "bytes option"

definition NewKeyring :: Keyring where
  "NewKeyring = \<lparr>kactive = '''', keks = [], kcreated = [], kaudit = None, kname = None, kfreshness = None\<rparr>"

definition lookup :: "Keyring \<Rightarrow> string \<Rightarrow> bytes result" where
  "lookup r kid =
     (case map_of (keks r) kid of
        None \<Rightarrow> Inl (Errorf ''%w: %q'' [Sentinel ErrUnknownKID]) | Some kek \<Rightarrow> Inr kek)"

definition Add :: "int \<Rightarrow> string \<Rightarrow> bytes \<Rightarrow> Keyring \<Rightarrow> Keyring result" where
  "Add now kid kek r =
     echeck (ValidateKID kid)
       (if length kek \<noteq> keys_KeySize then Inl (Errorf ''keys: KEK %q is %d bytes, want %d'' [])
        else if map_of (keks r) kid \<noteq> None then Inl (Errorf ''keys: key id %q already exists'' [])
        else let r1 = r\<lparr>keks := (kid, kek) # keks r, kcreated := (kid, now) # kcreated r\<rparr>
             in Inr (if kactive r1 = '''' then r1\<lparr>kactive := kid\<rparr> else r1))"

definition Generate :: "bytes result \<Rightarrow> int \<Rightarrow> string \<Rightarrow> Keyring \<Rightarrow> Keyring result" where
  "Generate rnd now kid r = ebind rnd (\<lambda>kek. Add now kid kek r)"

definition Remove :: "string \<Rightarrow> Keyring \<Rightarrow> Keyring result" where
  "Remove kid r =
     (if map_of (keks r) kid = None then Inl (Errorf ''%w: %q'' [Sentinel ErrUnknownKID])
      else if kid = kactive r
      then Inl (Errorf ''keys: %q is the active key; make another key active before removing it'' [])
      else if length (keks r) = 1 then Inl (Errorf ''keys: %q is the only key in the keyring'' [])
      else Inr (r\<lparr>keks := filter (\<lambda>(k, _). k \<noteq> kid) (keks r),
                  kcreated := filter (\<lambda>(k, _). k \<noteq> kid) (kcreated r)\<rparr>))"

definition SetActive :: "string \<Rightarrow> Keyring \<Rightarrow> Keyring result" where
  "SetActive kid r =
     (if map_of (keks r) kid = None then Inl (Errorf ''%w: %q'' [Sentinel ErrUnknownKID])
      else Inr (r\<lparr>kactive := kid\<rparr>))"

definition SetAuditKey :: "bytes \<Rightarrow> Keyring \<Rightarrow> Keyring" where
  "SetAuditKey k r = r\<lparr>kaudit := Some k\<rparr>"
definition SetNameKey :: "bytes \<Rightarrow> Keyring \<Rightarrow> Keyring" where
  "SetNameKey k r = r\<lparr>kname := Some k\<rparr>"
definition SetFreshnessKey :: "bytes \<Rightarrow> Keyring \<Rightarrow> Keyring" where
  "SetFreshnessKey k r = r\<lparr>kfreshness := Some k\<rparr>"

definition ActiveKID :: "Keyring \<Rightarrow> string" where "ActiveKID r = kactive r"
definition KIDs :: "Keyring \<Rightarrow> string list" where "KIDs r = sort (map fst (keks r))"
definition Created :: "Keyring \<Rightarrow> string \<Rightarrow> int option" where "Created r kid = map_of (kcreated r) kid"

definition Wrap :: "bytes result \<Rightarrow> Keyring \<Rightarrow> string \<Rightarrow> bytes \<Rightarrow> bytes \<Rightarrow> bytes result" where
  "Wrap rnd r kid dek aad = ebind (lookup r kid) (\<lambda>kek. sealKey rnd kek dek aad)"

definition Unwrap :: "Keyring \<Rightarrow> string \<Rightarrow> bytes \<Rightarrow> bytes \<Rightarrow> bytes result" where
  "Unwrap r kid wrapped aad = ebind (lookup r kid) (\<lambda>kek. openKey kek wrapped aad)"

definition TokenKey :: "Keyring \<Rightarrow> string \<Rightarrow> bytes result" where
  "TokenKey r kid = ebind (lookup r kid) deriveTokenKey"

text \<open>A missing entry of Go's \<open>created\<close> map reads as the zero time, here \<open>0\<close>.\<close>

definition created_at :: "Keyring \<Rightarrow> string \<Rightarrow> int" where
  "created_at r kid = (case map_of (kcreated r) kid of Some t \<Rightarrow> t | None \<Rightarrow> 0)"

definition Equal :: "Keyring \<Rightarrow> Keyring \<Rightarrow> bool" where
  "Equal r o' \<longleftrightarrow>
     kactive r = kactive o' \<and> length (keks r) = length (keks o') \<and>
     length (kcreated r) = length (kcreated o') \<and>
     list_all (\<lambda>(kid, kek). map_of (keks o') kid = Some kek \<and>
        created_at r kid = created_at o' kid) (keks r) \<and>
     kaudit r = kaudit o' \<and> kname r = kname o' \<and> kfreshness r = kfreshness o'"

section \<open>Associated data is unambiguous\<close>

text \<open>What a wrapped secret may be for, and its associated data.\<close>

datatype purpose =
    ForObject string string string | ForFile string | ForKEK string | ForAudit | ForNames | ForFreshness
  | ForDirectory | ForTenantKEK string string | ForTenantName string

fun purpose_aad :: "purpose \<Rightarrow> bytes result" where
  "purpose_aad (ForObject kid bucket key) = ObjectAAD kid bucket key"
| "purpose_aad (ForFile kid) = FileAAD kid"
| "purpose_aad (ForKEK kid) = kekAAD kid"
| "purpose_aad ForAudit = Inr auditAAD"
| "purpose_aad ForNames = Inr nameAAD"
| "purpose_aad ForFreshness = Inr freshnessAAD"
| "purpose_aad ForDirectory = Inr (bytes_of aadDirectory)"
| "purpose_aad (ForTenantKEK tenant kid) = tenantKEKAAD tenant kid"
| "purpose_aad (ForTenantName tenant) = tenantNameAAD tenant"

definition lp :: "string \<Rightarrow> bytes" where
  "lp x = be_bytes 2 (length x) @ bytes_of x"

lemma appendLP_Inr: "appendLP d x = Inr a \<longleftrightarrow> length x \<le> 65535 \<and> a = d @ lp x"
  by (auto simp: appendLP_def lp_def)

lemma lp_inj:
  assumes "lp x @ r = lp y @ s" and "length x \<le> 65535" and "length y \<le> 65535"
  shows "x = y \<and> r = s"
proof -
  have e: "be_bytes 2 (length x) @ bytes_of x @ r = be_bytes 2 (length y) @ bytes_of y @ s"
    using assms(1) by (simp add: lp_def)
  then have "be_bytes 2 (length x) = be_bytes 2 (length y)"
    using arg_cong [OF e, of "take 2"] by simp
  then have "length x = length y"
    using assms(2,3) by (intro be_bytes_inj [of 2]) auto
  with e show ?thesis by simp
qed

lemma ValidateKID_None:
  "ValidateKID kid = None \<longleftrightarrow> 0 < length kid \<and> length kid \<le> 64 \<and> list_all kid_char kid"
  by (auto simp: ValidateKID_def)

lemma ObjectAAD_Inr:
  "ObjectAAD kid b k = Inr a \<longleftrightarrow> ValidateKID kid = None \<and> length b \<le> 65535 \<and> length k \<le> 65535 \<and>
     a = bytes_of aadObjectPrefix @ lp kid @ lp b @ lp k"
  by (auto simp: ObjectAAD_def result_simps appendLP_Inr ValidateKID_None)

lemma FileAAD_Inr:
  "FileAAD kid = Inr a \<longleftrightarrow> ValidateKID kid = None \<and> a = bytes_of aadFilePrefix @ lp kid"
  by (auto simp: FileAAD_def result_simps appendLP_Inr ValidateKID_None)

lemma kekAAD_Inr:
  "kekAAD kid = Inr a \<longleftrightarrow> ValidateKID kid = None \<and> a = bytes_of aadKEKPrefix @ lp kid"
  by (auto simp: kekAAD_def result_simps appendLP_Inr ValidateKID_None)

lemma tenantKEKAAD_Inr:
  "tenantKEKAAD t kid = Inr a \<longleftrightarrow> length t \<le> 65535 \<and> length kid \<le> 65535 \<and>
     a = bytes_of aadTenantKEKPrefix @ lp t @ lp kid"
  by (auto simp: tenantKEKAAD_def result_simps appendLP_Inr)

lemma tenantNameAAD_Inr:
  "tenantNameAAD t = Inr a \<longleftrightarrow> length t \<le> 65535 \<and> a = bytes_of aadTenantNamePrefix @ lp t"
  by (simp add: tenantNameAAD_def appendLP_Inr)

text \<open>The first bytes in which the nine forms differ: byte 15 separates most prefixes; byte 16 the
  directory's from those of data keys; byte 18, which is the high byte of a key id's length in the object
  form, from the letter in the file form; and byte 22 the two forms of a tenant.\<close>

lemma prefix_bytes:
  "(bytes_of aadObjectPrefix @ x) ! 15 = 100" "(bytes_of aadFilePrefix @ x) ! 15 = 100"
  "(bytes_of aadKEKPrefix @ x) ! 15 = 107" "auditAAD ! 15 = 97" "nameAAD ! 15 = 110" "freshnessAAD ! 15 = 102"
  "(bytes_of aadFilePrefix @ x) ! 18 = 45"
  "(bytes_of aadObjectPrefix @ x) ! 16 = 101" "(bytes_of aadFilePrefix @ x) ! 16 = 101"
  "bytes_of aadDirectory ! 15 = 100" "bytes_of aadDirectory ! 16 = 105"
  "(bytes_of aadTenantKEKPrefix @ x) ! 15 = 116" "(bytes_of aadTenantNamePrefix @ x) ! 15 = 116"
  "(bytes_of aadTenantKEKPrefix @ x) ! 22 = 107" "(bytes_of aadTenantNamePrefix @ x) ! 22 = 110"
  by (simp_all add: bytes_of_def aadObjectPrefix_def aadFilePrefix_def aadKEKPrefix_def auditAAD_def
      aadAuditPrefix_def nameAAD_def aadNamePrefix_def freshnessAAD_def aadFreshPrefix_def
      aadDirectory_def aadTenantKEKPrefix_def aadTenantNamePrefix_def)

lemma object_byte18:
  assumes "length kid \<le> 64"
  shows "(bytes_of aadObjectPrefix @ lp kid @ x) ! 18 = 0"
proof -
  have "length (bytes_of aadObjectPrefix) = 18" by (simp add: aadObjectPrefix_def)
  then have "(bytes_of aadObjectPrefix @ lp kid @ x) ! 18 = (lp kid @ x) ! 0"
    by (simp add: nth_append)
  also have "\<dots> = word_of_nat (length kid div 256)"
    by (simp add: lp_def numeral_2_eq_2)
  finally show ?thesis using assms by simp
qed

lemmas aad_Inr = ObjectAAD_Inr FileAAD_Inr kekAAD_Inr tenantKEKAAD_Inr tenantNameAAD_Inr

text \<open>C23: Associated data is unambiguous. Two uses of a wrapped secret (an object's data key under a key
  id, bucket and key; a file's; a KEK; the audit, name or freshness key; the directory of tenants; a
  tenant's KEK or name key) that have the same associated data are the same use: no blob wrapped for one
  purpose, object, tenant or key id passes as another's.\<close>

theorem aad_unambiguous:
  assumes "purpose_aad p = Inr a" and "purpose_aad q = Inr a"
  shows "p = q"
proof -
  have head: "case r of ForObject _ _ _ \<Rightarrow> a ! 15 = 100 \<and> a ! 16 = 101 \<and> a ! 18 = 0
      | ForFile _ \<Rightarrow> a ! 15 = 100 \<and> a ! 16 = 101 \<and> a ! 18 = 45
      | ForKEK _ \<Rightarrow> a ! 15 = 107 | ForAudit \<Rightarrow> a ! 15 = 97 | ForNames \<Rightarrow> a ! 15 = 110 | ForFreshness \<Rightarrow> a ! 15 = 102
      | ForDirectory \<Rightarrow> a ! 15 = 100 \<and> a ! 16 = 105
      | ForTenantKEK _ _ \<Rightarrow> a ! 15 = 116 \<and> a ! 22 = 107 | ForTenantName _ \<Rightarrow> a ! 15 = 116 \<and> a ! 22 = 110"
    if "purpose_aad r = Inr a" for r
    using that by (cases r) (auto simp: aad_Inr prefix_bytes object_byte18 ValidateKID_None)
  note h = head [OF assms(1)] head [OF assms(2)] and kl = ValidateKID_None
  show ?thesis
  proof (cases p)
    case (ForObject kid b k)
    moreover obtain kid' b' k' where q: "q = ForObject kid' b' k'" using h ForObject by (cases q) auto
    ultimately have l: "lp kid @ lp b @ lp k = lp kid' @ lp b' @ lp k'" using assms by (simp add: aad_Inr)
    then have "kid = kid'" and r: "lp b @ lp k = lp b' @ lp k'"
      using lp_inj [OF l] assms ForObject q by (auto simp: aad_Inr kl)
    moreover have "b = b' \<and> lp k = lp k'" using lp_inj [OF r] assms ForObject q by (auto simp: aad_Inr)
    ultimately show ?thesis
      using lp_inj [of k "[]" k' "[]"] assms ForObject q by (auto simp: aad_Inr)
  next
    case (ForTenantKEK t kid)
    moreover obtain t' kid' where q: "q = ForTenantKEK t' kid'" using h ForTenantKEK by (cases q) auto
    ultimately have l: "lp t @ lp kid = lp t' @ lp kid'" using assms by (simp add: aad_Inr)
    with lp_inj [OF l] lp_inj [of kid "[]" kid' "[]"] assms ForTenantKEK q show ?thesis by (auto simp: aad_Inr)
  next
    case (ForFile kid)
    moreover obtain kid' where "q = ForFile kid'" using h ForFile by (cases q) auto
    ultimately show ?thesis using lp_inj [of kid "[]" kid' "[]"] assms by (auto simp: aad_Inr kl)
  next
    case (ForKEK kid)
    moreover obtain kid' where "q = ForKEK kid'" using h ForKEK by (cases q) auto
    ultimately show ?thesis using lp_inj [of kid "[]" kid' "[]"] assms by (auto simp: aad_Inr kl)
  next
    case (ForTenantName t)
    moreover obtain t' where "q = ForTenantName t'" using h ForTenantName by (cases q) auto
    ultimately show ?thesis using lp_inj [of t "[]" t' "[]"] assms by (auto simp: aad_Inr)
  qed (use h in \<open>cases q; auto\<close>)+
qed

theorem aad_unambiguous_witness:
  "\<exists>a. purpose_aad (ForObject ''k1'' ''b'' ''o'') = Inr a \<and> ForObject ''k1'' ''b'' ''o'' = ForObject ''k1'' ''b'' ''o''"
proof -
  have v: "ValidateKID ''k1'' = None" by code_simp
  then obtain a where a: "purpose_aad (ForObject ''k1'' ''b'' ''o'') = Inr a"
    by (auto simp: ObjectAAD_Inr)
  from aad_unambiguous [OF a a] a show ?thesis by blast
qed

section \<open>Wrapping round trip and binding\<close>

lemma sealKey_Inr:
  "sealKey (Inr nonce) kek plain a = Inr w \<longleftrightarrow>
     length plain \<le> 2 ^ 20 \<and> length kek = 32 \<and> w = nonce @ gcm_Seal kek nonce plain a"
  by (auto simp: sealKey_def newWrapAEAD_def result_simps)

lemma openKey_Inr:
  "openKey kek w a = Inr plain \<longleftrightarrow>
     28 \<le> length w \<and> length kek = 32 \<and> drop 12 w = gcm_Seal kek (take 12 w) plain a"
  by (auto simp: openKey_def newWrapAEAD_def result_simps gcm.open_iff gcm.seal_inj split: option.splits
      dest: gcm.open_is_seal)

lemma openKey_sealKey:
  assumes "sealKey (Inr nonce) kek plain a = Inr w" and "length nonce = 12"
  shows "openKey kek w a = Inr plain \<and> length w = length plain + 28"
  using assms by (simp add: sealKey_Inr openKey_Inr)

text \<open>What opens under a key was wrapped under it for exactly that plaintext and associated data.\<close>

lemma openKey_canonical:
  assumes "openKey kek w a = Inr plain" and "length plain \<le> 2 ^ 20"
  shows "sealKey (Inr (take 12 w)) kek plain a = Inr w"
  using assms append_take_drop_id [of 12 w] by (simp add: sealKey_Inr openKey_Inr)

section \<open>The provider interface\<close>

record KeyProvider =
  pActiveKID :: string
  pWrap :: "bytes result \<Rightarrow> string \<Rightarrow> bytes \<Rightarrow> bytes \<Rightarrow> bytes result"
  pUnwrap :: "string \<Rightarrow> bytes \<Rightarrow> bytes \<Rightarrow> bytes result"
  pTokenKey :: "string \<Rightarrow> bytes result"

definition keyring_provider :: "Keyring \<Rightarrow> KeyProvider" where
  "keyring_provider r = \<lparr>pActiveKID = ActiveKID r, pWrap = (\<lambda>rnd. Wrap rnd r), pUnwrap = Unwrap r,
     pTokenKey = TokenKey r\<rparr>"

text \<open>What the clients of a provider rely on: a wrapped key is its plaintext plus nonce and tag and
  unwraps, under the same key id and associated data, to what was wrapped; what unwraps is a wrapping
  of what it unwraps to; and token keys are AES-256 keys.\<close>

locale key_provider =
  fixes P :: KeyProvider
  assumes unwrap_wrap: "pWrap P (Inr nonce) kid dek a = Inr w \<Longrightarrow> length nonce = 12 \<Longrightarrow>
      pUnwrap P kid w a = Inr dek"
    and wrap_length: "pWrap P (Inr nonce) kid dek a = Inr w \<Longrightarrow> length nonce = 12 \<Longrightarrow>
      length w = length dek + 28"
    and wrap_unwrap: "pUnwrap P kid w a = Inr dek \<Longrightarrow> length dek \<le> 2 ^ 20 \<Longrightarrow>
      pWrap P (Inr (take 12 w)) kid dek a = Inr w"
    and token_key_length: "pTokenKey P kid = Inr k \<Longrightarrow> length k = 32"
begin

lemma unwrap_inj:
  assumes "pUnwrap P kid w a = Inr dek" "pWrap P (Inr nonce) kid dek' a = Inr w" "length nonce = 12"
  shows "dek' = dek"
  using unwrap_wrap [OF assms(2,3)] assms(1) by simp

end

interpretation keyring: key_provider "keyring_provider r" for r
proof
  fix nonce kid dek a w
  assume "pWrap (keyring_provider r) (Inr nonce) kid dek a = Inr w" "length nonce = 12"
  then show "pUnwrap (keyring_provider r) kid w a = Inr dek" "length w = length dek + 28"
    using openKey_sealKey by (auto simp: keyring_provider_def Wrap_def Unwrap_def result_simps)
next
  fix kid w a dek
  assume "pUnwrap (keyring_provider r) kid w a = Inr dek" "length dek \<le> 2 ^ 20"
  then show "pWrap (keyring_provider r) (Inr (take 12 w)) kid dek a = Inr w"
    using openKey_canonical by (auto simp: keyring_provider_def Wrap_def Unwrap_def result_simps)
next
  fix kid k
  assume "pTokenKey (keyring_provider r) kid = Inr k"
  then show "length k = 32"
    by (auto simp: keyring_provider_def TokenKey_def deriveTokenKey_def result_simps)
qed

section \<open>The keyring's invariant\<close>

definition keyring_inv :: "Keyring \<Rightarrow> bool" where
  "keyring_inv r \<longleftrightarrow>
     distinct (map fst (keks r)) \<and> map fst (kcreated r) = map fst (keks r) \<and>
     list_all (\<lambda>(kid, kek). ValidateKID kid = None \<and> length kek = 32) (keks r) \<and>
     (if keks r = [] then kactive r = '''' else map_of (keks r) (kactive r) \<noteq> None)"

text \<open>The states a keyring can reach: each operation of the program is a step.\<close>

inductive keyring_step :: "Keyring \<Rightarrow> Keyring \<Rightarrow> bool" where
  add: "Add now kid kek r = Inr r' \<Longrightarrow> keyring_step r r'"
| generate: "Generate rnd now kid r = Inr r' \<Longrightarrow> keyring_step r r'"
| remove: "Remove kid r = Inr r' \<Longrightarrow> keyring_step r r'"
| set_active: "SetActive kid r = Inr r' \<Longrightarrow> keyring_step r r'"
| set_audit: "keyring_step r (SetAuditKey k r)"
| set_name: "keyring_step r (SetNameKey k r)"
| set_freshness: "keyring_step r (SetFreshnessKey k r)"

inductive keyring_reach :: "Keyring \<Rightarrow> bool" where
  init: "keyring_reach NewKeyring"
| step: "keyring_reach r \<Longrightarrow> keyring_step r r' \<Longrightarrow> keyring_reach r'"

inductive_cases keyring_stepE: "keyring_step r r'"

lemma map_fst_filter: "map fst (filter (\<lambda>(k, _). P k) xs) = filter P (map fst xs)"
  by (induction xs) auto

lemma map_of_filter_ne:
  "map_of (filter (\<lambda>(k, _). k \<noteq> kid) xs) k = (if k = kid then None else map_of xs k)"
  by (induction xs) auto

lemma Add_inv: "Add now kid kek r = Inr r' \<Longrightarrow> keyring_inv r \<Longrightarrow> keyring_inv r'"
  by (auto simp: Add_def keyring_inv_def result_simps map_of_eq_None_iff Let_def
      split: if_splits intro: rev_image_eqI)

lemma Remove_inv: "Remove kid r = Inr r' \<Longrightarrow> keyring_inv r \<Longrightarrow> keyring_inv r'"
proof -
  assume rm: "Remove kid r = Inr r'" and inv: "keyring_inv r"
  have ne: "kid \<noteq> kactive r" "keks r \<noteq> []"
    and r': "r' = r\<lparr>keks := filter (\<lambda>(k, _). k \<noteq> kid) (keks r),
                  kcreated := filter (\<lambda>(k, _). k \<noteq> kid) (kcreated r)\<rparr>"
    using rm by (auto simp: Remove_def split: if_splits)
  then have m: "map_of (filter (\<lambda>(k, _). k \<noteq> kid) (keks r)) (kactive r) \<noteq> None"
    using inv by (auto simp: keyring_inv_def map_of_filter_ne dest: map_of_SomeD)
  then have "filter (\<lambda>(k, _). k \<noteq> kid) (keks r) \<noteq> []" by auto
  with m inv show ?thesis
    unfolding keyring_inv_def r'
    by (simp add: map_fst_filter list_all_iff distinct_filter)
qed

lemma SetActive_inv: "SetActive kid r = Inr r' \<Longrightarrow> keyring_inv r \<Longrightarrow> keyring_inv r'"
  by (auto simp: SetActive_def keyring_inv_def split: if_splits)

lemma keyring_step_inv: "keyring_step r r' \<Longrightarrow> keyring_inv r \<Longrightarrow> keyring_inv r'"
proof (induction rule: keyring_step.induct)
  case (generate rnd now kid r r')
  then show ?case by (auto simp: Generate_def result_simps intro: Add_inv)
qed (simp_all add: Add_inv Remove_inv SetActive_inv,
     simp_all add: SetAuditKey_def SetNameKey_def SetFreshnessKey_def keyring_inv_def)

lemma keyring_reach_inv: "keyring_reach r \<Longrightarrow> keyring_inv r"
  by (induction rule: keyring_reach.induct)
    (simp add: NewKeyring_def keyring_inv_def, rule keyring_step_inv)

text \<open>Which keys a step leaves alone: only \<open>Remove\<close> takes a KEK away, and never the active one.\<close>

lemma keyring_step_lookup:
  assumes "keyring_step r r'" and "lookup r kid = Inr kek"
  shows "lookup r' kid = Inr kek \<or> (Remove kid r = Inr r' \<and> kid \<noteq> ActiveKID r)"
  using assms
proof (induction rule: keyring_step.induct)
  case (generate rnd now k r r')
  then show ?case
    by (auto simp: Generate_def Add_def lookup_def result_simps Let_def split: option.splits if_splits)
next
  case (remove k r r')
  then show ?case
    by (cases "k = kid")
      (auto simp: Remove_def lookup_def ActiveKID_def map_of_filter_ne split: option.splits if_splits)
qed (auto simp: Add_def lookup_def SetActive_def SetAuditKey_def SetNameKey_def SetFreshnessKey_def
    result_simps Let_def split: option.splits if_splits)

section \<open>Properties\<close>

text \<open>C32: Keyring invariant. In every keyring that the operations \<open>Add\<close>, \<open>Generate\<close>, \<open>Remove\<close>, \<open>SetActive\<close>
  and the three setters can reach from an empty one, the key ids are distinct and valid, every KEK has
  32 bytes and a creation date, and the active key id names a key that is present (or the keyring is
  empty): a data key can always be wrapped under the active KEK. A keyring read from a file may lack the
  creation date of a key; what holds of files is in the theory \<open>KeyringState\<close>.\<close>

theorem keyring_invariant:
  assumes "keyring_reach r"
  shows "keyring_inv r \<and> (keks r \<noteq> [] \<longrightarrow> (\<exists>kek. lookup r (ActiveKID r) = Inr kek \<and> length kek = 32))"
proof -
  have inv: "keyring_inv r" by (rule keyring_reach_inv [OF assms])
  show ?thesis
  proof (intro conjI impI)
    assume "keks r \<noteq> []"
    then obtain kek where k: "map_of (keks r) (kactive r) = Some kek"
      using inv by (auto simp: keyring_inv_def)
    then have "length kek = 32"
      using inv map_of_SomeD [OF k] by (auto simp: keyring_inv_def list_all_iff)
    with k show "\<exists>kek. lookup r (ActiveKID r) = Inr kek \<and> length kek = 32"
      by (simp add: lookup_def ActiveKID_def)
  qed (rule inv)
qed

theorem keyring_invariant_witness:
  "\<exists>r. keyring_reach r \<and> keks r \<noteq> [] \<and> (\<exists>kek. lookup r (ActiveKID r) = Inr kek \<and> length kek = 32)"
proof -
  have v: "ValidateKID ''k1'' = None" by code_simp
  obtain r where r: "Add 7 ''k1'' (replicate 32 1) NewKeyring = Inr r" "keks r \<noteq> []"
    by (simp add: Add_def v NewKeyring_def)
  then have "keyring_reach r"
    by (intro keyring_reach.step [OF keyring_reach.init] keyring_step.add)
  with keyring_invariant [OF this] r(2) show ?thesis by blast
qed

text \<open>C33: Wrapped keys survive everything but the removal of their KEK. What was wrapped under a key id
  unwraps to the same data key, under the same associated data, after any step of the keyring (adding
  keys, rotation to another active key, installing secrets); the one exception is \<open>Remove\<close> of that very
  key id, which is refused for the active one.\<close>

theorem wrap_survives:
  assumes "Wrap (Inr nonce) r kid dek a = Inr w" and "length nonce = 12" and "keyring_step r r'"
  shows "length w = length dek + 28 \<and>
    (Unwrap r' kid w a = Inr dek \<or> Remove kid r = Inr r' \<and> kid \<noteq> ActiveKID r)"
proof -
  from assms(1) obtain kek where k: "lookup r kid = Inr kek" "sealKey (Inr nonce) kek dek a = Inr w"
    by (auto simp: Wrap_def result_simps)
  note ok = openKey_sealKey [OF k(2) assms(2)]
  with keyring_step_lookup [OF assms(3) k(1)] show ?thesis
    by (auto simp: Unwrap_def)
qed

theorem wrap_survives_witness:
  "\<exists>r r' w. Wrap (Inr (replicate 12 0)) r ''k1'' (replicate 32 5) [] = Inr w \<and> SetActive ''k1'' r = Inr r' \<and>
    Unwrap r' ''k1'' w [] = Inr (replicate 32 5)"
proof -
  let ?r = "\<lparr>kactive = ''k1'', keks = [(''k1'', replicate 32 1)], kcreated = [(''k1'', 0)], kaudit = None,
    kname = None, kfreshness = None\<rparr>"
  obtain w where w: "Wrap (Inr (replicate 12 0)) ?r ''k1'' (replicate 32 5) [] = Inr w"
    by (simp add: Wrap_def lookup_def sealKey_def newWrapAEAD_def del: replicate.simps)
  have s: "SetActive ''k1'' ?r = Inr ?r" by (simp add: SetActive_def)
  have "Remove ''k1'' ?r \<noteq> Inr ?r" by (simp add: Remove_def)
  with wrap_survives [OF w _ keyring_step.set_active [OF s]] w s show ?thesis by fastforce
qed

text \<open>Unwrapping is exact. A blob unwraps to a data key under a key id and associated data exactly if it
  is the wrapping of that data key, under that KEK and that associated data, with the nonce it starts
  with; every other blob is refused.\<close>

theorem unwrap_exact:
  assumes "28 \<le> length w" and "length dek \<le> 2 ^ 20"
  shows "Unwrap r kid w a = Inr dek \<longleftrightarrow> Wrap (Inr (take 12 w)) r kid dek a = Inr w"
  using keyring.wrap_unwrap [of r kid w a dek] keyring.unwrap_wrap [of r "take 12 w" kid dek a w] assms
  by (auto simp: keyring_provider_def)

theorem unwrap_exact_witness:
  "Unwrap NewKeyring ''k1'' (replicate 60 0) [] = Inr (replicate 32 5) \<longleftrightarrow>
   Wrap (Inr (take 12 (replicate 60 0))) NewKeyring ''k1'' (replicate 32 5) [] = Inr (replicate 60 0)"
  by (rule unwrap_exact) simp_all

end
