(* ===== verification/GoStrings.thy ===== *)
theory GoStrings
  imports Prelude
begin

text \<open>
  The functions of Go's \<open>strings\<close> and \<open>strconv\<close> packages that the program uses: trimming and cutting,
  decimal numbers, and the comparison of a name with an ASCII key under case folding.
\<close>

section \<open>Trimming and cutting\<close>

text \<open>\<open>strings.Trim(s, c)\<close> removes every leading and trailing \<open>c\<close>; \<open>strings.Cut\<close> splits at the first.\<close>

definition trim :: "char \<Rightarrow> string \<Rightarrow> string" where
  "trim c s = rev (dropWhile (\<lambda>x. x = c) (rev (dropWhile (\<lambda>x. x = c) s)))"

definition cut :: "char \<Rightarrow> string \<Rightarrow> (string \<times> string) option" where
  "cut c s =
     (if c \<in> set s then Some (takeWhile (\<lambda>x. x \<noteq> c) s, tl (dropWhile (\<lambda>x. x \<noteq> c) s)) else None)"

lemma trim_wrapped:
  "s \<noteq> [] \<Longrightarrow> hd s \<noteq> c \<Longrightarrow> List.last s \<noteq> c \<Longrightarrow> trim c (c # s @ [c]) = s"
proof -
  assume "s \<noteq> []" "hd s \<noteq> c" "List.last s \<noteq> c"
  moreover from this have "dropWhile (\<lambda>x. x = c) (s @ [c]) = s @ [c]" by (cases s) auto
  moreover from calculation have "dropWhile (\<lambda>x. x = c) (rev s) = rev s"
    by (cases s rule: rev_cases) auto
  ultimately show ?thesis by (simp add: trim_def)
qed

lemma hd_trim: "trim c s \<noteq> [] \<Longrightarrow> hd (trim c s) \<noteq> c"
proof -
  let ?u = "dropWhile (\<lambda>x. x = c) s"
  assume ne: "trim c s \<noteq> []"
  have sp: "?u = trim c s @ rev (takeWhile (\<lambda>x. x = c) (rev ?u))"
    unfolding trim_def by (metis rev_append rev_rev_ident takeWhile_dropWhile_id)
  with ne have "?u \<noteq> []" by (metis append_is_Nil_conv)
  then have "hd ?u \<noteq> c" by (rule hd_dropWhile)
  then show ?thesis using sp ne by (metis hd_append2)
qed

lemma cut_append: "c \<notin> set a \<Longrightarrow> cut c (a @ c # b) = Some (a, b)"
  by (induction a) (auto simp: cut_def)

text \<open>
  \<open>strings.TrimSpace\<close>: the white space of Unicode, as the byte sequences of its UTF-8 encoding, is
  removed on both sides.
\<close>

definition white_space :: "string list" where
  "white_space = map (\<lambda>c. [c]) [CHR 0x09, CHR 0x0A, CHR 0x0B, CHR 0x0C, CHR 0x0D, CHR 0x20] @
     [[CHR 0xC2, CHR 0x85], [CHR 0xC2, CHR 0xA0], [CHR 0xE1, CHR 0x9A, CHR 0x80]] @
     map (\<lambda>n. [CHR 0xE2, CHR 0x80, char_of n]) ([0x80..<0x8B] @ [0xA8, 0xA9, 0xAF :: nat]) @
     [[CHR 0xE2, CHR 0x81, CHR 0x9F], [CHR 0xE3, CHR 0x80, CHR 0x80]]"

definition starts_with :: "string \<Rightarrow> string \<Rightarrow> bool" where
  "starts_with p s \<longleftrightarrow> take (length p) s = p"

function trim_left :: "string list \<Rightarrow> string \<Rightarrow> string" where
  "trim_left ws s =
     (case List.find (\<lambda>w. w \<noteq> [] \<and> s \<noteq> [] \<and> starts_with w s) ws of
        None \<Rightarrow> s | Some w \<Rightarrow> trim_left ws (drop (length w) s))"
  by pat_completeness auto
termination
  by (relation "measure (\<lambda>(_, s). length s)") (auto simp: find_Some_iff)

declare trim_left.simps [simp del]

definition TrimSpace :: "string \<Rightarrow> string" where
  "TrimSpace s = rev (trim_left (map rev white_space) (rev (trim_left white_space s)))"

definition CutPrefix :: "string \<Rightarrow> string \<Rightarrow> string option" where
  "CutPrefix s p = (if starts_with p s then Some (drop (length p) s) else None)"

lemma trim_left_id: "\<forall>w\<in>set ws. w \<noteq> [] \<longrightarrow> s = [] \<or> hd w \<noteq> hd s \<Longrightarrow> trim_left ws s = s"
proof -
  assume a: "\<forall>w\<in>set ws. w \<noteq> [] \<longrightarrow> s = [] \<or> hd w \<noteq> hd s"
  have "\<not> (w \<noteq> [] \<and> s \<noteq> [] \<and> starts_with w s)" if "w \<in> set ws" for w
    using a that by (cases w; cases s) (auto simp: starts_with_def)
  then have "List.find (\<lambda>w. w \<noteq> [] \<and> s \<noteq> [] \<and> starts_with w s) ws = None" by (auto simp: find_None_iff)
  then show ?thesis by (simp add: trim_left.simps)
qed

text \<open>A string of printable ASCII characters without spaces is left alone.\<close>

definition visible :: "char \<Rightarrow> bool" where
  "visible c \<longleftrightarrow> 33 \<le> (of_char c :: nat) \<and> (of_char c :: nat) \<le> 126"

lemma TrimSpace_visible: "list_all visible s \<Longrightarrow> TrimSpace s = s"
proof -
  assume v: "list_all visible s"
  have w: "\<forall>w\<in>set white_space. w \<noteq> [] \<and> \<not> visible (hd w) \<and> \<not> visible (List.last w)" by code_simp
  have "trim_left white_space s = s"
    using w v by (intro trim_left_id) (cases s; fastforce)
  moreover have "trim_left (map rev white_space) (rev s) = rev s"
  proof (intro trim_left_id ballI impI)
    fix u assume "u \<in> set (map rev white_space)" "u \<noteq> []"
    then obtain w where "u = rev w" "w \<in> set white_space" "w \<noteq> []" by auto
    then have "\<not> visible (hd u)" using \<open>\<forall>w\<in>set white_space. _\<close> by (simp add: hd_rev)
    moreover have "rev s \<noteq> [] \<Longrightarrow> visible (hd (rev s))"
      using v by (metis hd_in_set list_all_iff set_rev)
    ultimately show "rev s = [] \<or> hd u \<noteq> hd (rev s)" by metis
  qed
  ultimately show ?thesis by (simp add: TrimSpace_def)
qed

section \<open>Decimal numbers\<close>

definition digit :: "nat \<Rightarrow> char" where
  "digit n = char_of (48 + n)"

definition is_digit :: "char \<Rightarrow> bool" where
  "is_digit c \<longleftrightarrow> 48 \<le> (of_char c :: nat) \<and> (of_char c :: nat) \<le> 57"

fun decimal :: "nat \<Rightarrow> string" where
  "decimal n = (if n < 10 then [digit n] else decimal (n div 10) @ [digit (n mod 10)])"

declare decimal.simps [simp del]

definition dec_value :: "string \<Rightarrow> nat" where
  "dec_value s = foldl (\<lambda>a c. a * 10 + (of_char c - 48)) 0 s"

definition Itoa :: "int \<Rightarrow> string" where
  "Itoa i = (if i < 0 then CHR ''-'' # decimal (nat (- i)) else decimal (nat i))"

text \<open>\<open>strconv.Atoi\<close>: an optional sign and at least one digit, within \<open>int64\<close>.\<close>

definition Atoi_digits :: "bool \<Rightarrow> string \<Rightarrow> int result" where
  "Atoi_digits neg ds =
     (if ds = [] \<or> \<not> list_all is_digit ds then Inl (Errorf ''strconv.Atoi: parsing %q: invalid syntax'' [])
      else let v = (if neg then - int (dec_value ds) else int (dec_value ds)) in
        if in64 v then Inr v else Inl (Errorf ''strconv.Atoi: parsing %q: value out of range'' []))"

definition Atoi :: "string \<Rightarrow> int result" where
  "Atoi s =
     (case s of
        [] \<Rightarrow> Atoi_digits False []
      | c # ds \<Rightarrow>
          if c = CHR ''-'' then Atoi_digits True ds
          else if c = CHR ''+'' then Atoi_digits False ds
          else Atoi_digits False s)"

lemma of_char_digit: "n < 10 \<Longrightarrow> of_char (digit n) = 48 + n"
proof -
  assume "n < 10"
  then have "of_char (digit n) = (48 + n) mod (256 :: nat)"
    unfolding digit_def by (simp only: of_char_of)
  with \<open>n < 10\<close> show ?thesis by simp
qed

lemma is_digit_digit [simp]: "n < 10 \<Longrightarrow> is_digit (digit n)"
  by (simp add: is_digit_def of_char_digit)

lemma dec_value_snoc [simp]: "dec_value (s @ [c]) = dec_value s * 10 + (of_char c - 48)"
  by (simp add: dec_value_def)

lemma decimal_digits: "list_all is_digit (decimal n) \<and> decimal n \<noteq> [] \<and> dec_value (decimal n) = n"
proof (induction n rule: decimal.induct)
  case (1 n)
  show ?case
  proof (cases "n < 10")
    case True
    then show ?thesis by (simp add: decimal.simps [of n] dec_value_def of_char_digit)
  next
    case False
    then show ?thesis using 1 by (simp add: decimal.simps [of n] of_char_digit)
  qed
qed

lemma Atoi_Itoa: "in64 i \<Longrightarrow> Atoi (Itoa i) = Inr i"
proof -
  assume i: "in64 i"
  have d: "decimal n = c # cs \<Longrightarrow> c \<noteq> CHR ''-'' \<and> c \<noteq> CHR ''+''" for n c cs
    using decimal_digits [of n] by (auto simp: is_digit_def)
  show ?thesis
  proof (cases "i < 0")
    case True
    then show ?thesis
      using i decimal_digits [of "nat (- i)"] by (simp add: Atoi_def Itoa_def Atoi_digits_def)
  next
    case False
    then show ?thesis
      using i decimal_digits [of "nat i"] d [of "nat i"]
      by (auto simp: Atoi_def Itoa_def Atoi_digits_def split: list.split)
  qed
qed

lemma Itoa_not_Nil [simp]: "Itoa i \<noteq> []"
  using decimal_digits [of "nat i"] by (simp add: Itoa_def)

section \<open>Case folding\<close>

text \<open>
  \<open>strings.EqualFold(name, key)\<close> for a \<open>key\<close> of lower-case ASCII letters and hyphens. Besides the ASCII
  letters only two characters fold to ASCII: U+017F to \<open>s\<close> and U+212A to \<open>k\<close>, in UTF-8 the bytes
  \<open>C5 BF\<close> and \<open>E2 84 AA\<close>; every other byte beyond ASCII differs from every byte of the key.
\<close>

definition lower :: "char \<Rightarrow> char" where
  "lower c = (if 65 \<le> (of_char c :: nat) \<and> (of_char c :: nat) \<le> 90 then char_of (of_char c + (32 :: nat)) else c)"

fun fold_name :: "string \<Rightarrow> string" where
  "fold_name (a # b # c # r) =
     (if a = CHR 0xE2 \<and> b = CHR 0x84 \<and> c = CHR 0xAA then CHR ''k'' # fold_name r
      else if a = CHR 0xC5 \<and> b = CHR 0xBF then CHR ''s'' # fold_name (c # r)
      else lower a # fold_name (b # c # r))"
| "fold_name [a, b] =
     (if a = CHR 0xC5 \<and> b = CHR 0xBF then [CHR ''s''] else [lower a, lower b])"
| "fold_name [a] = [lower a]"
| "fold_name [] = []"

definition EqualFold :: "string \<Rightarrow> string \<Rightarrow> bool" where
  "EqualFold name key \<longleftrightarrow> fold_name name = key"

section \<open>Splitting and joining\<close>

text \<open>\<open>strings.Split(s, c)\<close> and \<open>strings.Join(xs, c)\<close> for a separator of one character.\<close>

fun split :: "char \<Rightarrow> string \<Rightarrow> string list" where
  "split c [] = [[]]"
| "split c (x # xs) =
     (if x = c then [] # split c xs
      else case split c xs of [] \<Rightarrow> [[x]] | y # ys \<Rightarrow> (x # y) # ys)"

fun join :: "char \<Rightarrow> string list \<Rightarrow> string" where
  "join c [] = []"
| "join c [x] = x"
| "join c (x # y # ys) = x @ c # join c (y # ys)"

lemma split_not_Nil [simp]: "split c s \<noteq> []"
  by (induction s) (auto split: list.split)

lemma join_Cons: "xs \<noteq> [] \<Longrightarrow> join c (x # xs) = x @ c # join c xs"
  by (cases xs) auto

lemma join_Cons_hd: "join c ((x # y) # ys) = x # join c (y # ys)"
  by (cases ys) auto

lemma join_split [simp]: "join c (split c s) = s"
proof (induction s)
  case (Cons x s)
  then show ?case
    by (cases "split c s") (auto simp: join_Cons_hd join_Cons)
qed simp

lemma split_no_sep: "c \<notin> set s \<Longrightarrow> split c s = [s]"
  by (induction s) auto

lemma split_append: "split c (a @ c # b) = split c a @ split c b"
proof (induction a)
  case (Cons x a)
  then show ?case by (cases "split c a") auto
qed simp

lemma split_join: "xs \<noteq> [] \<Longrightarrow> \<forall>x\<in>set xs. c \<notin> set x \<Longrightarrow> split c (join c xs) = xs"
proof (induction c xs rule: join.induct)
  case (3 c x y ys)
  then show ?case by (simp add: split_append split_no_sep)
qed (auto simp: split_no_sep)

lemma split_elem: "x \<in> set (split c s) \<Longrightarrow> c \<notin> set x"
proof (induction s arbitrary: x)
  case (Cons y s)
  then show ?case by (cases "split c s") (auto split: if_splits)
qed simp

lemma length_split: "length (split c s) = Suc (count_list s c)"
proof (induction s)
  case (Cons x s)
  then show ?case by (cases "split c s") auto
qed simp

lemma count_list_join: "xs \<noteq> [] \<Longrightarrow> count_list (join c xs) c + 1 = sum_list (map (\<lambda>x. count_list x c) xs) + length xs"
  by (induction c xs rule: join.induct) auto

end
