(* ===== verification/Tenants.thy ===== *)
theory Tenants
  imports Keys GoStrings "HOL-Library.Sublist" "HOL-Library.Multiset"
begin

text \<open>
  The directory of a keyring with tenants, \<open>internal/crypto/keys/tenants.go\<close>: which tenant a bucket
  belongs to, when two bucket entries overlap, and the rules a directory has to satisfy. The rules are
  also stated declaratively, as \<open>directory_ok\<close>, and shown to be what \<open>validate\<close> decides.
\<close>

section \<open>Names and records\<close>

definition DefaultTenant :: string where "DefaultTenant = ''default''"
definition LockDeployment :: string where "LockDeployment = ''deployment''"

record Lock =
  lsource :: string
  lkeyName :: string
  lsalt :: string

record DirectoryTenant =
  dtName :: string
  dtBuckets :: "string list"
  dtKIDs :: "string list"
  dtActiveKID :: string
  dtLocks :: "Lock list"

record Tombstone =
  tbName :: string
  tbBuckets :: "string list"
  tbKIDs :: "string list"
  tbLocks :: "Lock list"
  tbDestroyed :: int

record Directory =
  dirGeneration :: "64 word"
  dirTenants :: "DirectoryTenant list"
  dirTombstones :: "Tombstone list"

section \<open>Bucket entries\<close>

text \<open>
  \<open>strings.CutSuffix(e, "*")\<close>, and \<open>strings.ToLower\<close> for a string that is compared with ASCII strings
  only: besides the ASCII capitals two characters have an ASCII lower case, U+212A the letter \<open>k\<close> and
  U+0130 the letter \<open>i\<close>, in UTF-8 \<open>E2 84 AA\<close> and \<open>C4 B0\<close>. Every other character beyond ASCII stays one and
  is kept as it is, since no entry contains one.
\<close>

definition CutSuffix :: "string \<Rightarrow> char \<Rightarrow> string \<times> bool" where
  "CutSuffix s c = (if s \<noteq> [] \<and> List.last s = c then (butlast s, True) else (s, False))"

fun ToLower :: "string \<Rightarrow> string" where
  "ToLower (a # b # c # r) =
     (if a = CHR 0xE2 \<and> b = CHR 0x84 \<and> c = CHR 0xAA then CHR ''k'' # ToLower r
      else if a = CHR 0xC4 \<and> b = CHR 0xB0 then CHR ''i'' # ToLower (c # r)
      else lower a # ToLower (b # c # r))"
| "ToLower [a, b] = (if a = CHR 0xC4 \<and> b = CHR 0xB0 then [CHR ''i''] else [lower a, lower b])"
| "ToLower [a] = [lower a]"
| "ToLower [] = []"

fun matchesAny :: "string list \<Rightarrow> string \<Rightarrow> bool" where
  "matchesAny [] bucket = False"
| "matchesAny (e # es) bucket =
     (case CutSuffix e (CHR ''*'') of
        (p, True) \<Rightarrow> if starts_with p bucket then True else matchesAny es bucket
      | (_, False) \<Rightarrow> if e = bucket then True else matchesAny es bucket)"

definition bucket_char :: "char \<Rightarrow> bool" where
  "bucket_char c \<longleftrightarrow>
     CHR ''a'' \<le> c \<and> c \<le> CHR ''z'' \<or> CHR ''0'' \<le> c \<and> c \<le> CHR ''9'' \<or> c = CHR ''.'' \<or> c = CHR ''-''"

definition validBucketEntry :: "string \<Rightarrow> bool" where
  "validBucketEntry e =
     (case CutSuffix e (CHR ''*'') of
        (body, pfx) \<Rightarrow>
          (let (lo, hi) = (if pfx then (1, 62) else (3, 63 :: nat)) in
           if length body < lo \<or> length body > hi then False else list_all bucket_char body))"

definition overlap :: "string \<Rightarrow> string \<Rightarrow> bool" where
  "overlap a b =
     (case (CutSuffix a (CHR ''*''), CutSuffix b (CHR ''*'')) of
        ((pa, aPrefix), (pb, bPrefix)) \<Rightarrow>
          if aPrefix \<and> bPrefix then starts_with pb pa \<or> starts_with pa pb
          else if aPrefix then starts_with pa b
          else if bPrefix then starts_with pb a
          else a = b)"

section \<open>The directory\<close>

fun first_match :: "('a \<Rightarrow> string list) \<Rightarrow> string \<Rightarrow> 'a list \<Rightarrow> 'a option" where
  "first_match bs bucket [] = None"
| "first_match bs bucket (t # ts) = (if matchesAny (bs t) bucket then Some t else first_match bs bucket ts)"

definition Directory_Tenant :: "Directory \<Rightarrow> string \<Rightarrow> string \<times> bool" where
  "Directory_Tenant d bucket =
     (let bucket = ToLower bucket in
      case first_match dtBuckets bucket (dirTenants d) of
        Some t \<Rightarrow> (dtName t, False)
      | None \<Rightarrow>
          (case first_match tbBuckets bucket (dirTombstones d) of
             Some t \<Rightarrow> (tbName t, True)
           | None \<Rightarrow> (DefaultTenant, False)))"

definition ValidateTenantName :: "string \<Rightarrow> err option" where
  "ValidateTenantName name =
     (if name = DefaultTenant
      then Some (Errorf ''keys: %q names the default tenant, which every bucket no tenant claims belongs to'' [])
      else case ValidateKID name of
        Some e \<Rightarrow> Some (Errorf ''keys: tenant name %q: %w'' [e])
      | None \<Rightarrow> None)"

definition validTenantName :: "string \<Rightarrow> err option" where
  "validTenantName name =
     (case ValidateTenantName name of
        Some e \<Rightarrow> Some (Errorf ''%w: %w'' [Sentinel ErrKeyringMalformed, e])
      | None \<Rightarrow> None)"

definition malformed :: "string \<Rightarrow> err" where
  "malformed msg = Errorf msg [Sentinel ErrKeyringMalformed]"

text \<open>What the closure \<open>claim\<close> of \<open>validate\<close> has seen so far.\<close>

record claims =
  cnames :: "string list"
  ckids :: "(string \<times> string) list"
  centries :: "string list"

fun claim_kids :: "string \<Rightarrow> string list \<Rightarrow> (string \<times> string) list \<Rightarrow> (string \<times> string) list result" where
  "claim_kids tenant [] kids = Inr kids"
| "claim_kids tenant (kid # tkids) kids =
     (case ValidateKID kid of
        Some e \<Rightarrow> Inl (Errorf ''%w: %w'' [Sentinel ErrKeyringMalformed, e])
      | None \<Rightarrow>
          if map_of kids kid \<noteq> None then Inl (malformed ''%w: key id %q is used by %q and %q'')
          else claim_kids tenant tkids ((kid, tenant) # kids))"

fun claim_entries :: "string list \<Rightarrow> string list \<Rightarrow> string list result" where
  "claim_entries [] entries = Inr entries"
| "claim_entries (e # buckets) entries =
     (if \<not> validBucketEntry e then Inl (malformed ''%w: tenant %q: %q is not a bucket name or prefix'')
      else if list_ex (\<lambda>prev. overlap prev e) entries then Inl (malformed ''%w: bucket entries %q and %q overlap'')
      else claim_entries buckets (entries @ [e]))"

definition claim :: "string \<Rightarrow> string list \<Rightarrow> string list \<Rightarrow> claims \<Rightarrow> claims result" where
  "claim tenant tkids buckets c =
     echeck (validTenantName tenant)
       (if tenant \<in> set (cnames c) then Inl (malformed ''%w: tenant %q is listed twice'')
        else if tkids = [] then Inl (malformed ''%w: tenant %q has no keys'')
        else ebind (claim_kids tenant tkids (ckids c)) (\<lambda>kids.
             ebind (claim_entries buckets (centries c)) (\<lambda>entries.
               Inr \<lparr>cnames = tenant # cnames c, ckids = kids, centries = entries\<rparr>)))"

fun claim_tenants :: "DirectoryTenant list \<Rightarrow> claims \<Rightarrow> claims result" where
  "claim_tenants [] c = Inr c"
| "claim_tenants (t # ts) c =
     ebind (claim (dtName t) (dtKIDs t) (dtBuckets t) c) (\<lambda>c.
       if dtActiveKID t \<noteq> '''' \<and> dtActiveKID t \<notin> set (dtKIDs t)
       then Inl (malformed ''%w: tenant %q: active key %q is not one of its keys'')
       else if dtLocks t = [] then Inl (malformed ''%w: tenant %q has no lock'')
       else claim_tenants ts c)"

fun claim_tombstones :: "Tombstone list \<Rightarrow> claims \<Rightarrow> claims result" where
  "claim_tombstones [] c = Inr c"
| "claim_tombstones (t # ts) c = ebind (claim (tbName t) (tbKIDs t) (tbBuckets t) c) (claim_tombstones ts)"

definition Directory_validate :: "Directory \<Rightarrow> string list \<Rightarrow> err option" where
  "Directory_validate d defaultKIDs =
     (case ebind (claim_tenants (dirTenants d)
                    \<lparr>cnames = [], ckids = map (\<lambda>k. (k, DefaultTenant)) defaultKIDs, centries = []\<rparr>)
             (claim_tombstones (dirTombstones d)) of
        Inl e \<Rightarrow> Some e
      | Inr _ \<Rightarrow> None)"

section \<open>Entries and the buckets they stand for\<close>

definition entry_matches :: "string \<Rightarrow> string \<Rightarrow> bool" where
  "entry_matches e bucket =
     (case CutSuffix e (CHR ''*'') of (p, True) \<Rightarrow> starts_with p bucket | (_, False) \<Rightarrow> e = bucket)"

lemma matchesAny_iff: "matchesAny es bucket \<longleftrightarrow> (\<exists>e\<in>set es. entry_matches e bucket)"
  by (induction es) (auto simp: entry_matches_def split: prod.splits bool.splits)

lemma starts_with_prefix: "starts_with p s \<longleftrightarrow> prefix p s"
  unfolding starts_with_def prefix_def by (metis append_eq_conv_conj append_take_drop_id)

text \<open>Two entries overlap exactly if some bucket matches both.\<close>

lemma overlap_iff: "overlap a b \<longleftrightarrow> (\<exists>x. entry_matches a x \<and> entry_matches b x)"
proof -
  obtain pa fa pb fb where c: "CutSuffix a (CHR ''*'') = (pa, fa)" "CutSuffix b (CHR ''*'') = (pb, fb)" by fastforce
  have "(\<exists>x. prefix pa x \<and> prefix pb x) \<longleftrightarrow> prefix pa pb \<or> prefix pb pa"
    using prefix_same_cases by blast
  then show ?thesis
    by (cases fa; cases fb) (auto simp: overlap_def entry_matches_def c starts_with_prefix)
qed

lemma first_match_Some:
  "first_match bs bucket ts = Some t \<Longrightarrow> t \<in> set ts \<and> (\<exists>e\<in>set (bs t). entry_matches e bucket)"
  by (induction ts) (auto simp: matchesAny_iff split: if_splits)

lemma first_match_None: "first_match bs bucket ts = None \<longleftrightarrow> (\<forall>t\<in>set ts. \<forall>e\<in>set (bs t). \<not> entry_matches e bucket)"
  by (induction ts) (auto simp: matchesAny_iff)

section \<open>What a valid directory is\<close>

text \<open>Every tenant, live or destroyed, with its key ids and bucket entries.\<close>

definition owners :: "Directory \<Rightarrow> (string \<times> string list \<times> string list) list" where
  "owners d = map (\<lambda>t. (dtName t, dtKIDs t, dtBuckets t)) (dirTenants d) @
     map (\<lambda>t. (tbName t, tbKIDs t, tbBuckets t)) (dirTombstones d)"

abbreviation owner_kids :: "(string \<times> string list \<times> string list) list \<Rightarrow> string list" where
  "owner_kids own \<equiv> concat (map (\<lambda>x. fst (snd x)) own)"

abbreviation owner_entries :: "(string \<times> string list \<times> string list) list \<Rightarrow> string list" where
  "owner_entries own \<equiv> concat (map (\<lambda>x. snd (snd x)) own)"

abbreviation apart :: "string list \<Rightarrow> bool" where
  "apart \<equiv> sorted_wrt (\<lambda>p e. \<not> overlap p e)"

definition owner_ok :: "string \<times> string list \<times> string list \<Rightarrow> bool" where
  "owner_ok = (\<lambda>(name, kids, buckets). ValidateTenantName name = None \<and> kids \<noteq> [] \<and>
     list_all (\<lambda>k. ValidateKID k = None) kids \<and> list_all validBucketEntry buckets)"

definition directory_ok :: "Directory \<Rightarrow> string list \<Rightarrow> bool" where
  "directory_ok d defaultKIDs \<longleftrightarrow>
     list_all owner_ok (owners d) \<and> distinct (map fst (owners d)) \<and>
     distinct (owner_kids (owners d)) \<and> set (owner_kids (owners d)) \<inter> set defaultKIDs = {} \<and>
     apart (owner_entries (owners d)) \<and>
     list_all (\<lambda>t. (dtActiveKID t = '''' \<or> dtActiveKID t \<in> set (dtKIDs t)) \<and> dtLocks t \<noteq> []) (dirTenants d)"

lemma claim_kids_Inr:
  "claim_kids t ks kids = Inr kids' \<longleftrightarrow> list_all (\<lambda>k. ValidateKID k = None) ks \<and> distinct ks \<and>
     set ks \<inter> fst ` set kids = {} \<and> kids' = rev (map (\<lambda>k. (k, t)) ks) @ kids"
  by (induction t ks kids rule: claim_kids.induct) (auto split: option.splits simp: map_of_eq_None_iff)

lemma claim_entries_Inr:
  "claim_entries bs es = Inr es' \<longleftrightarrow> list_all validBucketEntry bs \<and> apart bs \<and>
     (\<forall>p\<in>set es. \<forall>e\<in>set bs. \<not> overlap p e) \<and> es' = es @ bs"
  by (induction bs es rule: claim_entries.induct) (auto simp: list_ex_iff)

lemma validTenantName_None: "validTenantName n = None \<longleftrightarrow> ValidateTenantName n = None"
  by (simp add: validTenantName_def split: option.splits)

lemma claim_Inr:
  "claim n ks bs c = Inr c' \<longleftrightarrow> owner_ok (n, ks, bs) \<and> n \<notin> set (cnames c) \<and> distinct ks \<and>
     set ks \<inter> fst ` set (ckids c) = {} \<and> apart bs \<and> (\<forall>p\<in>set (centries c). \<forall>e\<in>set bs. \<not> overlap p e) \<and>
     c' = \<lparr>cnames = n # cnames c, ckids = rev (map (\<lambda>k. (k, n)) ks) @ ckids c, centries = centries c @ bs\<rparr>"
  by (auto simp: claim_def result_simps claim_kids_Inr claim_entries_Inr validTenantName_None owner_ok_def)

fun claim_all :: "(string \<times> string list \<times> string list) list \<Rightarrow> claims \<Rightarrow> claims result" where
  "claim_all [] c = Inr c"
| "claim_all ((n, ks, bs) # own) c = ebind (claim n ks bs c) (claim_all own)"

lemma claim_all_append: "claim_all (xs @ ys) c = ebind (claim_all xs c) (claim_all ys)"
  by (induction xs c rule: claim_all.induct) (auto simp: ebind_def split: sum.splits)

lemma claims_split:
  fixes c :: claims and ks bs n
  defines "c' \<equiv> \<lparr>cnames = n # cnames c, ckids = rev (map (\<lambda>k. (k, n)) ks) @ ckids c, centries = centries c @ bs\<rparr>"
  shows "(A \<and> n \<notin> set (cnames c) \<and> distinct ks \<and> set ks \<inter> fst ` set (ckids c) = {} \<and>
      apart bs \<and> (\<forall>p\<in>set (centries c). \<forall>e\<in>set bs. \<not> overlap p e)) \<and>
    B \<and> distinct N \<and> set N \<inter> set (cnames c') = {} \<and> distinct K \<and> set K \<inter> fst ` set (ckids c') = {} \<and>
      apart E \<and> (\<forall>p\<in>set (centries c'). \<forall>e\<in>set E. \<not> overlap p e) \<longleftrightarrow>
    (A \<and> B) \<and> distinct (n # N) \<and> set (n # N) \<inter> set (cnames c) = {} \<and>
      distinct (ks @ K) \<and> set (ks @ K) \<inter> fst ` set (ckids c) = {} \<and>
      apart (bs @ E) \<and> (\<forall>p\<in>set (centries c). \<forall>e\<in>set (bs @ E). \<not> overlap p e)"
proof -
  have s: "set (cnames c') = insert n (set (cnames c))" "fst ` set (ckids c') = set ks \<union> fst ` set (ckids c)"
      "set (centries c') = set (centries c) \<union> set bs"
    by (auto simp: c'_def image_Un image_image)
  show ?thesis unfolding s sorted_wrt_append distinct_append set_append ball_Un by auto
qed

lemma claim_all_ok:
  "(\<exists>c'. claim_all own c = Inr c') \<longleftrightarrow> list_all owner_ok own \<and>
     distinct (map fst own) \<and> set (map fst own) \<inter> set (cnames c) = {} \<and>
     distinct (owner_kids own) \<and> set (owner_kids own) \<inter> fst ` set (ckids c) = {} \<and>
     apart (owner_entries own) \<and> (\<forall>p\<in>set (centries c). \<forall>e\<in>set (owner_entries own). \<not> overlap p e)"
proof (induction own c rule: claim_all.induct)
  case (2 n ks bs own c)
  let ?c = "\<lparr>cnames = n # cnames c, ckids = rev (map (\<lambda>k. (k, n)) ks) @ ckids c, centries = centries c @ bs\<rparr>"
  let ?A = "owner_ok (n, ks, bs) \<and> n \<notin> set (cnames c) \<and> distinct ks \<and> set ks \<inter> fst ` set (ckids c) = {} \<and>
        apart bs \<and> (\<forall>p\<in>set (centries c). \<forall>e\<in>set bs. \<not> overlap p e)"
  have "(\<exists>c'. claim_all ((n, ks, bs) # own) c = Inr c') \<longleftrightarrow> ?A \<and> (\<exists>c'. claim_all own ?c = Inr c')"
    by (simp only: claim_all.simps result_simps claim_Inr) blast
  also have "?A \<and> (\<exists>c'. claim_all own ?c = Inr c') \<longleftrightarrow> ?A \<and> list_all owner_ok own \<and>
      distinct (map fst own) \<and> set (map fst own) \<inter> set (cnames ?c) = {} \<and>
      distinct (owner_kids own) \<and> set (owner_kids own) \<inter> fst ` set (ckids ?c) = {} \<and>
      apart (owner_entries own) \<and> (\<forall>p\<in>set (centries ?c). \<forall>e\<in>set (owner_entries own). \<not> overlap p e)"
    (is "_ \<longleftrightarrow> ?B")
    by (simp only: "2.IH")
  also have "?B \<longleftrightarrow> list_all owner_ok ((n, ks, bs) # own) \<and>
      distinct (map fst ((n, ks, bs) # own)) \<and> set (map fst ((n, ks, bs) # own)) \<inter> set (cnames c) = {} \<and>
      distinct (owner_kids ((n, ks, bs) # own)) \<and> set (owner_kids ((n, ks, bs) # own)) \<inter> fst ` set (ckids c) = {} \<and>
      apart (owner_entries ((n, ks, bs) # own)) \<and>
      (\<forall>p\<in>set (centries c). \<forall>e\<in>set (owner_entries ((n, ks, bs) # own)). \<not> overlap p e)"
    unfolding list.map concat.simps fst_conv snd_conv list.pred_inject
    by (rule claims_split)
  finally show ?case .
qed simp

lemma claim_tenants_Inr:
  "(claim_tenants ts c = Inr c') \<longleftrightarrow> claim_all (map (\<lambda>t. (dtName t, dtKIDs t, dtBuckets t)) ts) c = Inr c' \<and>
     list_all (\<lambda>t. (dtActiveKID t = '''' \<or> dtActiveKID t \<in> set (dtKIDs t)) \<and> dtLocks t \<noteq> []) ts"
  by (induction ts c rule: claim_tenants.induct) (auto simp: result_simps)

lemma claim_tombstones_all: "claim_tombstones ts c = claim_all (map (\<lambda>t. (tbName t, tbKIDs t, tbBuckets t)) ts) c"
  by (induction ts c rule: claim_tombstones.induct) (auto simp: ebind_def split: sum.splits)

lemma Directory_validate_iff: "Directory_validate d dk = None \<longleftrightarrow> directory_ok d dk"
proof -
  let ?c = "\<lparr>cnames = [], ckids = map (\<lambda>k. (k, DefaultTenant)) dk, centries = []\<rparr>"
  let ?act = "list_all (\<lambda>t. (dtActiveKID t = '''' \<or> dtActiveKID t \<in> set (dtKIDs t)) \<and> dtLocks t \<noteq> []) (dirTenants d)"
  have "Directory_validate d dk = None \<longleftrightarrow>
      (\<exists>x. ebind (claim_tenants (dirTenants d) ?c) (claim_tombstones (dirTombstones d)) = Inr x)"
    by (auto simp: Directory_validate_def split: sum.splits)
  also have "\<dots> \<longleftrightarrow> (\<exists>x. claim_all (owners d) ?c = Inr x) \<and> ?act"
    by (auto simp: owners_def claim_all_append result_simps claim_tenants_Inr claim_tombstones_all)
  also have "\<dots> \<longleftrightarrow> directory_ok d dk"
    unfolding claim_all_ok directory_ok_def by (auto simp: image_image)
  finally show ?thesis .
qed

text \<open>In a valid directory at most one tenant claims a bucket.\<close>

lemma apart_nth: "apart es \<Longrightarrow> i < length es \<Longrightarrow> j < length es \<Longrightarrow> entry_matches (es ! i) x \<Longrightarrow>
    entry_matches (es ! j) x \<Longrightarrow> i = j"
  by (metis linorder_neqE_nat overlap_iff sorted_wrt_nth_less)

lemma apart_concat_unique:
  assumes "apart (owner_entries own)" and "o1 \<in> set own" and "o2 \<in> set own"
    and "e1 \<in> set (snd (snd o1))" and "e2 \<in> set (snd (snd o2))" and "entry_matches e1 x" and "entry_matches e2 x"
  shows "o1 = o2"
  using assms
proof (induction own)
  case (Cons a own)
  then show ?case by (auto simp: sorted_wrt_append overlap_iff)
qed simp

text \<open>The rules do not depend on the order in which the tenants are listed.\<close>

lemma overlap_sym: "overlap a b \<longleftrightarrow> overlap b a"
  by (auto simp: overlap_iff)

lemma overlap_refl: "overlap a a"
  by (cases "CutSuffix a (CHR ''*'')") (auto simp: overlap_def starts_with_def)

lemma apart_iff: "apart es \<longleftrightarrow> distinct es \<and> pairwise (\<lambda>a b. \<not> overlap a b) (set es)"
proof (induction es)
  case (Cons e es)
  have "(\<forall>x\<in>set es. \<not> overlap e x) \<longleftrightarrow> e \<notin> set es \<and> (\<forall>x\<in>set es. x \<noteq> e \<longrightarrow> \<not> overlap e x)"
    using overlap_refl by metis
  with Cons show ?case using overlap_sym by (auto simp: pairwise_insert)
qed simp

lemma mset_concat_map: "mset own = mset own' \<Longrightarrow> mset (concat (map f own)) = mset (concat (map f own'))"
proof -
  have "mset (concat (map f xs)) = sum_mset (image_mset (\<lambda>x. mset (f x)) (mset xs))" for xs
    by (induction xs) auto
  then show "mset own = mset own' \<Longrightarrow> ?thesis" by simp
qed

definition owners_ok :: "(string \<times> string list \<times> string list) list \<Rightarrow> string list \<Rightarrow> bool" where
  "owners_ok own dk \<longleftrightarrow> list_all owner_ok own \<and> distinct (map fst own) \<and>
     distinct (owner_kids own) \<and> set (owner_kids own) \<inter> set dk = {} \<and> apart (owner_entries own)"

lemma directory_ok_owners:
  "directory_ok d dk \<longleftrightarrow> owners_ok (owners d) dk \<and>
     list_all (\<lambda>t. (dtActiveKID t = '''' \<or> dtActiveKID t \<in> set (dtKIDs t)) \<and> dtLocks t \<noteq> []) (dirTenants d)"
  by (auto simp: directory_ok_def owners_ok_def)

lemma owners_ok_perm:
  assumes "mset own = mset own'"
  shows "owners_ok own dk = owners_ok own' dk"
proof -
  have k: "mset (owner_kids own) = mset (owner_kids own')" "mset (owner_entries own) = mset (owner_entries own')"
    by (rule mset_concat_map [OF assms])+
  have n: "mset (map fst own) = mset (map fst own')" using assms by simp
  show ?thesis
    unfolding owners_ok_def apart_iff list_all_iff mset_eq_setD [OF assms] mset_eq_setD [OF k(1)] mset_eq_setD [OF k(2)]
      mset_eq_imp_distinct_iff [OF n] mset_eq_imp_distinct_iff [OF k(1)] mset_eq_imp_distinct_iff [OF k(2)] ..
qed

lemma owners_ok_Cons:
  "owners_ok ((n, ks, bs) # own) dk \<longleftrightarrow> owner_ok (n, ks, bs) \<and> n \<notin> fst ` set own \<and> distinct ks \<and>
     set ks \<inter> (set (owner_kids own) \<union> set dk) = {} \<and> apart bs \<and>
     (\<forall>p\<in>set bs. \<forall>e\<in>set (owner_entries own). \<not> overlap p e) \<and> owners_ok own dk"
  unfolding owners_ok_def list.map concat.simps fst_conv snd_conv list.pred_inject distinct_append sorted_wrt_append
    set_append distinct.simps set_map
  by blast

text \<open>Whose bucket it is, read off the owners.\<close>

lemma Directory_Tenant_owner:
  assumes "directory_ok d dk"
  shows "fst (Directory_Tenant d b) =
      (case List.find (\<lambda>x. \<exists>e\<in>set (snd (snd x)). entry_matches e (ToLower b)) (owners d) of
         Some x \<Rightarrow> fst x | None \<Rightarrow> DefaultTenant)"
proof -
  have f: "first_match bs x ts = List.find (\<lambda>t. \<exists>e\<in>set (bs t). entry_matches e x) ts" for bs x and ts :: "'a list"
    by (induction ts) (auto simp: matchesAny_iff)
  have a: "List.find P (xs @ ys) = (case List.find P xs of Some x \<Rightarrow> Some x | None \<Rightarrow> List.find P ys)"
    for P and xs ys :: "'b list"
    by (induction xs) auto
  have m: "List.find P (map g xs) = map_option g (List.find (\<lambda>x. P (g x)) xs)"
    for P and g :: "'c \<Rightarrow> 'd" and xs
    by (induction xs) auto
  show ?thesis
    by (simp add: Directory_Tenant_def Let_def owners_def a m f split: option.splits)
qed

end
