(* ===== verification/KeyringFile.thy ===== *)
theory KeyringFile
  imports Tenants
begin

text \<open>
  The keyring file: the sealed sections of \<open>tenants.go\<close>, the version 1 structure of \<open>keyring.go\<close> and the
  file with tenants of \<open>file.go\<close>, with the root-key references of \<open>rootkey.go\<close>. A file is its decoded
  structure: the JSON text around it is left to \<open>encoding/json\<close>, of which only the encoding of the
  directory appears, as the functions \<open>json\<close> and \<open>unjson\<close>, because that text is sealed. The Ed25519 public
  key of a seed and Argon2 are parameters too. Every call of \<open>crypto/rand\<close> belongs to the sealing of one
  secret, so \<open>rnd\<close> gives the answer for the associated data of that secret.
\<close>

section \<open>Root keys and locks\<close>

definition SourcePassphrase :: string where "SourcePassphrase = ''passphrase''"
definition SourceVaultTransit :: string where "SourceVaultTransit = ''vault-transit''"
definition SourceAWSKMS :: string where "SourceAWSKMS = ''awskms''"

record RootKeyRef =
  rsource :: string
  rciphertext :: string
  rkeyName :: string
  rcontext :: "(string \<times> string) list"

definition maxContextPairs :: nat where [simp]: "maxContextPairs = 16"
definition maxContextField :: nat where [simp]: "maxContextField = 256"

fun context_fields :: "(string \<times> string) list \<Rightarrow> err option" where
  "context_fields [] = None"
| "context_fields ((k, v) # kvs) =
     (if k = '''' then Some (Errorf ''keys: encryption context has an empty key'' [])
      else if length k > maxContextField \<or> length v > maxContextField
      then Some (Errorf ''keys: encryption context entry %q exceeds %d bytes'' [])
      else context_fields kvs)"

definition validateContext :: "RootKeyRef \<Rightarrow> err option" where
  "validateContext r =
     (if length (rcontext r) > maxContextPairs
      then Some (Errorf ''keys: encryption context has %d entries, at most %d are allowed'' [])
      else context_fields (rcontext r))"

definition RootKeyRef_validate :: "RootKeyRef \<Rightarrow> err option" where
  "RootKeyRef_validate r =
     (if rsource r = SourcePassphrase \<or> rsource r = '''' then None
      else if rsource r = SourceVaultTransit \<or> rsource r = SourceAWSKMS
      then if rciphertext r = '''' then Some (Errorf ''keys: a %s keyring carries no encrypted root key'' [])
           else validateContext r
      else Some (Errorf ''keys: unsupported root-key source %q'' []))"

record KDFParams =
  kAlgorithm :: string
  kSalt :: string
  kTime :: "32 word"
  kMemoryKiB :: "32 word"
  kParallelism :: "8 word"

definition maxKDFMemoryKiB :: "32 word" where [simp]: "maxKDFMemoryKiB = 1048576"
definition maxKDFTime :: "32 word" where [simp]: "maxKDFTime = 16"
definition maxKDFParallelism :: "8 word" where [simp]: "maxKDFParallelism = 16"
definition kdfSaltSize :: nat where [simp]: "kdfSaltSize = 16"

definition KDFParams_validate :: "KDFParams \<Rightarrow> err option" where
  "KDFParams_validate p =
     (if kAlgorithm p \<noteq> ''argon2id'' then Some (Errorf ''keys: unsupported KDF %q'' [])
      else if kTime p = 0 \<or> kTime p > maxKDFTime then Some (Errorf ''keys: KDF time %d outside 1..%d'' [])
      else if kMemoryKiB p = 0 \<or> kMemoryKiB p > maxKDFMemoryKiB
      then Some (Errorf ''keys: KDF memory %d KiB outside 1..%d'' [])
      else if kParallelism p = 0 \<or> kParallelism p > maxKDFParallelism
      then Some (Errorf ''keys: KDF parallelism %d outside 1..%d'' [])
      else None)"

type_synonym argon2 = "bytes \<Rightarrow> bytes \<Rightarrow> 32 word \<Rightarrow> 32 word \<Rightarrow> 8 word \<Rightarrow> bytes"

definition deriveRootKey :: "argon2 \<Rightarrow> KDFParams \<Rightarrow> bytes \<Rightarrow> bytes result" where
  "deriveRootKey IDKey p passphrase =
     echeck (KDFParams_validate p)
       (ebind (emap_err (\<lambda>e. Errorf ''keys: KDF salt is not valid base64: %w'' [e]) (b64_DecodeString (kSalt p))) (\<lambda>salt.
        if length salt < kdfSaltSize then Inl (Errorf ''keys: KDF salt is %d bytes, want at least %d'' [])
        else Inr (IDKey passphrase salt (kTime p) (kMemoryKiB p) (kParallelism p))))"

record TenantLock =
  tlRootKey :: "bytes option"
  tlRef :: "RootKeyRef option"
  tlKDF :: "KDFParams option"

definition DeploymentLock :: TenantLock where
  "DeploymentLock = \<lparr>tlRootKey = None, tlRef = None, tlKDF = None\<rparr>"

definition ServiceLock :: "bytes \<Rightarrow> RootKeyRef \<Rightarrow> TenantLock result" where
  "ServiceLock rootKey ref =
     (if length rootKey \<noteq> keys_KeySize then Inl (Errorf ''keys: root key is %d bytes, want %d'' [])
      else if rsource ref = SourcePassphrase \<or> rsource ref = ''''
      then Inl (Errorf ''keys: ServiceLock needs a service-backed source'' [])
      else echeck (RootKeyRef_validate ref) (Inr \<lparr>tlRootKey = Some rootKey, tlRef = Some ref, tlKDF = None\<rparr>))"

definition PassphraseLock :: "argon2 \<Rightarrow> bytes result \<Rightarrow> bytes \<Rightarrow> KDFParams \<Rightarrow> TenantLock result" where
  "PassphraseLock IDKey rnd passphrase params =
     (if passphrase = [] then Inl (Errorf ''keys: refusing to seal a tenant without a passphrase'' [])
      else ebind rnd (\<lambda>salt.
        let params = params\<lparr>kAlgorithm := ''argon2id'', kSalt := b64_EncodeToString salt\<rparr>
        in ebind (deriveRootKey IDKey params passphrase) (\<lambda>root.
             Inr \<lparr>tlRootKey = Some root, tlRef = None, tlKDF = Some params\<rparr>)))"

definition TenantLock_record :: "TenantLock \<Rightarrow> Lock" where
  "TenantLock_record l =
     (case tlKDF l of
        Some k \<Rightarrow> \<lparr>lsource = SourcePassphrase, lkeyName = '''', lsalt = kSalt k\<rparr>
      | None \<Rightarrow>
          (case tlRef l of
             Some r \<Rightarrow> \<lparr>lsource = rsource r, lkeyName = rkeyName r, lsalt = ''''\<rparr>
           | None \<Rightarrow> \<lparr>lsource = LockDeployment, lkeyName = '''', lsalt = ''''\<rparr>))"

section \<open>Sections and the version 1 structure\<close>

record keyEntry =
  eKID :: string
  eCreated :: int
  eWrapped :: string

record auditEntry =
  aWrapped :: string
  aPublicKey :: string

record tenantSection =
  sName :: string
  sRootKey :: "RootKeyRef option"
  sKDF :: "KDFParams option"
  sKeys :: "keyEntry list"
  sNameKey :: "string option"

record keyringFile =
  vVersion :: int
  vActiveKID :: string
  vRootKey :: RootKeyRef
  vKDF :: "KDFParams option"
  vKeys :: "keyEntry list"
  vAudit :: "auditEntry option"
  vName :: "string option"
  vFreshness :: "string option"

text \<open>Version 2 embeds version 1. The field \<open>tenants\<close> may be absent (or \<open>null\<close>), which is \<open>None\<close>.\<close>

record keyringFileV2 = keyringFile +
  vGeneration :: "64 word"
  vDirectory :: string
  vTenants :: "tenantSection list option"

definition keyringVersion :: int where [simp]: "keyringVersion = 1"
definition keyringVersion2 :: int where [simp]: "keyringVersion2 = 2"

definition matchesLock :: "tenantSection \<Rightarrow> Lock \<Rightarrow> bool" where
  "matchesLock s l =
     (let source =
        (case (sKDF s, sRootKey s) of
           (Some _, None) \<Rightarrow> SourcePassphrase
         | (Some _, Some r) \<Rightarrow> if rsource r = SourcePassphrase then SourcePassphrase else ''''
         | (None, None) \<Rightarrow> LockDeployment
         | (None, Some r) \<Rightarrow> if rsource r \<noteq> SourcePassphrase then rsource r else '''')
      in if source = '''' \<or> source \<noteq> lsource l then False
         else if source = SourcePassphrase then (case sKDF s of Some k \<Rightarrow> kSalt k = lsalt l | None \<Rightarrow> False)
         else if source = LockDeployment then True
         else (case sRootKey s of Some r \<Rightarrow> rkeyName r = lkeyName l | None \<Rightarrow> False))"

fun seal_keks ::
  "(bytes \<Rightarrow> bytes result) \<Rightarrow> (string \<Rightarrow> bytes result) \<Rightarrow> bytes \<Rightarrow> Keyring \<Rightarrow> string list \<Rightarrow> keyEntry list result" where
  "seal_keks rnd ad rootKey ring [] = Inr []"
| "seal_keks rnd ad rootKey ring (kid # kids) =
     ebind (ad kid) (\<lambda>a.
     ebind (sealKey (rnd a) rootKey (case map_of (keks ring) kid of Some k \<Rightarrow> k | None \<Rightarrow> replicate keys_KeySize 0) a) (\<lambda>w.
     ebind (seal_keks rnd ad rootKey ring kids) (\<lambda>es.
       Inr (\<lparr>eKID = kid, eCreated = created_at ring kid, eWrapped = b64_EncodeToString w\<rparr> # es))))"

definition sealSection ::
  "(bytes \<Rightarrow> bytes result) \<Rightarrow> string \<Rightarrow> Keyring \<Rightarrow> bytes \<Rightarrow> RootKeyRef option \<Rightarrow> KDFParams option \<Rightarrow> tenantSection result" where
  "sealSection rnd name ring rootKey ref kdf =
     (case kname ring of
        None \<Rightarrow> Inl (Errorf ''keys: tenant %q has no name key'' [])
      | Some secret \<Rightarrow>
          if keks ring = [] then Inl (Errorf ''keys: tenant %q has no keys'' [])
          else ebind (seal_keks rnd (tenantKEKAAD name) rootKey ring (KIDs ring)) (\<lambda>es.
               ebind (tenantNameAAD name) (\<lambda>a.
               ebind (sealKey (rnd a) rootKey secret a) (\<lambda>w.
                 Inr \<lparr>sName = name, sRootKey = ref, sKDF = kdf, sKeys = es, sNameKey = Some (b64_EncodeToString w)\<rparr>))))"

text \<open>The creation date of a key that was read back: the recorded one, or none.\<close>

definition set_created :: "string \<Rightarrow> int \<Rightarrow> Keyring \<Rightarrow> Keyring" where
  "set_created kid t ring =
     (let rest = filter (\<lambda>(k, _). k \<noteq> kid) (kcreated ring)
      in ring\<lparr>kcreated := if t = 0 then rest else (kid, t) # rest\<rparr>)"

fun open_keks ::
  "int \<Rightarrow> (err \<Rightarrow> err) \<Rightarrow> (err \<Rightarrow> err) \<Rightarrow> (string \<Rightarrow> bytes result) \<Rightarrow> bytes \<Rightarrow> keyEntry list \<Rightarrow> Keyring \<Rightarrow> Keyring result" where
  "open_keks now dec_err key_err ad rootKey [] ring = Inr ring"
| "open_keks now dec_err key_err ad rootKey (e # es) ring =
     ebind (ad (eKID e)) (\<lambda>a.
     ebind (emap_err dec_err (b64_DecodeString (eWrapped e))) (\<lambda>w.
     ebind (emap_err key_err (openKey rootKey w a)) (\<lambda>kek.
     ebind (Add now (eKID e) kek ring) (\<lambda>ring.
       open_keks now dec_err key_err ad rootKey es (set_created (eKID e) (eCreated e) ring)))))"

definition openSection :: "int \<Rightarrow> tenantSection \<Rightarrow> string \<Rightarrow> bytes \<Rightarrow> Keyring result" where
  "openSection now s active rootKey =
     (if length rootKey \<noteq> keys_KeySize then Inl (Errorf ''keys: tenant %q: root key is %d bytes, want %d'' [])
      else ebind (open_keks now (\<lambda>_. Errorf ''keys: tenant %q: key %q is not valid base64'' [])
                   (\<lambda>e. Errorf ''keys: tenant %q: %w'' [e]) (tenantKEKAAD (sName s)) rootKey (sKeys s) NewKeyring) (\<lambda>ring.
           ebind (tenantNameAAD (sName s)) (\<lambda>a.
           case sNameKey s of
             None \<Rightarrow> Inl nil_panic
           | Some nk \<Rightarrow>
               ebind (emap_err (\<lambda>_. Errorf ''keys: tenant %q: the name key is not valid base64'' []) (b64_DecodeString nk)) (\<lambda>w.
               ebind (emap_err (\<lambda>e. Errorf ''keys: tenant %q: the name key: %w'' [e]) (openKey rootKey w a)) (\<lambda>secret.
               ebind (NameKeyFromSecret secret) (\<lambda>nm. Inr (ring\<lparr>kactive := active, kname := Some nm\<rparr>)))))))"

definition auditSignInfo :: string where "auditSignInfo = ''blindbucket/v1/audit-sign''"

text \<open>\<open>AuditKey.Public\<close>, with \<open>ed\<close> the public key that belongs to a 32-byte Ed25519 seed.\<close>

definition AuditKey_Public :: "(bytes \<Rightarrow> bytes) \<Rightarrow> bytes \<Rightarrow> bytes result" where
  "AuditKey_Public ed secret = ebind (hkdf_Key secret [] auditSignInfo 32) (\<lambda>seed. Inr (ed seed))"

definition sealAudit :: "(bytes \<Rightarrow> bytes) \<Rightarrow> (bytes \<Rightarrow> bytes result) \<Rightarrow> bytes \<Rightarrow> bytes \<Rightarrow> auditEntry result" where
  "sealAudit ed rnd rootKey secret =
     ebind (sealKey (rnd auditAAD) rootKey secret auditAAD) (\<lambda>w.
     ebind (AuditKey_Public ed secret) (\<lambda>pub.
       Inr \<lparr>aWrapped = b64_EncodeToString w, aPublicKey = b64_EncodeToString pub\<rparr>))"

definition sealName :: "(bytes \<Rightarrow> bytes result) \<Rightarrow> bytes \<Rightarrow> bytes \<Rightarrow> string result" where
  "sealName rnd rootKey secret =
     ebind (sealKey (rnd nameAAD) rootKey secret nameAAD) (\<lambda>w. Inr (b64_EncodeToString w))"

definition sealFreshness :: "(bytes \<Rightarrow> bytes result) \<Rightarrow> bytes \<Rightarrow> bytes \<Rightarrow> string result" where
  "sealFreshness rnd rootKey secret =
     ebind (sealKey (rnd freshnessAAD) rootKey secret freshnessAAD) (\<lambda>w. Inr (b64_EncodeToString w))"

definition if_set :: "'a option \<Rightarrow> ('a \<Rightarrow> 'b result) \<Rightarrow> 'b option result" where
  "if_set x f = (case x of None \<Rightarrow> Inr None | Some a \<Rightarrow> ebind (f a) (\<lambda>b. Inr (Some b)))"

definition buildFile ::
  "(bytes \<Rightarrow> bytes) \<Rightarrow> (bytes \<Rightarrow> bytes result) \<Rightarrow> Keyring \<Rightarrow> bytes \<Rightarrow> RootKeyRef \<Rightarrow> KDFParams option \<Rightarrow> keyringFile result" where
  "buildFile ed rnd r rootKey ref params =
     (if kactive r = '''' then Inl (Errorf ''keys: refusing to write an empty keyring'' [])
      else ebind (seal_keks rnd kekAAD rootKey r (KIDs r)) (\<lambda>es.
           ebind (if_set (kaudit r) (sealAudit ed rnd rootKey)) (\<lambda>au.
           ebind (if_set (kname r) (sealName rnd rootKey)) (\<lambda>nm.
           ebind (if_set (kfreshness r) (sealFreshness rnd rootKey)) (\<lambda>fr.
             Inr \<lparr>vVersion = keyringVersion, vActiveKID = kactive r, vRootKey = ref, vKDF = params,
                  vKeys = es, vAudit = au, vName = nm, vFreshness = fr\<rparr>)))))"

definition hinted :: "err \<Rightarrow> err" where
  "hinted e = Errorf ''%w (%s)'' [e]"

definition openName :: "string \<Rightarrow> bytes \<Rightarrow> bytes result" where
  "openName entry rootKey =
     ebind (emap_err (\<lambda>e. Errorf ''keys: the name key is not valid base64: %w'' [e]) (b64_DecodeString entry)) (\<lambda>w.
     ebind (emap_err hinted (openKey rootKey w nameAAD)) NameKeyFromSecret)"

definition openFreshness :: "string \<Rightarrow> bytes \<Rightarrow> bytes result" where
  "openFreshness entry rootKey =
     ebind (emap_err (\<lambda>e. Errorf ''keys: the freshness key is not valid base64: %w'' [e]) (b64_DecodeString entry)) (\<lambda>w.
     ebind (emap_err hinted (openKey rootKey w freshnessAAD)) FreshnessKeyFromSecret)"

definition openAudit :: "(bytes \<Rightarrow> bytes) \<Rightarrow> auditEntry \<Rightarrow> bytes \<Rightarrow> bytes result" where
  "openAudit ed entry rootKey =
     ebind (emap_err (\<lambda>e. Errorf ''keys: the audit key is not valid base64: %w'' [e]) (b64_DecodeString (aWrapped entry))) (\<lambda>w.
     ebind (emap_err hinted (openKey rootKey w auditAAD)) (\<lambda>secret.
     ebind (AuditKeyFromSecret secret) (\<lambda>audit.
     ebind (AuditKey_Public ed audit) (\<lambda>pub.
     ebind (emap_err (\<lambda>e. Errorf ''keys: the audit public key is not valid base64: %w'' [e]) (b64_DecodeString (aPublicKey entry))) (\<lambda>rec.
       if pub \<noteq> rec
       then Inl (Errorf ''keys: the audit public key in this keyring does not belong to its audit secret; the file has been modified'' [])
       else Inr audit)))))"

definition openKeyring :: "int \<Rightarrow> (bytes \<Rightarrow> bytes) \<Rightarrow> 'a keyringFile_scheme \<Rightarrow> bytes \<Rightarrow> Keyring result" where
  "openKeyring now ed file rootKey =
     ebind (open_keks now (\<lambda>e. Errorf ''keys: key %q is not valid base64: %w'' [e]) hinted kekAAD rootKey (vKeys file) NewKeyring) (\<lambda>ring.
     ebind (emap_err (\<lambda>_. Errorf ''keys: active key id %q is not in the keyring'' []) (SetActive (vActiveKID file) ring)) (\<lambda>ring.
     ebind (if_set (vAudit file) (\<lambda>e. openAudit ed e rootKey)) (\<lambda>au.
     ebind (if_set (vName file) (\<lambda>e. openName e rootKey)) (\<lambda>nm.
     ebind (if_set (vFreshness file) (\<lambda>e. openFreshness e rootKey)) (\<lambda>fr.
       Inr (ring\<lparr>kaudit := au, kname := nm, kfreshness := fr\<rparr>))))))"

section \<open>The opened file\<close>

record Tenant =
  tnName :: string
  tnBuckets :: "string list"
  tnActiveKID :: string
  tnKIDs :: "string list"
  tnLocks :: "Lock list"
  tnRing :: "Keyring option"
  tnErr :: "err option"
  tnSection :: tenantSection
  tnSeal :: "TenantLock option"

record File =
  fDefault :: Keyring
  fGeneration :: "64 word"
  fTenants :: "Tenant list"
  fTombstones :: "Tombstone list"

definition Tenant_Lock :: "Tenant \<Rightarrow> Lock" where
  "Tenant_Lock t = List.last (tnLocks t)"

definition File_Directory :: "File \<Rightarrow> Directory" where
  "File_Directory f =
     \<lparr>dirGeneration = fGeneration f,
      dirTenants = map (\<lambda>t. \<lparr>dtName = tnName t, dtBuckets = tnBuckets t, dtKIDs = tnKIDs t,
        dtActiveKID = tnActiveKID t, dtLocks = tnLocks t\<rparr>) (fTenants f),
      dirTombstones = fTombstones f\<rparr>"

definition File_Tenant :: "File \<Rightarrow> string \<Rightarrow> Tenant option" where
  "File_Tenant f name = List.find (\<lambda>t. tnName t = name) (fTenants f)"

definition KIDOwner :: "File \<Rightarrow> string \<Rightarrow> string option" where
  "KIDOwner f kid =
     (case Created (fDefault f) kid of
        Some _ \<Rightarrow> Some DefaultTenant
      | None \<Rightarrow>
          (case List.find (\<lambda>t. kid \<in> set (tnKIDs t)) (fTenants f) of
             Some t \<Rightarrow> Some (tnName t)
           | None \<Rightarrow>
               (case List.find (\<lambda>t. kid \<in> set (tbKIDs t)) (fTombstones f) of
                  Some t \<Rightarrow> Some (tbName t)
                | None \<Rightarrow> None)))"

definition taken_entries :: "File \<Rightarrow> string list" where
  "taken_entries f = concat (map tnBuckets (fTenants f)) @ concat (map tbBuckets (fTombstones f))"

fun check_entries_loop :: "string list \<Rightarrow> string list \<Rightarrow> string list \<Rightarrow> err option" where
  "check_entries_loop taken before [] = None"
| "check_entries_loop taken before (e # entries) =
     (if \<not> validBucketEntry e
      then Some (Errorf ''keys: %q is neither a bucket name (3 to 63 of a-z 0-9 . -) nor a prefix of one ending in *'' [])
      else if list_ex (\<lambda>x. overlap x e) taken
      then Some (Errorf ''keys: %q overlaps %q, which is a tenant's; a bucket belongs to one tenant and never leaves it'' [])
      else if list_ex (\<lambda>prev. overlap prev e) before then Some (Errorf ''keys: %q and %q overlap'' [])
      else check_entries_loop taken (before @ [e]) entries)"

definition checkEntries :: "File \<Rightarrow> string list \<Rightarrow> err option" where
  "checkEntries f entries = check_entries_loop (taken_entries f) [] entries"

definition live :: "File \<Rightarrow> string \<Rightarrow> Tenant result" where
  "live f name =
     (if name = DefaultTenant
      then Inl (Errorf ''keys: the default tenant holds every bucket no tenant claims; it is not changed this way'' [])
      else case File_Tenant f name of
        Some t \<Rightarrow> Inr t
      | None \<Rightarrow>
          if list_ex (\<lambda>t. tbName t = name) (fTombstones f)
          then Inl (Errorf ''keys: tenant %q was destroyed on %s'' [])
          else Inl (Errorf ''keys: no tenant %q'' []))"

text \<open>A method of \<open>File\<close> changes a tenant through its pointer: the first one of that name.\<close>

fun update_first :: "('a \<Rightarrow> bool) \<Rightarrow> ('a \<Rightarrow> 'a) \<Rightarrow> 'a list \<Rightarrow> 'a list" where
  "update_first P g [] = []"
| "update_first P g (x # xs) = (if P x then g x # xs else x # update_first P g xs)"

fun delete_first :: "('a \<Rightarrow> bool) \<Rightarrow> 'a list \<Rightarrow> 'a list" where
  "delete_first P [] = []"
| "delete_first P (x # xs) = (if P x then xs else x # delete_first P xs)"

definition update_tenant :: "string \<Rightarrow> (Tenant \<Rightarrow> Tenant) \<Rightarrow> File \<Rightarrow> File" where
  "update_tenant name g f = f\<lparr>fTenants := update_first (\<lambda>t. tnName t = name) g (fTenants f)\<rparr>"

definition empty_section :: tenantSection where
  "empty_section = \<lparr>sName = '''', sRootKey = None, sKDF = None, sKeys = [], sNameKey = None\<rparr>"

definition AddTenant :: "string \<Rightarrow> string list \<Rightarrow> Keyring \<Rightarrow> TenantLock \<Rightarrow> File \<Rightarrow> File result" where
  "AddTenant name buckets ring lock f =
     echeck (ValidateTenantName name)
       (if File_Tenant f name \<noteq> None then Inl (Errorf ''keys: tenant %q exists'' [])
        else if list_ex (\<lambda>t. tbName t = name) (fTombstones f)
        then Inl (Errorf ''keys: %q is the name of a destroyed tenant, and stays its'' [])
        else if kname ring = None then Inl (Errorf ''keys: tenant %q has no name key'' [])
        else let kids = KIDs ring in
          if kids = [] then Inl (Errorf ''keys: tenant %q has no keys'' [])
          else if list_ex (\<lambda>kid. KIDOwner f kid \<noteq> None) kids
          then Inl (Errorf ''keys: key id %q is %s's; key ids are unique across the keyring'' [])
          else echeck (checkEntries f buckets)
            (let t = \<lparr>tnName = name, tnBuckets = buckets, tnActiveKID = '''', tnKIDs = kids,
                      tnLocks = [TenantLock_record lock], tnRing = Some (ring\<lparr>kactive := ''''\<rparr>), tnErr = None,
                      tnSection = empty_section, tnSeal = (if tlRootKey lock \<noteq> None then Some lock else None)\<rparr>
             in Inr (f\<lparr>fTenants := fTenants f @ [t]\<rparr>)))"

definition Assign :: "string \<Rightarrow> string list \<Rightarrow> File \<Rightarrow> File result" where
  "Assign name entries f =
     ebind (live f name) (\<lambda>_.
       if entries = [] then Inl (Errorf ''keys: no buckets to assign'' [])
       else echeck (checkEntries f entries)
         (Inr (update_tenant name (\<lambda>t. t\<lparr>tnBuckets := tnBuckets t @ entries\<rparr>) f)))"

definition Activate :: "string \<Rightarrow> string \<Rightarrow> File \<Rightarrow> File result" where
  "Activate name kid f =
     ebind (live f name) (\<lambda>t.
       case tnRing t of
         None \<Rightarrow> Inl (Errorf ''keys: tenant %q did not open here (%w), and is activated only where it does''
                   (case tnErr t of Some e \<Rightarrow> [e] | None \<Rightarrow> []))
       | Some ring \<Rightarrow>
           ebind (if kid = ''''
                  then if length (tnKIDs t) \<noteq> 1 then Inl (Errorf ''keys: tenant %q has %d keys; say which to activate'' [])
                       else Inr (tnKIDs t ! 0)
                  else Inr kid) (\<lambda>kid.
             if kid \<notin> set (tnKIDs t) then Inl (Errorf ''keys: tenant %q has no key %q'' [])
             else if tnActiveKID t = kid
             then Inl (Errorf ''keys: tenant %q is already active with %q; nothing would change'' [])
             else Inr (update_tenant name
                    (\<lambda>t. t\<lparr>tnActiveKID := kid, tnRing := Some (ring\<lparr>kactive := kid\<rparr>)\<rparr>) f)))"

definition Reseal :: "string \<Rightarrow> TenantLock \<Rightarrow> File \<Rightarrow> File result" where
  "Reseal name lock f =
     ebind (live f name) (\<lambda>t.
       if tnRing t = None
       then Inl (Errorf ''keys: tenant %q did not open (%w); a reseal needs its current lock''
                   (case tnErr t of Some e \<Rightarrow> [e] | None \<Rightarrow> []))
       else let rec = TenantLock_record lock in
         if rec = Tenant_Lock t
         then Inl (Errorf ''keys: tenant %q is already sealed by that lock; nothing would change'' [])
         else Inr (update_tenant name
                (\<lambda>t. t\<lparr>tnLocks := tnLocks t @ [rec], tnSeal := (if tlRootKey lock \<noteq> None then Some lock else None)\<rparr>) f))"

definition Destroy :: "string \<Rightarrow> int \<Rightarrow> File \<Rightarrow> (Tombstone \<times> File) result" where
  "Destroy name at f =
     ebind (live f name) (\<lambda>t.
       let tomb = \<lparr>tbName = tnName t, tbBuckets = tnBuckets t, tbKIDs = tnKIDs t, tbLocks = tnLocks t,
                   tbDestroyed = at - at mod 1000000000\<rparr>
       in Inr (tomb, f\<lparr>fTenants := delete_first (\<lambda>t. tnName t = name) (fTenants f),
                       fTombstones := fTombstones f @ [tomb]\<rparr>))"

definition CheckFloor :: "64 word \<Rightarrow> File \<Rightarrow> err option" where
  "CheckFloor floor f =
     (if fGeneration f \<ge> floor then None
      else if fGeneration f = 0
      then Some (Errorf ''%w: a version 1 keyring has no generation, and the floor is %d'' [Sentinel ErrKeyringBelowFloor])
      else Some (Errorf ''%w: generation %d, and the floor is %d'' [Sentinel ErrKeyringBelowFloor]))"

definition tenant_equal :: "Tenant \<Rightarrow> Tenant \<Rightarrow> bool" where
  "tenant_equal a b \<longleftrightarrow>
     tnName a = tnName b \<and> tnActiveKID a = tnActiveKID b \<and> tnBuckets a = tnBuckets b \<and> tnKIDs a = tnKIDs b \<and>
     tnLocks a = tnLocks b \<and>
     (case (tnRing a, tnRing b) of (None, None) \<Rightarrow> True | (Some x, Some y) \<Rightarrow> Equal x y | _ \<Rightarrow> False)"

definition File_Equal :: "File \<Rightarrow> File \<Rightarrow> bool" where
  "File_Equal f g \<longleftrightarrow> Equal (fDefault f) (fDefault g) \<and> length (fTenants f) = length (fTenants g) \<and>
     list_all2 tenant_equal (fTenants f) (fTenants g) \<and> fTombstones f = fTombstones g"

section \<open>Reading and writing a file\<close>

type_synonym tenant_root = "string \<Rightarrow> RootKeyRef \<Rightarrow> KDFParams option \<Rightarrow> bytes result"

definition parseKeyringFile :: "keyringFileV2 \<Rightarrow> err option" where
  "parseKeyringFile file =
     (if vVersion file \<noteq> keyringVersion \<and> vVersion file \<noteq> keyringVersion2
      then Some (Errorf ''keys: keyring version %d, this build supports %d and %d'' [])
      else if vKeys file = [] then Some (Errorf ''keys: keyring contains no keys'' [])
      else if vVersion file = keyringVersion \<and>
        (vGeneration file \<noteq> 0 \<or> vDirectory file \<noteq> '''' \<or> vTenants file \<noteq> None)
      then Some (malformed ''%w: it says version 1 and holds a directory, tenants or a generation, which only version 2 has; its version was changed'')
      else None)"

definition openTenant :: "int \<Rightarrow> Tenant \<Rightarrow> bytes \<Rightarrow> tenant_root option \<Rightarrow> Keyring result" where
  "openTenant now t rootKey tenantRoot =
     (if lsource (Tenant_Lock t) = LockDeployment then openSection now (tnSection t) (tnActiveKID t) rootKey
      else case tenantRoot of
        None \<Rightarrow> Inl (Errorf ''keys: tenant %q: no root key for its lock'' [])
      | Some get \<Rightarrow>
          ebind (case sRootKey (tnSection t) of
                   None \<Rightarrow> Inr \<lparr>rsource = SourcePassphrase, rciphertext = '''', rkeyName = '''', rcontext = []\<rparr>
                 | Some ref \<Rightarrow>
                     (case RootKeyRef_validate ref of
                        Some e \<Rightarrow> Inl (Errorf ''keys: tenant %q: %w'' [e])
                      | None \<Rightarrow> Inr ref)) (\<lambda>ref.
          ebind (get (tnName t) ref (sKDF (tnSection t))) (\<lambda>root.
            openSection now (tnSection t) (tnActiveKID t) root)))"

definition set_opened :: "Keyring result \<Rightarrow> Tenant \<Rightarrow> Tenant" where
  "set_opened r t = (case r of Inr ring \<Rightarrow> t\<lparr>tnRing := Some ring, tnErr := None\<rparr>
                             | Inl e \<Rightarrow> t\<lparr>tnRing := None, tnErr := Some e\<rparr>)"

definition OpenTenant :: "int \<Rightarrow> string \<Rightarrow> tenant_root option \<Rightarrow> File \<Rightarrow> err option \<times> File" where
  "OpenTenant now name tenantRoot f =
     (case File_Tenant f name of
        None \<Rightarrow> (Some (Errorf ''keys: no tenant %q'' []), f)
      | Some t \<Rightarrow>
          if tnRing t \<noteq> None then (None, f)
          else if lsource (Tenant_Lock t) = LockDeployment then (tnErr t, f)
          else let r = openTenant now t [] tenantRoot
               in (case r of Inl e \<Rightarrow> Some e | Inr _ \<Rightarrow> None, update_tenant name (set_opened r) f))"

fun section_map :: "tenantSection list \<Rightarrow> (string \<times> tenantSection) list \<Rightarrow> (string \<times> tenantSection) list result" where
  "section_map [] m = Inr m"
| "section_map (s # ss) m =
     (if map_of m (sName s) \<noteq> None then Inl (malformed ''%w: two sections for tenant %q'')
      else section_map ss ((sName s, s) # m))"

fun check_sections :: "(string \<times> tenantSection) list \<Rightarrow> DirectoryTenant list \<Rightarrow> err option" where
  "check_sections m [] = None"
| "check_sections m (t # ts) =
     (case map_of m (dtName t) of
        None \<Rightarrow> Some (malformed ''%w: no section for tenant %q'')
      | Some s \<Rightarrow>
          if sort (map eKID (sKeys s)) \<noteq> sort (dtKIDs t)
          then Some (malformed ''%w: tenant %q's section holds keys %v, the directory lists %v'')
          else if sNameKey s = None then Some (malformed ''%w: tenant %q's section has no name key'')
          else if \<not> matchesLock s (List.last (dtLocks t))
          then Some (malformed ''%w: tenant %q's section is not sealed by its recorded lock'')
          else check_sections m ts)"

definition file_tenant :: "int \<Rightarrow> bytes \<Rightarrow> tenant_root option \<Rightarrow> (string \<times> tenantSection) list \<Rightarrow> DirectoryTenant \<Rightarrow> Tenant" where
  "file_tenant now rootKey tenantRoot m d =
     (let t = \<lparr>tnName = dtName d, tnBuckets = dtBuckets d, tnActiveKID = dtActiveKID d, tnKIDs = dtKIDs d,
               tnLocks = dtLocks d, tnRing = None, tnErr = None,
               tnSection = (case map_of m (dtName d) of Some s \<Rightarrow> s | None \<Rightarrow> empty_section), tnSeal = None\<rparr>
      in set_opened (openTenant now t rootKey tenantRoot) t)"

definition openFile ::
  "int \<Rightarrow> (bytes \<Rightarrow> bytes) \<Rightarrow> (bytes \<Rightarrow> Directory result) \<Rightarrow> keyringFileV2 \<Rightarrow> bytes \<Rightarrow> tenant_root option \<Rightarrow> File result" where
  "openFile now ed unjson file rootKey tenantRoot =
     ebind (openKeyring now ed file rootKey) (\<lambda>def.
       if vVersion file = keyringVersion
       then Inr \<lparr>fDefault = def, fGeneration = 0, fTenants = [], fTombstones = []\<rparr>
       else if vDirectory file = '''' then Inl (malformed ''%w: no directory'')
       else ebind (emap_err (\<lambda>_. malformed ''%w: the directory is not valid base64'') (b64_DecodeString (vDirectory file))) (\<lambda>w.
            ebind (emap_err (\<lambda>e. Errorf ''%w: the directory does not open: %w'' [Sentinel ErrKeyringMalformed, e])
                     (openKey rootKey w (bytes_of aadDirectory))) (\<lambda>plain.
            ebind (emap_err (\<lambda>e. Errorf ''%w: the directory is not valid JSON: %w'' [Sentinel ErrKeyringMalformed, e])
                     (unjson plain)) (\<lambda>dir.
            if dirGeneration dir \<noteq> vGeneration file
            then Inl (malformed ''%w: generation %d in the directory, %d in the file'')
            else echeck (Directory_validate dir (KIDs def))
              (ebind (section_map (case vTenants file of None \<Rightarrow> [] | Some ss \<Rightarrow> ss) []) (\<lambda>m.
                 if length m \<noteq> length (dirTenants dir)
                 then Inl (malformed ''%w: %d tenants in the directory, %d sections'')
                 else echeck (check_sections m (dirTenants dir))
                   (Inr \<lparr>fDefault = def, fGeneration = dirGeneration dir,
                         fTenants = map (file_tenant now rootKey tenantRoot m) (dirTenants dir),
                         fTombstones = dirTombstones dir\<rparr>)))))))"

definition OpenFile ::
  "int \<Rightarrow> (bytes \<Rightarrow> bytes) \<Rightarrow> (bytes \<Rightarrow> Directory result) \<Rightarrow> keyringFileV2 \<Rightarrow> bytes \<Rightarrow> tenant_root option \<Rightarrow> File result" where
  "OpenFile now ed unjson file rootKey tenantRoot =
     (if length rootKey \<noteq> keys_KeySize then Inl (Errorf ''keys: root key is %d bytes, want %d'' [])
      else echeck (parseKeyringFile file) (openFile now ed unjson file rootKey tenantRoot))"

definition writeV2 ::
  "(Directory \<Rightarrow> bytes) \<Rightarrow> (bytes \<Rightarrow> bytes result) \<Rightarrow> keyringFile \<Rightarrow> bytes \<Rightarrow> tenantSection list \<Rightarrow> Directory \<Rightarrow> string list \<Rightarrow>
   keyringFileV2 result" where
  "writeV2 json rnd base rootKey sections dir defaultKIDs =
     (if dirTenants dir = [] \<and> dirTombstones dir = []
      then Inl (Errorf ''keys: a keyring without tenants or tombstones is written as version 1'' [])
      else echeck (Directory_validate dir defaultKIDs)
        (ebind (sealKey (rnd (bytes_of aadDirectory)) rootKey (json dir) (bytes_of aadDirectory)) (\<lambda>w.
           Inr (keyringFile.extend (base\<lparr>vVersion := keyringVersion2\<rparr>)
             (keyringFileV2.fields (dirGeneration dir) (b64_EncodeToString w) (Some sections))))))"

definition write_section :: "(bytes \<Rightarrow> bytes result) \<Rightarrow> bytes \<Rightarrow> Tenant \<Rightarrow> tenantSection result" where
  "write_section rnd rootKey t =
     ebind (if lsource (Tenant_Lock t) = LockDeployment
            then (case tnRing t of
                    None \<Rightarrow> Inl (Errorf ''keys: tenant %q is under the deployment's lock and did not open (%w); the keyring cannot be written without it''
                              (case tnErr t of Some e \<Rightarrow> [e] | None \<Rightarrow> []))
                  | Some ring \<Rightarrow> sealSection rnd (tnName t) ring rootKey None None)
            else case tnSeal t of
                   Some l \<Rightarrow>
                     (case tnRing t of
                        None \<Rightarrow> Inl nil_panic
                      | Some ring \<Rightarrow>
                          sealSection rnd (tnName t) ring (case tlRootKey l of Some k \<Rightarrow> k | None \<Rightarrow> []) (tlRef l) (tlKDF l))
                 | None \<Rightarrow> Inr (tnSection t)) (\<lambda>s.
       if \<not> matchesLock s (Tenant_Lock t)
       then Inl (Errorf ''keys: tenant %q: its section is not sealed by its current lock'' [])
       else Inr s)"

fun write_sections :: "(bytes \<Rightarrow> bytes result) \<Rightarrow> bytes \<Rightarrow> Tenant list \<Rightarrow> tenantSection list result" where
  "write_sections rnd rootKey [] = Inr []"
| "write_sections rnd rootKey (t # ts) =
     ebind (write_section rnd rootKey t) (\<lambda>s. ebind (write_sections rnd rootKey ts) (\<lambda>ss. Inr (s # ss)))"

text \<open>A version 1 file is read by version 2's structure with the fields it lacks at their zero values.\<close>

definition as_v2 :: "keyringFile \<Rightarrow> keyringFileV2" where
  "as_v2 base = keyringFile.extend base (keyringFileV2.fields 0 '''' None)"

definition File_marshal ::
  "(bytes \<Rightarrow> bytes) \<Rightarrow> (Directory \<Rightarrow> bytes) \<Rightarrow> (bytes \<Rightarrow> bytes result) \<Rightarrow> File \<Rightarrow> bytes \<Rightarrow> RootKeyRef \<Rightarrow> KDFParams option \<Rightarrow>
   keyringFileV2 result" where
  "File_marshal ed json rnd f rootKey ref params =
     (if fTenants f = [] \<and> fTombstones f = []
      then ebind (buildFile ed rnd (fDefault f) rootKey ref params) (\<lambda>base. Inr (as_v2 base))
      else ebind (buildFile ed rnd (fDefault f) rootKey ref params) (\<lambda>base.
           ebind (write_sections rnd rootKey (fTenants f)) (\<lambda>sections.
             writeV2 json rnd base rootKey sections ((File_Directory f)\<lparr>dirGeneration := fGeneration f + 1\<rparr>)
               (KIDs (fDefault f)))))"

definition MarshalWithRootKey ::
  "(bytes \<Rightarrow> bytes) \<Rightarrow> (Directory \<Rightarrow> bytes) \<Rightarrow> (bytes \<Rightarrow> bytes result) \<Rightarrow> File \<Rightarrow> bytes \<Rightarrow> RootKeyRef \<Rightarrow> keyringFileV2 result" where
  "MarshalWithRootKey ed json rnd f rootKey ref =
     (if length rootKey \<noteq> keys_KeySize then Inl (Errorf ''keys: root key is %d bytes, want %d'' [])
      else echeck (RootKeyRef_validate ref)
        (if rsource ref = SourcePassphrase \<or> rsource ref = ''''
         then Inl (Errorf ''keys: MarshalWithRootKey needs a service-backed source'' [])
         else File_marshal ed json rnd f rootKey ref None))"


text \<open>The same with a passphrase: \<open>salt\<close> is what \<open>crypto/rand\<close> answers when the parameters carry no salt.\<close>

definition salted :: "bytes result \<Rightarrow> KDFParams \<Rightarrow> KDFParams result" where
  "salted salt params =
     (let params = params\<lparr>kAlgorithm := ''argon2id''\<rparr>
      in if kSalt params = '''' then ebind salt (\<lambda>s. Inr (params\<lparr>kSalt := b64_EncodeToString s\<rparr>)) else Inr params)"

definition passphrase_ref :: RootKeyRef where
  "passphrase_ref = \<lparr>rsource = SourcePassphrase, rciphertext = '''', rkeyName = '''', rcontext = []\<rparr>"

definition File_Marshal ::
  "argon2 \<Rightarrow> (bytes \<Rightarrow> bytes) \<Rightarrow> (Directory \<Rightarrow> bytes) \<Rightarrow> bytes result \<Rightarrow> (bytes \<Rightarrow> bytes result) \<Rightarrow> File \<Rightarrow> bytes \<Rightarrow> KDFParams \<Rightarrow>
   keyringFileV2 result" where
  "File_Marshal IDKey ed json salt rnd f passphrase params =
     (if passphrase = [] then Inl (Errorf ''keys: refusing to write a keyring without a passphrase'' [])
      else ebind (salted salt params) (\<lambda>params.
           ebind (deriveRootKey IDKey params passphrase) (\<lambda>rootKey.
             File_marshal ed json rnd f rootKey passphrase_ref (Some params))))"

definition passphrase_root :: "argon2 \<Rightarrow> 'a keyringFile_scheme \<Rightarrow> bytes \<Rightarrow> bytes result" where
  "passphrase_root IDKey file passphrase =
     (if rsource (vRootKey file) \<noteq> '''' \<and> rsource (vRootKey file) \<noteq> SourcePassphrase
      then Inl (Errorf ''keys: this keyring's root key comes from %s, not from a passphrase'' [])
      else case vKDF file of
        None \<Rightarrow> Inl (Errorf ''keys: this keyring records no KDF parameters'' [])
      | Some k \<Rightarrow> deriveRootKey IDKey k passphrase)"

definition OpenFileWithPassphrase ::
  "argon2 \<Rightarrow> int \<Rightarrow> (bytes \<Rightarrow> bytes) \<Rightarrow> (bytes \<Rightarrow> Directory result) \<Rightarrow> keyringFileV2 \<Rightarrow> bytes \<Rightarrow> tenant_root option \<Rightarrow> File result" where
  "OpenFileWithPassphrase IDKey now ed unjson file passphrase tenantRoot =
     echeck (parseKeyringFile file)
       (ebind (passphrase_root IDKey file passphrase) (\<lambda>rootKey. openFile now ed unjson file rootKey tenantRoot))"

text \<open>A keyring without tenants, read and written by itself.\<close>

definition Keyring_MarshalWithRootKey ::
  "(bytes \<Rightarrow> bytes) \<Rightarrow> (bytes \<Rightarrow> bytes result) \<Rightarrow> Keyring \<Rightarrow> bytes \<Rightarrow> RootKeyRef \<Rightarrow> keyringFile result" where
  "Keyring_MarshalWithRootKey ed rnd r rootKey ref =
     (if length rootKey \<noteq> keys_KeySize then Inl (Errorf ''keys: root key is %d bytes, want %d'' [])
      else echeck (RootKeyRef_validate ref)
        (if rsource ref = SourcePassphrase \<or> rsource ref = ''''
         then Inl (Errorf ''keys: MarshalWithRootKey needs a service-backed source'' [])
         else buildFile ed rnd r rootKey ref None))"

definition Keyring_Marshal ::
  "argon2 \<Rightarrow> (bytes \<Rightarrow> bytes) \<Rightarrow> bytes result \<Rightarrow> (bytes \<Rightarrow> bytes result) \<Rightarrow> Keyring \<Rightarrow> bytes \<Rightarrow> KDFParams \<Rightarrow> keyringFile result" where
  "Keyring_Marshal IDKey ed salt rnd r passphrase params =
     (if passphrase = [] then Inl (Errorf ''keys: refusing to write a keyring without a passphrase'' [])
      else ebind (salted salt params) (\<lambda>params.
           ebind (deriveRootKey IDKey params passphrase) (\<lambda>rootKey.
             buildFile ed rnd r rootKey passphrase_ref (Some params))))"

definition LoadKeyringWithRootKey :: "int \<Rightarrow> (bytes \<Rightarrow> bytes) \<Rightarrow> keyringFileV2 \<Rightarrow> bytes \<Rightarrow> Keyring result" where
  "LoadKeyringWithRootKey now ed file rootKey =
     echeck (parseKeyringFile file)
       (if vVersion file \<noteq> keyringVersion then Inl (Sentinel ErrKeyringHasTenants)
        else if length rootKey \<noteq> keys_KeySize then Inl (Errorf ''keys: root key is %d bytes, want %d'' [])
        else openKeyring now ed file rootKey)"

definition LoadKeyring :: "argon2 \<Rightarrow> int \<Rightarrow> (bytes \<Rightarrow> bytes) \<Rightarrow> keyringFileV2 \<Rightarrow> bytes \<Rightarrow> Keyring result" where
  "LoadKeyring IDKey now ed file passphrase =
     echeck (parseKeyringFile file)
       (if vVersion file \<noteq> keyringVersion then Inl (Sentinel ErrKeyringHasTenants)
        else ebind (passphrase_root IDKey file passphrase) (\<lambda>rootKey. openKeyring now ed file rootKey))"

definition PublicAuditKey :: "keyringFileV2 \<Rightarrow> bytes result" where
  "PublicAuditKey file =
     echeck (parseKeyringFile file)
       (case vAudit file of
          None \<Rightarrow> Inl (Sentinel ErrNoAuditKey)
        | Some e \<Rightarrow>
            ebind (emap_err (\<lambda>e. Errorf ''keys: the audit public key is not valid base64: %w'' [e]) (b64_DecodeString (aPublicKey e))) (\<lambda>pub.
              if length pub \<noteq> 32 then Inl (Errorf ''keys: the audit public key is %d bytes, want %d'' []) else Inr pub))"

definition ReadRootKeyRef :: "keyringFileV2 \<Rightarrow> RootKeyRef result" where
  "ReadRootKeyRef file =
     echeck (parseKeyringFile file)
       (let ref = (if rsource (vRootKey file) = '''' then (vRootKey file)\<lparr>rsource := SourcePassphrase\<rparr> else vRootKey file)
        in echeck (RootKeyRef_validate ref) (Inr ref))"

definition DecodeKMSCiphertext :: "RootKeyRef \<Rightarrow> bytes result" where
  "DecodeKMSCiphertext r =
     emap_err (\<lambda>e. Errorf ''keys: the stored root key is not valid base64: %w'' [e]) (b64_DecodeString (rciphertext r))"

end
