(* ===== verification/KeyringState.thy ===== *)
theory KeyringState
  imports KeyringFile
begin

text \<open>
  The keyring file as a state machine: the changes the commands make to an opened file, the writing of the
  file and the opening of what was written, the invariant they keep, and what they can never undo.
\<close>

section \<open>Steps\<close>

text \<open>
  A change of the default tenant's keyring is one of the keyring's own steps; a key id that it adds is
  one that no tenant holds, which \<open>keygen\<close> checks with \<open>KIDOwner\<close>. \<open>dated\<close> says that every key of a keyring
  has its creation date: \<open>KIDOwner\<close> finds a default key by its date only.
\<close>

definition dated :: "Keyring \<Rightarrow> bool" where
  "dated r \<longleftrightarrow> fst ` set (kcreated r) = fst ` set (keks r)"

text \<open>The answers of \<open>crypto/rand\<close> for nonces are 12 bytes.\<close>

definition nonces :: "(bytes \<Rightarrow> bytes result) \<Rightarrow> bool" where
  "nonces rnd \<longleftrightarrow> (\<forall>a n. rnd a = Inr n \<longrightarrow> length n = 12)"

text \<open>
  A command ends with writing the file and the next one starts with opening it. \<open>rewritten\<close> is the two
  together, under any root key, lock and key service, for a JSON encoding from which the directory decodes.
  The file that is opened is the one that was written: an older copy put in its place is not a step.
\<close>

definition rewritten :: "File \<Rightarrow> File \<Rightarrow> bool" where
  "rewritten f g \<longleftrightarrow> (\<exists>now ed json unjson rnd rootKey ref params v2 root.
     nonces rnd \<and> (let d = (File_Directory f)\<lparr>dirGeneration := fGeneration f + 1\<rparr> in unjson (json d) = Inr d) \<and>
     File_marshal ed json rnd f rootKey ref params = Inr v2 \<and>
     OpenFile now ed unjson v2 rootKey root = Inr g)"

inductive file_step :: "File \<Rightarrow> File \<Rightarrow> bool" where
  add_tenant: "keyring_reach ring \<Longrightarrow> AddTenant name buckets ring lock f = Inr f' \<Longrightarrow> file_step f f'"
| assign: "Assign name entries f = Inr f' \<Longrightarrow> file_step f f'"
| activate: "Activate name kid f = Inr f' \<Longrightarrow> file_step f f'"
| reseal: "Reseal name lock f = Inr f' \<Longrightarrow> file_step f f'"
| destroy: "Destroy name at f = Inr (tomb, f') \<Longrightarrow> file_step f f'"
| open_tenant: "OpenTenant now name root f = (e, f') \<Longrightarrow> file_step f f'"
| default: "keyring_step (fDefault f) r \<Longrightarrow>
    (\<And>kid. kid \<in> fst ` set (keks r) \<Longrightarrow> kid \<notin> fst ` set (keks (fDefault f)) \<Longrightarrow> KIDOwner f kid = None) \<Longrightarrow>
    file_step f (f\<lparr>fDefault := r\<rparr>)"
| rewrite: "rewritten f f' \<Longrightarrow> dated (fDefault f') \<Longrightarrow> file_step f f'"

inductive_cases file_stepE: "file_step f f'"

inductive file_reach :: "File \<Rightarrow> bool" where
  fresh: "keyring_reach r \<Longrightarrow> keks r \<noteq> [] \<Longrightarrow>
    file_reach \<lparr>fDefault = r, fGeneration = 0, fTenants = [], fTombstones = []\<rparr>"
| opened: "OpenFile now ed unjson file rootKey root = Inr f \<Longrightarrow> dated (fDefault f) \<Longrightarrow> file_reach f"
| step: "file_reach f \<Longrightarrow> file_step f f' \<Longrightarrow> file_reach f'"

section \<open>The invariant\<close>

text \<open>A keyring with distinct valid key ids and whole keys, whichever of them is active.\<close>

definition ring_ok :: "Keyring \<Rightarrow> bool" where
  "ring_ok r \<longleftrightarrow> distinct (map fst (keks r)) \<and> distinct (map fst (kcreated r)) \<and>
     fst ` set (kcreated r) \<subseteq> fst ` set (keks r) \<and>
     list_all (\<lambda>(kid, kek). ValidateKID kid = None \<and> length kek = 32) (keks r)"

definition tenant_ok :: "Tenant \<Rightarrow> bool" where
  "tenant_ok t \<longleftrightarrow>
     (case tnRing t of
        Some r \<Rightarrow> ring_ok r \<and> KIDs r = sort (tnKIDs t) \<and> kname r \<noteq> None \<and> kactive r = tnActiveKID t
      | None \<Rightarrow> sort (map eKID (sKeys (tnSection t))) = sort (tnKIDs t))"

definition file_inv :: "File \<Rightarrow> bool" where
  "file_inv f \<longleftrightarrow> directory_ok (File_Directory f) (KIDs (fDefault f)) \<and> list_all tenant_ok (fTenants f) \<and>
     ring_ok (fDefault f) \<and> dated (fDefault f) \<and> kactive (fDefault f) \<in> fst ` set (keks (fDefault f))"

lemma map_of_key: "map_of xs k = Some v \<Longrightarrow> k \<in> fst ` set xs"
  by (force dest: map_of_SomeD)

lemma set_KIDs [simp]: "set (KIDs r) = fst ` set (keks r)"
  by (simp add: KIDs_def)

lemma owners_file:
  "owners (File_Directory f) = map (\<lambda>t. (tnName t, tnKIDs t, tnBuckets t)) (fTenants f) @
     map (\<lambda>t. (tbName t, tbKIDs t, tbBuckets t)) (fTombstones f)"
  by (simp add: owners_def File_Directory_def comp_def)

lemma keyring_inv_ring_ok: "keyring_inv r \<Longrightarrow> ring_ok r \<and> dated r"
proof -
  assume i: "keyring_inv r"
  then have c: "map fst (kcreated r) = map fst (keks r)" by (simp add: keyring_inv_def)
  then have "fst ` set (kcreated r) = fst ` set (keks r)" by (metis set_map)
  with i c show ?thesis by (auto simp: ring_ok_def dated_def keyring_inv_def)
qed

lemma ring_ok_active [simp]: "ring_ok (r\<lparr>kactive := a\<rparr>) = ring_ok r" "KIDs (r\<lparr>kactive := a\<rparr>) = KIDs r"
  by (simp_all add: ring_ok_def KIDs_def)

lemma KIDOwner_None:
  "KIDOwner f kid = None \<longleftrightarrow> kid \<notin> fst ` set (kcreated (fDefault f)) \<and> kid \<notin> set (owner_kids (owners (File_Directory f)))"
proof -
  have "KIDOwner f kid = None \<longleftrightarrow> Created (fDefault f) kid = None \<and>
      List.find (\<lambda>t. kid \<in> set (tnKIDs t)) (fTenants f) = None \<and> List.find (\<lambda>t. kid \<in> set (tbKIDs t)) (fTombstones f) = None"
    by (simp add: KIDOwner_def split: option.splits)
  then show ?thesis by (auto simp: Created_def owners_file find_None_iff map_of_eq_None_iff)
qed

lemma check_entries_loop_None:
  "check_entries_loop taken before es = None \<longleftrightarrow> list_all validBucketEntry es \<and> apart es \<and>
     (\<forall>p\<in>set taken \<union> set before. \<forall>e\<in>set es. \<not> overlap p e)"
  by (induction taken before es rule: check_entries_loop.induct) (auto simp: list_ex_iff)

lemma checkEntries_None:
  "checkEntries f es = None \<longleftrightarrow> list_all validBucketEntry es \<and> apart es \<and>
     (\<forall>p\<in>set (owner_entries (owners (File_Directory f))). \<forall>e\<in>set es. \<not> overlap p e)"
  unfolding checkEntries_def check_entries_loop_None taken_entries_def owners_file by (auto simp: comp_def)

section \<open>Every step keeps the invariant\<close>

lemma find_split:
  "List.find P xs = Some x \<Longrightarrow> \<exists>us vs. xs = us @ x # vs \<and> P x \<and> list_all (\<lambda>u. \<not> P u) us"
proof (induction xs)
  case (Cons a xs)
  show ?case
  proof (cases "P a")
    case True
    with Cons.prems show ?thesis by (intro exI [of _ "[]"] exI [of _ xs]) simp
  next
    case False
    with Cons obtain us vs where "xs = us @ x # vs \<and> P x \<and> list_all (\<lambda>u. \<not> P u) us" by auto
    with False show ?thesis by (intro exI [of _ "a # us"] exI [of _ vs]) simp
  qed
qed simp

lemma update_first_split: "list_all (\<lambda>u. \<not> P u) us \<Longrightarrow> P x \<Longrightarrow> update_first P g (us @ x # vs) = us @ g x # vs"
  by (induction us) auto

lemma delete_first_split: "list_all (\<lambda>u. \<not> P u) us \<Longrightarrow> P x \<Longrightarrow> delete_first P (us @ x # vs) = us @ vs"
  by (induction us) auto

lemma live_Inr:
  assumes "live f name = Inr t"
  obtains us vs where "fTenants f = us @ t # vs" "tnName t = name" "name \<noteq> DefaultTenant"
    "\<And>g. update_tenant name g f = f\<lparr>fTenants := us @ g t # vs\<rparr>"
    "delete_first (\<lambda>t. tnName t = name) (fTenants f) = us @ vs"
proof -
  have n: "name \<noteq> DefaultTenant" and "File_Tenant f name = Some t"
    using assms by (auto simp: live_def split: if_splits option.splits)
  then obtain us vs where s: "fTenants f = us @ t # vs" "tnName t = name" "list_all (\<lambda>u. tnName u \<noteq> name) us"
    unfolding File_Tenant_def by (blast dest: find_split)
  from s n show ?thesis
    by (intro that [of us vs]) (simp_all add: update_tenant_def update_first_split delete_first_split)
qed

text \<open>Replacing one tenant, seen from the rules.\<close>

abbreviation owner_of :: "Tenant \<Rightarrow> string \<times> string list \<times> string list" where
  "owner_of t \<equiv> (tnName t, tnKIDs t, tnBuckets t)"

abbreviation tomb_owner :: "Tombstone \<Rightarrow> string \<times> string list \<times> string list" where
  "tomb_owner t \<equiv> (tbName t, tbKIDs t, tbBuckets t)"

definition tenant_rules :: "Tenant \<Rightarrow> bool" where
  "tenant_rules t \<longleftrightarrow> (tnActiveKID t = '''' \<or> tnActiveKID t \<in> set (tnKIDs t)) \<and> tnLocks t \<noteq> []"

lemma file_inv_alt:
  "file_inv f \<longleftrightarrow> owners_ok (map owner_of (fTenants f) @ map tomb_owner (fTombstones f)) (KIDs (fDefault f)) \<and>
     list_all (\<lambda>t. tenant_rules t \<and> tenant_ok t) (fTenants f) \<and>
     ring_ok (fDefault f) \<and> dated (fDefault f) \<and> kactive (fDefault f) \<in> fst ` set (keks (fDefault f))"
  unfolding file_inv_def directory_ok_owners owners_file
  by (auto simp: File_Directory_def tenant_rules_def list_all_iff)

lemma file_inv_split:
  assumes "fTenants f = us @ t # vs"
  shows "file_inv f \<longleftrightarrow>
     owners_ok (owner_of t # map owner_of (us @ vs) @ map tomb_owner (fTombstones f)) (KIDs (fDefault f)) \<and>
     tenant_rules t \<and> tenant_ok t \<and> list_all (\<lambda>t. tenant_rules t \<and> tenant_ok t) (us @ vs) \<and>
     ring_ok (fDefault f) \<and> dated (fDefault f) \<and> kactive (fDefault f) \<in> fst ` set (keks (fDefault f))"
proof -
  have "owners_ok (map owner_of (fTenants f) @ map tomb_owner (fTombstones f)) dk \<longleftrightarrow>
      owners_ok (owner_of t # map owner_of (us @ vs) @ map tomb_owner (fTombstones f)) dk" for dk
    by (rule owners_ok_perm) (simp add: assms)
  then show ?thesis unfolding file_inv_alt by (auto simp: assms)
qed

lemma AddTenant_inv:
  assumes a: "AddTenant name buckets ring lock f = Inr f'" and i: "file_inv f" and r: "ring_ok ring"
  shows "file_inv f'"
proof -
  let ?t = "\<lparr>tnName = name, tnBuckets = buckets, tnActiveKID = '''', tnKIDs = KIDs ring,
      tnLocks = [TenantLock_record lock], tnRing = Some (ring\<lparr>kactive := ''''\<rparr>), tnErr = None,
      tnSection = empty_section, tnSeal = (if tlRootKey lock \<noteq> None then Some lock else None)\<rparr>"
  let ?own = "map owner_of (fTenants f) @ map tomb_owner (fTombstones f)"
  have c: "ValidateTenantName name = None" "File_Tenant f name = None" "\<not> list_ex (\<lambda>t. tbName t = name) (fTombstones f)"
      "kname ring \<noteq> None" "KIDs ring \<noteq> []" "\<not> list_ex (\<lambda>kid. KIDOwner f kid \<noteq> None) (KIDs ring)"
      "checkEntries f buckets = None" and f': "f' = f\<lparr>fTenants := fTenants f @ [?t]\<rparr>"
    using a by (auto simp: AddTenant_def result_simps Let_def split: if_splits)
  have own: "owners (File_Directory f) = ?own" by (rule owners_file)
  have d: "dated (fDefault f)" "owners_ok ?own (KIDs (fDefault f))" using i by (simp_all add: file_inv_alt)
  have n: "name \<notin> fst ` set ?own"
    using c(2,3) by (auto simp: File_Tenant_def find_None_iff list_ex_iff)
  have k: "kid \<notin> set (owner_kids ?own) \<and> kid \<notin> set (KIDs (fDefault f))" if "kid \<in> set (KIDs ring)" for kid
    using c(6) that d(1) KIDOwner_None [of f kid] unfolding own by (auto simp: list_ex_iff dated_def)
  have e: "list_all validBucketEntry buckets" "apart buckets"
      "\<forall>p\<in>set buckets. \<forall>e\<in>set (owner_entries ?own). \<not> overlap p e"
    using c(7) overlap_sym unfolding checkEntries_None own by blast+
  have kv: "distinct (KIDs ring)" "list_all (\<lambda>k. ValidateKID k = None) (KIDs ring)"
    using r by (auto simp: ring_ok_def KIDs_def list_all_iff)
  have "owners_ok (owner_of ?t # map owner_of (fTenants f @ []) @ map tomb_owner (fTombstones f')) (KIDs (fDefault f'))"
    using d(2) n k e kv c(1,5) by (simp add: owners_ok_Cons owner_ok_def f' del: set_KIDs map_append) blast
  moreover have "tenant_rules ?t" "tenant_ok ?t"
    using r c(4) by (simp_all add: tenant_rules_def tenant_ok_def KIDs_def sorted_sort_id)
  moreover have "fTenants f' = fTenants f @ ?t # []" by (simp add: f')
  ultimately show ?thesis
    using i unfolding file_inv_split [OF \<open>fTenants f' = fTenants f @ ?t # []\<close>] file_inv_alt [of f]
    by (simp add: f')
qed

lemma replace_tenant_inv:
  assumes "file_inv f" and "fTenants f = us @ t # vs" and "owner_of t' = owner_of t" and "tenant_rules t'" and "tenant_ok t'"
  shows "file_inv (f\<lparr>fTenants := us @ t' # vs\<rparr>)"
  using assms(1,3-5) file_inv_split [OF assms(2)] file_inv_split [of "f\<lparr>fTenants := us @ t' # vs\<rparr>" us t' vs] by simp

lemma tenant_frame [simp]:
  "tenant_ok (t\<lparr>tnBuckets := b\<rparr>) = tenant_ok t" "tenant_rules (t\<lparr>tnBuckets := b\<rparr>) = tenant_rules t"
  "tenant_ok (t\<lparr>tnLocks := l, tnSeal := s\<rparr>) = tenant_ok t"
  by (simp_all add: tenant_ok_def tenant_rules_def split: option.splits)

lemma Assign_inv:
  assumes "Assign name entries f = Inr f'" and i: "file_inv f"
  shows "file_inv f'"
proof -
  obtain t where l: "live f name = Inr t" and c: "checkEntries f entries = None"
      and f': "f' = update_tenant name (\<lambda>t. t\<lparr>tnBuckets := tnBuckets t @ entries\<rparr>) f"
    using assms(1) by (auto simp: Assign_def result_simps split: if_splits)
  from l obtain us vs where s: "fTenants f = us @ t # vs"
      and u: "\<And>g. update_tenant name g f = f\<lparr>fTenants := us @ g t # vs\<rparr>"
    by (rule live_Inr) blast
  let ?own = "map owner_of (us @ vs) @ map tomb_owner (fTombstones f)"
  have o: "owners_ok (owner_of t # ?own) (KIDs (fDefault f))" "tenant_rules t" "tenant_ok t"
    using i unfolding file_inv_split [OF s] by auto
  have "set (owner_entries (owners (File_Directory f))) = set (tnBuckets t) \<union> set (owner_entries ?own)"
    unfolding owners_file s by auto
  then have e: "list_all validBucketEntry entries" "apart entries"
      "\<forall>p\<in>set entries. \<forall>e\<in>set (owner_entries ?own). \<not> overlap p e"
      "\<forall>p\<in>set (tnBuckets t). \<forall>e\<in>set entries. \<not> overlap p e"
    using c overlap_sym unfolding checkEntries_None by blast+
  have "owners_ok ((tnName t, tnKIDs t, tnBuckets t @ entries) # ?own) (KIDs (fDefault f))"
    using o(1) e unfolding owners_ok_Cons owner_ok_def prod.case list_all_append sorted_wrt_append set_append by blast
  then show ?thesis
    using i o(2,3) unfolding f' u file_inv_split [OF s]
    by (subst file_inv_split [of _ us "t\<lparr>tnBuckets := tnBuckets t @ entries\<rparr>" vs]) simp_all
qed

lemma Activate_Inr:
  assumes "Activate name kid f = Inr f'"
  obtains t ring kid' where "live f name = Inr t" "tnRing t = Some ring" "kid' \<in> set (tnKIDs t)"
    "f' = update_tenant name (\<lambda>t. t\<lparr>tnActiveKID := kid', tnRing := Some (ring\<lparr>kactive := kid'\<rparr>)\<rparr>) f"
proof -
  obtain t where l: "live f name = Inr t" and a: "Activate name kid f = Inr f'"
    using assms(1) unfolding Activate_def ebind_eq_Inr by blast
  then obtain ring where r: "tnRing t = Some ring" by (cases "tnRing t") (auto simp: Activate_def)
  from a obtain kid' where "(if kid' \<notin> set (tnKIDs t) then Inl (Errorf ''keys: tenant %q has no key %q'' [])
      else if tnActiveKID t = kid'
      then Inl (Errorf ''keys: tenant %q is already active with %q; nothing would change'' [])
      else Inr (update_tenant name
             (\<lambda>t. t\<lparr>tnActiveKID := kid', tnRing := Some (ring\<lparr>kactive := kid'\<rparr>)\<rparr>) f)) = Inr f'"
    unfolding Activate_def l ebind_simps r option.case ebind_eq_Inr by blast
  then show thesis using that [OF l r, of kid'] by (simp split: if_splits)
qed

lemma Activate_inv:
  assumes "Activate name kid f = Inr f'" and i: "file_inv f"
  shows "file_inv f'"
  using assms(1)
proof (rule Activate_Inr, goal_cases)
  case (1 t ring kid')
  from 1(1) obtain us vs where s: "fTenants f = us @ t # vs"
      and u: "\<And>g. update_tenant name g f = f\<lparr>fTenants := us @ g t # vs\<rparr>"
    by (rule live_Inr) blast
  have "tenant_rules t" "tenant_ok t" using i unfolding file_inv_split [OF s] by auto
  then show ?case
    unfolding 1(4) u using 1 by (intro replace_tenant_inv [OF i s]) (auto simp: tenant_rules_def tenant_ok_def)
qed

lemma Reseal_inv:
  assumes "Reseal name lock f = Inr f'" and i: "file_inv f"
  shows "file_inv f'"
proof -
  obtain t where l: "live f name = Inr t"
      and f': "f' = update_tenant name (\<lambda>t. t\<lparr>tnLocks := tnLocks t @ [TenantLock_record lock],
        tnSeal := (if tlRootKey lock \<noteq> None then Some lock else None)\<rparr>) f"
    using assms(1) by (auto simp: Reseal_def result_simps Let_def split: if_splits)
  from l obtain us vs where s: "fTenants f = us @ t # vs"
      and u: "\<And>g. update_tenant name g f = f\<lparr>fTenants := us @ g t # vs\<rparr>"
    by (rule live_Inr) blast
  have "tenant_rules t" "tenant_ok t" using i unfolding file_inv_split [OF s] by auto
  then show ?thesis
    unfolding f' u by (intro replace_tenant_inv [OF i s]) (auto simp: tenant_rules_def)
qed

lemma Destroy_Inr:
  assumes "Destroy name at f = Inr (tomb, f')"
  obtains t us vs where "fTenants f = us @ t # vs" "tnName t = name" "tomb_owner tomb = owner_of t" "tbLocks tomb = tnLocks t"
    "f' = f\<lparr>fTenants := us @ vs, fTombstones := fTombstones f @ [tomb]\<rparr>"
proof -
  obtain t where l: "live f name = Inr t"
    and d: "tomb = \<lparr>tbName = tnName t, tbBuckets = tnBuckets t, tbKIDs = tnKIDs t, tbLocks = tnLocks t,
        tbDestroyed = at - at mod 1000000000\<rparr>"
      "f' = f\<lparr>fTenants := delete_first (\<lambda>t. tnName t = name) (fTenants f), fTombstones := fTombstones f @ [tomb]\<rparr>"
    using assms by (auto simp: Destroy_def result_simps Let_def)
  from l show ?thesis
    by (rule live_Inr) (rule that, use d in auto)
qed

lemma Destroy_inv:
  assumes "Destroy name at f = Inr (tomb, f')" and i: "file_inv f"
  shows "file_inv f'"
  using assms(1)
proof (rule Destroy_Inr, goal_cases)
  case (1 t us vs)
  have "owners_ok (map owner_of (us @ vs) @ map tomb_owner (fTombstones f @ [tomb])) dk \<longleftrightarrow>
      owners_ok (owner_of t # map owner_of (us @ vs) @ map tomb_owner (fTombstones f)) dk" for dk
    by (rule owners_ok_perm) (simp add: 1(3))
  then show ?case using i file_inv_split [OF 1(1)] unfolding file_inv_alt [of f'] by (simp add: 1(5))
qed

text \<open>What opening a section yields.\<close>

lemma Add_opened:
  assumes "Add now kid kek r = Inr r'" and "ring_ok r"
  shows "ring_ok (set_created kid c r')" and "keks (set_created kid c r') = (kid, kek) # keks r"
    and "kaudit r' = kaudit r" "kname r' = kname r" "kfreshness r' = kfreshness r"
    and "kcreated (set_created kid c r') = (if c = 0 then kcreated r else (kid, c) # kcreated r)"
proof -
  have v: "ValidateKID kid = None" "length kek = 32" "kid \<notin> fst ` set (keks r)"
    and r': "keks r' = (kid, kek) # keks r" "kcreated r' = (kid, now) # kcreated r"
      "kaudit r' = kaudit r" "kname r' = kname r" "kfreshness r' = kfreshness r"
    using assms(1) by (auto simp: Add_def result_simps Let_def map_of_eq_None_iff split: if_splits)
  have "kid \<notin> fst ` set (kcreated r)" using v(3) assms(2) by (auto simp: ring_ok_def)
  then have f: "filter (\<lambda>(k, _). k \<noteq> kid) (kcreated r') = kcreated r"
    using r'(2) by (auto intro!: filter_True) force
  show "keks (set_created kid c r') = (kid, kek) # keks r"
    "kcreated (set_created kid c r') = (if c = 0 then kcreated r else (kid, c) # kcreated r)"
    "kaudit r' = kaudit r" "kname r' = kname r" "kfreshness r' = kfreshness r"
    using r' f by (simp_all add: set_created_def Let_def)
  then show "ring_ok (set_created kid c r')"
    using v assms(2) \<open>kid \<notin> fst ` set (kcreated r)\<close> by (auto simp: ring_ok_def)
qed

lemma open_keks_Inr:
  assumes "open_keks now de ke ad k es r = Inr r'" and "ring_ok r"
  shows "ring_ok r' \<and> map fst (keks r') = rev (map eKID es) @ map fst (keks r)"
  using assms
proof (induction now de ke ad k es r rule: open_keks.induct)
  case (2 now de ke ad k e es r)
  then obtain a w kek r1 where s: "ad (eKID e) = Inr a" "emap_err de (b64_DecodeString (eWrapped e)) = Inr w"
      "emap_err ke (openKey k w a) = Inr kek" "Add now (eKID e) kek r = Inr r1"
      and o: "open_keks now de ke ad k es (set_created (eKID e) (eCreated e) r1) = Inr r'"
    by (auto simp: ebind_eq_Inr)
  note a = Add_opened(1,2) [OF s(4) "2.prems"(2), of "eCreated e"]
  from "2.IH" [OF o a(1)] a(2) show ?case by simp
qed simp

lemma sort_mset_eq: "mset xs = mset ys \<Longrightarrow> sort xs = sort ys"
  by (metis mset_sort properties_for_sort sorted_sort)

lemma openSection_Inr:
  assumes "openSection now s active k = Inr ring"
  shows "ring_ok ring \<and> KIDs ring = sort (map eKID (sKeys s)) \<and> kname ring \<noteq> None \<and> kactive ring = active"
proof -
  obtain r nm where o: "open_keks now (\<lambda>_. Errorf ''keys: tenant %q: key %q is not valid base64'' [])
      (\<lambda>e. Errorf ''keys: tenant %q: %w'' [e]) (tenantKEKAAD (sName s)) k (sKeys s) NewKeyring = Inr r"
      and ring: "ring = r\<lparr>kactive := active, kname := Some nm\<rparr>"
    using assms by (auto simp: openSection_def ebind_eq_Inr split: if_splits option.splits)
  have "ring_ok NewKeyring" by (simp add: ring_ok_def NewKeyring_def)
  from open_keks_Inr [OF o this] have "ring_ok r" "map fst (keks r) = rev (map eKID (sKeys s))"
    by (simp_all add: NewKeyring_def)
  then show ?thesis by (simp add: ring ring_ok_def KIDs_def) (rule sort_mset_eq, simp)
qed

lemma openTenant_Inr: "openTenant now t k root = Inr ring \<Longrightarrow> \<exists>k'. openSection now (tnSection t) (tnActiveKID t) k' = Inr ring"
  by (auto simp: openTenant_def ebind_eq_Inr split: if_splits option.splits)

lemma set_opened_ok:
  assumes "sort (map eKID (sKeys (tnSection t))) = sort (tnKIDs t)"
  shows "tenant_ok (set_opened (openTenant now t k root) t)"
  using assms
  by (auto simp: set_opened_def tenant_ok_def split: sum.splits dest!: openTenant_Inr openSection_Inr)

lemma set_opened_frame [simp]:
  "owner_of (set_opened r t) = owner_of t" "tenant_rules (set_opened r t) = tenant_rules t"
  by (simp_all add: set_opened_def tenant_rules_def split: sum.splits)

lemma OpenTenant_inv:
  assumes "OpenTenant now name root f = (e, f')" and i: "file_inv f"
  shows "file_inv f'"
proof (cases "f' = f")
  case False
  then obtain t where t: "File_Tenant f name = Some t" "tnRing t = None"
      "f' = update_tenant name (set_opened (openTenant now t [] root)) f"
    using assms(1) by (auto simp: OpenTenant_def Let_def split: option.splits if_splits)
  then obtain us vs where s: "fTenants f = us @ t # vs" "tnName t = name" "list_all (\<lambda>u. tnName u \<noteq> name) us"
    unfolding File_Tenant_def by (blast dest: find_split)
  have "tenant_rules t" "tenant_ok t" using i unfolding file_inv_split [OF s(1)] by auto
  with t(2) have "tenant_ok (set_opened (openTenant now t [] root) t)"
    by (intro set_opened_ok) (simp add: tenant_ok_def)
  with \<open>tenant_rules t\<close> replace_tenant_inv [OF i s(1), of "set_opened (openTenant now t [] root) t"] s t(3)
  show ?thesis by (simp add: update_tenant_def update_first_split)
qed (use i in simp)

text \<open>The default tenant's keyring.\<close>

definition default_ok :: "Keyring \<Rightarrow> bool" where
  "default_ok r \<longleftrightarrow> ring_ok r \<and> dated r \<and> kactive r \<in> fst ` set (keks r)"

lemma Add_default: "Add now kid kek r = Inr r' \<Longrightarrow> default_ok r \<Longrightarrow> default_ok r'"
proof -
  assume a: "Add now kid kek r = Inr r'" and d: "default_ok r"
  have v: "ValidateKID kid = None" "length kek = 32" "kid \<notin> fst ` set (keks r)"
    using a by (auto simp: Add_def result_simps map_of_eq_None_iff split: if_splits)
  have "ValidateKID (kactive r) = None" using d by (auto simp: default_ok_def ring_ok_def list_all_iff)
  then have "kactive r \<noteq> ''''" by (simp add: ValidateKID_None)
  then have "keks r' = (kid, kek) # keks r" "kcreated r' = (kid, now) # kcreated r" "kactive r' = kactive r"
    using a by (auto simp: Add_def result_simps Let_def split: if_splits)
  with d v show "default_ok r'" by (simp add: default_ok_def ring_ok_def dated_def)
qed

lemma Remove_default: "Remove kid r = Inr r' \<Longrightarrow> default_ok r \<Longrightarrow> default_ok r'"
proof -
  assume a: "Remove kid r = Inr r'" and d: "default_ok r"
  then have r': "kid \<noteq> kactive r" "r' = r\<lparr>keks := filter (\<lambda>(k, _). k \<noteq> kid) (keks r), kcreated := filter (\<lambda>(k, _). k \<noteq> kid) (kcreated r)\<rparr>"
    by (auto simp: Remove_def split: if_splits)
  have f: "fst ` set (filter (\<lambda>(k, _). k \<noteq> kid) xs) = fst ` set xs - {kid}" for xs :: "(string \<times> 'a) list"
    by force
  have k: "kactive r' = kactive r" using r' by simp
  have "fst ` set (keks r') = fst ` set (keks r) - {kid}" "fst ` set (kcreated r') = fst ` set (kcreated r) - {kid}"
      "list_all P (keks r) \<Longrightarrow> list_all P (keks r')" for P
    using r'(2) f by (auto simp: list_all_iff)
  moreover have "distinct (map fst (keks r)) \<Longrightarrow> distinct (map fst (keks r'))"
      "distinct (map fst (kcreated r)) \<Longrightarrow> distinct (map fst (kcreated r'))"
    using r'(2) by (simp_all add: distinct_map_filter)
  ultimately show "default_ok r'" using d r'(1) unfolding default_ok_def ring_ok_def dated_def k by auto
qed

lemma keyring_step_default: "keyring_step r r' \<Longrightarrow> default_ok r \<Longrightarrow> default_ok r'"
proof (induction rule: keyring_step.induct)
  case (generate rnd now kid r r')
  then show ?case by (auto simp: Generate_def result_simps intro: Add_default)
next
  case (set_active kid r r')
  then have "r' = r\<lparr>kactive := kid\<rparr>" "kid \<in> fst ` set (keks r)"
    by (auto simp: SetActive_def split: if_splits intro: map_of_key)
  with set_active show ?case by (simp add: default_ok_def dated_def)
qed (simp_all add: Add_default Remove_default,
  simp_all add: SetAuditKey_def SetNameKey_def SetFreshnessKey_def default_ok_def ring_ok_def dated_def)

lemma owners_ok_default: "owners_ok own dk \<Longrightarrow> set (owner_kids own) \<inter> set dk' = {} \<Longrightarrow> owners_ok own dk'"
  by (simp add: owners_ok_def)

lemma file_inv_default: "file_inv f \<longleftrightarrow>
    owners_ok (map owner_of (fTenants f) @ map tomb_owner (fTombstones f)) (KIDs (fDefault f)) \<and>
    list_all (\<lambda>t. tenant_rules t \<and> tenant_ok t) (fTenants f) \<and> default_ok (fDefault f)"
  by (auto simp: file_inv_alt default_ok_def)

lemma default_step_inv:
  assumes s: "keyring_step (fDefault f) r" and i: "file_inv f"
    and n: "\<And>kid. kid \<in> fst ` set (keks r) \<Longrightarrow> kid \<notin> fst ` set (keks (fDefault f)) \<Longrightarrow> KIDOwner f kid = None"
  shows "file_inv (f\<lparr>fDefault := r\<rparr>)"
proof -
  let ?own = "map owner_of (fTenants f) @ map tomb_owner (fTombstones f)"
  have o: "owners_ok ?own (KIDs (fDefault f))" using i by (simp add: file_inv_default)
  have "kid \<notin> set (owner_kids ?own)" if "kid \<in> set (KIDs r)" for kid
  proof (cases "kid \<in> fst ` set (keks (fDefault f))")
    case True
    then show ?thesis using o by (auto simp: owners_ok_def simp del: set_concat map_append)
  next
    case False
    then show ?thesis using n [of kid] that KIDOwner_None [of f kid] unfolding owners_file by simp
  qed
  then have "owners_ok ?own (KIDs r)" by (intro owners_ok_default [OF o]) blast
  then show ?thesis using i keyring_step_default [OF s] by (simp add: file_inv_default)
qed

text \<open>An opened file.\<close>

lemma section_map_Inr: "section_map ss m = Inr m' \<Longrightarrow> set m' = set m \<union> (\<lambda>s. (sName s, s)) ` set ss"
  by (induction ss m rule: section_map.induct) (auto split: if_splits)

lemma check_sections_None:
  "check_sections m ts = None \<Longrightarrow> t \<in> set ts \<Longrightarrow> \<exists>s. map_of m (dtName t) = Some s \<and>
     sort (map eKID (sKeys s)) = sort (dtKIDs t) \<and> sNameKey s \<noteq> None \<and> matchesLock s (List.last (dtLocks t))"
  by (induction m ts rule: check_sections.induct) (auto split: option.splits if_splits)

lemma openKeyring_ok:
  assumes "openKeyring now ed file k = Inr r"
  shows "ring_ok r \<and> kactive r \<in> fst ` set (keks r)"
proof -
  obtain r1 au nm fr where o: "open_keks now (\<lambda>e. Errorf ''keys: key %q is not valid base64: %w'' [e]) hinted kekAAD k
      (vKeys file) NewKeyring = Inr r1"
      and a: "map_of (keks r1) (vActiveKID file) \<noteq> None"
      and r: "r = r1\<lparr>kactive := vActiveKID file, kaudit := au, kname := nm, kfreshness := fr\<rparr>"
    using assms by (auto simp: openKeyring_def ebind_eq_Inr emap_err_eq_Inr SetActive_def split: if_splits)
  have "ring_ok NewKeyring" by (simp add: ring_ok_def NewKeyring_def)
  then have "ring_ok r1" using open_keks_Inr [OF o] by blast
  moreover have "vActiveKID file \<in> fst ` set (keks r1)" using a by (auto intro: map_of_key)
  ultimately show ?thesis by (simp add: r ring_ok_def)
qed

lemma file_tenant_owner:
  "tnName (file_tenant now k root m d) = dtName d" "tnKIDs (file_tenant now k root m d) = dtKIDs d"
  "tnBuckets (file_tenant now k root m d) = dtBuckets d" "tnActiveKID (file_tenant now k root m d) = dtActiveKID d"
  "tnLocks (file_tenant now k root m d) = dtLocks d"
  by (simp_all add: file_tenant_def Let_def set_opened_def split: sum.splits)

lemma openFile_inv:
  assumes "openFile now ed unjson file k root = Inr f" and "dated (fDefault f)"
  shows "file_inv f"
proof -
  obtain def where d: "openKeyring now ed file k = Inr def" "fDefault f = def"
    using assms(1) by (auto simp: openFile_def result_simps split: if_splits)
  have def: "default_ok def" using openKeyring_ok [OF d(1)] assms(2) d(2) by (simp add: default_ok_def)
  show ?thesis
  proof (cases "vVersion file = keyringVersion")
    case True
    then have "fTenants f = []" "fTombstones f = []" using assms(1) d by (auto simp: openFile_def)
    then show ?thesis using def d(2) by (simp add: file_inv_default owners_ok_def)
  next
    case False
    then obtain dir m where v: "Directory_validate dir (KIDs def) = None" and c: "check_sections m (dirTenants dir) = None"
        and f: "f = \<lparr>fDefault = def, fGeneration = dirGeneration dir,
          fTenants = map (file_tenant now k root m) (dirTenants dir), fTombstones = dirTombstones dir\<rparr>"
      using assms(1) d by (auto simp: openFile_def result_simps split: if_splits)
    have dok: "directory_ok dir (KIDs def)" using v by (simp add: Directory_validate_iff)
    have "owners_ok (map owner_of (fTenants f) @ map tomb_owner (fTombstones f)) (KIDs def)"
      using dok by (simp add: directory_ok_owners owners_def f file_tenant_owner comp_def)
    moreover have "tenant_rules (file_tenant now k root m t)" "tenant_ok (file_tenant now k root m t)"
      if td: "t \<in> set (dirTenants dir)" for t
    proof -
      show "tenant_rules (file_tenant now k root m t)"
        using td dok by (simp add: tenant_rules_def file_tenant_owner directory_ok_def list_all_iff)
      obtain s where s: "map_of m (dtName t) = Some s" "sort (map eKID (sKeys s)) = sort (dtKIDs t)"
        using check_sections_None [OF c td] by blast
      show "tenant_ok (file_tenant now k root m t)"
        unfolding file_tenant_def Let_def by (rule set_opened_ok) (simp add: s)
    qed
    ultimately show ?thesis using def by (auto simp: file_inv_default f list_all_iff)
  qed
qed

lemma OpenFile_inv: "OpenFile now ed unjson fl rootKey root = Inr f \<Longrightarrow> dated (fDefault f) \<Longrightarrow> file_inv f"
  by (auto simp: OpenFile_def result_simps split: if_splits intro: openFile_inv)

lemma file_reach_inv: "file_reach f \<Longrightarrow> file_inv f"
proof (induction rule: file_reach.induct)
  case (fresh r)
  then have "keyring_inv r" by (intro keyring_reach_inv)
  from keyring_inv_ring_ok [OF this] this fresh(2) have "default_ok r"
    by (auto simp: default_ok_def keyring_inv_def intro: rev_image_eqI)
  then show ?case by (simp add: file_inv_default owners_ok_def)
next
  case (opened now ed unjson fl rootKey root f)
  then show ?case by (rule OpenFile_inv)
next
  case (step f f')
  from step(2,3) show ?case
  proof (induction rule: file_step.induct)
    case (add_tenant ring name buckets lock f f')
    then show ?case using AddTenant_inv keyring_inv_ring_ok [OF keyring_reach_inv] by blast
  next
    case (default f r)
    then show ?case by (intro default_step_inv) auto
  next
    case (rewrite f f')
    then show ?case using OpenFile_inv by (auto simp: rewritten_def)
  qed (auto intro: Assign_inv Activate_inv Reseal_inv Destroy_inv OpenTenant_inv)
qed

section \<open>What no step undoes\<close>

text \<open>A tenant that exists keeps its key ids and its bucket entries, and stays destroyed once it is.\<close>

definition succ_of :: "File \<Rightarrow> File \<Rightarrow> bool" where
  "succ_of f f' \<longleftrightarrow> set (fTombstones f) \<subseteq> set (fTombstones f') \<and>
     (\<forall>t\<in>set (fTenants f). \<exists>bs. set (tnBuckets t) \<subseteq> set bs \<and>
        ((\<exists>t'\<in>set (fTenants f'). owner_of t' = (tnName t, tnKIDs t, bs) \<and> set (tnLocks t) \<subseteq> set (tnLocks t')) \<or>
         (\<exists>t'\<in>set (fTombstones f'). tomb_owner t' = (tnName t, tnKIDs t, bs) \<and> set (tnLocks t) \<subseteq> set (tbLocks t'))))"

lemma succ_ofI:
  assumes "fTenants f = us @ t # vs" and "fTenants f' = us @ t' # vs" and "fTombstones f' = fTombstones f"
    and "tnName t' = tnName t" "tnKIDs t' = tnKIDs t" "set (tnBuckets t) \<subseteq> set (tnBuckets t')" "set (tnLocks t) \<subseteq> set (tnLocks t')"
  shows "succ_of f f'"
  unfolding succ_of_def
proof (intro conjI ballI)
  fix x assume "x \<in> set (fTenants f)"
  then consider "x = t" | "x \<in> set (fTenants f')" using assms(1,2) by auto
  then show "\<exists>bs. set (tnBuckets x) \<subseteq> set bs \<and>
      ((\<exists>t'\<in>set (fTenants f'). owner_of t' = (tnName x, tnKIDs x, bs) \<and> set (tnLocks x) \<subseteq> set (tnLocks t')) \<or>
       (\<exists>t'\<in>set (fTombstones f'). tomb_owner t' = (tnName x, tnKIDs x, bs) \<and> set (tnLocks x) \<subseteq> set (tbLocks t')))"
  proof cases
    case 1
    then show ?thesis using assms(2,4-7) by (intro exI [of _ "tnBuckets t'"]) auto
  qed (intro exI [of _ "tnBuckets x"], auto)
qed (simp add: assms(3))

lemma succ_of_same: "fTenants f' = fTenants f @ ts \<Longrightarrow> fTombstones f' = fTombstones f \<Longrightarrow> succ_of f f'"
  unfolding succ_of_def by (intro conjI ballI) (auto intro!: exI [of _ "tnBuckets _"])

lemma succ_of_update:
  assumes "File_Tenant f name = Some t" and "f' = update_tenant name g f" and "tnName (g t) = tnName t" "tnKIDs (g t) = tnKIDs t"
    "set (tnBuckets t) \<subseteq> set (tnBuckets (g t))" "set (tnLocks t) \<subseteq> set (tnLocks (g t))"
  shows "succ_of f f'"
proof -
  obtain us vs where s: "fTenants f = us @ t # vs" "tnName t = name" "list_all (\<lambda>u. tnName u \<noteq> name) us"
    using assms(1) unfolding File_Tenant_def by (blast dest: find_split)
  then have "fTenants f' = us @ g t # vs" "fTombstones f' = fTombstones f"
    by (simp_all add: assms(2) update_tenant_def update_first_split)
  with s(1) assms(3-6) show ?thesis by (intro succ_ofI [of f us t vs f' "g t"])
qed

lemma live_File_Tenant: "live f name = Inr t \<Longrightarrow> File_Tenant f name = Some t"
  by (auto simp: live_def split: if_splits option.splits)

text \<open>Writing a file and opening it keeps the directory.\<close>

lemma sealed_opens:
  assumes "nonces rnd" and "sealKey (rnd a) kek plain a = Inr w"
  shows "openKey kek w a = Inr plain"
proof (cases "rnd a")
  case (Inl e)
  then show ?thesis using assms(2) by (simp add: sealKey_def result_simps split: if_splits)
next
  case (Inr n)
  then have "length n = 12" using assms(1) by (simp add: nonces_def)
  then show ?thesis using openKey_sealKey assms(2) Inr by auto
qed

lemma keyringFile_extend:
  "vVersion (keyringFile.extend base x) = vVersion base" "vKeys (keyringFile.extend base x) = vKeys base"
  "vGeneration (keyringFile.extend base (keyringFileV2.fields g d ts)) = g"
  "vDirectory (keyringFile.extend base (keyringFileV2.fields g d ts)) = d"
  "vTenants (keyringFile.extend base (keyringFileV2.fields g d ts)) = ts"
  by (simp_all add: keyringFile.defs keyringFileV2.defs)

lemma file_tenant_fields:
  "tnName (file_tenant now k root m d) = dtName d" "tnBuckets (file_tenant now k root m d) = dtBuckets d"
  "tnKIDs (file_tenant now k root m d) = dtKIDs d" "tnActiveKID (file_tenant now k root m d) = dtActiveKID d"
  "tnLocks (file_tenant now k root m d) = dtLocks d"
  by (simp_all add: file_tenant_def set_opened_def Let_def split: sum.splits)

lemma rewritten_directory:
  assumes "rewritten f g"
  shows "dirTenants (File_Directory g) = dirTenants (File_Directory f)" and "fTombstones g = fTombstones f"
proof -
  obtain now ed json unjson rnd rootKey ref params v2 root where n: "nonces rnd"
        "unjson (json ((File_Directory f)\<lparr>dirGeneration := fGeneration f + 1\<rparr>)) = Inr ((File_Directory f)\<lparr>dirGeneration := fGeneration f + 1\<rparr>)"
      and m: "File_marshal ed json rnd f rootKey ref params = Inr v2" and o: "OpenFile now ed unjson v2 rootKey root = Inr g"
    using assms unfolding rewritten_def Let_def by blast
  have of: "openFile now ed unjson v2 rootKey root = Inr g" using o by (simp add: OpenFile_def result_simps split: if_splits)
  have "dirTenants (File_Directory g) = dirTenants (File_Directory f) \<and> fTombstones g = fTombstones f"
  proof (cases "fTenants f = [] \<and> fTombstones f = []")
    case True
    then obtain base where "v2 = as_v2 base" "vVersion base = 1" using m by (auto simp: File_marshal_def buildFile_def result_simps split: if_splits)
    then show ?thesis using of True by (auto simp: openFile_def as_v2_def keyringFile_extend result_simps File_Directory_def)
  next
    case False
    let ?d = "(File_Directory f)\<lparr>dirGeneration := fGeneration f + 1\<rparr>"
    obtain base ss where "writeV2 json rnd base rootKey ss ?d (KIDs (fDefault f)) = Inr v2"
      using m False by (auto simp: File_marshal_def result_simps)
    then obtain w where w: "sealKey (rnd (bytes_of aadDirectory)) rootKey (json ?d) (bytes_of aadDirectory) = Inr w"
        "vVersion v2 = 2" "vDirectory v2 = b64_EncodeToString w"
      by (auto simp: writeV2_def result_simps keyringFile_extend split: if_splits)
    obtain mp where "fTenants g = map (file_tenant now rootKey root mp) (dirTenants ?d)" "fTombstones g = dirTombstones ?d"
      using of w(2,3) sealed_opens [OF n(1) w(1)] n(2)
      by (auto simp: openFile_def result_simps b64_decode_encode simp del: map_eq_conv split: if_splits)
    then show ?thesis by (simp add: File_Directory_def file_tenant_fields comp_def)
  qed
  then show "dirTenants (File_Directory g) = dirTenants (File_Directory f)" "fTombstones g = fTombstones f" by auto
qed

lemma rewritten_succ:
  assumes "rewritten f g"
  shows "succ_of f g"
proof -
  let ?e = "\<lambda>t. \<lparr>dtName = tnName t, dtBuckets = tnBuckets t, dtKIDs = tnKIDs t, dtActiveKID = tnActiveKID t, dtLocks = tnLocks t\<rparr>"
  have d: "map ?e (fTenants g) = map ?e (fTenants f)" "fTombstones g = fTombstones f"
    using rewritten_directory [OF assms] by (simp_all add: File_Directory_def)
  have "\<exists>t'\<in>set (fTenants g). tnName t' = tnName t \<and> tnBuckets t' = tnBuckets t \<and> tnKIDs t' = tnKIDs t \<and> tnLocks t' = tnLocks t"
    if "t \<in> set (fTenants f)" for t
  proof -
    have "?e t \<in> set (map ?e (fTenants g))" unfolding d(1) using that by simp
    then show ?thesis by auto
  qed
  then show ?thesis unfolding succ_of_def using d(2) by fastforce
qed

lemma file_step_succ: "file_step f f' \<Longrightarrow> succ_of f f'"
proof (induction rule: file_step.induct)
  case (add_tenant ring name buckets lock f f')
  then show ?case by (auto simp: AddTenant_def result_simps Let_def split: if_splits intro!: succ_of_same)
next
  case (assign name entries f f')
  then obtain t where l: "live f name = Inr t" "f' = update_tenant name (\<lambda>t. t\<lparr>tnBuckets := tnBuckets t @ entries\<rparr>) f"
    by (auto simp: Assign_def result_simps split: if_splits)
  show ?case by (rule succ_of_update [OF live_File_Tenant [OF l(1)] l(2)]) auto
next
  case (activate name kid f f')
  then show ?case
  proof (rule Activate_Inr, goal_cases)
    case (1 t ring kid')
    show ?case by (rule succ_of_update [OF live_File_Tenant [OF 1(1)] 1(4)]) auto
  qed
next
  case (reseal name lock f f')
  then obtain t where l: "live f name = Inr t" "f' = update_tenant name (\<lambda>t. t\<lparr>tnLocks := tnLocks t @ [TenantLock_record lock],
        tnSeal := (if tlRootKey lock \<noteq> None then Some lock else None)\<rparr>) f"
    by (auto simp: Reseal_def result_simps Let_def split: if_splits)
  show ?case by (rule succ_of_update [OF live_File_Tenant [OF l(1)] l(2)]) auto
next
  case (destroy name at f tomb f')
  then show ?case
  proof (rule Destroy_Inr, goal_cases)
    case (1 t us vs)
    have "tomb_owner tomb = owner_of t" "tbLocks tomb = tnLocks t" "tomb \<in> set (fTombstones f')" using 1 by auto
    moreover have "fTenants f' = us @ vs" "set (fTombstones f) \<subseteq> set (fTombstones f')" using 1 by auto
    ultimately show ?case unfolding succ_of_def 1(1) by fastforce
  qed
next
  case (open_tenant now name root f e f')
  then consider "f' = f" | t r where "File_Tenant f name = Some t" "f' = update_tenant name (set_opened r) f"
    by (auto simp: OpenTenant_def Let_def split: option.splits if_splits)
  then show ?case
  proof cases
    case 1
    then show ?thesis by (intro succ_of_same [of _ _ "[]"]) auto
  next
    case (2 t r)
    show ?thesis by (rule succ_of_update [OF 2]) (auto simp: set_opened_def split: sum.splits)
  qed
next
  case (default f r)
  show ?case by (rule succ_of_same [of _ _ "[]"]) simp_all
next
  case (rewrite f f')
  then show ?case by (simp add: rewritten_succ)
qed

lemma Directory_Tenant_unique:
  assumes d: "directory_ok d dk" and x: "x \<in> set (owners d)" "e \<in> set (snd (snd x))" "entry_matches e (ToLower b)"
  shows "fst (Directory_Tenant d b) = fst x"
proof -
  let ?P = "\<lambda>x. \<exists>e\<in>set (snd (snd x)). entry_matches e (ToLower b)"
  have "\<not> (\<nexists>y. y \<in> set (owners d) \<and> ?P y)" using x by blast
  then have "List.find ?P (owners d) \<noteq> None" using find_None_iff [of ?P "owners d"] by blast
  then obtain y where y: "List.find ?P (owners d) = Some y" by (cases "List.find ?P (owners d)") simp_all
  obtain us vs where "owners d = us @ y # vs" and p: "?P y" using find_split [OF y] by (elim exE conjE) (rule that)
  then have "y \<in> set (owners d)" by (metis in_set_conv_decomp)
  from p obtain e' where e': "e' \<in> set (snd (snd y))" "entry_matches e' (ToLower b)" by blast
  have "apart (owner_entries (owners d))" using d by (simp add: directory_ok_def)
  then have "y = x" by (rule apart_concat_unique [OF _ \<open>y \<in> set (owners d)\<close> x(1) e'(1) x(2) e'(2) x(3)])
  then show ?thesis unfolding Directory_Tenant_owner [OF d] y by simp
qed

lemma Directory_Tenant_tomb:
  assumes d: "directory_ok d dk" and t: "t \<in> set (dirTombstones d)" "e \<in> set (tbBuckets t)" "entry_matches e (ToLower b)"
  shows "Directory_Tenant d b = (tbName t, True)"
proof -
  have n: "fst (Directory_Tenant d b) = tbName t"
    using Directory_Tenant_unique [OF d, of "tomb_owner t" e b] t by (simp add: owners_def)
  have "first_match dtBuckets (ToLower b) (dirTenants d) = None"
  proof (rule ccontr)
    assume "first_match dtBuckets (ToLower b) (dirTenants d) \<noteq> None"
    then obtain u where u: "first_match dtBuckets (ToLower b) (dirTenants d) = Some u" by blast
    then have "dtName u = tbName t" using n by (simp add: Directory_Tenant_def)
    moreover have "dtName u \<in> dtName ` set (dirTenants d)" using first_match_Some [OF u] by blast
    ultimately show False using d t(1) by (auto simp: directory_ok_def owners_def comp_def)
  qed
  moreover have "first_match tbBuckets (ToLower b) (dirTombstones d) \<noteq> None" using t by (auto simp: first_match_None)
  ultimately show ?thesis using n by (auto simp: Directory_Tenant_def)
qed

lemma Directory_Tenant_cases:
  assumes "Directory_Tenant d b = (n, x)" and "n \<noteq> DefaultTenant"
  shows "\<exists>e. entry_matches e (ToLower b) \<and> (if x then \<exists>t\<in>set (dirTombstones d). tbName t = n \<and> e \<in> set (tbBuckets t)
    else \<exists>t\<in>set (dirTenants d). dtName t = n \<and> e \<in> set (dtBuckets t))"
  using assms
  by (fastforce simp: Directory_Tenant_def Let_def split: option.splits dest: first_match_Some)

lemma succ_of_refl: "succ_of f f"
  by (rule succ_of_same [of _ _ "[]"]) simp_all

lemma succ_of_trans:
  assumes "succ_of f g" and "succ_of g h"
  shows "succ_of f h"
  unfolding succ_of_def
proof (intro conjI ballI)
  show "set (fTombstones f) \<subseteq> set (fTombstones h)" using assms by (auto simp: succ_of_def)
  fix t assume "t \<in> set (fTenants f)"
  then obtain bs where b: "set (tnBuckets t) \<subseteq> set bs"
    and c: "(\<exists>t'\<in>set (fTenants g). owner_of t' = (tnName t, tnKIDs t, bs) \<and> set (tnLocks t) \<subseteq> set (tnLocks t')) \<or>
      (\<exists>t'\<in>set (fTombstones g). tomb_owner t' = (tnName t, tnKIDs t, bs) \<and> set (tnLocks t) \<subseteq> set (tbLocks t'))"
    using assms(1) unfolding succ_of_def by blast
  from c show "\<exists>bs. set (tnBuckets t) \<subseteq> set bs \<and>
      ((\<exists>t'\<in>set (fTenants h). owner_of t' = (tnName t, tnKIDs t, bs) \<and> set (tnLocks t) \<subseteq> set (tnLocks t')) \<or>
       (\<exists>t'\<in>set (fTombstones h). tomb_owner t' = (tnName t, tnKIDs t, bs) \<and> set (tnLocks t) \<subseteq> set (tbLocks t')))"
  proof
    assume "\<exists>t'\<in>set (fTenants g). owner_of t' = (tnName t, tnKIDs t, bs) \<and> set (tnLocks t) \<subseteq> set (tnLocks t')"
    then obtain u where u: "u \<in> set (fTenants g)" "tnName u = tnName t" "tnKIDs u = tnKIDs t" "tnBuckets u = bs"
        "set (tnLocks t) \<subseteq> set (tnLocks u)" by auto
    then obtain bs' where v: "set (tnBuckets u) \<subseteq> set bs'"
      "(\<exists>t'\<in>set (fTenants h). owner_of t' = (tnName u, tnKIDs u, bs') \<and> set (tnLocks u) \<subseteq> set (tnLocks t')) \<or>
       (\<exists>t'\<in>set (fTombstones h). tomb_owner t' = (tnName u, tnKIDs u, bs') \<and> set (tnLocks u) \<subseteq> set (tbLocks t'))"
      using assms(2) unfolding succ_of_def by blast
    show ?thesis
    proof (intro exI [of _ bs'] conjI)
      show "set (tnBuckets t) \<subseteq> set bs'" using b v(1) u(4) by blast
    qed (use v(2) u(5) in \<open>unfold u(2,3), meson subset_trans\<close>)
  next
    assume "\<exists>t'\<in>set (fTombstones g). tomb_owner t' = (tnName t, tnKIDs t, bs) \<and> set (tnLocks t) \<subseteq> set (tbLocks t')"
    then show ?thesis using assms(2) b unfolding succ_of_def by blast
  qed
qed

lemma succ_of_owner:
  assumes "succ_of f f'" and "t \<in> set (fTenants f)"
  shows "\<exists>bs. set (tnBuckets t) \<subseteq> set bs \<and> (tnName t, tnKIDs t, bs) \<in> set (owners (File_Directory f'))"
proof -
  obtain bs where b: "set (tnBuckets t) \<subseteq> set bs"
    "(\<exists>u\<in>set (fTenants f'). owner_of u = (tnName t, tnKIDs t, bs)) \<or> (\<exists>u\<in>set (fTombstones f'). tomb_owner u = (tnName t, tnKIDs t, bs))"
    using assms unfolding succ_of_def by blast
  from b(2) have "(tnName t, tnKIDs t, bs) \<in> owner_of ` set (fTenants f') \<union> tomb_owner ` set (fTombstones f')"
    by (elim disjE bexE) (rule UnI1 UnI2, rule image_eqI, rule sym, assumption+)+
  then show ?thesis using b(1) unfolding owners_file set_append set_map by blast
qed

lemma file_steps_succ: "file_step\<^sup>*\<^sup>* f f' \<Longrightarrow> succ_of f f'"
  by (induction rule: rtranclp_induct) (auto intro: succ_of_refl succ_of_trans file_step_succ)

lemma file_reach_steps: "file_step\<^sup>*\<^sup>* f f' \<Longrightarrow> file_reach f \<Longrightarrow> file_reach f'"
  by (induction rule: rtranclp_induct) (auto intro: file_reach.step)

lemma file_dir [simp]:
  "dirTombstones (File_Directory f) = fTombstones f"
  "dtName ` set (dirTenants (File_Directory f)) = tnName ` set (fTenants f)"
  by (auto simp: File_Directory_def image_image)

section \<open>A small deployment\<close>

text \<open>One default key, and the tenant \<open>acme\<close> with the buckets \<open>acme-*\<close>: the file on which the properties are
  instantiated.\<close>

definition sample_ring :: "string \<Rightarrow> Keyring" where
  "sample_ring kid = \<lparr>kactive = kid, keks = [(kid, replicate 32 1)], kcreated = [(kid, 7)], kaudit = None,
     kname = Some (replicate 32 2), kfreshness = None\<rparr>"

definition sample_file :: File where
  "sample_file = \<lparr>fDefault = sample_ring ''k1'', fGeneration = 0,
     fTenants = [\<lparr>tnName = ''acme'', tnBuckets = [''acme-*''], tnActiveKID = '''', tnKIDs = [''t1''],
       tnLocks = [TenantLock_record DeploymentLock], tnRing = Some ((sample_ring ''t1'')\<lparr>kactive := ''''\<rparr>), tnErr = None,
       tnSection = empty_section, tnSeal = None\<rparr>],
     fTombstones = []\<rparr>"

definition sample_tomb :: Tombstone where
  "sample_tomb = \<lparr>tbName = ''acme'', tbBuckets = [''acme-*''], tbKIDs = [''t1''],
     tbLocks = [TenantLock_record DeploymentLock], tbDestroyed = 0\<rparr>"

lemma sample_ring_reach: "ValidateKID kid = None \<Longrightarrow> keyring_reach (sample_ring kid)"
proof -
  assume v: "ValidateKID kid = None"
  have "Add 7 kid (replicate 32 1) NewKeyring = Inr ((sample_ring kid)\<lparr>kname := None\<rparr>)"
    using v by (simp add: Add_def NewKeyring_def sample_ring_def keys_KeySize_def del: replicate.simps)
  then have "keyring_reach (SetNameKey (replicate 32 2) ((sample_ring kid)\<lparr>kname := None\<rparr>))"
    by (intro keyring_reach.step [OF keyring_reach.step [OF keyring_reach.init keyring_step.add] keyring_step.set_name])
  then show ?thesis by (simp add: SetNameKey_def sample_ring_def del: replicate.simps)
qed

lemma sample_file_reach: "file_reach sample_file"
proof -
  have "AddTenant ''acme'' [''acme-*''] (sample_ring ''t1'') DeploymentLock
      \<lparr>fDefault = sample_ring ''k1'', fGeneration = 0, fTenants = [], fTombstones = []\<rparr> = Inr sample_file"
    by code_simp
  moreover have v: "ValidateKID ''k1'' = None" "ValidateKID ''t1'' = None" by code_simp+
  moreover have "keks (sample_ring ''k1'') \<noteq> []" by (simp add: sample_ring_def)
  ultimately show ?thesis
    by (blast intro: file_reach.step [OF file_reach.fresh file_step.add_tenant] sample_ring_reach)
qed

lemma sample_destroy: "Destroy ''acme'' 0 sample_file = Inr (sample_tomb, sample_file\<lparr>fTenants := [], fTombstones := [sample_tomb]\<rparr>)"
  by code_simp

text \<open>\<open>KIDOwner\<close> asks for the creation date of a default key, and a key from a file that records none has no
  date: a tenant can then be added whose key id is the default tenant's, and the file it gives can no
  longer be written.\<close>

lemma undated_key_collision:
  "\<exists>f f'. f = \<lparr>fDefault = (sample_ring ''k1'')\<lparr>kcreated := []\<rparr>, fGeneration = 0, fTenants = [], fTombstones = []\<rparr> \<and>
    Directory_validate (File_Directory f) (KIDs (fDefault f)) = None \<and> ''k1'' \<in> set (KIDs (fDefault f)) \<and>
    KIDOwner f ''k1'' = None \<and> AddTenant ''acme'' [''acme-*''] (sample_ring ''k1'') DeploymentLock f = Inr f' \<and>
    Directory_validate (File_Directory f') (KIDs (fDefault f')) = Some (malformed ''%w: key id %q is used by %q and %q'')"
proof -
  let ?f = "\<lparr>fDefault = (sample_ring ''k1'')\<lparr>kcreated := []\<rparr>, fGeneration = 0, fTenants = [], fTombstones = []\<rparr>"
  let ?t = "\<lparr>tnName = ''acme'', tnBuckets = [''acme-*''], tnActiveKID = '''', tnKIDs = [''k1''],
       tnLocks = [TenantLock_record DeploymentLock], tnRing = Some ((sample_ring ''k1'')\<lparr>kactive := ''''\<rparr>), tnErr = None,
       tnSection = empty_section, tnSeal = None\<rparr>"
  let ?f' = "?f\<lparr>fTenants := [?t]\<rparr>"
  have "Directory_validate (File_Directory ?f) (KIDs (fDefault ?f)) = None" by code_simp
  moreover have "''k1'' \<in> set (KIDs (fDefault ?f))" by (simp add: sample_ring_def)
  moreover have "KIDOwner ?f ''k1'' = None" by code_simp
  moreover have "AddTenant ''acme'' [''acme-*''] (sample_ring ''k1'') DeploymentLock ?f = Inr ?f'" by code_simp
  moreover have "Directory_validate (File_Directory ?f') (KIDs (fDefault ?f')) = Some (malformed ''%w: key id %q is used by %q and %q'')"
    by code_simp
  ultimately show ?thesis by blast
qed

section \<open>Properties\<close>

text \<open>C21: The keyring file keeps its rules. Take a new keyring, or any file that opens and whose default keys
  have their creation dates. Whatever the commands do to it (adding tenants, assigning buckets,
  activating, resealing, destroying and opening tenants, changing the default tenant's keys, and writing
  it and opening what was written, dated again), its directory always passes the validation that the next
  write and the next start apply, every opened tenant holds exactly the key ids the directory lists for
  it, and the default tenant's active key is present. The validation itself is exactly the declared rules:
  names and key ids are unique across live and destroyed tenants, and no two bucket entries overlap. The
  dates are needed: for a default key without one the claim is false (\<open>undated_key_collision\<close> above).\<close>

theorem keyring_file_invariant:
  assumes "file_reach f"
  shows "Directory_validate (File_Directory f) (KIDs (fDefault f)) = None \<and>
    directory_ok (File_Directory f) (KIDs (fDefault f)) \<and>
    (\<forall>t\<in>set (fTenants f). \<forall>r. tnRing t = Some r \<longrightarrow> set (KIDs r) = set (tnKIDs t) \<and> kactive r = tnActiveKID t) \<and>
    kactive (fDefault f) \<in> set (KIDs (fDefault f))"
proof -
  have i: "file_inv f" by (rule file_reach_inv [OF assms])
  then have "tenant_ok t" if "t \<in> set (fTenants f)" for t using that by (auto simp: file_inv_def list_all_iff)
  then have "set (KIDs r) = set (tnKIDs t) \<and> kactive r = tnActiveKID t" if "t \<in> set (fTenants f)" "tnRing t = Some r" for t r
    using that by (fastforce simp: tenant_ok_def simp del: set_KIDs)
  with i show ?thesis by (simp add: file_inv_def Directory_validate_iff)
qed

theorem keyring_file_invariant_witness:
  "file_reach sample_file \<and> Directory_validate (File_Directory sample_file) (KIDs (fDefault sample_file)) = None"
  using keyring_file_invariant [OF sample_file_reach] sample_file_reach by blast

text \<open>C25: A bucket belongs to one tenant and never leaves it. Once a bucket belongs to a tenant, it belongs
  to that tenant after every further change of the keyring file, written and opened again as often as one
  likes; and once the tenant is destroyed, the bucket stays refused: it never falls back to the default
  tenant and no tenant can claim it again.\<close>

theorem tenancy_permanent:
  assumes "file_reach f" and "file_step\<^sup>*\<^sup>* f f'" and "Directory_Tenant (File_Directory f) bucket = (name, destroyed)"
    and "name \<noteq> DefaultTenant"
  shows "\<exists>destroyed'. Directory_Tenant (File_Directory f') bucket = (name, destroyed') \<and> (destroyed \<longrightarrow> destroyed')"
proof -
  have d: "directory_ok (File_Directory f') (KIDs (fDefault f'))"
    using file_reach_inv [OF file_reach_steps [OF assms(2,1)]] by (simp add: file_inv_def)
  have s: "succ_of f f'" by (rule file_steps_succ [OF assms(2)])
  obtain e where e: "entry_matches e (ToLower bucket)" and c: "if destroyed
      then \<exists>t\<in>set (fTombstones f). tbName t = name \<and> e \<in> set (tbBuckets t)
      else \<exists>t\<in>set (dirTenants (File_Directory f)). dtName t = name \<and> e \<in> set (dtBuckets t)"
    using Directory_Tenant_cases [OF assms(3,4)] unfolding file_dir by blast
  show ?thesis
  proof (cases destroyed)
    case True
    then obtain t where "t \<in> set (fTombstones f')" "tbName t = name" "e \<in> set (tbBuckets t)"
      using c s by (auto simp: succ_of_def)
    then show ?thesis using Directory_Tenant_tomb [OF d _ _ e] by (auto simp: True)
  next
    case False
    then obtain t where t: "t \<in> set (fTenants f)" "tnName t = name" "e \<in> set (tnBuckets t)"
      using c by (auto simp: File_Directory_def)
    then obtain bs where b: "set (tnBuckets t) \<subseteq> set bs" "(name, tnKIDs t, bs) \<in> set (owners (File_Directory f'))"
      using succ_of_owner [OF s t(1)] by blast
    then obtain x where "x \<in> set (owners (File_Directory f'))" "fst x = name" "e \<in> set (snd (snd x))"
      using t(3) by (metis fst_conv snd_conv subsetD)
    then have "fst (Directory_Tenant (File_Directory f') bucket) = name"
      using Directory_Tenant_unique [OF d _ _ e] by blast
    then show ?thesis using False by (metis prod.collapse)
  qed
qed


theorem tenancy_permanent_witness:
  "\<exists>f'. Destroy ''acme'' 0 sample_file = Inr (sample_tomb, f') \<and>
    fst (Directory_Tenant (File_Directory sample_file) ''Acme-logs'') = ''acme'' \<and>
    fst (Directory_Tenant (File_Directory f') ''Acme-logs'') = ''acme''"
proof -
  have d: "Directory_Tenant (File_Directory sample_file) ''Acme-logs'' = (''acme'', False)" by code_simp
  have "''acme'' \<noteq> DefaultTenant" by code_simp
  moreover have "file_step\<^sup>*\<^sup>* sample_file (sample_file\<lparr>fTenants := [], fTombstones := [sample_tomb]\<rparr>)"
    using file_step.destroy [OF sample_destroy] by (rule r_into_rtranclp)
  ultimately show ?thesis using tenancy_permanent [OF sample_file_reach _ d] sample_destroy d by fastforce
qed

end
