(* ===== verification/Served.thy ===== *)
theory Served
  imports KeyringState
begin

text \<open>
  \<open>internal/crypto/keys/served.go\<close>: the opened keyring as the gateway serves it, one key provider over
  the keys of all tenants, and the directory that says whose keys the writes to a bucket use. The
  interface \<open>BucketKeyProvider\<close> is the locale \<open>bucket_keys\<close>, which the keyring and the served keyring
  interpret.
\<close>

section \<open>Operations\<close>

record BucketKeys =
  bkTenant :: string
  bkKID :: string
  bkNameTenant :: string
  bkName :: "bytes option"

definition Keyring_For :: "Keyring \<Rightarrow> string \<Rightarrow> BucketKeys result" where
  "Keyring_For r bucket =
     Inr \<lparr>bkTenant = DefaultTenant, bkKID = kactive r, bkNameTenant = DefaultTenant, bkName = kname r\<rparr>"

record Served =
  svDefault :: Keyring
  svDir :: Directory
  svGeneration :: "64 word"
  svByKID :: "string \<Rightarrow> Keyring option"
  svTenants :: "string \<Rightarrow> Tenant option"

definition hold_kids :: "Keyring \<Rightarrow> (string \<Rightarrow> Keyring option) \<Rightarrow> string \<Rightarrow> Keyring option" where
  "hold_kids r m = foldl (\<lambda>m kid. m(kid \<mapsto> r)) m (KIDs r)"

definition NewServed :: "File \<Rightarrow> Served" where
  "NewServed f =
     \<lparr>svDefault = fDefault f, svDir = File_Directory f, svGeneration = fGeneration f,
      svByKID = foldl (\<lambda>m t. case tnRing t of None \<Rightarrow> m | Some r \<Rightarrow> hold_kids r m)
        (hold_kids (fDefault f) Map.empty) (fTenants f),
      svTenants = foldl (\<lambda>m t. m(tnName t \<mapsto> t)) Map.empty (fTenants f)\<rparr>"

definition Served_For :: "Served \<Rightarrow> string \<Rightarrow> BucketKeys result" where
  "Served_For s bucket =
     (case Directory_Tenant (svDir s) bucket of
        (name, True) \<Rightarrow> Inl (Errorf ''%w: %q'' [Sentinel ErrTenantDestroyed])
      | (name, False) \<Rightarrow>
          if name = DefaultTenant then Keyring_For (svDefault s) bucket
          else (case svTenants s name of
             None \<Rightarrow> Inl nil_panic
           | Some t \<Rightarrow>
               (case tnRing t of
                  None \<Rightarrow> Inl (Errorf ''%w: %q'' [Sentinel ErrTenantUnopened])
                | Some ring \<Rightarrow>
                    if tnActiveKID t = ''''
                    then ebind (Keyring_For (svDefault s) bucket) (\<lambda>bk. Inr (bk\<lparr>bkTenant := name\<rparr>))
                    else Inr \<lparr>bkTenant = name, bkKID = tnActiveKID t, bkNameTenant = name, bkName = kname ring\<rparr>)))"

definition AuditTenant :: "Served \<Rightarrow> string \<Rightarrow> string \<times> bool" where
  "AuditTenant s bucket =
     (case Directory_Tenant (svDir s) bucket of
        (name, True) \<Rightarrow> (name, False)
      | (name, False) \<Rightarrow>
          if name = DefaultTenant then ('''', True)
          else (name, case svTenants s name of None \<Rightarrow> False | Some t \<Rightarrow> tnRing t \<noteq> None))"

definition Served_AuditNameKey :: "Served \<Rightarrow> string \<Rightarrow> bytes result" where
  "Served_AuditNameKey s tenant =
     (case svTenants s tenant of
        None \<Rightarrow> Inl (Errorf ''keys: tenant %q is not open here'' [])
      | Some t \<Rightarrow>
          (case tnRing t of
             None \<Rightarrow> Inl (Errorf ''keys: tenant %q is not open here'' [])
           | Some ring \<Rightarrow>
               (case kname ring of
                  None \<Rightarrow> Inl (Errorf ''keys: tenant %q has no name key'' [])
                | Some nk \<Rightarrow> AuditNameKey nk)))"

definition Served_ring :: "Served \<Rightarrow> string \<Rightarrow> Keyring result" where
  "Served_ring s kid =
     (case svByKID s kid of None \<Rightarrow> Inl (Errorf ''%w: %q'' [Sentinel ErrUnknownKID]) | Some r \<Rightarrow> Inr r)"

definition Served_Wrap :: "bytes result \<Rightarrow> Served \<Rightarrow> string \<Rightarrow> bytes \<Rightarrow> bytes \<Rightarrow> bytes result" where
  "Served_Wrap rnd s kid dek aad = ebind (Served_ring s kid) (\<lambda>r. Wrap rnd r kid dek aad)"

definition Served_Unwrap :: "Served \<Rightarrow> string \<Rightarrow> bytes \<Rightarrow> bytes \<Rightarrow> bytes result" where
  "Served_Unwrap s kid wrapped aad = ebind (Served_ring s kid) (\<lambda>r. Unwrap r kid wrapped aad)"

definition Served_TokenKey :: "Served \<Rightarrow> string \<Rightarrow> bytes result" where
  "Served_TokenKey s kid = ebind (Served_ring s kid) (\<lambda>r. TokenKey r kid)"

definition served_provider :: "Served \<Rightarrow> KeyProvider" where
  "served_provider s = \<lparr>pActiveKID = ActiveKID (svDefault s), pWrap = (\<lambda>rnd. Served_Wrap rnd s),
     pUnwrap = Served_Unwrap s, pTokenKey = Served_TokenKey s\<rparr>"

section \<open>The provider interface\<close>

text \<open>
  What the gateway relies on when it writes: the key a bucket's writes use has a valid id, wraps every
  data key, and what it wrapped unwraps through the same provider.
\<close>

locale bucket_keys =
  fixes provider :: "'s \<Rightarrow> KeyProvider"
    and For :: "'s \<Rightarrow> string \<Rightarrow> BucketKeys result"
    and inv :: "'s \<Rightarrow> bool"
  assumes provides: "key_provider (provider s)"
    and for_kid: "inv s \<Longrightarrow> For s b = Inr bk \<Longrightarrow> ValidateKID (bkKID bk) = None"
    and for_wraps: "inv s \<Longrightarrow> For s b = Inr bk \<Longrightarrow> length dek \<le> 2 ^ 20 \<Longrightarrow>
      \<exists>w. pWrap (provider s) (Inr nonce) (bkKID bk) dek a = Inr w"
begin

text \<open>A data key wrapped for an object of a served bucket comes back for that object.\<close>

lemma object_key_roundtrip:
  assumes "inv s" and "For s bucket = Inr bk" and "length bucket \<le> 65535" "length key \<le> 65535"
    and "length nonce = 12" and "length dek = 32"
  shows "\<exists>a w. ObjectAAD (bkKID bk) bucket key = Inr a \<and> pWrap (provider s) (Inr nonce) (bkKID bk) dek a = Inr w \<and>
    length w = 60 \<and> pUnwrap (provider s) (bkKID bk) w a = Inr dek"
proof -
  obtain a where a: "ObjectAAD (bkKID bk) bucket key = Inr a"
    using for_kid [OF assms(1,2)] assms(3,4) by (auto simp: ObjectAAD_Inr)
  obtain w where w: "pWrap (provider s) (Inr nonce) (bkKID bk) dek a = Inr w"
    using for_wraps [OF assms(1,2), of dek nonce a] assms(6) by auto
  show ?thesis
    using a w key_provider.unwrap_wrap [OF provides w assms(5)] key_provider.wrap_length [OF provides w assms(5)] assms(6)
    by auto
qed

end

lemma served_key_provider: "key_provider (served_provider s)"
proof
  fix nonce kid dek a w
  assume w: "pWrap (served_provider s) (Inr nonce) kid dek a = Inr w" and n: "length nonce = 12"
  then obtain r where "Served_ring s kid = Inr r" "Wrap (Inr nonce) r kid dek a = Inr w"
    by (auto simp: served_provider_def Served_Wrap_def ebind_eq_Inr)
  with n keyring.unwrap_wrap [of r nonce kid dek a w] keyring.wrap_length [of r nonce kid dek a w]
  show "pUnwrap (served_provider s) kid w a = Inr dek" "length w = length dek + 28"
    by (simp_all add: served_provider_def Served_Unwrap_def keyring_provider_def)
next
  fix kid w a dek
  assume "pUnwrap (served_provider s) kid w a = Inr dek" and l: "length dek \<le> 2 ^ 20"
  then obtain r where "Served_ring s kid = Inr r" "Unwrap r kid w a = Inr dek"
    by (auto simp: served_provider_def Served_Unwrap_def ebind_eq_Inr)
  with l keyring.wrap_unwrap [of r kid w a dek] show "pWrap (served_provider s) (Inr (take 12 w)) kid dek a = Inr w"
    by (simp add: served_provider_def Served_Wrap_def keyring_provider_def)
next
  fix kid k
  assume "pTokenKey (served_provider s) kid = Inr k"
  then obtain r where "TokenKey r kid = Inr k"
    by (auto simp: served_provider_def Served_TokenKey_def ebind_eq_Inr)
  with keyring.token_key_length [of r kid k] show "length k = 32" by (simp add: keyring_provider_def)
qed

section \<open>Who holds a key id\<close>

lemma hold_kids_apply: "hold_kids r m kid = (if kid \<in> set (KIDs r) then Some r else m kid)"
proof -
  have "foldl (\<lambda>m kid. m(kid \<mapsto> r)) m ks kid = (if kid \<in> set ks then Some r else m kid)" for ks
    by (induction ks arbitrary: m) auto
  then show ?thesis by (simp add: hold_kids_def)
qed

definition ring_of :: "Tenant \<Rightarrow> string \<Rightarrow> Keyring option" where
  "ring_of t kid = (case tnRing t of None \<Rightarrow> None | Some r \<Rightarrow> if kid \<in> set (KIDs r) then Some r else None)"

lemma byKID_foldl:
  "foldl (\<lambda>m t. case tnRing t of None \<Rightarrow> m | Some r \<Rightarrow> hold_kids r m) m ts kid =
     (case List.find (\<lambda>t. ring_of t kid \<noteq> None) (rev ts) of Some t \<Rightarrow> ring_of t kid | None \<Rightarrow> m kid)"
  by (induction ts rule: rev_induct) (auto simp: ring_of_def hold_kids_apply split: option.splits)

lemma svTenants_foldl: "foldl (\<lambda>m t. m(tnName t \<mapsto> t)) m ts name =
     (case List.find (\<lambda>t. tnName t = name) (rev ts) of Some t \<Rightarrow> Some t | None \<Rightarrow> m name)"
  by (induction ts rule: rev_induct) auto

text \<open>Key ids are unique, so the map finds the ring that holds the id.\<close>

lemma concat_unique:
  "distinct (concat (map g xs)) \<Longrightarrow> x \<in> set xs \<Longrightarrow> y \<in> set xs \<Longrightarrow> k \<in> set (g x) \<Longrightarrow> k \<in> set (g y) \<Longrightarrow> x = y"
  by (induction xs) auto

lemma file_inv_kids:
  assumes "file_inv f"
  shows "t \<in> set (fTenants f) \<Longrightarrow> u \<in> set (fTenants f) \<Longrightarrow> kid \<in> set (tnKIDs t) \<Longrightarrow> kid \<in> set (tnKIDs u) \<Longrightarrow> t = u"
    and "t \<in> set (fTenants f) \<Longrightarrow> kid \<in> set (tnKIDs t) \<Longrightarrow> kid \<notin> set (KIDs (fDefault f))"
    and "t \<in> set (fTenants f) \<Longrightarrow> b \<in> set (fTombstones f) \<Longrightarrow> kid \<in> set (tbKIDs b) \<Longrightarrow> kid \<notin> set (tnKIDs t)"
    and "b \<in> set (fTombstones f) \<Longrightarrow> kid \<in> set (tbKIDs b) \<Longrightarrow> kid \<notin> set (KIDs (fDefault f))"
    and "t \<in> set (fTenants f) \<Longrightarrow> tnRing t = Some r \<Longrightarrow> set (KIDs r) = set (tnKIDs t)"
    and "t \<in> set (fTenants f) \<Longrightarrow> u \<in> set (fTenants f) \<Longrightarrow> tnName t = tnName u \<Longrightarrow> t = u"
proof -
  let ?own = "map owner_of (fTenants f) @ map tomb_owner (fTombstones f)"
  have k: "distinct (owner_kids ?own)" "set (owner_kids ?own) \<inter> set (KIDs (fDefault f)) = {}" "distinct (map fst ?own)"
    using assms by (simp_all only: file_inv_default owners_ok_def)
  have d: "distinct (concat (map tnKIDs (fTenants f)) @ concat (map tbKIDs (fTombstones f)))"
    using k(1) by (simp add: comp_def)
  show "t = u" if "t \<in> set (fTenants f)" "u \<in> set (fTenants f)" "kid \<in> set (tnKIDs t)" "kid \<in> set (tnKIDs u)"
    using concat_unique [of tnKIDs "fTenants f" t u kid] d that by simp
  show "kid \<notin> set (KIDs (fDefault f))" if "t \<in> set (fTenants f)" "kid \<in> set (tnKIDs t)"
    using k(2) that by (auto simp del: set_KIDs)
  show "kid \<notin> set (KIDs (fDefault f))" if "b \<in> set (fTombstones f)" "kid \<in> set (tbKIDs b)"
    using k(2) that by (auto simp del: set_KIDs)
  show "kid \<notin> set (tnKIDs t)" if "t \<in> set (fTenants f)" "b \<in> set (fTombstones f)" "kid \<in> set (tbKIDs b)"
    using d that by (auto simp: distinct_append)
  show "set (KIDs r) = set (tnKIDs t)" if "t \<in> set (fTenants f)" "tnRing t = Some r"
  proof -
    have "tenant_ok t" using assms that(1) by (simp add: file_inv_default list_all_iff)
    then have "KIDs r = sort (tnKIDs t)" using that(2) by (simp add: tenant_ok_def)
    then show ?thesis by (simp only: set_sort)
  qed
  have "inj_on tnName (set (fTenants f))" using k(3) by (simp add: comp_def distinct_map)
  then show "t = u" if "t \<in> set (fTenants f)" "u \<in> set (fTenants f)" "tnName t = tnName u"
    using that by (simp add: inj_on_def)
qed

lemma find_rev_in: "List.find P (rev xs) = Some x \<Longrightarrow> x \<in> set xs \<and> P x"
  by (induction xs rule: rev_induct) (auto split: if_splits)

lemma svByKID_iff:
  assumes i: "file_inv f"
  shows "svByKID (NewServed f) kid = Some r \<longleftrightarrow>
    (\<exists>t\<in>set (fTenants f). tnRing t = Some r \<and> kid \<in> set (tnKIDs t)) \<or> kid \<in> set (KIDs (fDefault f)) \<and> r = fDefault f"
proof -
  note k = file_inv_kids [OF i]
  have rk: "ring_of t kid = Some r' \<longleftrightarrow> tnRing t = Some r' \<and> kid \<in> set (tnKIDs t)" if "t \<in> set (fTenants f)" for t r'
    using k(5) [OF that] by (auto simp: ring_of_def simp del: set_KIDs split: option.splits if_splits)
  let ?P = "\<lambda>t. ring_of t kid \<noteq> None"
  have b: "svByKID (NewServed f) kid = (case List.find ?P (rev (fTenants f)) of Some t \<Rightarrow> ring_of t kid
      | None \<Rightarrow> if kid \<in> set (KIDs (fDefault f)) then Some (fDefault f) else None)"
    by (simp add: NewServed_def byKID_foldl hold_kids_apply split: option.splits)
  show ?thesis
  proof (cases "List.find ?P (rev (fTenants f))")
    case None
    then have "\<forall>t\<in>set (fTenants f). ring_of t kid = None" by (auto simp: find_None_iff)
    then have "\<not> (\<exists>t\<in>set (fTenants f). tnRing t = Some r \<and> kid \<in> set (tnKIDs t))" using rk by fastforce
    then show ?thesis using b None by (auto simp del: set_KIDs)
  next
    case (Some t)
    from find_rev_in [OF Some] have t: "t \<in> set (fTenants f)" and "ring_of t kid \<noteq> None" by blast+
    then obtain r' where r': "ring_of t kid = Some r'" by blast
    have s: "kid \<in> set (tnKIDs t)" "tnRing t = Some r'" using rk [OF t] r' by blast+
    have e: "svByKID (NewServed f) kid = Some r'" using b Some r' by simp
    have u: "u = t" if "u \<in> set (fTenants f)" "kid \<in> set (tnKIDs u)" for u
      using k(1) [OF t that(1) s(1) that(2)] by (rule sym)
    have n: "kid \<notin> set (KIDs (fDefault f))" using k(2) [OF t s(1)] .
    show ?thesis unfolding e using t s u n by (metis option.inject)
  qed
qed

lemma svTenants_iff:
  assumes "file_inv f" and "t \<in> set (fTenants f)"
  shows "svTenants (NewServed f) (tnName t) = Some t"
proof -
  have "List.find (\<lambda>u. tnName u = tnName t) (rev (fTenants f)) \<noteq> None" using assms(2) by (auto simp: find_None_iff)
  then obtain u where u: "List.find (\<lambda>u. tnName u = tnName t) (rev (fTenants f)) = Some u" by blast
  then have "u \<in> set (fTenants f)" "tnName u = tnName t" using find_rev_in [OF u] by blast+
  then have "u = t" using file_inv_kids(6) [OF assms(1)] assms(2) by blast
  with u show ?thesis by (simp add: NewServed_def svTenants_foldl)
qed

section \<open>The two providers\<close>

lemma lookup_wraps:
  assumes "ring_ok r" and "kid \<in> set (KIDs r)" and "length dek \<le> 2 ^ 20"
  shows "\<exists>w. Wrap (Inr nonce) r kid dek a = Inr w"
proof -
  obtain kek where k: "(kid, kek) \<in> set (keks r)" using assms(2) by auto
  then have "map_of (keks r) kid = Some kek" "length kek = 32"
    using assms(1) by (auto simp: ring_ok_def list_all_iff)
  then show ?thesis using assms(3) by (simp add: Wrap_def lookup_def sealKey_def newWrapAEAD_def)
qed

lemma ring_ok_kid: "ring_ok r \<Longrightarrow> kid \<in> set (KIDs r) \<Longrightarrow> ValidateKID kid = None"
  by (auto simp: ring_ok_def list_all_iff)

lemma Keyring_For_key:
  assumes "default_ok r" and "Keyring_For r b = Inr bk"
  shows "ring_ok r" and "bkKID bk \<in> set (KIDs r)"
  using assms by (force simp: default_ok_def Keyring_For_def)+

interpretation keyring_bucket: bucket_keys keyring_provider Keyring_For default_ok
proof (rule bucket_keys.intro)
  show "key_provider (keyring_provider s)" for s by (rule keyring.key_provider_axioms)
next
  fix s b bk assume "default_ok s" "Keyring_For s b = Inr bk"
  from ring_ok_kid [OF Keyring_For_key [OF this]] show "ValidateKID (bkKID bk) = None" .
next
  fix s b bk and dek nonce a :: bytes
  assume "default_ok s" "Keyring_For s b = Inr bk" and l: "length dek \<le> 2 ^ 20"
  from lookup_wraps [OF Keyring_For_key [OF this(1,2)] l]
  show "\<exists>w. pWrap (keyring_provider s) (Inr nonce) (bkKID bk) dek a = Inr w" by (simp add: keyring_provider_def)
qed

text \<open>What \<open>For\<close> answers for a served file.\<close>

lemma Served_For_cases:
  assumes i: "file_inv f"
  shows "Served_For (NewServed f) b = (case Directory_Tenant (File_Directory f) b of
      (name, True) \<Rightarrow> Inl (Errorf ''%w: %q'' [Sentinel ErrTenantDestroyed])
    | (name, False) \<Rightarrow>
        if name = DefaultTenant then Keyring_For (fDefault f) b
        else (case List.find (\<lambda>t. tnName t = name) (fTenants f) of
           None \<Rightarrow> Inl nil_panic
         | Some t \<Rightarrow>
             (case tnRing t of
                None \<Rightarrow> Inl (Errorf ''%w: %q'' [Sentinel ErrTenantUnopened])
              | Some r \<Rightarrow>
                  if tnActiveKID t = ''''
                  then Inr \<lparr>bkTenant = name, bkKID = kactive (fDefault f), bkNameTenant = DefaultTenant, bkName = kname (fDefault f)\<rparr>
                  else Inr \<lparr>bkTenant = name, bkKID = tnActiveKID t, bkNameTenant = name, bkName = kname r\<rparr>)))"
proof -
  have s: "svTenants (NewServed f) n = List.find (\<lambda>t. tnName t = n) (fTenants f)" for n
  proof (cases "List.find (\<lambda>t. tnName t = n) (fTenants f)")
    case None
    then have "List.find (\<lambda>t. tnName t = n) (rev (fTenants f)) = None" by (simp add: find_None_iff)
    with None show ?thesis by (simp add: NewServed_def svTenants_foldl)
  next
    case (Some t)
    from find_split [OF Some] have "t \<in> set (fTenants f)" "tnName t = n" by auto
    with svTenants_iff [OF i] Some show ?thesis by auto
  qed
  have d: "svDir (NewServed f) = File_Directory f" "svDefault (NewServed f) = fDefault f" by (simp_all add: NewServed_def)
  show ?thesis
    unfolding Served_For_def s d Keyring_For_def by (auto split: prod.splits bool.splits option.splits)
qed

lemma Served_For_key:
  assumes i: "file_inv f" and "Served_For (NewServed f) b = Inr bk"
  shows "\<exists>r. svByKID (NewServed f) (bkKID bk) = Some r \<and> ring_ok r \<and> bkKID bk \<in> set (KIDs r) \<and>
    (r = fDefault f \<or> (\<exists>t\<in>set (fTenants f). tnRing t = Some r \<and> tnName t = bkTenant bk \<and> bkKID bk = tnActiveKID t))"
proof -
  have d: "default_ok (fDefault f)" using i by (simp add: file_inv_default)
  consider "bkKID bk = kactive (fDefault f)" | t r where "t \<in> set (fTenants f)" "tnRing t = Some r" "tnName t = bkTenant bk"
      "bkKID bk = tnActiveKID t" "tnActiveKID t \<noteq> ''''"
    using assms(2) unfolding Served_For_cases [OF i] Keyring_For_def
    by (fastforce split: prod.splits bool.splits if_splits option.splits dest: find_split)
  then show ?thesis
  proof cases
    case 1
    then have "bkKID bk \<in> set (KIDs (fDefault f))" using d by (simp add: default_ok_def)
    then show ?thesis using svByKID_iff [OF i, of "bkKID bk" "fDefault f"] d by (auto simp: default_ok_def simp del: set_KIDs)
  next
    case (2 t r)
    have t: "tenant_rules t" "tenant_ok t" using i 2(1) by (auto simp: file_inv_default list_all_iff)
    then have k: "bkKID bk \<in> set (tnKIDs t)" "ring_ok r" using 2 by (auto simp: tenant_rules_def tenant_ok_def)
    then have "bkKID bk \<in> set (KIDs r)" using file_inv_kids(5) [OF i 2(1,2)] by (simp del: set_KIDs)
    with 2 k svByKID_iff [OF i, of "bkKID bk" r] show ?thesis by (intro exI [of _ r]) (auto simp del: set_KIDs)
  qed
qed

interpretation served: bucket_keys "\<lambda>f. served_provider (NewServed f)" "\<lambda>f. Served_For (NewServed f)" file_inv
proof (rule bucket_keys.intro)
  show "key_provider (served_provider (NewServed f))" for f by (rule served_key_provider)
next
  fix f b bk assume "file_inv f" "Served_For (NewServed f) b = Inr bk"
  from Served_For_key [OF this] show "ValidateKID (bkKID bk) = None" using ring_ok_kid by blast
next
  fix f b bk and dek nonce a :: bytes
  assume f: "file_inv f" "Served_For (NewServed f) b = Inr bk" and l: "length dek \<le> 2 ^ 20"
  from Served_For_key [OF f] obtain r
    where r: "svByKID (NewServed f) (bkKID bk) = Some r" "ring_ok r" "bkKID bk \<in> set (KIDs r)" by blast
  from lookup_wraps [OF r(2,3) l] r(1) show "\<exists>w. pWrap (served_provider (NewServed f)) (Inr nonce) (bkKID bk) dek a = Inr w"
    by (simp add: served_provider_def Served_Wrap_def Served_ring_def)
qed

section \<open>Properties\<close>

text \<open>C19: A destroyed tenant is shredded. Once a tenant is destroyed, then after any further changes of the
  keyring file, written and opened again any number of times, the gateway that serves it refuses every
  bucket of the tenant, for writes as for reads, and no data key wrapped under any of the tenant's key ids
  can be unwrapped: the ids are in no served keyring and are never issued again. A genuine older copy of
  the file put back in place is not among these changes; it does bring the tenant back. The file is one that
  was created, or opened with a default keyring whose keys are dated, as in all statements on \<open>file_reach\<close>.\<close>

theorem tenant_shredded:
  assumes "file_reach f" and "Destroy name at f = Inr (tomb, f')" and "file_step\<^sup>*\<^sup>* f' g"
  shows "(kid \<in> set (tbKIDs tomb) \<longrightarrow>
      Served_Unwrap (NewServed g) kid w a = Inl (Errorf ''%w: %q'' [Sentinel ErrUnknownKID])) \<and>
    (Directory_Tenant (File_Directory f) bucket = (name, False) \<longrightarrow>
      Served_For (NewServed g) bucket = Inl (Errorf ''%w: %q'' [Sentinel ErrTenantDestroyed]))"
proof -
  have f': "file_reach f'" using assms(1,2) file_reach.step file_step.destroy by blast
  have g: "file_inv g" using file_reach_inv [OF file_reach_steps [OF assms(3) f']] .
  obtain t where t: "t \<in> set (fTenants f)" "tnName t = name" "tomb_owner tomb = owner_of t" "tomb \<in> set (fTombstones f')"
    using assms(2) by (rule Destroy_Inr) auto
  then have b: "tomb \<in> set (fTombstones g)" using file_steps_succ [OF assms(3)] by (auto simp: succ_of_def)
  show ?thesis
  proof (intro conjI impI)
    assume "kid \<in> set (tbKIDs tomb)"
    then have "svByKID (NewServed g) kid = None"
      using svByKID_iff [OF g, of kid] file_inv_kids(3) [OF g _ b] file_inv_kids(4) [OF g b]
      by (cases "svByKID (NewServed g) kid") (auto simp del: set_KIDs)
    then show "Served_Unwrap (NewServed g) kid w a = Inl (Errorf ''%w: %q'' [Sentinel ErrUnknownKID])"
      by (simp add: Served_Unwrap_def Served_ring_def)
  next
    assume d: "Directory_Tenant (File_Directory f) bucket = (name, False)"
    have n: "name \<noteq> DefaultTenant"
      using assms(2) by (auto simp: Destroy_def live_def ebind_def split: if_splits)
    obtain u e where u: "u \<in> set (fTenants f)" "tnName u = name" "e \<in> set (tnBuckets u)" "entry_matches e (ToLower bucket)"
      using Directory_Tenant_cases [OF d n] by (auto simp: File_Directory_def)
    have "u = t" using file_inv_kids(6) [OF file_reach_inv [OF assms(1)] u(1) t(1)] u(2) t(2) by simp
    then have "e \<in> set (tbBuckets tomb)" using u(3) t(3) by simp
    then have "Directory_Tenant (File_Directory g) bucket = (tbName tomb, True)"
      using Directory_Tenant_tomb [of "File_Directory g" _ tomb e bucket] g b u(4) by (auto simp: file_inv_def)
    then show "Served_For (NewServed g) bucket = Inl (Errorf ''%w: %q'' [Sentinel ErrTenantDestroyed])"
      unfolding Served_For_cases [OF g] by simp
  qed
qed

theorem tenant_shredded_witness:
  "\<exists>g. Destroy ''acme'' 0 sample_file = Inr (sample_tomb, g) \<and>
    Served_For (NewServed g) ''acme-logs'' = Inl (Errorf ''%w: %q'' [Sentinel ErrTenantDestroyed])"
proof -
  have d: "Directory_Tenant (File_Directory sample_file) ''acme-logs'' = (''acme'', False)" by code_simp
  from tenant_shredded [OF sample_file_reach sample_destroy rtranclp.rtrancl_refl] d sample_destroy
  show ?thesis by blast
qed

text \<open>C26: Whose keys a write uses. For every bucket that the gateway serves, the key id that \<open>For\<close> names is
  valid and wraps every data key, and the wrapped key unwraps for that bucket and object key. A bucket of
  no tenant is written under the default tenant's active key and name key. A bucket of a live tenant that
  opened here is written, once the tenant is active, under exactly its active key and its own name key, and
  that key id is listed for it in the directory and held by neither the default tenant nor any other; a
  tenant that is not active yet, and only such a one, borrows the default tenant's keys.\<close>

theorem bucket_keys_owned:
  assumes "file_reach f" and "Served_For (NewServed f) bucket = Inr bk" and "length bucket \<le> 65535" "length key \<le> 65535"
    and "length nonce = 12" "length dek = 32"
  shows "(\<exists>a w. ObjectAAD (bkKID bk) bucket key = Inr a \<and> Served_Wrap (Inr nonce) (NewServed f) (bkKID bk) dek a = Inr w \<and>
      Served_Unwrap (NewServed f) (bkKID bk) w a = Inr dek) \<and>
    (\<exists>name. Directory_Tenant (File_Directory f) bucket = (name, False) \<and> bkTenant bk = name \<and>
      (if name = DefaultTenant
       then bkKID bk = kactive (fDefault f) \<and> bkNameTenant bk = DefaultTenant \<and> bkName bk = kname (fDefault f)
       else \<exists>t\<in>set (fTenants f). \<exists>r. tnName t = name \<and> tnRing t = Some r \<and>
         (if tnActiveKID t = ''''
          then bkKID bk = kactive (fDefault f) \<and> bkNameTenant bk = DefaultTenant \<and> bkName bk = kname (fDefault f)
          else bkKID bk = tnActiveKID t \<and> bkNameTenant bk = name \<and> bkName bk = kname r \<and>
            bkKID bk \<in> set (tnKIDs t) \<and> bkKID bk \<notin> set (KIDs (fDefault f)) \<and>
            (\<forall>u\<in>set (fTenants f). bkKID bk \<in> set (tnKIDs u) \<longrightarrow> u = t))))"
proof -
  have i: "file_inv f" by (rule file_reach_inv [OF assms(1)])
  note k = file_inv_kids [OF i]
  obtain name x where d: "Directory_Tenant (File_Directory f) bucket = (name, x)" by fastforce
  have act: "tnActiveKID t \<in> set (tnKIDs t)" if "t \<in> set (fTenants f)" "tnActiveKID t \<noteq> ''''" for t
    using i that by (auto simp: file_inv_default list_all_iff tenant_rules_def)
  have x: "\<not> x" using assms(2) unfolding Served_For_cases [OF i] d by (auto split: bool.splits)
  have "bkTenant bk = name \<and> (if name = DefaultTenant
       then bkKID bk = kactive (fDefault f) \<and> bkNameTenant bk = DefaultTenant \<and> bkName bk = kname (fDefault f)
       else \<exists>t\<in>set (fTenants f). \<exists>r. tnName t = name \<and> tnRing t = Some r \<and>
         (if tnActiveKID t = ''''
          then bkKID bk = kactive (fDefault f) \<and> bkNameTenant bk = DefaultTenant \<and> bkName bk = kname (fDefault f)
          else bkKID bk = tnActiveKID t \<and> bkNameTenant bk = name \<and> bkName bk = kname r))"
    using assms(2) x unfolding Served_For_cases [OF i] d Keyring_For_def
    by (fastforce split: bool.splits if_splits option.splits dest: find_split)
  then have own': "bkTenant bk = name \<and> (if name = DefaultTenant
       then bkKID bk = kactive (fDefault f) \<and> bkNameTenant bk = DefaultTenant \<and> bkName bk = kname (fDefault f)
       else \<exists>t\<in>set (fTenants f). \<exists>r. tnName t = name \<and> tnRing t = Some r \<and>
         (if tnActiveKID t = ''''
          then bkKID bk = kactive (fDefault f) \<and> bkNameTenant bk = DefaultTenant \<and> bkName bk = kname (fDefault f)
          else bkKID bk = tnActiveKID t \<and> bkNameTenant bk = name \<and> bkName bk = kname r \<and>
            bkKID bk \<in> set (tnKIDs t) \<and> bkKID bk \<notin> set (KIDs (fDefault f)) \<and>
            (\<forall>u\<in>set (fTenants f). bkKID bk \<in> set (tnKIDs u) \<longrightarrow> u = t)))"
    using act k(1) k(2) by (auto simp del: set_KIDs split: if_splits)
  obtain a w where "ObjectAAD (bkKID bk) bucket key = Inr a" "Served_Wrap (Inr nonce) (NewServed f) (bkKID bk) dek a = Inr w"
      "Served_Unwrap (NewServed f) (bkKID bk) w a = Inr dek"
    using served.object_key_roundtrip [OF i assms(2-6)] by (auto simp: served_provider_def)
  moreover have "Directory_Tenant (File_Directory f) bucket = (name, False)" using d x by simp
  ultimately show ?thesis using own' by blast
qed


text \<open>The sample deployment with its tenant activated.\<close>

lemma sample_active:
  "\<exists>f. Activate ''acme'' '''' sample_file = Inr f \<and> file_reach f \<and>
     Served_For (NewServed f) ''acme-logs'' =
       Inr \<lparr>bkTenant = ''acme'', bkKID = ''t1'', bkNameTenant = ''acme'', bkName = Some (replicate 32 2)\<rparr> \<and>
     Directory_Tenant (File_Directory f) ''acme-logs'' = (''acme'', False)"
proof -
  let ?f = "sample_file\<lparr>fTenants := map (\<lambda>t. t\<lparr>tnActiveKID := ''t1'', tnRing := Some (sample_ring ''t1'')\<rparr>) (fTenants sample_file)\<rparr>"
  have a: "Activate ''acme'' '''' sample_file = Inr ?f"
    by (simp add: Activate_def live_def File_Tenant_def sample_file_def sample_ring_def update_tenant_def DefaultTenant_def)
  then have "file_reach ?f" by (rule file_reach.step [OF sample_file_reach file_step.activate])
  moreover have d: "Directory_Tenant (File_Directory ?f) ''acme-logs'' = (''acme'', False)" by code_simp
  moreover have "Served_For (NewServed ?f) ''acme-logs'' =
      Inr \<lparr>bkTenant = ''acme'', bkKID = ''t1'', bkNameTenant = ''acme'', bkName = Some (replicate 32 2)\<rparr>"
    using d by (simp add: Served_For_def NewServed_def DefaultTenant_def sample_file_def sample_ring_def del: replicate.simps)
  ultimately show ?thesis using a by blast
qed

theorem bucket_keys_owned_witness:
  "\<exists>f bk. Activate ''acme'' '''' sample_file = Inr f \<and> Served_For (NewServed f) ''acme-logs'' = Inr bk \<and>
    bkTenant bk = ''acme'' \<and> bkKID bk = ''t1'' \<and> ''t1'' \<notin> set (KIDs (fDefault f)) \<and>
    (\<exists>a w. ObjectAAD ''t1'' ''acme-logs'' ''o'' = Inr a \<and>
      Served_Wrap (Inr (replicate 12 0)) (NewServed f) ''t1'' (replicate 32 5) a = Inr w \<and>
      Served_Unwrap (NewServed f) ''t1'' w a = Inr (replicate 32 5))"
proof -
  let ?bk = "\<lparr>bkTenant = ''acme'', bkKID = ''t1'', bkNameTenant = ''acme'', bkName = Some (replicate 32 2)\<rparr>"
  obtain f where f: "Activate ''acme'' '''' sample_file = Inr f" "file_reach f" "Served_For (NewServed f) ''acme-logs'' = Inr ?bk"
      "Directory_Tenant (File_Directory f) ''acme-logs'' = (''acme'', False)"
    using sample_active by blast
  have n: "''acme'' \<noteq> DefaultTenant" "''acme'' \<noteq> (''default'' :: string)" by (simp_all add: DefaultTenant_def)
  from bucket_keys_owned [OF f(2,3), of "''o''" "replicate 12 0" "replicate 32 5"] f(4) n
  show ?thesis using f(1,3) by (auto simp del: replicate.simps set_KIDs split: if_splits)
qed

end
