(* ===== verification/SegmentFormat.thy ===== *)
theory SegmentFormat
  imports Prelude
begin

text \<open>
  The segment format of \<open>internal/crypto/stream\<close>: the constants and parameters of \<open>format.go\<close>, the
  32-byte segment header of \<open>header.go\<close> and the integrity errors of \<open>errors.go\<close>. Fixed-size Go arrays
  are byte lists; \<open>wf_header\<close> records their lengths and that \<open>raw\<close> is the wire form of the fields.
\<close>

section \<open>Constants and parameters\<close>

definition HeaderSize :: nat where [simp]: "HeaderSize = 32"
definition TagSize :: nat where [simp]: "TagSize = 16"
definition NonceSize :: nat where [simp]: "NonceSize = 12"
definition SaltSize :: nat where [simp]: "SaltSize = 20"
definition KeySize :: nat where [simp]: "KeySize = 32"
definition FormatVersion :: byte where [simp]: "FormatVersion = 1"
definition MinLog2ChunkSize :: byte where [simp]: "MinLog2ChunkSize = 12"
definition MaxLog2ChunkSize :: byte where [simp]: "MaxLog2ChunkSize = 20"
definition MaxParts :: nat where [simp]: "MaxParts = 10000"
definition MaxPlaintextSize :: int where [simp]: "MaxPlaintextSize = 2 ^ 46"
definition AnyChunkSize :: byte where [simp]: "AnyChunkSize = 0"
definition flagMultipart :: byte where [simp]: "flagMultipart = 1"

definition segMagic :: bytes where
  "segMagic = bytes_of ''BLBK''"

definition offMagic :: nat where [simp]: "offMagic = 0"
definition offVersion :: nat where [simp]: "offVersion = 4"
definition offLog2C :: nat where [simp]: "offLog2C = 5"
definition offFlags :: nat where [simp]: "offFlags = 6"
definition offReserved :: nat where [simp]: "offReserved = 7"
definition offIndex :: nat where [simp]: "offIndex = 8"
definition offSalt :: nat where [simp]: "offSalt = 12"

record SegmentParams =
  Log2ChunkSize :: byte
  Multipart :: bool
  Index :: "32 word"

definition integrityf :: "kind \<Rightarrow> string \<Rightarrow> err" where
  "integrityf k d = IntegrityError k d (-1)"

definition chunkErrorf :: "64 word \<Rightarrow> string \<Rightarrow> err" where
  "chunkErrorf i d =
     IntegrityError KindChunk d (if unat i \<le> 2 ^ 63 - 1 then int (unat i) else -1)"

definition ValidateLog2ChunkSize :: "byte \<Rightarrow> err option" where
  "ValidateLog2ChunkSize log2C =
     (if log2C < MinLog2ChunkSize \<or> log2C > MaxLog2ChunkSize
      then Some (Errorf ''stream: log2 chunk size %d outside %d..%d'' []) else None)"

definition validateIdentity :: "SegmentParams \<Rightarrow> err option" where
  "validateIdentity p =
     (if Multipart p then
        (if Index p < 1 \<or> Index p > word_of_nat MaxParts
         then Some (Errorf ''stream: multipart segment index %d outside 1..%d'' []) else None)
      else if Index p \<noteq> 0
      then Some (Errorf ''stream: single-part segment must have index 0, got %d'' []) else None)"

definition Validate :: "SegmentParams \<Rightarrow> err option" where
  "Validate p =
     (case ValidateLog2ChunkSize (Log2ChunkSize p) of Some e \<Rightarrow> Some e | None \<Rightarrow> validateIdentity p)"

definition validateExpectation :: "SegmentParams \<Rightarrow> err option" where
  "validateExpectation p =
     (case (if Log2ChunkSize p \<noteq> AnyChunkSize then ValidateLog2ChunkSize (Log2ChunkSize p) else None) of
        Some e \<Rightarrow> Some e | None \<Rightarrow> validateIdentity p)"

definition ChunkSize :: "SegmentParams \<Rightarrow> int" where
  "ChunkSize p = shl64 1 (unat (Log2ChunkSize p))"

section \<open>The segment header\<close>

record header =
  hparams :: SegmentParams
  hsalt :: bytes
  raw :: bytes

definition SaltFromHeader :: "bytes \<Rightarrow> bytes \<times> bool" where
  "SaltFromHeader b =
     (if length b < HeaderSize then (replicate SaltSize 0, False)
      else (slice offSalt (offSalt + SaltSize) b, True))"

text \<open>
  \<open>newHeaderWithSalt\<close> fills the wire form field by field. \<open>newHeader\<close> draws the salt from
  \<open>crypto/rand\<close>, whose answer is the argument \<open>rnd\<close>.
\<close>

definition newHeaderWithSalt :: "SegmentParams \<Rightarrow> bytes \<Rightarrow> header result" where
  "newHeaderWithSalt p salt =
     echeck (Validate p)
       (let r0 = replicate HeaderSize 0;
            r1 = copy_at offMagic segMagic r0;
            r2 = r1[offVersion := FormatVersion];
            r3 = r2[offLog2C := Log2ChunkSize p];
            r4 = (if Multipart p then r3[offFlags := flagMultipart] else r3);
            r5 = r4[offReserved := 0];
            r6 = copy_at offIndex (be_bytes 4 (unat (Index p))) r5;
            r7 = copy_at offSalt salt r6
        in Inr \<lparr>hparams = p, hsalt = salt, raw = r7\<rparr>)"

definition newHeader :: "SegmentParams \<Rightarrow> bytes result \<Rightarrow> header result" where
  "newHeader p rnd = echeck (Validate p) (ebind rnd (\<lambda>salt. newHeaderWithSalt p salt))"

definition parseHeader :: "bytes \<Rightarrow> header result" where
  "parseHeader b =
     (if length b \<noteq> HeaderSize
      then Inl (integrityf KindHeader ''header is %d bytes, want %d'')
      else if slice offMagic (offMagic + length segMagic) b \<noteq> segMagic
      then Inl (integrityf KindHeader ''bad magic %q'')
      else if b ! offVersion \<noteq> FormatVersion
      then Inl (integrityf KindHeader ''unsupported format version %d'')
      else if ValidateLog2ChunkSize (b ! offLog2C) \<noteq> None
      then Inl (integrityf KindHeader ''%v'')
      else if b ! offReserved \<noteq> 0
      then Inl (integrityf KindHeader ''reserved byte is %#02x, want 0x00'')
      else if b ! offFlags AND NOT flagMultipart \<noteq> 0
      then Inl (integrityf KindHeader ''undefined flag bits set: %#02x'')
      else let p = \<lparr>Log2ChunkSize = b ! offLog2C,
                    Multipart = b ! offFlags AND flagMultipart \<noteq> 0,
                    Index = word_of_nat (be_nat (slice offIndex (offIndex + 4) b))\<rparr>
           in if Validate p \<noteq> None then Inl (integrityf KindHeader ''%v'')
              else Inr \<lparr>hparams = p, hsalt = slice offSalt (offSalt + SaltSize) b, raw = b\<rparr>)"

text \<open>\<open>Header\<close> and \<open>DecodeHeader\<close>: what a header claims, read without key material.\<close>

record HeaderReport =
  rMagic :: bytes
  rVersion :: byte
  rParams :: SegmentParams
  rSalt :: bytes

definition DecodeHeader :: "bytes \<Rightarrow> HeaderReport result" where
  "DecodeHeader b =
     ebind (parseHeader b)
       (\<lambda>h. Inr \<lparr>rMagic = slice offMagic (offMagic + length segMagic) (raw h),
                 rVersion = raw h ! offVersion, rParams = hparams h, rSalt = hsalt h\<rparr>)"

definition requireParams :: "header \<Rightarrow> SegmentParams \<Rightarrow> err option" where
  "requireParams h want =
     (if Log2ChunkSize want \<noteq> AnyChunkSize \<and> Log2ChunkSize (hparams h) \<noteq> Log2ChunkSize want
      then Some (integrityf KindHeader ''chunk size 2^%d, want 2^%d'')
      else if Multipart (hparams h) \<noteq> Multipart want
      then Some (integrityf KindHeader ''multipart flag is %t, want %t'')
      else if Index (hparams h) \<noteq> Index want
      then Some (integrityf KindHeader ''segment index %d, want %d'')
      else None)"

definition aad :: "header \<Rightarrow> bytes" where
  "aad h = raw h"

definition chunkSize :: "header \<Rightarrow> nat" where
  "chunkSize h = 2 ^ unat (Log2ChunkSize (hparams h))"

section \<open>The wire layout\<close>

lemma length_segMagic [simp]: "length segMagic = 4"
  by (simp add: segMagic_def)

definition header_layout :: "SegmentParams \<Rightarrow> bytes \<Rightarrow> bytes" where
  "header_layout p salt =
     segMagic @ [FormatVersion, Log2ChunkSize p, if Multipart p then flagMultipart else 0, 0] @
     be_bytes 4 (unat (Index p)) @ salt"

lemma length_header_layout [simp]: "length (header_layout p salt) = 12 + length salt"
  by (simp add: header_layout_def)

text \<open>A header as the code builds or accepts it: valid parameters, a salt, and their wire form.\<close>

definition wf_header :: "header \<Rightarrow> bool" where
  "wf_header h \<longleftrightarrow> Validate (hparams h) = None \<and> length (hsalt h) = SaltSize \<and>
     raw h = header_layout (hparams h) (hsalt h)"

lemma newHeaderWithSalt_eq:
  assumes "length salt = SaltSize"
  shows "newHeaderWithSalt p salt =
    echeck (Validate p) (Inr \<lparr>hparams = p, hsalt = salt, raw = header_layout p salt\<rparr>)"
proof -
  have r0: "replicate 32 (0 :: byte) = replicate 4 0 @ [0, 0, 0, 0] @ replicate 4 0 @ replicate 20 0"
    by (simp add: numeral_eq_Suc)
  have "copy_at 0 segMagic (replicate 32 (0 :: byte)) =
      segMagic @ [0, 0, 0, 0] @ replicate 4 0 @ replicate 20 0"
    unfolding r0 by (simp add: copy_at_def)
  moreover have "copy_at 8 (be_bytes 4 (unat (Index p))) (segMagic @ [a, b, c, d] @ replicate 4 0 @ replicate 20 0)
      = segMagic @ [a, b, c, d] @ be_bytes 4 (unat (Index p)) @ replicate 20 0" for a b c d
    by (simp add: copy_at_def)
  moreover have "copy_at 12 salt (segMagic @ [a, b, c, d] @ be_bytes 4 (unat (Index p)) @ replicate 20 0)
      = segMagic @ [a, b, c, d] @ be_bytes 4 (unat (Index p)) @ salt" for a b c d
    using assms by (simp add: copy_at_def)
  ultimately show ?thesis
    by (simp add: newHeaderWithSalt_def header_layout_def list_update_append Let_def del: append.simps)
qed

lemma newHeader_wf:
  assumes "newHeader p (Inr salt) = Inr h" and "length salt = SaltSize"
  shows "wf_header h \<and> hparams h = p \<and> hsalt h = salt"
  using assms by (auto simp: newHeader_def newHeaderWithSalt_eq wf_header_def result_simps)

lemma newHeader_ok:
  assumes "Validate p = None" and "length salt = SaltSize"
  shows "newHeader p (Inr salt) = Inr \<lparr>hparams = p, hsalt = salt, raw = header_layout p salt\<rparr>"
  using assms by (simp add: newHeader_def newHeaderWithSalt_eq)

lemma header_split:
  assumes "length b = 32"
  obtains m v l f r ix sl where "b = m @ [v, l, f, r] @ ix @ sl" "length m = 4" "length ix = 4"
    "length sl = (20 :: nat)"
proof -
  have "drop 4 b = b ! 4 # b ! 5 # b ! 6 # b ! 7 # drop 8 b"
    using assms by (simp add: drop_nth_Cons)
  then have "b = take 4 b @ [b ! 4, b ! 5, b ! 6, b ! 7] @ take 4 (drop 8 b) @ drop 12 b"
    using append_take_drop_id [of 4 b] append_take_drop_id [of 4 "drop 8 b"] by simp
  then show ?thesis
    using assms by (intro that [of "take 4 b" _ _ _ _ "take 4 (drop 8 b)" "drop 12 b"]) auto
qed

lemma flag_bits:
  fixes f :: byte
  assumes "f AND - 2 = 0"
  shows "f = (if f AND 1 \<noteq> 0 then 1 else 0)"
proof -
  have "f = (f AND 1) OR (f AND - 2)"
    using bit.conj_disj_distrib [of f 1 "NOT 1"] by simp
  then have "f = f AND 1"
    using assms by simp
  moreover have "f AND 1 = of_bool (odd f)"
    by (simp add: and_one_eq mod_2_eq_odd)
  ultimately show ?thesis
    by (cases "odd f") auto
qed

text \<open>\<open>parseHeader\<close> on the concatenation of the fields.\<close>

lemma parseHeader_fields:
  assumes "length m = 4" "length ix = 4" "length sl = (20 :: nat)"
  shows "parseHeader (m @ v # l # f # r # ix @ sl) =
    (if m \<noteq> segMagic then Inl (integrityf KindHeader ''bad magic %q'')
     else if v \<noteq> 1 then Inl (integrityf KindHeader ''unsupported format version %d'')
     else if ValidateLog2ChunkSize l \<noteq> None then Inl (integrityf KindHeader ''%v'')
     else if r \<noteq> 0 then Inl (integrityf KindHeader ''reserved byte is %#02x, want 0x00'')
     else if f AND - 2 \<noteq> 0 then Inl (integrityf KindHeader ''undefined flag bits set: %#02x'')
     else let p = \<lparr>Log2ChunkSize = l, Multipart = f AND 1 \<noteq> 0, Index = word_of_nat (be_nat ix)\<rparr>
          in if Validate p \<noteq> None then Inl (integrityf KindHeader ''%v'')
             else Inr \<lparr>hparams = p, hsalt = sl, raw = m @ v # l # f # r # ix @ sl\<rparr>)"
  using assms by (simp add: parseHeader_def slice_def nth_append Let_def)

lemma word_of_nat_be4 [simp]: "word_of_nat (be_nat (be_bytes 4 (unat w))) = (w :: 32 word)"
  using unat_word32_be [of w] by simp

lemma be_bytes4_of_word [simp]:
  "length ix = 4 \<Longrightarrow> be_bytes 4 (unat (word_of_nat (be_nat ix) :: 32 word)) = ix"
proof -
  assume l: "length ix = 4"
  then have "be_nat ix < 2 ^ 32"
    using be_nat_lt [of ix] by simp
  then have "unat (word_of_nat (be_nat ix) :: 32 word) = be_nat ix"
    by (simp add: unat_of_nat)
  with l show ?thesis by (simp add: be_bytes_be_nat)
qed

lemma parseHeader_layout:
  assumes "Validate p = None" and "length salt = SaltSize"
  shows "parseHeader (header_layout p salt) =
    Inr \<lparr>hparams = p, hsalt = salt, raw = header_layout p salt\<rparr>"
proof -
  have v: "ValidateLog2ChunkSize (Log2ChunkSize p) = None"
    using assms(1) by (auto simp: Validate_def split: option.splits)
  show ?thesis
    using assms v
    by (cases p; cases "Multipart p") (auto simp: header_layout_def parseHeader_fields Let_def)
qed

lemma parseHeader_wf:
  assumes "parseHeader b = Inr h"
  shows "wf_header h \<and> raw h = b"
proof -
  have "length b = 32"
    using assms by (auto simp: parseHeader_def split: if_splits)
  then obtain m v l f r ix sl where b: "b = m @ [v, l, f, r] @ ix @ sl" "length m = 4"
    "length ix = 4" "length sl = (20 :: nat)"
    by (rule header_split)
  let ?p = "\<lparr>Log2ChunkSize = l, Multipart = f AND 1 \<noteq> 0, Index = word_of_nat (be_nat ix)\<rparr>"
  from assms b have "m = segMagic" "v = 1" "r = 0" "f AND - 2 = 0" "Validate ?p = None"
    "h = \<lparr>hparams = ?p, hsalt = sl, raw = b\<rparr>"
    by (auto simp: parseHeader_fields Let_def split: if_splits)
  with b flag_bits [of f] show ?thesis
    by (auto simp: wf_header_def header_layout_def)
qed

lemma parseHeader_raw: "wf_header h \<Longrightarrow> parseHeader (raw h) = Inr h"
  by (cases h) (auto simp: wf_header_def parseHeader_layout)

lemma wf_header_length [simp]: "wf_header h \<Longrightarrow> length (raw h) = 32"
  by (simp add: wf_header_def)

lemma header_layout_inj:
  assumes "length s = length t" and "header_layout p s = header_layout q t"
  shows "p = q \<and> s = t"
proof -
  have "Log2ChunkSize p = Log2ChunkSize q" "Multipart p = Multipart q"
    "be_bytes 4 (unat (Index p)) = be_bytes 4 (unat (Index q))" "s = t"
    using assms by (auto simp: header_layout_def split: if_splits)
  then show ?thesis
    by (cases p; cases q) auto
qed

lemma requireParams_self: "requireParams h want = None \<longleftrightarrow>
    (Log2ChunkSize want = AnyChunkSize \<or> Log2ChunkSize (hparams h) = Log2ChunkSize want) \<and>
    Multipart (hparams h) = Multipart want \<and> Index (hparams h) = Index want"
  by (auto simp: requireParams_def)

lemma ValidateLog2_bounds:
  "ValidateLog2ChunkSize l = None \<longleftrightarrow> 12 \<le> unat l \<and> unat l \<le> 20"
  by (auto simp: ValidateLog2ChunkSize_def word_less_nat_alt not_less)

lemma Validate_bounds: "Validate p = None \<Longrightarrow> 12 \<le> unat (Log2ChunkSize p) \<and> unat (Log2ChunkSize p) \<le> 20"
  by (auto simp: Validate_def ValidateLog2_bounds split: option.splits)

end
