(* ===== verification/SegmentSize.thy ===== *)
theory SegmentSize
  imports SegmentFormat
begin

text \<open>
  The size arithmetic of \<open>internal/crypto/stream/size.go\<close>, at its width of 64 bits: the ciphertext
  size of a segment or of a run of segments from its plaintext size, and back. The lemmas show that
  no accepted input overflows, and that the inverse accepts exactly the sizes the encoder produces.
\<close>

section \<open>The code\<close>

definition maxSealedPayload :: int where [simp]: "maxSealedPayload = 2 ^ 47"

definition ChunkCount :: "int \<Rightarrow> byte \<Rightarrow> int" where
  "ChunkCount plain log2C =
     (let c = shl64 1 (unat log2C);
          n = quot64 (sub64 (add64 plain c) 1) c
      in if n > 0 then n else 1)"

definition validateSegmentCount :: "int \<Rightarrow> err option" where
  "validateSegmentCount segments =
     (if segments < 1 \<or> segments > int MaxParts
      then Some (Errorf ''stream: segment count %d outside 1..%d'' []) else None)"

definition SealedSizeSegments :: "int \<Rightarrow> byte \<Rightarrow> int \<Rightarrow> int result" where
  "SealedSizeSegments plain log2C segments =
     echeck (ValidateLog2ChunkSize log2C)
       (echeck (validateSegmentCount segments)
         (if plain < 0 \<or> plain > MaxPlaintextSize
          then Inl (Errorf ''stream: plaintext size %d outside 0..%d'' [])
          else let chunks0 = quot64 (sub64 (add64 plain (shl64 1 (unat log2C))) 1)
                                    (shl64 1 (unat log2C));
                   chunks = (if chunks0 < segments then segments else chunks0)
               in Inr (add64 (add64 (mul64 (int HeaderSize) segments) plain)
                             (mul64 (int TagSize) chunks))))"

definition SealedSize :: "int \<Rightarrow> byte \<Rightarrow> int result" where
  "SealedSize plain log2C = SealedSizeSegments plain log2C 1"

definition OpenedSizeSegments :: "int \<Rightarrow> byte \<Rightarrow> int \<Rightarrow> int result" where
  "OpenedSizeSegments sealed log2C segments =
     echeck (ValidateLog2ChunkSize log2C)
       (echeck (validateSegmentCount segments)
         (let minimum = add64 (mul64 (int HeaderSize) segments) (int TagSize) in
          if sealed < minimum
          then Inl (integrityf KindSize ''ciphertext size %d is below the minimum %d for %d segment(s)'')
          else if sealed > maxSealedPayload
          then Inl (integrityf KindSize ''ciphertext size %d exceeds the supported maximum'')
          else
            let stride = add64 (shl64 1 (unat log2C)) (int TagSize);
                payload = sub64 sealed (mul64 (int HeaderSize) segments);
                r = rem64 payload stride in
            if payload \<noteq> int TagSize \<and> r \<ge> 1 \<and> r \<le> int TagSize
            then Inl (integrityf KindSize ''ciphertext size %d leaves remainder %d, which no encoder produces'')
            else
              let chunks = quot64 (sub64 (add64 payload stride) 1) stride;
                  plain = sub64 payload (mul64 (int TagSize) chunks) in
              if plain < 0
              then Inl (integrityf KindSize ''ciphertext size %d yields a negative plaintext size'')
              else if SealedSizeSegments plain log2C segments \<noteq> Inr sealed
              then Inl (integrityf KindSize
                ''ciphertext size %d corresponds to no plaintext size for %d segment(s)'')
              else Inr plain))"

definition OpenedSize :: "int \<Rightarrow> byte \<Rightarrow> int result" where
  "OpenedSize sealed log2C = OpenedSizeSegments sealed log2C 1"

section \<open>The arithmetic without a width\<close>

definition cdiv :: "int \<Rightarrow> int \<Rightarrow> int" where
  "cdiv x c = (x + c - 1) div c"

definition chunk_bytes :: "byte \<Rightarrow> int" where
  "chunk_bytes log2C = 2 ^ unat log2C"

definition sealed_size :: "int \<Rightarrow> int \<Rightarrow> int \<Rightarrow> int" where
  "sealed_size plain c segments = 32 * segments + plain + 16 * max (cdiv plain c) segments"

lemma cdiv_iff: "0 < c \<Longrightarrow> cdiv x c = n \<longleftrightarrow> (n - 1) * c < x \<and> x \<le> n * c"
proof -
  assume c: "0 < c"
  let ?y = "x + c - 1"
  have b: "?y div c * c \<le> ?y" "?y < ?y div c * c + c"
    using c div_mult_mod_eq [of ?y c] pos_mod_bound [of c ?y] pos_mod_sign [of c ?y] by linarith+
  have "?y div c = n \<longleftrightarrow> n * c \<le> ?y \<and> ?y < n * c + c"
  proof
    assume "n * c \<le> ?y \<and> ?y < n * c + c"
    then show "?y div c = n"
      by (intro int_div_pos_eq [of _ _ _ "?y - n * c"]) (auto simp: algebra_simps)
  qed (use b in auto)
  then show ?thesis
    by (auto simp: cdiv_def algebra_simps)
qed

lemma cdiv_nonneg: "0 < c \<Longrightarrow> 0 \<le> x \<Longrightarrow> 0 \<le> cdiv x c"
  by (simp add: cdiv_def pos_imp_zdiv_nonneg_iff)

lemma cdiv_le: "0 < c \<Longrightarrow> 0 \<le> x \<Longrightarrow> x \<le> n * c \<Longrightarrow> cdiv x c \<le> n"
proof (rule ccontr)
  assume c: "0 < c" "0 \<le> x" "x \<le> n * c" and "\<not> cdiv x c \<le> n"
  then have "n \<le> cdiv x c - 1" by simp
  then have "n * c \<le> (cdiv x c - 1) * c"
    using c by (intro mult_right_mono) auto
  moreover have "(cdiv x c - 1) * c < x"
    using cdiv_iff [of c x "cdiv x c"] c by simp
  ultimately show False using c by linarith
qed

text \<open>The bounds of a permitted chunk size.\<close>

lemma chunk_bytes_bounds:
  assumes "ValidateLog2ChunkSize l = None"
  shows "4096 \<le> chunk_bytes l" and "chunk_bytes l \<le> 2 ^ 20" and "shl64 1 (unat l) = chunk_bytes l"
proof -
  have l: "12 \<le> unat l" "unat l \<le> 20"
    using assms by (simp_all add: ValidateLog2_bounds)
  have "(2 :: int) ^ 12 \<le> 2 ^ unat l" "(2 :: int) ^ unat l \<le> 2 ^ 20"
    by (rule power_increasing; use l in simp)+
  then show "4096 \<le> chunk_bytes l" and "chunk_bytes l \<le> 2 ^ 20"
    by (simp_all add: chunk_bytes_def)
  then show "shl64 1 (unat l) = chunk_bytes l"
    by (simp add: shl64_def chunk_bytes_def in64_def)
qed

lemma validateSegmentCount_None [simp]:
  "validateSegmentCount n = None \<longleftrightarrow> 1 \<le> n \<and> n \<le> 10000"
  by (auto simp: validateSegmentCount_def)

lemma cdiv_bound:
  assumes "4096 \<le> c" and "0 \<le> x" and "x \<le> 2 ^ 47"
  shows "0 \<le> cdiv x c" and "cdiv x c \<le> 2 ^ 35"
proof -
  show "0 \<le> cdiv x c"
    using assms by (intro cdiv_nonneg) auto
  have "x \<le> 2 ^ 35 * c"
    using assms mult_left_mono [of 4096 c "2 ^ 35"] by simp
  then show "cdiv x c \<le> 2 ^ 35"
    using assms by (intro cdiv_le) auto
qed

text \<open>No intermediate value of an accepted input leaves the 64-bit range.\<close>

lemma SealedSizeSegments_eq:
  assumes "ValidateLog2ChunkSize l = None" and "1 \<le> n" "n \<le> 10000"
    and "0 \<le> plain" "plain \<le> 2 ^ 46"
  shows "SealedSizeSegments plain l n = Inr (sealed_size plain (chunk_bytes l) n)"
proof -
  let ?c = "chunk_bytes l"
  note b = chunk_bytes_bounds [OF assms(1)]
  have q: "quot64 (plain + ?c - 1) ?c = cdiv plain ?c"
    using assms b by (subst quot64_nonneg) (auto simp: cdiv_def in64_def)
  note cb = cdiv_bound [of ?c plain]
  have m: "max (cdiv plain ?c) n \<le> 2 ^ 35" "0 \<le> max (cdiv plain ?c) n"
    using assms b cb by auto
  have "(if cdiv plain ?c < n then n else cdiv plain ?c) = max (cdiv plain ?c) n"
    by (simp add: max_def)
  moreover have "add64 plain ?c = plain + ?c" "sub64 (plain + ?c) 1 = plain + ?c - 1"
    "mul64 32 n = 32 * n" "mul64 16 (max (cdiv plain ?c) n) = 16 * max (cdiv plain ?c) n"
    "add64 (32 * n) plain = 32 * n + plain"
    "add64 (32 * n + plain) (16 * max (cdiv plain ?c) n) = 32 * n + plain + 16 * max (cdiv plain ?c) n"
    using assms b m by (auto simp: add64_def sub64_def mul64_def in64_def)
  ultimately show ?thesis
    using assms b q validateSegmentCount_None [THEN iffD2, of n]
    by (simp add: SealedSizeSegments_def sealed_size_def Let_def del: validateSegmentCount_None)
qed

lemma SealedSizeSegments_Inr:
  assumes "SealedSizeSegments plain l n = Inr s"
  shows "ValidateLog2ChunkSize l = None \<and> 1 \<le> n \<and> n \<le> 10000 \<and> 0 \<le> plain \<and> plain \<le> 2 ^ 46 \<and>
    s = sealed_size plain (chunk_bytes l) n"
proof -
  have c: "ValidateLog2ChunkSize l = None" "1 \<le> n" "n \<le> 10000" "0 \<le> plain" "plain \<le> 2 ^ 46"
    using assms by (auto simp: SealedSizeSegments_def echeck_eq_Inr split: if_splits)
  with assms SealedSizeSegments_eq [OF c] show ?thesis by simp
qed

section \<open>The inverse\<close>

text \<open>
  Between a plaintext of \<open>n\<close> chunks and its payload: the payload lies strictly between \<open>n - 1\<close>
  strides plus a tag and \<open>n\<close> strides, so its stride count is \<open>n\<close> and its remainder is outside the
  band of 1 to 16 that no encoder produces.
\<close>

lemma payload_chunks:
  assumes c: "0 < c" and n: "cdiv plain c = n" and "0 < plain"
  shows "cdiv (plain + 16 * n) (c + 16) = n"
    and "\<not> (1 \<le> (plain + 16 * n) mod (c + 16) \<and> (plain + 16 * n) mod (c + 16) \<le> 16)"
proof -
  have p: "(n - 1) * c < plain" "plain \<le> n * c"
    using cdiv_iff [OF c, of plain n] n by auto
  have pay: "plain + 16 * n = (n - 1) * (c + 16) + (plain - (n - 1) * c + 16)"
    by (simp add: algebra_simps)
  show "cdiv (plain + 16 * n) (c + 16) = n"
    using p c by (subst cdiv_iff) (auto simp: algebra_simps)
  show "\<not> (1 \<le> (plain + 16 * n) mod (c + 16) \<and> (plain + 16 * n) mod (c + 16) \<le> 16)"
  proof (cases "plain = n * c")
    case True
    then have "plain + 16 * n = n * (c + 16)" by (simp add: algebra_simps)
    then show ?thesis by simp
  next
    case False
    have "(plain + 16 * n) mod (c + 16) = (plain - (n - 1) * c + 16) mod (c + 16)"
      unfolding pay by simp
    also have "\<dots> = plain - (n - 1) * c + 16"
      using p False c by (intro mod_pos_pos_trivial) (auto simp: algebra_simps)
    finally show ?thesis using p by simp
  qed
qed

text \<open>When a size is one the format produces: no segment of a run is empty, or there is one.\<close>

definition produced :: "int \<Rightarrow> int \<Rightarrow> int \<Rightarrow> bool" where
  "produced plain c n \<longleftrightarrow> n \<le> cdiv plain c \<or> (n = 1 \<and> plain = 0)"

lemma opened_arith:
  assumes "ValidateLog2ChunkSize l = None" and "1 \<le> n" "n \<le> 10000"
    and "32 * n + 16 \<le> sealed" and "sealed \<le> 2 ^ 47"
  defines "payload \<equiv> sealed - 32 * n" and "stride \<equiv> chunk_bytes l + 16"
  shows "add64 (mul64 32 n) 16 = 32 * n + 16"
    and "sub64 sealed (mul64 32 n) = payload"
    and "add64 (chunk_bytes l) 16 = stride"
    and "rem64 payload stride = payload mod stride"
    and "quot64 (sub64 (add64 payload stride) 1) stride = cdiv payload stride"
    and "sub64 payload (mul64 16 (cdiv payload stride)) = payload - 16 * cdiv payload stride"
proof -
  note b = chunk_bytes_bounds [OF assms(1)]
  have st: "4096 \<le> stride" "stride \<le> 2 ^ 21"
    using b by (auto simp: stride_def)
  have pl: "16 \<le> payload" "payload \<le> 2 ^ 47"
    using assms by (auto simp: payload_def)
  note cb = cdiv_bound [of stride payload]
  have cd: "0 \<le> cdiv payload stride" "cdiv payload stride \<le> 2 ^ 35"
    using st pl cb by auto
  have m: "mul64 32 n = 32 * n"
    using assms by (simp add: mul64_def in64_def)
  show "add64 (mul64 32 n) 16 = 32 * n + 16" "sub64 sealed (mul64 32 n) = payload"
    "add64 (chunk_bytes l) 16 = stride"
    using assms b m by (auto simp: add64_def sub64_def in64_def)
  show "rem64 payload stride = payload mod stride"
    using st pl by (simp add: rem64_nonneg)
  show "quot64 (sub64 (add64 payload stride) 1) stride = cdiv payload stride"
    using st pl by (simp add: add64_def sub64_def in64_def quot64_nonneg cdiv_def)
  show "sub64 payload (mul64 16 (cdiv payload stride)) = payload - 16 * cdiv payload stride"
    using cd pl by (simp add: sub64_def mul64_def in64_def)
qed

lemma OpenedSizeSegments_unfold:
  assumes "ValidateLog2ChunkSize l = None" and "1 \<le> n" "n \<le> 10000"
    and "32 * n + 16 \<le> sealed" and "sealed \<le> 2 ^ 47"
  defines "payload \<equiv> sealed - 32 * n" and "stride \<equiv> chunk_bytes l + 16"
  defines "plain \<equiv> payload - 16 * cdiv payload stride"
  shows "OpenedSizeSegments sealed l n = Inr p \<longleftrightarrow>
    \<not> (payload \<noteq> 16 \<and> 1 \<le> payload mod stride \<and> payload mod stride \<le> 16) \<and> 0 \<le> plain \<and>
    SealedSizeSegments plain l n = Inr sealed \<and> p = plain"
  using opened_arith [OF assms(1-5)] chunk_bytes_bounds(3) [OF assms(1)] assms(1-5)
    validateSegmentCount_None [THEN iffD2, of n]
  by (auto simp: OpenedSizeSegments_def Let_def payload_def stride_def plain_def
      simp del: validateSegmentCount_None)

lemma OpenedSizeSegments_range:
  assumes "OpenedSizeSegments sealed l n = Inr p"
  shows "ValidateLog2ChunkSize l = None \<and> 1 \<le> n \<and> n \<le> 10000 \<and> 32 * n + 16 \<le> sealed \<and> sealed \<le> 2 ^ 47"
proof -
  have c: "ValidateLog2ChunkSize l = None" "1 \<le> n" "n \<le> 10000" "add64 (mul64 32 n) 16 \<le> sealed"
    "sealed \<le> 2 ^ 47"
    using assms by (auto simp: OpenedSizeSegments_def echeck_eq_Inr Let_def split: if_splits)
  have "add64 (mul64 32 n) 16 = 32 * n + 16"
    using c by (simp add: add64_def mul64_def in64_def)
  with c show ?thesis by simp
qed

lemma OpenedSizeSegments_sound:
  assumes "OpenedSizeSegments sealed l n = Inr p"
  shows "SealedSizeSegments p l n = Inr sealed \<and> produced p (chunk_bytes l) n"
proof -
  let ?c = "chunk_bytes l" and ?pay = "sealed - 32 * n"
  note r = OpenedSizeSegments_range [OF assms]
  have c0: "0 < ?c" "0 < ?c + 16"
    using chunk_bytes_bounds(1) [of l] r by linarith+
  note u = OpenedSizeSegments_unfold [of l n sealed p]
  from u r assms have band: "\<not> (?pay \<noteq> 16 \<and> 1 \<le> ?pay mod (?c + 16) \<and> ?pay mod (?c + 16) \<le> 16)"
    and s: "SealedSizeSegments p l n = Inr sealed" and p: "p = ?pay - 16 * cdiv ?pay (?c + 16)"
    and nn: "0 \<le> p"
    by auto
  have chunks: "max (cdiv p ?c) n = cdiv ?pay (?c + 16)"
    using SealedSizeSegments_Inr [OF s] p by (simp add: sealed_size_def)
  have "produced p ?c n"
  proof (cases "n \<le> cdiv p ?c")
    case True
    then show ?thesis by (simp add: produced_def)
  next
    case False
    then have "cdiv ?pay (?c + 16) = n" using chunks by simp
    with p cdiv_iff [OF c0(2), of ?pay n] have pay: "?pay = p + 16 * n" "(n - 1) * (?c + 16) < ?pay"
      by auto
    have "cdiv p ?c * ?c \<le> (n - 1) * ?c"
      using False c0 by (intro mult_right_mono) auto
    then have le: "p \<le> (n - 1) * ?c"
      using cdiv_iff [OF c0(1), of p "cdiv p ?c"] by linarith
    define d where "d = p - (n - 1) * ?c + 16"
    have d: "1 \<le> d" "d \<le> 16"
      using pay le by (auto simp: d_def algebra_simps)
    have "?pay = (n - 1) * (?c + 16) + d"
      using pay by (simp add: d_def algebra_simps)
    then have "?pay mod (?c + 16) = d mod (?c + 16)"
      by simp
    also have "\<dots> = d"
      using d c0 by (intro mod_pos_pos_trivial) auto
    finally have "?pay = 16"
      using band d by auto
    with pay nn r have "n = 1" "p = 0" by auto
    then show ?thesis by (simp add: produced_def)
  qed
  with s show ?thesis by blast
qed

text \<open>Every produced size is accepted, and its plaintext size returned.\<close>

lemma OpenedSizeSegments_complete:
  assumes s: "SealedSizeSegments p l n = Inr sealed" and pr: "produced p (chunk_bytes l) n"
  shows "OpenedSizeSegments sealed l n = Inr p"
proof -
  let ?c = "chunk_bytes l"
  note r = SealedSizeSegments_Inr [OF s]
  note b = chunk_bytes_bounds [of l]
  have cd: "0 \<le> cdiv p ?c" "cdiv p ?c \<le> 2 ^ 35"
    using cdiv_bound [of ?c p] b r by auto
  have le: "4096 * cdiv p ?c \<le> p + 4096"
    using cdiv_iff [of ?c p "cdiv p ?c"] b r mult_left_mono [of 4096 ?c "cdiv p ?c - 1"] cd
    by (cases "cdiv p ?c = 0") (auto simp: algebra_simps)
  have sealed: "sealed = 32 * n + p + 16 * max (cdiv p ?c) n"
    using r by (simp add: sealed_size_def)
  have bounds: "32 * n + 16 \<le> sealed" "sealed \<le> 2 ^ 47"
    using sealed r le by (auto simp: max_def)
  have "OpenedSizeSegments sealed l n = Inr p \<longleftrightarrow>
      \<not> (sealed - 32 * n \<noteq> 16 \<and> 1 \<le> (sealed - 32 * n) mod (?c + 16) \<and> (sealed - 32 * n) mod (?c + 16) \<le> 16) \<and>
      p = sealed - 32 * n - 16 * cdiv (sealed - 32 * n) (?c + 16)"
    using r s bounds by (subst OpenedSizeSegments_unfold) auto
  moreover have "cdiv (sealed - 32 * n) (?c + 16) = max (cdiv p ?c) n \<and>
      (sealed - 32 * n \<noteq> 16 \<longrightarrow>
       \<not> (1 \<le> (sealed - 32 * n) mod (?c + 16) \<and> (sealed - 32 * n) mod (?c + 16) \<le> 16))"
  proof (cases "p = 0")
    case True
    then have "n = 1" "cdiv p ?c = 0"
      using pr r b cdiv_iff [of ?c 0 0] by (auto simp: produced_def)
    then show ?thesis
      using True sealed b r cdiv_iff [of "?c + 16" 16 1] by auto
  next
    case False
    then have "n \<le> cdiv p ?c" using pr by (simp add: produced_def)
    then have "sealed - 32 * n = p + 16 * cdiv p ?c" using sealed by simp
    with payload_chunks [of ?c p "cdiv p ?c"] False r b \<open>n \<le> cdiv p ?c\<close> show ?thesis
      by auto
  qed
  ultimately show ?thesis using sealed by auto
qed

lemma OpenedSizeSegments_iff:
  "OpenedSizeSegments sealed l n = Inr p \<longleftrightarrow>
    SealedSizeSegments p l n = Inr sealed \<and> produced p (chunk_bytes l) n"
  using OpenedSizeSegments_sound OpenedSizeSegments_complete by blast

text \<open>Evaluation of the size functions on concrete numbers, through the arithmetic without a width.\<close>

lemmas size_eval = SealedSize_def OpenedSize_def OpenedSizeSegments_iff SealedSizeSegments_eq
  ValidateLog2ChunkSize_def sealed_size_def chunk_bytes_def cdiv_def produced_def

end
