(* ===== verification/ManifestFormat.thy ===== *)
theory ManifestFormat
  imports SegmentSize GoCrypto GoEncoding
begin

text \<open>
  \<open>internal/manifest\<close>: the authenticated part list of a multipart object (\<open>manifest.go\<close>) and the part
  size rules (\<open>parts.go\<close>). Fixed-size arrays are byte lists, with \<open>wf_part\<close> and \<open>wf_manifest\<close> recording
  their lengths; the bounds-checked cursor \<open>reader\<close> is the bytes it has not read yet.
\<close>

section \<open>Identifiers and locations\<close>

definition IDSize :: nat where [simp]: "IDSize = 16"
definition MACSize :: nat where [simp]: "MACSize = 32"
definition entrySize :: nat where [simp]: "entrySize = 30"
definition macKeyInfo :: string where "macKeyInfo = ''blindbucket/v1/manifest''"
definition ManifestPrefix :: string where "ManifestPrefix = ''.blindbucket/m/''"
definition ManifestMagic :: bytes where "ManifestMagic = bytes_of ''BBM2''"
definition ManifestMagicV1 :: bytes where "ManifestMagicV1 = bytes_of ''BBM1''"

definition NewID :: "bytes result \<Rightarrow> bytes result" where
  "NewID rnd = rnd"

definition ID_String :: "bytes \<Rightarrow> string" where
  "ID_String i = b64url_EncodeToString i"

definition ParseID :: "string \<Rightarrow> bytes result" where
  "ParseID s =
     ebind (emap_err (\<lambda>e. Errorf ''manifest: id is not valid base64url: %w'' [e]) (b64url_DecodeString s)) (\<lambda>rw.
       if length rw \<noteq> IDSize then Inl (Errorf ''manifest: id is %d bytes, want %d'' []) else Inr rw)"

definition PrefixFor :: "string \<Rightarrow> string" where
  "PrefixFor objectKey = ManifestPrefix @ hex_EncodeToString (sha256 (bytes_of objectKey)) @ ''/''"

definition ObjectKey :: "bytes \<Rightarrow> string \<Rightarrow> string" where
  "ObjectKey i objectKey =
     ManifestPrefix @ hex_EncodeToString (sha256 (bytes_of objectKey)) @ ''/'' @ ID_String i"

definition MatchesLocation :: "string \<Rightarrow> string \<Rightarrow> bool" where
  "MatchesLocation objectKey manifestObjectKey \<longleftrightarrow>
     take (length (PrefixFor objectKey)) manifestObjectKey = PrefixFor objectKey"

section \<open>Manifests\<close>

record Part =
  Number :: "32 word"
  PlainSize :: int
  Salt :: bytes

record Manifest =
  Bucket :: string
  MKey :: string
  MID :: bytes
  Parts :: "Part list"
  legacy :: bool

definition HasSalts :: "Manifest \<Rightarrow> bool" where
  "HasSalts m \<longleftrightarrow> \<not> legacy m"

definition ManifestPlainSize :: "Manifest \<Rightarrow> int" where
  "ManifestPlainSize m = foldl (\<lambda>total p. add64 total (PlainSize p)) 0 (Parts m)"

fun validate_parts :: "32 word option \<Rightarrow> Part list \<Rightarrow> err option" where
  "validate_parts prev [] = None"
| "validate_parts prev (p # ps) =
     (if Number p < 1 \<or> Number p > word_of_nat MaxParts
      then Some (Errorf ''manifest: part number %d outside 1..%d'' [])
      else if (case prev of None \<Rightarrow> False | Some q \<Rightarrow> Number p \<le> q)
      then Some (Errorf ''manifest: part numbers %d and %d are not ascending'' [])
      else if PlainSize p < 0 \<or> PlainSize p > MaxPlaintextSize
      then Some (Errorf ''manifest: part %d has an impossible size %d'' [])
      else validate_parts (Some (Number p)) ps)"

definition validate :: "Manifest \<Rightarrow> err option" where
  "validate m =
     (if length (Parts m) = 0 then Some (Errorf ''manifest: a multipart object has at least one part'' [])
      else if length (Parts m) > MaxParts
      then Some (Errorf ''manifest: %d parts exceeds the maximum of %d'' [])
      else if length (Bucket m) > 0xffff \<or> length (MKey m) > 0xffff
      then Some (Errorf ''manifest: bucket or key exceeds the length prefix'' [])
      else validate_parts None (Parts m))"

definition macKey :: "bytes \<Rightarrow> bytes result" where
  "macKey dek =
     (if length dek \<noteq> KeySize then Inl (Errorf ''manifest: DEK is %d bytes, want %d'' [])
      else hkdf_Key dek [] macKeyInfo KeySize)"

definition manifest_appendLP :: "bytes \<Rightarrow> string \<Rightarrow> bytes result" where
  "manifest_appendLP dst s =
     (if length s > 0xffff then Inl (Errorf ''manifest: field of %d bytes exceeds the length prefix'' [])
      else Inr (dst @ be_bytes 2 (length s) @ bytes_of s))"

definition marshal_part :: "Part \<Rightarrow> bytes" where
  "marshal_part p = be_bytes 2 (unat (Number p)) @ be_bytes 8 (nat (PlainSize p)) @ Salt p"

definition Marshal :: "Manifest \<Rightarrow> bytes \<Rightarrow> bytes result" where
  "Marshal m dek =
     echeck (validate m)
       (ebind (macKey dek) (\<lambda>key.
        ebind (manifest_appendLP ManifestMagic (Bucket m)) (\<lambda>out.
        ebind (manifest_appendLP out (MKey m)) (\<lambda>out.
          let body = out @ MID m @ be_bytes 2 (length (Parts m)) @ concat (map marshal_part (Parts m))
          in Inr (body @ hmac key body)))))"

text \<open>The cursor.\<close>

definition cnext :: "nat \<Rightarrow> bytes \<Rightarrow> (bytes \<times> bytes) option" where
  "cnext n r = (if length r < n then None else Some (take n r, drop n r))"

definition cuint :: "nat \<Rightarrow> bytes \<Rightarrow> (nat \<times> bytes) option" where
  "cuint n r = (case cnext n r of None \<Rightarrow> None | Some (b, r') \<Rightarrow> Some (be_nat b, r'))"

definition clp :: "bytes \<Rightarrow> (string \<times> bytes) option" where
  "clp r = (case cuint 2 r of None \<Rightarrow> None | Some (n, r1) \<Rightarrow>
     (case cnext n r1 of None \<Rightarrow> None | Some (b, r2) \<Rightarrow> Some (string_of b, r2)))"

definition need :: "'a option \<Rightarrow> string \<Rightarrow> 'a result" where
  "need x msg = (case x of None \<Rightarrow> Inl (Errorf msg [Sentinel ErrVerify]) | Some y \<Rightarrow> Inr y)"

fun parse_parts :: "bool \<Rightarrow> nat \<Rightarrow> bytes \<Rightarrow> (Part list \<times> bytes) result" where
  "parse_parts lg 0 r = Inr ([], r)"
| "parse_parts lg (Suc n) r =
     ebind (need (cuint 2 r) ''%w: truncated part list'') (\<lambda>(number, r1).
     ebind (need (cuint 8 r1) ''%w: truncated part list'') (\<lambda>(sz, r2).
       if sz > 2 ^ 46 then Inl (Errorf ''%w: part %d claims %d bytes'' [Sentinel ErrVerify])
       else ebind (if lg then Inr (replicate SaltSize 0, r2)
                   else need (cnext SaltSize r2) ''%w: truncated part list'') (\<lambda>(salt, r3).
            ebind (parse_parts lg n r3) (\<lambda>(ps, r4).
              Inr (\<lparr>Number = word_of_nat number, PlainSize = int sz, Salt = salt\<rparr> # ps, r4)))))"

definition parseBody :: "bytes \<Rightarrow> Manifest result" where
  "parseBody body =
     ebind (need (cnext 4 body) ''%w: truncated magic'') (\<lambda>(magic, r).
       if magic \<noteq> ManifestMagic \<and> magic \<noteq> ManifestMagicV1
       then Inl (Errorf ''%w: not a blindbucket manifest'' [Sentinel ErrVerify])
       else let lg = (magic = ManifestMagicV1) in
         ebind (need (clp r) ''%w: truncated bucket'') (\<lambda>(bucket, r).
         ebind (need (clp r) ''%w: truncated key'') (\<lambda>(key, r).
         ebind (need (cnext IDSize r) ''%w: truncated manifest id'') (\<lambda>(rawID, r).
         ebind (need (cuint 2 r) ''%w: truncated part count'') (\<lambda>(count, r).
         ebind (parse_parts lg count r) (\<lambda>(ps, r).
           if r \<noteq> [] then Inl (Errorf ''%w: %d trailing bytes'' [Sentinel ErrVerify])
           else Inr \<lparr>Bucket = bucket, MKey = key, MID = rawID, Parts = ps, legacy = lg\<rparr>))))))"

definition Unmarshal :: "bytes \<Rightarrow> bytes \<Rightarrow> string \<Rightarrow> string \<Rightarrow> bytes \<Rightarrow> Manifest result" where
  "Unmarshal rw dek bucket key i =
     ebind (macKey dek) (\<lambda>key2.
       if length rw < 4 + MACSize
       then Inl (Errorf ''%w: %d bytes is too short to be a manifest'' [Sentinel ErrVerify])
       else let body = take (length rw - MACSize) rw; want = drop (length rw - MACSize) rw in
         if hmac key2 body \<noteq> want then Inl (Errorf ''%w: bad authentication tag'' [Sentinel ErrVerify])
         else ebind (parseBody body) (\<lambda>m.
           if Bucket m \<noteq> bucket \<or> MKey m \<noteq> key \<or> MID m \<noteq> i
           then Inl (Errorf ''%w: manifest belongs to a different object version'' [Sentinel ErrVerify])
           else case validate m of
                  Some e \<Rightarrow> Inl (Errorf ''%w: %w'' [Sentinel ErrVerify, e])
                | None \<Rightarrow> Inr m))"

definition PeekIdentity :: "bytes \<Rightarrow> (string \<times> string \<times> bytes) result" where
  "PeekIdentity rw =
     (if length rw < 4 + MACSize
      then Inl (Errorf ''manifest: %d bytes is too short to be a manifest'' [])
      else ebind (parseBody (take (length rw - MACSize) rw)) (\<lambda>m. Inr (Bucket m, MKey m, MID m)))"

section \<open>Part rules\<close>

definition MaxPartCiphertext :: int where [simp]: "MaxPartCiphertext = 5 * 2 ^ 30"

record UploadedPart =
  upNumber :: "32 word"
  CipherSize :: int
  upETag :: string
  upSalt :: bytes

fun convert_parts :: "byte \<Rightarrow> UploadedPart list \<Rightarrow> Part list result" where
  "convert_parts log2C [] = Inr []"
| "convert_parts log2C (up # ups) =
     (if CipherSize up > MaxPartCiphertext
      then Inl (Errorf ''%w: part %d is %d bytes of ciphertext, the maximum is %d'' [Sentinel ErrPartTooLarge])
      else case OpenedSize (CipherSize up) log2C of
             Inl _ \<Rightarrow> Inl (Errorf ''%w: part %d is %d bytes, which is not a size this format produces at chunk size %d''
                           [Sentinel ErrPartRules])
           | Inr plain \<Rightarrow>
               (let lastp = (ups = []) in
                if lastp \<and> plain = 0 then Inl (Errorf ''%w: the last part is empty'' [Sentinel ErrPartRules])
                else if \<not> lastp \<and> plain = 0 then Inl (Errorf ''%w: part %d is empty'' [Sentinel ErrPartRules])
                else if \<not> lastp \<and> rem64 plain (shl64 1 (unat log2C)) \<noteq> 0
                then Inl (Errorf ''%w: part %d is %d bytes, which is not a multiple of the chunk size %d; configure a part size that is a multiple of %d''
                            [Sentinel ErrPartRules])
                else ebind (convert_parts log2C ups) (\<lambda>ps.
                       Inr (\<lparr>Number = upNumber up, PlainSize = plain, Salt = upSalt up\<rparr> # ps))))"

definition PartsFromUpstream :: "UploadedPart list \<Rightarrow> byte \<Rightarrow> Part list result" where
  "PartsFromUpstream uploaded log2C =
     echeck (ValidateLog2ChunkSize log2C)
       (if uploaded = [] then Inl (Errorf ''%w: the upload has no parts'' [Sentinel ErrPartRules])
        else if length uploaded > MaxParts
        then Inl (Errorf ''%w: %d parts exceeds the maximum of %d'' [Sentinel ErrPartRules])
        else ebind (convert_parts log2C uploaded) (\<lambda>parts.
               case validate \<lparr>Bucket = '''', MKey = '''', MID = replicate IDSize 0, Parts = parts, legacy = False\<rparr> of
                 Some e \<Rightarrow> Inl (Errorf ''%w: %w'' [Sentinel ErrPartRules, e])
               | None \<Rightarrow> Inr parts))"

text \<open>The loop of \<open>MaxPartPlaintext\<close> steps down by one chunk; on \<open>int\<close> it ends because \<open>chunk > 0\<close>.\<close>

function maxPartLoop :: "byte \<Rightarrow> int \<Rightarrow> int \<Rightarrow> int result" where
  "maxPartLoop log2C chunk plain =
     (if plain \<le> 0 \<or> chunk \<le> 0 then Inl (Errorf ''manifest: no part size fits at chunk size %d'' [])
      else case SealedSize plain log2C of
             Inr sealed \<Rightarrow> if sealed \<le> MaxPartCiphertext then Inr plain
                           else maxPartLoop log2C chunk (plain - chunk)
           | Inl _ \<Rightarrow> maxPartLoop log2C chunk (plain - chunk))"
  by pat_completeness auto
termination
  by (relation "measure (\<lambda>(_, _, plain). nat plain)") auto

declare maxPartLoop.simps [simp del]

definition MaxPartPlaintext :: "byte \<Rightarrow> int result" where
  "MaxPartPlaintext log2C =
     echeck (ValidateLog2ChunkSize log2C)
       (let chunk = shl64 1 (unat log2C)
        in maxPartLoop log2C chunk (mul64 (quot64 MaxPartCiphertext chunk) chunk))"

section \<open>The encoding\<close>

definition wf_part :: "Part \<Rightarrow> bool" where
  "wf_part p \<longleftrightarrow> length (Salt p) = SaltSize"

definition wf_manifest :: "Manifest \<Rightarrow> bool" where
  "wf_manifest m \<longleftrightarrow> length (MID m) = IDSize \<and> list_all wf_part (Parts m)"

definition manifest_body :: "Manifest \<Rightarrow> bytes" where
  "manifest_body m = ManifestMagic @ be_bytes 2 (length (Bucket m)) @ bytes_of (Bucket m) @
     be_bytes 2 (length (MKey m)) @ bytes_of (MKey m) @ MID m @ be_bytes 2 (length (Parts m)) @
     concat (map marshal_part (Parts m))"

definition mac_key :: "bytes \<Rightarrow> bytes" where
  "mac_key dek = hkdf32 dek [] macKeyInfo"

lemma macKey_eq: "length dek = 32 \<Longrightarrow> macKey dek = Inr (mac_key dek)"
  by (simp add: macKey_def mac_key_def)

lemma macKey_Inr: "macKey dek = Inr k \<longleftrightarrow> length dek = 32 \<and> k = mac_key dek"
  by (auto simp: macKey_def mac_key_def)

lemma validate_parts_bounds:
  "validate_parts prev ps = None \<Longrightarrow> p \<in> set ps \<Longrightarrow>
    1 \<le> unat (Number p) \<and> unat (Number p) \<le> 10000 \<and> 0 \<le> PlainSize p \<and> PlainSize p \<le> 2 ^ 46"
  by (induction prev ps rule: validate_parts.induct)
    (auto simp: word_less_nat_alt word_le_nat_alt not_less split: if_splits)

lemma validate_None:
  assumes "validate m = None"
  shows "Parts m \<noteq> []" "length (Parts m) \<le> 10000" "length (Bucket m) \<le> 65535" "length (MKey m) \<le> 65535"
    "validate_parts None (Parts m) = None"
  using assms by (auto simp: validate_def split: if_splits)

lemma Marshal_eq:
  assumes "validate m = None" and "length dek = 32"
  shows "Marshal m dek = Inr (manifest_body m @ hmac (mac_key dek) (manifest_body m))"
  using assms validate_None [OF assms(1)]
  by (simp add: Marshal_def macKey_eq manifest_appendLP_def manifest_body_def Let_def)

lemma Marshal_Inr: "Marshal m dek = Inr w \<Longrightarrow> validate m = None \<and> length dek = 32"
  by (auto simp: Marshal_def result_simps macKey_Inr)

lemma need_Inr [simp]: "need x msg = Inr y \<longleftrightarrow> x = Some y"
  by (auto simp: need_def split: option.splits)

lemma need_Some [simp]: "need (Some y) msg = Inr y"
  by (simp add: need_def)

lemma cnext_append [simp]: "length a = n \<Longrightarrow> cnext n (a @ r) = Some (a, r)"
  by (simp add: cnext_def)

lemma cnext_Some: "cnext n r = Some (b, r') \<longleftrightarrow> length b = n \<and> r = b @ r'"
  by (auto simp: cnext_def)

lemma cuint_append [simp]: "v < 256 ^ n \<Longrightarrow> cuint n (be_bytes n v @ r) = Some (v, r)"
  by (simp add: cuint_def)

lemma cuint_Some: "cuint n r = Some (v, r') \<longleftrightarrow> v < 256 ^ n \<and> r = be_bytes n v @ r'"
proof
  assume "cuint n r = Some (v, r')"
  then obtain b where "cnext n r = Some (b, r')" "v = be_nat b"
    by (auto simp: cuint_def split: option.splits)
  then show "v < 256 ^ n \<and> r = be_bytes n v @ r'"
    using be_nat_lt [of b] be_bytes_be_nat [of n b] by (auto simp: cnext_Some)
qed simp

lemma clp_append [simp]:
  "length s \<le> 65535 \<Longrightarrow> clp (be_bytes 2 (length s) @ bytes_of s @ r) = Some (s, r)"
  by (simp add: clp_def)

lemma clp_Some: "clp r = Some (s, r') \<longleftrightarrow> length s \<le> 65535 \<and> r = be_bytes 2 (length s) @ bytes_of s @ r'"
proof
  assume "clp r = Some (s, r')"
  then obtain n r1 b where n: "cuint 2 r = Some (n, r1)" "cnext n r1 = Some (b, r')" "s = string_of b"
    by (auto simp: clp_def split: option.splits)
  then have "length s = n" "n < 65536" by (auto simp: cuint_Some cnext_Some)
  with n show "length s \<le> 65535 \<and> r = be_bytes 2 (length s) @ bytes_of s @ r'"
    by (auto simp: cuint_Some cnext_Some)
qed simp

lemma parse_parts_marshal:
  assumes "\<forall>p\<in>set ps. unat (Number p) \<le> 10000 \<and> 0 \<le> PlainSize p \<and> PlainSize p \<le> 2 ^ 46 \<and> wf_part p"
  shows "parse_parts False (length ps) (concat (map marshal_part ps) @ r) = Inr (ps, r)"
  using assms
proof (induction ps)
  case (Cons p ps)
  have b: "unat (Number p) \<le> 10000" "0 \<le> PlainSize p" "PlainSize p \<le> 2 ^ 46" "length (Salt p) = 20"
    using Cons.prems by (auto simp: wf_part_def)
  have "nat (PlainSize p) \<le> 2 ^ 46"
    using b by (simp add: nat_le_iff)
  then have n: "nat (PlainSize p) < 256 ^ 8" "\<not> nat (PlainSize p) > 2 ^ 46" by simp_all
  show ?case
    using Cons b n by (simp add: marshal_part_def)
qed simp

lemma parse_parts_Inr:
  assumes "parse_parts False n r = Inr (ps, r')"
  shows "r = concat (map marshal_part ps) @ r' \<and> length ps = n \<and> list_all wf_part ps"
  using assms
proof (induction n arbitrary: r ps)
  case (Suc n)
  from Suc.prems obtain number r1 sz r2 salt r3 ps' where
    c: "cuint 2 r = Some (number, r1)" "cuint 8 r1 = Some (sz, r2)" "sz \<le> 2 ^ 46"
      "cnext 20 r2 = Some (salt, r3)" "parse_parts False n r3 = Inr (ps', r')"
      "ps = \<lparr>Number = word_of_nat number, PlainSize = int sz, Salt = salt\<rparr> # ps'"
    by (auto simp: result_simps split: if_splits)
  moreover have "unat (word_of_nat number :: 32 word) = number"
    using c(1) by (simp add: cuint_Some unat_of_nat)
  ultimately show ?case
    using Suc.IH [OF c(5)] by (auto simp: cuint_Some cnext_Some marshal_part_def wf_part_def)
qed simp

lemma magic_neq [simp]: "length ManifestMagic = 4" "length ManifestMagicV1 = 4" "ManifestMagic \<noteq> ManifestMagicV1"
  by (simp_all add: ManifestMagic_def ManifestMagicV1_def)

lemma parseBody_manifest:
  assumes "validate m = None" and "wf_manifest m" and "\<not> legacy m"
  shows "parseBody (manifest_body m) = Inr m"
proof -
  note v = validate_None [OF assms(1)]
  have ps: "parse_parts False (length (Parts m)) (concat (map marshal_part (Parts m)) @ []) = Inr (Parts m, [])"
    using validate_parts_bounds [OF v(5)] assms(2)
    by (intro parse_parts_marshal) (auto simp: wf_manifest_def list_all_iff)
  show ?thesis
    using v assms(2,3) ps
    by (simp add: parseBody_def manifest_body_def wf_manifest_def Let_def)
qed

lemma parseBody_Inr:
  assumes "parseBody b = Inr m" and "\<not> legacy m"
  shows "b = manifest_body m \<and> wf_manifest m"
proof -
  from assms(1) obtain magic r1 bk r2 ky r3 i r4 n r5 ps where
    c: "cnext 4 b = Some (magic, r1)" "magic = ManifestMagic \<or> magic = ManifestMagicV1"
      "clp r1 = Some (bk, r2)" "clp r2 = Some (ky, r3)" "cnext 16 r3 = Some (i, r4)"
      "cuint 2 r4 = Some (n, r5)" "parse_parts (magic = ManifestMagicV1) n r5 = Inr (ps, [])"
      "m = \<lparr>Bucket = bk, MKey = ky, MID = i, Parts = ps, legacy = (magic = ManifestMagicV1)\<rparr>"
    by (auto simp: parseBody_def result_simps Let_def split: if_splits)
  with assms(2) have "magic = ManifestMagic" by auto
  with c parse_parts_Inr [of n r5 ps "[]"] show ?thesis
    by (auto simp: cnext_Some clp_Some cuint_Some manifest_body_def wf_manifest_def)
qed

lemma Unmarshal_eq:
  assumes "length dek = 32" and "length mac = 32" and "4 \<le> length body"
  shows "Unmarshal (body @ mac) dek bucket key i =
    (if hmac (mac_key dek) body \<noteq> mac then Inl (Errorf ''%w: bad authentication tag'' [Sentinel ErrVerify])
     else ebind (parseBody body) (\<lambda>m.
       if Bucket m \<noteq> bucket \<or> MKey m \<noteq> key \<or> MID m \<noteq> i
       then Inl (Errorf ''%w: manifest belongs to a different object version'' [Sentinel ErrVerify])
       else case validate m of Some e \<Rightarrow> Inl (Errorf ''%w: %w'' [Sentinel ErrVerify, e]) | None \<Rightarrow> Inr m))"
  using assms by (simp add: Unmarshal_def macKey_eq Let_def)

lemma Unmarshal_Inr:
  assumes "Unmarshal rw dek bucket key i = Inr m"
  obtains body where "rw = body @ hmac (mac_key dek) body" "parseBody body = Inr m" "length dek = 32"
    "Bucket m = bucket" "MKey m = key" "MID m = i" "validate m = None"
proof -
  have l: "length dek = 32" "36 \<le> length rw"
    using assms by (auto simp: Unmarshal_def result_simps macKey_Inr split: if_splits)
  let ?b = "take (length rw - 32) rw" and ?w = "drop (length rw - 32) rw"
  have e: "Unmarshal (?b @ ?w) dek bucket key i = Inr m" using assms by simp
  then have "hmac (mac_key dek) ?b = ?w" "parseBody ?b = Inr m"
    "Bucket m = bucket" "MKey m = key" "MID m = i" "validate m = None"
    using l by (subst (asm) Unmarshal_eq, simp_all add: result_simps split: if_splits option.splits)+
  with l show thesis by (intro that [of ?b]) auto
qed

section \<open>The part rules make the total size recoverable\<close>

lemma cdiv_add_dvd: "0 < c \<Longrightarrow> c dvd x \<Longrightarrow> cdiv (x + y) c = cdiv x c + cdiv y c"
proof -
  assume c: "0 < c" and "c dvd x"
  then obtain q where x: "x = q * c" by (auto simp: dvd_def mult.commute)
  have "cdiv (q * c) c = q" using c by (simp add: cdiv_iff algebra_simps)
  moreover have "(q * c + y + c - 1) div c = q + (y + c - 1) div c"
    using c div_mult_self3 [of c q "y + c - 1"] by (simp add: algebra_simps)
  ultimately show ?thesis by (simp add: x cdiv_def)
qed

definition part_ok :: "byte \<Rightarrow> UploadedPart \<Rightarrow> Part \<Rightarrow> bool" where
  "part_ok l up p \<longleftrightarrow> Number p = upNumber up \<and> Salt p = upSalt up \<and> 0 < PlainSize p \<and>
     OpenedSize (CipherSize up) l = Inr (PlainSize p) \<and> CipherSize up \<le> 5 * 2 ^ 30"

lemma OpenedSize_cipher:
  assumes "OpenedSize s l = Inr p" and "0 < p"
  shows "s = 32 + p + 16 * cdiv p (chunk_bytes l) \<and> 1 \<le> cdiv p (chunk_bytes l) \<and> p \<le> 2 ^ 46 \<and> p \<le> s"
proof -
  let ?c = "chunk_bytes l"
  have "SealedSizeSegments p l 1 = Inr s"
    using assms(1) by (simp add: OpenedSize_def OpenedSizeSegments_iff)
  note r = SealedSizeSegments_Inr [OF this]
  have c: "0 < ?c" by (simp add: chunk_bytes_def)
  have "cdiv p ?c \<noteq> 0" using cdiv_iff [OF c, of p 0] assms(2) by auto
  then have "1 \<le> cdiv p ?c" using cdiv_nonneg [OF c, of p] assms(2) by linarith
  with r show ?thesis by (simp add: sealed_size_def)
qed

lemma convert_parts_Inr:
  assumes "convert_parts l ups = Inr ps" and "ValidateLog2ChunkSize l = None"
  shows "list_all2 (part_ok l) ups ps \<and> list_all (\<lambda>p. chunk_bytes l dvd PlainSize p) (butlast ps)"
  using assms
proof (induction l ups arbitrary: ps rule: convert_parts.induct)
  case (2 l up ups)
  from "2.prems"(1) obtain plain ps' where c: "OpenedSize (CipherSize up) l = Inr plain"
      "CipherSize up \<le> 5 * 2 ^ 30" "plain \<noteq> 0" "ups \<noteq> [] \<longrightarrow> rem64 plain (shl64 1 (unat l)) = 0"
      "convert_parts l ups = Inr ps'"
      "ps = \<lparr>Number = upNumber up, PlainSize = plain, Salt = upSalt up\<rparr> # ps'"
    by (auto simp: Let_def result_simps split: sum.splits if_splits)
  have "SealedSizeSegments plain l 1 = Inr (CipherSize up)"
    using c(1) by (simp add: OpenedSize_def OpenedSizeSegments_iff)
  then have pos: "0 < plain"
    using SealedSizeSegments_Inr c(3) by force
  have b: "shl64 1 (unat l) = chunk_bytes l" "0 < chunk_bytes l"
    using chunk_bytes_bounds [OF "2.prems"(2)] by auto
  have IH: "list_all2 (part_ok l) ups ps' \<and> list_all (\<lambda>p. chunk_bytes l dvd PlainSize p) (butlast ps')"
    using c b "2.prems"(2) by (intro "2.IH" [of plain]) (auto simp: Let_def)
  moreover have "ps' = [] \<longleftrightarrow> ups = []"
    using IH by (auto simp: list_all2_Cons1 dest: list_all2_lengthD)
  moreover have "ups \<noteq> [] \<Longrightarrow> chunk_bytes l dvd plain"
    using c(4) b pos rem64_nonneg [of plain "chunk_bytes l"] by auto
  moreover have "part_ok l up \<lparr>Number = upNumber up, PlainSize = plain, Salt = upSalt up\<rparr>"
    using c pos by (simp add: part_ok_def)
  ultimately show ?case
    using c(6) by auto
qed simp

lemma parts_total:
  assumes "list_all2 (part_ok l) ups ps" and "list_all (\<lambda>p. chunk_bytes l dvd PlainSize p) (butlast ps)"
  shows "sum_list (map CipherSize ups) = 32 * int (length ups) + sum_list (map PlainSize ps) +
      16 * cdiv (sum_list (map PlainSize ps)) (chunk_bytes l) \<and>
    int (length ups) \<le> cdiv (sum_list (map PlainSize ps)) (chunk_bytes l) \<and>
    0 \<le> sum_list (map PlainSize ps) \<and> sum_list (map PlainSize ps) \<le> int (length ups) * (5 * 2 ^ 30)"
  using assms
proof (induction rule: list_all2_induct)
  case Nil
  then show ?case using cdiv_iff [of "chunk_bytes l" 0 0] by (simp add: chunk_bytes_def)
next
  case (Cons up ups p ps)
  let ?c = "chunk_bytes l" and ?S = "sum_list (map PlainSize ps)"
  have c: "0 < ?c" by (simp add: chunk_bytes_def)
  have p: "0 < PlainSize p" "CipherSize up = 32 + PlainSize p + 16 * cdiv (PlainSize p) ?c"
      "1 \<le> cdiv (PlainSize p) ?c" "PlainSize p \<le> 5 * 2 ^ 30"
    using Cons.hyps(1) OpenedSize_cipher [of "CipherSize up" l "PlainSize p"] by (auto simp: part_ok_def)
  have "cdiv (PlainSize p + ?S) ?c = cdiv (PlainSize p) ?c + cdiv ?S ?c"
  proof (cases "ps = []")
    case True
    then show ?thesis using cdiv_iff [OF c, of 0 0] c by simp
  next
    case False
    then have "?c dvd PlainSize p" using Cons.prems by simp
    then show ?thesis by (rule cdiv_add_dvd [OF c])
  qed
  moreover have "list_all (\<lambda>p. ?c dvd PlainSize p) (butlast ps)"
    using Cons.prems by (cases ps) auto
  ultimately show ?case
    using Cons.IH p by (simp add: algebra_simps)
qed

lemma PartsFromUpstream_Inr:
  assumes "PartsFromUpstream ups l = Inr ps"
  shows "ValidateLog2ChunkSize l = None \<and> ups \<noteq> [] \<and> length ups \<le> 10000 \<and> list_all2 (part_ok l) ups ps \<and>
    list_all (\<lambda>p. chunk_bytes l dvd PlainSize p) (butlast ps) \<and> validate_parts None ps = None"
proof -
  from assms have v: "ValidateLog2ChunkSize l = None" "ups \<noteq> []" "length ups \<le> 10000"
      "convert_parts l ups = Inr ps"
      "validate \<lparr>Bucket = '''', MKey = '''', MID = replicate IDSize 0, Parts = ps, legacy = False\<rparr> = None"
    by (auto simp: PartsFromUpstream_def result_simps split: if_splits option.splits)
  with convert_parts_Inr [OF v(4,1)] validate_None(5) [OF v(5)] show ?thesis by simp
qed

lemma plain_sum:
  assumes "list_all (\<lambda>p. 0 \<le> PlainSize p) ps" and "0 \<le> t" and "t + sum_list (map PlainSize ps) < 2 ^ 63"
  shows "foldl (\<lambda>total p. add64 total (PlainSize p)) t ps = t + sum_list (map PlainSize ps)"
  using assms
proof (induction ps arbitrary: t)
  case (Cons p ps)
  have "0 \<le> sum_list (map PlainSize ps)"
    using Cons.prems(1) by (intro sum_list_nonneg) (auto simp: list_all_iff)
  then have "add64 t (PlainSize p) = t + PlainSize p"
    using Cons.prems by (simp add: add64_def in64_def)
  with Cons show ?case by simp
qed simp

section \<open>Properties\<close>

text \<open>A manifest reads back. Every valid manifest that this build writes is accepted by \<open>Unmarshal\<close>, under
  the same data key and for its own bucket, key and id, and yields the same manifest.\<close>

theorem manifest_roundtrip:
  assumes "Marshal m dek = Inr rw" and "wf_manifest m" and "\<not> legacy m"
  shows "Unmarshal rw dek (Bucket m) (MKey m) (MID m) = Inr m"
proof -
  have v: "validate m = None" "length dek = 32"
    using Marshal_Inr [OF assms(1)] by auto
  have "rw = manifest_body m @ hmac (mac_key dek) (manifest_body m)"
    using Marshal_eq [OF v] assms(1) by simp
  moreover have "4 \<le> length (manifest_body m)" by (simp add: manifest_body_def)
  ultimately show ?thesis
    using Unmarshal_eq [OF v(2), of "hmac (mac_key dek) (manifest_body m)" "manifest_body m"]
      parseBody_manifest [OF v(1) assms(2,3)] v(1) by simp
qed

definition example_manifest :: Manifest where
  "example_manifest = \<lparr>Bucket = ''b'', MKey = ''k'', MID = replicate 16 1,
     Parts = [\<lparr>Number = 1, PlainSize = 65536, Salt = replicate 20 2\<rparr>, \<lparr>Number = 3, PlainSize = 5, Salt = replicate 20 4\<rparr>],
     legacy = False\<rparr>"

lemma example_manifest_ok:
  "validate example_manifest = None" "wf_manifest example_manifest" "\<not> legacy example_manifest"
  by (simp_all add: example_manifest_def validate_def wf_manifest_def wf_part_def word_le_nat_alt)

lemma example_manifest_fields:
  "Bucket example_manifest = ''b''" "MKey example_manifest = ''k''" "MID example_manifest = replicate 16 1"
  by (simp_all add: example_manifest_def)

theorem manifest_roundtrip_witness:
  "\<exists>rw. Marshal example_manifest (replicate 32 1) = Inr rw \<and>
    Unmarshal rw (replicate 32 1) ''b'' ''k'' (replicate 16 1) = Inr example_manifest"
proof -
  obtain rw where rw: "Marshal example_manifest (replicate 32 1) = Inr rw"
    using Marshal_eq [OF example_manifest_ok(1), of "replicate 32 1"] by simp
  from manifest_roundtrip [OF rw example_manifest_ok(2,3)] rw show ?thesis
    by (auto simp: example_manifest_def)
qed

text \<open>C24: What \<open>Unmarshal\<close> accepts is authentic and for the expected object: whatever its format, the bytes are a
  body followed by the HMAC of exactly that body under the key derived from the data key, and the manifest
  is what that body parses to; it names the expected bucket, key and id and satisfies the structural rules.
  Unless it is in the old format, its bytes are moreover exactly what \<open>Marshal\<close> writes for it under the same
  data key.\<close>

theorem unmarshal_sound:
  assumes "Unmarshal rw dek bucket key i = Inr m"
  shows "(\<exists>k body. macKey dek = Inr k \<and> rw = body @ hmac k body \<and> parseBody body = Inr m) \<and>
    Bucket m = bucket \<and> MKey m = key \<and> MID m = i \<and> validate m = None \<and>
    (HasSalts m \<longrightarrow> Marshal m dek = Inr rw \<and> wf_manifest m)"
  using assms
proof (rule Unmarshal_Inr, goal_cases)
  case (1 body)
  then show ?case
    using parseBody_Inr [of body m] Marshal_eq [of m dek] macKey_Inr [of dek "mac_key dek"] by (auto simp: HasSalts_def)
qed

theorem unmarshal_sound_witness:
  "\<exists>rw m. Unmarshal rw (replicate 32 1) ''b'' ''k'' (replicate 16 1) = Inr m \<and>
     (\<exists>k body. macKey (replicate 32 1) = Inr k \<and> rw = body @ hmac k body \<and> parseBody body = Inr m) \<and>
     Bucket m = ''b'' \<and> MKey m = ''k'' \<and> MID m = replicate 16 1 \<and> validate m = None"
proof -
  let ?m = example_manifest
  let ?b = "manifest_body ?m"
  have "4 \<le> length ?b" by (simp add: manifest_body_def)
  then have u: "Unmarshal (?b @ hmac (mac_key (replicate 32 1)) ?b) (replicate 32 1) (Bucket ?m) (MKey ?m) (MID ?m) = Inr ?m"
    using Unmarshal_eq [of "replicate 32 1" "hmac (mac_key (replicate 32 1)) ?b" ?b]
      parseBody_manifest [OF example_manifest_ok] example_manifest_ok(1) by simp
  note f = example_manifest_fields
  show ?thesis
    by (rule exI [of _ "?b @ hmac (mac_key (replicate 32 1)) ?b"], rule exI [of _ ?m])
      (use unmarshal_sound [OF u, unfolded f] u [unfolded f] f in blast)
qed

text \<open>The part rules make the object's size recoverable. For every part list that \<open>PartsFromUpstream\<close>
  accepts, the plaintext size of the whole object, as the manifest sums it, is what
  \<open>OpenedSizeSegments\<close> computes from the total ciphertext size and the number of parts alone, with no
  overflow; each part's size inverts on its own, and the numbers and salts are the uploaded ones.\<close>

theorem part_rules_recoverable:
  assumes "PartsFromUpstream ups l = Inr ps"
  shows "OpenedSizeSegments (sum_list (map CipherSize ups)) l (int (length ups)) =
      Inr (ManifestPlainSize \<lparr>Bucket = bk, MKey = ky, MID = i, Parts = ps, legacy = False\<rparr>) \<and>
    list_all2 (\<lambda>up p. OpenedSize (CipherSize up) l = Inr (PlainSize p) \<and> Number p = upNumber up \<and> Salt p = upSalt up) ups ps"
proof -
  note pu = PartsFromUpstream_Inr [OF assms]
  let ?S = "sum_list (map PlainSize ps)"
  note t = parts_total [of l ups ps]
  have S: "0 \<le> ?S" "?S \<le> 2 ^ 46"
    using t pu by auto
  have "SealedSizeSegments ?S l (int (length ups)) = Inr (sealed_size ?S (chunk_bytes l) (int (length ups)))"
    using pu S by (intro SealedSizeSegments_eq) (auto simp: Suc_le_eq)
  moreover have "sealed_size ?S (chunk_bytes l) (int (length ups)) = sum_list (map CipherSize ups)"
    using t pu by (simp add: sealed_size_def max_def)
  moreover have "produced ?S (chunk_bytes l) (int (length ups))"
    using t pu by (simp add: produced_def)
  ultimately have "OpenedSizeSegments (sum_list (map CipherSize ups)) l (int (length ups)) = Inr ?S"
    by (simp add: OpenedSizeSegments_complete)
  moreover have "list_all (\<lambda>p. 0 \<le> PlainSize p) ps"
    using pu by (auto simp: list_all_iff part_ok_def in_set_conv_nth list_all2_conv_all_nth less_imp_le)
  then have "ManifestPlainSize \<lparr>Bucket = bk, MKey = ky, MID = i, Parts = ps, legacy = False\<rparr> = ?S"
    using S plain_sum [of ps 0] by (simp add: ManifestPlainSize_def)
  moreover have "list_all2 (\<lambda>up p. OpenedSize (CipherSize up) l = Inr (PlainSize p) \<and> Number p = upNumber up \<and>
      Salt p = upSalt up) ups ps"
    using pu by (auto simp: part_ok_def elim: list_all2_mono)
  ultimately show ?thesis by simp
qed

theorem part_rules_recoverable_witness:
  "\<exists>ps. PartsFromUpstream [\<lparr>upNumber = 1, CipherSize = 65584, upETag = [], upSalt = replicate 20 0\<rparr>,
      \<lparr>upNumber = 2, CipherSize = 53, upETag = [], upSalt = replicate 20 0\<rparr>] 16 = Inr ps \<and>
    OpenedSizeSegments (65584 + 53) 16 2 = Inr (65536 + 5)"
proof -
  let ?u = "[\<lparr>upNumber = 1, CipherSize = 65584, upETag = [], upSalt = replicate 20 0\<rparr>,
      \<lparr>upNumber = 2, CipherSize = 53, upETag = [], upSalt = replicate 20 0\<rparr>]"
  have o: "OpenedSize 65584 16 = Inr 65536" "OpenedSize 53 16 = Inr 5"
    by (simp_all add: size_eval)
  have p: "PartsFromUpstream ?u 16 = Inr [\<lparr>Number = 1, PlainSize = 65536, Salt = replicate 20 0\<rparr>,
      \<lparr>Number = 2, PlainSize = 5, Salt = replicate 20 0\<rparr>]"
    by (simp add: PartsFromUpstream_def ValidateLog2ChunkSize_def o validate_def shl64_def rem64_def in64_def word_le_nat_alt)
  from part_rules_recoverable [OF p] p show ?thesis
    by (simp add: ManifestPlainSize_def add64_def in64_def)
qed

end
