(* ===== verification/ObjectMeta.thy ===== *)
theory ObjectMeta
  imports Keys ManifestFormat GoStrings
begin

text \<open>
  \<open>internal/objectmeta/objectmeta.go\<close>: the \<open>bb-*\<close> metadata recorded beside every object. A Go map is an
  association list in the order in which \<open>range\<close> visits it; the properties hold for every order.
\<close>

definition metaVersion :: string where "metaVersion = ''bb-v''"
definition metaKeyID :: string where "metaKeyID = ''bb-kid''"
definition metaDEK :: string where "metaDEK = ''bb-dek''"
definition metaChunkSize :: string where "metaChunkSize = ''bb-c''"
definition metaManifestID :: string where "metaManifestID = ''bb-mid''"

lemmas meta_names = metaVersion_def metaKeyID_def metaDEK_def metaChunkSize_def metaManifestID_def

record Meta =
  mVersion :: int
  mKeyID :: string
  mWrappedDEK :: bytes
  mLog2ChunkSize :: byte
  mHasChunkSize :: bool
  mManifestID :: bytes
  mMultipart :: bool

definition Headers :: "Meta \<Rightarrow> (string \<times> string) list" where
  "Headers m =
     [(metaVersion, Itoa (mVersion m)), (metaKeyID, mKeyID m), (metaDEK, EncodeWrapped (mWrappedDEK m)),
      (metaChunkSize, Itoa (int (unat (mLog2ChunkSize m))))] @
     (if mMultipart m then [(metaManifestID, ID_String (mManifestID m))] else [])"

definition lookup_meta :: "(string \<times> string) list \<Rightarrow> string \<Rightarrow> string" where
  "lookup_meta md key = (case List.find (\<lambda>(name, _). EqualFold name key) md of None \<Rightarrow> '''' | Some (_, v) \<Rightarrow> v)"

definition StoredDEK :: "(string \<times> string) list \<Rightarrow> string" where
  "StoredDEK md = (case List.find (\<lambda>(name, _). EqualFold name metaDEK) md of None \<Rightarrow> '''' | Some (_, v) \<Rightarrow> v)"

definition StoredDEKOf :: "Meta \<Rightarrow> string" where
  "StoredDEKOf m = (case map_of (Headers m) metaDEK of None \<Rightarrow> '''' | Some v \<Rightarrow> v)"

definition Parse :: "(string \<times> string) list \<Rightarrow> byte \<Rightarrow> Meta result" where
  "Parse md fallbackLog2C =
     (let rw = lookup_meta md metaDEK in
      if rw = '''' then Inl (Sentinel ErrNotEncrypted)
      else
        ebind (emap_err (\<lambda>e. Errorf ''object metadata has no usable %s: %w'' [e]) (Atoi (lookup_meta md metaVersion))) (\<lambda>version.
        if version \<noteq> int (unat FormatVersion)
        then Inl (Errorf ''object is format version %d, this build reads %d'' [])
        else let kid = lookup_meta md metaKeyID in
        case ValidateKID kid of
          Some e \<Rightarrow> Inl (Errorf ''object metadata has no usable %s: %w'' [e])
        | None \<Rightarrow>
          ebind (emap_err (\<lambda>e. Errorf ''object metadata has an unreadable %s: %w'' [e]) (DecodeWrapped rw)) (\<lambda>wrapped.
          if length wrapped \<noteq> WrappedDEKSize then Inl (Errorf ''wrapped key is %d bytes, want %d'' [])
          else
            ebind (let rw = lookup_meta md metaChunkSize in
                   if rw \<noteq> ''''
                   then (case Atoi rw of
                           Inl _ \<Rightarrow> Inl (Errorf ''object metadata has an unreadable %s'' [])
                         | Inr parsed \<Rightarrow>
                             if parsed < 0 \<or> parsed > 255
                             then Inl (Errorf ''object metadata has an unreadable %s'' [])
                             else Inr (word_of_int parsed, True))
                   else Inr (fallbackLog2C, False)) (\<lambda>(log2C, recorded).
            echeck (ValidateLog2ChunkSize log2C)
              (let out = \<lparr>mVersion = version, mKeyID = kid, mWrappedDEK = wrapped, mLog2ChunkSize = log2C,
                          mHasChunkSize = recorded, mManifestID = replicate IDSize 0, mMultipart = False\<rparr>;
                   rw = lookup_meta md metaManifestID
               in if rw \<noteq> ''''
                  then ebind (emap_err (\<lambda>e. Errorf ''object metadata has an unreadable %s: %w'' [e]) (ParseID rw)) (\<lambda>i.
                         Inr (out\<lparr>mManifestID := i, mMultipart := True\<rparr>))
                  else Inr out)))))"

section \<open>Lookups\<close>

text \<open>What a provider may do to metadata: change the case of the names, reorder them and add names of its
  own; \<open>carries md h\<close> says that every name of \<open>bb_names\<close> has the value it has in \<open>h\<close>.\<close>

definition bb_names :: "string list" where
  "bb_names = [metaVersion, metaKeyID, metaDEK, metaChunkSize, metaManifestID]"

definition carries :: "(string \<times> string) list \<Rightarrow> (string \<times> string) list \<Rightarrow> bool" where
  "carries md h \<longleftrightarrow>
     list_all (\<lambda>(k, v). list_ex (\<lambda>(n, w). EqualFold n k \<and> w = v) md) h \<and>
     list_all (\<lambda>(n, w). \<forall>k\<in>set bb_names. EqualFold n k \<longrightarrow> (k, w) \<in> set h) md"

lemma find_SomeD: "List.find P xs = Some x \<Longrightarrow> P x \<and> x \<in> set xs"
  by (induction xs) (auto split: if_splits)

lemma lookup_carries:
  assumes "carries md h" and "k \<in> set bb_names" and "distinct (map fst h)"
  shows "lookup_meta md k = (case map_of h k of None \<Rightarrow> '''' | Some v \<Rightarrow> v)"
proof (cases "List.find (\<lambda>(name, _). EqualFold name k) md")
  case None
  then have "\<not> (\<exists>n w. (n, w) \<in> set md \<and> EqualFold n k)" by (auto simp: find_None_iff)
  then have "map_of h k = None"
    using assms(1) by (force simp: carries_def list_all_iff list_ex_iff map_of_eq_None_iff)
  then show ?thesis using None by (simp add: lookup_meta_def)
next
  case (Some p)
  obtain n w where p: "p = (n, w)" by (cases p)
  with Some have "EqualFold n k" "(n, w) \<in> set md" by (auto dest: find_SomeD)
  then have "(k, w) \<in> set h" using assms(1,2) by (auto simp: carries_def list_all_iff)
  then have "map_of h k = Some w" using assms(3) by simp
  then show ?thesis using Some p by (simp add: lookup_meta_def)
qed

lemma Headers_distinct: "distinct (map fst (Headers m))"
  by (simp add: Headers_def meta_names)

lemma lookup_Headers:
  assumes "carries md (Headers m)"
  shows "lookup_meta md metaVersion = Itoa (mVersion m)" and "lookup_meta md metaKeyID = mKeyID m"
    and "lookup_meta md metaDEK = EncodeWrapped (mWrappedDEK m)"
    and "lookup_meta md metaChunkSize = Itoa (int (unat (mLog2ChunkSize m)))"
    and "lookup_meta md metaManifestID = (if mMultipart m then ID_String (mManifestID m) else '''')"
  using lookup_carries [OF assms _ Headers_distinct]
  by (simp_all add: bb_names_def) (simp_all add: Headers_def meta_names)


section \<open>Properties\<close>

definition valid_meta :: "Meta \<Rightarrow> bool" where
  "valid_meta m \<longleftrightarrow> mVersion m = 1 \<and> ValidateKID (mKeyID m) = None \<and> length (mWrappedDEK m) = WrappedDEKSize \<and>
     ValidateLog2ChunkSize (mLog2ChunkSize m) = None \<and> length (mManifestID m) = IDSize \<and>
     (mMultipart m \<or> mManifestID m = replicate IDSize 0)"

lemma DecodeWrapped_Encode [simp]: "DecodeWrapped (EncodeWrapped b) = Inr b"
  by (simp add: DecodeWrapped_def EncodeWrapped_def b64url_DecodeString_def)

lemma ParseID_String [simp]: "length i = IDSize \<Longrightarrow> ParseID (ID_String i) = Inr i"
  by (simp add: ParseID_def ID_String_def b64url_DecodeString_def)

lemma EncodeWrapped_Nil [simp]: "EncodeWrapped b = '''' \<longleftrightarrow> b = []"
proof
  assume "EncodeWrapped b = ''''"
  moreover have "EncodeWrapped [] = ''''" by code_simp
  ultimately have "DecodeWrapped (EncodeWrapped b) = DecodeWrapped (EncodeWrapped [])" by simp
  then show "b = []" by simp
next
  have "EncodeWrapped [] = ''''" by code_simp
  then show "b = [] \<Longrightarrow> EncodeWrapped b = ''''" by simp
qed

lemma ID_String_Nil [simp]: "ID_String b = '''' \<longleftrightarrow> b = []"
  using EncodeWrapped_Nil [of b] by (simp add: EncodeWrapped_def ID_String_def)

lemma uint_byte [simp]: "uint (b :: byte) \<le> 255" "\<not> 255 < uint b"
proof -
  have "uint b < 2 ^ LENGTH(8)" by (rule uint_lt2p)
  then show "uint b \<le> 255" "\<not> 255 < uint b" by simp_all
qed

lemma Atoi_chunk_size [simp]: "Atoi (Itoa (uint (b :: byte))) = Inr (uint b)"
proof (rule Atoi_Itoa)
  have "0 \<le> uint b" by simp
  moreover have "uint b \<le> 255" by (rule uint_byte)
  moreover have "- (2 ^ 63) \<le> (0 :: int)" "255 < (2 ^ 63 :: int)" by simp_all
  ultimately show "in64 (uint b)" unfolding in64_def by linarith
qed

lemma Parse_carried:
  assumes "valid_meta m" and "mHasChunkSize m" and "carries md (Headers m)"
  shows "Parse md fallback = Inr m"
proof -
  note l = lookup_Headers [OF assms(3)]
  have d: "mWrappedDEK m \<noteq> []" "mManifestID m \<noteq> []" using assms(1) by (auto simp: valid_meta_def)
  have "Atoi (Itoa 1) = Inr 1" by (rule Atoi_Itoa) (simp add: in64_def)
  then show ?thesis
    unfolding Parse_def Let_def l using assms(1,2) d
    by (cases m) (auto simp: valid_meta_def simp del: replicate.simps)
qed

lemma carries_self: "carries (Headers m) (Headers m)"
proof -
  have f: "fold_name ''bb-v'' = ''bb-v''" "fold_name ''bb-kid'' = ''bb-kid''" "fold_name ''bb-dek'' = ''bb-dek''"
    "fold_name ''bb-c'' = ''bb-c''" "fold_name ''bb-mid'' = ''bb-mid''"
    by code_simp+
  show ?thesis
    by (simp add: carries_def Headers_def bb_names_def meta_names EqualFold_def f del: fold_name.simps)
qed

text \<open>C36: The metadata comes back. Whatever the provider does to the case and the order of the names, and
  whatever other metadata the object carries, \<open>Parse\<close> reads from it exactly the record whose \<open>Headers\<close>
  were stored, and the name of its tag sidecar is the one it was written under.\<close>

theorem metadata_roundtrip:
  assumes "valid_meta m" and "mHasChunkSize m" and "carries md (Headers m)"
  shows "Parse md fallback = Inr m \<and> StoredDEK md = StoredDEKOf m"
proof -
  have "Parse md fallback = Inr m" by (rule Parse_carried [OF assms])
  moreover have "StoredDEK md = lookup_meta md metaDEK" by (simp add: StoredDEK_def lookup_meta_def)
  ultimately show ?thesis
    using lookup_Headers(3) [OF assms(3)] by (simp add: StoredDEKOf_def Headers_def meta_names)
qed

theorem metadata_roundtrip_witness:
  "Parse [(''X-Other'', ''1''), (''Bb-Dek'', EncodeWrapped (replicate 60 7)), (''BB-V'', Itoa 1), (''bb-c'', Itoa 16),
     (''Bb-Kid'', ''k1'')] 12 =
   Inr \<lparr>mVersion = 1, mKeyID = ''k1'', mWrappedDEK = replicate 60 7, mLog2ChunkSize = 16, mHasChunkSize = True,
     mManifestID = replicate 16 0, mMultipart = False\<rparr>"
proof -
  let ?m = "\<lparr>mVersion = 1, mKeyID = ''k1'', mWrappedDEK = replicate 60 7, mLog2ChunkSize = 16, mHasChunkSize = True,
     mManifestID = replicate 16 0, mMultipart = False\<rparr>"
  let ?md = "[(''X-Other'', ''1''), (''Bb-Dek'', EncodeWrapped (replicate 60 7)), (''BB-V'', Itoa 1), (''bb-c'', Itoa 16),
     (''Bb-Kid'', ''k1'')]"
  have f: "fold_name ''X-Other'' = ''x-other''" "fold_name ''Bb-Dek'' = ''bb-dek''" "fold_name ''BB-V'' = ''bb-v''"
    "fold_name ''bb-c'' = ''bb-c''" "fold_name ''Bb-Kid'' = ''bb-kid''"
    by code_simp+
  have "ValidateKID ''k1'' = None" by code_simp
  then have v: "valid_meta ?m" by (simp add: valid_meta_def ValidateLog2ChunkSize_def del: replicate.simps)
  have "carries ?md (Headers ?m)"
    by (simp add: carries_def Headers_def EqualFold_def f bb_names_def meta_names del: fold_name.simps)
  then show ?thesis using metadata_roundtrip [OF v, of ?md 12] by simp
qed

lemma b64url_decode_error: "b64url_DecodeString s = Inl e \<Longrightarrow> \<not> errors_is ErrNotEncrypted e"
  by (auto simp: b64url_DecodeString_def b64url_decode_def err_corrupt_def Let_def split: option.splits if_splits)


lemma Atoi_error: "Atoi s = Inl e \<Longrightarrow> \<not> errors_is ErrNotEncrypted e"
  by (auto simp: Atoi_def Atoi_digits_def Let_def split: list.splits if_splits)

lemma ValidateKID_error: "ValidateKID kid = Some e \<Longrightarrow> \<not> errors_is ErrNotEncrypted e"
  by (auto simp: ValidateKID_def split: if_splits)

lemma ValidateLog2ChunkSize_error: "ValidateLog2ChunkSize c = Some e \<Longrightarrow> \<not> errors_is ErrNotEncrypted e"
  by (auto simp: ValidateLog2ChunkSize_def split: if_splits)

lemma ParseID_error: "ParseID s = Inl e \<Longrightarrow> \<not> errors_is ErrNotEncrypted e"
  by (auto simp: ParseID_def ebind_def emap_err_def dest: b64url_decode_error split: sum.splits if_splits)

lemma DecodeWrapped_error: "DecodeWrapped s = Inl e \<Longrightarrow> \<not> errors_is ErrNotEncrypted e"
  by (auto simp: DecodeWrapped_def emap_err_def dest: b64url_decode_error split: sum.splits)

lemma err_simps:
  "ebind m f = Inl e \<longleftrightarrow> m = Inl e \<or> (\<exists>x. m = Inr x \<and> f x = Inl e)"
  "emap_err g n = Inl e \<longleftrightarrow> (\<exists>e'. n = Inl e' \<and> e = g e')"
  "echeck c k = Inl e \<longleftrightarrow> c = Some e \<or> c = None \<and> k = Inl e"
  by (auto simp: ebind_def emap_err_def echeck_def split: sum.splits option.splits)

lemmas meta_errors = Atoi_error ValidateKID_error ValidateLog2ChunkSize_error ParseID_error DecodeWrapped_error

lemma ParseID_length: "ParseID s = Inr i \<Longrightarrow> length i = 16"
  by (auto simp: ParseID_def result_simps split: if_splits)

lemma Parse_valid:
  assumes "Parse md fallback = Inr m"
  shows "valid_meta m \<and> lookup_meta md metaDEK \<noteq> '''' \<and> (mHasChunkSize m \<or> mLog2ChunkSize m = fallback)"
  using assms unfolding Parse_def Let_def valid_meta_def
  by (auto simp: result_simps simp del: replicate.simps dest: ParseID_length split: if_splits option.splits sum.splits)

lemma Parse_error:
  assumes "Parse md fallback = Inl e"
  shows "errors_is ErrNotEncrypted e \<longleftrightarrow> lookup_meta md metaDEK = ''''"
proof (cases "lookup_meta md metaDEK = ''''")
  case True
  then show ?thesis using assms by (auto simp: Parse_def)
next
  case False
  have "\<not> errors_is ErrNotEncrypted e"
    using assms False unfolding Parse_def Let_def
    by (auto simp: err_simps simp del: replicate.simps dest: meta_errors split: if_splits option.splits sum.splits)
  then show ?thesis using False by simp
qed

text \<open>\<open>Parse\<close> separates the objects of the gateway from all others. An object is reported as not encrypted
  exactly if it has no \<open>bb-dek\<close>; of any other object it yields well-formed metadata, with the fallback
  chunk size only where none was recorded, or an error of another kind.\<close>

theorem metadata_classified:
  "case Parse md fallback of
     Inr m \<Rightarrow> valid_meta m \<and> StoredDEK md \<noteq> '''' \<and> (mHasChunkSize m \<or> mLog2ChunkSize m = fallback)
   | Inl e \<Rightarrow> errors_is ErrNotEncrypted e \<longleftrightarrow> StoredDEK md = ''''"
proof -
  have s: "StoredDEK md = lookup_meta md metaDEK" by (simp add: StoredDEK_def lookup_meta_def)
  show ?thesis
  proof (cases "Parse md fallback")
    case (Inl e)
    then show ?thesis using Parse_error [OF Inl] s by simp
  next
    case (Inr m)
    then show ?thesis using Parse_valid [OF Inr] s by simp
  qed
qed

end
