(* ===== verification/SegmentCipher.thy ===== *)
theory SegmentCipher
  imports SegmentSize GoCrypto
begin

text \<open>
  The chunk layer and the encoder of \<open>internal/crypto/stream\<close>: \<open>chunk.go\<close> (subkey derivation, nonces,
  the sealer with its reused nonce buffer), \<open>pool.go\<close> and \<open>encrypt.go\<close> (\<open>EncryptWriter\<close> as a record
  of its fields). The encoder is related to \<open>seal_segment\<close>, the segment of a plaintext written as one
  recursion over its chunks.
\<close>

section \<open>Chunks\<close>

definition subkeyInfo :: string where
  "subkeyInfo = ''blindbucket/v1/segment''"

definition deriveSubkey :: "bytes \<Rightarrow> bytes \<Rightarrow> bytes result" where
  "deriveSubkey dek salt =
     (if length dek \<noteq> KeySize then Inl (Errorf ''stream: DEK is %d bytes, want %d'' [])
      else hkdf_Key dek salt subkeyInfo KeySize)"

definition chunkNonce :: "64 word \<Rightarrow> bool \<Rightarrow> bytes" where
  "chunkNonce i final =
     (let n = copy_at (NonceSize - 9) (be_bytes 8 (unat i)) (replicate NonceSize 0)
      in if final then n[NonceSize - 1 := 1] else n)"

text \<open>The AEAD of a sealer is AES-256-GCM under \<open>skey\<close>; \<open>snonce\<close> is the buffer that every call
  rewrites in place.\<close>

record sealer =
  skey :: bytes
  saad :: bytes
  schunkSize :: nat
  snonce :: bytes

definition newSealer :: "bytes \<Rightarrow> header \<Rightarrow> sealer result" where
  "newSealer dek h =
     ebind (deriveSubkey dek (hsalt h)) (\<lambda>subkey.
     ebind (aes_NewCipher subkey) (\<lambda>block.
       if gcm_NonceSize \<noteq> NonceSize \<or> gcm_Overhead \<noteq> TagSize
       then Inl (Errorf ''stream: unexpected AEAD geometry: nonce %d, tag %d'' [])
       else Inr \<lparr>skey = block, saad = aad h, schunkSize = chunkSize h,
                 snonce = replicate NonceSize 0\<rparr>))"

definition setNonce :: "64 word \<Rightarrow> bool \<Rightarrow> sealer \<Rightarrow> sealer" where
  "setNonce i final s =
     (let n0 = copy_at (NonceSize - 9) (be_bytes 8 (unat i)) (snonce s);
          n1 = n0[NonceSize - 1 := 0];
          n2 = (if final then n1[NonceSize - 1 := 1] else n1)
      in s\<lparr>snonce := n2\<rparr>)"

definition sealer_seal :: "bytes \<Rightarrow> 64 word \<Rightarrow> bool \<Rightarrow> sealer \<Rightarrow> bytes \<times> sealer" where
  "sealer_seal plain i final s =
     (let s' = setNonce i final s in (gcm_Seal (skey s') (snonce s') plain (saad s'), s'))"

definition sealer_open :: "bytes \<Rightarrow> 64 word \<Rightarrow> bool \<Rightarrow> sealer \<Rightarrow> bytes result \<times> sealer" where
  "sealer_open sealed i final s =
     (let s' = setNonce i final s in
      (case gcm_Open (skey s') (snonce s') sealed (saad s') of
         None \<Rightarrow> Inl (chunkErrorf i ''authentication failed (final=%t)'')
       | Some out \<Rightarrow> Inr out, s'))"

section \<open>The encoder\<close>

text \<open>
  A pooled buffer holds one chunk and its tag; what an earlier user left in it is \<open>stale\<close>. In the
  writer \<open>wbuf\<close> is the whole buffer (\<open>[]\<close> once it went back to the pool) and \<open>wn\<close> counts the
  plaintext bytes at its front.
\<close>

definition getChunkBuf :: "(nat \<Rightarrow> byte) \<Rightarrow> byte \<Rightarrow> bytes" where
  "getChunkBuf stale log2C = map stale [0 ..< 2 ^ unat log2C + TagSize]"

record EncryptWriter =
  wdst :: sink
  wheader :: header
  wsealer :: sealer
  wbuf :: bytes
  wn :: nat
  wnext :: "64 word"
  wtotal :: int
  wheaderWritten :: bool
  wclosed :: bool
  werr :: "err option"

definition newEncryptWriter ::
  "(nat \<Rightarrow> byte) \<Rightarrow> sink \<Rightarrow> bytes \<Rightarrow> header \<Rightarrow> EncryptWriter result" where
  "newEncryptWriter stale dst dek h =
     ebind (newSealer dek h) (\<lambda>s.
       Inr \<lparr>wdst = dst, wheader = h, wsealer = s,
            wbuf = getChunkBuf stale (Log2ChunkSize (hparams h)), wn = 0, wnext = 0, wtotal = 0,
            wheaderWritten = False, wclosed = False, werr = None\<rparr>)"

definition NewEncryptWriter ::
  "bytes result \<Rightarrow> (nat \<Rightarrow> byte) \<Rightarrow> sink \<Rightarrow> bytes \<Rightarrow> SegmentParams \<Rightarrow> EncryptWriter result" where
  "NewEncryptWriter rnd stale dst dek p =
     ebind (newHeader p rnd) (\<lambda>h. newEncryptWriter stale dst dek h)"

definition fail :: "err \<Rightarrow> EncryptWriter \<Rightarrow> err option \<times> EncryptWriter" where
  "fail e w = (let w' = (if werr w = None then w\<lparr>werr := Some e\<rparr> else w) in (werr w', w'))"

definition flush :: "bool \<Rightarrow> EncryptWriter \<Rightarrow> err option \<times> EncryptWriter" where
  "flush final w =
     (case (if wheaderWritten w then (None, w)
            else case sink_write (raw (wheader w)) (wdst w) of
                   (Some e, d) \<Rightarrow> fail e (w\<lparr>wdst := d\<rparr>)
                 | (None, d) \<Rightarrow> (None, w\<lparr>wdst := d, wheaderWritten := True\<rparr>)) of
        (Some e, w1) \<Rightarrow> (Some e, w1)
      | (None, w1) \<Rightarrow>
          (case sealer_seal (take (wn w1) (wbuf w1)) (wnext w1) final (wsealer w1) of
             (sealed, s) \<Rightarrow>
               (let w2 = w1\<lparr>wsealer := s, wbuf := copy_at 0 sealed (wbuf w1)\<rparr> in
                case sink_write sealed (wdst w2) of
                  (Some e, d) \<Rightarrow> fail e (w2\<lparr>wdst := d\<rparr>)
                | (None, d) \<Rightarrow> (None, w2\<lparr>wdst := d, wnext := wnext w2 + 1, wn := 0\<rparr>))))"

text \<open>
  The loop of \<open>Write\<close>. \<open>wn\<close> never exceeds the chunk size and \<open>flush\<close> resets it, so an iteration that
  takes no byte does not occur (\<open>writer_run\<close> below carries the bound); the branch makes the
  recursion well-founded for every record.
\<close>

function write_loop :: "bytes \<Rightarrow> nat \<Rightarrow> EncryptWriter \<Rightarrow> nat \<times> err option \<times> EncryptWriter" where
  "write_loop p written w =
     (if p = [] then (written, None, w)
      else case (if wn w = chunkSize (wheader w) then flush False w else (None, w)) of
             (Some e, w1) \<Rightarrow> (written, Some e, w1)
           | (None, w1) \<Rightarrow>
               (let n = min (chunkSize (wheader w1) - wn w1) (length p) in
                if n = 0 then (written, None, w1)
                else if add64 (wtotal w1) (int n) > MaxPlaintextSize
                then (case fail (Errorf ''stream: segment exceeds the maximum plaintext size of %d bytes'' []) w1 of
                        (e, w2) \<Rightarrow> (written, e, w2))
                else write_loop (drop n p) (written + n)
                       (w1\<lparr>wbuf := copy_at (wn w1) (take n p) (wbuf w1), wn := wn w1 + n,
                           wtotal := add64 (wtotal w1) (int n)\<rparr>)))"
  by pat_completeness auto
termination
  by (relation "measure (\<lambda>(p, _, _). length p)") auto

declare write_loop.simps [simp del]

definition Write :: "bytes \<Rightarrow> EncryptWriter \<Rightarrow> nat \<times> err option \<times> EncryptWriter" where
  "Write p w =
     (if werr w \<noteq> None then (0, werr w, w)
      else if wclosed w then (0, Some (Sentinel ErrWriterClosed), w)
      else write_loop p 0 w)"

definition CloseWriter :: "EncryptWriter \<Rightarrow> err option \<times> EncryptWriter" where
  "CloseWriter w =
     (if wclosed w then (werr w, w)
      else let w1 = w\<lparr>wclosed := True\<rparr> in
           if werr w1 \<noteq> None then (werr w1, w1\<lparr>wbuf := []\<rparr>)
           else case flush True w1 of (e, w2) \<Rightarrow> (e, w2\<lparr>wbuf := []\<rparr>))"

definition PlaintextSize :: "EncryptWriter \<Rightarrow> int" where
  "PlaintextSize w = wtotal w"

definition HeaderW :: "EncryptWriter \<Rightarrow> bytes" where
  "HeaderW w = raw (wheader w)"

definition SaltW :: "EncryptWriter \<Rightarrow> bytes" where
  "SaltW w = hsalt (wheader w)"

section \<open>Nonces\<close>

lemma chunkNonce_eq:
  "chunkNonce i final = replicate 3 0 @ be_bytes 8 (unat i) @ [if final then 1 else 0]"
proof -
  have r: "replicate 12 (0 :: byte) = replicate 3 0 @ replicate 8 0 @ [0]"
    by (simp add: numeral_eq_Suc)
  show ?thesis
    unfolding chunkNonce_def NonceSize_def r by (simp add: copy_at_def list_update_append Let_def)
qed

lemma length_chunkNonce [simp]: "length (chunkNonce i f) = 12"
  by (simp add: chunkNonce_eq)

lemma chunkNonce_inj [simp]: "chunkNonce i f = chunkNonce j g \<longleftrightarrow> i = j \<and> f = g"
  by (auto simp: chunkNonce_eq)

text \<open>The reused buffer keeps its three leading zeros, so \<open>setNonce\<close> always writes \<open>chunkNonce\<close>.\<close>

definition wf_sealer :: "sealer \<Rightarrow> bool" where
  "wf_sealer s \<longleftrightarrow> length (snonce s) = NonceSize \<and> take 3 (snonce s) = replicate 3 0"

lemma setNonce_eq:
  assumes "wf_sealer s"
  shows "setNonce i final s = s\<lparr>snonce := chunkNonce i final\<rparr>"
proof -
  define m where "m = take 8 (drop 3 (snonce s))"
  have "length (drop 11 (snonce s)) = Suc 0" and m: "length m = 8"
    using assms by (simp_all add: wf_sealer_def m_def)
  then obtain z where "drop 11 (snonce s) = [z]"
    by (auto simp: length_Suc_conv simp del: length_drop)
  then have "m @ [z] = drop 3 (snonce s)"
    using append_take_drop_id [of 8 "drop 3 (snonce s)"] by (simp add: m_def)
  then have n: "snonce s = replicate 3 0 @ m @ [z]"
    using append_take_drop_id [of 3 "snonce s"] assms by (metis wf_sealer_def)
  show ?thesis
    by (simp add: setNonce_def chunkNonce_eq n m copy_at_def list_update_append Let_def)
qed

lemma wf_setNonce [simp]: "wf_sealer s \<Longrightarrow> wf_sealer (setNonce i f s)"
  by (simp add: setNonce_eq wf_sealer_def chunkNonce_eq)

lemma setNonce_fields [simp]:
  "skey (setNonce i f s) = skey s" "saad (setNonce i f s) = saad s"
  by (simp_all add: setNonce_def Let_def)

lemma sealer_seal_eq:
  "wf_sealer s \<Longrightarrow>
   sealer_seal p i f s = (gcm_Seal (skey s) (chunkNonce i f) p (saad s), setNonce i f s)"
  by (simp add: sealer_seal_def Let_def) (simp add: setNonce_eq)

lemma sealer_open_eq:
  "wf_sealer s \<Longrightarrow>
   sealer_open c i f s =
     (case gcm_Open (skey s) (chunkNonce i f) c (saad s) of
        None \<Rightarrow> Inl (chunkErrorf i ''authentication failed (final=%t)'') | Some p \<Rightarrow> Inr p,
      setNonce i f s)"
  by (simp add: sealer_open_def Let_def) (simp add: setNonce_eq)

definition subkey :: "bytes \<Rightarrow> bytes \<Rightarrow> bytes" where
  "subkey dek salt = hkdf32 dek salt subkeyInfo"

lemma length_subkey [simp]: "length (subkey dek salt) = 32"
  by (simp add: subkey_def)

lemma newSealer_eq:
  "newSealer dek h =
    (if length dek = 32
     then Inr \<lparr>skey = subkey dek (hsalt h), saad = raw h, schunkSize = chunkSize h,
               snonce = replicate 12 0\<rparr>
     else Inl (Errorf ''stream: DEK is %d bytes, want %d'' []))"
  by (simp add: newSealer_def deriveSubkey_def subkey_def aad_def gcm_NonceSize_def gcm_Overhead_def)

section \<open>The segment of a plaintext\<close>

text \<open>Chunk \<open>i\<close> onwards of a segment: full chunks are sealed as non-final while more plaintext
  follows, and the last chunk, which may be full or empty, as final.\<close>

function seal_from :: "bytes \<Rightarrow> bytes \<Rightarrow> nat \<Rightarrow> 64 word \<Rightarrow> bytes \<Rightarrow> bytes" where
  "seal_from k a c i p =
     (if c = 0 \<or> length p \<le> c then gcm_Seal k (chunkNonce i True) p a
      else gcm_Seal k (chunkNonce i False) (take c p) a @ seal_from k a c (i + 1) (drop c p))"
  by pat_completeness auto
termination
  by (relation "measure (\<lambda>(_, _, _, _, p). length p)") auto

declare seal_from.simps [simp del]

definition seal_segment :: "bytes \<Rightarrow> header \<Rightarrow> bytes \<Rightarrow> bytes" where
  "seal_segment dek h p = raw h @ seal_from (subkey dek (hsalt h)) (raw h) (chunkSize h) 0 p"

text \<open>The non-final chunks of a plaintext that is \<open>m\<close> chunks long.\<close>

primrec seal_full :: "bytes \<Rightarrow> bytes \<Rightarrow> nat \<Rightarrow> nat \<Rightarrow> 64 word \<Rightarrow> bytes \<Rightarrow> bytes" where
  "seal_full k a c 0 i p = []"
| "seal_full k a c (Suc m) i p =
     gcm_Seal k (chunkNonce i False) (take c p) a @ seal_full k a c m (i + 1) (drop c p)"

lemma seal_full_snoc:
  "length p = m * c \<Longrightarrow> length q = c \<Longrightarrow>
   seal_full k a c (Suc m) i (p @ q) =
     seal_full k a c m i p @ gcm_Seal k (chunkNonce (i + word_of_nat m) False) q a"
proof (induction m arbitrary: i p)
  case 0
  then show ?case by simp
next
  case (Suc m)
  have "seal_full k a c (Suc (Suc m)) i (p @ q) =
      gcm_Seal k (chunkNonce i False) (take c p) a @ seal_full k a c (Suc m) (i + 1) (drop c p @ q)"
    using Suc.prems by simp
  also have "seal_full k a c (Suc m) (i + 1) (drop c p @ q) =
      seal_full k a c m (i + 1) (drop c p) @ gcm_Seal k (chunkNonce (i + 1 + word_of_nat m) False) q a"
    using Suc.prems by (intro Suc.IH) auto
  finally show ?case by (simp add: ac_simps)
qed

lemma seal_from_full:
  "0 < c \<Longrightarrow> length p = m * c \<Longrightarrow> q \<noteq> [] \<Longrightarrow>
   seal_from k a c i (p @ q) = seal_full k a c m i p @ seal_from k a c (i + word_of_nat m) q"
proof (induction m arbitrary: i p)
  case 0
  then show ?case by simp
next
  case (Suc m)
  have "c < length (p @ q)"
    using Suc.prems by (cases q) auto
  then have "seal_from k a c i (p @ q) =
      gcm_Seal k (chunkNonce i False) (take c p) a @ seal_from k a c (i + 1) (drop c p @ q)"
    using Suc.prems by (subst seal_from.simps) auto
  also have "seal_from k a c (i + 1) (drop c p @ q) =
      seal_full k a c m (i + 1) (drop c p) @ seal_from k a c (i + 1 + word_of_nat m) q"
    using Suc.prems by (intro Suc.IH) auto
  finally show ?case by (simp add: ac_simps)
qed

lemma length_seal_full: "length p = m * c \<Longrightarrow> length (seal_full k a c m i p) = m * (c + 16)"
  by (induction m arbitrary: i p) auto

section \<open>The writer produces the segment\<close>

text \<open>
  \<open>writer_mid k out0 p w\<close>: the writer holds no error, writes to a sink that does not fail and has
  been given the plaintext \<open>p\<close>, of which \<open>m\<close> full chunks went out as non-final and the rest, at most
  one chunk, waits in the buffer. Between calls (\<open>writer_run\<close>) it is nonempty once a chunk went out.
\<close>

definition writer_mid :: "bytes \<Rightarrow> bytes \<Rightarrow> bytes \<Rightarrow> EncryptWriter \<Rightarrow> bool" where
  "writer_mid k out0 p w \<longleftrightarrow>
     werr w = None \<and> snk_plan (wdst w) = [] \<and>
     wf_sealer (wsealer w) \<and> skey (wsealer w) = k \<and> saad (wsealer w) = raw (wheader w) \<and>
     length (wbuf w) = chunkSize (wheader w) + 16 \<and> wn w \<le> chunkSize (wheader w) \<and>
     wtotal w = int (length p) \<and>
     (\<exists>m q. p = q @ take (wn w) (wbuf w) \<and> length q = m * chunkSize (wheader w) \<and>
        wnext w = word_of_nat m \<and> wheaderWritten w = (0 < m) \<and>
        snk_out (wdst w) = out0 @ (if 0 < m then raw (wheader w) else []) @
          seal_full k (raw (wheader w)) (chunkSize (wheader w)) m 0 q)"

definition writer_run :: "bytes \<Rightarrow> bytes \<Rightarrow> bytes \<Rightarrow> EncryptWriter \<Rightarrow> bool" where
  "writer_run k out0 p w \<longleftrightarrow> writer_mid k out0 p w \<and> (wheaderWritten w \<longrightarrow> 0 < wn w)"

lemma chunkSize_pos [simp]: "0 < chunkSize h" "chunkSize h \<noteq> 0"
  by (simp_all add: chunkSize_def)

lemma length_getChunkBuf [simp]: "length (getChunkBuf stale l) = 2 ^ unat l + 16"
  by (simp add: getChunkBuf_def)

lemma newEncryptWriter_run:
  assumes "newEncryptWriter stale dst dek h = Inr w" and "snk_plan dst = []"
  shows "writer_run (subkey dek (hsalt h)) (snk_out dst) [] w \<and> wheader w = h \<and> \<not> wclosed w"
  using assms
  by (auto simp: newEncryptWriter_def newSealer_eq writer_run_def writer_mid_def wf_sealer_def chunkSize_def
      split: if_splits)

text \<open>What \<open>flush\<close> does to a sink that does not fail.\<close>

lemma flush_reliable:
  fixes final :: bool and w :: EncryptWriter
  assumes "snk_plan (wdst w) = []" and "wf_sealer (wsealer w)" and "saad (wsealer w) = raw (wheader w)"
  defines "sealed \<equiv> gcm_Seal (skey (wsealer w)) (chunkNonce (wnext w) final) (take (wn w) (wbuf w))
             (raw (wheader w))"
  shows "flush final w = (None, w\<lparr>wdst := (wdst w)\<lparr>snk_out := snk_out (wdst w) @
           (if wheaderWritten w then [] else raw (wheader w)) @ sealed\<rparr>,
         wheaderWritten := True, wsealer := setNonce (wnext w) final (wsealer w),
         wbuf := copy_at 0 sealed (wbuf w), wnext := wnext w + 1, wn := 0\<rparr>)"
  using assms(1-3) unfolding sealed_def by (simp add: flush_def sealer_seal_eq Let_def)

text \<open>An iteration of \<open>Write\<close>: \<open>flush(false)\<close> when the buffer is full, then the copy.\<close>

lemma flush_mid:
  assumes r: "writer_mid k out0 p w" and full: "wn w = chunkSize (wheader w)"
  shows "\<exists>w'. flush False w = (None, w') \<and> writer_mid k out0 p w' \<and> wn w' = 0 \<and>
    wheader w' = wheader w \<and> wclosed w' = wclosed w"
proof -
  let ?c = "chunkSize (wheader w)" and ?a = "raw (wheader w)"
  from r obtain m q where m: "p = q @ take (wn w) (wbuf w)" "length q = m * ?c"
      "wnext w = word_of_nat m" "wheaderWritten w = (0 < m)"
      "snk_out (wdst w) = out0 @ (if 0 < m then ?a else []) @ seal_full k ?a ?c m 0 q"
    by (auto simp: writer_mid_def)
  have len: "length (take (wn w) (wbuf w)) = ?c"
    using r full by (simp add: writer_mid_def)
  have s: "seal_full k ?a ?c (Suc m) 0 p =
      seal_full k ?a ?c m 0 q @ gcm_Seal k (chunkNonce (word_of_nat m) False) (take (wn w) (wbuf w)) ?a"
    unfolding m(1) by (subst seal_full_snoc [OF m(2) len]) simp
  have l: "length p = Suc m * ?c"
    using m(1,2) len by simp
  define sealed where
    "sealed = gcm_Seal k (chunkNonce (word_of_nat m) False) (take (wn w) (wbuf w)) ?a"
  define w' where "w' = w\<lparr>wdst := (wdst w)\<lparr>snk_out := out0 @ ?a @ seal_full k ?a ?c (Suc m) 0 p\<rparr>,
    wheaderWritten := True, wsealer := setNonce (wnext w) False (wsealer w),
    wbuf := copy_at 0 sealed (wbuf w), wnext := word_of_nat m + 1, wn := 0\<rparr>"
  have sk: "skey (wsealer w) = k" "snk_plan (wdst w) = []" "wf_sealer (wsealer w)" "saad (wsealer w) = ?a"
    using r by (simp_all add: writer_mid_def)
  have "flush False w = (None, w')"
    unfolding flush_reliable [OF sk(2,3,4)] w'_def s
    by (cases "0 < m") (simp_all add: sealed_def sk(1) m(3,4,5) del: seal_full.simps(2))
  moreover have "\<exists>n q. p = q @ take (wn w') (wbuf w') \<and> length q = n * chunkSize (wheader w') \<and>
        wnext w' = word_of_nat n \<and> wheaderWritten w' = (0 < n) \<and>
        snk_out (wdst w') = out0 @ (if 0 < n then raw (wheader w') else []) @
          seal_full k (raw (wheader w')) (chunkSize (wheader w')) n 0 q"
    by (rule exI [of _ "Suc m"], rule exI [of _ p]) (use l in \<open>simp add: w'_def del: seal_full.simps\<close>)
  then have "writer_mid k out0 p w'"
    using r unfolding writer_mid_def by (simp add: w'_def del: seal_full.simps)
  ultimately show ?thesis
    by (simp add: w'_def)
qed

lemma take_copy_at:
  "n \<le> length b \<Longrightarrow> length x \<le> length b - n \<Longrightarrow> take (n + length x) (copy_at n x b) = take n b @ x"
  by (simp add: copy_at_def min_def)

lemma copy_mid:
  assumes r: "writer_mid k out0 p w" and x: "x \<noteq> []" "wn w + length x \<le> chunkSize (wheader w)"
  shows "writer_run k out0 (p @ x) (w\<lparr>wbuf := copy_at (wn w) x (wbuf w), wn := wn w + length x,
           wtotal := wtotal w + int (length x)\<rparr>)"
proof -
  have "take (wn w + length x) (copy_at (wn w) x (wbuf w)) = take (wn w) (wbuf w) @ x"
    using r x by (intro take_copy_at) (auto simp: writer_mid_def)
  with r x show ?thesis
    by (auto simp: writer_run_def writer_mid_def)
qed

lemma write_loop_run:
  assumes "writer_run k out0 p w" and "length p + length x \<le> 2 ^ 46"
  shows "\<exists>w'. write_loop x written w = (written + length x, None, w') \<and>
    writer_run k out0 (p @ x) w' \<and> wheader w' = wheader w \<and> wclosed w' = wclosed w"
  using assms
proof (induction "length x" arbitrary: x p w written rule: less_induct)
  case less
  let ?c = "chunkSize (wheader w)"
  show ?case
  proof (cases "x = []")
    case True
    with less.prems show ?thesis by (simp add: write_loop.simps)
  next
    case False
    obtain w1 where w1: "(if wn w = ?c then flush False w else (None, w)) = (None, w1)"
        "writer_mid k out0 p w1" "wn w1 < ?c" "wheader w1 = wheader w" "wclosed w1 = wclosed w"
    proof (cases "wn w = ?c")
      case True
      with flush_mid [of k out0 p w] less.prems that show ?thesis
        unfolding writer_run_def by force
    next
      case False
      moreover have "wn w \<le> ?c" "writer_mid k out0 p w"
        using less.prems by (simp_all add: writer_run_def writer_mid_def)
      ultimately show ?thesis
        by (intro that [of w]) simp_all
    qed
    define n where "n = min (?c - wn w1) (length x)"
    have n: "0 < n" "n \<le> length x" "wn w1 + n \<le> ?c"
      using w1(3) False by (auto simp: n_def)
    define w2 where "w2 = w1\<lparr>wbuf := copy_at (wn w1) (take n x) (wbuf w1), wn := wn w1 + n,
      wtotal := wtotal w1 + int n\<rparr>"
    have "wtotal w1 = int (length p)"
      using w1(2) by (simp add: writer_mid_def)
    then have tot: "add64 (wtotal w1) (int n) = wtotal w1 + int n" "\<not> wtotal w1 + int n > 2 ^ 46"
      using less.prems n by (auto simp: add64_def in64_def)
    have "writer_run k out0 (p @ take n x) w2"
      using copy_mid [of k out0 p w1 "take n x"] w1(2,4) n False
      unfolding w2_def by (simp add: min_absorb2)
    moreover have "length x - n < length x"
      using n by simp
    ultimately obtain w3 where w3: "write_loop (drop n x) (written + n) w2 =
          (written + n + length (drop n x), None, w3)"
        "writer_run k out0 (p @ take n x @ drop n x) w3" "wheader w3 = wheader w2"
        "wclosed w3 = wclosed w2"
      using less.hyps [of "drop n x" "p @ take n x" w2 "written + n"] n less.prems by auto
    have "write_loop x written w = write_loop (drop n x) (written + n) w2"
      using False w1 n tot
      by (subst write_loop.simps) (simp add: w2_def Let_def flip: n_def)
    with w3 n w1 show ?thesis
      by (auto simp: w2_def)
  qed
qed

lemma Write_run:
  assumes "writer_run k out0 p w" "\<not> wclosed w" and "length p + length x \<le> 2 ^ 46"
  shows "\<exists>w'. Write x w = (length x, None, w') \<and>
    writer_run k out0 (p @ x) w' \<and> wheader w' = wheader w \<and> \<not> wclosed w'"
  using write_loop_run [OF assms(1,3), of 0] assms(1,2)
  by (auto simp: Write_def writer_run_def writer_mid_def)

text \<open>\<open>Close\<close> seals what is buffered as the final chunk.\<close>

lemma CloseWriter_run:
  assumes r: "writer_run k out0 p w" and "\<not> wclosed w"
  shows "\<exists>w'. CloseWriter w = (None, w') \<and> wclosed w' \<and> werr w' = None \<and> wtotal w' = int (length p) \<and>
    snk_out (wdst w') = out0 @ raw (wheader w) @ seal_from k (raw (wheader w)) (chunkSize (wheader w)) 0 p"
proof -
  let ?c = "chunkSize (wheader w)" and ?a = "raw (wheader w)" and ?b = "take (wn w) (wbuf w)"
  from r obtain m q where m: "p = q @ ?b" "length q = m * ?c"
      "wnext w = word_of_nat m" "wheaderWritten w = (0 < m)" "0 < m \<longrightarrow> 0 < wn w"
      "snk_out (wdst w) = out0 @ (if 0 < m then ?a else []) @ seal_full k ?a ?c m 0 q"
    by (auto simp: writer_run_def writer_mid_def)
  have w: "skey (wsealer w) = k" "snk_plan (wdst w) = []" "wf_sealer (wsealer w)"
    "saad (wsealer w) = ?a" "werr w = None" "length ?b \<le> ?c" "wtotal w = int (length p)"
    "length ?b = wn w"
    using r by (simp_all add: writer_run_def writer_mid_def)
  have last: "seal_from k ?a ?c i ?b = gcm_Seal k (chunkNonce i True) ?b ?a" for i
    using w(6) by (subst seal_from.simps) simp
  have "seal_from k ?a ?c 0 p = seal_full k ?a ?c m 0 q @ gcm_Seal k (chunkNonce (word_of_nat m) True) ?b ?a"
  proof (cases "m = 0")
    case True
    then show ?thesis using m(1,2) last by simp
  next
    case False
    then have "?b \<noteq> []" using m(5) w(8) by auto
    then show ?thesis
      unfolding m(1) using seal_from_full [of ?c q m ?b k ?a 0] m(2) last by simp
  qed
  moreover have "flush True (w\<lparr>wclosed := True\<rparr>) = (None, (w\<lparr>wclosed := True\<rparr>)\<lparr>wdst := (wdst w)\<lparr>snk_out :=
         snk_out (wdst w) @ (if wheaderWritten w then [] else ?a) @
         gcm_Seal k (chunkNonce (wnext w) True) ?b ?a\<rparr>,
       wheaderWritten := True, wsealer := setNonce (wnext w) True (wsealer w),
       wbuf := copy_at 0 (gcm_Seal k (chunkNonce (wnext w) True) ?b ?a) (wbuf w),
       wnext := wnext w + 1, wn := 0\<rparr>)"
    using flush_reliable [of "w\<lparr>wclosed := True\<rparr>" True] w by simp
  ultimately show ?thesis
    using w assms(2) m(3,4,6) by (cases "0 < m") (auto simp: CloseWriter_def)
qed

text \<open>A client's session: write pieces in turn, stopping at the first error, then close.\<close>

fun writes :: "bytes list \<Rightarrow> EncryptWriter \<Rightarrow> err option \<times> EncryptWriter" where
  "writes [] w = (None, w)"
| "writes (x # xs) w =
     (case Write x w of (_, Some e, w') \<Rightarrow> (Some e, w') | (_, None, w') \<Rightarrow> writes xs w')"

lemma writes_run:
  assumes "writer_run k out0 p w" "\<not> wclosed w" and "length p + length (concat xs) \<le> 2 ^ 46"
  shows "\<exists>w'. writes xs w = (None, w') \<and>
    writer_run k out0 (p @ concat xs) w' \<and> wheader w' = wheader w \<and> \<not> wclosed w'"
  using assms
proof (induction xs arbitrary: p w)
  case Nil
  then show ?case by simp
next
  case (Cons x xs)
  obtain w1 where "Write x w = (length x, None, w1)" "writer_run k out0 (p @ x) w1"
      "wheader w1 = wheader w" "\<not> wclosed w1"
    using Write_run [of k out0 p w x] Cons.prems by auto
  with Cons.IH [of "p @ x" w1] Cons.prems show ?case by auto
qed

definition encrypt_session ::
  "bytes result \<Rightarrow> (nat \<Rightarrow> byte) \<Rightarrow> sink \<Rightarrow> bytes \<Rightarrow> SegmentParams \<Rightarrow> bytes list \<Rightarrow> EncryptWriter result"
where
  "encrypt_session rnd stale dst dek p xs =
     ebind (NewEncryptWriter rnd stale dst dek p) (\<lambda>w.
       case writes xs w of
         (Some e, w') \<Rightarrow> Inl e
       | (None, w') \<Rightarrow> (case CloseWriter w' of (Some e, w'') \<Rightarrow> Inl e | (None, w'') \<Rightarrow> Inr w''))"

lemma encrypt_session_ok:
  assumes "Validate p = None" and "length salt = SaltSize" and "length dek = KeySize"
    and "length (concat xs) \<le> 2 ^ 46" and "snk_plan dst = []"
  shows "\<exists>w. encrypt_session (Inr salt) stale dst dek p xs = Inr w \<and>
    snk_out (wdst w) = snk_out dst @
      seal_segment dek \<lparr>hparams = p, hsalt = salt, raw = header_layout p salt\<rparr> (concat xs) \<and>
    PlaintextSize w = int (length (concat xs))"
proof -
  define h where "h = \<lparr>hparams = p, hsalt = salt, raw = header_layout p salt\<rparr>"
  obtain w0 where w0: "NewEncryptWriter (Inr salt) stale dst dek p = Inr w0"
      "newEncryptWriter stale dst dek h = Inr w0"
    using newHeader_ok [OF assms(1,2)] assms(3)
    by (simp add: NewEncryptWriter_def newEncryptWriter_def newSealer_eq h_def)
  note r0 = newEncryptWriter_run [OF w0(2) assms(5)]
  obtain w1 where w1: "writes xs w0 = (None, w1)" "wheader w1 = h" "\<not> wclosed w1"
      "writer_run (subkey dek (hsalt h)) (snk_out dst) (concat xs) w1"
    using writes_run [of _ _ "[]" w0 xs] r0 assms(4) by auto
  obtain w2 where "CloseWriter w1 = (None, w2)" "wtotal w2 = int (length (concat xs))"
      "snk_out (wdst w2) = snk_out dst @ seal_segment dek h (concat xs)"
    using CloseWriter_run [OF w1(4,3)] w1(2) by (auto simp: seal_segment_def)
  with w0 w1 show ?thesis
    by (simp add: encrypt_session_def PlaintextSize_def h_def)
qed

section \<open>Errors are terminal\<close>

lemma fail_eq: "werr w = None \<Longrightarrow> fail e w = (Some e, w\<lparr>werr := Some e\<rparr>)"
  by (simp add: fail_def)

lemma flush_error:
  assumes "flush final w = (Some e, w')" and "werr w = None"
  shows "werr w' = Some e \<and> wclosed w' = wclosed w"
  using assms
  by (auto simp: flush_def fail_eq Let_def sealer_seal_def split: prod.splits option.splits if_splits)

lemma flush_ok:
  assumes "flush final w = (None, w')" and "werr w = None"
  shows "werr w' = None \<and> wclosed w' = wclosed w"
  using assms
  by (auto simp: flush_def fail_eq Let_def sealer_seal_def split: prod.splits option.splits if_splits)

lemma write_loop_error:
  assumes "write_loop p n w = (m, Some e, w')" and "werr w = None"
  shows "werr w' = Some e \<and> wclosed w' = wclosed w"
  using assms
proof (induction p n w rule: write_loop.induct)
  case (1 p written w)
  show ?case
  proof (cases "if wn w = chunkSize (wheader w) then flush False w else (None, w)")
    case (Pair x w1)
    have pn: "p \<noteq> []"
      using "1.prems" by (auto simp: write_loop.simps)
    show ?thesis
    proof (cases x)
      case (Some y)
      then have "flush False w = (Some y, w1)" "e = y" "w' = w1"
        using Pair pn "1.prems"(1) by (auto simp: write_loop.simps split: if_splits)
      then show ?thesis
        using flush_error "1.prems"(2) by simp
    next
      case None
      have w1: "werr w1 = None" "wclosed w1 = wclosed w"
        using Pair None "1.prems"(2) flush_ok by (auto split: if_splits)
      let ?n = "min (chunkSize (wheader w1) - wn w1) (length p)"
      note un = write_loop.simps [of p written w, unfolded Pair None]
      show ?thesis
      proof (cases "?n \<noteq> 0 \<and> add64 (wtotal w1) (int ?n) \<le> MaxPlaintextSize")
        case True
        have "write_loop (drop ?n p) (written + ?n) (w1\<lparr>wbuf := copy_at (wn w1) (take ?n p) (wbuf w1),
            wn := wn w1 + ?n, wtotal := add64 (wtotal w1) (int ?n)\<rparr>) = (m, Some e, w')"
          using "1.prems"(1) un pn True by (simp add: Let_def)
        then have "werr w' = Some e \<and> wclosed w' = wclosed (w1\<lparr>wbuf := copy_at (wn w1) (take ?n p) (wbuf w1),
            wn := wn w1 + ?n, wtotal := add64 (wtotal w1) (int ?n)\<rparr>)"
          using True w1 pn Pair None by (intro "1.IH") auto
        then show ?thesis using w1 by simp
      next
        case False
        then show ?thesis
          using "1.prems"(1) un pn w1 by (auto simp: Let_def fail_eq not_le split: if_splits)
      qed
    qed
  qed
qed

text \<open>A failed write is final. Once \<open>Write\<close> reports an error (of the destination, or the size limit),
  every later \<open>Write\<close> reports the same error and accepts nothing, \<open>Close\<close> reports it too, and neither
  sends another byte to the destination: no final chunk follows a failure.\<close>

theorem write_error_terminal:
  assumes "Write p w = (n, Some e, w')" and "werr w = None" and "\<not> wclosed w"
  shows "Write q w' = (0, Some e, w') \<and> fst (CloseWriter w') = Some e \<and>
    wdst (snd (CloseWriter w')) = wdst w' \<and> Write q (snd (CloseWriter w')) = (0, Some e, snd (CloseWriter w'))"
proof -
  have "werr w' = Some e \<and> wclosed w' = wclosed w"
    using assms write_loop_error [of p 0 w n e w'] by (simp add: Write_def)
  then show ?thesis
    using assms(3) by (simp add: Write_def CloseWriter_def Let_def)
qed

theorem write_error_terminal_witness:
  "\<exists>w w' e. Write [1] w = (0, Some e, w') \<and> Write [2] w' = (0, Some e, w')"
proof -
  define w where "w = \<lparr>wdst = new_sink, wheader = \<lparr>hparams = \<lparr>Log2ChunkSize = 12, Multipart = False, Index = 0\<rparr>,
    hsalt = [], raw = []\<rparr>, wsealer = \<lparr>skey = [], saad = [], schunkSize = 4096, snonce = replicate 12 0\<rparr>,
    wbuf = replicate 4112 0, wn = 0, wnext = 0, wtotal = 2 ^ 46, wheaderWritten = False, wclosed = False,
    werr = None\<rparr>"
  have c: "chunkSize (wheader w) = 4096" by (simp add: w_def chunkSize_def)
  obtain e w' where e: "Write [1] w = (0, Some e, w')"
    using c by (auto simp: Write_def write_loop.simps w_def add64_def in64_def fail_def Let_def)
  from write_error_terminal [OF e, of "[2]"] e show ?thesis
    by (intro exI [of _ w] exI [of _ w'] exI [of _ e]) (simp add: w_def)
qed

end
