(* ===== verification/SegmentDecrypt.thy ===== *)
theory SegmentDecrypt
  imports SegmentCipher "HOL-Library.Sublist"
begin

text \<open>
  \<open>internal/crypto/stream/decrypt.go\<close>: \<open>DecryptReader\<close> as a record of its fields, with \<open>fill\<close>, \<open>Read\<close>,
  \<open>VerifyFirst\<close>, \<open>Close\<close> and the terminal-error discipline. The reader is related to \<open>open_from\<close>, the
  plaintext and the outcome of a ciphertext as one recursion over its chunks, and interprets the
  contract \<open>byte_reader\<close> of the prelude; the round trip with the encoder and the authenticity of what
  is emitted follow.
\<close>

section \<open>The code\<close>

text \<open>\<open>rbuf\<close> is the length of the chunk buffer, \<open>None\<close> once it is released: \<open>fill\<close> overwrites the
  contents before anything reads them.\<close>

record DecryptReader =
  rsrc :: source
  rheader :: header
  rsealer :: sealer
  rbuf :: "nat option"
  rplain :: bytes
  rnext :: "64 word"
  rdone :: bool
  rerr :: "err option"

definition NewDecryptReader :: "source \<Rightarrow> bytes \<Rightarrow> SegmentParams \<Rightarrow> DecryptReader result" where
  "NewDecryptReader src dek want =
     echeck (validateExpectation want)
       (case read_full HeaderSize src of
          (_, Some e, _) \<Rightarrow>
            (if errors_is EOF e \<or> errors_is UnexpectedEOF e
             then Inl (integrityf KindHeader ''segment is shorter than its %d-byte header'')
             else Inl e)
        | (b, None, br) \<Rightarrow>
            ebind (parseHeader b) (\<lambda>h.
            echeck (requireParams h want)
              (ebind (newSealer dek h) (\<lambda>s.
                 Inr \<lparr>rsrc = br, rheader = h, rsealer = s,
                      rbuf = Some (2 ^ unat (Log2ChunkSize (hparams h)) + TagSize),
                      rplain = [], rnext = 0, rdone = False, rerr = None\<rparr>))))"

definition releaseD :: "DecryptReader \<Rightarrow> DecryptReader" where
  "releaseD r = r\<lparr>rbuf := None, rplain := []\<rparr>"

definition setErrD :: "err \<Rightarrow> DecryptReader \<Rightarrow> err option \<times> DecryptReader" where
  "setErrD e r =
     (let r' = releaseD (if rerr r = None then r\<lparr>rerr := Some e\<rparr> else r) in (rerr r', r'))"

definition openInto :: "bytes \<Rightarrow> bool \<Rightarrow> DecryptReader \<Rightarrow> err option \<times> DecryptReader" where
  "openInto full final r =
     (case sealer_open full (rnext r) final (rsealer r) of
        (Inl e, s) \<Rightarrow> setErrD e (r\<lparr>rsealer := s\<rparr>)
      | (Inr plain, s) \<Rightarrow>
          (None, r\<lparr>rsealer := s, rplain := plain, rnext := rnext r + 1, rdone := final\<rparr>))"

definition fillD :: "DecryptReader \<Rightarrow> err option \<times> DecryptReader" where
  "fillD r =
     (case rbuf r of
        None \<Rightarrow> setErrD (integrityf KindChunk ''reader already released'') r
      | Some cap \<Rightarrow>
          (case read_full cap (rsrc r) of
             (full, err, src) \<Rightarrow>
               (let r1 = r\<lparr>rsrc := src\<rparr> in
                case err of
                  None \<Rightarrow>
                    (case peek1 src of
                       Some perr \<Rightarrow>
                         (if \<not> errors_is EOF perr then setErrD perr r1 else openInto full True r1)
                     | None \<Rightarrow> openInto full False r1)
                | Some e \<Rightarrow>
                    (if errors_is UnexpectedEOF e then
                       (if length full < TagSize
                        then setErrD (chunkErrorf (rnext r)
                               ''truncated: %d bytes left, which is less than a bare tag'') r1
                        else if length full = TagSize \<and> rnext r > 0
                        then setErrD (chunkErrorf (rnext r)
                               ''empty chunk, which is only valid as the single chunk of an empty segment'') r1
                        else openInto full True r1)
                     else if errors_is EOF e
                     then setErrD (chunkErrorf (rnext r) ''segment ends after a non-final chunk'') r1
                     else setErrD e r1))))"

definition VerifyFirstD :: "DecryptReader \<Rightarrow> err option \<times> DecryptReader" where
  "VerifyFirstD r =
     (if rerr r \<noteq> None then (rerr r, r)
      else if rnext r > 0 \<or> rdone r then (None, r)
      else fillD r)"

definition HeaderD :: "DecryptReader \<Rightarrow> SegmentParams" where
  "HeaderD r = hparams (rheader r)"

definition SaltD :: "DecryptReader \<Rightarrow> bytes" where
  "SaltD r = hsalt (rheader r)"

definition CloseD :: "DecryptReader \<Rightarrow> DecryptReader" where
  "CloseD r = releaseD r"

text \<open>A \<open>fill\<close> that succeeds consumed at least a tag, which is why the loop of \<open>Read\<close> ends.\<close>

lemma setErrD_not_None [simp]: "setErrD e r \<noteq> (None, r')"
  by (auto simp: setErrD_def releaseD_def Let_def)

lemma openInto_None:
  assumes "openInto full final r = (None, r')"
  shows "16 \<le> length full \<and> rsrc r' = rsrc r"
proof -
  let ?o = "gcm_Open (skey (rsealer r)) (snonce (setNonce (rnext r) final (rsealer r))) full (saad (rsealer r))"
  have "?o \<noteq> None \<and> rsrc r' = rsrc r"
    using assms by (cases ?o) (auto simp: openInto_def sealer_open_def Let_def)
  then show ?thesis
    by (cases "length full < 16") (simp_all add: gcm.open_too_short)
qed

lemma fillD_consumes:
  assumes "fillD r = (None, r')"
  shows "length (src_data (rsrc r')) < length (src_data (rsrc r))"
proof -
  obtain cap where b: "rbuf r = Some cap"
    using assms by (cases "rbuf r") (auto simp: fillD_def)
  obtain full err src where rd: "read_full cap (rsrc r) = (full, err, src)"
    by (metis prod_cases3)
  have "\<exists>f. openInto full f (r\<lparr>rsrc := src\<rparr>) = (None, r')"
    using assms by (auto simp: fillD_def b rd Let_def split: option.splits if_splits)
  then have "16 \<le> length full" "rsrc r' = src"
    using openInto_None by fastforce+
  moreover have "length (src_data src) + length full = length (src_data (rsrc r))"
    using rd by (auto simp: read_full_def split: if_splits)
  ultimately show ?thesis by simp
qed

function readLoopD :: "nat \<Rightarrow> DecryptReader \<Rightarrow> bytes \<times> err option \<times> DecryptReader" where
  "readLoopD k r =
     (if rplain r \<noteq> [] then (take k (rplain r), None, r\<lparr>rplain := drop k (rplain r)\<rparr>)
      else if rdone r then ([], Some (Sentinel EOF), releaseD r)
      else case fillD r of
             (Some e, r') \<Rightarrow> ([], Some e, r')
           | (None, r') \<Rightarrow> readLoopD k r')"
  by pat_completeness auto
termination
  by (relation "measure (\<lambda>(_, r). length (src_data (rsrc r)))") (auto dest: fillD_consumes [OF sym])

declare readLoopD.simps [simp del]

definition ReadD :: "nat \<Rightarrow> DecryptReader \<Rightarrow> bytes \<times> err option \<times> DecryptReader" where
  "ReadD k r = (if rerr r \<noteq> None then ([], rerr r, r) else readLoopD k r)"

section \<open>The plaintext of a ciphertext\<close>

text \<open>One chunk of the ciphertext: its plaintext, whether it is the final one, and what is left; or
  the error it gives.\<close>

definition open_chunk :: "bytes \<Rightarrow> bytes \<Rightarrow> 64 word \<Rightarrow> bytes \<Rightarrow> bool \<Rightarrow> source \<Rightarrow> (bytes \<times> bool \<times> source) result" where
  "open_chunk k a i b final s =
     (case gcm_Open k (chunkNonce i final) b a of
        None \<Rightarrow> Inl (chunkErrorf i ''authentication failed (final=%t)'')
      | Some p \<Rightarrow> Inr (p, final, s))"

definition chunk_step :: "bytes \<Rightarrow> bytes \<Rightarrow> nat \<Rightarrow> 64 word \<Rightarrow> source \<Rightarrow> (bytes \<times> bool \<times> source) result" where
  "chunk_step k a c i s =
     (case read_full (c + 16) s of
        (b, None, s') \<Rightarrow>
          (case peek1 s' of
             None \<Rightarrow> open_chunk k a i b False s'
           | Some e \<Rightarrow> if errors_is EOF e then open_chunk k a i b True s' else Inl e)
      | (b, Some e, s') \<Rightarrow>
          (if errors_is UnexpectedEOF e then
             (if length b < 16
              then Inl (chunkErrorf i ''truncated: %d bytes left, which is less than a bare tag'')
              else if length b = 16 \<and> i > 0
              then Inl (chunkErrorf i ''empty chunk, which is only valid as the single chunk of an empty segment'')
              else open_chunk k a i b True s')
           else if errors_is EOF e then Inl (chunkErrorf i ''segment ends after a non-final chunk'')
           else Inl e))"

lemma open_chunk_Inr:
  "open_chunk k a i b f s = Inr (p, g, t) \<longleftrightarrow> b = gcm_Seal k (chunkNonce i f) p a \<and> g = f \<and> t = s"
  by (cases "gcm_Open k (chunkNonce i f) b a")
    (auto simp: open_chunk_def gcm.open_iff gcm.seal_inj dest: gcm.open_is_seal)

lemma chunk_step_Inr:
  assumes "chunk_step k a c i s = Inr (p, f, s')"
  shows "src_data s = gcm_Seal k (chunkNonce i f) p a @ src_data s' \<and> src_end s' = src_end s \<and>
    (f \<longleftrightarrow> src_data s' = []) \<and> (f \<or> length p = c) \<and> length p \<le> c \<and>
    (f \<longrightarrow> errors_is EOF (src_end s) \<or> errors_is UnexpectedEOF (src_end s))"
proof (cases "c + 16 \<le> length (src_data s)")
  case True
  let ?b = "take (c + 16) (src_data s)"
  have "open_chunk k a i ?b f (s\<lparr>src_data := drop (c + 16) (src_data s)\<rparr>) = Inr (p, f, s')"
    and f: "f \<longleftrightarrow> drop (c + 16) (src_data s) = []" "f \<Longrightarrow> errors_is EOF (src_end s)"
    using assms True
    by (auto simp: chunk_step_def read_full_def peek1_def open_chunk_Inr split: if_splits)
  then have b: "?b = gcm_Seal k (chunkNonce i f) p a" and s': "s' = s\<lparr>src_data := drop (c + 16) (src_data s)\<rparr>"
    by (auto simp: open_chunk_Inr)
  have "length p + 16 = c + 16"
    using True arg_cong [OF b, of length] by simp
  moreover have "src_data s = gcm_Seal k (chunkNonce i f) p a @ src_data s'"
    using append_take_drop_id [of "c + 16" "src_data s"] b s' by simp
  ultimately show ?thesis
    using f s' by auto
next
  case False
  have f: "f" "src_data s = gcm_Seal k (chunkNonce i f) p a" "s' = s\<lparr>src_data := []\<rparr>"
    "errors_is EOF (src_end s) \<or> errors_is UnexpectedEOF (src_end s)"
    using assms False
    by (auto simp: chunk_step_def read_full_def open_chunk_Inr split: if_splits)
  then have "length p + 16 < c + 16"
    using False by simp
  with f show ?thesis by auto
qed

function open_from :: "bytes \<Rightarrow> bytes \<Rightarrow> nat \<Rightarrow> 64 word \<Rightarrow> source \<Rightarrow> bytes \<times> err" where
  "open_from k a c i s =
     (case chunk_step k a c i s of
        Inl e \<Rightarrow> ([], e)
      | Inr (p, final, s') \<Rightarrow>
          if final then (p, Sentinel EOF)
          else (p @ fst (open_from k a c (i + 1) s'), snd (open_from k a c (i + 1) s')))"
  by pat_completeness auto
termination
  by (relation "measure (\<lambda>(_, _, _, _, s). length (src_data s))") (auto dest!: chunk_step_Inr)

declare open_from.simps [simp del]

section \<open>The reader against its specification\<close>

definition readerD_inv :: "DecryptReader \<Rightarrow> bool" where
  "readerD_inv r \<longleftrightarrow> rerr r = None \<and> rbuf r = Some (chunkSize (rheader r) + 16) \<and> wf_sealer (rsealer r)"

definition ahead :: "DecryptReader \<Rightarrow> bytes \<times> err" where
  "ahead r =
     (if rdone r then ([], Sentinel EOF)
      else open_from (skey (rsealer r)) (saad (rsealer r)) (chunkSize (rheader r)) (rnext r) (rsrc r))"

definition restD :: "DecryptReader \<Rightarrow> bytes" where
  "restD r = rplain r @ fst (ahead r)"

definition outcomeD :: "DecryptReader \<Rightarrow> err" where
  "outcomeD r = snd (ahead r)"

lemma openInto_open_chunk:
  assumes "wf_sealer (rsealer r)" and "rerr r = None"
  shows "case open_chunk (skey (rsealer r)) (saad (rsealer r)) (rnext r) b f (rsrc r) of
      Inl e \<Rightarrow> \<exists>r'. openInto b f r = (Some e, r') \<and> rerr r' = Some e \<and> rbuf r' = None
    | Inr (p, f', s') \<Rightarrow> openInto b f r =
        (None, r\<lparr>rsealer := setNonce (rnext r) f (rsealer r), rplain := p, rnext := rnext r + 1, rdone := f'\<rparr>)
        \<and> s' = rsrc r"
  using assms
  by (auto simp: openInto_def open_chunk_def sealer_open_eq setErrD_def releaseD_def Let_def
      split: option.splits)

lemma setErrD_eq: "rerr r = None \<Longrightarrow> setErrD e r = (Some e, releaseD (r\<lparr>rerr := Some e\<rparr>))"
  by (simp add: setErrD_def releaseD_def Let_def)

text \<open>\<open>fill\<close> is one \<open>chunk_step\<close>.\<close>

lemma fillD_chunk_step:
  assumes "readerD_inv r"
  shows "case chunk_step (skey (rsealer r)) (saad (rsealer r)) (chunkSize (rheader r)) (rnext r) (rsrc r) of
      Inl e \<Rightarrow> \<exists>r'. fillD r = (Some e, r') \<and> rerr r' = Some e \<and> rbuf r' = None
    | Inr (p, f, s') \<Rightarrow> fillD r =
        (None, r\<lparr>rsrc := s', rsealer := setNonce (rnext r) f (rsealer r), rplain := p,
                 rnext := rnext r + 1, rdone := f\<rparr>)"
proof -
  obtain b e s' where rd: "read_full (chunkSize (rheader r) + 16) (rsrc r) = (b, e, s')"
    by (metis prod_cases3)
  have buf: "rbuf r = Some (chunkSize (rheader r) + 16)" and e0: "rerr r = None" "wf_sealer (rsealer r)"
    using assms by (simp_all add: readerD_inv_def)
  let ?r1 = "r\<lparr>rsrc := s'\<rparr>"
  have oi: "case open_chunk (skey (rsealer r)) (saad (rsealer r)) (rnext r) b f s' of
      Inl e \<Rightarrow> \<exists>r'. openInto b f ?r1 = (Some e, r') \<and> rerr r' = Some e \<and> rbuf r' = None
    | Inr (p, f', t) \<Rightarrow> openInto b f ?r1 =
        (None, ?r1\<lparr>rsealer := setNonce (rnext r) f (rsealer r), rplain := p, rnext := rnext r + 1, rdone := f'\<rparr>)
        \<and> t = s' \<and> f' = f" for f
    using openInto_open_chunk [of ?r1 b f] e0
    by (auto split: sum.splits dest: open_chunk_Inr [THEN iffD1])
  have se: "\<exists>r'. setErrD x ?r1 = (Some x, r') \<and> rerr r' = Some x \<and> rbuf r' = None" for x
    using e0 by (simp add: setErrD_eq releaseD_def)
  show ?thesis
  proof (cases e)
    case None
    then show ?thesis
      using oi [of True] oi [of False] se
      by (cases "peek1 s'") (auto simp: fillD_def chunk_step_def buf rd split: sum.splits)
  next
    case (Some x)
    then show ?thesis
      using oi [of True] se
      by (auto simp: fillD_def chunk_step_def buf rd split: sum.splits)
  qed
qed

lemma chunk_step_not_EOF: "chunk_step k a c i s \<noteq> Inl (Sentinel EOF)"
  by (auto simp: chunk_step_def open_chunk_def chunkErrorf_def split: prod.splits option.splits)

lemma fillD_cases:
  assumes inv: "readerD_inv r" and nd: "\<not> rdone r" and pl: "rplain r = []"
  obtains (error) e r' where "fillD r = (Some e, r')" "rerr r' = Some e" "rbuf r' = None"
      "restD r = []" "outcomeD r = e" "e \<noteq> Sentinel EOF"
    | (chunk) r' where "fillD r = (None, r')" "readerD_inv r'" "restD r' = restD r"
      "outcomeD r' = outcomeD r" "rdone r' \<or> rplain r' \<noteq> []" "rheader r' = rheader r"
      "rnext r' = rnext r + 1"
proof -
  let ?k = "skey (rsealer r)" and ?a = "saad (rsealer r)" and ?c = "chunkSize (rheader r)"
  note fs = fillD_chunk_step [OF inv]
  have ah: "ahead r = open_from ?k ?a ?c (rnext r) (rsrc r)"
    using nd by (simp add: ahead_def)
  show thesis
  proof (cases "chunk_step ?k ?a ?c (rnext r) (rsrc r)")
    case (Inl e)
    with fs obtain r' where "fillD r = (Some e, r')" "rerr r' = Some e" "rbuf r' = None" by auto
    moreover have "restD r = []" "outcomeD r = e"
      using Inl pl ah by (simp_all add: restD_def outcomeD_def open_from.simps)
    moreover have "e \<noteq> Sentinel EOF"
      using Inl chunk_step_not_EOF by metis
    ultimately show thesis by (rule error)
  next
    case (Inr x)
    obtain p f s' where x: "x = (p, f, s')" by (cases x)
    define r' where "r' = r\<lparr>rsrc := s', rsealer := setNonce (rnext r) f (rsealer r), rplain := p,
      rnext := rnext r + 1, rdone := f\<rparr>"
    have "fillD r = (None, r')"
      using fs Inr x by (simp add: r'_def)
    moreover have "readerD_inv r'"
      using inv by (simp add: r'_def readerD_inv_def)
    moreover have "restD r' = restD r" "outcomeD r' = outcomeD r"
      using Inr x pl unfolding restD_def outcomeD_def ah open_from.simps [of ?k ?a ?c "rnext r" "rsrc r"]
      by (simp_all add: ahead_def r'_def)
    moreover have "rdone r' \<or> rplain r' \<noteq> []"
      using chunk_step_Inr [of ?k ?a ?c "rnext r" "rsrc r" p f s'] chunkSize_pos(1) [of "rheader r"] Inr x
      by (auto simp: r'_def simp del: chunkSize_pos)
    ultimately show thesis
      using chunk by (simp add: r'_def)
  qed
qed

interpretation decrypt: byte_reader ReadD restD outcomeD readerD_inv
proof
  fix r :: DecryptReader and k :: nat
  assume inv: "readerD_inv r" and k: "0 < k"
  then have e: "rerr r = None" by (simp add: readerD_inv_def)
  have step: "\<exists>b r'. readLoopD k x = (b, None, r') \<and> b \<noteq> [] \<and> restD x = b @ restD r' \<and>
      outcomeD r' = outcomeD x \<and> readerD_inv r'" if "readerD_inv x" "rplain x \<noteq> []" for x
    using that k by (subst readLoopD.simps) (auto simp: restD_def outcomeD_def ahead_def readerD_inv_def)
  have stop: "\<exists>r'. readLoopD k x = ([], Some (outcomeD x), r') \<and> restD x = []" if "rplain x = []" "rdone x" for x
    using that by (subst readLoopD.simps) (simp add: outcomeD_def ahead_def restD_def)
  have all: "(\<exists>b r'. ReadD k r = (b, None, r') \<and> b \<noteq> [] \<and> restD r = b @ restD r' \<and>
      outcomeD r' = outcomeD r \<and> readerD_inv r') \<or>
    (restD r = [] \<and> (\<exists>r'. ReadD k r = ([], Some (outcomeD r), r')))"
  proof (cases "rplain r = [] \<and> \<not> rdone r")
    case False
    then show ?thesis
      using step [OF inv] stop [of r] e by (auto simp: ReadD_def)
  next
    case True
    then have un: "readLoopD k r = (case fillD r of (Some e, r') \<Rightarrow> ([], Some e, r') | (None, r') \<Rightarrow> readLoopD k r')"
      by (subst readLoopD.simps) simp
    from inv True show ?thesis
    proof (cases rule: fillD_cases [consumes 1, case_names a b error chunk])
      case (error e r')
      then show ?thesis using un e by (simp add: ReadD_def)
    next
      case (chunk r')
      then show ?thesis
        using step [of r'] stop [of r'] un e by (cases "rplain r' = []") (auto simp: ReadD_def)
    qed auto
  qed
  show "restD r \<noteq> [] \<Longrightarrow> \<exists>b r'. ReadD k r = (b, None, r') \<and> b \<noteq> [] \<and> restD r = b @ restD r' \<and>
      outcomeD r' = outcomeD r \<and> readerD_inv r'"
    using all by blast
  show "restD r = [] \<Longrightarrow> \<exists>r'. ReadD k r = ([], Some (outcomeD r), r')"
    using all by auto
qed

section \<open>A new reader\<close>

lemma validateExpectation_Validate: "Validate p = None \<Longrightarrow> validateExpectation p = None"
  by (auto simp: Validate_def validateExpectation_def split: option.splits)

lemma NewDecryptReader_ok:
  assumes "wf_header h" and "src_data src = raw h @ body" and "validateExpectation want = None"
    and "requireParams h want = None" and "length dek = KeySize"
  shows "\<exists>r. NewDecryptReader src dek want = Inr r \<and> readerD_inv r \<and> rheader r = h \<and> rnext r = 0 \<and>
    \<not> rdone r \<and> rplain r = [] \<and>
    (restD r, outcomeD r) = open_from (subkey dek (hsalt h)) (raw h) (chunkSize h) 0 (src\<lparr>src_data := body\<rparr>)"
  using assms
  by (simp add: NewDecryptReader_def read_full_def parseHeader_raw newSealer_eq readerD_inv_def
      chunkSize_def wf_sealer_def restD_def outcomeD_def ahead_def)

lemma NewDecryptReader_Inr:
  assumes "NewDecryptReader src dek want = Inr r"
  obtains h body where "wf_header h" "src_data src = raw h @ body" "validateExpectation want = None"
    "requireParams h want = None" "length dek = KeySize"
proof -
  from assms have len: "32 \<le> length (src_data src)" and v: "validateExpectation want = None"
    by (auto simp: NewDecryptReader_def read_full_def result_simps split: if_splits)
  with assms obtain h where "parseHeader (take 32 (src_data src)) = Inr h" "requireParams h want = None"
      "length dek = 32"
    by (auto simp: NewDecryptReader_def read_full_def result_simps newSealer_eq split: if_splits)
  with v parseHeader_wf [of "take 32 (src_data src)" h] show thesis
    by (intro that [of h "drop 32 (src_data src)"]) auto
qed

section \<open>Round trip\<close>

lemma chunk_step_final:
  assumes "length p \<le> c" and "i = 0 \<or> p \<noteq> []"
  shows "chunk_step k a c i \<lparr>src_data = gcm_Seal k (chunkNonce i True) p a, src_end = Sentinel EOF\<rparr> =
    Inr (p, True, \<lparr>src_data = [], src_end = Sentinel EOF\<rparr>)"
  using assms
  by (cases "length p = c") (auto simp: chunk_step_def read_full_def peek1_def open_chunk_Inr)

lemma chunk_step_more:
  assumes "length p = c" and "rest \<noteq> []"
  shows "chunk_step k a c i \<lparr>src_data = gcm_Seal k (chunkNonce i False) p a @ rest, src_end = e\<rparr> =
    Inr (p, False, \<lparr>src_data = rest, src_end = e\<rparr>)"
  using assms by (simp add: chunk_step_def read_full_def peek1_def open_chunk_Inr)

lemma seal_from_not_Nil [simp]: "seal_from k a c i p \<noteq> []"
proof -
  have "16 \<le> length (seal_from k a c i p)"
    by (subst seal_from.simps) simp
  then show ?thesis by auto
qed

lemma open_from_seal_from:
  assumes "0 < c" and "i = 0 \<or> p \<noteq> []"
  shows "open_from k a c i \<lparr>src_data = seal_from k a c i p, src_end = Sentinel EOF\<rparr> = (p, Sentinel EOF)"
  using assms
proof (induction k a c i p rule: seal_from.induct)
  case (1 k a c i p)
  show ?case
  proof (cases "length p \<le> c")
    case True
    then show ?thesis
      using "1.prems" by (simp add: open_from.simps chunk_step_final seal_from.simps)
  next
    case False
    then have "open_from k a c (i + 1)
        \<lparr>src_data = seal_from k a c (i + 1) (drop c p), src_end = Sentinel EOF\<rparr> = (drop c p, Sentinel EOF)"
      using "1.prems" by (intro "1.IH") auto
    with False "1.prems" show ?thesis
      by (subst open_from.simps, subst seal_from.simps) (simp add: chunk_step_more min_def)
  qed
qed

section \<open>Authenticity\<close>

text \<open>
  The chunks a reader tries to open when it is given \<open>d\<close> after the header, each with its index and
  final flag; the seal calls an encoder made for a plaintext (key, nonce, associated data, chunk);
  and the assumption on AES-GCM in an execution: what is presented and opens was sealed by one of
  the logged calls. The assumption speaks of the presented chunks only, so it can hold; it says
  nothing about their order, number or place.
\<close>

function presented :: "nat \<Rightarrow> 64 word \<Rightarrow> bytes \<Rightarrow> (64 word \<times> bool \<times> bytes) list" where
  "presented c i d =
     (if length d \<le> c + 16 then [(i, True, d)]
      else (i, False, take (c + 16) d) # presented c (i + 1) (drop (c + 16) d))"
  by pat_completeness auto
termination
  by (relation "measure (\<lambda>(_, _, d). length d)") auto

declare presented.simps [simp del]

definition sealed_log :: "bytes \<Rightarrow> header \<Rightarrow> bytes \<Rightarrow> (bytes \<times> bytes \<times> bytes \<times> bytes) list" where
  "sealed_log dek h p =
     map (\<lambda>j. (subkey dek (hsalt h), chunkNonce (word_of_nat j) (length p \<le> Suc j * chunkSize h), raw h,
               take (chunkSize h) (drop (j * chunkSize h) p)))
       (filter (\<lambda>j. j = 0 \<or> j * chunkSize h < length p) [0 ..< Suc (length p)])"

definition no_forgery ::
  "bytes \<Rightarrow> bytes \<Rightarrow> (64 word \<times> bool \<times> bytes) list \<Rightarrow> (bytes \<times> bytes \<times> bytes \<times> bytes) list \<Rightarrow> bool"
where
  "no_forgery k a cs log \<longleftrightarrow>
     list_all (\<lambda>(i, f, b). case gcm_Open k (chunkNonce i f) b a of
                 None \<Rightarrow> True | Some x \<Rightarrow> (k, chunkNonce i f, a, x) \<in> set log) cs"

lemma chunk_step_presented:
  assumes "chunk_step k a c i s = Inr (x, f, s')"
  shows "\<exists>b. (i, f, b) \<in> set (presented c i (src_data s)) \<and> gcm_Open k (chunkNonce i f) b a = Some x"
    and "\<not> f \<Longrightarrow> set (presented c (i + 1) (src_data s')) \<subseteq> set (presented c i (src_data s))"
proof -
  note cs = chunk_step_Inr [OF assms]
  let ?b = "gcm_Seal k (chunkNonce i f) x a"
  have f: "length (src_data s) \<le> c + 16 \<longleftrightarrow> f"
  proof
    assume "length (src_data s) \<le> c + 16"
    then show f using cs by (cases f) auto
  next
    assume f
    then show "length (src_data s) \<le> c + 16" using cs by simp
  qed
  have d: "take (c + 16) (src_data s) = ?b \<and> drop (c + 16) (src_data s) = src_data s'" if "\<not> f"
    using cs that by auto
  show "\<exists>b. (i, f, b) \<in> set (presented c i (src_data s)) \<and> gcm_Open k (chunkNonce i f) b a = Some x"
    by (rule exI [of _ ?b], subst presented.simps) (use f d cs in \<open>cases f; auto\<close>)
  show "\<not> f \<Longrightarrow> set (presented c (i + 1) (src_data s')) \<subseteq> set (presented c i (src_data s))"
    by (subst (2) presented.simps) (use f d in auto)
qed

text \<open>Distinct chunk numbers have distinct counters, within the size a segment may have.\<close>

lemma word_of_nat_inj64:
  "j \<le> 2 ^ 46 \<Longrightarrow> j' \<le> 2 ^ 46 \<Longrightarrow> (word_of_nat j :: 64 word) = word_of_nat j' \<longleftrightarrow> j = j'"
  by (simp add: word_of_nat_eq_iff take_bit_nat_eq_self)

lemma sealed_logD:
  assumes "(k, chunkNonce (word_of_nat j) f, a, x) \<in> set (sealed_log dek h p)"
    and "j \<le> 2 ^ 46" and "length p \<le> 2 ^ 46"
  shows "k = subkey dek (hsalt h) \<and> a = raw h \<and> f = (length p \<le> Suc j * chunkSize h) \<and>
    x = take (chunkSize h) (drop (j * chunkSize h) p)"
proof -
  from assms(1) obtain j' where eq: "(k, chunkNonce (word_of_nat j) f, a, x) =
      (subkey dek (hsalt h), chunkNonce (word_of_nat j') (length p \<le> Suc j' * chunkSize h), raw h,
       take (chunkSize h) (drop (j' * chunkSize h) p))"
      and "j' \<in> set (filter (\<lambda>j. j = 0 \<or> j * chunkSize h < length p) [0 ..< Suc (length p)])"
    unfolding sealed_log_def set_map by (rule imageE)
  then have "j' \<le> 2 ^ 46"
    using assms(3) by (auto simp del: upt_Suc)
  then have "j = j'"
    using assms(2) word_of_nat_inj64 [of j j'] eq
    by (simp del: word_of_nat_eq_iff mult_Suc)
  with eq show ?thesis
    by (simp del: mult_Suc)
qed

lemma open_from_authentic:
  assumes "no_forgery k a (presented (chunkSize h) i (src_data s)) (sealed_log dek h p)"
    and "i = word_of_nat j" and "j = 0 \<or> j * chunkSize h < length p" and "length p \<le> 2 ^ 46"
  shows "prefix (fst (open_from k a (chunkSize h) i s)) (drop (j * chunkSize h) p) \<and>
    (snd (open_from k a (chunkSize h) i s) = Sentinel EOF \<longrightarrow>
      fst (open_from k a (chunkSize h) i s) = drop (j * chunkSize h) p \<and>
      src_data s = seal_from k a (chunkSize h) i (drop (j * chunkSize h) p))"
  using assms
proof (induction "length (src_data s)" arbitrary: i s j rule: less_induct)
  case less
  let ?c = "chunkSize h" and ?p = "drop (j * chunkSize h) p"
  have jb: "j \<le> 2 ^ 46"
  proof (cases "j = 0")
    case False
    moreover have "j * 1 \<le> j * ?c"
      by (intro mult_le_mono2) (simp add: Suc_leI)
    ultimately show ?thesis using less.prems(3,4) by linarith
  qed simp
  show ?case
  proof (cases "chunk_step k a ?c i s")
    case (Inl e)
    then show ?thesis
      using chunk_step_not_EOF [of k a ?c i s] by (subst (1 2 3) open_from.simps) auto
  next
    case (Inr y)
    obtain x f s' where y: "chunk_step k a ?c i s = Inr (x, f, s')"
      using Inr by (cases y) auto
    note cs = chunk_step_Inr [OF y]
    from chunk_step_presented(1) [OF y] obtain b where b: "(i, f, b) \<in> set (presented ?c i (src_data s))"
      "gcm_Open k (chunkNonce i f) b a = Some x" by auto
    with less.prems(1) have "(k, chunkNonce i f, a, x) \<in> set (sealed_log dek h p)"
      by (fastforce simp: no_forgery_def list_all_iff)
    then have log: "f = (length p \<le> Suc j * ?c)" "x = take ?c ?p"
      using sealed_logD [of k j f a x dek h p] jb less.prems(2,4) by auto
    show ?thesis
    proof (cases f)
      case True
      then have "open_from k a ?c i s = (x, Sentinel EOF)" "x = ?p"
        using y log by (simp_all add: open_from.simps)
      moreover have "seal_from k a ?c i ?p = gcm_Seal k (chunkNonce i True) ?p a"
        using True log by (subst seal_from.simps) (simp add: le_diff_conv)
      ultimately show ?thesis using cs True by simp
    next
      case False
      then have o: "open_from k a ?c i s =
          (x @ fst (open_from k a ?c (i + 1) s'), snd (open_from k a ?c (i + 1) s'))"
        using y by (subst open_from.simps) simp
      have p: "?p = x @ drop (Suc j * ?c) p"
        using log append_take_drop_id [of ?c ?p] by (simp add: add.commute)
      have "no_forgery k a (presented ?c (i + 1) (src_data s')) (sealed_log dek h p)"
        using less.prems(1) chunk_step_presented(2) [OF y False]
        unfolding no_forgery_def list_all_iff by blast
      then have IH: "prefix (fst (open_from k a ?c (i + 1) s')) (drop (Suc j * ?c) p) \<and>
          (snd (open_from k a ?c (i + 1) s') = Sentinel EOF \<longrightarrow>
            fst (open_from k a ?c (i + 1) s') = drop (Suc j * ?c) p \<and>
            src_data s' = seal_from k a ?c (i + 1) (drop (Suc j * ?c) p))"
        using less.prems(2,4) cs False log by (intro less.hyps) auto
      have "seal_from k a ?c i ?p = gcm_Seal k (chunkNonce i False) x a @
          seal_from k a ?c (i + 1) (drop (Suc j * ?c) p)"
        using False log by (subst seal_from.simps) (simp add: add.commute le_diff_conv)
      with IH o p cs False show ?thesis by simp
    qed
  qed
qed

section \<open>What is emitted was sealed\<close>

lemma length_open_from: "length (fst (open_from k a c i s)) \<le> length (src_data s)"
proof (induction k a c i s rule: open_from.induct)
  case (1 k a c i s)
  show ?case
  proof (cases "chunk_step k a c i s")
    case (Inl e)
    then show ?thesis by (simp add: open_from.simps)
  next
    case (Inr y)
    obtain p f s' where y: "y = (p, f, s')" by (cases y)
    show ?thesis
      using Inr y chunk_step_Inr [of k a c i s p f s'] "1.IH" [OF Inr y [symmetric] refl]
      by (subst open_from.simps) auto
  qed
qed

lemma chunk_step_nonempty:
  assumes "chunk_step k a c i s = Inr (p, f, s')" and "0 < c" and "0 < i"
  shows "p \<noteq> []"
proof
  assume p: "p = []"
  note cs = chunk_step_Inr [OF assms(1)]
  then have "f" using p assms(2) by auto
  then have "length (src_data s) = 16" using cs p by simp
  then show False
    using assms by (auto simp: chunk_step_def read_full_def split: if_splits)
qed

text \<open>A ciphertext that is read to a clean end is the encoder's output for what was emitted.\<close>

lemma open_from_sound:
  assumes "snd (open_from k a c (word_of_nat j) s) = Sentinel EOF" and "0 < c"
    and "j + length (src_data s) < 2 ^ 64"
  shows "src_data s = seal_from k a c (word_of_nat j) (fst (open_from k a c (word_of_nat j) s)) \<and>
    (0 < j \<longrightarrow> fst (open_from k a c (word_of_nat j) s) \<noteq> [])"
  using assms
proof (induction "length (src_data s)" arbitrary: s j rule: less_induct)
  case less
  let ?i = "word_of_nat j :: 64 word"
  obtain p f s' where y: "chunk_step k a c ?i s = Inr (p, f, s')"
    using less.prems(1) chunk_step_not_EOF [of k a c ?i s]
    by (cases "chunk_step k a c ?i s") (auto simp: open_from.simps)
  note cs = chunk_step_Inr [OF y]
  have i: "0 < j \<Longrightarrow> 0 < ?i"
    using less.prems(3) by (simp add: word_less_nat_alt unat_of_nat)
  have ne: "0 < j \<Longrightarrow> p \<noteq> []"
    using chunk_step_nonempty [OF y less.prems(2)] i by simp
  show ?case
  proof (cases f)
    case True
    then have o: "open_from k a c ?i s = (p, Sentinel EOF)"
      using y by (simp add: open_from.simps)
    have "seal_from k a c ?i p = gcm_Seal k (chunkNonce ?i True) p a"
      using cs by (subst seal_from.simps) simp
    then show ?thesis using o cs True ne by simp
  next
    case False
    have i1: "?i + 1 = word_of_nat (Suc j)" by simp
    have o: "open_from k a c ?i s = (p @ fst (open_from k a c (word_of_nat (Suc j)) s'),
        snd (open_from k a c (word_of_nat (Suc j)) s'))"
      using y False unfolding i1 [symmetric] by (subst open_from.simps) simp
    have "src_data s' = seal_from k a c (word_of_nat (Suc j)) (fst (open_from k a c (word_of_nat (Suc j)) s')) \<and>
        (0 < Suc j \<longrightarrow> fst (open_from k a c (word_of_nat (Suc j)) s') \<noteq> [])"
      by (rule less.hyps) (use less.prems o cs in auto)
    moreover have "seal_from k a c ?i (p @ q) = gcm_Seal k (chunkNonce ?i False) p a @
        seal_from k a c (word_of_nat (Suc j)) q" if "q \<noteq> []" for q
      using that cs False less.prems(2) by (subst seal_from.simps) (auto simp: add.commute)
    ultimately show ?thesis using o cs by auto
  qed
qed

section \<open>Whole segments\<close>

text \<open>A client that copies a segment to its end, with a buffer of \<open>k\<close> bytes.\<close>

definition decrypt_all ::
  "nat \<Rightarrow> source \<Rightarrow> bytes \<Rightarrow> SegmentParams \<Rightarrow> ((bytes \<times> err option \<times> DecryptReader) option) result" where
  "decrypt_all k src dek want =
     ebind (NewDecryptReader src dek want) (\<lambda>r. Inr (drain (ReadD k) (Suc (length (src_data src))) r))"

lemma NewDecryptReader_rest:
  assumes "NewDecryptReader src dek want = Inr r"
  obtains h body where "wf_header h" "src_data src = raw h @ body" "requireParams h want = None"
    "length dek = KeySize" "readerD_inv r" "rheader r = h" "rnext r = 0" "\<not> rdone r" "rplain r = []"
    "restD r = fst (open_from (subkey dek (hsalt h)) (raw h) (chunkSize h) 0 (src\<lparr>src_data := body\<rparr>))"
    "outcomeD r = snd (open_from (subkey dek (hsalt h)) (raw h) (chunkSize h) 0 (src\<lparr>src_data := body\<rparr>))"
    "length (restD r) \<le> length body"
proof -
  from assms obtain h body where hb: "wf_header h" "src_data src = raw h @ body"
      "validateExpectation want = None" "requireParams h want = None" "length dek = KeySize"
    by (rule NewDecryptReader_Inr)
  note ok = NewDecryptReader_ok [OF hb]
  have "length (fst (open_from (subkey dek (hsalt h)) (raw h) (chunkSize h) 0 (src\<lparr>src_data := body\<rparr>)))
      \<le> length body"
    using length_open_from [of _ _ _ _ "src\<lparr>src_data := body\<rparr>"] by simp
  with ok assms hb show thesis
    by (intro that [of h body]) (auto simp: prod_eq_iff)
qed

lemma length_seal_from_le: "length p \<le> length (seal_from k a c i p)"
proof (induction k a c i p rule: seal_from.induct)
  case (1 k a c i p)
  then show ?case by (subst seal_from.simps) auto
qed

text \<open>A segment opens to a reader of its plaintext, and only a segment opens to a reader with a clean end.\<close>

lemma reader_ok:
  assumes "wf_header h" and "validateExpectation want = None" and "requireParams h want = None" and "length dek = 32"
  shows "\<exists>r. NewDecryptReader \<lparr>src_data = seal_segment dek h p, src_end = Sentinel EOF\<rparr> dek want = Inr r \<and>
    readerD_inv r \<and> rheader r = h \<and> restD r = p \<and> outcomeD r = Sentinel EOF"
  using NewDecryptReader_ok [OF assms(1), of "\<lparr>src_data = seal_segment dek h p, src_end = Sentinel EOF\<rparr>" _ want dek] assms
  by (auto simp: seal_segment_def open_from_seal_from)

lemma reader_sound:
  assumes "NewDecryptReader src dek want = Inr r" and "outcomeD r = Sentinel EOF" and "length (src_data src) < 2 ^ 63"
  shows "wf_header (rheader r) \<and> requireParams (rheader r) want = None \<and> length dek = 32 \<and>
    src_data src = seal_segment dek (rheader r) (restD r)"
  using assms(1)
proof (rule NewDecryptReader_rest, goal_cases)
  case (1 h body)
  have "length body < 2 ^ 64" using 1 assms(3) by simp
  then show ?thesis
    using open_from_sound [of "subkey dek (hsalt h)" "raw h" "chunkSize h" 0 "src\<lparr>src_data := body\<rparr>"] 1 assms(2)
    by (auto simp: seal_segment_def)
qed

lemma VerifyFirstD_cases:
  assumes "NewDecryptReader src dek want = Inr r"
  shows "case VerifyFirstD r of
      (Some e, _) \<Rightarrow> restD r = [] \<and> outcomeD r = e \<and> e \<noteq> Sentinel EOF
    | (None, r') \<Rightarrow> readerD_inv r' \<and> restD r' = restD r \<and> outcomeD r' = outcomeD r \<and> rheader r' = rheader r"
  using assms
proof (rule NewDecryptReader_rest, goal_cases)
  case (1 h body)
  then have v: "VerifyFirstD r = fillD r"
    by (simp add: VerifyFirstD_def readerD_inv_def)
  from 1(5,8,9) show ?case
    by (cases rule: fillD_cases) (simp_all add: v)
qed

lemma decrypt_all_drain:
  assumes "decrypt_all k src dek want = Inr x" and "0 < k"
  obtains h body r r' where "NewDecryptReader src dek want = Inr r"
    "wf_header h" "src_data src = raw h @ body" "requireParams h want = None" "length dek = KeySize"
    "restD r = fst (open_from (subkey dek (hsalt h)) (raw h) (chunkSize h) 0 (src\<lparr>src_data := body\<rparr>))"
    "outcomeD r = snd (open_from (subkey dek (hsalt h)) (raw h) (chunkSize h) 0 (src\<lparr>src_data := body\<rparr>))"
    "x = Some (restD r, if outcomeD r = Sentinel EOF then None else Some (outcomeD r), r')"
proof -
  from assms(1) obtain r where r: "NewDecryptReader src dek want = Inr r"
      "x = drain (ReadD k) (Suc (length (src_data src))) r"
    by (auto simp: decrypt_all_def result_simps)
  from r(1) show thesis
  proof (rule NewDecryptReader_rest, goal_cases)
    case (1 h body)
    then obtain r' where "drain (ReadD k) (Suc (length (src_data src))) r =
        Some (restD r, if outcomeD r = Sentinel EOF then None else Some (outcomeD r), r')"
      using decrypt.drain_rest [of r k "Suc (length (src_data src))"] assms(2) by auto
    with 1 r show thesis by (intro that [of r h body r']) auto
  qed
qed

lemma decrypt_all_segment:
  assumes wf: "wf_header h" and "validateExpectation want = None" and "requireParams h want = None"
    and "length dek = KeySize" and "0 < k"
  shows "\<exists>r. decrypt_all k \<lparr>src_data = seal_segment dek h p, src_end = Sentinel EOF\<rparr> dek want =
    Inr (Some (p, None, r))"
proof -
  obtain r where r: "NewDecryptReader \<lparr>src_data = seal_segment dek h p, src_end = Sentinel EOF\<rparr> dek want = Inr r"
      "readerD_inv r" "restD r = p" "outcomeD r = Sentinel EOF"
    using reader_ok [of h want dek p] assms by auto
  have "length p < Suc (length (seal_segment dek h p))"
    using length_seal_from_le [of p "subkey dek (hsalt h)" "raw h" "chunkSize h" 0] by (simp add: seal_segment_def)
  with decrypt.drain_rest [OF r(2) assms(5)] r show ?thesis
    by (auto simp: decrypt_all_def simp del: drain.simps)
qed

lemma raw_fields:
  assumes "wf_header h"
  shows "slice 12 32 (raw h @ x) = hsalt h" "take 32 (raw h @ x) = raw h" "drop 32 (raw h @ x) = x"
    "2 ^ unat ((raw h @ x) ! 5) = chunkSize h"
  using assms by (simp_all add: wf_header_def slice_def header_layout_def nth_append chunkSize_def)

section \<open>Properties\<close>

text \<open>C1: Segment round trip. For valid parameters, a 20-byte salt and a 32-byte key, a plaintext of at
  most \<open>2 ^ 46\<close> bytes, written to an \<open>EncryptWriter\<close> in any pieces and over any recycled buffer, then
  closed, gives bytes that a \<open>DecryptReader\<close> with the same key and parameters reads back to exactly
  the plaintext and a clean end, whatever the size of the client's read buffer.\<close>

theorem segment_roundtrip:
  assumes "Validate p = None" and "length salt = SaltSize" and "length dek = KeySize"
    and "length (concat xs) \<le> 2 ^ 46" and "0 < k"
  shows "\<exists>w r. encrypt_session (Inr salt) stale new_sink dek p xs = Inr w \<and>
    decrypt_all k \<lparr>src_data = snk_out (wdst w), src_end = Sentinel EOF\<rparr> dek p =
      Inr (Some (concat xs, None, r))"
proof -
  define h where "h = \<lparr>hparams = p, hsalt = salt, raw = header_layout p salt\<rparr>"
  have "wf_header h" "requireParams h p = None"
    using assms(1,2) by (simp_all add: h_def wf_header_def requireParams_self)
  with decrypt_all_segment [of h p dek k "concat xs"] validateExpectation_Validate [OF assms(1)]
    encrypt_session_ok [OF assms(1-4), of new_sink stale] assms
  show ?thesis by (auto simp: h_def)
qed

theorem segment_roundtrip_witness:
  "\<exists>w r. encrypt_session (Inr (replicate 20 7)) (\<lambda>_. 9) new_sink (replicate 32 1)
      \<lparr>Log2ChunkSize = 12, Multipart = False, Index = 0\<rparr> [[1, 2], [], [3]] = Inr w \<and>
    decrypt_all 2 \<lparr>src_data = snk_out (wdst w), src_end = Sentinel EOF\<rparr> (replicate 32 1)
      \<lparr>Log2ChunkSize = 12, Multipart = False, Index = 0\<rparr> = Inr (Some ([1, 2, 3], None, r))"
  using segment_roundtrip [of "\<lparr>Log2ChunkSize = 12, Multipart = False, Index = 0\<rparr>" "replicate 20 7"
      "replicate 32 1" "[[1, 2], [], [3]]" 2 "\<lambda>_. 9"]
  by (simp add: Validate_def ValidateLog2ChunkSize_def validateIdentity_def)

text \<open>C2: Authenticity of a segment. Whatever bytes \<open>src\<close> delivers and however it ends, if each chunk that
  the reader is presented with and that opens was sealed by the encoder of the plaintext \<open>p\<close> under
  header \<open>h\<close>, then what is emitted is a prefix of \<open>p\<close>, and a clean end means that the reader received
  exactly the encoder's segment and emitted all of \<open>p\<close>: chunks that were reordered, dropped,
  duplicated, truncated or extended, or a changed header, end in an error.\<close>

theorem segment_authentic:
  assumes "decrypt_all k src dek' want = Inr (Some (q, e, r))" and "0 < k" and "length p \<le> 2 ^ 46"
    and "no_forgery (subkey dek' (slice 12 32 (src_data src))) (take 32 (src_data src))
      (presented (2 ^ unat (src_data src ! 5)) 0 (drop 32 (src_data src))) (sealed_log dek h p)"
    and "wf_header h"
  shows "prefix q p \<and> (e = None \<longrightarrow> q = p \<and> src_data src = seal_segment dek h p)"
  using assms(1,2)
proof (rule decrypt_all_drain, goal_cases)
  case (1 h' body r0 r')
  note lay = raw_fields [OF \<open>wf_header h'\<close>, of body, folded \<open>src_data src = raw h' @ body\<close>]
  let ?k = "subkey dek' (hsalt h')" and ?s = "src\<lparr>src_data := body\<rparr>"
  have nf: "no_forgery ?k (raw h') (presented (chunkSize h') 0 (src_data ?s)) (sealed_log dek h p)"
    using assms(4) unfolding lay by simp
  show ?thesis
  proof (cases "q = [] \<and> e \<noteq> None")
    case True
    then show ?thesis by auto
  next
    case False
    have first: "chunk_step ?k (raw h') (chunkSize h') 0 ?s \<noteq> Inl x" for x
      using False 1 chunk_step_not_EOF [of ?k "raw h'" "chunkSize h'" 0 ?s]
      by (auto simp: open_from.simps split: if_splits)
    then obtain x f s' where y: "chunk_step ?k (raw h') (chunkSize h') 0 ?s = Inr (x, f, s')"
      by (metis sum.exhaust prod_cases3)
    from chunk_step_presented(1) [OF y] nf have "(?k, chunkNonce 0 f, raw h', x) \<in> set (sealed_log dek h p)"
      by (fastforce simp: no_forgery_def list_all_iff)
    then have eq: "?k = subkey dek (hsalt h)" "raw h' = raw h"
      using sealed_logD [of ?k 0 f "raw h'" x dek h p] assms(3) by simp_all
    then have "h' = h"
      using \<open>wf_header h'\<close> assms(5) parseHeader_raw [of h] parseHeader_raw [of h'] by simp
    with open_from_authentic [OF nf [unfolded \<open>h' = h\<close>], of 0] 1 assms(3) eq show ?thesis
      by (auto simp: seal_segment_def split: if_splits)
  qed
qed

theorem segment_authentic_witness:
  "\<exists>src r. src_data src = seal_segment (replicate 32 1) \<lparr>hparams = \<lparr>Log2ChunkSize = 12, Multipart = False, Index = 0\<rparr>,
      hsalt = replicate 20 7, raw = header_layout \<lparr>Log2ChunkSize = 12, Multipart = False, Index = 0\<rparr> (replicate 20 7)\<rparr>
      [1, 2, 3] \<and>
    decrypt_all 5 src (replicate 32 1) \<lparr>Log2ChunkSize = 12, Multipart = False, Index = 0\<rparr> =
      Inr (Some ([1, 2, 3], None, r)) \<and> prefix [1, 2, 3 :: byte] [1, 2, 3]"
proof -
  define p :: SegmentParams where "p = \<lparr>Log2ChunkSize = 12, Multipart = False, Index = 0\<rparr>"
  define h where "h = \<lparr>hparams = p, hsalt = replicate 20 7, raw = header_layout p (replicate 20 7)\<rparr>"
  let ?dek = "replicate 32 1" and ?m = "[1, 2, 3] :: bytes"
  let ?src = "\<lparr>src_data = seal_segment ?dek h ?m, src_end = Sentinel EOF\<rparr>"
  have v: "Validate p = None"
    by (simp add: p_def Validate_def ValidateLog2ChunkSize_def validateIdentity_def)
  then have wf: "wf_header h" and rp: "requireParams h p = None"
    by (simp_all add: h_def wf_header_def requireParams_self)
  obtain r where r: "decrypt_all 5 ?src ?dek p = Inr (Some (?m, None, r))"
    using decrypt_all_segment [OF wf validateExpectation_Validate [OF v] rp, of ?dek 5 ?m] by auto
  have c: "chunkSize h = 4096"
    by (simp add: chunkSize_def h_def p_def)
  have d: "seal_segment ?dek h ?m = raw h @ gcm_Seal (subkey ?dek (hsalt h)) (chunkNonce 0 True) ?m (raw h)"
    unfolding seal_segment_def c by (subst seal_from.simps) simp
  have pr: "presented 4096 0 (gcm_Seal k n ?m a) = [(0, True, gcm_Seal k n ?m a)]" for k n a
    by (subst presented.simps) simp
  have "no_forgery (subkey ?dek (slice 12 32 (src_data ?src))) (take 32 (src_data ?src))
      (presented (2 ^ unat (src_data ?src ! 5)) 0 (drop 32 (src_data ?src))) (sealed_log ?dek h ?m)"
    unfolding d source.select_convs raw_fields [OF wf] c pr
    by (simp add: no_forgery_def sealed_log_def c del: replicate.simps)
  then have "prefix ?m ?m \<and> (None = (None :: err option) \<longrightarrow> ?m = ?m \<and> src_data ?src = seal_segment ?dek h ?m)"
    using segment_authentic [OF r, of ?m ?dek h] wf by simp
  with r have "src_data ?src = seal_segment ?dek h ?m \<and> decrypt_all 5 ?src ?dek p = Inr (Some (?m, None, r)) \<and>
      prefix ?m ?m"
    by simp
  then show ?thesis
    unfolding p_def [symmetric] h_def [symmetric] by blast
qed

text \<open>A segment that is read to a clean end is canonical: its bytes are exactly what the encoder
  produces, under the reader's key and some well-formed header that meets the caller's expectation,
  for the plaintext that was emitted. No other ciphertext is accepted, whoever made it.\<close>

theorem segment_canonical:
  assumes "decrypt_all k src dek want = Inr (Some (q, None, r))" and "0 < k"
    and "length (src_data src) < 2 ^ 63"
  shows "\<exists>h. wf_header h \<and> requireParams h want = None \<and> src_data src = seal_segment dek h q"
  using assms(1,2)
proof (rule decrypt_all_drain, goal_cases)
  case (1 h body r0 r')
  then have "outcomeD r0 = Sentinel EOF" "restD r0 = q" by (auto split: if_splits)
  then show ?thesis using reader_sound [OF 1(1) _ assms(3)] by auto
qed

theorem segment_canonical_witness:
  "\<exists>src r h. decrypt_all 1 src (replicate 32 1) \<lparr>Log2ChunkSize = 12, Multipart = True, Index = 3\<rparr> =
      Inr (Some ([], None, r)) \<and> src_data src = seal_segment (replicate 32 1) h []"
proof -
  define p :: SegmentParams where "p = \<lparr>Log2ChunkSize = 12, Multipart = True, Index = 3\<rparr>"
  define h where "h = \<lparr>hparams = p, hsalt = replicate 20 7, raw = header_layout p (replicate 20 7)\<rparr>"
  let ?src = "\<lparr>src_data = seal_segment (replicate 32 1) h [], src_end = Sentinel EOF\<rparr>"
  have v: "Validate p = None"
    by (simp add: p_def Validate_def ValidateLog2ChunkSize_def validateIdentity_def)
  then have wf: "wf_header h" and rp: "requireParams h p = None"
    by (simp_all add: h_def wf_header_def requireParams_self)
  obtain r where r: "decrypt_all 1 ?src (replicate 32 1) p = Inr (Some ([], None, r))"
    using decrypt_all_segment [OF wf validateExpectation_Validate [OF v] rp, of "replicate 32 1" 1 "[]"] by auto
  have len: "length (src_data ?src) < 2 ^ 63"
    using wf by (simp add: seal_segment_def seal_from.simps)
  from segment_canonical [OF r zero_less_one len] r show ?thesis
    unfolding p_def [symmetric] by blast
qed

text \<open>\<open>VerifyFirst\<close> commits to nothing: on a new reader it either fails, and then reading delivers no
  byte and exactly that error with or without the call, or it succeeds and a client that then copies
  the reader gets the same bytes and the same outcome as without the call.\<close>

theorem verify_first_transparent:
  assumes "NewDecryptReader src dek want = Inr r" and "VerifyFirstD r = (e, r')" and "0 < k"
    and "length (src_data src) < fuel"
  shows "map_option (\<lambda>(b, x, _). (b, x)) (drain (ReadD k) fuel r') =
      map_option (\<lambda>(b, x, _). (b, x)) (drain (ReadD k) fuel r) \<and>
    (e \<noteq> None \<longrightarrow> map_option (\<lambda>(b, x, _). (b, x)) (drain (ReadD k) fuel r) = Some ([], e))"
  using assms(1)
proof (rule NewDecryptReader_rest, goal_cases)
  case (1 h body)
  then have v: "fillD r = (e, r')" and len: "length (restD r) < fuel"
    using assms(2,4) by (auto simp: VerifyFirstD_def readerD_inv_def)
  obtain t where t: "drain (ReadD k) fuel r =
      Some (restD r, if outcomeD r = Sentinel EOF then None else Some (outcomeD r), t)"
    using decrypt.drain_rest [OF 1(5) assms(3) len] by auto
  from 1(5,8,9) show ?thesis
  proof (cases rule: fillD_cases)
    case (error x y)
    then have "e = Some x" "r' = y" using v by auto
    moreover obtain g where "fuel = Suc g"
      using assms(4) by (cases fuel) auto
    moreover have "ReadD k y = ([], Some x, y)"
      using error(2) by (simp add: ReadD_def)
    ultimately show ?thesis
      using error(4-6) t by simp
  next
    case (chunk y)
    then have "e = None" "r' = y" using v by auto
    moreover obtain t' where "drain (ReadD k) fuel y =
        Some (restD r, if outcomeD r = Sentinel EOF then None else Some (outcomeD r), t')"
      using decrypt.drain_rest [OF chunk(2) assms(3), of fuel, unfolded chunk(3,4)] len by blast
    ultimately show ?thesis using t by simp
  qed
qed

theorem verify_first_transparent_witness:
  "\<exists>r r'. NewDecryptReader \<lparr>src_data = seal_segment (replicate 32 1) \<lparr>hparams = \<lparr>Log2ChunkSize = 12,
      Multipart = False, Index = 0\<rparr>, hsalt = replicate 20 7, raw = header_layout \<lparr>Log2ChunkSize = 12,
      Multipart = False, Index = 0\<rparr> (replicate 20 7)\<rparr> [1], src_end = Sentinel EOF\<rparr> (replicate 32 1)
      \<lparr>Log2ChunkSize = 12, Multipart = False, Index = 0\<rparr> = Inr r \<and> snd (VerifyFirstD r) = r' \<and>
    map_option (\<lambda>(b, x, _). (b, x)) (drain (ReadD 4) 100 r') =
      map_option (\<lambda>(b, x, _). (b, x)) (drain (ReadD 4) 100 r)"
proof -
  define p :: SegmentParams where "p = \<lparr>Log2ChunkSize = 12, Multipart = False, Index = 0\<rparr>"
  define h where "h = \<lparr>hparams = p, hsalt = replicate 20 7, raw = header_layout p (replicate 20 7)\<rparr>"
  let ?src = "\<lparr>src_data = seal_segment (replicate 32 1) h [1], src_end = Sentinel EOF\<rparr>"
  have v: "Validate p = None"
    by (simp add: p_def Validate_def ValidateLog2ChunkSize_def validateIdentity_def)
  then have wf: "wf_header h" and rp: "requireParams h p = None"
    by (simp_all add: h_def wf_header_def requireParams_self)
  obtain r where r: "NewDecryptReader ?src (replicate 32 1) p = Inr r"
    using NewDecryptReader_ok [OF wf, of ?src _ p "replicate 32 1"] validateExpectation_Validate [OF v] rp
    by (auto simp: seal_segment_def)
  obtain e r' where vf: "VerifyFirstD r = (e, r')" by (cases "VerifyFirstD r")
  have "chunkSize h = 4096"
    by (simp add: chunkSize_def h_def p_def)
  then have "length (src_data ?src) < 100"
    using wf by (simp add: seal_segment_def seal_from.simps)
  with verify_first_transparent [OF r vf, of 4 100] r vf show ?thesis
    unfolding p_def [symmetric] h_def [symmetric] by (intro exI [of _ r] exI [of _ r']) simp
qed

end
