(* ===== verification/SegmentRange.thy ===== *)
theory SegmentRange
  imports SegmentDecrypt
begin

text \<open>
  \<open>internal/crypto/stream/rangereader.go\<close>: the mapping of a plaintext range onto ciphertext offsets
  and chunk numbers, and \<open>RangeReader\<close>, which decrypts a run of chunks and emits the range. The reader
  interprets \<open>byte_reader\<close> against \<open>range_from\<close>; the properties relate what it emits to the plaintext
  of the segment.
\<close>

section \<open>The code\<close>

record Range =
  FirstChunk :: "64 word"
  LastChunk :: "64 word"
  CipherStart :: int
  CipherEnd :: int
  Skip :: int
  RLength :: int
  LastIsFinal :: bool
  NeedsSeparateHeader :: bool

definition MapRange :: "int \<Rightarrow> int \<Rightarrow> int \<Rightarrow> byte \<Rightarrow> Range result" where
  "MapRange start endp sealed log2C =
     ebind (OpenedSize sealed log2C) (\<lambda>plain.
       if start < 0 \<or> endp < start
       then Inl (Errorf ''%w: %d-%d'' [Sentinel ErrRangeNotSatisfiable])
       else if start \<ge> plain
       then Inl (Errorf ''%w: offset %d is past the end of %d bytes'' [Sentinel ErrRangeNotSatisfiable])
       else
         let e = (if endp \<ge> plain then sub64 plain 1 else endp);
             c = shl64 1 (unat log2C);
             first = quot64 start c;
             last = quot64 e c;
             chunks = ChunkCount plain log2C;
             stride = add64 c (int TagSize);
             cipherStart = add64 (int HeaderSize) (mul64 first stride);
             cipherEnd0 = add64 (int HeaderSize) (mul64 (add64 last 1) stride);
             cipherEnd = (if cipherEnd0 > sealed then sealed else cipherEnd0)
         in Inr \<lparr>FirstChunk = word_of_int first, LastChunk = word_of_int last,
                 CipherStart = cipherStart, CipherEnd = sub64 cipherEnd 1,
                 Skip = sub64 start (mul64 first c), RLength = add64 (sub64 e start) 1,
                 LastIsFinal = (last = sub64 chunks 1), NeedsSeparateHeader = (first > 0)\<rparr>)"

record RangeReader =
  gsrc :: source
  gsealer :: sealer
  grng :: Range
  gbuf :: "nat option"
  glog2C :: byte
  gplain :: bytes
  gnext :: "64 word"
  gremaining :: int
  gskip :: int
  gerr :: "err option"
  gdone :: bool

definition NewRangeReader ::
  "source \<Rightarrow> bytes \<Rightarrow> bytes \<Rightarrow> SegmentParams \<Rightarrow> Range \<Rightarrow> RangeReader result" where
  "NewRangeReader src rawHeader dek want rng =
     echeck (validateExpectation want)
       (ebind (parseHeader rawHeader) (\<lambda>h.
        echeck (requireParams h want)
          (if LastChunk rng < FirstChunk rng
           then Inl (Errorf ''stream: range ends at chunk %d before it starts at %d'' [])
           else ebind (newSealer dek h) (\<lambda>s.
             Inr \<lparr>gsrc = src, gsealer = s, grng = rng,
                  gbuf = Some (2 ^ unat (Log2ChunkSize (hparams h)) + TagSize),
                  glog2C = Log2ChunkSize (hparams h), gplain = [], gnext = FirstChunk rng,
                  gremaining = RLength rng, gskip = Skip rng, gerr = None, gdone = False\<rparr>))))"

definition releaseR :: "RangeReader \<Rightarrow> RangeReader" where
  "releaseR r = r\<lparr>gbuf := None, gplain := []\<rparr>"

definition setErrR :: "err \<Rightarrow> RangeReader \<Rightarrow> err option \<times> RangeReader" where
  "setErrR e r =
     (let r' = releaseR (if gerr r = None then r\<lparr>gerr := Some e\<rparr> else r) in (gerr r', r'))"

text \<open>The part of \<open>fill\<close> after the read: open the chunk, discard what precedes the range, clip.\<close>

definition openRange :: "bytes \<Rightarrow> bool \<Rightarrow> RangeReader \<Rightarrow> err option \<times> RangeReader" where
  "openRange full final r =
     (case sealer_open full (gnext r) final (gsealer r) of
        (Inl e, s) \<Rightarrow> setErrR e (r\<lparr>gsealer := s\<rparr>)
      | (Inr plain, s) \<Rightarrow>
          (if gskip r > 0 \<and> gskip r \<ge> int (length plain)
           then setErrR (chunkErrorf (gnext r) ''chunk is shorter than the offset into it'')
                  (r\<lparr>gsealer := s\<rparr>)
           else let plain1 = (if gskip r > 0 then drop (nat (gskip r)) plain else plain);
                    skip = (if gskip r > 0 then 0 else gskip r);
                    plain2 = (if int (length plain1) > gremaining r
                              then take (nat (gremaining r)) plain1 else plain1)
                in (None, r\<lparr>gsealer := s, gskip := skip, gplain := plain2, gnext := gnext r + 1\<rparr>)))"

definition fillR :: "RangeReader \<Rightarrow> err option \<times> RangeReader" where
  "fillR r =
     (case gbuf r of
        None \<Rightarrow> setErrR (integrityf KindChunk ''reader already released'') r
      | Some cap \<Rightarrow>
          (if gnext r > LastChunk (grng r)
           then setErrR (chunkErrorf (gnext r) ''read past the end of the requested range'') r
           else
             let final = (gnext r = LastChunk (grng r) \<and> LastIsFinal (grng r)) in
             case read_full cap (gsrc r) of
               (full, err, src) \<Rightarrow>
                 (let r1 = r\<lparr>gsrc := src\<rparr> in
                  case err of
                    None \<Rightarrow> openRange full final r1
                  | Some e \<Rightarrow>
                      (if errors_is UnexpectedEOF e \<or> errors_is EOF e then
                         (if \<not> final
                          then setErrR (chunkErrorf (gnext r)
                                 ''ciphertext ended after %d bytes, short of a full chunk'') r1
                          else if length full < TagSize
                          then setErrR (chunkErrorf (gnext r)
                                 ''truncated: %d bytes left, which is less than a bare tag'') r1
                          else openRange full final r1)
                       else setErrR e r1))))"

definition VerifyFirstR :: "RangeReader \<Rightarrow> err option \<times> RangeReader" where
  "VerifyFirstR r =
     (if gerr r \<noteq> None then (gerr r, r)
      else if gnext r > FirstChunk (grng r) \<or> gdone r then (None, r)
      else fillR r)"

definition CloseR :: "RangeReader \<Rightarrow> RangeReader" where
  "CloseR r = releaseR r"

lemma setErrR_not_None [simp]: "setErrR e r \<noteq> (None, r')"
  by (auto simp: setErrR_def releaseR_def Let_def)

lemma openRange_None:
  assumes "openRange full final r = (None, r')"
  shows "16 \<le> length full \<and> gsrc r' = gsrc r"
proof -
  let ?o = "gcm_Open (skey (gsealer r)) (snonce (setNonce (gnext r) final (gsealer r))) full (saad (gsealer r))"
  have "?o \<noteq> None \<and> gsrc r' = gsrc r"
    using assms by (cases ?o) (auto simp: openRange_def sealer_open_def Let_def split: if_splits)
  then show ?thesis
    by (cases "length full < 16") (simp_all add: gcm.open_too_short)
qed

lemma fillR_consumes:
  assumes "fillR r = (None, r')"
  shows "length (src_data (gsrc r')) < length (src_data (gsrc r))"
proof -
  obtain cap where b: "gbuf r = Some cap"
    using assms by (cases "gbuf r") (auto simp: fillR_def)
  obtain full err src where rd: "read_full cap (gsrc r) = (full, err, src)"
    by (metis prod_cases3)
  have "\<exists>f. openRange full f (r\<lparr>gsrc := src\<rparr>) = (None, r')"
    using assms by (auto simp: fillR_def b rd Let_def split: option.splits if_splits)
  then have "16 \<le> length full" "gsrc r' = src"
    using openRange_None by fastforce+
  moreover have "length (src_data src) + length full = length (src_data (gsrc r))"
    using rd by (auto simp: read_full_def split: if_splits)
  ultimately show ?thesis by simp
qed

function readLoopR :: "nat \<Rightarrow> RangeReader \<Rightarrow> bytes \<times> err option \<times> RangeReader" where
  "readLoopR k r =
     (if gplain r \<noteq> [] then
        (let n = min k (length (gplain r));
             rem = gremaining r - int n
         in (take n (gplain r), None,
             r\<lparr>gplain := drop n (gplain r), gremaining := rem,
               gdone := (if rem = 0 then True else gdone r)\<rparr>))
      else if gremaining r = 0 \<or> gdone r then ([], Some (Sentinel EOF), releaseR r)
      else case fillR r of
             (Some e, r') \<Rightarrow> ([], Some e, r')
           | (None, r') \<Rightarrow> readLoopR k r')"
  by pat_completeness auto
termination
  by (relation "measure (\<lambda>(_, r). length (src_data (gsrc r)))") (auto dest: fillR_consumes [OF sym])

declare readLoopR.simps [simp del]

definition ReadR :: "nat \<Rightarrow> RangeReader \<Rightarrow> bytes \<times> err option \<times> RangeReader" where
  "ReadR k r = (if gerr r \<noteq> None then ([], gerr r, r) else readLoopR k r)"

section \<open>The plaintext of a range\<close>

definition open_range ::
  "bytes \<Rightarrow> bytes \<Rightarrow> 64 word \<Rightarrow> bytes \<Rightarrow> bool \<Rightarrow> int \<Rightarrow> int \<Rightarrow> source \<Rightarrow> (bytes \<times> int \<times> source) result" where
  "open_range k a i b final rem skip s =
     ebind (open_chunk k a i b final s) (\<lambda>(p, _, _).
       if skip > 0 \<and> skip \<ge> int (length p)
       then Inl (chunkErrorf i ''chunk is shorter than the offset into it'')
       else Inr (take (nat rem) (drop (nat skip) p), if skip > 0 then 0 else skip, s))"

definition range_step ::
  "bytes \<Rightarrow> bytes \<Rightarrow> nat \<Rightarrow> Range \<Rightarrow> 64 word \<Rightarrow> int \<Rightarrow> int \<Rightarrow> source \<Rightarrow> (bytes \<times> int \<times> source) result" where
  "range_step k a c rng i rem skip s =
     (if i > LastChunk rng then Inl (chunkErrorf i ''read past the end of the requested range'')
      else let final = (i = LastChunk rng \<and> LastIsFinal rng) in
        case read_full (c + 16) s of (b, e, s') \<Rightarrow>
          echeck (case e of None \<Rightarrow> None | Some e \<Rightarrow>
              if errors_is UnexpectedEOF e \<or> errors_is EOF e then
                (if \<not> final then Some (chunkErrorf i ''ciphertext ended after %d bytes, short of a full chunk'')
                 else if length b < 16 then Some (chunkErrorf i ''truncated: %d bytes left, which is less than a bare tag'')
                 else None)
              else Some e)
            (open_range k a i b final rem skip s'))"

lemma range_step_Inr:
  assumes "range_step k a c rng i rem skip s = Inr (x, skip', s')"
  obtains b p where "read_full (c + 16) s = (b, None, s') \<or> (\<exists>e. read_full (c + 16) s = (b, Some e, s') \<and>
      i = LastChunk rng \<and> LastIsFinal rng)"
    "b = gcm_Seal k (chunkNonce i (i = LastChunk rng \<and> LastIsFinal rng)) p a" "\<not> i > LastChunk rng"
    "x = take (nat rem) (drop (nat skip) p)" "skip' = (if skip > 0 then 0 else skip)"
    "skip > 0 \<Longrightarrow> skip < int (length p)" "src_data s = b @ src_data s'"
    "length (src_data s') < length (src_data s)"
proof -
  obtain b e t where rd: "read_full (c + 16) s = (b, e, t)" by (metis prod_cases3)
  have t: "src_data s = b @ src_data t"
    using rd by (auto simp: read_full_def split: if_splits)
  from assms rd obtain p where p: "open_chunk k a i b (i = LastChunk rng \<and> LastIsFinal rng) t =
        Inr (p, i = LastChunk rng \<and> LastIsFinal rng, t)"
      "x = take (nat rem) (drop (nat skip) p)" "skip' = (if skip > 0 then 0 else skip)" "s' = t"
      "skip > 0 \<Longrightarrow> skip < int (length p)" "\<not> i > LastChunk rng"
      "e = None \<or> i = LastChunk rng \<and> LastIsFinal rng"
    by (auto simp: range_step_def open_range_def result_simps Let_def open_chunk_Inr split: option.splits if_splits)
  then have b: "b = gcm_Seal k (chunkNonce i (i = LastChunk rng \<and> LastIsFinal rng)) p a"
    by (simp only: open_chunk_Inr)
  then have "0 < length b" by simp
  with p b rd t show thesis
    by (intro that [of b p]) auto
qed

function range_from ::
  "bytes \<Rightarrow> bytes \<Rightarrow> nat \<Rightarrow> Range \<Rightarrow> 64 word \<Rightarrow> nat \<Rightarrow> int \<Rightarrow> source \<Rightarrow> bytes \<times> err" where
  "range_from k a c rng i rem skip s =
     (if rem = 0 then ([], Sentinel EOF)
      else case range_step k a c rng i (int rem) skip s of
        Inl e \<Rightarrow> ([], e)
      | Inr (x, skip', s') \<Rightarrow>
          (x @ fst (range_from k a c rng (i + 1) (rem - length x) skip' s'),
           snd (range_from k a c rng (i + 1) (rem - length x) skip' s')))"
  by pat_completeness auto
termination
  by (relation "measure (\<lambda>(_, _, _, _, _, _, _, s). length (src_data s))")
    (auto elim: range_step_Inr)

declare range_from.simps [simp del]

section \<open>The reader against its specification\<close>

definition rchunk :: "RangeReader \<Rightarrow> nat" where
  "rchunk r = 2 ^ unat (glog2C r)"

definition readerR_inv :: "RangeReader \<Rightarrow> bool" where
  "readerR_inv r \<longleftrightarrow> gerr r = None \<and> gbuf r = Some (rchunk r + 16) \<and> wf_sealer (gsealer r) \<and>
     int (length (gplain r)) \<le> gremaining r \<and> (gdone r \<longrightarrow> gremaining r = 0)"

definition aheadR :: "RangeReader \<Rightarrow> bytes \<times> err" where
  "aheadR r = range_from (skey (gsealer r)) (saad (gsealer r)) (rchunk r) (grng r) (gnext r)
     (nat (gremaining r - int (length (gplain r)))) (gskip r) (gsrc r)"

definition restR :: "RangeReader \<Rightarrow> bytes" where
  "restR r = gplain r @ fst (aheadR r)"

definition outcomeR :: "RangeReader \<Rightarrow> err" where
  "outcomeR r = snd (aheadR r)"

lemma setErrR_ex:
  "gerr r = None \<Longrightarrow> \<exists>r'. setErrR e r = (Some e, r') \<and> gerr r' = Some e"
  by (simp add: setErrR_def releaseR_def Let_def)

lemma openRange_open_chunk:
  assumes "wf_sealer (gsealer r)" and "gerr r = None" and "0 \<le> gremaining r"
  shows "case open_range (skey (gsealer r)) (saad (gsealer r)) (gnext r) b f (gremaining r) (gskip r) (gsrc r) of
      Inl e \<Rightarrow> \<exists>r'. openRange b f r = (Some e, r') \<and> gerr r' = Some e
    | Inr (x, skip, t) \<Rightarrow> openRange b f r =
        (None, r\<lparr>gsealer := setNonce (gnext r) f (gsealer r), gskip := skip, gplain := x,
                 gnext := gnext r + 1\<rparr>) \<and> t = gsrc r"
proof (cases "gcm_Open (skey (gsealer r)) (chunkNonce (gnext r) f) b (saad (gsealer r))")
  case None
  with assms setErrR_ex show ?thesis
    by (simp add: openRange_def open_range_def open_chunk_def sealer_open_eq)
next
  case (Some p)
  then have o: "open_chunk (skey (gsealer r)) (saad (gsealer r)) (gnext r) b f (gsrc r) = Inr (p, f, gsrc r)"
    "sealer_open b (gnext r) f (gsealer r) = (Inr p, setNonce (gnext r) f (gsealer r))"
    using assms by (simp_all add: open_chunk_def sealer_open_eq)
  have d: "(if gskip r > 0 then drop (nat (gskip r)) p else p) = drop (nat (gskip r)) p"
    by simp
  have t: "(if int (length q) > gremaining r then take (nat (gremaining r)) q else q) =
      take (nat (gremaining r)) q" for q :: bytes
    using assms(3) by (simp add: nat_le_iff)
  show ?thesis
    using assms(2) setErrR_ex
    unfolding openRange_def open_range_def o ebind_simps prod.case sum.case d t Let_def by simp
qed

lemma fillR_range_step:
  assumes inv: "readerR_inv r"
  shows "case range_step (skey (gsealer r)) (saad (gsealer r)) (rchunk r) (grng r) (gnext r)
      (gremaining r) (gskip r) (gsrc r) of
      Inl e \<Rightarrow> \<exists>r'. fillR r = (Some e, r') \<and> gerr r' = Some e
    | Inr (x, skip, t) \<Rightarrow> fillR r =
        (None, r\<lparr>gsrc := t, gsealer := setNonce (gnext r) (gnext r = LastChunk (grng r) \<and> LastIsFinal (grng r))
                   (gsealer r), gskip := skip, gplain := x, gnext := gnext r + 1\<rparr>)"
proof -
  define f where "f \<longleftrightarrow> gnext r = LastChunk (grng r) \<and> LastIsFinal (grng r)"
  obtain b e s' where rd: "read_full (rchunk r + 16) (gsrc r) = (b, e, s')"
    by (metis prod_cases3)
  have r: "gbuf r = Some (rchunk r + 16)" "gerr r = None" "wf_sealer (gsealer r)" "0 \<le> gremaining r"
    using inv by (auto simp: readerR_inv_def)
  note oc = openRange_open_chunk [of "r\<lparr>gsrc := s'\<rparr>" b f]
  note se = setErrR_ex [of "r\<lparr>gsrc := s'\<rparr>"] setErrR_ex [of r]
  show ?thesis
  proof (cases "gnext r > LastChunk (grng r)")
    case True
    then show ?thesis
      using r se by (simp add: range_step_def fillR_def)
  next
    case False
    then show ?thesis
      using r se oc unfolding range_step_def fillR_def f_def [symmetric]
      by (cases e) (auto simp: rd Let_def split: sum.splits)
  qed
qed

lemma fillR_cases:
  assumes inv: "readerR_inv r" and pl: "gplain r = []" and rem: "gremaining r \<noteq> 0"
  obtains (error) e r' where "fillR r = (Some e, r')" "gerr r' = Some e" "restR r = []" "outcomeR r = e"
    | (chunk) r' where "fillR r = (None, r')" "readerR_inv r'" "restR r' = restR r" "outcomeR r' = outcomeR r"
proof -
  let ?k = "skey (gsealer r)" and ?a = "saad (gsealer r)"
  have pos: "0 < nat (gremaining r)" "int (nat (gremaining r)) = gremaining r" "\<not> gdone r"
    using inv rem by (auto simp: readerR_inv_def)
  note fs = fillR_range_step [OF inv]
  have ah: "aheadR r = range_from ?k ?a (rchunk r) (grng r) (gnext r) (nat (gremaining r)) (gskip r) (gsrc r)"
    by (simp add: aheadR_def pl)
  show thesis
  proof (cases "range_step ?k ?a (rchunk r) (grng r) (gnext r) (gremaining r) (gskip r) (gsrc r)")
    case (Inl e)
    moreover have "restR r = []" "outcomeR r = e"
      using Inl pl pos unfolding restR_def outcomeR_def ah by (simp_all add: range_from.simps)
    ultimately show thesis using fs error by auto
  next
    case (Inr y)
    obtain x skip t where y: "y = (x, skip, t)" by (cases y)
    define r' where "r' = r\<lparr>gsrc := t, gsealer := setNonce (gnext r) (gnext r = LastChunk (grng r) \<and>
      LastIsFinal (grng r)) (gsealer r), gskip := skip, gplain := x, gnext := gnext r + 1\<rparr>"
    have f: "fillR r = (None, r')"
      using fs Inr y by (simp add: r'_def)
    have len: "length x \<le> nat (gremaining r)"
      using Inr y by (auto elim: range_step_Inr)
    have a': "aheadR r' = range_from ?k ?a (rchunk r) (grng r) (gnext r + 1) (nat (gremaining r) - length x) skip t"
      using len pos by (simp add: aheadR_def r'_def rchunk_def nat_diff_distrib')
    have "readerR_inv r'"
      using inv len pos by (auto simp: r'_def readerR_inv_def rchunk_def)
    moreover have "restR r' = restR r" "outcomeR r' = outcomeR r"
      using Inr y pl pos unfolding restR_def outcomeR_def a' ah
        range_from.simps [of ?k ?a "rchunk r" "grng r" "gnext r" "nat (gremaining r)"]
      by (simp_all add: r'_def)
    ultimately show thesis using chunk f by blast
  qed
qed

interpretation range: byte_reader ReadR restR outcomeR readerR_inv
proof
  fix r :: RangeReader and k :: nat
  assume inv: "readerR_inv r" and k: "0 < k"
  have all: "(\<exists>b x'. readLoopR k x = (b, None, x') \<and> b \<noteq> [] \<and> restR x = b @ restR x' \<and>
      outcomeR x' = outcomeR x \<and> readerR_inv x') \<or>
    (restR x = [] \<and> (\<exists>x'. readLoopR k x = ([], Some (outcomeR x), x')))" if "readerR_inv x" for x
    using that
  proof (induction "length (src_data (gsrc x))" arbitrary: x rule: less_induct)
    case less
    show ?case
    proof (cases "gplain x = []")
      case False
      define n where "n = min k (length (gplain x))"
      define x' where "x' = x\<lparr>gplain := drop n (gplain x), gremaining := gremaining x - int n,
          gdone := (if gremaining x - int n = 0 then True else gdone x)\<rparr>"
      have "readLoopR k x = (take n (gplain x), None, x')"
        using False by (subst readLoopR.simps) (simp add: x'_def n_def Let_def)
      moreover have n: "n \<le> length (gplain x)" "0 < n"
        using False k by (auto simp: n_def)
      moreover have "aheadR x' = aheadR x"
        using n by (simp add: aheadR_def x'_def rchunk_def)
      moreover have "readerR_inv x'"
        using less.prems n by (auto simp: readerR_inv_def x'_def rchunk_def)
      ultimately show ?thesis
        using False by (auto simp: restR_def outcomeR_def x'_def)
    next
      case True
      note pl = True
      show ?thesis
      proof (cases "gremaining x = 0")
        case True
        then have "readLoopR k x = ([], Some (Sentinel EOF), releaseR x)"
          using pl by (subst readLoopR.simps) simp
        with True pl show ?thesis
          by (simp add: restR_def outcomeR_def aheadR_def range_from.simps)
      next
        case False
        have un: "readLoopR k x = (case fillR x of (Some e, r') \<Rightarrow> ([], Some e, r') | (None, r') \<Rightarrow> readLoopR k r')"
          using False pl less.prems by (subst readLoopR.simps) (simp add: readerR_inv_def)
        from less.prems pl False show ?thesis
        proof (cases rule: fillR_cases)
          case (error e r')
          then show ?thesis using un by simp
        next
          case (chunk r')
          then show ?thesis
            using less.hyps [OF fillR_consumes [OF chunk(1)] chunk(2)] un by simp
        qed
      qed
    qed
  qed
  have e: "gerr r = None" using inv by (simp add: readerR_inv_def)
  show "restR r \<noteq> [] \<Longrightarrow> \<exists>b r'. ReadR k r = (b, None, r') \<and> b \<noteq> [] \<and> restR r = b @ restR r' \<and>
      outcomeR r' = outcomeR r \<and> readerR_inv r'"
    using all [OF inv] e by (simp add: ReadR_def)
  show "restR r = [] \<Longrightarrow> \<exists>r'. ReadR k r = ([], Some (outcomeR r), r')"
    using all [OF inv] e by (auto simp: ReadR_def)
qed

section \<open>The mapping\<close>

lemma OpenedSize_Inr:
  assumes "OpenedSize sealed l = Inr plain"
  shows "ValidateLog2ChunkSize l = None \<and> 0 \<le> plain \<and> plain \<le> 2 ^ 46 \<and>
    sealed = 32 + plain + 16 * max (cdiv plain (chunk_bytes l)) 1 \<and> sealed \<le> 2 ^ 47"
proof -
  have "SealedSizeSegments plain l 1 = Inr sealed"
    using assms by (simp add: OpenedSize_def OpenedSizeSegments_iff)
  with SealedSizeSegments_Inr [of plain l 1 sealed] OpenedSizeSegments_range [of sealed l 1 plain] assms
  show ?thesis by (simp add: sealed_size_def OpenedSize_def)
qed

lemma ChunkCount_eq:
  assumes "ValidateLog2ChunkSize l = None" and "0 \<le> plain" and "plain \<le> 2 ^ 46"
  shows "ChunkCount plain l = max (cdiv plain (chunk_bytes l)) 1"
proof -
  let ?c = "chunk_bytes l"
  note b = chunk_bytes_bounds [OF assms(1)]
  have "quot64 (sub64 (add64 plain ?c) 1) ?c = cdiv plain ?c"
    using assms b by (simp add: add64_def sub64_def in64_def quot64_nonneg cdiv_def)
  then show ?thesis
    using b by (simp add: ChunkCount_def Let_def max_def)
qed

text \<open>What \<open>MapRange\<close> returns for a satisfiable range, with no 64-bit wrap-around left.\<close>

lemma MapRange_eq:
  assumes o: "OpenedSize sealed l = Inr plain" and r: "0 \<le> start" "start \<le> endp" "start < plain"
  defines "c \<equiv> chunk_bytes l" and "e \<equiv> min endp (plain - 1)"
  shows "MapRange start endp sealed l = Inr \<lparr>FirstChunk = word_of_int (start div c),
    LastChunk = word_of_int (e div c), CipherStart = 32 + start div c * (c + 16),
    CipherEnd = min (32 + (e div c + 1) * (c + 16)) sealed - 1, Skip = start mod c,
    RLength = e - start + 1, LastIsFinal = (e div c = cdiv plain c - 1),
    NeedsSeparateHeader = (0 < start div c)\<rparr>"
proof -
  note os = OpenedSize_Inr [OF o]
  note b = chunk_bytes_bounds [of l, folded c_def]
  have c: "4096 \<le> c" "c \<le> 2 ^ 20" "shl64 1 (unat l) = c"
    using b os by auto
  have e: "(if endp \<ge> plain then sub64 plain 1 else endp) = e" "0 \<le> e" "e < plain" "start \<le> e"
    using os r by (auto simp: e_def sub64_def in64_def)
  have q: "quot64 start c = start div c" "quot64 e c = e div c"
    using os r e c by (auto simp: quot64_nonneg in64_def)
  have d: "0 \<le> x div c \<and> 0 \<le> x div c * c \<and> x div c * c \<le> x \<and> x div c \<le> 2 ^ 34" if "0 \<le> x" "x \<le> 2 ^ 46" for x
  proof -
    have m: "x div c * c \<le> x"
      using c div_mult_mod_eq [of x c] pos_mod_sign [of c x] by linarith
    have n: "0 \<le> x div c"
      using that c by (simp add: pos_imp_zdiv_nonneg_iff)
    have "x div c * 4096 \<le> x div c * c"
      using n c by (intro mult_left_mono) auto
    with m that have "x div c * 4096 \<le> 2 ^ 46" by (meson order_trans)
    then have "x div c \<le> 2 ^ 34" by simp
    with m n c(1) show ?thesis by simp
  qed
  have ds: "0 \<le> start div c" "0 \<le> start div c * c" "start div c * c \<le> start" "start div c \<le> 2 ^ 34"
    and de: "0 \<le> e div c" "0 \<le> e div c * c" "e div c * c \<le> e" "e div c \<le> 2 ^ 34"
    using d [of start] d [of e] os r e by auto
  define A B where "A = start div c * c" and "B = e div c * c"
  have p: "start div c * (c + 16) = A + 16 * (start div c)" "start div c * c = A"
    "(e div c + 1) * (c + 16) = B + c + 16 * (e div c) + 16"
    by (simp_all add: A_def B_def algebra_simps)
  have AB: "0 \<le> A" "A \<le> start" "0 \<le> B" "B \<le> e"
    using ds de by (simp_all add: A_def B_def)
  have "cdiv plain c \<noteq> 0"
    using cdiv_iff [of c plain 0] c r by auto
  then have cd: "1 \<le> cdiv plain c" "cdiv plain c \<le> 2 ^ 35"
    using cdiv_bound [of c plain] os c by linarith+
  have "add64 c 16 = c + 16" "mul64 (start div c) (c + 16) = start div c * (c + 16)"
    "add64 32 (start div c * (c + 16)) = 32 + start div c * (c + 16)" "add64 (e div c) 1 = e div c + 1"
    "mul64 (e div c + 1) (c + 16) = (e div c + 1) * (c + 16)"
    "add64 32 ((e div c + 1) * (c + 16)) = 32 + (e div c + 1) * (c + 16)"
    "mul64 (start div c) c = start div c * c" "sub64 start (start div c * c) = start - start div c * c"
    "sub64 e start = e - start" "add64 (e - start) 1 = e - start + 1"
    "sub64 (min (32 + (e div c + 1) * (c + 16)) sealed) 1 = min (32 + (e div c + 1) * (c + 16)) sealed - 1"
    using c(1,2) ds(1,4) de(1,4) AB os r e(2-4) unfolding p by (auto simp: p add64_def sub64_def mul64_def in64_def min_def)
  moreover have "ChunkCount plain l = cdiv plain c" "sub64 (cdiv plain c) 1 = cdiv plain c - 1"
    using ChunkCount_eq [of l plain] os cd by (auto simp: c_def sub64_def in64_def max_def)
  moreover have "(if 32 + (e div c + 1) * (c + 16) > sealed then sealed else 32 + (e div c + 1) * (c + 16)) =
      min (32 + (e div c + 1) * (c + 16)) sealed"
    by (simp add: min_def)
  moreover have "start - start div c * c = start mod c"
    by (simp add: minus_div_mult_eq_mod)
  ultimately show ?thesis
    using r e(1) unfolding MapRange_def o ebind_simps by (simp add: c(3) q Let_def not_less cong: if_cong split del: if_split)
qed

section \<open>A range of an intact segment\<close>

lemma drop_skip_chunk:
  assumes "skip \<le> c"
  shows "drop (j * c + skip) p = drop skip (take c (drop (j * c) p)) @ drop (Suc j * c) p"
proof -
  have "drop skip q = drop skip (take c q) @ drop c q" if "skip \<le> c" for q :: "'a list"
    using that drop_append [of skip "take c q" "drop c q"] by (cases "length q \<le> c") simp_all
  from this [OF assms, of "drop (j * c) p"] show ?thesis
    by (simp add: add.commute)
qed

lemma take_skip_chunk:
  assumes "skip \<le> c"
  shows "take rem (drop (j * c + skip) p) = take rem (drop skip (take c (drop (j * c) p))) @
    take (rem - length (take rem (drop skip (take c (drop (j * c) p))))) (drop (Suc j * c) p)"
  unfolding drop_skip_chunk [OF assms] by (simp add: min_def)

text \<open>What a ciphertext starts with at chunk \<open>j\<close>, and the step of the reader on it.\<close>

lemma range_step_sealed:
  assumes c: "0 < c" "j * c < length p" and s: "skip < c" "skip < length p - j * c"
    and j: "j \<le> z" "z < 2 ^ 63" "z * c < length p"
    and rng: "LastChunk rng = word_of_nat z" "LastIsFinal rng \<longleftrightarrow> length p \<le> Suc z * c"
  shows "\<exists>t. range_step k a c rng (word_of_nat j) (int rem) (int skip)
      \<lparr>src_data = take ((Suc z - j) * (c + 16)) (seal_from k a c (word_of_nat j) (drop (j * c) p)),
       src_end = Sentinel EOF\<rparr> =
      Inr (take rem (drop skip (take c (drop (j * c) p))), 0, t) \<and>
    (j < z \<longrightarrow> t = \<lparr>src_data = take ((z - j) * (c + 16))
        (seal_from k a c (word_of_nat (Suc j)) (drop (Suc j * c) p)), src_end = Sentinel EOF\<rparr>)"
proof -
  let ?p = "drop (j * c) p" and ?i = "word_of_nat j :: 64 word"
  have le: "\<not> ?i > LastChunk rng" and eq: "?i = LastChunk rng \<longleftrightarrow> j = z"
    using j rng by (auto simp: word_less_nat_alt unat_of_nat word_of_nat_eq_iff take_bit_nat_eq_self)
  have f: "(?i = LastChunk rng \<and> LastIsFinal rng) \<longleftrightarrow> length ?p \<le> c"
  proof (cases "j = z")
    case True
    then show ?thesis using eq rng by (simp add: le_diff_conv)
  next
    case False
    then have "Suc j * c \<le> z * c" using j by (intro mult_le_mono1) simp
    then have "\<not> length ?p \<le> c" using j by simp
    then show ?thesis using eq False by simp
  qed
  have n: "(Suc z - j) * (c + 16) = (c + 16) + (z - j) * (c + 16)"
    using j by (simp add: Suc_diff_le)
  show ?thesis
  proof (cases "length ?p \<le> c")
    case True
    then have sf: "seal_from k a c ?i ?p = gcm_Seal k (chunkNonce ?i True) ?p a"
      by (subst seal_from.simps) simp
    have jl: "j = z"
      using f True eq by simp
    have "length (gcm_Seal k (chunkNonce ?i True) ?p a) \<le> c + 16"
      using True by simp
    then show ?thesis
      using True f le s jl unfolding sf n range_step_def f
      by (auto simp: read_full_def open_range_def open_chunk_def)
  next
    case False
    then have sf: "seal_from k a c ?i ?p = gcm_Seal k (chunkNonce ?i False) (take c ?p) a @
        seal_from k a c (word_of_nat (Suc j)) (drop (Suc j * c) p)"
      using c by (subst seal_from.simps) (simp add: add.commute)
    have "length (gcm_Seal k (chunkNonce ?i False) (take c ?p) a) = c + 16"
      using False by simp
    then show ?thesis
      using False f le s unfolding sf n range_step_def f
      by (auto simp: read_full_def open_range_def open_chunk_def)
  qed
qed

lemma range_from_sealed:
  assumes "0 < c" "z < 2 ^ 63" "z * c < length p"
    and "LastChunk rng = word_of_nat z" "LastIsFinal rng \<longleftrightarrow> length p \<le> Suc z * c"
    and "j \<le> z" "skip < c" "0 < rem" "j * c + skip + rem \<le> length p" "j * c + skip + rem \<le> Suc z * c"
  shows "range_from k a c rng (word_of_nat j) rem (int skip)
      \<lparr>src_data = take ((Suc z - j) * (c + 16)) (seal_from k a c (word_of_nat j) (drop (j * c) p)),
       src_end = Sentinel EOF\<rparr> = (take rem (drop (j * c + skip) p), Sentinel EOF)"
  using assms
proof (induction "z - j" arbitrary: j skip rem)
  case 0
  then have jl: "j = z" by simp
  let ?x = "take rem (drop skip (take c (drop (j * c) p)))"
  have sl: "skip < length p - j * c" using 0 by linarith
  obtain t where "range_step k a c rng (word_of_nat j) (int rem) (int skip)
      \<lparr>src_data = take ((Suc z - j) * (c + 16)) (seal_from k a c (word_of_nat j) (drop (j * c) p)),
       src_end = Sentinel EOF\<rparr> = Inr (?x, 0, t)"
    using range_step_sealed [OF 0(2) _ 0(8) sl 0(7) 0(3,4,5,6)] jl 0(4) by blast
  moreover have len: "length ?x = rem"
    using "0.prems"(9,10) jl by simp
  moreover have "?x = take rem (drop (j * c + skip) p)"
    using take_skip_chunk [of skip c rem j p, unfolded len] "0.prems"(7) by simp
  ultimately show ?case
    using "0.prems"(8) by (subst range_from.simps) (simp add: range_from.simps [where rem = 0])
next
  case (Suc m)
  then have jl: "j < z" by simp
  let ?x = "take rem (drop skip (take c (drop (j * c) p)))"
  let ?t = "\<lparr>src_data = take ((z - j) * (c + 16)) (seal_from k a c (word_of_nat (Suc j)) (drop (Suc j * c) p)),
    src_end = Sentinel EOF\<rparr>"
  have jc: "Suc j * c \<le> z * c"
    using jl by (intro mult_le_mono1) simp
  then have sl: "skip < length p - j * c" "j * c < length p"
    using Suc.prems by simp_all
  have st: "range_step k a c rng (word_of_nat j) (int rem) (int skip)
      \<lparr>src_data = take ((Suc z - j) * (c + 16)) (seal_from k a c (word_of_nat j) (drop (j * c) p)),
       src_end = Sentinel EOF\<rparr> = Inr (?x, 0, ?t)"
    using range_step_sealed [OF Suc.prems(1) sl(2) Suc.prems(7) sl(1) Suc.prems(6,2-5)] jl by blast
  from jc have len: "length ?x = min rem (c - skip)"
    using Suc.prems(3) by simp
  note tk = take_skip_chunk [of skip c rem j p, OF less_imp_le [OF Suc.prems(7)]]
  show ?case
  proof (cases "rem - length ?x = 0")
    case True
    then show ?thesis
      unfolding tk using st Suc.prems(8)
      by (subst range_from.simps) (simp add: range_from.simps [where rem = 0])
  next
    case False
    have "range_from k a c rng (word_of_nat (Suc j)) (rem - length ?x) (int 0)
        \<lparr>src_data = take ((Suc z - Suc j) * (c + 16))
          (seal_from k a c (word_of_nat (Suc j)) (drop (Suc j * c) p)), src_end = Sentinel EOF\<rparr> =
        (take (rem - length ?x) (drop (Suc j * c + 0) p), Sentinel EOF)"
    proof (rule Suc.hyps(1) [OF _ Suc.prems(1-5)])
      show "Suc j * c + 0 + (rem - length ?x) \<le> length p" "Suc j * c + 0 + (rem - length ?x) \<le> Suc z * c"
        using Suc.prems(7,9,10) jc jl Suc.prems(3) unfolding len by (auto simp: min_def)
    qed (use Suc.hyps(2) jl False Suc.prems(1) in simp_all)
    then show ?thesis
      unfolding tk using st Suc.prems(8)
      by (subst range_from.simps) (simp add: add.commute)
  qed
qed

text \<open>The ciphertext of a segment from chunk \<open>j\<close> on.\<close>

lemma drop_seal_from:
  assumes "0 < c" and "j = 0 \<or> j * c < length p"
  shows "drop (j * (c + 16)) (seal_from k a c i p) = seal_from k a c (i + word_of_nat j) (drop (j * c) p)"
proof (cases "j = 0")
  case False
  then have p: "p = take (j * c) p @ drop (j * c) p" "length (take (j * c) p) = j * c" "drop (j * c) p \<noteq> []"
    using assms by auto
  have "seal_from k a c i p = seal_full k a c j i (take (j * c) p) @
      seal_from k a c (i + word_of_nat j) (drop (j * c) p)"
    using seal_from_full [OF assms(1) p(2,3)] p(1) by simp
  moreover have "length (seal_full k a c j i (take (j * c) p)) = j * (c + 16)"
    using length_seal_full [OF p(2)] .
  ultimately show ?thesis by simp
qed simp

lemma NewRangeReader_ok:
  assumes "wf_header h" and "validateExpectation want = None" and "requireParams h want = None"
    and "length dek = KeySize" and "\<not> LastChunk rng < FirstChunk rng" and "0 \<le> RLength rng"
  shows "\<exists>r. NewRangeReader src (raw h) dek want rng = Inr r \<and> readerR_inv r \<and>
    (restR r, outcomeR r) = range_from (subkey dek (hsalt h)) (raw h) (chunkSize h) rng (FirstChunk rng)
      (nat (RLength rng)) (Skip rng) src"
  using assms
  by (simp add: NewRangeReader_def parseHeader_raw newSealer_eq readerR_inv_def rchunk_def chunkSize_def
      wf_sealer_def restR_def outcomeR_def aheadR_def)

lemma NewRangeReader_Inr:
  assumes "NewRangeReader src rawHeader dek want rng = Inr r"
  obtains h where "wf_header h" "rawHeader = raw h" "validateExpectation want = None"
    "requireParams h want = None" "length dek = KeySize" "\<not> LastChunk rng < FirstChunk rng"
proof -
  from assms obtain h where "parseHeader rawHeader = Inr h" "validateExpectation want = None"
    "requireParams h want = None" "length dek = KeySize" "\<not> LastChunk rng < FirstChunk rng"
    by (auto simp: NewRangeReader_def result_simps newSealer_eq split: if_splits)
  with parseHeader_wf [of rawHeader h] show thesis
    by (intro that [of h]) auto
qed

text \<open>A client that copies a range to its end, with a buffer of \<open>k\<close> bytes.\<close>

definition read_range ::
  "nat \<Rightarrow> source \<Rightarrow> bytes \<Rightarrow> bytes \<Rightarrow> SegmentParams \<Rightarrow> Range \<Rightarrow> ((bytes \<times> err option \<times> RangeReader) option) result"
where
  "read_range k src rawHeader dek want rng =
     ebind (NewRangeReader src rawHeader dek want rng)
       (\<lambda>r. Inr (drain (ReadR k) (Suc (length (src_data src))) r))"

lemma length_range_from: "length (fst (range_from k a c rng i rem skip s)) \<le> length (src_data s)"
proof (induction k a c rng i rem skip s rule: range_from.induct)
  case (1 k a c rng i rem skip s)
  show ?case
  proof (cases "rem = 0 \<or> (\<exists>e. range_step k a c rng i (int rem) skip s = Inl e)")
    case True
    then show ?thesis by (subst range_from.simps) auto
  next
    case False
    then obtain x skip' s' where y: "range_step k a c rng i (int rem) skip s = Inr (x, skip', s')"
      by (metis sum.exhaust prod_cases3)
    then have "length x + length (src_data s') \<le> length (src_data s)"
      by (rule range_step_Inr) auto
    moreover have "length (fst (range_from k a c rng (i + 1) (rem - length x) skip' s')) \<le> length (src_data s')"
      using "1.IH" False y by blast
    ultimately show ?thesis
      using False y by (subst range_from.simps) simp
  qed
qed

lemma read_range_eq:
  fixes src :: source
  assumes "wf_header h" and "validateExpectation want = None" and "requireParams h want = None"
    and "length dek = KeySize" and "\<not> LastChunk rng < FirstChunk rng" and "0 \<le> RLength rng" and "0 < k"
  defines "res \<equiv> range_from (subkey dek (hsalt h)) (raw h) (chunkSize h) rng (FirstChunk rng)
      (nat (RLength rng)) (Skip rng) src"
  shows "\<exists>r. read_range k src (raw h) dek want rng =
    Inr (Some (fst res, if snd res = Sentinel EOF then None else Some (snd res), r))"
proof -
  from NewRangeReader_ok [OF assms(1-6), of src] obtain r where r:
    "NewRangeReader src (raw h) dek want rng = Inr r" "readerR_inv r" "restR r = fst res" "outcomeR r = snd res"
    unfolding res_def by (metis fst_conv snd_conv)
  have "length (restR r) < Suc (length (src_data src))"
    unfolding r(3) res_def using length_range_from less_Suc_eq_le by blast
  from range.drain_rest [OF r(2) assms(7) this] r show ?thesis
    by (auto simp: read_range_def simp del: drain.simps)
qed

text \<open>A satisfiable range in natural numbers.\<close>

lemma MapRange_nat:
  assumes "OpenedSize sealed l = Inr (int n)" and "start \<le> endp" "start < n"
  defines "c \<equiv> 2 ^ unat l" and "e \<equiv> min endp (n - 1)"
  shows "MapRange (int start) (int endp) sealed l = Inr \<lparr>FirstChunk = word_of_nat (start div c),
    LastChunk = word_of_nat (e div c), CipherStart = int (32 + start div c * (c + 16)),
    CipherEnd = min (int (32 + Suc (e div c) * (c + 16))) sealed - 1, Skip = int (start mod c),
    RLength = int (Suc e - start), LastIsFinal = (n \<le> Suc (e div c) * c),
    NeedsSeparateHeader = (0 < start div c)\<rparr>"
proof -
  have v: "ValidateLog2ChunkSize l = None"
    using OpenedSize_Inr [OF assms(1)] by simp
  have c: "chunk_bytes l = int c" "0 < c"
    by (simp_all add: chunk_bytes_def c_def)
  have e: "min (int endp) (int n - 1) = int e" "e < n" "start \<le> e"
    using assms(2,3) by (auto simp: e_def min_def)
  have "e div c * c \<le> e" "e < Suc (e div c) * c"
    using c(2) by (simp_all add: div_times_less_eq_dividend dividend_less_div_times)
  then have "e div c * c < n"
    using e(2) by linarith
  moreover have "(int (e div c) + 1) * int c = int (Suc (e div c) * c)"
    "int (e div c) * int c = int (e div c * c)"
    by (simp_all add: algebra_simps)
  ultimately have "cdiv (int n) (int c) = int (e div c) + 1 \<longleftrightarrow> n \<le> Suc (e div c) * c"
    using cdiv_iff [of "int c" "int n" "int (e div c) + 1"] c(2) by (simp del: of_nat_mult mult_Suc)
  then have f: "int (e div c) = cdiv (int n) (int c) - 1 \<longleftrightarrow> n \<le> Suc (e div c) * c"
    by linarith
  have q: "int x div int c = int (x div c)" "int x mod int c = int (x mod c)" for x
    by (simp_all add: zdiv_int zmod_int)
  have l: "(int (e div c) + 1) * (int c + 16) = int (Suc (e div c) * (c + 16))"
    "int (start div c) * (int c + 16) = int (start div c * (c + 16))" "int e - int start + 1 = int (Suc e - start)"
    using e(3) by (simp_all add: algebra_simps)
  have "MapRange (int start) (int endp) sealed l = Inr \<lparr>FirstChunk = word_of_int (int (start div c)),
    LastChunk = word_of_int (int (e div c)), CipherStart = 32 + int (start div c * (c + 16)),
    CipherEnd = min (32 + int (Suc (e div c) * (c + 16))) sealed - 1, Skip = int (start mod c),
    RLength = int (Suc e - start), LastIsFinal = (n \<le> Suc (e div c) * c),
    NeedsSeparateHeader = (0 < int (start div c))\<rparr>"
    using MapRange_eq [OF assms(1), of "int start" "int endp"] assms(2,3)
    unfolding c e(1) q l f by simp
  then show ?thesis
    by (simp only: of_int_of_nat_eq of_nat_add of_nat_numeral of_nat_0_less_iff)
qed

lemma length_restR:
  assumes "NewRangeReader src rawHeader dek want rng = Inr r"
  shows "length (restR r) \<le> length (src_data src)"
proof -
  have "gsrc r = src" "gplain r = []"
    using assms by (auto simp: NewRangeReader_def result_simps split: if_splits)
  then show ?thesis using length_range_from by (simp add: restR_def aheadR_def)
qed

lemma NewRangeReader_sealed:
  assumes h: "wf_header h" "validateExpectation want = None" "requireParams h want = None"
      "length dek = KeySize"
    and l: "Log2ChunkSize (hparams h) = l" and o: "OpenedSize sealed l = Inr (int (length p))"
    and r: "start \<le> endp" "start < length p"
    and m: "MapRange (int start) (int endp) sealed l = Inr rng"
    and src: "src = \<lparr>src_data = slice (nat (CipherStart rng)) (Suc (nat (CipherEnd rng))) (seal_segment dek h p),
      src_end = Sentinel EOF\<rparr>" and sz: "sealed = int (length (seal_segment dek h p))"
  shows "\<exists>x. NewRangeReader src (raw h) dek want rng = Inr x \<and> readerR_inv x \<and>
    restR x = slice start (Suc endp) p \<and> outcomeR x = Sentinel EOF"
proof -
  let ?c = "chunkSize h" and ?k = "subkey dek (hsalt h)" and ?a = "raw h"
  define e where "e = min endp (length p - 1)"
  define i where "i = start div ?c"
  define z where "z = e div ?c"
  have c: "2 ^ unat l = ?c" using l by (simp add: chunkSize_def)
  have rng: "rng = \<lparr>FirstChunk = word_of_nat i, LastChunk = word_of_nat z,
      CipherStart = int (32 + i * (?c + 16)), CipherEnd = min (int (32 + Suc z * (?c + 16))) sealed - 1,
      Skip = int (start mod ?c), RLength = int (Suc e - start),
      LastIsFinal = (length p \<le> Suc z * ?c), NeedsSeparateHeader = (0 < i)\<rparr>"
    using MapRange_nat [OF o r] m unfolding c e_def i_def z_def by simp
  have e: "e < length p" "start \<le> e" using r by (auto simp: e_def)
  have "int (length p) \<le> 2 ^ 46"
    using OpenedSize_Inr [OF o] by simp
  then have lp: "length p \<le> 2 ^ 46" by simp
  have zi: "i \<le> z" "z * ?c < length p" "i * ?c < length p" "z < length p"
    using e div_le_mono [of start e ?c] div_times_less_eq_dividend [of e ?c]
      div_times_less_eq_dividend [of start ?c] div_le_dividend [of e ?c] unfolding i_def z_def by linarith+
  have z63: "z < 2 ^ 63" using zi(4) lp by simp
  have "unat (word_of_nat i :: 64 word) = i" "unat (word_of_nat z :: 64 word) = z"
    using zi(1) z63 by (simp_all add: unat_of_nat)
  then have ge: "\<not> LastChunk rng < FirstChunk rng"
    using zi(1) by (simp add: rng word_less_nat_alt)
  have seg: "drop (32 + i * (?c + 16)) (seal_segment dek h p) = seal_from ?k ?a ?c (word_of_nat i) (drop (i * ?c) p)"
    using drop_seal_from [of ?c i p ?k ?a 0] zi(3) h(1) by (simp add: seal_segment_def)
  have "src = \<lparr>src_data = take ((Suc z - i) * (?c + 16)) (seal_from ?k ?a ?c (word_of_nat i) (drop (i * ?c) p)),
      src_end = Sentinel EOF\<rparr>"
  proof -
    let ?S = "seal_segment dek h p"
    have n: "Suc (nat (min (int (32 + Suc z * (?c + 16))) sealed - 1)) = min (32 + Suc z * (?c + 16)) (length ?S)"
    proof -
      have gen: "Suc (nat (min (int x) (int y) - 1)) = min x y" if "0 < x" "0 < y" for x y
        using that by linarith
      show ?thesis
        unfolding sz by (rule gen) (simp_all add: seal_segment_def)
    qed
    have "slice s0 (min m (length ?S)) ?S = take (m - s0) (drop s0 ?S)" for s0 m
      by (auto simp: slice_def min_def)
    moreover have "32 + Suc z * (?c + 16) - (32 + i * (?c + 16)) = (Suc z - i) * (?c + 16)"
      by (simp add: diff_mult_distrib del: mult_Suc)
    ultimately show ?thesis
      unfolding src seg [symmetric] by (simp add: rng n del: of_nat_add of_nat_mult mult_Suc)
  qed
  then have "range_from ?k ?a ?c rng (word_of_nat i) (Suc e - start) (int (start mod ?c)) src =
      (take (Suc e - start) (drop (i * ?c + start mod ?c) p), Sentinel EOF)"
  proof (simp only:, intro range_from_sealed)
    have st: "i * ?c + start mod ?c = start" by (simp add: i_def)
    then show "i * ?c + start mod ?c + (Suc e - start) \<le> length p"
      using e by simp
    have "e < Suc z * ?c" by (simp add: z_def dividend_less_div_times)
    then show "i * ?c + start mod ?c + (Suc e - start) \<le> Suc z * ?c"
      using st e by simp
  qed (use zi z63 e rng in simp_all)
  moreover have "i * ?c + start mod ?c = start" by (simp add: i_def)
  moreover have "take (Suc e - start) (drop start p) = slice start (Suc endp) p"
    by (auto simp: slice_def e_def min_def)
  ultimately show ?thesis
    using NewRangeReader_ok [OF h(1-4) ge, of src] by (auto simp: rng)
qed

lemma read_range_sealed:
  assumes h: "wf_header h" "validateExpectation want = None" "requireParams h want = None"
      "length dek = KeySize" "0 < k"
    and l: "Log2ChunkSize (hparams h) = l" and o: "OpenedSize sealed l = Inr (int (length p))"
    and r: "start \<le> endp" "start < length p"
    and m: "MapRange (int start) (int endp) sealed l = Inr rng"
    and src: "src = \<lparr>src_data = slice (nat (CipherStart rng)) (Suc (nat (CipherEnd rng))) (seal_segment dek h p),
      src_end = Sentinel EOF\<rparr>" and sz: "sealed = int (length (seal_segment dek h p))"
  shows "\<exists>x. read_range k src (raw h) dek want rng = Inr (Some (slice start (Suc endp) p, None, x))"
proof -
  obtain x where x: "NewRangeReader src (raw h) dek want rng = Inr x" "readerR_inv x"
      "restR x = slice start (Suc endp) p" "outcomeR x = Sentinel EOF"
    using NewRangeReader_sealed [OF h(1-4) l o r m src sz] by blast
  have "length (restR x) \<le> length (src_data src)" by (rule length_restR [OF x(1)])
  with range.drain_rest [OF x(2) h(5), of "Suc (length (src_data src))"] x show ?thesis
    by (auto simp: read_range_def simp del: drain.simps)
qed

section \<open>The length of a segment\<close>

lemma cdiv_step: "0 < c \<Longrightarrow> cdiv (x + c) c = cdiv x c + 1"
proof -
  assume "0 < c"
  then have "((x + c - 1) + c) div c = (x + c - 1) div c + 1"
    by (intro div_add_self2) simp
  moreover have "x + c + c - 1 = (x + c - 1) + c" by simp
  ultimately show ?thesis unfolding cdiv_def by metis
qed

lemma length_seal_from:
  assumes "0 < c"
  shows "int (length (seal_from k a c i p)) = int (length p) + 16 * max (cdiv (int (length p)) (int c)) 1"
  using assms
proof (induction k a c i p rule: seal_from.induct)
  case (1 k a c i p)
  show ?case
  proof (cases "length p \<le> c")
    case True
    then have "cdiv (int (length p)) (int c) \<le> 1"
      using "1.prems" by (intro cdiv_le) auto
    then show ?thesis using True by (subst seal_from.simps) (simp add: max_def)
  next
    case False
    then have "int (length (drop c p)) + int c = int (length p)" by simp
    then have "cdiv (int (length p)) (int c) = cdiv (int (length (drop c p))) (int c) + 1"
      using cdiv_step [of "int c" "int (length (drop c p))"] "1.prems" by simp
    moreover have "1 \<le> cdiv (int (length (drop c p))) (int c)"
      using cdiv_iff [of "int c" "int (length (drop c p))" "cdiv (int (length (drop c p))) (int c)"]
        cdiv_iff [of "int c" "int (length (drop c p))" 0]
        cdiv_nonneg [of "int c" "int (length (drop c p))"] "1.prems" False by auto
    moreover have "int (length (seal_from k a c (i + 1) (drop c p))) =
        int (length (drop c p)) + 16 * max (cdiv (int (length (drop c p))) (int c)) 1"
      using False "1.prems" by (intro "1.IH") auto
    ultimately show ?thesis
      using False "1.prems" by (subst seal_from.simps) (simp add: max_def)
  qed
qed

lemma SealedSize_seal_segment:
  assumes "wf_header h" and "length p \<le> 2 ^ 46"
  shows "SealedSize (int (length p)) (Log2ChunkSize (hparams h)) = Inr (int (length (seal_segment dek h p)))"
proof -
  let ?l = "Log2ChunkSize (hparams h)"
  have v: "ValidateLog2ChunkSize ?l = None"
    using assms(1) by (auto simp: wf_header_def Validate_def split: option.splits)
  have "int (length p) \<le> int (2 ^ 46)"
    using assms(2) by (simp only: of_nat_le_iff)
  then have "SealedSize (int (length p)) ?l = Inr (sealed_size (int (length p)) (chunk_bytes ?l) 1)"
    unfolding SealedSize_def using v by (intro SealedSizeSegments_eq) auto
  moreover have "chunk_bytes ?l = int (chunkSize h)"
    by (simp add: chunk_bytes_def chunkSize_def)
  ultimately show ?thesis
    using assms(1) length_seal_from [of "chunkSize h"]
    by (simp add: sealed_size_def seal_segment_def)
qed

lemma OpenedSize_seal_segment:
  assumes "wf_header h" and "length p \<le> 2 ^ 46"
  shows "OpenedSize (int (length (seal_segment dek h p))) (Log2ChunkSize (hparams h)) = Inr (int (length p))"
proof -
  let ?c = "chunk_bytes (Log2ChunkSize (hparams h))"
  have c: "0 < ?c" by (simp add: chunk_bytes_def)
  have "produced (int (length p)) ?c 1"
    using cdiv_iff [OF c, of "int (length p)" 0] cdiv_nonneg [OF c, of "int (length p)"]
    by (cases "p = []") (auto simp: produced_def)
  with SealedSize_seal_segment [OF assms, of dek] show ?thesis
    unfolding OpenedSize_def SealedSize_def by (rule OpenedSizeSegments_complete)
qed

section \<open>Authenticity of a range\<close>

text \<open>The chunks a range reader tries to open when it is given \<open>d\<close>, as for \<open>presented\<close>.\<close>

function rpresented :: "nat \<Rightarrow> Range \<Rightarrow> 64 word \<Rightarrow> bytes \<Rightarrow> (64 word \<times> bool \<times> bytes) list" where
  "rpresented c rng i d =
     (if i > LastChunk rng then []
      else (i, i = LastChunk rng \<and> LastIsFinal rng, take (c + 16) d) #
           (if length d \<le> c + 16 then [] else rpresented c rng (i + 1) (drop (c + 16) d)))"
  by pat_completeness auto
termination
  by (relation "measure (\<lambda>(_, _, _, d). length d)") auto

declare rpresented.simps [simp del]

lemma range_step_not_EOF: "range_step k a c rng i rem skip s \<noteq> Inl (Sentinel EOF)"
  by (auto simp: range_step_def open_range_def open_chunk_def chunkErrorf_def Let_def echeck_def
      split: prod.splits option.splits if_splits)

lemma range_step_presented:
  assumes "range_step k a c rng i rem skip s = Inr (x, skip', s')"
  obtains b p where "(i, i = LastChunk rng \<and> LastIsFinal rng, b) \<in> set (rpresented c rng i (src_data s))"
    "gcm_Open k (chunkNonce i (i = LastChunk rng \<and> LastIsFinal rng)) b a = Some p" "\<not> i > LastChunk rng"
    "x = take (nat rem) (drop (nat skip) p)" "skip' = (if skip > 0 then 0 else skip)"
    "skip > 0 \<Longrightarrow> skip < int (length p)" "length (src_data s') < length (src_data s)"
    "src_data s' \<noteq> [] \<Longrightarrow> set (rpresented c rng (i + 1) (src_data s')) \<subseteq> set (rpresented c rng i (src_data s))"
  using assms
proof (rule range_step_Inr, goal_cases)
  case (1 b p)
  from 1(2) obtain e where "read_full (c + 16) s = (b, e, s')" by blast
  then have b: "b = take (c + 16) (src_data s)" "src_data s' = drop (c + 16) (src_data s)"
    by (simp_all add: read_full_data)
  have p1: "(i, i = LastChunk rng \<and> LastIsFinal rng, b) \<in> set (rpresented c rng i (src_data s))"
    by (subst rpresented.simps) (use 1(4) b(1) in simp)
  have p2: "set (rpresented c rng (i + 1) (src_data s')) \<subseteq> set (rpresented c rng i (src_data s))"
    if "src_data s' \<noteq> []"
    by (subst (2) rpresented.simps) (use that 1(4) b(2) in auto)
  have "gcm_Open k (chunkNonce i (i = LastChunk rng \<and> LastIsFinal rng)) b a = Some p"
    using 1(3) by (simp only: gcm.open_iff)
  from 1(1) [OF p1 this 1(4-7) 1(9) p2] show thesis .
qed

lemma range_from_authentic:
  assumes "no_forgery k a (rpresented (chunkSize h) rng (word_of_nat j) (src_data s)) (sealed_log dek h p)"
    and "j \<le> Suc z" and "z \<le> 2 ^ 40" and "LastChunk rng = word_of_nat z"
    and "length p \<le> 2 ^ 46" and "skip \<le> chunkSize h"
  shows "prefix (fst (range_from k a (chunkSize h) rng (word_of_nat j) rem (int skip) s))
      (take rem (drop (j * chunkSize h + skip) p)) \<and>
    (snd (range_from k a (chunkSize h) rng (word_of_nat j) rem (int skip) s) = Sentinel EOF \<longrightarrow>
      length (fst (range_from k a (chunkSize h) rng (word_of_nat j) rem (int skip) s)) = rem)"
  using assms(1,2,6)
proof (induction "length (src_data s)" arbitrary: j s skip rem rule: less_induct)
  case less
  let ?c = "chunkSize h" and ?i = "word_of_nat j :: 64 word"
  let ?R = "range_step k a ?c rng ?i (int rem) (int skip) s"
  show ?case
  proof (cases "rem = 0 \<or> (\<exists>e. ?R = Inl e)")
    case True
    then have "range_from k a ?c rng ?i rem (int skip) s = ([], Sentinel EOF) \<and> rem = 0 \<or>
        (\<exists>e. range_from k a ?c rng ?i rem (int skip) s = ([], e) \<and> e \<noteq> Sentinel EOF)"
      using range_step_not_EOF [of k a ?c rng ?i "int rem" "int skip" s] by (auto simp: range_from.simps)
    then show ?thesis by auto
  next
    case False
    then obtain x skip' s' where y: "?R = Inr (x, skip', s')"
      by (metis sum.exhaust prod_cases3)
    then show ?thesis
    proof (rule range_step_presented, goal_cases)
      case (1 b q)
      have "unat ?i = j" "unat (word_of_nat z :: 64 word) = z"
        using less.prems(2) assms(3) by (simp_all add: unat_of_nat)
      then have j: "j \<le> z"
        using 1(3) assms(4) by (simp add: word_less_nat_alt)
      have "(k, chunkNonce ?i (?i = LastChunk rng \<and> LastIsFinal rng), a, q) \<in> set (sealed_log dek h p)"
        using less.prems(1) 1(1,2) by (fastforce simp: no_forgery_def list_all_iff)
      then have q: "q = take ?c (drop (j * ?c) p)"
        using sealed_logD [of k j _ a q dek h p] j assms(3,5) by auto
      have x: "x = take rem (drop skip (take ?c (drop (j * ?c) p)))" and s0: "skip' = int 0"
        using 1(4,5) q by auto
      note tk = take_skip_chunk [OF less.prems(3), of rem j p, folded x]
      have un: "range_from k a ?c rng ?i rem (int skip) s =
          (x @ fst (range_from k a ?c rng (word_of_nat (Suc j)) (rem - length x) (int 0) s'),
           snd (range_from k a ?c rng (word_of_nat (Suc j)) (rem - length x) (int 0) s'))"
        using False y unfolding s0 by (subst range_from.simps) (simp add: add.commute)
      have xl: "length x \<le> rem" by (simp add: x)
      show ?case
      proof (cases "src_data s' = []")
        case True
        have "range_step k a ?c rng (word_of_nat (Suc j)) rm sk s' \<noteq> Inr w" for rm sk w
          using True by (cases w) (auto elim: range_step_Inr)
        then have "range_from k a ?c rng (word_of_nat (Suc j)) (rem - length x) (int 0) s' =
            ([], Sentinel EOF) \<and> rem = length x \<or>
          (\<exists>e. range_from k a ?c rng (word_of_nat (Suc j)) (rem - length x) (int 0) s' = ([], e) \<and> e \<noteq> Sentinel EOF)"
          using xl range_step_not_EOF [of k a ?c rng "word_of_nat (Suc j)" "int (rem - length x)" "int 0" s']
          by (subst (1 2) range_from.simps) (auto split: sum.splits)
        then show ?thesis unfolding un tk by auto
      next
        case False
        have "no_forgery k a (rpresented ?c rng (word_of_nat (Suc j)) (src_data s')) (sealed_log dek h p)"
          using less.prems(1) 1(8) [OF False] unfolding no_forgery_def list_all_iff
          by (simp add: add.commute) blast
        from less.hyps [OF 1(7) this, of 0 "rem - length x"] j show ?thesis
          unfolding un tk using xl by auto
      qed
    qed
  qed
qed

lemma read_range_Inr:
  assumes "read_range k src rawHeader dek want rng = Inr (Some (q, e, r))" and "0 < k" and "0 \<le> RLength rng"
  obtains h where "wf_header h" "rawHeader = raw h"
    "q = fst (range_from (subkey dek (hsalt h)) (raw h) (chunkSize h) rng (FirstChunk rng)
      (nat (RLength rng)) (Skip rng) src)"
    "e = None \<longleftrightarrow> snd (range_from (subkey dek (hsalt h)) (raw h) (chunkSize h) rng (FirstChunk rng)
      (nat (RLength rng)) (Skip rng) src) = Sentinel EOF"
proof -
  from assms(1) obtain r0 where "NewRangeReader src rawHeader dek want rng = Inr r0"
    by (auto simp: read_range_def result_simps simp del: drain.simps)
  then show thesis
  proof (rule NewRangeReader_Inr, goal_cases)
    case (1 h)
    from read_range_eq [OF 1(1,3-6) assms(3,2), of src] assms(1) 1(1,2) show thesis
      by (intro that [of h]) auto
  qed
qed

lemma MapRange_Inr:
  assumes "MapRange (int start) (int endp) sealed l = Inr rng"
  obtains n where "OpenedSize sealed l = Inr (int n)" "start \<le> endp" "start < n" "n \<le> 2 ^ 46"
proof -
  from assms obtain plain where p: "OpenedSize sealed l = Inr plain"
    by (auto simp: MapRange_def result_simps)
  with OpenedSize_Inr [OF p] assms show thesis
    by (intro that [of "nat plain"]) (auto simp: MapRange_def Let_def split: if_splits)
qed

text \<open>A concrete single-part header, for examples.\<close>

definition example_header :: "byte \<Rightarrow> header" where
  "example_header l = \<lparr>hparams = \<lparr>Log2ChunkSize = l, Multipart = False, Index = 0\<rparr>, hsalt = replicate 20 7,
     raw = header_layout \<lparr>Log2ChunkSize = l, Multipart = False, Index = 0\<rparr> (replicate 20 7)\<rparr>"

lemma example_header_wf:
  "ValidateLog2ChunkSize l = None \<Longrightarrow> wf_header (example_header l)"
  by (simp add: example_header_def wf_header_def Validate_def validateIdentity_def)

lemma example_header_params: "hparams (example_header l) = \<lparr>Log2ChunkSize = l, Multipart = False, Index = 0\<rparr>"
  by (simp add: example_header_def)

lemma any_expectation:
  "validateExpectation \<lparr>Log2ChunkSize = 0, Multipart = False, Index = 0\<rparr> = None"
  "requireParams (example_header l) \<lparr>Log2ChunkSize = 0, Multipart = False, Index = 0\<rparr> = None"
  by (simp_all add: validateExpectation_def validateIdentity_def requireParams_def example_header_def)

section \<open>Properties\<close>

text \<open>C34: Exact sizes. For every plaintext within the format's limit, \<open>SealedSize\<close> is the number of bytes
  the encoder writes, and \<open>OpenedSize\<close> recovers the plaintext size from it, so \<open>HEAD\<close> and listings
  report the true size of an intact object.\<close>

theorem segment_sizes_exact:
  assumes "wf_header h" and "length p \<le> 2 ^ 46"
  shows "SealedSize (int (length p)) (Log2ChunkSize (hparams h)) = Inr (int (length (seal_segment dek h p))) \<and>
    OpenedSize (int (length (seal_segment dek h p))) (Log2ChunkSize (hparams h)) = Inr (int (length p))"
  using SealedSize_seal_segment [OF assms] OpenedSize_seal_segment [OF assms] by simp

theorem segment_sizes_exact_witness:
  "\<exists>h. wf_header h \<and> SealedSize 5000 (Log2ChunkSize (hparams h)) =
    Inr (int (length (seal_segment (replicate 32 1) h (replicate 5000 0))))"
proof -
  define h where "h = \<lparr>hparams = \<lparr>Log2ChunkSize = 12, Multipart = False, Index = 0\<rparr>, hsalt = replicate 20 7,
    raw = header_layout \<lparr>Log2ChunkSize = 12, Multipart = False, Index = 0\<rparr> (replicate 20 7)\<rparr>"
  have "wf_header h"
    by (simp add: h_def wf_header_def Validate_def ValidateLog2ChunkSize_def validateIdentity_def)
  with segment_sizes_exact [of h "replicate 5000 0" "replicate 32 1"] show ?thesis
    by (intro exI [of _ h]) simp
qed

text \<open>C22: Exact ranges. For an intact segment whose chunk size is the one the range was mapped with,
  \<open>MapRange\<close> followed by a \<open>RangeReader\<close> over exactly the ciphertext bytes it names delivers exactly
  the plaintext bytes \<open>start .. endp\<close> (clipped to the object) and a clean end, for any read buffer.\<close>

theorem range_exact:
  assumes "wf_header h" and "length dek = KeySize" and "length p \<le> 2 ^ 46" and "0 < k"
    and "start \<le> endp" and "start < length p"
    and "MapRange (int start) (int endp) (int (length (seal_segment dek h p))) (Log2ChunkSize (hparams h)) = Inr rng"
  shows "\<exists>r. read_range k \<lparr>src_data = slice (nat (CipherStart rng)) (Suc (nat (CipherEnd rng))) (seal_segment dek h p),
      src_end = Sentinel EOF\<rparr> (raw h) dek (hparams h) rng = Inr (Some (slice start (Suc endp) p, None, r))"
proof -
  have "Validate (hparams h) = None" using assms(1) by (simp add: wf_header_def)
  then show ?thesis
    using read_range_sealed [OF assms(1) validateExpectation_Validate _ assms(2,4) refl
        OpenedSize_seal_segment [OF assms(1,3)] assms(5,6,7) refl refl]
    by (simp add: requireParams_self)
qed

theorem range_exact_witness:
  "\<exists>h rng r. MapRange 4000 4200 (int (length (seal_segment (replicate 32 1) h (replicate 5000 0)))) 12 = Inr rng \<and>
    read_range 7 \<lparr>src_data = slice (nat (CipherStart rng)) (Suc (nat (CipherEnd rng)))
      (seal_segment (replicate 32 1) h (replicate 5000 0)), src_end = Sentinel EOF\<rparr> (raw h) (replicate 32 1)
      (hparams h) rng = Inr (Some (slice 4000 4201 (replicate 5000 0), None, r))"
proof -
  define h where "h = \<lparr>hparams = \<lparr>Log2ChunkSize = 12, Multipart = False, Index = 0\<rparr>, hsalt = replicate 20 7,
    raw = header_layout \<lparr>Log2ChunkSize = 12, Multipart = False, Index = 0\<rparr> (replicate 20 7)\<rparr>"
  let ?p = "replicate 5000 0 :: bytes" and ?dek = "replicate 32 1 :: bytes"
  have wf: "wf_header h" and l: "Log2ChunkSize (hparams h) = 12"
    by (simp_all add: h_def wf_header_def Validate_def ValidateLog2ChunkSize_def validateIdentity_def)
  have "OpenedSize (int (length (seal_segment ?dek h ?p))) 12 = Inr (int 5000)"
    using OpenedSize_seal_segment [OF wf, of ?p ?dek] l by simp
  from MapRange_nat [OF this, of 4000 4200] obtain rng where
    m: "MapRange (int 4000) (int 4200) (int (length (seal_segment ?dek h ?p))) 12 = Inr rng"
    by simp
  from range_exact [OF wf, of ?dek ?p 7 4000 4200 rng] m l show ?thesis
    by (intro exI [of _ h] exI [of _ rng]) simp
qed

text \<open>Authenticity of a range, with an untrusted size. Whatever ciphertext size the provider reports and
  whatever bytes it delivers, if the range was mapped with the segment's chunk size and each chunk that
  is presented and opens was sealed by the encoder of \<open>p\<close>, then what is emitted is a prefix of the
  requested plaintext bytes, and a clean end means that as many bytes were emitted as \<open>RLength\<close>, the
  length the response announces.\<close>

theorem range_authentic:
  assumes "read_range k src rawHeader dek' want rng = Inr (Some (q, e, r))" and "0 < k"
    and "MapRange (int start) (int endp) sealed (Log2ChunkSize (hparams h)) = Inr rng"
    and "no_forgery (subkey dek' (slice 12 32 rawHeader)) rawHeader
      (rpresented (2 ^ unat (rawHeader ! 5)) rng (FirstChunk rng) (src_data src)) (sealed_log dek h p)"
    and "wf_header h" and "length p \<le> 2 ^ 46"
  shows "prefix q (slice start (Suc endp) p) \<and> (e = None \<longrightarrow> int (length q) = RLength rng)"
proof -
  let ?c = "chunkSize h"
  from assms(3) obtain n where n: "OpenedSize sealed (Log2ChunkSize (hparams h)) = Inr (int n)"
    "start \<le> endp" "start < n" "n \<le> 2 ^ 46" by (rule MapRange_Inr)
  define z where "z = min endp (n - 1) div ?c"
  have rng: "FirstChunk rng = word_of_nat (start div ?c)" "LastChunk rng = word_of_nat z"
    "Skip rng = int (start mod ?c)" "RLength rng = int (Suc (min endp (n - 1)) - start)"
    using MapRange_nat [OF n(1-3)] assms(3) by (simp_all add: chunkSize_def z_def)
  have "2 ^ 12 \<le> ?c"
    using Validate_bounds [of "hparams h"] assms(5) unfolding chunkSize_def wf_header_def
    by (intro power_increasing) auto
  then have "z * 2 ^ 12 \<le> z * ?c" by (intro mult_le_mono2)
  also have "\<dots> \<le> min endp (n - 1)"
    unfolding z_def by (rule div_times_less_eq_dividend)
  finally have "z * 4096 \<le> n" by auto
  then have "z * 4096 \<le> 2 ^ 46" using n(4) le_trans by blast
  then have z: "z \<le> 2 ^ 40" by simp
  have fz: "start div ?c \<le> Suc z"
    unfolding z_def using n by (intro le_SucI div_le_mono) auto
  from assms(1,2) show ?thesis
  proof (rule read_range_Inr, goal_cases)
    case 1
    then show ?case by (simp add: rng)
  next
    case (2 h')
    let ?k = "subkey dek' (hsalt h')" and ?R = "\<lambda>c. rpresented c rng (FirstChunk rng) (src_data src)"
    have nf: "no_forgery ?k (raw h') (?R (chunkSize h')) (sealed_log dek h p)"
      using assms(4) raw_fields [OF 2(1), of "[]"] 2(2) by simp
    show ?case
    proof (cases "q = [] \<and> e \<noteq> None")
      case False
      let ?rs = "range_step ?k (raw h') (chunkSize h') rng (FirstChunk rng) (int (nat (RLength rng))) (Skip rng) src"
      have "0 < nat (RLength rng)" using n by (simp add: rng)
      then have "?rs \<noteq> Inl x" for x
        using False 2(3,4) range_step_not_EOF [of ?k "raw h'" "chunkSize h'" rng]
        by (auto simp: range_from.simps)
      then obtain x sk s' where "?rs = Inr (x, sk, s')"
        by (metis sum.exhaust prod_cases3)
      then have "raw h' = raw h"
      proof (rule range_step_presented, goal_cases)
        case (1 b y)
        then have "(?k, chunkNonce (word_of_nat (start div ?c)) (FirstChunk rng = LastChunk rng \<and> LastIsFinal rng),
            raw h', y) \<in> set (sealed_log dek h p)"
          using nf rng(1) by (fastforce simp: no_forgery_def list_all_iff)
        then show ?case
          using sealed_logD [of ?k "start div ?c" _ "raw h'" y dek h p] fz z assms(6) by auto
      qed
      then have "h' = h"
        using 2(1) assms(5) parseHeader_raw [of h] parseHeader_raw [of h'] by simp
      with range_from_authentic [of ?k "raw h'" h rng "start div ?c" src dek p z "start mod ?c" "nat (RLength rng)"]
        nf fz z rng 2(3,4) assms(6)
      have "prefix q (take (nat (RLength rng)) (drop start p)) \<and> (e = None \<longrightarrow> length q = nat (RLength rng))"
        by (simp add: less_imp_le)
      moreover have "prefix (take (nat (RLength rng)) (drop start p)) (slice start (Suc endp) p)"
        by (simp add: rng slice_def take_is_prefix le_diff_conv2 prefix_def)
           (metis append_take_drop_id min.cobounded1 Suc_le_mono diff_le_mono take_take min.absorb1)
      ultimately show ?thesis
        using prefix_order.trans by (auto simp: rng)
    qed auto
  qed
qed

theorem range_authentic_witness:
  "\<exists>src rng r. MapRange 5 15 (int (length (seal_segment (replicate 32 1) (example_header 12) (replicate 20 9)))) 12 =
      Inr rng \<and>
    read_range 3 src (raw (example_header 12)) (replicate 32 1) \<lparr>Log2ChunkSize = 0, Multipart = False, Index = 0\<rparr> rng =
      Inr (Some (replicate 11 9, None, r)) \<and> int (length (replicate 11 (9 :: byte))) = RLength rng"
proof -
  let ?h = "example_header 12" and ?p = "replicate 20 9 :: bytes" and ?dek = "replicate 32 1 :: bytes"
  let ?any = "\<lparr>Log2ChunkSize = 0, Multipart = False, Index = 0\<rparr> :: SegmentParams"
  let ?k = "subkey ?dek (hsalt ?h)"
  have wf: "wf_header ?h" by (intro example_header_wf) (simp add: ValidateLog2ChunkSize_def)
  have c: "chunkSize ?h = 4096" by (simp add: chunkSize_def example_header_params)
  have l: "Log2ChunkSize (hparams ?h) = 12" by (simp add: example_header_params)
  have o: "OpenedSize (int (length (seal_segment ?dek ?h ?p))) 12 = Inr (int (length ?p))"
    using OpenedSize_seal_segment [OF wf, of ?p ?dek] l by simp
  define rng where "rng = \<lparr>FirstChunk = 0, LastChunk = 0, CipherStart = 32,
    CipherEnd = int (length (seal_segment ?dek ?h ?p)) - 1, Skip = 5, RLength = 11, LastIsFinal = True,
    NeedsSeparateHeader = False\<rparr>"
  have seg: "seal_segment ?dek ?h ?p = raw ?h @ gcm_Seal ?k (chunkNonce 0 True) ?p (raw ?h)"
    unfolding seal_segment_def c by (subst seal_from.simps) (simp del: replicate.simps)
  have len: "length (seal_segment ?dek ?h ?p) = 68" using wf by (simp add: seg)
  have m: "MapRange (int 5) (int 15) (int (length (seal_segment ?dek ?h ?p))) 12 = Inr rng"
    using MapRange_nat [OF o, of 5 15] by (simp add: rng_def len)
  define src where "src = \<lparr>src_data = slice (nat (CipherStart rng)) (Suc (nat (CipherEnd rng)))
      (seal_segment ?dek ?h ?p), src_end = Sentinel EOF\<rparr>"
  obtain r where r: "read_range 3 src (raw ?h) ?dek ?any rng = Inr (Some (slice 5 (Suc 15) ?p, None, r))"
    using read_range_sealed [OF wf any_expectation, of ?dek 3 12 _ ?p 5 15 rng src] o m l
    by (auto simp: src_def)
  have sd: "src_data src = gcm_Seal ?k (chunkNonce 0 True) ?p (raw ?h)"
    using wf by (simp add: src_def rng_def seg slice_def)
  have "rpresented 4096 rng 0 (src_data src) = [(0, True, src_data src)]"
    by (subst rpresented.simps) (simp add: rng_def sd)
  then have "no_forgery ?k (raw ?h) (rpresented 4096 rng 0 (src_data src)) (sealed_log ?dek ?h ?p)"
    by (simp add: no_forgery_def sealed_log_def c sd upt_rec)
  moreover have "slice 12 32 (raw ?h) = hsalt ?h" "2 ^ unat (raw ?h ! 5) = (4096 :: nat)"
    using raw_fields [OF wf, of "[]"] c by simp_all
  moreover have "FirstChunk rng = 0" by (simp add: rng_def)
  ultimately have "int (length (slice 5 (Suc 15) ?p)) = RLength rng"
    using range_authentic [OF r, of 5 15 _ ?h ?dek ?p] m l wf by simp
  moreover have "slice 5 (Suc 15) ?p = replicate 11 9" by (simp add: slice_def)
  ultimately show ?thesis using r m by (intro exI [of _ src] exI [of _ rng] exI [of _ r]) simp
qed

text \<open>The range path does not check the recorded chunk size. A range mapped with the (unauthenticated)
  chunk size of the object's metadata and read with \<open>AnyChunkSize\<close>, as \<open>getObjectRange\<close> does, succeeds on
  an intact segment whose authenticated header says otherwise, and delivers other bytes: with
  \<open>2 ^ 12\<close> recorded for a segment of \<open>2 ^ 13\<close>-byte chunks, bytes 4096 to 4100 are answered with bytes
  8192 to 8196, and the read ends cleanly.\<close>

theorem range_wrong_chunk_size:
  "\<exists>p rng src r. MapRange 4096 4100 (int (length (seal_segment (replicate 32 1) (example_header 13) p))) 12 = Inr rng \<and>
    read_range 512 src (raw (example_header 13)) (replicate 32 1)
      \<lparr>Log2ChunkSize = AnyChunkSize, Multipart = False, Index = 0\<rparr> rng =
      Inr (Some (slice 8192 8197 p, None, r)) \<and> slice 8192 8197 p \<noteq> slice 4096 4101 p"
proof -
  let ?h = "example_header 13" and ?dek = "replicate 32 1 :: bytes"
  let ?p = "replicate 8192 0 @ replicate 16384 1 :: bytes"
  let ?k = "subkey ?dek (hsalt ?h)"
  have wf: "wf_header ?h" by (intro example_header_wf) (simp add: ValidateLog2ChunkSize_def)
  have c: "chunkSize ?h = 8192" by (simp add: chunkSize_def example_header_params)
  have "SealedSize (int 24576) 13 = Inr 24656" and o: "OpenedSize 24656 12 = Inr (int 24528)"
    by (simp_all add: size_eval)
  moreover have "length ?p = 24576" by simp
  ultimately have sz: "int (length (seal_segment ?dek ?h ?p)) = 24656"
    using SealedSize_seal_segment [OF wf, of ?p ?dek] by (simp add: example_header_params)
  define rng where "rng = \<lparr>FirstChunk = 1, LastChunk = 1, CipherStart = 4144, CipherEnd = 8255, Skip = 0,
    RLength = 5, LastIsFinal = False, NeedsSeparateHeader = True\<rparr>"
  have m: "MapRange 4096 4100 (int (length (seal_segment ?dek ?h ?p))) 12 = Inr rng"
    unfolding sz rng_def using MapRange_nat [OF o, of 4096 4100] by simp
  let ?src = "\<lparr>src_data = take ((Suc 1 - 1) * (8192 + 16)) (seal_from ?k (raw ?h) 8192 (word_of_nat 1)
    (drop (1 * 8192) ?p)), src_end = Sentinel EOF\<rparr>"
  have "range_from ?k (raw ?h) 8192 rng (word_of_nat 1) 5 (int 0) ?src =
      (take 5 (drop (1 * 8192 + 0) ?p), Sentinel EOF)"
    by (intro range_from_sealed) (simp_all add: rng_def)
  then obtain r where "read_range 512 ?src (raw ?h) ?dek \<lparr>Log2ChunkSize = 0, Multipart = False, Index = 0\<rparr> rng =
      Inr (Some (take 5 (drop 8192 ?p), None, r))"
    using read_range_eq [OF wf any_expectation, of ?dek rng 512 ?src] c by (auto simp: rng_def)
  moreover have "take 5 (drop 8192 ?p) = slice 8192 8197 ?p" "slice 8192 8197 ?p = replicate 5 1"
    "slice 4096 4101 ?p = replicate 5 0"
    by (simp_all add: slice_def)
  ultimately show ?thesis
    using m by (intro exI [of _ ?p] exI [of _ rng] exI [of _ ?src] exI [of _ r]) simp
qed

text \<open>An understated size is not always detected. The reader clips to the length the mapping computed
  but reads a whole chunk, so a provider that reports a smaller size within the final chunk, and still
  delivers all of that chunk, gets a shortened range accepted: for any 20-byte object reported with the
  ciphertext size of a 10-byte one, the range 5 to 15 ends cleanly after 5 of its 11 bytes.\<close>

theorem range_understated_size:
  assumes "length p = 20"
  shows "\<exists>rng src r. MapRange 5 15 58 12 = Inr rng \<and> int (length (seal_segment (replicate 32 1) (example_header 12) p)) = 68 \<and>
    src_data src = drop 32 (seal_segment (replicate 32 1) (example_header 12) p) \<and>
    read_range 512 src (raw (example_header 12)) (replicate 32 1) (hparams (example_header 12)) rng =
      Inr (Some (slice 5 10 p, None, r))"
proof -
  let ?h = "example_header 12" and ?dek = "replicate 32 1 :: bytes"
  let ?k = "subkey ?dek (hsalt ?h)"
  have wf: "wf_header ?h" by (intro example_header_wf) (simp add: ValidateLog2ChunkSize_def)
  have c: "chunkSize ?h = 4096" by (simp add: chunkSize_def example_header_params)
  have "SealedSize (int 20) 12 = Inr 68" and o: "OpenedSize 58 12 = Inr (int 10)"
    by (simp_all add: size_eval)
  then have sz: "int (length (seal_segment ?dek ?h p)) = 68"
    using SealedSize_seal_segment [OF wf, of p ?dek] assms by (simp add: example_header_params)
  define rng where "rng = \<lparr>FirstChunk = 0, LastChunk = 0, CipherStart = 32, CipherEnd = 57, Skip = 5,
    RLength = 5, LastIsFinal = True, NeedsSeparateHeader = False\<rparr>"
  have m: "MapRange 5 15 58 12 = Inr rng"
    unfolding rng_def using MapRange_nat [OF o, of 5 15] by simp
  have body: "drop 32 (seal_segment ?dek ?h p) = seal_from ?k (raw ?h) 4096 0 p"
    using wf c by (simp add: seal_segment_def)
  let ?src = "\<lparr>src_data = drop 32 (seal_segment ?dek ?h p), src_end = Sentinel EOF\<rparr>"
  have "length (seal_from ?k (raw ?h) 4096 0 p) \<le> 4112"
    using assms by (subst seal_from.simps) simp
  then have "?src = \<lparr>src_data = take ((Suc 0 - 0) * (4096 + 16)) (seal_from ?k (raw ?h) 4096 (word_of_nat 0) (drop (0 * 4096) p)),
      src_end = Sentinel EOF\<rparr>"
    using body by simp
  moreover have "range_from ?k (raw ?h) 4096 rng (word_of_nat 0) 5 (int 5)
      \<lparr>src_data = take ((Suc 0 - 0) * (4096 + 16)) (seal_from ?k (raw ?h) 4096 (word_of_nat 0) (drop (0 * 4096) p)),
      src_end = Sentinel EOF\<rparr> = (take 5 (drop (0 * 4096 + 5) p), Sentinel EOF)"
    by (intro range_from_sealed) (simp_all add: rng_def assms)
  ultimately have "range_from ?k (raw ?h) 4096 rng 0 5 5 ?src = (take 5 (drop 5 p), Sentinel EOF)"
    by simp
  moreover have "validateExpectation (hparams ?h) = None" "requireParams ?h (hparams ?h) = None"
    using wf validateExpectation_Validate by (simp_all add: wf_header_def requireParams_self)
  ultimately obtain r where "read_range 512 ?src (raw ?h) ?dek (hparams ?h) rng =
      Inr (Some (take 5 (drop 5 p), None, r))"
    using read_range_eq [OF wf, of "hparams ?h" ?dek rng 512 ?src] c by (auto simp: rng_def)
  with m sz show ?thesis
    by (intro exI [of _ rng] exI [of _ ?src] exI [of _ r]) (simp add: slice_def)
qed

theorem range_understated_size_witness:
  "length (replicate 20 (1 :: byte)) = 20 \<and> (\<exists>rng src r. MapRange 5 15 58 12 = Inr rng \<and>
    read_range 512 src (raw (example_header 12)) (replicate 32 1) (hparams (example_header 12)) rng =
      Inr (Some (slice 5 10 (replicate 20 1), None, r)))"
  using range_understated_size [of "replicate 20 1"] by auto

end
