(* ===== verification/VerifyLayout.thy ===== *)
theory VerifyLayout
  imports SegmentRange ManifestFormat
begin

text \<open>
  \<open>internal/verify/layout.go\<close> and \<open>chain.go\<close>: the ciphertext geometry of a multipart object and the
  reader that decrypts its segments one after the other. The chain interprets the contract
  \<open>byte_reader\<close>; what it delivers is the concatenation of what the readers of the parts deliver, and an
  error of one part ends the whole.
\<close>

section \<open>The layout\<close>

record Layout =
  lParts :: "Part list"
  lSealed :: "int list"
  lCipherStart :: "int list"
  lPlainStart :: "int list"
  lTotalCipher :: int
  lTotalPlain :: int
  lLog2C :: byte
  lhasSalts :: bool

fun layout_loop :: "Part list \<Rightarrow> Layout \<Rightarrow> Layout result" where
  "layout_loop [] l = Inr l"
| "layout_loop (part # parts) l =
     (case SealedSize (PlainSize part) (lLog2C l) of
        Inl e \<Rightarrow> Inl (Errorf ''%w: part %d has an impossible size: %w'' [Sentinel ErrVerify, e])
      | Inr sealed \<Rightarrow>
          layout_loop parts
            (l\<lparr>lSealed := lSealed l @ [sealed],
               lCipherStart := lCipherStart l @ [lTotalCipher l],
               lPlainStart := lPlainStart l @ [lTotalPlain l],
               lTotalCipher := add64 (lTotalCipher l) sealed,
               lTotalPlain := add64 (lTotalPlain l) (PlainSize part)\<rparr>))"

definition NewLayout :: "Part list \<Rightarrow> byte \<Rightarrow> bool \<Rightarrow> Layout result" where
  "NewLayout parts log2C hasSalts =
     (if length parts = 0 then Inl (Errorf ''%w: the manifest lists no parts'' [Sentinel ErrVerify])
      else layout_loop parts
             \<lparr>lParts = parts, lSealed = [], lCipherStart = [], lPlainStart = [], lTotalCipher = 0,
              lTotalPlain = 0, lLog2C = log2C, lhasSalts = hasSalts\<rparr>)"

definition CheckSalt :: "Layout \<Rightarrow> nat \<Rightarrow> bytes \<Rightarrow> err option" where
  "CheckSalt l i got =
     (if \<not> lhasSalts l then None
      else if got \<noteq> Salt (lParts l ! i)
      then Some (Errorf ''%w: part %d is a different attempt than the manifest names'' [Sentinel ErrVerify])
      else None)"

definition Salts :: "Layout \<Rightarrow> bytes list" where
  "Salts l = (if \<not> lhasSalts l then [] else map Salt (lParts l))"

definition CheckAgainst :: "Layout \<Rightarrow> int \<Rightarrow> err option" where
  "CheckAgainst l storedCipher =
     (if storedCipher \<noteq> lTotalCipher l
      then Some (Errorf ''%w: the object is %d bytes of ciphertext, the manifest describes %d'' [Sentinel ErrVerify])
      else None)"

text \<open>\<open>locate_loop l off n\<close> is the loop of \<open>Locate\<close> with the indices below \<open>n\<close> still to be looked at.\<close>

fun locate_loop :: "Layout \<Rightarrow> int \<Rightarrow> nat \<Rightarrow> nat" where
  "locate_loop l offset 0 = 0"
| "locate_loop l offset (Suc i) =
     (if offset \<ge> lPlainStart l ! i then i else locate_loop l offset i)"

definition Locate :: "Layout \<Rightarrow> int \<Rightarrow> nat" where
  "Locate l offset = locate_loop l offset (length (lParts l))"

section \<open>The chain\<close>

text \<open>
  \<open>csrc\<close> is the object's ciphertext from the end of the current segment on: the segment's reader sees
  the current one through a \<open>LimitReader\<close>, and the chain goes on only after that reader has consumed it
  to its end.
\<close>

record SegmentChain =
  csrc :: source
  cdek :: bytes
  clayout :: Layout
  cidx :: nat
  ccur :: "DecryptReader option"
  cerr :: "err option"

definition chain_open :: "SegmentChain \<Rightarrow> err option \<times> SegmentChain" where
  "chain_open c =
     (let part = lParts (clayout c) ! cidx c;
          n = nat (lSealed (clayout c) ! cidx c);
          c1 = c\<lparr>csrc := (csrc c)\<lparr>src_data := drop n (src_data (csrc c))\<rparr>\<rparr>
      in case NewDecryptReader (limit_reader (csrc c) n) (cdek c)
                \<lparr>Log2ChunkSize = lLog2C (clayout c), Multipart = True, Index = Number part\<rparr> of
           Inl e \<Rightarrow> (Some e, c1\<lparr>cerr := Some e\<rparr>)
         | Inr reader \<Rightarrow>
             (case CheckSalt (clayout c) (cidx c) (SaltD reader) of
                Some e \<Rightarrow> (Some e, c1\<lparr>cerr := Some e\<rparr>)
              | None \<Rightarrow> (None, c1\<lparr>ccur := Some reader\<rparr>)))"

definition NewSegmentChain :: "source \<Rightarrow> bytes \<Rightarrow> Layout \<Rightarrow> SegmentChain result" where
  "NewSegmentChain src dek layout =
     (case chain_open \<lparr>csrc = src, cdek = dek, clayout = layout, cidx = 0, ccur = None, cerr = None\<rparr> of
        (Some e, _) \<Rightarrow> Inl e
      | (None, c) \<Rightarrow> Inr c)"

definition VerifyFirstC :: "SegmentChain \<Rightarrow> err option \<times> SegmentChain" where
  "VerifyFirstC c =
     (case ccur c of
        None \<Rightarrow> (cerr c, c)
      | Some r \<Rightarrow> (case VerifyFirstD r of (e, r') \<Rightarrow> (e, c\<lparr>ccur := Some r'\<rparr>)))"

text \<open>Reading a chain after \<open>Close\<close> dereferences a nil reader, which is \<open>nil_panic\<close>.\<close>

lemma chain_open_frame:
  "chain_open c = (e, c') \<Longrightarrow> cidx c' = cidx c \<and> clayout c' = clayout c \<and> cdek c' = cdek c"
  by (auto simp: chain_open_def Let_def split: sum.splits option.splits)

function ReadC :: "nat \<Rightarrow> SegmentChain \<Rightarrow> bytes \<times> err option \<times> SegmentChain" where
  "ReadC k c =
     (if cerr c \<noteq> None then ([], cerr c, c)
      else case ccur c of
        None \<Rightarrow> ([], Some nil_panic, c)
      | Some cur \<Rightarrow>
          (case ReadD k cur of
             (b, e, cur') \<Rightarrow>
               (if b \<noteq> [] then (b, None, c\<lparr>ccur := Some cur'\<rparr>)
                else case e of
                  None \<Rightarrow> ([], None, c\<lparr>ccur := Some cur'\<rparr>)
                | Some x \<Rightarrow>
                    (if \<not> errors_is EOF x then ([], Some x, c\<lparr>ccur := Some cur', cerr := Some x\<rparr>)
                     else let c1 = c\<lparr>ccur := None, cidx := cidx c + 1\<rparr> in
                       if cidx c1 \<ge> length (lParts (clayout c1))
                       then ([], Some (Sentinel EOF), c1\<lparr>cerr := Some (Sentinel EOF)\<rparr>)
                       else case chain_open c1 of
                              (Some y, c2) \<Rightarrow> ([], Some y, c2)
                            | (None, c2) \<Rightarrow> ReadC k c2))))"
  by pat_completeness auto
termination
  by (relation "measure (\<lambda>(_, c). length (lParts (clayout c)) - cidx c)")
    (auto dest: chain_open_frame [OF sym])

declare ReadC.simps [simp del]

definition CloseC :: "SegmentChain \<Rightarrow> SegmentChain" where
  "CloseC c = c\<lparr>ccur := None\<rparr>"

section \<open>What a chain delivers\<close>

text \<open>Opening part \<open>i\<close> on a source that starts at its segment, and the source behind it.\<close>

definition skip_part :: "Layout \<Rightarrow> nat \<Rightarrow> source \<Rightarrow> source" where
  "skip_part l i s = s\<lparr>src_data := drop (nat (lSealed l ! i)) (src_data s)\<rparr>"

definition open_part :: "bytes \<Rightarrow> Layout \<Rightarrow> nat \<Rightarrow> source \<Rightarrow> DecryptReader result" where
  "open_part dek l i s =
     ebind (NewDecryptReader (limit_reader s (nat (lSealed l ! i))) dek
              \<lparr>Log2ChunkSize = lLog2C l, Multipart = True, Index = Number (lParts l ! i)\<rparr>) (\<lambda>r.
     echeck (CheckSalt l i (SaltD r)) (Inr r))"

fun chain_from :: "bytes \<Rightarrow> Layout \<Rightarrow> nat list \<Rightarrow> source \<Rightarrow> bytes \<times> err" where
  "chain_from dek l [] s = ([], Sentinel EOF)"
| "chain_from dek l (i # is) s =
     (case open_part dek l i s of
        Inl e \<Rightarrow> ([], e)
      | Inr r \<Rightarrow>
          if outcomeD r = Sentinel EOF
          then (restD r @ fst (chain_from dek l is (skip_part l i s)), snd (chain_from dek l is (skip_part l i s)))
          else (restD r, outcomeD r))"

definition later :: "SegmentChain \<Rightarrow> bytes \<times> err" where
  "later c = chain_from (cdek c) (clayout c) [cidx c + 1..<length (lParts (clayout c))] (csrc c)"

definition restC :: "SegmentChain \<Rightarrow> bytes" where
  "restC c =
     (case ccur c of
        None \<Rightarrow> []
      | Some r \<Rightarrow> restD r @ (if outcomeD r = Sentinel EOF then fst (later c) else []))"

definition outcomeC :: "SegmentChain \<Rightarrow> err" where
  "outcomeC c =
     (case ccur c of
        None \<Rightarrow> nil_panic
      | Some r \<Rightarrow> if outcomeD r = Sentinel EOF then snd (later c) else outcomeD r)"

definition chain_inv :: "SegmentChain \<Rightarrow> bool" where
  "chain_inv c \<longleftrightarrow> cerr c = None \<and> (\<exists>r. ccur c = Some r \<and> readerD_inv r)"

lemma chunk_step_EOF: "chunk_step k a c i s = Inl e \<Longrightarrow> \<not> errors_is EOF e"
  by (auto simp: chunk_step_def open_chunk_def chunkErrorf_def
      split: prod.splits option.splits if_splits)

lemma open_from_EOF: "errors_is EOF (snd (open_from k a c i s)) \<Longrightarrow> snd (open_from k a c i s) = Sentinel EOF"
proof (induction k a c i s rule: open_from.induct)
  case (1 k a c i s)
  show ?case
  proof (cases "chunk_step k a c i s")
    case (Inl e)
    with "1.prems" chunk_step_EOF [OF Inl] show ?thesis by (simp add: open_from.simps)
  next
    case (Inr y)
    obtain p f s' where y: "y = (p, f, s')" by (cases y)
    show ?thesis
    proof (cases f)
      case True
      with Inr y show ?thesis by (simp add: open_from.simps)
    next
      case False
      have o: "snd (open_from k a c i s) = snd (open_from k a c (i + 1) s')"
        using Inr y False by (subst open_from.simps) simp
      show ?thesis
        using "1.IH" [OF Inr y [symmetric] refl False] "1.prems" unfolding o by simp
    qed
  qed
qed

lemma outcomeD_EOF: "errors_is EOF (outcomeD r) \<longleftrightarrow> outcomeD r = Sentinel EOF"
  using open_from_EOF by (auto simp: outcomeD_def ahead_def)

lemma chain_open_part:
  assumes "cerr c = None"
  shows "case open_part (cdek c) (clayout c) (cidx c) (csrc c) of
      Inl e \<Rightarrow> \<exists>c'. chain_open c = (Some e, c') \<and> cerr c' = Some e
    | Inr r \<Rightarrow> chain_open c = (None, c\<lparr>csrc := skip_part (clayout c) (cidx c) (csrc c), ccur := Some r\<rparr>)"
  by (auto simp: chain_open_def open_part_def skip_part_def Let_def ebind_def echeck_def
      split: sum.splits option.splits)

lemma open_part_inv: "open_part dek l i s = Inr r \<Longrightarrow> readerD_inv r"
  by (auto simp: open_part_def result_simps elim!: NewDecryptReader_rest)

text \<open>One call of \<open>Read\<close>, by induction over the parts still to come.\<close>

lemma ReadC_step:
  assumes "chain_inv c" and "0 < k"
  shows "(\<exists>b c'. ReadC k c = (b, None, c') \<and> b \<noteq> [] \<and> restC c = b @ restC c' \<and>
      outcomeC c' = outcomeC c \<and> chain_inv c') \<or>
    (restC c = [] \<and> (\<exists>c'. ReadC k c = ([], Some (outcomeC c), c')))"
  using assms
proof (induction "length (lParts (clayout c)) - cidx c" arbitrary: c rule: less_induct)
  case less
  from less.prems obtain r where c: "cerr c = None" "ccur c = Some r" "readerD_inv r"
    by (auto simp: chain_inv_def)
  let ?n = "length (lParts (clayout c))"
  show ?case
  proof (cases "restD r = []")
    case False
    then obtain b r' where "ReadD k r = (b, None, r')" "b \<noteq> []" "restD r = b @ restD r'"
        "outcomeD r' = outcomeD r" "readerD_inv r'"
      using decrypt.read_some [OF c(3) less.prems(2)] by blast
    then have "ReadC k c = (b, None, c\<lparr>ccur := Some r'\<rparr>)" "b \<noteq> []" "chain_inv (c\<lparr>ccur := Some r'\<rparr>)"
      "restC c = b @ restC (c\<lparr>ccur := Some r'\<rparr>)" "outcomeC (c\<lparr>ccur := Some r'\<rparr>) = outcomeC c"
      using c by (auto simp: ReadC.simps [of k c] chain_inv_def restC_def outcomeC_def later_def)
    then show ?thesis by blast
  next
    case True
    then obtain r' where r': "ReadD k r = ([], Some (outcomeD r), r')"
      using decrypt.read_none [OF c(3) less.prems(2)] by blast
    define c1 where "c1 = c\<lparr>ccur := None, cidx := cidx c + 1\<rparr>"
    consider (error) "outcomeD r \<noteq> Sentinel EOF"
      | (last) "outcomeD r = Sentinel EOF" "?n \<le> cidx c + 1"
      | (more) "outcomeD r = Sentinel EOF" "cidx c + 1 < ?n" by fastforce
    then show ?thesis
    proof cases
      case error
      then show ?thesis
        using c r' True outcomeD_EOF [of r] by (simp add: ReadC.simps [of k c] restC_def outcomeC_def)
    next
      case last
      then show ?thesis
        using c r' True by (simp add: ReadC.simps [of k c] restC_def outcomeC_def later_def)
    next
      case more
      have rd: "ReadC k c = (case chain_open c1 of (Some y, c2) \<Rightarrow> ([], Some y, c2) | (None, c2) \<Rightarrow> ReadC k c2)"
        using more c r' by (simp add: ReadC.simps [of k c] c1_def)
      have lt: "later c = chain_from (cdek c) (clayout c) ((cidx c + 1) # [cidx c + 2..<?n]) (csrc c)"
        using more(2) by (simp add: later_def upt_conv_Cons)
      note co = chain_open_part [of c1]
      show ?thesis
      proof (cases "open_part (cdek c) (clayout c) (cidx c + 1) (csrc c)")
        case (Inl e)
        with co obtain c2 where "chain_open c1 = (Some e, c2)" using c by (auto simp: c1_def)
        then show ?thesis
          using Inl rd lt more c True by (simp add: restC_def outcomeC_def)
      next
        case (Inr q)
        define c2 where "c2 = c1\<lparr>csrc := skip_part (clayout c) (cidx c + 1) (csrc c), ccur := Some q\<rparr>"
        have o2: "chain_open c1 = (None, c2)" using co Inr c by (simp add: c1_def c2_def)
        have inv2: "chain_inv c2"
          using c open_part_inv [OF Inr] by (simp add: chain_inv_def c1_def c2_def)
        have eq: "restC c = restC c2" "outcomeC c = outcomeC c2"
          using Inr lt more c True
          by (auto simp: restC_def outcomeC_def c1_def c2_def later_def)
        have "?n - (cidx c + 1) < ?n - cidx c" using more(2) by simp
        then show ?thesis
          using less.hyps [of c2] inv2 less.prems(2) rd o2 eq by (simp add: c1_def c2_def)
      qed
    qed
  qed
qed

interpretation chain: byte_reader ReadC restC outcomeC chain_inv
  using ReadC_step by unfold_locales fastforce+

section \<open>The layout of a list of parts\<close>

lemma sealed_size_bound:
  assumes "SealedSize plain l = Inr s"
  shows "0 \<le> plain \<and> plain \<le> 2 ^ 46 \<and> 48 \<le> s \<and> s \<le> 2 ^ 48"
proof -
  note r = SealedSizeSegments_Inr [OF assms [unfolded SealedSize_def]]
  have "0 \<le> cdiv plain (chunk_bytes l)" "cdiv plain (chunk_bytes l) \<le> 2 ^ 35"
    using r cdiv_bound [of "chunk_bytes l" plain] chunk_bytes_bounds [of l] by auto
  with r show ?thesis by (auto simp: sealed_size_def max_def)
qed

definition starts :: "int \<Rightarrow> int list \<Rightarrow> int list" where
  "starts t xs = map (\<lambda>i. t + sum_list (take i xs)) [0..<length xs]"

lemma starts_Cons [simp]: "starts t [] = []" "starts t (x # xs) = t # starts (t + x) xs"
proof -
  show "starts t [] = []" by (simp add: starts_def)
  have "[0..<Suc (length xs)] = 0 # map Suc [0..<length xs]"
    by (simp add: map_Suc_upt upt_conv_Cons del: upt_Suc)
  then show "starts t (x # xs) = t # starts (t + x) xs"
    by (simp add: starts_def comp_def add.assoc del: upt_Suc)
qed

lemma nth_starts: "i < length xs \<Longrightarrow> starts t xs ! i = t + sum_list (take i xs)"
  by (simp add: starts_def)

lemma layout_loop_Inr:
  assumes "layout_loop ps l = Inr L" and "0 \<le> lTotalCipher l" and "0 \<le> lTotalPlain l"
    and "lTotalCipher l + int (length ps) * 2 ^ 48 < 2 ^ 63" and "lTotalPlain l + int (length ps) * 2 ^ 48 < 2 ^ 63"
  shows "\<exists>ss. list_all2 (\<lambda>p s. SealedSize (PlainSize p) (lLog2C l) = Inr s) ps ss \<and>
    L = l\<lparr>lSealed := lSealed l @ ss, lCipherStart := lCipherStart l @ starts (lTotalCipher l) ss,
          lPlainStart := lPlainStart l @ starts (lTotalPlain l) (map PlainSize ps),
          lTotalCipher := lTotalCipher l + sum_list ss,
          lTotalPlain := lTotalPlain l + sum_list (map PlainSize ps)\<rparr>"
  using assms
proof (induction ps l rule: layout_loop.induct)
  case (2 part parts l)
  then obtain s where s: "SealedSize (PlainSize part) (lLog2C l) = Inr s"
    by (auto split: sum.splits)
  note b = sealed_size_bound [OF s]
  have a: "add64 (lTotalCipher l) s = lTotalCipher l + s"
    "add64 (lTotalPlain l) (PlainSize part) = lTotalPlain l + PlainSize part"
    using "2.prems" b by (auto simp: add64_def in64_def algebra_simps)
  let ?l1 = "l\<lparr>lSealed := lSealed l @ [s], lCipherStart := lCipherStart l @ [lTotalCipher l],
      lPlainStart := lPlainStart l @ [lTotalPlain l], lTotalCipher := add64 (lTotalCipher l) s,
      lTotalPlain := add64 (lTotalPlain l) (PlainSize part)\<rparr>"
  have st: "layout_loop parts ?l1 = Inr L" using "2.prems"(1) s by simp
  have "\<exists>ss. list_all2 (\<lambda>p s. SealedSize (PlainSize p) (lLog2C ?l1) = Inr s) parts ss \<and>
    L = ?l1\<lparr>lSealed := lSealed ?l1 @ ss, lCipherStart := lCipherStart ?l1 @ starts (lTotalCipher ?l1) ss,
          lPlainStart := lPlainStart ?l1 @ starts (lTotalPlain ?l1) (map PlainSize parts),
          lTotalCipher := lTotalCipher ?l1 + sum_list ss,
          lTotalPlain := lTotalPlain ?l1 + sum_list (map PlainSize parts)\<rparr>"
    by (rule "2.IH" [OF s st]) (use "2.prems" b a in \<open>auto simp: algebra_simps\<close>)
  then obtain ss where ss: "list_all2 (\<lambda>p s. SealedSize (PlainSize p) (lLog2C l) = Inr s) parts ss"
    and L: "L = ?l1\<lparr>lSealed := lSealed ?l1 @ ss, lCipherStart := lCipherStart ?l1 @ starts (lTotalCipher ?l1) ss,
          lPlainStart := lPlainStart ?l1 @ starts (lTotalPlain ?l1) (map PlainSize parts),
          lTotalCipher := lTotalCipher ?l1 + sum_list ss,
          lTotalPlain := lTotalPlain ?l1 + sum_list (map PlainSize parts)\<rparr>"
    by auto
  show ?case
    by (rule exI [of _ "s # ss"]) (use s ss L a in \<open>auto simp: add.assoc\<close>)
qed simp

text \<open>The layout of at most 10000 parts: every field in terms of the sizes.\<close>

lemma NewLayout_Inr:
  assumes "NewLayout ps l hs = Inr L" and "length ps \<le> 10000"
  shows "\<exists>ss. list_all2 (\<lambda>p s. SealedSize (PlainSize p) l = Inr s) ps ss \<and> ps \<noteq> [] \<and>
    L = \<lparr>lParts = ps, lSealed = ss, lCipherStart = starts 0 ss, lPlainStart = starts 0 (map PlainSize ps),
         lTotalCipher = sum_list ss, lTotalPlain = sum_list (map PlainSize ps), lLog2C = l, lhasSalts = hs\<rparr>"
proof -
  have "ps \<noteq> []" using assms(1) by (auto simp: NewLayout_def)
  then have st: "layout_loop ps \<lparr>lParts = ps, lSealed = [], lCipherStart = [], lPlainStart = [], lTotalCipher = 0,
      lTotalPlain = 0, lLog2C = l, lhasSalts = hs\<rparr> = Inr L"
    using assms(1) by (simp add: NewLayout_def)
  have "int (length ps) * 2 ^ 48 < 2 ^ 63" using assms(2) by simp
  with layout_loop_Inr [OF st] \<open>ps \<noteq> []\<close> show ?thesis by auto
qed

section \<open>Chains of segments\<close>

text \<open>A segment, by its header and plaintext, is the one a part of the manifest describes.\<close>

definition part_matches :: "byte \<Rightarrow> bool \<Rightarrow> Part \<Rightarrow> header \<times> bytes \<Rightarrow> bool" where
  "part_matches l hs part seg \<longleftrightarrow>
     wf_header (fst seg) \<and> hparams (fst seg) = \<lparr>Log2ChunkSize = l, Multipart = True, Index = Number part\<rparr> \<and>
     (hs \<longrightarrow> hsalt (fst seg) = Salt part) \<and> int (length (snd seg)) = PlainSize part"

definition seal_segments :: "bytes \<Rightarrow> (header \<times> bytes) list \<Rightarrow> bytes" where
  "seal_segments dek segs = concat (map (\<lambda>(h, p). seal_segment dek h p) segs)"

definition chain_all :: "nat \<Rightarrow> source \<Rightarrow> bytes \<Rightarrow> Layout \<Rightarrow> ((bytes \<times> err option \<times> SegmentChain) option) result" where
  "chain_all k src dek l =
     ebind (NewSegmentChain src dek l) (\<lambda>c. Inr (drain (ReadC k) (Suc (length (src_data src))) c))"

lemma open_part_ok:
  assumes m: "part_matches (lLog2C l) (lhasSalts l) (lParts l ! i) (h, p)"
    and s: "src_data s = seal_segment dek h p @ r" "lSealed l ! i = int (length (seal_segment dek h p))"
    and "length dek = 32"
  shows "\<exists>x. open_part dek l i s = Inr x \<and> restD x = p \<and> outcomeD x = Sentinel EOF"
proof -
  let ?w = "\<lparr>Log2ChunkSize = lLog2C l, Multipart = True, Index = Number (lParts l ! i)\<rparr>"
  have wf: "wf_header h" "hparams h = ?w" using m by (auto simp: part_matches_def)
  have rp: "requireParams h ?w = None" "validateExpectation ?w = None"
    using wf validateExpectation_Validate [of "hparams h"] by (auto simp: requireParams_self wf_header_def)
  have lim: "limit_reader s (length (seal_segment dek h p)) = \<lparr>src_data = seal_segment dek h p, src_end = Sentinel EOF\<rparr>"
    using s by (simp add: limit_reader_def)
  obtain x where x: "NewDecryptReader (limit_reader s (length (seal_segment dek h p))) dek ?w = Inr x" "rheader x = h"
      "restD x = p" "outcomeD x = Sentinel EOF"
    using reader_ok [OF wf(1) rp(2,1) assms(4), of p] unfolding lim by blast
  moreover have "CheckSalt l i (SaltD x) = None"
    using m x(2) by (auto simp: CheckSalt_def SaltD_def part_matches_def)
  ultimately show ?thesis
    using x s(2) by (simp add: open_part_def)
qed

text \<open>The plaintext size a segment's length stands for.\<close>

lemma segment_plain_size:
  assumes "wf_header h" and "SealedSize plain (Log2ChunkSize (hparams h)) = Inr (int (length (seal_segment dek h p)))"
  shows "int (length p) = plain"
proof -
  let ?c = "int (chunkSize h)" and ?l = "Log2ChunkSize (hparams h)"
  have c: "0 < ?c" "chunk_bytes ?l = ?c" by (simp_all add: chunkSize_def chunk_bytes_def)
  have len: "int (length (seal_segment dek h p)) = 32 + int (length p) + 16 * max (cdiv (int (length p)) ?c) 1"
    using length_seal_from [of "chunkSize h"] assms(1) by (simp add: seal_segment_def)
  have "int (length (seal_segment dek h p)) = 32 + plain + 16 * max (cdiv plain ?c) 1"
    using SealedSizeSegments_Inr [OF assms(2) [unfolded SealedSize_def]] c by (simp add: sealed_size_def)
  then have e: "int (length p) + 16 * max (cdiv (int (length p)) ?c) 1 = plain + 16 * max (cdiv plain ?c) 1"
    using len by simp
  have m: "cdiv x ?c \<le> cdiv y ?c" if "x \<le> y" for x y
    using that c(1) unfolding cdiv_def by (intro zdiv_mono1) auto
  show ?thesis
    using e m [of "int (length p)" plain] m [of plain "int (length p)"]
    by (cases "int (length p)" plain rule: linorder_cases) (auto simp: max_def split: if_splits)
qed

lemma open_part_sound:
  assumes o: "open_part dek l i s = Inr x" "outcomeD x = Sentinel EOF"
    and n: "lSealed l ! i = int n" "n \<le> length (src_data s)" "n < 2 ^ 63"
    and z: "SealedSize (PlainSize (lParts l ! i)) (lLog2C l) = Inr (int n)"
  shows "\<exists>h. part_matches (lLog2C l) (lhasSalts l) (lParts l ! i) (h, restD x) \<and>
    src_data s = seal_segment dek h (restD x) @ src_data (skip_part l i s) \<and> length dek = 32"
proof -
  let ?w = "\<lparr>Log2ChunkSize = lLog2C l, Multipart = True, Index = Number (lParts l ! i)\<rparr>"
  let ?src = "limit_reader s n"
  have src: "?src = \<lparr>src_data = take n (src_data s), src_end = Sentinel EOF\<rparr>"
    using n(2) by (simp add: limit_reader_def)
  have nd: "NewDecryptReader ?src dek ?w = Inr x" and cs: "CheckSalt l i (SaltD x) = None"
    using o(1) n(1) by (auto simp: open_part_def result_simps)
  let ?h = "rheader x"
  have h: "wf_header ?h" "requireParams ?h ?w = None" "length dek = 32" "take n (src_data s) = seal_segment dek ?h (restD x)"
    using reader_sound [OF nd o(2)] n unfolding src by auto
  have w: "hparams ?h = ?w"
    using h(2) z SealedSizeSegments_Inr [of "PlainSize (lParts l ! i)" "lLog2C l" 1]
    by (cases "hparams ?h") (auto simp: requireParams_self SealedSize_def ValidateLog2ChunkSize_def)
  have "length (seal_segment dek ?h (restD x)) = n"
    using arg_cong [OF h(4), of length] n(2) by simp
  then have "int (length (restD x)) = PlainSize (lParts l ! i)"
    using z w by (intro segment_plain_size [OF h(1), of _ dek]) simp
  then have "part_matches (lLog2C l) (lhasSalts l) (lParts l ! i) (?h, restD x)"
    using h(1) w cs by (auto simp: part_matches_def CheckSalt_def SaltD_def split: if_splits)
  moreover have "src_data s = seal_segment dek ?h (restD x) @ src_data (skip_part l i s)"
    using append_take_drop_id [of n "src_data s"] n(1) h(4) by (simp add: skip_part_def)
  ultimately show ?thesis using h(3) by auto
qed

text \<open>No error of opening a part reads as the end of a stream.\<close>

lemma open_part_error: "open_part dek l i s = Inl e \<Longrightarrow> e \<noteq> Sentinel EOF"
proof -
  assume "open_part dek l i s = Inl e"
  moreover have "NewDecryptReader src dk want \<noteq> Inl (Sentinel EOF)" for src dk want
  proof -
    have "validateExpectation want \<noteq> Some (Sentinel EOF)" "parseHeader b \<noteq> Inl (Sentinel EOF)"
      "requireParams h want \<noteq> Some (Sentinel EOF)" for b h
      unfolding validateExpectation_def validateIdentity_def ValidateLog2ChunkSize_def parseHeader_def
        requireParams_def integrityf_def Validate_def Let_def by (auto split: option.splits)
    then show ?thesis
      by (auto simp: NewDecryptReader_def echeck_def ebind_def integrityf_def newSealer_eq
          split: prod.splits option.splits sum.splits)
  qed
  ultimately show ?thesis
    by (auto simp: open_part_def ebind_def echeck_def CheckSalt_def split: sum.splits option.splits if_splits)
qed

lemma length_chain_from: "length (fst (chain_from dek l is s)) \<le> length (src_data s)"
proof (induction "is" arbitrary: s)
  case (Cons i "is")
  show ?case
  proof (cases "open_part dek l i s")
    case (Inr x)
    let ?n = "nat (lSealed l ! i)"
    have nd: "NewDecryptReader (limit_reader s ?n) dek
        \<lparr>Log2ChunkSize = lLog2C l, Multipart = True, Index = Number (lParts l ! i)\<rparr> = Inr x"
      using Inr by (auto simp: open_part_def result_simps)
    have "length (restD x) \<le> length (src_data (limit_reader s ?n))"
      using nd by (rule NewDecryptReader_rest) auto
    then have "length (restD x) \<le> min ?n (length (src_data s))"
      by (auto simp: limit_reader_def split: if_splits)
    moreover have "length (fst (chain_from dek l is (skip_part l i s))) \<le> length (src_data s) - ?n"
      using Cons.IH [of "skip_part l i s"] by (simp add: skip_part_def)
    ultimately show ?thesis using Inr by (auto simp: min_def split: if_splits)
  qed simp
qed simp

lemma NewSegmentChain_from:
  assumes "lParts l \<noteq> []"
  shows "case chain_from dek l [0..<length (lParts l)] src of (q, e) \<Rightarrow>
    (case NewSegmentChain src dek l of
       Inl e' \<Rightarrow> q = [] \<and> e = e' \<and> e \<noteq> Sentinel EOF
     | Inr c \<Rightarrow> chain_inv c \<and> restC c = q \<and> outcomeC c = e)"
proof -
  let ?c = "\<lparr>csrc = src, cdek = dek, clayout = l, cidx = 0, ccur = None, cerr = None\<rparr>"
  have ix: "[0..<length (lParts l)] = 0 # [1..<length (lParts l)]"
    using assms by (simp add: upt_conv_Cons)
  note co = chain_open_part [of ?c]
  show ?thesis
  proof (cases "open_part dek l 0 src")
    case (Inl e)
    then have "e \<noteq> Sentinel EOF" by (rule open_part_error)
    with Inl co show ?thesis by (auto simp: ix NewSegmentChain_def)
  next
    case (Inr x)
    with co open_part_inv [OF Inr] show ?thesis
      by (auto simp: ix NewSegmentChain_def chain_inv_def restC_def outcomeC_def later_def)
  qed
qed

lemma VerifyFirstC_cases:
  assumes "NewSegmentChain src dek l = Inr c"
  shows "case VerifyFirstC c of
      (Some e, _) \<Rightarrow> restC c = [] \<and> outcomeC c = e \<and> e \<noteq> Sentinel EOF
    | (None, c') \<Rightarrow> chain_inv c' \<and> restC c' = restC c \<and> outcomeC c' = outcomeC c"
proof -
  let ?c = "\<lparr>csrc = src, cdek = dek, clayout = l, cidx = 0, ccur = None, cerr = None\<rparr>"
  obtain r where r: "open_part dek l 0 src = Inr r"
      and c: "c = ?c\<lparr>csrc := skip_part l 0 src, ccur := Some r\<rparr>"
    using chain_open_part [of ?c] assms
    by (cases "open_part dek l 0 src") (auto simp: NewSegmentChain_def)
  obtain want where "NewDecryptReader (limit_reader src (nat (lSealed l ! 0))) dek want = Inr r"
    using r by (auto simp: open_part_def result_simps)
  from VerifyFirstD_cases [OF this] show ?thesis
    by (cases "VerifyFirstD r")
      (auto simp: c VerifyFirstC_def chain_inv_def restC_def outcomeC_def later_def split: option.splits if_splits)
qed

lemma chain_all_from:
  assumes "lParts l \<noteq> []" and "0 < k" and "chain_from dek l [0..<length (lParts l)] src = (q, e)"
  shows "if e = Sentinel EOF then \<exists>c. chain_all k src dek l = Inr (Some (q, None, c))
    else (\<exists>c. chain_all k src dek l = Inr (Some (q, Some e, c))) \<or> (chain_all k src dek l = Inl e \<and> q = [])"
proof -
  have len: "length q < Suc (length (src_data src))"
    using length_chain_from [of dek l "[0..<length (lParts l)]" src] assms(3) by simp
  show ?thesis
  proof (cases "NewSegmentChain src dek l")
    case (Inl e')
    with NewSegmentChain_from [OF assms(1), where dek = dek and src = src] assms(3) show ?thesis
      by (auto simp: chain_all_def)
  next
    case (Inr c)
    with NewSegmentChain_from [OF assms(1), where dek = dek and src = src] assms(3)
    have c: "chain_inv c" "restC c = q" "outcomeC c = e" by auto
    with chain.drain_rest [OF c(1) assms(2), of "Suc (length (src_data src))"] len Inr show ?thesis
      by (auto simp: chain_all_def simp del: drain.simps)
  qed
qed

text \<open>The fields of a layout that the chain uses, and both directions between ciphertexts and parts.\<close>

definition layout_of :: "Part list \<Rightarrow> byte \<Rightarrow> bool \<Rightarrow> int list \<Rightarrow> Layout \<Rightarrow> bool" where
  "layout_of ps l hs ss L \<longleftrightarrow>
     list_all2 (\<lambda>p s. SealedSize (PlainSize p) l = Inr s) ps ss \<and> lParts L = ps \<and> lSealed L = ss \<and>
     lLog2C L = l \<and> lhasSalts L = hs"

lemma matches_length:
  assumes "part_matches l hs part (h, p)" and "SealedSize (PlainSize part) l = Inr s"
  shows "s = int (length (seal_segment dek h p))"
proof -
  have "length p \<le> 2 ^ 46"
    using sealed_size_bound [OF assms(2)] assms(1)
    by (auto simp: part_matches_def)
  then show ?thesis
    using SealedSize_seal_segment [of h p dek] assms by (auto simp: part_matches_def)
qed

lemma chain_from_segments:
  assumes "layout_of ps l hs ss L" and "list_all2 (part_matches l hs) ps segs" and "length dek = 32"
    and "i \<le> length ps" and "src_data s = seal_segments dek (drop i segs)"
  shows "chain_from dek L [i..<length ps] s = (concat (map snd (drop i segs)), Sentinel EOF)"
  using assms(4,5)
proof (induction "length ps - i" arbitrary: i s)
  case 0
  then show ?case using list_all2_lengthD [OF assms(2)] by simp
next
  case (Suc d)
  then have i: "i < length ps" "i < length segs" "i < length ss"
    using assms list_all2_lengthD [OF assms(2)] by (auto simp: layout_of_def dest: list_all2_lengthD)
  obtain h p where hp: "segs ! i = (h, p)" by (cases "segs ! i")
  have seg: "drop i segs = (h, p) # drop (Suc i) segs"
    using i(2) hp Cons_nth_drop_Suc [of i segs] by simp
  have m: "part_matches l hs (ps ! i) (h, p)"
    using list_all2_nthD [OF assms(2) i(1)] hp by simp
  have z: "SealedSize (PlainSize (ps ! i)) l = Inr (ss ! i)"
    using assms(1) i(1) by (auto simp: layout_of_def dest: list_all2_nthD)
  have n: "ss ! i = int (length (seal_segment dek h p))" by (rule matches_length [OF m z])
  have sd: "src_data s = seal_segment dek h p @ seal_segments dek (drop (Suc i) segs)"
    using Suc.prems(2) seg by (simp add: seal_segments_def)
  obtain x where x: "open_part dek L i s = Inr x" "restD x = p" "outcomeD x = Sentinel EOF"
    using open_part_ok [of L i h p s dek] m sd n assms(1,3) by (auto simp: layout_of_def)
  have "chain_from dek L [Suc i..<length ps] (skip_part L i s) = (concat (map snd (drop (Suc i) segs)), Sentinel EOF)"
    using Suc.hyps(2) i(1) sd n assms(1) by (intro Suc.hyps(1)) (auto simp: skip_part_def layout_of_def)
  moreover have "[i..<length ps] = i # [Suc i..<length ps]" using i(1) by (rule upt_conv_Cons)
  ultimately show ?case using x seg by simp
qed

lemma chain_from_sound:
  assumes "layout_of ps l hs ss L" and "i \<le> length ps"
    and "chain_from dek L [i..<length ps] s = (q, Sentinel EOF)" and "int (length (src_data s)) = sum_list (drop i ss)"
  shows "\<exists>segs. list_all2 (part_matches l hs) (drop i ps) segs \<and> q = concat (map snd segs) \<and>
    src_data s = seal_segments dek segs"
  using assms(2-4)
proof (induction "length ps - i" arbitrary: i s q)
  case 0
  moreover have "length ss = length ps" using assms(1) by (auto simp: layout_of_def dest: list_all2_lengthD)
  ultimately show ?case by (auto simp: seal_segments_def)
next
  case (Suc d)
  then have i: "i < length ps" "i < length ss"
    using assms(1) by (auto simp: layout_of_def dest: list_all2_lengthD)
  have ix: "[i..<length ps] = i # [Suc i..<length ps]" using i(1) by (rule upt_conv_Cons)
  have z: "SealedSize (PlainSize (ps ! i)) l = Inr (ss ! i)"
    using assms(1) i(1) by (auto simp: layout_of_def dest: list_all2_nthD)
  have nn: "0 \<le> sum_list (drop (Suc i) ss)"
  proof (intro sum_list_nonneg)
    fix t assume "t \<in> set (drop (Suc i) ss)"
    then obtain j where j: "j < length ss" "t = ss ! j" by (metis in_set_conv_nth in_set_dropD)
    then have "SealedSize (PlainSize (ps ! j)) l = Inr t"
      using assms(1) by (auto simp: layout_of_def list_all2_conv_all_nth)
    from sealed_size_bound [OF this] show "0 \<le> t" by simp
  qed
  define n where "n = nat (ss ! i)"
  have n: "ss ! i = int n" "n < 2 ^ 63" and dr: "drop i ss = int n # drop (Suc i) ss"
    using sealed_size_bound [OF z] i(2) Cons_nth_drop_Suc [of i ss] by (auto simp: n_def)
  have le: "n \<le> length (src_data s)" using Suc.prems(3) dr nn by simp
  obtain x where x: "open_part dek L i s = Inr x" "outcomeD x = Sentinel EOF"
      and tl: "chain_from dek L [Suc i..<length ps] (skip_part L i s) = (drop (length (restD x)) q, Sentinel EOF)"
      and q: "q = restD x @ drop (length (restD x)) q"
    using Suc.prems(2) open_part_error [of dek L i s] unfolding ix
    by (auto split: sum.splits if_splits simp: prod_eq_iff)
  obtain h where h: "part_matches l hs (ps ! i) (h, restD x)"
      "src_data s = seal_segment dek h (restD x) @ src_data (skip_part L i s)"
    using open_part_sound [OF x, of n] n le z assms(1) by (auto simp: layout_of_def)
  have sk: "int (length (src_data (skip_part L i s))) = sum_list (drop (Suc i) ss)"
    using Suc.prems(3) dr n le assms(1) by (simp add: skip_part_def layout_of_def of_nat_diff)
  obtain segs where segs: "list_all2 (part_matches l hs) (drop (Suc i) ps) segs"
      "drop (length (restD x)) q = concat (map snd segs)" "src_data (skip_part L i s) = seal_segments dek segs"
    using Suc.hyps(1) [OF _ _ tl sk] Suc.hyps(2) i(1) by fastforce
  have "list_all2 (part_matches l hs) (drop i ps) ((h, restD x) # segs)"
    using h(1) segs(1) Cons_nth_drop_Suc [OF i(1)] by (metis list_all2_Cons)
  with q segs h(2) show ?case
    by (intro exI [of _ "(h, restD x) # segs"]) (simp add: seal_segments_def)
qed

lemma NewLayout_layout_of:
  assumes "NewLayout ps l hs = Inr L" and "length ps \<le> 10000"
  obtains ss where "layout_of ps l hs ss L" "ps \<noteq> []" "lTotalCipher L = sum_list ss"
    "lTotalPlain L = sum_list (map PlainSize ps)"
    "lCipherStart L = starts 0 ss" "lPlainStart L = starts 0 (map PlainSize ps)"
  using NewLayout_Inr [OF assms] by (auto simp: layout_of_def)

lemma locate_loop_spec:
  assumes "0 < n" and "lPlainStart l ! 0 \<le> off"
  shows "locate_loop l off n < n \<and> lPlainStart l ! locate_loop l off n \<le> off \<and>
    (\<forall>j. locate_loop l off n < j \<and> j < n \<longrightarrow> off < lPlainStart l ! j)"
  using assms
proof (induction n)
  case (Suc i)
  show ?case
  proof (cases "lPlainStart l ! i \<le> off")
    case False
    then have "0 < i" using Suc.prems(2) by (cases i) auto
    with Suc False show ?thesis by (auto simp: less_Suc_eq)
  qed simp
qed simp

lemma Locate_part:
  assumes "layout_of ps l hs ss L" and "ps \<noteq> []" and "lTotalPlain L = sum_list (map PlainSize ps)"
    and "lPlainStart L = starts 0 (map PlainSize ps)" and off: "0 \<le> off" "off < lTotalPlain L"
  shows "Locate L off < length ps \<and> lPlainStart L ! Locate L off \<le> off \<and>
    off < lPlainStart L ! Locate L off + PlainSize (ps ! Locate L off)"
proof -
  let ?i = "Locate L off"
  have st: "lPlainStart L ! i = sum_list (map PlainSize (take i ps))" if "i < length ps" for i
    using that by (simp add: assms(4) nth_starts take_map)
  have i: "?i < length ps" "lPlainStart L ! ?i \<le> off" and after: "\<And>j. ?i < j \<Longrightarrow> j < length ps \<Longrightarrow> off < lPlainStart L ! j"
    using locate_loop_spec [of "length ps" L off] assms(1,2) st [of 0] off(1)
    by (auto simp: Locate_def layout_of_def)
  have nx: "sum_list (map PlainSize (take (Suc ?i) ps)) = lPlainStart L ! ?i + PlainSize (ps ! ?i)"
    using i(1) by (simp add: take_Suc_conv_app_nth st)
  have "off < sum_list (map PlainSize (take (Suc ?i) ps))"
  proof (cases "Suc ?i < length ps")
    case True
    then show ?thesis using after [of "Suc ?i"] st [of "Suc ?i"] by simp
  next
    case False
    then show ?thesis using off(2) assms(3) by simp
  qed
  with i nx show ?thesis by simp
qed

section \<open>Properties\<close>

text \<open>The layout of a multipart object. For at most 10000 parts, \<open>NewLayout\<close> gives every part the
  ciphertext size of its segment and the offset that is the sum of the sizes before it, in ciphertext
  and in plaintext, with no overflow of the 64-bit sums; and \<open>Locate\<close> finds, for every plaintext offset
  of the object, the part that holds it.\<close>

theorem layout_offsets:
  assumes "NewLayout ps l hs = Inr L" and "length ps \<le> 10000"
  shows "(\<forall>i<length ps. SealedSize (PlainSize (ps ! i)) l = Inr (lSealed L ! i) \<and>
       lCipherStart L ! i = sum_list (take i (lSealed L)) \<and>
       lPlainStart L ! i = sum_list (map PlainSize (take i ps))) \<and>
    lTotalCipher L = sum_list (lSealed L) \<and> lTotalPlain L = sum_list (map PlainSize ps) \<and>
    (\<forall>off. 0 \<le> off \<and> off < lTotalPlain L \<longrightarrow>
       Locate L off < length ps \<and> lPlainStart L ! Locate L off \<le> off \<and>
       off < lPlainStart L ! Locate L off + PlainSize (ps ! Locate L off))"
proof -
  from assms obtain ss where L: "layout_of ps l hs ss L" "ps \<noteq> []" "lTotalCipher L = sum_list ss"
      "lTotalPlain L = sum_list (map PlainSize ps)" "lCipherStart L = starts 0 ss"
      "lPlainStart L = starts 0 (map PlainSize ps)"
    by (rule NewLayout_layout_of)
  have len: "length ss = length ps" using L(1) by (auto simp: layout_of_def dest: list_all2_lengthD)
  have st: "lPlainStart L ! i = sum_list (map PlainSize (take i ps))" if "i < length ps" for i
    using that by (simp add: L(6) nth_starts take_map)
  note Locate_part [OF L(1,2,4,6)]
  moreover have "SealedSize (PlainSize (ps ! i)) l = Inr (lSealed L ! i) \<and>
      lCipherStart L ! i = sum_list (take i (lSealed L))" if "i < length ps" for i
    using that L(1,5) len by (auto simp: layout_of_def nth_starts dest: list_all2_nthD)
  ultimately show ?thesis using st L(1,3,4) unfolding layout_of_def by blast
qed

definition example_parts :: "Part list" where
  "example_parts = [\<lparr>Number = 1, PlainSize = 3, Salt = replicate 20 1\<rparr>, \<lparr>Number = 2, PlainSize = 2, Salt = replicate 20 2\<rparr>]"

definition example_layout :: Layout where
  "example_layout = \<lparr>lParts = example_parts, lSealed = [51, 50], lCipherStart = [0, 51], lPlainStart = [0, 3],
     lTotalCipher = 101, lTotalPlain = 5, lLog2C = 12, lhasSalts = True\<rparr>"

lemma example_NewLayout: "NewLayout example_parts 12 True = Inr example_layout"
proof -
  have "SealedSize 3 12 = Inr 51" "SealedSize 2 12 = Inr 50" by (simp_all add: size_eval)
  then show ?thesis
    by (simp add: NewLayout_def example_parts_def example_layout_def add64_def in64_def)
qed

theorem layout_offsets_witness:
  "NewLayout example_parts 12 True = Inr example_layout \<and> Locate example_layout 4 = 1 \<and>
   4 < lPlainStart example_layout ! 1 + PlainSize (example_parts ! 1)"
proof -
  have "length example_parts \<le> 10000" by (simp add: example_parts_def)
  note w = layout_offsets [OF example_NewLayout this]
  have "Locate example_layout 4 = 1" by code_simp
  with w [THEN conjunct2, THEN conjunct2, THEN conjunct2, rule_format, of 4] example_NewLayout show ?thesis
    by (simp add: example_layout_def)
qed

text \<open>A multipart object reads back. If the ciphertext is the concatenation of one segment per part of the
  manifest, in its order, each sealed under the data key with the chunk size, the part number, the salt
  and the plaintext size the manifest records, then the chain delivers exactly the concatenation of the
  plaintexts and a clean end, whatever the client's buffer size.\<close>

theorem chain_roundtrip:
  assumes "NewLayout ps l hs = Inr L" and "length ps \<le> 10000"
    and "list_all2 (part_matches l hs) ps segs" and "length dek = 32" and "0 < k"
  shows "\<exists>c. chain_all k \<lparr>src_data = seal_segments dek segs, src_end = Sentinel EOF\<rparr> dek L =
    Inr (Some (concat (map snd segs), None, c))"
proof -
  from assms(1,2) obtain ss where L: "layout_of ps l hs ss L" "ps \<noteq> []"
    by (rule NewLayout_layout_of)
  have "chain_from dek L [0..<length (lParts L)] \<lparr>src_data = seal_segments dek segs, src_end = Sentinel EOF\<rparr> =
      (concat (map snd segs), Sentinel EOF)"
    using chain_from_segments [OF L(1) assms(3,4), of 0] L(1) by (simp add: layout_of_def)
  from chain_all_from [OF _ assms(5) this] L show ?thesis by (auto simp: layout_of_def)
qed

definition example_segs :: "(header \<times> bytes) list" where
  "example_segs = map (\<lambda>(n, b, p). let sp = \<lparr>Log2ChunkSize = 12, Multipart = True, Index = n\<rparr> in
     (\<lparr>hparams = sp, hsalt = replicate 20 b, raw = header_layout sp (replicate 20 b)\<rparr>, p))
     [(1, 1, [1, 2, 3]), (2, 2, [4, 5])]"

lemma example_segs_match: "list_all2 (part_matches 12 True) example_parts example_segs"
  by (simp add: example_parts_def example_segs_def part_matches_def wf_header_def Validate_def
      ValidateLog2ChunkSize_def validateIdentity_def Let_def)

theorem chain_roundtrip_witness:
  "\<exists>c. chain_all 7 \<lparr>src_data = seal_segments (replicate 32 9) example_segs, src_end = Sentinel EOF\<rparr>
     (replicate 32 9) example_layout = Inr (Some ([1, 2, 3, 4, 5], None, c))"
proof -
  have "length example_parts \<le> 10000" by (simp add: example_parts_def)
  from chain_roundtrip [OF example_NewLayout this example_segs_match, of "replicate 32 9" 7] show ?thesis
    by (simp add: example_segs_def Let_def del: replicate.simps)
qed

text \<open>C16: Nothing but the manifest's parts is served to the end. If an object has the total ciphertext size
  the layout computes (what \<open>CheckAgainst\<close> checks) and the chain reads it to a clean end, then its bytes
  are exactly the segments of the manifest's parts in the manifest's order, each with the part's number,
  the recorded salt (where the manifest records salts) and the recorded plaintext size, and what was
  delivered is the concatenation of their plaintexts: parts that are swapped, missing, repeated, taken
  from another attempt or resized end in an error.\<close>

theorem chain_canonical:
  assumes "NewLayout ps l hs = Inr L" and "length ps \<le> 10000" and "0 < k"
    and "chain_all k src dek L = Inr (Some (q, None, c))"
    and "CheckAgainst L (int (length (src_data src))) = None"
  shows "\<exists>segs. list_all2 (part_matches l hs) ps segs \<and> q = concat (map snd segs) \<and>
    src_data src = seal_segments dek segs"
proof -
  from assms(1,2) obtain ss where L: "layout_of ps l hs ss L" "ps \<noteq> []" "lTotalCipher L = sum_list ss"
    by (rule NewLayout_layout_of)
  obtain q' e where ch: "chain_from dek L [0..<length (lParts L)] src = (q', e)" by fastforce
  have "e = Sentinel EOF" "q' = q"
    using chain_all_from [OF _ assms(3) ch] L(1,2) assms(4) by (auto simp: layout_of_def split: if_splits)
  moreover have "int (length (src_data src)) = sum_list (drop 0 ss)"
    using assms(5) L(3) by (auto simp: CheckAgainst_def split: if_splits)
  ultimately show ?thesis
    using chain_from_sound [OF L(1), of 0 dek src q] ch L(1) by (simp add: layout_of_def)
qed

theorem chain_canonical_witness:
  "\<exists>src q c segs. chain_all 7 src (replicate 32 9) example_layout = Inr (Some (q, None, c)) \<and>
     list_all2 (part_matches 12 True) example_parts segs \<and> src_data src = seal_segments (replicate 32 9) segs"
proof -
  let ?src = "\<lparr>src_data = seal_segments (replicate 32 9) example_segs, src_end = Sentinel EOF\<rparr>"
  have len: "length example_parts \<le> 10000" by (simp add: example_parts_def)
  obtain c where c: "chain_all 7 ?src (replicate 32 9) example_layout = Inr (Some (concat (map snd example_segs), None, c))"
    using chain_all_from [of example_layout 7 "replicate 32 9" ?src]
      chain_from_segments [of example_parts 12 True "[51, 50]" example_layout example_segs "replicate 32 9" 0 ?src]
      example_segs_match
    by (auto simp: layout_of_def example_layout_def example_parts_def size_eval simp del: replicate.simps)
  have "int (length (seal_segments (replicate 32 9) example_segs)) = 101"
    by (simp add: seal_segments_def example_segs_def Let_def seal_segment_def chunkSize_def seal_from.simps
        del: replicate.simps)
  then have "CheckAgainst example_layout (int (length (src_data ?src))) = None"
    by (simp add: CheckAgainst_def example_layout_def)
  from chain_canonical [OF example_NewLayout len _ c this] c show ?thesis by (intro exI [of _ ?src]) auto
qed

end
