(* ===== verification/VerifyObject.thy ===== *)
theory VerifyObject
  imports ObjectMeta VerifyLayout
begin

text \<open>
  \<open>internal/verify\<close>: \<open>failure.go\<close>, \<open>segment.go\<close>, \<open>manifest.go\<close> and \<open>object.go\<close>, the verification of a whole
  stored object, which composes the metadata, the key provider, the manifest, the layout and the
  segment readers. The provider is the parameter \<open>Upstream\<close>: what its \<open>GetObject\<close> answers for a bucket and
  a stored key, and which of its errors mean that an object does not exist.
\<close>

section \<open>Failures\<close>

datatype vkind = VMetadata | VUnknownKID | VDEKUnwrap | VHeader | VChunk | VSize | VManifest

text \<open>What the package returns: a failed check, an associated-data error, or any other error.\<close>

datatype verr = Failure vkind string err | AADError err | OtherError err

definition AsFailure :: "verr \<Rightarrow> (vkind \<times> string \<times> err) option" where
  "AsFailure e = (case e of Failure k c x \<Rightarrow> Some (k, c, x) | _ \<Rightarrow> None)"

definition streamKind :: "err \<Rightarrow> vkind option" where
  "streamKind e =
     (case as_integrity e of
        Some (KindHeader, _) \<Rightarrow> Some VHeader
      | Some (KindSize, _) \<Rightarrow> Some VSize
      | Some _ \<Rightarrow> Some VChunk
      | None \<Rightarrow> if errors_is ErrVerify e then Some VManifest else None)"

section \<open>Data keys and segments\<close>

definition UnwrapDEK :: "KeyProvider \<Rightarrow> string \<Rightarrow> string \<Rightarrow> Meta \<Rightarrow> verr + bytes" where
  "UnwrapDEK kp bucket key meta =
     (case ObjectAAD (mKeyID meta) bucket key of
        Inl e \<Rightarrow> Inl (AADError e)
      | Inr ad \<Rightarrow>
          (case pUnwrap kp (mKeyID meta) (mWrappedDEK meta) ad of
             Inl e \<Rightarrow> Inl (Failure (if errors_is ErrUnknownKID e then VUnknownKID else VDEKUnwrap) ''data key'' e)
           | Inr dek \<Rightarrow> Inr dek))"

definition OpenSegment :: "source \<Rightarrow> bytes \<Rightarrow> Meta \<Rightarrow> verr + DecryptReader \<times> Meta" where
  "OpenSegment body dek meta =
     (case NewDecryptReader body dek \<lparr>Log2ChunkSize = AnyChunkSize, Multipart = False, Index = 0\<rparr> of
        Inl e \<Rightarrow> Inl (Failure VHeader ''segment header'' e)
      | Inr reader \<Rightarrow>
          (case VerifyFirstD reader of
             (Some e, _) \<Rightarrow> Inl (Failure VChunk ''first chunk'' e)
           | (None, reader') \<Rightarrow>
               (let authenticated = Log2ChunkSize (HeaderD reader') in
                if mHasChunkSize meta \<and> mLog2ChunkSize meta \<noteq> authenticated
                then Inl (Failure VChunk ''chunk size''
                       (Errorf ''object metadata disagrees with the authenticated segment header'' []))
                else Inr (reader', meta\<lparr>mLog2ChunkSize := authenticated\<rparr>))))"

section \<open>The provider\<close>

record ObjectOut =
  oETag :: string
  oMetadata :: "(string \<times> string) list"
  oContentLength :: int
  oBody :: source

record Upstream =
  GetObject :: "string \<Rightarrow> string \<Rightarrow> ObjectOut result"
  NotFound :: "err \<Rightarrow> bool"

definition MaxManifestBytes :: nat where [simp]: "MaxManifestBytes = 2 ^ 20"

text \<open>\<open>io.ReadAll\<close>: everything up to the end, which has to be a clean one.\<close>

definition read_all :: "source \<Rightarrow> bytes result" where
  "read_all s = (if src_end s = Sentinel EOF then Inr (src_data s) else Inl (src_end s))"

definition LoadManifest :: "Upstream \<Rightarrow> string \<Rightarrow> string \<Rightarrow> bytes \<Rightarrow> bytes \<Rightarrow> Manifest result" where
  "LoadManifest up bucket key i dek =
     (case GetObject up bucket (ObjectKey i key) of
        Inl e \<Rightarrow>
          if NotFound up e then Inl (Errorf ''%w: the manifest of this object is missing'' [Sentinel ErrVerify])
          else Inl e
      | Inr out \<Rightarrow>
          (case read_all (limit_reader (oBody out) (MaxManifestBytes + 1)) of
             Inl e \<Rightarrow> Inl (Errorf ''reading the manifest: %w'' [e])
           | Inr rw \<Rightarrow>
               if length rw > MaxManifestBytes
               then Inl (Errorf ''%w: manifest exceeds %d bytes'' [Sentinel ErrVerify])
               else Unmarshal rw dek bucket key i))"

section \<open>Verifying an object\<close>

record Target =
  tBucket :: string
  tIdentity :: string
  tStored :: string

record Result =
  rETag :: string
  rKeyID :: string
  rMultipart :: bool
  rParts :: nat
  rPlainBytes :: nat
  rCipherBytes :: nat

definition empty_result :: Result where
  "empty_result = \<lparr>rETag = '''', rKeyID = '''', rMultipart = False, rParts = 0, rPlainBytes = 0, rCipherBytes = 0\<rparr>"

definition openMultipart ::
  "Upstream \<Rightarrow> Target \<Rightarrow> Meta \<Rightarrow> int \<Rightarrow> source \<Rightarrow> bytes \<Rightarrow> verr + SegmentChain \<times> nat" where
  "openMultipart up t meta storedCipher body dek =
     (case LoadManifest up (tBucket t) (tStored t) (mManifestID meta) dek of
        Inl e \<Rightarrow> Inl (case streamKind e of Some k \<Rightarrow> Failure k ''manifest'' e | None \<Rightarrow> OtherError e)
      | Inr m \<Rightarrow>
          (case NewLayout (Parts m) (mLog2ChunkSize meta) (HasSalts m) of
             Inl e \<Rightarrow> Inl (Failure VManifest ''manifest'' e)
           | Inr layout \<Rightarrow>
               (case CheckAgainst layout storedCipher of
                  Some e \<Rightarrow> Inl (Failure VSize ''object size'' e)
                | None \<Rightarrow>
                    (case NewSegmentChain body dek layout of
                       Inl e \<Rightarrow> Inl (Failure (case streamKind e of Some k \<Rightarrow> k | None \<Rightarrow> VHeader) ''segment header'' e)
                     | Inr chain \<Rightarrow>
                         (case VerifyFirstC chain of
                            (Some e, _) \<Rightarrow>
                              Inl (Failure (case streamKind e of Some k \<Rightarrow> k | None \<Rightarrow> VChunk) ''first chunk'' e)
                          | (None, chain') \<Rightarrow> Inr (chain', length (lParts layout)))))))"

text \<open>
  \<open>countingReader\<close> stands between the provider and the buffered segment readers, so what it has seen
  when it is consulted depends on how far their buffers have read ahead. That read-ahead is the argument
  \<open>seen\<close> of the model; \<open>counted\<close> says which states are possible for a body. What the segment readers
  have themselves taken from the body was counted in any case: \<open>unreadD\<close> and \<open>unreadC\<close> are the bytes a
  reader has not asked for yet, and \<open>body_n\<close> is the count \<open>body.n\<close>.
\<close>

record countingReader =
  bn :: nat
  beof :: bool
  berr :: "err option"

definition counted :: "source \<Rightarrow> countingReader \<Rightarrow> bool" where
  "counted s c \<longleftrightarrow> bn c \<le> length (src_data s) \<and>
     (beof c \<longrightarrow> bn c = length (src_data s) \<and> errors_is EOF (src_end s)) \<and>
     (case berr c of None \<Rightarrow> True | Some e \<Rightarrow> bn c = length (src_data s) \<and> src_end s = e \<and> \<not> errors_is EOF e)"

definition unreadD :: "DecryptReader \<Rightarrow> nat" where
  "unreadD r = length (src_data (rsrc r))"

definition unreadC :: "SegmentChain \<Rightarrow> nat" where
  "unreadC c = length (src_data (csrc c)) + (case ccur c of None \<Rightarrow> 0 | Some r \<Rightarrow> unreadD r)"

definition body_n :: "source \<Rightarrow> nat \<Rightarrow> countingReader \<Rightarrow> nat" where
  "body_n s unread seen = max (bn seen) (length (src_data s) - unread)"

definition shortOr :: "verr \<Rightarrow> countingReader \<Rightarrow> int \<Rightarrow> verr" where
  "shortOr e body announced =
     (if AsFailure e = None then e
      else case berr body of
        Some x \<Rightarrow>
          if \<not> errors_is EOF x then OtherError (Errorf ''%w: %w'' [Sentinel ErrShortRead, x])
          else if beof body \<and> announced \<ge> 0 \<and> int (bn body) < announced
          then OtherError (Errorf ''%w: %d of %d bytes'' [Sentinel ErrShortRead]) else e
      | None \<Rightarrow>
          if beof body \<and> announced \<ge> 0 \<and> int (bn body) < announced
          then OtherError (Errorf ''%w: %d of %d bytes'' [Sentinel ErrShortRead]) else e)"

text \<open>The end of \<open>Object\<close>: \<open>io.Copy\<close> to \<open>io.Discard\<close>, whose \<open>ReadFrom\<close> reads 8192 bytes at a time.\<close>

definition copy_discard ::
  "(nat \<Rightarrow> 's \<Rightarrow> bytes \<times> err option \<times> 's) \<Rightarrow> ('s \<Rightarrow> nat) \<Rightarrow> 's \<Rightarrow> ObjectOut \<Rightarrow> countingReader \<Rightarrow> Result \<Rightarrow>
     (Result \<times> verr option) option" where
  "copy_discard rd unread reader out seen res =
     (case drain (rd 8192) (Suc (length (src_data (oBody out)))) reader of
        None \<Rightarrow> None
      | Some (b, err, reader') \<Rightarrow>
          (let res = res\<lparr>rPlainBytes := length b, rCipherBytes := body_n (oBody out) (unread reader') seen\<rparr> in
           case err of
             None \<Rightarrow> Some (res, None)
           | Some e \<Rightarrow>
               (case streamKind e of
                  Some k \<Rightarrow> Some (res, Some (shortOr (Failure k ''stream'' e) seen (oContentLength out)))
                | None \<Rightarrow> Some (res, Some (OtherError e)))))"

definition Object ::
  "Upstream \<Rightarrow> KeyProvider \<Rightarrow> Target \<Rightarrow> byte \<Rightarrow> countingReader \<Rightarrow> (Result \<times> verr option) option" where
  "Object up kp t fallbackLog2C seen =
     (case GetObject up (tBucket t) (tStored t) of
        Inl e \<Rightarrow> Some (empty_result, Some (OtherError e))
      | Inr out \<Rightarrow>
          (let res = empty_result\<lparr>rETag := oETag out\<rparr> in
           case Parse (oMetadata out) fallbackLog2C of
             Inl e \<Rightarrow>
               if errors_is ErrNotEncrypted e then Some (res, Some (OtherError e))
               else Some (res, Some (Failure VMetadata ''object metadata'' e))
           | Inr meta \<Rightarrow>
               (let res = res\<lparr>rKeyID := mKeyID meta, rMultipart := mMultipart meta\<rparr> in
                case UnwrapDEK kp (tBucket t) (tIdentity t) meta of
                  Inl e \<Rightarrow> Some (res, Some e)
                | Inr dek \<Rightarrow>
                    if mMultipart meta
                    then (case openMultipart up t meta (oContentLength out) (oBody out) dek of
                            Inl e \<Rightarrow> Some (res, Some (shortOr e seen (oContentLength out)))
                          | Inr (chain, n) \<Rightarrow> copy_discard ReadC unreadC chain out seen (res\<lparr>rParts := n\<rparr>))
                    else (case OpenSegment (oBody out) dek meta of
                            Inl e \<Rightarrow> Some (res, Some (shortOr e seen (oContentLength out)))
                          | Inr (reader, opened) \<Rightarrow>
                              (case OpenedSize (oContentLength out) (mLog2ChunkSize opened) of
                                 Inl e \<Rightarrow> Some (res, Some (Failure VSize ''ciphertext size'' e))
                               | Inr _ \<Rightarrow> copy_discard ReadD unreadD reader out seen (res\<lparr>rParts := 1\<rparr>))))))"


section \<open>What verification accepts\<close>

text \<open>
  \<open>stored_body\<close> describes the ciphertext \<open>c\<close> of an object with plaintext \<open>p\<close> in \<open>n\<close> parts: one segment, or the
  segments of the manifest that the metadata names.
\<close>

definition stored_body :: "Upstream \<Rightarrow> Target \<Rightarrow> Meta \<Rightarrow> bytes \<Rightarrow> bytes \<Rightarrow> bytes \<Rightarrow> nat \<Rightarrow> bool" where
  "stored_body up t meta dek c p n \<longleftrightarrow>
     (if mMultipart meta
      then \<exists>m segs. LoadManifest up (tBucket t) (tStored t) (mManifestID meta) dek = Inr m \<and>
             list_all2 (part_matches (mLog2ChunkSize meta) (HasSalts m)) (Parts m) segs \<and>
             c = seal_segments dek segs \<and> p = concat (map snd segs) \<and> n = length (Parts m)
      else \<exists>h. wf_header h \<and> \<not> Multipart (hparams h) \<and> Index (hparams h) = 0 \<and>
             (mHasChunkSize meta \<longrightarrow> Log2ChunkSize (hparams h) = mLog2ChunkSize meta) \<and>
             c = seal_segment dek h p \<and> length p \<le> 2 ^ 46 \<and> n = 1)"

text \<open>Sizes that a manifest admits have a layout.\<close>

lemma layout_loop_total:
  "list_all (\<lambda>p. 0 \<le> PlainSize p \<and> PlainSize p \<le> 2 ^ 46) ps \<Longrightarrow> ValidateLog2ChunkSize (lLog2C l) = None \<Longrightarrow>
   \<exists>L. layout_loop ps l = Inr L"
proof (induction ps l rule: layout_loop.induct)
  case (2 part parts l)
  then obtain s where "SealedSize (PlainSize part) (lLog2C l) = Inr s"
    using SealedSizeSegments_eq [of "lLog2C l" 1 "PlainSize part"] by (auto simp: SealedSize_def)
  with 2 show ?case by auto
qed simp

lemma NewLayout_total:
  assumes "validate m = None" and "ValidateLog2ChunkSize l = None"
  shows "\<exists>L. NewLayout (Parts m) l hs = Inr L" and "length (Parts m) \<le> 10000"
proof -
  have v: "validate_parts q ps = None \<Longrightarrow> list_all (\<lambda>p. 0 \<le> PlainSize p \<and> PlainSize p \<le> 2 ^ 46) ps" for q ps
    by (induction q ps rule: validate_parts.induct) (auto simp: MaxPlaintextSize_def split: if_splits)
  have "Parts m \<noteq> []" "length (Parts m) \<le> 10000" "validate_parts None (Parts m) = None"
    using assms(1) by (auto simp: validate_def split: if_splits)
  with v layout_loop_total [of "Parts m"] assms(2)
  show "\<exists>L. NewLayout (Parts m) l hs = Inr L" "length (Parts m) \<le> 10000"
    by (auto simp: NewLayout_def)
qed

lemma LoadManifest_Inr:
  assumes "LoadManifest up bucket key i dek = Inr m"
  shows "validate m = None" and "length dek = 32"
proof -
  obtain rw where "Unmarshal rw dek bucket key i = Inr m"
    using assms by (auto simp: LoadManifest_def split: sum.splits if_splits)
  then show "validate m = None" "length dek = 32" by (auto elim: Unmarshal_Inr)
qed

text \<open>Both directions for a multipart object.\<close>

lemma openMultipart_sound:
  assumes o: "openMultipart up t meta (int (length (src_data body))) body dek = Inr (c', n)"
    and e: "outcomeC c' = Sentinel EOF" and "ValidateLog2ChunkSize (mLog2ChunkSize meta) = None"
  shows "\<exists>m segs. LoadManifest up (tBucket t) (tStored t) (mManifestID meta) dek = Inr m \<and>
    list_all2 (part_matches (mLog2ChunkSize meta) (HasSalts m)) (Parts m) segs \<and>
    src_data body = seal_segments dek segs \<and> restC c' = concat (map snd segs) \<and> n = length (Parts m)"
proof -
  obtain m L c where m: "LoadManifest up (tBucket t) (tStored t) (mManifestID meta) dek = Inr m"
      and L: "NewLayout (Parts m) (mLog2ChunkSize meta) (HasSalts m) = Inr L"
      and ca: "CheckAgainst L (int (length (src_data body))) = None"
      and c: "NewSegmentChain body dek L = Inr c" "VerifyFirstC c = (None, c')" and n: "n = length (lParts L)"
    using o by (auto simp: openMultipart_def split: sum.splits option.splits prod.splits)
  note tot = NewLayout_total [OF LoadManifest_Inr(1) [OF m] assms(3)]
  from L tot(2) obtain ss where lo: "layout_of (Parts m) (mLog2ChunkSize meta) (HasSalts m) ss L"
      "Parts m \<noteq> []" "lTotalCipher L = sum_list ss"
    by (rule NewLayout_layout_of)
  have ps: "lParts L = Parts m" using lo(1) by (simp add: layout_of_def)
  have "restC c' = restC c" "outcomeC c = Sentinel EOF" using VerifyFirstC_cases [OF c(1)] c(2) e by auto
  moreover have "chain_from dek L [0..<length (lParts L)] body = (restC c, outcomeC c)"
    using NewSegmentChain_from [where l = L and dek = dek and src = body] c(1) lo(2) ps by (auto split: prod.splits)
  moreover have "int (length (src_data body)) = sum_list (drop 0 ss)"
    using ca lo(3) by (auto simp: CheckAgainst_def split: if_splits)
  ultimately show ?thesis
    using chain_from_sound [OF lo(1), of 0 dek body "restC c"] m n ps by auto
qed

lemma openMultipart_ok:
  assumes m: "LoadManifest up (tBucket t) (tStored t) (mManifestID meta) dek = Inr m"
    and s: "list_all2 (part_matches (mLog2ChunkSize meta) (HasSalts m)) (Parts m) segs"
      "src_data body = seal_segments dek segs" and "ValidateLog2ChunkSize (mLog2ChunkSize meta) = None"
  shows "\<exists>c'. openMultipart up t meta (int (length (src_data body))) body dek = Inr (c', length (Parts m)) \<and>
    chain_inv c' \<and> restC c' = concat (map snd segs) \<and> outcomeC c' = Sentinel EOF"
proof -
  note tot = NewLayout_total [OF LoadManifest_Inr(1) [OF m] assms(4)]
  obtain L where L: "NewLayout (Parts m) (mLog2ChunkSize meta) (HasSalts m) = Inr L" using tot(1) by blast
  from L tot(2) obtain ss where lo: "layout_of (Parts m) (mLog2ChunkSize meta) (HasSalts m) ss L"
      "Parts m \<noteq> []" "lTotalCipher L = sum_list ss"
    by (rule NewLayout_layout_of)
  have ps: "lParts L = Parts m" using lo(1) by (simp add: layout_of_def)
  have ch: "chain_from dek L [0..<length (lParts L)] body = (concat (map snd segs), Sentinel EOF)"
    using chain_from_segments [OF lo(1) s(1) LoadManifest_Inr(2) [OF m], of 0 body] s(2) ps by simp
  obtain c where c: "NewSegmentChain body dek L = Inr c" "restC c = concat (map snd segs)" "outcomeC c = Sentinel EOF"
    using NewSegmentChain_from [where l = L and dek = dek and src = body] ch lo(2) ps by (auto split: sum.splits)
  obtain c' where c': "VerifyFirstC c = (None, c')" "chain_inv c'" "restC c' = restC c" "outcomeC c' = outcomeC c"
    using VerifyFirstC_cases [OF c(1)] c(3) by (cases "VerifyFirstC c") (auto split: option.splits)
  have "list_all2 (\<lambda>p s. SealedSize (PlainSize p) (mLog2ChunkSize meta) = Inr s) (Parts m) ss"
    using lo(1) by (simp add: layout_of_def)
  from this s(1) have "sum_list ss = int (length (seal_segments dek segs))"
  proof (induction arbitrary: segs rule: list_all2_induct)
    case (Cons p ps s ss)
    then show ?case
      by (cases segs) (auto simp: seal_segments_def list_all2_Cons1 split: prod.splits dest: matches_length [where dek = dek])
  qed (simp add: seal_segments_def)
  then have "CheckAgainst L (int (length (src_data body))) = None"
    using lo(3) s(2) by (simp add: CheckAgainst_def)
  then show ?thesis
    using m L c c' ps by (auto simp: openMultipart_def)
qed


text \<open>Both directions for a single segment.\<close>

lemma OpenedSize_segment_iff:
  assumes "wf_header h"
  shows "(\<exists>q. OpenedSize (int (length (seal_segment dek h p))) (Log2ChunkSize (hparams h)) = Inr q) \<longleftrightarrow> length p \<le> 2 ^ 46"
proof
  assume "\<exists>q. OpenedSize (int (length (seal_segment dek h p))) (Log2ChunkSize (hparams h)) = Inr q"
  then obtain q where s: "SealedSize q (Log2ChunkSize (hparams h)) = Inr (int (length (seal_segment dek h p)))"
    by (auto simp: OpenedSize_def SealedSize_def OpenedSizeSegments_iff)
  from segment_plain_size [OF assms s] sealed_size_bound [OF s] show "length p \<le> 2 ^ 46" by simp
qed (use OpenedSize_seal_segment [OF assms] in blast)

lemma OpenSegment_sound:
  assumes "OpenSegment body dek meta = Inr (r', opened)" and "outcomeD r' = Sentinel EOF"
    and "length (src_data body) < 2 ^ 63"
  shows "\<exists>h. wf_header h \<and> \<not> Multipart (hparams h) \<and> Index (hparams h) = 0 \<and> length dek = 32 \<and>
    (mHasChunkSize meta \<longrightarrow> Log2ChunkSize (hparams h) = mLog2ChunkSize meta) \<and>
    src_data body = seal_segment dek h (restD r') \<and> mLog2ChunkSize opened = Log2ChunkSize (hparams h)"
proof -
  obtain r where r: "NewDecryptReader body dek \<lparr>Log2ChunkSize = AnyChunkSize, Multipart = False, Index = 0\<rparr> = Inr r"
      "VerifyFirstD r = (None, r')" "mHasChunkSize meta \<longrightarrow> mLog2ChunkSize meta = Log2ChunkSize (HeaderD r')"
      "opened = meta\<lparr>mLog2ChunkSize := Log2ChunkSize (HeaderD r')\<rparr>"
    using assms(1) by (auto simp: OpenSegment_def Let_def split: sum.splits prod.splits option.splits if_splits)
  have v: "restD r' = restD r" "outcomeD r = Sentinel EOF" "rheader r' = rheader r"
    using VerifyFirstD_cases [OF r(1)] r(2) assms(2) by auto
  from reader_sound [OF r(1) v(2) assms(3)] r v show ?thesis
    by (intro exI [of _ "rheader r"]) (auto simp: requireParams_self HeaderD_def)
qed

lemma OpenSegment_ok:
  assumes "wf_header h" and "\<not> Multipart (hparams h)" and "Index (hparams h) = 0" and "length dek = 32"
    and "mHasChunkSize meta \<longrightarrow> Log2ChunkSize (hparams h) = mLog2ChunkSize meta"
    and "body = \<lparr>src_data = seal_segment dek h p, src_end = Sentinel EOF\<rparr>"
  shows "\<exists>r'. OpenSegment body dek meta = Inr (r', meta\<lparr>mLog2ChunkSize := Log2ChunkSize (hparams h)\<rparr>) \<and>
    readerD_inv r' \<and> restD r' = p \<and> outcomeD r' = Sentinel EOF"
proof -
  let ?want = "\<lparr>Log2ChunkSize = AnyChunkSize, Multipart = False, Index = 0\<rparr> :: SegmentParams"
  have want: "validateExpectation ?want = None" "requireParams h ?want = None"
    using assms(2,3) by (simp_all add: validateExpectation_def validateIdentity_def requireParams_self)
  obtain r where r: "NewDecryptReader body dek ?want = Inr r" "rheader r = h" "restD r = p" "outcomeD r = Sentinel EOF"
    using reader_ok [OF assms(1) want assms(4)] assms(6) by blast
  obtain r' where "VerifyFirstD r = (None, r')" "readerD_inv r'" "restD r' = p" "outcomeD r' = Sentinel EOF" "rheader r' = h"
    using VerifyFirstD_cases [OF r(1)] r(2-4) by (cases "VerifyFirstD r") (auto split: option.splits)
  then show ?thesis using r(1) assms(5) by (auto simp: OpenSegment_def Let_def HeaderD_def)
qed

text \<open>What is left of the body when a copy ends cleanly: nothing, if no more arrived than the layout covers.\<close>

lemma drain_final:
  assumes "drain rd n s = Some (b, None, s')" and "P s"
    and "\<And>s b s'. P s \<Longrightarrow> rd s = (b, None, s') \<Longrightarrow> P s'"
    and "\<And>s b s'. P s \<Longrightarrow> rd s = (b, Some (Sentinel EOF), s') \<Longrightarrow> Q s'"
  shows "Q s'"
  using assms(1,2)
proof (induction n arbitrary: s b)
  case (Suc n)
  obtain c e t where rd: "rd s = (c, e, t)" by (cases "rd s")
  show ?case
  proof (cases e)
    case None
    with Suc.prems(1) rd obtain d where "drain rd n t = Some (d, None, s')" by auto
    then show ?thesis using Suc.IH assms(3) [OF Suc.prems(2)] rd None by blast
  next
    case (Some x)
    with Suc.prems(1) rd have "x = Sentinel EOF" "t = s'" by (auto split: if_splits)
    then show ?thesis using assms(4) [OF Suc.prems(2)] rd Some by blast
  qed
qed simp

definition doneD :: "DecryptReader \<Rightarrow> bool" where
  "doneD r \<longleftrightarrow> rerr r = None \<and> (rdone r \<longrightarrow> unreadD r = 0)"

lemma openInto_done:
  assumes "openInto full final r = (None, r')"
  shows "rerr r' = rerr r \<and> rdone r' = final \<and> rsrc r' = rsrc r"
  using assms by (auto simp: openInto_def split: prod.splits sum.splits)

lemma openInto_error:
  assumes "rerr r = None"
  shows "openInto full final r \<noteq> (Some (Sentinel EOF), r')"
  using assms
  by (auto simp: openInto_def sealer_open_def setErrD_def releaseD_def chunkErrorf_def Let_def
      split: prod.splits sum.splits option.splits if_splits)

lemma fillD_done:
  assumes "doneD r" and "fillD r = (e, r')"
  shows "(e = None \<longrightarrow> doneD r') \<and> e \<noteq> Some (Sentinel EOF)"
proof (cases "rbuf r")
  case None
  then show ?thesis using assms by (auto simp: fillD_def setErrD_def releaseD_def doneD_def integrityf_def Let_def)
next
  case (Some cap)
  obtain full err src where rd: "read_full cap (rsrc r) = (full, err, src)" by (metis prod_cases3)
  have e: "rerr (r\<lparr>rsrc := src\<rparr>) = None" using assms(1) by (simp add: doneD_def)
  have z: "src_data src = []" if "err \<noteq> None \<or> peek1 src \<noteq> None"
    using that rd by (auto simp: read_full_def peek1_def split: if_splits)
  have o: "doneD r''" if "openInto full f (r\<lparr>rsrc := src\<rparr>) = (None, r'')" "f \<longrightarrow> src_data src = []" for f r''
    using openInto_done [OF that(1)] e that(2) by (auto simp: doneD_def unreadD_def)
  show ?thesis
    using assms(2) z o openInto_error [OF e] e Some rd
    by (auto simp: fillD_def setErrD_def releaseD_def chunkErrorf_def Let_def split: option.splits if_splits)
qed

lemma readLoopD_done:
  assumes "doneD r" and "readLoopD k r = (b, e, r')"
  shows "(e = None \<longrightarrow> doneD r') \<and> (e = Some (Sentinel EOF) \<longrightarrow> unreadD r' = 0)"
  using assms
proof (induction k r arbitrary: b e r' rule: readLoopD.induct)
  case (1 k r)
  consider (plain) "rplain r \<noteq> []" | (finished) "rplain r = []" "rdone r" | (fill) "rplain r = []" "\<not> rdone r" by blast
  then show ?case
  proof cases
    case plain
    then show ?thesis using "1.prems" by (auto simp: readLoopD.simps [of k r] doneD_def unreadD_def)
  next
    case finished
    then show ?thesis using "1.prems" by (auto simp: readLoopD.simps [of k r] doneD_def unreadD_def releaseD_def)
  next
    case fill
    obtain x q where f: "fillD r = (x, q)" by (cases "fillD r")
    note fd = fillD_done [OF "1.prems"(1) f]
    show ?thesis
      using "1.prems"(2) "1.IH" [of x q b e r'] fill f fd
      by (cases x) (auto simp: readLoopD.simps [of k r])
  qed
qed

lemma ReadD_done:
  assumes "doneD r" and "ReadD k r = (b, e, r')"
  shows "(e = None \<longrightarrow> doneD r') \<and> (e = Some (Sentinel EOF) \<longrightarrow> unreadD r' = 0)"
  using readLoopD_done [OF assms(1), of k b e r'] assms by (simp add: ReadD_def doneD_def)

definition doneC :: "SegmentChain \<Rightarrow> bool" where
  "doneC c \<longleftrightarrow> cerr c = None \<and> (\<exists>r. ccur c = Some r \<and> doneD r) \<and>
     list_all (\<lambda>n. 0 \<le> n) (lSealed (clayout c)) \<and> length (lSealed (clayout c)) = length (lParts (clayout c)) \<and>
     int (length (src_data (csrc c))) \<le> sum_list (drop (Suc (cidx c)) (lSealed (clayout c)))"

lemma open_part_done: "open_part dek l i s = Inr r \<Longrightarrow> doneD r"
  by (auto simp: open_part_def NewDecryptReader_def doneD_def result_simps split: prod.splits option.splits if_splits)

lemma skip_part_done:
  assumes "int (length (src_data s)) \<le> sum_list (drop i (lSealed l))" and "i < length (lSealed l)"
    and "list_all (\<lambda>n. 0 \<le> n) (lSealed l)"
  shows "int (length (src_data (skip_part l i s))) \<le> sum_list (drop (Suc i) (lSealed l))"
proof -
  have d: "drop i (lSealed l) = lSealed l ! i # drop (Suc i) (lSealed l)" using assms(2) by (simp add: Cons_nth_drop_Suc)
  have "0 \<le> sum_list (drop (Suc i) (lSealed l))"
    using assms(3) by (intro sum_list_nonneg) (auto simp: list_all_iff dest: in_set_dropD)
  moreover have "0 \<le> lSealed l ! i" using assms(2,3) by (simp add: list_all_length)
  ultimately show ?thesis using assms(1) unfolding d by (simp add: skip_part_def)
qed

lemma ReadD_some_None:
  assumes "doneD r" and "ReadD k r = (b, e, r')" and "b \<noteq> [] \<or> e = None"
  shows "e = None"
proof -
  have "fst (snd (readLoopD k r)) = None \<or> fst (readLoopD k r) = []"
  proof (induction k r rule: readLoopD.induct)
    case (1 k r)
    then show ?case by (cases "fillD r"; cases "fst (fillD r)") (auto simp: readLoopD.simps [of k r])
  qed
  then show ?thesis using assms by (auto simp: ReadD_def doneD_def)
qed

lemma ReadC_done:
  assumes "doneC c" and "ReadC k c = (b, e, c')"
  shows "(e = None \<longrightarrow> doneC c') \<and> (e = Some (Sentinel EOF) \<longrightarrow> unreadC c' = 0)"
  using assms
proof (induction k c arbitrary: b e c' rule: ReadC.induct)
  case (1 k c)
  from "1.prems"(1) obtain r where c: "cerr c = None" "ccur c = Some r" "doneD r"
      and l: "list_all (\<lambda>n. 0 \<le> n) (lSealed (clayout c))" "length (lSealed (clayout c)) = length (lParts (clayout c))"
        "int (length (src_data (csrc c))) \<le> sum_list (drop (Suc (cidx c)) (lSealed (clayout c)))"
    by (auto simp: doneC_def)
  obtain d x r' where rd: "ReadD k r = (d, x, r')" by (cases "ReadD k r")
  note rdd = ReadD_done [OF c(3) rd]
  define c1 where "c1 = c\<lparr>ccur := None, cidx := cidx c + 1\<rparr>"
  consider (some) "d \<noteq> [] \<or> x = None" | (error) y where "d = []" "x = Some y" "\<not> errors_is EOF y"
    | (last) y where "d = []" "x = Some y" "errors_is EOF y" "length (lParts (clayout c)) \<le> Suc (cidx c)"
    | (more) y where "d = []" "x = Some y" "errors_is EOF y" "Suc (cidx c) < length (lParts (clayout c))"
    by (cases x) (auto simp: not_le, metis not_le)
  then show ?case
  proof cases
    case some
    have "x = None"
      using some rd c(3) ReadD_some_None by blast
    then have "ReadC k c = (d, None, c\<lparr>ccur := Some r'\<rparr>)" using c(1,2) rd by (simp add: ReadC.simps [of k c])
    moreover have "doneC (c\<lparr>ccur := Some r'\<rparr>)" using \<open>x = None\<close> rdd c(1) l by (simp add: doneC_def)
    ultimately show ?thesis using "1.prems"(2) by simp
  next
    case error
    then show ?thesis using "1.prems"(2) c rd by (auto simp: ReadC.simps [of k c])
  next
    case last
    then show ?thesis using "1.prems"(2) c rd l by (auto simp: ReadC.simps [of k c] unreadC_def)
  next
    case more
    have cr: "ReadC k c = (case chain_open c1 of (Some y, c2) \<Rightarrow> ([], Some y, c2) | (None, c2) \<Rightarrow> ReadC k c2)"
      using more c rd by (simp add: ReadC.simps [of k c] c1_def)
    note co = chain_open_part [of c1]
    show ?thesis
    proof (cases "open_part (cdek c) (clayout c) (cidx c + 1) (csrc c)")
      case (Inl y)
      with co obtain c2 where "chain_open c1 = (Some y, c2)" using c by (auto simp: c1_def)
      then show ?thesis using "1.prems"(2) cr open_part_error [OF Inl] by auto
    next
      case (Inr q)
      define c2 where "c2 = c1\<lparr>csrc := skip_part (clayout c) (cidx c + 1) (csrc c), ccur := Some q\<rparr>"
      have o2: "chain_open c1 = (None, c2)" using co Inr c by (simp add: c1_def c2_def)
      have "doneC c2"
        using skip_part_done [of "csrc c" "cidx c + 1" "clayout c"] l more(4) c open_part_done [OF Inr]
        by (simp add: doneC_def c1_def c2_def)
      moreover have "ReadC k c2 = (b, e, c')" using "1.prems"(2) cr o2 by simp
      ultimately show ?thesis
        using "1.IH" [OF _ c(2) rd [symmetric] refl _ more(2) _ c1_def _ o2 [symmetric] refl] c(1) more by (auto simp: c1_def)
    qed
  qed
qed

context byte_reader
begin

lemma copy_discard_rest:
  assumes "inv s" and "length (rest s) \<le> length (src_data (oBody out))"
  shows "\<exists>s'. copy_discard read unread s out seen res =
    Some (res\<lparr>rPlainBytes := length (rest s), rCipherBytes := body_n (oBody out) (unread s') seen\<rparr>,
      if outcome s = Sentinel EOF then None
      else case streamKind (outcome s) of
             Some k \<Rightarrow> Some (shortOr (Failure k ''stream'' (outcome s)) seen (oContentLength out))
           | None \<Rightarrow> Some (OtherError (outcome s))) \<and>
    drain (read 8192) (Suc (length (src_data (oBody out)))) s =
      Some (rest s, if outcome s = Sentinel EOF then None else Some (outcome s), s')"
proof -
  obtain s' where "drain (read 8192) (Suc (length (src_data (oBody out)))) s =
      Some (rest s, if outcome s = Sentinel EOF then None else Some (outcome s), s')"
    using drain_rest [OF assms(1), of 8192 "Suc (length (src_data (oBody out)))"] assms(2) by auto
  then show ?thesis
    by (intro exI [of _ s']) (simp add: copy_discard_def Let_def del: drain.simps split: option.split)
qed

lemma copy_discard_clean:
  assumes "copy_discard read unread s out seen res = Some (x, None)" and "inv s \<and> length (rest s) \<le> length (src_data (oBody out))"
  shows "outcome s = Sentinel EOF"
  using copy_discard_rest [of s out unread seen res] assms by (elim conjE exE) (auto split: if_splits option.splits)

end

lemma copy_discard_D:
  assumes "readerD_inv r" and "doneD r" and "length (restD r) \<le> length (src_data (oBody out))" and "outcomeD r = Sentinel EOF"
    and "bn seen \<le> length (src_data (oBody out))"
  shows "copy_discard ReadD unreadD r out seen res =
    Some (res\<lparr>rPlainBytes := length (restD r), rCipherBytes := length (src_data (oBody out))\<rparr>, None)"
proof -
  obtain r' where r': "copy_discard ReadD unreadD r out seen res =
      Some (res\<lparr>rPlainBytes := length (restD r), rCipherBytes := body_n (oBody out) (unreadD r') seen\<rparr>, None)"
    "drain (ReadD 8192) (Suc (length (src_data (oBody out)))) r = Some (restD r, None, r')"
    using decrypt.copy_discard_rest [OF assms(1,3), of unreadD seen res] assms(4) by (auto simp del: drain.simps)
  have "unreadD r' = 0" by (rule drain_final [where P = doneD and Q = "\<lambda>r. unreadD r = 0", OF r'(2) assms(2)]) (use ReadD_done in blast)+
  then show ?thesis using r'(1) assms(5) by (simp add: body_n_def)
qed

lemma copy_discard_C:
  assumes "chain_inv c" and "doneC c" and "length (restC c) \<le> length (src_data (oBody out))" and "outcomeC c = Sentinel EOF"
    and "bn seen \<le> length (src_data (oBody out))"
  shows "copy_discard ReadC unreadC c out seen res =
    Some (res\<lparr>rPlainBytes := length (restC c), rCipherBytes := length (src_data (oBody out))\<rparr>, None)"
proof -
  obtain c' where c': "copy_discard ReadC unreadC c out seen res =
      Some (res\<lparr>rPlainBytes := length (restC c), rCipherBytes := body_n (oBody out) (unreadC c') seen\<rparr>, None)"
    "drain (ReadC 8192) (Suc (length (src_data (oBody out)))) c = Some (restC c, None, c')"
    using chain.copy_discard_rest [OF assms(1,3), of unreadC seen res] assms(4) by (auto simp del: drain.simps)
  have "unreadC c' = 0" by (rule drain_final [where P = doneC and Q = "\<lambda>c. unreadC c = 0", OF c'(2) assms(2)]) (use ReadC_done in blast)+
  then show ?thesis using c'(1) assms(5) by (simp add: body_n_def)
qed

lemma OpenSegment_inv:
  assumes "OpenSegment body dek meta = Inr (r', opened)"
  shows "readerD_inv r' \<and> length (restD r') \<le> length (src_data body)"
proof -
  obtain r where r: "NewDecryptReader body dek \<lparr>Log2ChunkSize = AnyChunkSize, Multipart = False, Index = 0\<rparr> = Inr r"
      "VerifyFirstD r = (None, r')"
    using assms by (auto simp: OpenSegment_def Let_def split: sum.splits prod.splits option.splits if_splits)
  have "length (restD r) \<le> length (src_data body)" using r(1) by (rule NewDecryptReader_rest) simp
  then show ?thesis using VerifyFirstD_cases [OF r(1)] r(2) by simp
qed

lemma openMultipart_inv:
  assumes "openMultipart up t meta len body dek = Inr (c', n)"
  shows "chain_inv c' \<and> length (restC c') \<le> length (src_data body)"
proof -
  obtain m L c where c: "NewLayout (Parts m) (mLog2ChunkSize meta) (HasSalts m) = Inr L"
      "NewSegmentChain body dek L = Inr c" "VerifyFirstC c = (None, c')"
    using assms by (auto simp: openMultipart_def split: sum.splits option.splits prod.splits)
  have "lParts L = ps" if "layout_loop qs \<lparr>lParts = ps, lSealed = a, lCipherStart = b, lPlainStart = d, lTotalCipher = e,
      lTotalPlain = f, lLog2C = g, lhasSalts = hs\<rparr> = Inr L" for qs ps a b d e f g hs
    using that by (induction qs arbitrary: a b d e f) (auto split: sum.splits)
  then have "lParts L \<noteq> []" using c(1) by (auto simp: NewLayout_def split: if_splits)
  then have "restC c = fst (chain_from dek L [0..<length (lParts L)] body)"
    using NewSegmentChain_from [where l = L and dek = dek and src = body] c(2) by (auto split: prod.splits)
  then have "length (restC c) \<le> length (src_data body)" using length_chain_from by metis
  then show ?thesis using VerifyFirstC_cases [OF c(2)] c(3) by simp
qed


lemma OpenSegment_done:
  assumes "OpenSegment body dek meta = Inr (r', opened)"
  shows "doneD r'"
proof -
  obtain r where r: "NewDecryptReader body dek \<lparr>Log2ChunkSize = AnyChunkSize, Multipart = False, Index = 0\<rparr> = Inr r"
      "VerifyFirstD r = (None, r')"
    using assms by (auto simp: OpenSegment_def Let_def split: sum.splits prod.splits option.splits if_splits)
  have "doneD r"
    using r(1) by (auto simp: NewDecryptReader_def doneD_def result_simps split: prod.splits option.splits if_splits)
  then show ?thesis using r(2) fillD_done [of r] by (auto simp: VerifyFirstD_def split: if_splits)
qed

lemma openMultipart_done:
  assumes "openMultipart up t meta len body dek = Inr (c', n)" and "ValidateLog2ChunkSize (mLog2ChunkSize meta) = None"
    and "int (length (src_data body)) \<le> len"
  shows "doneC c'"
proof -
  obtain m L c where m: "LoadManifest up (tBucket t) (tStored t) (mManifestID meta) dek = Inr m"
      and L: "NewLayout (Parts m) (mLog2ChunkSize meta) (HasSalts m) = Inr L" "CheckAgainst L len = None"
      and c: "NewSegmentChain body dek L = Inr c" "VerifyFirstC c = (None, c')"
    using assms(1) by (auto simp: openMultipart_def split: sum.splits option.splits prod.splits)
  note tot = NewLayout_total [OF LoadManifest_Inr(1) [OF m] assms(2)]
  from L(1) tot(2) obtain ss where lo: "layout_of (Parts m) (mLog2ChunkSize meta) (HasSalts m) ss L"
      "Parts m \<noteq> []" "lTotalCipher L = sum_list ss"
    by (rule NewLayout_layout_of)
  have ss: "lSealed L = ss" "lParts L = Parts m" "length ss = length (Parts m)"
    using lo(1) by (auto simp: layout_of_def dest: list_all2_lengthD)
  have pos: "list_all (\<lambda>n. 0 \<le> n) ss"
    using lo(1) sealed_size_bound by (fastforce simp: layout_of_def list_all_length list_all2_conv_all_nth)
  let ?c = "\<lparr>csrc = body, cdek = dek, clayout = L, cidx = 0, ccur = None, cerr = None\<rparr>"
  obtain r where r: "open_part dek L 0 body = Inr r" "c = ?c\<lparr>csrc := skip_part L 0 body, ccur := Some r\<rparr>"
    using c(1) chain_open_part [of ?c] by (auto simp: NewSegmentChain_def split: sum.splits)
  have "int (length (src_data body)) \<le> sum_list (drop 0 (lSealed L))"
    using assms(3) L(2) lo(3) ss(1) by (auto simp: CheckAgainst_def split: if_splits)
  then have "doneC c"
    using skip_part_done [of body 0 L] r open_part_done [OF r(1)] pos ss lo(2) by (simp add: doneC_def)
  moreover obtain r' where "VerifyFirstD r = (None, r')" "c' = c\<lparr>ccur := Some r'\<rparr>"
    using c(2) r(2) by (auto simp: VerifyFirstC_def split: prod.splits)
  moreover have "doneD r'" if "VerifyFirstD r = (None, r')" for r'
    using that fillD_done [of r] open_part_done [OF r(1)] by (auto simp: VerifyFirstD_def split: if_splits)
  ultimately show ?thesis by (auto simp: doneC_def)
qed

section \<open>Properties\<close>

lemma UnwrapDEK_Inr:
  "UnwrapDEK kp bucket key meta = Inr dek \<longleftrightarrow>
     (\<exists>ad. ObjectAAD (mKeyID meta) bucket key = Inr ad \<and> pUnwrap kp (mKeyID meta) (mWrappedDEK meta) ad = Inr dek)"
  by (auto simp: UnwrapDEK_def split: sum.splits)

text \<open>The part of \<open>Object\<close> after the data key is known.\<close>

definition verify_body :: "Upstream \<Rightarrow> Target \<Rightarrow> Meta \<Rightarrow> bytes \<Rightarrow> ObjectOut \<Rightarrow> countingReader \<Rightarrow> (Result \<times> verr option) option" where
  "verify_body up t meta dek out seen =
     (let res = empty_result\<lparr>rETag := oETag out, rKeyID := mKeyID meta, rMultipart := mMultipart meta\<rparr> in
      if mMultipart meta
      then (case openMultipart up t meta (oContentLength out) (oBody out) dek of
              Inl e \<Rightarrow> Some (res, Some (shortOr e seen (oContentLength out)))
            | Inr (chain, n) \<Rightarrow> copy_discard ReadC unreadC chain out seen (res\<lparr>rParts := n\<rparr>))
      else (case OpenSegment (oBody out) dek meta of
              Inl e \<Rightarrow> Some (res, Some (shortOr e seen (oContentLength out)))
            | Inr (reader, opened) \<Rightarrow>
                (case OpenedSize (oContentLength out) (mLog2ChunkSize opened) of
                   Inl e \<Rightarrow> Some (res, Some (Failure VSize ''ciphertext size'' e))
                 | Inr _ \<Rightarrow> copy_discard ReadD unreadD reader out seen (res\<lparr>rParts := 1\<rparr>))))"

lemma Object_verify_body:
  assumes "GetObject up (tBucket t) (tStored t) = Inr out"
  shows "Object up kp t fallback seen =
    (case Parse (oMetadata out) fallback of
       Inl e \<Rightarrow> Some (empty_result\<lparr>rETag := oETag out\<rparr>,
         Some (if errors_is ErrNotEncrypted e then OtherError e else Failure VMetadata ''object metadata'' e))
     | Inr meta \<Rightarrow>
         (case UnwrapDEK kp (tBucket t) (tIdentity t) meta of
            Inl e \<Rightarrow> Some (empty_result\<lparr>rETag := oETag out, rKeyID := mKeyID meta, rMultipart := mMultipart meta\<rparr>, Some e)
          | Inr dek \<Rightarrow> verify_body up t meta dek out seen))"
  by (simp add: Object_def verify_body_def assms Let_def split: sum.split)

definition verified :: "ObjectOut \<Rightarrow> Meta \<Rightarrow> bytes \<Rightarrow> nat \<Rightarrow> Result" where
  "verified out meta p n = \<lparr>rETag = oETag out, rKeyID = mKeyID meta, rMultipart = mMultipart meta, rParts = n,
     rPlainBytes = length p, rCipherBytes = length (src_data (oBody out))\<rparr>"


lemma verify_body_sound:
  assumes "verify_body up t meta dek out seen = Some (res, None)" and "valid_meta meta"
    and "oContentLength out = int (length (src_data (oBody out)))" and "length (src_data (oBody out)) < 2 ^ 63"
    and "bn seen \<le> length (src_data (oBody out))"
  shows "length dek = 32 \<and> (\<exists>p n. stored_body up t meta dek (src_data (oBody out)) p n \<and> res = verified out meta p n)"
proof (cases "mMultipart meta")
  case True
  have v: "ValidateLog2ChunkSize (mLog2ChunkSize meta) = None" using assms(2) by (simp add: valid_meta_def)
  obtain c n where c: "openMultipart up t meta (int (length (src_data (oBody out)))) (oBody out) dek = Inr (c, n)"
    using assms(1,3) True by (auto simp: verify_body_def Let_def split: sum.splits)
  note inv = openMultipart_inv [OF c]
  have vb: "verify_body up t meta dek out seen = copy_discard ReadC unreadC c out seen (empty_result\<lparr>rETag := oETag out,
      rKeyID := mKeyID meta, rMultipart := mMultipart meta, rParts := n\<rparr>)"
    using True c assms(3) by (simp add: verify_body_def Let_def)
  have e: "outcomeC c = Sentinel EOF"
    using chain.copy_discard_clean [OF _ inv] assms(1) vb by simp
  have r: "outcomeC c = Sentinel EOF" "res = verified out meta (restC c) n"
    using copy_discard_C [of c out seen] openMultipart_done [OF c v] inv e assms(1,5) vb
    by (simp_all add: verified_def empty_result_def)
  from openMultipart_sound [OF c r(1) v] r(2) True show ?thesis
    using LoadManifest_Inr(2) by (auto simp: stored_body_def)
next
  case False
  obtain x opened q where x: "OpenSegment (oBody out) dek meta = Inr (x, opened)"
      "OpenedSize (int (length (src_data (oBody out)))) (mLog2ChunkSize opened) = Inr q"
    using assms(1,3) False by (auto simp: verify_body_def Let_def split: sum.splits)
  note inv = OpenSegment_inv [OF x(1)]
  have vb: "verify_body up t meta dek out seen = copy_discard ReadD unreadD x out seen (empty_result\<lparr>rETag := oETag out,
      rKeyID := mKeyID meta, rMultipart := mMultipart meta, rParts := 1\<rparr>)"
    using False x assms(3) by (simp add: verify_body_def Let_def)
  have e: "outcomeD x = Sentinel EOF"
    using decrypt.copy_discard_clean [OF _ inv] assms(1) vb by simp
  have r: "outcomeD x = Sentinel EOF" "res = verified out meta (restD x) 1"
    using copy_discard_D [of x out seen] OpenSegment_done [OF x(1)] inv e assms(1,5) vb
    by (simp_all add: verified_def empty_result_def)
  obtain h where h: "wf_header h" "\<not> Multipart (hparams h)" "Index (hparams h) = 0" "length dek = 32"
      "mHasChunkSize meta \<longrightarrow> Log2ChunkSize (hparams h) = mLog2ChunkSize meta"
      "src_data (oBody out) = seal_segment dek h (restD x)" "mLog2ChunkSize opened = Log2ChunkSize (hparams h)"
    using OpenSegment_sound [OF x(1) r(1) assms(4)] by blast
  have "length (restD x) \<le> 2 ^ 46"
    using OpenedSize_segment_iff [OF h(1), of dek "restD x"] x(2) h(6,7) by auto
  then have "stored_body up t meta dek (src_data (oBody out)) (restD x) 1"
    using h False by (auto simp: stored_body_def)
  then show ?thesis using h(4) r(2) by blast
qed

lemma verify_body_ok:
  assumes "stored_body up t meta dek (src_data (oBody out)) p n" and "valid_meta meta" and "length dek = 32"
    and "src_end (oBody out) = Sentinel EOF" and "oContentLength out = int (length (src_data (oBody out)))"
    and "bn seen \<le> length (src_data (oBody out))"
  shows "verify_body up t meta dek out seen = Some (verified out meta p n, None)"
proof (cases "mMultipart meta")
  case True
  have v: "ValidateLog2ChunkSize (mLog2ChunkSize meta) = None" using assms(2) by (simp add: valid_meta_def)
  obtain m segs where m: "LoadManifest up (tBucket t) (tStored t) (mManifestID meta) dek = Inr m"
      "list_all2 (part_matches (mLog2ChunkSize meta) (HasSalts m)) (Parts m) segs"
      "src_data (oBody out) = seal_segments dek segs" "p = concat (map snd segs)" "n = length (Parts m)"
    using assms(1) True by (auto simp: stored_body_def)
  obtain c where c: "openMultipart up t meta (int (length (src_data (oBody out)))) (oBody out) dek = Inr (c, n)"
      "chain_inv c" "restC c = p" "outcomeC c = Sentinel EOF"
    using openMultipart_ok [OF m(1-3) v] m(4,5) by blast
  then show ?thesis
    using True assms(5) copy_discard_C [OF c(2) openMultipart_done [OF c(1) v], of out seen] openMultipart_inv [OF c(1)] c(3,4) assms(6)
    by (simp add: verify_body_def verified_def empty_result_def Let_def)
next
  case False
  then obtain h where h: "wf_header h" "\<not> Multipart (hparams h)" "Index (hparams h) = 0"
      "mHasChunkSize meta \<longrightarrow> Log2ChunkSize (hparams h) = mLog2ChunkSize meta"
      "src_data (oBody out) = seal_segment dek h p" "length p \<le> 2 ^ 46" "n = 1"
    using assms(1) by (auto simp: stored_body_def)
  have b: "oBody out = \<lparr>src_data = seal_segment dek h p, src_end = Sentinel EOF\<rparr>"
    using h(5) assms(4) by (cases "oBody out") simp
  obtain x where x: "OpenSegment (oBody out) dek meta = Inr (x, meta\<lparr>mLog2ChunkSize := Log2ChunkSize (hparams h)\<rparr>)"
      "readerD_inv x" "restD x = p" "outcomeD x = Sentinel EOF"
    using OpenSegment_ok [OF h(1-3) assms(3) h(4) b] by blast
  obtain q where "OpenedSize (oContentLength out) (Log2ChunkSize (hparams h)) = Inr q"
    using OpenedSize_segment_iff [OF h(1), of dek p] h(5,6) assms(5) by auto
  then show ?thesis
    using False x copy_discard_D [OF x(2) OpenSegment_done [OF x(1)], of out seen] OpenSegment_inv [OF x(1)] h(7) assms(6)
    by (simp add: verify_body_def verified_def empty_result_def Let_def)
qed

text \<open>C17: Verification accepts exactly what the gateway stores. For an object whose announced bytes all
  arrive, \<open>Object\<close> reports success exactly if the metadata parses, the data key unwraps for that bucket
  and that name, and the body is the segment of some plaintext under that key (with the recorded chunk
  size) or, for a multipart object, the segments of the parts of a manifest that verifies for that bucket,
  stored name and id; and then the result carries the number of parts and of plaintext bytes and, however
  far the buffers had read ahead, the number of bytes of the whole body.\<close>

theorem object_exact:
  assumes "GetObject up (tBucket t) (tStored t) = Inr out" and "src_end (oBody out) = Sentinel EOF"
    and "oContentLength out = int (length (src_data (oBody out)))" and "length (src_data (oBody out)) < 2 ^ 63"
    and "counted (oBody out) seen"
  shows "Object up kp t fallback seen = Some (res, None) \<longleftrightarrow>
    (\<exists>meta ad dek p n. Parse (oMetadata out) fallback = Inr meta \<and>
       ObjectAAD (mKeyID meta) (tBucket t) (tIdentity t) = Inr ad \<and>
       pUnwrap kp (mKeyID meta) (mWrappedDEK meta) ad = Inr dek \<and> length dek = 32 \<and>
       stored_body up t meta dek (src_data (oBody out)) p n \<and>
       res = \<lparr>rETag = oETag out, rKeyID = mKeyID meta, rMultipart = mMultipart meta, rParts = n,
              rPlainBytes = length p, rCipherBytes = length (src_data (oBody out))\<rparr>)"
  (is "?l \<longleftrightarrow> ?r")
proof -
  have b: "bn seen \<le> length (src_data (oBody out))" using assms(5) by (simp add: counted_def)
  show ?thesis
  proof
    assume ?l
    then obtain meta dek where m: "Parse (oMetadata out) fallback = Inr meta"
        "UnwrapDEK kp (tBucket t) (tIdentity t) meta = Inr dek" "verify_body up t meta dek out seen = Some (res, None)"
      by (auto simp: Object_verify_body [OF assms(1)] split: sum.splits)
    have "valid_meta meta" using Parse_valid [OF m(1)] by simp
    from verify_body_sound [OF m(3) this assms(3,4) b] m(1,2) show ?r by (auto simp: UnwrapDEK_Inr verified_def)
  next
    assume ?r
    then obtain meta dek p n where m: "Parse (oMetadata out) fallback = Inr meta"
        "UnwrapDEK kp (tBucket t) (tIdentity t) meta = Inr dek" "length dek = 32"
        "stored_body up t meta dek (src_data (oBody out)) p n" "res = verified out meta p n"
      by (auto simp: UnwrapDEK_Inr verified_def)
    have "valid_meta meta" using Parse_valid [OF m(1)] by simp
    from verify_body_ok [OF m(4) this m(3) assms(2,3) b] m show ?l
      by (simp add: Object_verify_body [OF assms(1)])
  qed
qed


text \<open>An object to try it on: one segment under the data key \<open>dek\<close>, wrapped by a keyring.\<close>

definition object_header :: header where
  "object_header = (let sp = \<lparr>Log2ChunkSize = 16, Multipart = False, Index = 0\<rparr> in
     \<lparr>hparams = sp, hsalt = replicate 20 5, raw = header_layout sp (replicate 20 5)\<rparr>)"

definition example_keyring :: Keyring where
  "example_keyring = \<lparr>kactive = ''k1'', keks = [(''k1'', replicate 32 1)], kcreated = [(''k1'', 0)], kaudit = None,
     kname = None, kfreshness = None\<rparr>"

theorem object_exact_witness:
  "\<exists>out. counted (oBody out) \<lparr>bn = 40, beof = False, berr = None\<rparr> \<and> Object \<lparr>GetObject = (\<lambda>_ _. Inr out), NotFound = (\<lambda>_. False)\<rparr> (keyring_provider example_keyring)
     \<lparr>tBucket = ''b'', tIdentity = ''k'', tStored = ''k''\<rparr> 12
       \<lparr>bn = 40, beof = False, berr = None\<rparr> =
   Some (\<lparr>rETag = ''e'', rKeyID = ''k1'', rMultipart = False, rParts = 1, rPlainBytes = 3, rCipherBytes = 51\<rparr>, None)"
proof -
  let ?dek = "replicate 32 (9 :: byte)" and ?t = "\<lparr>tBucket = ''b'', tIdentity = ''k'', tStored = ''k''\<rparr>"
  let ?kp = "keyring_provider example_keyring" and ?seen = "\<lparr>bn = 40, beof = False, berr = None\<rparr>"
  have kid: "ValidateKID ''k1'' = None" by code_simp
  obtain ad where ad: "ObjectAAD ''k1'' ''b'' ''k'' = Inr ad" using kid by (auto simp: ObjectAAD_Inr)
  obtain w where w: "pWrap ?kp (Inr (replicate 12 3)) ''k1'' ?dek ad = Inr w"
    by (auto simp: keyring_provider_def example_keyring_def Wrap_def lookup_def sealKey_Inr simp del: replicate.simps)
  have un: "pUnwrap ?kp ''k1'' w ad = Inr ?dek" "length w = 60"
    using keyring.unwrap_wrap [OF w] keyring.wrap_length [OF w] by simp_all
  let ?meta = "\<lparr>mVersion = 1, mKeyID = ''k1'', mWrappedDEK = w, mLog2ChunkSize = 16, mHasChunkSize = True,
    mManifestID = replicate 16 0, mMultipart = False\<rparr>"
  let ?out = "\<lparr>oETag = ''e'', oMetadata = Headers ?meta, oContentLength = 51,
    oBody = \<lparr>src_data = seal_segment ?dek object_header [1, 2, 3], src_end = Sentinel EOF\<rparr>\<rparr>"
  have wf: "wf_header object_header"
    by (simp add: object_header_def wf_header_def Validate_def ValidateLog2ChunkSize_def validateIdentity_def Let_def)
  have v: "valid_meta ?meta" using un(2) kid by (simp add: valid_meta_def ValidateLog2ChunkSize_def del: replicate.simps)
  have pm: "Parse (Headers ?meta) 12 = Inr ?meta" by (rule Parse_carried [OF v _ carries_self]) simp
  have len: "length (seal_segment ?dek object_header [1, 2, 3]) = 51"
    using length_seal_from [of "chunkSize object_header" "[1, 2, 3]"] wf
    by (simp add: seal_segment_def object_header_def chunkSize_def seal_from.simps Let_def del: replicate.simps)
  have "stored_body \<lparr>GetObject = (\<lambda>_ _. Inr ?out), NotFound = (\<lambda>_. False)\<rparr> ?t ?meta ?dek (src_data (oBody ?out)) [1, 2, 3] 1"
    using wf by (auto simp: stored_body_def object_header_def Let_def simp del: replicate.simps)
  moreover have cnt: "counted (oBody ?out) ?seen" using len by (simp add: counted_def del: replicate.simps)
  ultimately have "Object \<lparr>GetObject = (\<lambda>_ _. Inr ?out), NotFound = (\<lambda>_. False)\<rparr> ?kp ?t 12 ?seen =
      Some (\<lparr>rETag = ''e'', rKeyID = ''k1'', rMultipart = False, rParts = 1, rPlainBytes = 3, rCipherBytes = 51\<rparr>, None)"
    using object_exact [of "\<lparr>GetObject = (\<lambda>_ _. Inr ?out), NotFound = (\<lambda>_. False)\<rparr>" ?t ?out ?seen ?kp 12
        "\<lparr>rETag = ''e'', rKeyID = ''k1'', rMultipart = False, rParts = 1, rPlainBytes = 3, rCipherBytes = 51\<rparr>"] pm ad un len
    by (simp del: replicate.simps) (intro exI [of _ "[1, 2, 3]"], simp del: replicate.simps)
  then show ?thesis using cnt by (intro exI [of _ ?out]) (simp only:)
qed


text \<open>The transfer broke off, or delivered all that was announced.\<close>

definition dropped :: "ObjectOut \<Rightarrow> countingReader \<Rightarrow> bool" where
  "dropped out seen \<longleftrightarrow> (case berr seen of Some x \<Rightarrow> \<not> errors_is EOF x | None \<Rightarrow> False) \<or>
     beof seen \<and> 0 \<le> oContentLength out \<and> int (bn seen) < oContentLength out"

definition complete :: "ObjectOut \<Rightarrow> bool" where
  "complete out \<longleftrightarrow> src_end (oBody out) = Sentinel EOF \<and> oContentLength out = int (length (src_data (oBody out)))"

lemma shortOr_dropped: "dropped out seen \<Longrightarrow> shortOr e seen (oContentLength out) \<noteq> Failure k c x"
  by (cases e) (auto simp: shortOr_def dropped_def AsFailure_def split: option.splits if_splits)

lemma shortOr_complete:
  "complete out \<Longrightarrow> counted (oBody out) seen \<Longrightarrow> shortOr e seen (oContentLength out) = e"
  by (auto simp: shortOr_def complete_def counted_def split: option.splits if_splits)

context byte_reader
begin

lemma copy_discard_outcome:
  assumes "inv s \<and> length (rest s) \<le> length (src_data (oBody out))"
  shows "\<exists>res' e. copy_discard read unread s out seen res = Some (res', e) \<and> rETag res' = rETag res \<and>
    (dropped out seen \<longrightarrow> (\<forall>k c x. e \<noteq> Some (Failure k c x))) \<and>
    (complete out \<and> counted (oBody out) seen \<and> counted (oBody out) seen' \<longrightarrow>
      (\<exists>res''. copy_discard read unread s out seen' res = Some (res'', e)))"
proof -
  have i: "inv s" "length (rest s) \<le> length (src_data (oBody out))" using assms by auto
  from copy_discard_rest [OF i, of unread seen res] obtain a where
    a: "copy_discard read unread s out seen res = Some (res\<lparr>rPlainBytes := length (rest s), rCipherBytes := a\<rparr>,
      if outcome s = Sentinel EOF then None
      else case streamKind (outcome s) of
             Some k \<Rightarrow> Some (shortOr (Failure k ''stream'' (outcome s)) seen (oContentLength out))
           | None \<Rightarrow> Some (OtherError (outcome s)))" by blast
  from copy_discard_rest [OF i, of unread seen' res] obtain b where
    "copy_discard read unread s out seen' res = Some (res\<lparr>rPlainBytes := length (rest s), rCipherBytes := b\<rparr>,
      if outcome s = Sentinel EOF then None
      else case streamKind (outcome s) of
             Some k \<Rightarrow> Some (shortOr (Failure k ''stream'' (outcome s)) seen' (oContentLength out))
           | None \<Rightarrow> Some (OtherError (outcome s)))" by blast
  with a show ?thesis by (auto simp: shortOr_dropped shortOr_complete split: option.splits)
qed

end

lemma verify_body_outcome:
  "\<exists>res e. verify_body up t meta dek out seen = Some (res, e) \<and> rETag res = oETag out \<and>
     (dropped out seen \<longrightarrow> (\<forall>k c x. e = Some (Failure k c x) \<longrightarrow> c = ''ciphertext size'')) \<and>
     (complete out \<and> counted (oBody out) seen \<and> counted (oBody out) seen' \<longrightarrow>
        (\<exists>res'. verify_body up t meta dek out seen' = Some (res', e)))"
proof (cases "mMultipart meta")
  case True
  show ?thesis
  proof (cases "openMultipart up t meta (oContentLength out) (oBody out) dek")
    case (Inl e)
    then show ?thesis
      using True shortOr_complete by (auto simp: verify_body_def empty_result_def Let_def shortOr_dropped)
  next
    case (Inr y)
    obtain c n where y: "y = (c, n)" by (cases y)
    from chain.copy_discard_outcome [OF openMultipart_inv [OF Inr [unfolded y]]] True Inr y show ?thesis
      by (fastforce simp: verify_body_def empty_result_def Let_def)
  qed
next
  case False
  show ?thesis
  proof (cases "OpenSegment (oBody out) dek meta")
    case (Inl e)
    then show ?thesis
      using False shortOr_complete by (auto simp: verify_body_def empty_result_def Let_def shortOr_dropped)
  next
    case (Inr y)
    obtain r opened where y: "y = (r, opened)" by (cases y)
    from decrypt.copy_discard_outcome [OF OpenSegment_inv [OF Inr [unfolded y]]] False Inr y show ?thesis
      by (fastforce simp: verify_body_def empty_result_def Let_def split: sum.splits)
  qed
qed

text \<open>C35: \<open>Object\<close> always returns, and never mistakes a broken transfer for a damaged object. When the body
  ended early or with a transport error that the reader has seen, the only failures it reports are about
  the metadata, the data key or the announced size; and for a body that arrived completely the verdict is
  the same however far the segment readers have read ahead.\<close>

theorem object_outcome:
  assumes "GetObject up (tBucket t) (tStored t) = Inr out"
  shows "\<exists>res e. Object up kp t fallback seen = Some (res, e) \<and> rETag res = oETag out \<and>
     (dropped out seen \<longrightarrow> (\<forall>k c x. e = Some (Failure k c x) \<longrightarrow>
        k \<in> {VMetadata, VUnknownKID, VDEKUnwrap} \<or> c = ''ciphertext size'')) \<and>
     (complete out \<and> counted (oBody out) seen \<and> counted (oBody out) seen' \<longrightarrow>
        (\<exists>res'. Object up kp t fallback seen' = Some (res', e)))"
proof (cases "Parse (oMetadata out) fallback")
  case (Inl e)
  then show ?thesis by (auto simp: Object_verify_body [OF assms] empty_result_def)
next
  case (Inr meta)
  show ?thesis
  proof (cases "UnwrapDEK kp (tBucket t) (tIdentity t) meta")
    case (Inl e)
    moreover have "e = Failure k c x \<Longrightarrow> k \<in> {VMetadata, VUnknownKID, VDEKUnwrap}" for k c x
      using Inl by (auto simp: UnwrapDEK_def split: sum.splits if_splits)
    ultimately show ?thesis using Inr by (auto simp: Object_verify_body [OF assms] empty_result_def)
  next
    case (Inr dek)
    with \<open>Parse (oMetadata out) fallback = Inr meta\<close> verify_body_outcome [of up t meta dek out seen seen']
    show ?thesis by (simp add: Object_verify_body [OF assms]) blast
  qed
qed

theorem object_outcome_witness:
  "\<exists>res e. Object \<lparr>GetObject = (\<lambda>_ _. Inr \<lparr>oETag = ''e'', oMetadata = [(''bb-dek'', ''x'')], oContentLength = 9,
       oBody = \<lparr>src_data = [], src_end = Sentinel EOF\<rparr>\<rparr>), NotFound = (\<lambda>_. False)\<rparr>
     (keyring_provider example_keyring) \<lparr>tBucket = ''b'', tIdentity = ''k'', tStored = ''k''\<rparr> 12
     \<lparr>bn = 0, beof = True, berr = None\<rparr> = Some (res, e) \<and> rETag res = ''e'' \<and> (\<forall>x. e \<noteq> Some (Failure VChunk ''stream'' x))"
proof -
  let ?out = "\<lparr>oETag = ''e'', oMetadata = [(''bb-dek'', ''x'')], oContentLength = 9,
       oBody = \<lparr>src_data = [], src_end = Sentinel EOF\<rparr>\<rparr>"
  let ?up = "\<lparr>GetObject = (\<lambda>_ _. Inr ?out), NotFound = (\<lambda>_. False)\<rparr>" and ?seen = "\<lparr>bn = 0, beof = True, berr = None\<rparr>"
  have g: "GetObject ?up (tBucket \<lparr>tBucket = ''b'', tIdentity = ''k'', tStored = ''k''\<rparr>)
      (tStored \<lparr>tBucket = ''b'', tIdentity = ''k'', tStored = ''k''\<rparr>) = Inr ?out" by simp
  have d: "dropped ?out ?seen" by (simp add: dropped_def)
  from object_outcome [OF g, of "keyring_provider example_keyring" 12 ?seen ?seen] d show ?thesis
    by (elim exE conjE) (intro exI conjI, assumption, simp, auto)
qed

end
