(* ===== verification/ProxyRange.thy ===== *)
theory ProxyRange
  imports VerifyLayout ObjectMeta
begin

text \<open>
  The range path of the proxy for multipart objects, \<open>internal/proxy/multipartget.go\<close> and \<open>parseRange\<close> of
  \<open>object.go\<close>: parsing of the \<open>Range\<close> header, the plan of the parts a range touches, the ciphertext run that
  is fetched for it, and \<open>rangeChain\<close>, the reader that decrypts the run part by part. The chain interprets
  \<open>byte_reader\<close>; on an intact object it delivers the range of the concatenated plaintexts
  (\<open>range_chain_intact\<close>), which the handler of \<open>GatewayRead\<close> sends.
\<close>

section \<open>The Range header\<close>

text \<open>The two fields around the hyphen, white space removed.\<close>

definition range_fields :: "int \<Rightarrow> string \<Rightarrow> string \<Rightarrow> (int \<times> int) result" where
  "range_fields sz lo hi =
     (if lo = '''' \<and> hi = '''' then Inl (Errorf ''range %q names no bytes'' [Sentinel ErrInvalidRange])
      else if lo = '''' then
        (case Atoi hi of
           Inl _ \<Rightarrow> Inl (Errorf ''suffix length %q is not a positive number'' [Sentinel ErrInvalidRange])
         | Inr n \<Rightarrow>
             if n \<le> 0
             then Inl (Errorf ''suffix length %q is not a positive number'' [Sentinel ErrInvalidRange])
             else let n = (if n > sz then sz else n) in Inr (sub64 sz n, sub64 sz 1))
      else if hi = '''' then
        (case Atoi lo of
           Inl _ \<Rightarrow> Inl (Errorf ''offset %q is not a number'' [Sentinel ErrInvalidRange])
         | Inr start \<Rightarrow>
             if start < 0 then Inl (Errorf ''offset %q is not a number'' [Sentinel ErrInvalidRange])
             else if start \<ge> sz then Inl (Sentinel ErrInvalidRange)
             else Inr (start, sub64 sz 1))
      else
        (case (Atoi lo, Atoi hi) of
           (Inr start, Inr e) \<Rightarrow>
             if start < 0 \<or> e < start then Inl (Errorf ''range %q is malformed'' [Sentinel ErrInvalidRange])
             else if start \<ge> sz then Inl (Sentinel ErrInvalidRange)
             else Inr (start, if e \<ge> sz then sub64 sz 1 else e)
         | _ \<Rightarrow> Inl (Errorf ''range %q is malformed'' [Sentinel ErrInvalidRange])))"

definition parseRange :: "string \<Rightarrow> int \<Rightarrow> (int \<times> int) result" where
  "parseRange spec sz =
     (case CutPrefix (TrimSpace spec) ''bytes='' of
        None \<Rightarrow> Inl (Errorf ''range unit is not bytes'' [Sentinel ErrInvalidRange])
      | Some value \<Rightarrow>
          if CHR '','' \<in> set value
          then Inl (Errorf ''multiple ranges in one request are not supported'' [Sentinel ErrNotImplemented])
          else (case cut (CHR ''-'') value of
            None \<Rightarrow> Inl (Errorf ''range %q is malformed'' [Sentinel ErrInvalidRange])
          | Some (a, b) \<Rightarrow> range_fields sz (TrimSpace a) (TrimSpace b)))"

lemma digits_plain:
  assumes "list_all is_digit s"
  shows "list_all visible s" "CHR ''-'' \<notin> set s" "CHR '','' \<notin> set s"
proof -
  show "list_all visible s" using assms by (auto simp: list_all_iff is_digit_def visible_def)
  show "CHR ''-'' \<notin> set s" "CHR '','' \<notin> set s" using assms by (auto simp: list_all_iff is_digit_def)
qed

lemma parseRange_fields:
  assumes "list_all is_digit lo" and "list_all is_digit hi"
  shows "parseRange (''bytes='' @ lo @ ''-'' @ hi) sz = range_fields sz lo hi"
proof -
  note d = digits_plain [OF assms(1)] digits_plain [OF assms(2)]
  have "list_all visible (''bytes='' @ lo @ ''-'' @ hi)"
    using d(1,4) by (simp only: list_all_append) (simp add: visible_def)
  note t = TrimSpace_visible [OF this]
  have "CutPrefix (TrimSpace (''bytes='' @ lo @ ''-'' @ hi)) ''bytes='' = Some (lo @ ''-'' @ hi)"
    unfolding t CutPrefix_def starts_with_def by simp
  moreover have "cut (CHR ''-'') (lo @ ''-'' @ hi) = Some (lo, hi)"
    using cut_append [OF d(2), of hi] by simp
  ultimately show ?thesis using d by (simp add: parseRange_def TrimSpace_visible)
qed

section \<open>Sizes\<close>

definition partCountFromETag :: "string \<Rightarrow> int option" where
  "partCountFromETag etag =
     (case cut (CHR ''-'') (trim (CHR 0x22) etag) of
        None \<Rightarrow> None
      | Some (_, sfx) \<Rightarrow>
          (case Atoi sfx of
             Inl _ \<Rightarrow> None
           | Inr count \<Rightarrow> if count < 1 \<or> count > int MaxParts then None else Some count))"

definition plainSize :: "int \<Rightarrow> string \<Rightarrow> Meta \<Rightarrow> int result" where
  "plainSize cipherLen etag meta =
     (if \<not> mMultipart meta then OpenedSize cipherLen (mLog2ChunkSize meta)
      else case partCountFromETag etag of
        None \<Rightarrow> Inl (Errorf ''object names a manifest but its ETag %q carries no part count'' [])
      | Some segments \<Rightarrow> OpenedSizeSegments cipherLen (mLog2ChunkSize meta) segments)"

section \<open>The plan\<close>

record rangeSpan =
  sindex :: nat
  srng :: Range
  headerSeparate :: bool
  rawHeader :: "bytes option"

fun plan_loop :: "Layout \<Rightarrow> int \<Rightarrow> int \<Rightarrow> nat list \<Rightarrow> rangeSpan list result" where
  "plan_loop l start endp [] = Inr []"
| "plan_loop l start endp (i # is) =
     (let s = sub64 start (lPlainStart l ! i);
          localStart = (if s < 0 then 0 else s);
          e = sub64 endp (lPlainStart l ! i);
          localEnd = (if e > sub64 (PlainSize (lParts l ! i)) 1 then sub64 (PlainSize (lParts l ! i)) 1 else e)
      in ebind (MapRange localStart localEnd (lSealed l ! i) (lLog2C l)) (\<lambda>rng.
         ebind (plan_loop l start endp is) (\<lambda>spans.
           Inr (\<lparr>sindex = i, srng = rng, headerSeparate = NeedsSeparateHeader rng, rawHeader = None\<rparr> # spans))))"

definition planRange :: "Layout \<Rightarrow> int \<Rightarrow> int \<Rightarrow> rangeSpan list result" where
  "planRange l start endp =
     (if start < 0 \<or> endp < start \<or> start \<ge> lTotalPlain l then Inl (Sentinel ErrRangeNotSatisfiable)
      else let e = (if endp \<ge> lTotalPlain l then sub64 (lTotalPlain l) 1 else endp)
           in plan_loop l start e [Locate l start..<Suc (Locate l e)])"

definition bodyRange :: "Layout \<Rightarrow> rangeSpan list \<Rightarrow> int \<times> int" where
  "bodyRange l spans =
     (let f = hd spans; t = List.last spans;
          start = lCipherStart l ! sindex f
      in (if headerSeparate f then add64 start (CipherStart (srng f)) else start,
          add64 (lCipherStart l ! sindex t) (CipherEnd (srng t))))"

definition rangeLength :: "rangeSpan list \<Rightarrow> int" where
  "rangeLength spans = foldl (\<lambda>sz s. add64 sz (RLength (srng s))) 0 spans"

section \<open>The chain\<close>

text \<open>
  As for \<open>SegmentChain\<close>, \<open>xsrc\<close> is the fetched ciphertext behind the current part's chunks: the part's reader
  gets them through a \<open>LimitReader\<close> of exactly their size, and has consumed all of them once it has emitted
  the bytes of its range.
\<close>

record rangeChain =
  xsrc :: source
  xdek :: bytes
  xlayout :: Layout
  xspans :: "rangeSpan list"
  xidx :: nat
  xcur :: "RangeReader option"
  xerr :: "err option"

definition span_header :: "rangeSpan \<Rightarrow> source \<Rightarrow> bytes result \<times> source" where
  "span_header span src =
     (case rawHeader span of
        Some h \<Rightarrow> (Inr h, src)
      | None \<Rightarrow>
          (case read_full HeaderSize src of
             (_, Some e, s) \<Rightarrow> (Inl (Errorf ''%w: reading the header of part %d: %w'' [Sentinel ErrVerify, e]), s)
           | (h, None, s) \<Rightarrow> (Inr h, s)))"

definition range_open :: "rangeChain \<Rightarrow> err option \<times> rangeChain" where
  "range_open c =
     (let span = xspans c ! xidx c; part = lParts (xlayout c) ! sindex span in
      case span_header span (xsrc c) of
        (Inl e, s) \<Rightarrow> (Some e, c\<lparr>xsrc := s, xerr := Some e\<rparr>)
      | (Inr header, s) \<Rightarrow>
          (case SaltFromHeader header of
             (_, False) \<Rightarrow>
               (let e = Errorf ''%w: the header of part %d is short'' [Sentinel ErrVerify]
                in (Some e, c\<lparr>xsrc := s, xerr := Some e\<rparr>))
           | (salt, True) \<Rightarrow>
               (case CheckSalt (xlayout c) (sindex span) salt of
                  Some e \<Rightarrow> (Some e, c\<lparr>xsrc := s, xerr := Some e\<rparr>)
                | None \<Rightarrow>
                    (let n = nat (add64 (sub64 (CipherEnd (srng span)) (CipherStart (srng span))) 1);
                         c1 = c\<lparr>xsrc := s\<lparr>src_data := drop n (src_data s)\<rparr>\<rparr>
                     in case NewRangeReader (limit_reader s n) header (xdek c)
                               \<lparr>Log2ChunkSize = lLog2C (xlayout c), Multipart = True, Index = Number part\<rparr>
                               (srng span) of
                          Inl e \<Rightarrow> (Some e, c1\<lparr>xerr := Some e\<rparr>)
                        | Inr reader \<Rightarrow> (None, c1\<lparr>xcur := Some reader\<rparr>)))))"

definition newRangeChain :: "source \<Rightarrow> bytes \<Rightarrow> Layout \<Rightarrow> rangeSpan list \<Rightarrow> rangeChain result" where
  "newRangeChain src dek layout spans =
     (case range_open \<lparr>xsrc = src, xdek = dek, xlayout = layout, xspans = spans, xidx = 0, xcur = None, xerr = None\<rparr> of
        (Some e, _) \<Rightarrow> Inl e
      | (None, c) \<Rightarrow> Inr c)"

definition VerifyFirstX :: "rangeChain \<Rightarrow> err option \<times> rangeChain" where
  "VerifyFirstX c =
     (case xcur c of
        None \<Rightarrow> (xerr c, c)
      | Some r \<Rightarrow> (case VerifyFirstR r of (e, r') \<Rightarrow> (e, c\<lparr>xcur := Some r'\<rparr>)))"

lemma range_open_frame:
  "range_open c = (e, c') \<Longrightarrow> xidx c' = xidx c \<and> xspans c' = xspans c \<and> xdek c' = xdek c \<and> xlayout c' = xlayout c"
  by (auto simp: range_open_def Let_def split: sum.splits option.splits prod.splits bool.splits)

function ReadX :: "nat \<Rightarrow> rangeChain \<Rightarrow> bytes \<times> err option \<times> rangeChain" where
  "ReadX k c =
     (if xerr c \<noteq> None then ([], xerr c, c)
      else case xcur c of
        None \<Rightarrow> ([], Some nil_panic, c)
      | Some cur \<Rightarrow>
          (case ReadR k cur of
             (b, e, cur') \<Rightarrow>
               (if b \<noteq> [] then (b, None, c\<lparr>xcur := Some cur'\<rparr>)
                else case e of
                  None \<Rightarrow> ([], None, c\<lparr>xcur := Some cur'\<rparr>)
                | Some x \<Rightarrow>
                    (if \<not> errors_is EOF x then ([], Some x, c\<lparr>xcur := Some cur', xerr := Some x\<rparr>)
                     else let c1 = c\<lparr>xcur := None, xidx := xidx c + 1\<rparr> in
                       if xidx c1 \<ge> length (xspans c1)
                       then ([], Some (Sentinel EOF), c1\<lparr>xerr := Some (Sentinel EOF)\<rparr>)
                       else case range_open c1 of
                              (Some y, c2) \<Rightarrow> ([], Some y, c2)
                            | (None, c2) \<Rightarrow> ReadX k c2))))"
  by pat_completeness auto
termination
  by (relation "measure (\<lambda>(_, c). length (xspans c) - xidx c)")
    (auto dest: range_open_frame [OF sym])

declare ReadX.simps [simp del]

definition CloseX :: "rangeChain \<Rightarrow> rangeChain" where
  "CloseX c = c\<lparr>xcur := None\<rparr>"


section \<open>What a chain delivers\<close>

text \<open>Opening one span: its reader and the ciphertext behind it.\<close>

definition open_span :: "bytes \<Rightarrow> Layout \<Rightarrow> rangeSpan \<Rightarrow> source \<Rightarrow> (RangeReader \<times> source) result" where
  "open_span dek l span src =
     (case span_header span src of
        (Inl e, _) \<Rightarrow> Inl e
      | (Inr header, s) \<Rightarrow>
          (case SaltFromHeader header of
             (_, False) \<Rightarrow> Inl (Errorf ''%w: the header of part %d is short'' [Sentinel ErrVerify])
           | (salt, True) \<Rightarrow>
               echeck (CheckSalt l (sindex span) salt)
                 (let n = nat (add64 (sub64 (CipherEnd (srng span)) (CipherStart (srng span))) 1)
                  in ebind (NewRangeReader (limit_reader s n) header dek
                              \<lparr>Log2ChunkSize = lLog2C l, Multipart = True, Index = Number (lParts l ! sindex span)\<rparr>
                              (srng span)) (\<lambda>r. Inr (r, s\<lparr>src_data := drop n (src_data s)\<rparr>)))))"

fun spans_from :: "bytes \<Rightarrow> Layout \<Rightarrow> rangeSpan list \<Rightarrow> source \<Rightarrow> bytes \<times> err" where
  "spans_from dek l [] s = ([], Sentinel EOF)"
| "spans_from dek l (span # spans) s =
     (case open_span dek l span s of
        Inl e \<Rightarrow> ([], e)
      | Inr (r, t) \<Rightarrow>
          if outcomeR r = Sentinel EOF
          then (restR r @ fst (spans_from dek l spans t), snd (spans_from dek l spans t))
          else (restR r, outcomeR r))"

definition laterX :: "rangeChain \<Rightarrow> bytes \<times> err" where
  "laterX c = spans_from (xdek c) (xlayout c) (drop (xidx c + 1) (xspans c)) (xsrc c)"

definition restX :: "rangeChain \<Rightarrow> bytes" where
  "restX c =
     (case xcur c of
        None \<Rightarrow> []
      | Some r \<Rightarrow> restR r @ (if outcomeR r = Sentinel EOF then fst (laterX c) else []))"

definition outcomeX :: "rangeChain \<Rightarrow> err" where
  "outcomeX c =
     (case xcur c of
        None \<Rightarrow> nil_panic
      | Some r \<Rightarrow> if outcomeR r = Sentinel EOF then snd (laterX c) else outcomeR r)"

definition rangeX_inv :: "rangeChain \<Rightarrow> bool" where
  "rangeX_inv c \<longleftrightarrow> xerr c = None \<and> (\<exists>r. xcur c = Some r \<and> readerR_inv r) \<and>
     list_all (\<lambda>s. 0 \<le> RLength (srng s)) (xspans c)"

lemma range_step_EOF: "range_step k a c rng i rem skip s = Inl e \<Longrightarrow> \<not> errors_is EOF e"
  by (auto simp: range_step_def open_range_def open_chunk_def chunkErrorf_def Let_def echeck_def ebind_def
      split: prod.splits option.splits if_splits sum.splits)

lemma range_from_EOF:
  "errors_is EOF (snd (range_from k a c rng i rem skip s)) \<Longrightarrow> snd (range_from k a c rng i rem skip s) = Sentinel EOF"
proof (induction k a c rng i rem skip s rule: range_from.induct)
  case (1 k a c rng i rem skip s)
  show ?case
  proof (cases "rem = 0 \<or> (\<exists>e. range_step k a c rng i (int rem) skip s = Inl e)")
    case True
    then show ?thesis using "1.prems" range_step_EOF by (subst range_from.simps) (auto simp: range_from.simps [of k a c rng i rem])
  next
    case False
    then obtain x skip' s' where y: "range_step k a c rng i (int rem) skip s = Inr (x, skip', s')"
      by (metis sum.exhaust prod_cases3)
    have o: "snd (range_from k a c rng i rem skip s) = snd (range_from k a c rng (i + 1) (rem - length x) skip' s')"
      using False y by (subst range_from.simps) simp
    show ?thesis using "1.IH" [OF _ y] False "1.prems" unfolding o by simp
  qed
qed

lemma outcomeR_EOF: "errors_is EOF (outcomeR r) \<longleftrightarrow> outcomeR r = Sentinel EOF"
  using range_from_EOF by (auto simp: outcomeR_def aheadR_def)

lemma range_open_span:
  assumes "xerr c = None"
  shows "case open_span (xdek c) (xlayout c) (xspans c ! xidx c) (xsrc c) of
      Inl e \<Rightarrow> \<exists>c'. range_open c = (Some e, c') \<and> xerr c' = Some e
    | Inr (r, t) \<Rightarrow> range_open c = (None, c\<lparr>xsrc := t, xcur := Some r\<rparr>)"
  by (auto simp: range_open_def open_span_def Let_def ebind_def echeck_def
      split: sum.splits option.splits prod.splits bool.splits)

lemma NewRangeReader_inv:
  assumes "NewRangeReader src hdr dek want rng = Inr r" and "0 \<le> RLength rng"
  shows "readerR_inv r"
  using assms(1)
proof (rule NewRangeReader_Inr, goal_cases)
  case (1 h)
  then show ?case using NewRangeReader_ok [OF 1(1,3-6) assms(2), of src] assms(1) by auto
qed


lemma open_span_inv: "open_span dek l span s = Inr (r, t) \<Longrightarrow> 0 \<le> RLength (srng span) \<Longrightarrow> readerR_inv r"
  by (auto simp: open_span_def result_simps Let_def split: sum.splits prod.splits bool.splits dest: NewRangeReader_inv)

lemma ReadX_step:
  assumes "rangeX_inv c" and "0 < k"
  shows "(\<exists>b c'. ReadX k c = (b, None, c') \<and> b \<noteq> [] \<and> restX c = b @ restX c' \<and>
      outcomeX c' = outcomeX c \<and> rangeX_inv c') \<or>
    (restX c = [] \<and> (\<exists>c'. ReadX k c = ([], Some (outcomeX c), c')))"
  using assms
proof (induction "length (xspans c) - xidx c" arbitrary: c rule: less_induct)
  case less
  from less.prems obtain r where c: "xerr c = None" "xcur c = Some r" "readerR_inv r"
      "list_all (\<lambda>s. 0 \<le> RLength (srng s)) (xspans c)"
    by (auto simp: rangeX_inv_def)
  let ?n = "length (xspans c)"
  show ?case
  proof (cases "restR r = []")
    case False
    then obtain b r' where "ReadR k r = (b, None, r')" "b \<noteq> []" "restR r = b @ restR r'"
        "outcomeR r' = outcomeR r" "readerR_inv r'"
      using range.read_some [OF c(3) less.prems(2)] by blast
    then have "ReadX k c = (b, None, c\<lparr>xcur := Some r'\<rparr>)" "b \<noteq> []" "rangeX_inv (c\<lparr>xcur := Some r'\<rparr>)"
      "restX c = b @ restX (c\<lparr>xcur := Some r'\<rparr>)" "outcomeX (c\<lparr>xcur := Some r'\<rparr>) = outcomeX c"
      using c by (auto simp: ReadX.simps [of k c] rangeX_inv_def restX_def outcomeX_def laterX_def)
    then show ?thesis by blast
  next
    case True
    then obtain r' where r': "ReadR k r = ([], Some (outcomeR r), r')"
      using range.read_none [OF c(3) less.prems(2)] by blast
    define c1 where "c1 = c\<lparr>xcur := None, xidx := xidx c + 1\<rparr>"
    consider (error) "outcomeR r \<noteq> Sentinel EOF"
      | (last) "outcomeR r = Sentinel EOF" "?n \<le> xidx c + 1"
      | (more) "outcomeR r = Sentinel EOF" "xidx c + 1 < ?n" by fastforce
    then show ?thesis
    proof cases
      case error
      then show ?thesis
        using c r' True outcomeR_EOF [of r] by (simp add: ReadX.simps [of k c] restX_def outcomeX_def)
    next
      case last
      then show ?thesis
        using c r' True by (simp add: ReadX.simps [of k c] restX_def outcomeX_def laterX_def)
    next
      case more
      have rd: "ReadX k c = (case range_open c1 of (Some y, c2) \<Rightarrow> ([], Some y, c2) | (None, c2) \<Rightarrow> ReadX k c2)"
        using more c r' by (simp add: ReadX.simps [of k c] c1_def)
      have lt: "laterX c = spans_from (xdek c) (xlayout c) (xspans c ! (xidx c + 1) # drop (xidx c + 2) (xspans c)) (xsrc c)"
        using more(2) Cons_nth_drop_Suc [of "xidx c + 1" "xspans c"] by (simp add: laterX_def)
      note co = range_open_span [of c1]
      show ?thesis
      proof (cases "open_span (xdek c) (xlayout c) (xspans c ! (xidx c + 1)) (xsrc c)")
        case (Inl e)
        with co obtain c2 where "range_open c1 = (Some e, c2)" using c by (auto simp: c1_def)
        then show ?thesis
          using Inl rd lt more c True by (simp add: restX_def outcomeX_def)
      next
        case (Inr y)
        obtain q t where y: "y = (q, t)" by (cases y)
        define c2 where "c2 = c1\<lparr>xsrc := t, xcur := Some q\<rparr>"
        have o2: "range_open c1 = (None, c2)" using co Inr y c by (simp add: c1_def c2_def)
        have "0 \<le> RLength (srng (xspans c ! (xidx c + 1)))" using c(4) more(2) by (simp add: list_all_length)
        then have inv2: "rangeX_inv c2"
          using c open_span_inv [OF Inr [unfolded y]] by (simp add: rangeX_inv_def c1_def c2_def)
        have eq: "restX c = restX c2" "outcomeX c = outcomeX c2"
          using Inr y lt more c True
          by (auto simp: restX_def outcomeX_def c1_def c2_def laterX_def)
        have "?n - (xidx c + 1) < ?n - xidx c" using more(2) by simp
        then show ?thesis
          using less.hyps [of c2] inv2 less.prems(2) rd o2 eq by (simp add: c1_def c2_def)
      qed
    qed
  qed
qed

interpretation range_chain: byte_reader ReadX restX outcomeX rangeX_inv
proof
  fix c :: rangeChain and k :: nat
  assume "rangeX_inv c" "0 < k"
  note st = ReadX_step [OF this]
  show "restX c \<noteq> [] \<Longrightarrow> \<exists>b c'. ReadX k c = (b, None, c') \<and> b \<noteq> [] \<and> restX c = b @ restX c' \<and>
      outcomeX c' = outcomeX c \<and> rangeX_inv c'" using st by blast
  show "restX c = [] \<Longrightarrow> \<exists>c'. ReadX k c = ([], Some (outcomeX c), c')"
    using st by (elim disjE exE conjE) auto
qed

lemma newRangeChain_ok:
  assumes "spans_from dek l spans src = (q, Sentinel EOF)" and "spans \<noteq> []"
    and "list_all (\<lambda>s. 0 \<le> RLength (srng s)) spans" and op: "open_span dek l (hd spans) src = Inr (r, t)"
  shows "\<exists>c. newRangeChain src dek l spans = Inr c \<and> rangeX_inv c \<and> restX c = q \<and> outcomeX c = Sentinel EOF \<and> xcur c = Some r"
proof -
  let ?c = "\<lparr>xsrc = src, xdek = dek, xlayout = l, xspans = spans, xidx = 0, xcur = None, xerr = None\<rparr>"
  have sp: "spans = spans ! 0 # drop 1 spans" using assms(2) by (cases spans) auto
  have r: "open_span dek l (spans ! 0) src = Inr (r, t)" using op assms(2) by (simp add: hd_conv_nth)
  define c where "c = ?c\<lparr>xsrc := t, xcur := Some r\<rparr>"
  have n: "newRangeChain src dek l spans = Inr c"
    using range_open_span [of ?c] r by (simp add: newRangeChain_def c_def)
  have "0 \<le> RLength (srng (spans ! 0))" using assms(2,3) by (cases spans) auto
  then have i: "rangeX_inv c" using open_span_inv [OF r] assms(3) by (simp add: rangeX_inv_def c_def)
  have "(restX c, outcomeX c) = spans_from dek l (spans ! 0 # drop 1 spans) src"
    using r by (auto simp: restX_def outcomeX_def laterX_def c_def)
  then have o: "restX c = q" "outcomeX c = Sentinel EOF" unfolding sp [symmetric] using assms(1) by simp_all
  show ?thesis using n i o by (simp add: c_def)
qed


section \<open>Slices of concatenations\<close>

definition offset :: "'a list list \<Rightarrow> nat \<Rightarrow> nat" where
  "offset xs i = length (concat (take i xs))"

lemma offset_Suc: "i < length xs \<Longrightarrow> offset xs (Suc i) = offset xs i + length (xs ! i)"
  by (simp add: offset_def take_Suc_conv_app_nth)

lemma offset_0 [simp]: "offset xs 0 = 0"
  by (simp add: offset_def)

lemma offset_mono: "i \<le> j \<Longrightarrow> j \<le> length xs \<Longrightarrow> offset xs i \<le> offset xs j"
proof (induction j)
  case (Suc j)
  then show ?case by (cases "i = Suc j") (auto simp: offset_Suc)
qed simp

lemma offset_le: "i < length xs \<Longrightarrow> j \<le> length xs \<Longrightarrow> i < j \<Longrightarrow> offset xs i + length (xs ! i) \<le> offset xs j"
  using offset_mono [of "Suc i" j xs] by (simp add: offset_Suc)

lemma slice_append: "slice a b (xs @ ys) = slice a b xs @ slice (a - length xs) (b - length xs) ys"
proof (cases "a \<le> length xs")
  case True
  then show ?thesis by (cases "b \<le> length xs") (auto simp: slice_def)
next
  case False
  then show ?thesis by (simp add: slice_def diff_diff_eq diff_le_mono2 algebra_simps)
qed

lemma slice_concat: "slice a b (concat xs) = concat (map (\<lambda>i. slice (a - offset xs i) (b - offset xs i) (xs ! i)) [0..<length xs])"
proof (induction xs arbitrary: a b)
  case (Cons x xs)
  have u: "[0..<length (x # xs)] = 0 # map Suc [0..<length xs]"
    by (simp add: map_Suc_upt upt_conv_Cons del: upt_Suc)
  have "offset (x # xs) (Suc i) = length x + offset xs i" for i by (simp add: offset_def)
  then show ?case
    unfolding u using Cons.IH [of "a - length x" "b - length x"]
    by (simp add: slice_append comp_def diff_diff_eq del: upt_Suc)
qed (simp add: slice_def)

text \<open>A slice that begins in list \<open>i\<close> and ends in list \<open>j\<close> touches no other list.\<close>

lemma slice_concat_between:
  assumes "i \<le> j" and "j < length xs" and "offset xs i \<le> a" and "b \<le> offset xs (Suc j)"
  shows "slice a b (concat xs) = concat (map (\<lambda>m. slice (a - offset xs m) (b - offset xs m) (xs ! m)) [i..<Suc j])"
proof -
  let ?f = "\<lambda>m. slice (a - offset xs m) (b - offset xs m) (xs ! m)"
  have "[0..<length xs] = [0..<i] @ [i..<Suc j] @ [Suc j..<length xs]"
  proof -
    have "Suc j + (length xs - Suc j) = length xs" "0 + i + (length xs - i) = length xs" using assms(1,2) by auto
    then show ?thesis
      using upt_add_eq_append [of 0 i "length xs - i"] upt_add_eq_append [of i "Suc j" "length xs - Suc j"] assms(1)
      by (simp del: upt_Suc add_Suc)
  qed
  moreover have "?f m = []" if "m < i" for m
    using offset_le [of m xs i] that assms by (simp add: slice_def)
  then have "concat (map ?f [0..<i]) = []" by auto
  moreover have "?f m = []" if "Suc j \<le> m" "m < length xs" for m
    using offset_mono [of "Suc j" m xs] that assms by (simp add: slice_def)
  then have "concat (map ?f [Suc j..<length xs]) = []" by auto
  ultimately show ?thesis by (simp add: slice_concat del: upt_Suc concat_eq_Nil_conv)
qed


section \<open>A span of an intact part\<close>

lemma MapRange_bounds:
  assumes "OpenedSize (int m) l = Inr (int n)" and "s \<le> e" "e < n"
    and "MapRange (int s) (int e) (int m) l = Inr rng"
  shows "\<exists>a b. CipherStart rng = int a \<and> CipherEnd rng = int b \<and> a \<le> b \<and> b < m \<and> m \<le> 2 ^ 47 \<and>
    RLength rng = int (Suc e - s) \<and> (\<not> NeedsSeparateHeader rng \<longrightarrow> a = 32) \<and> (s = 0 \<longrightarrow> \<not> NeedsSeparateHeader rng) \<and>
    (e = n - 1 \<longrightarrow> Suc b = m)"
proof -
  define c where "c = (2 :: nat) ^ unat l"
  note os = OpenedSize_Inr [OF assms(1)]
  have c0: "0 < c" by (simp add: c_def)
  have cb: "chunk_bytes l = int c" by (simp add: chunk_bytes_def c_def)
  have e: "min e (n - 1) = e" using assms(3) by simp
  have rng: "rng = \<lparr>FirstChunk = word_of_nat (s div c), LastChunk = word_of_nat (e div c),
    CipherStart = int (32 + s div c * (c + 16)), CipherEnd = min (int (32 + Suc (e div c) * (c + 16))) (int m) - 1,
    Skip = int (s mod c), RLength = int (Suc e - s), LastIsFinal = (n \<le> Suc (e div c) * c),
    NeedsSeparateHeader = (0 < s div c)\<rparr>"
    using MapRange_nat [OF assms(1,2)] assms(2-4) unfolding e c_def by simp
  define q where "q = nat (cdiv (int n) (int c))"
  have "cdiv (int n) (int c) \<noteq> 0" using cdiv_iff [of "int c" "int n" 0] c0 assms(3) by auto
  then have q: "cdiv (int n) (int c) = int q" "1 \<le> q"
    using cdiv_nonneg [of "int c" "int n"] c0 by (auto simp: q_def)
  then have qq: "(int q - 1) * int c < int n" "int n \<le> int q * int c"
    using cdiv_iff [of "int c" "int n" "int q"] c0 by auto
  have m: "m = 32 + n + 16 * q" using os q unfolding cb by simp
  have dv: "s div c \<le> e div c" "e div c * c \<le> e" using assms(2) by (auto intro: div_le_mono)
  have "int (e div c) * int c \<le> int e" using dv(2) by (metis of_nat_le_iff of_nat_mult)
  then have "int (e div c) * int c < int q * int c" using qq(2) assms(3) by linarith
  then have eq: "e div c < q" using c0 by (simp add: mult_less_cancel_right)
  then have "e div c * c + 16 * (e div c) < n + 16 * q" using dv(2) assms(3) by linarith
  moreover have "s div c * (c + 16) \<le> e div c * (c + 16)" using dv(1) by (rule mult_le_mono1)
  ultimately have a: "32 + s div c * (c + 16) < m" "s div c * (c + 16) < Suc (e div c) * (c + 16)"
    unfolding m by (simp_all add: algebra_simps)
  let ?b = "min (32 + Suc (e div c) * (c + 16)) m - 1"
  have gen: "min (int x) (int m) - 1 = int (min x m - 1) \<and> y \<le> min x m - 1 \<and> min x m - 1 < m" if "y < x" "y < m" for x y
    using that by linarith
  have b: "CipherEnd rng = int ?b" "32 + s div c * (c + 16) \<le> ?b" "?b < m"
    using gen [of "32 + s div c * (c + 16)" "32 + Suc (e div c) * (c + 16)"] a unfolding rng Range.select_convs by linarith+
  have "Suc ?b = m" if "e = n - 1"
  proof -
    have "int n \<le> int (Suc (e div c)) * int c"
      using that assms(3) dividend_less_div_times [OF c0, of e] by (metis Suc_diff_1 Suc_leI gr_implies_not0 neq0_conv of_nat_le_iff of_nat_mult mult.commute mult_Suc_right add.commute)
    then have "(int q - 1) * int c < int (Suc (e div c)) * int c" using qq(1) by linarith
    then have "q \<le> Suc (e div c)" using c0 by (simp add: mult_less_cancel_right)
    with eq have "q = Suc (e div c)" by simp
    moreover have "n \<le> q * c" using qq(2) by (metis of_nat_le_iff of_nat_mult)
    ultimately have "m \<le> 32 + Suc (e div c) * (c + 16)" unfolding m by (simp add: algebra_simps)
    then show ?thesis using a(1) by simp
  qed
  moreover have "m \<le> 2 ^ 47" using os by simp
  ultimately show ?thesis
    using b by (intro exI [of _ "32 + s div c * (c + 16)"] exI [of _ ?b]) (simp add: rng)
qed


lemma open_span_sealed:
  fixes dek h p
  defines "c \<equiv> seal_segment dek h p"
  assumes m: "part_matches (lLog2C L) (lhasSalts L) (lParts L ! sindex span) (h, p)" and d: "length dek = 32"
    and r: "s \<le> e" "e < length p" "length p \<le> 2 ^ 46"
    and mr: "MapRange (int s) (int e) (int (length c)) (lLog2C L) = Inr (srng span)"
    and hdr: "rawHeader span = None \<and> \<not> NeedsSeparateHeader (srng span) \<and>
        src_data src = take (Suc (nat (CipherEnd (srng span)))) c @ t \<or>
      rawHeader span = Some (raw h) \<and>
        src_data src = slice (nat (CipherStart (srng span))) (Suc (nat (CipherEnd (srng span)))) c @ t"
  shows "\<exists>x. open_span dek L span src = Inr (x, src\<lparr>src_data := t\<rparr>) \<and> restR x = slice s (Suc e) p \<and>
    outcomeR x = Sentinel EOF"
proof -
  let ?w = "\<lparr>Log2ChunkSize = lLog2C L, Multipart = True, Index = Number (lParts L ! sindex span)\<rparr>"
  have wf: "wf_header h" "hparams h = ?w" "lhasSalts L \<longrightarrow> hsalt h = Salt (lParts L ! sindex span)"
    using m by (auto simp: part_matches_def)
  have rp: "requireParams h ?w = None" "validateExpectation ?w = None"
    using wf validateExpectation_Validate [of "hparams h"] by (auto simp: requireParams_self wf_header_def)
  have o: "OpenedSize (int (length c)) (lLog2C L) = Inr (int (length p))"
    using OpenedSize_seal_segment [OF wf(1) r(3), of dek] wf(2) by (simp add: c_def)
  obtain a b where ab: "CipherStart (srng span) = int a" "CipherEnd (srng span) = int b" "a \<le> b" "b < length c"
      "length c \<le> 2 ^ 47" "\<not> NeedsSeparateHeader (srng span) \<longrightarrow> a = 32"
    using MapRange_bounds [OF o r(1,2) mr] by blast
  have rl: "length (raw h) = 32" using wf(1) by (simp add: wf_header_def)
  have c: "take 32 c = raw h" "32 \<le> length c" using rl by (simp_all add: c_def seal_segment_def)
  let ?u = "src\<lparr>src_data := slice a (Suc b) c @ t\<rparr>"
  have sh: "span_header span src = (Inr (raw h), ?u)"
    using hdr
  proof (elim disjE conjE)
    assume "rawHeader span = None" "\<not> NeedsSeparateHeader (srng span)"
      and sd: "src_data src = take (Suc (nat (CipherEnd (srng span)))) c @ t"
    then have h: "rawHeader span = None" "a = 32" and sd: "src_data src = take (Suc b) c @ t" using ab(2,6) by auto
    have "take 32 (take (Suc b) c @ t) = raw h" "drop 32 (take (Suc b) c @ t) = slice 32 (Suc b) c @ t"
      "32 \<le> length (take (Suc b) c @ t)"
      using c ab(3,4) h(2) by (auto simp: slice_def drop_take min_def)
    then show ?thesis by (simp only: span_header_def read_full_def sd h option.case HeaderSize_def if_True prod.case)
  next
    assume "rawHeader span = Some (raw h)"
      "src_data src = slice (nat (CipherStart (srng span))) (Suc (nat (CipherEnd (srng span)))) c @ t"
    then show ?thesis using ab(1,2) by (cases src) (simp add: span_header_def)
  qed
  have n: "nat (add64 (sub64 (CipherEnd (srng span)) (CipherStart (srng span))) 1) = Suc b - a"
  proof -
    have "int b < 2 ^ 47" using ab(4,5) by simp
    then have "sub64 (int b) (int a) = int b - int a" "add64 (int b - int a) 1 = int b - int a + 1"
      using ab(3) by (auto simp: sub64_def add64_def in64_def)
    then show ?thesis using ab(1-3) by simp
  qed
  have sl: "length (slice a (Suc b) c) = Suc b - a" using ab(4) by simp
  have lim: "limit_reader ?u (Suc b - a) = \<lparr>src_data = slice (nat (CipherStart (srng span))) (Suc (nat (CipherEnd (srng span)))) c,
      src_end = Sentinel EOF\<rparr>"
    using sl ab(1,2) by (simp add: limit_reader_def)
  obtain x where x: "NewRangeReader (limit_reader ?u (Suc b - a)) (raw h) dek ?w (srng span) = Inr x"
      "restR x = slice s (Suc e) p" "outcomeR x = Sentinel EOF"
    using NewRangeReader_sealed [OF wf(1) rp(2,1) _ _ o r(1) less_le_trans [OF le_less_trans [OF r(1,2)] order_refl] mr lim
        [unfolded c_def]] d wf(2) by (auto simp: c_def)
  have sa: "SaltFromHeader (raw h) = (hsalt h, True)"
    using raw_fields(1) [OF wf(1), of "[]"] rl by (simp add: SaltFromHeader_def)
  have "CheckSalt L (sindex span) (hsalt h) = None" using wf(3) by (auto simp: CheckSalt_def)
  then have "open_span dek L span src = Inr (x, src\<lparr>src_data := t\<rparr>)"
    using sh sa x(1) sl by (simp add: open_span_def n)
  then show ?thesis using x by blast
qed

text \<open>A list of spans over the bodies of their parts.\<close>

lemma spans_from_sealed:
  assumes "\<And>i src t. i \<in> set is \<Longrightarrow> src_data src = body i @ t \<Longrightarrow>
      \<exists>x. open_span dek L (sp i) src = Inr (x, src\<lparr>src_data := t\<rparr>) \<and> restR x = piece i \<and> outcomeR x = Sentinel EOF"
    and "src_data src = concat (map body is)"
  shows "spans_from dek L (map sp is) src = (concat (map piece is), Sentinel EOF)"
  using assms
proof (induction "is" arbitrary: src)
  case (Cons i "is")
  obtain x where x: "open_span dek L (sp i) src = Inr (x, src\<lparr>src_data := concat (map body is)\<rparr>)" "restR x = piece i"
      "outcomeR x = Sentinel EOF"
    using Cons.prems(1) [of i src "concat (map body is)"] Cons.prems(2) by auto
  moreover have "spans_from dek L (map sp is) (src\<lparr>src_data := concat (map body is)\<rparr>) = (concat (map piece is), Sentinel EOF)"
    by (rule Cons.IH) (use Cons.prems(1) in auto)
  ultimately show ?case by simp
qed simp


section \<open>The first chunk\<close>

lemma VerifyFirstR_cases:
  assumes "NewRangeReader src hdr dek want rng = Inr r" and "0 < RLength rng"
  shows "case VerifyFirstR r of
      (Some e, _) \<Rightarrow> restR r = [] \<and> outcomeR r = e
    | (None, r') \<Rightarrow> readerR_inv r' \<and> restR r' = restR r \<and> outcomeR r' = outcomeR r"
proof -
  have f: "gplain r = []" "gremaining r = RLength rng" "gerr r = None" "gnext r = FirstChunk (grng r)" "\<not> gdone r"
    using assms(1) by (auto simp: NewRangeReader_def result_simps split: if_splits)
  then have v: "VerifyFirstR r = fillR r" by (simp add: VerifyFirstR_def)
  have "readerR_inv r" using NewRangeReader_inv [OF assms(1)] assms(2) by simp
  from this f(1) show ?thesis
    by (rule fillR_cases) (use f(2) assms(2) v in auto)
qed

lemma VerifyFirstX_cases:
  assumes "newRangeChain src dek l spans = Inr c" and "list_all (\<lambda>s. 0 < RLength (srng s)) spans" and "spans \<noteq> []"
  shows "case VerifyFirstX c of
      (Some e, _) \<Rightarrow> (\<exists>r. xcur c = Some r \<and> restR r = [])
    | (None, c') \<Rightarrow> rangeX_inv c' \<and> restX c' = restX c \<and> outcomeX c' = outcomeX c"
proof -
  let ?c = "\<lparr>xsrc = src, xdek = dek, xlayout = l, xspans = spans, xidx = 0, xcur = None, xerr = None\<rparr>"
  obtain r t where r: "open_span dek l (spans ! 0) src = Inr (r, t)" and c: "c = ?c\<lparr>xsrc := t, xcur := Some r\<rparr>"
    using range_open_span [of ?c] assms(1)
    by (cases "open_span dek l (spans ! 0) src") (auto simp: newRangeChain_def)
  obtain u hdr want where n: "NewRangeReader u hdr dek want (srng (spans ! 0)) = Inr r"
    using r by (auto simp: open_span_def result_simps Let_def split: sum.splits prod.splits bool.splits)
  have "0 < RLength (srng (spans ! 0))" "list_all (\<lambda>s. 0 \<le> RLength (srng s)) spans"
    using assms(2,3) by (cases spans; auto simp: list_all_iff)+
  with VerifyFirstR_cases [OF n] show ?thesis
    by (cases "VerifyFirstR r")
      (auto simp: c VerifyFirstX_def rangeX_inv_def restX_def outcomeX_def laterX_def split: option.splits if_splits)
qed

section \<open>The plan of a range\<close>

lemma parseRange_bounds:
  assumes "parseRange spec sz = Inr (a, b)" and "0 < sz" and "sz < 2 ^ 63"
  shows "0 \<le> a \<and> a \<le> b \<and> b < sz"
proof -
  have s: "sub64 sz 1 = sz - 1" "0 < n \<Longrightarrow> n \<le> sz \<Longrightarrow> sub64 sz n = sz - n" for n
    using assms(2,3) by (auto simp: sub64_def in64_def)
  show ?thesis
    using assms(1,2) unfolding parseRange_def range_fields_def Let_def
    by (auto simp: s split: option.splits prod.splits if_splits sum.splits)
qed


text \<open>An intact multipart object: its layout, and for every part the segment the manifest describes.\<close>

definition intact :: "bytes \<Rightarrow> Layout \<Rightarrow> Part list \<Rightarrow> (header \<times> bytes) list \<Rightarrow> bool" where
  "intact dek L ps segs \<longleftrightarrow> length ps \<le> 10000 \<and> length dek = 32 \<and>
     NewLayout ps (lLog2C L) (lhasSalts L) = Inr L \<and> list_all2 (part_matches (lLog2C L) (lhasSalts L)) ps segs"

abbreviation plains :: "(header \<times> bytes) list \<Rightarrow> bytes list" where
  "plains segs \<equiv> map snd segs"

definition ciphers :: "bytes \<Rightarrow> (header \<times> bytes) list \<Rightarrow> bytes list" where
  "ciphers dek segs = map (\<lambda>(h, p). seal_segment dek h p) segs"

lemma sum_list_lengths: "sum_list (map (\<lambda>x. int (length x)) xs) = int (length (concat xs))"
  by (induction xs) auto

lemma sum_list_offset: "sum_list (take i (map (\<lambda>x. int (length x)) xs)) = int (offset xs i)"
  by (simp add: offset_def take_map sum_list_lengths)

lemma intact_parts:
  assumes "intact dek L ps segs"
  shows "length segs = length ps" "lParts L = ps" "ps \<noteq> []"
    and "map PlainSize ps = map (\<lambda>x. int (length x)) (plains segs)"
    and "lSealed L = map (\<lambda>x. int (length x)) (ciphers dek segs)"
    and "lPlainStart L = starts 0 (map PlainSize ps)" "lCipherStart L = starts 0 (lSealed L)"
    and "lTotalPlain L = sum_list (map PlainSize ps)"
    and "\<exists>ss. layout_of ps (lLog2C L) (lhasSalts L) ss L"
    and "i < length ps \<Longrightarrow> part_matches (lLog2C L) (lhasSalts L) (ps ! i) (segs ! i)"
    and "i < length ps \<Longrightarrow> length (snd (segs ! i)) \<le> 2 ^ 46"
    and "i < length ps \<Longrightarrow> length (ciphers dek segs ! i) \<le> 2 ^ 48"
proof -
  have a: "length ps \<le> 10000" "NewLayout ps (lLog2C L) (lhasSalts L) = Inr L"
      and m: "list_all2 (part_matches (lLog2C L) (lhasSalts L)) ps segs"
    using assms by (auto simp: intact_def)
  from a(2,1) obtain ss where L: "layout_of ps (lLog2C L) (lhasSalts L) ss L" "ps \<noteq> []" "lTotalCipher L = sum_list ss"
      "lTotalPlain L = sum_list (map PlainSize ps)" "lCipherStart L = starts 0 ss" "lPlainStart L = starts 0 (map PlainSize ps)"
    by (rule NewLayout_layout_of)
  have len: "length segs = length ps" using m by (auto dest: list_all2_lengthD)
  have pm: "part_matches (lLog2C L) (lhasSalts L) (ps ! i) (segs ! i)" if "i < length ps" for i
    using m that by (rule list_all2_nthD)
  have ss: "length ss = length ps" "i < length ps \<Longrightarrow> SealedSize (PlainSize (ps ! i)) (lLog2C L) = Inr (ss ! i)" for i
    using L(1) by (auto simp: layout_of_def dest: list_all2_lengthD list_all2_nthD)
  have sl: "ss ! i = int (length (ciphers dek segs ! i))" if "i < length ps" for i
    using matches_length [of "lLog2C L" "lhasSalts L" "ps ! i" "fst (segs ! i)" "snd (segs ! i)"] pm [OF that] ss(2) [OF that] that len
    by (simp add: ciphers_def split_beta)
  show "length segs = length ps" "ps \<noteq> []" "lPlainStart L = starts 0 (map PlainSize ps)"
    "lTotalPlain L = sum_list (map PlainSize ps)" "\<exists>ss. layout_of ps (lLog2C L) (lhasSalts L) ss L"
    using len L by blast+
  show "lParts L = ps" "lCipherStart L = starts 0 (lSealed L)" using L(1,5) by (simp_all add: layout_of_def)
  show "map PlainSize ps = map (\<lambda>x. int (length x)) (plains segs)"
    using len pm by (intro nth_equalityI) (auto simp: part_matches_def)
  show "lSealed L = map (\<lambda>x. int (length x)) (ciphers dek segs)"
    using L(1) len ss sl by (intro nth_equalityI) (auto simp: layout_of_def ciphers_def)
  assume i: "i < length ps"
  show "part_matches (lLog2C L) (lhasSalts L) (ps ! i) (segs ! i)" using pm [OF i] .
  have "int (length (snd (segs ! i))) \<le> 2 ^ 46" "int (length (ciphers dek segs ! i)) \<le> 2 ^ 48"
    using sealed_size_bound [OF ss(2) [OF i]] pm [OF i] sl [OF i] by (auto simp: part_matches_def)
  then show "length (snd (segs ! i)) \<le> 2 ^ 46" "length (ciphers dek segs ! i) \<le> 2 ^ 48" by simp_all
qed

lemma intact_offsets:
  assumes "intact dek L ps segs"
  shows "i < length ps \<Longrightarrow> lPlainStart L ! i = int (offset (plains segs) i)"
    and "i < length ps \<Longrightarrow> lCipherStart L ! i = int (offset (ciphers dek segs) i)"
    and "lTotalPlain L = int (length (concat (plains segs)))"
    and "length (concat (plains segs)) < 2 ^ 62" "length (concat (ciphers dek segs)) < 2 ^ 62"
proof -
  note I = intact_parts [OF assms]
  show "lPlainStart L ! i = int (offset (plains segs) i)" if "i < length ps"
    using that I(1) unfolding I(6) I(4) by (simp only: nth_starts length_map sum_list_offset add_0)
  show "lCipherStart L ! i = int (offset (ciphers dek segs) i)" if "i < length ps"
  proof -
    have "length (ciphers dek segs) = length ps" using I(1) by (simp add: ciphers_def)
    then show ?thesis using that unfolding I(7) I(5) by (simp only: nth_starts length_map sum_list_offset add_0)
  qed
  show "lTotalPlain L = int (length (concat (plains segs)))" unfolding I(8) I(4) by (rule sum_list_lengths)
  have b: "length (concat xs) \<le> length xs * 2 ^ 48" if "\<forall>i<length xs. length (xs ! i) \<le> 2 ^ 48" for xs :: "bytes list"
    using that
  proof (induction xs)
    case (Cons x xs)
    have "\<forall>i<length xs. length (xs ! i) \<le> 2 ^ 48" using Cons.prems by (metis Suc_less_eq length_Cons nth_Cons_Suc)
    moreover have "length x \<le> 2 ^ 48" using Cons.prems by (metis length_Cons nth_Cons_0 zero_less_Suc)
    ultimately show ?case using Cons.IH by simp
  qed simp
  have n: "length ps * 2 ^ 48 < 2 ^ 62" using assms by (simp add: intact_def)
  have "length (concat (plains segs)) \<le> length segs * 2 ^ 48"
    using b [of "plains segs"] I(1,11) by fastforce
  then show "length (concat (plains segs)) < 2 ^ 62" using n I(1) by simp
  have "length (concat (ciphers dek segs)) \<le> length segs * 2 ^ 48"
    using b [of "ciphers dek segs"] I(1,12) by (simp add: ciphers_def)
  then show "length (concat (ciphers dek segs)) < 2 ^ 62" using n I(1) by simp
qed


text \<open>The local range of part \<open>m\<close>, and the span \<open>planRange\<close> makes for it.\<close>

definition local_end :: "bytes list \<Rightarrow> nat \<Rightarrow> nat \<Rightarrow> nat" where
  "local_end xs e m = min (e - offset xs m) (length (xs ! m) - 1)"

definition span_at :: "(nat \<Rightarrow> Range) \<Rightarrow> nat \<Rightarrow> rangeSpan" where
  "span_at R m = \<lparr>sindex = m, srng = R m, headerSeparate = NeedsSeparateHeader (R m), rawHeader = None\<rparr>"

lemma plan_loop_intact:
  assumes I: "intact dek L ps segs" and e: "e < length (concat (plains segs))" and s: "s \<le> e"
    and "\<And>m. m \<in> set is \<Longrightarrow> m < length ps \<and> offset (plains segs) m \<le> e \<and> plains segs ! m \<noteq> [] \<and>
      MapRange (int (s - offset (plains segs) m)) (int (local_end (plains segs) e m)) (int (length (ciphers dek segs ! m)))
        (lLog2C L) = Inr (R m)"
  shows "plan_loop L (int s) (int e) is = Inr (map (span_at R) is)"
  using assms(4)
proof (induction "is")
  case (Cons m "is")
  let ?P = "plains segs" and ?C = "ciphers dek segs"
  note o = intact_offsets [OF I] and p = intact_parts [OF I]
  have m: "m < length ps" "offset ?P m \<le> e" "?P ! m \<noteq> []"
      "MapRange (int (s - offset ?P m)) (int (local_end ?P e m)) (int (length (?C ! m))) (lLog2C L) = Inr (R m)"
    using Cons.prems [of m] by auto
  have b: "int s < 2 ^ 62" "int e < 2 ^ 62" "int (offset ?P m) < 2 ^ 62" "int (length (?P ! m)) \<le> 2 ^ 46"
    using e s o(4) m(2) p(1) p(11) [OF m(1)] m(1) by auto
  have sz: "lPlainStart L ! m = int (offset ?P m)" "PlainSize (lParts L ! m) = int (length (?P ! m))"
      "lSealed L ! m = int (length (?C ! m))"
    using o(1) [OF m(1)] p(1,2) m(1) arg_cong [OF p(4), of "\<lambda>xs. xs ! m"] by (simp_all add: p(5) ciphers_def)
  have u: "sub64 (int s) (int (offset ?P m)) = int s - int (offset ?P m)"
    "sub64 (int e) (int (offset ?P m)) = int e - int (offset ?P m)"
    "sub64 (int (length (?P ! m))) 1 = int (length (?P ! m)) - 1"
    using b by (auto simp: sub64_def in64_def)
  have ls: "(if int s - int (offset ?P m) < 0 then 0 else int s - int (offset ?P m)) = int (s - offset ?P m)" by simp
  have ls': "(if int e - int (offset ?P m) > int (length (?P ! m)) - 1 then int (length (?P ! m)) - 1
      else int e - int (offset ?P m)) = int (local_end ?P e m)"
    using m(2,3) by (cases "?P ! m") (auto simp: local_end_def min_def of_nat_diff)
  have "plan_loop L (int s) (int e) is = Inr (map (span_at R) is)" using Cons.IH Cons.prems by simp
  then show ?case
    unfolding plan_loop.simps Let_def sz u ls ls' m(4) by (simp add: span_at_def)
qed simp

lemma planRange_intact:
  assumes I: "intact dek L ps segs" and ne: "list_all (\<lambda>p. 0 < PlainSize p) (butlast ps)"
    and s: "s \<le> e" "e < length (concat (plains segs))"
  obtains i j R where "i \<le> j" "j < length ps" "offset (plains segs) i \<le> s" "e < offset (plains segs) (Suc j)"
    "planRange L (int s) (int e) = Inr (map (span_at R) [i..<Suc j])"
    "\<And>m. i \<le> m \<Longrightarrow> m \<le> j \<Longrightarrow> offset (plains segs) m \<le> e \<and> s - offset (plains segs) m \<le> local_end (plains segs) e m \<and>
      local_end (plains segs) e m < length (plains segs ! m) \<and> (m < j \<longrightarrow> local_end (plains segs) e m = length (plains segs ! m) - 1) \<and>
      MapRange (int (s - offset (plains segs) m)) (int (local_end (plains segs) e m)) (int (length (ciphers dek segs ! m)))
        (lLog2C L) = Inr (R m)"
    "\<And>m. i < m \<Longrightarrow> m \<le> j \<Longrightarrow> s \<le> offset (plains segs) m"
proof -
  let ?P = "plains segs" and ?C = "ciphers dek segs"
  note o = intact_offsets [OF I] and p = intact_parts [OF I]
  obtain ss where lo: "layout_of ps (lLog2C L) (lhasSalts L) ss L" using p(9) by blast
  define i j where "i = Locate L (int s)" and "j = Locate L (int e)"
  have len: "length ?P = length ps" using p(1) by simp
  have pz: "PlainSize (ps ! m) = int (length (?P ! m))" if "m < length ps" for m
    using arg_cong [OF p(4), of "\<lambda>xs. xs ! m"] that len by simp
  have loc: "Locate L (int x) < length ps \<and> offset ?P (Locate L (int x)) \<le> x \<and> x < offset ?P (Suc (Locate L (int x)))"
    if "x < length (concat ?P)" for x
    using Locate_part [OF lo p(3,8,6), of "int x"] that o(1) [of "Locate L (int x)"] o(3) pz len by (auto simp: offset_Suc)
  have li: "i < length ps" "offset ?P i \<le> s" "s < offset ?P (Suc i)" and lj: "j < length ps" "offset ?P j \<le> e" "e < offset ?P (Suc j)"
    using loc [of s] loc [of e] s by (auto simp: i_def j_def)
  have ij: "i \<le> j"
  proof (rule ccontr)
    assume "\<not> i \<le> j"
    then have "offset ?P (Suc j) \<le> offset ?P i" using li(1) len by (intro offset_mono) auto
    then show False using li(2) lj(3) s(1) by linarith
  qed
  have mid: "offset ?P m \<le> e \<and> s - offset ?P m < length (?P ! m) \<and> (m < j \<longrightarrow> e - offset ?P m \<ge> length (?P ! m))"
    if m: "i \<le> m" "m \<le> j" for m
  proof -
    have "offset ?P m \<le> offset ?P j" using m lj(1) len by (intro offset_mono) auto
    moreover have "0 < length (?P ! m)"
    proof (cases "m = j")
      case True
      have "offset ?P (Suc j) = offset ?P j + length (?P ! j)" using lj(1) len by (simp add: offset_Suc)
      then show ?thesis unfolding True using lj(2,3) by linarith
    next
      case False
      then have "m < length (butlast ps)" using m lj(1) by simp
      then have "0 < PlainSize (butlast ps ! m)" using ne by (simp add: list_all_length)
      then show ?thesis using pz [of m] m lj(1) False by (simp add: nth_butlast)
    qed
    moreover have "s - offset ?P m < length (?P ! m)"
    proof (cases "m = i")
      case True
      have "offset ?P (Suc i) = offset ?P i + length (?P ! i)" using li(1) len by (simp add: offset_Suc)
      then show ?thesis unfolding True using li(2,3) by linarith
    next
      case False
      then have "offset ?P (Suc i) \<le> offset ?P m" using m lj(1) len by (intro offset_mono) auto
      then show ?thesis using li(3) \<open>0 < length (?P ! m)\<close> by simp
    qed
    moreover have "offset ?P m + length (?P ! m) \<le> offset ?P j" if "m < j"
      using offset_le [of m ?P j] that lj(1) len by simp
    ultimately show ?thesis using lj(2) by auto
  qed
  have le: "s - offset ?P m \<le> local_end ?P e m \<and> local_end ?P e m < length (?P ! m) \<and>
      (m < j \<longrightarrow> local_end ?P e m = length (?P ! m) - 1)" if m: "i \<le> m" "m \<le> j" for m
    using mid [OF m] s(1) by (auto simp: local_end_def)
  have ex: "\<exists>r. MapRange (int (s - offset ?P m)) (int (local_end ?P e m)) (int (length (?C ! m))) (lLog2C L) = Inr r"
    if m: "i \<le> m" "m \<le> j" for m
  proof -
    have ml: "m < length ps" "m < length segs" using m lj(1) p(1) by auto
    have pm: "wf_header (fst (segs ! m))" "Log2ChunkSize (hparams (fst (segs ! m))) = lLog2C L"
      using p(10) [OF ml(1)] by (auto simp: part_matches_def)
    have "OpenedSize (int (length (?C ! m))) (lLog2C L) = Inr (int (length (?P ! m)))"
      using OpenedSize_seal_segment [OF pm(1) p(11) [OF ml(1)], of dek] pm(2) ml(2) by (simp add: ciphers_def split_beta)
    from MapRange_nat [OF this] le [OF m] show ?thesis by (meson le_less_trans)
  qed
  define R where "R m = (SOME r. MapRange (int (s - offset ?P m)) (int (local_end ?P e m)) (int (length (?C ! m))) (lLog2C L) = Inr r)" for m
  have R: "MapRange (int (s - offset ?P m)) (int (local_end ?P e m)) (int (length (?C ! m))) (lLog2C L) = Inr (R m)"
    if "i \<le> m" "m \<le> j" for m
    using someI_ex [OF ex [OF that]] by (simp add: R_def)
  have "plan_loop L (int s) (int e) [i..<Suc j] = Inr (map (span_at R) [i..<Suc j])"
  proof (rule plan_loop_intact [OF I s(2,1)])
    fix m assume "m \<in> set [i..<Suc j]"
    then have m: "i \<le> m" "m \<le> j" by auto
    then show "m < length ps \<and> offset ?P m \<le> e \<and> ?P ! m \<noteq> [] \<and>
        MapRange (int (s - offset ?P m)) (int (local_end ?P e m)) (int (length (?C ! m))) (lLog2C L) = Inr (R m)"
      using R [OF m] mid [OF m] lj(1) by auto
  qed
  then have "planRange L (int s) (int e) = Inr (map (span_at R) [i..<Suc j])"
    using s o(3) by (simp add: planRange_def Let_def i_def j_def del: upt_Suc)
  moreover have "s \<le> offset ?P m" if "i < m" "m \<le> j" for m
    using offset_mono [of "Suc i" m ?P] that li(3) lj(1) len by simp
  ultimately show thesis
    using that [of i j R] ij lj li(2) mid le R by blast
qed


section \<open>The range of an intact object\<close>

text \<open>The ciphertext a span reads from the fetched run, and the plaintext it stands for.\<close>

definition body_at :: "bytes list \<Rightarrow> (nat \<Rightarrow> Range) \<Rightarrow> nat \<Rightarrow> nat \<Rightarrow> bytes" where
  "body_at xs R i m =
     (if m = i \<and> NeedsSeparateHeader (R m)
      then slice (nat (CipherStart (R m))) (Suc (nat (CipherEnd (R m)))) (xs ! m)
      else take (Suc (nat (CipherEnd (R m)))) (xs ! m))"

lemma body_concat:
  assumes "i \<le> j" and "j < length xs"
    and "\<And>m. i \<le> m \<Longrightarrow> m \<le> j \<Longrightarrow> \<exists>a b. CipherStart (R m) = int a \<and> CipherEnd (R m) = int b \<and> a \<le> b \<and> b < length (xs ! m) \<and>
      (m < j \<longrightarrow> Suc b = length (xs ! m))"
  shows "slice (offset xs i + (if NeedsSeparateHeader (R i) then nat (CipherStart (R i)) else 0))
      (Suc (offset xs j + nat (CipherEnd (R j)))) (concat xs) = concat (map (body_at xs R i) [i..<Suc j])"
proof -
  let ?a = "offset xs i + (if NeedsSeparateHeader (R i) then nat (CipherStart (R i)) else 0)"
  let ?b = "Suc (offset xs j + nat (CipherEnd (R j)))"
  obtain ai bi aj bj where i: "CipherStart (R i) = int ai" "ai \<le> bi" "bi < length (xs ! i)"
      and j: "CipherEnd (R j) = int bj" "bj < length (xs ! j)"
    using assms(3) [of i] assms(3) [of j] assms(1) by auto
  have o: "offset xs (Suc j) = offset xs j + length (xs ! j)" using assms(2) by (rule offset_Suc)
  have f: "slice (?a - offset xs m) (?b - offset xs m) (xs ! m) = body_at xs R i m" if m: "i \<le> m" "m \<le> j" for m
  proof -
    obtain b where b: "CipherEnd (R m) = int b" "b < length (xs ! m)" "m < j \<longrightarrow> Suc b = length (xs ! m)"
      using assms(3) [OF m] by auto
    have e: "slice x (?b - offset xs m) (xs ! m) = slice x (Suc b) (xs ! m)" for x
    proof (cases "m = j")
      case True
      then show ?thesis using b(1) by simp
    next
      case False
      then have "offset xs m + length (xs ! m) \<le> offset xs j" using offset_le [of m xs j] m assms(2) by simp
      then have "length (xs ! m) \<le> ?b - offset xs m" by linarith
      then show ?thesis using b(3) m False by (simp add: slice_def)
    qed
    show ?thesis
    proof (cases "m = i")
      case True
      then show ?thesis using b(1) unfolding e by (simp add: body_at_def slice_def)
    next
      case False
      then have "offset xs i + length (xs ! i) \<le> offset xs m" using offset_le [of i xs m] m assms(2) by simp
      then have "?a - offset xs m = 0" using i by simp
      then show ?thesis using False b(1) unfolding e by (simp add: body_at_def slice_def)
    qed
  qed
  have "map (\<lambda>m. slice (?a - offset xs m) (?b - offset xs m) (xs ! m)) [i..<Suc j] = map (body_at xs R i) [i..<Suc j]"
    by (rule map_cong [OF refl], rule f) (auto simp del: upt_Suc)
  moreover have "offset xs i \<le> ?a" "?b \<le> offset xs (Suc j)" using o j by simp_all
  ultimately show ?thesis using slice_concat_between [OF assms(1,2), of ?a ?b] by (simp only:)
qed


lemma piece_concat:
  assumes "i \<le> j" and "j < length xs" and "offset xs i \<le> s" and "e < offset xs (Suc j)"
    and "\<And>m. i \<le> m \<Longrightarrow> m \<le> j \<Longrightarrow> offset xs m \<le> e \<and> local_end xs e m < length (xs ! m)"
  shows "slice s (Suc e) (concat xs) = concat (map (\<lambda>m. slice (s - offset xs m) (Suc (local_end xs e m)) (xs ! m)) [i..<Suc j])"
proof -
  have f: "slice (s - offset xs m) (Suc e - offset xs m) (xs ! m) =
      slice (s - offset xs m) (Suc (local_end xs e m)) (xs ! m)" if "i \<le> m" "m \<le> j" for m
    using assms(5) [OF that] by (auto simp: local_end_def slice_def min_def Suc_diff_le)
  have "map (\<lambda>m. slice (s - offset xs m) (Suc e - offset xs m) (xs ! m)) [i..<Suc j] =
      map (\<lambda>m. slice (s - offset xs m) (Suc (local_end xs e m)) (xs ! m)) [i..<Suc j]"
    by (rule map_cong [OF refl], rule f) (auto simp del: upt_Suc)
  moreover have "Suc e \<le> offset xs (Suc j)" using assms(4) by simp
  ultimately show ?thesis using slice_concat_between [OF assms(1,2,3)] by (simp only:)
qed

text \<open>The spans after the header was fetched: the first one carries it when it starts past its first chunk.\<close>

definition fetched :: "(header \<times> bytes) list \<Rightarrow> (nat \<Rightarrow> Range) \<Rightarrow> nat \<Rightarrow> nat \<Rightarrow> rangeSpan" where
  "fetched segs R i m =
     (if m = i \<and> NeedsSeparateHeader (R m) then (span_at R m)\<lparr>rawHeader := Some (raw (fst (segs ! m)))\<rparr> else span_at R m)"

lemma ciphers_nth: "m < length segs \<Longrightarrow> ciphers dek segs ! m = seal_segment dek (fst (segs ! m)) (snd (segs ! m))"
  by (simp add: ciphers_def split_beta)

lemma header_run:
  assumes I: "intact dek L ps segs" and "i < length ps"
  defines "o' \<equiv> offset (ciphers dek segs) i"
  shows "lCipherStart L ! i = int o'" "sub64 (add64 (int o') (int HeaderSize)) 1 = int (o' + 31)"
    "o' + 31 < length (concat (ciphers dek segs))" "slice o' (Suc (o' + 31)) (concat (ciphers dek segs)) = raw (fst (segs ! i))"
    "length (raw (fst (segs ! i))) = HeaderSize"
proof -
  let ?C = "ciphers dek segs"
  note o = intact_offsets [OF I] and p = intact_parts [OF I]
  have il: "i < length segs" "i < length ?C" using assms(2) p(1) by (simp_all add: ciphers_def)
  have "wf_header (fst (segs ! i))" using p(10) [OF assms(2)] by (auto simp: part_matches_def)
  then show rl: "length (raw (fst (segs ! i))) = HeaderSize" by (simp add: wf_header_def)
  have c: "take 32 (?C ! i) = raw (fst (segs ! i))" "32 \<le> length (?C ! i)"
    using rl il(1) by (simp_all add: ciphers_nth seal_segment_def)
  have on: "o' + length (?C ! i) \<le> length (concat ?C)"
    using offset_le [of i ?C "length ?C"] il(2) by (simp add: offset_def o'_def)
  show "lCipherStart L ! i = int o'" using o(2) [OF assms(2)] by (simp add: o'_def)
  show "o' + 31 < length (concat ?C)" using on c(2) by simp
  show "sub64 (add64 (int o') (int HeaderSize)) 1 = int (o' + 31)"
    using on o(5) c(2) by (simp add: add64_def sub64_def in64_def)
  have "offset ?C (Suc i) = o' + length (?C ! i)" using il(2) by (simp add: offset_Suc o'_def)
  then have "slice o' (Suc (o' + 31)) (concat ?C) = slice 0 32 (?C ! i)"
    using slice_concat_between [of i i ?C o' "Suc (o' + 31)"] il(2) c(2) by (simp add: o'_def)
  then show "slice o' (Suc (o' + 31)) (concat ?C) = raw (fst (segs ! i))" using c(1) by (simp add: slice_def)
qed


lemma rangeLength_pieces:
  assumes "\<And>m. m \<in> set is \<Longrightarrow> RLength (srng (sp m)) = int (length (piece m))" and "int (length (concat (map piece is))) < 2 ^ 62"
  shows "rangeLength (map sp is) = int (length (concat (map piece is)))"
  using assms
proof (induction "is" rule: rev_induct)
  case (snoc m "is")
  have "rangeLength (map sp is) = int (length (concat (map piece is)))" using snoc by simp
  then have "rangeLength (map sp (is @ [m])) = add64 (int (length (concat (map piece is)))) (int (length (piece m)))"
    using snoc.prems(1) [of m] by (simp add: rangeLength_def)
  then show ?case using snoc.prems(2) by (simp add: add64_def in64_def)
qed (simp add: rangeLength_def)

lemma fetched_simps [simp]:
  "sindex (fetched segs R i m) = m" "srng (fetched segs R i m) = R m"
  "headerSeparate (fetched segs R i m) = NeedsSeparateHeader (R m)"
  by (simp_all add: fetched_def span_at_def)

lemma bodyRange_fetched:
  assumes I: "intact dek L ps segs" and ij: "i \<le> j" "j < length ps"
    and "\<And>m. i \<le> m \<Longrightarrow> m \<le> j \<Longrightarrow> \<exists>a b. CipherStart (R m) = int a \<and> CipherEnd (R m) = int b \<and> a \<le> b \<and>
      b < length (ciphers dek segs ! m)"
  defines "xs \<equiv> ciphers dek segs"
  defines "a \<equiv> offset xs i + (if NeedsSeparateHeader (R i) then nat (CipherStart (R i)) else 0)"
    and "b \<equiv> offset xs j + nat (CipherEnd (R j))"
  shows "bodyRange L (map (fetched segs R i) [i..<Suc j]) = (int a, int b) \<and> a \<le> b \<and> b < length (concat xs)"
proof -
  note o = intact_offsets [OF I] and p = intact_parts [OF I]
  have len: "length xs = length ps" using p(1) by (simp add: xs_def ciphers_def)
  obtain ai bi where i: "CipherStart (R i) = int ai" "ai \<le> bi" "CipherEnd (R i) = int bi" "bi < length (xs ! i)"
    using assms(4) [of i] ij by (auto simp: xs_def)
  obtain bj where j: "CipherEnd (R j) = int bj" "bj < length (xs ! j)" using assms(4) [of j] ij by (auto simp: xs_def)
  have l: "hd (map (fetched segs R i) [i..<Suc j]) = fetched segs R i i" "List.last (map (fetched segs R i) [i..<Suc j]) = fetched segs R i j"
    using ij(1) by (simp_all add: hd_map last_map del: upt_Suc)
  have bl: "b < length (concat xs)"
    using offset_le [of j xs "length xs"] j ij(2) len by (simp add: b_def offset_def)
  have ab: "a \<le> b"
  proof (cases "i = j")
    case True
    then show ?thesis using i by (simp add: a_def b_def)
  next
    case False
    then have "offset xs i + length (xs ! i) \<le> offset xs j" using offset_le [of i xs j] ij len by simp
    then show ?thesis using i by (simp add: a_def b_def)
  qed
  have "int b < 2 ^ 62" using bl o(5) by (simp add: xs_def)
  then have "add64 (int (offset xs i)) (int ai) = int (offset xs i + ai)" if "NeedsSeparateHeader (R i)"
    using ab that i by (auto simp: add64_def in64_def a_def)
  moreover have "add64 (int (offset xs j)) (int bj) = int (offset xs j + bj)"
    using \<open>int b < 2 ^ 62\<close> j by (simp add: add64_def in64_def b_def)
  ultimately show ?thesis
    using ab bl i(1) j(1) o(2) [of i] o(2) [of j] ij unfolding bodyRange_def l Let_def
    by (simp add: a_def b_def flip: xs_def)
qed


text \<open>Every span of the plan opens on its body.\<close>

lemma open_fetched:
  assumes I: "intact dek L ps segs" and m: "m < length ps"
    and r: "s \<le> e" "e < length (plains segs ! m)" "m \<noteq> i \<Longrightarrow> s = 0"
    and R: "MapRange (int s) (int e) (int (length (ciphers dek segs ! m))) (lLog2C L) = Inr (R m)"
  shows "\<exists>a b. CipherStart (R m) = int a \<and> CipherEnd (R m) = int b \<and> a \<le> b \<and> b < length (ciphers dek segs ! m) \<and>
      (e = length (plains segs ! m) - 1 \<longrightarrow> Suc b = length (ciphers dek segs ! m))"
    and "RLength (R m) = int (Suc e - s)"
    and "src_data src = body_at (ciphers dek segs) R i m @ t \<Longrightarrow>
      \<exists>x. open_span dek L (fetched segs R i m) src = Inr (x, src\<lparr>src_data := t\<rparr>) \<and>
        restR x = slice s (Suc e) (plains segs ! m) \<and> outcomeR x = Sentinel EOF"
proof -
  note p = intact_parts [OF I]
  obtain h q where seg: "segs ! m = (h, q)" by (cases "segs ! m")
  have ml: "m < length segs" "plains segs ! m = q" "ciphers dek segs ! m = seal_segment dek h q" "length q \<le> 2 ^ 46"
    using m p(1) p(11) [OF m] seg by (simp_all add: ciphers_nth)
  have pm: "part_matches (lLog2C L) (lhasSalts L) (lParts L ! m) (h, q)" using p(10) [OF m] p(2) seg by simp
  then have wf: "wf_header h" "Log2ChunkSize (hparams h) = lLog2C L" by (auto simp: part_matches_def)
  have "OpenedSize (int (length (ciphers dek segs ! m))) (lLog2C L) = Inr (int (length q))"
    using OpenedSize_seal_segment [OF wf(1) ml(4), of dek] wf(2) ml(3) by simp
  note mb = MapRange_bounds [OF this r(1) _ R]
  show "\<exists>a b. CipherStart (R m) = int a \<and> CipherEnd (R m) = int b \<and> a \<le> b \<and> b < length (ciphers dek segs ! m) \<and>
      (e = length (plains segs ! m) - 1 \<longrightarrow> Suc b = length (ciphers dek segs ! m))"
    "RLength (R m) = int (Suc e - s)"
    using mb r(2) ml(2) by blast+
  have z: "m \<noteq> i \<Longrightarrow> \<not> NeedsSeparateHeader (R m)" using mb r ml(2) by blast
  assume d: "src_data src = body_at (ciphers dek segs) R i m @ t"
  have hdr: "rawHeader (fetched segs R i m) = None \<and> \<not> NeedsSeparateHeader (R m) \<and>
      src_data src = take (Suc (nat (CipherEnd (R m)))) (seal_segment dek h q) @ t \<or>
    rawHeader (fetched segs R i m) = Some (raw h) \<and>
      src_data src = slice (nat (CipherStart (R m))) (Suc (nat (CipherEnd (R m)))) (seal_segment dek h q) @ t"
  proof (cases "m = i \<and> NeedsSeparateHeader (R m)")
    case True
    then show ?thesis using d seg ml(3) by (auto simp: fetched_def body_at_def)
  next
    case False
    then show ?thesis using d ml(3) z by (auto simp: fetched_def body_at_def span_at_def)
  qed
  show "\<exists>x. open_span dek L (fetched segs R i m) src = Inr (x, src\<lparr>src_data := t\<rparr>) \<and>
        restR x = slice s (Suc e) (plains segs ! m) \<and> outcomeR x = Sentinel EOF"
    unfolding ml(2) using pm I r(1,2) ml R hdr
    by (intro open_span_sealed) (simp_all add: intact_def)
qed

text \<open>The steps of a range on an intact object: the plan, the header of the first span when the range starts past
  its first chunk, the run that is fetched, and the chain over it.\<close>

lemma range_chain_intact:
  assumes I: "intact dek L ps segs" and ne: "list_all (\<lambda>p. 0 < PlainSize p) (butlast ps)"
    and se: "s \<le> e" "e < length (concat (plains segs))"
  shows "\<exists>sp sps sp' a b c c'. planRange L (int s) (int e) = Inr (sp # sps) \<and>
    (if headerSeparate sp
     then \<exists>x. lCipherStart L ! sindex sp = int x \<and> sub64 (add64 (int x) (int HeaderSize)) 1 = int (x + 31) \<and>
       x + 31 < length (concat (ciphers dek segs)) \<and> length (slice x (Suc (x + 31)) (concat (ciphers dek segs))) = HeaderSize \<and>
       sp' = sp\<lparr>rawHeader := Some (slice x (Suc (x + 31)) (concat (ciphers dek segs)))\<rparr>
     else sp' = sp) \<and>
    bodyRange L (sp' # sps) = (int a, int b) \<and> a \<le> b \<and> b < length (concat (ciphers dek segs)) \<and>
    newRangeChain \<lparr>src_data = slice a (Suc b) (concat (ciphers dek segs)), src_end = Sentinel EOF\<rparr> dek L (sp' # sps) = Inr c \<and>
    VerifyFirstX c = (None, c') \<and> rangeX_inv c' \<and> restX c' = slice s (Suc e) (concat (plains segs)) \<and>
    outcomeX c' = Sentinel EOF \<and> rangeLength (sp' # sps) = int (Suc e - s)"
  using I ne se
proof (rule planRange_intact, goal_cases)
  case (1 i j R)
  let ?P = "plains segs" and ?C = "ciphers dek segs"
  let ?sp = "fetched segs R i" and ?pc = "\<lambda>m. slice (s - offset ?P m) (Suc (local_end ?P e m)) (?P ! m)"
  have len: "length ?P = length ps" "length ?C = length ps" using intact_parts(1) [OF I] by (simp_all add: ciphers_def)
  have m: "m < length ps" "s - offset ?P m \<le> local_end ?P e m" "local_end ?P e m < length (?P ! m)"
      "m \<noteq> i \<Longrightarrow> s - offset ?P m = 0"
      "MapRange (int (s - offset ?P m)) (int (local_end ?P e m)) (int (length (?C ! m))) (lLog2C L) = Inr (R m)"
      "m < j \<Longrightarrow> local_end ?P e m = length (?P ! m) - 1"
    if "i \<le> m" "m \<le> j" for m
    using 1(6) [OF that] 1(7) [of m] that 1(2) by auto
  note of = open_fetched [where R = R and i = i and s = "s - offset ?P m" and e = "local_end ?P e m" and m = m for m]
  have op1: "\<exists>a b. CipherStart (R m) = int a \<and> CipherEnd (R m) = int b \<and> a \<le> b \<and> b < length (?C ! m) \<and>
      (local_end ?P e m = length (?P ! m) - 1 \<longrightarrow> Suc b = length (?C ! m))" if mm: "i \<le> m" "m \<le> j" for m
    by (rule of(1) [OF I m(1-5) [OF mm]])
  have op2: "RLength (R m) = int (Suc (local_end ?P e m) - (s - offset ?P m))" if mm: "i \<le> m" "m \<le> j" for m
    by (rule of(2) [OF I m(1-5) [OF mm]])
  have R: "\<exists>a b. CipherStart (R m) = int a \<and> CipherEnd (R m) = int b \<and> a \<le> b \<and> b < length (?C ! m) \<and>
      (m < j \<longrightarrow> Suc b = length (?C ! m))" if mm: "i \<le> m" "m \<le> j" for m
    using op1 [OF mm] m(6) [OF mm] by blast
  let ?a = "offset ?C i + (if NeedsSeparateHeader (R i) then nat (CipherStart (R i)) else 0)"
    and ?b = "offset ?C j + nat (CipherEnd (R j))"
  have br: "bodyRange L (map ?sp [i..<Suc j]) = (int ?a, int ?b)" "?a \<le> ?b" "?b < length (concat ?C)"
    using bodyRange_fetched [OF I 1(1,2), of R] R by blast+
  define src where "src = \<lparr>src_data = slice ?a (Suc ?b) (concat ?C), src_end = Sentinel EOF\<rparr>"
  have bd: "src_data src = concat (map (body_at ?C R i) [i..<Suc j])"
    unfolding src_def using body_concat [of i j ?C R] 1(1,2) len(2) R by simp
  have op: "\<exists>x. open_span dek L (?sp m) s' = Inr (x, s'\<lparr>src_data := t\<rparr>) \<and> restR x = ?pc m \<and> outcomeR x = Sentinel EOF"
    if "m \<in> set [i..<Suc j]" "src_data s' = body_at ?C R i m @ t" for m s' t
  proof -
    have mm: "i \<le> m" "m \<le> j" using that(1) by auto
    show ?thesis by (rule of(3) [OF I m(1-5) [OF mm] that(2)])
  qed
  have sf: "spans_from dek L (map ?sp [i..<Suc j]) src = (concat (map ?pc [i..<Suc j]), Sentinel EOF)"
    by (rule spans_from_sealed [OF op bd])
  have q: "concat (map ?pc [i..<Suc j]) = slice s (Suc e) (concat ?P)"
    by (rule piece_concat [symmetric]) (use 1 len(1) in auto)
  have ne: "map ?sp [i..<Suc j] \<noteq> []" "[i..<Suc j] = i # [Suc i..<Suc j]" using 1(1) by (simp_all add: upt_conv_Cons del: upt_Suc)
  have rl: "RLength (srng (?sp m)) = int (length (?pc m))" "0 < RLength (srng (?sp m))" if "m \<in> set [i..<Suc j]" for m
    using op2 [of m] m(2,3) [of m] that by (auto simp: slice_def)
  have pos: "list_all (\<lambda>x. 0 < RLength (srng x)) (map ?sp [i..<Suc j])" using rl(2) by (simp add: list_all_iff del: upt_Suc)
  obtain r t where r: "open_span dek L (hd (map ?sp [i..<Suc j])) src = Inr (r, t)" "restR r = ?pc i"
    using op [of i src "concat (map (body_at ?C R i) [Suc i..<Suc j])"] bd 1(1) unfolding ne(2) by (auto simp del: upt_Suc)
  have "list_all (\<lambda>x. 0 \<le> RLength (srng x)) (map ?sp [i..<Suc j])" using pos by (auto simp: list_all_iff)
  from newRangeChain_ok [OF sf ne(1) this r(1)] obtain c where c: "newRangeChain src dek L (map ?sp [i..<Suc j]) = Inr c"
      "restX c = slice s (Suc e) (concat ?P)" "outcomeX c = Sentinel EOF" "xcur c = Some r"
    using q by auto
  have "?pc i \<noteq> []" using rl [of i] 1(1) by fastforce
  then obtain c' where c': "VerifyFirstX c = (None, c')" "rangeX_inv c'" "restX c' = restX c" "outcomeX c' = outcomeX c"
    using VerifyFirstX_cases [OF c(1) pos ne(1)] c(4) r(2) by (cases "VerifyFirstX c") (auto split: option.splits)
  have "length (slice s (Suc e) (concat ?P)) = Suc e - s" using se(2) by simp
  then have l: "rangeLength (map ?sp [i..<Suc j]) = int (Suc e - s)"
    using rangeLength_pieces [of "[i..<Suc j]" ?sp ?pc] rl(1) se(2) intact_offsets(4) [OF I] unfolding q by simp
  have sp: "map ?sp [i..<Suc j] = ?sp i # map (span_at R) [Suc i..<Suc j]"
    unfolding ne(2) by (auto simp: fetched_def simp del: upt_Suc)
  have pl: "planRange L (int s) (int e) = Inr (span_at R i # map (span_at R) [Suc i..<Suc j])"
    using 1(5) unfolding ne(2) by (simp del: upt_Suc)
  note h = header_run [OF I m(1) [OF order_refl 1(1)]]
  have "if headerSeparate (span_at R i)
     then \<exists>x. lCipherStart L ! sindex (span_at R i) = int x \<and> sub64 (add64 (int x) (int HeaderSize)) 1 = int (x + 31) \<and>
       x + 31 < length (concat ?C) \<and> length (slice x (Suc (x + 31)) (concat ?C)) = HeaderSize \<and>
       ?sp i = (span_at R i)\<lparr>rawHeader := Some (slice x (Suc (x + 31)) (concat ?C))\<rparr>
     else ?sp i = span_at R i"
  proof (cases "NeedsSeparateHeader (R i)")
    case True
    have "headerSeparate (span_at R i)" "sindex (span_at R i) = i" using True by (simp_all add: span_at_def)
    moreover have "?sp i = (span_at R i)\<lparr>rawHeader := Some (slice (offset ?C i) (Suc (offset ?C i + 31)) (concat ?C))\<rparr>"
      unfolding h(4) using True by (simp add: fetched_def)
    moreover have "length (slice (offset ?C i) (Suc (offset ?C i + 31)) (concat ?C)) = HeaderSize" unfolding h(4) by (rule h(5))
    ultimately show ?thesis using h(1-3) by metis
  qed (simp add: fetched_def span_at_def)
  then show ?case
    using pl br c(1) c' c(2,3) l unfolding sp src_def by (intro exI conjI) (assumption | simp)+
qed


section \<open>Properties\<close>

text \<open>What a \<open>Range\<close> header means. \<open>bytes=a-b\<close> names the bytes \<open>a\<close> to \<open>b\<close>, cut at the end of the object;
  \<open>bytes=a-\<close> everything from \<open>a\<close>; \<open>bytes=-n\<close> the last \<open>n\<close> bytes, or all of a shorter object. A range that
  begins behind the end is not satisfiable, as is one that ends before it begins.\<close>

theorem range_header_forms:
  assumes "0 < sz" and "in64 sz" and "in64 (int a)" and "in64 (int b)"
  shows "(a \<le> b \<and> int a < sz \<longrightarrow>
      parseRange (''bytes='' @ decimal a @ ''-'' @ decimal b) sz = Inr (int a, min (int b) (sz - 1))) \<and>
    (int a < sz \<longrightarrow> parseRange (''bytes='' @ decimal a @ ''-'') sz = Inr (int a, sz - 1)) \<and>
    (0 < b \<longrightarrow> parseRange (''bytes=-'' @ decimal b) sz = Inr (max 0 (sz - int b), sz - 1)) \<and>
    (sz \<le> int a \<or> b < a \<longrightarrow>
      (\<exists>e. parseRange (''bytes='' @ decimal a @ ''-'' @ decimal b) sz = Inl e \<and> errors_is ErrInvalidRange e))"
proof -
  have s: "sub64 sz 1 = sz - 1" "0 < n \<Longrightarrow> n \<le> sz \<Longrightarrow> sub64 sz n = sz - n" for n
    using assms(1,2) by (auto simp: sub64_def in64_def)
  have d: "list_all is_digit (decimal a)" "list_all is_digit (decimal b)" "decimal a \<noteq> []" "decimal b \<noteq> []"
    using decimal_digits by auto
  have n: "Atoi (decimal a) = Inr (int a)" "Atoi (decimal b) = Inr (int b)"
    using Atoi_Itoa [OF assms(3)] Atoi_Itoa [OF assms(4)] by (simp_all add: Itoa_def)
  note f = parseRange_fields [OF d(1,2)] parseRange_fields [OF d(1), of "[]"] parseRange_fields [OF _ d(2), of "[]"]
  have "a \<le> b \<Longrightarrow> int a < sz \<Longrightarrow>
      parseRange (''bytes='' @ decimal a @ ''-'' @ decimal b) sz = Inr (int a, min (int b) (sz - 1))"
    using f(1) n d s(1) by (simp add: range_fields_def)
  moreover have "int a < sz \<Longrightarrow> parseRange (''bytes='' @ decimal a @ ''-'') sz = Inr (int a, sz - 1)"
    using f(2) n d s(1) by (simp add: range_fields_def)
  moreover have "0 < b \<Longrightarrow> parseRange (''bytes=-'' @ decimal b) sz = Inr (max 0 (sz - int b), sz - 1)"
    using f(3) n d s assms(1) by (simp add: range_fields_def)
  moreover have "sz \<le> int a \<or> b < a \<Longrightarrow>
      \<exists>e. parseRange (''bytes='' @ decimal a @ ''-'' @ decimal b) sz = Inl e \<and> errors_is ErrInvalidRange e"
    using f(1) n d by (auto simp: range_fields_def)
  ultimately show ?thesis by blast
qed

theorem range_header_forms_witness:
  "parseRange (''bytes='' @ decimal 2 @ ''-'' @ decimal 9) 5 = Inr (2, 4) \<and>
   parseRange (''bytes='' @ decimal 2 @ ''-'') 5 = Inr (2, 4) \<and>
   parseRange (''bytes=-'' @ decimal 9) 5 = Inr (0, 4) \<and>
   (\<exists>e. parseRange (''bytes='' @ decimal 7 @ ''-'' @ decimal 9) 5 = Inl e)"
  using range_header_forms [of 5 2 9] range_header_forms [of 5 7 9] by (auto simp: in64_def)

end
