(* ===== verification/Names.thy ===== *)
theory Names
  imports GoCrypto GoEncoding GoStrings "HOL-Library.Sublist"
begin

text \<open>
  \<open>internal/crypto/names\<close>: the deterministic encryption of object keys, segment by segment, with a
  synthetic IV. The lemmas relate the loops of the source to the list of segments, each sealed under
  the plaintext path before it.
\<close>

section \<open>The code\<close>

definition names_KeySize :: nat where [simp]: "names_KeySize = 32"
definition ivSize :: nat where [simp]: "ivSize = 16"
definition MaxStoredKey :: nat where [simp]: "MaxStoredKey = 1024"
definition prfInfo :: string where "prfInfo = ''blindbucket/v1/name-prf''"
definition encInfo :: string where "encInfo = ''blindbucket/v1/name-enc''"

record Encrypter =
  prfKey :: bytes
  encKey :: bytes

definition NewEncrypter :: "bytes \<Rightarrow> Encrypter result" where
  "NewEncrypter nameKey =
     (if length nameKey \<noteq> names_KeySize then Inl (Errorf ''names: name key is %d bytes, want %d'' [])
      else ebind (hkdf_Key nameKey [] prfInfo names_KeySize) (\<lambda>p.
           ebind (hkdf_Key nameKey [] encInfo names_KeySize) (\<lambda>k. Inr \<lparr>prfKey = p, encKey = k\<rparr>)))"

text \<open>The two length bytes hold the low 16 bits of the length.\<close>

definition writeLP :: "string \<Rightarrow> bytes" where
  "writeLP s = be_bytes 2 (length s) @ bytes_of s"

definition syntheticIV :: "Encrypter \<Rightarrow> string \<Rightarrow> string \<Rightarrow> bytes" where
  "syntheticIV e context segment = take ivSize (hmac (prfKey e) (writeLP context @ writeLP segment))"

definition sealSegment :: "Encrypter \<Rightarrow> string \<Rightarrow> string \<Rightarrow> string result" where
  "sealSegment e context segment =
     (let iv = syntheticIV e context segment in
      ebind (aes_NewCipher (encKey e)) (\<lambda>block.
        Inr (b32_EncodeToString (iv @ ctr_XORKeyStream block iv (bytes_of segment)))))"

definition openSegment :: "Encrypter \<Rightarrow> string \<Rightarrow> string \<Rightarrow> string result" where
  "openSegment e context segment =
     (case b32_DecodeString segment of
        Inl _ \<Rightarrow> Inl (Errorf ''%w: segment is not valid base32'' [Sentinel ErrName])
      | Inr dec \<Rightarrow>
          if b32_EncodeToString dec \<noteq> segment
          then Inl (Errorf ''%w: segment is not canonically encoded'' [Sentinel ErrName])
          else if length dec < ivSize
          then Inl (Errorf ''%w: segment is shorter than an IV'' [Sentinel ErrName])
          else ebind (aes_NewCipher (encKey e)) (\<lambda>block.
            let iv = take ivSize dec;
                plain = ctr_XORKeyStream block iv (drop ivSize dec)
            in if iv \<noteq> syntheticIV e context (string_of plain)
               then Inl (Errorf ''%w: segment fails its own check'' [Sentinel ErrName])
               else Inr (string_of plain)))"

fun enc_loop :: "Encrypter \<Rightarrow> string \<Rightarrow> nat \<Rightarrow> string list \<Rightarrow> string list result" where
  "enc_loop e plain offset [] = Inr []"
| "enc_loop e plain offset (segment # segments) =
     ebind (sealSegment e (take offset plain) segment) (\<lambda>sealed.
     ebind (enc_loop e plain (offset + length segment + 1) segments) (\<lambda>out. Inr (sealed # out)))"

definition EncryptKey :: "Encrypter \<Rightarrow> string \<Rightarrow> string result" where
  "EncryptKey e plain =
     (if plain = '''' then Inr ''''
      else ebind (enc_loop e plain 0 (split (CHR ''/'') plain)) (\<lambda>out.
        let stored = join (CHR ''/'') out in
        if length stored > MaxStoredKey
        then Inl (Errorf ''%w: %d bytes encrypts to %d, the maximum is %d'' [Sentinel ErrTooLong])
        else Inr stored))"

text \<open>\<open>plain\<close> is the content of the source's string builder: the path opened so far, with its
  trailing separator.\<close>

fun dec_loop :: "Encrypter \<Rightarrow> string \<Rightarrow> string list \<Rightarrow> string list result" where
  "dec_loop e plain [] = Inr []"
| "dec_loop e plain (segment # segments) =
     ebind (openSegment e plain segment) (\<lambda>opened.
     ebind (dec_loop e (plain @ opened @ ''/'') segments) (\<lambda>out. Inr (opened # out)))"

definition DecryptKey :: "Encrypter \<Rightarrow> string \<Rightarrow> string result" where
  "DecryptKey e stored =
     (if stored = '''' then Inr ''''
      else ebind (dec_loop e '''' (split (CHR ''/'') stored)) (\<lambda>out. Inr (join (CHR ''/'') out)))"

text \<open>\<open>strings.LastIndex(s, c)\<close>, \<open>None\<close> for \<open>-1\<close>.\<close>

fun last_index :: "char \<Rightarrow> string \<Rightarrow> nat option" where
  "last_index c [] = None"
| "last_index c (x # xs) =
     (case last_index c xs of Some i \<Rightarrow> Some (Suc i) | None \<Rightarrow> if x = c then Some 0 else None)"

definition EncryptPrefix :: "Encrypter \<Rightarrow> string \<Rightarrow> (string \<times> bool) result" where
  "EncryptPrefix e pre =
     (if pre = '''' then Inr ('''', True)
      else if List.last pre \<noteq> CHR ''/''
      then (case last_index (CHR ''/'') pre of
              None \<Rightarrow> Inr ('''', False)
            | Some i \<Rightarrow> ebind (EncryptKey e (take i pre)) (\<lambda>encrypted. Inr (encrypted @ ''/'', False)))
      else ebind (EncryptKey e (butlast pre)) (\<lambda>encrypted. Inr (encrypted @ ''/'', True)))"

section \<open>Segments\<close>

definition seal_name :: "Encrypter \<Rightarrow> string \<Rightarrow> string \<Rightarrow> string" where
  "seal_name e context segment =
     (let iv = syntheticIV e context segment
      in b32_EncodeToString (iv @ ctr_XORKeyStream (encKey e) iv (bytes_of segment)))"

text \<open>A path of segments, each sealed under the plaintext path before it.\<close>

fun seal_path :: "Encrypter \<Rightarrow> string \<Rightarrow> string list \<Rightarrow> string list" where
  "seal_path e context [] = []"
| "seal_path e context (x # xs) = seal_name e context x # seal_path e (context @ x @ ''/'') xs"

lemma length_syntheticIV [simp]: "length (syntheticIV e context segment) = 16"
  by (simp add: syntheticIV_def)

lemma sealSegment_eq: "length (encKey e) = 32 \<Longrightarrow> sealSegment e ctx x = Inr (seal_name e ctx x)"
  by (simp add: sealSegment_def seal_name_def Let_def)

lemma openSegment_Inr:
  assumes "length (encKey e) = 32"
  shows "openSegment e ctx s = Inr x \<longleftrightarrow> s = seal_name e ctx x"
proof
  assume "s = seal_name e ctx x"
  then show "openSegment e ctx s = Inr x"
    using assms by (simp add: openSegment_def seal_name_def Let_def)
next
  assume o: "openSegment e ctx s = Inr x"
  then obtain dec where dec: "b32_EncodeToString dec = s" "16 \<le> length dec"
      "x = string_of (ctr_XORKeyStream (encKey e) (take 16 dec) (drop 16 dec))"
      "take 16 dec = syntheticIV e ctx x"
    using assms by (auto simp: openSegment_def Let_def split: sum.splits if_splits)
  have "ctr_XORKeyStream (encKey e) (take 16 dec) (bytes_of x) = drop 16 dec"
    using dec(3) by simp
  then have "dec = syntheticIV e ctx x @ ctr_XORKeyStream (encKey e) (syntheticIV e ctx x) (bytes_of x)"
    using dec(4) append_take_drop_id [of 16 dec] by simp
  then show "s = seal_name e ctx x" using dec(1) by (simp add: seal_name_def Let_def)
qed

lemma length_seal_name: "26 \<le> length (seal_name e ctx x)"
  by (simp add: seal_name_def Let_def length_b32)

lemma seal_name_no_slash: "CHR ''/'' \<notin> set (seal_name e ctx x)"
  using set_b32 alphabet_no_newline(2) [of "CHR ''/''"] by (auto simp: seal_name_def Let_def)

lemma seal_name_inj: "length (encKey e) = 32 \<Longrightarrow> seal_name e ctx x = seal_name e ctx y \<longleftrightarrow> x = y"
  by (metis openSegment_Inr sum.inject(2))

section \<open>Paths\<close>

lemma length_seal_path [simp]: "length (seal_path e ctx xs) = length xs"
  by (induction xs arbitrary: ctx) auto

lemma seal_path_Nil [simp]: "seal_path e ctx xs = [] \<longleftrightarrow> xs = []"
  by (cases xs) auto

lemma seal_path_no_slash: "\<forall>x\<in>set (seal_path e ctx xs). CHR ''/'' \<notin> set x"
  by (induction xs arbitrary: ctx) (auto simp: seal_name_no_slash)

lemma seal_path_append:
  "seal_path e ctx (xs @ ys) = seal_path e ctx xs @ seal_path e (ctx @ concat (map (\<lambda>x. x @ ''/'') xs)) ys"
  by (induction xs arbitrary: ctx) auto

lemma seal_path_inj:
  "length (encKey e) = 32 \<Longrightarrow> seal_path e ctx xs = seal_path e ctx ys \<Longrightarrow> xs = ys"
proof (induction xs arbitrary: ctx ys)
  case Nil
  then show ?case by (metis seal_path_Nil seal_path.simps(1))
next
  case (Cons x xs)
  then obtain y ys' where ys: "ys = y # ys'" by (cases ys) auto
  with Cons show ?case by (auto simp: seal_name_inj)
qed

lemma take_seal_path: "take n (seal_path e ctx xs) = seal_path e ctx (take n xs)"
proof (induction xs arbitrary: ctx n)
  case (Cons x xs)
  then show ?case by (cases n) auto
qed simp

lemma enc_loop_eq:
  assumes "length (encKey e) = 32" and "plain = ctx @ join (CHR ''/'') xs"
  shows "enc_loop e plain (length ctx) xs = Inr (seal_path e ctx xs)"
  using assms(2)
proof (induction xs arbitrary: ctx)
  case (Cons x xs)
  have "enc_loop e plain (length (ctx @ x @ ''/'')) xs = Inr (seal_path e (ctx @ x @ ''/'') xs)"
  proof (cases xs)
    case (Cons y ys)
    then show ?thesis
      using Cons.prems by (intro Cons.IH) simp
  qed simp
  then show ?case
    using Cons.prems assms(1) by (simp add: sealSegment_eq)
qed simp

lemma dec_loop_Inr:
  "length (encKey e) = 32 \<Longrightarrow> dec_loop e ctx xs = Inr ps \<longleftrightarrow> xs = seal_path e ctx ps"
proof (induction xs arbitrary: ctx ps)
  case Nil
  then show ?case by (cases ps) auto
next
  case (Cons x xs)
  then show ?case by (cases ps) (auto simp: result_simps openSegment_Inr)
qed

abbreviation sealed_key :: "Encrypter \<Rightarrow> string \<Rightarrow> string" where
  "sealed_key e plain \<equiv> join (CHR ''/'') (seal_path e '''' (split (CHR ''/'') plain))"

lemma EncryptKey_Inr:
  assumes "length (encKey e) = 32"
  shows "EncryptKey e p = Inr s \<longleftrightarrow>
    (if p = '''' then s = '''' else s = sealed_key e p \<and> length s \<le> 1024)"
  using enc_loop_eq [OF assms, of p "''''" "split (CHR ''/'') p"]
  by (auto simp: EncryptKey_def Let_def split: if_splits)

lemma split_sealed_key: "split (CHR ''/'') (sealed_key e p) = seal_path e '''' (split (CHR ''/'') p)"
  using seal_path_no_slash by (intro split_join) auto

lemma sealed_key_not_Nil: "sealed_key e p \<noteq> ''''"
proof
  assume "sealed_key e p = ''''"
  then have "seal_path e '''' (split (CHR ''/'') p) = [[]]"
    using split_sealed_key [of e p] by simp
  then show False
    using length_seal_name [of e "''''"]
    by (cases "split (CHR ''/'') p") (auto simp del: split.simps, metis list.size(3) not_numeral_le_zero)
qed

lemma NewEncrypter_Inr: "NewEncrypter nk = Inr e \<Longrightarrow> length (encKey e) = 32"
  by (auto simp: NewEncrypter_def split: if_splits)

lemma DecryptKey_Inr:
  assumes "length (encKey e) = 32" and "s \<noteq> ''''"
  shows "DecryptKey e s = Inr p \<longleftrightarrow> (\<exists>ps. split (CHR ''/'') s = seal_path e '''' ps \<and> p = join (CHR ''/'') ps)"
  using assms by (auto simp: DecryptKey_def result_simps dec_loop_Inr)

lemma join_append:
  "xs \<noteq> [] \<Longrightarrow> ys \<noteq> [] \<Longrightarrow> join c (xs @ ys) = join c xs @ c # join c ys"
proof (induction xs)
  case (Cons x xs)
  then show ?case by (cases "xs = []") (simp_all add: join_Cons)
qed simp

lemma last_index_append: "c \<notin> set t \<Longrightarrow> last_index c (q @ c # t) = Some (length q)"
proof (induction q)
  case Nil
  then have "last_index c t = None" by (induction t) auto
  then show ?case by simp
qed simp

lemma EncryptPrefix_eq:
  assumes "CHR ''/'' \<notin> set t"
  shows "EncryptPrefix e (q @ ''/'' @ t) = ebind (EncryptKey e q) (\<lambda>s. Inr (s @ ''/'', t = ''''))"
proof (cases "t = ''''")
  case False
  then have "List.last t \<in> set t" by simp
  then have "List.last t \<noteq> CHR ''/''" using assms by metis
  with False have "List.last (q @ ''/'' @ t) \<noteq> CHR ''/''" by simp
  then show ?thesis using False last_index_append [OF assms, of q] by (simp add: EncryptPrefix_def)
qed (simp add: EncryptPrefix_def butlast_append)

text \<open>Which stored keys lie under a sealed directory.\<close>

lemma sealed_prefix:
  assumes "length (encKey e) = 32"
  shows "prefix (sealed_key e q @ ''/'') (sealed_key e k) \<longleftrightarrow> prefix (q @ ''/'') k"
proof
  let ?c = "CHR ''/''"
  assume "prefix (q @ ''/'') k"
  then obtain r where k: "k = q @ ?c # r" by (auto simp: prefix_def)
  have "sealed_key e k = sealed_key e q @ ?c #
      join ?c (seal_path e (concat (map (\<lambda>x. x @ ''/'') (split ?c q))) (split ?c r))"
    by (simp add: k split_append seal_path_append join_append)
  then show "prefix (sealed_key e q @ ''/'') (sealed_key e k)" by simp
next
  let ?c = "CHR ''/''" and ?n = "length (split (CHR ''/'') q)"
  assume "prefix (sealed_key e q @ ''/'') (sealed_key e k)"
  then obtain r where s: "sealed_key e k = sealed_key e q @ ?c # r" by (auto simp: prefix_def)
  have sp: "seal_path e '''' (split ?c k) = seal_path e '''' (split ?c q) @ split ?c r"
    using arg_cong [OF s, of "split ?c"] unfolding split_append split_sealed_key .
  then have "seal_path e '''' (take ?n (split ?c k)) = seal_path e '''' (split ?c q)"
    using take_seal_path [of ?n e "''''" "split ?c k"] by simp
  then have t: "take ?n (split ?c k) = split ?c q" by (rule seal_path_inj [OF assms])
  have "length (split ?c k) = ?n + length (split ?c r)"
    using arg_cong [OF sp, of length] by simp
  then have "drop ?n (split ?c k) \<noteq> []" by (cases "split ?c r") auto
  then have "join ?c (split ?c q @ drop ?n (split ?c k)) = q @ ?c # join ?c (drop ?n (split ?c k))"
    by (simp add: join_append)
  moreover have "split ?c q @ drop ?n (split ?c k) = split ?c k" by (metis t append_take_drop_id)
  ultimately show "prefix (q @ ''/'') k" by (metis append.assoc append_Cons append_Nil join_split prefixI)
qed

section \<open>Properties\<close>

text \<open>C39: Object names come back, and no two names collide. For every name key: what \<open>EncryptKey\<close> makes of an
  object key decrypts to that key; two object keys with the same stored key are equal; and a key that
  cannot be stored is refused with \<open>ErrTooLong\<close>, never truncated.\<close>

theorem names_roundtrip:
  assumes "NewEncrypter nk = Inr e"
  shows "(EncryptKey e p = Inr s \<longrightarrow> DecryptKey e s = Inr p \<and> length s \<le> 1024) \<and>
    (EncryptKey e p = Inr s \<and> EncryptKey e q = Inr s \<longrightarrow> p = q) \<and>
    (is_ok (EncryptKey e p) \<or> (\<exists>x. EncryptKey e p = Inl x \<and> errors_is ErrTooLong x))"
proof -
  note k = NewEncrypter_Inr [OF assms]
  have rt: "DecryptKey e s = Inr p \<and> length s \<le> 1024" if "EncryptKey e p = Inr s" for p
  proof (cases "p = ''''")
    case True
    then show ?thesis using that k by (simp add: EncryptKey_Inr DecryptKey_def)
  next
    case False
    then have s: "s = sealed_key e p" "length s \<le> 1024" using that EncryptKey_Inr [OF k] by auto
    then have "s \<noteq> ''''" using sealed_key_not_Nil by metis
    with s split_sealed_key [of e p] k show ?thesis
      by (auto simp: DecryptKey_Inr intro!: exI [of _ "split (CHR ''/'') p"])
  qed
  have "is_ok (EncryptKey e p) \<or> (\<exists>x. EncryptKey e p = Inl x \<and> errors_is ErrTooLong x)"
    using enc_loop_eq [OF k, of p "''''" "split (CHR ''/'') p"] by (auto simp: EncryptKey_def Let_def)
  then show ?thesis using rt [of p] rt [of q] by auto
qed

theorem names_roundtrip_witness:
  "\<exists>e s. NewEncrypter (replicate 32 5) = Inr e \<and> EncryptKey e ''a/b'' = Inr s \<and> DecryptKey e s = Inr ''a/b''"
proof -
  obtain e where e: "NewEncrypter (replicate 32 5) = Inr e" by (simp add: NewEncrypter_def del: replicate.simps)
  note k = NewEncrypter_Inr [OF e]
  have "length (sealed_key e ''a/b'') = 57" by (simp add: seal_name_def Let_def length_b32)
  then have s: "EncryptKey e ''a/b'' = Inr (sealed_key e ''a/b'')"
    using k by (simp add: EncryptKey_Inr del: split.simps seal_path.simps join.simps)
  with names_roundtrip [OF e, of "''a/b''"] e show ?thesis by blast
qed

text \<open>Stored keys are canonical. A stored key of permitted length that decrypts to a non-empty object key
  with as many separators is the one \<open>EncryptKey\<close> produces: no second spelling of it is accepted, so a
  listing cannot show one object twice.\<close>

theorem names_canonical:
  assumes "NewEncrypter nk = Inr e" and "DecryptKey e s = Inr p" and "p \<noteq> ''''" and "length s \<le> 1024"
    and "count_list p (CHR ''/'') = count_list s (CHR ''/'')"
  shows "EncryptKey e p = Inr s"
proof -
  let ?c = "CHR ''/''"
  note k = NewEncrypter_Inr [OF assms(1)]
  have "s \<noteq> ''''" using assms(2,3) by (auto simp: DecryptKey_def)
  then obtain ps where ps: "split ?c s = seal_path e '''' ps" "p = join ?c ps"
    using assms(2) k by (auto simp: DecryptKey_Inr)
  have ne: "ps \<noteq> []" using ps(1) by (metis seal_path.simps(1) split_not_Nil)
  have "length ps = Suc (count_list s ?c)" using arg_cong [OF ps(1), of length] by (simp add: length_split)
  then have "sum_list (map (\<lambda>x. count_list x ?c) ps) = 0"
    using count_list_join [OF ne, of ?c] ps(2) assms(5) by simp
  then have "\<forall>x\<in>set ps. ?c \<notin> set x" by (auto simp: count_list_0_iff)
  then have "split ?c p = ps" using ne ps(2) by (simp add: split_join)
  then have "sealed_key e p = s" using ps(1) by (metis join_split)
  then show ?thesis using k assms(3,4) by (simp add: EncryptKey_Inr)
qed

theorem names_canonical_witness:
  "\<exists>e s. NewEncrypter (replicate 32 5) = Inr e \<and> DecryptKey e s = Inr ''a'' \<and> EncryptKey e ''a'' = Inr s"
proof -
  obtain e where e: "NewEncrypter (replicate 32 5) = Inr e" by (simp add: NewEncrypter_def del: replicate.simps)
  note k = NewEncrypter_Inr [OF e]
  let ?s = "seal_name e '''' ''a''"
  have len: "length ?s = 28" by (simp add: seal_name_def Let_def length_b32)
  then have "?s \<noteq> ''''" by auto
  then have d: "DecryptKey e ?s = Inr ''a''"
    using k split_no_sep [OF seal_name_no_slash [of e "''''" "''a''"]]
    by (auto simp: DecryptKey_Inr intro!: exI [of _ "[''a'']"])
  have "count_list ?s (CHR ''/'') = 0" using seal_name_no_slash [of e "''''" "''a''"] by (simp add: count_list_0_iff)
  with names_canonical [OF e d] len e d show ?thesis by auto
qed

text \<open>Listing by prefix. For a prefix whose directory part \<open>q\<close> is not empty (the prefix is \<open>q\<close>, a separator
  and a partial name \<open>t\<close>), \<open>EncryptPrefix\<close> reports whether it ends on a segment boundary, and a stored key
  begins with the encrypted prefix exactly if its object key lies in that directory: a listing of it is
  complete, and for a whole prefix it needs no filtering.\<close>

theorem names_prefix:
  assumes "NewEncrypter nk = Inr e" and "EncryptKey e k = Inr s" and "k \<noteq> ''''" and "q \<noteq> ''''"
    and "CHR ''/'' \<notin> set t" and "EncryptPrefix e (q @ ''/'' @ t) = Inr (st, whole)"
  shows "(whole \<longleftrightarrow> t = '''') \<and> (prefix st s \<longleftrightarrow> prefix (q @ ''/'') k)"
proof -
  note kl = NewEncrypter_Inr [OF assms(1)]
  have s: "s = sealed_key e k" using assms(2,3) kl by (simp add: EncryptKey_Inr)
  have "st = sealed_key e q @ ''/''" "whole \<longleftrightarrow> t = ''''"
    using assms(4,6) kl unfolding EncryptPrefix_eq [OF assms(5)] by (auto simp: result_simps EncryptKey_Inr)
  with sealed_prefix [OF kl, of q k] s show ?thesis by simp
qed

theorem names_prefix_witness:
  "\<exists>e s st. NewEncrypter (replicate 32 5) = Inr e \<and> EncryptKey e ''a/b'' = Inr s \<and>
     EncryptPrefix e ''a/'' = Inr (st, True) \<and> prefix st s"
proof -
  obtain e where e: "NewEncrypter (replicate 32 5) = Inr e" by (simp add: NewEncrypter_def del: replicate.simps)
  note k = NewEncrypter_Inr [OF e]
  have "length (sealed_key e ''a/b'') = 57" "length (sealed_key e ''a'') = 28"
    by (simp_all add: seal_name_def Let_def length_b32)
  then have s: "EncryptKey e ''a/b'' = Inr (sealed_key e ''a/b'')" "EncryptKey e ''a'' = Inr (sealed_key e ''a'')"
    using k by (simp_all add: EncryptKey_Inr del: split.simps seal_path.simps join.simps)
  then have p: "EncryptPrefix e (''a'' @ ''/'' @ '''') = Inr (sealed_key e ''a'' @ ''/'', True)"
    using EncryptPrefix_eq [of "''''" e "''a''"] by simp
  have "prefix (''a'' @ ''/'') ''a/b''" by simp
  with names_prefix [OF e s(1) _ _ _ p] p e s(1) show ?thesis by auto
qed

text \<open>The exception to it: for keys that begin with a separator, the prefix \<open>"/"\<close> encrypts to \<open>"/"\<close> and is
  reported as whole, but no stored key begins with a separator, so a listing with that prefix misses
  every such object.\<close>

theorem names_root_prefix:
  assumes "NewEncrypter nk = Inr e" and "EncryptKey e (''/'' @ r) = Inr s"
  shows "EncryptPrefix e ''/'' = Inr (''/'', True) \<and> \<not> prefix ''/'' s"
proof -
  note k = NewEncrypter_Inr [OF assms(1)]
  have "s = sealed_key e (''/'' @ r)" using assms(2) k by (simp add: EncryptKey_Inr)
  then obtain z where z: "s = seal_name e '''' '''' @ z"
    by (cases "split (CHR ''/'') r") auto
  then have "hd s \<noteq> CHR ''/''"
    using length_seal_name [of e "''''" "''''"] seal_name_no_slash [of e "''''" "''''"]
    by (cases "seal_name e '''' ''''") auto
  then show ?thesis by (auto simp: EncryptPrefix_def EncryptKey_def prefix_def)
qed

theorem names_root_prefix_witness:
  "\<exists>e s. NewEncrypter (replicate 32 5) = Inr e \<and> EncryptKey e ''/a'' = Inr s \<and> \<not> prefix ''/'' s"
proof -
  obtain e where e: "NewEncrypter (replicate 32 5) = Inr e" by (simp add: NewEncrypter_def del: replicate.simps)
  note k = NewEncrypter_Inr [OF e]
  have "length (sealed_key e ''/a'') = 55" by (simp add: seal_name_def Let_def length_b32)
  then have s: "EncryptKey e (''/'' @ ''a'') = Inr (sealed_key e ''/a'')"
    using k by (simp add: EncryptKey_Inr del: split.simps seal_path.simps join.simps)
  from names_root_prefix [OF e s] e s show ?thesis by auto
qed

end
