(* ===== verification/Freshness.thy ===== *)
theory Freshness
  imports GoCrypto
begin

text \<open>
  \<open>internal/freshness\<close>: the index that remembers the last write of every object. \<open>tag.go\<close> derives an
  object's tag from its segment salts, \<open>store.go\<close> states the interface, whose contract is the locale
  \<open>store\<close> of the theory \<open>FreshnessStore\<close>, and \<open>local.go\<close> implements it over an append-only file. The
  file's content, whether the handle is usable and the outcome of every I/O call are part of the state;
  the clock is an argument. Go visits a map in an arbitrary order: here it is the order of an
  association list, and the properties depend on the map only.
\<close>

unbundle bit_operations_syntax

section \<open>Tags\<close>

definition fresh_KeySize :: nat where [simp]: "fresh_KeySize = 32"
definition fresh_TagSize :: nat where [simp]: "fresh_TagSize = 16"
definition fresh_MaxParts :: nat where [simp]: "fresh_MaxParts = 10000"
definition tagInfo :: string where "tagInfo = ''blindbucket/v1/freshness-tag''"

definition IsZero :: "bytes \<Rightarrow> bool" where
  "IsZero t \<longleftrightarrow> t = replicate fresh_TagSize 0"

definition TagFromSalts :: "bytes list \<Rightarrow> bytes result" where
  "TagFromSalts salts =
     (if length salts = 0 then Inl (Sentinel ErrNoSalts)
      else if length salts > fresh_MaxParts
      then Inl (Errorf ''freshness: %d salts exceeds the %d-part limit'' [])
      else Inr (take fresh_TagSize
             (sha256 (bytes_of tagInfo @ be_bytes 4 (length salts) @ concat salts))))"

section \<open>The store interface\<close>

datatype Verdict = Unknown | Fresh | Stale | Deleted

definition verdict_OK :: "Verdict \<Rightarrow> bool" where
  "verdict_OK v \<longleftrightarrow> v = Unknown \<or> v = Fresh"

record Stats =
  sObjects :: nat
  sTombstones :: nat
  sRecords :: int

section \<open>The file\<close>

definition index_magic :: bytes where "index_magic = bytes_of ''BBFX''"
definition index_version :: byte where [simp]: "index_version = 1"
definition headerSize :: nat where [simp]: "headerSize = 16"
definition recordSize :: nat where [simp]: "recordSize = 48"
definition kindPresent :: byte where [simp]: "kindPresent = 1"
definition kindTombstone :: byte where [simp]: "kindTombstone = 2"
definition kindInvalid :: byte where [simp]: "kindInvalid = 3"
definition indexInfo :: string where "indexInfo = ''blindbucket/v1/freshness-index''"

text \<open>\<open>crc32.Checksum\<close> with the Castagnoli table, bit by bit.\<close>

primrec crc_bits :: "nat \<Rightarrow> 32 word \<Rightarrow> 32 word" where
  "crc_bits 0 c = c"
| "crc_bits (Suc n) c = crc_bits n (if bit c 0 then drop_bit 1 c XOR 0x82f63b78 else drop_bit 1 c)"

definition crc32c :: "bytes \<Rightarrow> 32 word" where
  "crc32c b = NOT (foldl (\<lambda>c x. crc_bits 8 (c XOR word_of_nat (unat x))) 0xffffffff b)"

record entry =
  etag :: bytes
  ekind :: byte
  ewhen :: int

definition record_body :: "bytes \<Rightarrow> bytes \<Rightarrow> byte \<Rightarrow> int \<Rightarrow> bytes" where
  "record_body h tag kind when = h @ tag @ [kind, 0, 0, 0] @ be_bytes 8 (nat (when mod 2 ^ 64))"

definition encode_record :: "bytes \<Rightarrow> bytes \<Rightarrow> byte \<Rightarrow> int \<Rightarrow> bytes" where
  "encode_record h tag kind when =
     (let b = record_body h tag kind when in b @ be_bytes 4 (unat (crc32c b)))"

definition index_header :: "int \<Rightarrow> bytes" where
  "index_header now =
     index_magic @ [index_version, 0] @ be_bytes 2 recordSize @ be_bytes 8 (nat (now mod 2 ^ 64))"

record Local =
  lretention :: int
  lsyncEvery :: int
  lkey :: bytes
  lm :: "(bytes \<times> entry) list"
  lfile :: bytes
  lopen :: bool
  lfaults :: "(nat \<times> err) option list"
  lrecords :: int
  lsinceSync :: int
  lclosed :: bool

text \<open>
  The next I/O call: \<open>lfaults\<close> lists whether the calls to come succeed (\<open>None\<close>) or fail (\<open>Some (n, e)\<close>,
  after \<open>n\<close> bytes for a write); past its end every call succeeds.
\<close>

definition io :: "Local \<Rightarrow> (nat \<times> err) option \<times> Local" where
  "io l = (case lfaults l of [] \<Rightarrow> (None, l) | f # fs \<Rightarrow> (f, l\<lparr>lfaults := fs\<rparr>))"

definition io_err :: "string \<Rightarrow> Local \<Rightarrow> err option \<times> Local" where
  "io_err msg l = (case io l of (f, l') \<Rightarrow> (map_option (\<lambda>(_, e). Errorf msg [e]) f, l'))"

definition errFileClosed :: err where
  "errFileClosed = Errorf ''file already closed'' []"

definition write_file :: "bytes \<Rightarrow> Local \<Rightarrow> err option \<times> Local" where
  "write_file b l =
     (if \<not> lopen l then (Some errFileClosed, l)
      else case io l of
        (None, l') \<Rightarrow> (None, l'\<lparr>lfile := lfile l' @ b\<rparr>)
      | (Some (n, e), l') \<Rightarrow> (Some e, l'\<lparr>lfile := lfile l' @ take n b\<rparr>))"

definition writeHeader :: "int \<Rightarrow> Local \<Rightarrow> err option \<times> Local" where
  "writeHeader now l =
     (case write_file (index_header now) l of
        (Some e, l') \<Rightarrow> (Some (Errorf ''freshness: writing the index header: %w'' [e]), l')
      | (None, l') \<Rightarrow> (None, l'))"

text \<open>Map operations on association lists.\<close>

definition aput :: "'k \<Rightarrow> 'v \<Rightarrow> ('k \<times> 'v) list \<Rightarrow> ('k \<times> 'v) list" where
  "aput k v xs = (k, v) # filter (\<lambda>(k', _). k' \<noteq> k) xs"

definition adel :: "'k \<Rightarrow> ('k \<times> 'v) list \<Rightarrow> ('k \<times> 'v) list" where
  "adel k xs = filter (\<lambda>(k', _). k' \<noteq> k) xs"

section \<open>Loading\<close>

definition decode_record :: "bytes \<Rightarrow> bytes \<times> entry" where
  "decode_record rec =
     (let w = be_nat (slice 36 44 rec)
      in (take 16 rec, \<lparr>etag = slice 16 32 rec, ekind = rec ! 32,
                       ewhen = (if w > 2 ^ 63 - 1 then 0 else int w)\<rparr>))"

definition apply_record :: "bytes \<Rightarrow> (bytes \<times> entry) list \<Rightarrow> (bytes \<times> entry) list" where
  "apply_record rec m =
     (case decode_record rec of
        (h, e) \<Rightarrow> if ekind e = kindInvalid then adel h m else aput h e m)"

function load_loop ::
  "source \<Rightarrow> (bytes \<times> entry) list \<Rightarrow> int \<Rightarrow> ((bytes \<times> entry) list \<times> int) result" where
  "load_loop s m n =
     (case read_full recordSize s of
        (_, Some e, _) \<Rightarrow>
          (if errors_is EOF e then Inr (m, n)
           else if errors_is UnexpectedEOF e then Inr (m, n)
           else Inl (Errorf ''freshness: reading the index: %w'' [e]))
      | (rec, None, s') \<Rightarrow>
          (if crc32c (take 44 rec) \<noteq> word_of_nat (be_nat (drop 44 rec)) then Inr (m, n)
           else load_loop s' (apply_record rec m) (n + 1)))"
  by pat_completeness auto
termination
  by (relation "measure (\<lambda>(s, _, _). length (src_data s))")
    (auto simp: read_full_def split: if_splits)

declare load_loop.simps [simp del]

text \<open>What \<open>os.Open\<close> answers is an argument: an error, no such file, or the content.\<close>

definition load :: "source option result \<Rightarrow> ((bytes \<times> entry) list \<times> int) result" where
  "load opened =
     (case opened of
        Inl e \<Rightarrow> Inl (Errorf ''freshness: opening the index: %w'' [e])
      | Inr None \<Rightarrow> Inr ([], 0)
      | Inr (Some s) \<Rightarrow>
          (case read_full headerSize s of
             (_, Some e, _) \<Rightarrow>
               (if errors_is EOF e \<or> errors_is UnexpectedEOF e then Inr ([], 0)
                else Inl (Errorf ''freshness: reading the index header: %w'' [e]))
           | (hdr, None, s') \<Rightarrow>
               (if take 4 hdr \<noteq> index_magic
                then Inl (Errorf ''%w: %q does not begin with %s'' [Sentinel ErrDamaged])
                else if hdr ! 4 \<noteq> index_version
                then Inl (Errorf ''%w: %q is version %d, this build writes %d'' [Sentinel ErrDamaged])
                else if be_nat (slice 6 8 hdr) \<noteq> recordSize
                then Inl (Errorf ''%w: %q has %d-byte records, this build writes %d'' [Sentinel ErrDamaged])
                else load_loop s' [] 0)))"

section \<open>Writing, syncing and compaction\<close>

text \<open>A \<open>time.Duration\<close> counts nanoseconds; \<open>int64(d.Seconds())\<close> drops the fraction of a second.\<close>

definition duration_seconds :: "int \<Rightarrow> int" where
  "duration_seconds d = (if d < 0 then - (- d div 10 ^ 9) else d div 10 ^ 9)"

definition defaultRetention :: int where [simp]: "defaultRetention = 90 * 24 * 3600 * 10 ^ 9"
definition defaultSyncEvery :: int where [simp]: "defaultSyncEvery = 256"
definition compactFloor :: int where [simp]: "compactFloor = 4096"

definition writeRecordLocked :: "bytes \<Rightarrow> bytes \<Rightarrow> byte \<Rightarrow> int \<Rightarrow> Local \<Rightarrow> err option \<times> Local" where
  "writeRecordLocked h tag kind now l =
     (case write_file (encode_record h tag kind now) l of
        (Some e, l') \<Rightarrow> (Some (Errorf ''freshness: appending to the index: %w'' [e]), l')
      | (None, l') \<Rightarrow> (None, l'\<lparr>lrecords := lrecords l' + 1, lsinceSync := lsinceSync l' + 1\<rparr>))"

definition syncDir :: "Local \<Rightarrow> err option \<times> Local" where
  "syncDir l =
     (case io_err ''freshness: opening the index directory: %w'' l of
        (Some e, l') \<Rightarrow> (Some e, l')
      | (None, l') \<Rightarrow> io_err ''freshness: syncing the index directory: %w'' l')"

definition kept_entries :: "int \<Rightarrow> (bytes \<times> entry) list \<Rightarrow> (bytes \<times> entry) list" where
  "kept_entries cutoff m = filter (\<lambda>(h, e). \<not> (ekind e = kindTombstone \<and> ewhen e < cutoff)) m"

text \<open>
  The writes to the temporary file go through a buffer; whether one of them or the flush fails makes
  no difference, so they are one call. After the rename the path holds the new content, and the old
  handle, once closed, is useless until the file is reopened.
\<close>

definition compactLocked :: "int \<Rightarrow> Local \<Rightarrow> err option \<times> Local" where
  "compactLocked now l =
     (let cutoff = sub64 now (duration_seconds (lretention l));
          kept = kept_entries cutoff (lm l);
          content = index_header now @
            concat (map (\<lambda>(h, e). encode_record h (etag e) (ekind e) (ewhen e)) kept);
          msg = ''freshness: compacting the index: %w''
      in case io_err msg l of (Some e, l) \<Rightarrow> (Some e, l) | (None, l) \<Rightarrow>
         (case io_err msg l of (Some e, l) \<Rightarrow> (Some e, l) | (None, l) \<Rightarrow>
         (case io_err msg l of (Some e, l) \<Rightarrow> (Some e, l) | (None, l) \<Rightarrow>
         (case io_err msg l of (Some e, l) \<Rightarrow> (Some e, l) | (None, l) \<Rightarrow>
         (case io_err ''freshness: replacing the index: %w'' l of (Some e, l) \<Rightarrow> (Some e, l) | (None, l) \<Rightarrow>
           (let l1 = l\<lparr>lfile := content, lopen := False\<rparr> in
            case io_err ''freshness: closing the old index: %w'' l1 of (Some e, l) \<Rightarrow> (Some e, l) | (None, l) \<Rightarrow>
            (case io_err ''freshness: reopening the index: %w'' l of (Some e, l) \<Rightarrow> (Some e, l) | (None, l) \<Rightarrow>
               syncDir (l\<lparr>lopen := True, lm := kept, lrecords := int (length kept), lsinceSync := 0\<rparr>))))))))"

definition maintainLocked :: "int \<Rightarrow> Local \<Rightarrow> err option \<times> Local" where
  "maintainLocked now l =
     (case (if lsinceSync l \<ge> lsyncEvery l
            then (case io_err ''freshness: syncing the index: %w'' l of
                    (Some e, l') \<Rightarrow> (Some e, l')
                  | (None, l') \<Rightarrow> (None, l'\<lparr>lsinceSync := 0\<rparr>))
            else (None, l)) of
        (Some e, l') \<Rightarrow> (Some e, l')
      | (None, l') \<Rightarrow>
          if lrecords l' > 2 * int (length (lm l')) + compactFloor then compactLocked now l' else (None, l'))"

definition appendLocked :: "int \<Rightarrow> bytes \<Rightarrow> bytes \<Rightarrow> byte \<Rightarrow> Local \<Rightarrow> err option \<times> Local" where
  "appendLocked now h tag kind l =
     (case writeRecordLocked h tag kind now l of
        (Some e, l') \<Rightarrow> (Some e, l'\<lparr>lm := adel h (lm l')\<rparr>)
      | (None, l') \<Rightarrow>
          maintainLocked now (l'\<lparr>lm := aput h \<lparr>etag = tag, ekind = kind, ewhen = now\<rparr> (lm l')\<rparr>))"

section \<open>The operations\<close>

definition index_name :: "bytes \<Rightarrow> string \<Rightarrow> string \<Rightarrow> bytes" where
  "index_name key bucket k =
     take 16 (hmac key (be_bytes 8 (length bucket) @ bytes_of bucket @ be_bytes 8 (length k) @ bytes_of k))"

definition errIndexClosed :: err where
  "errIndexClosed = Errorf ''freshness: the index is closed'' []"

definition Check :: "int \<Rightarrow> string \<Rightarrow> string \<Rightarrow> bytes \<Rightarrow> Local \<Rightarrow> (Verdict \<times> err option) \<times> Local" where
  "Check now bucket k tag l =
     (let h = index_name (lkey l) bucket k in
      if lclosed l then ((Unknown, Some errIndexClosed), l)
      else case map_of (lm l) h of
        None \<Rightarrow> (case appendLocked now h tag kindPresent l of (e, l') \<Rightarrow> ((Unknown, e), l'))
      | Some got \<Rightarrow>
          if ekind got = kindTombstone then ((Deleted, None), l)
          else if etag got = tag then ((Fresh, None), l)
          else ((Stale, None), l))"

definition Record :: "int \<Rightarrow> string \<Rightarrow> string \<Rightarrow> bytes \<Rightarrow> Local \<Rightarrow> err option \<times> Local" where
  "Record now bucket k tag l =
     (if lclosed l then (Some errIndexClosed, l)
      else appendLocked now (index_name (lkey l) bucket k) tag kindPresent l)"

definition Forget :: "int \<Rightarrow> string \<Rightarrow> string \<Rightarrow> Local \<Rightarrow> err option \<times> Local" where
  "Forget now bucket k l =
     (if lclosed l then (Some errIndexClosed, l)
      else appendLocked now (index_name (lkey l) bucket k) (replicate fresh_TagSize 0) kindTombstone l)"

definition Invalidate :: "int \<Rightarrow> string \<Rightarrow> string \<Rightarrow> Local \<Rightarrow> err option \<times> Local" where
  "Invalidate now bucket k l =
     (let h = index_name (lkey l) bucket k in
      if lclosed l then (Some errIndexClosed, l)
      else if map_of (lm l) h = None then (None, l)
      else case writeRecordLocked h (replicate fresh_TagSize 0) kindInvalid now (l\<lparr>lm := adel h (lm l)\<rparr>) of
             (Some e, l') \<Rightarrow> (Some e, l')
           | (None, l') \<Rightarrow> maintainLocked now l')"

definition StatsOf :: "Local \<Rightarrow> Stats" where
  "StatsOf l =
     \<lparr>sObjects = length (filter (\<lambda>(_, e). ekind e \<noteq> kindTombstone) (lm l)),
      sTombstones = length (filter (\<lambda>(_, e). ekind e = kindTombstone) (lm l)),
      sRecords = lrecords l\<rparr>"

definition CloseIndex :: "Local \<Rightarrow> err option \<times> Local" where
  "CloseIndex l =
     (if lclosed l then (None, l)
      else let l1 = l\<lparr>lclosed := True\<rparr>;
               msg = ''freshness: syncing the index: %w''
           in if \<not> lopen l1 then (Some (Errorf msg [errFileClosed]), l1)
              else case io_err msg l1 of
                (Some e, l2) \<Rightarrow> (Some e, l2\<lparr>lopen := False\<rparr>)
              | (None, l2) \<Rightarrow>
                  (case io_err ''freshness: closing the index: %w'' l2 of (e, l3) \<Rightarrow> (e, l3\<lparr>lopen := False\<rparr>)))"

section \<open>Opening\<close>

record Options =
  oPath :: string
  oKey :: bytes
  oRetention :: int
  oSyncEvery :: int

definition cmpOr :: "int \<Rightarrow> int \<Rightarrow> int" where
  "cmpOr v fallback = (if v = 0 then fallback else v)"

text \<open>\<open>opened\<close> is what \<open>os.Open\<close> finds at the path; the file is then opened for appending, and what was
  there stays in front.\<close>

definition OpenIndex ::
  "Options \<Rightarrow> source option result \<Rightarrow> (nat \<times> err) option list \<Rightarrow> int \<Rightarrow> Local result" where
  "OpenIndex opts opened faults now =
     (if length (oKey opts) \<noteq> fresh_KeySize then Inl (Errorf ''freshness: key is %d bytes, want %d'' [])
      else if oPath opts = '''' then Inl (Errorf ''freshness: no index path configured'' [])
      else
        ebind (emap_err (\<lambda>e. Errorf ''freshness: deriving the index key: %w'' [e])
                 (hkdf_Key (oKey opts) [] indexInfo fresh_KeySize)) (\<lambda>prf.
        ebind (load opened) (\<lambda>(m, n).
          let l = \<lparr>lretention = cmpOr (oRetention opts) defaultRetention,
                   lsyncEvery = cmpOr (oSyncEvery opts) defaultSyncEvery, lkey = prf, lm = m,
                   lfile = (case opened of Inr (Some s) \<Rightarrow> src_data s | _ \<Rightarrow> []),
                   lopen = True, lfaults = faults, lrecords = n, lsinceSync = 0, lclosed = False\<rparr>
          in case io_err ''freshness: opening the index: %w'' l of
               (Some e, _) \<Rightarrow> Inl e
             | (None, l1) \<Rightarrow>
                 if lrecords l1 = 0
                 then (case writeHeader now l1 of (Some e, _) \<Rightarrow> Inl e | (None, l2) \<Rightarrow> Inr l2)
                 else Inr l1)))"

end
