(* ===== verification/FreshnessStore.thy ===== *)
theory FreshnessStore
  imports Freshness
begin

text \<open>
  The contract of the freshness index and what it gives its clients. \<open>known\<close> is what the index can know
  about a name; \<open>spec_op\<close> is the interface of \<open>store.go\<close> on a map of names; the local index refines it up
  to the expiry of tombstones, interprets the locale \<open>store\<close>, and, from a new file on and while no I/O call
  fails, its file replays to its map.
\<close>

section \<open>The abstract store\<close>

datatype known = Present bytes | Gone int

datatype op =
    OpCheck string string bytes
  | OpRecord string string bytes
  | OpForget string string
  | OpInvalidate string string

fun op_name :: "op \<Rightarrow> string \<times> string" where
  "op_name (OpCheck b k t) = (b, k)"
| "op_name (OpRecord b k t) = (b, k)"
| "op_name (OpForget b k) = (b, k)"
| "op_name (OpInvalidate b k) = (b, k)"

definition judge :: "known option \<Rightarrow> bytes \<Rightarrow> Verdict" where
  "judge x tag =
     (case x of None \<Rightarrow> Unknown | Some (Gone _) \<Rightarrow> Deleted | Some (Present t) \<Rightarrow> if t = tag then Fresh else Stale)"

fun spec_op :: "int \<Rightarrow> ('h \<Rightarrow> known option) \<Rightarrow> 'h \<Rightarrow> op \<Rightarrow> Verdict option \<times> ('h \<Rightarrow> known option)" where
  "spec_op now s h (OpCheck b k t) =
     (Some (judge (s h) t), if s h = None then s(h \<mapsto> Present t) else s)"
| "spec_op now s h (OpRecord b k t) = (None, s(h \<mapsto> Present t))"
| "spec_op now s h (OpForget b k) = (None, s(h \<mapsto> Gone now))"
| "spec_op now s h (OpInvalidate b k) = (None, s(h := None))"

text \<open>The only liberty of an implementation: a tombstone from before the horizon may be gone. A younger
  one may not, so that a provider that ignores a delete is found out.\<close>

definition up_to_expiry :: "int \<Rightarrow> ('h \<Rightarrow> known option) \<Rightarrow> ('h \<Rightarrow> known option) \<Rightarrow> bool" where
  "up_to_expiry horizon a b \<longleftrightarrow>
     (\<forall>h. b h = a h \<or> (\<exists>w. a h = Some (Gone w) \<and> w < horizon) \<and> b h = None)"

lemma up_to_expiry_refl [simp]: "up_to_expiry c a a"
  by (simp add: up_to_expiry_def)

lemma up_to_expiry_Present: "up_to_expiry c a b \<Longrightarrow> a h = Some (Present t) \<Longrightarrow> b h = Some (Present t)"
  unfolding up_to_expiry_def by (drule spec [of _ h]) auto

lemma up_to_expiry_Gone: "up_to_expiry c a b \<Longrightarrow> a h = Some (Gone w) \<Longrightarrow> c \<le> w \<Longrightarrow> b h = Some (Gone w)"
  unfolding up_to_expiry_def by (drule spec [of _ h]) auto

text \<open>A sequence of operations, each with the time at which it happens.\<close>

fun run_all :: "(int \<Rightarrow> op \<Rightarrow> 's \<Rightarrow> 'r \<times> 's) \<Rightarrow> (int \<times> op) list \<Rightarrow> 's \<Rightarrow> 's" where
  "run_all run [] s = s"
| "run_all run ((now, x) # xs) s = run_all run xs (snd (run now x s))"

text \<open>
  What a client of a store relies on: in a good state every operation succeeds, answers what the
  abstract store answers and leaves the state the abstract store has, expired tombstones aside.
\<close>

locale store =
  fixes run :: "int \<Rightarrow> op \<Rightarrow> 's \<Rightarrow> (Verdict option \<times> err option) \<times> 's"
    and name :: "'s \<Rightarrow> string \<times> string \<Rightarrow> 'h"
    and view :: "'s \<Rightarrow> 'h \<Rightarrow> known option"
    and horizon :: "'s \<Rightarrow> int \<Rightarrow> int"
    and good :: "'s \<Rightarrow> bool"
  assumes run_spec: "good s \<Longrightarrow> \<exists>s'. run now x s = ((fst (spec_op now (view s) (name s (op_name x)) x), None), s') \<and>
      good s' \<and> name s' = name s \<and> horizon s' = horizon s \<and>
      up_to_expiry (horizon s now) (snd (spec_op now (view s) (name s (op_name x)) x)) (view s')"
begin

lemma run_good:
  "good s \<Longrightarrow> good (snd (run now x s)) \<and> name (snd (run now x s)) = name s \<and> horizon (snd (run now x s)) = horizon s"
  using run_spec [of s now x] by auto

lemma run_all_good:
  "good s \<Longrightarrow> good (run_all run xs s) \<and> name (run_all run xs s) = name s \<and> horizon (run_all run xs s) = horizon s"
  by (induction xs arbitrary: s) (auto simp: run_good)

text \<open>What is known of a name stays as it is while other names are operated on: a tag always, a
  tombstone until the clock of an operation has passed its retention.\<close>

definition lasting :: "'s \<Rightarrow> int list \<Rightarrow> known \<Rightarrow> bool" where
  "lasting s ts x \<longleftrightarrow> (case x of Present t \<Rightarrow> True | Gone w \<Rightarrow> list_all (\<lambda>now. horizon s now \<le> w) ts)"

lemma expiry_lasting:
  "up_to_expiry (horizon s now) a b \<Longrightarrow> a h = Some v \<Longrightarrow> lasting s [now] v \<Longrightarrow> b h = Some v"
  by (cases v) (auto simp: lasting_def intro: up_to_expiry_Present up_to_expiry_Gone)

lemma run_other:
  assumes "good s" and "name s (op_name x) \<noteq> h" and "view s h = Some v" and "lasting s [now] v"
  shows "view (snd (run now x s)) h = Some v"
proof -
  let ?n = "name s (op_name x)"
  have "snd (spec_op now (view s) ?n x) h = Some v" using assms by (cases x) auto
  then show ?thesis
    using run_spec [OF assms(1), of now x] expiry_lasting [OF _ _ assms(4)] by fastforce
qed

lemma run_all_other:
  assumes "good s" and "\<forall>(now, x)\<in>set xs. name s (op_name x) \<noteq> h" and "view s h = Some v"
    and "lasting s (map fst xs) v"
  shows "view (run_all run xs s) h = Some v"
  using assms
proof (induction xs arbitrary: s)
  case (Cons y xs)
  obtain now x where y: "y = (now, x)" by (cases y)
  have l: "lasting s [now] v" "lasting s (map fst xs) v"
    using Cons.prems(4) y by (auto simp: lasting_def split: known.splits)
  let ?s = "snd (run now x s)"
  have g: "good ?s" "name ?s = name s" "horizon ?s = horizon s" using run_good [OF Cons.prems(1)] by auto
  have "view ?s h = Some v" using Cons.prems y l(1) by (intro run_other) auto
  moreover have "lasting ?s (map fst xs) v" using l(2) g(3) by (cases v) (simp_all add: lasting_def)
  ultimately show ?case
    using Cons.prems y g by (auto intro!: Cons.IH)
qed simp

text \<open>What the last operation on a name left is what a check of that name is judged by.\<close>

lemma check_after:
  assumes "good s" and "\<forall>(now, x)\<in>set xs. name s (op_name x) \<noteq> name s (b, k)"
    and "op_name y = (b, k)" and "snd (spec_op now (view s) (name s (b, k)) y) (name s (b, k)) = Some v"
    and "lasting s (now # map fst xs) v"
  shows "fst (run now' (OpCheck b k t') (run_all run xs (snd (run now y s)))) = (Some (judge (Some v) t'), None)"
proof -
  let ?h = "name s (b, k)"
  obtain s1 where s1: "snd (run now y s) = s1" "good s1" "name s1 = name s" "horizon s1 = horizon s"
      "up_to_expiry (horizon s now) (snd (spec_op now (view s) ?h y)) (view s1)"
    using run_spec [OF assms(1), of now y] assms(3) by auto
  have l: "lasting s [now] v" "lasting s1 (map fst xs) v"
    using assms(5) s1(4) by (cases v; simp add: lasting_def)+
  have "view s1 ?h = Some v" by (rule expiry_lasting [OF s1(5) assms(4) l(1)])
  then have v: "view (run_all run xs s1) ?h = Some v" using assms(2) s1 l(2) by (intro run_all_other) auto
  have g: "good (run_all run xs s1)" "name (run_all run xs s1) = name s" using run_all_good [OF s1(2)] s1(3) by auto
  from run_spec [OF g(1), of now' "OpCheck b k t'"] v g(2) s1(1) show ?thesis by auto
qed

text \<open>A write that was recorded is recognised, and any other version of the object is refused, until
  the next operation on the same name; a deleted object is refused in any version until the retention
  of its tombstone is over.\<close>

lemma rollback_detected:
  assumes "good s" and "\<forall>(now, x)\<in>set xs. name s (op_name x) \<noteq> name s (b, k)"
  shows "fst (run now' (OpCheck b k t') (run_all run xs (snd (run now (OpRecord b k t) s)))) =
    (Some (if t' = t then Fresh else Stale), None)"
  using check_after [OF assms, of "OpRecord b k t" now "Present t" now' t'] by (auto simp: lasting_def judge_def)

lemma deletion_detected:
  assumes "good s" and "\<forall>(now', x)\<in>set xs. name s (op_name x) \<noteq> name s (b, k)"
    and "list_all (\<lambda>time. horizon s time \<le> now) (now # map fst xs)"
  shows "fst (run now' (OpCheck b k t') (run_all run xs (snd (run now (OpForget b k) s)))) = (Some Deleted, None)"
  using check_after [OF assms(1,2), of "OpForget b k" now "Gone now" now' t'] assms(3) by (auto simp: lasting_def judge_def)

end

section \<open>The local index\<close>

fun run_op :: "int \<Rightarrow> op \<Rightarrow> Local \<Rightarrow> (Verdict option \<times> err option) \<times> Local" where
  "run_op now (OpCheck b k t) l = (case Check now b k t l of ((v, e), l') \<Rightarrow> ((Some v, e), l'))"
| "run_op now (OpRecord b k t) l = (case Record now b k t l of (e, l') \<Rightarrow> ((None, e), l'))"
| "run_op now (OpForget b k) l = (case Forget now b k l of (e, l') \<Rightarrow> ((None, e), l'))"
| "run_op now (OpInvalidate b k) l = (case Invalidate now b k l of (e, l') \<Rightarrow> ((None, e), l'))"

definition known_of :: "entry \<Rightarrow> known" where
  "known_of e = (if ekind e = 2 then Gone (ewhen e) else Present (etag e))"

definition lview :: "Local \<Rightarrow> bytes \<Rightarrow> known option" where
  "lview l h = map_option known_of (map_of (lm l) h)"

text \<open>The cutoff of \<open>compactLocked\<close>.\<close>

definition lhorizon :: "Local \<Rightarrow> int \<Rightarrow> int" where
  "lhorizon l now = sub64 now (duration_seconds (lretention l))"

definition lname :: "Local \<Rightarrow> string \<times> string \<Rightarrow> bytes" where
  "lname l n = index_name (lkey l) (fst n) (snd n)"

text \<open>Open, and no I/O call fails.\<close>

definition healthy :: "Local \<Rightarrow> bool" where
  "healthy l \<longleftrightarrow> lopen l \<and> \<not> lclosed l \<and> lfaults l = []"

lemma io_ok [simp]: "lfaults l = [] \<Longrightarrow> io l = (None, l)"
  by (simp add: io_def)

lemma io_err_ok [simp]: "lfaults l = [] \<Longrightarrow> io_err msg l = (None, l)"
  by (simp add: io_err_def)

lemma map_of_aput [simp]: "map_of (aput k v xs) = (map_of xs)(k \<mapsto> v)"
proof -
  have "map_of (filter (\<lambda>(k', _). k' \<noteq> k) xs) = (map_of xs)(k := None)"
    by (induction xs) auto
  then show ?thesis by (simp add: aput_def)
qed

lemma map_of_adel [simp]: "map_of (adel k xs) = (map_of xs)(k := None)"
  unfolding adel_def by (induction xs) auto

lemma keys_aput: "fst ` set (aput k v xs) = insert k (fst ` set xs)"
  by (auto simp: aput_def image_iff)

lemma distinct_aput [simp]: "distinct (map fst xs) \<Longrightarrow> distinct (map fst (aput k v xs))"
  unfolding aput_def by (induction xs) auto

lemma distinct_adel [simp]: "distinct (map fst xs) \<Longrightarrow> distinct (map fst (adel k xs))"
  unfolding adel_def by (induction xs) auto

lemma map_of_kept:
  "distinct (map fst m) \<Longrightarrow> map_of (kept_entries c m) h =
     (case map_of m h of Some e \<Rightarrow> if ekind e = 2 \<and> ewhen e < c then None else Some e | None \<Rightarrow> None)"
proof (induction m)
  case (Cons x m)
  have "map_of m (fst x) = None" using Cons.prems by (simp add: map_of_eq_None_iff)
  with Cons show ?case by (cases x) (auto simp: kept_entries_def split: option.splits)
qed (simp add: kept_entries_def)

text \<open>A state after successful maintenance, as the file and map it holds.\<close>

lemma compactLocked_ok:
  assumes "lfaults l = []"
  shows "compactLocked now l = (None, l\<lparr>lfile := index_header now @
      concat (map (\<lambda>(h, e). encode_record h (etag e) (ekind e) (ewhen e))
        (kept_entries (sub64 now (duration_seconds (lretention l))) (lm l))),
    lopen := True, lm := kept_entries (sub64 now (duration_seconds (lretention l))) (lm l),
    lrecords := int (length (kept_entries (sub64 now (duration_seconds (lretention l))) (lm l))), lsinceSync := 0\<rparr>)"
  unfolding compactLocked_def syncDir_def Let_def by (simp add: assms)

lemma maintainLocked_ok:
  assumes "lfaults l = []"
  shows "(\<exists>n. maintainLocked now l = (None, l\<lparr>lsinceSync := n\<rparr>)) \<or> maintainLocked now l = compactLocked now l"
proof (cases "lsinceSync l \<ge> lsyncEvery l")
  case True
  then have "maintainLocked now l =
      (if lrecords l > 2 * int (length (lm l)) + compactFloor then compactLocked now (l\<lparr>lsinceSync := 0\<rparr>)
       else (None, l\<lparr>lsinceSync := 0\<rparr>))"
    unfolding maintainLocked_def by (simp add: assms)
  moreover have "compactLocked now (l\<lparr>lsinceSync := 0\<rparr>) = compactLocked now l"
    by (simp add: compactLocked_ok assms)
  ultimately show ?thesis by auto
next
  case False
  then have "maintainLocked now l =
      (if lrecords l > 2 * int (length (lm l)) + compactFloor then compactLocked now l
       else (None, l\<lparr>lsinceSync := lsinceSync l\<rparr>))"
    unfolding maintainLocked_def by simp
  then show ?thesis by (metis (full_types))
qed

section \<open>Refinement\<close>

definition lgood :: "Local \<Rightarrow> bool" where
  "lgood l \<longleftrightarrow> healthy l \<and> distinct (map fst (lm l))"

lemma distinct_kept [simp]: "distinct (map fst m) \<Longrightarrow> distinct (map fst (kept_entries c m))"
  unfolding kept_entries_def by (induction m) auto

lemma kept_expiry:
  assumes "distinct (map fst m)"
  shows "up_to_expiry c (\<lambda>h. map_option known_of (map_of m h))
    (\<lambda>h. map_option known_of (map_of (kept_entries c m) h))"
  unfolding up_to_expiry_def map_of_kept [OF assms]
  by (auto simp: known_of_def split: option.splits)

lemma maintainLocked_good:
  assumes "lgood l"
  shows "\<exists>l'. maintainLocked now l = (None, l') \<and> lgood l' \<and> lkey l' = lkey l \<and>
    lretention l' = lretention l \<and> up_to_expiry (lhorizon l now) (lview l) (lview l')"
proof -
  have l: "lfaults l = []" "lopen l" "\<not> lclosed l" "distinct (map fst (lm l))"
    using assms by (auto simp: lgood_def healthy_def)
  have "lview l = (\<lambda>h. map_option known_of (map_of (lm l) h))" by (simp add: fun_eq_iff lview_def)
  moreover have "lview (snd (compactLocked now l)) =
      (\<lambda>h. map_option known_of (map_of (kept_entries (sub64 now (duration_seconds (lretention l))) (lm l)) h))"
    by (simp add: fun_eq_iff lview_def compactLocked_ok l)
  ultimately have ex: "up_to_expiry (lhorizon l now) (lview l) (lview (snd (compactLocked now l)))"
    using kept_expiry [OF l(4)] by (simp add: lhorizon_def)
  from maintainLocked_ok [OF l(1), of now] show ?thesis
  proof
    assume "\<exists>n. maintainLocked now l = (None, l\<lparr>lsinceSync := n\<rparr>)"
    then obtain n where "maintainLocked now l = (None, l\<lparr>lsinceSync := n\<rparr>)" ..
    then show ?thesis
      using l by (intro exI [of _ "l\<lparr>lsinceSync := n\<rparr>"]) (auto simp: lgood_def healthy_def lview_def up_to_expiry_def)
  next
    assume m: "maintainLocked now l = compactLocked now l"
    show ?thesis
      unfolding m using ex l by (simp add: compactLocked_ok lgood_def healthy_def)
  qed
qed

lemma writeRecordLocked_ok:
  "healthy l \<Longrightarrow> writeRecordLocked h tag kind now l =
     (None, l\<lparr>lfile := lfile l @ encode_record h tag kind now, lrecords := lrecords l + 1, lsinceSync := lsinceSync l + 1\<rparr>)"
  by (simp add: writeRecordLocked_def write_file_def healthy_def)

lemma appendLocked_good:
  assumes "lgood l"
  shows "\<exists>l'. appendLocked now h tag kind l = (None, l') \<and> lgood l' \<and> lkey l' = lkey l \<and> lretention l' = lretention l \<and>
    up_to_expiry (lhorizon l now) ((lview l)(h \<mapsto> known_of \<lparr>etag = tag, ekind = kind, ewhen = now\<rparr>)) (lview l')"
proof -
  let ?l1 = "l\<lparr>lfile := lfile l @ encode_record h tag kind now, lrecords := lrecords l + 1, lsinceSync := lsinceSync l + 1,
    lm := aput h \<lparr>etag = tag, ekind = kind, ewhen = now\<rparr> (lm l)\<rparr>"
  have "healthy l" using assms by (simp add: lgood_def)
  then have a: "appendLocked now h tag kind l = maintainLocked now ?l1"
    by (simp add: appendLocked_def writeRecordLocked_ok)
  have "lgood ?l1" using assms by (simp add: lgood_def healthy_def)
  moreover have "lview ?l1 = (lview l)(h \<mapsto> known_of \<lparr>etag = tag, ekind = kind, ewhen = now\<rparr>)"
    by (simp add: lview_def fun_eq_iff)
  ultimately show ?thesis unfolding a using maintainLocked_good [of ?l1 now] by (simp add: lhorizon_def)
qed

lemma run_op_spec:
  assumes "lgood l"
  shows "\<exists>l'. run_op now x l = ((fst (spec_op now (lview l) (lname l (op_name x)) x), None), l') \<and>
    lgood l' \<and> lkey l' = lkey l \<and> lretention l' = lretention l \<and>
    up_to_expiry (lhorizon l now) (snd (spec_op now (lview l) (lname l (op_name x)) x)) (lview l')"
proof -
  have nc: "\<not> lclosed l" "healthy l" using assms by (auto simp: lgood_def healthy_def)
  show ?thesis
  proof (cases x)
    case (OpCheck b k t)
    let ?h = "index_name (lkey l) b k"
    show ?thesis
    proof (cases "map_of (lm l) ?h")
      case None
      then have v: "lview l ?h = None" by (simp add: lview_def)
      obtain l' where "appendLocked now ?h t 1 l = (None, l')" "lgood l'" "lkey l' = lkey l" "lretention l' = lretention l"
          "up_to_expiry (lhorizon l now) ((lview l)(?h \<mapsto> Present t)) (lview l')"
        using appendLocked_good [OF assms, of now ?h t 1] by (auto simp: known_of_def)
      then show ?thesis using OpCheck None nc v by (simp add: Check_def lname_def judge_def)
    next
      case (Some e)
      then have v: "lview l ?h = Some (known_of e)" by (simp add: lview_def)
      show ?thesis
        using OpCheck Some nc v assms by (simp add: Check_def lname_def judge_def known_of_def)
    qed
  next
    case (OpRecord b k t)
    then show ?thesis
      using appendLocked_good [OF assms, of now "index_name (lkey l) b k" t 1] nc
      by (auto simp: Record_def lname_def known_of_def)
  next
    case (OpForget b k)
    then show ?thesis
      using appendLocked_good [OF assms, of now "index_name (lkey l) b k" "replicate 16 0" 2] nc
      by (auto simp: Forget_def lname_def known_of_def simp del: replicate.simps)
  next
    case (OpInvalidate b k)
    let ?h = "index_name (lkey l) b k"
    show ?thesis
    proof (cases "map_of (lm l) ?h")
      case None
      then have "(lview l)(?h := None) = lview l" by (auto simp: lview_def fun_eq_iff)
      then show ?thesis using OpInvalidate None nc assms by (simp add: Invalidate_def lname_def)
    next
      case (Some e)
      let ?l1 = "l\<lparr>lm := adel ?h (lm l), lfile := lfile l @ encode_record ?h (replicate 16 0) 3 now,
        lrecords := lrecords l + 1, lsinceSync := lsinceSync l + 1\<rparr>"
      have "healthy (l\<lparr>lm := adel ?h (lm l)\<rparr>)" using nc by (simp add: healthy_def)
      then have i: "Invalidate now b k l = maintainLocked now ?l1"
        using Some nc(1) by (simp add: Invalidate_def Let_def writeRecordLocked_ok del: replicate.simps)
      have "lgood ?l1" using assms by (simp add: lgood_def healthy_def)
      moreover have "lview ?l1 = (lview l)(?h := None)" by (simp add: lview_def fun_eq_iff)
      ultimately show ?thesis
        using maintainLocked_good [of ?l1 now] OpInvalidate i by (auto simp: lname_def lhorizon_def)
    qed
  qed
qed

interpretation index: store run_op lname lview lhorizon lgood
proof
  fix l now x
  assume "lgood l"
  then show "\<exists>l'. run_op now x l = ((fst (spec_op now (lview l) (lname l (op_name x)) x), None), l') \<and> lgood l' \<and>
      lname l' = lname l \<and> lhorizon l' = lhorizon l \<and>
      up_to_expiry (lhorizon l now) (snd (spec_op now (lview l) (lname l (op_name x)) x)) (lview l')"
    using run_op_spec [of l now x] by (auto simp: lname_def lhorizon_def fun_eq_iff)
qed

section \<open>The file replays to the map\<close>

definition wf_entry :: "bytes \<times> entry \<Rightarrow> bool" where
  "wf_entry x \<longleftrightarrow> length (fst x) = 16 \<and> length (etag (snd x)) = 16 \<and> 0 \<le> ewhen (snd x) \<and> ewhen (snd x) < 2 ^ 63"

definition encode_entry :: "bytes \<times> entry \<Rightarrow> bytes" where
  "encode_entry x = encode_record (fst x) (etag (snd x)) (ekind (snd x)) (ewhen (snd x))"

definition apply_entry :: "(bytes \<times> entry) list \<Rightarrow> bytes \<times> entry \<Rightarrow> (bytes \<times> entry) list" where
  "apply_entry m x = (if ekind (snd x) = 3 then adel (fst x) m else aput (fst x) (snd x) m)"

lemma be4_word32: "word_of_nat (be_nat (be_bytes 4 (unat w))) = (w :: 32 word)"
  using unat_word32_be [of w] by simp

lemma length_record_body: "length h = 16 \<Longrightarrow> length t = 16 \<Longrightarrow> length (record_body h t kd w) = 44"
  by (simp add: record_body_def)

lemma length_encode_entry: "wf_entry x \<Longrightarrow> length (encode_entry x) = 48"
  by (simp add: encode_entry_def encode_record_def Let_def wf_entry_def length_record_body)

lemma decode_encode:
  assumes "wf_entry x"
  shows "decode_record (encode_entry x @ r) = x"
    and "crc32c (take 44 (encode_entry x)) = word_of_nat (be_nat (drop 44 (encode_entry x)))"
proof -
  obtain h t kd w where x: "x = (h, \<lparr>etag = t, ekind = kd, ewhen = w\<rparr>)" by (metis entry.cases surj_pair)
  have l: "length h = 16" "length t = 16" "0 \<le> w" "w < 2 ^ 63" using assms x by (simp_all add: wf_entry_def)
  have w: "nat (w mod 2 ^ 64) = nat w" "nat w < 256 ^ 8" "\<not> nat w > 2 ^ 63 - 1" using l by auto
  show "crc32c (take 44 (encode_entry x)) = word_of_nat (be_nat (drop 44 (encode_entry x)))"
    using l by (simp add: x encode_entry_def encode_record_def Let_def length_record_body be4_word32)
  have d16: "drop 16 (encode_entry x @ r) = t @ [kd, 0, 0, 0] @ be_bytes 8 (nat w) @
      be_bytes 4 (unat (crc32c (record_body h t kd w))) @ r"
    using l w(1) by (simp add: x encode_entry_def encode_record_def Let_def record_body_def)
  have "take 8 (drop 20 (drop 16 (encode_entry x @ r))) = be_bytes 8 (nat w)"
    unfolding d16 using l by simp
  then have s: "slice 36 44 (encode_entry x @ r) = be_bytes 8 (nat w)"
    by (simp only: slice_def drop_drop) simp
  have "(encode_entry x @ r) ! 32 = drop 16 (encode_entry x @ r) ! 16"
    using length_encode_entry [OF assms] by (simp add: nth_append)
  then have k: "(encode_entry x @ r) ! 32 = kd" unfolding d16 using l by (simp add: nth_append)
  have "take 16 (encode_entry x @ r) = h"
    using l by (simp add: x encode_entry_def encode_record_def Let_def record_body_def)
  then show "decode_record (encode_entry x @ r) = x"
    using s k w l d16 unfolding decode_record_def Let_def s k by (simp add: x slice_def)
qed

lemma load_loop_step:
  assumes "wf_entry x"
  shows "load_loop \<lparr>src_data = encode_entry x @ d, src_end = e\<rparr> m n =
    load_loop \<lparr>src_data = d, src_end = e\<rparr> (apply_entry m x) (n + 1)"
proof -
  have rd: "read_full 48 \<lparr>src_data = encode_entry x @ d, src_end = e\<rparr> =
      (encode_entry x, None, \<lparr>src_data = d, src_end = e\<rparr>)"
    using length_encode_entry [OF assms] by (simp add: read_full_def)
  have ap: "apply_record (encode_entry x) m = apply_entry m x"
    using decode_encode(1) [OF assms, of "[]"]
    by (cases x) (auto simp: apply_record_def apply_entry_def)
  show ?thesis
    by (subst load_loop.simps)
      (simp only: recordSize_def rd prod.case option.case decode_encode(2) [OF assms] ap simp_thms if_True if_False)
qed

lemma load_loop_append:
  "list_all wf_entry rs \<Longrightarrow> load_loop \<lparr>src_data = concat (map encode_entry rs) @ d, src_end = e\<rparr> m n =
     load_loop \<lparr>src_data = d, src_end = e\<rparr> (foldl apply_entry m rs) (n + int (length rs))"
  by (induction rs arbitrary: m n) (simp_all add: load_loop_step add_ac)

lemma load_header:
  "load (Inr (Some \<lparr>src_data = index_header t @ d, src_end = e\<rparr>)) = load_loop \<lparr>src_data = d, src_end = e\<rparr> [] 0"
proof -
  have h: "length (index_header t) = 16" "take 4 (index_header t) = index_magic" "index_header t ! 4 = 1"
    "be_nat (slice 6 8 (index_header t)) = 48"
    by (simp_all add: index_header_def index_magic_def nth_append slice_def)
  then have "read_full 16 \<lparr>src_data = index_header t @ d, src_end = e\<rparr> =
      (index_header t, None, \<lparr>src_data = d, src_end = e\<rparr>)"
    by (simp add: read_full_def)
  then show ?thesis using h by (simp add: load_def)
qed

lemma load_index:
  assumes "list_all wf_entry rs"
  shows "load (Inr (Some \<lparr>src_data = index_header t @ concat (map encode_entry rs), src_end = Sentinel EOF\<rparr>)) =
    Inr (foldl apply_entry [] rs, int (length rs))"
  using load_loop_append [OF assms, of "[]" "Sentinel EOF" "[]" 0]
  by (simp add: load_header load_loop.simps read_full_def)

text \<open>Replay stops at the first window that does not checksum, and what follows it is lost.\<close>

lemma load_damaged:
  assumes "list_all wf_entry rs" and "length w \<ge> 48"
    and "crc32c (take 44 w) \<noteq> word_of_nat (be_nat (slice 44 48 w))"
  shows "load (Inr (Some \<lparr>src_data = index_header t @ concat (map encode_entry rs) @ w, src_end = e\<rparr>)) =
    Inr (foldl apply_entry [] rs, int (length rs))"
proof -
  have "drop 44 (take 48 w) = slice 44 48 w" by (simp add: slice_def drop_take)
  then show ?thesis
    using assms(2,3) load_loop_append [OF assms(1), of w e "[]" 0]
    by (simp add: load_header) (subst load_loop.simps, simp add: read_full_def)
qed

text \<open>The invariant: the file is a header and whole records, and replaying them gives the map.\<close>

definition durable :: "Local \<Rightarrow> bool" where
  "durable l \<longleftrightarrow> lgood l \<and> list_all wf_entry (lm l) \<and> list_all (\<lambda>(_, e). ekind e \<noteq> 3) (lm l) \<and>
     (\<exists>t rs. lfile l = index_header t @ concat (map encode_entry rs) \<and> list_all wf_entry rs \<and>
        lrecords l = int (length rs) \<and> map_of (foldl apply_entry [] rs) = map_of (lm l))"

lemma foldl_apply_kept:
  "distinct (map fst ks) \<Longrightarrow> list_all (\<lambda>(_, e). ekind e \<noteq> 3) ks \<Longrightarrow>
   map_of (foldl apply_entry m ks) = map_of m ++ map_of ks"
proof (induction ks arbitrary: m)
  case (Cons x ks)
  have none: "map_of ks (fst x) = None" using Cons.prems by (simp add: map_of_eq_None_iff)
  have "apply_entry m x = aput (fst x) (snd x) m" using Cons.prems by (cases x) (simp add: apply_entry_def)
  then have "map_of (foldl apply_entry m (x # ks)) = (map_of m)(fst x \<mapsto> snd x) ++ map_of ks"
    using Cons by simp
  also have "\<dots> = map_of m ++ map_of (x # ks)"
    using none by (cases x) (auto simp: map_add_def fun_eq_iff split: option.splits)
  finally show ?case .
qed simp

lemma list_all_kept: "list_all P m \<Longrightarrow> list_all P (kept_entries c m)"
  unfolding kept_entries_def by (auto simp: list_all_iff)

lemma list_all_aput: "list_all P m \<Longrightarrow> P (k, v) \<Longrightarrow> list_all P (aput k v m)"
  unfolding aput_def by (auto simp: list_all_iff)

lemma list_all_adel: "list_all P m \<Longrightarrow> list_all P (adel k m)"
  unfolding adel_def by (auto simp: list_all_iff)

lemma durable_maintain:
  assumes "durable l"
  shows "durable (snd (maintainLocked now l))"
proof -
  have g: "lgood l" "lfaults l = []" "distinct (map fst (lm l))"
    using assms by (auto simp: durable_def lgood_def healthy_def)
  from maintainLocked_ok [OF g(2), of now] show ?thesis
  proof
    assume "\<exists>n. maintainLocked now l = (None, l\<lparr>lsinceSync := n\<rparr>)"
    then obtain n where "maintainLocked now l = (None, l\<lparr>lsinceSync := n\<rparr>)" ..
    then show ?thesis using assms by (simp add: durable_def lgood_def healthy_def)
  next
    assume m: "maintainLocked now l = compactLocked now l"
    let ?ks = "kept_entries (sub64 now (duration_seconds (lretention l))) (lm l)"
    have k: "list_all wf_entry ?ks" "list_all (\<lambda>(_, e). ekind e \<noteq> 3) ?ks" "distinct (map fst ?ks)"
      using assms g(3) by (auto simp: durable_def intro: list_all_kept)
    have "(\<lambda>(h, e). encode_record h (etag e) (ekind e) (ewhen e)) = encode_entry"
      by (auto simp: encode_entry_def)
    moreover have "map_of (foldl apply_entry [] ?ks) = map_of ?ks" using foldl_apply_kept [OF k(3,2), of "[]"] by simp
    ultimately show ?thesis
      using k g unfolding m compactLocked_ok [OF g(2)] durable_def
      by (auto simp: lgood_def healthy_def intro!: exI [of _ now] exI [of _ ?ks])
  qed
qed

lemma durable_append:
  assumes "durable l" and "wf_entry x"
    and "lm l' = apply_entry (lm l) x" and "lfile l' = lfile l @ encode_entry x" and "lrecords l' = lrecords l + 1"
    and "lgood l'"
  shows "durable l'"
proof -
  from assms(1) obtain t rs where rs: "lfile l = index_header t @ concat (map encode_entry rs)" "list_all wf_entry rs"
      "lrecords l = int (length rs)" "map_of (foldl apply_entry [] rs) = map_of (lm l)"
    and m: "list_all wf_entry (lm l)" "list_all (\<lambda>(_, e). ekind e \<noteq> 3) (lm l)"
    by (auto simp: durable_def)
  have "map_of (foldl apply_entry [] (rs @ [x])) = map_of (lm l')"
    using rs(4) assms(3) by (simp add: apply_entry_def)
  moreover have "list_all wf_entry (lm l')" "list_all (\<lambda>(_, e). ekind e \<noteq> 3) (lm l')"
    using m assms(2,3) by (cases x; auto simp: apply_entry_def list_all_aput list_all_adel split: if_splits)+
  ultimately show ?thesis
    using rs assms unfolding durable_def
    by (intro conjI exI [of _ t] exI [of _ "rs @ [x]"]) auto
qed

text \<open>An operation whose clock and tag fit the record.\<close>

fun op_ok :: "int \<times> op \<Rightarrow> bool" where
  "op_ok (now, OpCheck b k t) = (0 \<le> now \<and> now < 2 ^ 63 \<and> length t = 16)"
| "op_ok (now, OpRecord b k t) = (0 \<le> now \<and> now < 2 ^ 63 \<and> length t = 16)"
| "op_ok (now, OpForget b k) = (0 \<le> now \<and> now < 2 ^ 63)"
| "op_ok (now, OpInvalidate b k) = (0 \<le> now \<and> now < 2 ^ 63)"

lemma length_index_name [simp]: "length (index_name key b k) = 16"
  by (simp add: index_name_def)

lemma durable_appendLocked:
  assumes "durable l" and "length h = 16" and "length tag = 16" and "0 \<le> now" and "now < 2 ^ 63" and "kind \<noteq> 3"
  shows "durable (snd (appendLocked now h tag kind l))"
proof -
  let ?e = "\<lparr>etag = tag, ekind = kind, ewhen = now\<rparr>"
  let ?l1 = "l\<lparr>lfile := lfile l @ encode_record h tag kind now, lrecords := lrecords l + 1,
    lsinceSync := lsinceSync l + 1, lm := aput h ?e (lm l)\<rparr>"
  have g: "lgood l" using assms(1) by (simp add: durable_def)
  then have a: "appendLocked now h tag kind l = maintainLocked now ?l1"
    by (simp add: appendLocked_def writeRecordLocked_ok lgood_def)
  have "durable ?l1"
    by (rule durable_append [OF assms(1), of "(h, ?e)"])
      (use assms g in \<open>simp_all add: wf_entry_def apply_entry_def encode_entry_def lgood_def healthy_def\<close>)
  then show ?thesis unfolding a by (rule durable_maintain)
qed

lemma durable_run_op:
  assumes "durable l" and "op_ok (now, x)"
  shows "durable (snd (run_op now x l))"
proof -
  have g: "lgood l" "\<not> lclosed l" using assms(1) by (auto simp: durable_def lgood_def healthy_def)
  show ?thesis
  proof (cases x)
    case (OpCheck b k t)
    have "durable (snd (appendLocked now (index_name (lkey l) b k) t 1 l))"
      using OpCheck assms by (intro durable_appendLocked) auto
    then show ?thesis
      using OpCheck g(2) assms(1) by (auto simp: Check_def Let_def split: option.splits prod.splits)
  next
    case (OpRecord b k t)
    have "durable (snd (appendLocked now (index_name (lkey l) b k) t 1 l))"
      using OpRecord assms by (intro durable_appendLocked) auto
    then show ?thesis using OpRecord g(2) by (simp add: Record_def case_prod_beta)
  next
    case (OpForget b k)
    have "durable (snd (appendLocked now (index_name (lkey l) b k) (replicate 16 0) 2 l))"
      using OpForget assms by (intro durable_appendLocked) auto
    then show ?thesis using OpForget g(2) by (simp add: Forget_def case_prod_beta)
  next
    case (OpInvalidate b k)
    let ?h = "index_name (lkey l) b k" and ?e = "\<lparr>etag = replicate 16 0, ekind = 3, ewhen = now\<rparr>"
    let ?l1 = "l\<lparr>lm := adel ?h (lm l), lfile := lfile l @ encode_record ?h (replicate 16 0) 3 now,
      lrecords := lrecords l + 1, lsinceSync := lsinceSync l + 1\<rparr>"
    have "healthy (l\<lparr>lm := adel ?h (lm l)\<rparr>)" using g by (simp add: lgood_def healthy_def)
    then have i: "Invalidate now b k l = (if map_of (lm l) ?h = None then (None, l) else maintainLocked now ?l1)"
      using g(2) by (simp add: Invalidate_def Let_def writeRecordLocked_ok del: replicate.simps)
    have "durable ?l1"
      by (rule durable_append [OF assms(1), of "(?h, ?e)"])
        (use assms OpInvalidate g in \<open>simp_all add: wf_entry_def apply_entry_def encode_entry_def lgood_def healthy_def
            del: replicate.simps\<close>)
    then have "durable (snd (maintainLocked now ?l1))" by (rule durable_maintain)
    then show ?thesis using OpInvalidate i assms(1) by (simp add: case_prod_beta)
  qed
qed

lemma durable_run_all: "durable l \<Longrightarrow> list_all op_ok xs \<Longrightarrow> durable (run_all run_op xs l)"
proof (induction xs arbitrary: l)
  case (Cons y xs)
  then show ?case by (cases y) (auto simp: durable_run_op)
qed simp

lemma OpenIndex_new:
  assumes "length (oKey opts) = 32" and "oPath opts \<noteq> ''''"
  shows "\<exists>l. OpenIndex opts (Inr None) [] now = Inr l \<and> durable l \<and> lkey l = hkdf32 (oKey opts) [] indexInfo"
proof -
  let ?l = "\<lparr>lretention = cmpOr (oRetention opts) defaultRetention, lsyncEvery = cmpOr (oSyncEvery opts) defaultSyncEvery,
    lkey = hkdf32 (oKey opts) [] indexInfo, lm = [], lfile = index_header now, lopen = True, lfaults = [],
    lrecords = 0, lsinceSync = 0, lclosed = False\<rparr>"
  have "OpenIndex opts (Inr None) [] now = Inr ?l"
    using assms by (simp add: OpenIndex_def load_def writeHeader_def write_file_def Let_def)
  moreover have "durable ?l"
    by (auto simp: durable_def lgood_def healthy_def intro!: exI [of _ now] exI [of _ "[]"])
  ultimately show ?thesis by simp
qed


lemma OpenIndex_again:
  assumes "length (oKey opts) = 32" and "oPath opts \<noteq> ''''" and "durable l"
  shows "\<exists>l2. OpenIndex opts (Inr (Some \<lparr>src_data = lfile l, src_end = Sentinel EOF\<rparr>)) [] now = Inr l2 \<and>
    lkey l2 = hkdf32 (oKey opts) [] indexInfo"
proof -
  obtain m n where "load (Inr (Some \<lparr>src_data = lfile l, src_end = Sentinel EOF\<rparr>)) = Inr (m, n)"
    using assms(3) load_index by (auto simp: durable_def)
  then show ?thesis
    using assms(1,2) by (auto simp: OpenIndex_def writeHeader_def write_file_def Let_def)
qed

section \<open>Properties\<close>

text \<open>A state to try the properties on: an index that was just created.\<close>

definition new_index :: Local where
  "new_index = \<lparr>lretention = defaultRetention, lsyncEvery = defaultSyncEvery, lkey = replicate 32 7, lm = [],
     lfile = index_header 0, lopen = True, lfaults = [], lrecords = 0, lsinceSync = 0, lclosed = False\<rparr>"

lemma durable_new_index: "durable new_index" and lgood_new_index: "lgood new_index"
  by (auto simp: durable_def lgood_def healthy_def new_index_def intro!: exI [of _ 0] exI [of _ "[]"])

text \<open>C37: The local index refines the abstract store. While no I/O call fails, every operation succeeds and
  answers what the store of \<open>store.go\<close> answers on the map of what is known, and leaves the map the abstract
  store has, except that tombstones older than the retention may be gone: a delete is a tombstone with its
  time, and stays one until the clock of an operation is more than the retention past it.\<close>

lemma freshness_refines:
  assumes "lgood l"
  shows "\<exists>l'. run_op now x l = ((fst (spec_op now (lview l) (lname l (op_name x)) x), None), l') \<and> lgood l' \<and>
    lname l' = lname l \<and> lretention l' = lretention l \<and>
    up_to_expiry (sub64 now (duration_seconds (lretention l)))
      (snd (spec_op now (lview l) (lname l (op_name x)) x)) (lview l')"
  using run_op_spec [OF assms, of now x] by (auto simp: lname_def lhorizon_def fun_eq_iff)

lemma freshness_refines_witness:
  "lgood new_index \<and> (\<exists>l'. run_op 5 (OpForget ''b'' ''k'') new_index = ((None, None), l') \<and> lgood l' \<and>
     lview l' (lname l' (''b'', ''k'')) = Some (Gone 5) \<and>
     fst (run_op 6 (OpCheck ''b'' ''k'' (replicate 16 1)) l') = (Some Deleted, None))"
proof -
  obtain l' where l': "run_op 5 (OpForget ''b'' ''k'') new_index = ((None, None), l')" "lgood l'" "lname l' = lname new_index"
      "up_to_expiry (sub64 5 (duration_seconds (lretention new_index)))
         ((lview new_index)(lname new_index (''b'', ''k'') \<mapsto> Gone 5)) (lview l')"
    using freshness_refines [OF lgood_new_index, of 5 "OpForget ''b'' ''k''"] by (auto simp del: run_op.simps)
  have "sub64 5 (duration_seconds (lretention new_index)) \<le> 5" by (simp add: new_index_def duration_seconds_def sub64_def wrap64_def)
  then have g: "lview l' (lname l' (''b'', ''k'')) = Some (Gone 5)"
    using up_to_expiry_Gone [OF l'(4)] l'(3) by simp
  then have "fst (run_op 6 (OpCheck ''b'' ''k'' (replicate 16 1)) l') = (Some Deleted, None)"
    using freshness_refines [OF l'(2), of 6 "OpCheck ''b'' ''k'' (replicate 16 1)"] by (auto simp: judge_def simp del: run_op.simps)
  then show ?thesis using l' g lgood_new_index by blast
qed

text \<open>A rollback is detected. After a write was recorded, and whatever happens to other names before
  the read, the index answers \<open>Fresh\<close> for that version and \<open>Stale\<close> for every other one.\<close>

lemma freshness_rollback:
  assumes "lgood l" and "\<forall>(now, x)\<in>set xs. lname l (op_name x) \<noteq> lname l (b, k)"
  shows "fst (run_op now' (OpCheck b k t') (run_all run_op xs (snd (run_op now (OpRecord b k t) l)))) =
    (Some (if t' = t then Fresh else Stale), None)"
  by (rule index.rollback_detected [OF assms])

lemma freshness_rollback_witness:
  "fst (run_op 6 (OpCheck ''b'' ''k'' (replicate 16 1))
     (run_all run_op [] (snd (run_op 5 (OpRecord ''b'' ''k'' (replicate 16 2)) new_index)))) = (Some Stale, None)"
  using freshness_rollback [OF lgood_new_index, of "[]" "''b''" "''k''" 6 "replicate 16 1" 5 "replicate 16 2"]
  by (simp del: run_op.simps)

text \<open>A suppressed delete is detected. After a delete, and whatever happens to other names, every version of
  the object is answered with \<open>Deleted\<close> while no operation is later than the retention after the delete.\<close>

lemma freshness_deletion:
  assumes "lgood l" and "\<forall>(now', x)\<in>set xs. lname l (op_name x) \<noteq> lname l (b, k)"
    and "list_all (\<lambda>time. sub64 time (duration_seconds (lretention l)) \<le> now) (now # map fst xs)"
  shows "fst (run_op now' (OpCheck b k t') (run_all run_op xs (snd (run_op now (OpForget b k) l)))) = (Some Deleted, None)"
  by (rule index.deletion_detected [OF assms(1,2)]) (use assms(3) in \<open>simp add: lhorizon_def\<close>)

text \<open>C38: A restart loses nothing of an index that was created by this process and whose I/O calls succeeded:
  whatever sequence of operations it has gone through (syncs and compactions included), loading its file
  yields the map it holds in memory and the number of records it counts, and unless it holds no record an
  index opened on that file knows the same. Neither condition can be dropped:
  an index opened a second time before its first record, or one whose append failed, does lose entries
  (the lemmas \<open>index_reopened_empty\<close> and \<open>index_failed_write\<close> below).\<close>

lemma index_durable:
  assumes "length (oKey opts) = 32" and "oPath opts \<noteq> ''''" and "list_all op_ok xs"
  shows "\<exists>l0 l m. OpenIndex opts (Inr None) [] now = Inr l0 \<and> run_all run_op xs l0 = l \<and>
    load (Inr (Some \<lparr>src_data = lfile l, src_end = Sentinel EOF\<rparr>)) = Inr (m, lrecords l) \<and>
    map_of m = map_of (lm l) \<and>
    (lrecords l \<noteq> 0 \<longrightarrow> (\<exists>l2. OpenIndex opts (Inr (Some \<lparr>src_data = lfile l, src_end = Sentinel EOF\<rparr>)) [] now2 = Inr l2 \<and>
       lview l2 = lview l \<and> lfile l2 = lfile l \<and> lrecords l2 = lrecords l))"
proof -
  obtain l0 where l0: "OpenIndex opts (Inr None) [] now = Inr l0" "durable l0"
    using OpenIndex_new [OF assms(1,2)] by blast
  let ?l = "run_all run_op xs l0"
  have "durable ?l" using durable_run_all [OF l0(2) assms(3)] .
  then obtain t rs where rs: "lfile ?l = index_header t @ concat (map encode_entry rs)"
      "list_all wf_entry rs" "lrecords ?l = int (length rs)" "map_of (foldl apply_entry [] rs) = map_of (lm ?l)"
    by (auto simp: durable_def)
  have ld: "load (Inr (Some \<lparr>src_data = lfile ?l, src_end = Sentinel EOF\<rparr>)) = Inr (foldl apply_entry [] rs, lrecords ?l)"
    using load_index [OF rs(2), of t] rs(1,3) by simp
  have "\<exists>l2. OpenIndex opts (Inr (Some \<lparr>src_data = lfile ?l, src_end = Sentinel EOF\<rparr>)) [] now2 = Inr l2 \<and>
      lview l2 = lview ?l \<and> lfile l2 = lfile ?l \<and> lrecords l2 = lrecords ?l" if "lrecords ?l \<noteq> 0"
    using that assms(1,2) ld rs(4) by (simp add: OpenIndex_def Let_def lview_def fun_eq_iff)
  then show ?thesis using l0(1) ld rs(4) by blast
qed

lemma index_durable_witness:
  "\<exists>l0 l m. OpenIndex \<lparr>oPath = ''idx'', oKey = replicate 32 1, oRetention = 0, oSyncEvery = 1\<rparr> (Inr None) [] 9 = Inr l0 \<and>
    run_all run_op [(10, OpRecord ''b'' ''k'' (replicate 16 3)), (11, OpForget ''b'' ''k'')] l0 = l \<and>
    load (Inr (Some \<lparr>src_data = lfile l, src_end = Sentinel EOF\<rparr>)) = Inr (m, lrecords l) \<and> map_of m = map_of (lm l) \<and>
    (lrecords l \<noteq> 0 \<longrightarrow> (\<exists>l2. OpenIndex \<lparr>oPath = ''idx'', oKey = replicate 32 1, oRetention = 0, oSyncEvery = 1\<rparr>
       (Inr (Some \<lparr>src_data = lfile l, src_end = Sentinel EOF\<rparr>)) [] 12 = Inr l2 \<and>
       lview l2 = lview l \<and> lfile l2 = lfile l \<and> lrecords l2 = lrecords l))"
  by (rule index_durable) simp_all


text \<open>An index that is opened twice before its first record loses everything recorded after that. The
  second start appends a second header, which replay reads as the beginning of a record: unless that
  misaligned record happens to checksum, the next start finds an empty index, although every operation
  had reported success.\<close>

lemma index_reopened_empty:
  fixes opts now1 now2 now3 b k t
  defines "h \<equiv> index_name (hkdf32 (oKey opts) [] indexInfo) b k"
  assumes "length (oKey opts) = 32" and "oPath opts \<noteq> ''''" and "length t = 16"
    and "crc32c (index_header now2 @ h @ take 12 t) \<noteq> word_of_nat (be_nat (drop 12 t))"
  shows "\<exists>l0 l1 l2. OpenIndex opts (Inr None) [] now1 = Inr l0 \<and>
    OpenIndex opts (Inr (Some \<lparr>src_data = lfile l0, src_end = Sentinel EOF\<rparr>)) [] now2 = Inr l1 \<and>
    run_op now3 (OpRecord b k t) l1 = ((None, None), l2) \<and> lview l2 (lname l2 (b, k)) = Some (Present t) \<and>
    load (Inr (Some \<lparr>src_data = lfile l2, src_end = Sentinel EOF\<rparr>)) = Inr ([], 0)"
proof -
  let ?l = "\<lambda>f. \<lparr>lretention = cmpOr (oRetention opts) defaultRetention, lsyncEvery = cmpOr (oSyncEvery opts) defaultSyncEvery,
    lkey = hkdf32 (oKey opts) [] indexInfo, lm = [], lfile = f, lopen = True, lfaults = [],
    lrecords = 0, lsinceSync = 0, lclosed = False\<rparr>"
  let ?f = "index_header now1 @ index_header now2"
  have l0: "OpenIndex opts (Inr None) [] now1 = Inr (?l (index_header now1))"
    using assms by (simp add: OpenIndex_def load_def writeHeader_def write_file_def Let_def)
  have ld: "load (Inr (Some \<lparr>src_data = index_header now1, src_end = Sentinel EOF\<rparr>)) = Inr ([], 0)"
    using load_index [of "[]" now1] by simp
  then have l1: "OpenIndex opts (Inr (Some \<lparr>src_data = index_header now1, src_end = Sentinel EOF\<rparr>)) [] now2 = Inr (?l ?f)"
    using assms by (simp add: OpenIndex_def writeHeader_def write_file_def Let_def)
  have g: "lgood (?l ?f)" by (simp add: lgood_def healthy_def)
  let ?e = "\<lparr>etag = t, ekind = 1, ewhen = now3\<rparr>"
  let ?l2 = "(?l ?f)\<lparr>lfile := ?f @ encode_record h t 1 now3, lrecords := 1, lsinceSync := 1, lm := aput h ?e []\<rparr>"
  have "run_op now3 (OpRecord b k t) (?l ?f) = (case maintainLocked now3 ?l2 of (e, l') \<Rightarrow> ((None, e), l'))"
    by (simp add: Record_def appendLocked_def writeRecordLocked_def write_file_def h_def)
  moreover have "\<not> lrecords ?l2 > 2 * int (length (lm ?l2)) + compactFloor" by (simp add: aput_def)
  ultimately have r: "\<exists>n. run_op now3 (OpRecord b k t) (?l ?f) = ((None, None), ?l2\<lparr>lsinceSync := n\<rparr>)"
    by (auto simp: maintainLocked_def intro: exI [of _ 1])
  have len: "length (index_header now2) = 16" "length h = 16"
    by (simp_all add: index_header_def index_magic_def h_def)
  let ?w = "index_header now2 @ encode_record h t 1 now3"
  have w: "take 44 ?w = index_header now2 @ h @ take 12 t" "slice 44 48 ?w = drop 12 t" "length ?w \<ge> 48"
    using len assms(4) by (simp_all add: encode_record_def Let_def record_body_def slice_def)
  have "load (Inr (Some \<lparr>src_data = lfile ?l2, src_end = Sentinel EOF\<rparr>)) = Inr ([], 0)"
    using load_damaged [of "[]" ?w now1] assms(5) w by simp
  moreover obtain n where n: "run_op now3 (OpRecord b k t) (?l ?f) = ((None, None), ?l2\<lparr>lsinceSync := n\<rparr>)"
    using r by blast
  moreover have "lview (?l2\<lparr>lsinceSync := n\<rparr>) (lname (?l2\<lparr>lsinceSync := n\<rparr>) (b, k)) = Some (Present t)"
    by (simp add: lview_def lname_def known_of_def h_def del: map_option_eq_Some)
  ultimately show ?thesis
    by (intro exI [of _ "?l (index_header now1)"] exI [of _ "?l ?f"] exI [of _ "?l2\<lparr>lsinceSync := n\<rparr>"] conjI)
      (simp_all add: l0 l1 n del: run_op.simps)
qed

lemma crc_other: "\<exists>x. (c :: 32 word) \<noteq> word_of_nat (be_nat [0, 0, 0, x])"
proof -
  have z: "be_nat [0, 0, 0, 0] = 0" and o: "be_nat [0, 0, 0, 1] = 1" by (simp_all add: be_nat_def)
  show ?thesis
  proof (cases "c = 0")
    case True
    then have "c \<noteq> word_of_nat (be_nat [0, 0, 0, 1])" unfolding o by simp
    then show ?thesis by (rule exI)
  next
    case False
    then have "c \<noteq> word_of_nat (be_nat [0, 0, 0, 0])" unfolding z by simp
    then show ?thesis by (rule exI)
  qed
qed

lemma index_reopened_empty_witness:
  "\<exists>t l0 l1 l2. OpenIndex \<lparr>oPath = ''idx'', oKey = replicate 32 1, oRetention = 0, oSyncEvery = 0\<rparr> (Inr None) [] 1 = Inr l0 \<and>
    OpenIndex \<lparr>oPath = ''idx'', oKey = replicate 32 1, oRetention = 0, oSyncEvery = 0\<rparr>
      (Inr (Some \<lparr>src_data = lfile l0, src_end = Sentinel EOF\<rparr>)) [] 2 = Inr l1 \<and>
    run_op 3 (OpRecord ''b'' ''k'' t) l1 = ((None, None), l2) \<and>
    lview l2 (lname l2 (''b'', ''k'')) = Some (Present t) \<and>
    load (Inr (Some \<lparr>src_data = lfile l2, src_end = Sentinel EOF\<rparr>)) = Inr ([], 0)"
proof -
  let ?o = "\<lparr>oPath = ''idx'', oKey = replicate 32 1, oRetention = 0, oSyncEvery = 0\<rparr>"
  obtain x where x: "crc32c (index_header 2 @ index_name (hkdf32 (oKey ?o) [] indexInfo) ''b'' ''k'' @ replicate 12 0) \<noteq>
      word_of_nat (be_nat [0, 0, 0, x])"
    using crc_other by blast
  have t: "take 12 (replicate 12 0 @ [0, 0, 0, x]) = replicate 12 0" "drop 12 (replicate 12 0 @ [0, 0, 0, x]) = [0, 0, 0, x]"
    by simp_all
  show ?thesis
    by (rule exI [of _ "replicate 12 0 @ [0, 0, 0, x]"], rule index_reopened_empty)
      (simp, simp, simp, use x in \<open>simp only: t not_False_eq_True\<close>)
qed


text \<open>A write that could not be recorded makes the object unreadable after a restart. When the disk is
  full the entry is dropped from the map, so that the running process trusts the object at its next read;
  but the record of the previous version stays in the file, and an index loaded from it answers \<open>Stale\<close>
  for the version that was just stored.\<close>

lemma index_failed_write:
  assumes "durable l" and "lview l (lname l (b, k)) = Some (Present t0)" and "t \<noteq> t0"
    and "OpenIndex opts (Inr (Some \<lparr>src_data = lfile l, src_end = Sentinel EOF\<rparr>)) [] now2 = Inr l2"
    and "lkey l2 = lkey l"
  shows "\<exists>e l1. run_op now (OpRecord b k t) (l\<lparr>lfaults := [Some (0, disk_full)]\<rparr>) = ((None, Some e), l1) \<and>
    lview l1 (lname l1 (b, k)) = None \<and> lfile l1 = lfile l \<and>
    fst (run_op now3 (OpCheck b k t) l2) = (Some Stale, None)"
proof -
  let ?h = "index_name (lkey l) b k"
  let ?e = "Errorf ''freshness: appending to the index: %w'' [disk_full]"
  have g: "lgood l" "lopen l" "\<not> lclosed l" using assms(1) by (auto simp: durable_def lgood_def healthy_def)
  have r: "run_op now (OpRecord b k t) (l\<lparr>lfaults := [Some (0, disk_full)]\<rparr>) = ((None, Some ?e), l\<lparr>lfaults := [], lm := adel ?h (lm l)\<rparr>)"
    using g by (simp add: Record_def appendLocked_def writeRecordLocked_def write_file_def io_def)
  obtain t' rs where rs: "lfile l = index_header t' @ concat (map encode_entry rs)" "list_all wf_entry rs"
      "map_of (foldl apply_entry [] rs) = map_of (lm l)"
    using assms(1) by (auto simp: durable_def)
  have "map_of (lm l) ?h \<noteq> None" using assms(2) by (auto simp: lview_def lname_def)
  then have "rs \<noteq> []" using rs(3) by auto
  then have m: "lm l2 = foldl apply_entry [] rs" "lclosed l2 = False"
    using assms(4) load_index [OF rs(2), of t'] rs(1)
    by (auto simp: OpenIndex_def Let_def ebind_def emap_err_def split: if_splits sum.splits)
  obtain x where "map_of (lm l) ?h = Some x" "known_of x = Present t0"
    using assms(2) by (auto simp: lview_def lname_def)
  then have "fst (run_op now3 (OpCheck b k t) l2) = (Some Stale, None)"
    using m rs(3) assms(3,5) by (auto simp: Check_def known_of_def split: if_splits)
  moreover have "lview (l\<lparr>lfaults := [], lm := adel ?h (lm l)\<rparr>) (lname (l\<lparr>lfaults := [], lm := adel ?h (lm l)\<rparr>) (b, k)) = None"
    by (simp add: lview_def lname_def)
  ultimately show ?thesis
    by (intro exI [of _ ?e] exI [of _ "l\<lparr>lfaults := [], lm := adel ?h (lm l)\<rparr>"]) (simp add: r del: run_op.simps)
qed


lemma index_failed_write_witness:
  "\<exists>l l2 e l1. lview l (lname l (''b'', ''k'')) = Some (Present (replicate 16 1)) \<and>
    OpenIndex \<lparr>oPath = ''idx'', oKey = replicate 32 1, oRetention = 0, oSyncEvery = 0\<rparr>
      (Inr (Some \<lparr>src_data = lfile l, src_end = Sentinel EOF\<rparr>)) [] 9 = Inr l2 \<and>
    run_op 7 (OpRecord ''b'' ''k'' (replicate 16 2)) (l\<lparr>lfaults := [Some (0, Sentinel EOF)]\<rparr>) = ((None, Some e), l1) \<and>
    fst (run_op 10 (OpCheck ''b'' ''k'' (replicate 16 2)) l2) = (Some Stale, None)"
proof -
  let ?o = "\<lparr>oPath = ''idx'', oKey = replicate 32 1, oRetention = 0, oSyncEvery = 0\<rparr>"
  let ?t = "replicate 16 (1 :: byte)" and ?x = "OpRecord ''b'' ''k'' (replicate 16 1)"
  have o: "length (oKey ?o) = 32" "oPath ?o \<noteq> ''''" by simp_all
  obtain l0 where l0: "durable l0" "lkey l0 = hkdf32 (oKey ?o) [] indexInfo" using OpenIndex_new [OF o] by blast
  have g: "lgood l0" using l0(1) by (simp add: durable_def)
  obtain l where l: "run_op 5 ?x l0 = ((None, None), l)" "lkey l = lkey l0"
      "up_to_expiry (lhorizon l0 5) ((lview l0)(lname l0 (''b'', ''k'') \<mapsto> Present ?t)) (lview l)"
    using run_op_spec [OF g, of 5 ?x] by (auto simp del: run_op.simps)
  have d: "durable l" using durable_run_op [OF l0(1), of 5 ?x] l(1) by (simp del: run_op.simps)
  have v: "lview l (lname l (''b'', ''k'')) = Some (Present ?t)"
    using up_to_expiry_Present [OF l(3)] l(2) by (simp add: lname_def)
  obtain l2 where l2: "OpenIndex ?o (Inr (Some \<lparr>src_data = lfile l, src_end = Sentinel EOF\<rparr>)) [] 9 = Inr l2" "lkey l2 = lkey l"
    using OpenIndex_again [OF o d] l0(2) l(2) by metis
  have "replicate 16 2 \<noteq> ?t" by simp
  from index_failed_write [OF d v this l2, of 7 "Sentinel EOF" 10] v l2(1) show ?thesis by blast
qed

end
