(* ===== verification/Envelope.thy ===== *)
theory Envelope
  imports SegmentRange Keys
begin

text \<open>
  \<open>internal/crypto/envelope\<close>: the local file format \<open>BBF1\<close>, an envelope naming the key that protects a
  file followed by one segment. The lemmas are proved in the context of \<open>key_provider\<close>, for any
  provider, and reach the keyring through its interpretation.
\<close>

section \<open>The code\<close>

definition fileMagic :: bytes where "fileMagic = bytes_of ''BBF1''"
definition fileVersion :: byte where [simp]: "fileVersion = 1"
definition fixedPrefixSize :: nat where [simp]: "fixedPrefixSize = 7"

text \<open>\<open>io.Copy\<close> reads through a 32 KiB buffer; the pieces a reader yields are the arguments of the
  \<open>Write\<close> calls. It treats exactly \<open>io.EOF\<close> as the end.\<close>

function pieces :: "nat \<Rightarrow> bytes \<Rightarrow> bytes list" where
  "pieces n b = (if n = 0 \<or> b = [] then [] else take n b # pieces n (drop n b))"
  by pat_completeness auto
termination
  by (relation "measure (\<lambda>(_, b). length b)") auto

declare pieces.simps [simp del]

definition copyIn :: "source \<Rightarrow> EncryptWriter \<Rightarrow> err option \<times> EncryptWriter" where
  "copyIn src w =
     (case writes (pieces 32768 (src_data src)) w of
        (Some e, w') \<Rightarrow> (Some e, w')
      | (None, w') \<Rightarrow> (if src_end src = Sentinel EOF then None else Some (src_end src), w'))"

definition Encrypt ::
  "bytes result \<Rightarrow> bytes result \<Rightarrow> bytes result \<Rightarrow> (nat \<Rightarrow> byte) \<Rightarrow> KeyProvider \<Rightarrow> byte \<Rightarrow> source \<Rightarrow> sink
    \<Rightarrow> err option \<times> sink" where
  "Encrypt rndDEK rndNonce rndSalt stale P log2C src dst =
     (let kid = pActiveKID P in
      case ebind (echeck (ValidateKID kid) (FileAAD kid)) (\<lambda>ad.
             ebind (emap_err (\<lambda>e. Errorf ''envelope: generating a data key: %w'' [e]) (NewDEK rndDEK)) (\<lambda>dek.
             ebind (emap_err (\<lambda>e. Errorf ''envelope: wrapping the data key: %w'' [e])
                      (pWrap P rndNonce kid dek ad)) (\<lambda>wrapped. Inr (dek, wrapped)))) of
        Inl e \<Rightarrow> (Some e, dst)
      | Inr (dek, wrapped) \<Rightarrow>
          (let hdr = fileMagic @ [fileVersion] @ be_bytes 2 (length kid) @ bytes_of kid @ wrapped in
           case sink_write hdr dst of
             (Some e, d) \<Rightarrow> (Some e, d)
           | (None, d) \<Rightarrow>
               (case NewEncryptWriter rndSalt stale d dek
                       \<lparr>Log2ChunkSize = log2C, Multipart = False, Index = 0\<rparr> of
                  Inl e \<Rightarrow> (Some e, d)
                | Inr w \<Rightarrow>
                    (case copyIn src w of
                       (Some e, w') \<Rightarrow> (Some e, wdst w')
                     | (None, w') \<Rightarrow>
                         (case CloseWriter w' of (e, w'') \<Rightarrow> (e, wdst w''))))))"

definition readHeader :: "source \<Rightarrow> (string \<times> bytes) result \<times> source" where
  "readHeader src =
     (case read_full fixedPrefixSize src of
        (_, Some e, s) \<Rightarrow>
          (if errors_is EOF e \<or> errors_is UnexpectedEOF e
           then Inl (Errorf ''%w: shorter than an envelope header'' [Sentinel ErrNotBlindbucketFile])
           else Inl e, s)
      | (pre, None, s) \<Rightarrow>
          (if take 4 pre \<noteq> fileMagic
           then (Inl (Errorf ''%w: bad magic %q'' [Sentinel ErrNotBlindbucketFile]), s)
           else if pre ! 4 \<noteq> fileVersion
           then (Inl (Errorf ''envelope: unsupported file version %d, this build reads %d'' []), s)
           else let kidLen = be_nat (drop 5 pre) in
             if kidLen = 0 \<or> kidLen > MaxKIDLen
             then (Inl (Errorf ''envelope: key id length %d outside 1..%d'' []), s)
             else case read_full (kidLen + WrappedDEKSize) s of
                    (_, Some e, s2) \<Rightarrow>
                      (if errors_is EOF e \<or> errors_is UnexpectedEOF e
                       then Inl (Errorf ''envelope: truncated header'' []) else Inl e, s2)
                  | (rest, None, s2) \<Rightarrow>
                      (let kid = string_of (take kidLen rest) in
                       (echeck (ValidateKID kid) (Inr (kid, drop kidLen rest)), s2))))"

text \<open>\<open>io.Copy\<close> from a reader into a writer.\<close>

fun io_copy :: "('s \<Rightarrow> bytes \<times> err option \<times> 's) \<Rightarrow> nat \<Rightarrow> 's \<Rightarrow> sink \<Rightarrow> (err option \<times> sink) option" where
  "io_copy rd 0 s d = None"
| "io_copy rd (Suc fuel) s d =
     (case rd s of (b, e, s') \<Rightarrow>
        (case (if b = [] then (None, d) else sink_write b d) of
           (Some we, d') \<Rightarrow> Some (Some we, d')
         | (None, d') \<Rightarrow>
             (case e of
                Some e \<Rightarrow> Some (if e = Sentinel EOF then None else Some e, d')
              | None \<Rightarrow> io_copy rd fuel s' d')))"

text \<open>The fuel is one more than the bytes of the file, and every read before the last delivers at
  least one of them, so \<open>None\<close>, running out of it, does not happen.\<close>

definition Decrypt :: "KeyProvider \<Rightarrow> source \<Rightarrow> sink \<Rightarrow> (err option \<times> sink) option" where
  "Decrypt P src dst =
     (case readHeader src of
        (Inl e, _) \<Rightarrow> Some (Some e, dst)
      | (Inr (kid, wrapped), s) \<Rightarrow>
          (case FileAAD kid of
             Inl e \<Rightarrow> Some (Some e, dst)
           | Inr ad \<Rightarrow>
               (case pUnwrap P kid wrapped ad of
                  Inl e \<Rightarrow> Some (Some (Errorf ''envelope: unwrapping the data key for %q: %w'' [e]), dst)
                | Inr dek \<Rightarrow>
                    (case NewDecryptReader s dek
                            \<lparr>Log2ChunkSize = AnyChunkSize, Multipart = False, Index = 0\<rparr> of
                       Inl e \<Rightarrow> Some (Some e, dst)
                     | Inr r \<Rightarrow>
                         (case VerifyFirstD r of
                            (Some e, r') \<Rightarrow> Some (Some e, dst)
                          | (None, r') \<Rightarrow>
                              io_copy (ReadD 32768) (Suc (length (src_data src))) r' dst)))))"

definition KeyID :: "source \<Rightarrow> string result" where
  "KeyID src = ebind (fst (readHeader src)) (\<lambda>(kid, _). Inr kid)"

definition EnvelopeHeader :: "source \<Rightarrow> (string \<times> int) result" where
  "EnvelopeHeader src =
     ebind (fst (readHeader src)) (\<lambda>(kid, wrapped).
       Inr (kid, int (fixedPrefixSize + length kid + length wrapped)))"

section \<open>Helpers\<close>

lemma concat_pieces: "0 < n \<Longrightarrow> concat (pieces n b) = b"
proof (induction n b rule: pieces.induct)
  case (1 n b)
  then show ?case by (subst pieces.simps) auto
qed

lemma io_copy_drain:
  assumes "drain rd fuel s = Some (bs, e, t)" and "snk_plan d = []"
  shows "io_copy rd fuel s d = Some (e, d\<lparr>snk_out := snk_out d @ bs\<rparr>)"
  using assms
proof (induction fuel arbitrary: s bs d)
  case (Suc fuel)
  obtain b x s' where r: "rd s = (b, x, s')" by (metis prod_cases3)
  show ?case
  proof (cases x)
    case (Some y)
    then show ?thesis using Suc.prems r by (auto split: if_splits)
  next
    case None
    then obtain bs' where "drain rd fuel s' = Some (bs', e, t)" "bs = b @ bs'"
      using Suc.prems(1) r by auto
    then show ?thesis
      using Suc.IH [of s' bs' d] Suc.IH [of s' bs' "d\<lparr>snk_out := snk_out d @ b\<rparr>"] Suc.prems(2) None r
      by simp
  qed
qed simp

lemma copyIn_run:
  assumes "writer_run k out0 p w" "\<not> wclosed w" and "length p + length (src_data src) \<le> 2 ^ 46"
    and "src_end src = Sentinel EOF"
  shows "\<exists>w'. copyIn src w = (None, w') \<and> writer_run k out0 (p @ src_data src) w' \<and>
    wheader w' = wheader w \<and> \<not> wclosed w'"
  using writes_run [OF assms(1,2), of "pieces 32768 (src_data src)"] assms(3,4)
  by (auto simp: concat_pieces copyIn_def)

definition file_bytes :: "string \<Rightarrow> bytes \<Rightarrow> bytes \<Rightarrow> bytes" where
  "file_bytes kid wrapped seg = fileMagic @ [fileVersion] @ be_bytes 2 (length kid) @ bytes_of kid @ wrapped @ seg"

lemma readHeader_file:
  assumes "ValidateKID kid = None" and "length wrapped = 60"
  shows "readHeader \<lparr>src_data = file_bytes kid wrapped seg, src_end = e\<rparr> =
    (Inr (kid, wrapped), \<lparr>src_data = seg, src_end = e\<rparr>)"
proof -
  have kl: "0 < length kid" "length kid \<le> 64"
    using assms(1) by (simp_all add: ValidateKID_None)
  have ml: "length fileMagic = 4" by (simp add: fileMagic_def)
  have p: "read_full 7 \<lparr>src_data = file_bytes kid wrapped seg, src_end = e\<rparr> =
      (fileMagic @ [1] @ be_bytes 2 (length kid), None, \<lparr>src_data = bytes_of kid @ wrapped @ seg, src_end = e\<rparr>)"
    by (simp add: read_full_def file_bytes_def ml)
  have q: "read_full (length kid + 60) \<lparr>src_data = bytes_of kid @ wrapped @ seg, src_end = e\<rparr> =
      (bytes_of kid @ wrapped, None, \<lparr>src_data = seg, src_end = e\<rparr>)"
    by (simp add: read_full_def assms(2))
  have n: "be_nat (be_bytes 2 (length kid)) = length kid"
    using kl by simp
  show ?thesis
    unfolding readHeader_def fixedPrefixSize_def p
    using kl q assms(1) by (simp add: ml nth_append n)
qed

section \<open>Files under any provider\<close>

context key_provider
begin

lemma Encrypt_ok:
  assumes k: "ValidateKID (pActiveKID P) = None" "FileAAD (pActiveKID P) = Inr ad"
      "pWrap P (Inr nonce) (pActiveKID P) dek ad = Inr wrapped"
    and l: "length nonce = 12" "length dek = 32" "length salt = 20" "ValidateLog2ChunkSize log2C = None"
    and s: "src_end src = Sentinel EOF" "length (src_data src) \<le> 2 ^ 46" "snk_plan dst = []"
  defines "p \<equiv> \<lparr>Log2ChunkSize = log2C, Multipart = False, Index = 0\<rparr>"
  shows "\<exists>d. Encrypt (Inr dek) (Inr nonce) (Inr salt) stale P log2C src dst = (None, d) \<and>
    snk_out d = snk_out dst @ file_bytes (pActiveKID P) wrapped
      (seal_segment dek \<lparr>hparams = p, hsalt = salt, raw = header_layout p salt\<rparr> (src_data src))"
proof -
  let ?kid = "pActiveKID P"
  let ?hdr = "fileMagic @ [1] @ be_bytes 2 (length ?kid) @ bytes_of ?kid @ wrapped"
  let ?d = "dst\<lparr>snk_out := snk_out dst @ ?hdr\<rparr>"
  define h where "h = \<lparr>hparams = p, hsalt = salt, raw = header_layout p salt\<rparr>"
  have v: "Validate p = None" using l(4) by (simp add: p_def Validate_def validateIdentity_def)
  obtain w0 where w0: "NewEncryptWriter (Inr salt) stale ?d dek p = Inr w0"
      "newEncryptWriter stale ?d dek h = Inr w0"
    using newHeader_ok [OF v, of salt] l(2,3)
    by (simp add: NewEncryptWriter_def newEncryptWriter_def newSealer_eq h_def)
  have pl: "snk_plan ?d = []" using s(3) by simp
  note r0 = newEncryptWriter_run [OF w0(2) pl]
  obtain w1 where w1: "copyIn src w0 = (None, w1)" "wheader w1 = h" "\<not> wclosed w1"
      "writer_run (subkey dek (hsalt h)) (snk_out ?d) (src_data src) w1"
    using copyIn_run [of _ _ "[]" w0 src] r0 s(1,2) by auto
  obtain w2 where "CloseWriter w1 = (None, w2)"
      "snk_out (wdst w2) = snk_out ?d @ seal_segment dek h (src_data src)"
    using CloseWriter_run [OF w1(4,3)] w1(2) by (auto simp: seal_segment_def)
  then show ?thesis
    using k w0(1) w1(1) s(3)
    by (simp add: Encrypt_def NewDEK_def Let_def p_def [symmetric] file_bytes_def h_def)
qed

lemma Decrypt_file:
  assumes "ValidateKID kid = None" "FileAAD kid = Inr ad" "pUnwrap P kid wrapped ad = Inr dek"
    and "length wrapped = 60" "length dek = 32"
    and "wf_header h" "Multipart (hparams h) = False" "Index (hparams h) = 0"
    and "snk_plan dst = []"
  shows "Decrypt P \<lparr>src_data = file_bytes kid wrapped (seal_segment dek h p), src_end = Sentinel EOF\<rparr> dst =
    Some (None, dst\<lparr>snk_out := snk_out dst @ p\<rparr>)"
proof -
  let ?want = "\<lparr>Log2ChunkSize = 0, Multipart = False, Index = 0\<rparr> :: SegmentParams"
  let ?s = "\<lparr>src_data = seal_segment dek h p, src_end = Sentinel EOF\<rparr>"
  have want: "validateExpectation ?want = None" "requireParams h ?want = None"
    using assms(7,8) by (simp_all add: validateExpectation_def validateIdentity_def requireParams_self)
  obtain r where r: "NewDecryptReader ?s dek ?want = Inr r" "readerD_inv r" "restD r = p" "outcomeD r = Sentinel EOF"
    using reader_ok [OF assms(6) want assms(5)] by blast
  obtain r' where r': "VerifyFirstD r = (None, r')" "readerD_inv r'" "restD r' = p" "outcomeD r' = Sentinel EOF"
    using VerifyFirstD_cases [OF r(1)] r(3,4) by (cases "VerifyFirstD r") (auto split: option.splits)
  have "length p < Suc (length (file_bytes kid wrapped (seal_segment dek h p)))"
    using length_seal_from_le [of p "subkey dek (hsalt h)" "raw h" "chunkSize h" 0]
    by (simp add: file_bytes_def seal_segment_def)
  from decrypt.drain_rest [OF r'(2), of 32768, unfolded r'(3,4), OF _ this] obtain t where
    "drain (ReadD 32768) (Suc (length (file_bytes kid wrapped (seal_segment dek h p)))) r' = Some (p, None, t)"
    by auto
  from io_copy_drain [OF this assms(9)] show ?thesis
    unfolding Decrypt_def using readHeader_file [OF assms(1,4)] assms(2,3) r(1) r'(1)
    by (simp del: io_copy.simps)
qed

end

text \<open>\<open>Decrypt\<close> always returns: the fuel of its copy is enough.\<close>

lemma io_copy_returns:
  assumes "drain rd fuel s \<noteq> None"
  shows "io_copy rd fuel s d \<noteq> None"
  using assms
proof (induction fuel arbitrary: s d)
  case (Suc fuel)
  obtain b x s' where r: "rd s = (b, x, s')" by (metis prod_cases3)
  have "x = None \<Longrightarrow> drain rd fuel s' \<noteq> None" using Suc.prems r by auto
  then show ?case
    using Suc.IH [of s'] r by (auto split: option.splits prod.splits)
qed simp

lemma readHeader_shrinks:
  assumes "readHeader src = (Inr (kid, w), s)"
  shows "length (src_data s) \<le> length (src_data src)"
proof -
  obtain b e t where r1: "read_full 7 src = (b, e, t)" by (metis prod_cases3)
  obtain b2 e2 t2 where r2: "read_full (be_nat (drop 5 b) + 60) t = (b2, e2, t2)" by (metis prod_cases3)
  have "s = t \<or> s = t2"
    using assms r1 r2
    by (cases e; cases e2) (auto simp: readHeader_def Let_def split: if_splits)
  then show ?thesis
    using read_full_data [OF r1] read_full_data [OF r2] by auto
qed

section \<open>Properties\<close>

text \<open>C31: A file reads back, also after a key rotation. For every keyring whose active key is usable, what
  \<open>Encrypt\<close> writes for a source (with any randomness and any recycled buffer) is decrypted by \<open>Decrypt\<close> to
  exactly the bytes of the source with any keyring that holds the same key under the same id, whichever
  key is active there and whatever else it holds; and \<open>KeyID\<close> reports the key id it was encrypted under.\<close>

theorem file_roundtrip:
  assumes "ValidateKID (ActiveKID r) = None" and "lookup r (ActiveKID r) = Inr kek" and "length kek = 32"
    and "length nonce = 12" and "length dek = 32" and "length salt = 20"
    and "ValidateLog2ChunkSize log2C = None" and "length plain \<le> 2 ^ 46" and "lookup r' (ActiveKID r) = Inr kek"
  shows "\<exists>d. Encrypt (Inr dek) (Inr nonce) (Inr salt) stale (keyring_provider r) log2C
        \<lparr>src_data = plain, src_end = Sentinel EOF\<rparr> new_sink = (None, d) \<and>
    Decrypt (keyring_provider r') \<lparr>src_data = snk_out d, src_end = Sentinel EOF\<rparr> new_sink =
      Some (None, new_sink\<lparr>snk_out := plain\<rparr>) \<and>
    KeyID \<lparr>src_data = snk_out d, src_end = Sentinel EOF\<rparr> = Inr (ActiveKID r)"
proof -
  let ?P = "keyring_provider r" and ?kid = "ActiveKID r"
  let ?p = "\<lparr>Log2ChunkSize = log2C, Multipart = False, Index = 0\<rparr> :: SegmentParams"
  define h where "h = \<lparr>hparams = ?p, hsalt = salt, raw = header_layout ?p salt\<rparr>"
  have kid: "pActiveKID ?P = ?kid" by (simp add: keyring_provider_def)
  obtain ad where ad: "FileAAD ?kid = Inr ad"
    using assms(1) by (auto simp: FileAAD_Inr)
  obtain w where w: "pWrap ?P (Inr nonce) ?kid dek ad = Inr w"
    using assms(2,3,5) by (auto simp: keyring_provider_def Wrap_def sealKey_Inr)
  have "pUnwrap ?P ?kid w ad = Inr dek" using keyring.unwrap_wrap [OF w assms(4)] .
  then have un: "pUnwrap (keyring_provider r') ?kid w ad = Inr dek" "length w = 60"
    using assms(2,9) keyring.wrap_length [OF w assms(4)] assms(5) by (simp_all add: keyring_provider_def Unwrap_def)
  obtain d where d: "Encrypt (Inr dek) (Inr nonce) (Inr salt) stale ?P log2C
        \<lparr>src_data = plain, src_end = Sentinel EOF\<rparr> new_sink = (None, d)"
      "snk_out d = file_bytes ?kid w (seal_segment dek h plain)"
    using keyring.Encrypt_ok [of r ad nonce dek w salt log2C "\<lparr>src_data = plain, src_end = Sentinel EOF\<rparr>"
        new_sink stale] assms ad w by (auto simp: kid h_def)
  have "wf_header h"
    using assms(6,7) by (simp add: h_def wf_header_def Validate_def validateIdentity_def)
  then have "Decrypt (keyring_provider r') \<lparr>src_data = snk_out d, src_end = Sentinel EOF\<rparr> new_sink =
      Some (None, new_sink\<lparr>snk_out := plain\<rparr>)"
    using keyring.Decrypt_file [OF assms(1) ad un assms(5), of h new_sink plain] d(2) by (simp add: h_def)
  moreover have "KeyID \<lparr>src_data = snk_out d, src_end = Sentinel EOF\<rparr> = Inr ?kid"
    unfolding KeyID_def d(2) using readHeader_file [OF assms(1) un(2)] by simp
  ultimately show ?thesis using d(1) by blast
qed

theorem file_roundtrip_witness:
  "\<exists>r r' d. ActiveKID r = ''k1'' \<and> ActiveKID r' = ''k2'' \<and>
    Encrypt (Inr (replicate 32 2)) (Inr (replicate 12 3)) (Inr (replicate 20 4)) (\<lambda>_. 0) (keyring_provider r) 16
      \<lparr>src_data = [1, 2, 3], src_end = Sentinel EOF\<rparr> new_sink = (None, d) \<and>
    Decrypt (keyring_provider r') \<lparr>src_data = snk_out d, src_end = Sentinel EOF\<rparr> new_sink =
      Some (None, new_sink\<lparr>snk_out := [1, 2, 3]\<rparr>) \<and>
    KeyID \<lparr>src_data = snk_out d, src_end = Sentinel EOF\<rparr> = Inr ''k1''"
proof -
  let ?r = "\<lparr>kactive = ''k1'', keks = [(''k1'', replicate 32 1)], kcreated = [(''k1'', 0)], kaudit = None,
    kname = None, kfreshness = None\<rparr>"
  let ?r' = "?r\<lparr>kactive := ''k2'', keks := [(''k2'', replicate 32 8), (''k1'', replicate 32 1)], kcreated := [(''k2'', 5), (''k1'', 0)]\<rparr>"
  have v: "ValidateKID ''k1'' = None" by code_simp
  show ?thesis
    using file_roundtrip [of ?r "replicate 32 1" "replicate 12 3" "replicate 32 2" "replicate 20 4" 16 "[1, 2, 3]" ?r' "\<lambda>_. 0"] v
    by (intro exI [of _ ?r] exI [of _ ?r']) (auto simp: ActiveKID_def lookup_def ValidateLog2ChunkSize_def simp del: replicate.simps)
qed

text \<open>\<open>Decrypt\<close> returns on every input, and fails closed: whatever the file, the provider and the
  destination, it terminates, and when it cannot authenticate the envelope and the first chunk it
  reports an error with the destination untouched.\<close>

theorem decrypt_fails_closed:
  "\<exists>e d. Decrypt P src dst = Some (e, d) \<and>
    (e \<noteq> None \<and> d = dst \<or> (\<exists>kid wrapped s ad dek r r'. readHeader src = (Inr (kid, wrapped), s) \<and> FileAAD kid = Inr ad \<and>
      pUnwrap P kid wrapped ad = Inr dek \<and>
      NewDecryptReader s dek \<lparr>Log2ChunkSize = AnyChunkSize, Multipart = False, Index = 0\<rparr> = Inr r \<and>
      VerifyFirstD r = (None, r')))"
proof (cases "\<exists>kid wrapped s ad dek r r'. readHeader src = (Inr (kid, wrapped), s) \<and> FileAAD kid = Inr ad \<and>
      pUnwrap P kid wrapped ad = Inr dek \<and>
      NewDecryptReader s dek \<lparr>Log2ChunkSize = AnyChunkSize, Multipart = False, Index = 0\<rparr> = Inr r \<and>
      VerifyFirstD r = (None, r')")
  case True
  then obtain kid wrapped s ad dek r r' where c: "readHeader src = (Inr (kid, wrapped), s)" "FileAAD kid = Inr ad"
      "pUnwrap P kid wrapped ad = Inr dek"
      "NewDecryptReader s dek \<lparr>Log2ChunkSize = AnyChunkSize, Multipart = False, Index = 0\<rparr> = Inr r"
      "VerifyFirstD r = (None, r')" by blast
  have r': "readerD_inv r'" "restD r' = restD r"
    using VerifyFirstD_cases [OF c(4)] c(5) by simp_all
  have "length (restD r) \<le> length (src_data s)"
    using c(4) by (rule NewDecryptReader_rest) simp
  then have "length (restD r') < Suc (length (src_data src))"
    using readHeader_shrinks [OF c(1)] r'(2) by simp
  then have "drain (ReadD 32768) (Suc (length (src_data src))) r' \<noteq> None"
    using decrypt.drain_rest [OF r'(1), of 32768] by fastforce
  then obtain e d where "io_copy (ReadD 32768) (Suc (length (src_data src))) r' dst = Some (e, d)"
    using io_copy_returns by (metis not_None_eq surj_pair)
  with c have "Decrypt P src dst = Some (e, d)" by (simp add: Decrypt_def del: io_copy.simps)
  with True show ?thesis by blast
next
  case False
  then have "\<exists>e. Decrypt P src dst = Some (Some e, dst)"
    by (auto simp: Decrypt_def simp del: io_copy.simps split: prod.splits sum.splits option.splits)
  then show ?thesis by blast
qed

end
