(* ===== verification/Tags.thy ===== *)
theory Tags
  imports Keys Tenants "HOL-Library.Multiset"
begin

text \<open>
  \<open>internal/crypto/tags\<close>: the sealed tag set of an object version. The sidecar of a version is found under a
  name made of the stored key and the wrapped data key, and sealed under a key derived from the data key
  with the bucket and the key as associated data. A tag set has one canonical encoding. Which characters are
  letters, numbers or spaces is Unicode's table, the argument \<open>uni\<close> of \<open>tags_Validate\<close>.
\<close>

section \<open>Names\<close>

definition TagMagic :: bytes where "TagMagic = bytes_of ''BBT1''"
definition TagPrefix :: string where "TagPrefix = ''.blindbucket/t/''"
definition MaxTags :: nat where [simp]: "MaxTags = 10"
definition tags_info :: string where "tags_info = ''blindbucket/v1/tags''"

record Tag =
  tagKey :: string
  tagValue :: string

definition BindingID :: "string \<Rightarrow> string" where
  "BindingID wrappedDEK = b64url_EncodeToString (take 16 (sha256 (bytes_of wrappedDEK)))"

definition tags_PrefixFor :: "string \<Rightarrow> string" where
  "tags_PrefixFor storedKey = TagPrefix @ hex_EncodeToString (sha256 (bytes_of storedKey)) @ ''/''"

definition tags_Path :: "string \<Rightarrow> string \<Rightarrow> string" where
  "tags_Path storedKey wrappedDEK = tags_PrefixFor storedKey @ BindingID wrappedDEK"

definition KeyMetadata :: string where "KeyMetadata = ''bb-key''"

definition tags_Metadata :: "string \<Rightarrow> (string \<times> string) list" where
  "tags_Metadata storedKey = [(KeyMetadata, b64url_EncodeToString (bytes_of storedKey))]"

definition StoredKeyOf :: "string \<Rightarrow> (string \<times> string) list \<Rightarrow> string option" where
  "StoredKeyOf sidecarKey md =
     (case List.find (\<lambda>(name, _). EqualFold name KeyMetadata) md of
        None \<Rightarrow> None
      | Some (_, v) \<Rightarrow>
          (case b64url_DecodeString v of
             Inl _ \<Rightarrow> None
           | Inr rw \<Rightarrow>
               (let key = string_of rw in
                if starts_with (tags_PrefixFor key) sidecarKey then Some key else None)))"

text \<open>\<open>strings.Cut\<close> at the first slash.\<close>

definition cut_slash :: "string \<Rightarrow> (string \<times> string) option" where
  "cut_slash s =
     (if CHR ''/'' \<in> set s
      then Some (takeWhile (\<lambda>c. c \<noteq> CHR ''/'') s, tl (dropWhile (\<lambda>c. c \<noteq> CHR ''/'') s)) else None)"

definition SplitPath :: "string \<Rightarrow> (string \<times> string) option" where
  "SplitPath key =
     (if \<not> starts_with TagPrefix key then None
      else case cut_slash (drop (length TagPrefix) key) of
        None \<Rightarrow> None
      | Some (hash, binding) \<Rightarrow>
          if length hash \<noteq> 64 \<or> length binding \<noteq> 22 \<or> CHR ''/'' \<in> set binding then None
          else Some (hash, binding))"

section \<open>Encoding\<close>

definition tags_appendLP :: "bytes \<Rightarrow> string \<Rightarrow> bytes result" where
  "tags_appendLP dst x =
     (if length x > 0xffff then Inl (Errorf ''%w: a field of %d bytes exceeds the length prefix'' [Sentinel ErrMalformed])
      else Inr (dst @ be_bytes 2 (length x) @ bytes_of x))"

definition tags_readLP :: "bytes \<Rightarrow> (string \<times> bytes) result" where
  "tags_readLP b =
     (if length b < 2 then Inl (Errorf ''%w: a length prefix cut short'' [Sentinel ErrMalformed])
      else let n = be_nat (take 2 b) in
        if length b < 2 + n then Inl (Errorf ''%w: a field cut short'' [Sentinel ErrMalformed])
        else Inr (string_of (take n (drop 2 b)), drop (2 + n) b))"

fun encode_loop :: "string option \<Rightarrow> Tag list \<Rightarrow> bytes \<Rightarrow> bytes result" where
  "encode_loop prev [] out = Inr out"
| "encode_loop prev (t # ts) out =
     (if tagKey t = '''' then Inl (Errorf ''%w: an empty key'' [Sentinel ErrMalformed])
      else if prev = Some (tagKey t) then Inl (Errorf ''%w: the key %q twice'' [Sentinel ErrMalformed])
      else ebind (tags_appendLP out (tagKey t)) (\<lambda>out.
           ebind (tags_appendLP out (tagValue t)) (\<lambda>out.
             encode_loop (Some (tagKey t)) ts out)))"

definition tags_Encode :: "Tag list \<Rightarrow> bytes result" where
  "tags_Encode ts =
     (if length ts > MaxTags then Inl (Errorf ''%w: %d tags, at most %d'' [Sentinel ErrMalformed])
      else encode_loop None (sort_key tagKey ts) [word_of_nat (length ts)])"

fun decode_loop :: "nat \<Rightarrow> Tag list \<Rightarrow> bytes \<Rightarrow> (Tag list \<times> bytes) result" where
  "decode_loop 0 ts rest = Inr (ts, rest)"
| "decode_loop (Suc n) ts rest =
     ebind (tags_readLP rest) (\<lambda>(key, rest).
     ebind (tags_readLP rest) (\<lambda>(val, rest).
       if key = '''' then Inl (Errorf ''%w: an empty key'' [Sentinel ErrMalformed])
       else if ts \<noteq> [] \<and> \<not> tagKey (List.last ts) < key
       then Inl (Errorf ''%w: keys not in strictly ascending order'' [Sentinel ErrMalformed])
       else decode_loop n (ts @ [\<lparr>tagKey = key, tagValue = val\<rparr>]) rest))"

definition tags_Decode :: "bytes \<Rightarrow> Tag list result" where
  "tags_Decode b =
     (case b of
        [] \<Rightarrow> Inl (Errorf ''%w: no count'' [Sentinel ErrMalformed])
      | c # rest \<Rightarrow>
          if unat c > MaxTags then Inl (Errorf ''%w: %d tags, at most %d'' [Sentinel ErrMalformed])
          else ebind (decode_loop (unat c) [] rest) (\<lambda>(ts, rest).
            if length rest \<noteq> 0 then Inl (Errorf ''%w: %d bytes after the last tag'' [Sentinel ErrMalformed]) else Inr ts))"

section \<open>Sealing\<close>

text \<open>The derived key and the associated data.\<close>

definition tags_setup :: "bytes \<Rightarrow> string \<Rightarrow> string \<Rightarrow> (bytes \<times> bytes) result" where
  "tags_setup dek bucket key =
     (if length dek \<noteq> 32 then Inl (Errorf ''tags: a data key of %d bytes, want %d'' [])
      else ebind (hkdf_Key dek [] tags_info 32) (\<lambda>tagKey.
           ebind (tags_appendLP (bytes_of tags_info) bucket) (\<lambda>ad.
           ebind (tags_appendLP ad key) (\<lambda>ad. Inr (tagKey, ad)))))"

definition tags_sealWithNonce :: "bytes \<Rightarrow> string \<Rightarrow> string \<Rightarrow> Tag list \<Rightarrow> bytes \<Rightarrow> bytes result" where
  "tags_sealWithNonce dek bucket key ts nonce =
     ebind (tags_Encode ts) (\<lambda>plain.
     ebind (tags_setup dek bucket key) (\<lambda>(k, ad).
       Inr (TagMagic @ nonce @ gcm_Seal k nonce plain ad)))"

text \<open>\<open>rnd\<close> is what \<open>rand.Read\<close> gives.\<close>

definition tags_Seal :: "bytes result \<Rightarrow> bytes \<Rightarrow> string \<Rightarrow> string \<Rightarrow> Tag list \<Rightarrow> bytes result" where
  "tags_Seal rnd dek bucket key ts = ebind rnd (tags_sealWithNonce dek bucket key ts)"

definition tags_Open :: "bytes \<Rightarrow> string \<Rightarrow> string \<Rightarrow> bytes \<Rightarrow> Tag list result" where
  "tags_Open dek bucket key body =
     (if length body < 4 + 12 \<or> take 4 body \<noteq> TagMagic
      then Inl (Errorf ''%w: not a %s sidecar'' [Sentinel ErrMalformed])
      else ebind (tags_setup dek bucket key) (\<lambda>(k, ad).
        case gcm_Open k (take 12 (drop 4 body)) (drop 16 body) ad of
          None \<Rightarrow> Inl (Sentinel ErrOpen)
        | Some plain \<Rightarrow> tags_Decode plain))"

section \<open>S3's rules\<close>

text \<open>The code points of valid UTF-8, or \<open>None\<close>.\<close>

definition cont_byte :: "nat \<Rightarrow> bool" where
  "cont_byte b \<longleftrightarrow> 0x80 \<le> b \<and> b \<le> 0xBF"

fun utf8_runes :: "nat list \<Rightarrow> nat list option" where
  "utf8_runes [] = Some []"
| "utf8_runes (a # r) =
     (if a < 0x80 then map_option ((#) a) (utf8_runes r)
      else case r of
        [] \<Rightarrow> None
      | b # r1 \<Rightarrow>
          if 0xC2 \<le> a \<and> a \<le> 0xDF
          then if cont_byte b then map_option ((#) ((a - 0xC0) * 64 + (b - 0x80))) (utf8_runes r1) else None
          else (case r1 of
            [] \<Rightarrow> None
          | c # r2 \<Rightarrow>
              if 0xE0 \<le> a \<and> a \<le> 0xEF
              then if cont_byte b \<and> cont_byte c \<and> (a = 0xE0 \<longrightarrow> 0xA0 \<le> b) \<and> (a = 0xED \<longrightarrow> b \<le> 0x9F)
                   then map_option ((#) ((a - 0xE0) * 4096 + (b - 0x80) * 64 + (c - 0x80))) (utf8_runes r2) else None
              else (case r2 of
                [] \<Rightarrow> None
              | d # r3 \<Rightarrow>
                  if 0xF0 \<le> a \<and> a \<le> 0xF4 \<and> cont_byte b \<and> cont_byte c \<and> cont_byte d \<and>
                     (a = 0xF0 \<longrightarrow> 0x90 \<le> b) \<and> (a = 0xF4 \<longrightarrow> b \<le> 0x8F)
                  then map_option ((#) ((a - 0xF0) * 262144 + (b - 0x80) * 4096 + (c - 0x80) * 64 + (d - 0x80))) (utf8_runes r3)
                  else None)))"

definition runes :: "string \<Rightarrow> nat list option" where
  "runes s = utf8_runes (map of_char s)"

definition notTagRune :: "(nat \<Rightarrow> bool) \<Rightarrow> nat \<Rightarrow> bool" where
  "notTagRune uni r \<longleftrightarrow> \<not> uni r \<and> r \<notin> set (map of_char ''+-=._:/@'')"

fun validate_tags :: "(nat \<Rightarrow> bool) \<Rightarrow> string list \<Rightarrow> Tag list \<Rightarrow> err option" where
  "validate_tags uni seen [] = None"
| "validate_tags uni seen (t # ts) =
     (case (runes (tagKey t), runes (tagValue t)) of
        (Some k, Some v) \<Rightarrow>
          if length k = 0 \<or> length k > 128
          then Some (Errorf ''%w: the key %q is %d characters; a key is 1 to 128'' [Sentinel ErrInvalidTag])
          else if length v > 256
          then Some (Errorf ''%w: the value of %q is %d characters; a value is at most 256'' [Sentinel ErrInvalidTag])
          else if starts_with ''aws:'' (ToLower (tagKey t))
          then Some (Errorf ''%w: the key %q uses the reserved aws: prefix'' [Sentinel ErrInvalidTag])
          else if tagKey t \<in> set seen then Some (Errorf ''%w: the key %q is given twice'' [Sentinel ErrInvalidTag])
          else if list_ex (notTagRune uni) k \<or> list_ex (notTagRune uni) v
          then Some (Errorf ''%w: %q holds %q, which a tag may not'' [Sentinel ErrInvalidTag])
          else validate_tags uni (tagKey t # seen) ts
      | _ \<Rightarrow> Some (Errorf ''%w: not valid UTF-8'' [Sentinel ErrInvalidTag]))"

definition tags_Validate :: "(nat \<Rightarrow> bool) \<Rightarrow> Tag list \<Rightarrow> err option" where
  "tags_Validate uni ts =
     (if length ts > MaxTags
      then Some (Errorf ''%w: %d tags; an object may have at most %d'' [Sentinel ErrInvalidTag])
      else validate_tags uni [] ts)"

section \<open>The encoding is canonical\<close>

lemma tags_appendLP_Inr: "tags_appendLP d x = Inr a \<longleftrightarrow> length x \<le> 65535 \<and> a = d @ lp x"
  by (auto simp: tags_appendLP_def lp_def)

lemma tags_readLP_Inr: "tags_readLP b = Inr (s, r) \<longleftrightarrow> length s \<le> 65535 \<and> b = lp s @ r"
proof
  assume a: "tags_readLP b = Inr (s, r)"
  let ?n = "be_nat (take 2 b)"
  have l: "2 \<le> length b" "2 + ?n \<le> length b" "s = string_of (take ?n (drop 2 b))" "r = drop (2 + ?n) b"
    using a by (auto simp: tags_readLP_def Let_def split: if_splits)
  have "?n < 256 ^ 2" using be_nat_lt [of "take 2 b"] l(1) by simp
  moreover have "take 2 b = be_bytes 2 ?n" using be_bytes_be_nat [of 2 "take 2 b"] l(1) by simp
  moreover have "b = take 2 b @ take ?n (drop 2 b) @ drop (2 + ?n) b"
    by (metis add.commute append_take_drop_id drop_drop)
  ultimately show "length s \<le> 65535 \<and> b = lp s @ r"
    using l by (simp add: lp_def)
qed (simp add: tags_readLP_def lp_def Let_def)

definition tag_bytes :: "Tag \<Rightarrow> bytes" where
  "tag_bytes t = lp (tagKey t) @ lp (tagValue t)"

definition tag_ok :: "Tag \<Rightarrow> bool" where
  "tag_ok t \<longleftrightarrow> tagKey t \<noteq> '''' \<and> length (tagKey t) \<le> 65535 \<and> length (tagValue t) \<le> 65535"

lemma encode_loop_Inr:
  assumes "sorted (map tagKey ts)" and "\<And>p. prev = Some p \<Longrightarrow> \<forall>t\<in>set ts. p \<le> tagKey t"
  shows "encode_loop prev ts out = Inr b \<longleftrightarrow> list_all tag_ok ts \<and> sorted_wrt (<) (map tagKey ts) \<and>
    (\<forall>p. prev = Some p \<longrightarrow> (\<forall>t\<in>set ts. p < tagKey t)) \<and> b = out @ concat (map tag_bytes ts)"
  using assms
proof (induction prev ts out rule: encode_loop.induct)
  case (2 prev t ts out)
  let ?out = "(out @ lp (tagKey t)) @ lp (tagValue t)"
  have s: "sorted (map tagKey ts)" "\<forall>u\<in>set ts. tagKey t \<le> tagKey u" using "2.prems"(1) by auto
  have step: "encode_loop prev (t # ts) out = Inr b \<longleftrightarrow>
      tag_ok t \<and> prev \<noteq> Some (tagKey t) \<and> encode_loop (Some (tagKey t)) ts ?out = Inr b"
    by (auto simp: result_simps tags_appendLP_Inr tag_ok_def)
  have rest: "encode_loop (Some (tagKey t)) ts ?out = Inr b \<longleftrightarrow> list_all tag_ok ts \<and> sorted_wrt (<) (map tagKey ts) \<and>
      (\<forall>u\<in>set ts. tagKey t < tagKey u) \<and> b = ?out @ concat (map tag_bytes ts)"
    if "tag_ok t" "prev \<noteq> Some (tagKey t)"
  proof -
    have "tagKey t \<noteq> ''''" "tags_appendLP out (tagKey t) = Inr (out @ lp (tagKey t))"
      "tags_appendLP (out @ lp (tagKey t)) (tagValue t) = Inr ?out"
      using that(1) by (simp_all add: tag_ok_def tags_appendLP_Inr)
    then show ?thesis using "2.IH" [of ?out] that(2) s by auto
  qed
  show ?case
  proof (cases "tag_ok t \<and> prev \<noteq> Some (tagKey t)")
    case True
    have "(\<forall>p. prev = Some p \<longrightarrow> (\<forall>u\<in>set (t # ts). p < tagKey u)) \<longleftrightarrow> True" if "\<forall>u\<in>set ts. tagKey t < tagKey u"
      using True "2.prems"(2) that by (auto simp: order_le_less intro: less_trans)
    moreover have "tag_bytes t = lp (tagKey t) @ lp (tagValue t)" by (simp only: tag_bytes_def)
    ultimately show ?thesis unfolding step using rest True by auto
  next
    case False
    then show ?thesis unfolding step by auto
  qed
qed (auto)

lemma decode_loop_Inr:
  "decode_loop n acc rest = Inr (ts, r) \<longleftrightarrow>
     (\<exists>new. ts = acc @ new \<and> length new = n \<and> list_all tag_ok new \<and> rest = concat (map tag_bytes new) @ r \<and>
        sorted_wrt (<) (map tagKey new) \<and> (acc \<noteq> [] \<longrightarrow> (\<forall>t\<in>set new. tagKey (List.last acc) < tagKey t)))"
proof (induction n arbitrary: acc rest)
  case (Suc n)
  let ?t = "\<lambda>k v. \<lparr>tagKey = k, tagValue = v\<rparr>"
  have "decode_loop (Suc n) acc rest = Inr (ts, r) \<longleftrightarrow>
     (\<exists>k r1 v r2. tags_readLP rest = Inr (k, r1) \<and> tags_readLP r1 = Inr (v, r2) \<and> k \<noteq> '''' \<and>
        (acc \<noteq> [] \<longrightarrow> tagKey (List.last acc) < k) \<and> decode_loop n (acc @ [?t k v]) r2 = Inr (ts, r))"
    by (auto simp: ebind_def split: sum.splits if_splits)
  also have "\<dots> \<longleftrightarrow>
     (\<exists>k v rest'. tag_ok (?t k v) \<and> rest = tag_bytes (?t k v) @ rest' \<and> (acc \<noteq> [] \<longrightarrow> tagKey (List.last acc) < k) \<and>
        decode_loop n (acc @ [?t k v]) rest' = Inr (ts, r))"
    unfolding tags_readLP_Inr tag_ok_def tag_bytes_def by simp blast
  also have "\<dots> \<longleftrightarrow> (\<exists>new. ts = acc @ new \<and> length new = Suc n \<and> list_all tag_ok new \<and>
      rest = concat (map tag_bytes new) @ r \<and> sorted_wrt (<) (map tagKey new) \<and>
      (acc \<noteq> [] \<longrightarrow> (\<forall>t\<in>set new. tagKey (List.last acc) < tagKey t)))" (is "?l \<longleftrightarrow> ?r")
  proof
    assume ?l
    then obtain k v rest' new where n: "tag_ok (?t k v)" "rest = tag_bytes (?t k v) @ rest'"
        "acc \<noteq> [] \<longrightarrow> tagKey (List.last acc) < k" "ts = (acc @ [?t k v]) @ new" "length new = n" "list_all tag_ok new"
        "rest' = concat (map tag_bytes new) @ r" "sorted_wrt (<) (map tagKey new)" "\<forall>t\<in>set new. k < tagKey t"
      unfolding Suc.IH by auto
    then show ?r by (intro exI [of _ "?t k v # new"]) (auto intro: less_trans)
  next
    assume ?r
    then obtain new where n: "ts = acc @ new" "length new = Suc n" "list_all tag_ok new"
        "rest = concat (map tag_bytes new) @ r" "sorted_wrt (<) (map tagKey new)"
        "acc \<noteq> [] \<longrightarrow> (\<forall>t\<in>set new. tagKey (List.last acc) < tagKey t)" by blast
    then obtain t new' where t: "new = t # new'" by (cases new) auto
    obtain k v where "t = ?t k v" by (cases t)
    with n t show ?l unfolding Suc.IH
      by (intro exI [of _ k] exI [of _ v]) auto
  qed
  finally show ?case .
qed auto

lemma strict_sorted: "sorted_wrt (<) (map f ts) \<Longrightarrow> sorted (map f ts)" for f :: "'a \<Rightarrow> 'b :: linorder"
  by (rule sorted_wrt_mono_rel [of _ "(<)"]) auto

lemma tags_Encode_Inr:
  "tags_Encode ts = Inr b \<longleftrightarrow> length ts \<le> 10 \<and> list_all tag_ok ts \<and> sorted_wrt (<) (map tagKey (sort_key tagKey ts)) \<and>
     b = word_of_nat (length ts) # concat (map tag_bytes (sort_key tagKey ts))"
proof -
  have "encode_loop None (sort_key tagKey ts) [word_of_nat (length ts)] = Inr b \<longleftrightarrow>
      list_all tag_ok ts \<and> sorted_wrt (<) (map tagKey (sort_key tagKey ts)) \<and>
      b = word_of_nat (length ts) # concat (map tag_bytes (sort_key tagKey ts))"
    using encode_loop_Inr [of "sort_key tagKey ts" None "[word_of_nat (length ts)]" b] by (simp add: list_all_iff)
  then show ?thesis by (auto simp: tags_Encode_def)
qed

lemma tags_Decode_Inr:
  "tags_Decode b = Inr ts \<longleftrightarrow> length ts \<le> 10 \<and> list_all tag_ok ts \<and> sorted_wrt (<) (map tagKey ts) \<and>
     b = word_of_nat (length ts) # concat (map tag_bytes ts)"
proof (cases b)
  case (Cons c rest)
  have "tags_Decode b = Inr ts \<longleftrightarrow> unat c \<le> 10 \<and> decode_loop (unat c) [] rest = Inr (ts, [])"
    using Cons by (auto simp: tags_Decode_def result_simps)
  also have "\<dots> \<longleftrightarrow> unat c \<le> 10 \<and> length ts = unat c \<and> list_all tag_ok ts \<and> rest = concat (map tag_bytes ts) \<and>
      sorted_wrt (<) (map tagKey ts)"
    unfolding decode_loop_Inr by auto
  also have "\<dots> \<longleftrightarrow> length ts \<le> 10 \<and> list_all tag_ok ts \<and> sorted_wrt (<) (map tagKey ts) \<and>
     b = word_of_nat (length ts) # concat (map tag_bytes ts)"
    using Cons by (auto simp: unat_of_nat)
  finally show ?thesis .
qed (simp add: tags_Decode_def)

lemma tags_setup_Inr:
  "tags_setup dek bucket key = Inr (k, ad) \<longleftrightarrow> length dek = 32 \<and> length bucket \<le> 65535 \<and> length key \<le> 65535 \<and>
     k = hkdf32 dek [] tags_info \<and> ad = bytes_of tags_info @ lp bucket @ lp key"
  by (auto simp: tags_setup_def result_simps tags_appendLP_Inr)

lemma tags_seal_Inr:
  "tags_sealWithNonce dek bucket key ts nonce = Inr body \<longleftrightarrow>
     (\<exists>plain. tags_Encode ts = Inr plain \<and> length dek = 32 \<and> length bucket \<le> 65535 \<and> length key \<le> 65535 \<and>
        body = TagMagic @ nonce @ gcm_Seal (hkdf32 dek [] tags_info) nonce plain (bytes_of tags_info @ lp bucket @ lp key))"
  by (auto simp: tags_sealWithNonce_def result_simps tags_setup_Inr)

section \<open>Properties\<close>

lemma tags_Open_iff:
  "tags_Open dek bucket key body = Inr ts \<longleftrightarrow>
     sorted (map tagKey ts) \<and> (\<exists>nonce. length nonce = 12 \<and> tags_sealWithNonce dek bucket key ts nonce = Inr body)"
  (is "?l \<longleftrightarrow> ?r")
proof
  let ?k = "hkdf32 dek [] tags_info" and ?ad = "bytes_of tags_info @ lp bucket @ lp key"
  assume ?l
  then have b: "16 \<le> length body" "take 4 body = TagMagic" by (auto simp: tags_Open_def split: if_splits)
  have m: "tags_setup dek bucket key = Inr (?k, ?ad)" and
    o: "(case gcm_Open ?k (take 12 (drop 4 body)) (drop 16 body) ?ad of None \<Rightarrow> Inl (Sentinel ErrOpen)
         | Some plain \<Rightarrow> tags_Decode plain) = Inr ts"
    using \<open>?l\<close> b by (auto simp: tags_Open_def result_simps tags_setup_Inr)
  then obtain plain where p: "gcm_Open ?k (take 12 (drop 4 body)) (drop 16 body) ?ad = Some plain" "tags_Decode plain = Inr ts"
    by (auto split: option.splits)
  have "tags_Encode ts = Inr plain" "sorted (map tagKey ts)"
    using p(2) strict_sorted [of tagKey ts] by (auto simp: tags_Decode_Inr tags_Encode_Inr sort_key_id_if_sorted)
  moreover have "body = TagMagic @ take 12 (drop 4 body) @ drop 16 body"
    using b(2) append_take_drop_id [of 4 body] append_take_drop_id [of 12 "drop 4 body"] by simp
  moreover have "length (take 12 (drop 4 body)) = 12" using b(1) by simp
  ultimately show ?r
    using gcm.open_is_seal [OF p(1)] m unfolding tags_seal_Inr tags_setup_Inr by metis
next
  assume ?r
  then obtain nonce plain where n: "sorted (map tagKey ts)" "length nonce = 12" "tags_Encode ts = Inr plain" "length dek = 32"
      "length bucket \<le> 65535" "length key \<le> 65535"
      "body = TagMagic @ nonce @ gcm_Seal (hkdf32 dek [] tags_info) nonce plain (bytes_of tags_info @ lp bucket @ lp key)"
    by (auto simp: tags_seal_Inr)
  have "tags_Decode plain = Inr ts" using n(1,3) by (simp add: tags_Decode_Inr tags_Encode_Inr sort_key_id_if_sorted)
  moreover have "tags_setup dek bucket key = Inr (hkdf32 dek [] tags_info, bytes_of tags_info @ lp bucket @ lp key)"
    using n by (simp add: tags_setup_Inr)
  ultimately show ?l using n(2,7) by (simp add: tags_Open_def TagMagic_def)
qed

text \<open>C29: A sidecar opens for an object version exactly if it was sealed for it. \<open>Open\<close> accepts a body under a
  data key, bucket and key precisely when \<open>Seal\<close> produces that body from some tag set with some nonce
  under the same three, and then it returns that set in its canonical order; so no other bytes are a
  sidecar, and a tag set has only one encoding.\<close>

theorem sidecar_exact:
  "tags_Open dek bucket key body = Inr ts \<longleftrightarrow>
     sorted (map tagKey ts) \<and> (\<exists>nonce. length nonce = 12 \<and> tags_sealWithNonce dek bucket key ts nonce = Inr body)"
  by (rule tags_Open_iff)

lemma utf8_runes_length: "utf8_runes bs = Some rs \<Longrightarrow> length bs \<le> 4 * length rs"
proof (induction bs arbitrary: rs rule: measure_induct_rule [of length])
  case (less bs)
  have IH: "utf8_runes y = Some z \<Longrightarrow> length y < length bs \<Longrightarrow> length y \<le> 4 * length z" for y z using less.IH by blast
  show ?case
  proof (cases bs)
    case (Cons a r)
    with less.prems IH [of r] IH [of "tl r"] IH [of "tl (tl r)"] IH [of "tl (tl (tl r))"] show ?thesis
      by (auto split: if_splits list.splits)
  qed simp
qed

lemma runes_length: "runes s = Some rs \<Longrightarrow> length s \<le> 4 * length rs \<and> (s = '''' \<longrightarrow> rs = [])"
  using utf8_runes_length [of "map of_char s" rs] by (auto simp: runes_def)

lemma validate_tags_None:
  "validate_tags uni seen ts = None \<Longrightarrow> distinct (map tagKey ts) \<and> set (map tagKey ts) \<inter> set seen = {} \<and>
     (\<forall>t\<in>set ts. tagKey t \<noteq> '''' \<and> length (tagKey t) \<le> 512 \<and> length (tagValue t) \<le> 1024)"
proof (induction uni seen ts rule: validate_tags.induct)
  case (2 uni seen t ts)
  obtain k v where kv: "runes (tagKey t) = Some k" "runes (tagValue t) = Some v" "length k \<noteq> 0" "length k \<le> 128" "length v \<le> 256"
      "tagKey t \<notin> set seen" "validate_tags uni (tagKey t # seen) ts = None"
      and c: "\<not> starts_with ''aws:'' (ToLower (tagKey t))" "\<not> (list_ex (notTagRune uni) k \<or> list_ex (notTagRune uni) v)"
    using "2.prems" by (auto split: option.splits if_splits)
  have "distinct (map tagKey ts) \<and> set (map tagKey ts) \<inter> set (tagKey t # seen) = {} \<and>
     (\<forall>t\<in>set ts. tagKey t \<noteq> '''' \<and> length (tagKey t) \<le> 512 \<and> length (tagValue t) \<le> 1024)"
    using "2.IH" [of "Some k" "Some v" k v] kv c by auto
  moreover have "tagKey t \<noteq> ''''" "length (tagKey t) \<le> 512" "length (tagValue t) \<le> 1024"
    using runes_length [OF kv(1)] runes_length [OF kv(2)] kv(3-5) by auto
  ultimately show ?case using kv(6) by auto
qed simp

lemma length_tag_bytes:
  "\<forall>t\<in>set ts. length (tagKey t) \<le> 512 \<and> length (tagValue t) \<le> 1024 \<Longrightarrow> length (concat (map tag_bytes ts)) \<le> 1540 * length ts"
  by (induction ts) (auto simp: tag_bytes_def lp_def)

definition maxTagSidecar :: nat where "maxTagSidecar = 65536"

text \<open>C30: A tag set that passes the checks of S3 is never lost. \<open>Seal\<close> accepts every tag set that \<open>Validate\<close>
  accepts, the sidecar is well below the size the gateway is willing to read back (at most 15,433 of
  65,536 bytes), and it opens to the same tags in canonical order.\<close>

theorem valid_tags_kept:
  assumes "tags_Validate uni ts = None" and "length dek = 32" and "length nonce = 12"
    and "length bucket \<le> 65535" and "length key \<le> 65535"
  shows "\<exists>body. tags_Seal (Inr nonce) dek bucket key ts = Inr body \<and> length body \<le> 15433 \<and> length body \<le> maxTagSidecar \<and>
    tags_Open dek bucket key body = Inr (sort_key tagKey ts)"
proof -
  let ?ts = "sort_key tagKey ts"
  have v: "length ts \<le> 10" "distinct (map tagKey ts)"
      "\<forall>t\<in>set ts. tagKey t \<noteq> '''' \<and> length (tagKey t) \<le> 512 \<and> length (tagValue t) \<le> 1024"
    using assms(1) validate_tags_None [of uni "[]" ts] by (auto simp: tags_Validate_def split: if_splits)
  have "mset (map tagKey ?ts) = mset (map tagKey ts)" by simp
  then have "distinct (map tagKey ?ts)" using v(2) mset_eq_imp_distinct_iff by blast
  then have s: "sorted_wrt (<) (map tagKey ?ts)" by (simp add: strict_sorted_iff del: distinct_map)
  have ok: "list_all tag_ok ts" using v(3) by (fastforce simp: list_all_iff tag_ok_def)
  define plain where "plain = word_of_nat (length ts) # concat (map tag_bytes ?ts)"
  have enc: "tags_Encode ts = Inr plain" "tags_Encode ?ts = Inr plain"
    using v(1) ok s by (simp_all add: tags_Encode_Inr plain_def sort_key_id_if_sorted list_all_iff)
  have "length (concat (map tag_bytes ?ts)) \<le> 1540 * length ?ts" using v(3) by (intro length_tag_bytes) auto
  then have l: "length plain \<le> 15401" using v(1) by (simp add: plain_def)
  obtain body where b: "tags_sealWithNonce dek bucket key ts nonce = Inr body" "tags_sealWithNonce dek bucket key ?ts nonce = Inr body"
      "length body = 32 + length plain"
    using enc assms(2-5) by (auto simp: tags_seal_Inr TagMagic_def)
  have "tags_Open dek bucket key body = Inr ?ts"
    unfolding tags_Open_iff using b(2) assms(3) by auto
  then show ?thesis using b l by (auto simp: tags_Seal_def maxTagSidecar_def)
qed

theorem valid_tags_kept_witness:
  "\<exists>body. tags_Seal (Inr (replicate 12 1)) (replicate 32 2) ''b'' ''k''
     [\<lparr>tagKey = ''b'', tagValue = ''2''\<rparr>, \<lparr>tagKey = ''a'', tagValue = ''''\<rparr>] = Inr body \<and>
   tags_Open (replicate 32 2) ''b'' ''k'' body = Inr [\<lparr>tagKey = ''a'', tagValue = ''''\<rparr>, \<lparr>tagKey = ''b'', tagValue = ''2''\<rparr>]"
proof -
  let ?ts = "[\<lparr>tagKey = ''b'', tagValue = ''2''\<rparr>, \<lparr>tagKey = ''a'', tagValue = ''''\<rparr>]"
  have "tags_Validate (\<lambda>r. 48 \<le> r \<and> r \<le> 122) ?ts = None" by code_simp
  moreover have "sort_key tagKey ?ts = [\<lparr>tagKey = ''a'', tagValue = ''''\<rparr>, \<lparr>tagKey = ''b'', tagValue = ''2''\<rparr>]" by code_simp
  ultimately show ?thesis
    using valid_tags_kept [of "\<lambda>r. 48 \<le> r \<and> r \<le> 122" ?ts "replicate 32 2" "replicate 12 1" "''b''" "''k''"]
    by (auto simp del: replicate.simps)
qed

text \<open>Where a sidecar is: its name says which object and version it belongs to.\<close>

lemma hex_no_slash: "CHR ''/'' \<notin> set (hex_EncodeToString bs)"
proof -
  have "CHR ''/'' \<notin> set hex_alphabet" by code_simp
  moreover have "set (hex_EncodeToString bs) \<subseteq> set hex_alphabet"
    by (simp add: hex_EncodeToString_def encode_bits_alphabet)
  ultimately show ?thesis by blast
qed

lemma SplitPath_Path:
  "SplitPath (tags_Path storedKey wrapped) = Some (hex_EncodeToString (sha256 (bytes_of storedKey)), BindingID wrapped)"
proof -
  have "CHR ''/'' \<notin> set base64url_alphabet" by code_simp
  then have b: "CHR ''/'' \<notin> set (BindingID wrapped)" "length (BindingID wrapped) = 22"
    using set_b64url by (auto simp: BindingID_def length_b64url)
  have "cut_slash (hex_EncodeToString bs @ CHR ''/'' # r) = Some (hex_EncodeToString bs, r)" for bs r
  proof -
    have n: "\<forall>x\<in>set (hex_EncodeToString bs). x \<noteq> CHR ''/''" using hex_no_slash by metis
    then have "dropWhile (\<lambda>c. c \<noteq> CHR ''/'') (hex_EncodeToString bs @ CHR ''/'' # r) = CHR ''/'' # r"
      by (subst dropWhile_append2) auto
    then show ?thesis using n by (simp add: cut_slash_def takeWhile_tail)
  qed
  then show ?thesis
    using b by (simp add: SplitPath_def tags_Path_def tags_PrefixFor_def starts_with_def TagPrefix_def)
qed

lemma StoredKeyOf_Metadata: "StoredKeyOf (tags_Path storedKey wrapped) (tags_Metadata storedKey) = Some storedKey"
proof -
  have "EqualFold KeyMetadata KeyMetadata" by code_simp
  then show ?thesis by (simp add: StoredKeyOf_def tags_Metadata_def tags_Path_def starts_with_def)
qed

lemma StoredKeyOf_located: "StoredKeyOf path md = Some key \<Longrightarrow> starts_with (tags_PrefixFor key) path"
  by (auto simp: StoredKeyOf_def Let_def split: option.splits sum.splits if_splits)

end
