(* ===== verification/Gateway.thy ===== *)
theory Gateway
  imports Served VerifyObject ProxyRange Names FreshnessStore Envelope Tags
begin

text \<open>
  What the handlers of \<open>internal/proxy\<close> share: the errors of \<open>internal/s3api/errors.go\<close> and their translation
  (\<open>errors.go\<close>), HTTP headers and object metadata (\<open>metadata.go\<close>), the tenant of a bucket (\<open>tenants.go\<close>), stored
  keys (\<open>names.go\<close>), the freshness checks (\<open>freshness.go\<close>) and the manifests (\<open>manifeststore.go\<close>).

  A handler is an action on the world: the storage provider, in a state of any type and answering every
  call as it likes (the record \<open>Provider\<close>), and the freshness index. It gives an S3 error or its result.
  Logging, metrics and the audit entry are left out. The encrypters of tenants, which the program keeps
  once they are built, are computed from the name key each time.
\<close>

section \<open>S3 errors\<close>

record s3Error =
  eCode :: string
  eMessage :: string
  eHTTPStatus :: int

abbreviation s3error :: "string \<Rightarrow> string \<Rightarrow> int \<Rightarrow> s3Error" where
  "s3error c m s \<equiv> \<lparr>eCode = c, eMessage = m, eHTTPStatus = s\<rparr>"

definition api_NoSuchKey :: s3Error where
  "api_NoSuchKey = s3error ''NoSuchKey'' ''The specified key does not exist.'' 404"
definition api_NoSuchBucket :: s3Error where
  "api_NoSuchBucket = s3error ''NoSuchBucket'' ''The specified bucket does not exist.'' 404"
definition api_AccessDenied :: s3Error where
  "api_AccessDenied = s3error ''AccessDenied'' ''Access Denied.'' 403"
definition api_ServiceUnavailable :: s3Error where
  "api_ServiceUnavailable = s3error ''ServiceUnavailable'' ''The service is not available.'' 503"
definition api_InvalidRequest :: s3Error where
  "api_InvalidRequest = s3error ''InvalidRequest'' ''The request is not valid.'' 400"
definition api_InvalidArgument :: s3Error where
  "api_InvalidArgument = s3error ''InvalidArgument'' ''An argument is not valid.'' 400"
definition api_MissingContentLength :: s3Error where
  "api_MissingContentLength = s3error ''MissingContentLength'' ''You must provide the Content-Length HTTP header.'' 411"
definition api_EntityTooLarge :: s3Error where
  "api_EntityTooLarge = s3error ''EntityTooLarge'' ''Your proposed upload exceeds the maximum allowed object size.'' 400"
definition api_PreconditionFailed :: s3Error where
  "api_PreconditionFailed = s3error ''PreconditionFailed'' ''At least one of the preconditions you specified did not hold.'' 412"
definition api_InvalidRange :: s3Error where
  "api_InvalidRange = s3error ''InvalidRange'' ''The requested range is not satisfiable.'' 416"
definition api_AuthHeaderMalformed :: s3Error where
  "api_AuthHeaderMalformed = s3error ''AuthorizationHeaderMalformed'' ''The authorization header is malformed.'' 400"
definition api_InvalidAccessKeyID :: s3Error where
  "api_InvalidAccessKeyID = s3error ''InvalidAccessKeyId'' ''The access key id you provided does not exist in our records.'' 403"
definition api_SignatureDoesNotMatch :: s3Error where
  "api_SignatureDoesNotMatch = s3error ''SignatureDoesNotMatch''
     ''The request signature we calculated does not match the signature you provided.'' 403"
definition api_RequestTimeTooSkewed :: s3Error where
  "api_RequestTimeTooSkewed = s3error ''RequestTimeTooSkewed''
     ''The difference between the request time and the current time is too large.'' 403"
definition api_BadDigest :: s3Error where
  "api_BadDigest = s3error ''BadDigest'' ''The checksum you specified did not match what we received.'' 400"
definition api_KeyTooLong :: s3Error where
  "api_KeyTooLong = s3error ''KeyTooLongError'' ''Your key is too long once encrypted.'' 400"
definition api_IncompleteBody :: s3Error where
  "api_IncompleteBody = s3error ''IncompleteBody'' ''The request body terminated unexpectedly or was not framed correctly.'' 400"
definition api_NoSuchUpload :: s3Error where
  "api_NoSuchUpload = s3error ''NoSuchUpload''
     ''The specified upload does not exist. It may have been completed, aborted, or expired.'' 404"
definition api_InvalidPart :: s3Error where
  "api_InvalidPart = s3error ''InvalidPart'' ''One or more of the specified parts could not be found. The part may not have been uploaded, or the entity tag may not match.'' 400"
definition api_InvalidPartOrder :: s3Error where
  "api_InvalidPartOrder = s3error ''InvalidPartOrder''
     ''The list of parts was not in ascending order. Parts must be ordered by part number.'' 400"
definition api_NotImplemented :: s3Error where
  "api_NotImplemented = s3error ''NotImplemented'' ''A header or operation you provided implies functionality that is not implemented.'' 501"
definition api_Internal :: s3Error where
  "api_Internal = s3error ''InternalError'' ''We encountered an internal error. Please try again.'' 500"
definition api_Integrity :: s3Error where
  "api_Integrity = s3error ''IntegrityCheckFailed'' ''The stored object failed authentication and was not returned.'' 502"
definition api_Rollback :: s3Error where
  "api_Rollback = s3error ''RollbackDetected'' ''The stored object is not the version this gateway last recorded.'' 502"
definition errNotEncryptedAPI :: s3Error where
  "errNotEncryptedAPI = s3error ''ObjectNotEncrypted'' ''The object was not written by this gateway and cannot be decrypted.'' 502"

text \<open>The message is the format string; its arguments are not part of the model.\<close>

definition WithMessage :: "s3Error \<Rightarrow> string \<Rightarrow> s3Error" where
  "WithMessage e m = e\<lparr>eMessage := m\<rparr>"

definition upstream_NotFound :: "err \<Rightarrow> bool" where
  "upstream_NotFound e = (case as_api e of Some (s, _, _) \<Rightarrow> s = 404 | None \<Rightarrow> False)"

definition upstream_NoSuchUpload :: "err \<Rightarrow> bool" where
  "upstream_NoSuchUpload e = (case as_api e of Some (_, c, _) \<Rightarrow> c = ''NoSuchUpload'' | None \<Rightarrow> False)"

definition translateAuth :: "err \<Rightarrow> s3Error" where
  "translateAuth e =
     (if errors_is ErrMissingAuth e then WithMessage api_AccessDenied ''the request is not signed''
      else if errors_is ErrMalformedAuth e then WithMessage api_AuthHeaderMalformed ''%v''
      else if errors_is ErrUnknownAccessKey e then api_InvalidAccessKeyID
      else if errors_is ErrSignatureMismatch e \<or> errors_is ErrChunkSignature e then api_SignatureDoesNotMatch
      else if errors_is ErrRequestTimeTooSkewed e then api_RequestTimeTooSkewed
      else if errors_is ErrBucketNotAllowed e then api_AccessDenied
      else if errors_is ErrUnsupportedPayload e \<or> errors_is ErrUnsupportedChecksum e then WithMessage api_NotImplemented ''%v''
      else api_AccessDenied)"

definition translateBody :: "err \<Rightarrow> s3Error" where
  "translateBody e =
     (if errors_is ErrChecksumMismatch e then WithMessage api_BadDigest ''%v''
      else if errors_is ErrChunkSignature e then api_SignatureDoesNotMatch
      else if errors_is ErrMalformedChunkedBody e then WithMessage api_IncompleteBody ''%v''
      else if errors_is ErrUnsupportedChecksum e then WithMessage api_NotImplemented ''%v''
      else if errors_is ErrMissingContentLength e then api_MissingContentLength
      else WithMessage api_IncompleteBody ''the request body ended before it was complete'')"

definition translateUpstream :: "err \<Rightarrow> s3Error" where
  "translateUpstream e =
     (case as_api e of
        None \<Rightarrow> WithMessage api_Internal ''upstream request failed''
      | Some (status, code, msg) \<Rightarrow>
          if status = 409 \<and> code \<in> {''ConditionalRequestConflict'', ''BucketAlreadyOwnedByYou'', ''BucketAlreadyExists''}
          then s3error code msg 409
          else if status = 409 \<and> code = ''BucketNotEmpty''
          then s3error code ''The bucket is not empty. Objects under .blindbucket/ count too: orphaned manifests and tag sidecars, which `blindbucket gc` removes.'' 409
          else if status = 404 then if code = ''NoSuchBucket'' then api_NoSuchBucket else api_NoSuchKey
          else if status = 403 then api_AccessDenied
          else if status = 412 then s3error ''PreconditionFailed'' msg 412
          else if status = 416 then api_InvalidRange
          else s3error ''InternalError'' (''The upstream storage provider returned '' @ code @ ''.'') 502)"

definition integrityError :: "string \<Rightarrow> s3Error" where
  "integrityError kind = WithMessage api_Integrity (''the stored object failed authentication ('' @ kind @ '')'')"

definition verifyError :: "verr \<Rightarrow> s3Error" where
  "verifyError e = (case AsFailure e of Some (_, check, _) \<Rightarrow> integrityError check | None \<Rightarrow> integrityError ''segment header'')"


section \<open>HTTP headers\<close>

text \<open>A header is a Go map from names to values, in the order in which \<open>range\<close> visits it. Lookups use the
  canonical form of a name, which \<open>net/http\<close> gives every name it reads.\<close>

type_synonym headers = "(string \<times> string list) list"

definition is_letter :: "char \<Rightarrow> bool" where
  "is_letter c \<longleftrightarrow> (let n = of_char c :: nat in 65 \<le> n \<and> n \<le> 90 \<or> 97 \<le> n \<and> n \<le> 122)"

definition token_char :: "char \<Rightarrow> bool" where
  "token_char c \<longleftrightarrow> is_letter c \<or> is_digit c \<or> c \<in> set ''!#$%&*+-.^_`|~'' \<or> c = CHR 0x27"

definition upper :: "char \<Rightarrow> char" where
  "upper c = (if 97 \<le> (of_char c :: nat) \<and> (of_char c :: nat) \<le> 122 then char_of (of_char c - (32 :: nat)) else c)"

fun canonical :: "bool \<Rightarrow> string \<Rightarrow> string" where
  "canonical up [] = []"
| "canonical up (c # cs) = (if up then upper c else lower c) # canonical (c = CHR ''-'') cs"

definition CanonicalHeaderKey :: "string \<Rightarrow> string" where
  "CanonicalHeaderKey s = (if list_all token_char s then canonical True s else s)"

definition header_get :: "headers \<Rightarrow> string \<Rightarrow> string" where
  "header_get h name = (case map_of h (CanonicalHeaderKey name) of Some (v # _) \<Rightarrow> v | _ \<Rightarrow> '''')"

definition header_del :: "string \<Rightarrow> headers \<Rightarrow> headers" where
  "header_del name h = filter (\<lambda>(n, _). n \<noteq> CanonicalHeaderKey name) h"

text \<open>The assignment \<open>h[name] = values\<close>, without canonicalisation, and \<open>Header.Set\<close>.\<close>

definition header_put :: "string \<Rightarrow> string list \<Rightarrow> headers \<Rightarrow> headers" where
  "header_put name vs h = filter (\<lambda>(n, _). n \<noteq> name) h @ [(name, vs)]"

definition header_set :: "string \<Rightarrow> string \<Rightarrow> headers \<Rightarrow> headers" where
  "header_set name v h = header_put (CanonicalHeaderKey name) [v] h"

section \<open>Object metadata in headers\<close>

definition metaPrefix :: string where "metaPrefix = ''bb-''"

fun clientMetadata :: "headers \<Rightarrow> (string \<times> string) list result" where
  "clientMetadata [] = Inr []"
| "clientMetadata ((name, vs) # h) =
     (case vs of
        [] \<Rightarrow> clientMetadata h
      | v # _ \<Rightarrow>
          if \<not> starts_with ''x-amz-meta-'' (ToLower name) then clientMetadata h
          else let key = drop (length ''x-amz-meta-'') name in
            if starts_with metaPrefix (ToLower key)
            then Inl (Errorf ''metadata key %q uses the reserved %q prefix'' [])
            else ebind (clientMetadata h) (\<lambda>out. Inr (if key \<in> fst ` set out then out else (key, v) # out)))"

definition mergeMetadata :: "(string \<times> string) list \<Rightarrow> Meta \<Rightarrow> (string \<times> string) list" where
  "mergeMetadata client own = filter (\<lambda>(k, _). k \<notin> fst ` set (Headers own)) client @ Headers own"

definition responseHeadersToStrip :: "string list" where
  "responseHeadersToStrip =
     [''X-Amz-Checksum-Crc32'', ''X-Amz-Checksum-Crc32c'', ''X-Amz-Checksum-Crc64nvme'', ''X-Amz-Checksum-Sha1'',
      ''X-Amz-Checksum-Sha256'', ''X-Amz-Checksum-Type'', ''X-Amz-Sdk-Checksum-Algorithm'', ''Content-Length'',
      ''Content-Range'', ''Accept-Ranges'']"

definition providerOnlyHeaders :: "string list" where
  "providerOnlyHeaders =
     [''Access-Control-Allow-Origin'', ''Access-Control-Allow-Credentials'', ''Access-Control-Allow-Methods'',
      ''Access-Control-Allow-Headers'', ''Access-Control-Expose-Headers'', ''Access-Control-Max-Age'', ''Vary'']"

definition copy_header :: "string \<times> string list \<Rightarrow> headers \<Rightarrow> headers" where
  "copy_header nv dst =
     (case nv of (name, vs) \<Rightarrow>
        if CanonicalHeaderKey name \<in> set providerOnlyHeaders then dst
        else let low = ToLower name in
          if starts_with (''x-amz-meta-'' @ metaPrefix) low then dst
          else if starts_with ''x-amz-meta-'' low then header_put low vs dst
          else header_put name vs dst)"

definition copyResponseHeaders :: "headers \<Rightarrow> headers \<Rightarrow> headers" where
  "copyResponseHeaders dst src = fold header_del responseHeadersToStrip (fold copy_header src dst)"

definition responseOverrides :: "(string \<times> string) list" where
  "responseOverrides =
     [(''response-cache-control'', ''Cache-Control''), (''response-content-disposition'', ''Content-Disposition''),
      (''response-content-encoding'', ''Content-Encoding''), (''response-content-language'', ''Content-Language''),
      (''response-content-type'', ''Content-Type''), (''response-expires'', ''Expires'')]"

definition ResponseOverrides :: "headers \<Rightarrow> (string \<times> string) list" where
  "ResponseOverrides query =
     List.map_filter (\<lambda>(name, header). case map_of query name of Some (v # _) \<Rightarrow> Some (header, v) | _ \<Rightarrow> None) responseOverrides"

definition copyObjectHeaders :: "headers \<Rightarrow> headers \<Rightarrow> headers \<Rightarrow> headers" where
  "copyObjectHeaders dst query src =
     fold (\<lambda>(name, v). header_set name v) (ResponseOverrides query) (copyResponseHeaders dst src)"

section \<open>The world of a handler\<close>

record GetObjectInput =
  giBucket :: string
  giKey :: string
  giRange :: string
  giIfMatch :: string

record GetObjectOutput = ObjectOut +
  oHeader :: headers

record ObjectInfo =
  iContentLength :: int
  iETag :: string
  iMetadata :: "(string \<times> string) list"
  iHeader :: headers

record PutObjectInput =
  piBucket :: string
  piKey :: string
  piContentLength :: int
  piHeaders :: "(string \<times> string) list"
  piMetadata :: "(string \<times> string) list"
  piIfMatch :: string
  piIfNoneMatch :: string

record PutObjectOutput =
  poETag :: string
  poVersionID :: string

text \<open>
  The provider behind the upstream client. \<open>upPipe\<close> says how it takes the bytes of an upload: for the writes
  into the pipe that are answered before it closes its end, whether it takes all of it (\<open>None\<close>) or closes
  after some bytes.
\<close>

record 'u Provider =
  upGet :: "GetObjectInput \<Rightarrow> 'u \<Rightarrow> GetObjectOutput result \<times> 'u"
  upHead :: "string \<Rightarrow> string \<Rightarrow> 'u \<Rightarrow> ObjectInfo result \<times> 'u"
  upPipe :: "PutObjectInput \<Rightarrow> 'u \<Rightarrow> nat option list"
  upPut :: "PutObjectInput \<Rightarrow> source \<Rightarrow> 'u \<Rightarrow> PutObjectOutput result \<times> 'u"
  upDelete :: "string \<Rightarrow> string \<Rightarrow> 'u \<Rightarrow> err option \<times> 'u"

record 'u world =
  wUp :: 'u
  wFresh :: "Local option"

type_synonym ('u, 'a) act = "'u world \<Rightarrow> (s3Error + 'a) \<times> 'u world"

definition aret :: "'a \<Rightarrow> ('u, 'a) act" where
  "aret x = (\<lambda>w. (Inr x, w))"

definition alift :: "s3Error + 'a \<Rightarrow> ('u, 'a) act" where
  "alift r = (\<lambda>w. (r, w))"

definition abind :: "('u, 'a) act \<Rightarrow> ('a \<Rightarrow> ('u, 'b) act) \<Rightarrow> ('u, 'b) act" where
  "abind m f = (\<lambda>w. case m w of (Inl e, w') \<Rightarrow> (Inl e, w') | (Inr x, w') \<Rightarrow> f x w')"

text \<open>A call of the provider, its error not yet translated.\<close>

definition acall :: "('u \<Rightarrow> 'a \<times> 'u) \<Rightarrow> ('u, 'a) act" where
  "acall c = (\<lambda>w. case c (wUp w) of (x, u) \<Rightarrow> (Inr x, w\<lparr>wUp := u\<rparr>))"

definition ofail :: "(err \<Rightarrow> s3Error) \<Rightarrow> 'a result \<Rightarrow> ('u, 'a) act" where
  "ofail tr r = alift (emap_err tr r)"

record Proxy =
  gKeys :: KeyProvider
  gFor :: "string \<Rightarrow> BucketKeys result"
  gLog2C :: byte
  gNames :: "Encrypter option"

text \<open>
  A request: \<open>qBody\<close> is what \<open>auth.NewBodyReader\<close> makes of its body, the plaintext with the error it ends with
  (a failed checksum is such an error) and its announced length, and \<open>qTrailer\<close> the trailing headers; \<open>qReply\<close> are
  the response headers set before the handler runs, and \<open>qClient\<close> is how the client takes the response body.
\<close>

record Request =
  qBucket :: string
  qKey :: string
  qHeader :: headers
  qQuery :: headers
  qHead :: bool
  qBody :: "(source \<times> int) result"
  qTrailer :: headers
  qNow :: int
  qReply :: headers
  qClient :: "(nat \<times> err) option list"

record reply =
  pStatus :: int
  pHeader :: headers
  pBody :: bytes
  pAborted :: bool


section \<open>Tenants and names\<close>

definition tenantRefusal :: "err \<Rightarrow> s3Error" where
  "tenantRefusal e =
     (if errors_is ErrTenantDestroyed e
      then WithMessage api_AccessDenied ''The keys of this bucket's tenant were destroyed; the gateway no longer serves it.''
      else if errors_is ErrTenantUnopened e
      then WithMessage api_ServiceUnavailable
        ''This gateway instance could not open the keys of this bucket's tenant at startup; other buckets are unaffected.''
      else api_Internal)"

definition bucketKeys :: "Proxy \<Rightarrow> string \<Rightarrow> s3Error + BucketKeys" where
  "bucketKeys p bucket = emap_err tenantRefusal (gFor p bucket)"

definition tenantGate :: "Proxy \<Rightarrow> string \<Rightarrow> s3Error option" where
  "tenantGate p bucket =
     (if bucket = '''' then None else case bucketKeys p bucket of Inl e \<Rightarrow> Some e | Inr _ \<Rightarrow> None)"

definition namesFor :: "Proxy \<Rightarrow> string \<Rightarrow> s3Error + Encrypter option" where
  "namesFor p bucket =
     (case gNames p of
        None \<Rightarrow> Inr None
      | Some names \<Rightarrow>
          ebind (bucketKeys p bucket) (\<lambda>bk.
            if bkNameTenant bk = DefaultTenant then Inr (Some names)
            else case bkName bk of
              None \<Rightarrow> Inl api_Internal
            | Some secret \<Rightarrow> ebind (emap_err (\<lambda>_. api_Internal) (NewEncrypter secret)) (\<lambda>enc. Inr (Some enc))))"

definition storedKey :: "Proxy \<Rightarrow> string \<Rightarrow> string \<Rightarrow> s3Error + string" where
  "storedKey p bucket key =
     ebind (namesFor p bucket) (\<lambda>enc.
       case enc of
         None \<Rightarrow> Inr key
       | Some enc \<Rightarrow>
           if key = '''' then Inr key
           else emap_err (\<lambda>e. if errors_is ErrTooLong e
              then WithMessage api_KeyTooLong ''this key is within S3's 1024-byte limit but its encrypted form is not; encryption grows a key by a factor set by how many '/'-separated segments it has, so a deep path of short segments reaches the limit much sooner than a shallow one''
              else api_Internal) (EncryptKey enc key))"

section \<open>Freshness\<close>

definition checkFreshness :: "int \<Rightarrow> string \<Rightarrow> string \<Rightarrow> bytes list \<Rightarrow> ('u, unit) act" where
  "checkFreshness now bucket key salts = (\<lambda>w.
     case wFresh w of
       None \<Rightarrow> (Inr (), w)
     | Some l \<Rightarrow>
         if salts = [] then (Inr (), w)
         else case TagFromSalts salts of
           Inl _ \<Rightarrow> (Inr (), w)
         | Inr tag \<Rightarrow>
             (case Check now bucket key tag l of
                ((v, e), l') \<Rightarrow>
                  let w' = w\<lparr>wFresh := Some l'\<rparr> in
                  if e \<noteq> None then (Inr (), w')
                  else case v of
                    Stale \<Rightarrow> (Inl (WithMessage api_Rollback ''this object authenticated, but it is not the write this gateway last recorded for that key. See docs/adr/ADR-018-rollback-detection.md''), w')
                  | Deleted \<Rightarrow> (Inl (WithMessage api_Rollback ''this key was deleted through this gateway and the provider produced an object for it anyway. See docs/adr/ADR-018-rollback-detection.md''), w')
                  | _ \<Rightarrow> (Inr (), w')))"

definition recordFreshness :: "int \<Rightarrow> string \<Rightarrow> string \<Rightarrow> bytes list \<Rightarrow> ('u, unit) act" where
  "recordFreshness now bucket key salts = (\<lambda>w.
     case wFresh w of
       None \<Rightarrow> (Inr (), w)
     | Some l \<Rightarrow>
         if salts = [] then (Inr (), w)
         else case TagFromSalts salts of
           Inl _ \<Rightarrow> (Inr (), w)
         | Inr tag \<Rightarrow> (Inr (), w\<lparr>wFresh := Some (snd (Record now bucket key tag l))\<rparr>))"

definition forgetFreshness :: "int \<Rightarrow> string \<Rightarrow> string \<Rightarrow> ('u, unit) act" where
  "forgetFreshness now bucket key = (\<lambda>w.
     case wFresh w of
       None \<Rightarrow> (Inr (), w)
     | Some l \<Rightarrow> (Inr (), w\<lparr>wFresh := Some (snd (Forget now bucket key l))\<rparr>))"

definition manifestSalts :: "Manifest \<Rightarrow> bytes list" where
  "manifestSalts m = (if HasSalts m then map Salt (Parts m) else [])"

definition saltsOf :: "bytes \<Rightarrow> bytes list" where
  "saltsOf salt = [salt]"

section \<open>Manifests\<close>

definition bytes_source :: "bytes \<Rightarrow> source" where
  "bytes_source b = \<lparr>src_data = b, src_end = Sentinel EOF\<rparr>"

definition writeManifest :: "'u Provider \<Rightarrow> Manifest \<Rightarrow> bytes \<Rightarrow> ('u, unit result) act" where
  "writeManifest prov m dek =
     (case Marshal m dek of
        Inl e \<Rightarrow> aret (Inl (Errorf ''building the manifest: %w'' [e]))
      | Inr rw \<Rightarrow>
          abind (acall (upPut prov \<lparr>piBucket = Bucket m, piKey = ObjectKey (MID m) (MKey m), piContentLength = int (length rw),
                   piHeaders = [(''Content-Type'', ''application/octet-stream'')], piMetadata = [], piIfMatch = '''', piIfNoneMatch = ''''\<rparr>
                   (bytes_source rw))) (\<lambda>r.
            aret (ebind (emap_err (\<lambda>e. Errorf ''storing the manifest: %w'' [e]) r) (\<lambda>_. Inr ()))))"

text \<open>\<open>verify.LoadManifest\<close> over the provider in its current state; its one call is a \<open>GetObject\<close>.\<close>

definition get_input :: "string \<Rightarrow> string \<Rightarrow> GetObjectInput" where
  "get_input bucket key = \<lparr>giBucket = bucket, giKey = key, giRange = '''', giIfMatch = ''''\<rparr>"

definition upstream_now :: "'u Provider \<Rightarrow> 'u \<Rightarrow> Upstream" where
  "upstream_now prov u = \<lparr>GetObject = (\<lambda>b k. map_sum id ObjectOut.truncate (fst (upGet prov (get_input b k) u))),
     NotFound = upstream_NotFound\<rparr>"

definition loadManifest :: "'u Provider \<Rightarrow> string \<Rightarrow> string \<Rightarrow> bytes \<Rightarrow> bytes \<Rightarrow> ('u, Manifest result) act" where
  "loadManifest prov bucket key i dek =
     acall (\<lambda>u. (LoadManifest (upstream_now prov u) bucket key i dek, snd (upGet prov (get_input bucket (ObjectKey i key)) u)))"

definition deleteManifest :: "'u Provider \<Rightarrow> string \<Rightarrow> string \<Rightarrow> bytes \<Rightarrow> ('u, err option) act" where
  "deleteManifest prov bucket key i = acall (upDelete prov bucket (ObjectKey i key))"

definition observedManifest :: "Proxy \<Rightarrow> 'u Provider \<Rightarrow> string \<Rightarrow> string \<Rightarrow> ('u, bytes option) act" where
  "observedManifest p prov bucket key =
     abind (acall (upHead prov bucket key)) (\<lambda>r.
       aret (case r of
               Inl _ \<Rightarrow> None
             | Inr info \<Rightarrow>
                 (case Parse (iMetadata info) (gLog2C p) of
                    Inl _ \<Rightarrow> None
                  | Inr meta \<Rightarrow> if mMultipart meta then Some (mManifestID meta) else None)))"

definition replacedSince :: "Proxy \<Rightarrow> 'u Provider \<Rightarrow> string \<Rightarrow> string \<Rightarrow> bytes \<Rightarrow> ('u, bool) act" where
  "replacedSince p prov bucket key observed =
     abind (acall (upHead prov bucket key)) (\<lambda>r.
       aret (case r of
               Inl e \<Rightarrow> upstream_NotFound e
             | Inr info \<Rightarrow>
                 (case Parse (iMetadata info) (gLog2C p) of
                    Inl _ \<Rightarrow> False
                  | Inr meta \<Rightarrow> \<not> mMultipart meta \<or> mManifestID meta \<noteq> observed)))"

definition isManifestFailure :: "err \<Rightarrow> bool" where
  "isManifestFailure e = errors_is ErrVerify e"

section \<open>Lemmas\<close>

lemma abind_Inr: "abind m f w = (Inr y, w') \<longleftrightarrow> (\<exists>x w1. m w = (Inr x, w1) \<and> f x w1 = (Inr y, w'))"
  by (auto simp: abind_def split: prod.splits sum.splits)

lemma abind_run: "m w = (Inr x, w1) \<Longrightarrow> abind m f w = f x w1"
  by (simp add: abind_def)

lemma abind_fail: "m w = (Inl e, w1) \<Longrightarrow> abind m f w = (Inl e, w1)"
  by (simp add: abind_def)

lemma aret_Inr: "aret x w = (Inr y, w') \<longleftrightarrow> y = x \<and> w' = w"
  by (auto simp: aret_def)

lemma alift_Inr: "alift r w = (Inr y, w') \<longleftrightarrow> r = Inr y \<and> w' = w"
  by (auto simp: alift_def)

lemma ofail_Inr: "ofail tr r w = (Inr y, w') \<longleftrightarrow> r = Inr y \<and> w' = w"
  by (cases r) (auto simp: ofail_def alift_def emap_err_def)

lemma acall_Inr: "acall c w = (Inr y, w') \<longleftrightarrow> fst (c (wUp w)) = y \<and> w' = w\<lparr>wUp := snd (c (wUp w))\<rparr>"
  by (auto simp: acall_def split: prod.splits)

lemma acall_run: "acall c w = (Inr (fst (c (wUp w))), w\<lparr>wUp := snd (c (wUp w))\<rparr>)"
  by (simp add: acall_def split: prod.splits)

lemmas act_Inr = abind_Inr aret_Inr alift_Inr ofail_Inr acall_Inr


text \<open>Headers.\<close>

lemma map_of_put:
  "map_of (header_put n vs h) = (map_of h)(n \<mapsto> vs)"
proof
  fix k
  have "map_of (filter (\<lambda>(m, _). m \<noteq> n) h) k = (if k = n then None else map_of h k)"
    by (induction h) auto
  then show "map_of (header_put n vs h) k = ((map_of h)(n \<mapsto> vs)) k"
    by (auto simp: header_put_def map_add_def split: option.splits)
qed

lemma header_get_set: "header_get (header_set n v h) n = v"
  by (simp add: header_get_def header_set_def map_of_put)

text \<open>What an accepted freshness check shows: the index had no record of the name, or recorded this version.\<close>

definition fresh_read :: "Local option \<Rightarrow> string \<Rightarrow> string \<Rightarrow> bytes list \<Rightarrow> bool" where
  "fresh_read f bucket key salts \<longleftrightarrow>
     (case f of
        None \<Rightarrow> True
      | Some l \<Rightarrow>
          lclosed l \<or> salts = [] \<or>
          (case TagFromSalts salts of
             Inl _ \<Rightarrow> True
           | Inr tag \<Rightarrow> lview l (lname l (bucket, key)) \<in> {None, Some (Present tag)}))"

lemma checkFreshness_Inr:
  assumes "checkFreshness now bucket key salts w = (Inr x, w')"
  shows "fresh_read (wFresh w) bucket key salts \<and> wUp w' = wUp w"
  using assms
  by (auto simp: checkFreshness_def fresh_read_def Check_def lview_def lname_def known_of_def kindTombstone_def Let_def
      split: option.splits if_splits sum.splits prod.splits Verdict.splits)

text \<open>And the other direction: what is fresh is not refused.\<close>

lemma checkFreshness_ok:
  assumes "fresh_read (wFresh w) bucket key salts"
  shows "\<exists>f. checkFreshness now bucket key salts w = (Inr (), w\<lparr>wFresh := f\<rparr>)"
proof (cases "wFresh w")
  case None
  then show ?thesis by (auto simp: checkFreshness_def intro!: exI [of _ "wFresh w"])
next
  case (Some l)
  show ?thesis
  proof (cases "salts = [] \<or> (\<exists>e. TagFromSalts salts = Inl e)")
    case True
    with Some show ?thesis by (auto simp: checkFreshness_def intro!: exI [of _ "wFresh w"])
  next
    case False
    then obtain tag where t: "TagFromSalts salts = Inr tag" "salts \<noteq> []" by (cases "TagFromSalts salts") auto
    with assms Some have "fst (fst (Check now bucket key tag l)) \<in> {Fresh, Unknown}"
      by (auto simp: fresh_read_def Check_def lview_def lname_def known_of_def kindTombstone_def Let_def split: if_splits prod.splits option.splits)
    with Some t show ?thesis by (auto simp: checkFreshness_def Let_def split: prod.splits)
  qed
qed

end
