(* ===== verification/GatewayRead.thy ===== *)
theory GatewayRead
  imports Gateway
begin

text \<open>
  The read handlers of \<open>internal/proxy\<close>: \<open>getObject\<close>, \<open>getObjectRange\<close> and \<open>headObject\<close> of \<open>object.go\<close>, and
  \<open>getMultipartObject\<close>, \<open>getMultipartRange\<close> and \<open>multipartLayout\<close> of \<open>multipartget.go\<close>. A handler that reaches its
  status line gives the reply: the headers, the bytes the client received and whether the connection was
  dropped in the middle of them. The \<open>Content-Range\<close> header of a 416 response is left out. The properties: what
  a client receives is authentic, what is stored can be read, and a range request delivers the range.
\<close>

section \<open>Handlers\<close>

definition unwrapDEK :: "Proxy \<Rightarrow> Request \<Rightarrow> Meta \<Rightarrow> s3Error + bytes" where
  "unwrapDEK p q meta =
     (case UnwrapDEK (gKeys p) (qBucket q) (qKey q) meta of
        Inr dek \<Rightarrow> Inr dek
      | Inl e \<Rightarrow>
          (case e of
             AADError _ \<Rightarrow> Inl (WithMessage api_InvalidArgument ''%v'')
           | _ \<Rightarrow>
               (case AsFailure e of
                  Some (VUnknownKID, _, _) \<Rightarrow>
                    Inl (WithMessage api_Integrity ''the key %q that protects this object is not in the keyring'')
                | _ \<Rightarrow> Inl (verifyError e))))"

definition parse_meta :: "Proxy \<Rightarrow> (string \<times> string) list \<Rightarrow> s3Error + Meta" where
  "parse_meta p md =
     (case Parse md (gLog2C p) of
        Inr meta \<Rightarrow> Inr meta
      | Inl e \<Rightarrow> Inl (if errors_is ErrNotEncrypted e then errNotEncryptedAPI else integrityError ''object metadata''))"

definition isMultipart :: "Proxy \<Rightarrow> (string \<times> string) list \<Rightarrow> s3Error + bool" where
  "isMultipart p md = ebind (parse_meta p md) (\<lambda>meta. Inr (mMultipart meta))"

definition gw_openSegment :: "Proxy \<Rightarrow> Request \<Rightarrow> (string \<times> string) list \<Rightarrow> source \<Rightarrow> s3Error + DecryptReader \<times> Meta" where
  "gw_openSegment p q md body =
     ebind (parse_meta p md) (\<lambda>meta.
     ebind (unwrapDEK p q meta) (\<lambda>dek.
       emap_err verifyError (OpenSegment body dek meta)))"

text \<open>The status line, and \<open>io.Copy\<close> to the client; \<open>None\<close> is running out of fuel, which is one more than
  the bytes that can come.\<close>

definition send :: "Request \<Rightarrow> int \<Rightarrow> headers \<Rightarrow> ('s \<Rightarrow> bytes \<times> err option \<times> 's) \<Rightarrow> nat \<Rightarrow> 's \<Rightarrow> reply option" where
  "send q status h rd fuel s =
     (case io_copy rd fuel s \<lparr>snk_out = [], snk_plan = qClient q\<rparr> of
        None \<Rightarrow> None
      | Some (e, d) \<Rightarrow> Some \<lparr>pStatus = status, pHeader = h, pBody = snk_out d, pAborted = (e \<noteq> None)\<rparr>)"

definition read_headers :: "Request \<Rightarrow> headers \<Rightarrow> int \<Rightarrow> headers" where
  "read_headers q src n =
     header_set ''Content-Length'' (Itoa n)
       (header_set ''Accept-Ranges'' ''bytes'' (copyObjectHeaders (qReply q) (qQuery q) src))"

definition range_headers :: "Request \<Rightarrow> headers \<Rightarrow> int \<Rightarrow> int \<Rightarrow> int \<Rightarrow> int \<Rightarrow> headers" where
  "range_headers q src start endp plainLen n =
     header_set ''Content-Length'' (Itoa n)
       (header_set ''Content-Range'' (''bytes '' @ Itoa start @ ''-'' @ Itoa endp @ ''/'' @ Itoa plainLen)
         (header_set ''Accept-Ranges'' ''bytes'' (copyObjectHeaders (qReply q) (qQuery q) src)))"

definition multipartLayout ::
  "Proxy \<Rightarrow> 'u Provider \<Rightarrow> Request \<Rightarrow> Meta \<Rightarrow> int \<Rightarrow> bytes \<Rightarrow> ('u, Layout) act" where
  "multipartLayout p prov q meta storedCipher dek =
     abind (alift (storedKey p (qBucket q) (qKey q))) (\<lambda>sk.
     abind (loadManifest prov (qBucket q) sk (mManifestID meta) dek) (\<lambda>r.
     abind (ofail (\<lambda>e. if isManifestFailure e then integrityError ''manifest'' else translateUpstream e) r) (\<lambda>m.
     abind (ofail (\<lambda>_. integrityError ''manifest'') (NewLayout (Parts m) (mLog2ChunkSize meta) (HasSalts m))) (\<lambda>layout.
       case CheckAgainst layout storedCipher of
         Some _ \<Rightarrow> alift (Inl (integrityError ''object size''))
       | None \<Rightarrow> aret layout))))"

definition getMultipartObject ::
  "Proxy \<Rightarrow> 'u Provider \<Rightarrow> Request \<Rightarrow> GetObjectOutput \<Rightarrow> ('u, reply option) act" where
  "getMultipartObject p prov q out =
     abind (ofail (\<lambda>_. integrityError ''object metadata'') (Parse (oMetadata out) (gLog2C p))) (\<lambda>meta.
     abind (alift (unwrapDEK p q meta)) (\<lambda>dek.
     abind (multipartLayout p prov q meta (oContentLength out) dek) (\<lambda>layout.
     abind (ofail (\<lambda>_. integrityError ''segment header'') (NewSegmentChain (oBody out) dek layout)) (\<lambda>chain.
       case VerifyFirstC chain of
         (Some _, _) \<Rightarrow> alift (Inl (integrityError ''first chunk''))
       | (None, chain) \<Rightarrow>
           abind (checkFreshness (qNow q) (qBucket q) (qKey q) (Salts layout)) (\<lambda>_.
             aret (send q 200 (read_headers q (oHeader out) (lTotalPlain layout)) (ReadC 32768)
                     (Suc (length (src_data (oBody out)))) chain))))))"

definition range_value :: "int \<Rightarrow> int \<Rightarrow> string" where
  "range_value a b = ''bytes='' @ Itoa a @ ''-'' @ Itoa b"

definition get_range :: "'u Provider \<Rightarrow> Request \<Rightarrow> string \<Rightarrow> string \<Rightarrow> int \<Rightarrow> int \<Rightarrow> ('u, GetObjectOutput) act" where
  "get_range prov q sk tag a b =
     abind (acall (upGet prov \<lparr>giBucket = qBucket q, giKey = sk, giRange = range_value a b, giIfMatch = tag\<rparr>))
       (ofail translateUpstream)"

definition rangeError :: "err \<Rightarrow> s3Error" where
  "rangeError e =
     (case e of
        Errorf m es \<Rightarrow> WithMessage (if errors_is ErrNotImplemented e then api_NotImplemented else api_InvalidRange) m
      | _ \<Rightarrow> api_InvalidRange)"

definition map_error :: "err \<Rightarrow> s3Error" where
  "map_error e = (if errors_is ErrRangeNotSatisfiable e then api_InvalidRange else integrityError ''range mapping'')"

definition read_header :: "source \<Rightarrow> s3Error + bytes \<times> source" where
  "read_header s =
     (case read_full HeaderSize s of
        (_, Some _, _) \<Rightarrow> Inl (integrityError ''segment header'')
      | (h, None, s') \<Rightarrow> Inr (h, s'))"

text \<open>The header of the first part, fetched by itself when the range starts past the first chunk of the part.\<close>

definition fetchHeader ::
  "'u Provider \<Rightarrow> Request \<Rightarrow> string \<Rightarrow> string \<Rightarrow> Layout \<Rightarrow> rangeSpan list \<Rightarrow> ('u, rangeSpan list) act" where
  "fetchHeader prov q sk tag layout spans =
     (if headerSeparate (hd spans)
      then let off = lCipherStart layout ! sindex (hd spans) in
        abind (get_range prov q sk tag off (sub64 (add64 off (int HeaderSize)) 1)) (\<lambda>header.
        abind (alift (read_header (oBody header))) (\<lambda>(rw, _).
          aret ((hd spans)\<lparr>rawHeader := Some rw\<rparr> # tl spans)))
      else aret spans)"

definition getMultipartRange ::
  "Proxy \<Rightarrow> 'u Provider \<Rightarrow> Request \<Rightarrow> ObjectInfo \<Rightarrow> Meta \<Rightarrow> string \<Rightarrow> ('u, reply option) act" where
  "getMultipartRange p prov q info meta spec =
     abind (alift (unwrapDEK p q meta)) (\<lambda>dek.
     abind (alift (storedKey p (qBucket q) (qKey q))) (\<lambda>sk.
     abind (multipartLayout p prov q meta (iContentLength info) dek) (\<lambda>layout.
     abind (ofail rangeError (parseRange spec (lTotalPlain layout))) (\<lambda>(start, endp).
     abind (ofail map_error (planRange layout start endp)) (\<lambda>spans.
     abind (fetchHeader prov q sk (iETag info) layout spans) (\<lambda>spans.
       case bodyRange layout spans of
         (fetchStart, fetchEnd) \<Rightarrow>
           abind (get_range prov q sk (iETag info) fetchStart fetchEnd) (\<lambda>out.
           abind (ofail (\<lambda>_. integrityError ''segment header'') (newRangeChain (oBody out) dek layout spans)) (\<lambda>chain.
             case VerifyFirstX chain of
               (Some _, _) \<Rightarrow> alift (Inl (integrityError ''first chunk''))
             | (None, chain) \<Rightarrow>
                 abind (checkFreshness (qNow q) (qBucket q) (qKey q) (Salts layout)) (\<lambda>_.
                   aret (send q 206 (range_headers q (oHeader out) start endp (lTotalPlain layout) (rangeLength spans))
                           (ReadX 32768) (Suc (nat (rangeLength spans))) chain))))))))))"

text \<open>The header of an object of one segment: fetched by itself, or the first bytes of the body.\<close>

definition segmentHeader :: "'u Provider \<Rightarrow> Request \<Rightarrow> string \<Rightarrow> string \<Rightarrow> Range \<Rightarrow> source \<Rightarrow> ('u, bytes \<times> source) act" where
  "segmentHeader prov q sk tag rng body =
     (if NeedsSeparateHeader rng
      then abind (get_range prov q sk tag 0 (int HeaderSize - 1)) (\<lambda>header.
           abind (alift (read_header (oBody header))) (\<lambda>(rw, _). aret (rw, body)))
      else alift (read_header body))"

definition getObjectRange :: "Proxy \<Rightarrow> 'u Provider \<Rightarrow> Request \<Rightarrow> string \<Rightarrow> ('u, reply option) act" where
  "getObjectRange p prov q spec =
     abind (alift (storedKey p (qBucket q) (qKey q))) (\<lambda>sk.
     abind (acall (upHead prov (qBucket q) sk)) (\<lambda>r.
     abind (ofail translateUpstream r) (\<lambda>info.
     abind (alift (parse_meta p (iMetadata info))) (\<lambda>meta.
     if mMultipart meta then getMultipartRange p prov q info meta spec
     else
       abind (ofail (\<lambda>_. integrityError ''ciphertext size'') (OpenedSize (iContentLength info) (mLog2ChunkSize meta))) (\<lambda>plainLen.
       abind (ofail rangeError (parseRange spec plainLen)) (\<lambda>(start, endp).
       abind (ofail map_error (MapRange start endp (iContentLength info) (mLog2ChunkSize meta))) (\<lambda>rng.
       abind (get_range prov q sk (iETag info) (if NeedsSeparateHeader rng then CipherStart rng else 0) (CipherEnd rng)) (\<lambda>out.
       abind (segmentHeader prov q sk (iETag info) rng (oBody out)) (\<lambda>(rw, body).
       abind (alift (unwrapDEK p q meta)) (\<lambda>dek.
       abind (ofail (\<lambda>_. integrityError ''segment header'')
                (NewRangeReader body rw dek \<lparr>Log2ChunkSize = AnyChunkSize, Multipart = False, Index = 0\<rparr> rng)) (\<lambda>reader.
         case VerifyFirstR reader of
           (Some _, _) \<Rightarrow> alift (Inl (integrityError ''first chunk''))
         | (None, reader) \<Rightarrow>
             (case SaltFromHeader rw of
                (_, False) \<Rightarrow> alift (Inl (integrityError ''segment header''))
              | (salt, True) \<Rightarrow>
                  abind (checkFreshness (qNow q) (qBucket q) (qKey q) (saltsOf salt)) (\<lambda>_.
                    aret (send q 206 (range_headers q (oHeader out) start endp plainLen (RLength rng))
                            (ReadR 32768) (Suc (nat (RLength rng))) reader))))))))))))))"

text \<open>The end of \<open>getObject\<close>, for an object of one segment.\<close>

definition getSegmentObject :: "Proxy \<Rightarrow> Request \<Rightarrow> GetObjectOutput \<Rightarrow> ('u, reply option) act" where
  "getSegmentObject p q out =
     abind (alift (gw_openSegment p q (oMetadata out) (oBody out))) (\<lambda>(reader, meta).
     abind (ofail (\<lambda>_. integrityError ''ciphertext size'') (OpenedSize (oContentLength out) (mLog2ChunkSize meta))) (\<lambda>plainLen.
     abind (checkFreshness (qNow q) (qBucket q) (qKey q) (saltsOf (hsalt (rheader reader)))) (\<lambda>_.
       aret (send q 200 (read_headers q (oHeader out) plainLen) (ReadD 32768)
               (Suc (length (src_data (oBody out)))) reader))))"

definition getObject :: "Proxy \<Rightarrow> 'u Provider \<Rightarrow> Request \<Rightarrow> ('u, reply option) act" where
  "getObject p prov q =
     (let spec = header_get (qHeader q) ''Range'' in
      if spec \<noteq> '''' then getObjectRange p prov q spec
      else
        abind (alift (storedKey p (qBucket q) (qKey q))) (\<lambda>sk.
        abind (acall (upGet prov (get_input (qBucket q) sk))) (\<lambda>r.
        abind (ofail translateUpstream r) (\<lambda>out.
        abind (alift (isMultipart p (oMetadata out))) (\<lambda>multipart.
        if multipart then getMultipartObject p prov q out else getSegmentObject p q out)))))"

definition headObject :: "Proxy \<Rightarrow> 'u Provider \<Rightarrow> Request \<Rightarrow> ('u, reply option) act" where
  "headObject p prov q =
     abind (alift (storedKey p (qBucket q) (qKey q))) (\<lambda>sk.
     abind (acall (upHead prov (qBucket q) sk)) (\<lambda>r.
     abind (ofail translateUpstream r) (\<lambda>info.
     abind (alift (parse_meta p (iMetadata info))) (\<lambda>meta.
     abind (ofail (\<lambda>_. integrityError ''ciphertext size'') (plainSize (iContentLength info) (iETag info) meta)) (\<lambda>plainLen.
       aret (Some \<lparr>pStatus = 200, pHeader = read_headers q (iHeader info) plainLen, pBody = [], pAborted = False\<rparr>))))))"

section \<open>A body shorter than announced\<close>

text \<open>
  \<open>net/http\<close> never delivers more than the announced length, but it may deliver less; the segment readers take
  such an end for a short last chunk. What a chain then delivers is shorter than the length that the
  response announces to the client.
\<close>

lemma segment_plain_less:
  assumes "wf_header h" and "SealedSize plain (Log2ChunkSize (hparams h)) = Inr n"
    and "int (length (seal_segment dek h p)) < n"
  shows "int (length p) < plain"
proof (rule ccontr)
  let ?c = "int (chunkSize h)" and ?l = "Log2ChunkSize (hparams h)"
  assume "\<not> int (length p) < plain"
  moreover have c: "0 < ?c" "chunk_bytes ?l = ?c" by (simp_all add: chunkSize_def chunk_bytes_def)
  ultimately have "cdiv plain ?c \<le> cdiv (int (length p)) ?c"
    unfolding cdiv_def by (intro zdiv_mono1) auto
  moreover have "n = 32 + plain + 16 * max (cdiv plain ?c) 1"
    using SealedSizeSegments_Inr [OF assms(2) [unfolded SealedSize_def]] c by (auto simp: sealed_size_def)
  moreover have "int (length (seal_segment dek h p)) = 32 + int (length p) + 16 * max (cdiv (int (length p)) ?c) 1"
    using length_seal_from [of "chunkSize h"] assms(1) by (simp add: seal_segment_def)
  ultimately show False using assms(3) \<open>\<not> int (length p) < plain\<close> by linarith
qed

lemma open_part_short:
  assumes o: "open_part dek l i s = Inr x" "outcomeD x = Sentinel EOF"
    and n: "lSealed l ! i = int n" "length (src_data s) < n" "n < 2 ^ 63"
    and z: "SealedSize (PlainSize (lParts l ! i)) (lLog2C l) = Inr (int n)"
  shows "int (length (restD x)) < PlainSize (lParts l ! i)"
proof -
  let ?w = "\<lparr>Log2ChunkSize = lLog2C l, Multipart = True, Index = Number (lParts l ! i)\<rparr>" and ?h = "rheader x"
  have "NewDecryptReader s dek ?w = Inr x"
    using o(1) n(1,2) by (auto simp: open_part_def result_simps limit_reader_def)
  from reader_sound [OF this o(2)] n have h: "wf_header ?h" "requireParams ?h ?w = None"
      "src_data s = seal_segment dek ?h (restD x)" by auto
  have "hparams ?h = ?w"
    using h(2) z SealedSizeSegments_Inr [of "PlainSize (lParts l ! i)" "lLog2C l" 1]
    by (cases "hparams ?h") (auto simp: requireParams_self SealedSize_def ValidateLog2ChunkSize_def)
  then show ?thesis
    using segment_plain_less [OF h(1), of "PlainSize (lParts l ! i)" "int n" dek "restD x"] z n(2) h(3) by simp
qed

lemma layout_plain_nonneg:
  assumes "layout_of ps l hs ss L"
  shows "0 \<le> sum_list (map PlainSize (drop i ps))"
proof (intro sum_list_nonneg)
  fix t assume "t \<in> set (map PlainSize (drop i ps))"
  then obtain p where p: "p \<in> set ps" "t = PlainSize p" by (metis (no_types) imageE in_set_dropD set_map)
  then obtain j where j: "j < length ps" "p = ps ! j" by (metis in_set_conv_nth)
  then have "SealedSize (PlainSize p) l = Inr (ss ! j)"
    using assms by (auto simp: layout_of_def dest: list_all2_nthD)
  from sealed_size_bound [OF this] show "0 \<le> t" using p(2) by simp
qed

lemma chain_from_short:
  assumes "layout_of ps l hs ss L" and "i \<le> length ps"
    and "chain_from dek L [i..<length ps] s = (q, Sentinel EOF)" and "int (length (src_data s)) < sum_list (drop i ss)"
  shows "int (length q) < sum_list (map PlainSize (drop i ps))"
  using assms(2-4)
proof (induction "length ps - i" arbitrary: i s q)
  case 0
  moreover have "length ss = length ps" using assms(1) by (auto simp: layout_of_def dest: list_all2_lengthD)
  ultimately show ?case by simp
next
  case (Suc d)
  then have i: "i < length ps" "i < length ss"
    using assms(1) by (auto simp: layout_of_def dest: list_all2_lengthD)
  have ix: "[i..<length ps] = i # [Suc i..<length ps]" using i(1) by (rule upt_conv_Cons)
  have L: "lParts L = ps" "lLog2C L = l" "lSealed L = ss" using assms(1) by (auto simp: layout_of_def)
  have zj: "SealedSize (PlainSize (ps ! j)) l = Inr (ss ! j)" if "j < length ps" for j
    using assms(1) that by (auto simp: layout_of_def dest: list_all2_nthD)
  define n where "n = nat (ss ! i)"
  have n: "ss ! i = int n" "n < 2 ^ 63" using sealed_size_bound [OF zj [OF i(1)]] by (auto simp: n_def nat_less_iff)
  have dr: "drop i ss = int n # drop (Suc i) ss" and dp: "drop i ps = ps ! i # drop (Suc i) ps"
    unfolding n(1) [symmetric] using i by (simp_all only: drop_nth_Cons)
  obtain x where x: "open_part dek L i s = Inr x" "outcomeD x = Sentinel EOF"
      and tl: "chain_from dek L [Suc i..<length ps] (skip_part L i s) = (drop (length (restD x)) q, Sentinel EOF)"
      and q: "q = restD x @ drop (length (restD x)) q"
    using Suc.prems(2) open_part_error [of dek L i s] unfolding ix
    by (auto split: sum.splits if_splits simp: prod_eq_iff)
  show ?case
  proof (cases "n \<le> length (src_data s)")
    case True
    have "lSealed L ! i = int n" "SealedSize (PlainSize (lParts L ! i)) (lLog2C L) = Inr (int n)"
      using n(1) zj [OF i(1)] by (simp_all add: L)
    from open_part_sound [OF x this(1) True n(2) this(2)]
    have "int (length (restD x)) = PlainSize (ps ! i)" by (auto simp: part_matches_def L)
    moreover have "int (length (src_data (skip_part L i s))) < sum_list (drop (Suc i) ss)"
      using Suc.prems(3) True unfolding dr by (simp add: skip_part_def L n(1) of_nat_diff)
    then have "int (length (drop (length (restD x)) q)) < sum_list (map PlainSize (drop (Suc i) ps))"
      using Suc.hyps(1) [OF _ _ tl] Suc.hyps(2) i(1) by simp
    moreover have "length q = length (restD x) + length (drop (length (restD x)) q)"
      using arg_cong [OF q, of length] by (simp only: length_append)
    ultimately have "int (length q) < PlainSize (ps ! i) + sum_list (map PlainSize (drop (Suc i) ps))" by linarith
    then show ?thesis unfolding dp by simp
  next
    case False
    have "int (length (restD x)) < PlainSize (ps ! i)"
      using open_part_short [OF x, of n] n False zj [OF i(1)] by (simp add: L)
    moreover have "length (drop (length (restD x)) q) = 0"
      using length_chain_from [of dek L "[Suc i..<length ps]" "skip_part L i s"] False unfolding tl
      by (simp add: skip_part_def L n(1))
    moreover note layout_plain_nonneg [OF assms(1), of "Suc i"]
    moreover have "length q = length (restD x) + length (drop (length (restD x)) q)"
      using arg_cong [OF q, of length] by (simp only: length_append)
    ultimately have "int (length q) < PlainSize (ps ! i) + sum_list (map PlainSize (drop (Suc i) ps))" by linarith
    then show ?thesis unfolding dp by simp
  qed
qed

section \<open>Sending the body\<close>

context byte_reader
begin

lemma io_copy_rest:
  assumes "inv s" and "0 < k" and "length (rest s) < fuel"
  shows "\<exists>e b d'. io_copy (read k) fuel s d = Some (e, d') \<and> snk_out d' = snk_out d @ b \<and> prefix b (rest s) \<and>
    (e = None \<longrightarrow> b = rest s \<and> outcome s = Sentinel EOF) \<and>
    (snk_plan d = [] \<longrightarrow> b = rest s \<and> (outcome s = Sentinel EOF \<longrightarrow> e = None))"
  using assms
proof (induction fuel arbitrary: s d)
  case (Suc fuel)
  show ?case
  proof (cases "rest s = []")
    case True
    with Suc.prems read_none [of s k] obtain s' where "read k s = ([], Some (outcome s), s')" by blast
    with True show ?thesis by auto
  next
    case False
    with Suc.prems read_some [of s k] obtain b s' where
      r: "read k s = (b, None, s')" and b: "b \<noteq> []" "rest s = b @ rest s'" "outcome s' = outcome s" "inv s'" by blast
    have fu: "length (rest s') < fuel" using Suc.prems(3) b by (cases b) auto
    obtain we d1 where d1: "sink_write b d = (we, d1)" by (cases "sink_write b d")
    show ?thesis
    proof (cases we)
      case None
      then have o: "snk_out d1 = snk_out d @ b" "snk_plan d = [] \<longrightarrow> snk_plan d1 = []"
        using d1 by (auto simp: sink_write_def split: list.splits option.splits)
      obtain e c d' where "io_copy (read k) fuel s' d1 = Some (e, d')" "snk_out d' = snk_out d1 @ c" "prefix c (rest s')"
          "e = None \<longrightarrow> c = rest s' \<and> outcome s = Sentinel EOF"
          "snk_plan d1 = [] \<longrightarrow> c = rest s' \<and> (outcome s = Sentinel EOF \<longrightarrow> e = None)"
        using Suc.IH [OF b(4) Suc.prems(2) fu, of d1] b(3) by auto
      with o show ?thesis using None d1 r b(1,2) by (intro exI [of _ e] exI [of _ "b @ c"] exI [of _ d']) auto
    next
      case (Some x)
      then obtain n where "snk_out d1 = snk_out d @ take n b" "snk_plan d \<noteq> []"
        using d1 by (auto simp: sink_write_def split: list.splits option.splits)
      then show ?thesis using Some d1 r b(1,2) by (auto simp: prefix_order.trans [OF take_is_prefix])
    qed
  qed
qed simp

lemma send_rest:
  assumes "inv s" and "0 < k" and "length (rest s) < fuel"
  shows "\<exists>rep. send q st h (read k) fuel s = Some rep \<and> pStatus rep = st \<and> pHeader rep = h \<and> prefix (pBody rep) (rest s) \<and>
    (\<not> pAborted rep \<longrightarrow> pBody rep = rest s \<and> outcome s = Sentinel EOF) \<and>
    (qClient q = [] \<longrightarrow> pBody rep = rest s \<and> (outcome s = Sentinel EOF \<longrightarrow> \<not> pAborted rep))"
  using io_copy_rest [OF assms, of "\<lparr>snk_out = [], snk_plan = qClient q\<rparr>"]
  by (auto simp: send_def simp del: io_copy.simps)

end

lemma Itoa_nat_eq: "0 \<le> a \<Longrightarrow> 0 \<le> b \<Longrightarrow> Itoa a = Itoa b \<Longrightarrow> a = b"
  by (metis Itoa_def decimal_digits eq_nat_nat_iff linorder_not_less)

lemma header_get_read_headers: "header_get (read_headers q src n) ''Content-Length'' = Itoa n"
  by (simp add: read_headers_def header_get_set)

section \<open>What a read delivers\<close>

text \<open>The salts that identify the stored version: of the segment, or of the parts if the manifest has them.\<close>

definition stored_salts :: "Upstream \<Rightarrow> Target \<Rightarrow> Meta \<Rightarrow> bytes \<Rightarrow> bytes \<Rightarrow> bytes list" where
  "stored_salts up t meta dek c =
     (if mMultipart meta
      then (case LoadManifest up (tBucket t) (tStored t) (mManifestID meta) dek of
              Inr m \<Rightarrow> manifestSalts m
            | Inl _ \<Rightarrow> [])
      else saltsOf (fst (SaltFromHeader (take HeaderSize c))))"

definition target :: "Request \<Rightarrow> string \<Rightarrow> Target" where
  "target q sk = \<lparr>tBucket = qBucket q, tIdentity = qKey q, tStored = sk\<rparr>"

text \<open>The client got the whole response: the connection was not dropped, and as many bytes arrived as the
  response announced.\<close>

definition received :: "reply \<Rightarrow> bool" where
  "received rep \<longleftrightarrow> \<not> pAborted rep \<and> header_get (pHeader rep) ''Content-Length'' = Itoa (int (length (pBody rep)))"

lemma unwrapDEK_Inr: "unwrapDEK p q meta = Inr dek \<longleftrightarrow> UnwrapDEK (gKeys p) (qBucket q) (qKey q) meta = Inr dek"
  by (auto simp: unwrapDEK_def split: sum.splits verr.splits option.splits vkind.splits)

lemma parse_meta_Inr: "parse_meta p md = Inr meta \<longleftrightarrow> Parse md (gLog2C p) = Inr meta"
  by (auto simp: parse_meta_def split: sum.splits)

lemma multipartLayout_Inr:
  assumes "multipartLayout p prov q meta n dek w = (Inr layout, w')" and "storedKey p (qBucket q) (qKey q) = Inr sk"
  shows "\<exists>m. LoadManifest (upstream_now prov (wUp w)) (qBucket q) sk (mManifestID meta) dek = Inr m \<and>
    NewLayout (Parts m) (mLog2ChunkSize meta) (HasSalts m) = Inr layout \<and> n = lTotalCipher layout \<and>
    w' = w\<lparr>wUp := snd (upGet prov (get_input (qBucket q) (ObjectKey (mManifestID meta) sk)) (wUp w))\<rparr>"
proof -
  obtain m where "LoadManifest (upstream_now prov (wUp w)) (qBucket q) sk (mManifestID meta) dek = Inr m"
      "NewLayout (Parts m) (mLog2ChunkSize meta) (HasSalts m) = Inr layout" "CheckAgainst layout n = None"
      "w' = w\<lparr>wUp := snd (upGet prov (get_input (qBucket q) (ObjectKey (mManifestID meta) sk)) (wUp w))\<rparr>"
    using assms unfolding multipartLayout_def abind_Inr alift_Inr ofail_Inr loadManifest_def acall_Inr
    by (clarsimp simp: alift_Inr aret_Inr split: option.splits)
  then show ?thesis by (auto simp: CheckAgainst_def split: if_splits)
qed

lemma verify_first_Inr:
  "(case v of (Some _, _) \<Rightarrow> alift (Inl e) | (None, c) \<Rightarrow> f c) w = (Inr y, w') \<longleftrightarrow> (\<exists>c. v = (None, c) \<and> f c w = (Inr y, w'))"
  by (auto simp: alift_Inr split: prod.splits option.splits)

lemma getMultipartObject_sound:
  assumes g: "getMultipartObject p prov q out w = (Inr r, w')" and sk: "storedKey p (qBucket q) (qKey q) = Inr sk"
    and meta: "Parse (oMetadata out) (gLog2C p) = Inr meta" "mMultipart meta"
  defines "up \<equiv> upstream_now prov (wUp w)"
  shows "\<exists>dek rep. r = Some rep \<and> pStatus rep = 200 \<and> UnwrapDEK (gKeys p) (qBucket q) (qKey q) meta = Inr dek \<and>
    (\<exists>m. LoadManifest up (qBucket q) sk (mManifestID meta) dek = Inr m) \<and>
    fresh_read (wFresh w) (qBucket q) (qKey q) (stored_salts up (target q sk) meta dek (src_data (oBody out))) \<and>
    (received rep \<and> int (length (src_data (oBody out))) \<le> oContentLength out \<longrightarrow>
      (\<exists>n. stored_body up (target q sk) meta dek (src_data (oBody out)) (pBody rep) n))"
proof -
  obtain dek layout w1 c c' where dek: "UnwrapDEK (gKeys p) (qBucket q) (qKey q) meta = Inr dek"
      and l: "multipartLayout p prov q meta (oContentLength out) dek w = (Inr layout, w1)"
      and c: "NewSegmentChain (oBody out) dek layout = Inr c" "VerifyFirstC c = (None, c')"
      and f: "checkFreshness (qNow q) (qBucket q) (qKey q) (Salts layout) w1 = (Inr (), w')"
      and r: "r = send q 200 (read_headers q (oHeader out) (lTotalPlain layout)) (ReadC 32768)
                    (Suc (length (src_data (oBody out)))) c'"
    using g meta(1) unfolding getMultipartObject_def abind_Inr ofail_Inr alift_Inr unwrapDEK_Inr
    unfolding verify_first_Inr abind_Inr aret_Inr by auto
  obtain m where m: "LoadManifest up (qBucket q) sk (mManifestID meta) dek = Inr m"
      "NewLayout (Parts m) (mLog2ChunkSize meta) (HasSalts m) = Inr layout" "oContentLength out = lTotalCipher layout"
      "wFresh w1 = wFresh w"
    using multipartLayout_Inr [OF l sk] by (auto simp: up_def)
  have v: "ValidateLog2ChunkSize (mLog2ChunkSize meta) = None" using Parse_valid [OF meta(1)] by (simp add: valid_meta_def)
  note tot = NewLayout_total [OF LoadManifest_Inr(1) [OF m(1)] v]
  from m(2) tot(2) obtain ss where lo: "layout_of (Parts m) (mLog2ChunkSize meta) (HasSalts m) ss layout" "Parts m \<noteq> []"
      "lTotalCipher layout = sum_list ss" "lTotalPlain layout = sum_list (map PlainSize (Parts m))"
    by (rule NewLayout_layout_of)
  have ps: "lParts layout = Parts m" "lhasSalts layout = HasSalts m" using lo(1) by (simp_all add: layout_of_def)
  have ch: "chain_from dek layout [0..<length (Parts m)] (oBody out) = (restC c, outcomeC c)"
    using NewSegmentChain_from [where l = layout and dek = dek and src = "oBody out"] c(1) lo(2) ps
    by (auto split: prod.splits)
  have c': "chain_inv c'" "restC c' = restC c" "outcomeC c' = outcomeC c"
    using VerifyFirstC_cases [OF c(1)] c(2) by auto
  have len: "length (restC c') < Suc (length (src_data (oBody out)))"
    using length_chain_from [of dek layout "[0..<length (Parts m)]" "oBody out"] ch c'(2) by simp
  from chain.send_rest [OF c'(1) _ len, of 32768] obtain rep where rep: "r = Some rep" "pStatus rep = 200"
      "pHeader rep = read_headers q (oHeader out) (lTotalPlain layout)"
      "\<not> pAborted rep \<longrightarrow> pBody rep = restC c' \<and> outcomeC c' = Sentinel EOF"
    unfolding r by fastforce
  have "stored_salts up (target q sk) meta dek (src_data (oBody out)) = Salts layout"
    using m(1) meta(2) ps by (simp add: stored_salts_def target_def manifestSalts_def Salts_def)
  then have fresh: "fresh_read (wFresh w) (qBucket q) (qKey q) (stored_salts up (target q sk) meta dek (src_data (oBody out)))"
    using checkFreshness_Inr [OF f] m(4) by simp
  have body: "\<exists>n. stored_body up (target q sk) meta dek (src_data (oBody out)) (pBody rep) n"
    if t: "received rep" "int (length (src_data (oBody out))) \<le> oContentLength out"
  proof -
    have "0 \<le> lTotalPlain layout" using layout_plain_nonneg [OF lo(1), of 0] lo(4) by simp
    then have q: "pBody rep = restC c" "outcomeC c = Sentinel EOF" "int (length (restC c)) = lTotalPlain layout"
      using t(1) rep c' Itoa_nat_eq [of "lTotalPlain layout" "int (length (pBody rep))"]
      by (auto simp: received_def header_get_read_headers)
    then have "\<not> int (length (src_data (oBody out))) < sum_list (drop 0 ss)"
      using chain_from_short [OF lo(1), of 0 dek "oBody out" "restC c"] ch lo(4) by auto
    then have "int (length (src_data (oBody out))) = sum_list (drop 0 ss)" using t(2) m(3) lo(3) by simp
    from chain_from_sound [OF lo(1) _ _ this, of dek "restC c"] ch q m(1) meta(2) show ?thesis
      by (auto simp: stored_body_def target_def)
  qed
  from rep dek fresh body m(1) show ?thesis by blast
qed

lemma SaltFromHeader_raw: "wf_header h \<Longrightarrow> SaltFromHeader (raw h) = (hsalt h, True)"
  using raw_fields(1) [of h "[]"] by (simp add: SaltFromHeader_def wf_header_def)

lemma OpenSegment_salt:
  assumes "OpenSegment body dek meta = Inr (r', opened)"
  shows "saltsOf (hsalt (rheader r')) = saltsOf (fst (SaltFromHeader (take HeaderSize (src_data body))))"
proof -
  obtain r where r: "NewDecryptReader body dek \<lparr>Log2ChunkSize = AnyChunkSize, Multipart = False, Index = 0\<rparr> = Inr r"
      "VerifyFirstD r = (None, r')"
    using assms by (auto simp: OpenSegment_def Let_def split: sum.splits prod.splits option.splits if_splits)
  from r(1) obtain h b where h: "wf_header h" "src_data body = raw h @ b" "rheader r = h" by (rule NewDecryptReader_rest)
  have "rheader r' = h" using VerifyFirstD_cases [OF r(1)] r(2) h(3) by simp
  then show ?thesis using h(1,2) SaltFromHeader_raw [OF h(1)] by simp
qed

lemma getSegment_sound:
  assumes o: "OpenSegment (oBody out) dek meta = Inr (x, opened)" "OpenedSize (oContentLength out) (mLog2ChunkSize opened) = Inr n"
    and rep: "pHeader rep = read_headers q src n" "\<not> pAborted rep \<longrightarrow> pBody rep = restD x \<and> outcomeD x = Sentinel EOF"
    and t: "received rep" "int (length (src_data (oBody out))) \<le> oContentLength out" "\<not> mMultipart meta"
  shows "stored_body up t meta dek (src_data (oBody out)) (pBody rep) 1"
proof -
  have s: "SealedSize n (mLog2ChunkSize opened) = Inr (oContentLength out)"
    using o(2) by (auto simp: OpenedSize_def SealedSize_def OpenedSizeSegments_iff)
  note b = sealed_size_bound [OF s]
  have l: "length (src_data (oBody out)) < 2 ^ 63" using b t(2) by simp
  have n: "pBody rep = restD x" "outcomeD x = Sentinel EOF" "int (length (restD x)) = n"
    using t(1) rep b Itoa_nat_eq [of n "int (length (pBody rep))"] by (auto simp: received_def header_get_read_headers)
  from OpenSegment_sound [OF o(1) n(2) l] obtain h where "wf_header h" "\<not> Multipart (hparams h)" "Index (hparams h) = 0"
      "mHasChunkSize meta \<longrightarrow> Log2ChunkSize (hparams h) = mLog2ChunkSize meta"
      "src_data (oBody out) = seal_segment dek h (restD x)" by blast
  then show ?thesis using n b t(3) by (auto simp: stored_body_def)
qed

lemma getObject_whole:
  assumes "header_get (qHeader q) ''Range'' = ''''"
  shows "getObject p prov q w = (Inr r, w') \<longleftrightarrow>
    (\<exists>sk out u mp. storedKey p (qBucket q) (qKey q) = Inr sk \<and>
       upGet prov (get_input (qBucket q) sk) (wUp w) = (Inr out, u) \<and> isMultipart p (oMetadata out) = Inr mp \<and>
       (if mp then getMultipartObject p prov q out else getSegmentObject p q out) (w\<lparr>wUp := u\<rparr>) = (Inr r, w'))"
  (is "?l \<longleftrightarrow> ?r")
proof
  assume ?l
  then obtain sk out mp where "storedKey p (qBucket q) (qKey q) = Inr sk"
      "fst (upGet prov (get_input (qBucket q) sk) (wUp w)) = Inr out" "isMultipart p (oMetadata out) = Inr mp"
      "(if mp then getMultipartObject p prov q out else getSegmentObject p q out)
         (w\<lparr>wUp := snd (upGet prov (get_input (qBucket q) sk) (wUp w))\<rparr>) = (Inr r, w')"
    using assms unfolding getObject_def Let_def by (clarsimp simp: act_Inr)
  then show ?r by (metis prod.collapse)
next
  assume ?r
  then show ?l using assms unfolding getObject_def Let_def
    by (clarsimp simp: abind_def alift_def acall_def ofail_def split: sum.splits)
qed

lemma get_authentic_lemma:
  assumes "getObject p prov q w = (Inr r, w')" and "header_get (qHeader q) ''Range'' = ''''"
  shows "\<exists>sk out u meta dek rep. storedKey p (qBucket q) (qKey q) = Inr sk \<and>
    upGet prov (get_input (qBucket q) sk) (wUp w) = (Inr out, u) \<and> Parse (oMetadata out) (gLog2C p) = Inr meta \<and>
    UnwrapDEK (gKeys p) (qBucket q) (qKey q) meta = Inr dek \<and> r = Some rep \<and> pStatus rep = 200 \<and>
    (mMultipart meta \<longrightarrow> (\<exists>m. LoadManifest (upstream_now prov u) (qBucket q) sk (mManifestID meta) dek = Inr m)) \<and>
    fresh_read (wFresh w) (qBucket q) (qKey q) (stored_salts (upstream_now prov u) (target q sk) meta dek (src_data (oBody out))) \<and>
    (received rep \<and> int (length (src_data (oBody out))) \<le> oContentLength out \<longrightarrow>
      (\<exists>n. stored_body (upstream_now prov u) (target q sk) meta dek (src_data (oBody out)) (pBody rep) n))"
proof -
  obtain sk out u mp where sk: "storedKey p (qBucket q) (qKey q) = Inr sk"
      and out: "upGet prov (get_input (qBucket q) sk) (wUp w) = (Inr out, u)"
      and mp: "isMultipart p (oMetadata out) = Inr mp"
      and k: "(if mp then getMultipartObject p prov q out else getSegmentObject p q out) (w\<lparr>wUp := u\<rparr>) = (Inr r, w')"
    using assms(1) unfolding getObject_whole [OF assms(2)] by blast
  obtain meta where meta: "Parse (oMetadata out) (gLog2C p) = Inr meta" "mMultipart meta = mp"
    using mp by (auto simp: isMultipart_def result_simps parse_meta_Inr)
  show ?thesis
  proof (cases mp)
    case True
    then have "getMultipartObject p prov q out (w\<lparr>wUp := u\<rparr>) = (Inr r, w')" using k by simp
    from getMultipartObject_sound [OF this sk meta(1)] True meta sk out show ?thesis by fastforce
  next
    case False
    obtain x opened dek n where o: "UnwrapDEK (gKeys p) (qBucket q) (qKey q) meta = Inr dek"
        "OpenSegment (oBody out) dek meta = Inr (x, opened)" "OpenedSize (oContentLength out) (mLog2ChunkSize opened) = Inr n"
      and f: "checkFreshness (qNow q) (qBucket q) (qKey q) (saltsOf (hsalt (rheader x))) (w\<lparr>wUp := u\<rparr>) = (Inr (), w')"
      and r: "r = send q 200 (read_headers q (oHeader out) n) (ReadD 32768) (Suc (length (src_data (oBody out)))) x"
      using k False meta(1) unfolding gw_openSegment_def getSegmentObject_def
      by (auto simp: act_Inr result_simps parse_meta_Inr unwrapDEK_Inr)
    have inv: "readerD_inv x" "length (restD x) < Suc (length (src_data (oBody out)))" using OpenSegment_inv [OF o(2)] by auto
    from decrypt.send_rest [OF inv(1) _ inv(2), of 32768] obtain rep where rep: "r = Some rep" "pStatus rep = 200"
        "pHeader rep = read_headers q (oHeader out) n" "\<not> pAborted rep \<longrightarrow> pBody rep = restD x \<and> outcomeD x = Sentinel EOF"
      unfolding r by fastforce
    have "fresh_read (wFresh w) (qBucket q) (qKey q)
        (stored_salts (upstream_now prov u) (target q sk) meta dek (src_data (oBody out)))"
      using checkFreshness_Inr [OF f] False meta(2) by (simp add: stored_salts_def OpenSegment_salt [OF o(2)])
    moreover have "\<exists>n. stored_body (upstream_now prov u) (target q sk) meta dek (src_data (oBody out)) (pBody rep) n"
      if t: "received rep" "int (length (src_data (oBody out))) \<le> oContentLength out"
      using getSegment_sound [OF o(2,3) rep(3,4) t] False meta(2) by blast
    ultimately show ?thesis using sk out meta o(1) rep(1,2) False by blast
  qed
qed


section \<open>What is stored can be read\<close>

lemma parts_plain_total:
  "list_all2 (part_matches l hs) ps segs \<Longrightarrow> sum_list (map PlainSize ps) = int (length (concat (map snd segs)))"
  by (induction rule: list_all2_induct) (auto simp: part_matches_def)

lemma getMultipartObject_complete:
  assumes "storedKey p (qBucket q) (qKey q) = Inr sk" and meta: "Parse (oMetadata out) (gLog2C p) = Inr meta" "mMultipart meta"
    and dek: "UnwrapDEK (gKeys p) (qBucket q) (qKey q) meta = Inr dek"
    and out: "oContentLength out = int (length (src_data (oBody out)))"
    and body: "stored_body (upstream_now prov (wUp w)) (target q sk) meta dek (src_data (oBody out)) pt n"
    and fresh: "fresh_read (wFresh w) (qBucket q) (qKey q)
      (stored_salts (upstream_now prov (wUp w)) (target q sk) meta dek (src_data (oBody out)))" and "qClient q = []"
  shows "\<exists>rep w'. getMultipartObject p prov q out w = (Inr (Some rep), w') \<and> pStatus rep = 200 \<and> received rep \<and> pBody rep = pt"
proof -
  let ?up = "upstream_now prov (wUp w)"
  have v: "ValidateLog2ChunkSize (mLog2ChunkSize meta) = None" using Parse_valid [OF meta(1)] by (simp add: valid_meta_def)
  obtain m segs where m: "LoadManifest ?up (qBucket q) sk (mManifestID meta) dek = Inr m"
      "list_all2 (part_matches (mLog2ChunkSize meta) (HasSalts m)) (Parts m) segs"
      "src_data (oBody out) = seal_segments dek segs" "pt = concat (map snd segs)"
    using body meta(2) by (auto simp: stored_body_def target_def)
  from openMultipart_ok [of ?up "target q sk" meta dek m segs "oBody out"] m v obtain c'
    where c': "openMultipart ?up (target q sk) meta (oContentLength out) (oBody out) dek = Inr (c', length (Parts m))"
      "chain_inv c'" "restC c' = pt" "outcomeC c' = Sentinel EOF"
    unfolding out by (auto simp: target_def)
  then obtain L c where L: "NewLayout (Parts m) (mLog2ChunkSize meta) (HasSalts m) = Inr L"
      "CheckAgainst L (oContentLength out) = None" "NewSegmentChain (oBody out) dek L = Inr c" "VerifyFirstC c = (None, c')"
    using m(1) by (auto simp: openMultipart_def target_def split: sum.splits option.splits prod.splits)
  from L(1) NewLayout_total(2) [OF LoadManifest_Inr(1) [OF m(1)] v] obtain ss
    where lo: "layout_of (Parts m) (mLog2ChunkSize meta) (HasSalts m) ss L" "lTotalPlain L = sum_list (map PlainSize (Parts m))"
    by (rule NewLayout_layout_of)
  define w1 where "w1 = w\<lparr>wUp := snd (upGet prov (get_input (qBucket q) (ObjectKey (mManifestID meta) sk)) (wUp w))\<rparr>"
  have ml: "multipartLayout p prov q meta (oContentLength out) dek w = (Inr L, w1)"
    using m(1) assms(1) L(1,2)
    by (simp add: multipartLayout_def abind_def alift_def ofail_def loadManifest_def acall_def aret_def w1_def)
  have "stored_salts ?up (target q sk) meta dek (src_data (oBody out)) = Salts L" "wFresh w1 = wFresh w"
    using m(1) meta(2) lo(1) by (simp_all add: stored_salts_def target_def manifestSalts_def Salts_def w1_def layout_of_def)
  then obtain f where f: "checkFreshness (qNow q) (qBucket q) (qKey q) (Salts L) w1 = (Inr (), w1\<lparr>wFresh := f\<rparr>)"
    using checkFreshness_ok [of w1 "qBucket q" "qKey q" "Salts L" "qNow q"] fresh by auto
  have "length (restC c') < Suc (length (src_data (oBody out)))" using openMultipart_inv [OF c'(1)] by simp
  from chain.send_rest [OF c'(2) _ this, of 32768 q 200 "read_headers q (oHeader out) (lTotalPlain L)"] c'(3,4) assms(8)
  obtain rep where rep: "send q 200 (read_headers q (oHeader out) (lTotalPlain L)) (ReadC 32768)
      (Suc (length (src_data (oBody out)))) c' = Some rep" "pStatus rep = 200"
      "pHeader rep = read_headers q (oHeader out) (lTotalPlain L)" "pBody rep = pt" "\<not> pAborted rep" by auto
  have "received rep"
    using rep lo(2) parts_plain_total [OF m(2)] m(4) by (simp add: received_def header_get_read_headers)
  moreover have "getMultipartObject p prov q out w = (Inr (Some rep), w1\<lparr>wFresh := f\<rparr>)"
    using meta(1) dek ml L(3,4) f rep(1)
    by (simp add: getMultipartObject_def abind_def alift_def ofail_def aret_def unwrapDEK_Inr [THEN iffD2])
  ultimately show ?thesis using rep by blast
qed

lemma getSegmentObject_complete:
  assumes meta: "Parse (oMetadata out) (gLog2C p) = Inr meta" "\<not> mMultipart meta"
    and dek: "UnwrapDEK (gKeys p) (qBucket q) (qKey q) meta = Inr dek" "length dek = 32"
    and out: "src_end (oBody out) = Sentinel EOF" "oContentLength out = int (length (src_data (oBody out)))"
    and body: "stored_body up t meta dek (src_data (oBody out)) pt n"
    and fresh: "fresh_read (wFresh w) (qBucket q) (qKey q) (stored_salts up t meta dek (src_data (oBody out)))"
    and "qClient q = []"
  shows "\<exists>rep w'. getSegmentObject p q out w = (Inr (Some rep), w') \<and> pStatus rep = 200 \<and> received rep \<and> pBody rep = pt"
proof -
  obtain h where h: "wf_header h" "\<not> Multipart (hparams h)" "Index (hparams h) = 0"
      "mHasChunkSize meta \<longrightarrow> Log2ChunkSize (hparams h) = mLog2ChunkSize meta"
      "src_data (oBody out) = seal_segment dek h pt" "length pt \<le> 2 ^ 46"
    using body meta(2) by (auto simp: stored_body_def)
  have b: "oBody out = \<lparr>src_data = seal_segment dek h pt, src_end = Sentinel EOF\<rparr>"
    using h(5) out(1) by (cases "oBody out") simp
  let ?opened = "meta\<lparr>mLog2ChunkSize := Log2ChunkSize (hparams h)\<rparr>"
  obtain x where x: "OpenSegment (oBody out) dek meta = Inr (x, ?opened)"
      "readerD_inv x" "restD x = pt" "outcomeD x = Sentinel EOF"
    using OpenSegment_ok [OF h(1-3) dek(2) h(4) b] by blast
  have o: "OpenedSize (oContentLength out) (Log2ChunkSize (hparams h)) = Inr (int (length pt))"
    using OpenedSize_seal_segment [OF h(1,6), of dek] h(5) out(2) by simp
  obtain f where f: "checkFreshness (qNow q) (qBucket q) (qKey q) (saltsOf (hsalt (rheader x))) w = (Inr (), w\<lparr>wFresh := f\<rparr>)"
    using checkFreshness_ok [of w "qBucket q" "qKey q" "saltsOf (hsalt (rheader x))" "qNow q"] fresh meta(2)
    by (auto simp: stored_salts_def OpenSegment_salt [OF x(1)])
  have "length (restD x) < Suc (length (src_data (oBody out)))" using OpenSegment_inv [OF x(1)] by simp
  from decrypt.send_rest [OF x(2) _ this, of 32768 q 200 "read_headers q (oHeader out) (int (length pt))"] x(3,4) assms(9)
  obtain rep where rep: "send q 200 (read_headers q (oHeader out) (int (length pt))) (ReadD 32768)
      (Suc (length (src_data (oBody out)))) x = Some rep" "pStatus rep = 200"
      "pHeader rep = read_headers q (oHeader out) (int (length pt))" "pBody rep = pt" "\<not> pAborted rep" by auto
  have "gw_openSegment p q (oMetadata out) (oBody out) = Inr (x, ?opened)"
    using meta(1) dek(1) x(1) by (simp add: gw_openSegment_def parse_meta_Inr [THEN iffD2] unwrapDEK_Inr [THEN iffD2])
  then have "getSegmentObject p q out w = (Inr (Some rep), w\<lparr>wFresh := f\<rparr>)"
    using o f rep(1) by (simp add: getSegmentObject_def abind_def alift_def ofail_def aret_def)
  then show ?thesis using rep by (simp add: received_def header_get_read_headers)
qed

lemma get_complete_lemma:
  assumes r: "header_get (qHeader q) ''Range'' = ''''" and sk: "storedKey p (qBucket q) (qKey q) = Inr sk"
    and g: "upGet prov (get_input (qBucket q) sk) (wUp w) = (Inr out, u)"
    and meta: "Parse (oMetadata out) (gLog2C p) = Inr meta"
    and dek: "UnwrapDEK (gKeys p) (qBucket q) (qKey q) meta = Inr dek" "length dek = 32"
    and out: "src_end (oBody out) = Sentinel EOF" "oContentLength out = int (length (src_data (oBody out)))"
    and body: "stored_body (upstream_now prov u) (target q sk) meta dek (src_data (oBody out)) pt n"
    and fresh: "fresh_read (wFresh w) (qBucket q) (qKey q)
      (stored_salts (upstream_now prov u) (target q sk) meta dek (src_data (oBody out)))" and client: "qClient q = []"
  shows "\<exists>rep w'. getObject p prov q w = (Inr (Some rep), w') \<and> pStatus rep = 200 \<and> received rep \<and> pBody rep = pt"
proof -
  let ?w = "w\<lparr>wUp := u\<rparr>"
  have "isMultipart p (oMetadata out) = Inr (mMultipart meta)"
    using meta by (simp add: isMultipart_def parse_meta_Inr [THEN iffD2])
  moreover have "\<exists>rep w'. (if mMultipart meta then getMultipartObject p prov q out else getSegmentObject p q out) ?w =
      (Inr (Some rep), w') \<and> pStatus rep = 200 \<and> received rep \<and> pBody rep = pt"
  proof (cases "mMultipart meta")
    case True
    then show ?thesis
      using getMultipartObject_complete [OF sk meta True dek(1) out(2), of prov ?w pt n] body fresh client by simp
  next
    case False
    then show ?thesis
      using getSegmentObject_complete [OF meta False dek out body, of ?w] fresh client by simp
  qed
  ultimately show ?thesis unfolding getObject_whole [OF r] using sk g by blast
qed

text \<open>C11: What is stored can be read. If the provider answers the read with an object whose metadata parses,
  whose data key unwraps for this bucket and key and whose body, arriving completely, holds the plaintext
  \<open>pt\<close> (in one segment, or in the segments of a manifest that the provider also returns), and the
  freshness index does not know another version, then \<open>getObject\<close> answers 200 and a client that accepts
  the response receives exactly \<open>pt\<close>, with its length announced.\<close>

theorem get_complete:
  assumes r: "header_get (qHeader q) ''Range'' = ''''" and sk: "storedKey p (qBucket q) (qKey q) = Inr sk"
    and g: "upGet prov (get_input (qBucket q) sk) (wUp w) = (Inr out, u)"
    and meta: "Parse (oMetadata out) (gLog2C p) = Inr meta"
    and dek: "UnwrapDEK (gKeys p) (qBucket q) (qKey q) meta = Inr dek" "length dek = 32"
    and out: "src_end (oBody out) = Sentinel EOF" "oContentLength out = int (length (src_data (oBody out)))"
    and body: "stored_body (upstream_now prov u) (target q sk) meta dek (src_data (oBody out)) pt n"
    and fresh: "fresh_read (wFresh w) (qBucket q) (qKey q)
      (stored_salts (upstream_now prov u) (target q sk) meta dek (src_data (oBody out)))" and client: "qClient q = []"
  shows "\<exists>rep w'. getObject p prov q w = (Inr (Some rep), w') \<and> pStatus rep = 200 \<and> received rep \<and> pBody rep = pt"
  using assms by (rule get_complete_lemma)

section \<open>Ranges\<close>

text \<open>The provider serves byte ranges of the stored object. \<open>J\<close> holds of the provider's states in which the object
  with this ETag is stored; reading keeps it.\<close>

definition serves_ranges :: "'u Provider \<Rightarrow> string \<Rightarrow> string \<Rightarrow> string \<Rightarrow> ('u \<Rightarrow> bool) \<Rightarrow> bytes \<Rightarrow> bool" where
  "serves_ranges prov bucket sk tag J cipher \<longleftrightarrow>
     (\<forall>u a b. J u \<and> a \<le> b \<and> b < length cipher \<longrightarrow>
        (\<exists>out u'. upGet prov \<lparr>giBucket = bucket, giKey = sk, giRange = range_value (int a) (int b), giIfMatch = tag\<rparr> u = (Inr out, u') \<and>
          oBody out = \<lparr>src_data = slice a (Suc b) cipher, src_end = Sentinel EOF\<rparr> \<and> J u'))"

lemma get_range_served:
  assumes "serves_ranges prov (qBucket q) sk tag J cipher" and "J (wUp w)" and "a \<le> b" and "b < length cipher"
  shows "\<exists>out u'. get_range prov q sk tag (int a) (int b) w = (Inr out, w\<lparr>wUp := u'\<rparr>) \<and> J u' \<and>
    oBody out = \<lparr>src_data = slice a (Suc b) cipher, src_end = Sentinel EOF\<rparr>"
  using assms unfolding serves_ranges_def get_range_def
  by (fastforce simp: abind_def acall_def ofail_def alift_def aret_def)

lemma header_get_range_headers:
  "header_get (range_headers q src a b t n) ''Content-Length'' = Itoa n"
  "header_get (range_headers q src a b t n) ''Content-Range'' = ''bytes '' @ Itoa a @ ''-'' @ Itoa b @ ''/'' @ Itoa t"
  by (simp add: range_headers_def header_get_set)
    (simp add: range_headers_def header_get_def header_set_def map_of_put CanonicalHeaderKey_def token_char_def upper_def lower_def)

lemma multipartLayout_ok:
  assumes sk: "storedKey p (qBucket q) (qKey q) = Inr sk"
    and m: "LoadManifest (upstream_now prov (wUp w)) (qBucket q) sk (mManifestID meta) dek = Inr m"
      "list_all2 (part_matches (mLog2ChunkSize meta) (HasSalts m)) (Parts m) segs"
    and v: "ValidateLog2ChunkSize (mLog2ChunkSize meta) = None" and dek: "length dek = 32"
  shows "\<exists>L. multipartLayout p prov q meta (int (length (concat (ciphers dek segs)))) dek w =
      (Inr L, w\<lparr>wUp := snd (upGet prov (get_input (qBucket q) (ObjectKey (mManifestID meta) sk)) (wUp w))\<rparr>) \<and>
    intact dek L (Parts m) segs \<and> Salts L = manifestSalts m"
proof -
  note tot = NewLayout_total [OF LoadManifest_Inr(1) [OF m(1)] v]
  obtain L where L: "NewLayout (Parts m) (mLog2ChunkSize meta) (HasSalts m) = Inr L" using tot(1) by blast
  from L tot(2) obtain ss where lo: "layout_of (Parts m) (mLog2ChunkSize meta) (HasSalts m) ss L" "lTotalCipher L = sum_list ss"
    by (rule NewLayout_layout_of)
  have l: "lParts L = Parts m" "lLog2C L = mLog2ChunkSize meta" "lhasSalts L = HasSalts m" "lSealed L = ss"
    using lo(1) by (simp_all add: layout_of_def)
  have i: "intact dek L (Parts m) segs" using tot(2) L m(2) dek l by (simp add: intact_def)
  have "CheckAgainst L (int (length (concat (ciphers dek segs)))) = None"
    using lo(2) intact_parts(5) [OF i] l(4) by (simp add: CheckAgainst_def sum_list_lengths)
  then have "multipartLayout p prov q meta (int (length (concat (ciphers dek segs)))) dek w =
      (Inr L, w\<lparr>wUp := snd (upGet prov (get_input (qBucket q) (ObjectKey (mManifestID meta) sk)) (wUp w))\<rparr>)"
    using m(1) sk L by (simp add: multipartLayout_def abind_def alift_def ofail_def loadManifest_def acall_def aret_def)
  then show ?thesis using i l by (auto simp: Salts_def manifestSalts_def)
qed

lemma getMultipartRange_served:
  assumes sk: "storedKey p (qBucket q) (qKey q) = Inr sk" and dek: "UnwrapDEK (gKeys p) (qBucket q) (qKey q) meta = Inr dek"
    and ml: "multipartLayout p prov q meta (iContentLength info) dek w = (Inr L, w\<lparr>wUp := u1\<rparr>)"
    and I: "intact dek L ps segs" and ne: "list_all (\<lambda>p. 0 < PlainSize p) (butlast ps)"
    and sv: "serves_ranges prov (qBucket q) sk (iETag info) J (concat (ciphers dek segs))" and J: "J u1"
    and fresh: "fresh_read (wFresh w) (qBucket q) (qKey q) (Salts L)" and client: "qClient q = []"
    and pr: "parseRange spec (lTotalPlain L) = Inr (int s, int e)" and se: "s \<le> e" "e < length (concat (plains segs))"
  shows "\<exists>rep w' h. getMultipartRange p prov q info meta spec w = (Inr (Some rep), w') \<and> pStatus rep = 206 \<and>
    pHeader rep = range_headers q h (int s) (int e) (lTotalPlain L) (int (Suc e - s)) \<and> \<not> pAborted rep \<and>
    pBody rep = slice s (Suc e) (concat (plains segs))"
proof -
  let ?c = "concat (ciphers dek segs)"
  obtain sp sps sp' a b c c' where pl: "planRange L (int s) (int e) = Inr (sp # sps)"
      and hd: "if headerSeparate sp
         then \<exists>x. lCipherStart L ! sindex sp = int x \<and> sub64 (add64 (int x) (int HeaderSize)) 1 = int (x + 31) \<and>
           x + 31 < length ?c \<and> length (slice x (Suc (x + 31)) ?c) = HeaderSize \<and> sp' = sp\<lparr>rawHeader := Some (slice x (Suc (x + 31)) ?c)\<rparr>
         else sp' = sp"
      and br: "bodyRange L (sp' # sps) = (int a, int b)" "a \<le> b" "b < length ?c"
      and c: "newRangeChain \<lparr>src_data = slice a (Suc b) ?c, src_end = Sentinel EOF\<rparr> dek L (sp' # sps) = Inr c" "VerifyFirstX c = (None, c')"
      and c': "rangeX_inv c'" "restX c' = slice s (Suc e) (concat (plains segs))" "outcomeX c' = Sentinel EOF"
        "rangeLength (sp' # sps) = int (Suc e - s)"
    using range_chain_intact [OF I ne se] by blast
  obtain u2 where h: "fetchHeader prov q sk (iETag info) L (sp # sps) (w\<lparr>wUp := u1\<rparr>) = (Inr (sp' # sps), w\<lparr>wUp := u2\<rparr>)" "J u2"
  proof (cases "headerSeparate sp")
    case True
    then obtain x where x: "lCipherStart L ! sindex sp = int x" "sub64 (add64 (int x) (int HeaderSize)) 1 = int (x + 31)"
        "x + 31 < length ?c" "length (slice x (Suc (x + 31)) ?c) = HeaderSize"
        "sp' = sp\<lparr>rawHeader := Some (slice x (Suc (x + 31)) ?c)\<rparr>"
      using hd by auto
    obtain out u2 where g: "get_range prov q sk (iETag info) (int x) (int (x + 31)) (w\<lparr>wUp := u1\<rparr>) = (Inr out, w\<lparr>wUp := u2\<rparr>)"
        "J u2" "oBody out = \<lparr>src_data = slice x (Suc (x + 31)) ?c, src_end = Sentinel EOF\<rparr>"
      using get_range_served [OF sv, of "w\<lparr>wUp := u1\<rparr>" x "x + 31"] J x(3) by auto
    have "\<exists>s'. read_header (oBody out) = Inr (slice x (Suc (x + 31)) ?c, s')"
      using x(4) g(3) by (simp add: read_header_def read_full_def del: length_slice)
    then show thesis
      using that [of u2] g True x(5) unfolding fetchHeader_def list.sel x(1) Let_def x(2)
      by (auto simp: g(1) alift_def aret_def abind_def simp del: of_nat_add)
  next
    case False
    then show thesis using that [of u1] hd J by (simp add: fetchHeader_def aret_def)
  qed
  obtain out u3 where g: "get_range prov q sk (iETag info) (int a) (int b) (w\<lparr>wUp := u2\<rparr>) = (Inr out, w\<lparr>wUp := u3\<rparr>)"
      "oBody out = \<lparr>src_data = slice a (Suc b) ?c, src_end = Sentinel EOF\<rparr>"
    using get_range_served [OF sv, of "w\<lparr>wUp := u2\<rparr>" a b] h(2) br by auto
  obtain f where f: "checkFreshness (qNow q) (qBucket q) (qKey q) (Salts L) (w\<lparr>wUp := u3\<rparr>) = (Inr (), w\<lparr>wUp := u3, wFresh := f\<rparr>)"
    using checkFreshness_ok [of "w\<lparr>wUp := u3\<rparr>" "qBucket q" "qKey q" "Salts L" "qNow q"] fresh by auto
  have "length (restX c') < Suc (nat (rangeLength (sp' # sps)))" using c'(2,4) se(2) by simp
  from range_chain.send_rest [OF c'(1) _ this, of 32768 q 206 "range_headers q (oHeader out) (int s) (int e) (lTotalPlain L) (int (Suc e - s))"]
  obtain rep where rep: "send q 206 (range_headers q (oHeader out) (int s) (int e) (lTotalPlain L) (rangeLength (sp' # sps))) (ReadX 32768)
      (Suc (nat (rangeLength (sp' # sps)))) c' = Some rep" "pStatus rep = 206"
      "pHeader rep = range_headers q (oHeader out) (int s) (int e) (lTotalPlain L) (int (Suc e - s))"
      "pBody rep = slice s (Suc e) (concat (plains segs))" "\<not> pAborted rep"
    using c' client by auto
  have "getMultipartRange p prov q info meta spec w = (Inr (Some rep), w\<lparr>wUp := u3, wFresh := f\<rparr>)"
    unfolding getMultipartRange_def
    using dek sk ml pr pl h(1) br(1) g c f rep(1)
    by (simp add: abind_run alift_def ofail_def aret_def unwrapDEK_Inr [THEN iffD2])
  then show ?thesis using rep by blast
qed

lemma read_header_raw:
  "length r = HeaderSize \<Longrightarrow> read_header \<lparr>src_data = r @ t, src_end = e\<rparr> = Inr (r, \<lparr>src_data = t, src_end = e\<rparr>)"
  by (simp add: read_header_def read_full_def)

lemma getObjectRange_segment:
  assumes sk: "storedKey p (qBucket q) (qKey q) = Inr sk" and hd: "upHead prov (qBucket q) sk (wUp w) = (Inr info, u)"
    and meta: "Parse (iMetadata info) (gLog2C p) = Inr meta" "\<not> mMultipart meta"
    and dek: "UnwrapDEK (gKeys p) (qBucket q) (qKey q) meta = Inr dek" "length dek = 32"
    and h: "wf_header h" "\<not> Multipart (hparams h)" "Index (hparams h) = 0" "Log2ChunkSize (hparams h) = mLog2ChunkSize meta"
    and pt: "length pt \<le> 2 ^ 46" "iContentLength info = int (length (seal_segment dek h pt))"
    and sv: "serves_ranges prov (qBucket q) sk (iETag info) J (seal_segment dek h pt)" and J: "J u"
    and fresh: "fresh_read (wFresh w) (qBucket q) (qKey q) (saltsOf (hsalt h))" and client: "qClient q = []"
    and pr: "parseRange spec (int (length pt)) = Inr (int s, int e)" and se: "s \<le> e" "e < length pt"
  shows "\<exists>rep w' hs. getObjectRange p prov q spec w = (Inr (Some rep), w') \<and> pStatus rep = 206 \<and>
    pHeader rep = range_headers q hs (int s) (int e) (int (length pt)) (int (Suc e - s)) \<and> \<not> pAborted rep \<and>
    pBody rep = slice s (Suc e) pt"
proof -
  let ?c = "seal_segment dek h pt" and ?w = "\<lparr>Log2ChunkSize = AnyChunkSize, Multipart = False, Index = 0\<rparr>"
  have o: "OpenedSize (int (length ?c)) (mLog2ChunkSize meta) = Inr (int (length pt))"
    using OpenedSize_seal_segment [OF h(1) pt(1), of dek] h(4) by simp
  obtain rng where rng: "MapRange (int s) (int e) (int (length ?c)) (mLog2ChunkSize meta) = Inr rng"
    using MapRange_nat [OF o se(1)] se by simp
  obtain a b where ab: "CipherStart rng = int a" "CipherEnd rng = int b" "a \<le> b" "b < length ?c" "RLength rng = int (Suc e - s)"
      "\<not> NeedsSeparateHeader rng \<longrightarrow> a = 32"
    using MapRange_bounds [OF o se rng] by blast
  have rl: "length (raw h) = HeaderSize" "?c = raw h @ drop 32 ?c" "take 32 ?c = raw h" "31 < length ?c"
    using h(1) by (simp_all add: wf_header_def seal_segment_def)
  have v: "validateExpectation ?w = None" "requireParams h ?w = None"
    using h(2,3) by (simp_all add: validateExpectation_def requireParams_def AnyChunkSize_def validateIdentity_def)
  define src where "src = \<lparr>src_data = slice a (Suc b) ?c, src_end = Sentinel EOF\<rparr>"
  obtain x where x: "NewRangeReader src (raw h) dek ?w rng = Inr x" "readerR_inv x" "restR x = slice s (Suc e) pt" "outcomeR x = Sentinel EOF"
    using NewRangeReader_sealed [OF h(1) v _ h(4) o se(1) _ rng _ refl, where src = src] dek(2) se ab(1,2) by (auto simp: src_def)
  have "restR x \<noteq> []" using x(3) se by (simp add: slice_def)
  then obtain x' where x': "VerifyFirstR x = (None, x')" "readerR_inv x'" "restR x' = restR x" "outcomeR x' = outcomeR x"
    using VerifyFirstR_cases [OF x(1)] ab(5) se(1) by (cases "VerifyFirstR x") (auto split: option.splits)
  define a' where "a' = (if NeedsSeparateHeader rng then a else 0)"
  have a': "(if NeedsSeparateHeader rng then CipherStart rng else 0) = int a'" "a' \<le> b" using ab by (simp_all add: a'_def)
  obtain out u1 where g: "get_range prov q sk (iETag info) (if NeedsSeparateHeader rng then CipherStart rng else 0) (CipherEnd rng)
        (w\<lparr>wUp := u\<rparr>) = (Inr out, w\<lparr>wUp := u1\<rparr>)" "J u1"
      "oBody out = \<lparr>src_data = slice a' (Suc b) ?c, src_end = Sentinel EOF\<rparr>"
    unfolding a'(1) ab(2) using get_range_served [OF sv, of "w\<lparr>wUp := u\<rparr>" a' b] J a'(2) ab(4) by auto
  have "\<exists>u2. segmentHeader prov q sk (iETag info) rng (oBody out) (w\<lparr>wUp := u1\<rparr>) = (Inr (raw h, src), w\<lparr>wUp := u2\<rparr>)"
  proof (cases "NeedsSeparateHeader rng")
    case True
    obtain out' u2 where g': "get_range prov q sk (iETag info) 0 (int HeaderSize - 1) (w\<lparr>wUp := u1\<rparr>) = (Inr out', w\<lparr>wUp := u2\<rparr>)"
        "oBody out' = \<lparr>src_data = slice 0 32 ?c, src_end = Sentinel EOF\<rparr>"
      using get_range_served [OF sv, of "w\<lparr>wUp := u1\<rparr>" 0 31] g(2) rl(4) by auto
    have "read_header (oBody out') = Inr (raw h, \<lparr>src_data = [], src_end = Sentinel EOF\<rparr>)"
      using read_header_raw [OF rl(1), of "[]" "Sentinel EOF"] g'(2) rl(3) by (simp add: slice_def)
    then show ?thesis using True g' g(3) by (auto simp: abind_run alift_def aret_def src_def a'_def segmentHeader_def)
  next
    case False
    have "slice 0 (Suc b) ?c = raw h @ slice a (Suc b) ?c"
      using False ab(3,4,6) rl(3) append_take_drop_id [of 32 "take (Suc b) ?c"] by (simp add: slice_def min_def drop_take)
    then have "read_header (oBody out) = Inr (raw h, src)"
      using read_header_raw [OF rl(1)] g(3) False by (simp add: src_def a'_def)
    then show ?thesis using False by (auto simp: alift_def segmentHeader_def)
  qed
  then obtain u2 where hd2: "segmentHeader prov q sk (iETag info) rng (oBody out) (w\<lparr>wUp := u1\<rparr>) = (Inr (raw h, src), w\<lparr>wUp := u2\<rparr>)"
    by blast
  obtain f where f: "checkFreshness (qNow q) (qBucket q) (qKey q) (saltsOf (hsalt h)) (w\<lparr>wUp := u2\<rparr>) = (Inr (), w\<lparr>wUp := u2, wFresh := f\<rparr>)"
    using checkFreshness_ok [of "w\<lparr>wUp := u2\<rparr>" "qBucket q" "qKey q" "saltsOf (hsalt h)" "qNow q"] fresh by auto
  have "length (restR x') < Suc (nat (RLength rng))" using x(3) x'(3) ab(5) se(2) by simp
  from range.send_rest [OF x'(2) _ this, of 32768 q 206 "range_headers q (oHeader out) (int s) (int e) (int (length pt)) (RLength rng)"]
  obtain rep where rep: "send q 206 (range_headers q (oHeader out) (int s) (int e) (int (length pt)) (RLength rng)) (ReadR 32768)
      (Suc (nat (RLength rng))) x' = Some rep" "pStatus rep = 206"
      "pHeader rep = range_headers q (oHeader out) (int s) (int e) (int (length pt)) (RLength rng)"
      "pBody rep = slice s (Suc e) pt" "\<not> pAborted rep"
    using x x' client by auto
  have "getObjectRange p prov q spec w = (Inr (Some rep), w\<lparr>wUp := u2, wFresh := f\<rparr>)"
    unfolding getObjectRange_def
    using sk hd meta dek(1) o pr rng x(1) x'(1) f rep(1) pt(2) g(1) hd2 SaltFromHeader_raw [OF h(1)]
    by (simp add: abind_run alift_def ofail_def acall_def aret_def unwrapDEK_Inr [THEN iffD2]
        parse_meta_Inr [THEN iffD2] split del: if_split)
  then show ?thesis using rep ab(5) by auto
qed

lemma seal_segments_ciphers: "seal_segments dek segs = concat (ciphers dek segs)"
  by (simp add: seal_segments_def ciphers_def)

lemma getObjectRange_served:
  assumes sk: "storedKey p (qBucket q) (qKey q) = Inr sk" and hd: "upHead prov (qBucket q) sk (wUp w) = (Inr info, u)"
    and meta: "Parse (iMetadata info) (gLog2C p) = Inr meta"
    and dek: "UnwrapDEK (gKeys p) (qBucket q) (qKey q) meta = Inr dek" "length dek = 32"
    and body: "stored_body (upstream_now prov u) (target q sk) meta dek cipher pt n" "iContentLength info = int (length cipher)"
    and chunk: "\<not> mMultipart meta \<longrightarrow> mHasChunkSize meta"
    and ne: "\<And>m. LoadManifest (upstream_now prov u) (qBucket q) sk (mManifestID meta) dek = Inr m \<Longrightarrow>
      list_all (\<lambda>x. 0 < PlainSize x) (butlast (Parts m))"
    and sv: "serves_ranges prov (qBucket q) sk (iETag info) J cipher" and J: "J u"
      "J (snd (upGet prov (get_input (qBucket q) (ObjectKey (mManifestID meta) sk)) u))"
    and fresh: "fresh_read (wFresh w) (qBucket q) (qKey q) (stored_salts (upstream_now prov u) (target q sk) meta dek cipher)"
    and client: "qClient q = []" and pt: "pt \<noteq> []" and pr: "parseRange spec (int (length pt)) = Inr (a, b)"
  shows "\<exists>rep w' hs. getObjectRange p prov q spec w = (Inr (Some rep), w') \<and> pStatus rep = 206 \<and>
    pHeader rep = range_headers q hs a b (int (length pt)) (int (Suc (nat b) - nat a)) \<and> \<not> pAborted rep \<and>
    pBody rep = slice (nat a) (Suc (nat b)) pt \<and> nat b < length pt"
proof -
  have bounds: "int (nat a) = a" "int (nat b) = b" "nat a \<le> nat b" "nat b < length pt" if "length pt < 2 ^ 62"
    using parseRange_bounds [OF pr] pt that by auto
  show ?thesis
  proof (cases "mMultipart meta")
    case True
    have v: "ValidateLog2ChunkSize (mLog2ChunkSize meta) = None" using Parse_valid [OF meta] by (simp add: valid_meta_def)
    obtain m segs where m: "LoadManifest (upstream_now prov u) (qBucket q) sk (mManifestID meta) dek = Inr m"
        "list_all2 (part_matches (mLog2ChunkSize meta) (HasSalts m)) (Parts m) segs"
        "cipher = concat (ciphers dek segs)" "pt = concat (plains segs)"
      using body(1) True by (auto simp: stored_body_def target_def seal_segments_ciphers)
    let ?w = "w\<lparr>wUp := u\<rparr>"
    from multipartLayout_ok [OF sk, of prov ?w meta dek m segs] m v dek(2) body(2) obtain L where
        L: "multipartLayout p prov q meta (iContentLength info) dek ?w =
          (Inr L, ?w\<lparr>wUp := snd (upGet prov (get_input (qBucket q) (ObjectKey (mManifestID meta) sk)) u)\<rparr>)"
        "intact dek L (Parts m) segs" "Salts L = manifestSalts m"
      by auto
    have t: "lTotalPlain L = int (length pt)" using intact_offsets(3) [OF L(2)] m(4) by simp
    have "fresh_read (wFresh ?w) (qBucket q) (qKey q) (Salts L)" using fresh True m(1) L(3) by (simp add: stored_salts_def target_def)
    moreover have "length pt < 2 ^ 62" using intact_offsets(4) [OF L(2)] m(4) by simp
    note ab = bounds [OF this]
    ultimately obtain rep w' hs where "getMultipartRange p prov q info meta spec ?w = (Inr (Some rep), w')" "pStatus rep = 206"
        "pHeader rep = range_headers q hs a b (int (length pt)) (int (Suc (nat b) - nat a))" "\<not> pAborted rep"
        "pBody rep = slice (nat a) (Suc (nat b)) pt"
      using getMultipartRange_served [OF sk dek(1) L(1,2) ne [OF m(1)] _ _ _ client, of J spec "nat a" "nat b"] sv J(2) pr ab t m(3,4)
      by auto
    moreover from this(1) have "getObjectRange p prov q spec w = (Inr (Some rep), w')"
      unfolding getObjectRange_def using sk hd meta True
      by (simp add: abind_run alift_def ofail_def acall_def parse_meta_Inr [THEN iffD2])
    ultimately show ?thesis using ab(4) by blast
  next
    case False
    then obtain h where h: "wf_header h" "\<not> Multipart (hparams h)" "Index (hparams h) = 0"
        "Log2ChunkSize (hparams h) = mLog2ChunkSize meta" "cipher = seal_segment dek h pt" "length pt \<le> 2 ^ 46"
      using body(1) chunk by (auto simp: stored_body_def)
    have "take HeaderSize cipher = raw h" using h(1,5) by (simp add: wf_header_def seal_segment_def)
    then have "fresh_read (wFresh w) (qBucket q) (qKey q) (saltsOf (hsalt h))"
      using fresh False SaltFromHeader_raw [OF h(1)] by (simp add: stored_salts_def del: HeaderSize_def)
    moreover have "length pt < 2 ^ 62" using h(6) by simp
    note ab = bounds [OF this]
    ultimately show ?thesis
      using getObjectRange_segment [OF sk hd meta False dek h(1-4,6) body(2) [unfolded h(5)] sv [unfolded h(5)] J(1) _ client,
          of spec "nat a" "nat b"] pr ab by auto
  qed
qed

text \<open>C18: A range request delivers exactly the range. Let the provider answer the head request with an object
  whose metadata parses, whose data key unwraps for this bucket and key and whose stored bytes hold the
  plaintext \<open>pt\<close>, in one segment whose chunk size the metadata records or in the segments of a manifest in
  which no part but the last is empty; let it serve the byte ranges it is then asked for, and let the
  freshness index know no other version. Then every \<open>Range\<close> header that \<open>parseRange\<close> accepts for the
  size of \<open>pt\<close> is answered by \<open>getObject\<close> with 206: a client that accepts the response receives exactly the
  bytes from \<open>a\<close> to \<open>b\<close> of \<open>pt\<close>, with their number and their place announced, although only the chunks
  that the range touches are fetched and the range may start and end anywhere and cross any number of
  parts.\<close>

theorem range_served:
  assumes spec: "header_get (qHeader q) ''Range'' = spec" "spec \<noteq> ''''"
    and sk: "storedKey p (qBucket q) (qKey q) = Inr sk" and hd: "upHead prov (qBucket q) sk (wUp w) = (Inr info, u)"
    and meta: "Parse (iMetadata info) (gLog2C p) = Inr meta"
    and dek: "UnwrapDEK (gKeys p) (qBucket q) (qKey q) meta = Inr dek" "length dek = 32"
    and body: "stored_body (upstream_now prov u) (target q sk) meta dek cipher pt n" "iContentLength info = int (length cipher)"
    and chunk: "\<not> mMultipart meta \<longrightarrow> mHasChunkSize meta"
    and ne: "\<And>m. LoadManifest (upstream_now prov u) (qBucket q) sk (mManifestID meta) dek = Inr m \<Longrightarrow>
      list_all (\<lambda>x. 0 < PlainSize x) (butlast (Parts m))"
    and sv: "serves_ranges prov (qBucket q) sk (iETag info) J cipher" and J: "J u"
      "J (snd (upGet prov (get_input (qBucket q) (ObjectKey (mManifestID meta) sk)) u))"
    and fresh: "fresh_read (wFresh w) (qBucket q) (qKey q) (stored_salts (upstream_now prov u) (target q sk) meta dek cipher)"
    and client: "qClient q = []" and pt: "pt \<noteq> []" and pr: "parseRange spec (int (length pt)) = Inr (a, b)"
  shows "\<exists>rep w'. getObject p prov q w = (Inr (Some rep), w') \<and> pStatus rep = 206 \<and> received rep \<and>
    pBody rep = slice (nat a) (Suc (nat b)) pt \<and>
    header_get (pHeader rep) ''Content-Range'' = ''bytes '' @ Itoa a @ ''-'' @ Itoa b @ ''/'' @ Itoa (int (length pt))"
proof -
  obtain rep w' hs where r: "getObjectRange p prov q spec w = (Inr (Some rep), w')" "pStatus rep = 206"
      "pHeader rep = range_headers q hs a b (int (length pt)) (int (Suc (nat b) - nat a))" "\<not> pAborted rep"
      "pBody rep = slice (nat a) (Suc (nat b)) pt" "nat b < length pt"
    using getObjectRange_served [OF sk hd meta dek body chunk ne sv J fresh client pt pr] by blast
  have "length (slice (nat a) (Suc (nat b)) pt) = Suc (nat b) - nat a" using r(6) by simp
  then have "received rep" using r(3-5) by (simp add: received_def header_get_range_headers)
  moreover have "getObject p prov q w = (Inr (Some rep), w')" using r(1) spec by (simp add: getObject_def)
  ultimately show ?thesis using r by (auto simp: header_get_range_headers)
qed

text \<open>A gateway over one stored object.\<close>

definition one_object :: "GetObjectOutput \<Rightarrow> unit Provider" where
  "one_object out = \<lparr>upGet = (\<lambda>_ u. (Inr out, u)),
     upHead = (\<lambda>_ _ u. (Inr \<lparr>iContentLength = oContentLength out, iETag = oETag out, iMetadata = oMetadata out,
       iHeader = oHeader out\<rparr>, u)),
     upPipe = (\<lambda>_ _. []), upPut = (\<lambda>_ _ u. (Inl (APIError 403 ''AccessDenied'' ''''), u)), upDelete = (\<lambda>_ _ u. (None, u))\<rparr>"

definition example_proxy :: Proxy where
  "example_proxy = \<lparr>gKeys = keyring_provider example_keyring, gFor = Keyring_For example_keyring, gLog2C = 12, gNames = None\<rparr>"

definition example_request :: Request where
  "example_request = \<lparr>qBucket = ''b'', qKey = ''k'', qHeader = [], qQuery = [], qHead = False,
     qBody = Inl (Sentinel ErrMissingContentLength), qTrailer = [], qNow = 0, qReply = [], qClient = []\<rparr>"

definition example_world :: "unit world" where
  "example_world = \<lparr>wUp = (), wFresh = None\<rparr>"

lemma example_storedKey: "storedKey example_proxy (qBucket example_request) (qKey example_request) = Inr ''k''"
  by (simp add: storedKey_def namesFor_def example_proxy_def example_request_def)

lemma example_key:
  obtains w where "length w = 60" "\<And>meta. mKeyID meta = ''k1'' \<Longrightarrow> mWrappedDEK meta = w \<Longrightarrow>
    UnwrapDEK (keyring_provider example_keyring) ''b'' ''k'' meta = Inr (replicate 32 9)"
proof -
  let ?dek = "replicate 32 (9 :: byte)" and ?kp = "keyring_provider example_keyring"
  have kid: "ValidateKID ''k1'' = None" by code_simp
  obtain ad where ad: "ObjectAAD ''k1'' ''b'' ''k'' = Inr ad" using kid by (auto simp: ObjectAAD_Inr)
  obtain w where w: "pWrap ?kp (Inr (replicate 12 3)) ''k1'' ?dek ad = Inr w"
    by (auto simp: keyring_provider_def example_keyring_def Wrap_def lookup_def sealKey_Inr simp del: replicate.simps)
  have un: "pUnwrap ?kp ''k1'' w ad = Inr ?dek" "length w = 60"
    using keyring.unwrap_wrap [OF w] keyring.wrap_length [OF w] by simp_all
  show thesis using that [OF un(2)] ad un(1) by (simp add: UnwrapDEK_def)
qed

definition example_meta :: "bytes \<Rightarrow> byte \<Rightarrow> bytes \<Rightarrow> bool \<Rightarrow> Meta" where
  "example_meta w l i mp = \<lparr>mVersion = 1, mKeyID = ''k1'', mWrappedDEK = w, mLog2ChunkSize = l, mHasChunkSize = True,
     mManifestID = i, mMultipart = mp\<rparr>"

lemma example_meta_parse:
  assumes "length w = 60" and "ValidateLog2ChunkSize l = None" and "length i = 16" and "mp \<or> i = replicate 16 0"
  shows "Parse (Headers (example_meta w l i mp)) 12 = Inr (example_meta w l i mp)"
proof -
  have "ValidateKID ''k1'' = None" by code_simp
  then have "valid_meta (example_meta w l i mp)"
    using assms by (auto simp: valid_meta_def example_meta_def simp del: replicate.simps)
  then show ?thesis by (rule Parse_carried [OF _ _ carries_self]) (simp add: example_meta_def)
qed

lemma example_object:
  obtains meta dek where "Parse (Headers meta) 12 = Inr meta" "\<not> mMultipart meta" "length dek = 32"
    "UnwrapDEK (keyring_provider example_keyring) ''b'' ''k'' meta = Inr dek"
    "\<And>up t. stored_body up t meta dek (seal_segment dek object_header [1, 2, 3]) [1, 2, 3] 1"
proof -
  let ?dek = "replicate 32 (9 :: byte)"
  obtain w where w: "length w = 60" "\<And>meta. mKeyID meta = ''k1'' \<Longrightarrow> mWrappedDEK meta = w \<Longrightarrow>
      UnwrapDEK (keyring_provider example_keyring) ''b'' ''k'' meta = Inr ?dek" by (rule example_key) blast
  let ?meta = "example_meta w 16 (replicate 16 0) False"
  have wf: "wf_header object_header"
    by (simp add: object_header_def wf_header_def Validate_def ValidateLog2ChunkSize_def validateIdentity_def Let_def)
  have "Parse (Headers ?meta) 12 = Inr ?meta"
    using example_meta_parse [OF w(1), of 16 "replicate 16 0"] by (simp add: ValidateLog2ChunkSize_def del: replicate.simps)
  moreover have "stored_body up t ?meta ?dek (seal_segment ?dek object_header [1, 2, 3]) [1, 2, 3] 1" for up t
    using wf by (auto simp: stored_body_def example_meta_def object_header_def Let_def simp del: replicate.simps)
  ultimately show thesis using that [of ?meta ?dek] w(2) [of ?meta] by (simp add: example_meta_def)
qed

definition example_out :: "Meta \<Rightarrow> bytes \<Rightarrow> GetObjectOutput" where
  "example_out meta body = \<lparr>oETag = ''e'', oMetadata = Headers meta, oContentLength = int (length body),
     oBody = \<lparr>src_data = body, src_end = Sentinel EOF\<rparr>, oHeader = []\<rparr>"

theorem get_complete_witness:
  "\<exists>out rep w'. getObject example_proxy (one_object out) example_request example_world = (Inr (Some rep), w') \<and>
     pStatus rep = 200 \<and> received rep \<and> pBody rep = [1, 2, 3]"
proof -
  obtain meta dek where e: "Parse (Headers meta) 12 = Inr meta" "length dek = 32"
      "UnwrapDEK (keyring_provider example_keyring) ''b'' ''k'' meta = Inr dek"
      "\<And>up t. stored_body up t meta dek (seal_segment dek object_header [1, 2, 3]) [1, 2, 3] 1"
    using example_object by metis
  let ?out = "example_out meta (seal_segment dek object_header [1, 2, 3])"
  have "\<exists>rep w'. getObject example_proxy (one_object ?out) example_request example_world = (Inr (Some rep), w') \<and>
      pStatus rep = 200 \<and> received rep \<and> pBody rep = [1, 2, 3]"
    by (rule get_complete [OF _ example_storedKey, of _ _ ?out _ meta dek _ 1])
      (use e in \<open>simp_all add: one_object_def example_out_def example_proxy_def example_request_def example_world_def
        header_get_def fresh_read_def\<close>)
  then show ?thesis by blast
qed

text \<open>A provider that holds one object and its manifest, and serves byte ranges of the object.\<close>

definition range_store :: "Meta \<Rightarrow> bytes \<Rightarrow> bytes \<Rightarrow> unit Provider" where
  "range_store meta cipher manifest = (one_object (example_out meta cipher))\<lparr>upGet := (\<lambda>i u.
     (if giKey i = ''k''
      then (case parseRange (giRange i) (int (length cipher)) of
              Inl e \<Rightarrow> Inl e
            | Inr (a, b) \<Rightarrow> Inr (example_out meta (slice (nat a) (Suc (nat b)) cipher)))
      else Inr (example_out meta manifest), u))\<rparr>"

lemma range_store_serves:
  assumes "length cipher < 2 ^ 62"
  shows "serves_ranges (range_store meta cipher mf) bucket ''k'' tag (\<lambda>_. True) cipher"
proof -
  have "parseRange (range_value (int a) (int b)) (int (length cipher)) = Inr (int a, int b)"
    if "a \<le> b" "b < length cipher" for a b
    using range_header_forms [of "int (length cipher)" a b] that assms by (cases "cipher = []") (simp_all add: range_value_def Itoa_def in64_def)
  then show ?thesis by (auto simp: serves_ranges_def range_store_def example_out_def)
qed

definition range_manifest :: Manifest where
  "range_manifest = \<lparr>Bucket = ''b'', MKey = ''k'', MID = replicate 16 1, Parts = example_parts, legacy = False\<rparr>"

lemma range_manifest_ok:
  "wf_manifest range_manifest" "\<not> legacy range_manifest" "validate range_manifest = None"
  by (simp_all add: range_manifest_def example_parts_def validate_def wf_manifest_def wf_part_def word_le_nat_alt)

lemma range_manifest_loaded:
  assumes "Marshal range_manifest dek = Inr rw"
  shows "LoadManifest (upstream_now (range_store meta cipher rw) u) ''b'' ''k'' (replicate 16 1) dek = Inr range_manifest"
proof -
  note wf = range_manifest_ok
  have u: "Unmarshal rw dek ''b'' ''k'' (replicate 16 1) = Inr range_manifest"
    using manifest_roundtrip [OF assms wf(1,2)] by (simp add: range_manifest_def del: replicate.simps)
  have "length rw < 2 ^ 20"
    using Marshal_eq [OF wf(3)] assms Marshal_Inr [OF assms]
    by (auto simp: manifest_body_def range_manifest_def example_parts_def marshal_part_def ManifestMagic_def simp del: replicate.simps)
  moreover have "ObjectKey (replicate 16 1) ''k'' \<noteq> ''k''" by (simp add: ObjectKey_def ManifestPrefix_def)
  ultimately show ?thesis
    using u by (simp add: LoadManifest_def upstream_now_def range_store_def example_out_def get_input_def ObjectOut.truncate_def
        read_all_def limit_reader_def del: replicate.simps)
qed

theorem range_served_witness:
  "\<exists>meta cipher mf rep w'. mMultipart meta \<and> getObject example_proxy (range_store meta cipher mf)
       (example_request\<lparr>qHeader := [(''Range'', [''bytes=2-3''])]\<rparr>) example_world = (Inr (Some rep), w') \<and>
     pStatus rep = 206 \<and> received rep \<and> pBody rep = [3, 4]"
proof -
  let ?d = "replicate 32 (9 :: byte)" and ?q = "example_request\<lparr>qHeader := [(''Range'', [''bytes=2-3''])]\<rparr>"
  obtain w where w: "length w = 60" "\<And>meta. mKeyID meta = ''k1'' \<Longrightarrow> mWrappedDEK meta = w \<Longrightarrow>
      UnwrapDEK (keyring_provider example_keyring) ''b'' ''k'' meta = Inr ?d" by (rule example_key) blast
  define meta where "meta = example_meta w 12 (replicate 16 1) True"
  have f: "mLog2ChunkSize meta = 12" "mManifestID meta = replicate 16 1" "mMultipart meta"
    by (simp_all add: meta_def example_meta_def del: replicate.simps)
  define c where "c = seal_segments ?d example_segs"
  obtain rw where rw: "Marshal range_manifest ?d = Inr rw"
    using Marshal_eq [of range_manifest ?d] range_manifest_ok(3) by simp
  define prov where "prov = range_store meta c rw"
  have lm: "LoadManifest (upstream_now prov ()) ''b'' ''k'' (mManifestID meta) ?d = Inr range_manifest"
    unfolding prov_def f(2) by (rule range_manifest_loaded [OF rw])
  have sb: "stored_body (upstream_now prov ()) (target ?q ''k'') meta ?d c [1, 2, 3, 4, 5] 2"
    using lm f example_segs_match
    by (auto simp: stored_body_def target_def example_request_def c_def range_manifest_def HasSalts_def example_segs_def example_parts_def
        Let_def simp del: replicate.simps intro!: exI [of _ range_manifest] exI [of _ example_segs])
  let ?i = "\<lparr>iContentLength = int (length c), iETag = ''e'', iMetadata = Headers meta, iHeader = []\<rparr>"
  have hdr: "header_get (qHeader ?q) ''Range'' = ''bytes=2-3''"
    by (simp add: header_get_def CanonicalHeaderKey_def token_char_def upper_def lower_def)
  have sk: "storedKey example_proxy (qBucket ?q) (qKey ?q) = Inr ''k''" using example_storedKey by (simp add: example_request_def)
  have hd: "upHead prov (qBucket ?q) ''k'' (wUp example_world) = (Inr ?i, ())"
    by (simp add: prov_def range_store_def one_object_def example_out_def)
  have me: "Parse (iMetadata ?i) (gLog2C example_proxy) = Inr meta"
    using example_meta_parse [OF w(1), of 12 "replicate 16 1" True]
    by (simp add: meta_def example_proxy_def ValidateLog2ChunkSize_def del: replicate.simps)
  have un: "UnwrapDEK (gKeys example_proxy) (qBucket ?q) (qKey ?q) meta = Inr ?d"
    using w(2) [of meta] by (simp add: meta_def example_meta_def example_proxy_def example_request_def del: replicate.simps)
  have it: "intact ?d example_layout example_parts example_segs"
    using example_NewLayout example_segs_match by (simp add: intact_def example_layout_def example_parts_def)
  have sv: "serves_ranges prov (qBucket ?q) ''k'' (iETag ?i) (\<lambda>_. True) c"
    unfolding prov_def using intact_offsets(5) [OF it] by (intro range_store_serves) (simp add: c_def seal_segments_ciphers)
  have ne: "list_all (\<lambda>x. 0 < PlainSize x) (butlast (Parts m))"
    if "LoadManifest (upstream_now prov ()) (qBucket ?q) ''k'' (mManifestID meta) ?d = Inr m" for m
    using that lm by (auto simp: example_request_def range_manifest_def example_parts_def)
  have pr: "parseRange ''bytes=2-3'' (int (length ([1, 2, 3, 4, 5] :: bytes))) = Inr (2, 3)"
    using parseRange_fields [of "''2''" "''3''" 5]
    by (simp add: is_digit_def range_fields_def Atoi_def Atoi_digits_def dec_value_def in64_def)
  have fr: "fresh_read (wFresh example_world) (qBucket ?q) (qKey ?q) (stored_salts (upstream_now prov ()) (target ?q ''k'') meta ?d c)"
    by (simp add: example_world_def fresh_read_def)
  have "\<exists>rep w'. getObject example_proxy prov ?q example_world = (Inr (Some rep), w') \<and> pStatus rep = 206 \<and> received rep \<and>
      pBody rep = slice (nat 2) (Suc (nat 3)) [1, 2, 3, 4, 5] \<and>
      header_get (pHeader rep) ''Content-Range'' = ''bytes '' @ Itoa 2 @ ''-'' @ Itoa 3 @ ''/'' @ Itoa (int (length ([1, 2, 3, 4, 5] :: bytes)))"
    by (rule range_served [OF hdr _ sk hd me un _ sb _ _ ne sv TrueI TrueI fr _ _ pr])
      (simp_all add: f example_request_def del: replicate.simps)
  then obtain rep w' where "getObject example_proxy (range_store meta c rw) ?q example_world = (Inr (Some rep), w')"
      "pStatus rep = 206" "received rep" "pBody rep = [3, 4]"
    by (auto simp: slice_def prov_def)
  with f(3) show ?thesis by blast
qed


end
