(* ===== verification/GatewayTags.thy ===== *)
theory GatewayTags
  imports GatewayRead
begin

text \<open>
  \<open>internal/proxy/tagging.go\<close> and \<open>body.go\<close>: the tags of an object, in the sidecar of its current version, and
  the reading of a small request body. Arguments stand for what is not part of the repository: \<open>uni\<close> for the
  letters, numbers and spaces of Unicode, and \<open>unmarshal\<close> for \<open>encoding/xml\<close> on a \<open>Tagging\<close> document. The
  rendering of the response document is left out, and so is the forwarding of the request for an object
  that the gateway did not write (\<open>Forwarded\<close>).
\<close>

section \<open>Query strings\<close>

text \<open>\<open>url.QueryUnescape\<close> and \<open>url.ParseQuery\<close>; of its errors the first is reported.\<close>

definition unhex :: "char \<Rightarrow> nat option" where
  "unhex c =
     (let n = of_char c :: nat in
      if 48 \<le> n \<and> n \<le> 57 then Some (n - 48)
      else if 97 \<le> n \<and> n \<le> 102 then Some (n - 87)
      else if 65 \<le> n \<and> n \<le> 70 then Some (n - 55) else None)"

fun QueryUnescape :: "string \<Rightarrow> string option" where
  "QueryUnescape [] = Some []"
| "QueryUnescape (c # r) =
     (if c = CHR ''%'' then
        (case r of
           a # b # r' \<Rightarrow>
             (case (unhex a, unhex b) of
                (Some x, Some y) \<Rightarrow> map_option ((#) (char_of (16 * x + y))) (QueryUnescape r')
              | _ \<Rightarrow> None)
         | _ \<Rightarrow> None)
      else map_option ((#) (if c = CHR ''+'' then CHR '' '' else c)) (QueryUnescape r))"

text \<open>\<open>strings.Cut\<close> at a character.\<close>

definition cut_char :: "char \<Rightarrow> string \<Rightarrow> string \<times> string" where
  "cut_char c s = (takeWhile (\<lambda>x. x \<noteq> c) s, drop 1 (dropWhile (\<lambda>x. x \<noteq> c) s))"

definition values_add :: "string \<Rightarrow> string \<Rightarrow> headers \<Rightarrow> headers" where
  "values_add k v m =
     (case map_of m k of
        None \<Rightarrow> m @ [(k, [v])]
      | Some vs \<Rightarrow> map (\<lambda>(n, ws). if n = k then (n, vs @ [v]) else (n, ws)) m)"

fun parse_pairs :: "string list \<Rightarrow> headers \<Rightarrow> headers result" where
  "parse_pairs [] m = Inr m"
| "parse_pairs (s # ss) m =
     (if CHR '';'' \<in> set s then Inl (Errorf ''invalid semicolon separator in query'' [])
      else if s = '''' then parse_pairs ss m
      else case cut_char (CHR ''='') s of (key, val) \<Rightarrow>
        (case (QueryUnescape key, QueryUnescape val) of
           (Some k, Some v) \<Rightarrow> parse_pairs ss (values_add k v m)
         | _ \<Rightarrow> Inl (Errorf ''invalid URL escape'' [])))"

definition ParseQuery :: "string \<Rightarrow> headers result" where
  "ParseQuery q = parse_pairs (split (CHR ''&'') q) []"

section \<open>Request bodies\<close>

definition readVerifiedBody :: "Request \<Rightarrow> nat \<Rightarrow> s3Error + bytes" where
  "readVerifiedBody q limit =
     (case qBody q of
        Inl e \<Rightarrow> Inl (translateBody e)
      | Inr (body, len) \<Rightarrow>
          if len > int limit
          then Inl (WithMessage api_InvalidRequest ''the request body is %d bytes; this request takes at most %d'')
          else case read_all (limit_reader body (limit + 1)) of
            Inl e \<Rightarrow> Inl (translateBody e)
          | Inr rw \<Rightarrow>
              if length rw > limit
              then Inl (WithMessage api_InvalidRequest ''the request body is over the %d bytes this request takes'')
              else Inr rw)"

section \<open>Tags of an object\<close>

definition maxTagBody :: nat where [simp]: "maxTagBody = 65536"

definition errMalformedXML :: s3Error where
  "errMalformedXML = s3error ''MalformedXML'' ''The XML you provided was not well-formed.'' 400"
definition errInvalidTag :: s3Error where
  "errInvalidTag = s3error ''InvalidTag'' ''The tag set is not valid.'' 400"

record tagTarget =
  ttStoredKey :: string
  ttPath :: string
  ttDek :: bytes

text \<open>\<open>None\<close> is \<open>errUntaggable\<close>: the gateway did not write the object.\<close>

definition findTagTarget :: "Proxy \<Rightarrow> 'u Provider \<Rightarrow> Request \<Rightarrow> ('u, tagTarget option) act" where
  "findTagTarget p prov q =
     abind (alift (storedKey p (qBucket q) (qKey q))) (\<lambda>sk.
     abind (acall (upHead prov (qBucket q) sk)) (\<lambda>r.
     abind (ofail translateUpstream r) (\<lambda>info.
       case Parse (iMetadata info) (gLog2C p) of
         Inl e \<Rightarrow> if errors_is ErrNotEncrypted e then aret None else alift (Inl (integrityError ''object metadata''))
       | Inr meta \<Rightarrow>
           abind (alift (unwrapDEK p q meta)) (\<lambda>dek.
             aret (Some \<lparr>ttStoredKey = sk, ttPath = tags_Path sk (StoredDEK (iMetadata info)), ttDek = dek\<rparr>)))))"

definition readTags :: "'u Provider \<Rightarrow> Request \<Rightarrow> tagTarget \<Rightarrow> ('u, Tag list) act" where
  "readTags prov q tt =
     abind (acall (upGet prov (get_input (qBucket q) (ttPath tt)))) (\<lambda>r.
       case r of
         Inl e \<Rightarrow> if upstream_NotFound e then aret [] else alift (Inl (translateUpstream e))
       | Inr out \<Rightarrow>
           (case read_all (limit_reader (oBody out) (maxTagSidecar + 1)) of
              Inl e \<Rightarrow> alift (Inl (translateUpstream e))
            | Inr body \<Rightarrow>
                if length body > maxTagSidecar then alift (Inl (integrityError ''tag sidecar''))
                else ofail (\<lambda>_. integrityError ''tag sidecar'') (tags_Open (ttDek tt) (qBucket q) (qKey q) body)))"

definition writeTags :: "'u Provider \<Rightarrow> bytes result \<Rightarrow> string \<Rightarrow> string \<Rightarrow> tagTarget \<Rightarrow> Tag list \<Rightarrow> ('u, unit) act" where
  "writeTags prov rnd bucket key tt ts =
     abind (ofail (\<lambda>_. api_Internal) (tags_Seal rnd (ttDek tt) bucket key ts)) (\<lambda>sealed.
     abind (acall (upPut prov \<lparr>piBucket = bucket, piKey = ttPath tt, piContentLength = int (length sealed), piHeaders = [],
              piMetadata = tags_Metadata (ttStoredKey tt), piIfMatch = '''', piIfNoneMatch = ''''\<rparr> (bytes_source sealed))) (\<lambda>r.
     abind (ofail translateUpstream r) (\<lambda>_. aret ())))"

datatype tagging_reply = TagSet "Tag list" | HeadOK | Forwarded

definition getObjectTagging :: "Proxy \<Rightarrow> 'u Provider \<Rightarrow> Request \<Rightarrow> ('u, tagging_reply) act" where
  "getObjectTagging p prov q =
     abind (findTagTarget p prov q) (\<lambda>t.
       case t of
         None \<Rightarrow> aret Forwarded
       | Some tt \<Rightarrow> abind (readTags prov q tt) (\<lambda>ts. aret (if qHead q then HeadOK else TagSet ts)))"

definition putObjectTagging ::
  "(nat \<Rightarrow> bool) \<Rightarrow> (bytes \<Rightarrow> Tag list option) \<Rightarrow> bytes result \<Rightarrow> Proxy \<Rightarrow> 'u Provider \<Rightarrow> Request \<Rightarrow> ('u, reply) act" where
  "putObjectTagging uni unmarshal rnd p prov q =
     abind (alift (readVerifiedBody q maxTagBody)) (\<lambda>rw.
       case unmarshal rw of
         None \<Rightarrow> alift (Inl (WithMessage errMalformedXML ''the Tagging body is not valid XML''))
       | Some ts \<Rightarrow>
           (case tags_Validate uni ts of
              Some _ \<Rightarrow> alift (Inl (WithMessage errInvalidTag ''%v''))
            | None \<Rightarrow>
                abind (findTagTarget p prov q) (\<lambda>t.
                  case t of
                    None \<Rightarrow> alift (Inl (WithMessage errNotEncryptedAPI ''the object was not written by this gateway, so it cannot carry sealed tags; encrypt-existing moves it behind the gateway''))
                  | Some tt \<Rightarrow>
                      abind (writeTags prov rnd (qBucket q) (qKey q) tt ts) (\<lambda>_.
                        aret \<lparr>pStatus = 200, pHeader = header_set ''Content-Length'' ''0'' (qReply q), pBody = [], pAborted = False\<rparr>))))"

definition deleteObjectTagging :: "Proxy \<Rightarrow> 'u Provider \<Rightarrow> Request \<Rightarrow> ('u, reply) act" where
  "deleteObjectTagging p prov q =
     abind (findTagTarget p prov q) (\<lambda>t.
       case t of
         None \<Rightarrow> alift (Inl (WithMessage errNotEncryptedAPI ''the object was not written by this gateway, so it carries no sealed tags to remove''))
       | Some tt \<Rightarrow>
           abind (acall (upDelete prov (qBucket q) (ttPath tt))) (\<lambda>e.
             case e of
               Some x \<Rightarrow>
                 if upstream_NotFound x then aret \<lparr>pStatus = 204, pHeader = qReply q, pBody = [], pAborted = False\<rparr>
                 else alift (Inl (translateUpstream x))
             | None \<Rightarrow> aret \<lparr>pStatus = 204, pHeader = qReply q, pBody = [], pAborted = False\<rparr>))"

definition tagsFromHeader :: "(nat \<Rightarrow> bool) \<Rightarrow> headers \<Rightarrow> s3Error + Tag list" where
  "tagsFromHeader uni h =
     (let rw = header_get h ''X-Amz-Tagging'' in
      if rw = '''' then Inr []
      else case ParseQuery rw of
        Inl _ \<Rightarrow> Inl (WithMessage errInvalidTag ''x-amz-tagging is not a URL-encoded query: %v'')
      | Inr vals \<Rightarrow>
          if list_ex (\<lambda>(_, vs). length vs \<noteq> 1) vals
          then Inl (WithMessage errInvalidTag ''the tag %q is given %d times'')
          else let ts = map (\<lambda>(k, vs). \<lparr>tagKey = k, tagValue = hd vs\<rparr>) vals in
            (case tags_Validate uni ts of
               Some _ \<Rightarrow> Inl (WithMessage errInvalidTag ''%v'')
             | None \<Rightarrow> Inr ts))"

definition writeTagsBeforeObject ::
  "'u Provider \<Rightarrow> bytes result \<Rightarrow> string \<Rightarrow> string \<Rightarrow> string \<Rightarrow> Meta \<Rightarrow> bytes \<Rightarrow> Tag list \<Rightarrow> ('u, unit) act" where
  "writeTagsBeforeObject prov rnd bucket key sk meta dek ts =
     (if ts = [] then aret ()
      else writeTags prov rnd bucket key
             \<lparr>ttStoredKey = sk, ttPath = tags_Path sk (StoredDEKOf meta), ttDek = dek\<rparr> ts)"

end
