(* ===== verification/GatewayWrite.thy ===== *)
theory GatewayWrite
  imports GatewayTags
begin

text \<open>
  The write handlers of \<open>internal/proxy\<close>: \<open>putObject\<close> and \<open>deleteObject\<close> of \<open>object.go\<close>, \<open>writeConditions\<close> of
  \<open>conditions.go\<close> and \<open>echoVerifiedChecksums\<close> of \<open>bucket.go\<close>. The goroutine of \<open>putObject\<close> encrypts into a pipe whose
  other end is the body of the upstream request: the provider decides how many writes it takes before it
  closes its end (\<open>upPipe\<close>), and what the request sees is what was written and, at the end, the error the
  encrypter closed the pipe with.
\<close>

section \<open>Request headers\<close>

definition writeConditions :: "headers \<Rightarrow> s3Error + string \<times> string" where
  "writeConditions h =
     (let ifMatch = header_get h ''If-Match''; ifNoneMatch = header_get h ''If-None-Match'' in
      if ifNoneMatch \<noteq> '''' \<and> ifNoneMatch \<noteq> ''*''
      then Inl (WithMessage api_NotImplemented ''If-None-Match on a write takes only *, as on S3'')
      else Inr (ifMatch, ifNoneMatch))"

fun join_comma :: "string list \<Rightarrow> string" where
  "join_comma [] = ''''"
| "join_comma [x] = x"
| "join_comma (x # y # ys) = x @ '', '' @ join_comma (y # ys)"

definition passthroughContentEncoding :: "headers \<Rightarrow> string" where
  "passthroughContentEncoding h =
     (let v = header_get h ''Content-Encoding'' in
      if v = '''' then ''''
      else join_comma (filter (\<lambda>t. t \<noteq> '''' \<and> \<not> EqualFold t ''aws-chunked'') (map TrimSpace (split (CHR '','') v))))"

definition rejectUnsupportedUpload :: "headers \<Rightarrow> s3Error option" where
  "rejectUnsupportedUpload h =
     (if header_get h ''X-Amz-Copy-Source'' \<noteq> ''''
      then Some (WithMessage api_NotImplemented ''this operation does not accept x-amz-copy-source in this build'')
      else if list_ex (\<lambda>(name, _). starts_with ''x-amz-server-side-encryption'' (ToLower name)) h
      then Some (WithMessage api_NotImplemented ''server-side encryption headers are not accepted; this gateway encrypts already'')
      else None)"

definition echo_checksum :: "string \<times> string list \<Rightarrow> headers \<Rightarrow> headers" where
  "echo_checksum nv dst =
     (case nv of (name, vs) \<Rightarrow>
        if starts_with ''x-amz-checksum-'' (ToLower name) \<and> vs \<noteq> [] then header_set name (hd vs) dst else dst)"

definition echoVerifiedChecksums :: "headers \<Rightarrow> headers \<Rightarrow> headers \<Rightarrow> headers" where
  "echoVerifiedChecksums dst request trailer = fold echo_checksum trailer (fold echo_checksum request dst)"

section \<open>Storing an object\<close>

text \<open>What the random source gives a write, and the contents of a recycled buffer.\<close>

record randoms =
  rndDEK :: "bytes result"
  rndNonce :: "bytes result"
  rndSalt :: "bytes result"
  rndTagNonce :: "bytes result"
  rndStale :: "nat \<Rightarrow> byte"

text \<open>The encrypting goroutine: its error, what the reading end of the pipe sees, and the salt it sent. A write
  into an \<open>io.Pipe\<close> whose reader has closed it fails with \<open>io.ErrClosedPipe\<close>.\<close>

definition pipe_plan :: "nat option list \<Rightarrow> (nat \<times> err) option list" where
  "pipe_plan taken = map (map_option (\<lambda>n. (n, Sentinel ErrClosedPipe))) taken"

definition encrypt_into_pipe ::
  "randoms \<Rightarrow> bytes \<Rightarrow> SegmentParams \<Rightarrow> source \<Rightarrow> nat option list \<Rightarrow> err option \<times> source \<times> bytes option" where
  "encrypt_into_pipe rnd dek params body taken =
     (case NewEncryptWriter (rndSalt rnd) (rndStale rnd) \<lparr>snk_out = [], snk_plan = pipe_plan taken\<rparr> dek params of
        Inl e \<Rightarrow> (Some e, \<lparr>src_data = [], src_end = e\<rparr>, None)
      | Inr ew \<Rightarrow>
          (case (case copyIn body ew of
                   (Some e, w) \<Rightarrow> (Some e, w)
                 | (None, w) \<Rightarrow> CloseWriter w) of
             (e, w) \<Rightarrow>
               (e, \<lparr>src_data = snk_out (wdst w), src_end = (case e of None \<Rightarrow> Sentinel EOF | Some x \<Rightarrow> x)\<rparr>, Some (SaltW ew))))"

text \<open>The upstream request with such a body, and which of the two errors is reported.\<close>

definition upload_error :: "err option \<Rightarrow> 'a result \<Rightarrow> s3Error + 'a" where
  "upload_error encErr put =
     (let encErr = (case (encErr, put) of
                      (Some e, Inl _) \<Rightarrow> if errors_is ErrClosedPipe e then None else Some e
                    | _ \<Rightarrow> encErr) in
      case encErr of
        Some e \<Rightarrow> Inl (translateBody e)
      | None \<Rightarrow> emap_err translateUpstream put)"

definition put_reply :: "Request \<Rightarrow> PutObjectOutput \<Rightarrow> reply" where
  "put_reply q out =
     (let h = qReply q;
          h = (if poETag out \<noteq> '''' then header_set ''ETag'' (poETag out) h else h);
          h = (if poVersionID out \<noteq> '''' then header_set ''x-amz-version-id'' (poVersionID out) h else h);
          h = echoVerifiedChecksums h (qHeader q) (qTrailer q)
      in \<lparr>pStatus = 200, pHeader = header_set ''Content-Length'' ''0'' h, pBody = [], pAborted = False\<rparr>)"

definition put_headers :: "headers \<Rightarrow> (string \<times> string) list" where
  "put_headers h =
     [(''Content-Type'', header_get h ''Content-Type''), (''Cache-Control'', header_get h ''Cache-Control''),
      (''Content-Disposition'', header_get h ''Content-Disposition''),
      (''Content-Encoding'', passthroughContentEncoding h), (''Content-Language'', header_get h ''Content-Language'')]"

text \<open>The part of \<open>putObject\<close> before the first upstream request: everything it needs, or the refusal.\<close>

record put_plan =
  ppInput :: PutObjectInput
  ppMeta :: Meta
  ppDek :: bytes
  ppTags :: "Tag list"
  ppBody :: source

definition prepare_put :: "(nat \<Rightarrow> bool) \<Rightarrow> randoms \<Rightarrow> Proxy \<Rightarrow> Request \<Rightarrow> s3Error + put_plan" where
  "prepare_put uni rnd p q =
     echeck (rejectUnsupportedUpload (qHeader q))
     (ebind (writeConditions (qHeader q)) (\<lambda>(ifMatch, ifNoneMatch).
      ebind (tagsFromHeader uni (qHeader q)) (\<lambda>tagSet.
      ebind (emap_err translateBody (qBody q)) (\<lambda>(body, plainLen).
      if plainLen < 0 then Inl api_MissingContentLength
      else
        ebind (emap_err (\<lambda>_. WithMessage api_EntityTooLarge ''object of %d bytes cannot be stored: %v'')
                 (SealedSize plainLen (gLog2C p))) (\<lambda>sealedLen.
        ebind (emap_err (\<lambda>_. WithMessage api_InvalidArgument ''%v'') (clientMetadata (qHeader q))) (\<lambda>clientMeta.
        ebind (storedKey p (qBucket q) (qKey q)) (\<lambda>sk.
        ebind (bucketKeys p (qBucket q)) (\<lambda>bk.
        ebind (emap_err (\<lambda>_. WithMessage api_InvalidArgument ''%v'') (ObjectAAD (bkKID bk) (qBucket q) (qKey q))) (\<lambda>ad.
        ebind (emap_err (\<lambda>_. api_Internal) (NewDEK (rndDEK rnd))) (\<lambda>dek.
        ebind (emap_err (\<lambda>_. api_Internal) (pWrap (gKeys p) (rndNonce rnd) (bkKID bk) dek ad)) (\<lambda>wrapped.
          let meta = \<lparr>mVersion = 1, mKeyID = bkKID bk, mWrappedDEK = wrapped, mLog2ChunkSize = gLog2C p,
                mHasChunkSize = False, mManifestID = replicate IDSize 0, mMultipart = False\<rparr>
          in Inr \<lparr>ppInput = \<lparr>piBucket = qBucket q, piKey = sk, piContentLength = sealedLen,
                    piHeaders = put_headers (qHeader q), piMetadata = mergeMetadata clientMeta meta,
                    piIfMatch = ifMatch, piIfNoneMatch = ifNoneMatch\<rparr>,
                 ppMeta = meta, ppDek = dek, ppTags = tagSet, ppBody = body\<rparr>)))))))))))"

definition putObject :: "(nat \<Rightarrow> bool) \<Rightarrow> randoms \<Rightarrow> Proxy \<Rightarrow> 'u Provider \<Rightarrow> Request \<Rightarrow> ('u, reply) act" where
  "putObject uni rnd p prov q =
     abind (alift (prepare_put uni rnd p q)) (\<lambda>pp.
     abind (writeTagsBeforeObject prov (rndTagNonce rnd) (qBucket q) (qKey q) (piKey (ppInput pp)) (ppMeta pp) (ppDek pp) (ppTags pp)) (\<lambda>_.
     (\<lambda>w. case encrypt_into_pipe rnd (ppDek pp) \<lparr>Log2ChunkSize = gLog2C p, Multipart = False, Index = 0\<rparr> (ppBody pp)
                 (upPipe prov (ppInput pp) (wUp w)) of
        (encErr, sent, salt) \<Rightarrow>
          abind (acall (upPut prov (ppInput pp) sent)) (\<lambda>r.
          abind (alift (upload_error encErr r)) (\<lambda>out.
          abind (case salt of Some s \<Rightarrow> recordFreshness (qNow q) (qBucket q) (qKey q) (saltsOf s) | None \<Rightarrow> aret ()) (\<lambda>_.
            aret (put_reply q out)))) w)))"

section \<open>Deleting an object\<close>

definition deleteObject :: "Proxy \<Rightarrow> 'u Provider \<Rightarrow> Request \<Rightarrow> ('u, reply) act" where
  "deleteObject p prov q =
     abind (alift (storedKey p (qBucket q) (qKey q))) (\<lambda>sk.
     abind (observedManifest p prov (qBucket q) sk) (\<lambda>observed.
     abind (acall (upDelete prov (qBucket q) sk)) (\<lambda>e.
     abind (alift (case e of Some x \<Rightarrow> Inl (translateUpstream x) | None \<Rightarrow> Inr ())) (\<lambda>_.
     abind (case observed of
              None \<Rightarrow> aret ()
            | Some i \<Rightarrow> abind (deleteManifest prov (qBucket q) sk i) (\<lambda>_. aret ())) (\<lambda>_.
     abind (forgetFreshness (qNow q) (qBucket q) (qKey q)) (\<lambda>_.
       aret \<lparr>pStatus = 204, pHeader = qReply q, pBody = [], pAborted = False\<rparr>))))))"

section \<open>The encrypting pipe\<close>

text \<open>A run of the writer in which no write of its sink fails is the run into a sink that never fails.\<close>

definition patient :: "EncryptWriter \<Rightarrow> EncryptWriter" where
  "patient w = w\<lparr>wdst := (wdst w)\<lparr>snk_plan := []\<rparr>\<rparr>"

lemma patient_simps [simp]:
  "wheader (patient w) = wheader w" "wn (patient w) = wn w" "wbuf (patient w) = wbuf w" "wnext (patient w) = wnext w"
  "wsealer (patient w) = wsealer w" "wtotal (patient w) = wtotal w" "wheaderWritten (patient w) = wheaderWritten w"
  "wclosed (patient w) = wclosed w" "werr (patient w) = werr w" "wdst (patient w) = (wdst w)\<lparr>snk_plan := []\<rparr>"
  by (simp_all add: patient_def)

lemma sink_write_patient:
  "sink_write b d = (None, d') \<Longrightarrow> sink_write b (d\<lparr>snk_plan := []\<rparr>) = (None, d'\<lparr>snk_plan := []\<rparr>)"
  by (auto simp: sink_write_def split: list.splits option.splits)

lemma fail_not_None: "fail e w \<noteq> (None, w')"
  by (auto simp: fail_def Let_def split: if_splits)

lemma flush_patient:
  assumes "flush f w = (None, w')"
  shows "flush f (patient w) = (None, patient w') \<and> wheader w' = wheader w"
proof -
  obtain w1 where w1: "(if wheaderWritten w then (None, w)
      else case sink_write (raw (wheader w)) (wdst w) of
             (Some e, d) \<Rightarrow> fail e (w\<lparr>wdst := d\<rparr>)
           | (None, d) \<Rightarrow> (None, w\<lparr>wdst := d, wheaderWritten := True\<rparr>)) = (None, w1)"
    using assms unfolding flush_def by (auto split: prod.splits option.splits)
  then have p1: "(if wheaderWritten (patient w) then (None, patient w)
      else case sink_write (raw (wheader (patient w))) (wdst (patient w)) of
             (Some e, d) \<Rightarrow> fail e ((patient w)\<lparr>wdst := d\<rparr>)
           | (None, d) \<Rightarrow> (None, (patient w)\<lparr>wdst := d, wheaderWritten := True\<rparr>)) = (None, patient w1)"
      "wheader w1 = wheader w"
    by (auto simp: sink_write_patient fail_not_None patient_def simp del: sink_write_reliable
        split: if_splits prod.splits option.splits)
  obtain sealed s where s: "sealer_seal (take (wn w1) (wbuf w1)) (wnext w1) f (wsealer w1) = (sealed, s)" by fastforce
  obtain d where d: "sink_write sealed (wdst w1) = (None, d)"
      "w' = w1\<lparr>wsealer := s, wbuf := copy_at 0 sealed (wbuf w1), wdst := d, wnext := wnext w1 + 1, wn := 0\<rparr>"
    using assms unfolding flush_def w1
    by (auto simp: s Let_def fail_not_None split: prod.splits option.splits)
  show ?thesis
    unfolding flush_def p1(1) using sink_write_patient [OF d(1)] s p1(2) d(2)
    by (simp add: patient_def del: sink_write_reliable)
qed

lemma write_loop_patient:
  "write_loop b n w = (m, None, w') \<Longrightarrow> write_loop b n (patient w) = (m, None, patient w') \<and> wheader w' = wheader w"
proof (induction b n w arbitrary: m w' rule: write_loop.induct)
  case (1 b n w)
  show ?case
  proof (cases "b = []")
    case True
    then show ?thesis using "1.prems" by (simp add: write_loop.simps)
  next
    case False
    obtain w1 where w1: "(if wn w = chunkSize (wheader w) then flush False w else (None, w)) = (None, w1)"
      using "1.prems" False by (subst (asm) write_loop.simps) (auto split: prod.splits option.splits)
    then have p1: "(if wn (patient w) = chunkSize (wheader (patient w)) then flush False (patient w) else (None, patient w)) =
        (None, patient w1)" "wheader w1 = wheader w"
      using flush_patient [of False w] by (auto split: if_splits)
    let ?k = "min (chunkSize (wheader w1) - wn w1) (length b)"
    let ?w2 = "w1\<lparr>wbuf := copy_at (wn w1) (take ?k b) (wbuf w1), wn := wn w1 + ?k, wtotal := add64 (wtotal w1) (int ?k)\<rparr>"
    have step: "write_loop b n w = (if ?k = 0 then (n, None, w1)
        else if add64 (wtotal w1) (int ?k) > MaxPlaintextSize
        then (case fail (Errorf ''stream: segment exceeds the maximum plaintext size of %d bytes'' []) w1 of (e, w2) \<Rightarrow> (n, e, w2))
        else write_loop (drop ?k b) (n + ?k) ?w2)"
      by (subst write_loop.simps) (simp add: False w1 Let_def)
    have pstep: "write_loop b n (patient w) = (if ?k = 0 then (n, None, patient w1)
        else if add64 (wtotal w1) (int ?k) > MaxPlaintextSize
        then (case fail (Errorf ''stream: segment exceeds the maximum plaintext size of %d bytes'' []) (patient w1) of
                (e, w2) \<Rightarrow> (n, e, w2))
        else write_loop (drop ?k b) (n + ?k) (patient ?w2))"
    proof -
      have "(patient w1)\<lparr>wbuf := copy_at (wn w1) (take ?k b) (wbuf w1), wn := wn w1 + ?k, wtotal := add64 (wtotal w1) (int ?k)\<rparr> =
          patient ?w2" by (simp add: patient_def)
      then show ?thesis by (subst write_loop.simps) (simp only: False p1(1) [unfolded patient_simps] Let_def prod.case option.case patient_simps if_False)
    qed
    show ?thesis
    proof (cases "?k = 0")
      case True
      then show ?thesis using "1.prems" p1(2) unfolding step pstep by simp
    next
      case nz: False
      have le: "\<not> add64 (wtotal w1) (int ?k) > MaxPlaintextSize"
        using "1.prems" nz fail_not_None unfolding step by (auto split: prod.splits)
      have "write_loop (drop ?k b) (n + ?k) ?w2 = (m, None, w')" using "1.prems" nz le unfolding step by simp
      then have "write_loop (drop ?k b) (n + ?k) (patient ?w2) = (m, None, patient w') \<and> wheader w' = wheader ?w2"
        by (intro "1.IH" [OF False w1 [symmetric] refl refl nz le])
      then show ?thesis unfolding pstep if_not_P [OF nz] if_not_P [OF le] using p1(2) by simp
    qed
  qed
qed

lemma writes_patient:
  "writes xs w = (None, w') \<Longrightarrow> writes xs (patient w) = (None, patient w') \<and> wheader w' = wheader w"
proof (induction xs arbitrary: w)
  case (Cons x xs)
  obtain m w1 where w1: "Write x w = (m, None, w1)" "writes xs w1 = (None, w')"
    using Cons.prems by (auto split: prod.splits option.splits)
  have "Write x (patient w) = (m, None, patient w1) \<and> wheader w1 = wheader w"
    using w1(1) write_loop_patient [of x 0 w m w1] by (auto simp: Write_def split: if_splits)
  then show ?case using Cons.IH [OF w1(2)] by simp
qed simp

lemma copyIn_patient:
  "copyIn src w = (None, w') \<Longrightarrow> copyIn src (patient w) = (None, patient w') \<and> src_end src = Sentinel EOF"
  using writes_patient [of "pieces 32768 (src_data src)" w]
  by (auto simp: copyIn_def split: prod.splits option.splits if_splits)

lemma CloseWriter_patient:
  assumes "CloseWriter w = (None, w')" and "\<not> wclosed w"
  shows "\<exists>w''. CloseWriter (patient w) = (None, w'') \<and> snk_out (wdst w'') = snk_out (wdst w')"
proof -
  obtain w2 where w2: "flush True (w\<lparr>wclosed := True\<rparr>) = (None, w2)" "w' = w2\<lparr>wbuf := []\<rparr>" "werr w = None"
    using assms by (auto simp: CloseWriter_def Let_def split: prod.splits if_splits)
  have "(patient w)\<lparr>wclosed := True\<rparr> = patient (w\<lparr>wclosed := True\<rparr>)" by (simp add: patient_def)
  then have "flush True ((patient w)\<lparr>wclosed := True\<rparr>) = (None, patient w2)" using flush_patient [OF w2(1)] by (simp only:)
  then show ?thesis using assms(2) w2 by (simp add: CloseWriter_def Let_def)
qed

text \<open>A goroutine that ends without an error has put the whole segment into the pipe.\<close>

lemma encrypt_into_pipe_ok:
  assumes "encrypt_into_pipe rnd dek params body plan = (None, sent, salt)" and "length (src_data body) \<le> 2 ^ 46"
    and "\<And>s. rndSalt rnd = Inr s \<Longrightarrow> length s = SaltSize"
  shows "\<exists>h. wf_header h \<and> hparams h = params \<and> rndSalt rnd = Inr (hsalt h) \<and> length dek = 32 \<and> salt = Some (hsalt h) \<and>
    src_end body = Sentinel EOF \<and>
    sent = \<lparr>src_data = seal_segment dek h (src_data body), src_end = Sentinel EOF\<rparr>"
proof -
  let ?d = "\<lparr>snk_out = [], snk_plan = pipe_plan plan\<rparr>"
  obtain ew w w' where ew: "NewEncryptWriter (rndSalt rnd) (rndStale rnd) ?d dek params = Inr ew"
      and w: "copyIn body ew = (None, w)" "CloseWriter w = (None, w')"
      and sent: "sent = \<lparr>src_data = snk_out (wdst w'), src_end = Sentinel EOF\<rparr>" "salt = Some (SaltW ew)"
    using assms(1) by (auto simp: encrypt_into_pipe_def split: sum.splits prod.splits option.splits)
  obtain h where h: "newHeader params (rndSalt rnd) = Inr h" "newEncryptWriter (rndStale rnd) ?d dek h = Inr ew"
    using ew by (auto simp: NewEncryptWriter_def result_simps)
  obtain s where s: "rndSalt rnd = Inr s" using h(1) by (auto simp: newHeader_def result_simps)
  have hd: "wf_header h" "hparams h = params" "rndSalt rnd = Inr (hsalt h)"
    using newHeader_wf [of params s h] h(1) assms(3) s by auto
  have dek: "length dek = 32" using h(2) by (auto simp: newEncryptWriter_def newSealer_eq result_simps split: if_splits)
  have "newEncryptWriter (rndStale rnd) new_sink dek h = Inr (patient ew)"
    using h(2) by (auto simp: newEncryptWriter_def result_simps patient_def new_sink_def)
  note r0 = newEncryptWriter_run [OF this]
  have r: "writer_run (subkey dek (hsalt h)) [] [] (patient ew)" "wheader (patient ew) = h" "\<not> wclosed (patient ew)"
    using r0 by auto
  obtain w1 where w1: "copyIn body (patient ew) = (None, w1)" "writer_run (subkey dek (hsalt h)) [] (src_data body) w1"
      "wheader w1 = h" "\<not> wclosed w1"
    using copyIn_run [OF r(1,3), of body] assms(2) copyIn_patient [OF w(1)] r(2) by auto
  have pw: "w1 = patient w" and eof: "src_end body = Sentinel EOF" using copyIn_patient [OF w(1)] w1(1) by auto
  obtain w2 where "CloseWriter w1 = (None, w2)" "snk_out (wdst w2) = seal_segment dek h (src_data body)"
    using CloseWriter_run [OF w1(2,4)] w1(3) by (auto simp: seal_segment_def)
  moreover have "\<exists>w''. CloseWriter (patient w) = (None, w'') \<and> snk_out (wdst w'') = snk_out (wdst w')"
    using CloseWriter_patient [OF w(2)] w1(4) pw by simp
  ultimately have "snk_out (wdst w') = seal_segment dek h (src_data body)" using pw by simp
  moreover have "SaltW ew = hsalt h" using r(2) by (simp add: SaltW_def)
  ultimately show ?thesis using hd dek sent eof by blast
qed

section \<open>The gateway's own metadata\<close>

definition ascii :: "string \<Rightarrow> bool" where
  "ascii s \<longleftrightarrow> list_all (\<lambda>c. of_char c < (128 :: nat)) s"

lemma fold_name_ascii: "ascii s \<Longrightarrow> fold_name s = map lower s"
  by (induction s rule: fold_name.induct) (auto simp: ascii_def)

lemma ToLower_ascii: "ascii s \<Longrightarrow> ToLower s = map lower s"
  by (induction s rule: ToLower.induct) (auto simp: ascii_def)

lemma token_ascii: "list_all token_char s \<Longrightarrow> ascii s"
proof -
  have "\<forall>c\<in>set ''!#$%&*+-.^_`|~''. of_char c < (128 :: nat)" by code_simp
  then have "token_char c \<Longrightarrow> of_char c < (128 :: nat)" for c
    unfolding token_char_def is_letter_def is_digit_def Let_def by auto
  then show "list_all token_char s \<Longrightarrow> ascii s" by (auto simp: ascii_def list_all_iff)
qed

lemma clientMetadata_names:
  assumes "clientMetadata h = Inr md" and "\<forall>(n, vs)\<in>set h. list_all token_char n" and "(k, v) \<in> set md"
  shows "ascii k \<and> \<not> starts_with metaPrefix (fold_name k)"
  using assms
proof (induction h arbitrary: md)
  case (Cons x h)
  obtain name vs where x: "x = (name, vs)" by (cases x)
  show ?case
  proof (cases "(k, v) \<in> set md \<and> (\<exists>md'. clientMetadata h = Inr md' \<and> (k, v) \<in> set md')")
    case True
    then show ?thesis using Cons.IH Cons.prems(2) by auto
  next
    case False
    then have k: "k = drop (length ''x-amz-meta-'') name" "\<not> starts_with metaPrefix (ToLower k)"
      using Cons.prems(1,3) unfolding x by (auto simp: result_simps Let_def split: list.splits if_splits)
    have "ascii k" using Cons.prems(2) x k(1) token_ascii [of name] by (auto simp: ascii_def list_all_iff dest: in_set_dropD)
    then show ?thesis using k(2) by (simp add: fold_name_ascii ToLower_ascii)
  qed
qed simp

text \<open>What S3 documents of user metadata: it comes back under the same names up to case, and the provider
  adds none in the name space of the gateway.\<close>

definition keeps_metadata :: "(string \<times> string) list \<Rightarrow> (string \<times> string) list \<Rightarrow> bool" where
  "keeps_metadata got md \<longleftrightarrow>
     list_all (\<lambda>(k, v). list_ex (\<lambda>(n, w). fold_name n = fold_name k \<and> w = v) got) md \<and>
     list_all (\<lambda>(n, w). starts_with metaPrefix (fold_name n) \<longrightarrow>
        list_ex (\<lambda>(k, v). fold_name k = fold_name n \<and> v = w) md) got"

lemma bb_names_fold: "k \<in> set bb_names \<Longrightarrow> fold_name k = k \<and> starts_with metaPrefix k"
proof -
  have "\<forall>k\<in>set bb_names. fold_name k = k \<and> starts_with metaPrefix k" by code_simp
  then show "k \<in> set bb_names \<Longrightarrow> fold_name k = k \<and> starts_with metaPrefix k" by blast
qed

lemma Headers_bb: "(k, v) \<in> set (Headers m) \<Longrightarrow> k \<in> set bb_names"
  by (auto simp: Headers_def bb_names_def split: if_splits)

lemma carries_merged:
  assumes "clientMetadata h = Inr client" and "\<forall>(n, vs)\<in>set h. list_all token_char n"
    and "keeps_metadata got (mergeMetadata client meta)"
  shows "carries got (Headers meta)"
  unfolding carries_def list_all_iff
proof (intro conjI ballI; clarsimp)
  fix k v assume kv: "(k, v) \<in> set (Headers meta)"
  then have "(k, v) \<in> set (mergeMetadata client meta)" by (simp add: mergeMetadata_def)
  then show "list_ex (\<lambda>(n, w). EqualFold n k \<and> w = v) got"
    using assms(3) bb_names_fold [OF Headers_bb [OF kv]] by (fastforce simp: keeps_metadata_def list_all_iff EqualFold_def)
next
  fix n w k assume nw: "(n, w) \<in> set got" "k \<in> set bb_names" "EqualFold n k"
  then have "starts_with metaPrefix (fold_name n)" using bb_names_fold by (simp add: EqualFold_def)
  then obtain k' where k': "(k', w) \<in> set (mergeMetadata client meta)" "fold_name k' = k"
    using assms(3) nw by (fastforce simp: keeps_metadata_def list_all_iff list_ex_iff EqualFold_def)
  show "(k, w) \<in> set (Headers meta)"
  proof (cases "(k', w) \<in> set (Headers meta)")
    case True
    then show ?thesis using bb_names_fold [OF Headers_bb [OF True]] k'(2) by simp
  next
    case False
    then have "(k', w) \<in> set client" using k'(1) by (auto simp: mergeMetadata_def)
    from clientMetadata_names [OF assms(1,2) this] bb_names_fold [OF nw(2)] k'(2) show ?thesis by simp
  qed
qed

section \<open>What was put can be got\<close>

definition index_ok :: "Local option \<Rightarrow> bool" where
  "index_ok f \<longleftrightarrow> (case f of None \<Rightarrow> True | Some l \<Rightarrow> lgood l)"

lemma recordFreshness_Present:
  assumes "wFresh w = Some l" and "lgood l" and "TagFromSalts salts = Inr tag" and "salts \<noteq> []"
  shows "\<exists>l'. recordFreshness now bucket key salts w = (Inr (), w\<lparr>wFresh := Some l'\<rparr>) \<and> lgood l' \<and>
    lview l' (lname l' (bucket, key)) = Some (Present tag)"
proof -
  obtain l' where l': "run_op now (OpRecord bucket key tag) l = ((None, None), l')" "lgood l'" "lname l' = lname l"
      "up_to_expiry (lhorizon l now) ((lview l)(lname l (bucket, key) \<mapsto> Present tag)) (lview l')"
    using index.run_spec [OF assms(2), of now "OpRecord bucket key tag"] by auto
  have "lview l' (lname l' (bucket, key)) = Some (Present tag)"
    using up_to_expiry_Present [OF l'(4)] l'(3) by simp
  moreover have "snd (Record now bucket key tag l) = l'" using l'(1) by (auto split: prod.splits)
  ultimately show ?thesis using assms l'(2) by (auto simp: recordFreshness_def)
qed

lemma recordFreshness_fresh:
  assumes "index_ok (wFresh w)"
  shows "\<exists>f. recordFreshness now bucket key salts w = (Inr (), w\<lparr>wFresh := f\<rparr>) \<and> index_ok f \<and> fresh_read f bucket key salts"
proof (cases "wFresh w = None \<or> salts = [] \<or> (\<exists>e. TagFromSalts salts = Inl e)")
  case True
  with assms show ?thesis
    by (auto simp: recordFreshness_def fresh_read_def index_ok_def intro!: exI [of _ "wFresh w"] split: option.splits)
next
  case False
  then obtain l tag where "wFresh w = Some l" "TagFromSalts salts = Inr tag" "salts \<noteq> []" by (cases "TagFromSalts salts") auto
  with recordFreshness_Present [of w l salts tag now bucket key] assms show ?thesis
    by (auto simp: index_ok_def fresh_read_def)
qed

lemma recordFreshness_total: "\<exists>w'. recordFreshness now bucket key salts w = (Inr (), w')"
  by (auto simp: recordFreshness_def split: option.splits sum.splits)

text \<open>What a write relies on in the provider: an object that was put, with its announced length, can be
  read back.\<close>

definition holds_object :: "'u Provider \<Rightarrow> 'u \<Rightarrow> string \<Rightarrow> string \<Rightarrow> (string \<times> string) list \<Rightarrow> bytes \<Rightarrow> bool" where
  "holds_object prov u bucket key md data \<longleftrightarrow>
     (\<exists>out u'. upGet prov (get_input bucket key) u = (Inr out, u') \<and> src_data (oBody out) = data \<and>
        src_end (oBody out) = Sentinel EOF \<and> oContentLength out = int (length data) \<and> keeps_metadata (oMetadata out) md)"

definition stores_objects :: "'u Provider \<Rightarrow> bool" where
  "stores_objects prov \<longleftrightarrow>
     (\<forall>i s u out u'. upPut prov i s u = (Inr out, u') \<and> src_end s = Sentinel EOF \<and>
        piContentLength i = int (length (src_data s)) \<longrightarrow> holds_object prov u' (piBucket i) (piKey i) (piMetadata i) (src_data s))"

text \<open>\<open>rand.Read\<close> never fails, and gives as many bytes as were asked for.\<close>

definition good_randoms :: "randoms \<Rightarrow> bool" where
  "good_randoms rnd \<longleftrightarrow>
     (\<exists>d n s t. rndDEK rnd = Inr d \<and> length d = 32 \<and> rndNonce rnd = Inr n \<and> length n = 12 \<and>
        rndSalt rnd = Inr s \<and> length s = SaltSize \<and> rndTagNonce rnd = Inr t \<and> length t = 12)"

lemma prepare_put_Inr:
  assumes "prepare_put uni rnd p q = Inr pp"
  shows "\<exists>body n sk bk ad client. qBody q = Inr (body, n) \<and> SealedSize n (gLog2C p) = Inr (piContentLength (ppInput pp)) \<and>
    clientMetadata (qHeader q) = Inr client \<and> storedKey p (qBucket q) (qKey q) = Inr sk \<and> gFor p (qBucket q) = Inr bk \<and>
    ObjectAAD (bkKID bk) (qBucket q) (qKey q) = Inr ad \<and> rndDEK rnd = Inr (ppDek pp) \<and>
    pWrap (gKeys p) (rndNonce rnd) (bkKID bk) (ppDek pp) ad = Inr (mWrappedDEK (ppMeta pp)) \<and>
    ppMeta pp = \<lparr>mVersion = 1, mKeyID = bkKID bk, mWrappedDEK = mWrappedDEK (ppMeta pp), mLog2ChunkSize = gLog2C p,
      mHasChunkSize = False, mManifestID = replicate IDSize 0, mMultipart = False\<rparr> \<and>
    piBucket (ppInput pp) = qBucket q \<and> piKey (ppInput pp) = sk \<and> piMetadata (ppInput pp) = mergeMetadata client (ppMeta pp) \<and>
    ppBody pp = body \<and> tagsFromHeader uni (qHeader q) = Inr (ppTags pp)"
  using assms
  by (auto simp: prepare_put_def echeck_def ebind_def emap_err_def bucketKeys_def NewDEK_def Let_def
      split: option.splits sum.splits if_splits prod.splits)

lemma upload_error_Inr: "upload_error encErr r = Inr out \<longleftrightarrow> encErr = None \<and> r = Inr out"
  by (cases encErr; cases r) (auto simp: upload_error_def Let_def)

lemma writeTags_fresh:
  "writeTagsBeforeObject prov rnd b k sk meta dek ts w = (Inr x, w') \<Longrightarrow> wFresh w' = wFresh w"
  by (auto simp: writeTagsBeforeObject_def writeTags_def act_Inr split: if_splits)

text \<open>What an acknowledged \<open>putObject\<close> has done.\<close>

lemma putObject_Inr:
  assumes put: "putObject uni rnd p prov q w = (Inr rep, w')" and rnd: "good_randoms rnd"
    and body: "qBody q = Inr (body, int (length (src_data body)))"
  shows "\<exists>pp h u1 out u2 w1. prepare_put uni rnd p q = Inr pp \<and>
    writeTagsBeforeObject prov (rndTagNonce rnd) (qBucket q) (qKey q) (piKey (ppInput pp)) (ppMeta pp) (ppDek pp) (ppTags pp) w =
      (Inr (), w1) \<and> u1 = wUp w1 \<and> wFresh w1 = wFresh w \<and>
    wf_header h \<and> hparams h = \<lparr>Log2ChunkSize = gLog2C p, Multipart = False, Index = 0\<rparr> \<and> rndSalt rnd = Inr (hsalt h) \<and>
    src_end body = Sentinel EOF \<and>
    length (src_data body) \<le> 2 ^ 46 \<and> piContentLength (ppInput pp) = int (length (seal_segment (ppDek pp) h (src_data body))) \<and>
    upPut prov (ppInput pp) \<lparr>src_data = seal_segment (ppDek pp) h (src_data body), src_end = Sentinel EOF\<rparr> u1 = (Inr out, u2) \<and>
    recordFreshness (qNow q) (qBucket q) (qKey q) (saltsOf (hsalt h)) (w1\<lparr>wUp := u2\<rparr>) = (Inr (), w') \<and> rep = put_reply q out"
proof -
  obtain pp w1 where pp: "prepare_put uni rnd p q = Inr pp"
      and w1: "writeTagsBeforeObject prov (rndTagNonce rnd) (qBucket q) (qKey q) (piKey (ppInput pp)) (ppMeta pp) (ppDek pp) (ppTags pp) w =
        (Inr (), w1)"
      and k: "(case encrypt_into_pipe rnd (ppDek pp) \<lparr>Log2ChunkSize = gLog2C p, Multipart = False, Index = 0\<rparr> (ppBody pp)
                 (upPipe prov (ppInput pp) (wUp w1)) of
        (encErr, sent, salt) \<Rightarrow>
          abind (acall (upPut prov (ppInput pp) sent)) (\<lambda>r.
          abind (alift (upload_error encErr r)) (\<lambda>out.
          abind (case salt of Some s \<Rightarrow> recordFreshness (qNow q) (qBucket q) (qKey q) (saltsOf s) | None \<Rightarrow> aret ()) (\<lambda>_.
            aret (put_reply q out)))) w1) = (Inr rep, w')"
    using put unfolding putObject_def abind_Inr alift_Inr by auto
  obtain encErr sent salt where e: "encrypt_into_pipe rnd (ppDek pp) \<lparr>Log2ChunkSize = gLog2C p, Multipart = False, Index = 0\<rparr>
      (ppBody pp) (upPipe prov (ppInput pp) (wUp w1)) = (encErr, sent, salt)" by (metis prod_cases3)
  obtain out u2 where o: "upPut prov (ppInput pp) sent (wUp w1) = (Inr out, u2)" "encErr = None" "rep = put_reply q out"
      and f: "(case salt of Some s \<Rightarrow> recordFreshness (qNow q) (qBucket q) (qKey q) (saltsOf s) | None \<Rightarrow> aret ()) (w1\<lparr>wUp := u2\<rparr>) = (Inr (), w')"
    using k unfolding e by (cases "upPut prov (ppInput pp) sent (wUp w1)") (auto simp: act_Inr upload_error_Inr)
  note pi = prepare_put_Inr [OF pp]
  have pb: "ppBody pp = body" and sz: "SealedSize (int (length (src_data body))) (gLog2C p) = Inr (piContentLength (ppInput pp))"
    using pi body by auto
  have le: "length (src_data body) \<le> 2 ^ 46" using sealed_size_bound [OF sz] by simp
  obtain h where h: "wf_header h" "hparams h = \<lparr>Log2ChunkSize = gLog2C p, Multipart = False, Index = 0\<rparr>" "salt = Some (hsalt h)"
      "rndSalt rnd = Inr (hsalt h)" "src_end body = Sentinel EOF" "sent = \<lparr>src_data = seal_segment (ppDek pp) h (src_data body), src_end = Sentinel EOF\<rparr>"
    using encrypt_into_pipe_ok [OF e [unfolded o(2) pb] le] rnd by (auto simp: good_randoms_def)
  have "piContentLength (ppInput pp) = int (length (seal_segment (ppDek pp) h (src_data body)))"
    using SealedSize_seal_segment [OF h(1) le, of "ppDek pp"] sz h(2) by simp
  with pp w1 h o f le writeTags_fresh [OF w1] show ?thesis by auto
qed

text \<open>The metadata, key and body under which an acknowledged write can be found.\<close>

lemma put_stored:
  assumes "key_provider (gKeys p)" and put: "putObject uni rnd p prov q w = (Inr rep, w')" and rnd: "good_randoms rnd"
    and body: "qBody q = Inr (body, int (length (src_data body)))" and tok: "\<forall>(n, vs)\<in>set (qHeader q). list_all token_char n"
    and "stores_objects prov" and "index_ok (wFresh w)"
  shows "\<exists>sk out u meta dek. storedKey p (qBucket q) (qKey q) = Inr sk \<and>
    upGet prov (get_input (qBucket q) sk) (wUp w') = (Inr out, u) \<and> Parse (oMetadata out) (gLog2C p) = Inr meta \<and>
    UnwrapDEK (gKeys p) (qBucket q) (qKey q) meta = Inr dek \<and> length dek = 32 \<and> src_end (oBody out) = Sentinel EOF \<and>
    oContentLength out = int (length (src_data (oBody out))) \<and> index_ok (wFresh w') \<and>
    (\<forall>up t. stored_body up t meta dek (src_data (oBody out)) (src_data body) 1 \<and>
       fresh_read (wFresh w') (qBucket q) (qKey q) (stored_salts up t meta dek (src_data (oBody out))))"
proof -
  obtain pp h u1 out0 u2 w1 where pp: "prepare_put uni rnd p q = Inr pp"
      and w1: "wFresh w1 = wFresh w" and h: "wf_header h" "hparams h = \<lparr>Log2ChunkSize = gLog2C p, Multipart = False, Index = 0\<rparr>"
      and le: "length (src_data body) \<le> 2 ^ 46"
      and cl: "piContentLength (ppInput pp) = int (length (seal_segment (ppDek pp) h (src_data body)))"
      and up: "upPut prov (ppInput pp) \<lparr>src_data = seal_segment (ppDek pp) h (src_data body), src_end = Sentinel EOF\<rparr> u1 = (Inr out0, u2)"
      and rf: "recordFreshness (qNow q) (qBucket q) (qKey q) (saltsOf (hsalt h)) (w1\<lparr>wUp := u2\<rparr>) = (Inr (), w')"
    using putObject_Inr [OF put rnd body] by blast
  obtain sk client ad and bk :: BucketKeys where i: "clientMetadata (qHeader q) = Inr client" "storedKey p (qBucket q) (qKey q) = Inr sk"
      "ObjectAAD (bkKID bk) (qBucket q) (qKey q) = Inr ad" "rndDEK rnd = Inr (ppDek pp)"
      "pWrap (gKeys p) (rndNonce rnd) (bkKID bk) (ppDek pp) ad = Inr (mWrappedDEK (ppMeta pp))"
      and m: "ppMeta pp = \<lparr>mVersion = 1, mKeyID = bkKID bk, mWrappedDEK = mWrappedDEK (ppMeta pp), mLog2ChunkSize = gLog2C p,
        mHasChunkSize = False, mManifestID = replicate IDSize 0, mMultipart = False\<rparr>"
      and pi: "piBucket (ppInput pp) = qBucket q" "piKey (ppInput pp) = sk" "piMetadata (ppInput pp) = mergeMetadata client (ppMeta pp)"
    using prepare_put_Inr [OF pp] by blast
  obtain nonce where n: "rndNonce rnd = Inr nonce" "length nonce = 12" and d: "length (ppDek pp) = 32"
    using rnd i(4) by (auto simp: good_randoms_def)
  have w: "pUnwrap (gKeys p) (bkKID bk) (mWrappedDEK (ppMeta pp)) ad = Inr (ppDek pp)" "length (mWrappedDEK (ppMeta pp)) = 60"
    using key_provider.unwrap_wrap [OF assms(1) i(5) [unfolded n(1)] n(2)]
      key_provider.wrap_length [OF assms(1) i(5) [unfolded n(1)] n(2)] d by simp_all
  let ?c = "seal_segment (ppDek pp) h (src_data body)" and ?meta = "(ppMeta pp)\<lparr>mHasChunkSize := True\<rparr>"
  obtain f where f: "w' = w1\<lparr>wUp := u2, wFresh := f\<rparr>" "index_ok f" "fresh_read f (qBucket q) (qKey q) (saltsOf (hsalt h))"
    using recordFreshness_fresh [of "w1\<lparr>wUp := u2\<rparr>" "qNow q" "qBucket q" "qKey q" "saltsOf (hsalt h)"] rf w1 assms(7) by auto
  have "holds_object prov u2 (qBucket q) sk (mergeMetadata client (ppMeta pp)) ?c"
    using assms(6) [unfolded stores_objects_def, rule_format, of "ppInput pp" _ u1 out0 u2] up cl pi by fastforce
  then obtain out u where o: "upGet prov (get_input (qBucket q) sk) u2 = (Inr out, u)" "src_data (oBody out) = ?c"
      "src_end (oBody out) = Sentinel EOF" "oContentLength out = int (length ?c)"
      "keeps_metadata (oMetadata out) (mergeMetadata client (ppMeta pp))"
    by (auto simp: holds_object_def)
  have kid: "ValidateKID (bkKID bk) = None" using i(3) by (simp add: ObjectAAD_Inr)
  have log: "ValidateLog2ChunkSize (gLog2C p) = None" using h by (simp add: wf_header_def Validate_def echeck_def split: option.splits)
  have "valid_meta ?meta" by (subst m) (simp add: valid_meta_def kid w(2) log)
  moreover have "carries (oMetadata out) (Headers ?meta)"
  proof -
    have "Headers ?meta = Headers (ppMeta pp)" by (simp add: Headers_def)
    then show ?thesis using carries_merged [OF i(1) tok o(5)] by (simp only:)
  qed
  ultimately have pm: "Parse (oMetadata out) (gLog2C p) = Inr ?meta" by (intro Parse_carried) simp_all
  have un: "UnwrapDEK (gKeys p) (qBucket q) (qKey q) ?meta = Inr (ppDek pp)"
    by (subst m) (simp add: UnwrapDEK_def i(3) w(1))
  have "stored_body up t ?meta (ppDek pp) ?c (src_data body) 1" for up t
    using h le by (subst m) (auto simp: stored_body_def)
  moreover have "stored_salts up t ?meta (ppDek pp) ?c = saltsOf (hsalt h)" for up t
    by (subst m) (simp add: stored_salts_def seal_segment_def SaltFromHeader_raw [OF h(1)] h(1))
  ultimately show ?thesis using i(2) o pm un d f by auto
qed

lemma put_get:
  assumes "key_provider (gKeys p)" and "putObject uni rnd p prov q w = (Inr rep, w')" and "good_randoms rnd"
    and "qBody q = Inr (body, int (length (src_data body)))" and "\<forall>(n, vs)\<in>set (qHeader q). list_all token_char n"
    and "stores_objects prov" and "index_ok (wFresh w)"
    and get: "qBucket g = qBucket q" "qKey g = qKey q" "header_get (qHeader g) ''Range'' = ''''" "qClient g = []"
  shows "\<exists>rep' w''. getObject p prov g w' = (Inr (Some rep'), w'') \<and> pStatus rep' = 200 \<and> received rep' \<and> pBody rep' = src_data body"
proof -
  obtain sk out u meta dek where s: "storedKey p (qBucket g) (qKey g) = Inr sk"
      "upGet prov (get_input (qBucket g) sk) (wUp w') = (Inr out, u)" "Parse (oMetadata out) (gLog2C p) = Inr meta"
      "UnwrapDEK (gKeys p) (qBucket g) (qKey g) meta = Inr dek" "length dek = 32" "src_end (oBody out) = Sentinel EOF"
      "oContentLength out = int (length (src_data (oBody out)))"
      "\<And>up t. stored_body up t meta dek (src_data (oBody out)) (src_data body) 1"
      "\<And>up t. fresh_read (wFresh w') (qBucket g) (qKey g) (stored_salts up t meta dek (src_data (oBody out)))"
    unfolding get(1,2) using put_stored [OF assms(1-7)] by blast
  show ?thesis by (rule get_complete_lemma [OF get(3) s(1-7) s(8) s(9) get(4)])
qed

text \<open>C4: What was put can be got. After \<open>putObject\<close> has acknowledged a body, \<open>getObject\<close> for the same bucket
  and key answers 200 with exactly that body, whatever name and key the object got, and whatever the
  provider did while it took the upload. The provider is assumed to return what it acknowledged, with
  the metadata up to the case of the names; the key provider to unwrap what it wrapped; the freshness
  index, if there is one, to be intact.\<close>

theorem put_get_roundtrip:
  assumes "key_provider (gKeys p)" and "putObject uni rnd p prov q w = (Inr rep, w')" and "good_randoms rnd"
    and "qBody q = Inr (body, int (length (src_data body)))" and "\<forall>(n, vs)\<in>set (qHeader q). list_all token_char n"
    and "stores_objects prov" and "index_ok (wFresh w)"
    and get: "qBucket g = qBucket q" "qKey g = qKey q" "header_get (qHeader g) ''Range'' = ''''" "qClient g = []"
  shows "\<exists>rep' w''. getObject p prov g w' = (Inr (Some rep'), w'') \<and> pStatus rep' = 200 \<and> received rep' \<and> pBody rep' = src_data body"
  using assms by (rule put_get)

section \<open>A provider to try it on\<close>

lemma encrypt_into_pipe_total:
  assumes "Validate params = None" and "rndSalt rnd = Inr s" "length s = SaltSize" and "length dek = 32"
    and "src_end body = Sentinel EOF" and "length (src_data body) \<le> 2 ^ 46"
  shows "\<exists>sent salt. encrypt_into_pipe rnd dek params body [] = (None, sent, salt)"
proof -
  define h where "h = \<lparr>hparams = params, hsalt = s, raw = header_layout params s\<rparr>"
  obtain ew where ew: "NewEncryptWriter (rndSalt rnd) (rndStale rnd) new_sink dek params = Inr ew"
      "newEncryptWriter (rndStale rnd) new_sink dek h = Inr ew"
    using newHeader_ok [OF assms(1), of s] assms(2-4)
    by (simp add: NewEncryptWriter_def newEncryptWriter_def newSealer_eq h_def)
  note r = newEncryptWriter_run [OF ew(2)]
  obtain w where w: "copyIn body ew = (None, w)" "writer_run (subkey dek (hsalt h)) [] (src_data body) w" "\<not> wclosed w"
    using copyIn_run [of _ _ "[]" ew body] r assms(5,6) by auto
  obtain w' where "CloseWriter w = (None, w')" using CloseWriter_run [OF w(2,3)] by auto
  then show ?thesis using ew(1) w(1) by (simp add: encrypt_into_pipe_def new_sink_def pipe_plan_def)
qed

type_synonym bucket_map = "((string \<times> string) \<times> (string \<times> string) list \<times> bytes) list"

definition stored_out :: "(string \<times> string) list \<times> bytes \<Rightarrow> GetObjectOutput" where
  "stored_out v = \<lparr>oETag = ''e'', oMetadata = fst v, oContentLength = int (length (snd v)),
     oBody = \<lparr>src_data = snd v, src_end = Sentinel EOF\<rparr>, oHeader = []\<rparr>"

definition memory_store :: "bucket_map Provider" where
  "memory_store = \<lparr>
     upGet = (\<lambda>i m. (case map_of m (giBucket i, giKey i) of
        None \<Rightarrow> Inl (APIError 404 ''NoSuchKey'' '''') | Some v \<Rightarrow> Inr (stored_out v), m)),
     upHead = (\<lambda>b k m. (case map_of m (b, k) of
        None \<Rightarrow> Inl (APIError 404 ''NoSuchKey'' '''')
      | Some v \<Rightarrow> Inr \<lparr>iContentLength = int (length (snd v)), iETag = ''e'', iMetadata = fst v, iHeader = []\<rparr>, m)),
     upPipe = (\<lambda>_ _. []),
     upPut = (\<lambda>i s m. if src_end s = Sentinel EOF \<and> piContentLength i = int (length (src_data s))
        then (Inr \<lparr>poETag = ''e'', poVersionID = ''''\<rparr>, ((piBucket i, piKey i), piMetadata i, src_data s) # m)
        else (Inl (APIError 400 ''IncompleteBody'' ''''), m)),
     upDelete = (\<lambda>b k m. (None, filter (\<lambda>(n, _). n \<noteq> (b, k)) m))\<rparr>"

lemma keeps_metadata_refl: "keeps_metadata md md"
  by (auto simp: keeps_metadata_def list_all_iff list_ex_iff)

lemma memory_stores: "stores_objects memory_store"
  unfolding stores_objects_def holds_object_def
  by (auto simp: memory_store_def stored_out_def get_input_def keeps_metadata_refl split: if_splits)

definition example_randoms :: randoms where
  "example_randoms = \<lparr>rndDEK = Inr (replicate 32 9), rndNonce = Inr (replicate 12 3), rndSalt = Inr (replicate 20 5),
     rndTagNonce = Inr (replicate 12 4), rndStale = (\<lambda>_. 0)\<rparr>"

definition example_put :: Request where
  "example_put = example_request\<lparr>qBody := Inr (bytes_source [1, 2, 3], 3)\<rparr>"

lemma example_putObject:
  "\<exists>rep w'. putObject (\<lambda>_. True) example_randoms example_proxy memory_store example_put \<lparr>wUp = [], wFresh = f\<rparr> = (Inr rep, w')"
proof -
  let ?dek = "replicate 32 (9 :: byte)" and ?kp = "keyring_provider example_keyring"
  let ?params = "\<lparr>Log2ChunkSize = 12, Multipart = False, Index = 0\<rparr> :: SegmentParams"
  have kid: "ValidateKID ''k1'' = None" by code_simp
  obtain ad where ad: "ObjectAAD ''k1'' ''b'' ''k'' = Inr ad" using kid by (auto simp: ObjectAAD_Inr)
  obtain wr where wr: "pWrap ?kp (Inr (replicate 12 3)) ''k1'' ?dek ad = Inr wr"
    by (auto simp: keyring_provider_def example_keyring_def Wrap_def lookup_def sealKey_Inr simp del: replicate.simps)
  have sz: "SealedSize 3 12 = Inr 51" by (simp add: size_eval)
  have sk: "storedKey example_proxy ''b'' ''k'' = Inr ''k''" using example_storedKey by (simp add: example_request_def)
  have bk: "bucketKeys example_proxy ''b'' = Inr \<lparr>bkTenant = DefaultTenant, bkKID = ''k1'', bkNameTenant = DefaultTenant, bkName = None\<rparr>"
    by (simp add: bucketKeys_def example_proxy_def Keyring_For_def example_keyring_def)
  obtain pp where pp: "prepare_put (\<lambda>_. True) example_randoms example_proxy example_put = Inr pp"
    using ad wr sz sk bk
    by (simp add: prepare_put_def example_put_def example_request_def example_randoms_def rejectUnsupportedUpload_def
        writeConditions_def header_get_def tagsFromHeader_def NewDEK_def example_proxy_def Let_def del: replicate.simps)
  note pi = prepare_put_Inr [OF pp]
  have i: "ppDek pp = ?dek" "ppBody pp = bytes_source [1, 2, 3]" "ppTags pp = []" "piContentLength (ppInput pp) = 51"
    using pi sz by (auto simp: example_randoms_def example_put_def example_request_def example_proxy_def tagsFromHeader_def header_get_def)
  have v: "Validate ?params = None" by (simp add: Validate_def ValidateLog2ChunkSize_def validateIdentity_def)
  obtain sent salt where e: "encrypt_into_pipe example_randoms ?dek ?params (bytes_source [1, 2, 3]) [] = (None, sent, salt)"
    using encrypt_into_pipe_total [OF v, of example_randoms "replicate 20 5" ?dek "bytes_source [1, 2, 3]"]
    by (auto simp: example_randoms_def bytes_source_def simp del: replicate.simps)
  obtain h where h: "wf_header h" "hparams h = ?params" "sent = \<lparr>src_data = seal_segment ?dek h [1, 2, 3], src_end = Sentinel EOF\<rparr>"
    using encrypt_into_pipe_ok [OF e] by (auto simp: example_randoms_def bytes_source_def simp del: replicate.simps)
  have "length (seal_segment ?dek h [1, 2, 3]) = 51"
    using SealedSize_seal_segment [OF h(1), of "[1, 2, 3]" ?dek] h(2) sz by simp
  moreover have "\<exists>w'. (case salt of Some s \<Rightarrow> recordFreshness now b k (saltsOf s) | None \<Rightarrow> aret ()) (w :: bucket_map world) = (Inr (), w')"
    for now b k w using recordFreshness_total by (auto simp: aret_def split: option.split)
  ultimately show ?thesis
    using pp i e h(3)
    by (simp add: putObject_def writeTagsBeforeObject_def aret_def acall_def example_proxy_def memory_store_def
        upload_error_def abind_Inr alift_Inr split: option.split del: replicate.simps)
qed

theorem put_get_roundtrip_witness:
  "\<exists>rep w' rep' w''. putObject (\<lambda>_. True) example_randoms example_proxy memory_store example_put \<lparr>wUp = [], wFresh = None\<rparr> =
      (Inr rep, w') \<and> getObject example_proxy memory_store example_request w' = (Inr (Some rep'), w'') \<and> pBody rep' = [1, 2, 3]"
proof -
  obtain rep w' where put: "putObject (\<lambda>_. True) example_randoms example_proxy memory_store example_put \<lparr>wUp = [], wFresh = None\<rparr> =
      (Inr rep, w')" using example_putObject by blast
  have k: "key_provider (gKeys example_proxy)" by (simp add: example_proxy_def keyring.key_provider_axioms)
  have "\<exists>rep' w''. getObject example_proxy memory_store example_request w' = (Inr (Some rep'), w'') \<and> pStatus rep' = 200 \<and>
      received rep' \<and> pBody rep' = src_data (bytes_source [1, 2, 3])"
    by (rule put_get_roundtrip [OF k put _ _ _ memory_stores])
      (simp_all add: good_randoms_def example_randoms_def example_put_def example_request_def bytes_source_def index_ok_def
        header_get_def del: replicate.simps)
  then show ?thesis using put by (auto simp: bytes_source_def)
qed

section \<open>Uploads that fail, and rollbacks\<close>

text \<open>No error of the encrypter reads as the end of a stream, as long as none of its sink does.\<close>

definition clean_sink :: "sink \<Rightarrow> bool" where
  "clean_sink d \<longleftrightarrow> list_all (\<lambda>a. case a of Some (_, e) \<Rightarrow> e \<noteq> Sentinel EOF | None \<Rightarrow> True) (snk_plan d)"

definition clean :: "EncryptWriter \<Rightarrow> bool" where
  "clean w \<longleftrightarrow> werr w \<noteq> Some (Sentinel EOF) \<and> clean_sink (wdst w)"

lemma sink_write_clean: "sink_write b d = (r, d') \<Longrightarrow> clean_sink d \<Longrightarrow> r \<noteq> Some (Sentinel EOF) \<and> clean_sink d'"
proof (cases "snk_plan d")
  case (Cons a pl)
  assume "sink_write b d = (r, d')" "clean_sink d"
  with Cons show ?thesis by (cases a) (auto simp: sink_write_def clean_sink_def)
qed (auto simp: sink_write_def clean_sink_def)

lemma fail_clean: "fail e w = (r, w') \<Longrightarrow> clean w \<Longrightarrow> e \<noteq> Sentinel EOF \<Longrightarrow> r \<noteq> Some (Sentinel EOF) \<and> clean w'"
  by (auto simp: fail_def clean_def Let_def split: if_splits)

lemma flush_clean:
  assumes "flush f w = (r, w')" and "clean w"
  shows "r \<noteq> Some (Sentinel EOF) \<and> clean w'"
proof -
  obtain r1 w1 where w1: "(if wheaderWritten w then (None, w)
      else case sink_write (raw (wheader w)) (wdst w) of
             (Some e, d) \<Rightarrow> fail e (w\<lparr>wdst := d\<rparr>)
           | (None, d) \<Rightarrow> (None, w\<lparr>wdst := d, wheaderWritten := True\<rparr>)) = (r1, w1)" by (rule prod.exhaust) (rule that)
  have c1: "r1 \<noteq> Some (Sentinel EOF) \<and> clean w1"
  proof (cases "wheaderWritten w")
    case False
    obtain r0 d where d: "sink_write (raw (wheader w)) (wdst w) = (r0, d)" by (metis surj_pair)
    note sc = sink_write_clean [OF d]
    show ?thesis
    proof (cases r0)
      case None
      have "(r1, w1) = (None, w\<lparr>wdst := d, wheaderWritten := True\<rparr>)" using w1 False d None by simp
      then show ?thesis using sc assms(2) by (simp add: clean_def)
    next
      case (Some e)
      have "fail e (w\<lparr>wdst := d\<rparr>) = (r1, w1)" using w1 False d Some by simp
      moreover have "clean (w\<lparr>wdst := d\<rparr>)" "e \<noteq> Sentinel EOF" using sc assms(2) Some by (simp_all add: clean_def)
      ultimately show ?thesis by (rule fail_clean)
    qed
  qed (use w1 assms(2) in auto)
  obtain sealed s where s: "sealer_seal (take (wn w1) (wbuf w1)) (wnext w1) f (wsealer w1) = (sealed, s)" by (metis surj_pair)
  obtain r2 d where d: "sink_write sealed (wdst w1) = (r2, d)" by (metis surj_pair)
  note sc = sink_write_clean [OF d]
  show ?thesis
  proof (cases r1)
    case None
    let ?w2 = "w1\<lparr>wsealer := s, wbuf := copy_at 0 sealed (wbuf w1), wdst := d\<rparr>"
    have c2: "clean ?w2" using c1 sc by (simp add: clean_def)
    have st: "(case r2 of Some e \<Rightarrow> fail e ?w2 | None \<Rightarrow> (None, ?w2\<lparr>wnext := wnext w1 + 1, wn := 0\<rparr>)) = (r, w')"
      using assms(1) unfolding flush_def w1 None by (cases r2) (simp_all add: s d Let_def)
    show ?thesis
    proof (cases r2)
      case None
      then show ?thesis using st c2 by (auto simp: clean_def)
    next
      case (Some e)
      then have "fail e ?w2 = (r, w')" "e \<noteq> Sentinel EOF" using st sc c1 by (auto simp: clean_def)
      then show ?thesis using c2 by (intro fail_clean)
    qed
  next
    case (Some e)
    have "flush f w = (Some e, w1)" unfolding flush_def w1 Some by simp
    then show ?thesis using assms(1) c1 Some by simp
  qed
qed

lemma write_loop_clean: "write_loop b n w = (m, r, w') \<Longrightarrow> clean w \<Longrightarrow> r \<noteq> Some (Sentinel EOF) \<and> clean w'"
proof (induction b n w arbitrary: m r w' rule: write_loop.induct)
  case (1 b n w)
  obtain r1 w1 where w1: "(if wn w = chunkSize (wheader w) then flush False w else (None, w)) = (r1, w1)" by (metis surj_pair)
  have c1: "r1 \<noteq> Some (Sentinel EOF) \<and> clean w1" using w1 flush_clean [of False w] "1.prems"(2) by (auto split: if_splits)
  let ?k = "min (chunkSize (wheader w1) - wn w1) (length b)"
  let ?w2 = "w1\<lparr>wbuf := copy_at (wn w1) (take ?k b) (wbuf w1), wn := wn w1 + ?k, wtotal := add64 (wtotal w1) (int ?k)\<rparr>"
  consider "b = []" | e where "b \<noteq> []" "r1 = Some e" | "b \<noteq> []" "r1 = None" "?k = 0"
    | "b \<noteq> []" "r1 = None" "?k \<noteq> 0" "add64 (wtotal w1) (int ?k) > MaxPlaintextSize"
    | "b \<noteq> []" "r1 = None" "?k \<noteq> 0" "\<not> add64 (wtotal w1) (int ?k) > MaxPlaintextSize" by (cases r1) blast+
  then show ?case
  proof cases
    case 1
    then show ?thesis using "1.prems" by (simp add: write_loop.simps)
  next
    case (2 e)
    then show ?thesis using "1.prems"(1) w1 c1 by (subst (asm) write_loop.simps) auto
  next
    case 3
    then show ?thesis using "1.prems"(1) w1 c1 by (subst (asm) write_loop.simps) (auto simp: Let_def)
  next
    case 4
    then have "(case fail (Errorf ''stream: segment exceeds the maximum plaintext size of %d bytes'' []) w1 of (e, w2) \<Rightarrow> (n, e, w2)) = (m, r, w')"
      using "1.prems"(1) w1 by (subst (asm) write_loop.simps) (simp only: Let_def prod.case option.case if_False if_True)
    then show ?thesis using fail_clean [of _ w1 r w'] c1 by (auto split: prod.splits)
  next
    case 5
    then have "write_loop (drop ?k b) (n + ?k) ?w2 = (m, r, w')"
      using "1.prems"(1) w1 by (subst (asm) write_loop.simps) (simp only: Let_def prod.case option.case if_False)
    moreover have "clean ?w2" using c1 by (simp add: clean_def)
    ultimately show ?thesis
      using "1.IH" [OF 5(1) w1 [unfolded 5(2), symmetric] refl refl 5(3,4)] by blast
  qed
qed

lemma writes_clean: "writes xs w = (r, w') \<Longrightarrow> clean w \<Longrightarrow> r \<noteq> Some (Sentinel EOF) \<and> clean w'"
proof (induction xs arbitrary: w)
  case (Cons x xs)
  obtain m r1 w1 where w1: "Write x w = (m, r1, w1)" by (metis prod_cases3)
  have c1: "r1 \<noteq> Some (Sentinel EOF) \<and> clean w1"
    using w1 write_loop_clean [of x 0 w m r1 w1] Cons.prems(2) by (auto simp: Write_def clean_def split: if_splits)
  show ?case
  proof (cases r1)
    case None
    then show ?thesis using Cons.prems(1) w1 Cons.IH [of w1] c1 by simp
  next
    case (Some e)
    then show ?thesis using Cons.prems(1) w1 c1 by simp
  qed
qed simp

lemma encrypt_into_pipe_error:
  assumes "src_end body \<noteq> Sentinel EOF" and "good_randoms rnd"
  shows "\<exists>e sent salt. encrypt_into_pipe rnd dek params body taken = (Some e, sent, salt) \<and> src_end sent = e \<and> e \<noteq> Sentinel EOF"
proof (cases "NewEncryptWriter (rndSalt rnd) (rndStale rnd) \<lparr>snk_out = [], snk_plan = pipe_plan taken\<rparr> dek params")
  case (Inl e)
  have "Validate params \<noteq> Some (Sentinel EOF)"
    by (auto simp: Validate_def ValidateLog2ChunkSize_def validateIdentity_def split: option.splits)
  then have "e \<noteq> Sentinel EOF"
    using Inl assms(2) by (auto simp: NewEncryptWriter_def newHeader_def newHeaderWithSalt_def newEncryptWriter_def newSealer_eq
        good_randoms_def ebind_def echeck_def Let_def split: sum.splits option.splits if_splits)
  then show ?thesis using Inl by (simp add: encrypt_into_pipe_def)
next
  case (Inr ew)
  obtain r w where w: "writes (pieces 32768 (src_data body)) ew = (r, w)" by (metis surj_pair)
  have "clean_sink \<lparr>snk_out = [], snk_plan = pipe_plan taken\<rparr>"
    by (auto simp: clean_sink_def pipe_plan_def list_all_iff split: option.splits)
  then have "clean ew"
    using Inr by (auto simp: NewEncryptWriter_def newEncryptWriter_def result_simps clean_def)
  from writes_clean [OF w this] assms(1) obtain e where "copyIn body ew = (Some e, w)" "e \<noteq> Sentinel EOF"
    using w by (cases r) (auto simp: copyIn_def)
  then show ?thesis using Inr by (simp add: encrypt_into_pipe_def)
qed

text \<open>C7: An upload fails closed. If the body of a \<open>putObject\<close> ends with an error (a failed checksum, a bad
  chunk signature, a client that went away), then the request is answered with an error and nothing is
  recorded in the freshness index; and if the provider discards a request whose body breaks off, which
  is how the encrypter ends it then, the stored objects are what they were, the tag sidecar aside.\<close>

theorem put_fails_closed:
  assumes "qBody q = Inr (body, n)" and "src_end body \<noteq> Sentinel EOF" and "good_randoms rnd"
    and "\<And>i s u. src_end s \<noteq> Sentinel EOF \<Longrightarrow> \<exists>e. upPut prov i s u = (Inl e, u)"
  shows "\<exists>e w'. putObject uni rnd p prov q w = (Inl e, w') \<and> wFresh w' = wFresh w \<and>
    (tagsFromHeader uni (qHeader q) = Inr [] \<longrightarrow> wUp w' = wUp w)"
proof (cases "prepare_put uni rnd p q")
  case (Inl e)
  then show ?thesis by (simp add: putObject_def abind_def alift_def)
next
  case (Inr pp)
  have pp: "ppBody pp = body" "tagsFromHeader uni (qHeader q) = Inr (ppTags pp)" using prepare_put_Inr [OF Inr] assms(1) by auto
  obtain r w1 where w1: "writeTagsBeforeObject prov (rndTagNonce rnd) (qBucket q) (qKey q) (piKey (ppInput pp)) (ppMeta pp)
      (ppDek pp) (ppTags pp) w = (r, w1)" by (metis surj_pair)
  have f: "wFresh w1 = wFresh w" "ppTags pp = [] \<longrightarrow> wUp w1 = wUp w \<and> r = Inr ()"
    using w1 by (auto simp: writeTagsBeforeObject_def writeTags_def abind_def acall_def ofail_def alift_def aret_def
        split: if_splits sum.splits prod.splits)
  obtain e sent salt where enc: "encrypt_into_pipe rnd (ppDek pp) \<lparr>Log2ChunkSize = gLog2C p, Multipart = False, Index = 0\<rparr>
      (ppBody pp) (upPipe prov (ppInput pp) (wUp w1)) = (Some e, sent, salt)" "src_end sent = e" "e \<noteq> Sentinel EOF"
    using encrypt_into_pipe_error [OF assms(2,3)] pp(1) by metis
  then obtain x where x: "upPut prov (ppInput pp) sent (wUp w1) = (Inl x, wUp w1)" using assms(4) by metis
  obtain y where y: "upload_error (Some e) (Inl x :: PutObjectOutput result) = Inl y"
    by (cases "errors_is ErrClosedPipe e") (simp_all add: upload_error_def Let_def)
  show ?thesis
    using Inr w1 f enc x y pp(2) by (cases r) (auto simp: putObject_def abind_def alift_def acall_def)
qed

theorem put_fails_closed_witness:
  "\<exists>e w'. putObject (\<lambda>_. True) example_randoms example_proxy memory_store
     (example_put\<lparr>qBody := Inr (\<lparr>src_data = [1, 2], src_end = Sentinel ErrChecksumMismatch\<rparr>, 3)\<rparr>) \<lparr>wUp = [], wFresh = None\<rparr> =
     (Inl e, w') \<and> wUp w' = []"
proof -
  let ?q = "example_put\<lparr>qBody := Inr (\<lparr>src_data = [1, 2], src_end = Sentinel ErrChecksumMismatch\<rparr>, 3)\<rparr>"
  have t: "tagsFromHeader (\<lambda>_. True) (qHeader ?q) = Inr []"
    by (simp add: example_put_def example_request_def tagsFromHeader_def header_get_def)
  have "\<exists>e w'. putObject (\<lambda>_. True) example_randoms example_proxy memory_store ?q \<lparr>wUp = [], wFresh = None\<rparr> = (Inl e, w') \<and>
      wFresh w' = wFresh (\<lparr>wUp = [], wFresh = None\<rparr> :: bucket_map world) \<and>
      (tagsFromHeader (\<lambda>_. True) (qHeader ?q) = Inr [] \<longrightarrow> wUp w' = wUp (\<lparr>wUp = [], wFresh = None\<rparr> :: bucket_map world))"
    by (rule put_fails_closed [of ?q "\<lparr>src_data = [1, 2], src_end = Sentinel ErrChecksumMismatch\<rparr>" 3])
      (simp_all add: good_randoms_def example_randoms_def memory_store_def del: replicate.simps)
  then show ?thesis using t by auto
qed

lemma stored_salts_tag: "stored_salts up t meta dek c = [] \<or> (\<exists>tag. TagFromSalts (stored_salts up t meta dek c) = Inr tag)"
proof -
  have "length (Parts m) \<le> 10000" if l: "LoadManifest up (tBucket t) (tStored t) (mManifestID meta) dek = Inr m" for m
    using LoadManifest_Inr(1) [OF l] by (auto simp: validate_def split: if_splits)
  then show ?thesis
    by (auto simp: stored_salts_def TagFromSalts_def manifestSalts_def saltsOf_def split: sum.splits)
qed

text \<open>C6: A rollback is refused. After \<open>putObject\<close> was acknowledged by a gateway with an intact freshness
  index, and as long as nothing else is recorded, any answer \<open>getObject\<close> gives for that bucket and key to a
  request without a range, from whatever provider in whatever state, is for an object with the freshness tag
  of that write. The object is the one the provider returned for the stored name: \<open>meta\<close> is its parsed metadata
  and \<open>dek\<close> its data key, unwrapped for this bucket and key. If it is of one segment, the salt in the header of
  the returned body has the tag of the salt drawn by the write, and a response received in full is the
  plaintext of that body; if it is multipart, its manifest has part salts with that tag, or is of the old
  format, which has none and is the one exception.\<close>

theorem rollback_refused:
  assumes "putObject uni rnd p prov q w = (Inr rep, w')" and "good_randoms rnd"
    and "qBody q = Inr (body, int (length (src_data body)))" and "wFresh w = Some l" and "lgood l"
    and "getObject p' prov' g v = (Inr r, v')" and "wFresh v = wFresh w'"
    and "qBucket g = qBucket q" and "qKey g = qKey q" and "header_get (qHeader g) ''Range'' = ''''"
  shows "\<exists>salt sk out u meta dek rep'. rndSalt rnd = Inr salt \<and> storedKey p' (qBucket q) (qKey q) = Inr sk \<and>
    upGet prov' (get_input (qBucket q) sk) (wUp v) = (Inr out, u) \<and> Parse (oMetadata out) (gLog2C p') = Inr meta \<and>
    UnwrapDEK (gKeys p') (qBucket q) (qKey q) meta = Inr dek \<and> r = Some rep' \<and>
    (if mMultipart meta
     then \<exists>m. LoadManifest (upstream_now prov' u) (qBucket q) sk (mManifestID meta) dek = Inr m \<and>
            (HasSalts m \<longrightarrow> TagFromSalts (map Salt (Parts m)) = TagFromSalts (saltsOf salt))
     else TagFromSalts (saltsOf (fst (SaltFromHeader (take HeaderSize (src_data (oBody out)))))) = TagFromSalts (saltsOf salt)) \<and>
    (received rep' \<and> int (length (src_data (oBody out))) \<le> oContentLength out \<longrightarrow>
      (\<exists>n. stored_body (upstream_now prov' u) (target g sk) meta dek (src_data (oBody out)) (pBody rep') n))"
proof -
  obtain w1 u2 and h :: header where h: "rndSalt rnd = Inr (hsalt h)" and w1: "wFresh w1 = wFresh w"
      and rf: "recordFreshness (qNow q) (qBucket q) (qKey q) (saltsOf (hsalt h)) (w1\<lparr>wUp := u2\<rparr>) = (Inr (), w')"
    using putObject_Inr [OF assms(1-3)] by blast
  obtain tag where tag: "TagFromSalts (saltsOf (hsalt h)) = Inr tag" by (auto simp: TagFromSalts_def saltsOf_def)
  obtain l' where l': "wFresh w' = Some l'" "lgood l'" "lview l' (lname l' (qBucket q, qKey q)) = Some (Present tag)"
    using recordFreshness_Present [OF _ assms(5) tag, of "w1\<lparr>wUp := u2\<rparr>" "qNow q" "qBucket q" "qKey q"] rf w1 assms(4)
    by (auto simp: saltsOf_def)
  obtain sk out u meta dek rep' where g: "storedKey p' (qBucket q) (qKey q) = Inr sk"
      "upGet prov' (get_input (qBucket q) sk) (wUp v) = (Inr out, u)" "Parse (oMetadata out) (gLog2C p') = Inr meta"
      "UnwrapDEK (gKeys p') (qBucket q) (qKey q) meta = Inr dek" "r = Some rep'"
      and m: "mMultipart meta \<longrightarrow> (\<exists>m. LoadManifest (upstream_now prov' u) (qBucket q) sk (mManifestID meta) dek = Inr m)"
      and f: "fresh_read (wFresh v) (qBucket q) (qKey q) (stored_salts (upstream_now prov' u) (target g sk) meta dek (src_data (oBody out)))"
      and b: "received rep' \<and> int (length (src_data (oBody out))) \<le> oContentLength out \<longrightarrow>
        (\<exists>n. stored_body (upstream_now prov' u) (target g sk) meta dek (src_data (oBody out)) (pBody rep') n)"
    using get_authentic_lemma [OF assms(6,10)] unfolding assms(8,9) by blast
  let ?salts = "stored_salts (upstream_now prov' u) (target g sk) meta dek (src_data (oBody out))"
  have "\<not> lclosed l'" using l'(2) by (simp add: lgood_def healthy_def)
  then have t: "?salts = [] \<or> TagFromSalts ?salts = TagFromSalts (saltsOf (hsalt h))"
    using f l'(1,3) assms(7) tag stored_salts_tag [of "upstream_now prov' u" "target g sk" meta dek "src_data (oBody out)"]
    by (auto simp: fresh_read_def split: sum.splits)
  have "if mMultipart meta
     then \<exists>m. LoadManifest (upstream_now prov' u) (qBucket q) sk (mManifestID meta) dek = Inr m \<and>
            (HasSalts m \<longrightarrow> TagFromSalts (map Salt (Parts m)) = TagFromSalts (saltsOf (hsalt h)))
     else TagFromSalts (saltsOf (fst (SaltFromHeader (take HeaderSize (src_data (oBody out)))))) = TagFromSalts (saltsOf (hsalt h))"
  proof (cases "mMultipart meta")
    case True
    with m obtain n where n: "LoadManifest (upstream_now prov' u) (qBucket q) sk (mManifestID meta) dek = Inr n" by blast
    then have "Parts n \<noteq> []" using LoadManifest_Inr(1) [OF n] by (auto simp: validate_def split: if_splits)
    then show ?thesis using True t n assms(8) by (auto simp: stored_salts_def target_def manifestSalts_def)
  next
    case False
    then show ?thesis using t by (simp add: stored_salts_def saltsOf_def)
  qed
  then show ?thesis using h g b by blast
qed

theorem rollback_refused_witness:
  "\<exists>rep w' r v' sk out u meta dek. putObject (\<lambda>_. True) example_randoms example_proxy memory_store example_put
       \<lparr>wUp = [], wFresh = Some new_index\<rparr> = (Inr rep, w') \<and>
     getObject example_proxy memory_store example_request w' = (Inr (Some r), v') \<and> pStatus r = 200 \<and>
     storedKey example_proxy ''b'' ''k'' = Inr sk \<and>
     upGet memory_store (get_input ''b'' sk) (wUp w') = (Inr out, u) \<and> Parse (oMetadata out) 12 = Inr meta \<and>
     UnwrapDEK (gKeys example_proxy) ''b'' ''k'' meta = Inr dek \<and> \<not> mMultipart meta \<and>
     TagFromSalts (saltsOf (fst (SaltFromHeader (take HeaderSize (src_data (oBody out)))))) = TagFromSalts (saltsOf (replicate 20 5))"
proof -
  let ?w = "\<lparr>wUp = [], wFresh = Some new_index\<rparr> :: bucket_map world"
  obtain rep w' where put: "putObject (\<lambda>_. True) example_randoms example_proxy memory_store example_put ?w = (Inr rep, w')"
    using example_putObject by blast
  have k: "key_provider (gKeys example_proxy)" by (simp add: example_proxy_def keyring.key_provider_axioms)
  have g: "good_randoms example_randoms" by (simp add: good_randoms_def example_randoms_def del: replicate.simps)
  have q: "qBody example_put = Inr (bytes_source [1, 2, 3], int (length (src_data (bytes_source [1, 2, 3]))))"
    "qBucket example_request = qBucket example_put" "qKey example_request = qKey example_put"
    "qBucket example_put = ''b''" "qKey example_put = ''k''"
    "header_get (qHeader example_request) ''Range'' = ''''" "qClient example_request = []"
    by (simp_all add: example_put_def example_request_def bytes_source_def header_get_def)
  have c: "\<forall>(n, vs)\<in>set (qHeader example_put). list_all token_char n" "index_ok (wFresh ?w)"
    by (simp_all add: index_ok_def lgood_new_index example_put_def example_request_def)
  obtain r v' where r: "getObject example_proxy memory_store example_request w' = (Inr (Some r), v')" "pStatus r = 200"
    using put_get [OF k put g q(1) c(1) memory_stores c(2) q(2,3,6,7)] by blast
  have single: "\<not> mMultipart meta" if st: "storedKey example_proxy ''b'' ''k'' = Inr sk"
      "upGet memory_store (get_input ''b'' sk) (wUp w') = (Inr out, u)" "Parse (oMetadata out) (gLog2C example_proxy) = Inr meta"
    for sk out u meta
  proof -
    obtain out' u' meta' dek' where "storedKey example_proxy ''b'' ''k'' = Inr sk"
        "upGet memory_store (get_input ''b'' sk) (wUp w') = (Inr out', u')"
        "Parse (oMetadata out') (gLog2C example_proxy) = Inr meta'"
        "\<forall>up t. stored_body up t meta' dek' (src_data (oBody out')) (src_data (bytes_source [1, 2, 3])) 1"
      using put_stored [OF k put g q(1) c(1) memory_stores c(2)] st(1) unfolding q(4,5) by force
    then have "meta' = meta" "stored_body \<lparr>GetObject = \<lambda>_ _. Inl (Sentinel EOF), NotFound = \<lambda>_. False\<rparr> t meta' dek'
        (src_data (oBody out')) (src_data (bytes_source [1, 2, 3])) 1" for t
      using st(2,3) by auto
    then show ?thesis by (auto simp: stored_body_def LoadManifest_def)
  qed
  have "wFresh ?w = Some new_index" by simp
  note rr = rollback_refused [OF put g q(1) this lgood_new_index r(1) refl q(2,3,6), unfolded q(4,5)]
  obtain salt sk out u meta dek where t: "rndSalt example_randoms = Inr salt" "storedKey example_proxy ''b'' ''k'' = Inr sk"
      "upGet memory_store (get_input ''b'' sk) (wUp w') = (Inr out, u)" "Parse (oMetadata out) (gLog2C example_proxy) = Inr meta"
      "UnwrapDEK (gKeys example_proxy) ''b'' ''k'' meta = Inr dek"
      "\<not> mMultipart meta \<longrightarrow> TagFromSalts (saltsOf (fst (SaltFromHeader (take HeaderSize (src_data (oBody out)))))) = TagFromSalts (saltsOf salt)"
    using rr by (auto split: if_splits)
  have "salt = replicate 20 5" using t(1) by (auto simp: example_randoms_def simp del: replicate.simps)
  then show ?thesis using put r t single [OF t(2-4)] by (auto simp: example_proxy_def simp del: replicate.simps)
qed

section \<open>Headers of a response\<close>

lemma set_header_put: "(n, vs) \<in> set (header_put m ws h) \<longleftrightarrow> (n = m \<and> vs = ws) \<or> (n \<noteq> m \<and> (n, vs) \<in> set h)"
  by (auto simp: header_put_def)

definition own_header :: "string \<Rightarrow> bool" where
  "own_header name \<longleftrightarrow> starts_with (''x-amz-meta-'' @ metaPrefix) (ToLower name)"

lemma lower_idem: "lower (lower c) = lower c"
proof -
  have "of_char (lower c) = (if 65 \<le> (of_char c :: nat) \<and> (of_char c :: nat) \<le> 90 then of_char c + 32 else of_char c :: nat)"
    by (simp add: lower_def of_char_of)
  then show ?thesis by (auto simp: lower_def)
qed

lemma fold_copy_headers:
  assumes "(n, vs) \<in> set (fold copy_header src dst)" and "own_header n" and "\<forall>(m, ws)\<in>set src. ascii m"
  shows "(n, vs) \<in> set dst"
  using assms
proof (induction src arbitrary: dst)
  case (Cons x src)
  obtain m ws where x: "x = (m, ws)" by (cases x)
  have "(n, vs) \<in> set (copy_header x dst)" using Cons.IH [of "copy_header x dst"] Cons.prems by simp
  moreover have "\<not> own_header m \<Longrightarrow> \<not> own_header (ToLower m)"
  proof -
    have a: "ascii m" "ascii (map lower m)"
      using Cons.prems(3) x by (auto simp: ascii_def list_all_iff lower_def of_char_of)
    show "\<not> own_header m \<Longrightarrow> \<not> own_header (ToLower m)"
      by (simp add: own_header_def ToLower_ascii a lower_idem comp_def)
  qed
  ultimately show ?case
    using Cons.prems(2) unfolding x copy_header_def Let_def
    by (auto simp: set_header_put own_header_def split: if_splits)
qed simp

lemma set_header_del: "set (header_del n h) \<subseteq> set h"
  by (auto simp: header_del_def)

lemma fold_header_del: "set (fold header_del ns h) \<subseteq> set h"
  by (induction ns arbitrary: h) (use set_header_del in fastforce)+

lemma fold_header_del_gone: "n \<in> set ns \<Longrightarrow> CanonicalHeaderKey n \<notin> fst ` set (fold header_del ns h)"
proof (induction ns arbitrary: h)
  case (Cons m ns)
  show ?case
  proof (cases "n \<in> set ns")
    case True
    then show ?thesis using Cons.IH by simp
  next
    case False
    then have "n = m" using Cons.prems by simp
    then have "CanonicalHeaderKey n \<notin> fst ` set (header_del m h)" by (auto simp: header_del_def)
    then show ?thesis using fold_header_del [of ns "header_del m h"] by auto
  qed
qed simp

lemma override_headers:
  assumes "(n, vs) \<in> set (fold (\<lambda>(name, v). header_set name v) os h)" and "\<forall>(name, v)\<in>set os. CanonicalHeaderKey name \<noteq> n"
  shows "(n, vs) \<in> set h"
  using assms
proof (induction os arbitrary: h)
  case (Cons x os)
  obtain name v where x: "x = (name, v)" by (cases x)
  have "(n, vs) \<in> set (header_set name v h)" using Cons.IH [of "header_set name v h"] Cons.prems x by auto
  then show ?case using Cons.prems x by (auto simp: header_set_def set_header_put)
qed simp

lemma override_names: "\<forall>(name, v)\<in>set (ResponseOverrides query). name \<in> set (map snd responseOverrides)"
  by (force simp: ResponseOverrides_def map_filter_def split: option.splits list.splits)

lemma override_constants:
  "\<forall>name\<in>set (map snd responseOverrides). CanonicalHeaderKey name = name \<and> \<not> own_header name \<and> name \<notin> set responseHeadersToStrip"
  "\<forall>n\<in>set responseHeadersToStrip. CanonicalHeaderKey n = n \<and> \<not> own_header n"
  by code_simp+

text \<open>C12: The gateway's own metadata is out of the client's reach. Whatever metadata headers a client sends with
  an upload, either it is refused or the object is later read with exactly the metadata the gateway
  wrote; and a response for an object carries no metadata header of the gateway and none of the
  provider's checksums and lengths, which describe the ciphertext, whatever headers the provider sent.\<close>

theorem metadata_isolated:
  assumes "clientMetadata h = Inr client" and "\<forall>(n, vs)\<in>set h. list_all token_char n"
    and "keeps_metadata got (mergeMetadata client meta)" and "valid_meta meta" and "mHasChunkSize meta"
    and "\<forall>(n, vs)\<in>set src. ascii n"
  shows "Parse got fallback = Inr meta \<and>
    (\<forall>n vs. (n, vs) \<in> set (copyObjectHeaders dst query src) \<and> own_header n \<longrightarrow> (n, vs) \<in> set dst) \<and>
    (\<forall>n\<in>set responseHeadersToStrip. n \<notin> fst ` set (copyObjectHeaders dst query src))"
proof (intro conjI allI impI ballI notI)
  show "Parse got fallback = Inr meta" by (rule Parse_carried [OF assms(4,5) carries_merged [OF assms(1-3)]])
next
  fix n vs assume n: "(n, vs) \<in> set (copyObjectHeaders dst query src) \<and> own_header n"
  have "\<forall>(name, v)\<in>set (ResponseOverrides query). CanonicalHeaderKey name \<noteq> n"
    using n override_constants(1) override_names [of query] by fastforce
  then have "(n, vs) \<in> set (copyResponseHeaders dst src)"
    using n override_headers unfolding copyObjectHeaders_def by blast
  then show "(n, vs) \<in> set dst"
    using fold_header_del fold_copy_headers n assms(6) unfolding copyResponseHeaders_def by blast
next
  fix n assume n: "n \<in> set responseHeadersToStrip" "n \<in> fst ` set (copyObjectHeaders dst query src)"
  then obtain vs where vs: "(n, vs) \<in> set (copyObjectHeaders dst query src)" by auto
  have "\<forall>(name, v)\<in>set (ResponseOverrides query). CanonicalHeaderKey name \<noteq> n"
    using n(1) override_constants(1) override_names [of query] by fastforce
  then have "(n, vs) \<in> set (copyResponseHeaders dst src)"
    using vs override_headers unfolding copyObjectHeaders_def by blast
  moreover have "CanonicalHeaderKey n = n" using n(1) override_constants(2) by blast
  ultimately show False
    using fold_header_del_gone [OF n(1), of "fold copy_header src dst"] unfolding copyResponseHeaders_def by force
qed

theorem metadata_isolated_witness:
  "\<exists>meta. valid_meta meta \<and> Parse (mergeMetadata [(''Owner'', ''me'')] meta) 12 = Inr meta \<and>
     ''Content-Length'' \<notin> fst ` set (copyObjectHeaders [] [] [(''Content-Length'', [''51'']), (''x-amz-meta-bb-dek'', [''x''])])"
proof -
  let ?meta = "\<lparr>mVersion = 1, mKeyID = ''k1'', mWrappedDEK = replicate 60 7, mLog2ChunkSize = 16, mHasChunkSize = True,
     mManifestID = replicate 16 0, mMultipart = False\<rparr>" and ?src = "[(''Content-Length'', [''51'']), (''x-amz-meta-bb-dek'', [''x''])]"
  have "ValidateKID ''k1'' = None" by code_simp
  then have v: "valid_meta ?meta" by (simp add: valid_meta_def ValidateLog2ChunkSize_def del: replicate.simps)
  have c: "clientMetadata [(''x-amz-meta-Owner'', [''me''])] = Inr [(''Owner'', ''me'')]" by code_simp
  have t: "\<forall>(n, vs)\<in>set [(''x-amz-meta-Owner'', [''me''])]. list_all token_char n" by code_simp
  have s: "\<forall>(n, vs)\<in>set ?src. ascii n" by code_simp
  have cl: "''Content-Length'' \<in> set responseHeadersToStrip" by code_simp
  from metadata_isolated [OF c t keeps_metadata_refl v _ s, of 12 "[]" "[]"] v cl show ?thesis
    by (intro exI [of _ ?meta]) simp
qed

end
