(* ===== verification/UploadToken.thy ===== *)
theory UploadToken
  imports SegmentFormat Keys ManifestFormat GoStrings
begin

text \<open>
  \<open>internal/upload\<close>: the sealed token that stands in for an upstream \<open>UploadId\<close> (\<open>token.go\<close>) and the
  part ETag that carries a segment's salt through the client (\<open>parttag.go\<close>). Both are written over the
  provider record of \<open>Keys\<close>; the lemmas are proved in the context of \<open>key_provider\<close> and the properties
  are stated for every keyring. What \<open>crypto/rand\<close> answers is the first argument of the two functions
  that seal.
\<close>

section \<open>The upload token\<close>

definition TokenVersion :: byte where [simp]: "TokenVersion = 1"
definition token_nonceSize :: nat where [simp]: "token_nonceSize = 12"
definition token_tagSize :: nat where [simp]: "token_tagSize = 16"
definition token_aadPrefix :: string where "token_aadPrefix = ''blindbucket/v1/upload-token''"
definition maxUploadIDLen :: nat where [simp]: "maxUploadIDLen = 1024"
definition maxTokenLen :: nat where [simp]: "maxTokenLen = 4096"

record Token =
  tKID :: string
  tUploadID :: string
  tWrappedDEK :: bytes
  tManifestID :: bytes

text \<open>The AEAD is its key: \<open>aes.NewCipher\<close> followed by \<open>cipher.NewGCM\<close>.\<close>

definition tokenAEAD :: "KeyProvider \<Rightarrow> string \<Rightarrow> bytes result" where
  "tokenAEAD P kid = ebind (pTokenKey P kid) aes_NewCipher"

definition tokenAAD :: "string \<Rightarrow> string \<Rightarrow> bytes result" where
  "tokenAAD bucket key =
     (if length bucket > 0xffff \<or> length key > 0xffff
      then Inl (Errorf ''upload: bucket or key exceeds the length prefix'' [])
      else Inr (bytes_of token_aadPrefix @ be_bytes 2 (length bucket) @ bytes_of bucket @
                be_bytes 2 (length key) @ bytes_of key))"

definition Seal :: "bytes result \<Rightarrow> KeyProvider \<Rightarrow> Token \<Rightarrow> string \<Rightarrow> string \<Rightarrow> string result" where
  "Seal rnd P t bucket key =
     echeck (ValidateKID (tKID t))
       (let l = length (tUploadID t) in
        if l = 0 \<or> l > maxUploadIDLen
        then Inl (Errorf ''upload: upstream upload id is %d bytes, outside 1..%d'' [])
        else if length (tWrappedDEK t) \<noteq> WrappedDEKSize
        then Inl (Errorf ''upload: wrapped key is %d bytes, want %d'' [])
        else
          ebind (tokenAEAD P (tKID t)) (\<lambda>k.
          ebind (tokenAAD bucket key) (\<lambda>ad.
            let body = be_bytes 2 (length (tUploadID t)) @ bytes_of (tUploadID t) @ tWrappedDEK t @
                       tManifestID t;
                out = [TokenVersion] @ be_bytes 2 (length (tKID t)) @ bytes_of (tKID t)
            in ebind rnd (\<lambda>nonce.
                 Inr (b64url_EncodeToString (out @ nonce @ gcm_Seal k nonce body ad))))))"

text \<open>The body of a token that has authenticated.\<close>

definition parse_body :: "string \<Rightarrow> bytes \<Rightarrow> Token result" where
  "parse_body kid body =
     (if length body < 2 then Inl (Errorf ''%w: truncated body'' [Sentinel ErrToken])
      else let idLen = be_nat (take 2 body) in
        if idLen = 0 \<or> idLen > maxUploadIDLen \<or> length body \<noteq> 2 + idLen + WrappedDEKSize + IDSize
        then Inl (Errorf ''%w: malformed body'' [Sentinel ErrToken])
        else Inr \<lparr>tKID = kid, tUploadID = string_of (slice 2 (2 + idLen) body),
                  tWrappedDEK = slice (2 + idLen) (2 + idLen + WrappedDEKSize) body,
                  tManifestID = drop (2 + idLen + WrappedDEKSize) body\<rparr>)"

definition Open :: "KeyProvider \<Rightarrow> string \<Rightarrow> string \<Rightarrow> string \<Rightarrow> Token result" where
  "Open P token bucket key =
     (if token = '''' \<or> length token > maxTokenLen
      then Inl (Errorf ''%w: length %d'' [Sentinel ErrToken])
      else case b64url_DecodeString_strict token of
        Inl _ \<Rightarrow> Inl (Errorf ''%w: not valid base64url'' [Sentinel ErrToken])
      | Inr dec \<Rightarrow>
          if length dec < 3 \<or> dec ! 0 \<noteq> TokenVersion
          then Inl (Errorf ''%w: unrecognised token version'' [Sentinel ErrToken])
          else let kidLen = be_nat (slice 1 3 dec) in
            if length dec < 3 + kidLen + token_nonceSize + token_tagSize
            then Inl (Errorf ''%w: truncated'' [Sentinel ErrToken])
            else let kid = string_of (slice 3 (3 + kidLen) dec) in
              if ValidateKID kid \<noteq> None
              then Inl (Errorf ''%w: unusable key id'' [Sentinel ErrToken])
              else case tokenAEAD P kid of
                Inl e \<Rightarrow> if errors_is ErrUnknownKID e
                         then Inl (Errorf ''%w: unknown key id'' [Sentinel ErrToken]) else Inl e
              | Inr k \<Rightarrow>
                  ebind (tokenAAD bucket key) (\<lambda>ad.
                    let nonce = slice (3 + kidLen) (3 + kidLen + token_nonceSize) dec in
                    case gcm_Open k nonce (drop (3 + kidLen + token_nonceSize) dec) ad of
                      None \<Rightarrow> Inl (Errorf ''%w: authentication failed'' [Sentinel ErrToken])
                    | Some body \<Rightarrow> parse_body kid body))"

section \<open>The part tag\<close>

definition tagSeparator :: char where [simp]: "tagSeparator = CHR ''.''"
definition partTagInfo :: string where "partTagInfo = ''blindbucket/v1/part-tag''"

definition quote :: "string \<Rightarrow> string" where "quote s = CHR 0x22 # s @ [CHR 0x22]"

definition unquote :: "string \<Rightarrow> string" where "unquote s = trim (CHR 0x22) s"

text \<open>\<open>uint32(partNumber)\<close> keeps the low 32 bits.\<close>

definition partTagAAD :: "int \<Rightarrow> bytes" where
  "partTagAAD partNumber = be_bytes 4 (nat (partNumber mod 2 ^ 32))"

definition partTagAEAD :: "KeyProvider \<Rightarrow> string \<Rightarrow> bytes result" where
  "partTagAEAD P kid =
     ebind (pTokenKey P kid) (\<lambda>tk.
     ebind (hkdf_Key tk [] partTagInfo keys_KeySize) aes_NewCipher)"

definition SealPartTag ::
  "bytes result \<Rightarrow> KeyProvider \<Rightarrow> string \<Rightarrow> string \<Rightarrow> int \<Rightarrow> bytes \<Rightarrow> string result" where
  "SealPartTag rnd P kid providerETag partNumber salt =
     ebind (partTagAEAD P kid) (\<lambda>k.
     ebind rnd (\<lambda>nonce.
       Inr (quote (unquote providerETag @ [tagSeparator] @
              b64url_EncodeToString (nonce @ gcm_Seal k nonce salt (partTagAAD partNumber))))))"

definition OpenPartTag :: "KeyProvider \<Rightarrow> string \<Rightarrow> string \<Rightarrow> int \<Rightarrow> (string \<times> bytes) result" where
  "OpenPartTag P kid clientETag partNumber =
     (case cut tagSeparator (unquote clientETag) of
        None \<Rightarrow> Inl (Errorf ''%w: part %d carries no salt'' [Sentinel ErrPartTag])
      | Some (head, suffix) \<Rightarrow>
          (case b64url_DecodeString suffix of
             Inl _ \<Rightarrow> Inl (Errorf ''%w: part %d has an unreadable tag'' [Sentinel ErrPartTag])
           | Inr sealed \<Rightarrow>
               ebind (partTagAEAD P kid) (\<lambda>k.
                 if length sealed < gcm_NonceSize
                 then Inl (Errorf ''%w: part %d has a truncated tag'' [Sentinel ErrPartTag])
                 else case gcm_Open k (take gcm_NonceSize sealed) (drop gcm_NonceSize sealed)
                             (partTagAAD partNumber) of
                        None \<Rightarrow> Inl (Errorf ''%w: part %d'' [Sentinel ErrPartTag])
                      | Some plain \<Rightarrow>
                          if length plain \<noteq> SaltSize then Inl (Errorf ''%w: part %d'' [Sentinel ErrPartTag])
                          else Inr (quote head, plain))))"

section \<open>Facts about the operations\<close>

definition token_body :: "Token \<Rightarrow> bytes" where
  "token_body t =
     be_bytes 2 (length (tUploadID t)) @ bytes_of (tUploadID t) @ tWrappedDEK t @ tManifestID t"

definition token_ok :: "Token \<Rightarrow> bool" where
  "token_ok t \<longleftrightarrow>
     ValidateKID (tKID t) = None \<and> 0 < length (tUploadID t) \<and> length (tUploadID t) \<le> 1024 \<and>
     length (tWrappedDEK t) = 60"

definition token_wire :: "bytes \<Rightarrow> bytes \<Rightarrow> bytes \<Rightarrow> Token \<Rightarrow> bytes" where
  "token_wire k nonce ad t =
     [1] @ be_bytes 2 (length (tKID t)) @ bytes_of (tKID t) @ nonce @ gcm_Seal k nonce (token_body t) ad"

lemma tokenAAD_Inr:
  "tokenAAD b k = Inr ad \<longleftrightarrow>
     length b \<le> 65535 \<and> length k \<le> 65535 \<and> ad = bytes_of token_aadPrefix @ lp b @ lp k"
  by (auto simp: tokenAAD_def lp_def)

lemma tokenAAD_inj: "tokenAAD b k = Inr ad \<Longrightarrow> tokenAAD b' k' = Inr ad \<Longrightarrow> b = b' \<and> k = k'"
proof -
  assume a: "tokenAAD b k = Inr ad" "tokenAAD b' k' = Inr ad"
  then have e: "lp b @ lp k = lp b' @ lp k'" by (simp add: tokenAAD_Inr)
  with a have "b = b'" and "lp k @ [] = lp k' @ []"
    using lp_inj [OF e] by (auto simp: tokenAAD_Inr)
  with a show ?thesis using lp_inj [of k "[]" k' "[]"] by (auto simp: tokenAAD_Inr)
qed

lemma parse_body_Inr:
  "parse_body kid body = Inr t \<longleftrightarrow>
     tKID t = kid \<and> 0 < length (tUploadID t) \<and> length (tUploadID t) \<le> 1024 \<and>
     length (tWrappedDEK t) = 60 \<and> length (tManifestID t) = 16 \<and> body = token_body t"
  (is "?l \<longleftrightarrow> ?r")
proof
  assume r: ?r
  then have h: "be_nat (take 2 body) = length (tUploadID t)" "length body = length (tUploadID t) + 78"
    by (simp_all add: token_body_def)
  with r show ?l unfolding parse_body_def Let_def h slice_def by (simp add: token_body_def)
next
  assume l: ?l
  define n where "n = be_nat (take 2 body)"
  have c: "\<not> length body < 2" "\<not> (n = 0 \<or> n > 1024 \<or> length body \<noteq> 2 + n + 60 + 16)"
    using l unfolding parse_body_def Let_def n_def [symmetric] by (auto split: if_split_asm)
  then have len: "length body = n + 78" and n: "0 < n" "n \<le> 1024"
    by simp_all
  have t: "t = \<lparr>tKID = kid, tUploadID = string_of (take n (drop 2 body)),
      tWrappedDEK = take 60 (drop (2 + n) body), tManifestID = drop (62 + n) body\<rparr>"
    using l c unfolding parse_body_def Let_def n_def [symmetric] slice_def by (simp add: add.commute)
  have "be_bytes 2 n = take 2 body"
    unfolding n_def using len by (simp add: be_bytes_be_nat)
  moreover have "take 2 body @ take n (drop 2 body) @ take 60 (drop (2 + n) body) @ drop (62 + n) body = body"
  proof -
    have "take 60 (drop (2 + n) body) @ drop (62 + n) body = drop (2 + n) body"
      using append_take_drop_id [of 60 "drop (2 + n) body"] by (simp add: add.commute add.left_commute)
    moreover have "take n (drop 2 body) @ drop (2 + n) body = drop 2 body"
      using append_take_drop_id [of n "drop 2 body"] by (simp add: add.commute)
    ultimately show ?thesis by simp
  qed
  ultimately show ?r using len n by (simp add: t token_body_def min_def)
qed

lemma token_wire_length:
  "length nonce = 12 \<Longrightarrow>
   length (token_wire k nonce ad t) =
     33 + length (tKID t) + length (tUploadID t) + length (tWrappedDEK t) + length (tManifestID t)"
  by (simp add: token_wire_def token_body_def)

lemma kid_length: "ValidateKID kid = None \<Longrightarrow> 0 < length kid \<and> length kid \<le> 64"
  by (auto simp: ValidateKID_def split: if_splits)

lemma token_wire_fields:
  fixes tk ad :: bytes
  assumes "token_ok t" and "length nonce = 12" and "length (tManifestID t) = 16"
  defines "w \<equiv> token_wire tk nonce ad t" and "n \<equiv> length (tKID t)"
  shows "length w = 33 + n + length (tUploadID t) + 76" and "w ! 0 = 1" and "be_nat (slice 1 3 w) = n"
    and "slice 3 (3 + n) w = bytes_of (tKID t)" and "slice (3 + n) (3 + n + 12) w = nonce"
    and "drop (3 + n + 12) w = gcm_Seal tk nonce (token_body t) ad"
proof -
  have n: "n \<le> 64" using assms(1) kid_length [of "tKID t"] by (auto simp: token_ok_def n_def)
  have d: "drop n (drop 3 w) = nonce @ gcm_Seal tk nonce (token_body t) ad"
    by (simp add: token_wire_def w_def n_def del: drop_drop)
  show "length w = 33 + n + length (tUploadID t) + 76"
    using assms token_wire_length [OF assms(2), of tk ad t] by (simp add: token_ok_def)
  show "w ! 0 = 1" "be_nat (slice 1 3 w) = n" "slice 3 (3 + n) w = bytes_of (tKID t)"
    using n by (simp_all add: token_wire_def slice_def w_def n_def)
  show "slice (3 + n) (3 + n + 12) w = nonce"
    "drop (3 + n + 12) w = gcm_Seal tk nonce (token_body t) ad"
    using assms(2) d [unfolded drop_drop] arg_cong [OF d, of "drop 12", unfolded drop_drop]
    by (simp_all add: slice_def add.commute add.left_commute)
qed

lemma b64url_last_ok: "x \<noteq> [] \<Longrightarrow> List.last (b64url_EncodeToString x) \<noteq> CHR 0x22"
proof -
  assume "x \<noteq> []"
  then have "0 < (8 * length x + 5) div 6" by (cases x) auto
  then have "b64url_EncodeToString x \<noteq> []" using length_b64url [of x] by auto
  then have "List.last (b64url_EncodeToString x) \<in> set base64url_alphabet"
    using set_b64url [of x] last_in_set by blast
  then show ?thesis using alphabet_no_newline(1) [of "CHR 0x22"] by auto
qed

lemma unquote_tag:
  "x \<noteq> [] \<Longrightarrow> unquote (quote (unquote e @ CHR ''.'' # b64url_EncodeToString x)) =
     unquote e @ CHR ''.'' # b64url_EncodeToString x"
proof -
  assume x: "x \<noteq> []"
  then have "b64url_EncodeToString x \<noteq> []" using length_b64url [of x] by (cases x) auto
  moreover have "hd (unquote e @ CHR ''.'' # b64url_EncodeToString x) \<noteq> CHR 0x22"
    using hd_trim [of "CHR 0x22" e] by (cases "unquote e") (auto simp: unquote_def)
  ultimately show ?thesis
    using b64url_last_ok [OF x] unfolding quote_def unquote_def by (intro trim_wrapped) auto
qed

lemma partTagAAD_inj:
  "0 \<le> m \<Longrightarrow> m < 2 ^ 32 \<Longrightarrow> 0 \<le> n \<Longrightarrow> n < 2 ^ 32 \<Longrightarrow> partTagAAD m = partTagAAD n \<Longrightarrow> m = n"
  unfolding partTagAAD_def by (drule be_bytes_inj) auto

context key_provider
begin

lemma tokenAEAD_Inr: "tokenAEAD P kid = Inr k \<longleftrightarrow> pTokenKey P kid = Inr k"
  using token_key_length [of kid] by (auto simp: tokenAEAD_def result_simps)

lemma tokenAEAD_Inl: "tokenAEAD P kid = Inl e \<longleftrightarrow> pTokenKey P kid = Inl e"
  using token_key_length [of kid] by (cases "pTokenKey P kid") (auto simp: tokenAEAD_def)

lemma Seal_Inr:
  "Seal (Inr nonce) P t b k = Inr s \<longleftrightarrow>
     token_ok t \<and> (\<exists>tk ad. pTokenKey P (tKID t) = Inr tk \<and> tokenAAD b k = Inr ad \<and>
       s = b64url_EncodeToString (token_wire tk nonce ad t))"
  by (auto simp: Seal_def token_ok_def token_wire_def token_body_def tokenAEAD_Inr result_simps Let_def)

text \<open>A token opens exactly if it is, line breaks aside, what \<open>Seal\<close> makes of its contents.\<close>

lemma Open_wire:
  assumes t: "token_ok t" "length (tManifestID t) = 16" "length nonce = 12"
    and tk: "pTokenKey P (tKID t) = Inr tk" and ad: "tokenAAD b k = Inr ad"
    and s: "strip_newlines s = b64url_EncodeToString (token_wire tk nonce ad t)" "length s \<le> 4096" "s \<noteq> ''''"
  shows "Open P s b k = Inr t"
proof -
  let ?w = "token_wire tk nonce ad t" and ?n = "length (tKID t)"
  have kid: "ValidateKID (tKID t) = None" "?n \<le> 64"
    using t(1) kid_length [of "tKID t"] by (auto simp: token_ok_def)
  have dec: "b64url_DecodeString_strict s = Inr ?w"
    using b64url_strict.decode_encode [of ?w] s(1)
    by (simp add: b64url_DecodeString_strict_def b64url_decode_def)
  note w = token_wire_fields [OF t(1,3,2), of tk ad]
  have "parse_body (tKID t) (token_body t) = Inr t"
    using t by (simp add: parse_body_Inr token_ok_def)
  moreover have "tokenAEAD P (tKID t) = Inr tk" using tk by (simp only: tokenAEAD_Inr)
  ultimately show ?thesis
    unfolding Open_def dec using s kid w ad by (simp add: Let_def)
qed

lemma Open_dest:
  assumes "Open P s b k = Inr t"
  shows "s \<noteq> '''' \<and> length s \<le> 4096 \<and> (\<exists>nonce. length nonce = 12 \<and> length (tManifestID t) = 16 \<and>
    Seal (Inr nonce) P t b k = Inr (strip_newlines s))"
proof -
  obtain w where dec: "b64url_DecodeString_strict s = Inr w"
    and s: "s \<noteq> ''''" "length s \<le> 4096"
    using assms unfolding Open_def by (auto split: if_split_asm sum.splits)
  define n where "n = be_nat (slice 1 3 w)"
  define kid where "kid = string_of (slice 3 (3 + n) w)"
  have w: "3 \<le> length w" "w ! 0 = 1" "3 + n + 28 \<le> length w" "ValidateKID kid = None"
    using assms s unfolding Open_def dec sum.case Let_def n_def [symmetric] kid_def [symmetric]
    by (auto split: if_split_asm)
  then obtain tk ad body where tk: "pTokenKey P kid = Inr tk" and ad: "tokenAAD b k = Inr ad"
    and body: "gcm_Open tk (slice (3 + n) (3 + n + 12) w) (drop (3 + n + 12) w) ad = Some body"
      "parse_body kid body = Inr t"
    using assms s unfolding Open_def dec sum.case Let_def n_def [symmetric] kid_def [symmetric]
    by (auto simp: result_simps tokenAEAD_Inr split: if_split_asm sum.splits option.splits)
  have ok: "token_ok t" "length (tManifestID t) = 16" "tKID t = kid" "body = token_body t"
    using body(2) w(4) by (auto simp: parse_body_Inr token_ok_def)
  have kl: "length kid = n" using w(3) by (simp add: kid_def)
  have "w = take 1 w @ slice 1 3 w @ slice 3 (3 + n) w @ slice (3 + n) (3 + n + 12) w @ drop (3 + n + 12) w"
    using append_take_drop_id [of 1 w] by (simp add: slice_append_drop)
  moreover have "take 1 w = [1]" using w(1,2) by (cases w) auto
  moreover have "slice 1 3 w = be_bytes 2 n" unfolding n_def using w(1) by (simp add: be_bytes_be_nat)
  moreover have "slice 3 (3 + n) w = bytes_of kid" by (simp add: kid_def)
  ultimately have "w = token_wire tk (slice (3 + n) (3 + n + 12) w) ad t"
    using gcm.open_is_seal [OF body(1)] kl ok(3,4) by (simp add: token_wire_def)
  then have "Seal (Inr (slice (3 + n) (3 + n + 12) w)) P t b k = Inr (strip_newlines s)"
    using b64url_strict_canonical [OF dec] ok tk ad by (auto simp: Seal_Inr)
  moreover have "length (slice (3 + n) (3 + n + 12) w) = 12" using w(3) by simp
  ultimately show ?thesis using s ok(2) by blast
qed

lemma Open_Inr:
  "Open P s b k = Inr t \<longleftrightarrow>
     s \<noteq> '''' \<and> length s \<le> 4096 \<and> (\<exists>nonce. length nonce = 12 \<and> length (tManifestID t) = 16 \<and>
       Seal (Inr nonce) P t b k = Inr (strip_newlines s))"
proof
  assume "s \<noteq> '''' \<and> length s \<le> 4096 \<and> (\<exists>nonce. length nonce = 12 \<and> length (tManifestID t) = 16 \<and>
       Seal (Inr nonce) P t b k = Inr (strip_newlines s))"
  then show "Open P s b k = Inr t" using Open_wire by (auto simp: Seal_Inr)
qed (rule Open_dest)

text \<open>No sealed token is longer than what \<open>Open\<close> is willing to look at.\<close>

lemma Seal_length:
  assumes "Seal (Inr nonce) P t b k = Inr s" "length nonce = 12" "length (tManifestID t) = 16"
  shows "s \<noteq> '''' \<and> length s \<le> 4096 \<and> strip_newlines s = s"
proof -
  from assms(1) obtain tk ad where t: "token_ok t" "s = b64url_EncodeToString (token_wire tk nonce ad t)"
    by (auto simp: Seal_Inr)
  have l: "length (token_wire tk nonce ad t) = 109 + length (tKID t) + length (tUploadID t)"
    using token_wire_length [OF assms(2), of tk ad t] t(1) assms(3) by (simp add: token_ok_def)
  have "length s = (8 * (109 + length (tKID t) + length (tUploadID t)) + 5) div 6"
    unfolding t(2) length_b64url l ..
  moreover have "length (tKID t) \<le> 64" "length (tUploadID t) \<le> 1024"
    using t(1) kid_length [of "tKID t"] by (auto simp: token_ok_def)
  ultimately have "0 < length s \<and> length s \<le> 4096" by auto
  then show ?thesis using t(2) by auto
qed

text \<open>A token presented for another object: refused, unless two different associated data have
  sealed to the same bytes under one key and nonce.\<close>

lemma Open_elsewhere:
  assumes "Seal (Inr nonce) P t b k = Inr s" and "length nonce = 12" and "length (tManifestID t) = 16"
    and "(b', k') \<noteq> (b, k)" and "length b' \<le> 65535" and "length k' \<le> 65535"
  shows "Open P s b' k' = Inl (Errorf ''%w: authentication failed'' [Sentinel ErrToken]) \<or>
    (\<exists>tk ad ad' p. tokenAAD b k = Inr ad \<and> tokenAAD b' k' = Inr ad' \<and> ad \<noteq> ad' \<and>
       gcm_Seal tk nonce (token_body t) ad = gcm_Seal tk nonce p ad')"
proof -
  obtain tk ad where t: "token_ok t" and tk: "pTokenKey P (tKID t) = Inr tk"
    and ad: "tokenAAD b k = Inr ad" and s: "s = b64url_EncodeToString (token_wire tk nonce ad t)"
    using assms(1) by (auto simp: Seal_Inr)
  obtain ad' where ad': "tokenAAD b' k' = Inr ad'"
    using assms(5,6) by (simp add: tokenAAD_def)
  have ne: "ad \<noteq> ad'" using tokenAAD_inj [OF ad, of b' k'] ad' assms(4) by auto
  note len = Seal_length [OF assms(1,2,3)]
  note f = token_wire_fields [OF t assms(2,3), of tk ad]
  have kid: "ValidateKID (tKID t) = None" using t by (simp add: token_ok_def)
  have "tokenAEAD P (tKID t) = Inr tk" using tk by (simp only: tokenAEAD_Inr)
  moreover have "b64url_DecodeString_strict s = Inr (token_wire tk nonce ad t)" using s by simp
  ultimately have "Open P s b' k' =
     (case gcm_Open tk nonce (gcm_Seal tk nonce (token_body t) ad) ad' of
        None \<Rightarrow> Inl (Errorf ''%w: authentication failed'' [Sentinel ErrToken])
      | Some body \<Rightarrow> parse_body (tKID t) body)"
    unfolding Open_def using len f kid ad' by (simp add: Let_def)
  then show ?thesis
    using ad ad' ne by (auto simp: gcm.open_iff split: option.splits)
qed

lemma partTagAEAD_Inr:
  "partTagAEAD P kid = Inr k \<longleftrightarrow> (\<exists>tk. pTokenKey P kid = Inr tk \<and> k = hkdf32 tk [] partTagInfo)"
  by (auto simp: partTagAEAD_def result_simps)

text \<open>What \<open>OpenPartTag\<close> makes of a tag that was issued for part \<open>n\<close> when it comes back as part \<open>m\<close>.\<close>

lemma OpenPartTag_sealed:
  assumes "SealPartTag (Inr nonce) P kid e n salt = Inr tag" and "length nonce = 12"
    and "CHR ''.'' \<notin> set (unquote e)"
  shows "\<exists>k. \<forall>m. OpenPartTag P kid tag m =
      (case gcm_Open k nonce (gcm_Seal k nonce salt (partTagAAD n)) (partTagAAD m) of
         None \<Rightarrow> Inl (Errorf ''%w: part %d'' [Sentinel ErrPartTag])
       | Some plain \<Rightarrow>
           if length plain \<noteq> SaltSize then Inl (Errorf ''%w: part %d'' [Sentinel ErrPartTag])
           else Inr (quote (unquote e), plain))"
proof -
  obtain k where k: "partTagAEAD P kid = Inr k" and tag: "tag = quote (unquote e @ CHR ''.'' #
      b64url_EncodeToString (nonce @ gcm_Seal k nonce salt (partTagAAD n)))"
    using assms(1) by (auto simp: SealPartTag_def result_simps)
  show ?thesis
    by (rule exI [of _ k]) (simp add: OpenPartTag_def tag unquote_tag cut_append assms k gcm_NonceSize_def)
qed

end

section \<open>Properties\<close>

text \<open>Upload token round trip. A token that \<open>Seal\<close> issues opens, for the bucket and key it was issued
  for, to the very upload state that was sealed, on every keyring that still holds the KEK the token
  names under its key id: another instance, a restarted one, or one whose active key has been rotated
  since.\<close>

theorem token_roundtrip:
  assumes "Seal (Inr nonce) (keyring_provider r) t b k = Inr s" and "length nonce = 12"
    and "length (tManifestID t) = 16" and "lookup r' (tKID t) = lookup r (tKID t)"
  shows "Open (keyring_provider r') s b k = Inr t"
proof -
  have "pTokenKey (keyring_provider r') (tKID t) = pTokenKey (keyring_provider r) (tKID t)"
    using assms(4) by (simp add: keyring_provider_def TokenKey_def)
  then have "Seal (Inr nonce) (keyring_provider r') t b k = Inr s"
    using assms(1) by (simp add: keyring.Seal_Inr)
  then show ?thesis
    using assms(2,3) keyring.Seal_length [OF assms(1-3)] by (auto simp: keyring.Open_Inr)
qed

definition example_keyring :: Keyring where
  "example_keyring = \<lparr>kactive = ''k1'', keks = [(''k1'', replicate 32 1)], kcreated = [(''k1'', 0)],
     kaudit = None, kname = None, kfreshness = None\<rparr>"

definition example_token :: Token where
  "example_token = \<lparr>tKID = ''k1'', tUploadID = ''u'', tWrappedDEK = replicate 60 2, tManifestID = replicate 16 3\<rparr>"

lemma example_seal: "\<exists>s. Seal (Inr (replicate 12 4)) (keyring_provider example_keyring) example_token ''b'' ''k'' = Inr s"
proof -
  have "token_ok example_token" by (simp add: token_ok_def example_token_def) code_simp
  moreover have "\<exists>tk. pTokenKey (keyring_provider example_keyring) (tKID example_token) = Inr tk"
    by (simp add: keyring_provider_def TokenKey_def lookup_def example_keyring_def example_token_def
        deriveTokenKey_def del: replicate.simps)
  moreover have "\<exists>ad. tokenAAD ''b'' ''k'' = Inr ad" by (simp add: tokenAAD_def)
  ultimately show ?thesis by (auto simp: keyring.Seal_Inr)
qed

theorem token_roundtrip_witness:
  "\<exists>s. Seal (Inr (replicate 12 4)) (keyring_provider example_keyring) example_token ''b'' ''k'' = Inr s \<and>
     Open (keyring_provider example_keyring) s ''b'' ''k'' = Inr example_token"
proof -
  obtain s where s: "Seal (Inr (replicate 12 4)) (keyring_provider example_keyring) example_token ''b'' ''k'' = Inr s"
    using example_seal by blast
  have "length (tManifestID example_token) = 16" by (simp add: example_token_def)
  from token_roundtrip [OF s _ this, of example_keyring] s show ?thesis by simp
qed

definition token_res :: "Token result \<Rightarrow> bool" where
  "token_res x = (case x of Inl e \<Rightarrow> errors_is ErrToken e | Inr _ \<Rightarrow> True)"

lemma token_res_intros:
  "token_res (Inl (Errorf m [Sentinel ErrToken]))"
  "token_res (Inr t)"
  "token_res a \<Longrightarrow> token_res c \<Longrightarrow> token_res (if P then a else c)"
  by (simp_all add: token_res_def)

lemma Open_errors:
  assumes "length b \<le> 65535" and "length k \<le> 65535"
  shows "token_res (Open (keyring_provider r) s b k)"
proof -
  have unknown: "errors_is ErrUnknownKID e" if "tokenAEAD (keyring_provider r) kid = Inl e" for kid e
    using that unfolding keyring.tokenAEAD_Inl
    by (auto simp: keyring_provider_def TokenKey_def lookup_def deriveTokenKey_def split: option.splits)
  have body: "token_res (parse_body kid body)" for kid body
    unfolding parse_body_def Let_def by (intro token_res_intros)
  have aead: "token_res (case tokenAEAD (keyring_provider r) kid of
      Inl e \<Rightarrow> if errors_is ErrUnknownKID e
        then Inl (Errorf ''%w: unknown key id'' [Sentinel ErrToken]) else Inl e
    | Inr x \<Rightarrow> f x)" if "\<And>x. token_res (f x)" for kid f
    using that unknown by (auto simp: token_res_intros(1) split: sum.splits)
  obtain ad where "tokenAAD b k = Inr ad" using assms by (simp add: tokenAAD_def)
  then show ?thesis
    unfolding Open_def Let_def
    by (auto intro!: token_res_intros aead body split: sum.split option.split dest: unknown)
qed

text \<open>C28: Nothing else opens. A string opens to a token for a bucket and key exactly if, carriage returns
  and line feeds removed (which Go's base64 decoder skips), it is what \<open>Seal\<close> produces from that token
  for that bucket and key with some nonce; and every string that does not open is refused with
  \<open>ErrToken\<close>, as long as bucket and key fit their length prefix.\<close>

theorem token_exact:
  "(Open (keyring_provider r) s b k = Inr t) =
     (s \<noteq> '''' \<and> length s \<le> 4096 \<and> (\<exists>nonce. length nonce = 12 \<and> length (tManifestID t) = 16 \<and>
        Seal (Inr nonce) (keyring_provider r) t b k = Inr (strip_newlines s))) \<and>
   ((\<exists>u. Open (keyring_provider r) s b k = Inr u) \<or>
    (\<exists>e. Open (keyring_provider r) s b k = Inl e \<and> errors_is ErrToken e) \<or>
    65535 < length b \<or> 65535 < length k)"
  using keyring.Open_Inr [of r s b k t] Open_errors [of b k r s]
  by (cases "Open (keyring_provider r) s b k") (auto simp: token_res_def simp flip: not_le)

text \<open>A token is bound to its object. A token issued for one bucket and key and presented for another
  is refused as unauthentic, the only alternative being that AES-GCM seals two bodies with different
  associated data to the same ciphertext and tag.\<close>

theorem token_bound:
  assumes "Seal (Inr nonce) (keyring_provider r) t b k = Inr s" and "length nonce = 12"
    and "length (tManifestID t) = 16" and "(b', k') \<noteq> (b, k)" and "length b' \<le> 65535"
    and "length k' \<le> 65535"
  shows "Open (keyring_provider r) s b' k' = Inl (Errorf ''%w: authentication failed'' [Sentinel ErrToken]) \<or>
    (\<exists>tk ad ad' p. tokenAAD b k = Inr ad \<and> tokenAAD b' k' = Inr ad' \<and> ad \<noteq> ad' \<and>
       gcm_Seal tk nonce (token_body t) ad = gcm_Seal tk nonce p ad')"
  using assms by (rule keyring.Open_elsewhere)

theorem token_bound_witness:
  "\<exists>s. Seal (Inr (replicate 12 4)) (keyring_provider example_keyring) example_token ''b'' ''k'' = Inr s \<and>
     (Open (keyring_provider example_keyring) s ''b'' ''other'' =
        Inl (Errorf ''%w: authentication failed'' [Sentinel ErrToken]) \<or>
      (\<exists>tk ad ad' p. tokenAAD ''b'' ''k'' = Inr ad \<and> tokenAAD ''b'' ''other'' = Inr ad' \<and> ad \<noteq> ad' \<and>
         gcm_Seal tk (replicate 12 4) (token_body example_token) ad = gcm_Seal tk (replicate 12 4) p ad'))"
proof -
  obtain s where s: "Seal (Inr (replicate 12 4)) (keyring_provider example_keyring) example_token ''b'' ''k'' = Inr s"
    using example_seal by blast
  have "length (tManifestID example_token) = 16" by (simp add: example_token_def)
  from token_bound [OF s _ this, of "''b''" "''other''"] s show ?thesis by (simp del: replicate.simps)
qed

text \<open>Part tags. The salt sealed into a part's ETag comes back unchanged when the client echoes the
  ETag for the same part number, with the provider's own ETag beside it; echoed as another part (S3 part
  numbers are 1 to 10000) it is refused with \<open>ErrPartTag\<close>, unless AES-GCM seals two salts with different
  associated data to the same bytes. The provider's ETag must not contain the separator.\<close>

theorem part_tag_roundtrip:
  assumes "SealPartTag (Inr nonce) (keyring_provider r) kid e n salt = Inr tag" and "length nonce = 12"
    and "length salt = 20" and "CHR ''.'' \<notin> set (unquote e)"
    and "1 \<le> n" "n \<le> 10000" "1 \<le> m" "m \<le> 10000" "m \<noteq> n"
  shows "OpenPartTag (keyring_provider r) kid tag n = Inr (quote (unquote e), salt) \<and>
    (OpenPartTag (keyring_provider r) kid tag m = Inl (Errorf ''%w: part %d'' [Sentinel ErrPartTag]) \<or>
     (\<exists>k salt'. gcm_Seal k nonce salt (partTagAAD n) = gcm_Seal k nonce salt' (partTagAAD m) \<and>
        partTagAAD n \<noteq> partTagAAD m))"
proof -
  obtain k where o: "\<forall>m. OpenPartTag (keyring_provider r) kid tag m =
      (case gcm_Open k nonce (gcm_Seal k nonce salt (partTagAAD n)) (partTagAAD m) of
         None \<Rightarrow> Inl (Errorf ''%w: part %d'' [Sentinel ErrPartTag])
       | Some plain \<Rightarrow>
           if length plain \<noteq> SaltSize then Inl (Errorf ''%w: part %d'' [Sentinel ErrPartTag])
           else Inr (quote (unquote e), plain))"
    using keyring.OpenPartTag_sealed [OF assms(1,2,4)] by (rule exE)
  have "partTagAAD n \<noteq> partTagAAD m" using partTagAAD_inj [of n m] assms by auto
  then show ?thesis
    unfolding spec [OF o, of n] spec [OF o, of m] using assms(3) by (auto simp: gcm.open_iff split: option.splits)
qed

theorem part_tag_roundtrip_witness:
  "\<exists>tag. SealPartTag (Inr (replicate 12 4)) (keyring_provider example_keyring) ''k1'' ''abc'' 3 (replicate 20 7) = Inr tag \<and>
     OpenPartTag (keyring_provider example_keyring) ''k1'' tag 3 = Inr (quote (unquote ''abc''), replicate 20 7)"
proof -
  obtain tag where t: "SealPartTag (Inr (replicate 12 4)) (keyring_provider example_keyring) ''k1'' ''abc'' 3 (replicate 20 7) = Inr tag"
    by (simp add: SealPartTag_def partTagAEAD_def keyring_provider_def TokenKey_def lookup_def example_keyring_def
        deriveTokenKey_def del: replicate.simps)
  have "CHR ''.'' \<notin> set (unquote ''abc'')" by code_simp
  from part_tag_roundtrip [OF t _ _ this, of 4] t show ?thesis by (simp del: replicate.simps)
qed

end
