(* ===== verification/Requests.thy ===== *)
theory Requests
  imports GatewayWrite UploadToken
begin

text \<open>
  A request as a conversation with the storage provider: a tree whose nodes are the calls of
  \<open>internal/upstream\<close> that a handler makes, in their order, each with what the handler does with the answer. Run
  against one provider (\<open>run\<close>) a tree is a handler of \<open>Gateway\<close>; several of them can also be interleaved call by call,
  which is what concurrent requests on several instances of the gateway do.
\<close>

section \<open>The calls\<close>

record CreateMultipartUploadInput =
  cuBucket :: string
  cuKey :: string
  cuHeaders :: "(string \<times> string) list"
  cuMetadata :: "(string \<times> string) list"

record UploadPartInput =
  uiBucket :: string
  uiKey :: string
  uiUploadID :: string
  uiPartNumber :: int
  uiContentLength :: int

record UpstreamPart =
  lpPartNumber :: int
  lpETag :: string
  lpSize :: int

record CompletedPart =
  cpPartNumber :: int
  cpETag :: string

record CompleteMultipartUploadInput =
  ciBucket :: string
  ciKey :: string
  ciUploadID :: string
  ciParts :: "CompletedPart list"
  ciIfMatch :: string
  ciIfNoneMatch :: string

record CompleteMultipartUploadOutput =
  coETag :: string
  coVersionID :: string

record MultipartUpload =
  muKey :: string
  muUploadID :: string

text \<open>What the collector uses of an object in a listing; \<open>None\<close> is a time that is zero or does not parse.\<close>

record ListedObject =
  loKey :: string
  loModified :: "int option"

text \<open>
  The body of an upload is what the encrypter writes into the pipe, and that depends on how the provider
  takes it (\<open>encrypt_into_pipe\<close>); so the node of such a call has the body, and what follows, as functions of it. A listing
  is the result of all its pages.
\<close>

datatype 'a req =
    Reply 'a
  | HeadR string string "ObjectInfo result \<Rightarrow> 'a req"
  | GetR GetObjectInput "GetObjectOutput result \<Rightarrow> 'a req"
  | PutR PutObjectInput "nat option list \<Rightarrow> source" "nat option list \<Rightarrow> PutObjectOutput result \<Rightarrow> 'a req"
  | DeleteR string string "err option \<Rightarrow> 'a req"
  | CreateR CreateMultipartUploadInput "string result \<Rightarrow> 'a req"
  | PartR UploadPartInput "nat option list \<Rightarrow> source" "nat option list \<Rightarrow> string result \<Rightarrow> 'a req"
  | ListPartsR string string string "UpstreamPart list result \<Rightarrow> 'a req"
  | CompleteR CompleteMultipartUploadInput "CompleteMultipartUploadOutput result \<Rightarrow> 'a req"
  | AbortR string string string "err option \<Rightarrow> 'a req"
  | ListR string string "ListedObject list result \<Rightarrow> 'a req"
  | UploadsR string string "MultipartUpload list result \<Rightarrow> 'a req"
  | IndexR "Local \<Rightarrow> Local" "'a req"

text \<open>A step that may already end the request with an S3 error.\<close>

definition rpure :: "s3Error + 'a \<Rightarrow> ('a \<Rightarrow> (s3Error + 'b) req) \<Rightarrow> (s3Error + 'b) req" where
  "rpure r f = (case r of Inl e \<Rightarrow> Reply (Inl e) | Inr x \<Rightarrow> f x)"

section \<open>Running a request alone\<close>

record 'u Store = "'u Provider" +
  upCreate :: "CreateMultipartUploadInput \<Rightarrow> 'u \<Rightarrow> string result \<times> 'u"
  upPartPipe :: "UploadPartInput \<Rightarrow> 'u \<Rightarrow> nat option list"
  upPart :: "UploadPartInput \<Rightarrow> source \<Rightarrow> 'u \<Rightarrow> string result \<times> 'u"
  upListParts :: "string \<Rightarrow> string \<Rightarrow> string \<Rightarrow> 'u \<Rightarrow> UpstreamPart list result \<times> 'u"
  upComplete :: "CompleteMultipartUploadInput \<Rightarrow> 'u \<Rightarrow> CompleteMultipartUploadOutput result \<times> 'u"
  upAbort :: "string \<Rightarrow> string \<Rightarrow> string \<Rightarrow> 'u \<Rightarrow> err option \<times> 'u"
  upList :: "string \<Rightarrow> string \<Rightarrow> 'u \<Rightarrow> ListedObject list result \<times> 'u"
  upUploads :: "string \<Rightarrow> string \<Rightarrow> 'u \<Rightarrow> MultipartUpload list result \<times> 'u"

definition rcall :: "('u \<Rightarrow> 'r \<times> 'u) \<Rightarrow> ('r \<Rightarrow> 'u world \<Rightarrow> 'a \<times> 'u world) \<Rightarrow> 'u world \<Rightarrow> 'a \<times> 'u world" where
  "rcall c f w = (case c (wUp w) of (r, u) \<Rightarrow> f r (w\<lparr>wUp := u\<rparr>))"

primrec run :: "'u Store \<Rightarrow> 'a req \<Rightarrow> 'u world \<Rightarrow> 'a \<times> 'u world" where
  "run st (Reply x) = (\<lambda>w. (x, w))"
| "run st (HeadR b k c) = rcall (upHead st b k) (\<lambda>r. run st (c r))"
| "run st (GetR i c) = rcall (upGet st i) (\<lambda>r. run st (c r))"
| "run st (PutR i s c) = (\<lambda>w. let t = upPipe st i (wUp w) in rcall (upPut st i (s t)) (\<lambda>r. run st (c t r)) w)"
| "run st (DeleteR b k c) = rcall (upDelete st b k) (\<lambda>r. run st (c r))"
| "run st (CreateR i c) = rcall (upCreate st i) (\<lambda>r. run st (c r))"
| "run st (PartR i s c) = (\<lambda>w. let t = upPartPipe st i (wUp w) in rcall (upPart st i (s t)) (\<lambda>r. run st (c t r)) w)"
| "run st (ListPartsR b k u c) = rcall (upListParts st b k u) (\<lambda>r. run st (c r))"
| "run st (CompleteR i c) = rcall (upComplete st i) (\<lambda>r. run st (c r))"
| "run st (AbortR b k u c) = rcall (upAbort st b k u) (\<lambda>r. run st (c r))"
| "run st (ListR b k c) = rcall (upList st b k) (\<lambda>r. run st (c r))"
| "run st (UploadsR b k c) = rcall (upUploads st b k) (\<lambda>r. run st (c r))"
| "run st (IndexR g c) = (\<lambda>w. run st c (w\<lparr>wFresh := map_option g (wFresh w)\<rparr>))"

lemma run_rpure: "run st (rpure r f) w = (case r of Inl e \<Rightarrow> (Inl e, w) | Inr x \<Rightarrow> run st (f x) w)"
  by (simp add: rpure_def split: sum.split)

section \<open>Writes of the gateway as requests\<close>

definition recordR :: "int \<Rightarrow> string \<Rightarrow> string \<Rightarrow> bytes list \<Rightarrow> 'a req \<Rightarrow> 'a req" where
  "recordR now bucket key salts next =
     (if salts = [] then next
      else case TagFromSalts salts of
        Inl _ \<Rightarrow> next
      | Inr tag \<Rightarrow> IndexR (\<lambda>l. snd (Record now bucket key tag l)) next)"

definition observedManifestR :: "Proxy \<Rightarrow> string \<Rightarrow> string \<Rightarrow> (bytes option \<Rightarrow> 'a req) \<Rightarrow> 'a req" where
  "observedManifestR p bucket key next =
     HeadR bucket key (\<lambda>r. next (case r of
               Inl _ \<Rightarrow> None
             | Inr info \<Rightarrow>
                 (case Parse (iMetadata info) (gLog2C p) of
                    Inl _ \<Rightarrow> None
                  | Inr meta \<Rightarrow> if mMultipart meta then Some (mManifestID meta) else None)))"

definition replacedSinceR :: "Proxy \<Rightarrow> string \<Rightarrow> string \<Rightarrow> bytes \<Rightarrow> (bool \<Rightarrow> 'a req) \<Rightarrow> 'a req" where
  "replacedSinceR p bucket key observed next =
     HeadR bucket key (\<lambda>r. next (case r of
               Inl e \<Rightarrow> upstream_NotFound e
             | Inr info \<Rightarrow>
                 (case Parse (iMetadata info) (gLog2C p) of
                    Inl _ \<Rightarrow> False
                  | Inr meta \<Rightarrow> \<not> mMultipart meta \<or> mManifestID meta \<noteq> observed)))"

definition put_input :: "string \<Rightarrow> string \<Rightarrow> nat \<Rightarrow> (string \<times> string) list \<Rightarrow> (string \<times> string) list \<Rightarrow> PutObjectInput" where
  "put_input bucket key n headers md = \<lparr>piBucket = bucket, piKey = key, piContentLength = int n, piHeaders = headers,
     piMetadata = md, piIfMatch = '''', piIfNoneMatch = ''''\<rparr>"

definition writeManifestR :: "Manifest \<Rightarrow> bytes \<Rightarrow> (unit result \<Rightarrow> 'a req) \<Rightarrow> 'a req" where
  "writeManifestR m dek next =
     (case Marshal m dek of
        Inl e \<Rightarrow> next (Inl (Errorf ''building the manifest: %w'' [e]))
      | Inr rw \<Rightarrow>
          PutR (put_input (Bucket m) (ObjectKey (MID m) (MKey m)) (length rw) [(''Content-Type'', ''application/octet-stream'')] [])
            (\<lambda>_. bytes_source rw)
            (\<lambda>_ r. next (ebind (emap_err (\<lambda>e. Errorf ''storing the manifest: %w'' [e]) r) (\<lambda>_. Inr ()))))"

definition deleteManifestR :: "string \<Rightarrow> string \<Rightarrow> bytes \<Rightarrow> (err option \<Rightarrow> 'a req) \<Rightarrow> 'a req" where
  "deleteManifestR bucket key i next = DeleteR bucket (ObjectKey i key) next"

definition writeTagsR :: "bytes result \<Rightarrow> string \<Rightarrow> string \<Rightarrow> tagTarget \<Rightarrow> Tag list \<Rightarrow> (s3Error + 'a) req \<Rightarrow> (s3Error + 'a) req" where
  "writeTagsR rnd bucket key tt ts next =
     rpure (emap_err (\<lambda>_. api_Internal) (tags_Seal rnd (ttDek tt) bucket key ts)) (\<lambda>sealed.
       PutR (put_input bucket (ttPath tt) (length sealed) [] (tags_Metadata (ttStoredKey tt))) (\<lambda>_. bytes_source sealed)
         (\<lambda>_ r. rpure (emap_err translateUpstream r) (\<lambda>_. next)))"

definition writeTagsBeforeObjectR ::
  "bytes result \<Rightarrow> string \<Rightarrow> string \<Rightarrow> string \<Rightarrow> Meta \<Rightarrow> bytes \<Rightarrow> Tag list \<Rightarrow> (s3Error + 'a) req \<Rightarrow> (s3Error + 'a) req" where
  "writeTagsBeforeObjectR rnd bucket key sk meta dek ts next =
     (if ts = [] then next
      else writeTagsR rnd bucket key \<lparr>ttStoredKey = sk, ttPath = tags_Path sk (StoredDEKOf meta), ttDek = dek\<rparr> ts next)"

definition putObjectR :: "(nat \<Rightarrow> bool) \<Rightarrow> randoms \<Rightarrow> Proxy \<Rightarrow> Request \<Rightarrow> (s3Error + reply) req" where
  "putObjectR uni rnd p q =
     rpure (prepare_put uni rnd p q) (\<lambda>pp.
     writeTagsBeforeObjectR (rndTagNonce rnd) (qBucket q) (qKey q) (piKey (ppInput pp)) (ppMeta pp) (ppDek pp) (ppTags pp)
     (let enc = encrypt_into_pipe rnd (ppDek pp) \<lparr>Log2ChunkSize = gLog2C p, Multipart = False, Index = 0\<rparr> (ppBody pp) in
      PutR (ppInput pp) (\<lambda>t. fst (snd (enc t)))
        (\<lambda>t r. rpure (upload_error (fst (enc t)) r) (\<lambda>out.
           (case snd (snd (enc t)) of
              Some s \<Rightarrow> recordR (qNow q) (qBucket q) (qKey q) (saltsOf s)
            | None \<Rightarrow> id) (Reply (Inr (put_reply q out)))))))"

definition deleteObjectR :: "Proxy \<Rightarrow> Request \<Rightarrow> (s3Error + reply) req" where
  "deleteObjectR p q =
     rpure (storedKey p (qBucket q) (qKey q)) (\<lambda>sk.
     observedManifestR p (qBucket q) sk (\<lambda>observed.
     DeleteR (qBucket q) sk (\<lambda>e.
     rpure (case e of Some x \<Rightarrow> Inl (translateUpstream x) | None \<Rightarrow> Inr ()) (\<lambda>_.
     (case observed of
        None \<Rightarrow> id
      | Some i \<Rightarrow> (\<lambda>next. deleteManifestR (qBucket q) sk i (\<lambda>_. next)))
     (IndexR (\<lambda>l. snd (Forget (qNow q) (qBucket q) (qKey q) l))
       (Reply (Inr \<lparr>pStatus = 204, pHeader = qReply q, pBody = [], pAborted = False\<rparr>)))))))"

text \<open>Run alone, these are the handlers of \<open>GatewayWrite\<close>.\<close>

abbreviation plain :: "'u Store \<Rightarrow> 'u Provider" where
  "plain st \<equiv> Provider.truncate st"

lemma plain_simps [simp]:
  "upHead (plain st) = upHead st" "upGet (plain st) = upGet st" "upPut (plain st) = upPut st"
  "upPipe (plain st) = upPipe st" "upDelete (plain st) = upDelete st"
  by (simp_all add: Provider.truncate_def)

lemma run_recordR:
  "run st (recordR now b k salts next) w = (case recordFreshness now b k salts w of (_, w') \<Rightarrow> run st next w')"
  by (cases w; cases "wFresh w") (auto simp: recordR_def recordFreshness_def split: sum.split)

lemma recordFreshness_Inr: "recordFreshness now b k salts w = (r, w') \<Longrightarrow> r = Inr ()"
  by (auto simp: recordFreshness_def split: option.splits sum.splits if_splits)

lemma run_writeTagsBeforeObjectR:
  "run st (writeTagsBeforeObjectR rnd b k sk meta dek ts next) w =
     (case writeTagsBeforeObject (plain st) rnd b k sk meta dek ts w of
        (Inl e, w') \<Rightarrow> (Inl e, w') | (Inr _, w') \<Rightarrow> run st next w')"
  by (simp add: writeTagsBeforeObjectR_def writeTagsBeforeObject_def writeTagsR_def writeTags_def put_input_def run_rpure
      abind_def alift_def aret_def ofail_def acall_def rcall_def split: sum.split prod.split)

lemma run_putObjectR: "run st (putObjectR uni rnd p q) w = putObject uni rnd p (plain st) q w"
  by (auto simp: putObjectR_def putObject_def run_rpure run_writeTagsBeforeObjectR abind_def alift_def aret_def acall_def
      rcall_def run_recordR Let_def dest: recordFreshness_Inr split: sum.split prod.split option.split)

lemma observedManifest_run:
  "observedManifest p prov b k w = (case upHead prov b k (wUp w) of (r, u) \<Rightarrow>
     (Inr (case r of
               Inl _ \<Rightarrow> None
             | Inr info \<Rightarrow>
                 (case Parse (iMetadata info) (gLog2C p) of
                    Inl _ \<Rightarrow> None
                  | Inr meta \<Rightarrow> if mMultipart meta then Some (mManifestID meta) else None)), w\<lparr>wUp := u\<rparr>))"
  by (simp add: observedManifest_def abind_def acall_def aret_def split: prod.split)

lemma forgetFreshness_run:
  "forgetFreshness now b k w = (Inr (), w\<lparr>wFresh := map_option (\<lambda>l. snd (Forget now b k l)) (wFresh w)\<rparr>)"
  by (cases w) (simp add: forgetFreshness_def split: option.split)

lemma run_deleteObjectR: "run st (deleteObjectR p q) w = deleteObject p (plain st) q w"
proof (cases "storedKey p (qBucket q) (qKey q)")
  case (Inr sk)
  obtain r u where "upHead st (qBucket q) sk (wUp w) = (r, u)" by (rule prod.exhaust)
  moreover obtain e u' where "upDelete st (qBucket q) sk u = (e, u')" by (rule prod.exhaust)
  ultimately show ?thesis
    using Inr by (simp add: deleteObjectR_def deleteObject_def run_rpure observedManifestR_def observedManifest_run
        deleteManifestR_def deleteManifest_def forgetFreshness_run abind_def alift_def aret_def acall_def rcall_def
        split: sum.split option.split prod.split)
qed (simp add: deleteObjectR_def deleteObject_def run_rpure abind_def alift_def)

end
