(* ===== verification/GatewayMultipart.thy ===== *)
theory GatewayMultipart
  imports Requests
begin

text \<open>
  The multipart handlers of \<open>internal/proxy/multipart.go\<close>, as requests. All the state of an upload is in the token
  that the client presents again with every call, so the handlers keep none. XML is left to a parameter
  that reads the part list of a completion; the results are the values that are rendered.
\<close>

section \<open>Creating an upload\<close>

record upload_randoms =
  urDEK :: "bytes result"
  urNonce :: "bytes result"
  urID :: "bytes result"
  urTagNonce :: "bytes result"
  urTokenNonce :: "bytes result"

record initiateResult =
  irBucket :: string
  irKey :: string
  irUploadID :: string

text \<open>What \<open>createMultipartUpload\<close> has decided before its first upstream call.\<close>

record create_plan =
  cpInput :: CreateMultipartUploadInput
  cpMeta :: Meta
  cpDek :: bytes
  cpTags :: "Tag list"

definition prepare_create :: "(nat \<Rightarrow> bool) \<Rightarrow> upload_randoms \<Rightarrow> Proxy \<Rightarrow> Request \<Rightarrow> s3Error + create_plan" where
  "prepare_create uni rnd p q =
     echeck (rejectUnsupportedUpload (qHeader q))
     (ebind (tagsFromHeader uni (qHeader q)) (\<lambda>tagSet.
      ebind (emap_err (\<lambda>_. WithMessage api_InvalidArgument ''%v'') (clientMetadata (qHeader q))) (\<lambda>clientMeta.
      ebind (storedKey p (qBucket q) (qKey q)) (\<lambda>sk.
      ebind (bucketKeys p (qBucket q)) (\<lambda>bk.
      ebind (emap_err (\<lambda>_. WithMessage api_InvalidArgument ''%v'') (ObjectAAD (bkKID bk) (qBucket q) (qKey q))) (\<lambda>ad.
      ebind (emap_err (\<lambda>_. api_Internal) (NewDEK (urDEK rnd))) (\<lambda>dek.
      ebind (emap_err (\<lambda>_. api_Internal) (pWrap (gKeys p) (urNonce rnd) (bkKID bk) dek ad)) (\<lambda>wrapped.
      ebind (emap_err (\<lambda>_. api_Internal) (NewID (urID rnd))) (\<lambda>mid.
        let meta = \<lparr>mVersion = 1, mKeyID = bkKID bk, mWrappedDEK = wrapped, mLog2ChunkSize = gLog2C p,
              mHasChunkSize = False, mManifestID = mid, mMultipart = True\<rparr>
        in Inr \<lparr>cpInput = \<lparr>cuBucket = qBucket q, cuKey = sk, cuHeaders = put_headers (qHeader q),
                  cuMetadata = mergeMetadata clientMeta meta\<rparr>,
               cpMeta = meta, cpDek = dek, cpTags = tagSet\<rparr>)))))))))"

definition upload_token :: "Meta \<Rightarrow> string \<Rightarrow> Token" where
  "upload_token meta uploadID =
     \<lparr>tKID = mKeyID meta, tUploadID = uploadID, tWrappedDEK = mWrappedDEK meta, tManifestID = mManifestID meta\<rparr>"

definition createMultipartUpload ::
  "(nat \<Rightarrow> bool) \<Rightarrow> upload_randoms \<Rightarrow> Proxy \<Rightarrow> Request \<Rightarrow> (s3Error + initiateResult) req" where
  "createMultipartUpload uni rnd p q =
     rpure (prepare_create uni rnd p q) (\<lambda>cp.
     writeTagsBeforeObjectR (urTagNonce rnd) (qBucket q) (qKey q) (cuKey (cpInput cp)) (cpMeta cp) (cpDek cp) (cpTags cp)
     (CreateR (cpInput cp) (\<lambda>r.
      rpure (emap_err translateUpstream r) (\<lambda>uploadID.
        case Seal (urTokenNonce rnd) (gKeys p) (upload_token (cpMeta cp) uploadID) (qBucket q) (qKey q) of
          Inl _ \<Rightarrow> AbortR (qBucket q) (cuKey (cpInput cp)) uploadID (\<lambda>_. Reply (Inl api_Internal))
        | Inr token \<Rightarrow> Reply (Inr \<lparr>irBucket = qBucket q, irKey = qKey q, irUploadID = token\<rparr>)))))"

section \<open>The token of an upload\<close>

definition openToken :: "Proxy \<Rightarrow> Request \<Rightarrow> string \<Rightarrow> s3Error + Token \<times> string" where
  "openToken p q uploadID =
     (if uploadID = '''' then Inl (WithMessage api_InvalidArgument ''the request names no upload id'')
      else
        ebind (storedKey p (qBucket q) (qKey q)) (\<lambda>sk.
          case Open (gKeys p) uploadID (qBucket q) (qKey q) of
            Inl e \<Rightarrow> Inl (if errors_is ErrToken e then api_NoSuchUpload else api_Internal)
          | Inr token \<Rightarrow> Inr (token, sk)))"

definition unwrapTokenDEK :: "Proxy \<Rightarrow> Request \<Rightarrow> Token \<Rightarrow> s3Error + bytes" where
  "unwrapTokenDEK p q token =
     ebind (emap_err (\<lambda>_. WithMessage api_InvalidArgument ''%v'') (ObjectAAD (tKID token) (qBucket q) (qKey q))) (\<lambda>ad.
       emap_err (\<lambda>e. if errors_is ErrUnknownKID e
                     then WithMessage api_Integrity ''the key %q that protects this upload is not in the keyring''
                     else integrityError ''upload data key'')
         (pUnwrap (gKeys p) (tKID token) (tWrappedDEK token) ad))"

section \<open>Uploading a part\<close>

text \<open>The part of \<open>uploadPart\<close> before its upstream call: the token, the stored key, the data key, the body with its length
  and the length of the ciphertext.\<close>

definition prepare_part :: "Proxy \<Rightarrow> Request \<Rightarrow> string \<Rightarrow> s3Error + Token \<times> string \<times> bytes \<times> source \<times> int" where
  "prepare_part p q uploadID =
     ebind (openToken p q uploadID) (\<lambda>(token, sk).
     ebind (unwrapTokenDEK p q token) (\<lambda>dek.
     ebind (emap_err translateBody (qBody q)) (\<lambda>(body, plainLen).
     if plainLen < 0 then Inl api_MissingContentLength
     else if plainLen = 0 then Inl (WithMessage api_InvalidRequest ''%v: the last part is empty'')
     else
       ebind (emap_err (\<lambda>_. WithMessage api_EntityTooLarge ''part of %d bytes cannot be stored: %v'')
                (SealedSize plainLen (gLog2C p))) (\<lambda>sealedLen.
       if sealedLen > MaxPartCiphertext
       then Inl (WithMessage api_EntityTooLarge ''part of %d bytes exceeds the maximum part size of %d bytes'')
       else Inr (token, sk, dek, body, sealedLen)))))"

definition part_error :: "err option \<Rightarrow> 'a result \<Rightarrow> s3Error + 'a" where
  "part_error encErr put =
     (let encErr = (case (encErr, put) of
                      (Some e, Inl _) \<Rightarrow> if errors_is ErrClosedPipe e then None else Some e
                    | _ \<Rightarrow> encErr) in
      case encErr of
        Some e \<Rightarrow> Inl (translateBody e)
      | None \<Rightarrow> emap_err (\<lambda>e. if upstream_NoSuchUpload e then api_NoSuchUpload else translateUpstream e) put)"

definition part_reply :: "Request \<Rightarrow> string \<Rightarrow> reply" where
  "part_reply q tagged =
     \<lparr>pStatus = 200,
      pHeader = header_set ''Content-Length'' ''0''
        (echoVerifiedChecksums (header_set ''ETag'' tagged (qReply q)) (qHeader q) (qTrailer q)),
      pBody = [], pAborted = False\<rparr>"

definition uploadPart ::
  "randoms \<Rightarrow> bytes result \<Rightarrow> Proxy \<Rightarrow> Request \<Rightarrow> string \<Rightarrow> int \<Rightarrow> (s3Error + reply) req" where
  "uploadPart rnd tagNonce p q uploadID partNumber =
     rpure (prepare_part p q uploadID) (\<lambda>(token, sk, dek, body, sealedLen).
     let enc = encrypt_into_pipe rnd dek \<lparr>Log2ChunkSize = gLog2C p, Multipart = True, Index = word_of_int partNumber\<rparr> body in
     PartR \<lparr>uiBucket = qBucket q, uiKey = sk, uiUploadID = tUploadID token, uiPartNumber = partNumber, uiContentLength = sealedLen\<rparr>
       (\<lambda>t. fst (snd (enc t)))
       (\<lambda>t r. rpure (part_error (fst (enc t)) r) (\<lambda>etag.
          case snd (snd (enc t)) of
            None \<Rightarrow> Reply (Inl api_Internal)
          | Some salt \<Rightarrow>
              rpure (emap_err (\<lambda>_. api_Internal) (SealPartTag tagNonce (gKeys p) (tKID token) etag partNumber salt)) (\<lambda>tagged.
                Reply (Inr (part_reply q tagged))))))"

section \<open>Completing an upload\<close>

definition maxCompleteBody :: nat where "maxCompleteBody = 4 * 2 ^ 20"

record completeReqPart =
  rpPartNumber :: int
  rpETag :: string

definition readCompleteRequest :: "(bytes \<Rightarrow> completeReqPart list option) \<Rightarrow> Request \<Rightarrow> s3Error + completeReqPart list" where
  "readCompleteRequest unmarshal q =
     ebind (readVerifiedBody q maxCompleteBody) (\<lambda>rw.
       case unmarshal rw of
         None \<Rightarrow> Inl (WithMessage api_InvalidRequest ''the CompleteMultipartUpload body is not valid XML'')
       | Some parts \<Rightarrow>
           if parts = [] then Inl (WithMessage api_InvalidRequest ''the completion names no parts'')
           else if length parts > MaxParts
           then Inl (WithMessage api_InvalidRequest ''the completion names %d parts, the maximum is %d'')
           else Inr parts)"

text \<open>The Go map of the stored parts holds the last entry of every part number.\<close>

definition stored_part :: "UpstreamPart list \<Rightarrow> int \<Rightarrow> UpstreamPart option" where
  "stored_part stored n = find (\<lambda>s. lpPartNumber s = n) (rev stored)"

fun match_parts :: "Proxy \<Rightarrow> Token \<Rightarrow> UpstreamPart list \<Rightarrow> int \<Rightarrow> completeReqPart list \<Rightarrow> s3Error + UploadedPart list" where
  "match_parts p token stored previous [] = Inr []"
| "match_parts p token stored previous (want # wants) =
     (if rpPartNumber want \<le> previous then Inl api_InvalidPartOrder
      else case stored_part stored (rpPartNumber want) of
        None \<Rightarrow> Inl (WithMessage api_InvalidPart ''part %d was never uploaded for this upload id'')
      | Some have \<Rightarrow>
          ebind (emap_err (\<lambda>_. WithMessage api_InvalidPart ''the ETag returned for part %d is not the one this gateway issued for it'')
                   (OpenPartTag (gKeys p) (tKID token) (rpETag want) (rpPartNumber want))) (\<lambda>(_, salt).
          ebind (match_parts p token stored (rpPartNumber want) wants) (\<lambda>rest.
            Inr (\<lparr>upNumber = word_of_int (rpPartNumber want), CipherSize = lpSize have, upETag = lpETag have, upSalt = salt\<rparr> # rest))))"

definition matchParts :: "Proxy \<Rightarrow> Token \<Rightarrow> completeReqPart list \<Rightarrow> UpstreamPart list \<Rightarrow> s3Error + UploadedPart list" where
  "matchParts p token requested stored = match_parts p token stored 0 requested"

definition parts_error :: "err \<Rightarrow> s3Error" where
  "parts_error e =
     (if errors_is ErrPartTooLarge e then WithMessage api_EntityTooLarge ''%v''
      else if errors_is ErrPartRules e then WithMessage api_InvalidRequest ''%v''
      else api_Internal)"

definition no_upload :: "err \<Rightarrow> s3Error" where
  "no_upload e = (if upstream_NoSuchUpload e then api_NoSuchUpload else translateUpstream e)"

record completeResult =
  crBucket :: string
  crKey :: string
  crETag :: string
  crHeader :: headers

definition complete_reply :: "Request \<Rightarrow> CompleteMultipartUploadOutput \<Rightarrow> completeResult" where
  "complete_reply q out =
     \<lparr>crBucket = qBucket q, crKey = qKey q, crETag = coETag out,
      crHeader = (if coVersionID out \<noteq> '''' then header_set ''x-amz-version-id'' (coVersionID out) (qReply q) else qReply q)\<rparr>"

text \<open>Everything of \<open>completeMultipartUpload\<close> that precedes its first upstream call.\<close>

definition prepare_complete ::
  "(bytes \<Rightarrow> completeReqPart list option) \<Rightarrow> Proxy \<Rightarrow> Request \<Rightarrow> string \<Rightarrow>
    s3Error + Token \<times> string \<times> bytes \<times> completeReqPart list \<times> string \<times> string" where
  "prepare_complete unmarshal p q uploadID =
     ebind (openToken p q uploadID) (\<lambda>(token, sk).
     ebind (unwrapTokenDEK p q token) (\<lambda>dek.
     ebind (readCompleteRequest unmarshal q) (\<lambda>requested.
     ebind (writeConditions (qHeader q)) (\<lambda>(ifMatch, ifNoneMatch).
       Inr (token, sk, dek, requested, ifMatch, ifNoneMatch)))))"

text \<open>Step 5: the manifest of the replaced version, and whether this completion was discarded.\<close>

definition cleanup_replaced :: "Proxy \<Rightarrow> string \<Rightarrow> string \<Rightarrow> Token \<Rightarrow> bytes option \<Rightarrow> (bool \<Rightarrow> 'a req) \<Rightarrow> 'a req" where
  "cleanup_replaced p bucket sk token observed next =
     (case observed of
        None \<Rightarrow> next False
      | Some i \<Rightarrow>
          if i = tManifestID token then next False
          else replacedSinceR p bucket sk i (\<lambda>replaced.
            if \<not> replaced then next True
            else deleteManifestR bucket sk i (\<lambda>_. next False)))"

definition completeMultipartUpload ::
  "(bytes \<Rightarrow> completeReqPart list option) \<Rightarrow> Proxy \<Rightarrow> Request \<Rightarrow> string \<Rightarrow> (s3Error + completeResult) req" where
  "completeMultipartUpload unmarshal p q uploadID =
     rpure (prepare_complete unmarshal p q uploadID) (\<lambda>(token, sk, dek, requested, ifMatch, ifNoneMatch).
     ListPartsR (qBucket q) sk (tUploadID token) (\<lambda>r.
     rpure (emap_err no_upload r) (\<lambda>stored.
     rpure (matchParts p token requested stored) (\<lambda>uploaded.
     rpure (emap_err parts_error (PartsFromUpstream uploaded (gLog2C p))) (\<lambda>parts.
     observedManifestR p (qBucket q) sk (\<lambda>observed.
     let m = \<lparr>Bucket = qBucket q, MKey = sk, MID = tManifestID token, Parts = parts, legacy = False\<rparr> in
     writeManifestR m dek (\<lambda>r.
     rpure (emap_err translateUpstream r) (\<lambda>_.
     CompleteR \<lparr>ciBucket = qBucket q, ciKey = sk, ciUploadID = tUploadID token,
         ciParts = map (\<lambda>u. \<lparr>cpPartNumber = uint (upNumber u), cpETag = upETag u\<rparr>) uploaded,
         ciIfMatch = ifMatch, ciIfNoneMatch = ifNoneMatch\<rparr> (\<lambda>r.
     rpure (emap_err no_upload r) (\<lambda>out.
     cleanup_replaced p (qBucket q) sk token observed (\<lambda>discarded.
       (if discarded then id else recordR (qNow q) (qBucket q) (qKey q) (manifestSalts m))
         (Reply (Inr (complete_reply q out))))))))))))))"

section \<open>The other calls\<close>

definition abortMultipartUpload :: "Proxy \<Rightarrow> Request \<Rightarrow> string \<Rightarrow> (s3Error + reply) req" where
  "abortMultipartUpload p q uploadID =
     rpure (openToken p q uploadID) (\<lambda>(token, sk).
     AbortR (qBucket q) sk (tUploadID token) (\<lambda>e.
       case e of
         Some x \<Rightarrow> Reply (Inl (translateUpstream x))
       | None \<Rightarrow> Reply (Inr \<lparr>pStatus = 204, pHeader = qReply q, pBody = [], pAborted = False\<rparr>)))"

record listPartsResult =
  lrBucket :: string
  lrKey :: string
  lrUploadID :: string
  lrParts :: "UpstreamPart list"

definition listed_size :: "Proxy \<Rightarrow> UpstreamPart \<Rightarrow> UpstreamPart" where
  "listed_size p s = (case OpenedSize (lpSize s) (gLog2C p) of Inr n \<Rightarrow> s\<lparr>lpSize := n\<rparr> | Inl _ \<Rightarrow> s)"

definition listParts :: "Proxy \<Rightarrow> Request \<Rightarrow> string \<Rightarrow> (s3Error + listPartsResult) req" where
  "listParts p q uploadID =
     rpure (openToken p q uploadID) (\<lambda>(token, sk).
     ListPartsR (qBucket q) sk (tUploadID token) (\<lambda>r.
     rpure (emap_err no_upload r) (\<lambda>stored.
       Reply (Inr \<lparr>lrBucket = qBucket q, lrKey = qKey q, lrUploadID = uploadID, lrParts = map (listed_size p) stored\<rparr>))))"

definition listMultipartUploads :: "(s3Error + unit) req" where
  "listMultipartUploads = Reply (Inl (WithMessage api_NotImplemented
     ''ListMultipartUploads is not implemented: the upload ids this gateway issues are sealed tokens that cannot be recovered from the provider's listing''))"


section \<open>Properties of the completion\<close>

lemma match_parts_Inr:
  "match_parts p token stored previous wants = Inr ups \<longleftrightarrow>
     sorted_wrt (<) (previous # map rpPartNumber wants) \<and>
     list_all2 (\<lambda>want up. \<exists>have e salt. stored_part stored (rpPartNumber want) = Some have \<and>
         OpenPartTag (gKeys p) (tKID token) (rpETag want) (rpPartNumber want) = Inr (e, salt) \<and>
         up = \<lparr>upNumber = word_of_int (rpPartNumber want), CipherSize = lpSize have, upETag = lpETag have, upSalt = salt\<rparr>) wants ups"
proof (induction wants arbitrary: previous ups)
  case (Cons want wants)
  have s: "sorted_wrt (<) (previous # n # ns) \<longleftrightarrow> previous < n \<and> sorted_wrt (<) (n # ns)" for n :: int and ns by auto
  show ?case
    unfolding match_parts.simps list.map s
    by (auto simp: result_simps Cons.IH list_all2_Cons1 simp del: sorted_wrt.simps split: option.split if_split)
qed auto

lemma match_parts_salts:
  "match_parts p token stored n wants = Inr ups \<Longrightarrow> u \<in> set ups \<Longrightarrow> length (upSalt u) = SaltSize"
proof (induction wants arbitrary: n ups)
  case (Cons want wants)
  from Cons.prems(1) obtain h where s: "OpenPartTag (gKeys p) (tKID token) (rpETag want) (rpPartNumber want) = Inr (h, upSalt (hd ups))"
      "match_parts p token stored (rpPartNumber want) wants = Inr (tl ups)" "ups = hd ups # tl ups"
    by (auto simp: result_simps split: if_splits option.splits)
  have "length (upSalt (hd ups)) = SaltSize"
    using s(1) by (auto simp: OpenPartTag_def result_simps split: option.splits sum.splits if_splits)
  moreover have "u = hd ups \<or> u \<in> set (tl ups)" using Cons.prems(2) s(3) by (metis set_ConsD)
  ultimately show ?case using Cons.IH [OF s(2)] by blast
qed simp

lemma convert_parts_salts: "convert_parts l ups = Inr ps \<Longrightarrow> map Salt ps = map upSalt ups"
  by (induction ups arbitrary: ps) (auto simp: Let_def result_simps split: if_splits sum.splits)

lemma PartsFromUpstream_salts: "PartsFromUpstream ups l = Inr ps \<Longrightarrow> map Salt ps = map upSalt ups"
  by (auto simp: PartsFromUpstream_def echeck_def result_simps dest: convert_parts_salts split: option.splits if_splits)

text \<open>C27: What \<open>matchParts\<close> makes of the part list of a completion. It accepts the list exactly if the numbers are
  positive and strictly ascending, the provider holds every part and every tag opens for its part; what it hands on is then, in the order
  of the request, the size and ETag the provider reports for the part and the salt sealed in the client's tag. The rules on the sizes
  of the parts are checked after it, by \<open>PartsFromUpstream\<close>, and can still refuse the completion.\<close>

theorem match_parts_exact:
  "matchParts p token requested stored = Inr ups \<longleftrightarrow>
     sorted_wrt (<) (0 # map rpPartNumber requested) \<and>
     list_all2 (\<lambda>want up. \<exists>have e salt. stored_part stored (rpPartNumber want) = Some have \<and>
         OpenPartTag (gKeys p) (tKID token) (rpETag want) (rpPartNumber want) = Inr (e, salt) \<and>
         up = \<lparr>upNumber = word_of_int (rpPartNumber want), CipherSize = lpSize have, upETag = lpETag have, upSalt = salt\<rparr>) requested ups"
  unfolding matchParts_def by (rule match_parts_Inr)



end
