(* ===== verification/Collect.thy ===== *)
theory Collect
  imports Requests "HOL-Library.AList"
begin

text \<open>
  The garbage collector, \<open>internal/gc/gc.go\<close>, as one request: it lists the manifests and the tag sidecars of a
  bucket and deletes those that belong to no visible object version, key by key, in the order of rule R4. Times are in
  nanoseconds. \<open>order\<close> is the order in which Go iterates over the map of the groups. A cancelled context, which ends the
  run between two keys, is a request that is dropped there; the clock is read once. Log lines and hooks are not modelled.
\<close>

definition DefaultMinAge :: int where "DefaultMinAge = 8 * 24 * 3600 * 10 ^ 9"

definition maxManifestBytes :: nat where "maxManifestBytes = 2 ^ 20"

record gcConfig =
  gcBucket :: string
  gcPrefix :: string
  gcMinAge :: int
  gcDisableMinAge :: bool
  gcDryRun :: bool
  gcNow :: int

record gcResult =
  ManifestsSeen :: nat
  KeysScanned :: nat
  KeysSkipped :: nat
  gcDeleted :: nat
  KeptCurrent :: nat
  KeptTooYoung :: nat
  KeptUnreadable :: nat
  gcErrors :: nat
  SidecarsSeen :: nat
  SidecarsDeleted :: nat
  SidecarsKeptCurrent :: nat
  SidecarsKeptTooYoung :: nat
  SidecarsKeptUnreadable :: nat

definition new_gcResult :: gcResult where
  "new_gcResult = \<lparr>ManifestsSeen = 0, KeysScanned = 0, KeysSkipped = 0, gcDeleted = 0, KeptCurrent = 0, KeptTooYoung = 0,
     KeptUnreadable = 0, gcErrors = 0, SidecarsSeen = 0, SidecarsDeleted = 0, SidecarsKeptCurrent = 0,
     SidecarsKeptTooYoung = 0, SidecarsKeptUnreadable = 0\<rparr>"

definition tooYoung :: "gcConfig \<Rightarrow> int option \<Rightarrow> bool" where
  "tooYoung c modified =
     (if gcDisableMinAge c then False
      else case modified of None \<Rightarrow> True | Some t \<Rightarrow> t > gcNow c - gcMinAge c)"

section \<open>Listing\<close>

record manifestEntry =
  meObjectKey :: string
  meID :: bytes
  meModified :: "int option"

definition splitManifestKey :: "string \<Rightarrow> (string \<times> bytes) option" where
  "splitManifestKey key =
     (if \<not> starts_with ManifestPrefix key then None
      else case cut_slash (drop (length ManifestPrefix) key) of
        None \<Rightarrow> None
      | Some (hash, rawID) \<Rightarrow>
          if length hash \<noteq> 64 \<or> CHR ''/'' \<in> set rawID then None
          else case ParseID rawID of Inl _ \<Rightarrow> None | Inr i \<Rightarrow> Some (hash, i))"

text \<open>\<open>groups[hash] = append(groups[hash], entry)\<close>.\<close>

definition group_add :: "string \<Rightarrow> 'e \<Rightarrow> (string \<times> 'e list) list \<Rightarrow> (string \<times> 'e list) list" where
  "group_add hash e groups =
     (case map_of groups hash of
        None \<Rightarrow> groups @ [(hash, [e])]
      | Some es \<Rightarrow> AList.update hash (es @ [e]) groups)"

fun group_manifests :: "ListedObject list \<Rightarrow> (string \<times> manifestEntry list) list \<Rightarrow> gcResult \<Rightarrow> (string \<times> manifestEntry list) list \<times> gcResult" where
  "group_manifests [] groups res = (groups, res)"
| "group_manifests (lo # los) groups res =
     (case splitManifestKey (loKey lo) of
        None \<Rightarrow> group_manifests los groups res
      | Some (hash, i) \<Rightarrow>
          group_manifests los (group_add hash \<lparr>meObjectKey = loKey lo, meID = i, meModified = loModified lo\<rparr> groups)
            (res\<lparr>ManifestsSeen := ManifestsSeen res + 1\<rparr>))"

definition listManifests ::
  "gcConfig \<Rightarrow> ((string \<times> manifestEntry list) list \<Rightarrow> gcResult \<Rightarrow> (err + gcResult) req) \<Rightarrow> (err + gcResult) req" where
  "listManifests c next =
     ListR (gcBucket c) ManifestPrefix (\<lambda>r.
       case r of
         Inl e \<Rightarrow> Reply (Inl (Errorf ''gc: listing manifests: %w'' [e]))
       | Inr los \<Rightarrow> case_prod next (group_manifests los [] new_gcResult))"

record sidecarEntry =
  seObjectKey :: string
  seBinding :: string
  seModified :: "int option"

fun group_sidecars :: "ListedObject list \<Rightarrow> (string \<times> sidecarEntry list) list \<Rightarrow> gcResult \<Rightarrow> (string \<times> sidecarEntry list) list \<times> gcResult" where
  "group_sidecars [] groups res = (groups, res)"
| "group_sidecars (lo # los) groups res =
     (case SplitPath (loKey lo) of
        None \<Rightarrow> group_sidecars los groups res
      | Some (hash, b) \<Rightarrow>
          group_sidecars los (group_add hash \<lparr>seObjectKey = loKey lo, seBinding = b, seModified = loModified lo\<rparr> groups)
            (res\<lparr>SidecarsSeen := SidecarsSeen res + 1\<rparr>))"

definition listSidecars ::
  "gcConfig \<Rightarrow> gcResult \<Rightarrow> ((string \<times> sidecarEntry list) list \<Rightarrow> gcResult \<Rightarrow> (err + gcResult) req) \<Rightarrow> (err + gcResult) req" where
  "listSidecars c res next =
     ListR (gcBucket c) TagPrefix (\<lambda>r.
       case r of
         Inl e \<Rightarrow> Reply (Inl (Errorf ''gc: listing tag sidecars: %w'' [e]))
       | Inr los \<Rightarrow> case_prod next (group_sidecars los [] res))"

section \<open>Manifests\<close>

fun resolveObjectKey :: "gcConfig \<Rightarrow> manifestEntry list \<Rightarrow> (string option \<Rightarrow> 'a req) \<Rightarrow> 'a req" where
  "resolveObjectKey c [] next = next None"
| "resolveObjectKey c (e # es) next =
     GetR (get_input (gcBucket c) (meObjectKey e)) (\<lambda>r.
       case r of
         Inl _ \<Rightarrow> resolveObjectKey c es next
       | Inr out \<Rightarrow>
           (case read_all (limit_reader (oBody out) maxManifestBytes) of
              Inl _ \<Rightarrow> resolveObjectKey c es next
            | Inr rw \<Rightarrow>
                (case PeekIdentity rw of
                   Inl _ \<Rightarrow> resolveObjectKey c es next
                 | Inr (_, key, _) \<Rightarrow>
                     if \<not> MatchesLocation key (meObjectKey e) then resolveObjectKey c es next else next (Some key))))"

text \<open>The id of the visible object's manifest, if it has one; an error if the answer does not say.\<close>

definition head_mid :: "ObjectInfo result \<Rightarrow> bytes option result" where
  "head_mid r =
     (case r of
        Inl e \<Rightarrow> if upstream_NotFound e then Inr None else Inl e
      | Inr info \<Rightarrow>
          (case List.find (\<lambda>(name, _). EqualFold name ''bb-mid'') (iMetadata info) of
             None \<Rightarrow> Inr None
           | Some (_, v) \<Rightarrow>
               (case ParseID v of
                  Inl e \<Rightarrow> Inl (Errorf ''the object's bb-mid %q does not parse: %w'' [e])
                | Inr i \<Rightarrow> Inr (Some i))))"

definition currentManifestID :: "gcConfig \<Rightarrow> string \<Rightarrow> (bytes option result \<Rightarrow> 'a req) \<Rightarrow> 'a req" where
  "currentManifestID c key next = HeadR (gcBucket c) key (\<lambda>r. next (head_mid r))"

fun delete_manifests :: "gcConfig \<Rightarrow> bytes option \<Rightarrow> manifestEntry list \<Rightarrow> gcResult \<Rightarrow> (gcResult \<Rightarrow> 'a req) \<Rightarrow> 'a req" where
  "delete_manifests c current [] res next = next res"
| "delete_manifests c current (e # es) res next =
     (if current = Some (meID e) then delete_manifests c current es (res\<lparr>KeptCurrent := KeptCurrent res + 1\<rparr>) next
      else if tooYoung c (meModified e) then delete_manifests c current es (res\<lparr>KeptTooYoung := KeptTooYoung res + 1\<rparr>) next
      else if gcDryRun c then delete_manifests c current es (res\<lparr>gcDeleted := gcDeleted res + 1\<rparr>) next
      else DeleteR (gcBucket c) (meObjectKey e) (\<lambda>r.
        case r of
          Some _ \<Rightarrow> delete_manifests c current es (res\<lparr>gcErrors := gcErrors res + 1\<rparr>) next
        | None \<Rightarrow> delete_manifests c current es (res\<lparr>gcDeleted := gcDeleted res + 1\<rparr>) next))"

definition collectKey :: "gcConfig \<Rightarrow> manifestEntry list \<Rightarrow> gcResult \<Rightarrow> (gcResult \<Rightarrow> 'a req) \<Rightarrow> 'a req" where
  "collectKey c entries res next =
     resolveObjectKey c entries (\<lambda>k.
       case k of
         None \<Rightarrow> next (res\<lparr>KeptUnreadable := KeptUnreadable res + length entries\<rparr>)
       | Some key \<Rightarrow>
           if gcPrefix c \<noteq> '''' \<and> \<not> starts_with (gcPrefix c) key then next res
           else let res = res\<lparr>KeysScanned := KeysScanned res + 1\<rparr> in
             UploadsR (gcBucket c) key (\<lambda>r.
               case r of
                 Inl _ \<Rightarrow> next (res\<lparr>gcErrors := gcErrors res + 1\<rparr>)
               | Inr uploads \<Rightarrow>
                   if list_ex (\<lambda>u. muKey u = key) uploads then next (res\<lparr>KeysSkipped := KeysSkipped res + 1\<rparr>)
                   else currentManifestID c key (\<lambda>r.
                     case r of
                       Inl _ \<Rightarrow> next (res\<lparr>gcErrors := gcErrors res + 1\<rparr>)
                     | Inr current \<Rightarrow> delete_manifests c current entries res next)))"

section \<open>Tag sidecars\<close>

fun resolveSidecarKey :: "gcConfig \<Rightarrow> sidecarEntry list \<Rightarrow> (string option \<Rightarrow> 'a req) \<Rightarrow> 'a req" where
  "resolveSidecarKey c [] next = next None"
| "resolveSidecarKey c (e # es) next =
     HeadR (gcBucket c) (seObjectKey e) (\<lambda>r.
       case r of
         Inl _ \<Rightarrow> resolveSidecarKey c es next
       | Inr info \<Rightarrow>
           (case StoredKeyOf (seObjectKey e) (iMetadata info) of
              Some key \<Rightarrow> next (Some key)
            | None \<Rightarrow> resolveSidecarKey c es next))"

definition head_binding :: "ObjectInfo result \<Rightarrow> string result" where
  "head_binding r =
     (case r of
        Inl e \<Rightarrow> if upstream_NotFound e then Inr '''' else Inl e
      | Inr info \<Rightarrow> let stored = StoredDEK (iMetadata info) in Inr (if stored \<noteq> '''' then BindingID stored else ''''))"

fun delete_sidecars :: "gcConfig \<Rightarrow> string \<Rightarrow> sidecarEntry list \<Rightarrow> gcResult \<Rightarrow> (gcResult \<Rightarrow> 'a req) \<Rightarrow> 'a req" where
  "delete_sidecars c current [] res next = next res"
| "delete_sidecars c current (e # es) res next =
     (if seBinding e = current then delete_sidecars c current es (res\<lparr>SidecarsKeptCurrent := SidecarsKeptCurrent res + 1\<rparr>) next
      else if tooYoung c (seModified e) then delete_sidecars c current es (res\<lparr>SidecarsKeptTooYoung := SidecarsKeptTooYoung res + 1\<rparr>) next
      else if gcDryRun c then delete_sidecars c current es (res\<lparr>SidecarsDeleted := SidecarsDeleted res + 1\<rparr>) next
      else DeleteR (gcBucket c) (seObjectKey e) (\<lambda>r.
        case r of
          Some _ \<Rightarrow> delete_sidecars c current es (res\<lparr>gcErrors := gcErrors res + 1\<rparr>) next
        | None \<Rightarrow> delete_sidecars c current es (res\<lparr>SidecarsDeleted := SidecarsDeleted res + 1\<rparr>) next))"

definition collectSidecars :: "gcConfig \<Rightarrow> sidecarEntry list \<Rightarrow> gcResult \<Rightarrow> (gcResult \<Rightarrow> 'a req) \<Rightarrow> 'a req" where
  "collectSidecars c entries res next =
     resolveSidecarKey c entries (\<lambda>k.
       case k of
         None \<Rightarrow> next (res\<lparr>SidecarsKeptUnreadable := SidecarsKeptUnreadable res + length entries\<rparr>)
       | Some key \<Rightarrow>
           if gcPrefix c \<noteq> '''' \<and> \<not> starts_with (gcPrefix c) key then next res
           else UploadsR (gcBucket c) key (\<lambda>r.
               case r of
                 Inl _ \<Rightarrow> next (res\<lparr>gcErrors := gcErrors res + 1\<rparr>)
               | Inr uploads \<Rightarrow>
                   if list_ex (\<lambda>u. muKey u = key) uploads then next (res\<lparr>KeysSkipped := KeysSkipped res + 1\<rparr>)
                   else HeadR (gcBucket c) key (\<lambda>r.
                     case head_binding r of
                       Inl _ \<Rightarrow> next (res\<lparr>gcErrors := gcErrors res + 1\<rparr>)
                     | Inr current \<Rightarrow> delete_sidecars c current entries res next)))"

section \<open>A run\<close>

fun collect_keys :: "gcConfig \<Rightarrow> manifestEntry list list \<Rightarrow> gcResult \<Rightarrow> (gcResult \<Rightarrow> 'a req) \<Rightarrow> 'a req" where
  "collect_keys c [] res next = next res"
| "collect_keys c (es # ess) res next = collectKey c es res (\<lambda>res. collect_keys c ess res next)"

fun collect_sidecars :: "gcConfig \<Rightarrow> sidecarEntry list list \<Rightarrow> gcResult \<Rightarrow> (gcResult \<Rightarrow> 'a req) \<Rightarrow> 'a req" where
  "collect_sidecars c [] res next = next res"
| "collect_sidecars c (es # ess) res next = collectSidecars c es res (\<lambda>res. collect_sidecars c ess res next)"

definition gc_Run ::
  "(manifestEntry list list \<Rightarrow> manifestEntry list list) \<Rightarrow> (sidecarEntry list list \<Rightarrow> sidecarEntry list list) \<Rightarrow> gcConfig \<Rightarrow> (err + gcResult) req" where
  "gc_Run order order' c =
     (if gcBucket c = '''' then Reply (Inl (Errorf ''gc: a bucket is required'' []))
      else let c = (if gcMinAge c = 0 then c\<lparr>gcMinAge := DefaultMinAge\<rparr> else c) in
        listManifests c (\<lambda>groups res.
        listSidecars c res (\<lambda>sidecars res.
        collect_keys c (order (map snd groups)) res (\<lambda>res.
        collect_sidecars c (order' (map snd sidecars)) res (\<lambda>res. Reply (Inr res))))))"

end
