(* ===== verification/ObjectStore.thy ===== *)
theory ObjectStore
  imports GatewayMultipart Collect
begin

text \<open>
  What the gateway relies on of an S3 provider when requests run concurrently: the store as objects and
  multipart uploads, and for every call of the upstream client the answers it may give and what it may do. Any call may fail, before or
  after it took effect; a write is atomic; a read tells the truth about one moment; a completion may be acknowledged and then
  discarded in favour of a newer write. \<open>Requests\<close> that run at the same time are interleaved call by call.
\<close>

section \<open>The store\<close>

record version =
  vMetadata :: "(string \<times> string) list"
  vBody :: bytes

record stored_upload =
  suBucket :: string
  suKey :: string
  suMetadata :: "(string \<times> string) list"
  suOpen :: bool
  suParts :: "int \<rightharpoonup> string \<times> bytes"

text \<open>\<open>uploads\<close> keeps closed uploads, because their ids are never used again, and \<open>everHeld\<close> the keys that have ever
  held an object.\<close>

record s3 =
  objects :: "string \<times> string \<rightharpoonup> version"
  uploads :: "string \<rightharpoonup> stored_upload"
  everHeld :: "(string \<times> string) set"

definition empty_s3 :: s3 where
  "empty_s3 = \<lparr>objects = Map.empty, uploads = Map.empty, everHeld = {}\<rparr>"

definition s3_put :: "string \<Rightarrow> string \<Rightarrow> version \<Rightarrow> s3 \<Rightarrow> s3" where
  "s3_put b k v s = s\<lparr>objects := (objects s)((b, k) \<mapsto> v), everHeld := insert (b, k) (everHeld s)\<rparr>"

definition s3_delete :: "string \<Rightarrow> string \<Rightarrow> s3 \<Rightarrow> s3" where
  "s3_delete b k s = s\<lparr>objects := (objects s)((b, k) := None)\<rparr>"

definition s3_upload :: "string \<Rightarrow> stored_upload \<Rightarrow> s3 \<Rightarrow> s3" where
  "s3_upload u su s = s\<lparr>uploads := (uploads s)(u \<mapsto> su)\<rparr>"

definition close_upload :: "string \<Rightarrow> s3 \<Rightarrow> s3" where
  "close_upload u s = s\<lparr>uploads := (uploads s)(u := map_option (suOpen_update (\<lambda>_. False)) (uploads s u))\<rparr>"

text \<open>The manifest id in the metadata of an object or upload.\<close>

definition mid_of :: "(string \<times> string) list \<Rightarrow> bytes option" where
  "mid_of md =
     (case List.find (\<lambda>(name, _). EqualFold name ''bb-mid'') md of
        None \<Rightarrow> None
      | Some (_, v) \<Rightarrow> (case ParseID v of Inl _ \<Rightarrow> None | Inr i \<Rightarrow> Some i))"

definition visible_mid :: "s3 \<Rightarrow> string \<Rightarrow> string \<Rightarrow> bytes option" where
  "visible_mid s b k = (case objects s (b, k) of None \<Rightarrow> None | Some v \<Rightarrow> mid_of (vMetadata v))"

section \<open>The calls\<close>

definition does_head :: "s3 \<Rightarrow> string \<Rightarrow> string \<Rightarrow> ObjectInfo result \<Rightarrow> bool" where
  "does_head s b k r \<longleftrightarrow>
     (case r of
        Inl e \<Rightarrow> upstream_NotFound e \<longrightarrow> objects s (b, k) = None
      | Inr info \<Rightarrow> \<exists>v. objects s (b, k) = Some v \<and> iMetadata info = vMetadata v \<and> iContentLength info = int (length (vBody v)))"

definition does_get :: "s3 \<Rightarrow> GetObjectInput \<Rightarrow> GetObjectOutput result \<Rightarrow> bool" where
  "does_get s i r \<longleftrightarrow>
     (case r of
        Inl e \<Rightarrow> upstream_NotFound e \<longrightarrow> objects s (giBucket i, giKey i) = None
      | Inr out \<Rightarrow> \<exists>v. objects s (giBucket i, giKey i) = Some v \<and> oMetadata out = vMetadata v \<and>
          (giRange i = '''' \<longrightarrow> oContentLength out = int (length (vBody v)) \<and>
            src_data (oBody out) = take (length (src_data (oBody out))) (vBody v) \<and>
            (src_end (oBody out) = Sentinel EOF \<longrightarrow> src_data (oBody out) = vBody v)))"

definition does_put :: "s3 \<Rightarrow> PutObjectInput \<Rightarrow> source \<Rightarrow> PutObjectOutput result \<Rightarrow> s3 \<Rightarrow> bool" where
  "does_put s i d r s' \<longleftrightarrow>
     (s' = s \<and> \<not> is_ok r) \<or>
     (src_end d = Sentinel EOF \<and> s' = s3_put (piBucket i) (piKey i) \<lparr>vMetadata = piMetadata i, vBody = src_data d\<rparr> s)"

definition does_delete :: "s3 \<Rightarrow> string \<Rightarrow> string \<Rightarrow> err option \<Rightarrow> s3 \<Rightarrow> bool" where
  "does_delete s b k r s' \<longleftrightarrow> (s' = s \<and> r \<noteq> None) \<or> s' = s3_delete b k s"

text \<open>
  A new upload gets an id that was never used. The id of its manifest, 16 random bytes, is taken to differ from
  the ids of all other uploads, and its key not to collide with another key under SHA-256.
\<close>

definition collides :: "s3 \<Rightarrow> string \<Rightarrow> (string \<times> string) list \<Rightarrow> bool" where
  "collides s k md \<longleftrightarrow>
     (\<exists>u su. uploads s u = Some su \<and>
        ((mid_of md \<noteq> None \<and> mid_of (suMetadata su) = mid_of md) \<or> (PrefixFor (suKey su) = PrefixFor k \<and> suKey su \<noteq> k)))"

definition does_create :: "s3 \<Rightarrow> CreateMultipartUploadInput \<Rightarrow> string result \<Rightarrow> s3 \<Rightarrow> bool" where
  "does_create s i r s' \<longleftrightarrow>
     (s' = s \<and> \<not> is_ok r) \<or>
     (\<exists>u. uploads s u = None \<and> \<not> collides s (cuKey i) (cuMetadata i) \<and> (is_ok r \<longrightarrow> r = Inr u) \<and>
        s' = s3_upload u \<lparr>suBucket = cuBucket i, suKey = cuKey i, suMetadata = cuMetadata i, suOpen = True, suParts = Map.empty\<rparr> s)"

definition open_upload :: "s3 \<Rightarrow> string \<Rightarrow> string \<Rightarrow> string \<Rightarrow> stored_upload \<Rightarrow> bool" where
  "open_upload s b k u su \<longleftrightarrow> uploads s u = Some su \<and> suOpen su \<and> suBucket su = b \<and> suKey su = k"

definition does_part :: "s3 \<Rightarrow> UploadPartInput \<Rightarrow> source \<Rightarrow> string result \<Rightarrow> s3 \<Rightarrow> bool" where
  "does_part s i d r s' \<longleftrightarrow>
     (s' = s \<and> \<not> is_ok r) \<or>
     (\<exists>su tg. open_upload s (uiBucket i) (uiKey i) (uiUploadID i) su \<and> src_end d = Sentinel EOF \<and> (is_ok r \<longrightarrow> r = Inr tg) \<and>
        s' = s3_upload (uiUploadID i) (su\<lparr>suParts := (suParts su)(uiPartNumber i \<mapsto> (tg, src_data d))\<rparr>) s)"

definition does_list_parts :: "s3 \<Rightarrow> string \<Rightarrow> string \<Rightarrow> string \<Rightarrow> UpstreamPart list result \<Rightarrow> bool" where
  "does_list_parts s b k u r \<longleftrightarrow>
     (case r of
        Inl _ \<Rightarrow> True
      | Inr ps \<Rightarrow> \<exists>su. open_upload s b k u su \<and>
          (\<forall>n. stored_part ps n = map_option (\<lambda>(tg, d). \<lparr>lpPartNumber = n, lpETag = tg, lpSize = int (length d)\<rparr>) (suParts su n)))"

text \<open>The body of the completed object; \<open>None\<close> if a part is not there, or not with that ETag.\<close>

fun assemble :: "(int \<rightharpoonup> string \<times> bytes) \<Rightarrow> CompletedPart list \<Rightarrow> bytes option" where
  "assemble parts [] = Some []"
| "assemble parts (c # cs) =
     (case parts (cpPartNumber c) of
        None \<Rightarrow> None
      | Some (tg, d) \<Rightarrow> if tg = cpETag c then map_option ((@) d) (assemble parts cs) else None)"

definition does_complete :: "s3 \<Rightarrow> CompleteMultipartUploadInput \<Rightarrow> CompleteMultipartUploadOutput result \<Rightarrow> s3 \<Rightarrow> bool" where
  "does_complete s i r s' \<longleftrightarrow>
     (s' = s \<and> \<not> is_ok r) \<or>
     (\<exists>su body. open_upload s (ciBucket i) (ciKey i) (ciUploadID i) su \<and> assemble (suParts su) (ciParts i) = Some body \<and>
        (s' = close_upload (ciUploadID i) s \<or>
         s' = s3_put (ciBucket i) (ciKey i) \<lparr>vMetadata = suMetadata su, vBody = body\<rparr> (close_upload (ciUploadID i) s)))"

definition does_abort :: "s3 \<Rightarrow> string \<Rightarrow> string \<Rightarrow> string \<Rightarrow> err option \<Rightarrow> s3 \<Rightarrow> bool" where
  "does_abort s b k u r s' \<longleftrightarrow> s' = s \<or> s' = close_upload u s"

text \<open>The pages of a listing are read one after the other, so it may name what was there at any time.\<close>

definition does_list :: "s3 \<Rightarrow> string \<Rightarrow> string \<Rightarrow> ListedObject list result \<Rightarrow> bool" where
  "does_list s b pre r \<longleftrightarrow>
     (case r of Inl _ \<Rightarrow> True | Inr los \<Rightarrow> \<forall>lo\<in>set los. (b, loKey lo) \<in> everHeld s \<and> starts_with pre (loKey lo))"

definition does_uploads :: "s3 \<Rightarrow> string \<Rightarrow> string \<Rightarrow> MultipartUpload list result \<Rightarrow> bool" where
  "does_uploads s b pre r \<longleftrightarrow>
     (case r of
        Inl _ \<Rightarrow> True
      | Inr us \<Rightarrow> \<forall>u su. uploads s u = Some su \<and> suOpen su \<and> suBucket su = b \<and> starts_with pre (suKey su) \<longrightarrow>
          (\<exists>mu\<in>set us. muKey mu = suKey su \<and> muUploadID mu = u))"

section \<open>Steps\<close>

inductive step :: "s3 \<times> 'a req \<Rightarrow> s3 \<times> 'a req \<Rightarrow> bool" where
  head: "does_head s b k r \<Longrightarrow> step (s, HeadR b k c) (s, c r)"
| get: "does_get s i r \<Longrightarrow> step (s, GetR i c) (s, c r)"
| put: "does_put s i (d t) r s' \<Longrightarrow> step (s, PutR i d c) (s', c t r)"
| delete: "does_delete s b k r s' \<Longrightarrow> step (s, DeleteR b k c) (s', c r)"
| create: "does_create s i r s' \<Longrightarrow> step (s, CreateR i c) (s', c r)"
| part: "does_part s i (d t) r s' \<Longrightarrow> step (s, PartR i d c) (s', c t r)"
| list_parts: "does_list_parts s b k u r \<Longrightarrow> step (s, ListPartsR b k u c) (s, c r)"
| complete: "does_complete s i r s' \<Longrightarrow> step (s, CompleteR i c) (s', c r)"
| abort: "does_abort s b k u r s' \<Longrightarrow> step (s, AbortR b k u c) (s', c r)"
| list: "does_list s b pre r \<Longrightarrow> step (s, ListR b pre c) (s, c r)"
| uploads: "does_uploads s b pre r \<Longrightarrow> step (s, UploadsR b pre c) (s, c r)"
| index: "step (s, IndexR g c) (s, c)"

inductive_simps step_simps:
  "step (s, Reply x) y" "step (s, HeadR b k c) y" "step (s, GetR i c) y" "step (s, PutR i d c) y" "step (s, DeleteR b k c) y"
  "step (s, CreateR i c) y" "step (s, PartR i d c) y" "step (s, ListPartsR b k u c) y" "step (s, CompleteR i c) y"
  "step (s, AbortR b k u c) y" "step (s, ListR b pre c) y" "step (s, UploadsR b pre c) y" "step (s, IndexR g c) y"

section \<open>Interference\<close>

text \<open>
  A request is \<open>safe\<close> in a state if, whatever other requests do to the store between its calls within \<open>evolves\<close>, each of its own calls keeps the
  invariant and is such a change itself.
\<close>

inductive safe :: "(s3 \<Rightarrow> bool) \<Rightarrow> (s3 \<Rightarrow> s3 \<Rightarrow> bool) \<Rightarrow> s3 \<Rightarrow> 'a req \<Rightarrow> bool" for inv evolves where
  safeI: "(\<And>s1 s2 p'. evolves s s1 \<Longrightarrow> inv s1 \<Longrightarrow> step (s1, p) (s2, p') \<Longrightarrow>
             inv s2 \<and> evolves s1 s2 \<and> safe inv evolves s2 p') \<Longrightarrow> safe inv evolves s p"

text \<open>
  A running system: the store and the requests in progress. A request may start if it is \<open>admitted\<close>, makes its calls one by one, and may be dropped at any
  point, as when an instance of the gateway crashes; the provider may abort open uploads on its own (the lifecycle rule of the bucket).
\<close>

inductive reachable :: "(s3 \<Rightarrow> unit req \<Rightarrow> bool) \<Rightarrow> s3 \<Rightarrow> s3 \<Rightarrow> (nat \<rightharpoonup> unit req) \<Rightarrow> bool" for admitted s0 where
  start: "reachable admitted s0 s0 Map.empty"
| admit: "reachable admitted s0 s ps \<Longrightarrow> ps t = None \<Longrightarrow> admitted s p \<Longrightarrow> reachable admitted s0 s (ps(t \<mapsto> p))"
| call: "reachable admitted s0 s ps \<Longrightarrow> ps t = Some p \<Longrightarrow> step (s, p) (s', p') \<Longrightarrow> reachable admitted s0 s' (ps(t \<mapsto> p'))"
| drop: "reachable admitted s0 s ps \<Longrightarrow> reachable admitted s0 s (ps(t := None))"
| lifecycle: "reachable admitted s0 s ps \<Longrightarrow> reachable admitted s0 (close_upload u s) ps"

locale interference =
  fixes inv :: "s3 \<Rightarrow> bool"
    and evolves :: "s3 \<Rightarrow> s3 \<Rightarrow> bool"
    and admitted :: "s3 \<Rightarrow> unit req \<Rightarrow> bool"
  assumes evolves_refl: "evolves s s"
    and evolves_trans: "evolves s s1 \<Longrightarrow> evolves s1 s2 \<Longrightarrow> evolves s s2"
    and lifecycle_ok: "inv s \<Longrightarrow> inv (close_upload u s) \<and> evolves s (close_upload u s)"
    and admitted_safe: "inv s \<Longrightarrow> admitted s p \<Longrightarrow> safe inv evolves s p"
begin

lemma safe_evolves: "safe inv evolves s p \<Longrightarrow> evolves s s' \<Longrightarrow> safe inv evolves s' p"
  by (erule safe.cases) (rule safeI, use evolves_trans in blast)

lemma safe_step:
  assumes "safe inv evolves s p" and "inv s" and "step (s, p) (s', p')"
  shows "inv s' \<and> evolves s s' \<and> safe inv evolves s' p'"
  using assms evolves_refl by (blast elim: safe.cases)

lemma reachable_safe:
  assumes "reachable admitted s0 s ps" and "inv s0"
  shows "inv s \<and> (\<forall>t p. ps t = Some p \<longrightarrow> safe inv evolves s p)"
  using assms
proof (induction rule: reachable.induct)
  case (admit s ps t p)
  then show ?case using admitted_safe by simp
next
  case (call s ps t p s' p')
  then have "inv s' \<and> evolves s s' \<and> safe inv evolves s' p'" using safe_step by blast
  moreover have "safe inv evolves s' q" if "ps t' = Some q" for t' q
    using call.IH [OF call.prems] that calculation safe_evolves by blast
  ultimately show ?case by simp
next
  case (lifecycle s ps u)
  then show ?case using lifecycle_ok safe_evolves by blast
qed simp_all

end

end
