(* ===== verification/Coordination.thy ===== *)
theory Coordination
  imports ObjectStore
begin

text \<open>
  Concurrent requests and the garbage collector on one provider: the rules R1 to R4 of ADR-010 keep the invariant that every
  visible multipart object has its manifest, for any number of requests in any interleaving, with crashes, failed and lost calls and
  discarded completions. (The TLA+ model in \<open>spec/tla/Multipart.tla\<close> checks the design for three uploads; here the requests are the handlers.)
\<close>

section \<open>Manifest ids and keys\<close>

lemma ParseID_empty: "\<exists>e. ParseID '''' = Inl e"
proof -
  have "length (b64url_EncodeToString []) = 0" by (simp add: length_b64url)
  then have "b64url_DecodeString '''' = Inr []" using b64url.decode_encode [of "[]"] by simp
  then show ?thesis by (simp add: ParseID_def)
qed

lemma mid_of_lookup: "mid_of md = (case ParseID (lookup_meta md metaManifestID) of Inl _ \<Rightarrow> None | Inr i \<Rightarrow> Some i)"
  using ParseID_empty by (auto simp: mid_of_def lookup_meta_def metaManifestID_def split: option.split)

lemma mid_of_length: "mid_of md = Some i \<Longrightarrow> length i = IDSize"
  by (auto simp: mid_of_lookup dest: ParseID_length split: sum.splits)

lemma Parse_mid: "Parse md l = Inr meta \<Longrightarrow> mid_of md = (if mMultipart meta then Some (mManifestID meta) else None)"
  using ParseID_empty
  by (auto simp: mid_of_lookup Parse_def echeck_def Let_def result_simps split: if_splits sum.splits option.splits)

lemma hex_length: "length (hex_EncodeToString (sha256 (bytes_of k))) = 64"
  by simp

lemma append_inj: "a @ x @ b = a' @ x @ b' \<Longrightarrow> length a = length a' \<Longrightarrow> a = a' \<and> b = b'"
  by simp

lemma ObjectKey_inj: "ObjectKey m k = ObjectKey m' k' \<Longrightarrow> m = m' \<and> PrefixFor k = PrefixFor k'"
proof -
  assume "ObjectKey m k = ObjectKey m' k'"
  then have "hex_EncodeToString (sha256 (bytes_of k)) @ ''/'' @ ID_String m = hex_EncodeToString (sha256 (bytes_of k')) @ ''/'' @ ID_String m'"
    by (simp only: ObjectKey_def append_assoc same_append_eq)
  then have "hex_EncodeToString (sha256 (bytes_of k)) = hex_EncodeToString (sha256 (bytes_of k')) \<and> ID_String m = ID_String m'"
    by (rule append_inj) (simp only: hex_length)
  then show ?thesis by (simp only: PrefixFor_def ID_String_def b64url.encode_inj)
qed

lemma cut_slash_append: "CHR ''/'' \<notin> set a \<Longrightarrow> cut_slash (a @ CHR ''/'' # b) = Some (a, b)"
  by (induction a) (auto simp: cut_slash_def)

lemma splitManifestKey_ObjectKey:
  assumes "length m = IDSize"
  shows "splitManifestKey (ObjectKey m k) = Some (hex_EncodeToString (sha256 (bytes_of k)), m)"
proof -
  have d: "drop (length ManifestPrefix) (ObjectKey m k) = hex_EncodeToString (sha256 (bytes_of k)) @ CHR ''/'' # ID_String m"
    by (simp only: ObjectKey_def append_eq_conv_conj [symmetric]) simp
  have "starts_with ManifestPrefix (ObjectKey m k)" by (simp add: starts_with_def ObjectKey_def)
  moreover have "CHR ''/'' \<notin> set (ID_String m)" using set_b64url [of m] by (auto simp: ID_String_def base64url_alphabet_def)
  ultimately show ?thesis
    using ParseID_String [OF assms]
    by (simp only: splitManifestKey_def d cut_slash_append [OF hex_no_slash] hex_length option.case prod.case sum.case) simp
qed

lemma splitManifestKey_prefix: "splitManifestKey key = Some x \<Longrightarrow> starts_with ManifestPrefix key"
  by (auto simp: splitManifestKey_def split: if_splits)

definition reserved :: "string \<Rightarrow> bool" where
  "reserved k \<longleftrightarrow> starts_with ''.blindbucket/'' k"

lemma manifest_reserved: "starts_with ManifestPrefix k \<Longrightarrow> reserved k"
proof -
  assume "starts_with ManifestPrefix k"
  then have "take 13 (take (length ManifestPrefix) k) = take 13 ManifestPrefix" by (simp only: starts_with_def)
  then show "reserved k" by (simp add: reserved_def starts_with_def ManifestPrefix_def)
qed

section \<open>The invariant\<close>

text \<open>
  A manifest id is \<open>owned\<close> by the key of the upload it was minted for; it is \<open>spent\<close> once that upload is closed, and \<open>retired\<close>
  when moreover no object shows it: it can then never be shown again. Only the manifest of a retired id may be deleted.
\<close>

definition owned :: "s3 \<Rightarrow> string \<Rightarrow> string \<Rightarrow> bytes \<Rightarrow> bool" where
  "owned s b k m \<longleftrightarrow> (\<exists>u su. uploads s u = Some su \<and> suBucket su = b \<and> suKey su = k \<and> mid_of (suMetadata su) = Some m)"

definition spent :: "s3 \<Rightarrow> string \<Rightarrow> string \<Rightarrow> bytes \<Rightarrow> bool" where
  "spent s b k m \<longleftrightarrow> owned s b k m \<and> (\<forall>u su. uploads s u = Some su \<and> mid_of (suMetadata su) = Some m \<longrightarrow> \<not> suOpen su)"

definition retired :: "s3 \<Rightarrow> string \<Rightarrow> string \<Rightarrow> bytes \<Rightarrow> bool" where
  "retired s b k m \<longleftrightarrow> spent s b k m \<and> visible_mid s b k \<noteq> Some m"

definition has_manifest :: "s3 \<Rightarrow> string \<Rightarrow> string \<Rightarrow> bytes \<Rightarrow> bool" where
  "has_manifest s b k m \<longleftrightarrow> objects s (b, ObjectKey m k) \<noteq> None"

definition upload_evolves :: "stored_upload \<Rightarrow> stored_upload \<Rightarrow> bool" where
  "upload_evolves su su' \<longleftrightarrow> suBucket su' = suBucket su \<and> suKey su' = suKey su \<and> suMetadata su' = suMetadata su \<and>
     (suOpen su' \<longrightarrow> suOpen su)"

definition grows :: "s3 \<Rightarrow> s3 \<Rightarrow> bool" where
  "grows s s' \<longleftrightarrow>
     (\<forall>u su. uploads s u = Some su \<longrightarrow> (\<exists>su'. uploads s' u = Some su' \<and> upload_evolves su su')) \<and>
     (\<forall>u su' v sv m. uploads s' u = Some su' \<and> uploads s u = None \<and> uploads s v = Some sv \<and> mid_of (suMetadata su') = Some m \<longrightarrow>
        mid_of (suMetadata sv) \<noteq> Some m)"

definition evolves :: "s3 \<Rightarrow> s3 \<Rightarrow> bool" where
  "evolves s s' \<longleftrightarrow> grows s s' \<and>
     (\<forall>b k m. retired s b k m \<longrightarrow> retired s' b k m) \<and>
     (\<forall>b k m. owned s b k m \<and> has_manifest s b k m \<longrightarrow> has_manifest s' b k m \<or> retired s' b k m) \<and>
     everHeld s \<subseteq> everHeld s'"

definition shown_ok :: "s3 \<Rightarrow> bool" where
  "shown_ok s \<longleftrightarrow> (\<forall>b k m. visible_mid s b k = Some m \<longrightarrow> has_manifest s b k m \<and> spent s b k m)"

definition uploads_ok :: "s3 \<Rightarrow> bool" where
  "uploads_ok s \<longleftrightarrow>
     (\<forall>u su. uploads s u = Some su \<longrightarrow> \<not> reserved (suKey su)) \<and>
     (\<forall>u su v sv m. uploads s u = Some su \<and> uploads s v = Some sv \<and> mid_of (suMetadata su) = Some m \<and>
        mid_of (suMetadata sv) = Some m \<longrightarrow> u = v) \<and>
     (\<forall>u su v sv. uploads s u = Some su \<and> uploads s v = Some sv \<and> PrefixFor (suKey su) = PrefixFor (suKey sv) \<longrightarrow> suKey su = suKey sv)"

definition manifests_ok :: "s3 \<Rightarrow> bool" where
  "manifests_ok s \<longleftrightarrow>
     dom (objects s) \<subseteq> everHeld s \<and>
     (\<forall>b key h m. (b, key) \<in> everHeld s \<and> splitManifestKey key = Some (h, m) \<longrightarrow> (\<exists>k. owned s b k m \<and> key = ObjectKey m k)) \<and>
     (\<forall>b key h m v b' k' m'. objects s (b, key) = Some v \<and> splitManifestKey key = Some (h, m) \<and>
        PeekIdentity (take maxManifestBytes (vBody v)) = Inr (b', k', m') \<longrightarrow> owned s b k' m)"

definition inv :: "s3 \<Rightarrow> bool" where
  "inv s \<longleftrightarrow> shown_ok s \<and> uploads_ok s \<and> manifests_ok s"

lemma inv_empty: "inv empty_s3"
  by (simp add: inv_def shown_ok_def uploads_ok_def manifests_ok_def empty_s3_def visible_mid_def)

lemma grows_uploads: "grows s s' \<Longrightarrow> uploads s u = Some su \<Longrightarrow> \<exists>su'. uploads s' u = Some su' \<and> upload_evolves su su'"
  by (simp add: grows_def)

lemma grows_new:
  "grows s s' \<Longrightarrow> uploads s' u = Some su' \<Longrightarrow> uploads s u = None \<Longrightarrow> uploads s v = Some sv \<Longrightarrow>
    mid_of (suMetadata su') = Some m \<Longrightarrow> mid_of (suMetadata sv) \<noteq> Some m"
  unfolding grows_def by blast

lemma grows_same: "uploads s' = uploads s \<Longrightarrow> grows s s'"
  by (auto simp: grows_def upload_evolves_def)

lemma evolves_refl [simp]: "evolves s s"
  by (simp add: evolves_def grows_same)

lemma owned_grows: "owned s b k m \<Longrightarrow> grows s s' \<Longrightarrow> owned s' b k m"
proof -
  assume "owned s b k m" "grows s s'"
  then obtain u su su' where "uploads s u = Some su" "suBucket su = b" "suKey su = k" "mid_of (suMetadata su) = Some m"
      "uploads s' u = Some su'" "upload_evolves su su'"
    unfolding owned_def using grows_uploads by metis
  then show "owned s' b k m" unfolding owned_def upload_evolves_def by metis
qed

lemma spent_grows:
  assumes "spent s b k m" and e: "grows s s'"
  shows "spent s' b k m"
  unfolding spent_def
proof (intro conjI allI impI)
  show "owned s' b k m" using assms owned_grows unfolding spent_def by blast
next
  fix u su' assume su': "uploads s' u = Some su' \<and> mid_of (suMetadata su') = Some m"
  show "\<not> suOpen su'"
  proof (cases "uploads s u")
    case None
    obtain v sv where "uploads s v = Some sv" "mid_of (suMetadata sv) = Some m" using assms(1) by (auto simp: spent_def owned_def)
    then show ?thesis using grows_new [OF e _ None] su' by blast
  next
    case (Some su)
    then have "upload_evolves su su'" using grows_uploads [OF e Some] su' by simp
    then show ?thesis using assms(1) Some su' unfolding spent_def upload_evolves_def by metis
  qed
qed

lemma evolves_grows: "evolves s s' \<Longrightarrow> grows s s'"
  by (simp add: evolves_def)

lemmas owned_evolves = owned_grows [OF _ evolves_grows]
lemmas spent_evolves = spent_grows [OF _ evolves_grows]

lemma retired_evolves: "retired s b k m \<Longrightarrow> evolves s s' \<Longrightarrow> retired s' b k m"
  unfolding evolves_def by blast

lemma manifest_evolves:
  "owned s b k m \<Longrightarrow> has_manifest s b k m \<or> retired s b k m \<Longrightarrow> evolves s s' \<Longrightarrow> has_manifest s' b k m \<or> retired s' b k m"
  unfolding evolves_def by blast

lemma grows_trans:
  assumes "grows s s1" and "grows s1 s2"
  shows "grows s s2"
  unfolding grows_def
proof (intro conjI allI impI)
  fix u su assume "uploads s u = Some su"
  then show "\<exists>su'. uploads s2 u = Some su' \<and> upload_evolves su su'"
    using grows_uploads [OF assms(1)] grows_uploads [OF assms(2)] unfolding upload_evolves_def by metis
next
  fix u su' v sv m
  assume a: "uploads s2 u = Some su' \<and> uploads s u = None \<and> uploads s v = Some sv \<and> mid_of (suMetadata su') = Some m"
  then obtain sv' where sv': "uploads s1 v = Some sv'" "suMetadata sv' = suMetadata sv"
    using grows_uploads [OF assms(1), of v] by (auto simp: upload_evolves_def)
  show "mid_of (suMetadata sv) \<noteq> Some m"
  proof (cases "uploads s1 u")
    case None
    then show ?thesis using grows_new [OF assms(2) _ None sv'(1)] a sv'(2) by metis
  next
    case (Some su1)
    then have "suMetadata su1 = suMetadata su'" using grows_uploads [OF assms(2) Some] a by (auto simp: upload_evolves_def)
    then show ?thesis using grows_new [OF assms(1) Some] a by metis
  qed
qed

lemma evolves_trans:
  assumes "evolves s s1" and "evolves s1 s2"
  shows "evolves s s2"
  unfolding evolves_def
proof (intro conjI allI impI)
  show "grows s s2" using assms grows_trans evolves_grows by blast
next
  fix b k m
  show "retired s b k m \<Longrightarrow> retired s2 b k m" using assms retired_evolves by blast
  assume "owned s b k m \<and> has_manifest s b k m"
  then show "has_manifest s2 b k m \<or> retired s2 b k m" using assms manifest_evolves owned_evolves by metis
next
  show "everHeld s \<subseteq> everHeld s2" using assms unfolding evolves_def by blast
qed

section \<open>Changes that keep the invariant\<close>

lemma objects_change:
  assumes i: "inv s" and u: "uploads s' = uploads s" and h: "everHeld s \<subseteq> everHeld s'" and m: "manifests_ok s'"
    and v: "\<And>b k m. visible_mid s' b k = Some m \<Longrightarrow> visible_mid s b k = Some m"
    and d: "\<And>b k m. owned s b k m \<Longrightarrow> has_manifest s b k m \<Longrightarrow> has_manifest s' b k m \<or> retired s b k m"
  shows "inv s' \<and> evolves s s'"
proof -
  have o: "owned s' = owned s" "spent s' = spent s" by (intro ext, simp add: owned_def spent_def u)+
  have r: "retired s b k m \<Longrightarrow> retired s' b k m" for b k m using v unfolding retired_def o by blast
  have "shown_ok s'"
    unfolding shown_ok_def o
  proof (intro allI impI)
    fix b k m assume m: "visible_mid s' b k = Some m"
    then have "has_manifest s b k m" "spent s b k m" "owned s b k m"
      using v i unfolding inv_def shown_ok_def spent_def by blast+
    then show "has_manifest s' b k m \<and> spent s b k m" using d v [OF m] unfolding retired_def by blast
  qed
  moreover have "uploads_ok s'" using i unfolding inv_def uploads_ok_def u by blast
  ultimately show ?thesis using m h r d grows_same [OF u] unfolding inv_def evolves_def by blast
qed

lemma uploads_change:
  assumes i: "inv s" and o: "objects s' = objects s" and h: "everHeld s' = everHeld s" and g: "grows s s'" and u: "uploads_ok s'"
  shows "inv s' \<and> evolves s s'"
proof -
  have v: "visible_mid s' = visible_mid s" "has_manifest s' = has_manifest s" by (intro ext, simp add: visible_mid_def has_manifest_def o)+
  have "shown_ok s'" using i spent_grows [OF _ g] unfolding inv_def shown_ok_def v by blast
  moreover have "manifests_ok s'" using i owned_grows [OF _ g] unfolding inv_def manifests_ok_def o h by meson
  moreover have "retired s b k m \<Longrightarrow> retired s' b k m" for b k m using spent_grows [OF _ g] unfolding retired_def v by blast
  ultimately show ?thesis using u g h v unfolding inv_def evolves_def by auto
qed

lemma visible_put:
  "visible_mid (s3_put b k v s) b' k' = (if b' = b \<and> k' = k then mid_of (vMetadata v) else visible_mid s b' k')"
  by (simp add: visible_mid_def s3_put_def)

lemma visible_delete: "visible_mid (s3_delete b k s) b' k' = (if b' = b \<and> k' = k then None else visible_mid s b' k')"
  by (simp add: visible_mid_def s3_delete_def)

lemma put_keeps [simp]:
  "uploads (s3_put b k v s) = uploads s" "everHeld (s3_put b k v s) = insert (b, k) (everHeld s)"
  "objects (s3_put b k v s) = (objects s)((b, k) \<mapsto> v)"
  by (simp_all add: s3_put_def)

lemma delete_keeps [simp]:
  "uploads (s3_delete b k s) = uploads s" "everHeld (s3_delete b k s) = everHeld s"
  "objects (s3_delete b k s) = (objects s)((b, k) := None)"
  by (simp_all add: s3_delete_def)

lemma owned_same: "uploads s' = uploads s \<Longrightarrow> owned s' = owned s"
  by (intro ext) (simp add: owned_def)

lemma manifests_ok_put:
  assumes "manifests_ok s"
    and "\<And>h m. splitManifestKey k = Some (h, m) \<Longrightarrow> \<exists>k0. owned s b k0 m \<and> k = ObjectKey m k0"
    and "\<And>h m b' k' m'. splitManifestKey k = Some (h, m) \<Longrightarrow> PeekIdentity (take maxManifestBytes (vBody v)) = Inr (b', k', m') \<Longrightarrow>
      owned s b k' m"
  shows "manifests_ok (s3_put b k v s)"
  using assms unfolding manifests_ok_def owned_same [OF put_keeps(1)] put_keeps(2,3)
  by (simp split: if_splits) blast

lemma manifests_ok_delete: "manifests_ok s \<Longrightarrow> manifests_ok (s3_delete b k s)"
  unfolding manifests_ok_def owned_same [OF delete_keeps(1)] delete_keeps(2,3) by (simp split: if_splits) blast

lemma put_other:
  assumes "inv s" and "mid_of (vMetadata v) = None" and "\<not> starts_with ManifestPrefix k"
  shows "inv (s3_put b k v s) \<and> evolves s (s3_put b k v s)"
proof (rule objects_change)
  show "manifests_ok (s3_put b k v s)"
    using assms splitManifestKey_prefix by (intro manifests_ok_put) (auto simp: inv_def)
qed (use assms in \<open>auto simp: visible_put has_manifest_def split: if_splits\<close>)

lemma put_manifest:
  assumes "inv s" and "owned s b k m" and "vMetadata v = []" and "PeekIdentity (take maxManifestBytes (vBody v)) = Inr (b', k, m')" and "length m = IDSize"
  shows "inv (s3_put b (ObjectKey m k) v s) \<and> evolves s (s3_put b (ObjectKey m k) v s)"
proof (rule objects_change)
  show "manifests_ok (s3_put b (ObjectKey m k) v s)"
  proof (rule manifests_ok_put)
    show "manifests_ok s" using assms(1) by (simp add: inv_def)
    show "splitManifestKey (ObjectKey m k) = Some (h, m2) \<Longrightarrow> \<exists>k0. owned s b k0 m2 \<and> ObjectKey m k = ObjectKey m2 k0" for h m2
      using assms(2,5) splitManifestKey_ObjectKey by auto
    show "splitManifestKey (ObjectKey m k) = Some (h, m2) \<Longrightarrow> PeekIdentity (take maxManifestBytes (vBody v)) = Inr (b2, k2, m3) \<Longrightarrow>
        owned s b k2 m2" for h m2 b2 k2 m3
      using assms(2,4,5) splitManifestKey_ObjectKey by auto
  qed
  show "visible_mid (s3_put b (ObjectKey m k) v s) b2 k2 = Some m2 \<Longrightarrow> visible_mid s b2 k2 = Some m2" for b2 k2 m2
    using assms(3) by (simp add: visible_put mid_of_def split: if_splits)
qed (use assms(1) in \<open>auto simp: has_manifest_def\<close>)

lemma delete_other:
  assumes "inv s" and "\<not> starts_with ManifestPrefix k"
  shows "inv (s3_delete b k s) \<and> evolves s (s3_delete b k s)"
proof (rule objects_change)
  show "has_manifest s b2 k2 m \<Longrightarrow> has_manifest (s3_delete b k s) b2 k2 m \<or> retired s b2 k2 m" for b2 k2 m
    using assms(2) by (auto simp: has_manifest_def ObjectKey_def starts_with_def)
qed (use assms in \<open>auto simp: visible_delete inv_def intro: manifests_ok_delete split: if_splits\<close>)

lemma owned_unique: "inv s \<Longrightarrow> owned s b k m \<Longrightarrow> owned s b' k' m \<Longrightarrow> b' = b \<and> k' = k"
  unfolding inv_def uploads_ok_def owned_def by (metis option.inject)

lemma delete_retired:
  assumes i: "inv s" and r: "retired s b k m"
  shows "inv (s3_delete b (ObjectKey m k) s) \<and> evolves s (s3_delete b (ObjectKey m k) s)"
proof (rule objects_change)
  fix b2 k2 m2 assume o: "owned s b2 k2 m2" "has_manifest s b2 k2 m2"
  show "has_manifest (s3_delete b (ObjectKey m k) s) b2 k2 m2 \<or> retired s b2 k2 m2"
  proof (cases "b2 = b \<and> ObjectKey m2 k2 = ObjectKey m k")
    case True
    then have "m2 = m" using ObjectKey_inj by blast
    then show ?thesis using owned_unique [OF i] o(1) r unfolding retired_def spent_def by blast
  qed (use o(2) in \<open>auto simp: has_manifest_def\<close>)
qed (use i in \<open>auto simp: visible_delete inv_def intro: manifests_ok_delete split: if_splits\<close>)

lemma visible_spent: "inv s \<Longrightarrow> visible_mid s b k = Some m \<Longrightarrow> spent s b k m \<and> has_manifest s b k m"
  by (simp add: inv_def shown_ok_def)

lemma close_keeps [simp]:
  "objects (close_upload u s) = objects s" "everHeld (close_upload u s) = everHeld s"
  by (simp_all add: close_upload_def)

lemma close_Some: "uploads (close_upload u s) v = Some sv \<longleftrightarrow>
    (\<exists>su. uploads s v = Some su \<and> sv = (if v = u then su\<lparr>suOpen := False\<rparr> else su))"
  by (auto simp: close_upload_def)

lemma close_change: "inv s \<Longrightarrow> inv (close_upload u s) \<and> evolves s (close_upload u s)"
proof (rule uploads_change)
  assume i: "inv s"
  show "grows s (close_upload u s)"
    unfolding grows_def upload_evolves_def by (auto simp: close_upload_def)
  show "uploads_ok (close_upload u s)"
    using i unfolding inv_def uploads_ok_def close_Some by (auto split: if_splits)
qed simp_all

lemma part_change:
  assumes "inv s" and "uploads s u = Some su" and "upload_evolves su su'"
  shows "inv (s3_upload u su' s) \<and> evolves s (s3_upload u su' s)"
proof (rule uploads_change)
  show "grows s (s3_upload u su' s)" using assms(2,3) by (auto simp: grows_def s3_upload_def upload_evolves_def)
  show "uploads_ok (s3_upload u su' s)"
    using assms by (auto simp: inv_def uploads_ok_def s3_upload_def upload_evolves_def split: if_splits)
qed (use assms(1) in \<open>simp_all add: s3_upload_def\<close>)

lemma create_change:
  assumes i: "inv s" and n: "uploads s u = None" and c: "\<not> collides s (suKey su) (suMetadata su)" and k: "\<not> reserved (suKey su)"
  shows "inv (s3_upload u su s) \<and> evolves s (s3_upload u su s)"
proof (rule uploads_change)
  have old: "uploads s v = Some sv \<Longrightarrow> mid_of (suMetadata su) = Some m \<Longrightarrow> mid_of (suMetadata sv) \<noteq> Some m"
    "uploads s v = Some sv \<Longrightarrow> PrefixFor (suKey sv) = PrefixFor (suKey su) \<Longrightarrow> suKey sv = suKey su" for v sv m
    using c unfolding collides_def by force+
  show "grows s (s3_upload u su s)" using n old(1) by (auto simp: grows_def s3_upload_def upload_evolves_def)
  show "uploads_ok (s3_upload u su s)"
    using i k old unfolding inv_def uploads_ok_def s3_upload_def by (auto split: if_splits)
qed (use i in \<open>simp_all add: s3_upload_def\<close>)

lemma mid_unique:
  "inv s \<Longrightarrow> uploads s u = Some su \<Longrightarrow> uploads s v = Some sv \<Longrightarrow> mid_of (suMetadata su) = Some m \<Longrightarrow>
    mid_of (suMetadata sv) = Some m \<Longrightarrow> u = v"
  unfolding inv_def uploads_ok_def by blast

text \<open>A completion closes its upload and may make the object visible, provided its manifest is there.\<close>

lemma complete_change:
  assumes i: "inv s" and su: "open_upload s b k u su" and m: "mid_of (suMetadata su) = Some m" and h: "has_manifest s b k m"
    and v: "vMetadata v = suMetadata su"
  shows "inv (s3_put b k v (close_upload u s)) \<and> evolves s (s3_put b k v (close_upload u s))"
proof -
  let ?s1 = "close_upload u s" and ?s2 = "s3_put b k v (close_upload u s)"
  have su': "uploads s u = Some su" "suOpen su" "suBucket su = b" "suKey su = k" using su by (auto simp: open_upload_def)
  have k: "\<not> reserved k" using i su' by (auto simp: inv_def uploads_ok_def)
  have s1: "inv ?s1" "evolves s ?s1" using close_change [OF i] by auto
  have sp: "spent ?s1 b k m"
    unfolding spent_def
  proof (intro conjI allI impI)
    have "owned s b k m" using su' m unfolding owned_def by auto
    then show "owned ?s1 b k m" by (rule owned_evolves [OF _ s1(2)])
    fix w sw assume "uploads ?s1 w = Some sw \<and> mid_of (suMetadata sw) = Some m"
    then obtain sw0 where w: "uploads s w = Some sw0" "sw = (if w = u then sw0\<lparr>suOpen := False\<rparr> else sw0)" "mid_of (suMetadata sw) = Some m"
      unfolding close_Some by blast
    then have "mid_of (suMetadata sw0) = Some m" by (auto split: if_splits)
    then have "w = u" using mid_unique [OF i w(1) su'(1)] m by blast
    then show "\<not> suOpen sw" using w(2) by simp
  qed
  have same: "owned ?s2 = owned ?s1" "spent ?s2 = spent ?s1" by (intro ext, simp add: owned_def spent_def)+
  have hm: "has_manifest ?s1 b' k' m' \<Longrightarrow> has_manifest ?s2 b' k' m'" for b' k' m' by (simp add: has_manifest_def)
  have "retired s b' k' m' \<Longrightarrow> retired ?s2 b' k' m'" for b' k' m'
  proof -
    assume r: "retired s b' k' m'"
    then have "m' \<noteq> m" using m su' unfolding retired_def spent_def by blast
    moreover have "retired ?s1 b' k' m'" using r s1(2) retired_evolves by blast
    ultimately show ?thesis unfolding retired_def same visible_put using v m by auto
  qed
  moreover have "has_manifest ?s2 b' k' m' \<or> retired ?s2 b' k' m'" if "has_manifest s b' k' m'" for b' k' m'
    using that by (simp add: has_manifest_def)
  moreover have "grows s ?s2" by (rule grows_trans [OF evolves_grows [OF s1(2)] grows_same]) simp
  ultimately have "evolves s ?s2" by (auto simp: evolves_def)
  moreover have "shown_ok ?s2"
    unfolding shown_ok_def same visible_put
    using s1(1) sp h hm v m unfolding inv_def shown_ok_def by (auto simp: has_manifest_def)
  moreover have "manifests_ok ?s2"
    using s1(1) k manifest_reserved splitManifestKey_prefix by (intro manifests_ok_put) (auto simp: inv_def)
  moreover have "uploads_ok ?s2" using s1(1) unfolding inv_def uploads_ok_def put_keeps(1) by blast
  ultimately show ?thesis by (simp add: inv_def)
qed

section \<open>Safe requests\<close>

abbreviation safely :: "s3 \<Rightarrow> 'a req \<Rightarrow> bool" where
  "safely \<equiv> safe inv evolves"

lemma safely_Reply [simp]: "safely s (Reply x)"
  by (rule safeI) (simp add: step_simps)

lemma safely_rpure: "(\<And>x. r = Inr x \<Longrightarrow> safely s (f x)) \<Longrightarrow> safely s (rpure r f)"
  by (simp add: rpure_def split: sum.split)

lemma safely_HeadR:
  assumes "\<And>s1 r. evolves s s1 \<Longrightarrow> inv s1 \<Longrightarrow> does_head s1 b k r \<Longrightarrow> safely s1 (c r)"
  shows "safely s (HeadR b k c)"
  by (rule safeI) (auto simp: step_simps assms)

lemma safely_GetR:
  assumes "\<And>s1 r. evolves s s1 \<Longrightarrow> inv s1 \<Longrightarrow> does_get s1 i r \<Longrightarrow> safely s1 (c r)"
  shows "safely s (GetR i c)"
  by (rule safeI) (auto simp: step_simps assms)

lemma safely_ListPartsR:
  assumes "\<And>s1 r. evolves s s1 \<Longrightarrow> inv s1 \<Longrightarrow> does_list_parts s1 b k u r \<Longrightarrow> safely s1 (c r)"
  shows "safely s (ListPartsR b k u c)"
  by (rule safeI) (auto simp: step_simps assms)

lemma safely_ListR:
  assumes "\<And>s1 r. evolves s s1 \<Longrightarrow> inv s1 \<Longrightarrow> does_list s1 b p r \<Longrightarrow> safely s1 (c r)"
  shows "safely s (ListR b p c)"
  by (rule safeI) (auto simp: step_simps assms)

lemma safely_UploadsR:
  assumes "\<And>s1 r. evolves s s1 \<Longrightarrow> inv s1 \<Longrightarrow> does_uploads s1 b p r \<Longrightarrow> safely s1 (c r)"
  shows "safely s (UploadsR b p c)"
  by (rule safeI) (auto simp: step_simps assms)

lemma safely_evolves: "safely s p \<Longrightarrow> evolves s s' \<Longrightarrow> safely s' p"
  by (erule safe.cases) (rule safeI, use evolves_trans in blast)

lemma safely_IndexR: "safely s c \<Longrightarrow> safely s (IndexR g c)"
  by (rule safeI) (auto simp: step_simps intro: safely_evolves)

lemma safely_PutR:
  assumes "\<And>s1 t r s2. evolves s s1 \<Longrightarrow> inv s1 \<Longrightarrow> does_put s1 i (d t) r s2 \<Longrightarrow> inv s2 \<and> evolves s1 s2 \<and> safely s2 (c t r)"
  shows "safely s (PutR i d c)"
  by (rule safeI, clarsimp simp: step_simps, rule assms)

lemma safely_DeleteR:
  assumes "\<And>s1 r s2. evolves s s1 \<Longrightarrow> inv s1 \<Longrightarrow> does_delete s1 b k r s2 \<Longrightarrow> inv s2 \<and> evolves s1 s2 \<and> safely s2 (c r)"
  shows "safely s (DeleteR b k c)"
  by (rule safeI, clarsimp simp: step_simps, rule assms)

lemma safely_CreateR:
  assumes "\<And>s1 r s2. evolves s s1 \<Longrightarrow> inv s1 \<Longrightarrow> does_create s1 i r s2 \<Longrightarrow> inv s2 \<and> evolves s1 s2 \<and> safely s2 (c r)"
  shows "safely s (CreateR i c)"
  by (rule safeI, clarsimp simp: step_simps, rule assms)

lemma safely_PartR:
  assumes "\<And>t r s2. safely s2 (c t r)"
  shows "safely s (PartR i d c)"
proof (rule safeI)
  fix s1 s2 p' assume "inv s1" "step (s1, PartR i d c) (s2, p')"
  then show "inv s2 \<and> evolves s1 s2 \<and> safely s2 p'"
    using part_change assms
    by (auto simp: step_simps does_part_def open_upload_def upload_evolves_def)
qed

lemma safely_CompleteR:
  assumes "\<And>s1 r s2. evolves s s1 \<Longrightarrow> inv s1 \<Longrightarrow> does_complete s1 i r s2 \<Longrightarrow> inv s2 \<and> evolves s1 s2 \<and> safely s2 (c r)"
  shows "safely s (CompleteR i c)"
  by (rule safeI, clarsimp simp: step_simps, rule assms)

lemma safely_AbortR:
  assumes "\<And>r s2. safely s2 (c r)"
  shows "safely s (AbortR b k u c)"
  by (rule safeI) (use assms close_change in \<open>auto simp: step_simps does_abort_def\<close>)

section \<open>The handlers are safe\<close>

lemma head_observed:
  assumes "does_head s b k r" and "inv s"
    and "(case r of Inl _ \<Rightarrow> None | Inr info \<Rightarrow>
            (case Parse (iMetadata info) l of Inl _ \<Rightarrow> None | Inr meta \<Rightarrow> if mMultipart meta then Some (mManifestID meta) else None)) = Some m"
  shows "spent s b k m"
  using assms visible_spent Parse_mid
  by (fastforce simp: does_head_def visible_mid_def split: sum.splits if_splits)

lemma head_replaced:
  assumes "does_head s b k r"
    and "(case r of Inl e \<Rightarrow> upstream_NotFound e | Inr info \<Rightarrow>
            (case Parse (iMetadata info) l of Inl _ \<Rightarrow> False | Inr meta \<Rightarrow> \<not> mMultipart meta \<or> mManifestID meta \<noteq> m))"
  shows "visible_mid s b k \<noteq> Some m"
  using assms Parse_mid by (fastforce simp: does_head_def visible_mid_def split: sum.splits if_splits)

lemma safely_recordR: "safely s next \<Longrightarrow> safely s (recordR now b k salts next)"
  by (simp add: recordR_def safely_IndexR split: sum.split)

lemma safely_deleteManifestR:
  assumes "retired s b k m" and "\<And>s1 r. safely s1 (next r)"
  shows "safely s (deleteManifestR b k m next)"
  unfolding deleteManifestR_def
proof (rule safely_DeleteR)
  fix s1 r s2 assume "evolves s s1" "inv s1" "does_delete s1 b (ObjectKey m k) r s2"
  then show "inv s2 \<and> evolves s1 s2 \<and> safely s2 (next r)"
    using delete_retired [of s1 b k m] retired_evolves [OF assms(1)] assms(2) by (auto simp: does_delete_def)
qed

lemma sidecar_key: "\<not> starts_with ManifestPrefix (tags_Path sk w)"
proof
  assume "starts_with ManifestPrefix (tags_Path sk w)"
  moreover have "length ManifestPrefix = length TagPrefix" by (simp add: ManifestPrefix_def TagPrefix_def)
  moreover have "take (length TagPrefix) (tags_Path sk w) = TagPrefix" by (simp add: tags_Path_def tags_PrefixFor_def)
  ultimately have "ManifestPrefix = TagPrefix" by (simp only: starts_with_def)
  then show False by (simp add: ManifestPrefix_def TagPrefix_def)
qed

lemma sidecar_mid: "mid_of (tags_Metadata sk) = None"
proof -
  have "\<not> EqualFold KeyMetadata ''bb-mid''" by code_simp
  then show ?thesis by (simp add: mid_of_def tags_Metadata_def)
qed

lemma safely_put_other:
  assumes "mid_of (piMetadata i) = None" and "\<not> starts_with ManifestPrefix (piKey i)" and "\<And>s1 t r. safely s1 (c t r)"
  shows "safely s (PutR i d c)"
  by (rule safely_PutR) (use assms put_other in \<open>fastforce simp: does_put_def\<close>)

lemma safely_writeTagsBeforeObjectR:
  assumes "\<And>s1. safely s1 next"
  shows "safely s (writeTagsBeforeObjectR rnd b k sk meta dek ts next)"
  unfolding writeTagsBeforeObjectR_def writeTagsR_def
  using assms by (auto intro!: safely_rpure safely_put_other simp: put_input_def sidecar_mid sidecar_key)

lemma carries_merged_self:
  assumes "clientMetadata h = Inr client" and "\<forall>(n, vs)\<in>set h. list_all token_char n"
  shows "carries (mergeMetadata client meta) (Headers meta)"
proof (rule carries_merged [OF assms])
  show "keeps_metadata (mergeMetadata client meta) (mergeMetadata client meta)"
    by (fastforce simp: keeps_metadata_def list_all_iff list_ex_iff)
qed

lemma mid_merged:
  assumes "clientMetadata h = Inr client" and "\<forall>(n, vs)\<in>set h. list_all token_char n"
    and "mMultipart meta \<Longrightarrow> length (mManifestID meta) = IDSize"
  shows "mid_of (mergeMetadata client meta) = (if mMultipart meta then Some (mManifestID meta) else None)"
proof -
  have "distinct (map fst (Headers meta))" "metaManifestID \<in> set bb_names"
    by (simp_all add: Headers_def bb_names_def metaVersion_def metaKeyID_def metaDEK_def metaChunkSize_def metaManifestID_def)
  then have "lookup_meta (mergeMetadata client meta) metaManifestID =
      (case map_of (Headers meta) metaManifestID of None \<Rightarrow> '''' | Some v \<Rightarrow> v)"
    using lookup_carries [OF carries_merged_self [OF assms(1,2)]] by blast
  also have "\<dots> = (if mMultipart meta then ID_String (mManifestID meta) else '''')"
    by (simp add: Headers_def metaVersion_def metaKeyID_def metaDEK_def metaChunkSize_def metaManifestID_def)
  finally show ?thesis using ParseID_empty assms(3) by (auto simp: mid_of_lookup split: sum.split)
qed

lemma putObject_safe:
  assumes "\<forall>(n, vs)\<in>set (qHeader q). list_all token_char n" and "\<And>sk. storedKey p (qBucket q) (qKey q) = Inr sk \<Longrightarrow> \<not> reserved sk"
  shows "safely s (putObjectR uni rnd p q)"
  unfolding putObjectR_def
proof (rule safely_rpure, rule safely_writeTagsBeforeObjectR)
  fix pp s1 assume pp: "prepare_put uni rnd p q = Inr pp"
  obtain client where c: "clientMetadata (qHeader q) = Inr client" "storedKey p (qBucket q) (qKey q) = Inr (piKey (ppInput pp))"
      "piMetadata (ppInput pp) = mergeMetadata client (ppMeta pp)" "\<not> mMultipart (ppMeta pp)"
    using prepare_put_Inr [OF pp] by (metis Meta.select_convs(7))
  have "mid_of (piMetadata (ppInput pp)) = None" using mid_merged [OF c(1) assms(1), of "ppMeta pp"] c(3,4) by simp
  moreover have "\<not> starts_with ManifestPrefix (piKey (ppInput pp))" using assms(2) c(2) manifest_reserved by blast
  ultimately show "safely s1 (let enc = encrypt_into_pipe rnd (ppDek pp) \<lparr>Log2ChunkSize = gLog2C p, Multipart = False, Index = 0\<rparr> (ppBody pp) in
      PutR (ppInput pp) (\<lambda>t. fst (snd (enc t)))
        (\<lambda>t r. rpure (upload_error (fst (enc t)) r) (\<lambda>out.
           (case snd (snd (enc t)) of
              Some s \<Rightarrow> recordR (qNow q) (qBucket q) (qKey q) (saltsOf s)
            | None \<Rightarrow> id) (Reply (Inr (put_reply q out))))))"
    unfolding Let_def by (auto intro!: safely_put_other safely_rpure safely_recordR split: option.split)
qed

lemma deleteObject_safe:
  assumes "\<And>sk. storedKey p (qBucket q) (qKey q) = Inr sk \<Longrightarrow> \<not> reserved sk"
  shows "safely s (deleteObjectR p q)"
  unfolding deleteObjectR_def observedManifestR_def
proof (rule safely_rpure, rule safely_HeadR, rule safely_DeleteR, goal_cases)
  case (1 sk s1 r s2 e s3)
  let ?o = "case r of Inl _ \<Rightarrow> None | Inr info \<Rightarrow> (case Parse (iMetadata info) (gLog2C p) of Inl _ \<Rightarrow> None
    | Inr meta \<Rightarrow> if mMultipart meta then Some (mManifestID meta) else None)"
  have sk: "\<not> starts_with ManifestPrefix sk" using assms 1(1) manifest_reserved by blast
  have ok: "inv s3 \<and> evolves s2 s3" using delete_other [OF _ sk] 1 by (auto simp: does_delete_def)
  have "safely s3 ((case ?o of None \<Rightarrow> id | Some i \<Rightarrow> (\<lambda>next. deleteManifestR (qBucket q) sk i (\<lambda>_. next)))
     (IndexR (\<lambda>l. snd (Forget (qNow q) (qBucket q) (qKey q) l))
       (Reply (Inr \<lparr>pStatus = 204, pHeader = qReply q, pBody = [], pAborted = False\<rparr>) :: (s3Error + reply) req)))" if e: "e = None"
  proof (cases ?o)
    case None
    then show ?thesis by (simp add: safely_IndexR)
  next
    case (Some m)
    then have "spent s1 (qBucket q) sk m" using head_observed 1(3,4) by blast
    then have "spent s3 (qBucket q) sk m" using spent_evolves 1(5) ok by blast
    then have "retired s3 (qBucket q) sk m" using 1(7) e by (auto simp: retired_def does_delete_def visible_delete)
    then show ?thesis unfolding Some by (simp add: safely_deleteManifestR safely_IndexR)
  qed
  then show ?case using ok by (auto intro!: safely_rpure split: option.splits)
qed

lemma prepare_create_Inr:
  assumes "prepare_create uni rnd p q = Inr cp"
  shows "\<exists>client. clientMetadata (qHeader q) = Inr client \<and> cuBucket (cpInput cp) = qBucket q \<and>
    storedKey p (qBucket q) (qKey q) = Inr (cuKey (cpInput cp)) \<and> cuMetadata (cpInput cp) = mergeMetadata client (cpMeta cp) \<and>
    mMultipart (cpMeta cp) \<and> urID rnd = Inr (mManifestID (cpMeta cp))"
  using assms
  by (auto simp: prepare_create_def echeck_def ebind_def emap_err_def NewID_def Let_def
      split: option.splits sum.splits if_splits)

lemma createMultipartUpload_safe:
  assumes "\<And>sk. storedKey p (qBucket q) (qKey q) = Inr sk \<Longrightarrow> \<not> reserved sk"
  shows "safely s (createMultipartUpload uni rnd p q)"
  unfolding createMultipartUpload_def
proof (rule safely_rpure, rule safely_writeTagsBeforeObjectR, rule safely_CreateR, goal_cases)
  case (1 cp s0 s1 r s2)
  have "\<not> reserved (cuKey (cpInput cp))" using prepare_create_Inr [OF 1(1)] assms by blast
  then have "inv s2 \<and> evolves s1 s2"
    using create_change [OF 1(3)] 1 by (auto simp: does_create_def)
  then show ?case by (auto intro!: safely_rpure safely_AbortR split: sum.split)
qed

lemma uploadPart_safe: "safely s (uploadPart rnd n p q uploadID partNumber)"
  unfolding uploadPart_def by (auto intro!: safely_rpure safely_PartR simp: Let_def split: option.split)

text \<open>
  The token of an upload names that upload: the provider created it for the stored key with the manifest id of the token in its metadata. Tokens that
  \<open>createMultipartUpload\<close> hands out are such, and no others open (\<open>token_exact\<close>).
\<close>

definition issued :: "s3 \<Rightarrow> string \<Rightarrow> string \<Rightarrow> Token \<Rightarrow> bool" where
  "issued s b sk token \<longleftrightarrow> (\<exists>su. uploads s (tUploadID token) = Some su \<and> suBucket su = b \<and> suKey su = sk \<and>
     mid_of (suMetadata su) = Some (tManifestID token))"

lemma issued_evolves: "issued s b sk token \<Longrightarrow> evolves s s' \<Longrightarrow> issued s' b sk token"
proof -
  assume "issued s b sk token" "evolves s s'"
  then obtain su su' where "uploads s (tUploadID token) = Some su" "suBucket su = b" "suKey su = sk"
      "mid_of (suMetadata su) = Some (tManifestID token)" "uploads s' (tUploadID token) = Some su'" "upload_evolves su su'"
    unfolding issued_def using grows_uploads evolves_grows by metis
  then show "issued s' b sk token" unfolding issued_def upload_evolves_def by metis
qed

lemma issued_owned: "issued s b sk token \<Longrightarrow> owned s b sk (tManifestID token)"
  unfolding issued_def owned_def by blast

lemma safely_cleanup_replaced:
  assumes "\<And>i. observed = Some i \<Longrightarrow> spent s b sk i" and n: "\<And>s1 d. safely s1 (next d)"
  shows "safely s (cleanup_replaced p b sk token observed next)"
proof (cases observed)
  case (Some i)
  have "safely s (replacedSinceR p b sk i (\<lambda>replaced. if \<not> replaced then next True else deleteManifestR b sk i (\<lambda>_. next False)))"
    unfolding replacedSinceR_def
  proof (rule safely_HeadR)
    fix s1 r assume 1: "evolves s s1" "inv s1" "does_head s1 b sk r"
    let ?b = "case r of Inl e \<Rightarrow> upstream_NotFound e | Inr info \<Rightarrow>
       (case Parse (iMetadata info) (gLog2C p) of Inl _ \<Rightarrow> False | Inr meta \<Rightarrow> \<not> mMultipart meta \<or> mManifestID meta \<noteq> i)"
    have "retired s1 b sk i" if ?b
      using head_replaced [OF 1(3) that] spent_evolves [OF assms(1) [OF Some] 1(1)] by (simp add: retired_def)
    then show "safely s1 (if \<not> ?b then next True else deleteManifestR b sk i (\<lambda>_. next False))"
      using n by (cases ?b) (auto intro: safely_deleteManifestR)
  qed
  then show ?thesis using Some n by (simp add: cleanup_replaced_def)
qed (simp add: cleanup_replaced_def n)

lemma manifest_size:
  assumes "validate m = None" and "wf_manifest m"
  shows "length (manifest_body m @ hmac (mac_key dek) (manifest_body m)) \<le> maxManifestBytes"
proof -
  have "length (concat (map marshal_part ps)) \<le> 30 * length ps" if "list_all wf_part ps" for ps
    using that by (induction ps) (auto simp: marshal_part_def wf_part_def)
  then have "length (concat (map marshal_part (Parts m))) \<le> 300000"
    using validate_None(2) [OF assms(1)] assms(2) unfolding wf_manifest_def by fastforce
  then show ?thesis
    using validate_None(3,4) [OF assms(1)] assms(2)
    by (simp add: manifest_body_def ManifestMagic_def maxManifestBytes_def wf_manifest_def)
qed

lemma PeekIdentity_Marshal:
  assumes "Marshal m dek = Inr rw" and wf: "wf_manifest m" "\<not> legacy m"
  shows "PeekIdentity (take maxManifestBytes rw) = Inr (Bucket m, MKey m, MID m)"
proof -
  have v: "validate m = None" "length dek = 32" using Marshal_Inr [OF assms(1)] by auto
  have "4 \<le> length (manifest_body m)" by (simp add: manifest_body_def ManifestMagic_def)
  then show ?thesis
    using assms(1) Marshal_eq [OF v] parseBody_manifest [OF v(1) wf] manifest_size [OF v(1) wf(1), of dek]
    by (auto simp: PeekIdentity_def)
qed

lemma safely_writeManifestR:
  assumes o: "owned s (Bucket m) (MKey m) (MID m)" and wf: "wf_manifest m" "\<not> legacy m"
    and n: "\<And>s1 r. evolves s s1 \<Longrightarrow> inv s1 \<Longrightarrow> (is_ok r \<Longrightarrow> has_manifest s1 (Bucket m) (MKey m) (MID m)) \<Longrightarrow> safely s1 (next r)"
    and i: "inv s"
  shows "safely s (writeManifestR m dek next)"
proof (cases "Marshal m dek")
  case (Inl e)
  then show ?thesis using n [OF evolves_refl i, of "Inl (Errorf ''building the manifest: %w'' [e])"]
    by (simp add: writeManifestR_def is_ok_def)
next
  case (Inr rw)
  have "PeekIdentity (take maxManifestBytes rw) = Inr (Bucket m, MKey m, MID m)" by (rule PeekIdentity_Marshal [OF Inr wf])
  moreover have "length (MID m) = IDSize" using wf by (simp add: wf_manifest_def)
  ultimately have ch: "inv s1 \<Longrightarrow> evolves s s1 \<Longrightarrow> inv (s3_put (Bucket m) (ObjectKey (MID m) (MKey m)) \<lparr>vMetadata = [], vBody = rw\<rparr> s1) \<and>
      evolves s1 (s3_put (Bucket m) (ObjectKey (MID m) (MKey m)) \<lparr>vMetadata = [], vBody = rw\<rparr> s1)" for s1
    using put_manifest owned_evolves [OF o] by simp
  show ?thesis
    unfolding writeManifestR_def Inr sum.case put_input_def
  proof (rule safely_PutR, goal_cases)
    case (1 s1 t r s2)
    have "evolves s s2 \<and> inv s2 \<and> evolves s1 s2 \<and> (is_ok r \<longrightarrow> has_manifest s2 (Bucket m) (MKey m) (MID m))"
      using 1 ch [OF 1(2,1)] evolves_trans by (auto simp: does_put_def bytes_source_def has_manifest_def)
    moreover have "is_ok (ebind (emap_err f r) (\<lambda>_. Inr ())) = is_ok r" for f by (cases r) (auto simp: is_ok_def)
    ultimately show ?case using n by auto
  qed
qed

lemma prepare_complete_Inr:
  assumes "prepare_complete unmarshal p q uploadID = Inr (token, sk, dek, requested, im, inm)"
  shows "storedKey p (qBucket q) (qKey q) = Inr sk \<and> Open (gKeys p) uploadID (qBucket q) (qKey q) = Inr token"
  using assms
  by (cases "Open (gKeys p) uploadID (qBucket q) (qKey q)") (auto simp: prepare_complete_def openToken_def result_simps split: if_splits)

lemma safely_complete:
  assumes o: "issued s b sk token" and h: "has_manifest s b sk (tManifestID token) \<or> retired s b sk (tManifestID token)"
    and i: "ciBucket i = b" "ciKey i = sk" "ciUploadID i = tUploadID token"
    and n: "\<And>s1 r. evolves s s1 \<Longrightarrow> inv s1 \<Longrightarrow> safely s1 (c r)"
  shows "safely s (CompleteR i c)"
proof (rule safely_CompleteR)
  fix s1 r s2 assume 1: "evolves s s1" "inv s1" "does_complete s1 i r s2"
  have "inv s2 \<and> evolves s1 s2"
    using 1(3) unfolding does_complete_def
  proof (elim disjE exE conjE)
    fix su body assume su: "open_upload s1 (ciBucket i) (ciKey i) (ciUploadID i) su"
    then have m: "mid_of (suMetadata su) = Some (tManifestID token)"
      using issued_evolves [OF o 1(1)] i by (auto simp: open_upload_def issued_def)
    have "\<not> retired s1 b sk (tManifestID token)"
      using su m unfolding retired_def spent_def open_upload_def by blast
    then have "has_manifest s1 b sk (tManifestID token)"
      using manifest_evolves [OF issued_owned [OF o] h 1(1)] by blast
    then show "s2 = s3_put (ciBucket i) (ciKey i) \<lparr>vMetadata = suMetadata su, vBody = body\<rparr> (close_upload (ciUploadID i) s1) \<Longrightarrow>
        inv s2 \<and> evolves s1 s2"
      using complete_change [OF 1(2) su m] i by simp
  qed (use 1(2) close_change in auto)
  then show "inv s2 \<and> evolves s1 s2 \<and> safely s2 (c r)" using n 1(1) evolves_trans by blast
qed

lemma completeMultipartUpload_safe:
  assumes i: "\<And>token sk. storedKey p (qBucket q) (qKey q) = Inr sk \<Longrightarrow> Open (gKeys p) uploadID (qBucket q) (qKey q) = Inr token \<Longrightarrow>
    issued s (qBucket q) sk token"
  shows "safely s (completeMultipartUpload unmarshal p q uploadID)"
  unfolding completeMultipartUpload_def
proof (rule safely_rpure, clarify, rule safely_ListPartsR, (rule safely_rpure)+, goal_cases)
  case (1 token sk dek requested im inm s1 r stored uploaded parts)
  let ?b = "qBucket q" and ?m = "\<lparr>Bucket = qBucket q, MKey = sk, MID = tManifestID token, Parts = parts, legacy = False\<rparr>"
  have iss: "issued s1 ?b sk token" using issued_evolves i prepare_complete_Inr [OF 1(1)] 1(2) by blast
  then have "length (tManifestID token) = IDSize" using mid_of_length unfolding issued_def by blast
  moreover have "list_all wf_part parts"
  proof -
    have "\<forall>x\<in>set (map Salt parts). length x = SaltSize"
      using 1(6,7) PartsFromUpstream_salts match_parts_salts by (fastforce simp: matchParts_def result_simps)
    then show ?thesis by (simp add: list_all_iff wf_part_def)
  qed
  ultimately have wf: "wf_manifest ?m" by (simp add: wf_manifest_def)
  show ?case
    unfolding observedManifestR_def
  proof (rule safely_HeadR, goal_cases)
    case (1 s2 r2)
    let ?o = "case r2 of Inl _ \<Rightarrow> None | Inr info \<Rightarrow> (case Parse (iMetadata info) (gLog2C p) of Inl _ \<Rightarrow> None
      | Inr meta \<Rightarrow> if mMultipart meta then Some (mManifestID meta) else None)"
    have ob: "?o = Some x \<Longrightarrow> spent s2 ?b sk x" for x using head_observed 1(2,3) by blast
    have iss2: "issued s2 ?b sk token" using iss issued_evolves 1(1) by blast
    show ?case
      unfolding Let_def
    proof (rule safely_writeManifestR, goal_cases)
      case (4 s3 r3)
      have rest: "safely s3 (rpure (emap_err translateUpstream r3) (\<lambda>_. CompleteR ci (\<lambda>r. rpure (emap_err no_upload r) (\<lambda>out.
          cleanup_replaced p ?b sk token ?o (nxt out)))))"
        if ci: "ciBucket ci = ?b" "ciKey ci = sk" "ciUploadID ci = tUploadID token" and nxt: "\<And>s4 out d. safely s4 (nxt out d)" for ci nxt
      proof (rule safely_rpure, rule safely_complete)
        show "issued s3 ?b sk token" using iss2 issued_evolves 4(1) by blast
        fix x assume "emap_err translateUpstream r3 = Inr x"
        then show "has_manifest s3 ?b sk (tManifestID token) \<or> retired s3 ?b sk (tManifestID token)"
          using 4(3) by (cases r3) (auto simp: is_ok_def)
        fix s4 r assume s4: "evolves s3 s4"
        show "safely s4 (rpure (emap_err no_upload r) (\<lambda>out. cleanup_replaced p ?b sk token ?o (nxt out)))"
          using ob spent_evolves [OF spent_evolves [OF _ 4(1)] s4] nxt
          by (intro safely_rpure safely_cleanup_replaced) blast+
      qed (use ci in simp_all)
      show ?case by (rule rest) (simp_all add: safely_recordR)
    qed (use iss2 issued_owned wf 1(2) in auto)
  qed
qed

lemma abortMultipartUpload_safe: "safely s (abortMultipartUpload p q uploadID)"
  unfolding abortMultipartUpload_def by (auto intro!: safely_rpure safely_AbortR split: option.split)

lemma listParts_safe: "safely s (listParts p q uploadID)"
  unfolding listParts_def by (auto intro!: safely_rpure safely_ListPartsR)

section \<open>The garbage collector is safe\<close>

definition group_ok :: "s3 \<Rightarrow> string \<Rightarrow> manifestEntry list \<Rightarrow> bool" where
  "group_ok s b es \<longleftrightarrow>
     (\<exists>h. \<forall>e\<in>set es. splitManifestKey (meObjectKey e) = Some (h, meID e) \<and> (b, meObjectKey e) \<in> everHeld s)"

lemma group_ok_evolves: "group_ok s b es \<Longrightarrow> evolves s s' \<Longrightarrow> group_ok s' b es"
  unfolding group_ok_def evolves_def by blast

lemma owned_length: "owned s b k m \<Longrightarrow> length m = IDSize"
  unfolding owned_def using mid_of_length by blast

lemma group_owner:
  assumes i: "inv s" and g: "group_ok s b es" and e: "e \<in> set es" "e' \<in> set es" and o: "owned s b k (meID e)"
  shows "owned s b k (meID e') \<and> meObjectKey e' = ObjectKey (meID e') k"
proof -
  have ok: "manifests_ok s" using i by (simp add: inv_def)
  from g obtain h where h: "splitManifestKey (meObjectKey x) = Some (h, meID x)" "(b, meObjectKey x) \<in> everHeld s" if "x \<in> set es" for x
    unfolding group_ok_def by blast
  have own: "\<exists>k. owned s b k (meID x) \<and> meObjectKey x = ObjectKey (meID x) k" if "x \<in> set es" for x
    using ok h [OF that] unfolding manifests_ok_def by blast
  obtain k1 where k1: "owned s b k1 (meID e)" "meObjectKey e = ObjectKey (meID e) k1" using own [OF e(1)] by blast
  obtain k2 where k2: "owned s b k2 (meID e')" "meObjectKey e' = ObjectKey (meID e') k2" using own [OF e(2)] by blast
  have "k1 = k" using owned_unique [OF i k1(1) o] by simp
  moreover have "hex_EncodeToString (sha256 (bytes_of k1)) = h" "hex_EncodeToString (sha256 (bytes_of k2)) = h"
    using h(1) [OF e(1)] h(1) [OF e(2)] k1 k2 splitManifestKey_ObjectKey owned_length by (metis option.inject prod.inject)+
  ultimately have "PrefixFor k = PrefixFor k2" by (simp only: PrefixFor_def)
  then have "k = k2" using i o k2(1) unfolding inv_def uploads_ok_def owned_def by blast
  then show ?thesis using k2 by blast
qed

lemma safely_resolveObjectKey:
  assumes "set es \<subseteq> set es0" and "group_ok s b es0" and "gcBucket c = b"
    and none: "safely s (next None)"
    and some: "\<And>s1 key. evolves s s1 \<Longrightarrow> inv s1 \<Longrightarrow>
      \<forall>e\<in>set es0. owned s1 b key (meID e) \<and> meObjectKey e = ObjectKey (meID e) key \<Longrightarrow> safely s1 (next (Some key))"
  shows "safely s (resolveObjectKey c es next)"
  using assms(1,2) none some
proof (induction es arbitrary: s)
  case (Cons e es)
  have e: "e \<in> set es0" using Cons.prems(1) by simp
  show ?case
    unfolding resolveObjectKey.simps assms(3)
  proof (rule safely_GetR)
    fix s1 r assume 1: "evolves s s1" "inv s1" "does_get s1 (get_input b (meObjectKey e)) r"
    have g: "group_ok s1 b es0" using group_ok_evolves [OF Cons.prems(2) 1(1)] .
    have rest: "safely s1 (resolveObjectKey c es next)"
      using Cons.IH [of s1] Cons.prems(1,4) g safely_evolves [OF Cons.prems(3) 1(1)] evolves_trans [OF 1(1)] by auto
    have "safely s1 (next (Some key))" if out: "r = Inr out" and "read_all (limit_reader (oBody out) maxManifestBytes) = Inr rw"
        and "PeekIdentity rw = Inr (x, key, y)" for out rw x key y
    proof -
      obtain v where v: "objects s1 (b, meObjectKey e) = Some v" "src_data (oBody out) = take (length (src_data (oBody out))) (vBody v)"
          "src_end (oBody out) = Sentinel EOF \<longrightarrow> src_data (oBody out) = vBody v"
        using 1(3) out by (auto simp: does_get_def get_input_def)
      have "rw = take maxManifestBytes (vBody v)"
        using that(2) v(2,3) by (auto simp: read_all_def limit_reader_def split: if_splits) (metis min.absorb1 take_take)
      moreover obtain h where "splitManifestKey (meObjectKey e) = Some (h, meID e)" using g e unfolding group_ok_def by blast
      ultimately have "owned s1 b key (meID e)" using 1(2) v(1) that(3) unfolding inv_def manifests_ok_def by blast
      then show ?thesis using Cons.prems(4) [OF 1(1,2)] group_owner [OF 1(2) g e] by blast
    qed
    then show "safely s1 (case r of Inl _ \<Rightarrow> resolveObjectKey c es next | Inr out \<Rightarrow>
           (case read_all (limit_reader (oBody out) maxManifestBytes) of Inl _ \<Rightarrow> resolveObjectKey c es next
            | Inr rw \<Rightarrow> (case PeekIdentity rw of Inl _ \<Rightarrow> resolveObjectKey c es next
                 | Inr (_, key, _) \<Rightarrow> if \<not> MatchesLocation key (meObjectKey e) then resolveObjectKey c es next else next (Some key))))"
      using rest by (auto split: sum.split)
  qed
qed simp

lemma safely_delete_manifests:
  assumes "\<forall>e\<in>set es. current \<noteq> Some (meID e) \<longrightarrow> retired s (gcBucket c) key (meID e) \<and> meObjectKey e = ObjectKey (meID e) key"
    and n: "\<And>r. safely s (next r)"
  shows "safely s (delete_manifests c current es res next)"
  using assms
proof (induction es arbitrary: s res)
  case (Cons e es)
  have IH: "safely s1 (delete_manifests c current es res' next)" if "evolves s s1" for s1 res'
    using Cons.prems(1) retired_evolves [OF _ that] safely_evolves [OF Cons.prems(2) that] by (intro Cons.IH) auto
  have "safely s (DeleteR (gcBucket c) (meObjectKey e) (\<lambda>r. case r of
          Some _ \<Rightarrow> delete_manifests c current es (res\<lparr>gcErrors := gcErrors res + 1\<rparr>) next
        | None \<Rightarrow> delete_manifests c current es (res\<lparr>gcDeleted := gcDeleted res + 1\<rparr>) next))" if "current \<noteq> Some (meID e)"
  proof (rule safely_DeleteR)
    fix s1 r s2 assume 1: "evolves s s1" "inv s1" "does_delete s1 (gcBucket c) (meObjectKey e) r s2"
    have "retired s1 (gcBucket c) key (meID e)" "meObjectKey e = ObjectKey (meID e) key"
      using Cons.prems that retired_evolves [OF _ 1(1)] by auto
    then have "inv s2 \<and> evolves s1 s2" using delete_retired [OF 1(2)] 1(2,3) by (auto simp: does_delete_def)
    then show "inv s2 \<and> evolves s1 s2 \<and> safely s2 (case r of
          Some _ \<Rightarrow> delete_manifests c current es (res\<lparr>gcErrors := gcErrors res + 1\<rparr>) next
        | None \<Rightarrow> delete_manifests c current es (res\<lparr>gcDeleted := gcDeleted res + 1\<rparr>) next)"
      using IH evolves_trans [OF 1(1)] by (auto split: option.split)
  qed
  then show ?case unfolding delete_manifests.simps using IH [OF evolves_refl] by (simp only: split: if_split) blast
qed simp

lemma head_mid_retired:
  assumes "does_head s b k r" and "head_mid r = Inr current" and "spent s b k m" and "current \<noteq> Some m"
  shows "retired s b k m"
proof -
  have "visible_mid s b k = current"
    using assms(1,2) by (auto simp: does_head_def head_mid_def visible_mid_def mid_of_def split: sum.splits if_splits option.splits)
  then show ?thesis using assms(3,4) by (simp add: retired_def)
qed

lemma safely_collect_current:
  assumes sp: "\<forall>e\<in>set es. spent s (gcBucket c) key (meID e) \<and> meObjectKey e = ObjectKey (meID e) key" and n: "\<And>r. safely s (next r)"
  shows "safely s (currentManifestID c key (\<lambda>r. case r of Inl e \<Rightarrow> next (g e) | Inr current \<Rightarrow> delete_manifests c current es res next))"
  unfolding currentManifestID_def
proof (rule safely_HeadR)
  fix s1 r assume 1: "evolves s s1" "inv s1" "does_head s1 (gcBucket c) key r"
  have n1: "safely s1 (next x)" for x using n safely_evolves 1(1) by blast
  show "safely s1 (case head_mid r of Inl e \<Rightarrow> next (g e) | Inr current \<Rightarrow> delete_manifests c current es res next)"
  proof (cases "head_mid r")
    case (Inr current)
    then have "\<forall>e\<in>set es. current \<noteq> Some (meID e) \<longrightarrow> retired s1 (gcBucket c) key (meID e) \<and> meObjectKey e = ObjectKey (meID e) key"
      using head_mid_retired [OF 1(3)] spent_evolves [OF _ 1(1)] sp by blast
    then show ?thesis unfolding Inr sum.case by (rule safely_delete_manifests [OF _ n1])
  qed (simp add: n1)
qed

lemma safely_collect_uploads:
  assumes o: "\<forall>e\<in>set es. owned s (gcBucket c) key (meID e) \<and> meObjectKey e = ObjectKey (meID e) key" and n: "\<And>r. safely s (next r)"
  shows "safely s (UploadsR (gcBucket c) key (\<lambda>r. case r of Inl e \<Rightarrow> next (f e)
    | Inr us \<Rightarrow> if list_ex (\<lambda>u. muKey u = key) us then next (h us)
        else currentManifestID c key (\<lambda>r. case r of Inl e \<Rightarrow> next (g e) | Inr current \<Rightarrow> delete_manifests c current es res next)))"
proof (rule safely_UploadsR)
  fix s1 r assume 1: "evolves s s1" "inv s1" "does_uploads s1 (gcBucket c) key r"
  have n1: "safely s1 (next x)" for x using n safely_evolves 1(1) by blast
  have "spent s1 (gcBucket c) key (meID e)" if "r = Inr us" "\<not> list_ex (\<lambda>u. muKey u = key) us" "e \<in> set es" for us e
  proof -
    have own: "owned s1 (gcBucket c) key (meID e)" using o that owned_evolves [OF _ 1(1)] by blast
    then obtain u su where u: "uploads s1 u = Some su" "suBucket su = gcBucket c" "suKey su = key" "mid_of (suMetadata su) = Some (meID e)"
      unfolding owned_def by blast
    have "starts_with key (suKey su)" using u(3) by (simp add: starts_with_def)
    then have "\<not> suOpen su" using 1(3) that(1,2) u(1-3) unfolding does_uploads_def list_ex_iff by force
    then show ?thesis using own mid_unique [OF 1(2) _ u(1) _ u(4)] u(1) unfolding spent_def by (metis option.inject)
  qed
  then show "safely s1 (case r of Inl e \<Rightarrow> next (f e)
    | Inr us \<Rightarrow> if list_ex (\<lambda>u. muKey u = key) us then next (h us)
        else currentManifestID c key (\<lambda>r. case r of Inl e \<Rightarrow> next (g e) | Inr current \<Rightarrow> delete_manifests c current es res next))"
    using o n1 by (cases r) (auto intro!: safely_collect_current)
qed

lemma safely_collectKey:
  assumes "group_ok s (gcBucket c) es" and n: "\<And>r. safely s (next r)"
  shows "safely s (collectKey c es res next)"
  unfolding collectKey_def Let_def
  using n safely_evolves
  by (intro safely_resolveObjectKey [OF subset_refl assms(1) refl]) (auto intro!: safely_collect_uploads)

lemma safely_collect_keys:
  assumes "\<forall>es\<in>set ess. group_ok s (gcBucket c) es" and n: "\<And>r. safely s (next r)"
  shows "safely s (collect_keys c ess res next)"
  using assms(1) by (induction ess arbitrary: res) (auto intro!: safely_collectKey simp: n)

section \<open>Sidecars\<close>

lemma SplitPath_key: "SplitPath key = Some x \<Longrightarrow> \<not> starts_with ManifestPrefix key"
proof
  assume "SplitPath key = Some x" "starts_with ManifestPrefix key"
  then have "take (length TagPrefix) key = TagPrefix" "take (length ManifestPrefix) key = ManifestPrefix"
    by (auto simp: SplitPath_def starts_with_def split: if_splits)
  moreover have "length ManifestPrefix = length TagPrefix" by (simp add: ManifestPrefix_def TagPrefix_def)
  ultimately have "ManifestPrefix = TagPrefix" by (simp only:)
  then show False by (simp add: ManifestPrefix_def TagPrefix_def)
qed

lemma safely_resolveSidecarKey: "(\<And>k. safely s (next k)) \<Longrightarrow> safely s (resolveSidecarKey c es next)"
proof (induction es arbitrary: s)
  case (Cons e es)
  have "safely s1 (next k)" "safely s1 (resolveSidecarKey c es next)" if "evolves s s1" for s1 k
    using Cons safely_evolves that by blast+
  then show ?case by (auto intro!: safely_HeadR split: sum.split option.split)
qed simp

lemma safely_delete_sidecars:
  assumes "\<forall>e\<in>set es. \<not> starts_with ManifestPrefix (seObjectKey e)" and "\<And>r. safely s (next r)"
  shows "safely s (delete_sidecars c current es res next)"
  using assms
proof (induction es arbitrary: s res)
  case (Cons e es)
  have IH: "safely s1 (delete_sidecars c current es res' next)" if "evolves s s1" for s1 res'
    using Cons.prems(1) safely_evolves [OF Cons.prems(2) that] by (intro Cons.IH) auto
  have "safely s (DeleteR (gcBucket c) (seObjectKey e) (\<lambda>r. case r of
          Some _ \<Rightarrow> delete_sidecars c current es (res\<lparr>gcErrors := gcErrors res + 1\<rparr>) next
        | None \<Rightarrow> delete_sidecars c current es (res\<lparr>SidecarsDeleted := SidecarsDeleted res + 1\<rparr>) next))"
  proof (rule safely_DeleteR)
    fix s1 r s2 assume 1: "evolves s s1" "inv s1" "does_delete s1 (gcBucket c) (seObjectKey e) r s2"
    then have "inv s2 \<and> evolves s1 s2" using delete_other [OF 1(2)] Cons.prems(1) by (auto simp: does_delete_def)
    then show "inv s2 \<and> evolves s1 s2 \<and> safely s2 (case r of
          Some _ \<Rightarrow> delete_sidecars c current es (res\<lparr>gcErrors := gcErrors res + 1\<rparr>) next
        | None \<Rightarrow> delete_sidecars c current es (res\<lparr>SidecarsDeleted := SidecarsDeleted res + 1\<rparr>) next)"
      using IH evolves_trans [OF 1(1)] by (auto split: option.split)
  qed
  then show ?case unfolding delete_sidecars.simps using IH [OF evolves_refl] by (simp only: split: if_split) blast
qed simp

lemma safely_collectSidecars:
  assumes "\<forall>e\<in>set es. \<not> starts_with ManifestPrefix (seObjectKey e)" and n: "\<And>r. safely s (next r)"
  shows "safely s (collectSidecars c es res next)"
proof -
  have n1: "safely s1 (next r)" if "evolves s s1" for s1 r using n safely_evolves that by blast
  have "safely s1 (HeadR (gcBucket c) key (\<lambda>r. case head_binding r of Inl e \<Rightarrow> next (g e) | Inr current \<Rightarrow> delete_sidecars c current es res' next))"
    if "evolves s s1" for s1 key g res'
    by (rule safely_HeadR) (use assms(1) n1 evolves_trans [OF that] in \<open>auto intro!: safely_delete_sidecars split: sum.split\<close>)
  then have "safely s (UploadsR (gcBucket c) key (\<lambda>r. case r of Inl e \<Rightarrow> next (f e)
    | Inr us \<Rightarrow> if list_ex (\<lambda>u. muKey u = key) us then next (h us)
        else HeadR (gcBucket c) key (\<lambda>r. case head_binding r of Inl e \<Rightarrow> next (g e) | Inr current \<Rightarrow> delete_sidecars c current es res' next)))"
    for key f h g res'
    by (intro safely_UploadsR) (use n1 in \<open>auto split: sum.split\<close>)
  then show ?thesis
    unfolding collectSidecars_def using n by (intro safely_resolveSidecarKey) (simp split: option.split)
qed

lemma safely_collect_sidecars:
  assumes "\<forall>es\<in>set ess. \<forall>e\<in>set es. \<not> starts_with ManifestPrefix (seObjectKey e)" and n: "\<And>r. safely s (next r)"
  shows "safely s (collect_sidecars c ess res next)"
  using assms(1) by (induction ess arbitrary: res) (auto intro!: safely_collectSidecars simp: n)

section \<open>A run of the collector\<close>

lemma set_update: "x \<in> set (AList.update k v al) \<Longrightarrow> x = (k, v) \<or> x \<in> set al"
  by (induction al) (auto split: if_splits)

lemma group_add_all:
  assumes g: "\<forall>(h, es)\<in>set groups. \<forall>e\<in>set es. P h e" and "P h e" and x: "(h', es') \<in> set (group_add h e groups)" "e' \<in> set es'"
  shows "P h' e'"
proof (cases "map_of groups h")
  case None
  then have "(h', es') \<in> set groups \<or> h' = h \<and> es' = [e]" using x(1) by (auto simp: group_add_def)
  then show ?thesis using g \<open>P h e\<close> x(2) by auto
next
  case (Some es)
  then have "(h', es') \<in> set groups \<or> h' = h \<and> es' = es @ [e]" using set_update x(1) by (fastforce simp: group_add_def)
  moreover have "\<forall>e\<in>set es. P h e" using bspec [OF g map_of_SomeD [OF Some]] by simp
  ultimately show ?thesis using bspec [OF g, of "(h', es')"] \<open>P h e\<close> x(2) by auto
qed

lemma group_manifests_ok:
  assumes "\<forall>(h, es)\<in>set groups. \<forall>e\<in>set es. splitManifestKey (meObjectKey e) = Some (h, meID e) \<and> meObjectKey e \<in> K"
    and "\<forall>lo\<in>set los. loKey lo \<in> K"
  shows "\<forall>(h, es)\<in>set (fst (group_manifests los groups res)). \<forall>e\<in>set es. splitManifestKey (meObjectKey e) = Some (h, meID e) \<and> meObjectKey e \<in> K"
  using assms
proof (induction los groups res rule: group_manifests.induct)
  case (2 lo los groups res)
  show ?case
  proof (cases "splitManifestKey (loKey lo)")
    case (Some x)
    obtain h i where x: "x = (h, i)" by (cases x)
    let ?e = "\<lparr>meObjectKey = loKey lo, meID = i, meModified = loModified lo\<rparr>"
    let ?P = "\<lambda>h e. splitManifestKey (meObjectKey e) = Some (h, meID e) \<and> meObjectKey e \<in> K"
    have e: "?P h ?e" using Some x "2.prems"(2) by simp
    have "?P h' e'" if "(h', es') \<in> set (group_add h ?e groups)" "e' \<in> set es'" for h' es' e'
      using group_add_all [of groups ?P, OF "2.prems"(1) e that] .
    then have "\<forall>(h', es)\<in>set (group_add h ?e groups). \<forall>e\<in>set es. ?P h' e" by blast
    then show ?thesis using 2 Some x by simp
  qed (use 2 in simp)
qed simp

lemma group_sidecars_ok:
  assumes "\<forall>(h, es)\<in>set groups. \<forall>e\<in>set es. \<not> starts_with ManifestPrefix (seObjectKey e)"
  shows "\<forall>(h, es)\<in>set (fst (group_sidecars los groups res)). \<forall>e\<in>set es. \<not> starts_with ManifestPrefix (seObjectKey e)"
  using assms
proof (induction los groups res rule: group_sidecars.induct)
  case (2 lo los groups res)
  show ?case
  proof (cases "SplitPath (loKey lo)")
    case (Some x)
    obtain h i where x: "x = (h, i)" by (cases x)
    let ?e = "\<lparr>seObjectKey = loKey lo, seBinding = i, seModified = loModified lo\<rparr>"
    let ?P = "\<lambda>(h :: string) e. \<not> starts_with ManifestPrefix (seObjectKey e)"
    have e: "?P h ?e" using SplitPath_key [OF Some] by simp
    have "?P h' e'" if "(h', es') \<in> set (group_add h ?e groups)" "e' \<in> set es'" for h' es' e'
      using group_add_all [of groups ?P, OF "2.prems" e that] .
    then have "\<forall>(h', es)\<in>set (group_add h ?e groups). \<forall>e\<in>set es. ?P h' e" by blast
    then show ?thesis using 2 Some x by simp
  qed (use 2 in simp)
qed simp

lemma gc_Run_safe:
  assumes o: "\<And>xs. set (order xs) \<subseteq> set xs" "\<And>xs. set (order' xs) \<subseteq> set xs"
  shows "safely s (gc_Run order order' c)"
proof -
  have "safely s1 (listManifests c (\<lambda>groups res. listSidecars c res (\<lambda>sidecars res.
      collect_keys c (order (map snd groups)) res (\<lambda>res. collect_sidecars c (order' (map snd sidecars)) res (\<lambda>res. Reply (Inr res))))))" for s1 c
    unfolding listManifests_def
  proof (rule safely_ListR)
    fix s2 r assume 2: "evolves s1 s2" "inv s2" "does_list s2 (gcBucket c) ManifestPrefix r"
    show "safely s2 (case r of Inl e \<Rightarrow> Reply (Inl (Errorf ''gc: listing manifests: %w'' [e]))
       | Inr los \<Rightarrow> case group_manifests los [] new_gcResult of (groups, res) \<Rightarrow> listSidecars c res (\<lambda>sidecars res.
      collect_keys c (order (map snd groups)) res (\<lambda>res. collect_sidecars c (order' (map snd sidecars)) res (\<lambda>res. Reply (Inr res)))))"
    proof (cases r)
      case (Inr los)
      obtain groups res where g: "group_manifests los [] new_gcResult = (groups, res)" by (rule prod.exhaust)
      have "\<forall>lo\<in>set los. loKey lo \<in> {k. (gcBucket c, k) \<in> everHeld s2}" using 2(3) Inr by (simp add: does_list_def)
      then have "\<forall>(h, es)\<in>set groups. \<forall>e\<in>set es. splitManifestKey (meObjectKey e) = Some (h, meID e) \<and> (gcBucket c, meObjectKey e) \<in> everHeld s2"
        using group_manifests_ok [of "[]" "{k. (gcBucket c, k) \<in> everHeld s2}" los new_gcResult] g by simp
      then have gk: "\<forall>es\<in>set (order (map snd groups)). group_ok s2 (gcBucket c) es"
        using o(1) [of "map snd groups"] unfolding group_ok_def by fastforce
      have "safely s2 (listSidecars c res (\<lambda>sidecars res.
        collect_keys c (order (map snd groups)) res (\<lambda>res. collect_sidecars c (order' (map snd sidecars)) res (\<lambda>res. Reply (Inr res)))))"
        unfolding listSidecars_def
      proof (rule safely_ListR)
        fix s3 r3 assume 3: "evolves s2 s3"
        have gk3: "\<forall>es\<in>set (order (map snd groups)). group_ok s3 (gcBucket c) es" using gk group_ok_evolves [OF _ 3] by blast
        have "safely s3 (collect_keys c (order (map snd groups)) res' (\<lambda>res. collect_sidecars c (order' (map snd sidecars)) res (\<lambda>res. Reply (Inr res))))"
          if "group_sidecars los' [] res = (sidecars, res')" for los' sidecars res'
        proof -
          have "\<forall>es\<in>set (order' (map snd sidecars)). \<forall>e\<in>set es. \<not> starts_with ManifestPrefix (seObjectKey e)"
            using group_sidecars_ok [of "[]" los' res] that o(2) [of "map snd sidecars"] by fastforce
          then show ?thesis by (intro safely_collect_keys [OF gk3] safely_collect_sidecars) simp_all
        qed
        then show "safely s3 (case r3 of Inl e \<Rightarrow> Reply (Inl (Errorf ''gc: listing tag sidecars: %w'' [e]))
           | Inr los \<Rightarrow> case group_sidecars los [] res of (sidecars, res) \<Rightarrow>
               collect_keys c (order (map snd groups)) res (\<lambda>res. collect_sidecars c (order' (map snd sidecars)) res (\<lambda>res. Reply (Inr res))))"
          by (auto split: sum.split prod.split)
      qed
      then show ?thesis by (simp add: Inr g)
    qed simp
  qed
  then show ?thesis by (simp add: gc_Run_def Let_def)
qed


section \<open>The running system\<close>

lemma step_map_req: "step (s, map_req f p) (s', q) \<Longrightarrow> \<exists>p'. q = map_req f p' \<and> step (s, p) (s', p')"
  by (cases p) (auto simp: step_simps)

lemma safe_map_req: "safe inv evolves s p \<Longrightarrow> safe inv evolves s (map_req f p)"
proof (induction rule: safe.induct)
  case (safeI s p)
  show ?case
  proof (rule safe.safeI)
    fix s1 s2 q assume a: "evolves s s1" "inv s1" "step (s1, map_req f p) (s2, q)"
    then obtain p' where "q = map_req f p'" "step (s1, p) (s2, p')" using step_map_req by blast
    then show "inv s2 \<and> evolves s1 s2 \<and> safe inv evolves s2 q" using safeI a by blast
  qed
qed

definition http_headers :: "Request \<Rightarrow> bool" where
  "http_headers q \<longleftrightarrow> (\<forall>(n, vs)\<in>set (qHeader q). list_all token_char n)"

text \<open>
  The requests of the system, at any number of instances of the gateway, and the runs of the collector. Header names are tokens
  of RFC 9110 (the HTTP server refuses others), clients name no key the gateway reserves, and an upload
  token that opens is one that was issued. The collector may visit its groups in any order.
\<close>

definition stored_reserved :: "Proxy \<Rightarrow> Request \<Rightarrow> bool" where
  "stored_reserved p q \<longleftrightarrow> (\<exists>sk. storedKey p (qBucket q) (qKey q) = Inr sk \<and> reserved sk)"

definition token_issued :: "s3 \<Rightarrow> Proxy \<Rightarrow> Request \<Rightarrow> string \<Rightarrow> bool" where
  "token_issued s p q uploadID \<longleftrightarrow>
     (\<forall>token sk. storedKey p (qBucket q) (qKey q) = Inr sk \<and> Open (gKeys p) uploadID (qBucket q) (qKey q) = Inr token \<longrightarrow>
        issued s (qBucket q) sk token)"

inductive admitted :: "s3 \<Rightarrow> unit req \<Rightarrow> bool" where
  put: "http_headers q \<Longrightarrow> \<not> stored_reserved p q \<Longrightarrow> admitted s (map_req (\<lambda>_. ()) (putObjectR uni rnd p q))"
| delete: "\<not> stored_reserved p q \<Longrightarrow> admitted s (map_req (\<lambda>_. ()) (deleteObjectR p q))"
| create: "\<not> stored_reserved p q \<Longrightarrow> admitted s (map_req (\<lambda>_. ()) (createMultipartUpload uni urnd p q))"
| part: "admitted s (map_req (\<lambda>_. ()) (uploadPart rnd n p q uploadID partNumber))"
| complete: "token_issued s p q uploadID \<Longrightarrow>
    admitted s (map_req (\<lambda>_. ()) (completeMultipartUpload unmarshal p q uploadID))"
| abort: "admitted s (map_req (\<lambda>_. ()) (abortMultipartUpload p q uploadID))"
| list: "admitted s (map_req (\<lambda>_. ()) (listParts p q uploadID))"
| gc: "(\<And>xs. set (order xs) \<subseteq> set xs) \<Longrightarrow> (\<And>xs. set (order' xs) \<subseteq> set xs) \<Longrightarrow>
    admitted s (map_req (\<lambda>_. ()) (gc_Run order order' c))"

interpretation coordination: interference inv evolves admitted
proof unfold_locales
  fix s p assume "inv s" "admitted s p"
  show "safe inv evolves s p"
    using \<open>admitted s p\<close>
  proof cases
    case (put q p uni rnd)
    then show ?thesis using putObject_safe by (auto simp: http_headers_def stored_reserved_def intro!: safe_map_req)
  next
    case (delete p q)
    then show ?thesis using deleteObject_safe by (auto simp: stored_reserved_def intro!: safe_map_req)
  next
    case (create p q uni urnd)
    then show ?thesis using createMultipartUpload_safe by (auto simp: stored_reserved_def intro!: safe_map_req)
  next
    case (complete p q uploadID unmarshal)
    then show ?thesis using completeMultipartUpload_safe by (auto simp: token_issued_def intro!: safe_map_req)
  next
    case (gc order order' c)
    then show ?thesis using gc_Run_safe by (auto intro!: safe_map_req)
  qed (auto intro!: safe_map_req uploadPart_safe abortMultipartUpload_safe listParts_safe)
qed (use evolves_refl evolves_trans close_change in blast)+


text \<open>C5: A visible multipart object always has its manifest. Whatever puts, deletes, uploads, parts, completions, aborts and runs of the
  garbage collector have been started, in whatever order their calls to the provider were interleaved, whichever of those calls failed or
  were answered with an error although they took effect, whichever requests were cut off between two calls and whichever completions
  the provider discarded: an object whose metadata says it is multipart has a manifest stored under the id in
  that metadata.\<close>

theorem manifest_always_there:
  assumes "inv s0" and "reachable admitted s0 s ps" and "objects s (b, k) = Some v"
    and "Parse (vMetadata v) fallback = Inr meta" and "mMultipart meta"
  shows "objects s (b, ObjectKey (mManifestID meta) k) \<noteq> None"
proof -
  have "inv s" using coordination.reachable_safe assms(1,2) by blast
  moreover have "visible_mid s b k = Some (mManifestID meta)"
    using Parse_mid [OF assms(4)] assms(3,5) by (simp add: visible_mid_def)
  ultimately show ?thesis unfolding inv_def shown_ok_def has_manifest_def by blast
qed

definition example_meta :: Meta where
  "example_meta = \<lparr>mVersion = 1, mKeyID = ''k1'', mWrappedDEK = replicate 60 7, mLog2ChunkSize = 16, mHasChunkSize = True,
     mManifestID = replicate 16 1, mMultipart = True\<rparr>"

definition example_upload :: stored_upload where
  "example_upload = \<lparr>suBucket = ''b'', suKey = ''k'', suMetadata = Headers example_meta, suOpen = True, suParts = Map.empty\<rparr>"

definition example_s3 :: "bytes \<Rightarrow> s3" where
  "example_s3 rw = s3_put ''b'' ''k'' \<lparr>vMetadata = Headers example_meta, vBody = []\<rparr> (close_upload ''u''
     (s3_put ''b'' (ObjectKey (replicate 16 1) ''k'') \<lparr>vMetadata = [], vBody = rw\<rparr> (s3_upload ''u'' example_upload empty_s3)))"

lemma example_meta_Parse: "Parse (Headers example_meta) fallback = Inr example_meta"
proof (rule Parse_carried [OF _ _ carries_self])
  have "ValidateKID ''k1'' = None" by code_simp
  then show "valid_meta example_meta" by (simp add: valid_meta_def example_meta_def ValidateLog2ChunkSize_def del: replicate.simps)
qed (simp add: example_meta_def)

lemma example_meta_mid: "mid_of (Headers example_meta) = Some (replicate 16 1)"
  using Parse_mid [OF example_meta_Parse] by (simp add: example_meta_def)

lemma example_s3_inv:
  assumes "Marshal example_manifest (replicate 32 1) = Inr rw"
  shows "inv (example_s3 rw)"
proof -
  let ?s = "s3_upload ''u'' example_upload empty_s3"
  let ?s1 = "s3_put ''b'' (ObjectKey (replicate 16 1) ''k'') \<lparr>vMetadata = [], vBody = rw\<rparr> ?s"
  have "\<not> reserved ''k''" by (simp add: reserved_def starts_with_def)
  then have s: "inv ?s"
    using create_change [OF inv_empty, of "''u''" example_upload]
    by (simp add: empty_s3_def collides_def example_upload_def)
  have "PeekIdentity (take maxManifestBytes rw) = Inr (''b'', ''k'', replicate 16 1)"
    using PeekIdentity_Marshal [OF assms example_manifest_ok(2,3)] by (simp only: example_manifest_fields)
  moreover have o: "owned ?s ''b'' ''k'' (replicate 16 1)"
    by (auto simp: owned_def s3_upload_def example_upload_def example_meta_mid simp del: replicate.simps)
  ultimately have s1: "inv ?s1" using put_manifest [OF s o, of "\<lparr>vMetadata = [], vBody = rw\<rparr>"] by simp
  have "open_upload ?s1 ''b'' ''k'' ''u'' example_upload"
    by (simp only: open_upload_def s3_put_def s3_upload_def s3.simps fun_upd_same) (simp add: example_upload_def)
  moreover have "mid_of (suMetadata example_upload) = Some (replicate 16 1)"
    by (simp only: example_upload_def stored_upload.simps example_meta_mid)
  moreover have "has_manifest ?s1 ''b'' ''k'' (replicate 16 1)"
    by (simp only: has_manifest_def s3_put_def s3.simps fun_upd_same) simp
  ultimately have "inv (s3_put ''b'' ''k'' v (close_upload ''u'' ?s1))" if "vMetadata v = suMetadata example_upload" for v
    using conjunct1 [OF complete_change [OF s1]] that by blast
  then show ?thesis unfolding example_s3_def by (simp add: example_upload_def del: replicate.simps)
qed

definition example_gc :: gcConfig where
  "example_gc = \<lparr>gcBucket = ''b'', gcPrefix = '''', gcMinAge = 0, gcDisableMinAge = True, gcDryRun = False, gcNow = 0\<rparr>"

theorem manifest_always_there_witness:
  "\<exists>rw. reachable admitted (example_s3 rw) (example_s3 rw) [0 \<mapsto> map_req (\<lambda>_. ()) (gc_Run id rev example_gc)] \<and>
     objects (example_s3 rw) (''b'', ObjectKey (replicate 16 1) ''k'') \<noteq> None"
proof -
  obtain rw where rw: "Marshal example_manifest (replicate 32 1) = Inr rw"
    using Marshal_eq [OF example_manifest_ok(1), of "replicate 32 1"] by simp
  have r: "reachable admitted (example_s3 rw) (example_s3 rw) (Map.empty (0 \<mapsto> map_req (\<lambda>_. ()) (gc_Run id rev example_gc)))"
    by (rule reachable.admit [OF reachable.start]) (auto intro: admitted.gc)
  have "objects (example_s3 rw) (''b'', ''k'') = Some \<lparr>vMetadata = Headers example_meta, vBody = []\<rparr>"
    by (simp add: example_s3_def s3_put_def)
  then have "objects (example_s3 rw) (''b'', ObjectKey (mManifestID example_meta) ''k'') \<noteq> None"
    using manifest_always_there [OF example_s3_inv [OF rw] r, of "''b''" "''k''" _ 16 example_meta] example_meta_Parse
    by (simp add: example_meta_def)
  then show ?thesis using r by (auto simp: example_meta_def simp del: replicate.simps)
qed


text \<open>The tokens that \<open>createMultipartUpload\<close> hands out are issued, so that their completions are admitted.\<close>

lemma created_token_issued:
  assumes kp: "key_provider (gKeys p)" and cp: "prepare_create uni rnd p q = Inr cp" and h: "http_headers q"
    and r: "urID rnd = Inr i" "length i = IDSize" "urTokenNonce rnd = Inr nonce" "length nonce = 12"
    and c: "does_create s (cpInput cp) (Inr u) s'"
    and t: "Seal (urTokenNonce rnd) (gKeys p) (upload_token (cpMeta cp) u) (qBucket q) (qKey q) = Inr token"
  shows "token_issued s' p q token"
proof -
  obtain client where cl: "clientMetadata (qHeader q) = Inr client" "cuBucket (cpInput cp) = qBucket q"
      "storedKey p (qBucket q) (qKey q) = Inr (cuKey (cpInput cp))" "cuMetadata (cpInput cp) = mergeMetadata client (cpMeta cp)"
      "mMultipart (cpMeta cp)" "mManifestID (cpMeta cp) = i"
    using prepare_create_Inr [OF cp] r(1) by auto
  have mid: "mid_of (cuMetadata (cpInput cp)) = Some i"
    using mid_merged [OF cl(1) h [unfolded http_headers_def]] cl r(2) by simp
  have s': "uploads s' u = Some \<lparr>suBucket = cuBucket (cpInput cp), suKey = cuKey (cpInput cp), suMetadata = cuMetadata (cpInput cp),
      suOpen = True, suParts = Map.empty\<rparr>"
    using c by (auto simp: does_create_def s3_upload_def)
  have t': "Seal (Inr nonce) (gKeys p) (upload_token (cpMeta cp) u) (qBucket q) (qKey q) = Inr token" using t r(3) by simp
  have i16: "length (tManifestID (upload_token (cpMeta cp) u)) = 16" using r(2) cl(6) by (simp add: upload_token_def)
  have "Open (gKeys p) token (qBucket q) (qKey q) = Inr (upload_token (cpMeta cp) u)"
    using key_provider.Seal_length [OF kp t' r(4) i16] i16 r(4) t' by (auto simp: key_provider.Open_Inr [OF kp])
  then show ?thesis using cl s' mid by (simp add: token_issued_def issued_def upload_token_def)
qed

end
