(* ===== verification/KeyringRoundtrip.thy ===== *)
theory KeyringRoundtrip
  imports Served
begin

text \<open>
  A keyring file that was written opens again to the same keyring: the sealed keys, the secrets, the
  directory and the tenants' sections of \<open>keyring.go\<close>, \<open>tenants.go\<close> and \<open>file.go\<close>, composed. This is the check
  that \<open>blindbucket reseal\<close> makes before it replaces a file, proved under the conditions the property names.
\<close>

section \<open>Sealed keys open again\<close>

text \<open>What the Go types and the clock guarantee of a keyring: secrets of 32 bytes, and no key dated at the
  zero time.\<close>

definition ring_secrets :: "Keyring \<Rightarrow> bool" where
  "ring_secrets r \<longleftrightarrow> list_all (\<lambda>(kid, t). t \<noteq> 0) (kcreated r) \<and>
     pred_option (\<lambda>s. length s = 32) (kaudit r) \<and> pred_option (\<lambda>s. length s = 32) (kname r) \<and>
     pred_option (\<lambda>s. length s = 32) (kfreshness r)"

lemma seal_keks_eKID: "seal_keks rnd ad k r kids = Inr es \<Longrightarrow> map eKID es = kids"
  by (induction kids arbitrary: es) (auto simp: result_simps)

definition reopened :: "Keyring \<Rightarrow> string list \<Rightarrow> Keyring \<Rightarrow> Keyring \<Rightarrow> bool" where
  "reopened r kids acc acc' \<longleftrightarrow>
     keks acc' = rev (map (\<lambda>k. (k, the (map_of (keks r) k))) kids) @ keks acc \<and>
     kcreated acc' = rev (map (\<lambda>k. (k, created_at r k)) (filter (\<lambda>k. created_at r k \<noteq> 0) kids)) @ kcreated acc \<and>
     kaudit acc' = kaudit acc \<and> kname acc' = kname acc \<and> kfreshness acc' = kfreshness acc"

lemma set_created_fresh:
  assumes "kid \<notin> fst ` set cs" and "kcreated ring = (kid, now) # cs"
  shows "kcreated (set_created kid t ring) = (if t = 0 then cs else (kid, t) # cs)"
proof -
  have "filter (\<lambda>(k, _). k \<noteq> kid) cs = cs" using assms(1) by (force simp: filter_id_conv)
  then show ?thesis using assms(2) by (simp add: set_created_def Let_def)
qed

lemma set_created_fields [simp]:
  "keks (set_created kid t r) = keks r" "kaudit (set_created kid t r) = kaudit r" "kname (set_created kid t r) = kname r"
  "kfreshness (set_created kid t r) = kfreshness r"
  by (simp_all add: set_created_def Let_def)

lemma open_seal_keks:
  assumes "nonces rnd" and "ring_ok r" and "distinct kids" and "set kids \<subseteq> fst ` set (keks r)"
    and "set kids \<inter> fst ` set (keks acc) = {}" and "fst ` set (kcreated acc) \<subseteq> fst ` set (keks acc)"
    and "seal_keks rnd ad k r kids = Inr es"
  shows "\<exists>acc'. open_keks now de ke ad k es acc = Inr acc' \<and> reopened r kids acc acc'"
  using assms(3-7)
proof (induction kids arbitrary: es acc)
  case Nil
  then show ?case by (simp add: reopened_def)
next
  case (Cons kid kids)
  obtain kek where kk: "map_of (keks r) kid = Some kek" using Cons.prems(2) by (auto dest: weak_map_of_SomeI)
  then have v: "ValidateKID kid = None" "length kek = 32"
    using assms(2) by (auto simp: ring_ok_def list_all_iff dest!: map_of_SomeD)
  obtain a w es' where a: "ad kid = Inr a" and w: "sealKey (rnd a) k kek a = Inr w"
      and es': "seal_keks rnd ad k r kids = Inr es'"
      and es: "es = \<lparr>eKID = kid, eCreated = created_at r kid, eWrapped = b64_EncodeToString w\<rparr> # es'"
    using Cons.prems(5) kk by (auto simp: result_simps)
  have fresh: "map_of (keks acc) kid = None" using Cons.prems(3) by (auto simp: map_of_eq_None_iff)
  then obtain ring where add: "Add now kid kek acc = Inr ring" and ring: "keks ring = (kid, kek) # keks acc"
      "kcreated ring = (kid, now) # kcreated acc" "kaudit ring = kaudit acc" "kname ring = kname acc" "kfreshness ring = kfreshness acc"
    using v by (auto simp: Add_def Let_def)
  let ?acc = "set_created kid (created_at r kid) ring"
  have nc: "kid \<notin> fst ` set (kcreated acc)" using Cons.prems(3,4) by auto
  note cr = set_created_fresh [OF nc ring(2), of "created_at r kid"]
  have "\<exists>acc'. open_keks now de ke ad k es' ?acc = Inr acc' \<and> reopened r kids ?acc acc'"
    using Cons.prems by (intro Cons.IH es') (auto simp: ring cr)
  then obtain acc' where o: "open_keks now de ke ad k es' ?acc = Inr acc'" and r': "reopened r kids ?acc acc'" by blast
  have "open_keks now de ke ad k es acc = Inr acc'"
    using o a add by (simp add: es b64_decode_encode sealed_opens [OF assms(1) w])
  moreover have "reopened r (kid # kids) acc acc'" using r' cr kk by (simp add: reopened_def ring)
  ultimately show ?case by blast
qed

section \<open>A keyring opens to an equal one\<close>

definition with_secrets :: "Keyring \<Rightarrow> Keyring \<Rightarrow> Keyring" where
  "with_secrets r acc = acc\<lparr>kactive := kactive r, kaudit := kaudit r, kname := kname r, kfreshness := kfreshness r\<rparr>"

lemma reopened_KIDs:
  assumes "reopened r (KIDs r) NewKeyring acc" and "distinct (map fst (keks r))"
  shows "KIDs acc = KIDs r" and "set (keks acc) = set (keks r)"
proof -
  have "map fst (keks acc) = rev (KIDs r)" using assms(1) by (simp add: reopened_def NewKeyring_def rev_map [symmetric] comp_def)
  moreover have "sorted (KIDs r)" by (simp add: KIDs_def)
  ultimately show "KIDs acc = KIDs r" unfolding KIDs_def by (metis mset_rev properties_for_sort)
  have "set (keks acc) = (\<lambda>k. (k, the (map_of (keks r) k))) ` fst ` set (keks r)"
    using assms(1) by (simp add: reopened_def NewKeyring_def image_image)
  also have "\<dots> = set (keks r)" using assms(2) by (force simp: image_iff)
  finally show "set (keks acc) = set (keks r)" .
qed


lemma created_at_dated:
  assumes "list_all (\<lambda>(kid, t). t \<noteq> 0) (kcreated r)"
  shows "created_at r kid \<noteq> 0 \<longleftrightarrow> kid \<in> fst ` set (kcreated r)"
proof (cases "map_of (kcreated r) kid")
  case None
  then have "kid \<notin> fst ` set (kcreated r)" by (simp add: map_of_eq_None_iff)
  with None show ?thesis by (simp add: created_at_def)
next
  case (Some t)
  then have "(kid, t) \<in> set (kcreated r)" by (rule map_of_SomeD)
  with Some assms show ?thesis by (force simp: created_at_def list_all_iff)
qed

lemma reopened_Equal:
  assumes o: "reopened r (KIDs r) NewKeyring acc" and r: "ring_ok r" and d: "list_all (\<lambda>(kid, t). t \<noteq> 0) (kcreated r)"
  shows "Equal r (with_secrets r acc)"
proof -
  let ?dated = "filter (\<lambda>k. created_at r k \<noteq> 0) (KIDs r)"
  have dk: "distinct (map fst (keks r))" and dc: "distinct (map fst (kcreated r))" and s: "fst ` set (kcreated r) \<subseteq> fst ` set (keks r)"
    using r by (simp_all add: ring_ok_def)
  have k: "keks acc = rev (map (\<lambda>k. (k, the (map_of (keks r) k))) (KIDs r))"
      and c: "kcreated acc = rev (map (\<lambda>k. (k, created_at r k)) ?dated)"
    using o by (simp_all add: reopened_def NewKeyring_def)
  have "length (keks acc) = length (keks r)" by (simp add: k KIDs_def)
  moreover have "length (kcreated acc) = length (kcreated r)"
  proof -
    have "set ?dated = fst ` set (kcreated r)" using created_at_dated [OF d] s by auto
    moreover have "distinct ?dated" using dk by (simp add: KIDs_def)
    ultimately have "length ?dated = length (map fst (kcreated r))" using distinct_card dc by (metis set_map)
    then show ?thesis by (simp add: c)
  qed
  moreover have "map_of (keks acc) kid = Some kek \<and> created_at r kid = created_at acc kid" if "(kid, kek) \<in> set (keks r)" for kid kek
  proof -
    have i: "kid \<in> set (KIDs r)" "map_of (keks r) kid = Some kek" using that dk by force+
    then have "map_of (keks acc) kid = Some kek" by (simp add: k rev_map map_of_map_restrict)
    moreover have "map_of (kcreated acc) kid = (if created_at r kid \<noteq> 0 then Some (created_at r kid) else None)"
      using i(1) by (simp add: c rev_map map_of_map_restrict restrict_map_def)
    ultimately show ?thesis by (simp add: created_at_def [of acc])
  qed
  ultimately show ?thesis unfolding Equal_def by (auto simp: with_secrets_def created_at_def list_all_iff)
qed

lemma keyring_reopens:
  assumes n: "nonces rnd" and r: "ring_ok r" "ring_secrets r" "kactive r \<in> fst ` set (keks r)"
    and b: "buildFile ed rnd r k ref params = Inr base"
  shows "\<exists>acc. openKeyring now ed base k = Inr (with_secrets r acc) \<and> reopened r (KIDs r) NewKeyring acc \<and>
    vKeys base \<noteq> [] \<and> vVersion base = 1"
proof -
  obtain es au nm fr where es: "seal_keks rnd kekAAD k r (KIDs r) = Inr es"
      and s: "if_set (kaudit r) (sealAudit ed rnd k) = Inr au" "if_set (kname r) (sealName rnd k) = Inr nm"
        "if_set (kfreshness r) (sealFreshness rnd k) = Inr fr"
      and base: "base = \<lparr>vVersion = 1, vActiveKID = kactive r, vRootKey = ref, vKDF = params, vKeys = es, vAudit = au, vName = nm, vFreshness = fr\<rparr>"
    using b by (auto simp: buildFile_def result_simps split: if_splits)
  have "distinct (KIDs r)" using r(1) by (simp add: KIDs_def ring_ok_def)
  then have "\<exists>acc. open_keks now de ke kekAAD k es NewKeyring = Inr acc \<and> reopened r (KIDs r) NewKeyring acc" for de ke
    by (intro open_seal_keks [OF n r(1) _ _ _ _ es]) (simp_all add: NewKeyring_def)
  then obtain acc where acc: "open_keks now (\<lambda>e. Errorf ''keys: key %q is not valid base64: %w'' [e]) hinted kekAAD k es NewKeyring = Inr acc"
      and o: "reopened r (KIDs r) NewKeyring acc" by blast
  have "kactive r \<in> set (KIDs acc)" using reopened_KIDs(1) [OF o] r(1,3) by (simp add: ring_ok_def del: set_KIDs) (simp add: KIDs_def)
  then have "map_of (keks acc) (kactive r) \<noteq> None" by (simp add: map_of_eq_None_iff)
  then have a: "SetActive (kactive r) acc = Inr (acc\<lparr>kactive := kactive r\<rparr>)" by (auto simp: SetActive_def)
  have sec: "if_set au (\<lambda>e. openAudit ed e k) = Inr (kaudit r)" "if_set nm (\<lambda>e. openName e k) = Inr (kname r)"
      "if_set fr (\<lambda>e. openFreshness e k) = Inr (kfreshness r)"
    using s r(2) sealed_opens [OF n]
    by (auto simp: ring_secrets_def if_set_def sealAudit_def sealName_def sealFreshness_def openAudit_def openName_def
        openFreshness_def AuditKeyFromSecret_def NameKeyFromSecret_def FreshnessKeyFromSecret_def secret_from_def
        b64_decode_encode result_simps split: option.splits)
  have "set (KIDs r) \<noteq> {}" using r(3) by auto
  then have "es \<noteq> []" using seal_keks_eKID [OF es] by (auto simp del: set_KIDs)
  moreover have "openKeyring now ed base k = Inr (with_secrets r acc)"
    using acc a sec by (simp add: openKeyring_def base with_secrets_def)
  ultimately show ?thesis using o by (auto simp: base)
qed


section \<open>The sections of the tenants\<close>

lemma section_reopens:
  assumes n: "nonces rnd" and r: "ring_ok r" "ring_secrets r" "kaudit r = None" "kfreshness r = None" and k: "length k = 32"
    and s: "sealSection rnd name r k ref kdf = Inr s"
  shows "\<exists>r'. openSection now s (kactive r) k = Inr r' \<and> Equal r r'" and "map eKID (sKeys s) = KIDs r"
    and "sName s = name" "sNameKey s \<noteq> None" "sRootKey s = ref" "sKDF s = kdf"
proof -
  obtain secret es a w where kn: "kname r = Some secret" and es: "seal_keks rnd (tenantKEKAAD name) k r (KIDs r) = Inr es"
      and a: "tenantNameAAD name = Inr a" and w: "sealKey (rnd a) k secret a = Inr w"
      and sec: "s = \<lparr>sName = name, sRootKey = ref, sKDF = kdf, sKeys = es, sNameKey = Some (b64_EncodeToString w)\<rparr>"
    using s by (auto simp: sealSection_def result_simps split: option.splits if_splits)
  then show "map eKID (sKeys s) = KIDs r" "sName s = name" "sNameKey s \<noteq> None" "sRootKey s = ref" "sKDF s = kdf"
    using seal_keks_eKID [OF es] by simp_all
  have "distinct (KIDs r)" using r(1) by (simp add: KIDs_def ring_ok_def)
  then have "\<exists>acc. open_keks now de ke (tenantKEKAAD name) k es NewKeyring = Inr acc \<and> reopened r (KIDs r) NewKeyring acc" for de ke
    by (intro open_seal_keks [OF n r(1) _ _ _ _ es]) (simp_all add: NewKeyring_def)
  then obtain acc where acc: "open_keks now (\<lambda>_. Errorf ''keys: tenant %q: key %q is not valid base64'' []) (\<lambda>e. Errorf ''keys: tenant %q: %w'' [e])
        (tenantKEKAAD name) k es NewKeyring = Inr acc" and o: "reopened r (KIDs r) NewKeyring acc" by blast
  have "length secret = 32" using r(2) kn by (simp add: ring_secrets_def)
  then have "openSection now s (kactive r) k = Inr (acc\<lparr>kactive := kactive r, kname := Some secret\<rparr>)"
    using acc a k by (simp add: openSection_def sec b64_decode_encode sealed_opens [OF n w] NameKeyFromSecret_def secret_from_def)
  moreover have "acc\<lparr>kactive := kactive r, kname := Some secret\<rparr> = with_secrets r acc"
    using o r(3,4) kn by (simp add: with_secrets_def reopened_def NewKeyring_def)
  moreover have "Equal r (with_secrets r acc)" using reopened_Equal [OF o r(1)] r(2) by (simp add: ring_secrets_def)
  ultimately show "\<exists>r'. openSection now s (kactive r) k = Inr r' \<and> Equal r r'" by auto
qed

text \<open>What is asked of the world for a tenant that is not under the deployment's lock. One that was given a
  new lock: the key service (or the passphrase prompt) returns the root key it was sealed with. One whose
  section is written back as it was read: it is the section of this tenant, and opens as it did.\<close>

definition lock_ref :: "TenantLock \<Rightarrow> RootKeyRef" where
  "lock_ref l = (case tlRef l of Some ref \<Rightarrow> ref | None \<Rightarrow> passphrase_ref)"

definition lock_answers :: "tenant_root \<Rightarrow> string \<Rightarrow> TenantLock \<Rightarrow> bool" where
  "lock_answers root name l \<longleftrightarrow> (\<exists>k. tlRootKey l = Some k \<and> length k = 32 \<and> root name (lock_ref l) (tlKDF l) = Inr k) \<and>
     RootKeyRef_validate (lock_ref l) = None"

definition same_ring :: "Keyring option \<Rightarrow> Keyring result \<Rightarrow> bool" where
  "same_ring a b = (case (a, b) of (Some r, Inr r') \<Rightarrow> Equal r r' | (None, Inl _) \<Rightarrow> True | _ \<Rightarrow> False)"

definition as_read :: "int \<Rightarrow> tenant_root \<Rightarrow> Tenant \<Rightarrow> bool" where
  "as_read now root t \<longleftrightarrow> sName (tnSection t) = tnName t \<and> sort (map eKID (sKeys (tnSection t))) = sort (tnKIDs t) \<and>
     sNameKey (tnSection t) \<noteq> None \<and> same_ring (tnRing t) (openTenant now t [] (Some root))"

definition tenant_world :: "int \<Rightarrow> tenant_root \<Rightarrow> Tenant \<Rightarrow> bool" where
  "tenant_world now root t \<longleftrightarrow>
     (case tnRing t of Some r \<Rightarrow> ring_secrets r \<and> kaudit r = None \<and> kfreshness r = None | None \<Rightarrow> True) \<and>
     (lsource (Tenant_Lock t) \<noteq> LockDeployment \<longrightarrow>
        (case tnSeal t of Some l \<Rightarrow> lock_answers root (tnName t) l | None \<Rightarrow> as_read now root t))"

lemma openTenant_deployment:
  "lsource (Tenant_Lock t) = LockDeployment \<Longrightarrow> openTenant now t k root = openSection now (tnSection t) (tnActiveKID t) k"
  by (simp add: openTenant_def)

lemma openTenant_locked:
  assumes "lsource (Tenant_Lock t) \<noteq> LockDeployment" and "lock_answers root (tnName t) l"
    and "sRootKey (tnSection t) = tlRef l" "sKDF (tnSection t) = tlKDF l"
  shows "openTenant now t k (Some root) = openSection now (tnSection t) (tnActiveKID t) (the (tlRootKey l))"
  using assms by (cases "tlRef l") (auto simp: openTenant_def lock_answers_def lock_ref_def passphrase_ref_def)

text \<open>The tenant as \<open>openFile\<close> builds it from its directory entry and its section.\<close>

definition read_tenant :: "Tenant \<Rightarrow> tenantSection \<Rightarrow> Tenant" where
  "read_tenant t s = t\<lparr>tnRing := None, tnErr := None, tnSection := s, tnSeal := None\<rparr>"

lemma Tenant_Lock_read [simp]: "Tenant_Lock (read_tenant t s) = Tenant_Lock t"
  by (simp add: read_tenant_def Tenant_Lock_def)

lemma write_section_reopens:
  assumes n: "nonces rnd" and t: "tenant_ok t" "tenant_world now root t" and k: "length k = 32"
    and w: "write_section rnd k t = Inr s"
  shows "sName s = tnName t" "sort (map eKID (sKeys s)) = sort (tnKIDs t)" "sNameKey s \<noteq> None" "matchesLock s (Tenant_Lock t)"
    "same_ring (tnRing t) (openTenant now (read_tenant t s) k (Some root))"
proof -
  show "matchesLock s (Tenant_Lock t)" using w by (auto simp: write_section_def result_simps split: if_splits)
  consider (sealed) r k' ref kdf where "tnRing t = Some r" "sealSection rnd (tnName t) r k' ref kdf = Inr s" "length k' = 32"
      "openTenant now (read_tenant t s) k (Some root) = openSection now s (kactive r) k'"
    | (kept) "s = tnSection t" "as_read now root t" "lsource (Tenant_Lock t) \<noteq> LockDeployment"
  proof (cases "lsource (Tenant_Lock t) = LockDeployment")
    case True
    then obtain r where r: "tnRing t = Some r" "sealSection rnd (tnName t) r k None None = Inr s"
      using w by (auto simp: write_section_def result_simps split: option.splits if_splits)
    then have "openTenant now (read_tenant t s) k (Some root) = openSection now s (kactive r) k"
      using True t(1) by (simp add: openTenant_deployment) (simp add: read_tenant_def tenant_ok_def)
    with r k show thesis by (intro sealed)
  next
    case lock: False
    show thesis
    proof (cases "tnSeal t")
      case None
      then show thesis using w lock t(2) by (intro kept) (auto simp: write_section_def result_simps tenant_world_def split: if_splits)
    next
      case (Some l)
      then have l: "lock_answers root (tnName t) l" using lock t(2) by (simp add: tenant_world_def)
      then obtain k' where k': "tlRootKey l = Some k'" "length k' = 32" by (auto simp: lock_answers_def)
      obtain r where r: "tnRing t = Some r" "sealSection rnd (tnName t) r k' (tlRef l) (tlKDF l) = Inr s"
        using w lock Some k' by (auto simp: write_section_def result_simps split: option.splits if_splits)
      have s: "sRootKey s = tlRef l" "sKDF s = tlKDF l"
        using r(2) by (auto simp: sealSection_def result_simps split: option.splits if_splits)
      have "openTenant now (read_tenant t s) k (Some root) = openSection now s (kactive r) k'"
        using openTenant_locked [of "read_tenant t s" root l now k] lock l s r(1) t(1) k'(1)
        by (simp add: read_tenant_def tenant_ok_def Tenant_Lock_def)
      with r k' show thesis by (intro sealed)
    qed
  qed
  then have "sName s = tnName t \<and> sort (map eKID (sKeys s)) = sort (tnKIDs t) \<and> sNameKey s \<noteq> None \<and>
    same_ring (tnRing t) (openTenant now (read_tenant t s) k (Some root))"
  proof cases
    case (sealed r k' ref kdf)
    have "ring_ok r" "KIDs r = sort (tnKIDs t)" "ring_secrets r" "kaudit r = None" "kfreshness r = None"
      using sealed(1) t by (simp_all add: tenant_ok_def tenant_world_def)
    note o = section_reopens [OF n this(1,3,4,5) sealed(3,2)] and kids = this(2)
    from o(1) obtain r' where "openSection now s (kactive r) k' = Inr r'" "Equal r r'" by blast
    then have "same_ring (tnRing t) (openTenant now (read_tenant t s) k (Some root))" using sealed(1,4) by (simp add: same_ring_def)
    with o(2-4) kids show ?thesis by (simp add: sorted_sort_id)
  next
    case kept
    have "openTenant now (read_tenant t s) k (Some root) = openTenant now t [] (Some root)"
      using kept(1,3) by (simp add: openTenant_def read_tenant_def Tenant_Lock_def)
    with kept show ?thesis by (simp add: as_read_def)
  qed
  then show "sName s = tnName t" "sort (map eKID (sKeys s)) = sort (tnKIDs t)" "sNameKey s \<noteq> None"
    "same_ring (tnRing t) (openTenant now (read_tenant t s) k (Some root))" by blast+
qed


section \<open>The file\<close>

lemma write_sections_Inr:
  "write_sections rnd k ts = Inr ss \<longleftrightarrow> list_all2 (\<lambda>t s. write_section rnd k t = Inr s) ts ss"
  by (induction ts arbitrary: ss) (auto simp: result_simps list_all2_Cons1)

lemma section_map_fresh:
  "distinct (map sName ss) \<Longrightarrow> sName ` set ss \<inter> fst ` set m = {} \<Longrightarrow>
   section_map ss m = Inr (rev (map (\<lambda>s. (sName s, s)) ss) @ m)"
  by (induction ss arbitrary: m) (auto simp: map_of_eq_None_iff)

lemma section_map_of:
  assumes "distinct (map sName ss)" and "s \<in> set ss"
  shows "map_of (rev (map (\<lambda>s. (sName s, s)) ss)) (sName s) = Some s"
proof -
  have "distinct (map fst (rev (map (\<lambda>s. (sName s, s)) ss)))" using assms(1) by (simp add: rev_map [symmetric] comp_def)
  moreover have "(sName s, s) \<in> set (rev (map (\<lambda>s. (sName s, s)) ss))" using assms(2) by simp
  ultimately show ?thesis by simp
qed

abbreviation dir_entry :: "Tenant \<Rightarrow> DirectoryTenant" where
  "dir_entry t \<equiv> \<lparr>dtName = tnName t, dtBuckets = tnBuckets t, dtKIDs = tnKIDs t, dtActiveKID = tnActiveKID t, dtLocks = tnLocks t\<rparr>"

lemma check_sections_all:
  assumes "\<forall>t\<in>set ts. \<exists>s. map_of m (tnName t) = Some s \<and> sort (map eKID (sKeys s)) = sort (tnKIDs t) \<and>
      sNameKey s \<noteq> None \<and> matchesLock s (Tenant_Lock t)"
  shows "check_sections m (map dir_entry ts) = None"
  using assms by (induction ts) (auto simp: Tenant_Lock_def)

lemma file_tenant_equal:
  assumes "map_of m (tnName t) = Some s" and "same_ring (tnRing t) (openTenant now (read_tenant t s) k root)"
  shows "tenant_equal t (file_tenant now k root m (dir_entry t))"
proof -
  have r: "read_tenant t s = \<lparr>tnName = tnName t, tnBuckets = tnBuckets t, tnActiveKID = tnActiveKID t, tnKIDs = tnKIDs t,
      tnLocks = tnLocks t, tnRing = None, tnErr = None, tnSection = s, tnSeal = None\<rparr>"
    by (simp add: read_tenant_def)
  have "file_tenant now k root m (dir_entry t) = set_opened (openTenant now (read_tenant t s) k root) (read_tenant t s)"
    using assms(1) unfolding file_tenant_def Let_def r by simp
  then show ?thesis using assms(2)
    by (cases "openTenant now (read_tenant t s) k root")
      (auto simp: tenant_equal_def set_opened_def read_tenant_def same_ring_def split: option.splits)
qed

lemma tenants_reopen:
  assumes n: "nonces rnd" and i: "file_inv f" and w: "\<forall>t\<in>set (fTenants f). tenant_world now root t" and k: "length k = 32"
    and ws: "write_sections rnd k (fTenants f) = Inr ss"
  shows "\<exists>m. section_map ss [] = Inr m \<and> length m = length (fTenants f) \<and> check_sections m (map dir_entry (fTenants f)) = None \<and>
    list_all2 tenant_equal (fTenants f) (map (file_tenant now k (Some root) m) (map dir_entry (fTenants f)))"
proof -
  have l: "list_all2 (\<lambda>t s. write_section rnd k t = Inr s) (fTenants f) ss" using ws by (simp add: write_sections_Inr)
  have tok: "\<forall>t\<in>set (fTenants f). tenant_ok t" using i by (simp add: file_inv_default list_all_iff)
  note re = write_section_reopens [OF n _ _ k]
  have nm: "map sName ss = map tnName (fTenants f)"
  proof (rule nth_equalityI)
    show "length (map sName ss) = length (map tnName (fTenants f))" using list_all2_lengthD [OF l] by simp
    fix j assume "j < length (map sName ss)"
    then show "map sName ss ! j = map tnName (fTenants f) ! j"
      using list_all2_nthD2 [OF l] list_all2_lengthD [OF l] re(1) tok w by (metis length_map nth_map nth_mem)
  qed
  have "distinct (map tnName (fTenants f))" using i by (simp add: file_inv_default owners_ok_def comp_def)
  then have d: "distinct (map sName ss)" by (simp only: nm)
  let ?m = "rev (map (\<lambda>s. (sName s, s)) ss)"
  have m: "section_map ss [] = Inr ?m" using section_map_fresh [OF d] by simp
  have s: "\<exists>s. map_of ?m (tnName t) = Some s \<and> write_section rnd k t = Inr s" if t: "t \<in> set (fTenants f)" for t
  proof -
    obtain j where "j < length (fTenants f)" "fTenants f ! j = t" using t by (meson in_set_conv_nth)
    then have "ss ! j \<in> set ss" "write_section rnd k t = Inr (ss ! j)" using l by (auto simp: list_all2_conv_all_nth)
    moreover have "sName (ss ! j) = tnName t" using re(1) calculation(2) t tok w by blast
    ultimately show ?thesis using section_map_of [OF d, of "ss ! j"] by auto
  qed
  have c: "\<exists>s. map_of ?m (tnName t) = Some s \<and> sort (map eKID (sKeys s)) = sort (tnKIDs t) \<and> sNameKey s \<noteq> None \<and>
      matchesLock s (Tenant_Lock t) \<and> same_ring (tnRing t) (openTenant now (read_tenant t s) k (Some root))"
    if t: "t \<in> set (fTenants f)" for t
  proof -
    from s [OF t] obtain s where s: "map_of ?m (tnName t) = Some s" "write_section rnd k t = Inr s" by blast
    show ?thesis using s(1) re(2-5) [OF _ _ s(2)] bspec [OF tok t] bspec [OF w t] by (intro exI [of _ s]) blast
  qed
  then have "check_sections ?m (map dir_entry (fTenants f)) = None" by (intro check_sections_all) blast
  moreover have "tenant_equal t (file_tenant now k (Some root) ?m (dir_entry t))" if "t \<in> set (fTenants f)" for t
    using c [OF that] file_tenant_equal by blast
  ultimately show ?thesis using m list_all2_lengthD [OF l] by (auto simp: list_all2_conv_all_nth)
qed

lemma writeV2_Inr:
  assumes "writeV2 json rnd base k ss dir kids = Inr v2"
  shows "Directory_validate dir kids = None" and "\<exists>w. sealKey (rnd (bytes_of aadDirectory)) k (json dir) (bytes_of aadDirectory) = Inr w \<and>
    v2 = keyringFile.extend (base\<lparr>vVersion := keyringVersion2\<rparr>) (keyringFileV2.fields (dirGeneration dir) (b64_EncodeToString w) (Some ss))"
  using assms by (auto simp: writeV2_def result_simps split: if_splits)

lemma b64_EncodeToString_empty: "b64_EncodeToString bs = '''' \<longleftrightarrow> bs = []"
proof
  have e: "b64_EncodeToString [] = ''''" by code_simp
  assume "b64_EncodeToString bs = ''''"
  with e b64_decode_encode show "bs = []" by (metis sum.inject(2))
qed (simp, code_simp)


lemma Equal_KIDs:
  assumes "reopened r (KIDs r) NewKeyring acc" and "ring_ok r"
  shows "KIDs (with_secrets r acc) = KIDs r"
  using reopened_KIDs(1) [OF assms(1)] assms(2) by (simp add: with_secrets_def KIDs_def ring_ok_def)

lemma openKeyring_extend:
  "openKeyring now ed (keyringFile.extend base x) k = openKeyring now ed base k"
  "openKeyring now ed (base\<lparr>vVersion := v\<rparr>) k = openKeyring now ed base k"
  by (simp_all add: openKeyring_def keyringFile.defs)

lemma writeV2_opens:
  assumes w: "writeV2 json rnd base k ss dir kids = Inr v2" and n: "nonces rnd" and j: "unjson (json dir) = Inr dir"
    and k: "length k = 32" and b: "openKeyring now ed base k = Inr def" "vKeys base \<noteq> []" and kids: "KIDs def = kids"
    and m: "section_map ss [] = Inr mp" "length mp = length (dirTenants dir)" "check_sections mp (dirTenants dir) = None"
  shows "OpenFile now ed unjson v2 k root = Inr \<lparr>fDefault = def, fGeneration = dirGeneration dir,
    fTenants = map (file_tenant now k root mp) (dirTenants dir), fTombstones = dirTombstones dir\<rparr>"
proof -
  from writeV2_Inr [OF w] obtain c where v: "Directory_validate dir kids = None"
      and c: "sealKey (rnd (bytes_of aadDirectory)) k (json dir) (bytes_of aadDirectory) = Inr c"
      and v2: "v2 = keyringFile.extend (base\<lparr>vVersion := keyringVersion2\<rparr>)
        (keyringFileV2.fields (dirGeneration dir) (b64_EncodeToString c) (Some ss))" by blast
  note oc = sealed_opens [OF n c]
  have "c \<noteq> []" using oc by (auto simp: openKey_def)
  then show ?thesis
    using v oc j k b kids m by (simp add: OpenFile_def openFile_def parseKeyringFile_def v2 openKeyring_extend keyringFile_extend
        b64_EncodeToString_empty b64_decode_encode)
qed

text \<open>C20: A keyring file round trip. A file that was written under a root key of the deployment opens again,
  with the same root key, to an equal file: the same default keyring with all its secrets and creation
  dates, every tenant with its buckets, keys, active key and locks, opened as it was (also one whose root
  key is not available, which stays closed), and the same tombstones. A file with tenants or tombstones
  comes back at the next generation. What it takes: the secrets are of 32 bytes and no key is dated at the
  zero time; a tenant's keyring has no audit and no freshness key, for which its section has no place; a
  tenant with a new lock of its own gets from its key service the root key it was sealed with; a tenant
  whose section is written back as it was read opens as it did; and the directory decodes from its JSON.\<close>

theorem keyring_file_roundtrip:
  assumes "file_reach f" and "nonces rnd" and "ring_secrets (fDefault f)"
    and "\<forall>t\<in>set (fTenants f). tenant_world now root t"
    and "\<And>d. d = (File_Directory f)\<lparr>dirGeneration := fGeneration f + 1\<rparr> \<Longrightarrow> unjson (json d) = Inr d"
    and "MarshalWithRootKey ed json rnd f rootKey ref = Inr v2"
  shows "\<exists>g. OpenFile now ed unjson v2 rootKey (Some root) = Inr g \<and> File_Equal f g \<and>
    fGeneration g = (if fTenants f = [] \<and> fTombstones f = [] then 0 else fGeneration f + 1)"
proof -
  have i: "file_inv f" by (rule file_reach_inv [OF assms(1)])
  have k: "length rootKey = 32" and m: "File_marshal ed json rnd f rootKey ref None = Inr v2"
    using assms(6) by (auto simp: MarshalWithRootKey_def result_simps split: if_splits)
  have r: "ring_ok (fDefault f)" "kactive (fDefault f) \<in> fst ` set (keks (fDefault f))" using i by (auto simp: file_inv_def)
  obtain base where b: "buildFile ed rnd (fDefault f) rootKey ref None = Inr base"
    using m by (auto simp: File_marshal_def result_simps split: if_splits)
  from keyring_reopens [OF assms(2) r(1) assms(3) r(2) b] obtain acc
    where o: "openKeyring now ed base rootKey = Inr (with_secrets (fDefault f) acc)" "vKeys base \<noteq> []" "vVersion base = 1"
      and acc: "reopened (fDefault f) (KIDs (fDefault f)) NewKeyring acc" by blast
  have e: "Equal (fDefault f) (with_secrets (fDefault f) acc)"
    using reopened_Equal [OF acc r(1)] assms(3) by (simp add: ring_secrets_def)
  show ?thesis
  proof (cases "fTenants f = [] \<and> fTombstones f = []")
    case True
    then have "v2 = as_v2 base" using m b by (simp add: File_marshal_def)
    then have "OpenFile now ed unjson v2 rootKey (Some root) =
        Inr \<lparr>fDefault = with_secrets (fDefault f) acc, fGeneration = 0, fTenants = [], fTombstones = []\<rparr>"
      using k o by (simp add: OpenFile_def openFile_def parseKeyringFile_def as_v2_def openKeyring_extend keyringFile_extend)
    then show ?thesis using True e by (simp add: File_Equal_def)
  next
    case False
    let ?dir = "(File_Directory f)\<lparr>dirGeneration := fGeneration f + 1\<rparr>"
    obtain ss where ss: "write_sections rnd rootKey (fTenants f) = Inr ss"
        and w: "writeV2 json rnd base rootKey ss ?dir (KIDs (fDefault f)) = Inr v2"
      using m b False by (auto simp: File_marshal_def result_simps)
    from tenants_reopen [OF assms(2) i assms(4) k ss] obtain mp
      where mp: "section_map ss [] = Inr mp" "length mp = length (fTenants f)" "check_sections mp (map dir_entry (fTenants f)) = None"
        and te: "list_all2 tenant_equal (fTenants f) (map (file_tenant now rootKey (Some root) mp) (map dir_entry (fTenants f)))" by blast
    let ?g = "\<lparr>fDefault = with_secrets (fDefault f) acc, fGeneration = fGeneration f + 1,
      fTenants = map (file_tenant now rootKey (Some root) mp) (map dir_entry (fTenants f)), fTombstones = fTombstones f\<rparr>"
    have "OpenFile now ed unjson v2 rootKey (Some root) = Inr ?g"
      using writeV2_opens [OF w assms(2) _ k o(1,2)] assms(5) Equal_KIDs [OF acc r(1)] mp by (simp add: File_Directory_def)
    then show ?thesis using False e te by (auto simp: File_Equal_def)
  qed
qed


text \<open>
  The sample deployment, its tenant resealed under a key service of its own, can be written and read. In
  place of \<open>encoding/json\<close> stands an encoding of the directory with counted strings and lists.
\<close>

definition put_string :: "string \<Rightarrow> bytes" where
  "put_string x = be_bytes 2 (length x) @ bytes_of x"

definition put_list :: "('a \<Rightarrow> bytes) \<Rightarrow> 'a list \<Rightarrow> bytes" where
  "put_list p xs = be_bytes 2 (length xs) @ concat (map p xs)"

definition get_string :: "bytes \<Rightarrow> string \<times> bytes" where
  "get_string b = (let n = be_nat (take 2 b) in (string_of (take n (drop 2 b)), drop (n + 2) b))"

primrec get_many :: "(bytes \<Rightarrow> 'a \<times> bytes) \<Rightarrow> nat \<Rightarrow> bytes \<Rightarrow> 'a list \<times> bytes" where
  "get_many g 0 b = ([], b)"
| "get_many g (Suc n) b = (case g b of (x, b) \<Rightarrow> case get_many g n b of (xs, b) \<Rightarrow> (x # xs, b))"

definition get_list :: "(bytes \<Rightarrow> 'a \<times> bytes) \<Rightarrow> bytes \<Rightarrow> 'a list \<times> bytes" where
  "get_list g b = get_many g (be_nat (take 2 b)) (drop 2 b)"

definition put_lock :: "Lock \<Rightarrow> bytes" where
  "put_lock l = put_string (lsource l) @ put_string (lkeyName l) @ put_string (lsalt l)"

definition get_lock :: "bytes \<Rightarrow> Lock \<times> bytes" where
  "get_lock b = (case get_string b of (x, b) \<Rightarrow> case get_string b of (y, b) \<Rightarrow> case get_string b of (z, b) \<Rightarrow>
     (\<lparr>lsource = x, lkeyName = y, lsalt = z\<rparr>, b))"

definition put_owner :: "string \<Rightarrow> string list \<Rightarrow> string list \<Rightarrow> Lock list \<Rightarrow> bytes" where
  "put_owner n bs ks ls = put_string n @ put_list put_string bs @ put_list put_string ks @ put_list put_lock ls"

definition get_owner :: "bytes \<Rightarrow> (string \<times> string list \<times> string list \<times> Lock list) \<times> bytes" where
  "get_owner b = (case get_string b of (n, b) \<Rightarrow> case get_list get_string b of (bs, b) \<Rightarrow>
     case get_list get_string b of (ks, b) \<Rightarrow> case get_list get_lock b of (ls, b) \<Rightarrow> ((n, bs, ks, ls), b))"

definition dir_encode :: "Directory \<Rightarrow> bytes" where
  "dir_encode d = be_bytes 8 (unat (dirGeneration d)) @
     put_list (\<lambda>t. put_owner (dtName t) (dtBuckets t) (dtKIDs t) (dtLocks t) @ put_string (dtActiveKID t)) (dirTenants d) @
     put_list (\<lambda>t. put_owner (tbName t) (tbBuckets t) (tbKIDs t) (tbLocks t) @ be_bytes 8 (nat (tbDestroyed t))) (dirTombstones d)"

definition dir_decode :: "bytes \<Rightarrow> Directory result" where
  "dir_decode b =
     (case get_list (\<lambda>b. case get_owner b of ((n, bs, ks, ls), b) \<Rightarrow> case get_string b of (a, b) \<Rightarrow>
             (\<lparr>dtName = n, dtBuckets = bs, dtKIDs = ks, dtActiveKID = a, dtLocks = ls\<rparr>, b)) (drop 8 b) of (ts, b') \<Rightarrow>
      case get_list (\<lambda>b. case get_owner b of ((n, bs, ks, ls), b) \<Rightarrow>
             (\<lparr>tbName = n, tbBuckets = bs, tbKIDs = ks, tbLocks = ls, tbDestroyed = int (be_nat (take 8 b))\<rparr>, drop 8 b)) b' of
        (ds, b'') \<Rightarrow>
          if b'' \<noteq> [] then Inl (Errorf ''trailing data'' [])
          else Inr \<lparr>dirGeneration = word_of_nat (be_nat (take 8 b)), dirTenants = ts, dirTombstones = ds\<rparr>)"

definition sample_ref :: "string \<Rightarrow> RootKeyRef" where
  "sample_ref name = \<lparr>rsource = SourceAWSKMS, rciphertext = ''x'', rkeyName = name, rcontext = []\<rparr>"

definition sample_lock :: TenantLock where
  "sample_lock = \<lparr>tlRootKey = Some (replicate 32 4), tlRef = Some (sample_ref ''acme''), tlKDF = None\<rparr>"

definition sample_locked :: File where
  "sample_locked = sample_file\<lparr>fTenants := map (\<lambda>t. t\<lparr>tnLocks := tnLocks t @ [TenantLock_record sample_lock],
     tnSeal := Some sample_lock\<rparr>) (fTenants sample_file)\<rparr>"

lemma sample_reseal: "Reseal ''acme'' sample_lock sample_file = Inr sample_locked"
proof -
  have "TenantLock_record sample_lock \<noteq> TenantLock_record DeploymentLock" by code_simp
  then show ?thesis
    by (simp add: Reseal_def live_def File_Tenant_def sample_file_def sample_locked_def update_tenant_def DefaultTenant_def
        Tenant_Lock_def sample_lock_def)
qed

lemma sample_locked_reach: "file_reach sample_locked"
  by (rule file_reach.step [OF sample_file_reach file_step.reseal [OF sample_reseal]])

lemma get_put_string: "length x < 65536 \<Longrightarrow> get_string (put_string x @ r) = (x, r)"
  by (simp add: get_string_def put_string_def Let_def)

lemma get_put_many: "list_all (\<lambda>x. \<forall>r. g (p x @ r) = (x, r)) xs \<Longrightarrow> get_many g (length xs) (concat (map p xs) @ r) = (xs, r)"
  by (induction xs) auto

lemma get_put_list:
  "length xs < 65536 \<Longrightarrow> list_all (\<lambda>x. \<forall>r. g (p x @ r) = (x, r)) xs \<Longrightarrow> get_list g (put_list p xs @ r) = (xs, r)"
  by (simp add: get_list_def put_list_def get_put_many)

definition short_lock :: "Lock \<Rightarrow> bool" where
  "short_lock l \<longleftrightarrow> length (lsource l) < 65536 \<and> length (lkeyName l) < 65536 \<and> length (lsalt l) < 65536"

lemma get_put_lock: "short_lock l \<Longrightarrow> get_lock (put_lock l @ r) = (l, r)"
  by (simp add: get_lock_def put_lock_def short_lock_def get_put_string)

definition short_owner :: "string \<Rightarrow> string list \<Rightarrow> string list \<Rightarrow> Lock list \<Rightarrow> bool" where
  "short_owner n bs ks ls \<longleftrightarrow> length n < 65536 \<and> length bs < 65536 \<and> length ks < 65536 \<and> length ls < 65536 \<and>
     list_all (\<lambda>x. length x < 65536) bs \<and> list_all (\<lambda>x. length x < 65536) ks \<and> list_all short_lock ls"

lemma get_put_owner: "short_owner n bs ks ls \<Longrightarrow> get_owner (put_owner n bs ks ls @ r) = ((n, bs, ks, ls), r)"
  by (simp add: get_owner_def put_owner_def short_owner_def get_put_string get_put_list get_put_lock list_all_iff)

lemma dir_decode_encode:
  assumes "length (dirTenants d) < 65536" and "length (dirTombstones d) < 65536"
    and "list_all (\<lambda>t. short_owner (dtName t) (dtBuckets t) (dtKIDs t) (dtLocks t) \<and> length (dtActiveKID t) < 65536) (dirTenants d)"
    and "list_all (\<lambda>t. short_owner (tbName t) (tbBuckets t) (tbKIDs t) (tbLocks t) \<and> 0 \<le> tbDestroyed t \<and> tbDestroyed t < 2 ^ 64) (dirTombstones d)"
  shows "dir_decode (dir_encode d) = Inr d"
proof -
  let ?pt = "\<lambda>t. put_owner (dtName t) (dtBuckets t) (dtKIDs t) (dtLocks t) @ put_string (dtActiveKID t)"
  let ?pd = "\<lambda>t. put_owner (tbName t) (tbBuckets t) (tbKIDs t) (tbLocks t) @ be_bytes 8 (nat (tbDestroyed t))"
  let ?gt = "\<lambda>b. case get_owner b of ((n, bs, ks, ls), b) \<Rightarrow> case get_string b of (a, b) \<Rightarrow>
    (\<lparr>dtName = n, dtBuckets = bs, dtKIDs = ks, dtActiveKID = a, dtLocks = ls\<rparr>, b)"
  let ?gd = "\<lambda>b. case get_owner b of ((n, bs, ks, ls), b) \<Rightarrow>
    (\<lparr>tbName = n, tbBuckets = bs, tbKIDs = ks, tbLocks = ls, tbDestroyed = int (be_nat (take 8 b))\<rparr>, drop 8 b)"
  have t: "get_list ?gt (put_list ?pt (dirTenants d) @ r) = (dirTenants d, r)" for r
    using assms(1,3) by (intro get_put_list) (auto simp: list_all_iff get_put_owner get_put_string)
  have "get_list ?gd (put_list ?pd (dirTombstones d) @ []) = (dirTombstones d, [])"
    using assms(2,4) by (intro get_put_list) (auto simp: list_all_iff get_put_owner nat_less_iff)
  moreover have "unat (dirGeneration d) < 256 ^ 8" using unsigned_less [of "dirGeneration d", where 'a = nat] by simp
  then have "word_of_nat (be_nat (be_bytes 8 (unat (dirGeneration d)))) = dirGeneration d" by (simp only: be_nat_be_bytes_lt) simp
  ultimately show ?thesis using t by (simp add: dir_decode_def dir_encode_def)
qed

lemma sample_directory:
  "dir_decode (dir_encode ((File_Directory sample_locked)\<lparr>dirGeneration := 1\<rparr>)) = Inr ((File_Directory sample_locked)\<lparr>dirGeneration := 1\<rparr>)"
  "length (dir_encode ((File_Directory sample_locked)\<lparr>dirGeneration := 1\<rparr>)) \<le> 2 ^ 20"
proof -
  note defs = File_Directory_def sample_locked_def sample_file_def TenantLock_record_def DeploymentLock_def sample_lock_def
    sample_ref_def LockDeployment_def SourceAWSKMS_def
  show "dir_decode (dir_encode ((File_Directory sample_locked)\<lparr>dirGeneration := 1\<rparr>)) = Inr ((File_Directory sample_locked)\<lparr>dirGeneration := 1\<rparr>)"
    by (rule dir_decode_encode) (simp_all add: defs short_owner_def short_lock_def)
  show "length (dir_encode ((File_Directory sample_locked)\<lparr>dirGeneration := 1\<rparr>)) \<le> 2 ^ 20"
    by (simp add: defs dir_encode_def put_owner_def put_list_def put_string_def put_lock_def)
qed

lemma seal_one:
  assumes "ad kid = Inr a" and "length k = 32"
  shows "\<exists>es. seal_keks (\<lambda>_. Inr n) ad k ((sample_ring kid)\<lparr>kactive := x\<rparr>) [kid] = Inr es"
proof -
  obtain w where "sealKey (Inr n) k (replicate 32 1) a = Inr w" using assms(2) by (simp add: sealKey_Inr)
  then show ?thesis using assms(1) by (simp add: sample_ring_def del: replicate.simps)
qed

lemma sample_marshal:
  "\<exists>v2. MarshalWithRootKey (\<lambda>s. s) dir_encode (\<lambda>_. Inr (replicate 12 0)) sample_locked (replicate 32 3) (sample_ref ''k'') = Inr v2"
proof -
  let ?k = "replicate 32 3 :: bytes" and ?k' = "replicate 32 4 :: bytes" and ?n = "replicate 12 0 :: bytes"
  have v: "RootKeyRef_validate (sample_ref ''k'') = None" "rsource (sample_ref ''k'') \<noteq> SourcePassphrase" "rsource (sample_ref ''k'') \<noteq> ''''"
    by code_simp+
  have d: "Directory_validate ((File_Directory sample_locked)\<lparr>dirGeneration := 1\<rparr>) (KIDs (fDefault sample_locked)) = None" by code_simp
  have v1: "ValidateKID ''k1'' = None" by code_simp
  have kid: "KIDs (sample_ring kid) = [kid]" for kid by (simp add: KIDs_def sample_ring_def)
  obtain a1 a2 a3 where a: "kekAAD ''k1'' = Inr a1" "tenantKEKAAD ''acme'' ''t1'' = Inr a2" "tenantNameAAD ''acme'' = Inr a3"
    using that by (simp add: kekAAD_def tenantKEKAAD_def tenantNameAAD_def appendLP_def v1)
  obtain e1 where e1: "seal_keks (\<lambda>_. Inr ?n) kekAAD ?k ((sample_ring ''k1'')\<lparr>kactive := ''k1''\<rparr>) [''k1''] = Inr e1"
    using seal_one [of kekAAD "''k1''" a1 ?k ?n "''k1''"] a(1) by auto
  obtain e2 where e2: "seal_keks (\<lambda>_. Inr ?n) (tenantKEKAAD ''acme'') ?k' ((sample_ring ''t1'')\<lparr>kactive := ''''\<rparr>) [''t1''] = Inr e2"
    using seal_one [of "tenantKEKAAD ''acme''" "''t1''" a2 ?k' ?n "''''"] a(2) by auto
  let ?w = "\<lambda>k p x. ?n @ gcm_Seal k ?n p x"
  have w: "sealKey (Inr ?n) k p x = Inr (?w k p x)" if "length k = 32" "length p \<le> 2 ^ 20" for k p x
    using that by (simp add: sealKey_Inr)
  let ?s = "\<lparr>sName = ''acme'', sRootKey = Some (sample_ref ''acme''), sKDF = None, sKeys = e2,
    sNameKey = Some (b64_EncodeToString (?w ?k' (replicate 32 2) a3))\<rparr>"
  have "\<exists>base. buildFile (\<lambda>s. s) (\<lambda>_. Inr ?n) (fDefault sample_file) ?k (sample_ref ''k'') None = Inr base"
    using e1 w [of ?k "replicate 32 2" nameAAD]
    by (simp add: buildFile_def sample_file_def kid if_set_def sealName_def del: replicate.simps)
      (simp add: sample_ring_def sealName_def del: replicate.simps)
  then obtain base where base: "buildFile (\<lambda>s. s) (\<lambda>_. Inr ?n) (fDefault sample_file) ?k (sample_ref ''k'') None = Inr base" by blast
  have s: "sealSection (\<lambda>_. Inr ?n) ''acme'' ((sample_ring ''t1'')\<lparr>kactive := ''''\<rparr>) ?k' (Some (sample_ref ''acme'')) None = Inr ?s"
    using e2 a(3) by (simp add: sealSection_def sample_ring_def KIDs_def w del: replicate.simps seal_keks.simps)
  let ?t = "hd (fTenants sample_locked)"
  have ts: "fTenants sample_locked = [?t]" "lsource (Tenant_Lock ?t) \<noteq> LockDeployment" "matchesLock ?s (Tenant_Lock ?t)"
      "tnSeal ?t = Some sample_lock" "tnRing ?t = Some ((sample_ring ''t1'')\<lparr>kactive := ''''\<rparr>)" "tnName ?t = ''acme''"
    by (simp_all add: sample_locked_def sample_file_def Tenant_Lock_def TenantLock_record_def sample_lock_def sample_ref_def
        SourceAWSKMS_def SourcePassphrase_def LockDeployment_def matchesLock_def)
  have ws: "write_sections (\<lambda>_. Inr ?n) ?k (fTenants sample_locked) = Inr [?s]"
    by (subst ts(1)) (use ts(2-6) s in \<open>simp add: write_section_def sample_lock_def del: replicate.simps\<close>)
  have f: "fTenants sample_locked \<noteq> []" "fDefault sample_locked = fDefault sample_file" "fGeneration sample_locked = 0"
      "dirTenants (File_Directory sample_locked) \<noteq> []"
    by (simp_all add: sample_locked_def sample_file_def File_Directory_def)
  show ?thesis
    using base ws v d f sample_directory(2)
    by (simp add: MarshalWithRootKey_def File_marshal_def writeV2_def w del: replicate.simps)
qed

theorem keyring_file_roundtrip_witness:
  "\<exists>v2 g. Reseal ''acme'' sample_lock sample_file = Inr sample_locked \<and>
    MarshalWithRootKey (\<lambda>s. s) dir_encode (\<lambda>_. Inr (replicate 12 0)) sample_locked (replicate 32 3) (sample_ref ''k'') = Inr v2 \<and>
    OpenFile 9 (\<lambda>s. s) dir_decode v2 (replicate 32 3) (Some (\<lambda>_ _ _. Inr (replicate 32 4))) = Inr g \<and>
    File_Equal sample_locked g \<and> fGeneration g = 1"
proof -
  let ?rnd = "\<lambda>_. Inr (replicate 12 0) :: bytes result" and ?root = "\<lambda>_ _ _. Inr (replicate 32 4) :: bytes result"
  obtain v2 where v2: "MarshalWithRootKey (\<lambda>s. s) dir_encode ?rnd sample_locked (replicate 32 3) (sample_ref ''k'') = Inr v2"
    using sample_marshal by blast
  have "nonces ?rnd" by (simp add: nonces_def)
  moreover have "ring_secrets (fDefault sample_locked)"
    by (simp add: ring_secrets_def sample_locked_def sample_file_def sample_ring_def)
  moreover have "RootKeyRef_validate (sample_ref ''acme'') = None" by code_simp
  then have "\<forall>t\<in>set (fTenants sample_locked). tenant_world 9 ?root t"
    by (simp add: sample_locked_def sample_file_def tenant_world_def sample_ring_def ring_secrets_def lock_answers_def lock_ref_def sample_lock_def)
  moreover have "fTenants sample_locked \<noteq> []" "fGeneration sample_locked = 0" by (simp_all add: sample_locked_def sample_file_def)
  ultimately show ?thesis
    using keyring_file_roundtrip [OF sample_locked_reach, of ?rnd 9 ?root dir_decode dir_encode "\<lambda>s. s" "replicate 32 3" "sample_ref ''k''" v2]
      v2 sample_directory(1) sample_reseal by (auto simp del: replicate.simps)
qed

end
