(* ===== verification/GoTime.thy ===== *)
theory GoTime
  imports GoStrings
begin

text \<open>
  The part of Go's \<open>time\<close> package that the signatures use: the layouts \<open>20060102\<close> and \<open>20060102T150405Z\<close>, for times in UTC in
  the years 0 to 9999. A time is a number of nanoseconds since the beginning of year 0.
\<close>

section \<open>The calendar\<close>

definition leap :: "nat \<Rightarrow> bool" where
  "leap y \<longleftrightarrow> y mod 4 = 0 \<and> (y mod 100 \<noteq> 0 \<or> y mod 400 = 0)"

definition year_start :: "nat \<Rightarrow> nat" where
  "year_start y = 365 * y + (y + 3) div 4 + (y + 399) div 400 - (y + 99) div 100"

definition month_lengths :: "nat \<Rightarrow> nat list" where
  "month_lengths y = [31, if leap y then 29 else 28, 31, 30, 31, 30, 31, 31, 30, 31, 30, 31]"

text \<open>The number of a day, and back: the loop raises an estimate of the year that is at most a few years low.\<close>

definition day_number :: "nat \<Rightarrow> nat \<Rightarrow> nat \<Rightarrow> nat" where
  "day_number y m d = year_start y + sum_list (take (m - 1) (month_lengths y)) + (d - 1)"

lemma century_le: "(y + 99) div 100 \<le> (y + 3) div 4 + (1 :: nat)"
  by linarith

lemma year_start_ge: "y \<le> year_start y"
proof -
  note century_le [of y]
  moreover have "1 \<le> (y + 399) div 400 \<or> y = 0" by linarith
  ultimately show ?thesis unfolding year_start_def by linarith
qed

function year_loop :: "nat \<Rightarrow> nat \<Rightarrow> nat" where
  "year_loop y n = (if year_start (y + 1) \<le> n then year_loop (y + 1) n else y)"
  by pat_completeness auto
termination
proof (relation "measure (\<lambda>(y, n). n - y)")
  fix y n assume "year_start (y + 1) \<le> n"
  then show "((y + 1, n), (y, n)) \<in> measure (\<lambda>(y, n). n - y)" using year_start_ge [of "y + 1"] by simp
qed simp

declare year_loop.simps [simp del]

fun month_of :: "nat list \<Rightarrow> nat \<Rightarrow> nat \<times> nat" where
  "month_of [] d = (1, d + 1)"
| "month_of (l # ls) d = (if d < l then (1, d + 1) else case month_of ls (d - l) of (m, dd) \<Rightarrow> (m + 1, dd))"

definition civil :: "nat \<Rightarrow> nat \<times> nat \<times> nat" where
  "civil n = (let y = year_loop (n div 366) n; (m, d) = month_of (month_lengths y) (n - year_start y) in (y, m, d))"

section \<open>Formatting and parsing\<close>

definition second_ns :: int where "second_ns = 10 ^ 9"

definition day_ns :: int where "day_ns = second_ns * 86400"

definition pad :: "nat \<Rightarrow> nat \<Rightarrow> string" where
  "pad w n = replicate (w - length (decimal n)) (CHR ''0'') @ decimal n"

definition format_date :: "int \<Rightarrow> string" where
  "format_date t = (case civil (nat (t div day_ns)) of (y, m, d) \<Rightarrow> pad 4 y @ pad 2 m @ pad 2 d)"

definition format_amz :: "int \<Rightarrow> string" where
  "format_amz t =
     (let s = nat (t div second_ns) mod 86400
      in format_date t @ ''T'' @ pad 2 (s div 3600) @ pad 2 (s div 60 mod 60) @ pad 2 (s mod 60) @ ''Z'')"

text \<open>A number of exactly \<open>w\<close> digits at the start of a text, and the text after it.\<close>

definition getnum :: "nat \<Rightarrow> string \<Rightarrow> (nat \<times> string) option" where
  "getnum w s = (if w \<le> length s \<and> list_all is_digit (take w s) then Some (dec_value (take w s), drop w s) else None)"

definition obind :: "'a option \<Rightarrow> ('a \<Rightarrow> 'b option) \<Rightarrow> 'b option" where
  "obind x f = (case x of None \<Rightarrow> None | Some y \<Rightarrow> f y)"

definition parse_day :: "string \<Rightarrow> (nat \<times> string) option" where
  "parse_day s =
     obind (getnum 4 s) (\<lambda>(y, s). obind (getnum 2 s) (\<lambda>(m, s). obind (getnum 2 s) (\<lambda>(d, s).
       if 1 \<le> m \<and> m \<le> 12 \<and> 1 \<le> d \<and> d \<le> month_lengths y ! (m - 1) then Some (day_number y m d, s) else None)))"

definition parse_date :: "string \<Rightarrow> int option" where
  "parse_date s = obind (parse_day s) (\<lambda>(n, s). if s = '''' then Some (int n * day_ns) else None)"

text \<open>\<open>time.Parse\<close> takes a fraction after the seconds even where the layout has none.\<close>

definition parse_fraction :: "string \<Rightarrow> nat \<times> string" where
  "parse_fraction s =
     (case s of
        c # r \<Rightarrow>
          let ds = takeWhile is_digit r; ns = take 9 ds in
          if c \<in> {CHR ''.'', CHR '',''} \<and> ds \<noteq> [] then (dec_value ns * 10 ^ (9 - length ns), drop (length ds) r) else (0, s)
      | [] \<Rightarrow> (0, s))"

definition parse_amz :: "string \<Rightarrow> int option" where
  "parse_amz s =
     obind (parse_day s) (\<lambda>(n, s). obind (CutPrefix s ''T'') (\<lambda>s.
     obind (getnum 2 s) (\<lambda>(h, s). obind (getnum 2 s) (\<lambda>(mi, s). obind (getnum 2 s) (\<lambda>(sec, s).
       case parse_fraction s of (ns, s) \<Rightarrow>
         if h < 24 \<and> mi < 60 \<and> sec < 60 \<and> s = ''Z''
         then Some (int (n * 86400 + h * 3600 + mi * 60 + sec) * second_ns + int ns) else None)))))"

section \<open>Round trip\<close>

lemma ceiling_step: "(y + Suc c) div Suc c = (y + c) div Suc c + (if y mod Suc c = 0 then 1 else 0)"
proof -
  obtain q r where y: "y = Suc c * q + r" "r < Suc c" by (metis mult_div_mod_eq mod_less_divisor zero_less_Suc)
  have "(y + Suc c) div Suc c = Suc q" using y div_nat_eqI [of "Suc c" "Suc q" "y + Suc c"] by simp
  moreover have "(y + c) div Suc c = q + (if r = 0 then 0 else 1)"
    using y by (cases "r = 0") (auto intro!: div_nat_eqI)
  moreover have "y mod Suc c = r" unfolding y(1) using y(2) by (metis mod_less mod_mult_self4)
  ultimately show ?thesis by simp
qed

lemma leap_step:
  fixes a b c y :: nat
  assumes "a' = a + (if P then 1 else 0)" and "b' = b + (if R then 1 else 0)" and "c' = c + (if Q then 1 else 0)"
    and "R \<Longrightarrow> Q" and "Q \<Longrightarrow> P" and "c \<le> 365 * y + a"
  shows "365 * Suc y + a' + b' - c' = 365 * y + a + b - c + (if P \<and> (\<not> Q \<or> R) then 366 else 365)"
  using assms by (cases P; cases Q; cases R) simp_all

lemma year_start_Suc: "year_start (Suc y) = year_start y + (if leap y then 366 else 365)"
proof -
  have "(y + 4) div 4 = (y + 3) div 4 + (if y mod 4 = 0 then 1 else 0)"
      "(y + 400) div 400 = (y + 399) div 400 + (if y mod 400 = 0 then 1 else 0)"
      "(y + 100) div 100 = (y + 99) div 100 + (if y mod 100 = 0 then 1 else 0)"
    using ceiling_step [of y 3] ceiling_step [of y 399] ceiling_step [of y 99] by simp_all
  moreover have "y mod 400 = 0 \<Longrightarrow> y mod 100 = 0" "y mod 100 = 0 \<Longrightarrow> y mod 4 = 0"
    using mod_mod_cancel [of 100 400 y] mod_mod_cancel [of 4 100 y] by simp_all
  moreover have "(y + 99) div 100 \<le> 365 * y + (y + 3) div 4"
    using century_le [of y] by (cases "y = 0") simp_all
  moreover have "Suc y + 3 = y + 4" "Suc y + 399 = y + 400" "Suc y + 99 = y + 100" by simp_all
  ultimately show ?thesis unfolding year_start_def leap_def by (simp only: leap_step)
qed


lemma year_start_le: "year_start y \<le> 366 * y"
  by (induction y) (auto simp: year_start_Suc year_start_def [of 0])

lemma year_start_mono: "y \<le> z \<Longrightarrow> year_start y \<le> year_start z"
  by (rule lift_Suc_mono_le [of year_start]) (auto simp: year_start_Suc)

lemma year_loop_bounds: "year_start y \<le> n \<Longrightarrow> year_start (year_loop y n) \<le> n \<and> n < year_start (Suc (year_loop y n))"
  by (induction y n rule: year_loop.induct) (subst (1 2) year_loop.simps, auto)

lemma month_of_bounds:
  "d < sum_list ls \<Longrightarrow> month_of ls d = (m, dd) \<Longrightarrow>
     1 \<le> m \<and> m \<le> length ls \<and> 1 \<le> dd \<and> dd \<le> ls ! (m - 1) \<and> sum_list (take (m - 1) ls) + (dd - 1) = d"
proof (induction ls arbitrary: d m)
  case (Cons l ls)
  show ?case
  proof (cases "d < l")
    case False
    then obtain m' where m': "month_of ls (d - l) = (m', dd)" "m = m' + 1" using Cons.prems(2) by (auto split: prod.splits)
    have "d - l < sum_list ls" using Cons.prems(1) False by auto
    note ih = Cons.IH [OF this m'(1)]
    then obtain k where "m' = Suc k" by (cases m') auto
    then show ?thesis using ih m'(2) False by auto
  qed (use Cons.prems in auto)
qed simp

lemma civil_bounds:
  assumes "civil n = (y, m, d)"
  shows "1 \<le> m \<and> m \<le> 12 \<and> 1 \<le> d \<and> d \<le> month_lengths y ! (m - 1) \<and> day_number y m d = n \<and> year_start y \<le> n"
proof -
  have y: "y = year_loop (n div 366) n" and md: "month_of (month_lengths y) (n - year_start y) = (m, d)"
    using assms by (auto simp: civil_def Let_def split: prod.splits)
  have "year_start (n div 366) \<le> n" using year_start_le [of "n div 366"] by (meson le_trans times_div_less_eq_dividend)
  then have b: "year_start y \<le> n" "n < year_start (Suc y)" using year_loop_bounds y by blast+
  have "sum_list (month_lengths y) = (if leap y then 366 else 365)" by (simp add: month_lengths_def)
  then have "n - year_start y < sum_list (month_lengths y)" using b year_start_Suc [of y] by simp
  note mb = month_of_bounds [OF this md]
  moreover have "length (month_lengths y) = 12" by (simp add: month_lengths_def)
  ultimately show ?thesis using b by (auto simp: day_number_def)
qed

lemma civil_year: "civil n = (y, m, d) \<Longrightarrow> n < year_start 10000 \<Longrightarrow> y < 10000"
  using civil_bounds [of n y m d] year_start_mono [of 10000 y] by (cases "y < 10000") auto

lemma month_length_le: "1 \<le> m \<Longrightarrow> m \<le> 12 \<Longrightarrow> month_lengths y ! (m - 1) \<le> 31"
proof -
  assume "1 \<le> m" "m \<le> 12"
  then have "m - 1 < length (month_lengths y)" by (simp add: month_lengths_def)
  then have "month_lengths y ! (m - 1) \<in> set (month_lengths y)" by (rule nth_mem)
  then show ?thesis by (auto simp: month_lengths_def split: if_splits)
qed

lemma length_decimal: "n < 10 ^ w \<Longrightarrow> 0 < w \<Longrightarrow> length (decimal n) \<le> w"
proof (induction w arbitrary: n)
  case (Suc w)
  show ?case
  proof (cases "n < 10")
    case False
    then have "n div 10 < 10 ^ w" "0 < w" using Suc.prems(1) by (auto simp: less_mult_imp_div_less intro: gr0I)
    then show ?thesis using Suc.IH [of "n div 10"] False by (simp add: decimal.simps [of n])
  qed (simp add: decimal.simps [of n])
qed simp

lemma dec_value_zeros: "dec_value (replicate k (CHR ''0'') @ s) = dec_value s"
  unfolding dec_value_def by (induction k) simp_all

lemma getnum_pad: "n < 10 ^ w \<Longrightarrow> 0 < w \<Longrightarrow> getnum w (pad w n @ s) = Some (n, s)"
proof -
  assume n: "n < 10 ^ w" "0 < w"
  then have "length (pad w n) = w" using length_decimal [OF n] by (simp add: pad_def)
  moreover have "list_all is_digit (pad w n)" "dec_value (pad w n) = n"
    using decimal_digits [of n] by (auto simp: pad_def dec_value_zeros list_all_iff is_digit_def)
  ultimately show ?thesis by (simp add: getnum_def)
qed

lemma parse_day_civil:
  assumes "civil n = (y, m, d)" and "n < year_start 10000"
  shows "parse_day (pad 4 y @ pad 2 m @ pad 2 d @ s) = Some (n, s)"
proof -
  note b = civil_bounds [OF assms(1)]
  have "y < 10 ^ 4" "m < 10 ^ 2" "d < 10 ^ 2" using b civil_year [OF assms] month_length_le [of m y] by auto
  then show ?thesis using b by (simp add: parse_day_def getnum_pad obind_def)
qed

definition in_years :: "int \<Rightarrow> bool" where
  "in_years t \<longleftrightarrow> 0 \<le> t \<and> t < int (year_start 10000) * day_ns"

lemma ns_pos: "0 < second_ns" "0 < day_ns"
  by (simp_all add: second_ns_def day_ns_def)

lemma day_seconds: "t div day_ns = t div second_ns div 86400"
  unfolding day_ns_def by (rule zdiv_zmult2_eq) simp

lemma in_years_day: "in_years t \<Longrightarrow> nat (t div day_ns) < year_start 10000"
proof -
  assume t: "in_years t"
  have "t div day_ns * day_ns \<le> t" using ns_pos(2) pos_mod_sign [of day_ns t] div_mult_mod_eq [of t day_ns] by linarith
  then have "t div day_ns * day_ns < int (year_start 10000) * day_ns" using t by (simp add: in_years_def)
  then have "t div day_ns < int (year_start 10000)" using ns_pos(2) by (simp add: mult_less_cancel_right)
  moreover have "0 \<le> t div day_ns" using t ns_pos(2) by (simp add: in_years_def pos_imp_zdiv_nonneg_iff)
  ultimately show ?thesis by linarith
qed

lemma parse_format_date: "in_years t \<Longrightarrow> parse_date (format_date t) = Some (t - t mod day_ns)"
proof -
  assume t: "in_years t"
  obtain y m d where c: "civil (nat (t div day_ns)) = (y, m, d)" by (rule prod_cases3)
  have "int (nat (t div day_ns)) * day_ns = t - t mod day_ns"
    using t ns_pos by (simp add: in_years_def minus_mod_eq_div_mult pos_imp_zdiv_nonneg_iff)
  then show ?thesis
    using parse_day_civil [OF c in_years_day [OF t], of "''''"] by (simp add: parse_date_def format_date_def c obind_def)
qed

lemma clock_parts: "s div 3600 * 3600 + s div 60 mod 60 * 60 + s mod 60 = (s :: nat)"
proof -
  have "s div 3600 = s div 60 div 60" by (simp add: div_mult2_eq [symmetric])
  moreover have "s div 60 = s div 60 div 60 * 60 + s div 60 mod 60" "s = s div 60 * 60 + s mod 60" by simp_all
  ultimately show ?thesis by linarith
qed

text \<open>A time that is written in the format of the signatures is read back to the second.\<close>

lemma parse_format_amz:
  assumes "in_years t"
  shows "parse_amz (format_amz t) = Some (t - t mod second_ns)"
proof -
  obtain y m d where c: "civil (nat (t div day_ns)) = (y, m, d)" by (rule prod_cases3)
  let ?n = "nat (t div day_ns)" and ?s = "nat (t div second_ns) mod 86400"
  have s: "?s div 3600 < 24" "?s div 60 mod 60 < 60" "?s mod 60 < 60" by (auto simp: less_mult_imp_div_less)
  have "?n * 86400 + ?s = nat (t div second_ns)"
  proof -
    have "?n = nat (t div second_ns) div 86400"
      using assms ns_pos(1) by (simp add: day_seconds in_years_def nat_div_distrib pos_imp_zdiv_nonneg_iff)
    then show ?thesis by simp
  qed
  then have n: "?n * 86400 + ?s div 3600 * 3600 + ?s div 60 mod 60 * 60 + ?s mod 60 = nat (t div second_ns)"
    using clock_parts [of ?s] by linarith
  have t: "int (nat (t div second_ns)) * second_ns = t - t mod second_ns"
    using assms ns_pos(1) by (simp add: in_years_def minus_mod_eq_div_mult pos_imp_zdiv_nonneg_iff)
  have f: "parse_fraction ''Z'' = (0, ''Z'')" by (simp add: parse_fraction_def is_digit_def)
  let ?rest = "CHR ''T'' # pad 2 (?s div 3600) @ pad 2 (?s div 60 mod 60) @ pad 2 (?s mod 60) @ ''Z''"
  have "format_amz t = pad 4 y @ pad 2 m @ pad 2 d @ ?rest" by (simp only: format_amz_def format_date_def c Let_def prod.case) simp
  then have "parse_day (format_amz t) = Some (?n, ?rest)" using parse_day_civil [OF c in_years_day [OF assms]] by (simp only:)
  moreover have "getnum 2 (pad 2 k @ r) = Some (k, r)" if "k < 60" for k r using that by (intro getnum_pad) simp_all
  moreover have "CutPrefix (CHR ''T'' # r) ''T'' = Some r" for r by (simp add: CutPrefix_def starts_with_def)
  ultimately have "parse_amz (format_amz t) =
      Some (int (?n * 86400 + ?s div 3600 * 3600 + ?s div 60 mod 60 * 60 + ?s mod 60) * second_ns + int 0)"
    using s by (simp only: parse_amz_def obind_def option.case prod.case f) simp
  then show ?thesis unfolding n t by simp
qed

end
