(* ===== verification/Signature.thy ===== *)
theory Signature
  imports Gateway GoTime
begin

text \<open>
  AWS Signature Version 4 as the gateway computes it, \<open>internal/auth/sigv4.go\<close>, and the credentials of its clients, \<open>credentials.go\<close>. A
  request is what \<open>net/http\<close> hands over: the method, the escaped path, the parsed query, the host, the headers and the length of the body.
\<close>

section \<open>Credentials\<close>

definition AllBuckets :: string where "AllBuckets = ''*''"

record Client =
  clName :: string
  clAccessKeyID :: string
  clSecretAccessKey :: string
  clBuckets :: "string list"

definition MayAccess :: "Client \<Rightarrow> string \<Rightarrow> bool" where
  "MayAccess c bucket = list_ex (\<lambda>allowed. allowed = AllBuckets \<or> allowed = bucket) (clBuckets c)"

type_synonym Registry = "(string \<times> Client) list"

fun index_clients :: "Client list \<Rightarrow> Registry \<Rightarrow> Registry result" where
  "index_clients [] byKeyID = Inr byKeyID"
| "index_clients (c # cs) byKeyID =
     (if clAccessKeyID c = '''' then Inl (Errorf ''auth: client %q has no access key id'' [])
      else if clSecretAccessKey c = '''' then Inl (Errorf ''auth: client %q has no secret access key'' [])
      else if clBuckets c = [] then Inl (Errorf ''auth: client %q lists no buckets (use %q for all)'' [])
      else if map_of byKeyID (clAccessKeyID c) \<noteq> None
      then Inl (Errorf ''auth: access key id %q is used by more than one client'' [])
      else index_clients cs (byKeyID @ [(clAccessKeyID c, c)]))"

definition NewRegistry :: "Client list \<Rightarrow> Registry result" where
  "NewRegistry clients =
     (if clients = [] then Inl (Errorf ''auth: at least one client credential is required'' [])
      else index_clients clients [])"

definition lookup_client :: "Registry \<Rightarrow> string \<Rightarrow> Client option" where
  "lookup_client r accessKeyID = map_of r accessKeyID"

definition equalSignature :: "string \<Rightarrow> string \<Rightarrow> bool" where
  "equalSignature a b \<longleftrightarrow> length a = length b \<and> bytes_of a = bytes_of b"

section \<open>The Authorization header\<close>

definition sig_algorithm :: string where "sig_algorithm = ''AWS4-HMAC-SHA256''"
definition sig_terminator :: string where "sig_terminator = ''aws4_request''"
definition sig_service :: string where "sig_service = ''s3''"

record Credential =
  crAccessKeyID :: string
  crDate :: string
  crRegion :: string
  crService :: string
  crTerminator :: string

definition Scope :: "Credential \<Rightarrow> string" where
  "Scope c = join (CHR ''/'') [crDate c, crRegion c, crService c, crTerminator c]"

record Authorization =
  auCredential :: Credential
  auSignedHeaders :: "string list"
  auSignature :: string

definition parseCredential :: "string \<Rightarrow> Credential result" where
  "parseCredential value =
     (case split (CHR ''/'') value of
        [k, date, region, svc, term] \<Rightarrow>
          if k = '''' then Inl (Errorf ''%w: credential has no access key id'' [Sentinel ErrMalformedAuth])
          else if svc \<noteq> sig_service then Inl (Errorf ''%w: credential names service %q, want %q'' [Sentinel ErrMalformedAuth])
          else if term \<noteq> sig_terminator then Inl (Errorf ''%w: credential terminator is %q, want %q'' [Sentinel ErrMalformedAuth])
          else if parse_date date = None then Inl (Errorf ''%w: credential date %q is not %s'' [Sentinel ErrMalformedAuth])
          else Inr \<lparr>crAccessKeyID = k, crDate = date, crRegion = region, crService = svc, crTerminator = term\<rparr>
      | _ \<Rightarrow> Inl (Errorf ''%w: credential scope has %d parts, want 5'' [Sentinel ErrMalformedAuth]))"

text \<open>The loop over the fields; \<open>None\<close> is a field that has not been seen.\<close>

fun auth_fields ::
  "string list \<Rightarrow> Credential option \<Rightarrow> string list option \<Rightarrow> string option \<Rightarrow>
    (Credential option \<times> string list option \<times> string option) result" where
  "auth_fields [] cred hs sig = Inr (cred, hs, sig)"
| "auth_fields (part # parts) cred hs sig =
     (case cut (CHR ''='') (TrimSpace part) of
        None \<Rightarrow> Inl (Errorf ''%w: %q is not name=value'' [Sentinel ErrMalformedAuth])
      | Some (name, value) \<Rightarrow>
          if name = ''Credential'' then ebind (parseCredential value) (\<lambda>c. auth_fields parts (Some c) hs sig)
          else if name = ''SignedHeaders'' then
            if value = '''' then Inl (Errorf ''%w: SignedHeaders is empty'' [Sentinel ErrMalformedAuth])
            else auth_fields parts cred (Some (split (CHR '';'') value)) sig
          else if name = ''Signature'' then auth_fields parts cred hs (Some value)
          else Inl (Errorf ''%w: unexpected field %q'' [Sentinel ErrMalformedAuth]))"

definition ParseAuthorization :: "string \<Rightarrow> Authorization result" where
  "ParseAuthorization header =
     (case CutPrefix header (sig_algorithm @ '' '') of
        None \<Rightarrow> Inl (Errorf ''%w: not an %s header'' [Sentinel ErrMalformedAuth])
      | Some rest \<Rightarrow>
          ebind (auth_fields (split (CHR '','') rest) None None None) (\<lambda>fields.
            case fields of
              (Some cred, Some hs, Some sig) \<Rightarrow>
                if length sig \<noteq> 64 then Inl (Errorf ''%w: signature is %d characters, want %d'' [Sentinel ErrMalformedAuth])
                else Inr \<lparr>auCredential = cred, auSignedHeaders = hs, auSignature = sig\<rparr>
            | _ \<Rightarrow> Inl (Errorf ''%w: Credential, SignedHeaders and Signature are all required'' [Sentinel ErrMalformedAuth])))"

section \<open>The canonical request\<close>

record HTTPRequest =
  rMethod :: string
  rPath :: string
  rQuery :: "(string \<times> string list) list"
  rHost :: string
  rHeader :: headers
  rContentLength :: int

definition upperhex :: string where "upperhex = ''0123456789ABCDEF''"

definition unreserved :: "char \<Rightarrow> bool" where
  "unreserved c \<longleftrightarrow> is_letter c \<or> is_digit c \<or> c \<in> set ''-._~''"

definition uri_char :: "char \<Rightarrow> string" where
  "uri_char c =
     (if unreserved c then [c] else let n = of_char c :: nat in [CHR ''%'', upperhex ! (n div 16), upperhex ! (n mod 16)])"

definition uriEncode :: "string \<Rightarrow> string" where
  "uriEncode s = concat (map uri_char s)"

text \<open>\<open>values[name]\<close>, and the names and values of a query in the order in which they are signed.\<close>

definition query_values :: "(string \<times> string list) list \<Rightarrow> string \<Rightarrow> string list" where
  "query_values values name = (case map_of values name of None \<Rightarrow> [] | Some vs \<Rightarrow> vs)"

definition query_pairs :: "(string \<times> string list) list \<Rightarrow> (string \<times> string) list" where
  "query_pairs values =
     concat (map (\<lambda>name. map (Pair name) (sort (query_values values name))) (sort (map fst values)))"

definition canonicalQuery :: "(string \<times> string list) list \<Rightarrow> string" where
  "canonicalQuery values =
     (if values = [] then '''' else join (CHR ''&'') (map (\<lambda>(name, v). uriEncode name @ ''='' @ uriEncode v) (query_pairs values)))"

text \<open>\<open>strings.Fields\<close>: the words between runs of white space.\<close>

fun word_end :: "string \<Rightarrow> string" where
  "word_end [] = []"
| "word_end (c # cs) = (if list_ex (\<lambda>w. starts_with w (c # cs)) white_space then [] else c # word_end cs)"

lemma length_trim_left: "length (trim_left ws s) \<le> length s"
  by (induction ws s rule: trim_left.induct) (subst trim_left.simps, auto split: option.split intro: order_trans)

function Fields :: "string \<Rightarrow> string list" where
  "Fields s =
     (case trim_left white_space s of
        [] \<Rightarrow> []
      | c # cs \<Rightarrow> (c # word_end cs) # Fields (drop (length (word_end cs)) cs))"
  by pat_completeness auto
termination
proof (relation "measure length")
  fix s c cs assume "trim_left white_space s = c # cs"
  then have "length (c # cs) \<le> length s" using length_trim_left [of white_space s] by simp
  then show "(drop (length (word_end cs)) cs, s) \<in> measure length" by simp
qed simp

declare Fields.simps [simp del]

definition foldWhitespace :: "string \<Rightarrow> string" where
  "foldWhitespace s = join (CHR '' '') (Fields s)"

definition headerValue :: "HTTPRequest \<Rightarrow> string \<Rightarrow> string" where
  "headerValue r name =
     (let values =
        (if name = ''host'' then [rHost r]
         else if name = ''content-length'' then (if rContentLength r \<ge> 0 then [Itoa (rContentLength r)] else [])
         else case map_of (rHeader r) (CanonicalHeaderKey name) of None \<Rightarrow> [] | Some vs \<Rightarrow> vs)
      in join (CHR '','') (map foldWhitespace values))"

definition canonicalHeaders :: "HTTPRequest \<Rightarrow> string list \<Rightarrow> string" where
  "canonicalHeaders r signedHeaders = concat (map (\<lambda>name. name @ '':'' @ headerValue r name @ [CHR 0x0A]) signedHeaders)"

definition CanonicalRequestWithQuery :: "HTTPRequest \<Rightarrow> (string \<times> string list) list \<Rightarrow> string list \<Rightarrow> string \<Rightarrow> string" where
  "CanonicalRequestWithQuery r query signedHeaders payloadHash =
     rMethod r @ [CHR 0x0A] @ (if rPath r = '''' then ''/'' else rPath r) @ [CHR 0x0A] @ canonicalQuery query @ [CHR 0x0A] @
     canonicalHeaders r signedHeaders @ [CHR 0x0A] @ join (CHR '';'') signedHeaders @ [CHR 0x0A] @ payloadHash"

definition CanonicalRequest :: "HTTPRequest \<Rightarrow> string list \<Rightarrow> string \<Rightarrow> string" where
  "CanonicalRequest r signedHeaders payloadHash = CanonicalRequestWithQuery r (rQuery r) signedHeaders payloadHash"

section \<open>The signature\<close>

definition StringToSign :: "int \<Rightarrow> string \<Rightarrow> string \<Rightarrow> string" where
  "StringToSign t scope canonicalRequest =
     join (CHR 0x0A) [sig_algorithm, format_amz t, scope, hex_EncodeToString (sha256 (bytes_of canonicalRequest))]"

definition SigningKey :: "string \<Rightarrow> string \<Rightarrow> string \<Rightarrow> bytes" where
  "SigningKey secret date region =
     (let k1 = hmac (bytes_of (''AWS4'' @ secret)) (bytes_of date); k2 = hmac k1 (bytes_of region); k3 = hmac k2 (bytes_of sig_service)
      in hmac k3 (bytes_of sig_terminator))"

definition Sign :: "bytes \<Rightarrow> string \<Rightarrow> string" where
  "Sign signingKey stringToSign = hex_EncodeToString (hmac signingKey (bytes_of stringToSign))"


section \<open>The canonical request is unambiguous\<close>

lemma upperhex_inj: "i < 16 \<Longrightarrow> j < 16 \<Longrightarrow> upperhex ! i = upperhex ! j \<Longrightarrow> i = j"
  using nth_eq_iff_index_eq [of upperhex i j] by (simp add: upperhex_def)

lemma upperhex_in: "i < 16 \<Longrightarrow> upperhex ! i \<in> set upperhex"
  by (rule nth_mem) (simp add: upperhex_def)

lemma hex_digits: "(of_char c :: nat) div 16 < 16" "(of_char c :: nat) mod 16 < 16"
  by (auto simp: less_mult_imp_div_less)

lemma uri_char_append:
  assumes "uri_char c @ x = uri_char d @ y"
  shows "c = d \<and> x = y"
proof -
  have p: "\<not> unreserved (CHR ''%'')" by (simp add: unreserved_def is_letter_def is_digit_def)
  show ?thesis
  proof (cases "unreserved c")
    case True
    then show ?thesis using assms p by (cases "unreserved d") (auto simp: uri_char_def Let_def)
  next
    case False
    then have d: "\<not> unreserved d" using assms p by (cases "unreserved d") (auto simp: uri_char_def Let_def)
    have "(of_char c :: nat) div 16 = of_char d div 16" "(of_char c :: nat) mod 16 = of_char d mod 16" "x = y"
      using assms False d upperhex_inj hex_digits by (auto simp: uri_char_def Let_def)
    then have "(of_char c :: nat) = of_char d" "x = y" by (metis div_mult_mod_eq)+
    then show ?thesis by simp
  qed
qed

lemma uriEncode_inj: "uriEncode s = uriEncode t \<longleftrightarrow> s = t"
proof
  show "uriEncode s = uriEncode t \<Longrightarrow> s = t"
  proof (induction s arbitrary: t)
    case Nil
    then show ?case by (cases t) (auto simp: uriEncode_def uri_char_def Let_def split: if_splits)
  next
    case (Cons c s)
    show ?case
    proof (cases t)
      case Nil
      then show ?thesis using Cons.prems by (auto simp: uriEncode_def uri_char_def Let_def split: if_splits)
    next
      case (Cons d u)
      then have "uri_char c @ uriEncode s = uri_char d @ uriEncode u" using Cons.prems by (simp add: uriEncode_def)
      then show ?thesis using uri_char_append Cons.IH Cons by blast
    qed
  qed
qed simp

lemma uriEncode_chars: "c \<in> set (uriEncode s) \<Longrightarrow> unreserved c \<or> c = CHR ''%''"
proof -
  have "list_all unreserved upperhex" by (simp add: upperhex_def unreserved_def is_letter_def is_digit_def)
  then have u: "i < 16 \<Longrightarrow> unreserved (upperhex ! i)" for i using upperhex_in by (simp add: list_all_iff)
  assume "c \<in> set (uriEncode s)"
  then obtain x where "c \<in> set (uri_char x)" by (auto simp: uriEncode_def)
  then show ?thesis using u [OF hex_digits(1)] u [OF hex_digits(2)] unfolding uri_char_def Let_def
    by (cases "unreserved x") auto
qed

lemma uriEncode_free: "CHR ''&'' \<notin> set (uriEncode s)" "CHR ''='' \<notin> set (uriEncode s)" "CHR 0x0A \<notin> set (uriEncode s)"
proof -
  have "\<not> unreserved (CHR ''&'')" "\<not> unreserved (CHR ''='')" "\<not> unreserved (CHR 0x0A)"
    by (simp_all add: unreserved_def is_letter_def is_digit_def)
  then show "CHR ''&'' \<notin> set (uriEncode s)" "CHR ''='' \<notin> set (uriEncode s)" "CHR 0x0A \<notin> set (uriEncode s)"
    using uriEncode_chars [of _ s] by fastforce+
qed

definition enc_pair :: "string \<times> string \<Rightarrow> string" where
  "enc_pair = (\<lambda>(name, v). uriEncode name @ ''='' @ uriEncode v)"

lemma enc_pair_inj: "enc_pair p = enc_pair q \<longleftrightarrow> p = q"
proof
  assume "enc_pair p = enc_pair q"
  then have "cut (CHR ''='') (enc_pair p) = cut (CHR ''='') (enc_pair q)" by simp
  then show "p = q"
    using uriEncode_free(2) by (cases p; cases q) (simp add: enc_pair_def cut_append uriEncode_inj)
qed simp

lemma canonicalQuery_eq: "canonicalQuery values = join (CHR ''&'') (map enc_pair (query_pairs values))"
  by (simp add: canonicalQuery_def query_pairs_def enc_pair_def)

lemma canonicalQuery_inj: "canonicalQuery a = canonicalQuery b \<longleftrightarrow> query_pairs a = query_pairs b"
proof
  assume e: "canonicalQuery a = canonicalQuery b"
  have free: "\<forall>x\<in>set (map enc_pair ps). CHR ''&'' \<notin> set x" for ps
    using uriEncode_free(1) by (auto simp: enc_pair_def)
  have ne: "join c (map enc_pair ps) = [] \<Longrightarrow> ps = []" for ps c
    by (cases "(c, map enc_pair ps)" rule: join.cases) (auto simp: enc_pair_def split: prod.splits)
  have "map enc_pair (query_pairs a) = map enc_pair (query_pairs b)"
  proof (cases "query_pairs a = []")
    case True
    then show ?thesis using e ne [of "CHR ''&''" "query_pairs b"] by (simp add: canonicalQuery_eq)
  next
    case False
    then have "query_pairs b \<noteq> []" using e ne [of "CHR ''&''" "query_pairs a"] by (auto simp: canonicalQuery_eq)
    then show ?thesis using e False split_join [OF _ free] by (metis canonicalQuery_eq map_is_Nil_conv)
  qed
  then show "query_pairs a = query_pairs b" by (rule map_injective) (simp add: inj_def enc_pair_inj)
qed (simp add: canonicalQuery_eq)

lemma set_join: "set (join c xs) \<subseteq> insert c (\<Union>(set ` set xs))"
  by (induction c xs rule: join.induct) auto

lemma canonicalQuery_line: "CHR 0x0A \<notin> set (canonicalQuery values)"
  using set_join [of "CHR ''&''" "map enc_pair (query_pairs values)"] uriEncode_free(3)
  by (fastforce simp: canonicalQuery_eq enc_pair_def)

text \<open>The values of one name, from the signed pairs.\<close>

lemma filter_concat_name:
  "distinct L \<Longrightarrow> (name \<notin> set L \<Longrightarrow> g name = []) \<Longrightarrow>
     map snd (filter (\<lambda>p. fst p = name) (concat (map (\<lambda>n. map (Pair n) (g n)) L))) = g name"
proof (induction L)
  case (Cons n L)
  have "map snd (filter (\<lambda>p. fst p = name) (map (Pair n) xs)) = (if n = name then xs else [])" for xs :: "'b list"
    by (induction xs) auto
  moreover have "filter (\<lambda>p. fst p = name) (concat (map (\<lambda>n. map (Pair n) (g n)) L)) = []" if "name \<notin> set L"
    using that by (auto simp: filter_empty_conv)
  ultimately show ?case using Cons by (cases "n = name") auto
qed simp

lemma query_pairs_values:
  assumes "distinct (map fst values)"
  shows "map snd (filter (\<lambda>p. fst p = name) (query_pairs values)) = sort (query_values values name)"
  unfolding query_pairs_def
proof (rule filter_concat_name)
  assume "name \<notin> set (sort (map fst values))"
  then have "map_of values name = None" by (simp add: map_of_eq_None_iff)
  then show "sort (query_values values name) = []" by (simp add: query_values_def)
qed (use assms in simp)


lemma trim_left_stops: "trim_left ws s = c # cs \<Longrightarrow> w \<in> set ws \<Longrightarrow> w \<noteq> [] \<Longrightarrow> \<not> starts_with w (c # cs)"
proof (induction ws s rule: trim_left.induct)
  case (1 ws s)
  show ?case
  proof (cases "List.find (\<lambda>w. w \<noteq> [] \<and> s \<noteq> [] \<and> starts_with w s) ws")
    case None
    then have "trim_left ws s = s" by (subst trim_left.simps) simp
    then show ?thesis using None 1 by (auto simp: find_None_iff)
  next
    case (Some v)
    then have "trim_left ws s = trim_left ws (drop (length v) s)" by (subst trim_left.simps) simp
    then show ?thesis using 1 Some by simp
  qed
qed

lemma newline_space: "[CHR 0x0A] \<in> set white_space"
  by (simp add: white_space_def)

lemma starts_with_single [simp]: "starts_with [x] (c # cs) \<longleftrightarrow> c = x"
  by (auto simp: starts_with_def)

lemma word_end_newline: "CHR 0x0A \<notin> set (word_end s)"
  using newline_space by (induction s) (auto simp: list_ex_iff)

lemma Fields_newline: "w \<in> set (Fields s) \<Longrightarrow> CHR 0x0A \<notin> set w"
proof (induction s rule: Fields.induct)
  case (1 s)
  show ?case
  proof (cases "trim_left white_space s")
    case Nil
    then show ?thesis using "1.prems" by (subst (asm) Fields.simps) simp
  next
    case (Cons c cs)
    then have "c \<noteq> CHR 0x0A" using trim_left_stops [OF Cons newline_space] by simp
    then have "CHR 0x0A \<notin> set (c # word_end cs)" using word_end_newline by simp
    then show ?thesis using "1.prems" "1.IH" [OF Cons] Cons by (subst (asm) Fields.simps) auto
  qed
qed

lemma join_newline: "c \<noteq> CHR 0x0A \<Longrightarrow> \<forall>x\<in>set xs. CHR 0x0A \<notin> set x \<Longrightarrow> CHR 0x0A \<notin> set (join c xs)"
  using set_join [of c xs] by auto

lemma headerValue_line: "CHR 0x0A \<notin> set (headerValue r name)"
proof -
  have "CHR 0x0A \<notin> set (foldWhitespace v)" for v
    unfolding foldWhitespace_def by (rule join_newline) (use Fields_newline in auto)
  then show ?thesis unfolding headerValue_def Let_def by (intro join_newline) simp_all
qed

lemma line_inj:
  fixes c :: char
  assumes "a @ c # x = b @ c # y" and "c \<notin> set a" and "c \<notin> set b"
  shows "a = b \<and> x = y"
  using arg_cong [OF assms(1), of "cut c"] assms(2,3) by (simp add: cut_append)

definition header_line :: "HTTPRequest \<Rightarrow> string \<Rightarrow> string" where
  "header_line r name = name @ '':'' @ headerValue r name"

lemma header_block_inj:
  assumes "canonicalHeaders r hs @ CHR 0x0A # x = canonicalHeaders r' hs' @ CHR 0x0A # y"
    and "\<forall>n\<in>set hs. CHR 0x0A \<notin> set n" and "\<forall>n\<in>set hs'. CHR 0x0A \<notin> set n"
  shows "map (header_line r) hs = map (header_line r') hs' \<and> x = y"
  using assms
proof (induction hs arbitrary: hs')
  case Nil
  then show ?case by (cases hs') (auto simp: canonicalHeaders_def Cons_eq_append_conv)
next
  case (Cons n hs)
  show ?case
  proof (cases hs')
    case Nil
    then show ?thesis using Cons.prems by (auto simp: canonicalHeaders_def append_eq_Cons_conv)
  next
    case (Cons n' hs'')
    have "header_line r n @ CHR 0x0A # (canonicalHeaders r hs @ CHR 0x0A # x) = header_line r' n' @ CHR 0x0A # (canonicalHeaders r' hs'' @ CHR 0x0A # y)"
      using Cons.prems(1) Cons by (simp add: canonicalHeaders_def header_line_def)
    moreover have "CHR 0x0A \<notin> set (header_line r n)" "CHR 0x0A \<notin> set (header_line r' n')"
      using Cons.prems(2,3) Cons headerValue_line by (auto simp: header_line_def)
    ultimately have "header_line r n = header_line r' n'" "canonicalHeaders r hs @ CHR 0x0A # x = canonicalHeaders r' hs'' @ CHR 0x0A # y"
      using line_inj by blast+
    then show ?thesis using Cons.IH [of hs''] Cons.prems(2,3) Cons by auto
  qed
qed

text \<open>A request line and header names as HTTP allows them; the signed names come from a list separated by semicolons.\<close>

definition http_ok :: "HTTPRequest \<Rightarrow> string list \<Rightarrow> bool" where
  "http_ok r hs \<longleftrightarrow> CHR 0x0A \<notin> set (rMethod r) \<and> CHR 0x0A \<notin> set (rPath r) \<and> hs \<noteq> [] \<and>
     list_all (\<lambda>n. CHR 0x0A \<notin> set n \<and> CHR '';'' \<notin> set n) hs"

definition signed_path :: "HTTPRequest \<Rightarrow> string" where
  "signed_path r = (if rPath r = '''' then ''/'' else rPath r)"

lemma canonical_inj:
  assumes "CanonicalRequestWithQuery r q hs ph = CanonicalRequestWithQuery r' q' hs' ph'" and "http_ok r hs" and "http_ok r' hs'"
    and "distinct (map fst q)" and "distinct (map fst q')"
  shows "rMethod r = rMethod r' \<and> signed_path r = signed_path r' \<and>
    (\<forall>name. mset (query_values q name) = mset (query_values q' name)) \<and>
    hs = hs' \<and> (\<forall>name\<in>set hs. headerValue r name = headerValue r' name) \<and> ph = ph'"
proof -
  let ?nl = "CHR 0x0A"
  have p: "?nl \<notin> set (signed_path r)" "?nl \<notin> set (signed_path r')" using assms(2,3) by (auto simp: http_ok_def signed_path_def)
  have c: "CanonicalRequestWithQuery r q hs ph = rMethod r @ ?nl # signed_path r @ ?nl # canonicalQuery q @ ?nl #
      canonicalHeaders r hs @ ?nl # join (CHR '';'') hs @ ?nl # ph" for r q hs ph
    by (simp add: CanonicalRequestWithQuery_def signed_path_def)
  note e1 = line_inj [OF assms(1) [unfolded c]]
  have m: "rMethod r = rMethod r'" using e1 assms(2,3) by (simp add: http_ok_def)
  note e2 = line_inj [OF conjunct2 [OF e1]]
  have pth: "signed_path r = signed_path r'" using e2 assms(2,3) p by (simp add: http_ok_def)
  note e3 = line_inj [OF conjunct2 [OF e2]]
  have qp: "query_pairs q = query_pairs q'"
    using e3 assms(2,3) p canonicalQuery_line by (simp add: http_ok_def canonicalQuery_inj)
  note e4 = header_block_inj [OF conjunct2 [OF e3]]
  have hn: "\<forall>n\<in>set hs. ?nl \<notin> set n" "\<forall>n\<in>set hs'. ?nl \<notin> set n" "\<forall>n\<in>set hs. CHR '';'' \<notin> set n" "\<forall>n\<in>set hs'. CHR '';'' \<notin> set n"
    using assms(2,3) by (auto simp: http_ok_def list_all_iff)
  have lines: "map (header_line r) hs = map (header_line r') hs'" and
      rest: "join (CHR '';'') hs @ ?nl # ph = join (CHR '';'') hs' @ ?nl # ph'"
    using e4 assms(2,3) p canonicalQuery_line hn by (simp_all add: http_ok_def)
  have j: "join (CHR '';'') hs = join (CHR '';'') hs'" and ph: "ph = ph'" using line_inj [OF rest] join_newline hn by simp_all
  have "hs = hs'" using split_join [OF _ hn(3)] split_join [OF _ hn(4)] j assms(2,3) by (metis http_ok_def)
  moreover have "headerValue r n = headerValue r' n" if "n \<in> set hs" for n
    using lines that calculation by (auto simp: map_eq_conv header_line_def)
  moreover have "sort (query_values q name) = sort (query_values q' name)" for name
    using query_pairs_values [OF assms(4), of name] query_pairs_values [OF assms(5), of name] qp by simp
  ultimately show ?thesis using m pth ph mset_sort by metis
qed

text \<open>C15: The canonical request is unambiguous. Two requests with the same canonical request agree in everything it covers: the method, the
  path, every query parameter with all its values up to their order, the list of signed headers and the value of each of them, and the hash of the payload.\<close>

theorem canonical_unambiguous:
  assumes "CanonicalRequestWithQuery r q hs ph = CanonicalRequestWithQuery r' q' hs' ph'" and "http_ok r hs" and "http_ok r' hs'"
    and "distinct (map fst q)" and "distinct (map fst q')"
  shows "rMethod r = rMethod r' \<and> signed_path r = signed_path r' \<and>
    (\<forall>name. mset (query_values q name) = mset (query_values q' name)) \<and>
    hs = hs' \<and> (\<forall>name\<in>set hs. headerValue r name = headerValue r' name) \<and> ph = ph'"
  using assms by (rule canonical_inj)

definition example_signed :: HTTPRequest where
  "example_signed = \<lparr>rMethod = ''GET'', rPath = ''/b/k'', rQuery = [(''x'', [''2'', ''1''])], rHost = ''h'',
     rHeader = [(''X-Amz-Date'', [''20260728T123456Z''])], rContentLength = 0\<rparr>"

text \<open>The same request as another client would send it: one more header, which is not signed, and the values of a parameter in another order.\<close>

definition example_resigned :: HTTPRequest where
  "example_resigned = example_signed\<lparr>rQuery := [(''x'', [''1'', ''2''])],
     rHeader := [(''X-Amz-Date'', [''20260728T123456Z'']), (''User-Agent'', [''a''])]\<rparr>"

theorem canonical_unambiguous_witness:
  "let hs = [''host'', ''x-amz-date''] in
   CanonicalRequestWithQuery example_signed (rQuery example_signed) hs ''UNSIGNED-PAYLOAD'' =
     CanonicalRequestWithQuery example_resigned (rQuery example_resigned) hs ''UNSIGNED-PAYLOAD'' \<and>
   http_ok example_signed hs \<and> http_ok example_resigned hs \<and>
   distinct (map fst (rQuery example_signed)) \<and> distinct (map fst (rQuery example_resigned)) \<and>
   rMethod example_signed = rMethod example_resigned \<and> signed_path example_signed = signed_path example_resigned \<and>
   (\<forall>name. mset (query_values (rQuery example_signed) name) = mset (query_values (rQuery example_resigned) name)) \<and>
   list_all (\<lambda>name. headerValue example_signed name = headerValue example_resigned name) hs"
proof -
  let ?hs = "[''host'', ''x-amz-date'']" and ?ph = "''UNSIGNED-PAYLOAD''"
  have c: "CanonicalRequestWithQuery example_signed (rQuery example_signed) ?hs ?ph =
      CanonicalRequestWithQuery example_resigned (rQuery example_resigned) ?hs ?ph"
  proof -
    have "CanonicalHeaderKey ''x-amz-date'' = ''X-Amz-Date''" by code_simp
    then have "headerValue example_signed ''x-amz-date'' = headerValue example_resigned ''x-amz-date''"
      by (simp add: headerValue_def example_signed_def example_resigned_def)
    moreover have "headerValue example_signed ''host'' = headerValue example_resigned ''host''"
      by (simp add: headerValue_def example_signed_def example_resigned_def)
    moreover have "canonicalQuery (rQuery example_signed) = canonicalQuery (rQuery example_resigned)"
      by (simp add: canonicalQuery_def query_pairs_def query_values_def example_signed_def example_resigned_def)
    ultimately show ?thesis
      by (simp add: CanonicalRequestWithQuery_def canonicalHeaders_def) (simp add: example_signed_def example_resigned_def)
  qed
  have h: "http_ok example_signed ?hs" "http_ok example_resigned ?hs"
    by (simp_all add: http_ok_def example_signed_def example_resigned_def)
  have d: "distinct (map fst (rQuery example_signed))" "distinct (map fst (rQuery example_resigned))"
    by (simp_all add: example_signed_def example_resigned_def)
  show ?thesis unfolding Let_def using canonical_unambiguous [OF c h d] c h d by (simp add: list_all_iff)
qed

end
