(* ===== verification/RequestAuth.thy ===== *)
theory RequestAuth
  imports Signature
begin

text \<open>
  Authentication of requests, \<open>internal/auth/verify.go\<close>, and of presigned URLs, \<open>presign.go\<close>. Times and durations are in nanoseconds;
  \<open>vNow\<close> is what the clock says during the call. \<open>http.ParseTime\<close>, which reads the three date formats of HTTP, is the parameter \<open>parse_http\<close>.
\<close>

section \<open>Hexadecimal\<close>

text \<open>\<open>hex.DecodeString\<close> takes digits of either case, two for each byte.\<close>

definition hex_DecodeString :: "string \<Rightarrow> bytes result" where
  "hex_DecodeString s =
     (case indices hex_alphabet (map lower s) of
        None \<Rightarrow> Inl (Errorf ''encoding/hex: invalid byte: %#U'' [])
      | Some is \<Rightarrow>
          if length is mod 2 = 1 then Inl (Errorf ''encoding/hex: odd length hex string'' []) else Inr (bytes_of_bits (symbol_bits 4 is)))"

lemma lower_hex: "c \<in> set hex_alphabet \<Longrightarrow> lower c = c"
  by (auto simp: hex_alphabet_def lower_def)

lemma hex_DecodeString_encode: "hex_DecodeString (hex_EncodeToString bs) = Inr bs"
proof -
  let ?is = "map from_bits (bit_group 4 (bits_of_bytes bs))"
  have "set (hex_EncodeToString bs) \<subseteq> set hex_alphabet"
    unfolding hex_EncodeToString_def by (rule encode_bits_alphabet) simp_all
  then have "map lower (hex_EncodeToString bs) = hex_EncodeToString bs" using lower_hex by (auto intro!: map_idI)
  moreover have "indices hex_alphabet (hex_EncodeToString bs) = Some ?is"
    by (simp add: hex_EncodeToString_def indices_encode_bits)
  moreover have "length ?is mod 2 \<noteq> 1" by (simp add: length_group) presburger
  ultimately show ?thesis using bits_group_decode(1) [of 4 bs] by (simp add: hex_DecodeString_def)
qed

interpretation hex: text_codec hex_EncodeToString hex_DecodeString
  by unfold_locales (rule hex_DecodeString_encode)

section \<open>The verifier\<close>

definition MaxClockSkew :: int where "MaxClockSkew = 15 * 60 * second_ns"
definition MaxPresignExpiry :: int where "MaxPresignExpiry = 7 * 24 * 3600 * second_ns"
definition DefaultPresignUploadExpiry :: int where "DefaultPresignUploadExpiry = 3600 * second_ns"

definition UnsignedPayload :: string where "UnsignedPayload = ''UNSIGNED-PAYLOAD''"
definition StreamingSigned :: string where "StreamingSigned = ''STREAMING-AWS4-HMAC-SHA256-PAYLOAD''"
definition StreamingSignedTrailer :: string where "StreamingSignedTrailer = ''STREAMING-AWS4-HMAC-SHA256-PAYLOAD-TRAILER''"
definition StreamingUnsignedTrail :: string where "StreamingUnsignedTrail = ''STREAMING-UNSIGNED-PAYLOAD-TRAILER''"

datatype PayloadMode =
    PayloadHashed | PayloadUnsigned | PayloadStreamingSigned | PayloadStreamingSignedTrailer | PayloadStreamingUnsignedTrailer

definition Streaming :: "PayloadMode \<Rightarrow> bool" where
  "Streaming m \<longleftrightarrow> m \<in> {PayloadStreamingSigned, PayloadStreamingSignedTrailer, PayloadStreamingUnsignedTrailer}"

definition Signed :: "PayloadMode \<Rightarrow> bool" where
  "Signed m \<longleftrightarrow> m = PayloadStreamingSigned \<or> m = PayloadStreamingSignedTrailer"

record authResult =
  arClient :: Client
  arAuthorization :: Authorization
  arPayloadMode :: PayloadMode
  arPayloadHash :: string
  arSigningKey :: bytes
  arSeed :: string
  arTime :: int
  arPresigned :: bool

record authConfig =
  acClients :: "Client list"
  acAllowUnsignedPayload :: bool
  acRequireSignedPayload :: bool
  acAllowPresign :: bool
  acMaxPresignExpiry :: int
  acMaxPresignUploadExpiry :: int

record Verifier =
  vRegistry :: Registry
  vAllowUnsignedPayload :: bool
  vRequireSignedPayload :: bool
  vAllowPresign :: bool
  vMaxPresignExpiry :: int
  vMaxUploadExpiry :: int
  vNow :: int

definition NewVerifier :: "authConfig \<Rightarrow> int \<Rightarrow> Verifier result" where
  "NewVerifier cfg now =
     ebind (NewRegistry (acClients cfg)) (\<lambda>registry.
     let maxExpiry = (if acMaxPresignExpiry cfg \<le> 0 then MaxPresignExpiry else acMaxPresignExpiry cfg) in
     if maxExpiry > MaxPresignExpiry then Inl (Errorf ''auth: max presign expiry %s exceeds S3's own maximum of %s'' [])
     else let uploadExpiry = (if acMaxPresignUploadExpiry cfg \<le> 0 then DefaultPresignUploadExpiry else acMaxPresignUploadExpiry cfg) in
     if uploadExpiry > MaxPresignExpiry then Inl (Errorf ''auth: max presign upload expiry %s exceeds S3's own maximum of %s'' [])
     else Inr \<lparr>vRegistry = registry, vAllowUnsignedPayload = acAllowUnsignedPayload cfg, vRequireSignedPayload = acRequireSignedPayload cfg,
            vAllowPresign = acAllowPresign cfg, vMaxPresignExpiry = maxExpiry, vMaxUploadExpiry = uploadExpiry, vNow = now\<rparr>)"

definition requestTime :: "(string \<Rightarrow> int option) \<Rightarrow> Verifier \<Rightarrow> HTTPRequest \<Rightarrow> int result" where
  "requestTime parse_http v r =
     (let x = header_get (rHeader r) ''X-Amz-Date''; rw = (if x = '''' then header_get (rHeader r) ''Date'' else x) in
      if rw = '''' then Inl (Errorf ''%w: neither X-Amz-Date nor Date is present'' [Sentinel ErrMalformedAuth])
      else case (case parse_amz rw of Some t \<Rightarrow> Some t | None \<Rightarrow> parse_http rw) of
        None \<Rightarrow> Inl (Errorf ''%w: timestamp %q is not a recognised format'' [Sentinel ErrMalformedAuth])
      | Some t \<Rightarrow>
          let skew = vNow v - t in
          if skew > MaxClockSkew \<or> skew < - MaxClockSkew then Inl (Errorf ''%w: off by %s'' [Sentinel ErrRequestTimeTooSkewed])
          else Inr t)"

definition isHex :: "string \<Rightarrow> bool" where
  "isHex s \<longleftrightarrow> list_all (\<lambda>c. let n = of_char c :: nat in 48 \<le> n \<and> n \<le> 57 \<or> 97 \<le> n \<and> n \<le> 102 \<or> 65 \<le> n \<and> n \<le> 70) s"

definition payloadMode :: "Verifier \<Rightarrow> HTTPRequest \<Rightarrow> (PayloadMode \<times> string) result" where
  "payloadMode v r =
     (let claimed = header_get (rHeader r) ''X-Amz-Content-Sha256'' in
      if claimed = '''' then Inl (Errorf ''%w: x-amz-content-sha256 is required'' [Sentinel ErrMalformedAuth])
      else if claimed = UnsignedPayload then
        if vRequireSignedPayload v then Inl (Errorf ''%w: UNSIGNED-PAYLOAD is refused on this listener, which requires signed payloads'' [Sentinel ErrUnsupportedPayload])
        else if \<not> vAllowUnsignedPayload v then Inl (Errorf ''%w: UNSIGNED-PAYLOAD is not enabled on this listener'' [Sentinel ErrUnsupportedPayload])
        else Inr (PayloadUnsigned, claimed)
      else if claimed = StreamingSigned then Inr (PayloadStreamingSigned, claimed)
      else if claimed = StreamingSignedTrailer then Inr (PayloadStreamingSignedTrailer, claimed)
      else if claimed = StreamingUnsignedTrail then
        if vRequireSignedPayload v
        then Inl (Errorf ''%w: STREAMING-UNSIGNED-PAYLOAD-TRAILER is refused on this listener, which requires signed payloads'' [Sentinel ErrUnsupportedPayload])
        else Inr (PayloadStreamingUnsignedTrailer, claimed)
      else if length claimed \<noteq> 64 \<or> \<not> isHex claimed
      then Inl (Errorf ''%w: x-amz-content-sha256 %q is neither a hash nor a known sentinel'' [Sentinel ErrUnsupportedPayload])
      else Inr (PayloadHashed, map lower claimed))"

definition containsFold :: "string list \<Rightarrow> string \<Rightarrow> bool" where
  "containsFold haystack needle = list_ex (\<lambda>s. EqualFold s needle) haystack"

section \<open>Presigned URLs\<close>

definition QuerySignature :: string where "QuerySignature = ''X-Amz-Signature''"

definition query_get :: "(string \<times> string list) list \<Rightarrow> string \<Rightarrow> string" where
  "query_get query name = (case query_values query name of [] \<Rightarrow> '''' | x # _ \<Rightarrow> x)"

definition IsPresigned :: "HTTPRequest \<Rightarrow> bool" where
  "IsPresigned r \<longleftrightarrow> query_get (rQuery r) QuerySignature \<noteq> ''''"

definition PresignQueryParam :: "string \<Rightarrow> bool" where
  "PresignQueryParam name \<longleftrightarrow> name \<in> {''X-Amz-Algorithm'', ''X-Amz-Credential'', ''X-Amz-Date'', ''X-Amz-Expires'', ''X-Amz-SignedHeaders'',
     QuerySignature, ''X-Amz-Content-Sha256''}"

definition StripPresignParams :: "(string \<times> string list) list \<Rightarrow> (string \<times> string list) list" where
  "StripPresignParams query = filter (\<lambda>(name, _). \<not> PresignQueryParam name) query"

record presignParams =
  ppCredential :: Credential
  ppSignedHeaders :: "string list"
  ppSignature :: string
  ppSignedAt :: int
  ppExpires :: int

text \<open>The number of seconds is a signed 64-bit integer, and so is the product with the nanoseconds of a second.\<close>

definition parsePresign :: "(string \<times> string list) list \<Rightarrow> presignParams result" where
  "parsePresign query =
     (if query_get query ''X-Amz-Algorithm'' \<noteq> sig_algorithm then Inl (Errorf ''%w: %s is %q, want %q'' [Sentinel ErrPresignMalformed])
      else ebind (parseCredential (query_get query ''X-Amz-Credential'')) (\<lambda>cred.
        let sig = query_get query QuerySignature; rw = query_get query ''X-Amz-SignedHeaders''; hs = split (CHR '';'') rw in
        if sig = '''' then Inl (Errorf ''%w: %s is empty'' [Sentinel ErrPresignMalformed])
        else if rw = '''' then Inl (Errorf ''%w: %s is empty'' [Sentinel ErrPresignMalformed])
        else if \<not> containsFold hs ''host'' then Inl (Errorf ''%w: %s must include host'' [Sentinel ErrPresignMalformed])
        else case parse_amz (query_get query ''X-Amz-Date'') of
          None \<Rightarrow> Inl (Errorf ''%w: %s %q is not an ISO8601 basic timestamp'' [Sentinel ErrPresignMalformed])
        | Some signedAt \<Rightarrow>
            (case Atoi (query_get query ''X-Amz-Expires'') of
               Inl _ \<Rightarrow> Inl (Errorf ''%w: %s %q is not a positive number of seconds'' [Sentinel ErrPresignMalformed])
             | Inr seconds \<Rightarrow>
                 if seconds \<le> 0 then Inl (Errorf ''%w: %s %q is not a positive number of seconds'' [Sentinel ErrPresignMalformed])
                 else if query_get query ''X-Amz-Content-Sha256'' \<notin> {'''', UnsignedPayload}
                 then Inl (Errorf ''%w: %s is %q; a presigned URL may carry only %s'' [Sentinel ErrPresignMalformed])
                 else if format_date signedAt \<noteq> crDate cred
                 then Inl (Errorf ''%w: timestamp %s does not match credential scope date %s'' [Sentinel ErrPresignMalformed])
                 else Inr \<lparr>ppCredential = cred, ppSignedHeaders = hs, ppSignature = sig, ppSignedAt = signedAt,
                        ppExpires = mul64 seconds second_ns\<rparr>)))"

definition checkWindow :: "Verifier \<Rightarrow> presignParams \<Rightarrow> string \<Rightarrow> err option" where
  "checkWindow v p m =
     (if m = ''PUT'' \<and> ppExpires p > vMaxUploadExpiry v
      then Some (Errorf ''%w: %s is %s, and this gateway accepts at most %s for an upload'' [Sentinel ErrPresignExpired])
      else if ppExpires p > vMaxPresignExpiry v then Some (Errorf ''%w: %s is %s, and this gateway accepts at most %s'' [Sentinel ErrPresignExpired])
      else if vNow v < ppSignedAt p - MaxClockSkew then Some (Errorf ''%w: signed %s in the future'' [Sentinel ErrRequestTimeTooSkewed])
      else if vNow v > ppSignedAt p + ppExpires p then Some (Errorf ''%w: it expired %s ago'' [Sentinel ErrPresignExpired])
      else None)"


text \<open>The query without the signature, which cannot cover itself.\<close>

definition unsigned_query :: "(string \<times> string list) list \<Rightarrow> (string \<times> string list) list" where
  "unsigned_query query = filter (\<lambda>(name, _). name \<noteq> QuerySignature) query"

definition verifyPresigned :: "Verifier \<Rightarrow> HTTPRequest \<Rightarrow> string \<Rightarrow> authResult result" where
  "verifyPresigned v r bucket =
     (if \<not> vAllowPresign v then Inl (Sentinel ErrPresignDisabled)
      else ebind (parsePresign (rQuery r)) (\<lambda>p.
      echeck (checkWindow v p (rMethod r))
      (case lookup_client (vRegistry v) (crAccessKeyID (ppCredential p)) of
         None \<Rightarrow> Inl (Sentinel ErrUnknownAccessKey)
       | Some client \<Rightarrow>
           let signingKey = SigningKey (clSecretAccessKey client) (crDate (ppCredential p)) (crRegion (ppCredential p));
               canonical = CanonicalRequestWithQuery r (unsigned_query (rQuery r)) (ppSignedHeaders p) UnsignedPayload;
               expected = Sign signingKey (StringToSign (ppSignedAt p) (Scope (ppCredential p)) canonical) in
           if \<not> equalSignature expected (ppSignature p) then Inl (Sentinel ErrSignatureMismatch)
           else if bucket \<noteq> '''' \<and> \<not> MayAccess client bucket then Inl (Errorf ''%w: %q'' [Sentinel ErrBucketNotAllowed])
           else Inr \<lparr>arClient = client,
                  arAuthorization = \<lparr>auCredential = ppCredential p, auSignedHeaders = ppSignedHeaders p, auSignature = ppSignature p\<rparr>,
                  arPayloadMode = PayloadUnsigned, arPayloadHash = '''', arSigningKey = signingKey, arSeed = ppSignature p,
                  arTime = ppSignedAt p, arPresigned = True\<rparr>)))"

section \<open>Verifying a request\<close>

definition Verify :: "(string \<Rightarrow> int option) \<Rightarrow> Verifier \<Rightarrow> HTTPRequest \<Rightarrow> string \<Rightarrow> authResult result" where
  "Verify parse_http v r bucket =
     (let header = header_get (rHeader r) ''Authorization'' in
      if header = '''' then if IsPresigned r then verifyPresigned v r bucket else Inl (Sentinel ErrMissingAuth)
      else ebind (ParseAuthorization header) (\<lambda>au.
        if \<not> containsFold (auSignedHeaders au) ''host'' then Inl (Errorf ''%w: SignedHeaders must include host'' [Sentinel ErrMalformedAuth])
        else ebind (requestTime parse_http v r) (\<lambda>signedAt.
        if format_date signedAt \<noteq> crDate (auCredential au)
        then Inl (Errorf ''%w: timestamp %s does not match credential scope date %s'' [Sentinel ErrMalformedAuth])
        else case lookup_client (vRegistry v) (crAccessKeyID (auCredential au)) of
          None \<Rightarrow> Inl (Sentinel ErrUnknownAccessKey)
        | Some client \<Rightarrow>
            ebind (payloadMode v r) (\<lambda>(mode, payloadHash).
            let signingKey = SigningKey (clSecretAccessKey client) (crDate (auCredential au)) (crRegion (auCredential au));
                canonical = CanonicalRequest r (auSignedHeaders au) payloadHash;
                expected = Sign signingKey (StringToSign signedAt (Scope (auCredential au)) canonical) in
            if \<not> equalSignature expected (auSignature au) then Inl (Sentinel ErrSignatureMismatch)
            else if bucket \<noteq> '''' \<and> \<not> MayAccess client bucket then Inl (Errorf ''%w: %q'' [Sentinel ErrBucketNotAllowed])
            else Inr \<lparr>arClient = client, arAuthorization = au, arPayloadMode = mode, arPayloadHash = payloadHash, arSigningKey = signingKey,
                   arSeed = auSignature au, arTime = signedAt, arPresigned = False\<rparr>))))"

section \<open>What an accepted request has shown\<close>

text \<open>The canonical request that an accepted request was signed with.\<close>

definition signed_request :: "HTTPRequest \<Rightarrow> authResult \<Rightarrow> string" where
  "signed_request r res =
     CanonicalRequestWithQuery r (if arPresigned res then unsigned_query (rQuery r) else rQuery r)
       (auSignedHeaders (arAuthorization res)) (if arPresigned res then UnsignedPayload else arPayloadHash res)"

definition string_signed :: "HTTPRequest \<Rightarrow> authResult \<Rightarrow> string" where
  "string_signed r res = StringToSign (arTime res) (Scope (auCredential (arAuthorization res))) (signed_request r res)"

lemma equalSignature_eq: "equalSignature a b \<longleftrightarrow> a = b"
  by (auto simp: equalSignature_def)

lemma Verify_cases:
  assumes "Verify parse_http v r bucket = Inr res"
  shows "(\<exists>au t client mode ph. ParseAuthorization (header_get (rHeader r) ''Authorization'') = Inr au \<and>
      containsFold (auSignedHeaders au) ''host'' \<and> requestTime parse_http v r = Inr t \<and> format_date t = crDate (auCredential au) \<and>
      lookup_client (vRegistry v) (crAccessKeyID (auCredential au)) = Some client \<and> payloadMode v r = Inr (mode, ph) \<and>
      Sign (SigningKey (clSecretAccessKey client) (crDate (auCredential au)) (crRegion (auCredential au)))
        (StringToSign t (Scope (auCredential au)) (CanonicalRequest r (auSignedHeaders au) ph)) = auSignature au \<and>
      (bucket \<noteq> '''' \<longrightarrow> MayAccess client bucket) \<and>
      res = \<lparr>arClient = client, arAuthorization = au, arPayloadMode = mode, arPayloadHash = ph,
             arSigningKey = SigningKey (clSecretAccessKey client) (crDate (auCredential au)) (crRegion (auCredential au)),
             arSeed = auSignature au, arTime = t, arPresigned = False\<rparr>) \<or>
    (\<exists>p client. vAllowPresign v \<and> parsePresign (rQuery r) = Inr p \<and> checkWindow v p (rMethod r) = None \<and>
      lookup_client (vRegistry v) (crAccessKeyID (ppCredential p)) = Some client \<and>
      Sign (SigningKey (clSecretAccessKey client) (crDate (ppCredential p)) (crRegion (ppCredential p)))
        (StringToSign (ppSignedAt p) (Scope (ppCredential p))
          (CanonicalRequestWithQuery r (unsigned_query (rQuery r)) (ppSignedHeaders p) UnsignedPayload)) = ppSignature p \<and>
      (bucket \<noteq> '''' \<longrightarrow> MayAccess client bucket) \<and>
      res = \<lparr>arClient = client,
             arAuthorization = \<lparr>auCredential = ppCredential p, auSignedHeaders = ppSignedHeaders p, auSignature = ppSignature p\<rparr>,
             arPayloadMode = PayloadUnsigned, arPayloadHash = '''',
             arSigningKey = SigningKey (clSecretAccessKey client) (crDate (ppCredential p)) (crRegion (ppCredential p)),
             arSeed = ppSignature p, arTime = ppSignedAt p, arPresigned = True\<rparr>)"
proof (cases "header_get (rHeader r) ''Authorization'' = ''''")
  case True
  then have "verifyPresigned v r bucket = Inr res" using assms by (auto simp: Verify_def Let_def split: if_splits)
  then show ?thesis
    unfolding verifyPresigned_def Let_def equalSignature_eq
    by (intro disjI2) (auto simp: result_simps split: if_splits option.splits)
next
  case False
  then show ?thesis using assms unfolding Verify_def Let_def equalSignature_eq
    by (intro disjI1) (auto simp: result_simps split: if_splits option.splits)
qed


lemma verify_sound_lemma:
  assumes "Verify parse_http v r bucket = Inr res"
  shows "lookup_client (vRegistry v) (crAccessKeyID (auCredential (arAuthorization res))) = Some (arClient res) \<and>
    arSigningKey res = SigningKey (clSecretAccessKey (arClient res)) (crDate (auCredential (arAuthorization res)))
      (crRegion (auCredential (arAuthorization res))) \<and>
    auSignature (arAuthorization res) = Sign (arSigningKey res) (string_signed r res) \<and> arSeed res = auSignature (arAuthorization res) \<and>
    containsFold (auSignedHeaders (arAuthorization res)) ''host'' \<and>
    crDate (auCredential (arAuthorization res)) = format_date (arTime res) \<and>
    (bucket \<noteq> '''' \<longrightarrow> MayAccess (arClient res) bucket) \<and>
    (arPresigned res \<longrightarrow> vAllowPresign v \<and> arPayloadMode res = PayloadUnsigned) \<and>
    (vRequireSignedPayload v \<and> \<not> arPresigned res \<longrightarrow> arPayloadMode res \<in> {PayloadHashed, PayloadStreamingSigned, PayloadStreamingSignedTrailer}) \<and>
    (arPayloadMode res = PayloadUnsigned \<and> \<not> arPresigned res \<longrightarrow> vAllowUnsignedPayload v)"
  using Verify_cases [OF assms]
proof (elim disjE exE conjE, goal_cases)
  case (1 au t client mode ph)
  have "(vRequireSignedPayload v \<longrightarrow> mode \<in> {PayloadHashed, PayloadStreamingSigned, PayloadStreamingSignedTrailer}) \<and>
      (mode = PayloadUnsigned \<longrightarrow> vAllowUnsignedPayload v)"
    using 1(6) by (auto simp: payloadMode_def Let_def split: if_splits)
  then show ?case using 1 by (simp add: string_signed_def signed_request_def CanonicalRequest_def)
next
  case (2 p client)
  have "containsFold (ppSignedHeaders p) ''host'' \<and> crDate (ppCredential p) = format_date (ppSignedAt p)"
    using 2(2) by (auto simp: parsePresign_def Let_def result_simps split: if_splits option.splits sum.splits)
  then show ?case using 2 by (simp add: string_signed_def signed_request_def)
qed

text \<open>C8: Only an authentic and authorised request is accepted. If \<open>Verify\<close> accepts a request, its access key id belongs to a configured client,
  the signature it carries is the one that client's secret gives for exactly this request, scope and time, the host is among the signed headers, the client
  may use the bucket, and the day of the scope is the day of the signature. A body that the signature does not cover is accepted only where the configuration
  allows it: never with a signed request that requires signed payloads.\<close>

theorem verify_sound:
  assumes "Verify parse_http v r bucket = Inr res"
  shows "lookup_client (vRegistry v) (crAccessKeyID (auCredential (arAuthorization res))) = Some (arClient res) \<and>
    arSigningKey res = SigningKey (clSecretAccessKey (arClient res)) (crDate (auCredential (arAuthorization res)))
      (crRegion (auCredential (arAuthorization res))) \<and>
    auSignature (arAuthorization res) = Sign (arSigningKey res) (string_signed r res) \<and> arSeed res = auSignature (arAuthorization res) \<and>
    containsFold (auSignedHeaders (arAuthorization res)) ''host'' \<and>
    crDate (auCredential (arAuthorization res)) = format_date (arTime res) \<and>
    (bucket \<noteq> '''' \<longrightarrow> MayAccess (arClient res) bucket) \<and>
    (arPresigned res \<longrightarrow> vAllowPresign v \<and> arPayloadMode res = PayloadUnsigned) \<and>
    (vRequireSignedPayload v \<and> \<not> arPresigned res \<longrightarrow> arPayloadMode res \<in> {PayloadHashed, PayloadStreamingSigned, PayloadStreamingSignedTrailer}) \<and>
    (arPayloadMode res = PayloadUnsigned \<and> \<not> arPresigned res \<longrightarrow> vAllowUnsignedPayload v)"
  using assms by (rule verify_sound_lemma)

lemma SigningKey_length [simp]: "length (SigningKey s d g) = 32"
  by (simp add: SigningKey_def Let_def)

lemma pad_newline: "CHR 0x0A \<notin> set (pad w n)"
  using decimal_digits [of n] by (auto simp: pad_def list_all_iff is_digit_def)

lemma format_amz_newline: "CHR 0x0A \<notin> set (format_amz t)"
  using pad_newline by (auto simp: format_amz_def format_date_def Let_def split: prod.splits)

lemma hex_inj: "hex_EncodeToString a = hex_EncodeToString b \<longleftrightarrow> a = b"
  by (rule hex.encode_inj)


lemma StringToSign_inj:
  assumes "StringToSign t scope c = StringToSign t' scope' c'"
  shows "format_amz t = format_amz t' \<and> scope = scope' \<and> sha256 (bytes_of c) = sha256 (bytes_of c')"
proof -
  let ?nl = "CHR 0x0A"
  have e: "StringToSign t scope c = sig_algorithm @ ?nl # format_amz t @ ?nl # scope @ ?nl # hex_EncodeToString (sha256 (bytes_of c))" for t scope c
    by (simp add: StringToSign_def)
  have a: "?nl \<notin> set sig_algorithm" by (simp add: sig_algorithm_def)
  note l1 = conjunct2 [OF line_inj [OF assms [unfolded e] a a]]
  note l2 = line_inj [OF l1 format_amz_newline format_amz_newline]
  have "scope @ ?nl # hex_EncodeToString (sha256 (bytes_of c)) = scope' @ ?nl # hex_EncodeToString (sha256 (bytes_of c'))" using l2 by (rule conjunct2)
  then have "scope = scope' \<and> ?nl # hex_EncodeToString (sha256 (bytes_of c)) = ?nl # hex_EncodeToString (sha256 (bytes_of c'))"
    by (subst (asm) append_eq_append_conv) simp_all
  then show ?thesis using l2 by (simp add: hex_inj)
qed

text \<open>C9: A signature is good for one request. If two requests are accepted with the same signature, at whatever times, they agree in the second of their
  signing, the credential scope, the method, the path, all query parameters (the signature itself aside), the signed headers with their values and the hash of
  the payload; or else the two signed texts collide under HMAC-SHA256, or the two canonical requests under SHA-256.\<close>

theorem signature_binds:
  assumes v: "Verify parse_http v r bucket = Inr res" "Verify parse_http v' r' bucket' = Inr res'"
    and s: "auSignature (arAuthorization res) = auSignature (arAuthorization res')"
    and h: "http_ok r (auSignedHeaders (arAuthorization res))" "http_ok r' (auSignedHeaders (arAuthorization res'))"
      "distinct (map fst (rQuery r))" "distinct (map fst (rQuery r'))"
  defines "q \<equiv> (if arPresigned res then unsigned_query (rQuery r) else rQuery r)"
    and "q' \<equiv> (if arPresigned res' then unsigned_query (rQuery r') else rQuery r')"
  shows "(format_amz (arTime res) = format_amz (arTime res') \<and>
      Scope (auCredential (arAuthorization res)) = Scope (auCredential (arAuthorization res')) \<and>
      rMethod r = rMethod r' \<and> signed_path r = signed_path r' \<and> (\<forall>name. mset (query_values q name) = mset (query_values q' name)) \<and>
      auSignedHeaders (arAuthorization res) = auSignedHeaders (arAuthorization res') \<and>
      (\<forall>name\<in>set (auSignedHeaders (arAuthorization res)). headerValue r name = headerValue r' name) \<and>
      (\<not> arPresigned res \<and> \<not> arPresigned res' \<longrightarrow> arPayloadHash res = arPayloadHash res')) \<or>
    ((arSigningKey res, string_signed r res) \<noteq> (arSigningKey res', string_signed r' res') \<and>
      hmac (arSigningKey res) (bytes_of (string_signed r res)) = hmac (arSigningKey res') (bytes_of (string_signed r' res'))) \<or>
    (signed_request r res \<noteq> signed_request r' res' \<and>
      sha256 (bytes_of (signed_request r res)) = sha256 (bytes_of (signed_request r' res')))"
proof -
  have sig: "Sign (arSigningKey res) (string_signed r res) = Sign (arSigningKey res') (string_signed r' res')"
    using verify_sound_lemma [OF v(1)] verify_sound_lemma [OF v(2)] s by simp
  then have hm: "hmac (arSigningKey res) (bytes_of (string_signed r res)) = hmac (arSigningKey res') (bytes_of (string_signed r' res'))"
    by (simp add: Sign_def hex_inj)
  have d: "distinct (map fst q)" "distinct (map fst q')"
    using h(3,4) by (simp_all add: q_def q'_def unsigned_query_def distinct_map_filter)
  show ?thesis
  proof (cases "string_signed r res = string_signed r' res' \<and> signed_request r res = signed_request r' res'")
    case True
    then have t: "format_amz (arTime res) = format_amz (arTime res')"
        "Scope (auCredential (arAuthorization res)) = Scope (auCredential (arAuthorization res'))"
      using StringToSign_inj [OF conjunct1 [OF True, unfolded string_signed_def]] by auto
    have c: "CanonicalRequestWithQuery r q (auSignedHeaders (arAuthorization res)) (if arPresigned res then UnsignedPayload else arPayloadHash res) =
      CanonicalRequestWithQuery r' q' (auSignedHeaders (arAuthorization res')) (if arPresigned res' then UnsignedPayload else arPayloadHash res')"
      using True by (simp only: signed_request_def q_def q'_def)
    show ?thesis using canonical_inj [OF c h(1,2) d] t by auto
  next
    case False
    then show ?thesis
    proof (cases "string_signed r res = string_signed r' res'")
      case True
      then show ?thesis using StringToSign_inj [OF True [unfolded string_signed_def]] False by blast
    qed (use hm in auto)
  qed
qed


text \<open>C14: A signature expires. A request that is accepted was signed at most fifteen minutes from now in the future, and at most fifteen minutes ago, or, by a
  presigned URL, no longer ago than the configuration allows (for an upload, its own limit) and never more than seven days. This holds although
  the number of seconds in the URL is multiplied without a check for overflow.\<close>

theorem signature_expires:
  assumes "NewVerifier cfg now = Inr v" and "Verify parse_http v r bucket = Inr res"
  shows "arTime res - MaxClockSkew \<le> now \<and>
    now \<le> arTime res + (if arPresigned res then if rMethod r = ''PUT'' then min (vMaxUploadExpiry v) (vMaxPresignExpiry v) else vMaxPresignExpiry v
                         else MaxClockSkew) \<and>
    vMaxPresignExpiry v \<le> MaxPresignExpiry"
proof -
  have n: "vNow v = now" "vMaxPresignExpiry v \<le> MaxPresignExpiry"
    using assms(1) by (auto simp: NewVerifier_def Let_def result_simps split: if_splits)
  show ?thesis
    using Verify_cases [OF assms(2)]
  proof (elim disjE exE conjE, goal_cases)
    case (1 au t client mode ph)
    have "t - MaxClockSkew \<le> now \<and> now \<le> t + MaxClockSkew"
      using 1(3) n(1) by (auto simp: requestTime_def Let_def split: if_splits option.splits)
    then show ?case using 1 n(2) by simp
  next
    case (2 p client)
    then show ?case using n by (auto simp: checkWindow_def split: if_splits)
  qed
qed

definition example_client :: Client where
  "example_client = \<lparr>clName = ''c'', clAccessKeyID = ''AK'', clSecretAccessKey = ''S'', clBuckets = [''b'']\<rparr>"

definition example_config :: authConfig where
  "example_config = \<lparr>acClients = [example_client], acAllowUnsignedPayload = False, acRequireSignedPayload = True, acAllowPresign = True,
     acMaxPresignExpiry = 0, acMaxPresignUploadExpiry = 0\<rparr>"

definition example_now :: int where "example_now = 63952461296000000000"

definition example_query :: "(string \<times> string list) list" where
  "example_query = [(''X-Amz-Algorithm'', [sig_algorithm]), (''X-Amz-Credential'', [''AK/20260728/r/s3/aws4_request'']),
     (''X-Amz-Date'', [''20260728T123456Z'']), (''X-Amz-Expires'', [''900'']), (''X-Amz-SignedHeaders'', [''host''])]"

definition example_url :: "string \<Rightarrow> HTTPRequest" where
  "example_url sig = \<lparr>rMethod = ''GET'', rPath = ''/b/k'', rQuery = example_query @ [(QuerySignature, [sig])], rHost = ''h'', rHeader = [], rContentLength = 0\<rparr>"

definition example_verifier :: Verifier where
  "example_verifier = \<lparr>vRegistry = [(''AK'', example_client)], vAllowUnsignedPayload = False, vRequireSignedPayload = True, vAllowPresign = True,
     vMaxPresignExpiry = MaxPresignExpiry, vMaxUploadExpiry = DefaultPresignUploadExpiry, vNow = example_now\<rparr>"

lemma example_verifier_new: "NewVerifier example_config example_now = Inr example_verifier"
  by (simp add: NewVerifier_def NewRegistry_def example_config_def example_client_def example_verifier_def MaxPresignExpiry_def
      DefaultPresignUploadExpiry_def second_ns_def)

lemma example_digits: "digit 0 = CHR ''0''" "digit 2 = CHR ''2''" "digit 6 = CHR ''6''" "digit 7 = CHR ''7''" "digit 8 = CHR ''8''"
    "digit (Suc (Suc (Suc (Suc (Suc (Suc (Suc 0))))))) = CHR ''7''"
  by code_simp+

lemma example_date: "parse_amz ''20260728T123456Z'' = Some example_now" "format_date example_now = ''20260728''" "parse_date ''20260728'' \<noteq> None"
  by (simp_all add: parse_amz_def parse_date_def obind_def parse_day_def getnum_def is_digit_def dec_value_def month_lengths_def leap_def CutPrefix_def starts_with_def
      parse_fraction_def day_number_def year_start_def second_ns_def Let_def example_now_def format_date_def day_ns_def civil_def year_loop.simps pad_def
      decimal.simps example_digits)

definition example_credential :: Credential where
  "example_credential = \<lparr>crAccessKeyID = ''AK'', crDate = ''20260728'', crRegion = ''r'', crService = ''s3'', crTerminator = ''aws4_request''\<rparr>"

lemma example_presign:
  assumes "sig \<noteq> ''''"
  shows "parsePresign (rQuery (example_url sig)) = Inr \<lparr>ppCredential = example_credential, ppSignedHeaders = [''host''], ppSignature = sig,
      ppSignedAt = example_now, ppExpires = 900 * second_ns\<rparr>" and "IsPresigned (example_url sig)"
    and "unsigned_query (rQuery (example_url sig)) = example_query"
proof -
  have cred: "parseCredential ''AK/20260728/r/s3/aws4_request'' = Inr example_credential"
    using example_date(3) by (simp add: parseCredential_def example_credential_def sig_service_def sig_terminator_def)
  have get: "query_get (rQuery (example_url sig)) ''X-Amz-Algorithm'' = sig_algorithm"
      "query_get (rQuery (example_url sig)) ''X-Amz-Credential'' = ''AK/20260728/r/s3/aws4_request''"
      "query_get (rQuery (example_url sig)) ''X-Amz-Date'' = ''20260728T123456Z''" "query_get (rQuery (example_url sig)) ''X-Amz-Expires'' = ''900''"
      "query_get (rQuery (example_url sig)) ''X-Amz-SignedHeaders'' = ''host''" "query_get (rQuery (example_url sig)) QuerySignature = sig"
      "query_get (rQuery (example_url sig)) ''X-Amz-Content-Sha256'' = ''''"
    by (simp_all add: query_get_def query_values_def example_url_def example_query_def QuerySignature_def)
  have n: "Atoi ''900'' = Inr 900" by (simp add: Atoi_def Atoi_digits_def is_digit_def dec_value_def in64_def)
  have m: "mul64 900 second_ns = 900 * second_ns" by (simp add: mul64_def second_ns_def wrap64_id in64_def)
  have h: "containsFold [''host''] ''host''" by code_simp
  show "parsePresign (rQuery (example_url sig)) = Inr \<lparr>ppCredential = example_credential, ppSignedHeaders = [''host''], ppSignature = sig,
      ppSignedAt = example_now, ppExpires = 900 * second_ns\<rparr>"
    using assms example_date(1,2) by (simp add: parsePresign_def get cred n m h) (simp add: example_credential_def)
  show "IsPresigned (example_url sig)" using assms get(6) by (simp add: IsPresigned_def)
  show "unsigned_query (rQuery (example_url sig)) = example_query"
    by (simp add: unsigned_query_def example_url_def example_query_def QuerySignature_def)
qed

lemma example_accepted:
  "\<exists>sig res. Verify (\<lambda>_. None) example_verifier (example_url sig) ''b'' = Inr res \<and> arPresigned res \<and> arTime res = example_now \<and>
     auSignedHeaders (arAuthorization res) = [''host''] \<and> arClient res = example_client"
proof -
  define c where "c = CanonicalRequestWithQuery (example_url '''') example_query [''host''] UnsignedPayload"
  define sig where "sig = Sign (SigningKey ''S'' ''20260728'' ''r'') (StringToSign example_now (Scope example_credential) c)"
  have "length sig = 64" by (simp add: sig_def Sign_def)
  then have ne: "sig \<noteq> ''''" by auto
  have c: "CanonicalRequestWithQuery (example_url sig) example_query [''host''] UnsignedPayload = c"
    by (simp add: c_def CanonicalRequestWithQuery_def example_url_def canonicalHeaders_def headerValue_def)
  have w: "checkWindow example_verifier \<lparr>ppCredential = example_credential, ppSignedHeaders = [''host''], ppSignature = sig,
      ppSignedAt = example_now, ppExpires = 900 * second_ns\<rparr> (rMethod (example_url sig)) = None"
    by (simp add: checkWindow_def example_verifier_def MaxPresignExpiry_def MaxClockSkew_def second_ns_def example_url_def)
  have l: "lookup_client (vRegistry example_verifier) (crAccessKeyID example_credential) = Some example_client"
    by (simp add: lookup_client_def example_verifier_def example_credential_def)
  have a: "vAllowPresign example_verifier" "MayAccess example_client ''b''" by (simp_all add: example_verifier_def MayAccess_def example_client_def)
  have s: "Sign (SigningKey (clSecretAccessKey example_client) (crDate example_credential) (crRegion example_credential))
      (StringToSign example_now (Scope example_credential) c) = sig"
    by (simp add: sig_def example_client_def example_credential_def)
  have "\<exists>res. verifyPresigned example_verifier (example_url sig) ''b'' = Inr res \<and> arPresigned res \<and> arTime res = example_now \<and>
     auSignedHeaders (arAuthorization res) = [''host''] \<and> arClient res = example_client"
    by (simp add: verifyPresigned_def example_presign [OF ne] w l a c s equalSignature_eq)
  moreover have "Verify (\<lambda>_. None) example_verifier (example_url sig) ''b'' = verifyPresigned example_verifier (example_url sig) ''b''"
    using example_presign(2) [OF ne] by (simp add: Verify_def header_get_def) (simp add: example_url_def)
  ultimately show ?thesis by metis
qed

theorem verify_sound_witness:
  "\<exists>sig res. Verify (\<lambda>_. None) example_verifier (example_url sig) ''b'' = Inr res \<and> MayAccess (arClient res) ''b'' \<and>
     auSignature (arAuthorization res) = Sign (arSigningKey res) (string_signed (example_url sig) res)"
proof -
  obtain sig res where "Verify (\<lambda>_. None) example_verifier (example_url sig) ''b'' = Inr res" using example_accepted by blast
  with verify_sound [OF this] show ?thesis by blast
qed

theorem signature_binds_witness:
  "\<exists>sig res. Verify (\<lambda>_. None) example_verifier (example_url sig) ''b'' = Inr res \<and> signed_path (example_url sig) = ''/b/k''"
proof -
  obtain sig res where a: "Verify (\<lambda>_. None) example_verifier (example_url sig) ''b'' = Inr res" "auSignedHeaders (arAuthorization res) = [''host'']"
    using example_accepted by blast
  have h: "http_ok (example_url sig) (auSignedHeaders (arAuthorization res))" "distinct (map fst (rQuery (example_url sig)))"
    by (simp_all add: a(2) http_ok_def example_url_def example_query_def QuerySignature_def)
  have "signed_path (example_url sig) = signed_path (example_url '''')"
    using signature_binds [OF a(1) a(1) refl h(1) h(1) h(2) h(2)] by (simp add: signed_path_def example_url_def)
  then show ?thesis using a(1) by (auto simp: signed_path_def example_url_def)
qed

theorem signature_expires_witness:
  "\<exists>sig res. Verify (\<lambda>_. None) example_verifier (example_url sig) ''b'' = Inr res \<and> arTime res - MaxClockSkew \<le> example_now"
proof -
  obtain sig res where "Verify (\<lambda>_. None) example_verifier (example_url sig) ''b'' = Inr res" using example_accepted by blast
  with signature_expires [OF example_verifier_new this] show ?thesis by blast
qed


text \<open>
  The product of the seconds and the nanoseconds of a second wraps, so \<open>X-Amz-Expires\<close> is read modulo \<open>2\<^sup>5\<^sup>5\<close> seconds: a URL signed for far more than the
  seven days a gateway accepts is accepted, for a window that the signer did not choose.
\<close>

lemma expires_wraps:
  assumes "parsePresign q = Inr p" and "Atoi (query_get q ''X-Amz-Expires'') = Inr (s + j * 2 ^ 55)" and "0 < s" and "s * second_ns < 2 ^ 63"
  shows "ppExpires p = s * second_ns"
proof -
  have "ppExpires p = mul64 (s + j * 2 ^ 55) second_ns"
    using assms(1,2) by (auto simp: parsePresign_def ebind_def Let_def split: sum.splits if_splits option.splits)
  also have "\<dots> = wrap64 (s * second_ns)"
  proof -
    have "(s + j * 2 ^ 55) * second_ns + 2 ^ 63 = s * second_ns + 2 ^ 63 + 2 ^ 64 * (j * 1953125)" by (simp add: second_ns_def algebra_simps)
    then show ?thesis unfolding mul64_def wrap64_def by (simp only: mod_mult_self2)
  qed
  also have "\<dots> = s * second_ns"
    using assms(3,4) by (simp add: in64_def second_ns_def)
  finally show ?thesis .
qed

end
