(* ===== verification/GoHash.thy ===== *)
theory GoHash
  imports GoCrypto
begin

text \<open>
  The checksums that S3 clients attach to uploads, as Go's \<open>hash/crc32\<close>, \<open>hash/crc64\<close>, \<open>crypto/sha1\<close> (FIPS 180-4) and \<open>crypto/md5\<close> (RFC 1321) compute
  them. The components use only the lengths.
\<close>

section \<open>Cyclic redundancy checks\<close>

text \<open>Reflected polynomials, with the register inverted before and after.\<close>

definition crc_bit :: "'a :: len word \<Rightarrow> 'a word \<Rightarrow> 'a word" where
  "crc_bit poly c = (if bit c 0 then drop_bit 1 c XOR poly else drop_bit 1 c)"

definition crc_byte :: "'a :: len word \<Rightarrow> 'a word \<Rightarrow> byte \<Rightarrow> 'a word" where
  "crc_byte poly c b = (crc_bit poly ^^ 8) (c XOR ucast b)"

definition crc :: "'a :: len word \<Rightarrow> bytes \<Rightarrow> 'a word" where
  "crc poly m = NOT (foldl (crc_byte poly) (NOT 0) m)"

definition crc32_IEEE :: "bytes \<Rightarrow> bytes" where
  "crc32_IEEE m = be_bytes 4 (unat (crc (0xEDB88320 :: 32 word) m))"

definition crc32_Castagnoli :: "bytes \<Rightarrow> bytes" where
  "crc32_Castagnoli m = be_bytes 4 (unat (crc (0x82F63B78 :: 32 word) m))"

definition crc64_NVME :: "bytes \<Rightarrow> bytes" where
  "crc64_NVME m = be_bytes 8 (unat (crc (0x9a6c9329ac4bc9b5 :: 64 word) m))"

section \<open>SHA-1\<close>

definition rotl32 :: "nat \<Rightarrow> u32 \<Rightarrow> u32" where
  "rotl32 n x = push_bit n x OR drop_bit (32 - n) x"

fun sha1_extend :: "nat \<Rightarrow> u32 list \<Rightarrow> u32 list" where
  "sha1_extend 0 w = w"
| "sha1_extend (Suc n) w = sha1_extend n (rotl32 1 (w ! 2 XOR w ! 7 XOR w ! 13 XOR w ! 15) # w)"

type_synonym sha1_state = "u32 \<times> u32 \<times> u32 \<times> u32 \<times> u32"

fun sha1_round :: "sha1_state \<Rightarrow> nat \<times> u32 \<Rightarrow> sha1_state" where
  "sha1_round (a, b, c, d, e) (t, w) =
     (let (f, k) =
        (if t < 20 then ((b AND c) OR (NOT b AND d), 0x5A827999)
         else if t < 40 then (b XOR c XOR d, 0x6ED9EBA1)
         else if t < 60 then ((b AND c) OR (b AND d) OR (c AND d), 0x8F1BBCDC)
         else (b XOR c XOR d, 0xCA62C1D6))
      in (rotl32 5 a + f + e + k + w, a, rotl32 30 b, c, d))"

fun sha1_add :: "sha1_state \<Rightarrow> sha1_state \<Rightarrow> sha1_state" where
  "sha1_add (a, b, c, d, e) (a', b', c', d', e') = (a + a', b + b', c + c', d + d', e + e')"

definition sha1_block :: "sha1_state \<Rightarrow> bytes \<Rightarrow> sha1_state" where
  "sha1_block st blk = sha1_add st (foldl sha1_round st (zip [0..<80] (rev (sha1_extend 64 (rev (sha256_words blk))))))"

text \<open>The blocks of 64 bytes of a padded message.\<close>

function blocks64 :: "bytes \<Rightarrow> bytes list" where
  "blocks64 m = (if m = [] then [] else take 64 m # blocks64 (drop 64 m))"
  by pat_completeness auto
termination
  by (relation "measure length") auto

declare blocks64.simps [simp del]

fun sha1_bytes :: "sha1_state \<Rightarrow> bytes" where
  "sha1_bytes (a, b, c, d, e) = concat (map (\<lambda>x. be_bytes 4 (unat x)) [a, b, c, d, e])"

definition sha1 :: "bytes \<Rightarrow> bytes" where
  "sha1 m = sha1_bytes (foldl sha1_block (0x67452301, 0xEFCDAB89, 0x98BADCFE, 0x10325476, 0xC3D2E1F0) (blocks64 (sha256_pad m)))"

section \<open>MD5\<close>

definition md5_K :: "u32 list" where
  "md5_K =
    [0xd76aa478, 0xe8c7b756, 0x242070db, 0xc1bdceee, 0xf57c0faf, 0x4787c62a, 0xa8304613, 0xfd469501,
     0x698098d8, 0x8b44f7af, 0xffff5bb1, 0x895cd7be, 0x6b901122, 0xfd987193, 0xa679438e, 0x49b40821,
     0xf61e2562, 0xc040b340, 0x265e5a51, 0xe9b6c7aa, 0xd62f105d, 0x02441453, 0xd8a1e681, 0xe7d3fbc8,
     0x21e1cde6, 0xc33707d6, 0xf4d50d87, 0x455a14ed, 0xa9e3e905, 0xfcefa3f8, 0x676f02d9, 0x8d2a4c8a,
     0xfffa3942, 0x8771f681, 0x6d9d6122, 0xfde5380c, 0xa4beea44, 0x4bdecfa9, 0xf6bb4b60, 0xbebfbc70,
     0x289b7ec6, 0xeaa127fa, 0xd4ef3085, 0x04881d05, 0xd9d4d039, 0xe6db99e5, 0x1fa27cf8, 0xc4ac5665,
     0xf4292244, 0x432aff97, 0xab9423a7, 0xfc93a039, 0x655b59c3, 0x8f0ccc92, 0xffeff47d, 0x85845dd1,
     0x6fa87e4f, 0xfe2ce6e0, 0xa3014314, 0x4e0811a1, 0xf7537e82, 0xbd3af235, 0x2ad7d2bb, 0xeb86d391]"

definition md5_S :: "nat list" where
  "md5_S = concat (map (\<lambda>s. concat (replicate 4 s)) [[7, 12, 17, 22], [5, 9, 14, 20], [4, 11, 16, 23], [6, 10, 15, 21]])"

type_synonym md5_state = "u32 \<times> u32 \<times> u32 \<times> u32"

fun md5_round :: "u32 list \<Rightarrow> md5_state \<Rightarrow> nat \<Rightarrow> md5_state" where
  "md5_round m (a, b, c, d) i =
     (let (f, g) =
        (if i < 16 then ((b AND c) OR (NOT b AND d), i)
         else if i < 32 then ((d AND b) OR (NOT d AND c), (5 * i + 1) mod 16)
         else if i < 48 then (b XOR c XOR d, (3 * i + 5) mod 16)
         else (c XOR (b OR NOT d), (7 * i) mod 16))
      in (d, b + rotl32 (md5_S ! i) (a + f + md5_K ! i + m ! g), b, c))"

fun le_words :: "bytes \<Rightarrow> u32 list" where
  "le_words (a # b # c # d # r) = be_word32 [d, c, b, a] # le_words r"
| "le_words _ = []"

fun md5_add :: "md5_state \<Rightarrow> md5_state \<Rightarrow> md5_state" where
  "md5_add (a, b, c, d) (a', b', c', d') = (a + a', b + b', c + c', d + d')"

definition md5_block :: "md5_state \<Rightarrow> bytes \<Rightarrow> md5_state" where
  "md5_block st blk = md5_add st (foldl (md5_round (le_words blk)) st [0..<64])"

definition md5_pad :: "bytes \<Rightarrow> bytes" where
  "md5_pad m = (let l = length m; z = (119 - l mod 64) mod 64 in m @ [0x80] @ replicate z 0 @ rev (be_bytes 8 (8 * l)))"

fun md5_bytes :: "md5_state \<Rightarrow> bytes" where
  "md5_bytes (a, b, c, d) = concat (map (\<lambda>x. rev (be_bytes 4 (unat x))) [a, b, c, d])"

definition md5 :: "bytes \<Rightarrow> bytes" where
  "md5 m = md5_bytes (foldl md5_block (0x67452301, 0xefcdab89, 0x98badcfe, 0x10325476) (blocks64 (md5_pad m)))"

section \<open>Lengths\<close>

lemma length_crc [simp]: "length (crc32_IEEE m) = 4" "length (crc32_Castagnoli m) = 4" "length (crc64_NVME m) = 8"
  by (simp_all add: crc32_IEEE_def crc32_Castagnoli_def crc64_NVME_def)

lemma length_sha1_bytes [simp]: "length (sha1_bytes st) = 20"
  by (rule sha1_bytes.cases [of st]) simp

lemma length_sha1 [simp]: "length (sha1 m) = 20"
  by (simp add: sha1_def)

lemma length_md5_bytes [simp]: "length (md5_bytes st) = 16"
  by (rule md5_bytes.cases [of st]) simp

lemma length_md5 [simp]: "length (md5 m) = 16"
  by (simp add: md5_def)

end
