(* ===== verification/ChunkedBody.thy ===== *)
theory ChunkedBody
  imports RequestAuth GoHash
begin

text \<open>
  The body of a request, \<open>internal/auth/body.go\<close>, with the checksums of \<open>checksum.go\<close> and the aws-chunked framing of \<open>chunked.go\<close>. A running hash is
  the bytes written to it so far. The reader of the network is a \<open>source\<close>; \<open>bufio\<close> only groups its bytes.
\<close>

section \<open>Checksums\<close>

text \<open>The digests by the names of their algorithms, MD5 among them for \<open>Content-MD5\<close>.\<close>

definition digest :: "string \<Rightarrow> bytes \<Rightarrow> bytes" where
  "digest alg m =
     (if alg = ''CRC32'' then crc32_IEEE m else if alg = ''CRC32C'' then crc32_Castagnoli m else if alg = ''CRC64NVME'' then crc64_NVME m
      else if alg = ''SHA1'' then sha1 m else if alg = ''MD5'' then md5 m else sha256 m)"

definition newHash :: "string \<Rightarrow> err option" where
  "newHash alg =
     (if alg \<in> {''CRC32'', ''CRC32C'', ''CRC64NVME'', ''SHA1'', ''SHA256''} then None else Some (Errorf ''%w: %q'' [Sentinel ErrUnsupportedChecksum]))"

text \<open>\<open>strings.ToUpper\<close> for a name compared with ASCII names without an \<open>I\<close>: besides the ASCII letters only U+017F has a capital in ASCII.\<close>

fun ToUpper :: "string \<Rightarrow> string" where
  "ToUpper (a # b # r) = (if a = CHR 0xC5 \<and> b = CHR 0xBF then CHR ''S'' # ToUpper r else upper a # ToUpper (b # r))"
| "ToUpper [a] = [upper a]"
| "ToUpper [] = []"

definition parseChecksumAlgorithm :: "string \<Rightarrow> string option" where
  "parseChecksumAlgorithm headerName =
     (case CutPrefix (ToLower headerName) ''x-amz-checksum-'' of
        None \<Rightarrow> None
      | Some name \<Rightarrow> let alg = ToUpper name in if newHash alg \<noteq> None then None else Some alg)"

record expectation =
  exName :: string
  exAlg :: string
  exData :: bytes
  exExpected :: "bytes option"

definition ex_write :: "bytes \<Rightarrow> expectation \<Rightarrow> expectation" where
  "ex_write p e = e\<lparr>exData := exData e @ p\<rparr>"

definition ex_verify :: "expectation \<Rightarrow> err option" where
  "ex_verify e =
     (if digest (exAlg e) (exData e) \<noteq> (case exExpected e of None \<Rightarrow> [] | Some b \<Rightarrow> b) then Some (Errorf ''%w: %s'' [Sentinel ErrChecksumMismatch])
      else None)"

definition expectedLength :: "string \<Rightarrow> nat" where
  "expectedLength alg =
     (if alg \<in> {''CRC32'', ''CRC32C''} then 4 else if alg = ''CRC64NVME'' then 8 else if alg = ''SHA1'' then 20 else if alg = ''SHA256'' then 32 else 0)"

fun header_checksums :: "headers \<Rightarrow> expectation list result" where
  "header_checksums [] = Inr []"
| "header_checksums ((name, vs) # h) =
     (case vs of
        [] \<Rightarrow> header_checksums h
      | v # _ \<Rightarrow>
          (case parseChecksumAlgorithm name of
             None \<Rightarrow> header_checksums h
           | Some alg \<Rightarrow>
               (case b64_DecodeString (TrimSpace v) of
                  Inl e \<Rightarrow> Inl (Errorf ''auth: %s is not valid base64: %w'' [e])
                | Inr rw \<Rightarrow>
                    if length rw \<noteq> expectedLength alg then Inl (Errorf ''auth: %s decodes to %d bytes, want %d'' [])
                    else ebind (header_checksums h) (\<lambda>out. Inr (\<lparr>exName = name, exAlg = alg, exData = [], exExpected = Some rw\<rparr> # out)))))"

definition checksumsFrom :: "headers \<Rightarrow> expectation list result" where
  "checksumsFrom h =
     ebind (header_checksums h) (\<lambda>out.
       let md5Value = header_get h ''Content-MD5'' in
       if md5Value = '''' then Inr out
       else case b64_DecodeString (TrimSpace md5Value) of
         Inl e \<Rightarrow> Inl (Errorf ''auth: Content-MD5 is not valid base64: %w'' [e])
       | Inr rw \<Rightarrow>
           if length rw \<noteq> 16 then Inl (Errorf ''auth: Content-MD5 decodes to %d bytes, want %d'' [])
           else Inr (out @ [\<lparr>exName = ''Content-MD5'', exAlg = ''MD5'', exData = [], exExpected = Some rw\<rparr>]))"

fun announced_names :: "string list \<Rightarrow> expectation list result" where
  "announced_names [] = Inr []"
| "announced_names (n # ns) =
     (let name = TrimSpace n in
      if name = '''' then announced_names ns
      else case parseChecksumAlgorithm name of
        None \<Rightarrow> Inl (Errorf ''%w: announced trailer %q'' [Sentinel ErrUnsupportedChecksum])
      | Some alg \<Rightarrow> ebind (announced_names ns) (\<lambda>out. Inr (\<lparr>exName = name, exAlg = alg, exData = [], exExpected = None\<rparr> # out)))"

text \<open>The value a client sends for a checksum, and the name it sends it under.\<close>

definition HeaderName :: "string \<Rightarrow> string" where
  "HeaderName alg = ''x-amz-checksum-'' @ ToLower alg"

definition ComputeChecksum :: "string \<Rightarrow> bytes \<Rightarrow> string result" where
  "ComputeChecksum alg d = echeck (newHash alg) (Inr (b64_EncodeToString (digest alg d)))"

definition announcedTrailerChecksums :: "headers \<Rightarrow> expectation list result" where
  "announcedTrailerChecksums h =
     (let rw = header_get h ''X-Amz-Trailer'' in if rw = '''' then Inr [] else announced_names (split (CHR '','') rw))"

section \<open>The aws-chunked framing\<close>

definition maxChunkHeaderLine :: nat where "maxChunkHeaderLine = 4096"
definition maxTrailerLines :: nat where "maxTrailerLines = 16"
definition maxChunkSize :: int where "maxChunkSize = 2 ^ 30"
definition chunkPayloadAlgorithm :: string where "chunkPayloadAlgorithm = ''AWS4-HMAC-SHA256-PAYLOAD''"
definition chunkTrailerAlgorithm :: string where "chunkTrailerAlgorithm = ''AWS4-HMAC-SHA256-TRAILER''"

definition emptyStringSHA256 :: string where
  "emptyStringSHA256 = hex_EncodeToString (sha256 [])"

record ChunkedReader =
  kSrc :: source
  kMode :: PayloadMode
  kSigningKey :: bytes
  kScope :: string
  kTimestamp :: string
  kPrevSig :: string
  kRemaining :: int
  kChunkSig :: string
  kChunkData :: bytes
  kChecksums :: "expectation list"
  kDecoded :: int
  kExpectedDecoded :: int
  kTrailer :: headers
  kDone :: bool
  kErr :: "err option"

definition NewChunkedReader :: "source \<Rightarrow> authResult \<Rightarrow> int \<Rightarrow> ChunkedReader result" where
  "NewChunkedReader body res decodedLength =
     (if \<not> Streaming (arPayloadMode res) then Inl (Errorf ''auth: payload mode is not aws-chunked'' [])
      else if decodedLength < 0 then Inl (Errorf ''%w: x-amz-decoded-content-length is required'' [Sentinel ErrMalformedChunkedBody])
      else Inr \<lparr>kSrc = body, kMode = arPayloadMode res, kSigningKey = arSigningKey res, kScope = Scope (auCredential (arAuthorization res)),
             kTimestamp = format_amz (arTime res), kPrevSig = arSeed res, kRemaining = 0, kChunkSig = '''', kChunkData = [], kChecksums = [],
             kDecoded = 0, kExpectedDecoded = decodedLength, kTrailer = [], kDone = False, kErr = None\<rparr>)"

definition SetChecksums :: "expectation list \<Rightarrow> ChunkedReader \<Rightarrow> ChunkedReader" where
  "SetChecksums expectations c = c\<lparr>kChecksums := expectations\<rparr>"

definition k_fail :: "err \<Rightarrow> ChunkedReader \<Rightarrow> err \<times> ChunkedReader" where
  "k_fail e c = (case kErr c of None \<Rightarrow> (e, c\<lparr>kErr := Some e\<rparr>) | Some e' \<Rightarrow> (e', c))"

text \<open>\<open>ReadString('\n')\<close>: the bytes up to and with the next line feed, or all that are left and the error the source ends with.\<close>

definition read_string :: "source \<Rightarrow> string \<times> err option \<times> source" where
  "read_string s =
     (case cut (CHR 0x0A) (string_of (src_data s)) of
        Some (line, rest) \<Rightarrow> (line @ [CHR 0x0A], None, s\<lparr>src_data := bytes_of rest\<rparr>)
      | None \<Rightarrow> (string_of (src_data s), Some (src_end s), s\<lparr>src_data := []\<rparr>))"

definition trim_suffix :: "char \<Rightarrow> string \<Rightarrow> string" where
  "trim_suffix c s = (if s \<noteq> [] \<and> List.last s = c then butlast s else s)"

definition readLine :: "source \<Rightarrow> string result \<times> source" where
  "readLine s =
     (case read_string s of
        (line, e, s') \<Rightarrow>
          (case e of
             Some x \<Rightarrow>
               if \<not> errors_is EOF x \<or> line = '''' then (Inl (Errorf ''%w: %w'' [Sentinel ErrMalformedChunkedBody, x]), s')
               else if length line > maxChunkHeaderLine
               then (Inl (Errorf ''%w: line of %d bytes exceeds the limit'' [Sentinel ErrMalformedChunkedBody]), s')
               else (Inr (trim_suffix (CHR 0x0D) (trim_suffix (CHR 0x0A) line)), s')
           | None \<Rightarrow>
               if length line > maxChunkHeaderLine
               then (Inl (Errorf ''%w: line of %d bytes exceeds the limit'' [Sentinel ErrMalformedChunkedBody]), s')
               else (Inr (trim_suffix (CHR 0x0D) (trim_suffix (CHR 0x0A) line)), s')))"

definition splitChunkHeader :: "string \<Rightarrow> bool \<Rightarrow> (string \<times> string) result" where
  "splitChunkHeader line wantSignature =
     (case cut (CHR '';'') line of
        None \<Rightarrow>
          if wantSignature then Inl (Errorf ''%w: chunk header %q carries no signature'' [Sentinel ErrMalformedChunkedBody])
          else Inr (line, '''')
      | Some (sizeText, rest) \<Rightarrow>
          (case CutPrefix rest ''chunk-signature='' of
             None \<Rightarrow> Inl (Errorf ''%w: unexpected chunk extension %q'' [Sentinel ErrMalformedChunkedBody])
           | Some value \<Rightarrow>
               if \<not> wantSignature
               then Inl (Errorf ''%w: chunk carries a signature but the payload mode is unsigned'' [Sentinel ErrMalformedChunkedBody])
               else Inr (sizeText, value)))"

text \<open>\<open>strconv.ParseInt(s, 16, 64)\<close>; \<open>None\<close> is an error.\<close>

definition hex_digit :: "char \<Rightarrow> nat option" where
  "hex_digit c = index_of (lower c) hex_alphabet"

definition hex_value :: "string \<Rightarrow> nat" where
  "hex_value s = foldl (\<lambda>a c. a * 16 + (case hex_digit c of Some d \<Rightarrow> d | None \<Rightarrow> 0)) 0 s"

definition ParseInt16 :: "string \<Rightarrow> int option" where
  "ParseInt16 s =
     (let (neg, ds) = (case s of c # r \<Rightarrow> if c = CHR ''-'' then (True, r) else if c = CHR ''+'' then (False, r) else (False, s) | [] \<Rightarrow> (False, s));
          v = (if neg then - int (hex_value ds) else int (hex_value ds)) in
      if ds = [] \<or> \<not> list_all (\<lambda>c. hex_digit c \<noteq> None) ds \<or> \<not> in64 v then None else Some v)"

definition chunk_signature :: "ChunkedReader \<Rightarrow> string \<Rightarrow> bytes \<Rightarrow> string" where
  "chunk_signature c prev d =
     Sign (kSigningKey c) (join (CHR 0x0A)
       [chunkPayloadAlgorithm, kTimestamp c, kScope c, prev, emptyStringSHA256, hex_EncodeToString (sha256 d)])"

definition verifyChunkSignature :: "ChunkedReader \<Rightarrow> err option \<times> ChunkedReader" where
  "verifyChunkSignature c =
     (if \<not> Signed (kMode c) then (None, c)
      else if \<not> equalSignature (chunk_signature c (kPrevSig c) (kChunkData c)) (kChunkSig c) then (Some (Sentinel ErrChunkSignature), c)
      else (None, c\<lparr>kPrevSig := kChunkSig c\<rparr>))"

text \<open>The loop over the lines of the trailer, for at most \<open>n\<close> more lines: the headers, the text that is signed and the signature.\<close>

fun trailer_lines :: "nat \<Rightarrow> source \<Rightarrow> headers \<Rightarrow> string \<Rightarrow> string \<Rightarrow> (headers \<times> string \<times> string) result \<times> source" where
  "trailer_lines 0 s tr can sig = (Inr (tr, can, sig), s)"
| "trailer_lines (Suc n) s tr can sig =
     (case readLine s of
        (Inl e, s') \<Rightarrow> if errors_is EOF e then (Inr (tr, can, sig), s') else (Inl e, s')
      | (Inr line, s') \<Rightarrow>
          if line = '''' then (Inr (tr, can, sig), s')
          else case cut (CHR '':'') line of
            None \<Rightarrow> (Inl (Errorf ''%w: trailer line %q is not name:value'' [Sentinel ErrMalformedChunkedBody]), s')
          | Some (n', v) \<Rightarrow>
              let name = ToLower (TrimSpace n'); value = TrimSpace v in
              if name = ''x-amz-trailer-signature'' then trailer_lines n s' tr can value
              else trailer_lines n s' (header_set name value tr) (can @ name @ '':'' @ value @ [CHR 0x0A]) sig)"

definition trailer_signature :: "ChunkedReader \<Rightarrow> string \<Rightarrow> string \<Rightarrow> string" where
  "trailer_signature c prev can =
     Sign (kSigningKey c) (join (CHR 0x0A)
       [chunkTrailerAlgorithm, kTimestamp c, kScope c, prev, hex_EncodeToString (sha256 (bytes_of can))])"

definition readTrailer :: "ChunkedReader \<Rightarrow> err option \<times> ChunkedReader" where
  "readTrailer c =
     (case trailer_lines maxTrailerLines (kSrc c) (kTrailer c) '''' '''' of
        (Inl e, s) \<Rightarrow> (Some e, c\<lparr>kSrc := s\<rparr>)
      | (Inr (tr, can, sig), s) \<Rightarrow>
          let c = c\<lparr>kSrc := s, kTrailer := tr\<rparr> in
          if kMode c \<noteq> PayloadStreamingSignedTrailer then (None, c)
          else if \<not> equalSignature (trailer_signature c (kPrevSig c) can) sig
          then (Some (Errorf ''%w: trailer signature'' [Sentinel ErrChunkSignature]), c)
          else (None, c))"


text \<open>\<open>find\<close> gives the first running checksum of a name, here by its position.\<close>

fun find_running :: "string \<Rightarrow> expectation list \<Rightarrow> nat \<Rightarrow> (nat \<times> expectation) option" where
  "find_running name [] i = None"
| "find_running name (e # es) i = (if fold_name (exName e) = fold_name name then Some (i, e) else find_running name es (Suc i))"

fun settle_arrived :: "expectation list \<Rightarrow> expectation list \<Rightarrow> nat list \<Rightarrow> nat list result" where
  "settle_arrived cs [] settled = Inr settled"
| "settle_arrived cs (arrived # as) settled =
     (case find_running (exName arrived) cs 0 of
        None \<Rightarrow> Inl (Errorf ''%w: %s arrived in the trailer but was not announced in X-Amz-Trailer'' [Sentinel ErrChecksumMismatch])
      | Some (i, running) \<Rightarrow>
          echeck (ex_verify \<lparr>exName = exName arrived, exAlg = exAlg running, exData = exData running, exExpected = exExpected arrived\<rparr>)
            (settle_arrived cs as (i # settled)))"

fun settle_rest :: "nat list \<Rightarrow> expectation list \<Rightarrow> nat \<Rightarrow> err option" where
  "settle_rest settled [] i = None"
| "settle_rest settled (e # es) i =
     (if i \<in> set settled then settle_rest settled es (Suc i)
      else if exExpected e \<noteq> None then (case ex_verify e of Some x \<Rightarrow> Some x | None \<Rightarrow> settle_rest settled es (Suc i))
      else Some (Errorf ''%w: %s was announced in X-Amz-Trailer but never arrived'' [Sentinel ErrChecksumMismatch]))"

definition settle_all :: "headers \<Rightarrow> expectation list \<Rightarrow> int \<Rightarrow> int \<Rightarrow> err option" where
  "settle_all tr checksums decoded expectedDecoded =
     (if decoded \<noteq> expectedDecoded
      then Some (Errorf ''%w: body decoded to %d bytes, x-amz-decoded-content-length said %d'' [Sentinel ErrMalformedChunkedBody])
      else case checksumsFrom tr of
        Inl e \<Rightarrow> Some e
      | Inr as \<Rightarrow>
          (case settle_arrived checksums as [] of Inl e \<Rightarrow> Some e | Inr settled \<Rightarrow> settle_rest settled checksums 0))"

definition settle :: "ChunkedReader \<Rightarrow> err option" where
  "settle c = settle_all (kTrailer c) (kChecksums c) (kDecoded c) (kExpectedDecoded c)"

definition k_failed :: "err \<Rightarrow> ChunkedReader \<Rightarrow> err option \<times> ChunkedReader" where
  "k_failed e c = (case k_fail e c of (e', c') \<Rightarrow> (Some e', c'))"

definition nextChunk :: "ChunkedReader \<Rightarrow> err option \<times> ChunkedReader" where
  "nextChunk c =
     (case readLine (kSrc c) of
        (Inl e, s) \<Rightarrow> k_failed e (c\<lparr>kSrc := s\<rparr>)
      | (Inr line, s) \<Rightarrow>
          let c = c\<lparr>kSrc := s\<rparr> in
          (case splitChunkHeader line (Signed (kMode c)) of
             Inl e \<Rightarrow> k_failed e c
           | Inr (sizeText, sig) \<Rightarrow>
               (case ParseInt16 sizeText of
                  None \<Rightarrow> k_failed (Errorf ''%w: chunk size %q'' [Sentinel ErrMalformedChunkedBody]) c
                | Some n \<Rightarrow>
                    if n < 0 \<or> n > maxChunkSize then k_failed (Errorf ''%w: chunk size %q'' [Sentinel ErrMalformedChunkedBody]) c
                    else let c = c\<lparr>kChunkSig := sig, kChunkData := []\<rparr> in
                      if n = 0 then
                        (case verifyChunkSignature c of
                           (Some e, c) \<Rightarrow> k_failed e c
                         | (None, c) \<Rightarrow>
                             (case readTrailer c of
                                (Some e, c) \<Rightarrow> k_failed e c
                              | (None, c) \<Rightarrow>
                                  (case settle c of
                                     Some e \<Rightarrow> k_failed e c
                                   | None \<Rightarrow> (None, c\<lparr>kDone := True\<rparr>))))
                      else (None, c\<lparr>kRemaining := n\<rparr>))))"

definition expectCRLF :: "source \<Rightarrow> err option \<times> source" where
  "expectCRLF s =
     (case read_full 2 s of
        (b, Some e, s') \<Rightarrow> (Some (Errorf ''%w: expected CRLF after chunk data: %w'' [Sentinel ErrMalformedChunkedBody, e]), s')
      | (b, None, s') \<Rightarrow>
          (if b \<noteq> [0x0D, 0x0A] then Some (Errorf ''%w: expected CRLF after chunk data, got %q'' [Sentinel ErrMalformedChunkedBody]) else None, s'))"

definition finishChunk :: "ChunkedReader \<Rightarrow> err option \<times> ChunkedReader" where
  "finishChunk c =
     (case expectCRLF (kSrc c) of
        (Some e, s) \<Rightarrow> k_failed e (c\<lparr>kSrc := s\<rparr>)
      | (None, s) \<Rightarrow>
          (case verifyChunkSignature (c\<lparr>kSrc := s\<rparr>) of
             (Some e, c) \<Rightarrow> k_failed e c
           | (None, c) \<Rightarrow> (None, c)))"

text \<open>\<open>read_chunk\<close> is the part of \<open>Read\<close> after the header of a chunk has been read.\<close>

definition read_chunk :: "nat \<Rightarrow> ChunkedReader \<Rightarrow> bytes \<times> err option \<times> ChunkedReader" where
  "read_chunk k c =
     (case read_full (nat (min (int k) (kRemaining c))) (kSrc c) of
        (b, Some _, s) \<Rightarrow>
          (case k_fail (Errorf ''%w: chunk ended after %d of %d bytes'' [Sentinel ErrMalformedChunkedBody]) (c\<lparr>kSrc := s\<rparr>) of
             (e, c) \<Rightarrow> ([], Some e, c))
      | (b, None, s) \<Rightarrow>
          let c = c\<lparr>kSrc := s, kChunkData := (if Signed (kMode c) then kChunkData c @ b else kChunkData c),
                kChecksums := map (ex_write b) (kChecksums c), kRemaining := kRemaining c - int (length b), kDecoded := kDecoded c + int (length b)\<rparr> in
          if kRemaining c = 0 then case finishChunk c of (e, c) \<Rightarrow> (b, e, c) else (b, None, c))"

definition ReadK :: "nat \<Rightarrow> ChunkedReader \<Rightarrow> bytes \<times> err option \<times> ChunkedReader" where
  "ReadK k c =
     (case kErr c of
        Some e \<Rightarrow> ([], Some e, c)
      | None \<Rightarrow>
          if kDone c then ([], Some (Sentinel EOF), c)
          else if kRemaining c = 0 then
            (case nextChunk c of
               (Some e, c) \<Rightarrow> ([], Some e, c)
             | (None, c) \<Rightarrow> if kDone c then ([], Some (Sentinel EOF), c) else read_chunk k c)
          else read_chunk k c)"

section \<open>The body of a request\<close>

definition DecodedLengthHeader :: string where "DecodedLengthHeader = ''X-Amz-Decoded-Content-Length''"

definition decodedLength :: "HTTPRequest \<Rightarrow> int result" where
  "decodedLength r =
     (let rw = header_get (rHeader r) DecodedLengthHeader in
      if rw = '''' then Inl (Errorf ''%w: %s is required for an aws-chunked body'' [Sentinel ErrMalformedChunkedBody])
      else case Atoi rw of
        Inl _ \<Rightarrow> Inl (Errorf ''%w: %s is %q'' [Sentinel ErrMalformedChunkedBody])
      | Inr n \<Rightarrow> if n < 0 then Inl (Errorf ''%w: %s is %q'' [Sentinel ErrMalformedChunkedBody]) else Inr n)"

datatype body_src = Plain source | Chunked ChunkedReader

record BodyReader =
  bSrc :: body_src
  bChecksums :: "expectation list"
  bVerified :: bool
  bErr :: "err option"

definition NewBodyReader :: "HTTPRequest \<Rightarrow> source \<Rightarrow> authResult \<Rightarrow> (BodyReader \<times> int) result" where
  "NewBodyReader r body res =
     ebind (checksumsFrom (rHeader r)) (\<lambda>checksums.
     if Streaming (arPayloadMode res) then
       ebind (announcedTrailerChecksums (rHeader r)) (\<lambda>announced.
       let checksums = checksums @ announced in
       ebind (decodedLength r) (\<lambda>n.
       ebind (NewChunkedReader body res n) (\<lambda>chunked.
         Inr (\<lparr>bSrc = Chunked (SetChecksums checksums chunked), bChecksums = checksums, bVerified = False, bErr = None\<rparr>, n))))
     else if rContentLength r < 0 then Inl (Sentinel ErrMissingContentLength)
     else ebind (if arPayloadMode res = PayloadHashed then
             emap_err (\<lambda>_. Errorf ''%w: x-amz-content-sha256 is not hex'' [Sentinel ErrMalformedAuth])
               (ebind (hex_DecodeString (arPayloadHash res)) (\<lambda>expected.
                 Inr (checksums @ [\<lparr>exName = ''x-amz-content-sha256'', exAlg = ''SHA256'', exData = [], exExpected = Some expected\<rparr>])))
           else Inr checksums) (\<lambda>checksums.
       Inr (\<lparr>bSrc = Plain body, bChecksums = checksums, bVerified = False, bErr = None\<rparr>, rContentLength r)))"

fun first_failure :: "expectation list \<Rightarrow> err option" where
  "first_failure [] = None"
| "first_failure (e # es) = (case ex_verify e of Some x \<Rightarrow> Some x | None \<Rightarrow> first_failure es)"

definition body_verify :: "BodyReader \<Rightarrow> err option" where
  "body_verify b = (case bSrc b of Chunked _ \<Rightarrow> None | Plain _ \<Rightarrow> first_failure (bChecksums b))"

text \<open>A network reader may deliver fewer bytes than the buffer takes; here it fills it.\<close>

definition read_plain :: "nat \<Rightarrow> source \<Rightarrow> bytes \<times> err option \<times> source" where
  "read_plain k s = (take k (src_data s), if src_data s = [] then Some (src_end s) else None, s\<lparr>src_data := drop k (src_data s)\<rparr>)"

definition body_read :: "nat \<Rightarrow> BodyReader \<Rightarrow> bytes \<times> err option \<times> BodyReader" where
  "body_read k b =
     (case bSrc b of
        Plain s \<Rightarrow>
          (case read_plain k s of (p, e, s) \<Rightarrow> (p, e, b\<lparr>bSrc := Plain s, bChecksums := map (ex_write p) (bChecksums b)\<rparr>))
      | Chunked c \<Rightarrow> (case ReadK k c of (p, e, c) \<Rightarrow> (p, e, b\<lparr>bSrc := Chunked c\<rparr>)))"

definition ReadB :: "nat \<Rightarrow> BodyReader \<Rightarrow> bytes \<times> err option \<times> BodyReader" where
  "ReadB k b =
     (case bErr b of
        Some e \<Rightarrow> ([], Some e, b)
      | None \<Rightarrow>
          (case body_read k b of
             (p, e, b) \<Rightarrow>
               if e = Some (Sentinel EOF) \<and> \<not> bVerified b then
                 let b = b\<lparr>bVerified := True\<rparr> in
                 (case body_verify b of Some x \<Rightarrow> (p, Some x, b\<lparr>bErr := Some x\<rparr>) | None \<Rightarrow> (p, e, b))
               else if e \<noteq> None \<and> e \<noteq> Some (Sentinel EOF) then (p, e, b\<lparr>bErr := e\<rparr>)
               else (p, e, b)))"

definition Checksums :: "BodyReader \<Rightarrow> string list" where
  "Checksums b = map exName (bChecksums b)"

definition body_Trailer :: "BodyReader \<Rightarrow> headers" where
  "body_Trailer b = (case bSrc b of Plain _ \<Rightarrow> [] | Chunked c \<Rightarrow> kTrailer c)"


section \<open>What a body is\<close>

text \<open>
  A framed body, independent of how it is read: chunks, each a header line with the size and, if chunks are signed, the signature \<open>sg prev x\<close> of its data \<open>x\<close> under the
  signature \<open>prev\<close> before it, then the data and a line end; and last a header line with size zero, after which the source is \<open>s'\<close> and the
  last signature is \<open>l\<close>.
\<close>

inductive framed :: "bool \<Rightarrow> (string \<Rightarrow> bytes \<Rightarrow> string) \<Rightarrow> string \<Rightarrow> source \<Rightarrow> bytes list \<Rightarrow> string \<Rightarrow> source \<Rightarrow> bool" for sgd sg where
  final: "readLine s = (Inr line, s') \<Longrightarrow> splitChunkHeader line sgd = Inr (st, sig) \<Longrightarrow> ParseInt16 st = Some 0 \<Longrightarrow>
    (sgd \<Longrightarrow> sig = sg prev []) \<Longrightarrow> framed sgd sg prev s [] (if sgd then sig else prev) s'"
| chunk: "readLine s = (Inr line, s1) \<Longrightarrow> splitChunkHeader line sgd = Inr (st, sig) \<Longrightarrow> ParseInt16 st = Some (int (length x)) \<Longrightarrow>
    x \<noteq> [] \<Longrightarrow> int (length x) \<le> maxChunkSize \<Longrightarrow> src_data s1 = x @ [0x0D, 0x0A] @ w \<Longrightarrow> (sgd \<Longrightarrow> sig = sg prev x) \<Longrightarrow>
    framed sgd sg (if sgd then sig else prev) (s1\<lparr>src_data := w\<rparr>) xs l s' \<Longrightarrow> framed sgd sg prev s (x # xs) l s'"

inductive_simps framed_Nil: "framed sgd sg prev s [] l s'"
inductive_simps framed_Cons: "framed sgd sg prev s (x # xs) l s'"

lemma chunk_signature_simps [simp]:
  "chunk_signature (c\<lparr>kSrc := s\<rparr>) = chunk_signature c" "chunk_signature (c\<lparr>kPrevSig := p\<rparr>) = chunk_signature c"
  "chunk_signature (c\<lparr>kRemaining := n\<rparr>) = chunk_signature c" "chunk_signature (c\<lparr>kChunkSig := p\<rparr>) = chunk_signature c"
  "chunk_signature (c\<lparr>kChunkData := d\<rparr>) = chunk_signature c" "chunk_signature (c\<lparr>kChecksums := es\<rparr>) = chunk_signature c"
  "chunk_signature (c\<lparr>kDecoded := n\<rparr>) = chunk_signature c" "chunk_signature (c\<lparr>kTrailer := h\<rparr>) = chunk_signature c"
  "chunk_signature (c\<lparr>kDone := b\<rparr>) = chunk_signature c"
  by (simp_all add: chunk_signature_def fun_eq_iff)

lemma trailer_signature_simps [simp]:
  "trailer_signature (c\<lparr>kSrc := s\<rparr>) = trailer_signature c" "trailer_signature (c\<lparr>kPrevSig := p\<rparr>) = trailer_signature c"
  "trailer_signature (c\<lparr>kRemaining := n\<rparr>) = trailer_signature c" "trailer_signature (c\<lparr>kChunkSig := p\<rparr>) = trailer_signature c"
  "trailer_signature (c\<lparr>kChunkData := d\<rparr>) = trailer_signature c" "trailer_signature (c\<lparr>kChecksums := es\<rparr>) = trailer_signature c"
  "trailer_signature (c\<lparr>kDecoded := n\<rparr>) = trailer_signature c" "trailer_signature (c\<lparr>kTrailer := h\<rparr>) = trailer_signature c"
  by (simp_all add: trailer_signature_def fun_eq_iff)

text \<open>The end of a body after \<open>n\<close> bytes, with the running checksums \<open>es\<close>: the trailer and its signature, the length and all checksums.\<close>

definition ended :: "ChunkedReader \<Rightarrow> string \<Rightarrow> source \<Rightarrow> expectation list \<Rightarrow> int \<Rightarrow> bool" where
  "ended c l s es n \<longleftrightarrow>
     (\<exists>tr can sig s'. trailer_lines maxTrailerLines s (kTrailer c) '''' '''' = (Inr (tr, can, sig), s') \<and>
        (kMode c = PayloadStreamingSignedTrailer \<longrightarrow> sig = trailer_signature c l can) \<and>
        settle_all tr es n (kExpectedDecoded c) = None)"

text \<open>What is still to come at a reader between two chunks, and within one: exactly the bytes \<open>d\<close> and a clean end.\<close>

abbreviation k_framed :: "ChunkedReader \<Rightarrow> string \<Rightarrow> source \<Rightarrow> bytes list \<Rightarrow> string \<Rightarrow> source \<Rightarrow> bool" where
  "k_framed c \<equiv> framed (Signed (kMode c)) (chunk_signature c)"

definition between :: "ChunkedReader \<Rightarrow> bytes \<Rightarrow> bool" where
  "between c d \<longleftrightarrow> (\<exists>xs l s. k_framed c (kPrevSig c) (kSrc c) xs l s \<and> d = concat xs \<and>
     ended c l s (map (ex_write d) (kChecksums c)) (kDecoded c + int (length d)))"

definition within :: "ChunkedReader \<Rightarrow> bytes \<Rightarrow> bool" where
  "within c d \<longleftrightarrow> (\<exists>x w xs l s. src_data (kSrc c) = x @ [0x0D, 0x0A] @ w \<and> int (length x) = kRemaining c \<and>
     (Signed (kMode c) \<longrightarrow> kChunkSig c = chunk_signature c (kPrevSig c) (kChunkData c @ x)) \<and>
     k_framed c (if Signed (kMode c) then kChunkSig c else kPrevSig c) ((kSrc c)\<lparr>src_data := w\<rparr>) xs l s \<and> d = x @ concat xs \<and>
     ended c l s (map (ex_write d) (kChecksums c)) (kDecoded c + int (length d)))"

definition to_come :: "ChunkedReader \<Rightarrow> bytes \<Rightarrow> bool" where
  "to_come c d \<longleftrightarrow> (if kRemaining c = 0 then between c d else within c d)"

lemma ex_write_Nil [simp]: "ex_write [] e = e"
  by (simp add: ex_write_def)

lemma map_ex_write_Nil [simp]: "map (ex_write []) es = es"
  by (simp add: map_idI)

lemma ex_write_append [simp]: "ex_write q (ex_write p e) = ex_write (p @ q) e"
  by (simp add: ex_write_def)

lemma ex_write_comp [simp]: "ex_write q \<circ> ex_write p = ex_write (p @ q)"
  by (simp add: fun_eq_iff)

lemma k_failed_None [simp]: "k_failed e c \<noteq> (None, c')"
  by (simp add: k_failed_def k_fail_def split: option.split)

lemma verifyChunkSignature_None:
  "verifyChunkSignature c = (None, c') \<longleftrightarrow>
     (Signed (kMode c) \<longrightarrow> kChunkSig c = chunk_signature c (kPrevSig c) (kChunkData c)) \<and>
     c' = (if Signed (kMode c) then c\<lparr>kPrevSig := kChunkSig c\<rparr> else c)"
  by (auto simp: verifyChunkSignature_def equalSignature_eq)

text \<open>The last chunk.\<close>

lemma readTrailer_None:
  "readTrailer c = (None, c') \<longleftrightarrow>
     (\<exists>tr can sig s'. trailer_lines maxTrailerLines (kSrc c) (kTrailer c) '''' '''' = (Inr (tr, can, sig), s') \<and>
        (kMode c = PayloadStreamingSignedTrailer \<longrightarrow> sig = trailer_signature c (kPrevSig c) can) \<and> c' = c\<lparr>kSrc := s', kTrailer := tr\<rparr>)"
  by (auto simp: readTrailer_def Let_def equalSignature_eq split: prod.split sum.split)

lemma last_chunk_done:
  "(\<exists>c'. (case verifyChunkSignature k of
      (Some e, c) \<Rightarrow> k_failed e c
    | (None, c) \<Rightarrow>
        (case readTrailer c of
           (Some e, c) \<Rightarrow> k_failed e c
         | (None, c) \<Rightarrow>
             (case settle c of
                Some e \<Rightarrow> k_failed e c
              | None \<Rightarrow> (None, c\<lparr>kDone := True\<rparr>)))) = (None, c') \<and> kDone c') \<longleftrightarrow>
    (Signed (kMode k) \<longrightarrow> kChunkSig k = chunk_signature k (kPrevSig k) (kChunkData k)) \<and>
    ended k (if Signed (kMode k) then kChunkSig k else kPrevSig k) (kSrc k) (kChecksums k) (kDecoded k)"
  (is "(\<exists>c'. ?l = (None, c') \<and> kDone c') \<longleftrightarrow> ?r")
proof -
  have "(\<exists>c'. ?l = (None, c') \<and> kDone c') \<longleftrightarrow> (\<exists>c1 c2. verifyChunkSignature k = (None, c1) \<and> readTrailer c1 = (None, c2) \<and> settle c2 = None)"
    by (auto split: prod.splits option.splits)
  then show ?thesis by (cases "Signed (kMode k)") (auto simp: verifyChunkSignature_None readTrailer_None settle_def ended_def)
qed

lemma last_chunk_None:
  "(case verifyChunkSignature k of
      (Some e, c) \<Rightarrow> k_failed e c
    | (None, c) \<Rightarrow>
        (case readTrailer c of
           (Some e, c) \<Rightarrow> k_failed e c
         | (None, c) \<Rightarrow>
             (case settle c of
                Some e \<Rightarrow> k_failed e c
              | None \<Rightarrow> (None, c\<lparr>kDone := True\<rparr>)))) = (None, c') \<Longrightarrow> kDone c'"
  by (auto split: prod.splits option.splits)

lemma nextChunk_failing:
  assumes "\<nexists>line s st sig n. readLine (kSrc c) = (Inr line, s) \<and> splitChunkHeader line (Signed (kMode c)) = Inr (st, sig) \<and> ParseInt16 st = Some n"
  shows "nextChunk c \<noteq> (None, c')"
  using assms by (auto simp: nextChunk_def Let_def split: prod.split sum.split option.split)

text \<open>The header of a chunk: the source after it, and its size and signature.\<close>

definition chunk_header :: "bool \<Rightarrow> source \<Rightarrow> (source \<times> int \<times> string) option" where
  "chunk_header sgd s =
     (case readLine s of
        (Inr line, s') \<Rightarrow>
          (case splitChunkHeader line sgd of
             Inr (st, sig) \<Rightarrow> (case ParseInt16 st of None \<Rightarrow> None | Some n \<Rightarrow> Some (s', n, sig))
           | Inl _ \<Rightarrow> None)
      | (Inl _, _) \<Rightarrow> None)"

lemma chunk_header_Some:
  "chunk_header sgd s = Some (s', n, sig) \<longleftrightarrow>
     (\<exists>line st. readLine s = (Inr line, s') \<and> splitChunkHeader line sgd = Inr (st, sig) \<and> ParseInt16 st = Some n)"
  by (auto simp: chunk_header_def split: prod.splits sum.splits option.splits)

lemma framed_Nil_iff:
  "framed sgd sg prev s [] l s' \<longleftrightarrow>
     (\<exists>sig. chunk_header sgd s = Some (s', 0, sig) \<and> (sgd \<longrightarrow> sig = sg prev []) \<and> l = (if sgd then sig else prev))"
  unfolding framed_Nil chunk_header_Some by blast

lemma framed_Cons_iff:
  "framed sgd sg prev s (x # xs) l s' \<longleftrightarrow>
     (\<exists>s1 sig w. chunk_header sgd s = Some (s1, int (length x), sig) \<and> x \<noteq> [] \<and> int (length x) \<le> maxChunkSize \<and>
        src_data s1 = x @ 0x0D # 0x0A # w \<and> (sgd \<longrightarrow> sig = sg prev x) \<and>
        framed sgd sg (if sgd then sig else prev) (s1\<lparr>src_data := w\<rparr>) xs l s')"
  unfolding framed_Cons chunk_header_Some by blast

lemma nextChunk_header:
  assumes h: "chunk_header (Signed (kMode c)) (kSrc c) = Some (s, n, sig)" and "\<not> kDone c"
  shows "(\<exists>c'. nextChunk c = (None, c') \<and> kDone c') \<longleftrightarrow>
      n = 0 \<and> (Signed (kMode c) \<longrightarrow> sig = chunk_signature c (kPrevSig c) []) \<and>
      ended c (if Signed (kMode c) then sig else kPrevSig c) s (kChecksums c) (kDecoded c)"
    and "nextChunk c = (None, c') \<and> \<not> kDone c' \<longleftrightarrow>
      0 < n \<and> n \<le> maxChunkSize \<and> c' = c\<lparr>kSrc := s, kChunkSig := sig, kChunkData := [], kRemaining := n\<rparr>"
proof -
  obtain line st where *: "readLine (kSrc c) = (Inr line, s)" "splitChunkHeader line (Signed (kMode c)) = Inr (st, sig)" "ParseInt16 st = Some n"
    using h unfolding chunk_header_Some by blast
  let ?c = "c\<lparr>kSrc := s, kChunkSig := sig, kChunkData := []\<rparr>"
  have n: "nextChunk c = (if n < 0 \<or> n > maxChunkSize then k_failed (Errorf ''%w: chunk size %q'' [Sentinel ErrMalformedChunkedBody]) (c\<lparr>kSrc := s\<rparr>)
      else if n = 0 then (case verifyChunkSignature ?c of
                           (Some e, c) \<Rightarrow> k_failed e c
                         | (None, c) \<Rightarrow>
                             (case readTrailer c of
                                (Some e, c) \<Rightarrow> k_failed e c
                              | (None, c) \<Rightarrow>
                                  (case settle c of
                                     Some e \<Rightarrow> k_failed e c
                                   | None \<Rightarrow> (None, c\<lparr>kDone := True\<rparr>))))
      else (None, ?c\<lparr>kRemaining := n\<rparr>))"
    by (simp add: nextChunk_def * Let_def)
  have m: "0 \<le> maxChunkSize" by (simp add: maxChunkSize_def)
  show "(\<exists>c'. nextChunk c = (None, c') \<and> kDone c') \<longleftrightarrow>
      n = 0 \<and> (Signed (kMode c) \<longrightarrow> sig = chunk_signature c (kPrevSig c) []) \<and>
      ended c (if Signed (kMode c) then sig else kPrevSig c) s (kChecksums c) (kDecoded c)"
    using last_chunk_done [of ?c] m assms(2) unfolding n by (cases "n = 0") (simp_all add: ended_def)
  show "nextChunk c = (None, c') \<and> \<not> kDone c' \<longleftrightarrow>
      0 < n \<and> n \<le> maxChunkSize \<and> c' = c\<lparr>kSrc := s, kChunkSig := sig, kChunkData := [], kRemaining := n\<rparr>"
    using last_chunk_None [of ?c c'] assms(2) unfolding n by (cases "n = 0") auto
qed

lemma between_nextChunk:
  assumes "\<not> kDone c" and "kRemaining c = 0"
  shows "between c d \<longleftrightarrow> (\<exists>c'. nextChunk c = (None, c') \<and> (if kDone c' then d = [] else 0 < kRemaining c' \<and> within c' d))"
proof (cases "chunk_header (Signed (kMode c)) (kSrc c)")
  case None
  have "\<not> between c d"
  proof
    assume "between c d"
    then obtain xs l s where "k_framed c (kPrevSig c) (kSrc c) xs l s" unfolding between_def by blast
    then show False using None by (cases xs) (simp_all add: framed_Nil_iff framed_Cons_iff)
  qed
  moreover have "nextChunk c \<noteq> (None, c')" for c'
    using None by (intro nextChunk_failing) (auto simp: chunk_header_def split: prod.splits sum.splits option.splits)
  ultimately show ?thesis by blast
next
  case (Some hdr)
  obtain s n sig where h: "chunk_header (Signed (kMode c)) (kSrc c) = Some (s, n, sig)" using Some by (cases hdr) auto
  note nx = nextChunk_header [OF h assms(1)]
  let ?c = "c\<lparr>kSrc := s, kChunkSig := sig, kChunkData := [], kRemaining := n\<rparr>"
  let ?p = "if Signed (kMode c) then sig else kPrevSig c"
  have wi: "within ?c d \<longleftrightarrow> (\<exists>x w xs l s'. src_data s = x @ 0x0D # 0x0A # w \<and> int (length x) = n \<and>
      (Signed (kMode c) \<longrightarrow> sig = chunk_signature c (kPrevSig c) x) \<and> k_framed c ?p (s\<lparr>src_data := w\<rparr>) xs l s' \<and> d = x @ concat xs \<and>
      ended c l s' (map (ex_write d) (kChecksums c)) (kDecoded c + int (length d)))"
    by (simp add: within_def ended_def cong: if_cong)
  have "between c d \<longleftrightarrow>
     (n = 0 \<and> (Signed (kMode c) \<longrightarrow> sig = chunk_signature c (kPrevSig c) []) \<and> d = [] \<and> ended c ?p s (kChecksums c) (kDecoded c)) \<or>
     (0 < n \<and> n \<le> maxChunkSize \<and> within ?c d)"
  proof
    assume "between c d"
    then obtain xs l s' where f: "k_framed c (kPrevSig c) (kSrc c) xs l s'" "d = concat xs"
        "ended c l s' (map (ex_write d) (kChecksums c)) (kDecoded c + int (length d))"
      unfolding between_def by blast
    show "(n = 0 \<and> (Signed (kMode c) \<longrightarrow> sig = chunk_signature c (kPrevSig c) []) \<and> d = [] \<and> ended c ?p s (kChecksums c) (kDecoded c)) \<or>
     (0 < n \<and> n \<le> maxChunkSize \<and> within ?c d)"
    proof (cases xs)
      case Nil
      then show ?thesis using f h by (auto simp: framed_Nil_iff)
    next
      case (Cons x ys)
      obtain w where w: "n = int (length x)" "x \<noteq> []" "n \<le> maxChunkSize" "src_data s = x @ 0x0D # 0x0A # w"
          "Signed (kMode c) \<longrightarrow> sig = chunk_signature c (kPrevSig c) x" "k_framed c ?p (s\<lparr>src_data := w\<rparr>) ys l s'"
        using f(1) h unfolding Cons framed_Cons_iff by auto
      moreover have "d = x @ concat ys" using f(2) Cons by simp
      ultimately have "within ?c d" unfolding wi using f(3) by blast
      then show ?thesis using w(1-3) by simp
    qed
  next
    assume "(n = 0 \<and> (Signed (kMode c) \<longrightarrow> sig = chunk_signature c (kPrevSig c) []) \<and> d = [] \<and> ended c ?p s (kChecksums c) (kDecoded c)) \<or>
     (0 < n \<and> n \<le> maxChunkSize \<and> within ?c d)"
    then show "between c d"
    proof (elim disjE conjE)
      assume "n = 0" "Signed (kMode c) \<longrightarrow> sig = chunk_signature c (kPrevSig c) []" "d = []" "ended c ?p s (kChecksums c) (kDecoded c)"
      then show ?thesis unfolding between_def
        by (intro exI [of _ "[]"] exI [of _ ?p] exI [of _ s]) (simp add: framed_Nil_iff h)
    next
      assume n: "0 < n" "n \<le> maxChunkSize" and "within ?c d"
      then obtain x w xs l s' where w: "src_data s = x @ 0x0D # 0x0A # w" "int (length x) = n" "Signed (kMode c) \<longrightarrow> sig = chunk_signature c (kPrevSig c) x"
          "k_framed c ?p (s\<lparr>src_data := w\<rparr>) xs l s'" "d = x @ concat xs"
          "ended c l s' (map (ex_write d) (kChecksums c)) (kDecoded c + int (length d))"
        unfolding wi by blast
      then have "k_framed c (kPrevSig c) (kSrc c) (x # xs) l s'" unfolding framed_Cons_iff using h n by auto
      then show ?thesis unfolding between_def using w(5,6) by (intro exI [of _ "x # xs"] exI [of _ l] exI [of _ s']) simp
    qed
  qed
  also have "\<dots> \<longleftrightarrow> (d = [] \<and> (\<exists>c'. nextChunk c = (None, c') \<and> kDone c')) \<or>
      (\<exists>c'. (nextChunk c = (None, c') \<and> \<not> kDone c') \<and> 0 < kRemaining c' \<and> within c' d)"
    unfolding nx by auto
  also have "\<dots> \<longleftrightarrow> (\<exists>c'. nextChunk c = (None, c') \<and> (if kDone c' then d = [] else 0 < kRemaining c' \<and> within c' d))"
    by (simp only: if_bool_eq_disj) blast
  finally show ?thesis .
qed


lemma finishChunk_None:
  "finishChunk c = (None, c') \<longleftrightarrow>
     (\<exists>w. src_data (kSrc c) = 0x0D # 0x0A # w \<and> (Signed (kMode c) \<longrightarrow> kChunkSig c = chunk_signature c (kPrevSig c) (kChunkData c)) \<and>
        c' = (if Signed (kMode c) then c\<lparr>kSrc := (kSrc c)\<lparr>src_data := w\<rparr>, kPrevSig := kChunkSig c\<rparr> else c\<lparr>kSrc := (kSrc c)\<lparr>src_data := w\<rparr>\<rparr>))"
proof -
  have e: "expectCRLF s = (None, s') \<longleftrightarrow> (\<exists>w. src_data s = 0x0D # 0x0A # w \<and> s' = s\<lparr>src_data := w\<rparr>)" for s s'
  proof (cases "2 \<le> length (src_data s)")
    case True
    then obtain a b w where "src_data s = a # b # w" by (cases "src_data s"; cases "tl (src_data s)") auto
    then show ?thesis by (auto simp: expectCRLF_def read_full_def)
  next
    case False
    then show ?thesis by (auto simp: expectCRLF_def read_full_def)
  qed
  have "finishChunk c = (None, c') \<longleftrightarrow> (\<exists>s. expectCRLF (kSrc c) = (None, s) \<and> verifyChunkSignature (c\<lparr>kSrc := s\<rparr>) = (None, c'))"
    by (auto simp: finishChunk_def split: prod.splits option.splits)
  then show ?thesis by (auto simp: e verifyChunkSignature_None)
qed

definition after_read :: "bytes \<Rightarrow> source \<Rightarrow> ChunkedReader \<Rightarrow> ChunkedReader" where
  "after_read b s c = c\<lparr>kSrc := s, kChunkData := (if Signed (kMode c) then kChunkData c @ b else kChunkData c),
     kChecksums := map (ex_write b) (kChecksums c), kRemaining := kRemaining c - int (length b), kDecoded := kDecoded c + int (length b)\<rparr>"

lemma read_chunk_None:
  assumes "0 < kRemaining c" and "0 < k"
  shows "read_chunk k c = (b, None, c') \<longleftrightarrow>
     (\<exists>rest. length b = min k (nat (kRemaining c)) \<and> src_data (kSrc c) = b @ rest \<and>
        (let c1 = after_read b ((kSrc c)\<lparr>src_data := rest\<rparr>) c in
         if kRemaining c1 = 0 then finishChunk c1 = (None, c') else c' = c1))"
proof -
  let ?n = "nat (min (int k) (kRemaining c))"
  have n: "?n = min k (nat (kRemaining c))" by simp
  show ?thesis
  proof (cases "?n \<le> length (src_data (kSrc c))")
    case True
    define b0 rest0 where "b0 = take ?n (src_data (kSrc c))" and "rest0 = drop ?n (src_data (kSrc c))"
    define c1 where "c1 = after_read b0 ((kSrc c)\<lparr>src_data := rest0\<rparr>) c"
    have rf: "read_full ?n (kSrc c) = (b0, None, (kSrc c)\<lparr>src_data := rest0\<rparr>)"
      using True by (simp add: read_full_def b0_def rest0_def)
    have rc: "read_chunk k c = (if kRemaining c1 = 0 then case finishChunk c1 of (e, c) \<Rightarrow> (b0, e, c) else (b0, None, c1))"
      unfolding read_chunk_def rf c1_def after_read_def Let_def prod.case option.case by (rule refl)
    have eq: "(\<exists>rest. length b = ?n \<and> src_data (kSrc c) = b @ rest \<and> P b rest) \<longleftrightarrow> b = b0 \<and> P b0 rest0" for P
    proof -
      have d: "src_data (kSrc c) = b0 @ rest0" "length b0 = ?n" using True by (simp_all only: b0_def rest0_def append_take_drop_id length_take min.absorb2)
      then have "length b = ?n \<and> src_data (kSrc c) = b @ rest \<longleftrightarrow> b = b0 \<and> rest = rest0" for rest by (metis append_eq_append_conv)
      then show ?thesis by metis
    qed
    have "(\<exists>rest. length b = ?n \<and> src_data (kSrc c) = b @ rest \<and>
        (if kRemaining (after_read b ((kSrc c)\<lparr>src_data := rest\<rparr>) c) = 0 then finishChunk (after_read b ((kSrc c)\<lparr>src_data := rest\<rparr>) c) = (None, c')
         else c' = after_read b ((kSrc c)\<lparr>src_data := rest\<rparr>) c)) \<longleftrightarrow>
        b = b0 \<and> (if kRemaining c1 = 0 then finishChunk c1 = (None, c') else c' = c1)"
      unfolding c1_def by (rule eq)
    then show ?thesis
      unfolding n [symmetric] Let_def rc by (cases "finishChunk c1"; cases "kRemaining c1 = 0") auto
  next
    case False
    then obtain e where rf: "read_full ?n (kSrc c) = (src_data (kSrc c), Some e, (kSrc c)\<lparr>src_data := []\<rparr>)"
      unfolding read_full_def by simp
    have "\<nexists>b'. read_chunk k c = (b', None, c')"
      unfolding read_chunk_def rf prod.case option.case by (simp split: prod.split)
    moreover have "\<not> (length b = ?n \<and> src_data (kSrc c) = b @ rest)" for rest using False by auto
    ultimately show ?thesis unfolding n [symmetric] by blast
  qed
qed


lemma ended_simps [simp]: "ended (c\<lparr>kSrc := s\<rparr>) = ended c" "ended (c\<lparr>kPrevSig := p\<rparr>) = ended c" "ended (after_read b s c) = ended c"
  by (simp_all add: ended_def after_read_def fun_eq_iff)

lemma after_read_simps [simp]:
  "kSrc (after_read b s c) = s" "kMode (after_read b s c) = kMode c" "kPrevSig (after_read b s c) = kPrevSig c" "kChunkSig (after_read b s c) = kChunkSig c"
  "kRemaining (after_read b s c) = kRemaining c - int (length b)" "kDecoded (after_read b s c) = kDecoded c + int (length b)"
  "kChecksums (after_read b s c) = map (ex_write b) (kChecksums c)" "kDone (after_read b s c) = kDone c" "kErr (after_read b s c) = kErr c"
  "kTrailer (after_read b s c) = kTrailer c" "chunk_signature (after_read b s c) = chunk_signature c"
  "Signed (kMode c) \<Longrightarrow> kChunkData (after_read b s c) = kChunkData c @ b"
  by (simp_all add: after_read_def)

text \<open>One read within a chunk.\<close>

lemma within_after_read:
  assumes "src_data (kSrc c) = b @ rest" and "int (length b) < kRemaining c"
  shows "within (after_read b ((kSrc c)\<lparr>src_data := rest\<rparr>) c) d1 \<longleftrightarrow> within c (b @ d1)"
proof -
  let ?sg = "Signed (kMode c)" and ?p = "if Signed (kMode c) then kChunkSig c else kPrevSig c"
  have "within (after_read b ((kSrc c)\<lparr>src_data := rest\<rparr>) c) d1 \<longleftrightarrow>
    (\<exists>y w xs l s. rest = y @ [0x0D, 0x0A] @ w \<and> int (length y) = kRemaining c - int (length b) \<and>
     (?sg \<longrightarrow> kChunkSig c = chunk_signature c (kPrevSig c) (kChunkData c @ b @ y)) \<and>
     k_framed c ?p ((kSrc c)\<lparr>src_data := w\<rparr>) xs l s \<and> d1 = y @ concat xs \<and>
     ended c l s (map (ex_write (b @ d1)) (kChecksums c)) (kDecoded c + int (length (b @ d1))))"
    unfolding within_def by (cases ?sg) (simp_all add: add.assoc)
  also have "\<dots> \<longleftrightarrow> (\<exists>x w xs l s. b @ rest = x @ [0x0D, 0x0A] @ w \<and> int (length x) = kRemaining c \<and>
     (?sg \<longrightarrow> kChunkSig c = chunk_signature c (kPrevSig c) (kChunkData c @ x)) \<and>
     k_framed c ?p ((kSrc c)\<lparr>src_data := w\<rparr>) xs l s \<and> b @ d1 = x @ concat xs \<and>
     ended c l s (map (ex_write (b @ d1)) (kChecksums c)) (kDecoded c + int (length (b @ d1))))" (is "?l \<longleftrightarrow> ?r")
  proof
    assume ?l
    then obtain y w xs l s where *: "rest = y @ [0x0D, 0x0A] @ w" "int (length y) = kRemaining c - int (length b)"
       "?sg \<longrightarrow> kChunkSig c = chunk_signature c (kPrevSig c) (kChunkData c @ b @ y)"
       "k_framed c ?p ((kSrc c)\<lparr>src_data := w\<rparr>) xs l s" "d1 = y @ concat xs"
       "ended c l s (map (ex_write (b @ d1)) (kChecksums c)) (kDecoded c + int (length (b @ d1)))"
      by blast
    show ?r by (rule exI [of _ "b @ y"], rule exI [of _ w], rule exI [of _ xs], rule exI [of _ l], rule exI [of _ s]) (use * in simp)
  next
    assume ?r
    then obtain x w xs l s where *: "b @ rest = x @ [0x0D, 0x0A] @ w" "int (length x) = kRemaining c"
       "?sg \<longrightarrow> kChunkSig c = chunk_signature c (kPrevSig c) (kChunkData c @ x)"
       "k_framed c ?p ((kSrc c)\<lparr>src_data := w\<rparr>) xs l s" "b @ d1 = x @ concat xs"
       "ended c l s (map (ex_write (b @ d1)) (kChecksums c)) (kDecoded c + int (length (b @ d1)))"
      by blast
    have "length b \<le> length x" using *(2) assms(2) by simp
    then have "x = b @ drop (length b) x" using *(1) by (metis append_eq_append_conv_if append_take_drop_id)
    then obtain y where y: "x = b @ y" by blast
    show ?l by (rule exI [of _ y], rule exI [of _ w], rule exI [of _ xs], rule exI [of _ l], rule exI [of _ s]) (use * y in simp)
  qed
  finally show ?thesis by (simp add: within_def assms(1))
qed

lemma between_after_read:
  assumes "src_data (kSrc c) = b @ rest" and "int (length b) = kRemaining c"
  shows "(\<exists>c'. finishChunk (after_read b ((kSrc c)\<lparr>src_data := rest\<rparr>) c) = (None, c') \<and> between c' d1) \<longleftrightarrow> within c (b @ d1)"
proof -
  let ?sg = "Signed (kMode c)" and ?p = "if Signed (kMode c) then kChunkSig c else kPrevSig c"
  have "(\<exists>c'. finishChunk (after_read b ((kSrc c)\<lparr>src_data := rest\<rparr>) c) = (None, c') \<and> between c' d1) \<longleftrightarrow>
    (\<exists>w xs l s. rest = 0x0D # 0x0A # w \<and> (?sg \<longrightarrow> kChunkSig c = chunk_signature c (kPrevSig c) (kChunkData c @ b)) \<and>
     k_framed c ?p ((kSrc c)\<lparr>src_data := w\<rparr>) xs l s \<and> d1 = concat xs \<and>
     ended c l s (map (ex_write (b @ d1)) (kChecksums c)) (kDecoded c + int (length (b @ d1))))"
    unfolding finishChunk_None by (cases ?sg) (auto simp: between_def add.assoc, blast+)
  also have "\<dots> \<longleftrightarrow> within c (b @ d1)" (is "?l \<longleftrightarrow> ?r")
  proof
    assume ?l
    then obtain w xs l s where *: "rest = 0x0D # 0x0A # w" "?sg \<longrightarrow> kChunkSig c = chunk_signature c (kPrevSig c) (kChunkData c @ b)"
       "k_framed c ?p ((kSrc c)\<lparr>src_data := w\<rparr>) xs l s" "d1 = concat xs"
       "ended c l s (map (ex_write (b @ d1)) (kChecksums c)) (kDecoded c + int (length (b @ d1)))"
      by blast
    show ?r unfolding within_def
      by (rule exI [of _ b], rule exI [of _ w], rule exI [of _ xs], rule exI [of _ l], rule exI [of _ s]) (use * assms in simp)
  next
    assume ?r
    then obtain x w xs l s where *: "b @ rest = x @ [0x0D, 0x0A] @ w" "int (length x) = kRemaining c"
       "?sg \<longrightarrow> kChunkSig c = chunk_signature c (kPrevSig c) (kChunkData c @ x)"
       "k_framed c ?p ((kSrc c)\<lparr>src_data := w\<rparr>) xs l s" "b @ d1 = x @ concat xs"
       "ended c l s (map (ex_write (b @ d1)) (kChecksums c)) (kDecoded c + int (length (b @ d1)))"
      unfolding within_def assms(1) by blast
    have "length b = length x" using *(2) assms(2) by simp
    then have "x = b" "rest = 0x0D # 0x0A # w" using *(1) by simp_all
    then show ?l using * by auto blast+
  qed
  finally show ?thesis .
qed

lemma within_read_chunk:
  assumes "0 < kRemaining c" and "0 < k" and "\<not> kDone c" and "kErr c = None"
  shows "within c d \<longleftrightarrow> (\<exists>b c' d1. read_chunk k c = (b, None, c') \<and> d = b @ d1 \<and> to_come c' d1 \<and> b \<noteq> [] \<and> 0 \<le> kRemaining c' \<and> \<not> kDone c' \<and> kErr c' = None)"
proof -
  let ?n = "min k (nat (kRemaining c))"
  have split: "\<exists>b rest. length b = ?n \<and> src_data (kSrc c) = b @ rest \<and> b = take ?n d" if w: "within c d"
  proof -
    obtain x w xs where "src_data (kSrc c) = x @ [0x0D, 0x0A] @ w" "int (length x) = kRemaining c" "d = x @ concat xs"
      using w unfolding within_def by (elim exE conjE)
    then show ?thesis using assms by (intro exI [of _ "take ?n x"] exI [of _ "drop ?n x @ [0x0D, 0x0A] @ w"]) auto
  qed
  have one: "(\<exists>c'. read_chunk k c = (b, None, c') \<and> to_come c' d1 \<and> 0 \<le> kRemaining c' \<and> \<not> kDone c' \<and> kErr c' = None) \<longleftrightarrow> within c (b @ d1)"
    if b: "length b = ?n" "src_data (kSrc c) = b @ rest" for b rest d1
  proof -
    let ?c1 = "after_read b ((kSrc c)\<lparr>src_data := rest\<rparr>) c"
    have rc: "read_chunk k c = (b, None, c') \<longleftrightarrow> (if kRemaining ?c1 = 0 then finishChunk ?c1 = (None, c') else c' = ?c1)" for c'
      unfolding read_chunk_None [OF assms(1,2)] Let_def using b by (auto split: if_splits)
    show ?thesis
    proof (cases "int (length b) = kRemaining c")
      case True
      have "kRemaining c' = 0 \<and> kDone c' = kDone c \<and> kErr c' = kErr c" if "finishChunk ?c1 = (None, c')" for c'
        using that True unfolding finishChunk_None by (auto split: if_splits)
      then show ?thesis using between_after_read [OF b(2) True, of d1] rc True assms(3,4) by (auto simp: to_come_def)
    next
      case False
      then have "int (length b) < kRemaining c" using b(1) assms(1) by auto
      then show ?thesis using within_after_read [OF b(2), of d1] rc assms(3,4) by (simp add: to_come_def)
    qed
  qed
  show ?thesis
  proof
    assume "within c d"
    then obtain b rest where b: "length b = ?n" "src_data (kSrc c) = b @ rest" "b = take ?n d" using split by blast
    have "within c (b @ drop ?n d)" using \<open>within c d\<close> b(3) by simp
    then obtain c' where "read_chunk k c = (b, None, c')" "to_come c' (drop ?n d)" "0 \<le> kRemaining c'" "\<not> kDone c'" "kErr c' = None"
      using one [OF b(1,2)] by blast
    moreover have "b \<noteq> []" using b(1) assms(1,2) by auto
    moreover have "d = b @ drop ?n d" using b(3) by simp
    ultimately show "\<exists>b c' d1. read_chunk k c = (b, None, c') \<and> d = b @ d1 \<and> to_come c' d1 \<and> b \<noteq> [] \<and> 0 \<le> kRemaining c' \<and> \<not> kDone c' \<and> kErr c' = None" by blast
  next
    assume "\<exists>b c' d1. read_chunk k c = (b, None, c') \<and> d = b @ d1 \<and> to_come c' d1 \<and> b \<noteq> [] \<and> 0 \<le> kRemaining c' \<and> \<not> kDone c' \<and> kErr c' = None"
    then obtain b c' d1 where r: "read_chunk k c = (b, None, c')" "d = b @ d1" "to_come c' d1" "0 \<le> kRemaining c'" "\<not> kDone c'" "kErr c' = None" by blast
    then obtain rest where "length b = ?n" "src_data (kSrc c) = b @ rest" unfolding read_chunk_None [OF assms(1,2)] by blast
    then show "within c d" using one r by blast
  qed
qed

text \<open>No failure of the reader is \<open>io.EOF\<close>, so only the end of a body looks like one.\<close>

lemma readLine_Inl: "readLine s = (Inl e, s') \<Longrightarrow> e \<noteq> Sentinel EOF"
  by (auto simp: readLine_def split: prod.splits option.splits if_splits)

lemma trailer_lines_Inl: "trailer_lines n s tr can sig = (Inl e, s') \<Longrightarrow> e \<noteq> Sentinel EOF"
proof (induction n s tr can sig rule: trailer_lines.induct)
  case (2 n s tr can sig)
  obtain r s1 where r: "readLine s = (r, s1)" by (cases "readLine s")
  show ?case
  proof (cases r)
    case (Inl x)
    then show ?thesis using 2(3) r readLine_Inl [of s x s1] by (simp split: if_splits)
  next
    case (Inr line)
    then show ?thesis
    proof (cases "line = ''''")
      case True
      then show ?thesis using 2(3) r Inr by simp
    next
      case False
      then show ?thesis
        using 2(1,2) [OF r [symmetric] Inr False, OF _ _ refl refl] 2(3) r Inr by (auto simp: Let_def split: option.splits prod.splits if_splits)
    qed
  qed
qed simp

lemma ex_verify_Some: "ex_verify e = Some x \<Longrightarrow> x \<noteq> Sentinel EOF"
  by (auto simp: ex_verify_def split: if_splits)

lemma header_checksums_Inl: "header_checksums h = Inl e \<Longrightarrow> e \<noteq> Sentinel EOF"
  by (induction h rule: header_checksums.induct) (auto split: list.splits option.splits sum.splits if_splits simp: ebind_def)

lemma checksumsFrom_Inl: "checksumsFrom h = Inl e \<Longrightarrow> e \<noteq> Sentinel EOF"
  using header_checksums_Inl [of h] by (auto simp: checksumsFrom_def ebind_def Let_def split: sum.splits if_splits)

lemma settle_arrived_Inl: "settle_arrived cs as settled = Inl e \<Longrightarrow> e \<noteq> Sentinel EOF"
  by (induction cs as settled rule: settle_arrived.induct)
    (auto split: option.splits prod.splits simp: echeck_def dest: ex_verify_Some)

lemma settle_rest_Some: "settle_rest settled es i = Some e \<Longrightarrow> e \<noteq> Sentinel EOF"
  by (induction settled es i rule: settle_rest.induct) (auto split: option.splits if_splits dest: ex_verify_Some)

lemma settle_Some: "settle c = Some e \<Longrightarrow> e \<noteq> Sentinel EOF"
  unfolding settle_def settle_all_def
  by (auto split: if_splits sum.splits dest: checksumsFrom_Inl settle_arrived_Inl settle_rest_Some)


lemma k_failed_Some: "kErr c = None \<Longrightarrow> k_failed e c = (Some e', c') \<longleftrightarrow> e' = e \<and> c' = c\<lparr>kErr := Some e\<rparr>"
  by (auto simp: k_failed_def k_fail_def)

lemma verifyChunkSignature_Some: "verifyChunkSignature c = (Some e, c') \<Longrightarrow> e \<noteq> Sentinel EOF \<and> c' = c"
  by (auto simp: verifyChunkSignature_def split: if_splits)

lemma verifyChunkSignature_kErr: "verifyChunkSignature c = (e, c') \<Longrightarrow> kErr c' = kErr c"
  by (auto simp: verifyChunkSignature_def split: if_splits)

lemma readTrailer_Some: "readTrailer c = (Some e, c') \<Longrightarrow> e \<noteq> Sentinel EOF"
  unfolding readTrailer_def by (auto simp: Let_def split: prod.splits sum.splits if_splits dest: trailer_lines_Inl)

lemma readTrailer_kErr: "readTrailer c = (e, c') \<Longrightarrow> kErr c' = kErr c"
  unfolding readTrailer_def by (auto simp: Let_def split: prod.splits sum.splits if_splits)

lemma splitChunkHeader_Inl: "splitChunkHeader line b = Inl e \<Longrightarrow> e \<noteq> Sentinel EOF"
  by (auto simp: splitChunkHeader_def split: option.splits prod.splits if_splits)

lemma nextChunk_Some:
  assumes "nextChunk c = (Some e, c')" and "kErr c = None"
  shows "e \<noteq> Sentinel EOF"
proof -
  have last: "e \<noteq> Sentinel EOF" if "(case verifyChunkSignature k of
      (Some e, c) \<Rightarrow> k_failed e c
    | (None, c) \<Rightarrow>
        (case readTrailer c of
           (Some e, c) \<Rightarrow> k_failed e c
         | (None, c) \<Rightarrow>
             (case settle c of
                Some e \<Rightarrow> k_failed e c
              | None \<Rightarrow> (None, c\<lparr>kDone := True\<rparr>)))) = (Some e, c')" "kErr k = None" for k
    using that
    by (auto split: prod.splits option.splits)
      (metis k_failed_Some settle_Some verifyChunkSignature_kErr readTrailer_kErr readTrailer_Some verifyChunkSignature_Some)+
  obtain r s where r: "readLine (kSrc c) = (r, s)" by (cases "readLine (kSrc c)")
  show ?thesis
  proof (cases r)
    case (Inl x)
    then show ?thesis using assms r readLine_Inl [of "kSrc c" x s] by (simp add: nextChunk_def k_failed_Some)
  next
    case (Inr line)
    show ?thesis
    proof (cases "splitChunkHeader line (Signed (kMode c))")
      case (Inl x)
      then show ?thesis using assms r Inr splitChunkHeader_Inl [OF Inl] by (simp add: nextChunk_def k_failed_Some)
    next
      case (Inr p)
      obtain st sig where p: "p = (st, sig)" by (cases p)
      show ?thesis using assms r \<open>r = Inr line\<close> Inr p last [of "c\<lparr>kSrc := s, kChunkSig := sig, kChunkData := []\<rparr>"]
        by (cases "ParseInt16 st") (auto simp: nextChunk_def Let_def k_failed_Some simp del: prod.case_eq_if split: if_splits)
    qed
  qed
qed

lemma finishChunk_Some: "finishChunk c = (Some e, c') \<Longrightarrow> kErr c = None \<Longrightarrow> e \<noteq> Sentinel EOF"
  unfolding finishChunk_def expectCRLF_def
  by (auto simp: k_failed_Some verifyChunkSignature_Some split: prod.splits option.splits if_splits dest!: verifyChunkSignature_Some)

lemma read_chunk_Some: "read_chunk k c = (b, Some e, c') \<Longrightarrow> kErr c = None \<Longrightarrow> e \<noteq> Sentinel EOF"
  unfolding read_chunk_def k_fail_def
  by (auto simp: Let_def split: prod.splits option.splits if_splits dest: finishChunk_Some)

text \<open>A reader that has neither failed nor ended.\<close>

definition k_open :: "ChunkedReader \<Rightarrow> bool" where
  "k_open c \<longleftrightarrow> kErr c = None \<and> \<not> kDone c \<and> 0 \<le> kRemaining c"

lemma nextChunk_open:
  assumes "nextChunk c = (None, c')" and "\<not> kDone c'" and "k_open c"
  shows "k_open c' \<and> 0 < kRemaining c'"
proof -
  obtain s n sig where h: "chunk_header (Signed (kMode c)) (kSrc c) = Some (s, n, sig)"
    using nextChunk_failing [of c c'] assms(1) unfolding chunk_header_Some [symmetric] by (metis chunk_header_Some)
  show ?thesis using nextChunk_header(2) [OF h, of c'] assms by (simp add: k_open_def)
qed

lemma read_chunk_open:
  assumes "read_chunk k c = (b, None, c')" and "k_open c" and "0 < kRemaining c" and "0 < k"
  shows "b \<noteq> [] \<and> k_open c'"
proof -
  obtain rest where b: "length b = min k (nat (kRemaining c))" and
    r: "let c1 = after_read b ((kSrc c)\<lparr>src_data := rest\<rparr>) c in if kRemaining c1 = 0 then finishChunk c1 = (None, c') else c' = c1"
    using assms(1) unfolding read_chunk_None [OF assms(3,4)] by blast
  have "0 \<le> kRemaining c - int (length b)" using b assms(3) by auto
  then have "k_open c'" using r assms(2) by (auto simp: Let_def k_open_def finishChunk_None split: if_splits)
  then show ?thesis using b assms(3,4) by auto
qed


lemma ReadK_None:
  assumes "ReadK k c = (b, None, c')" and "k_open c" and "0 < k"
  shows "b \<noteq> [] \<and> k_open c'"
proof (cases "kRemaining c = 0")
  case True
  then obtain c1 where c1: "nextChunk c = (None, c1)" "\<not> kDone c1" "read_chunk k c1 = (b, None, c')"
    using assms by (auto simp: ReadK_def k_open_def split: prod.splits option.splits if_splits)
  show ?thesis using nextChunk_open [OF c1(1,2) assms(2)] read_chunk_open [OF c1(3)] assms(3) by simp
next
  case False
  then have "read_chunk k c = (b, None, c')" using assms by (simp add: ReadK_def k_open_def)
  then show ?thesis using read_chunk_open [of k c b c'] assms False by (simp add: k_open_def)
qed

lemma ReadK_EOF:
  assumes "ReadK k c = (b, Some (Sentinel EOF), c')" and "k_open c"
  shows "b = []"
proof (cases "kRemaining c = 0")
  case True
  show ?thesis
  proof (cases "nextChunk c")
    case (Pair e c1)
    then show ?thesis
      using assms True nextChunk_open [of c c1] read_chunk_Some [of k c1 b "Sentinel EOF" c']
      by (auto simp: ReadK_def k_open_def split: option.splits if_splits)
  qed
next
  case False
  then show ?thesis using assms read_chunk_Some [of k c b "Sentinel EOF" c'] by (simp add: ReadK_def k_open_def)
qed

lemma to_come_ReadK:
  assumes "k_open c" and "0 < k"
  shows "to_come c d \<longleftrightarrow>
     (\<exists>b c' d1. ReadK k c = (b, None, c') \<and> d = b @ d1 \<and> to_come c' d1) \<or> (\<exists>c'. ReadK k c = ([], Some (Sentinel EOF), c') \<and> d = [])"
proof -
  have within: "within c d \<longleftrightarrow> (\<exists>b c' d1. read_chunk k c = (b, None, c') \<and> d = b @ d1 \<and> to_come c' d1)"
    if "k_open c" "0 < kRemaining c" for c d
  proof -
    have "\<not> kDone c" "kErr c = None" using that(1) by (simp_all add: k_open_def)
    from within_read_chunk [OF that(2) assms(2) this, of d] show ?thesis
      using read_chunk_open [OF _ that assms(2)] unfolding k_open_def by auto
  qed
  have eof: "read_chunk k c \<noteq> (b, Some (Sentinel EOF), c')" if "k_open c" for c b c'
    using read_chunk_Some [of k c b "Sentinel EOF" c'] that by (auto simp: k_open_def)
  show ?thesis
  proof (cases "kRemaining c = 0")
    case False
    then have r: "ReadK k c = read_chunk k c" "0 < kRemaining c" using assms(1) by (auto simp: ReadK_def k_open_def)
    then show ?thesis using within [OF assms(1)] eof [OF assms(1)] False by (simp add: to_come_def)
  next
    case True
    have o: "\<not> kDone c" "kErr c = None" using assms(1) by (simp_all add: k_open_def)
    obtain e c1 where n: "nextChunk c = (e, c1)" by (cases "nextChunk c")
    show ?thesis
    proof (cases e)
      case (Some x)
      then show ?thesis using n o True nextChunk_Some [of c x c1]
        by (simp add: to_come_def between_nextChunk [OF o(1) True] ReadK_def)
    next
      case None
      show ?thesis
      proof (cases "kDone c1")
        case True
        then show ?thesis using n o None \<open>kRemaining c = 0\<close>
          by (simp add: to_come_def between_nextChunk [OF o(1) \<open>kRemaining c = 0\<close>] ReadK_def)
      next
        case False
        have op: "k_open c1" "0 < kRemaining c1" using nextChunk_open [OF _ False assms(1)] n None by simp_all
        have "ReadK k c = read_chunk k c1" using n o None False \<open>kRemaining c = 0\<close> by (simp add: ReadK_def)
        moreover have "to_come c d \<longleftrightarrow> within c1 d"
          using n None False op(2) \<open>kRemaining c = 0\<close> by (simp add: to_come_def between_nextChunk [OF o(1) \<open>kRemaining c = 0\<close>])
        ultimately show ?thesis using within [OF op] eof [OF op(1)] by simp
      qed
    qed
  qed
qed

lemma drain_to_come:
  assumes "k_open c" and "0 < k" and "length d < fuel"
  shows "(\<exists>c'. drain (ReadK k) fuel c = Some (d, None, c')) \<longleftrightarrow> to_come c d"
  using assms(1,3)
proof (induction fuel arbitrary: c d)
  case (Suc fuel)
  obtain b e c1 where r: "ReadK k c = (b, e, c1)" by (cases "ReadK k c")
  show ?case
  proof (cases e)
    case (Some x)
    have "x = Sentinel EOF \<Longrightarrow> b = []" using ReadK_EOF r Some Suc.prems(1) by blast
    then show ?thesis using r Some unfolding to_come_ReadK [OF Suc.prems(1) assms(2)] by auto
  next
    case None
    have b: "b \<noteq> []" "k_open c1" using ReadK_None [of k c b c1] r None Suc.prems(1) assms(2) by simp_all
    have "(\<exists>c'. drain (ReadK k) (Suc fuel) c = Some (d, None, c')) \<longleftrightarrow>
        (\<exists>d1. d = b @ d1 \<and> (\<exists>c'. drain (ReadK k) fuel c1 = Some (d1, None, c')))"
      using r None by auto
    also have "\<dots> \<longleftrightarrow> (\<exists>d1. d = b @ d1 \<and> to_come c1 d1)"
      using Suc.IH [OF b(2)] Suc.prems(2) b(1) by (metis (no_types, lifting) add_less_cancel_left length_append length_greater_0_conv
          less_add_same_cancel2 order_less_le_trans not_less_eq order_less_trans less_Suc_eq_le add.commute)
    also have "\<dots> \<longleftrightarrow> to_come c d" unfolding to_come_ReadK [OF Suc.prems(1) assms(2)] using r None by auto
    finally show ?thesis .
  qed
qed simp


text \<open>C10: 
  C0: The aws-chunked reader of \<open>chunked.go\<close> accepts exactly the bodies the format allows: drained with any buffer size, it ends without an error after the bytes \<open>d\<close> if and only
  if the wire holds a sequence of chunks with the data \<open>d\<close>, each with a size, a line end and (in the signed modes) the signature of its data chained to the one before it and to
  the seed signature of the request, then a last chunk and a trailer of at most sixteen lines that carries its own signature where the mode asks for one, \<open>d\<close> has the
  announced length, and all checksums settle. Any other body ends in an error.
\<close>

theorem chunked_exact:
  assumes "NewChunkedReader body res n = Inr c0" and "c = SetChecksums es c0" and "0 < k" and "length d < fuel"
  shows "(\<exists>c'. drain (ReadK k) fuel c = Some (d, None, c')) \<longleftrightarrow>
    (\<exists>xs l s tr can sig s'.
       framed (Signed (arPayloadMode res)) (chunk_signature c) (arSeed res) body xs l s \<and> d = concat xs \<and>
       trailer_lines maxTrailerLines s [] '''' '''' = (Inr (tr, can, sig), s') \<and>
       (arPayloadMode res = PayloadStreamingSignedTrailer \<longrightarrow> sig = trailer_signature c l can) \<and>
       settle_all tr (map (ex_write d) es) (int (length d)) n = None)"
proof -
  have c: "kSrc c = body" "kMode c = arPayloadMode res" "kPrevSig c = arSeed res" "kRemaining c = 0" "kDecoded c = 0" "kExpectedDecoded c = n" "kTrailer c = []"
      "kChecksums c = es" "k_open c"
    using assms(1,2) by (auto simp: NewChunkedReader_def SetChecksums_def k_open_def split: if_splits)
  show ?thesis unfolding drain_to_come [OF c(9) assms(3,4)] by (simp add: to_come_def between_def ended_def c)
qed

definition example_result :: authResult where
  "example_result = \<lparr>arClient = example_client, arAuthorization = \<lparr>auCredential = example_credential, auSignedHeaders = [], auSignature = ''''\<rparr>,
     arPayloadMode = PayloadStreamingUnsignedTrailer, arPayloadHash = StreamingUnsignedTrail, arSigningKey = [], arSeed = '''', arTime = 0, arPresigned = False\<rparr>"

abbreviation CRLF :: string where "CRLF \<equiv> [CHR 0x0D, CHR 0x0A]"

lemma readLine_line:
  assumes "CHR 0x0A \<notin> set l" and "length l + 2 \<le> maxChunkHeaderLine"
  shows "readLine \<lparr>src_data = bytes_of (l @ CRLF @ r), src_end = e\<rparr> = (Inr l, \<lparr>src_data = bytes_of r, src_end = e\<rparr>)"
proof -
  have "takeWhile (\<lambda>x. x \<noteq> CHR 0x0A) (l @ CRLF @ r) = l @ [CHR 0x0D]" "tl (dropWhile (\<lambda>x. x \<noteq> CHR 0x0A) (l @ CRLF @ r)) = r"
    using assms(1) by (auto simp: takeWhile_append dropWhile_append)
  then have "cut (CHR 0x0A) (l @ CRLF @ r) = Some (l @ [CHR 0x0D], r)" by (simp add: cut_def)
  then have "read_string \<lparr>src_data = bytes_of (l @ CRLF @ r), src_end = e\<rparr> = (l @ CRLF, None, \<lparr>src_data = bytes_of r, src_end = e\<rparr>)"
    unfolding read_string_def source.simps string_of_bytes_of by simp
  then show ?thesis using assms(2) by (simp add: readLine_def trim_suffix_def butlast_append)
qed

text \<open>The body \<open>abc\<close> in two unsigned chunks.\<close>

definition example_wire :: source where
  "example_wire = \<lparr>src_data = bytes_of (''2'' @ CRLF @ ''ab'' @ CRLF @ ''1'' @ CRLF @ ''c'' @ CRLF @ ''0'' @ CRLF @ CRLF), src_end = Sentinel EOF\<rparr>"

lemma example_framed:
  "framed False sg prev example_wire [[97, 98], [99]] prev \<lparr>src_data = bytes_of CRLF, src_end = Sentinel EOF\<rparr>"
proof -
  have p: "ParseInt16 ''2'' = Some 2" "ParseInt16 ''1'' = Some 1" "ParseInt16 ''0'' = Some 0" by code_simp+
  have s: "splitChunkHeader l False = Inr (l, '''')" if "CHR '';'' \<notin> set l" for l using that by (simp add: splitChunkHeader_def cut_def)
  have l: "readLine \<lparr>src_data = bytes_of ([x] @ CRLF @ r), src_end = e\<rparr> = (Inr [x], \<lparr>src_data = bytes_of r, src_end = e\<rparr>)" if "x \<noteq> CHR 0x0A" for x r e
    using that by (intro readLine_line) (simp_all add: maxChunkHeaderLine_def)
  have h: "chunk_header False \<lparr>src_data = bytes_of ([x] @ CRLF @ r), src_end = e\<rparr> = Some (\<lparr>src_data = bytes_of r, src_end = e\<rparr>, n, '''')"
    if "x \<in> {CHR ''0'', CHR ''1'', CHR ''2''}" "ParseInt16 [x] = Some n" for x r e n
    using that l [of x r e] s [of "[x]"] by (auto simp: chunk_header_def)
  from h [of "CHR ''2''" 2 "''ab'' @ CRLF @ ''1'' @ CRLF @ ''c'' @ CRLF @ ''0'' @ CRLF @ CRLF"] h [of "CHR ''1''" 1 "''c'' @ CRLF @ ''0'' @ CRLF @ CRLF"]
    h [of "CHR ''0''" 0 CRLF] p
  show ?thesis by (simp add: framed_Cons_iff framed_Nil_iff example_wire_def bytes_of_def maxChunkSize_def)
qed

theorem chunked_exact_witness:
  "\<exists>c c'. NewChunkedReader example_wire example_result 3 = Inr c \<and> drain (ReadK 2) 9 (SetChecksums [] c) = Some ([97, 98, 99], None, c')"
proof -
  obtain c where c: "NewChunkedReader example_wire example_result 3 = Inr c"
    by (simp add: NewChunkedReader_def example_result_def Streaming_def)
  have t: "trailer_lines maxTrailerLines \<lparr>src_data = bytes_of CRLF, src_end = Sentinel EOF\<rparr> [] '''' '''' = (Inr ([], '''', ''''), \<lparr>src_data = [], src_end = Sentinel EOF\<rparr>)"
    using readLine_line [of "''''" "''''" "Sentinel EOF"] by (simp add: maxTrailerLines_def maxChunkHeaderLine_def numeral_eq_Suc bytes_of_def)
  have s: "settle_all [] [] 3 3 = None" by (simp add: settle_all_def checksumsFrom_def ebind_def header_get_def)
  have "\<exists>c'. drain (ReadK 2) 9 (SetChecksums [] c) = Some ([97, 98, 99], None, c')"
    by (rule iffD2 [OF chunked_exact [OF c refl]], simp, simp, intro exI [of _ "[[97, 98], [99]]"] exI conjI)
      (use example_framed t s in \<open>simp_all add: example_result_def Signed_def del: trailer_lines.simps\<close>)
  then show ?thesis using c by blast
qed


section \<open>Bodies that are not framed\<close>

lemma first_failure_None: "first_failure es = None \<longleftrightarrow> (\<forall>e\<in>set es. ex_verify e = None)"
  by (induction es) (auto split: option.split)

lemma first_failure_EOF: "first_failure es \<noteq> Some (Sentinel EOF)"
  by (induction es) (auto split: option.split dest: ex_verify_Some)

lemma drain_plain:
  assumes "bSrc b = Plain s" and "bErr b = None" and "\<not> bVerified b" and "length (src_data s) < fuel" and "0 < k"
  shows "\<exists>b'. drain (ReadB k) fuel b =
    Some (src_data s, if src_end s = Sentinel EOF then first_failure (map (ex_write (src_data s)) (bChecksums b)) else Some (src_end s), b')"
  using assms
proof (induction fuel arbitrary: b s)
  case (Suc fuel)
  show ?case
  proof (cases "src_data s = []")
    case True
    then show ?thesis using Suc.prems(1-3) first_failure_EOF [of "bChecksums b"]
      by (auto simp: ReadB_def body_read_def read_plain_def body_verify_def Let_def split: option.splits)
  next
    case False
    let ?b = "b\<lparr>bSrc := Plain (s\<lparr>src_data := drop k (src_data s)\<rparr>), bChecksums := map (ex_write (take k (src_data s))) (bChecksums b)\<rparr>"
    have r: "ReadB k b = (take k (src_data s), None, ?b)"
      using Suc.prems(1-3) False by (simp add: ReadB_def body_read_def read_plain_def)
    have "0 < length (src_data s)" using False by simp
    then have "length (drop k (src_data s)) < fuel" using Suc.prems(4,5) by (simp only: length_drop)
    from Suc.IH [of ?b "s\<lparr>src_data := drop k (src_data s)\<rparr>"] this Suc.prems(2,3,5) show ?thesis by (auto simp: r)
  qed
qed simp

lemma header_checksums_exp: "header_checksums h = Inr es \<Longrightarrow> e \<in> set es \<Longrightarrow> exData e = [] \<and> exExpected e \<noteq> None"
  by (induction h arbitrary: es rule: header_checksums.induct) (auto simp: ebind_def split: list.splits option.splits sum.splits if_splits)

lemma checksumsFrom_exp: "checksumsFrom h = Inr es \<Longrightarrow> e \<in> set es \<Longrightarrow> exData e = [] \<and> exExpected e \<noteq> None"
  by (auto simp: checksumsFrom_def ebind_def Let_def split: sum.splits if_splits dest: header_checksums_exp)

lemma ex_verify_write:
  assumes "exData e = []" and "exExpected e \<noteq> None"
  shows "ex_verify (ex_write d e) = None \<longleftrightarrow> exExpected e = Some (digest (exAlg e) d)"
  using assms by (auto simp: ex_verify_def ex_write_def)

text \<open>C13: 
  C0: A body that is sent as it is ends without an error if and only if the connection delivered it to its end, every checksum the request declares (\<open>Content-MD5\<close> and the
  \<open>x-amz-checksum-\<close> headers) is the digest of exactly the bytes delivered, and, where the request's signature covers the hash of the payload, those bytes have that hash.
\<close>

theorem plain_body_exact:
  assumes "NewBodyReader r body res = Inr (b, n)" and "\<not> Streaming (arPayloadMode res)" and "checksumsFrom (rHeader r) = Inr es"
    and "0 < k" and "length (src_data body) < fuel"
  shows "(\<exists>b'. drain (ReadB k) fuel b = Some (d, None, b')) \<longleftrightarrow>
    d = src_data body \<and> src_end body = Sentinel EOF \<and> (\<forall>e\<in>set es. exExpected e = Some (digest (exAlg e) d)) \<and>
    (arPayloadMode res = PayloadHashed \<longrightarrow> hex_DecodeString (arPayloadHash res) = Inr (sha256 d))"
proof -
  have es: "ex_verify (ex_write d e) = None \<longleftrightarrow> exExpected e = Some (digest (exAlg e) d)" if "e \<in> set es" for e
    using checksumsFrom_exp [OF assms(3) that] by (simp add: ex_verify_write)
  obtain b0 where b: "bSrc b = Plain body" "bErr b = None" "\<not> bVerified b"
    and cs: "if arPayloadMode res = PayloadHashed
      then hex_DecodeString (arPayloadHash res) = Inr b0 \<and> bChecksums b = es @ [\<lparr>exName = ''x-amz-content-sha256'', exAlg = ''SHA256'', exData = [], exExpected = Some b0\<rparr>]
      else bChecksums b = es"
    using assms(1-3) by (auto simp: NewBodyReader_def ebind_def emap_err_def split: if_splits sum.splits)
  obtain b' where "drain (ReadB k) fuel b = Some (src_data body,
      if src_end body = Sentinel EOF then first_failure (map (ex_write (src_data body)) (bChecksums b)) else Some (src_end body), b')"
    using drain_plain [OF b assms(5,4)] by blast
  then have "(\<exists>b'. drain (ReadB k) fuel b = Some (d, None, b')) \<longleftrightarrow>
      d = src_data body \<and> src_end body = Sentinel EOF \<and> first_failure (map (ex_write d) (bChecksums b)) = None"
    by auto
  also have "\<dots> \<longleftrightarrow> d = src_data body \<and> src_end body = Sentinel EOF \<and> (\<forall>e\<in>set es. exExpected e = Some (digest (exAlg e) d)) \<and>
    (arPayloadMode res = PayloadHashed \<longrightarrow> hex_DecodeString (arPayloadHash res) = Inr (sha256 d))"
    using cs es by (auto simp: first_failure_None ex_verify_write digest_def split: if_splits)
  finally show ?thesis .
qed


theorem plain_body_exact_witness:
  "\<exists>b b'. NewBodyReader (example_url '''') \<lparr>src_data = [97, 98, 99], src_end = Sentinel EOF\<rparr>
       (example_result\<lparr>arPayloadMode := PayloadHashed, arPayloadHash := hex_EncodeToString (sha256 [97, 98, 99])\<rparr>) = Inr (b, 0) \<and>
     drain (ReadB 2) 9 b = Some ([97, 98, 99], None, b')"
proof -
  let ?body = "\<lparr>src_data = [97, 98, 99], src_end = Sentinel EOF\<rparr>"
  let ?res = "example_result\<lparr>arPayloadMode := PayloadHashed, arPayloadHash := hex_EncodeToString (sha256 [97, 98, 99])\<rparr>"
  have cs: "checksumsFrom (rHeader (example_url '''')) = Inr []" by (simp add: checksumsFrom_def ebind_def header_get_def example_url_def)
  have m: "\<not> Streaming (arPayloadMode ?res)" by (simp add: Streaming_def)
  obtain b where b: "NewBodyReader (example_url '''') ?body ?res = Inr (b, 0)"
    using cs by (simp add: NewBodyReader_def ebind_def emap_err_def Streaming_def hex.decode_encode example_url_def)
  have "\<exists>b'. drain (ReadB 2) 9 b = Some ([97, 98, 99], None, b')"
    by (rule iffD2 [OF plain_body_exact [OF b m cs]]) (simp_all add: hex.decode_encode)
  then show ?thesis using b by blast
qed


text \<open>
  A line is read to its end, however long it is, before its length is compared with the limit: all of it has been taken from the connection when it is refused.
\<close>

lemma readLine_unbounded:
  assumes "CHR 0x0A \<notin> set l" and "maxChunkHeaderLine \<le> length l"
  shows "\<exists>e. readLine \<lparr>src_data = bytes_of (l @ [CHR 0x0A] @ r), src_end = x\<rparr> = (Inl e, \<lparr>src_data = bytes_of r, src_end = x\<rparr>)"
proof -
  have "takeWhile (\<lambda>x. x \<noteq> CHR 0x0A) (l @ [CHR 0x0A] @ r) = l" "tl (dropWhile (\<lambda>x. x \<noteq> CHR 0x0A) (l @ [CHR 0x0A] @ r)) = r"
    using assms(1) by (auto simp: takeWhile_append dropWhile_append)
  then have "cut (CHR 0x0A) (l @ [CHR 0x0A] @ r) = Some (l, r)" by (simp add: cut_def)
  then have "read_string \<lparr>src_data = bytes_of (l @ [CHR 0x0A] @ r), src_end = x\<rparr> = (l @ [CHR 0x0A], None, \<lparr>src_data = bytes_of r, src_end = x\<rparr>)"
    unfolding read_string_def source.simps string_of_bytes_of by simp
  then show ?thesis using assms(2) by (simp add: readLine_def)
qed

end
